(* ===== verification/Prelude.thy ===== *)
theory Prelude
  imports Main "HOL-Library.Word"
begin

text \<open>
  Shared vocabulary of the development: machine words under the names the Rust code uses,
  results of fallible code as sums (\<open>Inl\<close> the error, \<open>Inr\<close> the value), little-endian byte
  strings, reads and writes inside byte buffers, Rust's three-way \<open>Ordering\<close>, and the
  interface of a total comparator, on which the index code relies.
\<close>

unbundle bit_operations_syntax

type_synonym u8 = "8 word"
type_synonym u16 = "16 word"
type_synonym u32 = "32 word"
type_synonym u64 = "64 word"
type_synonym i64 = "64 word"
type_synonym bytes = "u8 list"
type_synonym page_id = "32 word"

named_theorems result_simps
named_theorems bytes_simps

section \<open>Results\<close>

text \<open>The \<open>?\<close> operator of Rust: stop at the first error.\<close>

definition ebind :: "'e + 'a \<Rightarrow> ('a \<Rightarrow> 'e + 'b) \<Rightarrow> 'e + 'b" where
  "ebind m f = (case m of Inl e \<Rightarrow> Inl e | Inr x \<Rightarrow> f x)"

lemma ebind_Inl [simp]: "ebind (Inl e) f = Inl e"
  by (simp add: ebind_def)

lemma ebind_Inr [simp]: "ebind (Inr x) f = f x"
  by (simp add: ebind_def)

lemma ebind_eq_Inr [result_simps]: "ebind m f = Inr y \<longleftrightarrow> (\<exists>x. m = Inr x \<and> f x = Inr y)"
  by (cases m) auto

lemma ebind_eq_Inl [result_simps]: "ebind m f = Inl e \<longleftrightarrow> m = Inl e \<or> (\<exists>x. m = Inr x \<and> f x = Inl e)"
  by (cases m) auto

lemma ebind_assoc: "ebind (ebind m f) g = ebind m (\<lambda>x. ebind (f x) g)"
  by (cases m) auto

lemma ebind_cong [fundef_cong]:
  "m = m' \<Longrightarrow> (\<And>x. m' = Inr x \<Longrightarrow> f x = f' x) \<Longrightarrow> ebind m f = ebind m' f'"
  by (cases m') auto

lemma Inr_if_iff: "(if b then Inl e else x) = Inr y \<longleftrightarrow> \<not> b \<and> x = Inr y"
  by auto

lemma ebind_InrE:
  assumes "ebind m f = Inr y"
  obtains x where "m = Inr x" and "f x = Inr y"
  using assms by (auto simp: result_simps)

text \<open>Change the error type, as \<open>#[from]\<close> conversions do.\<close>

definition emap_err :: "('e \<Rightarrow> 'f) \<Rightarrow> 'e + 'a \<Rightarrow> 'f + 'a" where
  "emap_err g m = (case m of Inl e \<Rightarrow> Inl (g e) | Inr x \<Rightarrow> Inr x)"

lemma emap_err_Inl [simp]: "emap_err g (Inl e) = Inl (g e)"
  by (simp add: emap_err_def)

lemma emap_err_Inr [simp]: "emap_err g (Inr x) = Inr x"
  by (simp add: emap_err_def)

lemma emap_err_eq_Inr [result_simps]: "emap_err g m = Inr x \<longleftrightarrow> m = Inr x"
  by (cases m) auto

text \<open>Stateful code that can fail: the state persists on the error path, as in Rust, where an early
  return keeps every mutation made before it.\<close>

type_synonym ('s, 'e, 'a) op = "'s \<Rightarrow> ('e + 'a) \<times> 's"

definition oret :: "'a \<Rightarrow> ('s, 'e, 'a) op" where
  "oret x s = (Inr x, s)"

definition ofail :: "'e \<Rightarrow> ('s, 'e, 'a) op" where
  "ofail e s = (Inl e, s)"

definition obind :: "('s, 'e, 'a) op \<Rightarrow> ('a \<Rightarrow> ('s, 'e, 'b) op) \<Rightarrow> ('s, 'e, 'b) op" where
  "obind m f s = (case m s of (Inl e, s') \<Rightarrow> (Inl e, s') | (Inr x, s') \<Rightarrow> f x s')"

definition olift :: "'e + 'a \<Rightarrow> ('s, 'e, 'a) op" where
  "olift r s = (r, s)"

lemma oret_apply [simp]: "oret x s = (Inr x, s)"
  by (simp add: oret_def)

lemma ofail_apply [simp]: "ofail e s = (Inl e, s)"
  by (simp add: ofail_def)

lemma olift_apply [simp]: "olift r s = (r, s)"
  by (simp add: olift_def)

lemma obind_eq_Inr [result_simps]:
  "obind m f s = (Inr y, s') \<longleftrightarrow> (\<exists>x s1. m s = (Inr x, s1) \<and> f x s1 = (Inr y, s'))"
  by (auto simp: obind_def split: prod.splits sum.splits)

lemma obind_step: "m s = (Inr x, s1) \<Longrightarrow> obind m f s = f x s1"
  by (simp add: obind_def)

lemma obind_fail: "m s = (Inl e, s1) \<Longrightarrow> obind m f s = (Inl e, s1)"
  by (simp add: obind_def)

lemma obind_InrE:
  assumes "obind m f s = (Inr y, s')"
  obtains x s1 where "m s = (Inr x, s1)" and "f x s1 = (Inr y, s')"
  using assms by (auto simp: result_simps)

lemma obind_cong [fundef_cong]:
  "m s = m' s' \<Longrightarrow> (\<And>x s1. m' s' = (Inr x, s1) \<Longrightarrow> f x s1 = f' x s1) \<Longrightarrow> obind m f s = obind m' f' s'"
  by (auto simp: obind_def split: prod.splits sum.splits)

text \<open>\<open>for x in xs { f(x, acc)?; }\<close>\<close>

fun for_each :: "('a \<Rightarrow> 'b \<Rightarrow> ('s, 'e, 'b) op) \<Rightarrow> 'a list \<Rightarrow> 'b \<Rightarrow> ('s, 'e, 'b) op" where
  "for_each f [] acc = oret acc"
| "for_each f (x # xs) acc = obind (f x acc) (for_each f xs)"

section \<open>Little-endian integers\<close>

primrec le_bytes :: "nat \<Rightarrow> nat \<Rightarrow> bytes" where
  "le_bytes 0 x = []"
| "le_bytes (Suc n) x = word_of_nat x # le_bytes n (x div 256)"

primrec le_val :: "bytes \<Rightarrow> nat" where
  "le_val [] = 0"
| "le_val (b # bs) = unat b + 256 * le_val bs"

lemma length_le_bytes [simp]: "length (le_bytes n x) = n"
  by (induction n arbitrary: x) auto

lemma le_bytes_numeral [bytes_simps]:
  "le_bytes (numeral k) x = word_of_nat x # le_bytes (pred_numeral k) (x div 256)"
  by (subst numeral_eq_Suc) (rule le_bytes.simps)

lemma unat_word_of_nat_u8: "unat (word_of_nat x :: u8) = x mod 256"
  by (simp add: unat_of_nat)

lemma unat_bound: "unat (w :: 'a::len word) < 2 ^ LENGTH('a)"
  by (rule unsigned_less)

lemma word_less_inc: "w \<noteq> - 1 \<Longrightarrow> w < w + (1 :: 'a::len word)"
proof -
  assume "w \<noteq> - 1"
  then have "w + 1 \<noteq> 0" by (metis add_eq_0_iff add.commute minus_minus)
  then have "unat (w + 1) = unat w + 1"
    by (metis Suc_eq_plus1 add.commute unatSuc)
  then show ?thesis by (simp add: word_less_nat_alt)
qed

lemma le_val_le_bytes: "le_val (le_bytes n x) = x mod 256 ^ n"
proof (induction n arbitrary: x)
  case (Suc n)
  have "x mod 256 + 256 * (x div 256 mod 256 ^ n) = x mod 256 ^ Suc n"
    by (simp add: mod_mult2_eq)
  then show ?case by (simp add: Suc unat_word_of_nat_u8)
qed simp

lemma le_val_bound: "le_val bs < 256 ^ length bs"
proof (induction bs)
  case (Cons b bs)
  have "unat b < 256" using unat_bound [of b] by simp
  then have "unat b + 256 * le_val bs < 256 + 256 * le_val bs" by simp
  also have "\<dots> = 256 * Suc (le_val bs)" by simp
  also have "\<dots> \<le> 256 * 256 ^ length bs"
    using Cons.IH by (intro mult_le_mono2) simp
  finally show ?case by simp
qed simp

lemma le_bytes_le_val: "length bs = n \<Longrightarrow> le_bytes n (le_val bs) = bs"
proof (induction bs arbitrary: n)
  case (Cons b bs)
  then obtain m where n: "n = Suc m" and m: "length bs = m" by (cases n) auto
  have b: "unat b < 256" using unat_bound [of b] by simp
  have "(word_of_nat (unat b + 256 * le_val bs) :: u8) = b"
  proof (rule word_unat_eq_iff [THEN iffD2])
    show "unat (word_of_nat (unat b + 256 * le_val bs) :: u8) = unat b"
      using b by (simp only: unat_word_of_nat_u8) simp
  qed
  moreover have "(unat b + 256 * le_val bs) div 256 = le_val bs" using b by simp
  ultimately show ?case using Cons.IH [OF m] n by simp
qed simp

text \<open>\<open>to_le_bytes\<close> and \<open>from_le_bytes\<close> of the unsigned (and, bit for bit, signed) integers.\<close>

definition to_le_bytes :: "'a::len word \<Rightarrow> bytes" where
  "to_le_bytes w = le_bytes (LENGTH('a) div 8) (unat w)"

definition from_le_bytes :: "bytes \<Rightarrow> 'a::len word" where
  "from_le_bytes bs = word_of_nat (le_val bs)"

lemma length_to_le_bytes: "length (to_le_bytes (w :: 'a::len word)) = LENGTH('a) div 8"
  by (simp add: to_le_bytes_def)

lemma length_to_le_bytes_sized [simp]:
  "length (to_le_bytes (w16 :: u16)) = 2"
  "length (to_le_bytes (w32 :: u32)) = 4"
  "length (to_le_bytes (w64 :: u64)) = 8"
  by (simp_all add: length_to_le_bytes)

lemma from_to_le_bytes:
  assumes "8 dvd LENGTH('a)"
  shows "from_le_bytes (to_le_bytes w) = (w :: 'a::len word)"
proof -
  have "(256 :: nat) ^ (LENGTH('a) div 8) = 2 ^ (8 * (LENGTH('a) div 8))"
    by (subst power_mult) simp
  also have "\<dots> = 2 ^ LENGTH('a)" using assms by simp
  finally have "unat w mod 256 ^ (LENGTH('a) div 8) = unat w"
    using unat_bound [of w] by simp
  then show ?thesis
    by (simp add: from_le_bytes_def to_le_bytes_def le_val_le_bytes)
qed

lemma from_to_le_bytes_sized [simp]:
  "from_le_bytes (to_le_bytes (w16 :: u16)) = w16"
  "from_le_bytes (to_le_bytes (w32 :: u32)) = w32"
  "from_le_bytes (to_le_bytes (w64 :: u64)) = w64"
  by (simp_all add: from_to_le_bytes)

lemma to_from_le_bytes:
  assumes "8 dvd LENGTH('a)" and "length bs = LENGTH('a) div 8"
  shows "to_le_bytes (from_le_bytes bs :: 'a::len word) = bs"
proof -
  have "(256 :: nat) ^ (LENGTH('a) div 8) = 2 ^ (8 * (LENGTH('a) div 8))"
    by (subst power_mult) simp
  also have "\<dots> = 2 ^ LENGTH('a)" using assms(1) by simp
  finally have "le_val bs < 2 ^ LENGTH('a)" using le_val_bound [of bs] assms(2) by simp
  then have "unat (from_le_bytes bs :: 'a word) = le_val bs"
    by (simp add: from_le_bytes_def unat_of_nat)
  then show ?thesis using assms(2) by (simp add: to_le_bytes_def le_bytes_le_val)
qed

section \<open>Byte buffers\<close>

text \<open>\<open>sub_bytes bs off n\<close> is \<open>bs[off..off + n]\<close>; \<open>get_range\<close> is the checked \<open>bs.get(off..off + n)\<close>;
  \<open>splice\<close> is \<open>bs[off..off + data.len()].copy_from_slice(data)\<close>.\<close>

definition sub_bytes :: "'a list \<Rightarrow> nat \<Rightarrow> nat \<Rightarrow> 'a list" where
  "sub_bytes bs off n = take n (drop off bs)"

definition get_range :: "'a list \<Rightarrow> nat \<Rightarrow> nat \<Rightarrow> 'a list option" where
  "get_range bs off n = (if off + n \<le> length bs then Some (sub_bytes bs off n) else None)"

definition splice :: "'a list \<Rightarrow> nat \<Rightarrow> 'a list \<Rightarrow> 'a list" where
  "splice bs off xs = take off bs @ xs @ drop (off + length xs) bs"

lemma length_sub_bytes [simp]: "off + n \<le> length bs \<Longrightarrow> length (sub_bytes bs off n) = n"
  by (simp add: sub_bytes_def)

lemma length_splice [simp]: "off + length xs \<le> length bs \<Longrightarrow> length (splice bs off xs) = length bs"
  by (simp add: splice_def)

lemma sub_bytes_splice_same [bytes_simps]:
  "off + length xs \<le> length bs \<Longrightarrow> n = length xs \<Longrightarrow> sub_bytes (splice bs off xs) off n = xs"
  by (simp add: sub_bytes_def splice_def)

lemma sub_bytes_splice_before [bytes_simps]:
  "i + n \<le> off \<Longrightarrow> off + length xs \<le> length bs \<Longrightarrow> sub_bytes (splice bs off xs) i n = sub_bytes bs i n"
  by (simp add: sub_bytes_def splice_def drop_take)

lemma sub_bytes_splice_after [bytes_simps]:
  assumes "off + length xs \<le> i" and "off + length xs \<le> length bs"
  shows "sub_bytes (splice bs off xs) i n = sub_bytes bs i n"
proof -
  have "drop i (splice bs off xs) = drop (i - off - length xs) (drop (off + length xs) bs)"
    using assms by (simp add: splice_def)
  also have "\<dots> = drop i bs" using assms by simp
  finally show ?thesis by (simp add: sub_bytes_def)
qed

lemma sub_bytes_append_left [bytes_simps]: "off + n \<le> length xs \<Longrightarrow> sub_bytes (xs @ ys) off n = sub_bytes xs off n"
  by (simp add: sub_bytes_def)

lemma sub_bytes_append_right [bytes_simps]:
  "length xs \<le> off \<Longrightarrow> sub_bytes (xs @ ys) off n = sub_bytes ys (off - length xs) n"
  by (simp add: sub_bytes_def)

lemma sub_bytes_0 [bytes_simps]: "sub_bytes bs 0 n = take n bs"
  by (simp add: sub_bytes_def)

lemma get_range_Some_iff: "get_range bs off n = Some r \<longleftrightarrow> off + n \<le> length bs \<and> r = sub_bytes bs off n"
  by (auto simp: get_range_def)

text \<open>Files: \<open>write_all_at\<close> past the end leaves a hole of zeros; \<open>set_len\<close> truncates or extends.\<close>

definition write_at :: "bytes \<Rightarrow> nat \<Rightarrow> bytes \<Rightarrow> bytes" where
  "write_at f off xs = take off f @ replicate (off - length f) 0 @ xs @ drop (off + length xs) f"

definition set_len :: "bytes \<Rightarrow> nat \<Rightarrow> bytes" where
  "set_len f n = take n f @ replicate (n - length f) 0"

lemma length_write_at [simp]: "length (write_at f off xs) = max (length f) (off + length xs)"
  by (auto simp: write_at_def)

lemma take_write_at: "off \<le> length f \<Longrightarrow> take (off + length xs) (write_at f off xs) = take off f @ xs"
  by (simp add: write_at_def)

lemma take_write_at_before: "n \<le> off \<Longrightarrow> off \<le> length f \<Longrightarrow> take n (write_at f off xs) = take n f"
  by (simp add: write_at_def min_absorb1)

lemma write_at_end: "off = length f \<Longrightarrow> write_at f off xs = f @ xs"
  by (simp add: write_at_def)

lemma length_set_len [simp]: "length (set_len f n) = n"
  by (auto simp: set_len_def)

lemma set_len_le: "n \<le> length f \<Longrightarrow> set_len f n = take n f"
  by (simp add: set_len_def)

lemma nth_write_at:
  "k < length f \<Longrightarrow> write_at f off xs ! k = (if off \<le> k \<and> k < off + length xs then xs ! (k - off) else f ! k)"
  by (auto simp: write_at_def nth_append)

lemma nth_sub_bytes: "k < n \<Longrightarrow> off + n \<le> length f \<Longrightarrow> sub_bytes f off n ! k = f ! (off + k)"
  by (simp add: sub_bytes_def)

text \<open>A range that is in the file and apart from the written one keeps its bytes.\<close>

lemma get_range_write_at_apart:
  assumes "get_range f o2 n = Some d" and "o2 + n \<le> off \<or> off + length xs \<le> o2"
  shows "get_range (write_at f off xs) o2 n = Some d"
proof -
  have le: "o2 + n \<le> length f" and d: "d = sub_bytes f o2 n" using assms(1) by (auto simp: get_range_Some_iff)
  have "sub_bytes (write_at f off xs) o2 n = sub_bytes f o2 n"
  proof (rule nth_equalityI)
    fix k assume "k < length (sub_bytes (write_at f off xs) o2 n)"
    then have k: "k < n" using le by simp
    then show "sub_bytes (write_at f off xs) o2 n ! k = sub_bytes f o2 n ! k"
      using le assms(2) by (auto simp: nth_sub_bytes nth_write_at)
  qed (use le in simp)
  then show ?thesis using le d by (simp add: get_range_Some_iff)
qed

lemma get_range_write_at_same: "get_range (write_at f off xs) off (length xs) = Some xs"
  by (simp add: get_range_Some_iff write_at_def sub_bytes_def)

section \<open>Orderings\<close>

datatype ordering = Less | Equal | Greater

fun reverse :: "ordering \<Rightarrow> ordering" where
  "reverse Less = Greater"
| "reverse Equal = Equal"
| "reverse Greater = Less"

definition cmp_of :: "'a::linorder \<Rightarrow> 'a \<Rightarrow> ordering" where
  "cmp_of x y = (if x < y then Less else if x = y then Equal else Greater)"

lemma reverse_reverse [simp]: "reverse (reverse x) = x"
  by (cases x) auto

lemma reverse_eq_iff [simp]:
  "reverse x = Less \<longleftrightarrow> x = Greater"
  "reverse x = Equal \<longleftrightarrow> x = Equal"
  "reverse x = Greater \<longleftrightarrow> x = Less"
  by (cases x; simp)+

lemma cmp_of_iff [simp]:
  "cmp_of x y = Less \<longleftrightarrow> x < y"
  "cmp_of x y = Equal \<longleftrightarrow> x = y"
  "cmp_of x y = Greater \<longleftrightarrow> y < x"
  by (auto simp: cmp_of_def)

lemma cmp_of_swap: "cmp_of y x = reverse (cmp_of x y)"
  by (auto simp: cmp_of_def)

lemma not_Less_iff: "x \<noteq> Less \<longleftrightarrow> x = Equal \<or> x = Greater"
  by (cases x) auto

lemma not_Greater_iff: "x \<noteq> Greater \<longleftrightarrow> x = Less \<or> x = Equal"
  by (cases x) auto

text \<open>Lexicographic comparison of slices (\<open>Ord\<close> of \<open>[T]\<close>, \<open>str\<close> and \<open>Vec\<close>).\<close>

fun lex_cmp :: "('a \<Rightarrow> 'b \<Rightarrow> ordering) \<Rightarrow> 'a list \<Rightarrow> 'b list \<Rightarrow> ordering" where
  "lex_cmp c [] [] = Equal"
| "lex_cmp c [] (y # ys) = Less"
| "lex_cmp c (x # xs) [] = Greater"
| "lex_cmp c (x # xs) (y # ys) = (case c x y of Equal \<Rightarrow> lex_cmp c xs ys | r \<Rightarrow> r)"

text \<open>A total comparator on the valid values: what sorting, binary search and the index rely on.\<close>

locale comparator =
  fixes cmp :: "'a \<Rightarrow> 'a \<Rightarrow> ordering"
    and valid :: "'a \<Rightarrow> bool"
  assumes cmp_refl: "valid x \<Longrightarrow> cmp x x = Equal"
    and cmp_swap: "valid x \<Longrightarrow> valid y \<Longrightarrow> cmp y x = reverse (cmp x y)"
    and cmp_trans: "valid x \<Longrightarrow> valid y \<Longrightarrow> valid z \<Longrightarrow> cmp x y \<noteq> Greater \<Longrightarrow> cmp y z \<noteq> Greater \<Longrightarrow>
      cmp x z \<noteq> Greater"
begin

lemma cmp_Greater_iff: "valid x \<Longrightarrow> valid y \<Longrightarrow> cmp x y = Greater \<longleftrightarrow> cmp y x = Less"
  using cmp_swap [of x y] by simp

lemma cmp_Equal_sym: "valid x \<Longrightarrow> valid y \<Longrightarrow> cmp x y = Equal \<Longrightarrow> cmp y x = Equal"
  using cmp_swap [of x y] by simp

lemma cmp_less_le_trans:
  assumes v: "valid x" "valid y" "valid z" and "cmp x y = Less" and "cmp y z \<noteq> Greater"
  shows "cmp x z = Less"
proof (rule ccontr)
  assume n: "cmp x z \<noteq> Less"
  then have "cmp z x \<noteq> Greater" using cmp_swap [OF v(1,3)] by (cases "cmp x z") auto
  then have "cmp y x \<noteq> Greater" using cmp_trans [OF v(2,3,1)] assms by blast
  then show False using cmp_swap [OF v(1,2)] assms by simp
qed

lemma cmp_le_less_trans:
  assumes v: "valid x" "valid y" "valid z" and "cmp x y \<noteq> Greater" and "cmp y z = Less"
  shows "cmp x z = Less"
proof (rule ccontr)
  assume n: "cmp x z \<noteq> Less"
  then have "cmp z x \<noteq> Greater" using cmp_swap [OF v(1,3)] by (cases "cmp x z") auto
  then have "cmp z y \<noteq> Greater" using cmp_trans [OF v(3,1,2)] assms by blast
  then show False using cmp_swap [OF v(2,3)] assms by simp
qed

lemma cmp_Equal_trans:
  assumes v: "valid x" "valid y" "valid z" and "cmp x y = Equal" and "cmp y z = Equal"
  shows "cmp x z = Equal"
proof -
  have "cmp x z \<noteq> Greater" using cmp_trans [OF v] assms by simp
  moreover have "cmp z x \<noteq> Greater"
    using cmp_trans [OF v(3,2,1)] cmp_Equal_sym [OF v(1,2)] cmp_Equal_sym [OF v(2,3)] assms by simp
  then have "cmp x z \<noteq> Less" using cmp_swap [OF v(1,3)] by simp
  ultimately show ?thesis by (cases "cmp x z") auto
qed

lemma cmp_Equal_left:
  assumes v: "valid x" "valid y" "valid z" and e: "cmp x y = Equal"
  shows "cmp x z = cmp y z"
proof (cases "cmp y z")
  case Less
  then show ?thesis using cmp_le_less_trans [OF v] e by simp
next
  case Equal
  then show ?thesis using cmp_Equal_trans [OF v e] by simp
next
  case Greater
  then have "cmp z y = Less" using cmp_Greater_iff [OF v(2,3)] by simp
  then have "cmp z x = Less"
    using cmp_less_le_trans [OF v(3,2,1)] cmp_Equal_sym [OF v(1,2) e] by simp
  then show ?thesis using Greater cmp_Greater_iff [OF v(1,3)] by simp
qed

end

interpretation linorder_cmp: comparator "cmp_of :: 'a::linorder \<Rightarrow> 'a \<Rightarrow> ordering" "\<lambda>_. True"
  by unfold_locales (auto simp: cmp_of_def split: if_splits)

end
