(* ===== verification/Values.thy ===== *)
theory Values
  imports Prelude Complex_Main
begin

text \<open>
  The document value type of \<open>value.rs\<close> and its total order \<open>Value::cmp_values\<close>.
  An \<open>f64\<close> is its 64-bit pattern; \<open>f64_val\<close> is the IEEE 754 reading of a pattern, on which the
  floating-point comparisons of the code are defined. The \<open>Decimal\<close> type belongs to the
  \<open>rust_decimal\<close> crate: its values are a type variable and its operations a record \<open>decimal_ops\<close>
  passed to the definitions, with the documented behaviour the code relies on in \<open>decimal_laws\<close>.
  A \<open>String\<close> is its UTF-8 bytes, an \<open>Object\<close> (\<open>BTreeMap<String, Value>\<close>) the list of its entries in
  key order.
\<close>

section \<open>Floating-point patterns\<close>

type_synonym f64 = "64 word"

definition f64_neg :: "f64 \<Rightarrow> bool" where
  "f64_neg f = bit f 63"

definition f64_exp_bits :: "f64 \<Rightarrow> nat" where
  "f64_exp_bits f = unat (drop_bit 52 f AND 0x7ff)"

definition f64_frac :: "f64 \<Rightarrow> nat" where
  "f64_frac f = unat (f AND 0xfffffffffffff)"

definition is_nan :: "f64 \<Rightarrow> bool" where
  "is_nan f \<longleftrightarrow> f64_exp_bits f = 0x7ff \<and> f64_frac f \<noteq> 0"

definition is_infinite :: "f64 \<Rightarrow> bool" where
  "is_infinite f \<longleftrightarrow> f64_exp_bits f = 0x7ff \<and> f64_frac f = 0"

text \<open>Significand and exponent of a finite pattern: its magnitude is \<open>m * 2 powi e\<close>.\<close>

definition f64_parts :: "f64 \<Rightarrow> nat \<times> int" where
  "f64_parts f =
     (if f64_exp_bits f = 0 then (f64_frac f, -1074)
      else (f64_frac f + 2 ^ 52, int (f64_exp_bits f) - 1075))"

definition pow2 :: "int \<Rightarrow> rat" where
  "pow2 e = (if 0 \<le> e then 2 ^ nat e else 1 / 2 ^ nat (- e))"

definition f64_mag :: "f64 \<Rightarrow> rat" where
  "f64_mag f = (case f64_parts f of (m, e) \<Rightarrow> of_nat m * pow2 e)"

definition f64_rat :: "f64 \<Rightarrow> rat" where
  "f64_rat f = (if f64_neg f then - f64_mag f else f64_mag f)"

text \<open>What a pattern denotes; NaN is placed above everything, as the code ranks it.\<close>

datatype fval = NegInf | Fin rat | PosInf | NaN

instantiation fval :: linorder
begin

fun less_eq_fval :: "fval \<Rightarrow> fval \<Rightarrow> bool" where
  "less_eq_fval NegInf y \<longleftrightarrow> True"
| "less_eq_fval (Fin x) NegInf \<longleftrightarrow> False"
| "less_eq_fval (Fin x) (Fin y) \<longleftrightarrow> x \<le> y"
| "less_eq_fval (Fin x) y \<longleftrightarrow> True"
| "less_eq_fval PosInf y \<longleftrightarrow> y = PosInf \<or> y = NaN"
| "less_eq_fval NaN y \<longleftrightarrow> y = NaN"

definition less_fval :: "fval \<Rightarrow> fval \<Rightarrow> bool" where
  "less_fval x y \<longleftrightarrow> x \<le> y \<and> \<not> y \<le> x"

instance
proof
  fix x y z :: fval
  show "x < y \<longleftrightarrow> x \<le> y \<and> \<not> y \<le> x" by (rule less_fval_def)
  show "x \<le> x" by (cases x) auto
  show "x \<le> y \<Longrightarrow> y \<le> z \<Longrightarrow> x \<le> z" by (cases x; cases y; cases z) auto
  show "x \<le> y \<Longrightarrow> y \<le> x \<Longrightarrow> x = y" by (cases x; cases y) auto
  show "x \<le> y \<or> y \<le> x" by (cases x; cases y) auto
qed

end

lemma fval_less_simps [simp]:
  "Fin x < Fin y \<longleftrightarrow> x < y" "Fin x < NaN" "Fin x < PosInf" "NegInf < Fin x"
  "\<not> Fin x < NegInf" "\<not> NaN < z" "\<not> PosInf < Fin x" "PosInf < NaN" "NegInf < NaN" "NegInf < PosInf"
  "\<not> PosInf < NegInf"
  by (auto simp: less_fval_def)

definition f64_val :: "f64 \<Rightarrow> fval" where
  "f64_val f =
     (if is_nan f then NaN
      else if is_infinite f then (if f64_neg f then NegInf else PosInf)
      else Fin (f64_rat f))"

section \<open>The decimal crate\<close>

record 'd decimal_ops =
  dec_mantissa :: "'d \<Rightarrow> int"
  dec_scale :: "'d \<Rightarrow> nat"
  dec_is_sign_negative :: "'d \<Rightarrow> bool"
  dec_is_zero :: "'d \<Rightarrow> bool"
  dec_cmp :: "'d \<Rightarrow> 'd \<Rightarrow> ordering"
  dec_from :: "i64 \<Rightarrow> 'd"
  dec_serialize :: "'d \<Rightarrow> bytes"
  dec_deserialize :: "bytes \<Rightarrow> 'd"

definition dec_rat :: "'d decimal_ops \<Rightarrow> 'd \<Rightarrow> rat" where
  "dec_rat D d = of_int (dec_mantissa D d) / 10 ^ dec_scale D d"

definition dec_valid :: "'d decimal_ops \<Rightarrow> 'd \<Rightarrow> bool" where
  "dec_valid D d \<longleftrightarrow> dec_scale D d \<le> 28"

text \<open>Documented behaviour of \<open>rust_decimal::Decimal\<close>: a 96-bit mantissa, a sign, comparison by
  numeric value, exact conversion from \<open>i64\<close>, and a 16-byte serialized form that keeps the scale.\<close>

definition decimal_laws :: "'d decimal_ops \<Rightarrow> bool" where
  "decimal_laws D \<longleftrightarrow>
     (\<forall>d. \<bar>dec_mantissa D d\<bar> < 2 ^ 96) \<and>
     (\<forall>d. dec_is_zero D d \<longleftrightarrow> dec_mantissa D d = 0) \<and>
     (\<forall>d. dec_mantissa D d \<noteq> 0 \<longrightarrow> (dec_is_sign_negative D d \<longleftrightarrow> dec_mantissa D d < 0)) \<and>
     (\<forall>x y. dec_valid D x \<longrightarrow> dec_valid D y \<longrightarrow> dec_cmp D x y = cmp_of (dec_rat D x) (dec_rat D y)) \<and>
     (\<forall>i. dec_mantissa D (dec_from D i) = sint i \<and> dec_scale D (dec_from D i) = 0) \<and>
     (\<forall>d. length (dec_serialize D d) = 16) \<and>
     (\<forall>d. dec_deserialize D (dec_serialize D d) = d)"

section \<open>Values\<close>

datatype 'd Value =
    Null
  | Bool bool
  | Int64 i64
  | Float f64
  | Decimal 'd
  | Timestamp i64
  | Str bytes
  | Bytes bytes
  | Array "'d Value list"
  | Object "(bytes \<times> 'd Value) list"

type_synonym 'd object = "(bytes \<times> 'd Value) list"

fun type_name :: "'d Value \<Rightarrow> string" where
  "type_name Null = ''null''"
| "type_name (Bool _) = ''bool''"
| "type_name (Int64 _) = ''int''"
| "type_name (Float _) = ''float''"
| "type_name (Decimal _) = ''decimal''"
| "type_name (Timestamp _) = ''timestamp''"
| "type_name (Str _) = ''string''"
| "type_name (Bytes _) = ''bytes''"
| "type_name (Array _) = ''array''"
| "type_name (Object _) = ''object''"

fun as_str :: "'d Value \<Rightarrow> bytes option" where
  "as_str (Str s) = Some s"
| "as_str _ = None"

fun as_i64 :: "'d Value \<Rightarrow> i64 option" where
  "as_i64 (Int64 i) = Some i"
| "as_i64 _ = None"

fun as_decimal :: "'d Value \<Rightarrow> 'd option" where
  "as_decimal (Decimal d) = Some d"
| "as_decimal _ = None"

fun as_bool :: "'d Value \<Rightarrow> bool option" where
  "as_bool (Bool b) = Some b"
| "as_bool _ = None"

fun rank :: "'d Value \<Rightarrow> nat" where
  "rank Null = 0"
| "rank (Bool _) = 1"
| "rank (Int64 _) = 2"
| "rank (Float _) = 2"
| "rank (Decimal _) = 2"
| "rank (Timestamp _) = 3"
| "rank (Str _) = 4"
| "rank (Bytes _) = 5"
| "rank (Array _) = 6"
| "rank (Object _) = 7"

subsection \<open>Exact mixed numeric comparison\<close>

text \<open>\<open>128 - x.leading_zeros()\<close> of a \<open>u128\<close>: the number of significant bits.\<close>

fun bit_len :: "nat \<Rightarrow> nat" where
  "bit_len n = (if n = 0 then 0 else Suc (bit_len (n div 2)))"

declare bit_len.simps [simp del]

definition cmp_times_pow2 :: "nat \<Rightarrow> nat \<Rightarrow> nat \<Rightarrow> ordering" where
  "cmp_times_pow2 a b j =
     (let bits_a = bit_len a; bits_b = bit_len b in
      case cmp_of bits_a (bits_b + j) of
        Equal \<Rightarrow> cmp_of a (b * 2 ^ j)
      | r \<Rightarrow> r)"

text \<open>The loop \<open>while m % 2 == 0\<close>; its callers pass a nonzero significand.\<close>

fun strip_twos :: "nat \<Rightarrow> int \<Rightarrow> nat \<times> int" where
  "strip_twos m e = (if m \<noteq> 0 \<and> even m then strip_twos (m div 2) (e + 1) else (m, e))"

declare strip_twos.simps [simp del]

definition cmp_decimal_f64_mag :: "'d decimal_ops \<Rightarrow> 'd \<Rightarrow> f64 \<Rightarrow> ordering" where
  "cmp_decimal_f64_mag D d f =
     (let dd = nat \<bar>dec_mantissa D d\<bar>;
          s = dec_scale D d;
          exp_bits = f64_exp_bits f;
          frac = f64_frac f;
          (m0, e0) = (if exp_bits = 0 then (frac, -1074) else (frac + 2 ^ 52, int exp_bits - 1075));
          (m, e) = strip_twos m0 e0;
          a5 = m * 5 ^ s;
          shift = e + int s
      in if 0 \<le> shift then cmp_times_pow2 dd a5 (nat shift)
         else reverse (cmp_times_pow2 a5 dd (nat (- shift))))"

definition cmp_decimal_f64 :: "'d decimal_ops \<Rightarrow> 'd \<Rightarrow> f64 \<Rightarrow> ordering" where
  "cmp_decimal_f64 D d f =
     (if is_nan f then Less
      else if is_infinite f then (if Fin 0 < f64_val f then Less else Greater)
      else
        (let neg_d = dec_is_sign_negative D d;
             zero_d = dec_is_zero D d;
             zero_f = (f64_rat f = 0)
         in if zero_d \<or> zero_f then
              (if zero_d \<and> zero_f then Equal
               else if zero_d then (if 0 < f64_rat f then Less else Greater)
               else (if neg_d then Less else Greater))
            else
              (let neg_f = f64_neg f
               in if neg_d \<noteq> neg_f then (if neg_d then Less else Greater)
                  else (let mag = cmp_decimal_f64_mag D d f
                        in if neg_d then reverse mag else mag))))"

text \<open>\<open>f.trunc()\<close> of a finite value, and the conversion \<open>t as i64\<close>.\<close>

definition trunc_rat :: "rat \<Rightarrow> int" where
  "trunc_rat r = (if 0 \<le> r then floor r else ceiling r)"

definition cmp_int_f64 :: "i64 \<Rightarrow> f64 \<Rightarrow> ordering" where
  "cmp_int_f64 i f =
     (if is_nan f then Less
      else if Fin (2 ^ 63) \<le> f64_val f then Less
      else if f64_val f < Fin (- (2 ^ 63)) then Greater
      else
        (let t = trunc_rat (f64_rat f);
             ti = (word_of_int t :: i64)
         in case cmp_of (sint i) (sint ti) of
              Equal \<Rightarrow>
                (let frac = f64_rat f - of_int t
                 in if 0 < frac then Less else if frac < 0 then Greater else Equal)
            | r \<Rightarrow> r))"

definition cmp_f64 :: "f64 \<Rightarrow> f64 \<Rightarrow> ordering" where
  "cmp_f64 x y =
     (case (is_nan x, is_nan y) of
        (True, True) \<Rightarrow> Equal
      | (True, False) \<Rightarrow> Greater
      | (False, True) \<Rightarrow> Less
      | (False, False) \<Rightarrow> cmp_of (f64_val x) (f64_val y))"

subsection \<open>The order\<close>

definition cmp_bytes :: "bytes \<Rightarrow> bytes \<Rightarrow> ordering" where
  "cmp_bytes = lex_cmp cmp_of"

fun cmp_values :: "'d decimal_ops \<Rightarrow> 'd Value \<Rightarrow> 'd Value \<Rightarrow> ordering"
  and cmp_items :: "'d decimal_ops \<Rightarrow> 'd Value list \<Rightarrow> 'd Value list \<Rightarrow> ordering"
  and cmp_entries :: "'d decimal_ops \<Rightarrow> 'd object \<Rightarrow> 'd object \<Rightarrow> ordering" where
  "cmp_values D a b =
     (if rank a \<noteq> rank b then cmp_of (rank a) (rank b)
      else (case (a, b) of
          (Null, Null) \<Rightarrow> Equal
        | (Bool x, Bool y) \<Rightarrow> cmp_of x y
        | (Int64 x, Int64 y) \<Rightarrow> cmp_of (sint x) (sint y)
        | (Decimal x, Decimal y) \<Rightarrow> dec_cmp D x y
        | (Decimal x, Int64 y) \<Rightarrow> dec_cmp D x (dec_from D y)
        | (Int64 x, Decimal y) \<Rightarrow> dec_cmp D (dec_from D x) y
        | (Decimal x, Float y) \<Rightarrow> cmp_decimal_f64 D x y
        | (Float x, Decimal y) \<Rightarrow> reverse (cmp_decimal_f64 D y x)
        | (Int64 i, Float f) \<Rightarrow> cmp_int_f64 i f
        | (Float f, Int64 i) \<Rightarrow> reverse (cmp_int_f64 i f)
        | (Float x, Float y) \<Rightarrow> cmp_f64 x y
        | (Timestamp x, Timestamp y) \<Rightarrow> cmp_of (sint x) (sint y)
        | (Str x, Str y) \<Rightarrow> cmp_bytes x y
        | (Bytes x, Bytes y) \<Rightarrow> cmp_bytes x y
        | (Array x, Array y) \<Rightarrow> cmp_items D x y
        | (Object x, Object y) \<Rightarrow> cmp_entries D x y
        | _ \<Rightarrow> Equal))"
| "cmp_items D [] [] = Equal"
| "cmp_items D [] (y # ys) = Less"
| "cmp_items D (x # xs) [] = Greater"
| "cmp_items D (x # xs) (y # ys) =
     (let r = cmp_values D x y in if r \<noteq> Equal then r else cmp_items D xs ys)"
| "cmp_entries D [] [] = Equal"
| "cmp_entries D [] (y # ys) = Less"
| "cmp_entries D (x # xs) [] = Greater"
| "cmp_entries D ((ka, va) # xs) ((kb, vb) # ys) =
     (let r = cmp_bytes ka kb
      in if r \<noteq> Equal then r
         else (let r = cmp_values D va vb in if r \<noteq> Equal then r else cmp_entries D xs ys))"

end
