(* ===== verification/Value_Order.thy ===== *)
theory Value_Order
  imports Values
begin

text \<open>
  \<open>Value::cmp_values\<close> is a total order. The mixed numeric comparisons are first shown to be
  exact: integers, floats and decimals are compared by the rational (or infinite, or NaN) value
  they denote. The order laws then follow by induction over nested values, and the comparator
  interface of the prelude is interpreted on \<open>cmp_values\<close> for the index code.
\<close>

section \<open>Scaled comparison is exact\<close>

lemma pow2_pos [simp]: "0 < pow2 e"
  by (simp add: pow2_def)

lemma pow2_add_nat: "pow2 (e + int n) = pow2 e * 2 ^ n"
proof (cases "0 \<le> e")
  case True
  then show ?thesis by (simp add: pow2_def nat_add_distrib power_add)
next
  case False
  show ?thesis
  proof (cases "0 \<le> e + int n")
    case True
    have "n = nat (e + int n) + nat (- e)" using False True by simp
    then have "(2::rat) ^ n = 2 ^ nat (e + int n) * 2 ^ nat (- e)" by (metis power_add)
    then show ?thesis using False True by (simp add: pow2_def)
  next
    case neg: False
    have "nat (- e) = nat (- (e + int n)) + n" using False neg by simp
    then have "(2::rat) ^ nat (- e) = 2 ^ nat (- (e + int n)) * 2 ^ n" by (metis power_add)
    then show ?thesis using False neg by (simp add: pow2_def)
  qed
qed

lemma bit_len_bounds: "0 < n \<Longrightarrow> 2 ^ (bit_len n - 1) \<le> n \<and> n < 2 ^ bit_len n \<and> 0 < bit_len n"
proof (induction n rule: bit_len.induct)
  case (1 n)
  show ?case
  proof (cases "n div 2 = 0")
    case True
    then have "n = 1" using 1 by simp
    then show ?thesis by (simp add: bit_len.simps)
  next
    case False
    then have IH: "2 ^ (bit_len (n div 2) - 1) \<le> n div 2" "n div 2 < 2 ^ bit_len (n div 2)"
      "0 < bit_len (n div 2)"
      using 1 by auto
    have b: "bit_len n = Suc (bit_len (n div 2))" using 1 by (simp add: bit_len.simps [of n])
    have "2 ^ bit_len (n div 2) = 2 * (2::nat) ^ (bit_len (n div 2) - 1)"
      using IH(3) by (cases "bit_len (n div 2)") auto
    also have "\<dots> \<le> 2 * (n div 2)" using IH(1) by simp
    also have "\<dots> \<le> n" by simp
    finally have "2 ^ bit_len (n div 2) \<le> n" .
    moreover have "n < 2 * 2 ^ bit_len (n div 2)" using IH(2) by linarith
    ultimately show ?thesis using b by simp
  qed
qed

lemma bit_len_mono: "bit_len a < k \<Longrightarrow> 0 < a \<Longrightarrow> a < 2 ^ (k - 1)"
proof -
  assume "bit_len a < k" "0 < a"
  then have "a < 2 ^ bit_len a" using bit_len_bounds by blast
  also have "\<dots> \<le> 2 ^ (k - 1)" using \<open>bit_len a < k\<close> by (intro power_increasing) auto
  finally show ?thesis .
qed

lemma cmp_times_pow2_exact:
  assumes "0 < a" and "0 < b"
  shows "cmp_times_pow2 a b j = cmp_of a (b * 2 ^ j)"
proof -
  have la: "2 ^ (bit_len a - 1) \<le> a" and ba: "0 < bit_len a" using bit_len_bounds [OF assms(1)] by auto
  have lb: "2 ^ (bit_len b - 1) \<le> b" and ub: "b < 2 ^ bit_len b" and bb: "0 < bit_len b"
    using bit_len_bounds [OF assms(2)] by auto
  have ub': "b * 2 ^ j < 2 ^ (bit_len b + j)" using ub by (simp add: power_add)
  have lb': "2 ^ (bit_len b + j - 1) \<le> b * 2 ^ j"
  proof -
    have "(2::nat) ^ (bit_len b + j - 1) = 2 ^ (bit_len b - 1) * 2 ^ j"
      using bb by (simp flip: power_add)
    then show ?thesis using lb by simp
  qed
  consider "bit_len a < bit_len b + j" | "bit_len a = bit_len b + j" | "bit_len b + j < bit_len a"
    by linarith
  then show ?thesis
  proof cases
    case 1
    then have "a < 2 ^ (bit_len b + j - 1)" using bit_len_mono assms(1) by blast
    then have "a < b * 2 ^ j" using lb' by linarith
    then show ?thesis using 1 by (simp add: cmp_times_pow2_def cmp_of_def)
  next
    case 2
    then show ?thesis by (simp add: cmp_times_pow2_def cmp_of_def)
  next
    case 3
    then have "(2::nat) ^ (bit_len b + j) \<le> 2 ^ (bit_len a - 1)"
      by (intro power_increasing) auto
    then have "b * 2 ^ j < a" using ub' la by linarith
    then show ?thesis using 3 by (simp add: cmp_times_pow2_def cmp_of_def)
  qed
qed

lemma strip_twos_value:
  "strip_twos m e = (m', e') \<Longrightarrow> of_nat m * pow2 e = (of_nat m' :: rat) * pow2 e' \<and> m' \<le> m \<and> (0 < m \<longrightarrow> 0 < m')"
proof (induction m e arbitrary: m' e' rule: strip_twos.induct)
  case (1 m e)
  show ?case
  proof (cases "m \<noteq> 0 \<and> even m")
    case True
    then have eq: "strip_twos (m div 2) (e + 1) = (m', e')"
      using 1(2) by (simp add: strip_twos.simps [of m e])
    from 1(1) [OF True eq] have IH: "of_nat (m div 2) * pow2 (e + 1) = (of_nat m' :: rat) * pow2 e'"
      "m' \<le> m div 2" "0 < m div 2 \<longrightarrow> 0 < m'"
      by auto
    have "(of_nat m :: rat) = 2 * of_nat (m div 2)" using True by (metis dvd_mult_div_cancel of_nat_mult of_nat_numeral)
    moreover have "pow2 (e + 1) = pow2 e * 2" using pow2_add_nat [of e 1] by simp
    ultimately have "of_nat m * pow2 e = (of_nat m' :: rat) * pow2 e'" using IH(1) by simp
    moreover have "0 < m div 2" using True by (auto elim: evenE)
    moreover have "m' \<le> m" using IH(2) by simp
    ultimately show ?thesis using IH(3) by simp
  next
    case False
    then show ?thesis using 1(2) by (auto simp: strip_twos.simps [of m e])
  qed
qed

lemma f64_frac_bound: "f64_frac f < 2 ^ 52"
proof -
  have "f AND 0xfffffffffffff = take_bit 52 f"
    by (simp add: take_bit_eq_mask mask_eq_exp_minus_1)
  then have "f64_frac f = take_bit 52 (unat f)"
    by (simp add: f64_frac_def unsigned_take_bit_eq)
  then show ?thesis by (simp add: take_bit_eq_mod)
qed

lemma f64_parts_bound: "fst (f64_parts f) < 2 ^ 53"
  using f64_frac_bound [of f] by (simp add: f64_parts_def)

text \<open>The products of \<open>cmp_decimal_f64_mag\<close> stay inside \<open>u128\<close>.\<close>

lemma mag_product_bound:
  assumes "strip_twos (fst (f64_parts f)) e = (m, e')" and "s \<le> 28"
  shows "m * 5 ^ s < 2 ^ 119"
proof -
  have "m < 2 ^ 53" using strip_twos_value [OF assms(1)] f64_parts_bound [of f] by simp
  moreover have "(5::nat) ^ s \<le> 5 ^ 28" using assms(2) by (intro power_increasing) auto
  ultimately have "m * 5 ^ s \<le> 2 ^ 53 * 5 ^ 28" by (intro mult_le_mono) auto
  also have "\<dots> < 2 ^ 119" by simp
  finally show ?thesis .
qed

lemma cmp_of_scale: "0 < (c::rat) \<Longrightarrow> cmp_of (x * c) (y * c) = cmp_of x y"
  by (auto simp: cmp_of_def)

lemma cmp_of_of_nat: "cmp_of (of_nat a :: rat) (of_nat b) = cmp_of a b"
  by (auto simp: cmp_of_def)

lemma cmp_of_Fin: "cmp_of (Fin x) (Fin y) = cmp_of x y"
  by (auto simp: cmp_of_def)

lemma cmp_of_uminus: "cmp_of (- x) (- y :: rat) = reverse (cmp_of x y)"
  by (auto simp: cmp_of_def)

text \<open>Both sides multiplied by \<open>10 ^ s = 2 ^ s * 5 ^ s\<close>, as the code's comment derives.\<close>

lemma cmp_decimal_f64_mag_exact:
  assumes "dec_mantissa D d \<noteq> 0" and "f64_mag f \<noteq> 0"
  shows "cmp_decimal_f64_mag D d f = cmp_of \<bar>dec_rat D d\<bar> (f64_mag f)"
proof -
  obtain m0 e0 where p: "f64_parts f = (m0, e0)" by fastforce
  obtain m e where st: "strip_twos m0 e0 = (m, e)" by fastforce
  define dd where "dd = nat \<bar>dec_mantissa D d\<bar>"
  define s where "s = dec_scale D d"
  have mag: "f64_mag f = of_nat m * pow2 e"
    using p strip_twos_value [OF st] by (simp add: f64_mag_def)
  have m0: "0 < m" using mag assms(2) by (cases m) auto
  have dd0: "0 < dd" using assms(1) by (simp add: dd_def)
  have a5: "0 < m * 5 ^ s" using m0 by simp
  have dr: "\<bar>dec_rat D d\<bar> * 10 ^ s = of_nat dd"
    by (simp add: dec_rat_def s_def dd_def abs_divide)
  have ten: "(10::rat) ^ s = 5 ^ s * 2 ^ s" by (simp flip: power_mult_distrib)
  have fr: "f64_mag f * 10 ^ s = of_nat (m * 5 ^ s) * pow2 (e + int s)"
    by (simp add: mag ten pow2_add_nat)
  have main: "cmp_of \<bar>dec_rat D d\<bar> (f64_mag f) = cmp_of (of_nat dd) (of_nat (m * 5 ^ s) * pow2 (e + int s))"
    using cmp_of_scale [of "10 ^ s" "\<bar>dec_rat D d\<bar>" "f64_mag f"] by (simp add: dr fr)
  have unf: "cmp_decimal_f64_mag D d f =
      (if 0 \<le> e + int s then cmp_times_pow2 dd (m * 5 ^ s) (nat (e + int s))
       else reverse (cmp_times_pow2 (m * 5 ^ s) dd (nat (- (e + int s)))))"
    using p st by (simp add: cmp_decimal_f64_mag_def f64_parts_def dd_def s_def Let_def split: if_splits)
  show ?thesis
  proof (cases "0 \<le> e + int s")
    case True
    then have "pow2 (e + int s) = of_nat (2 ^ nat (e + int s))" by (simp add: pow2_def)
    then have "cmp_of (of_nat dd :: rat) (of_nat (m * 5 ^ s) * pow2 (e + int s)) =
        cmp_of dd (m * 5 ^ s * 2 ^ nat (e + int s))"
      by (metis cmp_of_of_nat of_nat_mult)
    then show ?thesis using True main unf cmp_times_pow2_exact [OF dd0 a5] by simp
  next
    case False
    define j where "j = nat (- (e + int s))"
    have pw: "pow2 (e + int s) * of_nat (2 ^ j) = 1" using False by (simp add: pow2_def j_def)
    have "cmp_of (of_nat dd :: rat) (of_nat (m * 5 ^ s) * pow2 (e + int s)) =
        cmp_of (of_nat dd * of_nat (2 ^ j)) (of_nat (m * 5 ^ s) * pow2 (e + int s) * (of_nat (2 ^ j) :: rat))"
      using cmp_of_scale [of "of_nat (2 ^ j)"] by simp
    also have "\<dots> = cmp_of (of_nat (dd * 2 ^ j) :: rat) (of_nat (m * 5 ^ s))"
      using pw by (simp only: of_nat_mult mult.assoc) simp
    also have "\<dots> = cmp_of (dd * 2 ^ j) (m * 5 ^ s)" by (rule cmp_of_of_nat)
    also have "\<dots> = reverse (cmp_of (m * 5 ^ s) (dd * 2 ^ j))" by (rule cmp_of_swap)
    finally show ?thesis using False main unf cmp_times_pow2_exact [OF a5 dd0] by (simp add: j_def)
  qed
qed


section \<open>Mixed comparisons are comparisons of the denoted values\<close>

lemma decimal_lawsD:
  assumes "decimal_laws D"
  shows "\<bar>dec_mantissa D d\<bar> < 2 ^ 96"
    and "dec_is_zero D d \<longleftrightarrow> dec_mantissa D d = 0"
    and "dec_mantissa D d \<noteq> 0 \<Longrightarrow> dec_is_sign_negative D d \<longleftrightarrow> dec_mantissa D d < 0"
    and "dec_valid D d \<Longrightarrow> dec_valid D d' \<Longrightarrow> dec_cmp D d d' = cmp_of (dec_rat D d) (dec_rat D d')"
    and "dec_mantissa D (dec_from D i) = sint i"
    and "dec_scale D (dec_from D i) = 0"
    and "length (dec_serialize D d) = 16"
    and "dec_deserialize D (dec_serialize D d) = d"
  using assms unfolding decimal_laws_def by blast+

lemma dec_rat_sign [simp]:
  "dec_rat D d = 0 \<longleftrightarrow> dec_mantissa D d = 0"
  "dec_rat D d < 0 \<longleftrightarrow> dec_mantissa D d < 0"
  "0 < dec_rat D d \<longleftrightarrow> 0 < dec_mantissa D d"
  by (auto simp: dec_rat_def divide_less_0_iff zero_less_divide_iff)

lemma f64_mag_nonneg [simp]: "0 \<le> f64_mag f"
  by (auto simp: f64_mag_def less_imp_le split: prod.split)

lemma f64_rat_sign:
  "f64_rat f = 0 \<longleftrightarrow> f64_mag f = 0"
  "f64_mag f \<noteq> 0 \<Longrightarrow> 0 < f64_rat f \<longleftrightarrow> \<not> f64_neg f"
  "f64_mag f \<noteq> 0 \<Longrightarrow> f64_rat f < 0 \<longleftrightarrow> f64_neg f"
  using f64_mag_nonneg [of f] unfolding f64_rat_def by (auto simp del: f64_mag_nonneg)

lemma cmp_decimal_f64_same_sign:
  assumes "dec_mantissa D d \<noteq> 0" and "f64_mag f \<noteq> 0" and "(dec_mantissa D d < 0) = f64_neg f"
  shows "(if f64_neg f then reverse (cmp_decimal_f64_mag D d f) else cmp_decimal_f64_mag D d f) =
    cmp_of (dec_rat D d) (f64_rat f)"
proof (cases "f64_neg f")
  case True
  then have "\<bar>dec_rat D d\<bar> = - dec_rat D d" using assms(3) by (simp add: abs_if)
  then show ?thesis
    using True cmp_decimal_f64_mag_exact [OF assms(1,2)] cmp_of_uminus [of "dec_rat D d" "- f64_mag f"]
    by (simp add: f64_rat_def)
next
  case False
  then have "\<bar>dec_rat D d\<bar> = dec_rat D d" using assms by (simp add: abs_if)
  then show ?thesis
    using False cmp_decimal_f64_mag_exact [OF assms(1,2)] by (simp add: f64_rat_def)
qed

lemma cmp_decimal_f64_exact:
  assumes D: "decimal_laws D"
  shows "cmp_decimal_f64 D d f = cmp_of (Fin (dec_rat D d)) (f64_val f)"
proof -
  note L = decimal_lawsD [OF D]
  consider "is_nan f" | "is_infinite f" "\<not> is_nan f" | "\<not> is_nan f" "\<not> is_infinite f" by blast
  then show ?thesis
  proof cases
    case 1
    then show ?thesis by (simp add: cmp_decimal_f64_def f64_val_def cmp_of_def)
  next
    case 2
    then show ?thesis by (simp add: cmp_decimal_f64_def f64_val_def cmp_of_def)
  next
    case 3
    then have v: "f64_val f = Fin (f64_rat f)" by (simp add: f64_val_def)
    show ?thesis
    proof (cases "dec_mantissa D d = 0 \<or> f64_rat f = 0")
      case True
      have z: "dec_rat D d = 0" if "dec_mantissa D d = 0" using that by simp
      show ?thesis
        using 3 v L(3) [of d] True
        by (cases "dec_mantissa D d = 0") (auto simp: cmp_decimal_f64_def L(2) Let_def cmp_of_Fin cmp_of_def z)
    next
      case False
      then have nz: "dec_mantissa D d \<noteq> 0" "f64_mag f \<noteq> 0" by (auto simp: f64_rat_sign)
      note sg = L(3) [OF nz(1)] f64_rat_sign(2,3) [OF nz(2)]
      show ?thesis
      proof (cases "(dec_mantissa D d < 0) = f64_neg f")
        case True
        then show ?thesis
          using 3 v False cmp_decimal_f64_same_sign [OF nz True] by (simp add: cmp_decimal_f64_def L(2) sg(1) cmp_of_Fin)
      next
        case diff: False
        have "cmp_of (dec_rat D d) (f64_rat f) = (if dec_mantissa D d < 0 then Less else Greater)"
        proof (cases "dec_mantissa D d < 0")
          case True
          then have "dec_rat D d < 0" "0 < f64_rat f" using diff sg by simp_all
          then have "dec_rat D d < f64_rat f" by (rule less_trans)
          then show ?thesis using True by (simp add: cmp_of_def)
        next
          case nn: False
          then have "0 < dec_rat D d" "f64_rat f < 0" using diff sg nz by simp_all
          then have "f64_rat f < dec_rat D d" by (rule less_trans [rotated])
          then show ?thesis using nn by (auto simp: cmp_of_def)
        qed
        then show ?thesis
          using 3 v False diff by (simp add: cmp_decimal_f64_def L(2) sg(1) cmp_of_Fin)
      qed
    qed
  qed
qed

lemma trunc_rat_range:
  assumes "- (2 ^ 63) \<le> r" and "r < 2 ^ 63"
  shows "- (2 ^ 63) \<le> trunc_rat r" and "trunc_rat r < 2 ^ 63"
proof -
  have "of_int (- (2 ^ 63)) \<le> r" and "r < of_int (2 ^ 63)" using assms by simp_all
  then show "- (2 ^ 63) \<le> trunc_rat r" "trunc_rat r < 2 ^ 63"
    unfolding trunc_rat_def by (auto simp: le_floor_iff floor_less_iff)
qed

lemma sint_word_of_int_i64: "- (2 ^ 63) \<le> t \<Longrightarrow> t < 2 ^ 63 \<Longrightarrow> sint (word_of_int t :: i64) = t"
  by (simp add: signed_of_int signed_take_bit_int_eq_self)

lemma cmp_int_trunc:
  "(case cmp_of i (trunc_rat r) of
      Equal \<Rightarrow> (let frac = r - of_int (trunc_rat r)
                in if 0 < frac then Less else if frac < 0 then Greater else Equal)
    | c \<Rightarrow> c) = cmp_of (of_int i :: rat) r"
proof (cases "0 \<le> r")
  case True
  then have t: "trunc_rat r = \<lfloor>r\<rfloor>" by (simp add: trunc_rat_def)
  have "of_int \<lfloor>r\<rfloor> \<le> r" "r < of_int \<lfloor>r\<rfloor> + 1" by linarith+
  consider "i < \<lfloor>r\<rfloor>" | "i = \<lfloor>r\<rfloor>" | "\<lfloor>r\<rfloor> < i" by linarith
  then show ?thesis
  proof cases
    case 1
    then have "of_int i < r" by linarith
    then show ?thesis using 1 by (simp add: t cmp_of_def)
  next
    case 2
    then show ?thesis using \<open>of_int \<lfloor>r\<rfloor> \<le> r\<close> by (auto simp: t cmp_of_def)
  next
    case 3
    then have "r < of_int i" by linarith
    then show ?thesis using 3 by (auto simp: t cmp_of_def)
  qed
next
  case False
  then have t: "trunc_rat r = \<lceil>r\<rceil>" by (simp add: trunc_rat_def)
  have "r \<le> of_int \<lceil>r\<rceil>" by linarith
  consider "i < \<lceil>r\<rceil>" | "i = \<lceil>r\<rceil>" | "\<lceil>r\<rceil> < i" by linarith
  then show ?thesis
  proof cases
    case 1
    then have "of_int i < r" by linarith
    then show ?thesis using 1 by (simp add: t cmp_of_def)
  next
    case 2
    then show ?thesis using \<open>r \<le> of_int \<lceil>r\<rceil>\<close> by (auto simp: t cmp_of_def)
  next
    case 3
    then have "r < of_int i" by linarith
    then show ?thesis using 3 by (auto simp: t cmp_of_def)
  qed
qed

lemma sint_i64_bounds: "- (2 ^ 63) \<le> sint (i :: i64)" "sint (i :: i64) < 2 ^ 63"
  using sint_ge [of i] sint_lt [of i] by simp_all

lemma cmp_int_f64_exact: "cmp_int_f64 i f = cmp_of (Fin (of_int (sint i))) (f64_val f)"
proof -
  have lo: "- (2 ^ 63) \<le> (of_int (sint i) :: rat)"
    using sint_i64_bounds(1) [of i] by (metis of_int_le_iff of_int_minus of_int_numeral of_int_power)
  have hi: "(of_int (sint i) :: rat) < 2 ^ 63"
    using sint_i64_bounds(2) [of i] by (metis of_int_less_iff of_int_numeral of_int_power)
  consider "is_nan f" | "is_infinite f" "\<not> is_nan f" | "\<not> is_nan f" "\<not> is_infinite f" by blast
  then show ?thesis
  proof cases
    case 1
    then show ?thesis by (simp add: cmp_int_f64_def f64_val_def cmp_of_def)
  next
    case 2
    then show ?thesis by (simp add: cmp_int_f64_def f64_val_def cmp_of_def)
  next
    case 3
    then have v: "f64_val f = Fin (f64_rat f)" by (simp add: f64_val_def)
    consider "2 ^ 63 \<le> f64_rat f" | "f64_rat f < - (2 ^ 63)" | "- (2 ^ 63) \<le> f64_rat f" "f64_rat f < 2 ^ 63"
      by linarith
    then show ?thesis
    proof cases
      case 1
      then show ?thesis using 3 v hi by (simp add: cmp_int_f64_def cmp_of_def)
    next
      case 2
      then have "f64_rat f < of_int (sint i)" using lo by linarith
      moreover have "\<not> 2 ^ 63 \<le> f64_rat f" using 2 by simp
      ultimately have "f64_rat f < of_int (sint i)" "\<not> 2 ^ 63 \<le> f64_rat f" by blast+
      then show ?thesis using 3 v 2 by (simp add: cmp_int_f64_def cmp_of_def)
    next
      case r: 3
      have "sint (word_of_int (trunc_rat (f64_rat f)) :: i64) = trunc_rat (f64_rat f)"
        using sint_word_of_int_i64 trunc_rat_range [OF r] by blast
      then have "cmp_int_f64 i f = cmp_of (of_int (sint i)) (f64_rat f)"
        using 3 v r cmp_int_trunc [where i = "sint i" and r = "f64_rat f"] by (simp add: cmp_int_f64_def Let_def)
      then show ?thesis by (simp add: v cmp_of_Fin)
    qed
  qed
qed

lemma cmp_f64_exact: "cmp_f64 x y = cmp_of (f64_val x) (f64_val y)"
  by (auto simp: cmp_f64_def f64_val_def cmp_of_def)


section \<open>The order laws\<close>

text \<open>Objects and strings as the code keeps them: object keys strictly ascending, all decimals
  within the scale their library guarantees.\<close>

fun strictly_sorted :: "bytes list \<Rightarrow> bool" where
  "strictly_sorted [] = True"
| "strictly_sorted [k] = True"
| "strictly_sorted (k # l # ks) = (cmp_bytes k l = Less \<and> strictly_sorted (l # ks))"

fun decimals_ok :: "'d decimal_ops \<Rightarrow> 'd Value \<Rightarrow> bool" where
  "decimals_ok D (Decimal d) = dec_valid D d"
| "decimals_ok D (Array xs) = list_all (decimals_ok D) xs"
| "decimals_ok D (Object es) = list_all (\<lambda>e. decimals_ok D (snd e)) es"
| "decimals_ok D _ = True"

text \<open>How three comparisons of a total order fit together.\<close>

definition cmp3 :: "ordering \<Rightarrow> ordering \<Rightarrow> ordering \<Rightarrow> bool" where
  "cmp3 a b c \<longleftrightarrow> (a = Equal \<longrightarrow> c = b) \<and> (b = Equal \<longrightarrow> c = a) \<and> (a = b \<longrightarrow> c = a)"

lemma cmp3_cmp_of: "cmp3 (cmp_of x y) (cmp_of y z) (cmp_of x z)"
  by (auto simp: cmp3_def cmp_of_def)

lemma cmp3_then:
  assumes "cmp3 a b c" and "a = Equal \<Longrightarrow> b = Equal \<Longrightarrow> cmp3 a' b' c'"
  shows "cmp3 (if a \<noteq> Equal then a else a') (if b \<noteq> Equal then b else b') (if c \<noteq> Equal then c else c')"
  using assms by (cases a; cases b; cases c) (auto simp: cmp3_def)

lemma case_ordering_if: "(case r of Equal \<Rightarrow> e | c \<Rightarrow> c) = (if r \<noteq> Equal then r else e)"
  by (cases r) auto

lemma cmp_bytes_simps [simp]:
  "cmp_bytes [] [] = Equal"
  "cmp_bytes [] (y # ys) = Less"
  "cmp_bytes (x # xs) [] = Greater"
  "cmp_bytes (x # xs) (y # ys) = (if cmp_of x y \<noteq> Equal then cmp_of x y else cmp_bytes xs ys)"
  by (simp_all add: cmp_bytes_def) (auto simp: cmp_of_def)

lemma cmp_bytes_refl [simp]: "cmp_bytes x x = Equal"
  by (induction x) auto

lemma cmp_bytes_Equal_iff: "cmp_bytes x y = Equal \<longleftrightarrow> x = y"
proof (induction x arbitrary: y)
  case Nil
  then show ?case by (cases y) auto
next
  case (Cons a x)
  then show ?case by (cases y) (auto simp: cmp_of_def)
qed

lemma cmp_bytes_swap: "cmp_bytes y x = reverse (cmp_bytes x y)"
proof (induction x arbitrary: y)
  case Nil
  then show ?case by (cases y) auto
next
  case (Cons a x)
  show ?case
  proof (cases y)
    case (Cons b ys)
    then show ?thesis using Cons.IH [of ys] by (auto simp: cmp_of_def)
  qed simp
qed

lemma cmp_bytes_cmp3: "cmp3 (cmp_bytes x y) (cmp_bytes y z) (cmp_bytes x z)"
proof (induction x arbitrary: y z)
  case Nil
  then show ?case by (cases y; cases z) (auto simp: cmp3_def)
next
  case (Cons a x)
  show ?case
  proof (cases y)
    case Nil
    then show ?thesis by (cases z) (auto simp: cmp3_def)
  next
    case y: (Cons b ys)
    show ?thesis
    proof (cases z)
      case Nil
      then show ?thesis using y by (auto simp: cmp3_def)
    next
      case z: (Cons c zs)
      show ?thesis unfolding y z cmp_bytes_simps
        by (rule cmp3_then [OF cmp3_cmp_of]) (rule Cons.IH)
    qed
  qed
qed

interpretation bytes_order: comparator cmp_bytes "\<lambda>_. True"
proof
  fix x y z :: bytes
  show "cmp_bytes x x = Equal" by simp
  show "cmp_bytes y x = reverse (cmp_bytes x y)" by (rule cmp_bytes_swap)
  show "cmp_bytes x y \<noteq> Greater \<Longrightarrow> cmp_bytes y z \<noteq> Greater \<Longrightarrow> cmp_bytes x z \<noteq> Greater"
    using cmp_bytes_cmp3 [of x y z] by (cases "cmp_bytes x y"; cases "cmp_bytes y z") (auto simp: cmp3_def)
qed

text \<open>The numeric band compares the denoted values.\<close>

fun num_key :: "'d decimal_ops \<Rightarrow> 'd Value \<Rightarrow> fval" where
  "num_key D (Int64 i) = Fin (of_int (sint i))"
| "num_key D (Float f) = f64_val f"
| "num_key D (Decimal d) = Fin (dec_rat D d)"
| "num_key D _ = NaN"

lemma rank_2_cases:
  assumes "rank v = 2"
  obtains i where "v = Int64 i" | f where "v = Float f" | d where "v = Decimal d"
  using assms by (cases v) auto

lemma cmp_values_numeric:
  assumes D: "decimal_laws D" and "rank x = 2" and "rank y = 2" and "decimals_ok D x" and "decimals_ok D y"
  shows "cmp_values D x y = cmp_of (num_key D x) (num_key D y)"
proof -
  note L = decimal_lawsD [OF D]
  have fr: "dec_rat D (dec_from D i) = of_int (sint i)" for i
    by (simp add: dec_rat_def L)
  have vf: "dec_valid D (dec_from D i)" for i by (simp add: dec_valid_def L)
  have ci: "cmp_of (of_int a :: rat) (of_int b) = cmp_of a b" for a b by (auto simp: cmp_of_def)
  note ex = L(4) vf fr ci cmp_of_Fin cmp_decimal_f64_exact [OF D] cmp_int_f64_exact cmp_f64_exact
  show ?thesis
    using assms(2-5)
    by (elim rank_2_cases) (simp_all add: ex cmp_of_swap [symmetric] del: of_int_sint)
qed


lemma cmp_values_rank: "rank x \<noteq> rank y \<Longrightarrow> cmp_values D x y = cmp_of (rank x) (rank y)"
  by simp

lemma cmp_values_same_band:
  "cmp_values D (Bool a) (Bool b) = cmp_of a b"
  "cmp_values D (Timestamp i) (Timestamp j) = cmp_of (sint i) (sint j)"
  "cmp_values D (Str s) (Str t) = cmp_bytes s t"
  "cmp_values D (Bytes s) (Bytes t) = cmp_bytes s t"
  "cmp_values D (Array xs) (Array ys) = cmp_items D xs ys"
  "cmp_values D (Object es) (Object fs) = cmp_entries D es fs"
  "cmp_values D Null Null = Equal"
  by simp_all

declare cmp_values.simps [simp del]

lemma rank_cases:
  obtains "rank v = 2" | "v = Null" | b where "v = Bool b" | i where "v = Timestamp i"
    | s where "v = Str s" | s where "v = Bytes s" | xs where "v = Array xs" | es where "v = Object es"
  by (cases v) auto

lemma rank_eq_cases:
  assumes "rank x = rank y"
  obtains "rank x = 2" "rank y = 2"
    | "x = Null" "y = Null"
    | a b where "x = Bool a" "y = Bool b"
    | i j where "x = Timestamp i" "y = Timestamp j"
    | s t where "x = Str s" "y = Str t"
    | s t where "x = Bytes s" "y = Bytes t"
    | xs ys where "x = Array xs" "y = Array ys"
    | es fs where "x = Object es" "y = Object fs"
  using assms by (cases x; cases y) auto

lemma cmp_items_swap:
  assumes "\<And>x y. x \<in> set xs \<Longrightarrow> y \<in> set ys \<Longrightarrow> cmp_values D y x = reverse (cmp_values D x y)"
  shows "cmp_items D ys xs = reverse (cmp_items D xs ys)"
  using assms
proof (induction xs arbitrary: ys)
  case Nil
  then show ?case by (cases ys) auto
next
  case (Cons x xs)
  then show ?case by (cases ys) (auto simp: Let_def)
qed

lemma cmp_entries_swap:
  assumes "\<And>x y. x \<in> snd ` set xs \<Longrightarrow> y \<in> snd ` set ys \<Longrightarrow> cmp_values D y x = reverse (cmp_values D x y)"
  shows "cmp_entries D ys xs = reverse (cmp_entries D xs ys)"
  using assms
proof (induction xs arbitrary: ys)
  case Nil
  then show ?case by (cases ys) auto
next
  case (Cons x xs)
  obtain k v where x: "x = (k, v)" by fastforce
  show ?case
  proof (cases ys)
    case ys: (Cons y ys')
    obtain l w where y: "y = (l, w)" by fastforce
    have "cmp_entries D ys' xs = reverse (cmp_entries D xs ys')" using Cons ys by auto
    moreover have "cmp_values D w v = reverse (cmp_values D v w)" using Cons.prems [of v w] x y ys by simp
    ultimately show ?thesis
      using cmp_bytes_swap [of k l] by (simp add: x y ys Let_def)
  qed simp
qed

lemma decimals_ok_items: "decimals_ok D (Array xs) \<Longrightarrow> x \<in> set xs \<Longrightarrow> decimals_ok D x"
  by (simp add: list_all_iff)

lemma decimals_ok_entries: "decimals_ok D (Object es) \<Longrightarrow> v \<in> snd ` set es \<Longrightarrow> decimals_ok D v"
  by (auto simp: list_all_iff)

lemma size_item: "x \<in> set xs \<Longrightarrow> size x < size (Array xs :: 'd Value)"
  by (induction xs) auto

lemma size_entry: "v \<in> snd ` set es \<Longrightarrow> size v < size (Object es :: 'd Value)"
proof (induction es)
  case (Cons e es)
  then show ?case by (cases e; cases "v = snd e") (auto simp: less_Suc_eq_le trans_le_add2 le_SucI)
qed simp

lemma cmp_values_swap:
  assumes D: "decimal_laws D"
  shows "decimals_ok D x \<Longrightarrow> decimals_ok D y \<Longrightarrow> cmp_values D y x = reverse (cmp_values D x y)"
proof (induction x arbitrary: y rule: measure_induct_rule [of size])
  case (less x)
  show ?case
  proof (cases "rank x = rank y")
    case False
    then show ?thesis using cmp_of_swap by (metis cmp_values_rank)
  next
    case True
    from True show ?thesis
    proof (cases rule: rank_eq_cases)
      case 1
      then show ?thesis using cmp_values_numeric [OF D] less.prems cmp_of_swap by metis
    next
      case (7 xs ys)
      have "cmp_items D ys xs = reverse (cmp_items D xs ys)"
      proof (rule cmp_items_swap)
        fix a b assume "a \<in> set xs" "b \<in> set ys"
        moreover from this have "size a < size x" using 7 size_item by metis
        ultimately show "cmp_values D b a = reverse (cmp_values D a b)"
          using less 7 decimals_ok_items by metis
      qed
      then show ?thesis by (simp add: 7 cmp_values_same_band)
    next
      case (8 es fs)
      have "cmp_entries D fs es = reverse (cmp_entries D es fs)"
      proof (rule cmp_entries_swap)
        fix a b assume ab: "a \<in> snd ` set es" "b \<in> snd ` set fs"
        then have "size a < size x" using 8 size_entry by metis
        then show "cmp_values D b a = reverse (cmp_values D a b)"
          using less 8 ab decimals_ok_entries by metis
      qed
      then show ?thesis by (simp add: 8 cmp_values_same_band)
    qed (simp_all add: cmp_values_same_band cmp_of_swap [symmetric] cmp_bytes_swap [symmetric])
  qed
qed


lemma cmp_items_cmp3:
  assumes "\<And>x y z. x \<in> set xs \<Longrightarrow> y \<in> set ys \<Longrightarrow> z \<in> set zs \<Longrightarrow>
    cmp3 (cmp_values D x y) (cmp_values D y z) (cmp_values D x z)"
  shows "cmp3 (cmp_items D xs ys) (cmp_items D ys zs) (cmp_items D xs zs)"
  using assms
proof (induction xs arbitrary: ys zs)
  case Nil
  then show ?case by (cases ys; cases zs) (auto simp: cmp3_def Let_def)
next
  case (Cons x xs)
  show ?case
  proof (cases "ys = [] \<or> zs = []")
    case True
    then show ?thesis by (cases ys; cases zs) (auto simp: cmp3_def Let_def)
  next
    case False
    then obtain y ys' z zs' where e: "ys = y # ys'" "zs = z # zs'" by (auto simp: neq_Nil_conv)
    have "cmp3 (cmp_items D xs ys') (cmp_items D ys' zs') (cmp_items D xs zs')"
      using Cons e by auto
    moreover have "cmp3 (cmp_values D x y) (cmp_values D y z) (cmp_values D x z)" using Cons.prems e by simp
    ultimately show ?thesis unfolding e cmp_items.simps Let_def by (intro cmp3_then)
  qed
qed

lemma cmp_entries_cmp3:
  assumes "\<And>x y z. x \<in> snd ` set xs \<Longrightarrow> y \<in> snd ` set ys \<Longrightarrow> z \<in> snd ` set zs \<Longrightarrow>
    cmp3 (cmp_values D x y) (cmp_values D y z) (cmp_values D x z)"
  shows "cmp3 (cmp_entries D xs ys) (cmp_entries D ys zs) (cmp_entries D xs zs)"
  using assms
proof (induction xs arbitrary: ys zs)
  case Nil
  then show ?case by (cases ys; cases zs) (auto simp: cmp3_def Let_def)
next
  case (Cons x xs)
  show ?case
  proof (cases "ys = [] \<or> zs = []")
    case True
    then show ?thesis by (cases ys; cases zs) (auto simp: cmp3_def Let_def)
  next
    case False
    then obtain k v l w m u ys' zs' where e: "x = (k, v)" "ys = (l, w) # ys'" "zs = (m, u) # zs'"
      by (cases x) (auto simp: neq_Nil_conv)
    have "cmp3 (cmp_entries D xs ys') (cmp_entries D ys' zs') (cmp_entries D xs zs')"
      using Cons e by auto
    moreover have "cmp3 (cmp_values D v w) (cmp_values D w u) (cmp_values D v u)"
      using Cons.prems [of v w u] e by simp
    ultimately show ?thesis unfolding e cmp_entries.simps Let_def by (intro cmp3_then cmp_bytes_cmp3)
  qed
qed

lemma cmp_values_cmp3:
  assumes D: "decimal_laws D"
  shows "decimals_ok D x \<Longrightarrow> decimals_ok D y \<Longrightarrow> decimals_ok D z \<Longrightarrow>
    cmp3 (cmp_values D x y) (cmp_values D y z) (cmp_values D x z)"
proof (induction x arbitrary: y z rule: measure_induct_rule [of size])
  case (less x)
  show ?case
  proof (cases "rank x = rank y \<and> rank y = rank z")
    case False
    consider "rank x \<noteq> rank y" "rank y \<noteq> rank z" "rank x \<noteq> rank z"
      | "rank x \<noteq> rank y" "rank y = rank z" | "rank x = rank y" "rank y \<noteq> rank z"
      | "rank x = rank z" "rank x \<noteq> rank y"
      using False by fastforce
    then show ?thesis
      by cases (auto simp: cmp_values_rank cmp3_def cmp_of_def split: if_splits)
  next
    case True
    then have r: "rank x = rank y" "rank y = rank z" by auto
    show ?thesis
      using r(1)
    proof (cases rule: rank_eq_cases)
      case 1
      then show ?thesis
        using r less.prems by (simp add: cmp_values_numeric [OF D] cmp3_cmp_of)
    next
      case (7 xs ys)
      then obtain zs where z: "z = Array zs" using r(2) by (cases z) auto
      have "cmp3 (cmp_items D xs ys) (cmp_items D ys zs) (cmp_items D xs zs)"
      proof (rule cmp_items_cmp3)
        fix a b c assume m: "a \<in> set xs" "b \<in> set ys" "c \<in> set zs"
        have "size a < size x" using m(1) 7 size_item by metis
        moreover have "decimals_ok D a" "decimals_ok D b" "decimals_ok D c"
          using m less.prems 7 z decimals_ok_items by metis+
        ultimately show "cmp3 (cmp_values D a b) (cmp_values D b c) (cmp_values D a c)" by (rule less.IH)
      qed
      then show ?thesis by (simp add: 7 z cmp_values_same_band)
    next
      case (8 es fs)
      then obtain gs where z: "z = Object gs" using r(2) by (cases z) auto
      have "cmp3 (cmp_entries D es fs) (cmp_entries D fs gs) (cmp_entries D es gs)"
      proof (rule cmp_entries_cmp3)
        fix a b c assume m: "a \<in> snd ` set es" "b \<in> snd ` set fs" "c \<in> snd ` set gs"
        have "size a < size x" using m(1) 8 size_entry by metis
        moreover have "decimals_ok D a" "decimals_ok D b" "decimals_ok D c"
          using m less.prems 8 z decimals_ok_entries by metis+
        ultimately show "cmp3 (cmp_values D a b) (cmp_values D b c) (cmp_values D a c)" by (rule less.IH)
      qed
      then show ?thesis by (simp add: 8 z cmp_values_same_band)
    qed (use r in \<open>cases z; simp add: cmp_values_same_band cmp3_cmp_of cmp_bytes_cmp3; simp add: cmp3_def\<close>)+
  qed
qed

lemma cmp_items_refl: "(\<And>x. x \<in> set xs \<Longrightarrow> cmp_values D x x = Equal) \<Longrightarrow> cmp_items D xs xs = Equal"
  by (induction xs) auto

lemma cmp_entries_refl: "(\<And>x. x \<in> snd ` set xs \<Longrightarrow> cmp_values D x x = Equal) \<Longrightarrow> cmp_entries D xs xs = Equal"
  by (induction xs) auto

lemma cmp_values_refl:
  assumes D: "decimal_laws D"
  shows "decimals_ok D x \<Longrightarrow> cmp_values D x x = Equal"
proof -
  assume "decimals_ok D x"
  then have "cmp_values D x x = reverse (cmp_values D x x)" using cmp_values_swap [OF D] by blast
  then show ?thesis by (cases "cmp_values D x x") auto
qed

definition ordered_value :: "'d decimal_ops \<Rightarrow> 'd Value \<Rightarrow> bool" where
  "ordered_value D v \<longleftrightarrow> decimal_laws D \<and> decimals_ok D v"

interpretation value_order: comparator "cmp_values D" "ordered_value D" for D
proof
  fix x y z :: "'a Value"
  assume "ordered_value D x"
  then have D: "decimal_laws D" and x: "decimals_ok D x" by (auto simp: ordered_value_def)
  show "cmp_values D x x = Equal" using cmp_values_refl [OF D x] .
  assume "ordered_value D y"
  then have y: "decimals_ok D y" by (simp add: ordered_value_def)
  show "cmp_values D y x = reverse (cmp_values D x y)" using cmp_values_swap [OF D x y] .
  assume "ordered_value D z"
  then have z: "decimals_ok D z" by (simp add: ordered_value_def)
  assume "cmp_values D x y \<noteq> Greater" and "cmp_values D y z \<noteq> Greater"
  then show "cmp_values D x z \<noteq> Greater"
    using cmp_values_cmp3 [OF D x y z]
    by (cases "cmp_values D x y"; cases "cmp_values D y z") (auto simp: cmp3_def)
qed

end
