(* ===== verification/Encode.thy ===== *)
theory Encode
  imports Value_Order
begin

text \<open>
  The binary document encoding of \<open>encode.rs\<close>. The decoder's state \<open>(buf, pos)\<close> is the unread
  suffix \<open>buf[pos..]\<close>; the encoder returns the bytes it appends to \<open>out\<close>. All integers are
  little-endian. The lemmas give the round trip, that every strict prefix of an encoding is
  rejected, that skipping a value consumes what decoding it consumes, and that the field
  extraction over raw bytes agrees with decoding the document and looking the field up.
\<close>

section \<open>Standard library: UTF-8 and ordered maps\<close>

definition cont :: "u8 \<Rightarrow> bool" where
  "cont b \<longleftrightarrow> 0x80 \<le> b \<and> b \<le> 0xBF"

text \<open>The well-formed byte sequences accepted by \<open>String::from_utf8\<close>.\<close>

fun utf8_valid :: "bytes \<Rightarrow> bool" where
  "utf8_valid [] = True"
| "utf8_valid (a # r) =
     (if a \<le> 0x7F then utf8_valid r
      else if 0xC2 \<le> a \<and> a \<le> 0xDF then
        (case r of b # r' \<Rightarrow> cont b \<and> utf8_valid r' | _ \<Rightarrow> False)
      else if 0xE0 \<le> a \<and> a \<le> 0xEF then
        (case r of b # c # r' \<Rightarrow>
           cont b \<and> (a = 0xE0 \<longrightarrow> 0xA0 \<le> b) \<and> (a = 0xED \<longrightarrow> b \<le> 0x9F) \<and> cont c \<and> utf8_valid r'
         | _ \<Rightarrow> False)
      else if 0xF0 \<le> a \<and> a \<le> 0xF4 then
        (case r of b # c # d # r' \<Rightarrow>
           cont b \<and> (a = 0xF0 \<longrightarrow> 0x90 \<le> b) \<and> (a = 0xF4 \<longrightarrow> b \<le> 0x8F) \<and> cont c \<and> cont d \<and> utf8_valid r'
         | _ \<Rightarrow> False)
      else False)"

text \<open>\<open>BTreeMap::insert\<close> on the entries in key order, with the value it replaced.\<close>

fun btree_insert :: "bytes \<Rightarrow> 'v \<Rightarrow> (bytes \<times> 'v) list \<Rightarrow> (bytes \<times> 'v) list \<times> 'v option" where
  "btree_insert k v [] = ([(k, v)], None)"
| "btree_insert k v ((l, w) # es) =
     (case cmp_bytes k l of
        Less \<Rightarrow> ((k, v) # (l, w) # es, None)
      | Equal \<Rightarrow> ((k, v) # es, Some w)
      | Greater \<Rightarrow> (case btree_insert k v es of (es', old) \<Rightarrow> ((l, w) # es', old)))"

section \<open>The decoder\<close>

datatype encode_error =
    StringTooLarge
  | TooManyItems
  | Eof
  | UnknownTag u8
  | BadBool u8
  | TooDeep
  | DuplicateKey bytes
  | BadDecimalScale nat

definition MAX_DEPTH :: nat where
  "MAX_DEPTH = 128"

definition take_bytes :: "nat \<Rightarrow> bytes \<Rightarrow> encode_error + bytes \<times> bytes" where
  "take_bytes n d = (if length d < n then Inl Eof else Inr (take n d, drop n d))"

definition read_u8 :: "bytes \<Rightarrow> encode_error + u8 \<times> bytes" where
  "read_u8 d = ebind (take_bytes 1 d) (\<lambda>(b, d). Inr (b ! 0, d))"

definition read_u32 :: "bytes \<Rightarrow> encode_error + nat \<times> bytes" where
  "read_u32 d = ebind (take_bytes 4 d) (\<lambda>(b, d). Inr (unat (from_le_bytes b :: u32), d))"

definition read_i64 :: "bytes \<Rightarrow> encode_error + i64 \<times> bytes" where
  "read_i64 d = ebind (take_bytes 8 d) (\<lambda>(b, d). Inr (from_le_bytes b, d))"

definition read_f64 :: "bytes \<Rightarrow> encode_error + f64 \<times> bytes" where
  "read_f64 d = ebind (take_bytes 8 d) (\<lambda>(b, d). Inr (from_le_bytes b, d))"

definition read_bytes :: "bytes \<Rightarrow> encode_error + bytes \<times> bytes" where
  "read_bytes d = ebind (read_u32 d) (\<lambda>(len, d). take_bytes len d)"

definition read_string :: "bytes \<Rightarrow> encode_error + bytes \<times> bytes" where
  "read_string d =
     ebind (read_bytes d) (\<lambda>(raw, d). if utf8_valid raw then Inr (raw, d) else Inl Eof)"

function skip_at :: "nat \<Rightarrow> bytes \<Rightarrow> encode_error + bytes"
  and skip_items :: "nat \<Rightarrow> nat \<Rightarrow> bytes \<Rightarrow> encode_error + bytes"
  and skip_entries :: "nat \<Rightarrow> nat \<Rightarrow> bytes \<Rightarrow> encode_error + bytes" where
  "skip_at depth d =
     (if depth > MAX_DEPTH then Inl TooDeep
      else ebind (read_u8 d) (\<lambda>(t, d).
        if t = 0 then Inr d
        else if t = 1 then ebind (read_u8 d) (\<lambda>(_, d). Inr d)
        else if t = 2 \<or> t = 3 \<or> t = 9 then ebind (take_bytes 8 d) (\<lambda>(_, d). Inr d)
        else if t = 8 then ebind (take_bytes 16 d) (\<lambda>(_, d). Inr d)
        else if t = 4 \<or> t = 5 then
          ebind (read_u32 d) (\<lambda>(len, d). ebind (take_bytes len d) (\<lambda>(_, d). Inr d))
        else if t = 6 then ebind (read_u32 d) (\<lambda>(len, d). skip_items (depth + 1) len d)
        else if t = 7 then ebind (read_u32 d) (\<lambda>(len, d). skip_entries (depth + 1) len d)
        else Inl (UnknownTag t)))"
| "skip_items depth 0 d = Inr d"
| "skip_items depth (Suc n) d = ebind (skip_at depth d) (skip_items depth n)"
| "skip_entries depth 0 d = Inr d"
| "skip_entries depth (Suc n) d =
     ebind (read_u32 d) (\<lambda>(klen, d).
       ebind (take_bytes klen d) (\<lambda>(_, d).
         ebind (skip_at depth d) (skip_entries depth n)))"
  by pat_completeness auto
termination
  by (relation "measures
    [\<lambda>x. case x of Inl (depth, _) \<Rightarrow> MAX_DEPTH + 1 - depth
       | Inr (Inl (depth, _, _)) \<Rightarrow> MAX_DEPTH + 1 - depth
       | Inr (Inr (depth, _, _)) \<Rightarrow> MAX_DEPTH + 1 - depth,
     \<lambda>x. case x of Inl _ \<Rightarrow> 0 | Inr (Inl (_, n, _)) \<Rightarrow> Suc n | Inr (Inr (_, n, _)) \<Rightarrow> Suc n]") auto

definition skip_value :: "bytes \<Rightarrow> encode_error + bytes" where
  "skip_value d = skip_at 0 d"

function value_at :: "'d decimal_ops \<Rightarrow> nat \<Rightarrow> bytes \<Rightarrow> encode_error + 'd Value \<times> bytes"
  and items_at :: "'d decimal_ops \<Rightarrow> nat \<Rightarrow> nat \<Rightarrow> bytes \<Rightarrow> encode_error + 'd Value list \<times> bytes"
  and entries_at :: "'d decimal_ops \<Rightarrow> nat \<Rightarrow> nat \<Rightarrow> 'd object \<Rightarrow> bytes \<Rightarrow> encode_error + 'd object \<times> bytes" where
  "value_at D depth d =
     (if depth > MAX_DEPTH then Inl TooDeep
      else ebind (read_u8 d) (\<lambda>(t, d).
        if t = 0 then Inr (Null, d)
        else if t = 1 then
          ebind (read_u8 d) (\<lambda>(b, d).
            if b = 0 then Inr (Bool False, d) else if b = 1 then Inr (Bool True, d) else Inl (BadBool b))
        else if t = 2 then ebind (read_i64 d) (\<lambda>(i, d). Inr (Int64 i, d))
        else if t = 3 then ebind (read_f64 d) (\<lambda>(f, d). Inr (Float f, d))
        else if t = 4 then ebind (read_string d) (\<lambda>(s, d). Inr (Str s, d))
        else if t = 5 then ebind (read_bytes d) (\<lambda>(b, d). Inr (Bytes b, d))
        else if t = 6 then
          ebind (read_u32 d) (\<lambda>(len, d).
            ebind (items_at D (depth + 1) len d) (\<lambda>(items, d). Inr (Array items, d)))
        else if t = 7 then
          ebind (read_u32 d) (\<lambda>(len, d).
            ebind (entries_at D (depth + 1) len [] d) (\<lambda>(obj, d). Inr (Object obj, d)))
        else if t = 8 then
          ebind (take_bytes 16 d) (\<lambda>(raw, d).
            (let dec = dec_deserialize D raw
             in if dec_scale D dec > 28 then Inl (BadDecimalScale (dec_scale D dec))
                else Inr (Decimal dec, d)))
        else if t = 9 then ebind (take_bytes 8 d) (\<lambda>(raw, d). Inr (Timestamp (from_le_bytes raw), d))
        else Inl (UnknownTag t)))"
| "items_at D depth 0 d = Inr ([], d)"
| "items_at D depth (Suc n) d =
     ebind (value_at D depth d) (\<lambda>(v, d).
       ebind (items_at D depth n d) (\<lambda>(vs, d). Inr (v # vs, d)))"
| "entries_at D depth 0 obj d = Inr (obj, d)"
| "entries_at D depth (Suc n) obj d =
     ebind (read_string d) (\<lambda>(k, d).
       ebind (value_at D depth d) (\<lambda>(v, d).
         (case btree_insert k v obj of
            (obj', None) \<Rightarrow> entries_at D depth n obj' d
          | (obj', Some _) \<Rightarrow> Inl (DuplicateKey k))))"
  by pat_completeness auto
termination
  by (relation "measures
    [\<lambda>x. case x of Inl (_, depth, _) \<Rightarrow> MAX_DEPTH + 1 - depth
       | Inr (Inl (_, depth, _, _)) \<Rightarrow> MAX_DEPTH + 1 - depth
       | Inr (Inr (_, depth, _, _, _)) \<Rightarrow> MAX_DEPTH + 1 - depth,
     \<lambda>x. case x of Inl _ \<Rightarrow> 0 | Inr (Inl (_, _, n, _)) \<Rightarrow> Suc n | Inr (Inr (_, _, n, _, _)) \<Rightarrow> Suc n]") auto

section \<open>The encoder\<close>

definition put_u32 :: "nat \<Rightarrow> encode_error + bytes" where
  "put_u32 v = (if v < 2 ^ 32 then Inr (to_le_bytes (word_of_nat v :: u32)) else Inl TooManyItems)"

fun encode_at :: "'d decimal_ops \<Rightarrow> 'd Value \<Rightarrow> nat \<Rightarrow> encode_error + bytes"
  and encode_items :: "'d decimal_ops \<Rightarrow> 'd Value list \<Rightarrow> nat \<Rightarrow> encode_error + bytes"
  and encode_entries :: "'d decimal_ops \<Rightarrow> 'd object \<Rightarrow> nat \<Rightarrow> encode_error + bytes" where
  "encode_at D v depth =
     (if depth > MAX_DEPTH then Inl TooDeep
      else (case v of
          Null \<Rightarrow> Inr [0]
        | Bool b \<Rightarrow> Inr [1, of_bool b]
        | Int64 i \<Rightarrow> Inr (2 # to_le_bytes i)
        | Float f \<Rightarrow> Inr (3 # to_le_bytes f)
        | Decimal d \<Rightarrow> Inr (8 # dec_serialize D d)
        | Timestamp ms \<Rightarrow> Inr (9 # to_le_bytes ms)
        | Str s \<Rightarrow> ebind (put_u32 (length s)) (\<lambda>n. Inr (4 # n @ s))
        | Bytes b \<Rightarrow> ebind (put_u32 (length b)) (\<lambda>n. Inr (5 # n @ b))
        | Array items \<Rightarrow>
            ebind (put_u32 (length items)) (\<lambda>n.
              ebind (encode_items D items (depth + 1)) (\<lambda>bs. Inr (6 # n @ bs)))
        | Object obj \<Rightarrow>
            ebind (put_u32 (length obj)) (\<lambda>n.
              ebind (encode_entries D obj (depth + 1)) (\<lambda>bs. Inr (7 # n @ bs)))))"
| "encode_items D [] depth = Inr []"
| "encode_items D (v # vs) depth =
     ebind (encode_at D v depth) (\<lambda>b. ebind (encode_items D vs depth) (\<lambda>bs. Inr (b @ bs)))"
| "encode_entries D [] depth = Inr []"
| "encode_entries D ((k, v) # es) depth =
     ebind (put_u32 (length k)) (\<lambda>n.
       ebind (encode_at D v depth) (\<lambda>b.
         ebind (encode_entries D es depth) (\<lambda>bs. Inr (n @ k @ b @ bs))))"

definition encode_to_vec :: "'d decimal_ops \<Rightarrow> 'd Value \<Rightarrow> encode_error + bytes" where
  "encode_to_vec D v = encode_at D v 0"

definition encode_object :: "'d decimal_ops \<Rightarrow> 'd object \<Rightarrow> encode_error + bytes" where
  "encode_object D doc =
     ebind (put_u32 (length doc)) (\<lambda>n. ebind (encode_entries D doc 1) (\<lambda>bs. Inr (7 # n @ bs)))"

section \<open>Entry points\<close>

definition decode :: "'d decimal_ops \<Rightarrow> bytes \<Rightarrow> encode_error + 'd Value" where
  "decode D buf = ebind (value_at D 0 buf) (\<lambda>(v, d). if length d \<noteq> 0 then Inl (UnknownTag 0xff) else Inr v)"

definition decode_prefix :: "'d decimal_ops \<Rightarrow> bytes \<Rightarrow> encode_error + 'd Value \<times> nat" where
  "decode_prefix D buf = ebind (value_at D 0 buf) (\<lambda>(v, d). Inr (v, length buf - length d))"

fun extract_loop :: "'d decimal_ops \<Rightarrow> bytes \<Rightarrow> nat \<Rightarrow> bytes \<Rightarrow> encode_error + 'd Value option" where
  "extract_loop D field 0 d = Inr None"
| "extract_loop D field (Suc n) d =
     ebind (read_string d) (\<lambda>(key, d).
       if key = field then ebind (value_at D 0 d) (\<lambda>(v, _). Inr (Some v))
       else ebind (skip_value d) (extract_loop D field n))"

definition extract_field :: "'d decimal_ops \<Rightarrow> bytes \<Rightarrow> bytes \<Rightarrow> encode_error + 'd Value option" where
  "extract_field D buf field =
     ebind (read_u8 buf) (\<lambda>(t, d).
       if t \<noteq> 7 then Inr None
       else ebind (read_u32 d) (\<lambda>(len, d). extract_loop D field len d))"

definition DOT :: u8 where
  "DOT = 0x2E"

definition ends_with :: "bytes \<Rightarrow> bytes \<Rightarrow> bool" where
  "ends_with k suf \<longleftrightarrow> length suf \<le> length k \<and> drop (length k - length suf) k = suf"

text \<open>The remaining entries still owe the all-dotted proof.\<close>

fun rest_dotted :: "nat \<Rightarrow> bytes \<Rightarrow> encode_error + bool" where
  "rest_dotted 0 d = Inr True"
| "rest_dotted (Suc n) d =
     ebind (read_string d) (\<lambda>(k, d).
       if DOT \<notin> set k then Inr False
       else ebind (skip_value d) (rest_dotted n))"

fun lookup_loop :: "'d decimal_ops \<Rightarrow> bytes \<Rightarrow> nat \<Rightarrow> bytes \<Rightarrow> encode_error + 'd Value option" where
  "lookup_loop D suffix 0 d = Inr None"
| "lookup_loop D suffix (Suc n) d =
     ebind (read_string d) (\<lambda>(key, d).
       if DOT \<notin> set key then Inr None
       else if ends_with key suffix then
         ebind (value_at D 0 d) (\<lambda>(v, d).
           ebind (rest_dotted n d) (\<lambda>ok. Inr (if ok then Some v else None)))
       else ebind (skip_value d) (lookup_loop D suffix n))"

definition extract_field_lookup :: "'d decimal_ops \<Rightarrow> bytes \<Rightarrow> bytes \<Rightarrow> encode_error + 'd Value option" where
  "extract_field_lookup D buf field =
     ebind (extract_field D buf field) (\<lambda>hit.
       case hit of
         Some v \<Rightarrow> Inr (Some v)
       | None \<Rightarrow>
           ebind (read_u8 buf) (\<lambda>(t, d).
             if t \<noteq> 7 then Inr None
             else ebind (read_u32 d) (\<lambda>(len, d). lookup_loop D (DOT # field) len d)))"

end
