(* ===== verification/Encode_Props.thy ===== *)
theory Encode_Props
  imports Encode
begin

text \<open>
  Lemmas about the document encoding. Well-formed values are what the program can hold: UTF-8
  strings, objects with strictly ascending keys, decimals within their library's scale.
\<close>

declare skip_at.simps [simp del]
declare value_at.simps [simp del]
declare encode_at.simps [simp del]

section \<open>Well-formed values\<close>

fun wf_value :: "'d decimal_ops \<Rightarrow> 'd Value \<Rightarrow> bool" where
  "wf_value D (Decimal d) = dec_valid D d"
| "wf_value D (Str s) = utf8_valid s"
| "wf_value D (Array xs) = list_all (wf_value D) xs"
| "wf_value D (Object es) =
     (strictly_sorted (map fst es) \<and> list_all (\<lambda>e. utf8_valid (fst e) \<and> wf_value D (snd e)) es)"
| "wf_value D _ = True"

lemma wf_decimals_ok: "wf_value D v \<Longrightarrow> decimals_ok D v"
  by (induction D v rule: decimals_ok.induct) (auto simp: list_all_iff)

section \<open>Primitive reads\<close>

lemma take_bytes_append [simp]: "length xs = n \<Longrightarrow> take_bytes n (xs @ r) = Inr (xs, r)"
  by (simp add: take_bytes_def)

lemma take_bytes_eq_Inr: "take_bytes n d = Inr (x, r) \<longleftrightarrow> d = x @ r \<and> length x = n"
  by (auto simp: take_bytes_def)

lemma read_u8_Cons [simp]: "read_u8 (b # r) = Inr (b, r)"
  by (simp add: read_u8_def take_bytes_def)

lemma read_u8_eq_Inr: "read_u8 d = Inr (b, r) \<longleftrightarrow> d = b # r"
  by (cases d) (auto simp: read_u8_def take_bytes_def)

lemma put_u32_eq_Inr: "put_u32 n = Inr bs \<longleftrightarrow> n < 2 ^ 32 \<and> bs = to_le_bytes (word_of_nat n :: u32)"
  by (auto simp: put_u32_def)

lemma length_put_u32: "put_u32 n = Inr bs \<Longrightarrow> length bs = 4"
  by (simp add: put_u32_eq_Inr)

lemma read_u32_put: "put_u32 n = Inr bs \<Longrightarrow> read_u32 (bs @ r) = Inr (n, r)"
  by (simp add: put_u32_eq_Inr read_u32_def unat_of_nat)

lemma read_u32_eq_Inr:
  "read_u32 d = Inr (n, r) \<longleftrightarrow> (\<exists>b. d = b @ r \<and> length b = 4 \<and> n = unat (from_le_bytes b :: u32))"
  by (auto simp: read_u32_def take_bytes_eq_Inr ebind_eq_Inr)

lemma read_i64_append [simp]: "read_i64 (to_le_bytes i @ r) = Inr (i, r)"
  by (simp add: read_i64_def)

lemma read_f64_append [simp]: "read_f64 (to_le_bytes f @ r) = Inr (f, r)"
  by (simp add: read_f64_def)

lemma read_bytes_put: "put_u32 (length b) = Inr bs \<Longrightarrow> read_bytes (bs @ b @ r) = Inr (b, r)"
  by (simp add: read_bytes_def read_u32_put)

lemma read_string_put: "put_u32 (length s) = Inr bs \<Longrightarrow> utf8_valid s \<Longrightarrow> read_string (bs @ s @ r) = Inr (s, r)"
  by (simp add: read_string_def read_bytes_put)

lemmas read_simps = read_u32_put read_bytes_put read_string_put take_bytes_append

section \<open>Ordered insertion\<close>

lemma strictly_sorted_tl: "strictly_sorted (k # ks) \<Longrightarrow> strictly_sorted ks"
  by (cases ks) auto

lemma cmp_bytes_trans_less: "cmp_bytes a b = Less \<Longrightarrow> cmp_bytes b c = Less \<Longrightarrow> cmp_bytes a c = Less"
  using bytes_order.cmp_less_le_trans by simp

lemma strictly_sorted_less: "strictly_sorted (k # ks) \<Longrightarrow> l \<in> set ks \<Longrightarrow> cmp_bytes k l = Less"
proof (induction ks arbitrary: k)
  case (Cons m ks)
  then show ?case using cmp_bytes_trans_less by auto
qed simp

lemma strictly_sorted_appendD:
  "strictly_sorted (ks @ l # ms) \<Longrightarrow> k \<in> set ks \<Longrightarrow> cmp_bytes k l = Less"
proof (induction ks)
  case (Cons a ks)
  then show ?case
    using strictly_sorted_less [of a "ks @ l # ms"] strictly_sorted_tl [of a "ks @ l # ms"] by auto
qed simp

lemma btree_insert_last:
  "(\<And>l. l \<in> set (map fst es) \<Longrightarrow> cmp_bytes l k = Less) \<Longrightarrow> btree_insert k v es = (es @ [(k, v)], None)"
proof (induction es)
  case (Cons e es)
  obtain l w where e: "e = (l, w)" by fastforce
  have "cmp_bytes k l = Greater" using Cons.prems [of l] cmp_bytes_swap [of k l] e by simp
  then show ?case using Cons e by simp
qed simp

lemma btree_insert_None_set:
  "btree_insert k v es = (es', None) \<Longrightarrow> set es' = insert (k, v) (set es)"
  by (induction es arbitrary: es') (auto split: ordering.splits prod.splits)

lemma btree_insert_head:
  "btree_insert k v es = (es', old) \<Longrightarrow>
     (\<exists>w. es' = (k, v) # w) \<or> (es \<noteq> [] \<and> es' \<noteq> [] \<and> fst (hd es') = fst (hd es) \<and> cmp_bytes (fst (hd es)) k = Less)"
proof (cases es)
  case (Cons e es'')
  assume "btree_insert k v es = (es', old)"
  then show ?thesis
    using Cons cmp_bytes_swap [of k "fst e"] by (cases e) (auto split: ordering.splits prod.splits)
qed auto

lemma strictly_sorted_Cons: "strictly_sorted (k # ks) \<longleftrightarrow> (ks = [] \<or> cmp_bytes k (hd ks) = Less) \<and> strictly_sorted ks"
  by (cases ks) auto

lemma btree_insert_sorted:
  "btree_insert k v es = (es', old) \<Longrightarrow> strictly_sorted (map fst es) \<Longrightarrow> strictly_sorted (map fst es')"
proof (induction es arbitrary: es')
  case (Cons e es)
  obtain l w where e: "e = (l, w)" by fastforce
  show ?case
  proof (cases "cmp_bytes k l")
    case Less
    then show ?thesis using Cons.prems e by auto
  next
    case Equal
    then show ?thesis using Cons.prems e cmp_bytes_Equal_iff [of k l] by (auto simp: strictly_sorted_Cons)
  next
    case Greater
    then obtain fs where fs: "btree_insert k v es = (fs, old)" "es' = (l, w) # fs"
      using Cons.prems e by (auto split: prod.splits)
    have s: "strictly_sorted (map fst fs)"
      using Cons.IH [OF fs(1)] Cons.prems e strictly_sorted_tl [of l "map fst es"] by simp
    have "cmp_bytes l k = Less" using Greater cmp_bytes_swap [of l k] by simp
    then have "fs = [] \<or> cmp_bytes l (fst (hd fs)) = Less"
      using btree_insert_head [OF fs(1)] Cons.prems e by (cases es) (auto simp: strictly_sorted_Cons)
    then show ?thesis using s fs by (cases fs) (auto simp: strictly_sorted_Cons)
  qed
qed auto

section \<open>Round trip\<close>

lemma not_too_deep: "encode_at D v depth = Inr bs \<Longrightarrow> depth \<le> MAX_DEPTH"
  by (auto simp: encode_at.simps [of D v depth] split: if_splits)

lemma encode_decode_at:
  shows "encode_at D v depth = Inr bs \<Longrightarrow> decimal_laws D \<Longrightarrow> wf_value D v \<Longrightarrow>
      value_at D depth (bs @ r) = Inr (v, r)"
    and "encode_items D vs depth = Inr bs \<Longrightarrow> decimal_laws D \<Longrightarrow> list_all (wf_value D) vs \<Longrightarrow>
      items_at D depth (length vs) (bs @ r) = Inr (vs, r)"
    and "encode_entries D es depth = Inr bs \<Longrightarrow> decimal_laws D \<Longrightarrow> strictly_sorted (map fst (acc @ es)) \<Longrightarrow>
      list_all (\<lambda>e. utf8_valid (fst e) \<and> wf_value D (snd e)) es \<Longrightarrow>
      entries_at D depth (length es) acc (bs @ r) = Inr (acc @ es, r)"
proof (induction D v depth and D vs depth and D es depth arbitrary: bs r and bs r and bs r acc
    rule: encode_at_encode_items_encode_entries.induct)
  case (1 D v depth)
  have nd: "depth \<le> MAX_DEPTH" using not_too_deep "1.prems"(1) .
  note L = decimal_lawsD [OF "1.prems"(2)]
  note enc = encode_at.simps ebind_eq_Inr
  note dec = value_at.simps read_simps
  show ?case
  proof (cases v)
    case (Array xs)
    then obtain n b where nb: "put_u32 (length xs) = Inr n" "encode_items D xs (depth + 1) = Inr b" "bs = 6 # n @ b"
      using "1.prems"(1) nd by (auto simp: enc)
    then have "items_at D (depth + 1) (length xs) (b @ r) = Inr (xs, r)"
      using "1.IH"(1) "1.prems"(2,3) nd Array by auto
    then show ?thesis using nb nd Array by (simp add: dec)
  next
    case (Object es)
    then obtain n b where nb: "put_u32 (length es) = Inr n" "encode_entries D es (depth + 1) = Inr b" "bs = 7 # n @ b"
      using "1.prems"(1) nd by (auto simp: enc)
    then have "entries_at D (depth + 1) (length es) [] (b @ r) = Inr ([] @ es, r)"
      using "1.IH"(2) "1.prems"(2,3) nd Object by auto
    then show ?thesis using nb nd Object by (simp add: dec)
  next
    case (Str x)
    then obtain n where "put_u32 (length x) = Inr n" "bs = 4 # n @ x" "utf8_valid x"
      using "1.prems" nd by (auto simp: enc)
    then show ?thesis using nd Str by (simp add: dec)
  next
    case (Bytes x)
    then obtain n where "put_u32 (length x) = Inr n" "bs = 5 # n @ x"
      using "1.prems" nd by (auto simp: enc)
    then show ?thesis using nd Bytes by (simp add: dec)
  qed (use nd "1.prems" L(7,8) in \<open>auto simp: encode_at.simps dec dec_valid_def\<close>)
next
  case (5 D k v es depth)
  then obtain n b bs' where b: "put_u32 (length k) = Inr n" "encode_at D v depth = Inr b"
    "encode_entries D es depth = Inr bs'" "bs = n @ k @ b @ bs'"
    by (auto simp: ebind_eq_Inr)
  have "cmp_bytes l k = Less" if "l \<in> set (map fst acc)" for l
    using strictly_sorted_appendD [of "map fst acc" k "map fst es" l] "5.prems" that by simp
  then have ins: "btree_insert k v acc = (acc @ [(k, v)], None)" by (rule btree_insert_last)
  have "value_at D depth (b @ bs' @ r) = Inr (v, bs' @ r)" using "5.IH"(1) b "5.prems" by auto
  moreover have "entries_at D depth (length es) (acc @ [(k, v)]) (bs' @ r) = Inr ((acc @ [(k, v)]) @ es, r)"
    using "5.IH"(2) b "5.prems" by auto
  ultimately show ?case using b ins "5.prems" by (simp add: read_simps)
qed (auto simp: ebind_eq_Inr)

lemma decode_encode:
  assumes "decimal_laws D" and "wf_value D v" and "encode_to_vec D v = Inr bs"
  shows "decode D bs = Inr v" and "decode_prefix D (bs @ r) = Inr (v, length bs)"
  using encode_decode_at(1) [of D v 0 bs] assms
    encode_decode_at(1) [of D v 0 bs "[]"]
  by (simp_all add: decode_def decode_prefix_def encode_to_vec_def)

lemma encode_object_eq: "encode_object D doc = encode_to_vec D (Object doc)"
  by (simp add: encode_object_def encode_to_vec_def encode_at.simps [of D "Object doc"] MAX_DEPTH_def)

lemma encode_injective:
  assumes "decimal_laws D" and "wf_value D v" and "wf_value D w"
    and "encode_to_vec D v = Inr bs" and "encode_to_vec D w = Inr bs"
  shows "v = w"
  using decode_encode(1) [OF assms(1,2,4)] decode_encode(1) [OF assms(1,3,5)] by simp


section \<open>Strict prefixes are rejected\<close>

text \<open>A read that succeeds is not changed by bytes appended after what it had.\<close>

lemma read_append:
  "take_bytes n d = Inr (x, r) \<Longrightarrow> take_bytes n (d @ y) = Inr (x, r @ y)"
  "read_u8 d = Inr (b, r) \<Longrightarrow> read_u8 (d @ y) = Inr (b, r @ y)"
  "read_u32 d = Inr (m, r) \<Longrightarrow> read_u32 (d @ y) = Inr (m, r @ y)"
  by (auto simp: take_bytes_eq_Inr read_u8_eq_Inr read_u32_eq_Inr)

lemma read_append2:
  "read_i64 d = Inr (i, r) \<Longrightarrow> read_i64 (d @ y) = Inr (i, r @ y)"
  "read_f64 d = Inr (i, r) \<Longrightarrow> read_f64 (d @ y) = Inr (i, r @ y)"
  "read_bytes d = Inr (x, r) \<Longrightarrow> read_bytes (d @ y) = Inr (x, r @ y)"
  by (auto simp: read_i64_def read_f64_def read_bytes_def read_append elim!: ebind_InrE)

lemma read_append3:
  "read_string d = Inr (x, r) \<Longrightarrow> read_string (d @ y) = Inr (x, r @ y)"
  by (auto simp: read_string_def read_append2 elim!: ebind_InrE split: if_splits)

lemmas read_appends = read_append read_append2 read_append3

lemma value_at_append:
  shows "value_at D depth d = Inr (v, r) \<Longrightarrow> value_at D depth (d @ y) = Inr (v, r @ y)"
    and "items_at D depth n d = Inr (vs, r) \<Longrightarrow> items_at D depth n (d @ y) = Inr (vs, r @ y)"
    and "entries_at D depth n obj d = Inr (es, r) \<Longrightarrow> entries_at D depth n obj (d @ y) = Inr (es, r @ y)"
proof (induction D depth d and D depth n d and D depth n obj d arbitrary: v r and vs r and es r
    rule: value_at_items_at_entries_at.induct)
  case (1 D depth d)
  from "1.prems" obtain t d1 where t: "depth \<le> MAX_DEPTH" "read_u8 d = Inr (t, d1)"
    by (auto simp: value_at.simps [of D depth d] elim!: ebind_InrE split: if_splits)
  show ?case
  proof (cases "t = 6 \<or> t = 7")
    case True
    then show ?thesis
      using "1.prems" t "1.IH"(1) [OF _ t(2)] "1.IH"(2) [OF _ t(2)]
      by (auto simp: value_at.simps [of D depth] read_appends elim!: ebind_InrE)
  next
    case False
    then show ?thesis
      using "1.prems" t
      by (auto simp: value_at.simps [of D depth] read_appends Let_def elim!: ebind_InrE split: if_splits)
  qed
next
  case (3 D depth n d)
  then show ?case by (auto elim!: ebind_InrE)
next
  case (5 D depth n obj d)
  then show ?case by (auto simp: read_appends elim!: ebind_InrE split: prod.splits option.splits)
qed auto

lemma decode_strict_prefix:
  assumes D: "decimal_laws D" and v: "wf_value D v" and e: "encode_to_vec D v = Inr bs" and k: "k < length bs"
  shows "\<exists>err. decode D (take k bs) = Inl err"
proof (cases "decode D (take k bs)")
  case (Inr w)
  then have "value_at D 0 (take k bs) = Inr (w, [])"
    by (auto simp: decode_def elim!: ebind_InrE split: if_splits)
  then have "value_at D 0 (take k bs @ drop k bs) = Inr (w, [] @ drop k bs)"
    by (rule value_at_append(1))
  moreover have "value_at D 0 bs = Inr (v, [])"
    using encode_decode_at(1) [of D v 0 bs "[]"] D v e by (simp add: encode_to_vec_def)
  ultimately have "drop k bs = []" by simp
  then show ?thesis using k by simp
qed simp

section \<open>Skipping and extraction\<close>

lemma skip_value_at:
  shows "value_at D depth d = Inr (v, r) \<Longrightarrow> skip_at depth d = Inr r"
    and "items_at D depth n d = Inr (vs, r) \<Longrightarrow> skip_items depth n d = Inr r"
    and "entries_at D depth n obj d = Inr (es, r) \<Longrightarrow> skip_entries depth n d = Inr r"
proof (induction D depth d and D depth n d and D depth n obj d arbitrary: v r and vs r and es r
    rule: value_at_items_at_entries_at.induct)
  case (1 D depth d)
  from "1.prems" obtain t d1 where t: "depth \<le> MAX_DEPTH" "read_u8 d = Inr (t, d1)"
    by (auto simp: value_at.simps [of D depth d] elim!: ebind_InrE split: if_splits)
  show ?case
  proof (cases "t = 6 \<or> t = 7")
    case True
    then show ?thesis
      using "1.prems" t "1.IH"(1) [OF _ t(2)] "1.IH"(2) [OF _ t(2)]
      by (auto simp: value_at.simps [of D depth] skip_at.simps [of depth] elim!: ebind_InrE)
  next
    case False
    then show ?thesis
      using "1.prems" t
      by (auto simp: value_at.simps [of D depth] skip_at.simps [of depth] read_string_def read_bytes_def
          read_i64_def read_f64_def Let_def elim!: ebind_InrE split: if_splits)
  qed
next
  case (3 D depth n d)
  then show ?case by (auto elim!: ebind_InrE)
next
  case (5 D depth n obj d)
  then show ?case
    by (auto simp: read_string_def read_bytes_def elim!: ebind_InrE split: prod.splits option.splits if_splits)
qed auto

lemma value_at_wf:
  shows "value_at D depth d = Inr (v, r) \<Longrightarrow> wf_value D v"
    and "items_at D depth n d = Inr (vs, r) \<Longrightarrow> list_all (wf_value D) vs"
    and "entries_at D depth n obj d = Inr (es, r) \<Longrightarrow> wf_value D (Object obj) \<Longrightarrow> wf_value D (Object es)"
proof (induction D depth d and D depth n d and D depth n obj d arbitrary: v r and vs r and es r
    rule: value_at_items_at_entries_at.induct)
  case (1 D depth d)
  from "1.prems" obtain t d1 where t: "depth \<le> MAX_DEPTH" "read_u8 d = Inr (t, d1)"
    by (auto simp: value_at.simps [of D depth d] elim!: ebind_InrE split: if_splits)
  show ?case
  proof (cases "t = 6 \<or> t = 7")
    case True
    then show ?thesis
      using "1.prems" t "1.IH"(1) [OF _ t(2)] "1.IH"(2) [OF _ t(2)]
      by (auto simp: value_at.simps [of D depth] elim!: ebind_InrE)
  next
    case False
    then show ?thesis
      using "1.prems" t
      by (auto simp: value_at.simps [of D depth] read_string_def dec_valid_def Let_def elim!: ebind_InrE
          split: if_splits)
  qed
next
  case (3 D depth n d)
  then show ?case by (auto elim!: ebind_InrE)
next
  case (5 D depth n obj d)
  then obtain k v d1 d2 obj' where r: "read_string d = Inr (k, d1)" "value_at D depth d1 = Inr (v, d2)"
    "btree_insert k v obj = (obj', None)" "entries_at D depth n obj' d2 = Inr (es, r)"
    by (auto elim!: ebind_InrE split: prod.splits option.splits)
  have "utf8_valid k" using r(1) by (auto simp: read_string_def elim!: ebind_InrE split: if_splits)
  moreover have "wf_value D v" using "5.IH"(1) r by auto
  ultimately have "wf_value D (Object obj')"
    using "5.prems"(2) r(3) btree_insert_sorted [OF r(3)] btree_insert_None_set [OF r(3)]
    by (auto simp: list_all_iff)
  then show ?case using "5.IH"(2) [OF r(1) refl r(2) refl r(3) [symmetric] refl] r(4) by auto
qed auto


lemma encode_shallower:
  shows "encode_at D v depth = Inr bs \<Longrightarrow> k \<le> depth \<Longrightarrow> encode_at D v k = Inr bs"
    and "encode_items D vs depth = Inr bs \<Longrightarrow> k \<le> depth \<Longrightarrow> encode_items D vs k = Inr bs"
    and "encode_entries D es depth = Inr bs \<Longrightarrow> k \<le> depth \<Longrightarrow> encode_entries D es k = Inr bs"
proof (induction D v depth and D vs depth and D es depth arbitrary: bs k and bs k and bs k
    rule: encode_at_encode_items_encode_entries.induct)
  case (1 D v depth)
  have nd: "depth \<le> MAX_DEPTH" using not_too_deep "1.prems"(1) .
  show ?case
  proof (cases v)
    case (Array xs)
    then obtain n b where nb: "put_u32 (length xs) = Inr n" "encode_items D xs (depth + 1) = Inr b" "bs = 6 # n @ b"
      using "1.prems"(1) nd by (auto simp: encode_at.simps ebind_eq_Inr)
    have "encode_items D xs (k + 1) = Inr b" using "1.IH"(1) [OF _ Array nb(1,2), of "k + 1"] nd "1.prems"(2) by simp
    with nb show ?thesis using Array nd "1.prems"(2) by (simp add: encode_at.simps)
  next
    case (Object es)
    then obtain n b where nb: "put_u32 (length es) = Inr n" "encode_entries D es (depth + 1) = Inr b" "bs = 7 # n @ b"
      using "1.prems"(1) nd by (auto simp: encode_at.simps ebind_eq_Inr)
    have "encode_entries D es (k + 1) = Inr b" using "1.IH"(2) [OF _ Object nb(1,2), of "k + 1"] nd "1.prems"(2) by simp
    with nb show ?thesis using Object nd "1.prems"(2) by (simp add: encode_at.simps)
  qed (use nd "1.prems" in \<open>auto simp: encode_at.simps\<close>)
next
  case (3 D v vs depth)
  from "3.prems"(1) obtain b bs' where e: "encode_at D v depth = Inr b" "encode_items D vs depth = Inr bs'" "bs = b @ bs'"
    by (auto elim!: ebind_InrE)
  show ?case
    using "3.IH"(1) [OF e(1) "3.prems"(2)] "3.IH"(2) [OF e(1) e(2) "3.prems"(2)] e(3) by simp
next
  case (5 D k' v es depth)
  from "5.prems"(1) obtain n b bs' where e: "put_u32 (length k') = Inr n" "encode_at D v depth = Inr b"
    "encode_entries D es depth = Inr bs'" "bs = n @ k' @ b @ bs'"
    by (auto elim!: ebind_InrE)
  show ?case
    using e(1,4) "5.IH"(1) [OF e(1,2) "5.prems"(2)] "5.IH"(2) [OF e(1,2,3) "5.prems"(2)] by simp
qed simp_all

lemma entry_value_at:
  assumes "decimal_laws D" and "wf_value D v" and "encode_at D v 1 = Inr b"
  shows "value_at D 0 (b @ r) = Inr (v, r)" and "skip_value (b @ r) = Inr r"
proof -
  show "value_at D 0 (b @ r) = Inr (v, r)"
    using encode_shallower(1) [of D v 1 b 0] encode_decode_at(1) [of D v 0 b r] assms by simp
  then show "skip_value (b @ r) = Inr r" using skip_value_at(1) by (simp add: skip_value_def)
qed

definition wf_entries :: "'d decimal_ops \<Rightarrow> 'd object \<Rightarrow> bool" where
  "wf_entries D es \<longleftrightarrow> list_all (\<lambda>e. utf8_valid (fst e) \<and> wf_value D (snd e)) es"

lemma encode_entries_Cons:
  assumes "decimal_laws D" and "wf_entries D ((k, v) # es)" and "encode_entries D ((k, v) # es) 1 = Inr bs"
  obtains n b bs' where "bs = n @ k @ b @ bs'" and "encode_entries D es 1 = Inr bs'" and "wf_entries D es"
    and "\<And>r. read_string (n @ k @ r) = Inr (k, r)" and "\<And>r. value_at D 0 (b @ r) = Inr (v, r)"
    and "\<And>r. skip_value (b @ r) = Inr r"
  using assms by (auto simp: ebind_eq_Inr read_string_put entry_value_at wf_entries_def)

lemma extract_loop_entries:
  assumes D: "decimal_laws D"
  shows "wf_entries D es \<Longrightarrow> encode_entries D es 1 = Inr bs \<Longrightarrow>
    extract_loop D f (length es) bs = Inr (map_of es f)"
proof (induction es arbitrary: bs)
  case (Cons e es)
  obtain k v where e: "e = (k, v)" by fastforce
  obtain n b bs' where "bs = n @ k @ b @ bs'" "encode_entries D es 1 = Inr bs'" "wf_entries D es"
    "\<And>r. read_string (n @ k @ r) = Inr (k, r)" "\<And>r. value_at D 0 (b @ r) = Inr (v, r)"
    "\<And>r. skip_value (b @ r) = Inr r"
    using encode_entries_Cons [OF D Cons.prems [unfolded e]] by metis
  then show ?case using Cons.IH e by simp
qed simp

lemma object_header:
  assumes "encode_to_vec D (Object es) = Inr bs"
  obtains n b where "bs = 7 # n @ b" and "encode_entries D es 1 = Inr b" and "read_u32 (n @ b) = Inr (length es, b)"
  using assms by (auto simp: encode_to_vec_def encode_at.simps ebind_eq_Inr MAX_DEPTH_def dest: read_u32_put)

lemma extract_field_encoded:
  assumes "decimal_laws D" and "wf_value D (Object es)" and "encode_to_vec D (Object es) = Inr bs"
  shows "extract_field D bs f = Inr (map_of es f)"
proof -
  obtain n b where "bs = 7 # n @ b" "encode_entries D es 1 = Inr b" "read_u32 (n @ b) = Inr (length es, b)"
    using object_header [OF assms(3)] .
  then show ?thesis
    using extract_loop_entries [OF assms(1), of es b f] assms(2) by (simp add: extract_field_def wf_entries_def)
qed

text \<open>What \<open>lookup_col\<close> does with a bare name on a decoded document: the exact field, else, when
  every key is dotted, the first key with the suffix.\<close>

definition lookup_dotted :: "'d object \<Rightarrow> bytes \<Rightarrow> 'd Value option" where
  "lookup_dotted es f =
     (case map_of es f of
        Some v \<Rightarrow> Some v
      | None \<Rightarrow>
          if list_all (\<lambda>e. DOT \<in> set (fst e)) es
          then map_option snd (find (\<lambda>e. ends_with (fst e) (DOT # f)) es)
          else None)"

lemma rest_dotted_entries:
  assumes D: "decimal_laws D"
  shows "wf_entries D es \<Longrightarrow> encode_entries D es 1 = Inr bs \<Longrightarrow>
    rest_dotted (length es) bs = Inr (list_all (\<lambda>e. DOT \<in> set (fst e)) es)"
proof (induction es arbitrary: bs)
  case (Cons e es)
  obtain k v where e: "e = (k, v)" by fastforce
  obtain n b bs' where "bs = n @ k @ b @ bs'" "encode_entries D es 1 = Inr bs'" "wf_entries D es"
    "\<And>r. read_string (n @ k @ r) = Inr (k, r)" "\<And>r. skip_value (b @ r) = Inr r"
    using encode_entries_Cons [OF D Cons.prems [unfolded e]] by metis
  then show ?case using Cons.IH e by simp
qed simp

lemma lookup_loop_entries:
  assumes D: "decimal_laws D"
  shows "wf_entries D es \<Longrightarrow> encode_entries D es 1 = Inr bs \<Longrightarrow>
    lookup_loop D (DOT # f) (length es) bs =
      Inr (if list_all (\<lambda>e. DOT \<in> set (fst e)) es
           then map_option snd (find (\<lambda>e. ends_with (fst e) (DOT # f)) es) else None)"
proof (induction es arbitrary: bs)
  case (Cons e es)
  obtain k v where e: "e = (k, v)" by fastforce
  obtain n b bs' where r: "bs = n @ k @ b @ bs'" "encode_entries D es 1 = Inr bs'" "wf_entries D es"
    "\<And>r. read_string (n @ k @ r) = Inr (k, r)" "\<And>r. value_at D 0 (b @ r) = Inr (v, r)"
    "\<And>r. skip_value (b @ r) = Inr r"
    using encode_entries_Cons [OF D Cons.prems [unfolded e]] by metis
  then show ?case using Cons.IH e rest_dotted_entries [OF D r(3,2)] by simp
qed simp

lemma extract_field_lookup_encoded:
  assumes "decimal_laws D" and "wf_value D (Object es)" and "encode_to_vec D (Object es) = Inr bs"
  shows "extract_field_lookup D bs f = Inr (lookup_dotted es f)"
proof -
  obtain n b where h: "bs = 7 # n @ b" "encode_entries D es 1 = Inr b" "read_u32 (n @ b) = Inr (length es, b)"
    using object_header [OF assms(3)] .
  have "wf_entries D es" using assms(2) by (simp add: wf_entries_def)
  then show ?thesis
    using extract_field_encoded [OF assms] lookup_loop_entries [OF assms(1) _ h(2)] h
    by (auto simp: extract_field_lookup_def lookup_dotted_def split: option.split)
qed

end
