(* ===== verification/Decimal_Model.thy ===== *)
theory Decimal_Model
  imports Value_Order
begin

text \<open>
  A concrete decimal type that satisfies \<open>decimal_laws\<close>, for the witnesses: a 32-bit flag word
  (scale in bits 16 to 23, sign in bit 31) and a 96-bit mantissa, serialized as 4 and 12 bytes.
\<close>

type_synonym ex_decimal = "32 word \<times> 96 word"

definition ex_mantissa :: "ex_decimal \<Rightarrow> int" where
  "ex_mantissa d = (if bit (fst d) 31 then - int (unat (snd d)) else int (unat (snd d)))"

definition ex_scale :: "ex_decimal \<Rightarrow> nat" where
  "ex_scale d = unat (drop_bit 16 (fst d) AND 0xff)"

definition ex_from :: "i64 \<Rightarrow> ex_decimal" where
  "ex_from i = (if sint i < 0 then 0x80000000 else 0, word_of_int \<bar>sint i\<bar>)"

definition ex_rat :: "ex_decimal \<Rightarrow> rat" where
  "ex_rat d = of_int (ex_mantissa d) / 10 ^ ex_scale d"

definition ex_dec :: "ex_decimal decimal_ops" where
  "ex_dec =
     \<lparr>dec_mantissa = ex_mantissa, dec_scale = ex_scale, dec_is_sign_negative = (\<lambda>d. bit (fst d) 31),
      dec_is_zero = (\<lambda>d. snd d = 0), dec_cmp = (\<lambda>x y. cmp_of (ex_rat x) (ex_rat y)),
      dec_from = ex_from, dec_serialize = (\<lambda>d. to_le_bytes (fst d) @ to_le_bytes (snd d)),
      dec_deserialize = (\<lambda>bs. (from_le_bytes (take 4 bs), from_le_bytes (drop 4 bs)))\<rparr>"

lemma ex_dec_simps [simp]:
  "dec_mantissa ex_dec = ex_mantissa" "dec_scale ex_dec = ex_scale"
  "dec_is_sign_negative ex_dec d = bit (fst d) 31" "dec_is_zero ex_dec d = (snd d = 0)"
  "dec_cmp ex_dec x y = cmp_of (ex_rat x) (ex_rat y)" "dec_from ex_dec = ex_from"
  "dec_serialize ex_dec d = to_le_bytes (fst d) @ to_le_bytes (snd d)"
  "dec_deserialize ex_dec bs = (from_le_bytes (take 4 bs), from_le_bytes (drop 4 bs))"
  by (simp_all add: ex_dec_def)

lemma ex_mantissa_from: "ex_mantissa (ex_from i) = sint i"
proof -
  have "\<bar>sint i\<bar> \<le> 2 ^ 63" using sint_i64_bounds [of i] by (auto simp: abs_le_iff)
  then have "int (unat (word_of_int \<bar>sint i\<bar> :: 96 word)) = \<bar>sint i\<bar>"
    by (simp add: unsigned_of_int take_bit_int_eq_self)
  then show ?thesis by (auto simp: ex_mantissa_def ex_from_def)
qed

lemma ex_mantissa_bound: "\<bar>ex_mantissa d\<bar> < 2 ^ 96"
  using uint_lt2p [of "snd d"] uint_ge_0 [of "snd d"] by (simp add: ex_mantissa_def)

lemma ex_mantissa_zero: "ex_mantissa d = 0 \<longleftrightarrow> snd d = 0"
  by (simp add: ex_mantissa_def uint_0_iff)

lemma ex_mantissa_sign: "ex_mantissa d \<noteq> 0 \<Longrightarrow> bit (fst d) 31 \<longleftrightarrow> ex_mantissa d < 0"
  using order_le_less [of 0 "uint (snd d)"] by (auto simp: ex_mantissa_def split: if_splits)

lemma ex_scale_from: "ex_scale (ex_from i) = 0"
  by (simp add: ex_scale_def ex_from_def)

lemma ex_dec_laws: "decimal_laws ex_dec"
  unfolding decimal_laws_def
proof (intro conjI allI impI)
  fix d :: ex_decimal and i :: i64
  show "\<bar>dec_mantissa ex_dec d\<bar> < 2 ^ 96" using ex_mantissa_bound [of d] by simp
  show "dec_is_sign_negative ex_dec d \<longleftrightarrow> dec_mantissa ex_dec d < 0" if "dec_mantissa ex_dec d \<noteq> 0"
    using ex_mantissa_sign [of d] that by simp
  show "dec_mantissa ex_dec (dec_from ex_dec i) = sint i" by (simp add: ex_mantissa_from)
  show "dec_scale ex_dec (dec_from ex_dec i) = 0" by (simp add: ex_scale_from)
qed (simp_all add: ex_mantissa_zero ex_rat_def dec_rat_def length_to_le_bytes from_to_le_bytes)

end
