(* ===== verification/Data_Properties.thy ===== *)
theory Data_Properties
  imports Encode_Props Decimal_Model
begin

text \<open>
  Properties of the value order and of the document encoding, with their witnesses over the
  concrete decimal type of \<open>Decimal_Model\<close>.
\<close>

section \<open>The value order\<close>

text \<open>\<open>C1\<close>: \<open>Value::cmp_values\<close> is a total preorder on all values with valid decimals: reflexive,
  antisymmetric as an ordering (swapping the arguments reverses the result), transitive, and values
  that compare equal compare alike with every third value. Sorting and the B-tree index rely on it,
  across all the mixed numeric types.\<close>

theorem cmp_values_total_order:
  assumes "decimal_laws D" and "decimals_ok D x" and "decimals_ok D y" and "decimals_ok D z"
  shows "cmp_values D x x = Equal \<and> cmp_values D y x = reverse (cmp_values D x y) \<and>
    (cmp_values D x y \<noteq> Greater \<longrightarrow> cmp_values D y z \<noteq> Greater \<longrightarrow> cmp_values D x z \<noteq> Greater) \<and>
    (cmp_values D x y = Equal \<longrightarrow> cmp_values D x z = cmp_values D y z)"
proof -
  have v: "ordered_value D x" "ordered_value D y" "ordered_value D z"
    using assms by (auto simp: ordered_value_def)
  show ?thesis
    using value_order.cmp_refl [OF v(1)] value_order.cmp_swap [OF v(1,2)] value_order.cmp_trans [OF v]
      value_order.cmp_Equal_left [OF v] by blast
qed

definition ex_float_half :: "ex_decimal Value" where
  "ex_float_half = Float 0x3FE0000000000000"

definition ex_dec_half :: "ex_decimal Value" where
  "ex_dec_half = Decimal (0x10000, 5)"

theorem cmp_values_total_order_witness:
  "cmp_values ex_dec (Int64 (- 3)) (Int64 (- 3)) = Equal \<and>
   cmp_values ex_dec ex_dec_half (Int64 (- 3)) = reverse (cmp_values ex_dec (Int64 (- 3)) ex_dec_half)"
  using cmp_values_total_order [of ex_dec "Int64 (- 3)" ex_dec_half ex_float_half] ex_dec_laws
  by (simp add: ex_dec_half_def ex_float_half_def dec_valid_def ex_scale_def)

text \<open>\<open>C2\<close>: numbers of any two numeric types compare by their exact mathematical value: an integer, a
  finite or infinite float and a decimal are never rounded for the comparison, and NaN sorts above
  every number.\<close>

theorem cmp_values_numeric_exact:
  assumes "decimal_laws D" and "rank x = 2" and "rank y = 2" and "decimals_ok D x" and "decimals_ok D y"
  shows "cmp_values D x y = cmp_of (num_key D x) (num_key D y)"
  by (rule cmp_values_numeric [OF assms])

theorem cmp_values_numeric_exact_witness:
  "cmp_values ex_dec ex_dec_half (Int64 1) = Less"
  using cmp_values_numeric_exact [of ex_dec ex_dec_half "Int64 1"] ex_dec_laws
  by (simp add: ex_dec_half_def dec_valid_def ex_scale_def dec_rat_def ex_mantissa_def cmp_of_def)

lemma bit_len_le: "a < 2 ^ n \<Longrightarrow> bit_len a \<le> n"
proof (cases "a = 0")
  case True
  then show ?thesis by (simp add: bit_len.simps)
next
  case False
  assume "a < 2 ^ n"
  then have "(2::nat) ^ (bit_len a - 1) < 2 ^ n" using bit_len_bounds [of a] False by linarith
  then show ?thesis by (simp add: power_strict_increasing_iff)
qed

lemma aligned_shift_bound:
  assumes "0 < b" and "a < 2 ^ n" and "bit_len a = bit_len b + j"
  shows "b * 2 ^ j < 2 ^ n"
proof -
  have "b * 2 ^ j < 2 ^ bit_len b * 2 ^ j" using bit_len_bounds [OF assms(1)] by simp
  also have "\<dots> = 2 ^ bit_len a" using assms(3) by (simp add: power_add)
  also have "\<dots> \<le> 2 ^ n" using bit_len_le [OF assms(2)] by (intro power_increasing) auto
  finally show ?thesis .
qed

text \<open>The exact decimal/float comparison stays inside \<open>u128\<close>: the significand times \<open>5 ^ scale\<close>,
  the decimal mantissa, and either side shifted left once the bit lengths agree, are all below
  \<open>2 ^ 128\<close>, so no product or shift of \<open>cmp_decimal_f64_mag\<close> loses bits.\<close>

theorem cmp_decimal_f64_no_overflow:
  assumes "decimal_laws D" and "dec_valid D d" and "strip_twos (fst (f64_parts f)) (snd (f64_parts f)) = (m, e)"
  shows "m * 5 ^ dec_scale D d < 2 ^ 128 \<and> nat \<bar>dec_mantissa D d\<bar> < 2 ^ 128 \<and>
    (\<forall>a b j. 0 < b \<and> a < 2 ^ 128 \<and> bit_len a = bit_len b + j \<longrightarrow> b * 2 ^ j < 2 ^ 128)"
proof (intro conjI)
  have "m * 5 ^ dec_scale D d < 2 ^ 119" using mag_product_bound [OF assms(3)] assms(2) by (simp add: dec_valid_def)
  also have "(2::nat) ^ 119 < 2 ^ 128" by simp
  finally show "m * 5 ^ dec_scale D d < 2 ^ 128" .
  have "\<bar>dec_mantissa D d\<bar> < 2 ^ 96" by (rule decimal_lawsD(1) [OF assms(1)])
  also have "(2::int) ^ 96 < 2 ^ 128" by simp
  finally show "nat \<bar>dec_mantissa D d\<bar> < 2 ^ 128" by (simp add: nat_less_iff)
qed (blast intro: aligned_shift_bound)

theorem cmp_decimal_f64_no_overflow_witness:
  "(1 :: nat) * 5 ^ dec_scale ex_dec (0x10000, 5) < 2 ^ 128 \<and> nat \<bar>dec_mantissa ex_dec (0x10000, 5)\<bar> < 2 ^ 128"
proof -
  have "fst (strip_twos (fst (f64_parts 0x3FE0000000000000)) (snd (f64_parts 0x3FE0000000000000))) = 1"
    by (simp add: f64_parts_def f64_exp_bits_def f64_frac_def strip_twos.simps)
  then obtain e where "strip_twos (fst (f64_parts 0x3FE0000000000000)) (snd (f64_parts 0x3FE0000000000000)) = (1, e)"
    by (metis prod.collapse)
  from cmp_decimal_f64_no_overflow [OF ex_dec_laws _ this, of "(0x10000, 5)"]
  show ?thesis by (simp add: dec_valid_def ex_scale_def)
qed

section \<open>The document encoding\<close>

text \<open>\<open>C3\<close>: decoding undoes encoding. Every value the engine stores (strings in UTF-8, object keys in
  order, decimals of scale at most 28) that encodes at all decodes to itself, as a whole buffer and
  as the prefix of a longer one.\<close>

theorem encode_round_trip:
  assumes "decimal_laws D" and "wf_value D v" and "encode_to_vec D v = Inr bs"
  shows "decode D bs = Inr v \<and> decode_prefix D (bs @ rest) = Inr (v, length bs)"
  using decode_encode [OF assms] by simp

definition ex_doc :: "ex_decimal object" where
  "ex_doc = [([0x61], Int64 7), ([0x62], Array [Null, Bool True, Decimal (0x10000, 5)])]"

definition ex_doc_bytes :: bytes where
  "ex_doc_bytes = [7, 2, 0, 0, 0, 1, 0, 0, 0, 0x61, 2, 7, 0, 0, 0, 0, 0, 0, 0,
     1, 0, 0, 0, 0x62, 6, 3, 0, 0, 0, 0, 1, 1, 8, 0, 0, 1, 0, 5, 0, 0, 0, 0, 0, 0, 0, 0, 0, 0, 0]"

lemma ex_doc_ok:
  "wf_value ex_dec (Object ex_doc)" "encode_to_vec ex_dec (Object ex_doc) = Inr ex_doc_bytes"
  by (simp_all add: ex_doc_def ex_doc_bytes_def dec_valid_def ex_scale_def encode_to_vec_def encode_at.simps
      MAX_DEPTH_def put_u32_def to_le_bytes_def le_bytes_numeral)

theorem encode_round_trip_witness:
  "decode ex_dec ex_doc_bytes = Inr (Object ex_doc) \<and>
   decode_prefix ex_dec (ex_doc_bytes @ [1, 2]) = Inr (Object ex_doc, length ex_doc_bytes)"
  using encode_round_trip [OF ex_dec_laws ex_doc_ok] .

text \<open>An encoding cut short anywhere is rejected: no strict prefix of the encoding of a value
  decodes, so a truncated record is never read as a smaller document.\<close>

theorem decode_rejects_strict_prefix:
  assumes "decimal_laws D" and "wf_value D v" and "encode_to_vec D v = Inr bs" and "k < length bs"
  shows "\<exists>err. decode D (take k bs) = Inl err"
  by (rule decode_strict_prefix [OF assms])

theorem decode_rejects_strict_prefix_witness:
  "\<exists>err. decode ex_dec (take 9 ex_doc_bytes) = Inl err"
  using decode_rejects_strict_prefix [OF ex_dec_laws ex_doc_ok, of 9] by (simp add: ex_doc_bytes_def)

text \<open>\<open>C4\<close>: on arbitrary bytes the decoder only ever produces well-formed values (valid UTF-8 strings
  and keys, strictly increasing object keys, decimal scale at most 28), and skipping the value
  consumes exactly the bytes that decoding it consumes.\<close>

theorem decoded_values_well_formed:
  assumes "value_at D 0 buf = Inr (v, rest)"
  shows "wf_value D v \<and> skip_value buf = Inr rest"
  using value_at_wf(1) [OF assms] skip_value_at(1) [OF assms] by (simp add: skip_value_def)

theorem decoded_values_well_formed_witness:
  "wf_value ex_dec (Int64 5) \<and> skip_value [2, 5, 0, 0, 0, 0, 0, 0, 0, 9] = Inr [9]"
proof -
  have "value_at ex_dec 0 [2, 5, 0, 0, 0, 0, 0, 0, 0, 9] = Inr (Int64 5, [9])"
    by (simp add: value_at.simps MAX_DEPTH_def read_u8_def read_i64_def take_bytes_def from_le_bytes_def)
  from decoded_values_well_formed [OF this] show ?thesis .
qed

text \<open>\<open>C5\<close>: \<open>extract_field\<close> and \<open>extract_field_lookup\<close> on the raw bytes of a document return what
  decoding the document and looking the field up returns: the exact key first and, when every key
  is dotted, the first key that ends in \<open>.field\<close>.\<close>

theorem extract_field_correct:
  assumes "decimal_laws D" and "wf_value D (Object doc)" and "encode_object D doc = Inr bs"
  shows "extract_field D bs f = Inr (map_of doc f) \<and>
    extract_field_lookup D bs f = Inr (lookup_dotted doc f)"
  using extract_field_encoded [OF assms(1,2)] extract_field_lookup_encoded [OF assms(1,2)] assms(3)
  by (simp add: encode_object_eq)

theorem extract_field_correct_witness:
  "extract_field ex_dec ex_doc_bytes [0x61] = Inr (Some (Int64 7)) \<and>
   extract_field_lookup ex_dec ex_doc_bytes [0x63] = Inr None"
  using extract_field_correct [OF ex_dec_laws ex_doc_ok(1), of ex_doc_bytes "[0x61]"]
    extract_field_correct [OF ex_dec_laws ex_doc_ok(1), of ex_doc_bytes "[0x63]"] ex_doc_ok(2)
  by (simp add: encode_object_eq lookup_dotted_def ex_doc_def DOT_def)

end
