(* ===== verification/Wal.thy ===== *)
theory Wal
  imports Prelude
begin

text \<open>
  The write-ahead log of \<open>wal.rs\<close>: frames, the append path with its deferred commits, fences and
  fail-stop poisoning, and the streaming frame reader with its torn-tail rule. The log file is a
  byte list. I/O calls of the append path can fail: the field \<open>disk\<close> scripts the outcome of the
  next calls (\<open>IoFail n\<close> fails after \<open>n\<close> bytes reached the file), an empty script means success.
  Reading the log back is modelled without read errors other than the end of the file.
\<close>

section \<open>Checksum\<close>

definition crc_bit :: "u32 \<Rightarrow> u32" where
  "crc_bit c = (if c AND 1 \<noteq> 0 then 0xEDB88320 XOR drop_bit 1 c else drop_bit 1 c)"

definition crc_table :: "nat \<Rightarrow> u32" where
  "crc_table i = (crc_bit ^^ 8) (word_of_nat i)"

definition crc_step :: "u32 \<Rightarrow> u8 \<Rightarrow> u32" where
  "crc_step crc b = crc_table (unat ((crc XOR ucast b) AND 0xFF)) XOR drop_bit 8 crc"

definition crc32 :: "bytes \<Rightarrow> u32" where
  "crc32 data = NOT (foldl crc_step 0xFFFFFFFF data)"

section \<open>Frames\<close>

definition KIND_BEGIN :: u8 where "KIND_BEGIN = 1"
definition KIND_WRITE :: u8 where "KIND_WRITE = 2"
definition KIND_COMMIT :: u8 where "KIND_COMMIT = 3"
definition KIND_ABORT :: u8 where "KIND_ABORT = 4"
definition KIND_COMMIT_DEFERRED :: u8 where "KIND_COMMIT_DEFERRED = 5"
definition KIND_FENCE :: u8 where "KIND_FENCE = 6"

lemmas kind_defs = KIND_BEGIN_def KIND_WRITE_def KIND_COMMIT_def KIND_ABORT_def
  KIND_COMMIT_DEFERRED_def KIND_FENCE_def

text \<open>\<open>b"DOCSWAL1"\<close>.\<close>

definition HEADER :: bytes where
  "HEADER = [0x44, 0x4F, 0x43, 0x53, 0x57, 0x41, 0x4C, 0x31]"

definition MAX_FRAME_PAYLOAD :: nat where
  "MAX_FRAME_PAYLOAD = 2 ^ 20"

datatype wal_error = WalIo | Corrupt u64 string

record log_record =
  lsn :: u64
  kind :: u8
  txid :: u64
  payload :: bytes

text \<open>The bytes \<open>append\<close> writes for one record; \<open>payload.len() as u32\<close> truncates.\<close>

definition frame_head :: "log_record \<Rightarrow> bytes" where
  "frame_head r = to_le_bytes (lsn r) @ [kind r] @ to_le_bytes (txid r) @
     to_le_bytes (word_of_nat (length (payload r)) :: u32)"

definition frame_bytes :: "log_record \<Rightarrow> bytes" where
  "frame_bytes r =
     (let frame = frame_head r @ payload r
      in frame @ to_le_bytes (crc32 (drop 8 frame)))"

definition parse_frame :: "bytes \<Rightarrow> u64 option \<Rightarrow> wal_error + (log_record \<times> nat) option" where
  "parse_frame buf expect_lsn =
     (if buf = [] then Inr None
      else if length buf < 25 then Inr None
      else
        (let l = from_le_bytes (sub_bytes buf 0 8)
         in if (case expect_lsn of Some e \<Rightarrow> l \<noteq> e | None \<Rightarrow> False)
            then Inl (Corrupt (the expect_lsn) ''lsn gap'')
            else
              (let k = buf ! 8;
                   t = from_le_bytes (sub_bytes buf 9 8);
                   len = unat (from_le_bytes (sub_bytes buf 17 4) :: u32);
                   end = 21 + len + 4
               in if length buf < end then Inr None
                  else if crc32 (sub_bytes buf 8 (13 + len)) \<noteq> from_le_bytes (sub_bytes buf (21 + len) 4) then Inr None
                  else Inr (Some (\<lparr>lsn = l, kind = k, txid = t, payload = sub_bytes buf 21 len\<rparr>, end)))))"

text \<open>\<open>FrameReader::read_frame\<close> at offset \<open>pos\<close> of the file, expecting \<open>next\<close>.\<close>

definition read_frame :: "bytes \<Rightarrow> u64 option \<Rightarrow> nat \<Rightarrow> wal_error + (log_record \<times> nat) option" where
  "read_frame file next pos =
     (let rest = drop pos file
      in if length rest < 21 then Inr None
         else
           (let l = from_le_bytes (sub_bytes rest 0 8);
                len = unat (from_le_bytes (sub_bytes rest 17 4) :: u32);
                frame_end = pos + 21 + len + 4
            in if len > MAX_FRAME_PAYLOAD then
                 (if frame_end < length file then Inl (Corrupt l ''corrupt frame length mid-log'') else Inr None)
               else if length rest < 21 + len + 4 then Inr None
               else
                 (case parse_frame (take (21 + len + 4) rest) next of
                    Inr (Some (r, adv)) \<Rightarrow> Inr (Some (r, adv))
                  | _ \<Rightarrow> if frame_end < length file then Inl (Corrupt l ''corrupt frame mid-log'') else Inr None)))"

lemma parse_frame_Some:
  assumes "parse_frame buf e = Inr (Some (r, adv))"
  shows "25 \<le> adv" and "adv \<le> length buf"
  using assms by (auto simp: parse_frame_def Let_def split: if_splits option.splits)

lemma read_frame_Some:
  assumes "read_frame file next pos = Inr (Some (r, adv))"
  shows "25 \<le> adv" and "pos + adv \<le> length file"
proof -
  have "\<exists>n. parse_frame (take n (drop pos file)) next = Inr (Some (r, adv))"
    using assms unfolding read_frame_def Let_def
    by (auto simp del: take_all split: if_splits sum.splits option.splits)
      (metis take_all_iff order_refl)?
  then obtain n where "parse_frame (take n (drop pos file)) next = Inr (Some (r, adv))" ..
  from parse_frame_Some [OF this] show "25 \<le> adv" "pos + adv \<le> length file" by auto
qed

text \<open>Iterating the reader: the records it yields, the end of the last one (\<open>valid_end\<close>) and the
  error that ended the iteration, if any.\<close>

function scan_frames :: "bytes \<Rightarrow> u64 option \<Rightarrow> nat \<Rightarrow> log_record list \<times> nat \<times> wal_error option" where
  "scan_frames file next pos =
     (case read_frame file next pos of
        Inl e \<Rightarrow> ([], pos, Some e)
      | Inr None \<Rightarrow> ([], pos, None)
      | Inr (Some (r, adv)) \<Rightarrow>
          (case scan_frames file (Some (lsn r + 1)) (pos + adv) of
             (rs, p, e) \<Rightarrow> (r # rs, p, e)))"
  by pat_completeness auto
termination
proof (relation "measure (\<lambda>(file, _, pos). length file - pos)", goal_cases)
  case (2 f e pos x2 x2a r adv)
  then have "25 \<le> adv" "pos + adv \<le> length f" using read_frame_Some by auto
  then show ?case by auto
qed simp

declare scan_frames.simps [simp del]

definition frames :: "bytes \<Rightarrow> log_record list \<times> nat \<times> wal_error option" where
  "frames file = scan_frames file None (length HEADER)"

definition scan_file :: "bytes \<Rightarrow> wal_error + log_record list" where
  "scan_file file = (case frames file of (rs, _, None) \<Rightarrow> Inr rs | (_, _, Some e) \<Rightarrow> Inl e)"

section \<open>Deferred commits seen by recovery\<close>

text \<open>Entries \<open>(lsn, txid, status)\<close> with status 0 pending, 1 durable, 2 voided.\<close>

type_synonym deferred_set = "(u64 \<times> u64 \<times> nat) list"

definition deferred_push :: "u64 \<Rightarrow> u64 \<Rightarrow> deferred_set \<Rightarrow> deferred_set" where
  "deferred_push l t ds = ds @ [(l, t, 0)]"

definition deferred_fence :: "u64 \<Rightarrow> deferred_set \<Rightarrow> deferred_set" where
  "deferred_fence fence_lsn ds =
     map (\<lambda>(l, t, s). if l < fence_lsn \<and> s = 0 then (l, t, 1) else (l, t, s)) ds"

definition deferred_abort :: "u64 \<Rightarrow> u64 \<Rightarrow> deferred_set \<Rightarrow> deferred_set" where
  "deferred_abort tx abort_lsn ds =
     map (\<lambda>(l, t, s). if t = tx \<and> l < abort_lsn then (l, t, 2) else (l, t, s)) ds"

definition durable_lsns :: "deferred_set \<Rightarrow> u64 list" where
  "durable_lsns ds = map (\<lambda>(l, _, _). l) (filter (\<lambda>(_, _, s). s = 1) ds)"

definition durable_txids :: "deferred_set \<Rightarrow> u64 list" where
  "durable_txids ds = map (\<lambda>(_, t, _). t) (filter (\<lambda>(_, _, s). s = 1) ds)"

section \<open>The log\<close>

datatype poison = FsyncFailed | AppendAfterFence | AbortAppendFailed | CheckpointHeader

datatype io = IoOk | IoFail nat

record wal =
  w_file :: bytes
  w_synced :: nat
  next_lsn :: u64
  last_commit_lsn :: u64
  durable_lsn :: u64
  appended :: nat
  deferred_since_fence :: nat
  deferred_txids :: "u64 list"
  epoch :: nat
  poisoned :: "poison option"
  disk :: "io list"

text \<open>\<open>w_synced\<close> is not a field of the code: it records how many bytes of the file the last
  successful \<open>fsync\<close> made durable, for the statements about crashes.\<close>

definition next_io :: "wal \<Rightarrow> io \<times> wal" where
  "next_io w = (case disk w of [] \<Rightarrow> (IoOk, w) | x # xs \<Rightarrow> (x, w\<lparr>disk := xs\<rparr>))"

definition fresh_wal :: "bytes \<Rightarrow> u64 \<Rightarrow> u64 \<Rightarrow> io list \<Rightarrow> wal" where
  "fresh_wal file next dur script =
     \<lparr>w_file = file, w_synced = length file, next_lsn = next, last_commit_lsn = dur, durable_lsn = dur,
      appended = length file, deferred_since_fence = 0, deferred_txids = [], epoch = 0,
      poisoned = None, disk = script\<rparr>"

text \<open>The scan of \<open>Wal::open\<close>: \<open>(open_tx, deferred, durable, next_lsn)\<close> after one record.\<close>

type_synonym open_state = "u64 set \<times> deferred_set \<times> u64 \<times> u64"

definition open_step :: "open_state \<Rightarrow> log_record \<Rightarrow> open_state" where
  "open_step st r =
     (case st of (open_tx, ds, durable, _) \<Rightarrow>
        (let (open_tx, ds, durable) =
           (if kind r = KIND_BEGIN then (insert (txid r) open_tx, ds, durable)
            else if kind r = KIND_COMMIT \<and> txid r \<in> open_tx
              then (open_tx - {txid r}, ds, max durable (lsn r))
            else if kind r = KIND_COMMIT_DEFERRED \<and> txid r \<in> open_tx
              then (open_tx, deferred_push (lsn r) (txid r) ds, durable)
            else if kind r = KIND_FENCE then (open_tx, deferred_fence (lsn r) ds, durable)
            else if kind r = KIND_ABORT
              then (open_tx - {txid r}, deferred_abort (txid r) (lsn r) ds, durable)
            else (open_tx, ds, durable))
         in (open_tx, ds, durable, lsn r + 1)))"

text \<open>\<open>Wal::open\<close> of an existing file content (\<open>None\<close>: no file, or an empty one).\<close>

definition wal_open :: "bytes option \<Rightarrow> io list \<Rightarrow> wal_error + wal" where
  "wal_open content script =
     (if content = None \<or> content = Some [] then Inr (fresh_wal HEADER 1 0 script)
      else
        (let file = the content
         in if length file < length HEADER then Inl (Corrupt 0 ''bad header'')
            else if take (length HEADER) file \<noteq> HEADER then Inl (Corrupt 0 ''bad header'')
            else
              (case frames file of
                 (_, _, Some e) \<Rightarrow> Inl e
               | (recs, good_end, None) \<Rightarrow>
                   (case foldl open_step ({}, [], 0, 1) recs of
                      (_, ds, durable, next) \<Rightarrow>
                        (let durable = foldl max durable (durable_lsns ds)
                         in Inr (fresh_wal (set_len file good_end) next durable script))))))"

definition wal_append :: "u8 \<Rightarrow> u64 \<Rightarrow> bytes \<Rightarrow> (wal, wal_error, u64) op" where
  "wal_append k t pl w =
     (if poisoned w \<noteq> None then (Inl WalIo, w)
      else
        (let l = next_lsn w;
             frame = frame_bytes \<lparr>lsn = l, kind = k, txid = t, payload = pl\<rparr>
         in case next_io w of
              (IoFail n, w1) \<Rightarrow>
                (let w2 = w1\<lparr>w_file := write_at (w_file w1) (appended w1) (take n frame)\<rparr>
                 in case next_io w2 of
                      (IoOk, w3) \<Rightarrow> (Inl WalIo, w3\<lparr>w_file := set_len (w_file w3) (appended w3)\<rparr>)
                    | (IoFail _, w3) \<Rightarrow> (Inl WalIo, w3))
            | (IoOk, w1) \<Rightarrow>
                (let w2 = w1\<lparr>w_file := write_at (w_file w1) (appended w1) frame,
                             appended := appended w1 + length frame\<rparr>;
                     w3 = (if k = KIND_COMMIT_DEFERRED
                           then w2\<lparr>deferred_since_fence := deferred_since_fence w2 + 1,
                                   deferred_txids := deferred_txids w2 @ [t]\<rparr>
                           else w2)
                 in (Inr l, w3\<lparr>next_lsn := next_lsn w3 + 1\<rparr>))))"

definition wal_begin :: "u64 \<Rightarrow> (wal, wal_error, u64) op" where
  "wal_begin t = wal_append KIND_BEGIN t []"

definition log_write :: "u64 \<Rightarrow> bytes \<Rightarrow> (wal, wal_error, u64) op" where
  "log_write t pl = wal_append KIND_WRITE t pl"

definition wal_abort :: "u64 \<Rightarrow> (wal, wal_error, u64) op" where
  "wal_abort t = wal_append KIND_ABORT t []"

definition wal_sync :: "(wal, wal_error, unit) op" where
  "wal_sync w =
     (case next_io w of
        (IoFail _, w1) \<Rightarrow> (Inl WalIo, w1\<lparr>poisoned := Some FsyncFailed\<rparr>)
      | (IoOk, w1) \<Rightarrow>
          (Inr (), w1\<lparr>w_synced := length (w_file w1),
                      durable_lsn := max (durable_lsn w1) (last_commit_lsn w1)\<rparr>))"

definition wal_fence :: "(wal, wal_error, u64) op" where
  "wal_fence w =
     (if deferred_since_fence w = 0 then (Inr 0, w)
      else if deferred_txids w = [] then (Inl WalIo, w)
      else
        (case wal_append KIND_FENCE 0 [] w of
           (Inl e, w1) \<Rightarrow> (Inl e, w1)
         | (Inr l, w1) \<Rightarrow>
             (Inr l, w1\<lparr>deferred_since_fence := 0, deferred_txids := [],
                        last_commit_lsn := max (last_commit_lsn w1) l\<rparr>)))"

definition wal_commit :: "u64 \<Rightarrow> (wal, wal_error, u64) op" where
  "wal_commit t w =
     (case wal_fence w of
        (Inl e, w1) \<Rightarrow> (Inl e, w1)
      | (Inr fence_lsn, w1) \<Rightarrow>
          (case wal_append KIND_COMMIT t [] w1 of
             (Inl e, w2) \<Rightarrow>
               (Inl e, if fence_lsn > 0 then w2\<lparr>poisoned := Some AppendAfterFence\<rparr> else w2)
           | (Inr l, w2) \<Rightarrow>
               (case wal_sync (w2\<lparr>last_commit_lsn := max (last_commit_lsn w2) l\<rparr>) of
                  (Inl e, w3) \<Rightarrow> (Inl e, w3)
                | (Inr _, w3) \<Rightarrow> (Inr l, w3))))"

definition commit_deferred :: "u64 \<Rightarrow> (wal, wal_error, u64) op" where
  "commit_deferred t w =
     (case wal_append KIND_COMMIT_DEFERRED t [] w of
        (Inl e, w1) \<Rightarrow> (Inl e, w1)
      | (Inr l, w1) \<Rightarrow> (Inr l, w1\<lparr>last_commit_lsn := max (last_commit_lsn w1) l\<rparr>))"

text \<open>The loop of \<open>abort_deferred\<close> over the outstanding transactions.\<close>

fun abort_all :: "u64 list \<Rightarrow> (wal, wal_error, unit) op" where
  "abort_all [] w = (Inr (), w)"
| "abort_all (t # ts) w =
     (case wal_append KIND_ABORT t [] w of
        (Inl e, w1) \<Rightarrow> (Inl e, w1\<lparr>poisoned := Some AbortAppendFailed\<rparr>)
      | (Inr _, w1) \<Rightarrow> abort_all ts w1)"

definition abort_deferred :: "(wal, wal_error, unit) op" where
  "abort_deferred w =
     (case abort_all (deferred_txids w) w of
        (Inl e, w1) \<Rightarrow> (Inl e, w1)
      | (Inr _, w1) \<Rightarrow> (Inr (), w1\<lparr>deferred_txids := [], deferred_since_fence := 0\<rparr>))"

definition wal_records :: "wal \<Rightarrow> wal_error + log_record list" where
  "wal_records w = scan_file (w_file w)"

text \<open>\<open>checkpoint\<close>: the truncation, then the header rewrite and its sync (one scripted outcome for
  the guarded chain \<open>seek, write_all, sync_all\<close>).\<close>

definition wal_checkpoint :: "(wal, wal_error, unit) op" where
  "wal_checkpoint w =
     (case next_io w of
        (IoFail _, w1) \<Rightarrow> (Inl WalIo, w1)
      | (IoOk, w1) \<Rightarrow>
          (let w2 = w1\<lparr>w_file := []\<rparr>
           in case next_io w2 of
                (IoFail n, w3) \<Rightarrow>
                  (Inl WalIo, w3\<lparr>w_file := take n HEADER, poisoned := Some CheckpointHeader\<rparr>)
              | (IoOk, w3) \<Rightarrow>
                  (Inr (), w3\<lparr>w_file := HEADER, w_synced := length HEADER, durable_lsn := 0,
                     last_commit_lsn := 0, next_lsn := 1, appended := length HEADER,
                     deferred_since_fence := 0, deferred_txids := [], epoch := epoch w3 + 1,
                     poisoned := None\<rparr>)))"

end
