(* ===== verification/Wal_Props.thy ===== *)
theory Wal_Props
  imports Wal
begin

text \<open>
  Lemmas about the log: the table-driven checksum is the bitwise one, frames parse back, a cut
  log yields exactly the frames that are whole, and the append path keeps the file a sequence of
  whole frames with consecutive LSNs, whatever I/O calls fail.
\<close>

section \<open>The checksum table\<close>

lemma bit_and_1: "(c AND 1 \<noteq> 0) = bit (c :: u32) 0"
  by (simp add: and_one_eq bit_0 mod_2_eq_odd)

lemma crc_bit_alt: "crc_bit c = drop_bit 1 c XOR (if bit c 0 then 0xEDB88320 else 0)"
  by (simp add: crc_bit_def bit_and_1 xor.commute)

lemma xor_swap4: "(a XOR b) XOR (c XOR d) = (a XOR c) XOR (b XOR (d :: u32))"
  by (simp add: xor.assoc xor.left_commute)

lemma crc_bit_xor: "crc_bit (a XOR b) = crc_bit a XOR crc_bit b"
  unfolding crc_bit_alt drop_bit_xor bit_xor_iff xor_swap4
  by auto

lemma crc_bits_xor: "(crc_bit ^^ n) (a XOR b) = (crc_bit ^^ n) a XOR (crc_bit ^^ n) b"
  by (induction n) (simp_all add: crc_bit_xor)

lemma crc_bits_high: "(\<And>k. k < n \<Longrightarrow> \<not> bit c k) \<Longrightarrow> (crc_bit ^^ n) c = drop_bit n c"
proof (induction n)
  case (Suc n)
  then have "(crc_bit ^^ n) c = drop_bit n c" by simp
  moreover have "\<not> bit (drop_bit n c) 0" using Suc.prems by (simp add: bit_drop_bit_eq)
  ultimately show ?case using crc_bit_alt [of "drop_bit n c"] by (simp add: drop_bit_drop_bit)
qed simp

lemma mask8: "(0xFF :: u32) = mask 8"
  by (simp add: mask_eq_exp_minus_1)

lemma low_byte_split: "(x :: u32) = (x AND 0xFF) XOR (x AND NOT 0xFF)"
  by (rule bit_word_eqI) (auto simp: bit_simps)

lemma crc_step_bitwise: "crc_step crc b = (crc_bit ^^ 8) (crc XOR ucast b)"
proof -
  define x where "x = crc XOR (ucast b :: u32)"
  have "(crc_bit ^^ 8) x = (crc_bit ^^ 8) (x AND 0xFF) XOR (crc_bit ^^ 8) (x AND NOT 0xFF)"
    using crc_bits_xor low_byte_split [of x] by metis
  moreover have "(crc_bit ^^ 8) (x AND NOT 0xFF) = drop_bit 8 (x AND NOT 0xFF)"
    by (rule crc_bits_high) (simp add: mask8 bit_simps)
  moreover have "drop_bit 8 (x AND NOT 0xFF) = drop_bit 8 crc"
  proof (rule bit_word_eqI)
    fix n assume n: "n < LENGTH(32)"
    have "\<not> bit (ucast b :: u32) (8 + n)" by (auto simp: bit_simps dest: bit_imp_le_length)
    then show "bit (drop_bit 8 (x AND NOT 0xFF)) n = bit (drop_bit 8 crc) n"
      using n by (auto simp: x_def mask8 bit_simps dest: bit_imp_le_length)
  qed
  ultimately show ?thesis by (simp add: crc_step_def crc_table_def x_def)
qed

text \<open>The original bitwise loop, as the comment of \<open>crc32\<close> refers to it.\<close>

definition crc32_bitwise :: "bytes \<Rightarrow> u32" where
  "crc32_bitwise data = NOT (foldl (\<lambda>crc b. (crc_bit ^^ 8) (crc XOR ucast b)) 0xFFFFFFFF data)"

lemma crc32_eq_bitwise: "crc32 data = crc32_bitwise data"
  by (simp add: crc32_def crc32_bitwise_def crc_step_bitwise [abs_def])

section \<open>Frames\<close>

lemma length_frame_head [simp]: "length (frame_head r) = 21"
  by (simp add: frame_head_def)

lemma length_frame_bytes: "length (frame_bytes r) = 25 + length (payload r)"
  by (simp add: frame_bytes_def Let_def)

lemma frame_fields:
  assumes "length (payload r) < 2 ^ 32"
  shows "from_le_bytes (sub_bytes (frame_bytes r @ x) 0 8) = lsn r"
    and "(frame_bytes r @ x) ! 8 = kind r"
    and "from_le_bytes (sub_bytes (frame_bytes r @ x) 9 8) = txid r"
    and "unat (from_le_bytes (sub_bytes (frame_bytes r @ x) 17 4) :: u32) = length (payload r)"
    and "sub_bytes (frame_bytes r @ x) 21 (length (payload r)) = payload r"
    and "from_le_bytes (sub_bytes (frame_bytes r @ x) (21 + length (payload r)) 4) =
      crc32 (sub_bytes (frame_bytes r @ x) 8 (13 + length (payload r)))"
proof -
  have fb: "frame_bytes r @ x = to_le_bytes (lsn r) @ [kind r] @ to_le_bytes (txid r) @
      to_le_bytes (word_of_nat (length (payload r)) :: u32) @ payload r @
      to_le_bytes (crc32 (drop 8 (frame_head r @ payload r))) @ x"
    by (simp add: frame_bytes_def frame_head_def Let_def)
  show "from_le_bytes (sub_bytes (frame_bytes r @ x) 0 8) = lsn r"
    by (simp add: fb sub_bytes_def)
  show "(frame_bytes r @ x) ! 8 = kind r" by (simp add: fb nth_append)
  show "from_le_bytes (sub_bytes (frame_bytes r @ x) 9 8) = txid r"
    by (simp add: fb sub_bytes_def)
  show "unat (from_le_bytes (sub_bytes (frame_bytes r @ x) 17 4) :: u32) = length (payload r)"
    using assms by (simp add: fb sub_bytes_def unat_of_nat)
  show "sub_bytes (frame_bytes r @ x) 21 (length (payload r)) = payload r"
    by (simp add: fb sub_bytes_def)
  have "drop 8 (frame_bytes r @ x) = drop 8 (frame_head r @ payload r) @
      to_le_bytes (crc32 (drop 8 (frame_head r @ payload r))) @ x"
    by (simp add: frame_bytes_def Let_def)
  then have "sub_bytes (frame_bytes r @ x) 8 (13 + length (payload r)) = drop 8 (frame_head r @ payload r)"
    by (simp add: sub_bytes_def)
  moreover have "sub_bytes (frame_bytes r @ x) (21 + length (payload r)) 4 =
      to_le_bytes (crc32 (drop 8 (frame_head r @ payload r)))"
    by (simp add: frame_bytes_def Let_def sub_bytes_def)
  ultimately show "from_le_bytes (sub_bytes (frame_bytes r @ x) (21 + length (payload r)) 4) =
      crc32 (sub_bytes (frame_bytes r @ x) 8 (13 + length (payload r)))"
    by simp
qed

lemma parse_frame_bytes:
  assumes "length (payload r) < 2 ^ 32" and "e = None \<or> e = Some (lsn r)"
  shows "parse_frame (frame_bytes r @ x) e = Inr (Some (r, length (frame_bytes r)))"
  using assms(2) frame_fields [OF assms(1), of x]
  by (auto simp: parse_frame_def Let_def length_frame_bytes simp flip: length_0_conv split: option.splits)

definition frame_ok :: "log_record \<Rightarrow> bool" where
  "frame_ok r \<longleftrightarrow> length (payload r) \<le> MAX_FRAME_PAYLOAD"

lemma frame_ok_u32: "frame_ok r \<Longrightarrow> length (payload r) < 2 ^ 32"
  by (simp add: frame_ok_def MAX_FRAME_PAYLOAD_def)

lemma read_frame_bytes:
  assumes "frame_ok r" and "e = None \<or> e = Some (lsn r)" and "file = pre @ frame_bytes r @ x" and "pos = length pre"
  shows "read_frame file e pos = Inr (Some (r, length (frame_bytes r)))"
proof -
  have "parse_frame (take (25 + length (payload r)) (frame_bytes r @ x)) e = Inr (Some (r, length (frame_bytes r)))"
    using parse_frame_bytes [OF frame_ok_u32 [OF assms(1)] assms(2), of "[]"] by (simp add: length_frame_bytes)
  then show ?thesis
    using assms frame_fields(4) [OF frame_ok_u32 [OF assms(1)], of x]
    by (simp add: read_frame_def Let_def length_frame_bytes frame_ok_def)
qed

text \<open>A frame cut short at the end of the file ends the scan without an error.\<close>

lemma read_frame_torn:
  assumes "frame_ok r" and "k < length (frame_bytes r)" and "file = pre @ take k (frame_bytes r)" and "pos = length pre"
  shows "read_frame file e pos = Inr None"
proof (cases "k < 21")
  case True
  then show ?thesis using assms by (simp add: read_frame_def length_frame_bytes)
next
  case False
  have "sub_bytes (take k (frame_bytes r)) 17 4 = sub_bytes (frame_bytes r) 17 4"
    using False by (simp add: sub_bytes_def drop_take min_def)
  then have "unat (from_le_bytes (sub_bytes (take k (frame_bytes r)) 17 4) :: u32) = length (payload r)"
    using frame_fields(4) [OF frame_ok_u32 [OF assms(1)], of "[]"] by simp
  then show ?thesis
    using assms False by (simp add: read_frame_def Let_def length_frame_bytes frame_ok_def)
qed

lemma read_frame_end: "pos = length file \<Longrightarrow> read_frame file e pos = Inr None"
  by (simp add: read_frame_def)

section \<open>Scanning a log\<close>

definition log_bytes :: "log_record list \<Rightarrow> bytes" where
  "log_bytes rs = concat (map frame_bytes rs)"

lemma log_bytes_simps [simp]:
  "log_bytes [] = []" "log_bytes (r # rs) = frame_bytes r @ log_bytes rs"
  "log_bytes (rs @ ss) = log_bytes rs @ log_bytes ss"
  by (simp_all add: log_bytes_def)

text \<open>Consecutive LSNs, the first one free.\<close>

fun consecutive :: "log_record list \<Rightarrow> bool" where
  "consecutive [] = True"
| "consecutive [r] = True"
| "consecutive (r # s # rs) = (lsn s = lsn r + 1 \<and> consecutive (s # rs))"

definition log_ok :: "log_record list \<Rightarrow> bool" where
  "log_ok rs \<longleftrightarrow> consecutive rs \<and> list_all frame_ok rs"

lemma log_ok_Cons: "log_ok (r # rs) \<longleftrightarrow> frame_ok r \<and> (rs = [] \<or> lsn (hd rs) = lsn r + 1) \<and> log_ok rs"
  by (cases rs) (auto simp: log_ok_def)

lemma consecutive_append:
  "consecutive (rs @ [r]) \<longleftrightarrow> consecutive rs \<and> (rs = [] \<or> lsn r = lsn (last rs) + 1)"
  by (induction rs rule: consecutive.induct) auto

lemma log_ok_append: "log_ok (rs @ [r]) \<longleftrightarrow> log_ok rs \<and> frame_ok r \<and> (rs = [] \<or> lsn r = lsn (last rs) + 1)"
  by (auto simp: log_ok_def consecutive_append)

lemma log_ok_prefix: "log_ok (rs @ ss) \<Longrightarrow> log_ok rs"
proof (induction rs)
  case Nil
  then show ?case by (simp add: log_ok_def)
next
  case (Cons r rs)
  then show ?case by (cases rs) (auto simp: log_ok_Cons)
qed

lemma log_ok_take: "log_ok rs \<Longrightarrow> log_ok (take n rs)"
  using log_ok_prefix [of "take n rs" "drop n rs"] by simp

text \<open>What follows the whole frames: nothing, or the beginning of one more frame.\<close>

definition torn_tail :: "bytes \<Rightarrow> bool" where
  "torn_tail t \<longleftrightarrow> t = [] \<or> (\<exists>r k. frame_ok r \<and> k < length (frame_bytes r) \<and> t = take k (frame_bytes r))"

lemma scan_frames_log:
  assumes "log_ok rs" and "torn_tail t" and "e = None \<or> rs = [] \<or> e = Some (lsn (hd rs))"
    and "file = pre @ log_bytes rs @ t" and "pos = length pre"
  shows "scan_frames file e pos = (rs, pos + length (log_bytes rs), None)"
  using assms
proof (induction rs arbitrary: e pre pos)
  case Nil
  then have "read_frame file e pos = Inr None"
    using read_frame_torn read_frame_end by (auto simp: torn_tail_def)
  then show ?case by (simp add: scan_frames.simps)
next
  case (Cons r rs)
  have fr: "frame_ok r" and ok: "log_ok rs" and nx: "rs = [] \<or> lsn (hd rs) = lsn r + 1"
    using Cons.prems(1) by (auto simp: log_ok_Cons)
  have "read_frame file e pos = Inr (Some (r, length (frame_bytes r)))"
    using read_frame_bytes [OF fr _ _ Cons.prems(5), of e "file" "log_bytes rs @ t"] Cons.prems by auto
  moreover have "scan_frames file (Some (lsn r + 1)) (pos + length (frame_bytes r)) =
      (rs, pos + length (frame_bytes r) + length (log_bytes rs), None)"
    using Cons.IH [OF ok Cons.prems(2), of "Some (lsn r + 1)" "pre @ frame_bytes r"] nx Cons.prems by auto
  ultimately show ?case by (simp add: scan_frames.simps [of "file" e pos])
qed

lemma frames_log:
  assumes "log_ok rs" and "torn_tail t"
  shows "frames (HEADER @ log_bytes rs @ t) = (rs, length HEADER + length (log_bytes rs), None)"
  unfolding frames_def using scan_frames_log [OF assms] by simp

text \<open>Every cut of a log is a prefix of its frames and a torn tail.\<close>

lemma log_bytes_cut:
  assumes "list_all frame_ok rs"
  obtains n t where "n \<le> length rs" and "take k (log_bytes rs) = log_bytes (take n rs) @ t" and "torn_tail t"
    and "length (log_bytes (take n rs)) \<le> k" and "n < length rs \<Longrightarrow> k < length (log_bytes (take (Suc n) rs))"
proof -
  have "\<exists>n t. n \<le> length rs \<and> take k (log_bytes rs) = log_bytes (take n rs) @ t \<and> torn_tail t \<and>
      length (log_bytes (take n rs)) \<le> k \<and> (n < length rs \<longrightarrow> k < length (log_bytes (take (Suc n) rs)))"
    using assms
  proof (induction rs arbitrary: k)
    case Nil
    then show ?case by (auto simp: torn_tail_def)
  next
    case (Cons r rs)
    show ?case
    proof (cases "k < length (frame_bytes r)")
      case True
      then have "take k (log_bytes (r # rs)) = take k (frame_bytes r)" by simp
      then show ?thesis
        using Cons.prems True by (intro exI [of _ 0] exI [of _ "take k (frame_bytes r)"]) (auto simp: torn_tail_def)
    next
      case False
      obtain n t where "n \<le> length rs" "take (k - length (frame_bytes r)) (log_bytes rs) = log_bytes (take n rs) @ t"
        "torn_tail t" "length (log_bytes (take n rs)) \<le> k - length (frame_bytes r)"
        "n < length rs \<longrightarrow> k - length (frame_bytes r) < length (log_bytes (take (Suc n) rs))"
        using Cons.IH [of "k - length (frame_bytes r)"] Cons.prems by auto
      then have "Suc n \<le> length (r # rs) \<and> take k (log_bytes (r # rs)) = log_bytes (take (Suc n) (r # rs)) @ t \<and>
          torn_tail t \<and> length (log_bytes (take (Suc n) (r # rs))) \<le> k \<and>
          (Suc n < length (r # rs) \<longrightarrow> k < length (log_bytes (take (Suc (Suc n)) (r # rs))))"
        using False by (simp add: less_diff_conv2 le_diff_conv2 add.commute)
      then show ?thesis by blast
    qed
  qed
  then show ?thesis using that by blast
qed


section \<open>The append path keeps the log well formed\<close>

text \<open>The first \<open>appended\<close> bytes of the file are the header and the frames of \<open>rs\<close>, with consecutive
  LSNs up to \<open>next_lsn\<close>. Bytes after \<open>appended\<close> can only be the remains of a failed append whose
  truncation failed too.\<close>

definition wal_log :: "wal \<Rightarrow> log_record list \<Rightarrow> bool" where
  "wal_log w rs \<longleftrightarrow>
     take (appended w) (w_file w) = HEADER @ log_bytes rs \<and>
     appended w = length HEADER + length (log_bytes rs) \<and>
     log_ok rs \<and> (rs \<noteq> [] \<longrightarrow> next_lsn w = lsn (last rs) + 1)"

lemma wal_log_len: "wal_log w rs \<Longrightarrow> appended w \<le> length (w_file w)"
  unfolding wal_log_def by (metis length_append length_take min.cobounded1)

lemma next_io_frame:
  "next_io w = (r, w') \<Longrightarrow> w' = w\<lparr>disk := tl (disk w)\<rparr> \<and> (disk w = [] \<longrightarrow> r = IoOk)"
  by (cases "disk w") (auto simp: next_io_def)

lemma next_io_empty [simp]: "disk w = [] \<Longrightarrow> next_io w = (IoOk, w)"
  by (simp add: next_io_def)

definition the_record :: "wal \<Rightarrow> u8 \<Rightarrow> u64 \<Rightarrow> bytes \<Rightarrow> log_record" where
  "the_record w k t pl = \<lparr>lsn = next_lsn w, kind = k, txid = t, payload = pl\<rparr>"

lemma wal_append_Inr:
  assumes "wal_append k t pl w = (Inr l, w')"
  shows "poisoned w = None" and "l = next_lsn w" and "next_lsn w' = next_lsn w + 1"
    and "w_file w' = write_at (w_file w) (appended w) (frame_bytes (the_record w k t pl))"
    and "appended w' = appended w + length (frame_bytes (the_record w k t pl))"
    and "poisoned w' = None" and "w_synced w' = w_synced w" and "epoch w' = epoch w"
    and "last_commit_lsn w' = last_commit_lsn w" and "durable_lsn w' = durable_lsn w"
    and "deferred_txids w' = deferred_txids w @ (if k = KIND_COMMIT_DEFERRED then [t] else [])"
    and "deferred_since_fence w' = deferred_since_fence w + (if k = KIND_COMMIT_DEFERRED then 1 else 0)"
    and "disk w' = tl (disk w)"
  using assms
  by (auto simp: wal_append_def the_record_def Let_def split: if_splits prod.splits io.splits
      dest!: next_io_frame)

lemma wal_append_Inl:
  assumes "wal_append k t pl w = (Inl e, w')" and "appended w \<le> length (w_file w)"
  shows "take (appended w') (w_file w') = take (appended w) (w_file w)" and "appended w' = appended w"
    and "next_lsn w' = next_lsn w" and "deferred_txids w' = deferred_txids w" and "epoch w' = epoch w"
    and "deferred_since_fence w' = deferred_since_fence w" and "poisoned w' = poisoned w"
    and "last_commit_lsn w' = last_commit_lsn w" and "durable_lsn w' = durable_lsn w" and "w_synced w' = w_synced w"
  using assms
  by (auto simp: wal_append_def Let_def set_len_def take_write_at_before split: if_splits prod.splits io.splits
      dest!: next_io_frame)

lemma wal_append_log:
  assumes "wal_log w rs" and "wal_append k t pl w = (Inr l, w')" and "length pl \<le> MAX_FRAME_PAYLOAD"
  shows "wal_log w' (rs @ [the_record w k t pl])"
proof -
  have tk: "take (appended w') (w_file w') = take (appended w) (w_file w) @ frame_bytes (the_record w k t pl)"
    using wal_append_Inr [OF assms(2)] wal_log_len [OF assms(1)] by (simp add: take_write_at)
  then show ?thesis
    using assms(1,3) wal_append_Inr [OF assms(2)]
    by (auto simp: wal_log_def log_ok_append frame_ok_def the_record_def)
qed

lemma wal_append_fail_log:
  assumes "wal_log w rs" and "wal_append k t pl w = (Inl e, w')"
  shows "wal_log w' rs"
  using assms(1) wal_append_Inl(1,2,3) [OF assms(2) wal_log_len [OF assms(1)]]
  unfolding wal_log_def by metis

lemma wal_append_empty_payload_log:
  assumes "wal_log w rs" and "wal_append k t [] w = (Inr l, w')"
  shows "wal_log w' (rs @ [the_record w k t []])"
  using wal_append_log [OF assms] by simp

lemma wal_append_succeeds:
  assumes "disk w = []" and "poisoned w = None"
  obtains w' where "wal_append k t pl w = (Inr (next_lsn w), w')" and "disk w' = []"
  using assms by (simp add: wal_append_def Let_def)

lemma wal_log_upd [simp]:
  "wal_log (w\<lparr>last_commit_lsn := a\<rparr>) rs = wal_log w rs"
  "wal_log (w\<lparr>durable_lsn := a\<rparr>) rs = wal_log w rs"
  "wal_log (w\<lparr>deferred_txids := ts\<rparr>) rs = wal_log w rs"
  "wal_log (w\<lparr>deferred_since_fence := n\<rparr>) rs = wal_log w rs"
  "wal_log (w\<lparr>poisoned := p\<rparr>) rs = wal_log w rs"
  "wal_log (w\<lparr>w_synced := n\<rparr>) rs = wal_log w rs"
  "wal_log (w\<lparr>disk := d\<rparr>) rs = wal_log w rs"
  by (simp_all add: wal_log_def)

text \<open>The operations of the log as steps; each leaves a well-formed log that extends the one
  before, or an empty one after a checkpoint.\<close>

inductive wal_step :: "wal \<Rightarrow> wal \<Rightarrow> bool" where
  step_begin: "wal_begin t w = (res, w') \<Longrightarrow> wal_step w w'"
| step_log_write: "length pl \<le> MAX_FRAME_PAYLOAD \<Longrightarrow> log_write t pl w = (res, w') \<Longrightarrow> wal_step w w'"
| step_commit: "wal_commit t w = (res, w') \<Longrightarrow> wal_step w w'"
| step_commit_deferred: "commit_deferred t w = (res, w') \<Longrightarrow> wal_step w w'"
| step_fence: "wal_fence w = (res, w') \<Longrightarrow> wal_step w w'"
| step_sync: "wal_sync w = (res', w') \<Longrightarrow> wal_step w w'"
| step_abort: "wal_abort t w = (res, w') \<Longrightarrow> wal_step w w'"
| step_abort_deferred: "abort_deferred w = (res', w') \<Longrightarrow> wal_step w w'"

definition wal_extends :: "wal \<Rightarrow> wal \<Rightarrow> bool" where
  "wal_extends w w' \<longleftrightarrow> (\<forall>rs. wal_log w rs \<longrightarrow> (\<exists>ss. wal_log w' (rs @ ss)))"

lemma wal_extends_refl: "wal_extends w w"
  unfolding wal_extends_def by (metis append_Nil2)

lemma wal_extends_trans: "wal_extends w w1 \<Longrightarrow> wal_extends w1 w2 \<Longrightarrow> wal_extends w w2"
  unfolding wal_extends_def by (metis append_assoc)

lemma wal_append_extends: "length pl \<le> MAX_FRAME_PAYLOAD \<Longrightarrow> wal_append k t pl w = (res, w') \<Longrightarrow> wal_extends w w'"
  unfolding wal_extends_def
  by (cases res) (metis append_Nil2 wal_append_fail_log, metis wal_append_log)

lemma wal_append_nil_extends: "wal_append k t [] w = (res, w') \<Longrightarrow> wal_extends w w'"
  using wal_append_extends [of "[]"] by simp

lemma wal_extends_upd:
  "wal_extends w (w\<lparr>poisoned := p\<rparr>)" "wal_extends w (w\<lparr>last_commit_lsn := l\<rparr>)"
  "wal_extends w (w\<lparr>deferred_since_fence := n, deferred_txids := ts, last_commit_lsn := l\<rparr>)"
  "wal_extends w (w\<lparr>deferred_txids := ts, deferred_since_fence := n\<rparr>)"
  unfolding wal_extends_def by (simp_all, (metis append_Nil2)+)

lemma wal_sync_extends: "wal_sync w = (res, w') \<Longrightarrow> wal_extends w w'"
  unfolding wal_extends_def
  by (auto simp: wal_sync_def split: prod.splits io.splits dest!: next_io_frame intro!: exI [of _ "[]"])

lemma wal_fence_extends: "wal_fence w = (res, w') \<Longrightarrow> wal_extends w w'"
  by (auto simp: wal_fence_def split: if_splits prod.splits sum.splits
      intro: wal_extends_refl wal_append_nil_extends wal_extends_trans wal_extends_upd)

lemma wal_commit_extends:
  assumes "wal_commit t w = (res, w')"
  shows "wal_extends w w'"
proof -
  obtain r1 w1 where f: "wal_fence w = (r1, w1)" by (cases "wal_fence w")
  note e1 = wal_fence_extends [OF f]
  show ?thesis
  proof (cases r1)
    case (Inl e)
    then show ?thesis using assms f e1 by (simp add: wal_commit_def)
  next
    case (Inr fl)
    obtain r2 w2 where a: "wal_append KIND_COMMIT t [] w1 = (r2, w2)" by (cases "wal_append KIND_COMMIT t [] w1")
    note e2 = wal_extends_trans [OF e1 wal_append_nil_extends [OF a]]
    show ?thesis
    proof (cases r2)
      case (Inl e)
      then show ?thesis using assms f a \<open>r1 = Inr fl\<close> e2 wal_extends_trans [OF e2 wal_extends_upd(1)]
        by (auto simp: wal_commit_def split: if_splits)
    next
      case (Inr l)
      let ?w = "w2\<lparr>last_commit_lsn := max (last_commit_lsn w2) l\<rparr>"
      obtain r3 w3 where y: "wal_sync ?w = (r3, w3)" by (cases "wal_sync ?w")
      note e3 = wal_extends_trans [OF wal_extends_trans [OF e2 wal_extends_upd(2)] wal_sync_extends [OF y]]
      show ?thesis using assms f a y \<open>r1 = Inr fl\<close> Inr e3
        by (auto simp: wal_commit_def split: sum.splits)
    qed
  qed
qed

lemma abort_all_extends: "abort_all ts w = (res, w') \<Longrightarrow> wal_extends w w'"
proof (induction ts arbitrary: w)
  case Nil
  then show ?case by (auto intro: wal_extends_refl)
next
  case (Cons t ts)
  then show ?case
    by (auto split: prod.splits sum.splits)
      (blast intro: wal_append_nil_extends wal_extends_trans wal_extends_upd)+
qed

lemma wal_step_extends: "wal_step w w' \<Longrightarrow> wal_extends w w'"
proof (induction rule: wal_step.induct)
  case (step_commit_deferred t w res w')
  then show ?case
    by (auto simp: commit_deferred_def split: prod.splits sum.splits
        intro: wal_append_nil_extends wal_extends_trans wal_extends_upd)
next
  case (step_abort_deferred w res' w')
  then show ?case
    by (auto simp: abort_deferred_def split: prod.splits sum.splits
        intro: abort_all_extends wal_extends_trans wal_extends_upd)
qed (auto simp: wal_begin_def log_write_def wal_abort_def
    intro: wal_append_nil_extends wal_append_extends wal_commit_extends wal_fence_extends wal_sync_extends)

lemma wal_steps_extend: "wal_step\<^sup>*\<^sup>* w w' \<Longrightarrow> wal_extends w w'"
  by (induction rule: rtranclp_induct) (blast intro: wal_extends_refl wal_step_extends wal_extends_trans)+

end
