(* ===== verification/Log_Properties.thy ===== *)
theory Log_Properties
  imports Wal_Props
begin

text \<open>
  Properties of the write-ahead log: the checksum, the torn-tail rule after a crash, the log under
  I/O failures, durability of acknowledged commits and the fail-stop of a poisoned log.
\<close>

section \<open>Open after a crash\<close>

lemma open_step_next: "snd (snd (snd (open_step st r))) = lsn r + 1"
  by (cases st) (auto simp: open_step_def Let_def split: if_splits)

lemma open_fold_next:
  "snd (snd (snd (foldl open_step st rs))) = (if rs = [] then snd (snd (snd st)) else lsn (last rs) + 1)"
  by (induction rs arbitrary: st) (auto simp: open_step_next)

lemma wal_open_log:
  assumes "log_ok rs" and "torn_tail t"
  obtains w where "wal_open (Some (HEADER @ log_bytes rs @ t)) script = Inr w" and "wal_log w rs"
    and "poisoned w = None" and "w_file w = HEADER @ log_bytes rs"
proof -
  obtain a ds dur nx where f: "foldl open_step ({}, [], 0, 1) rs = (a, ds, dur, nx)" by (metis prod_cases4)
  then have nx: "nx = (if rs = [] then 1 else lsn (last rs) + 1)"
    using open_fold_next [of "({}, [], 0, 1)" rs] by simp
  let ?w = "fresh_wal (HEADER @ log_bytes rs) nx (foldl max dur (durable_lsns ds)) script"
  have "wal_open (Some (HEADER @ log_bytes rs @ t)) script = Inr ?w"
    using f frames_log [OF assms] by (simp add: wal_open_def set_len_def HEADER_def)
  moreover have "wal_log ?w rs" using assms(1) nx by (simp add: wal_log_def fresh_wal_def)
  ultimately show ?thesis by (rule that) (simp_all add: fresh_wal_def)
qed

section \<open>Clean logs and acknowledged commits\<close>

text \<open>No stale bytes after the last frame; only a truncation that fails after a failed append breaks
  it.\<close>

definition wal_clean :: "wal \<Rightarrow> log_record list \<Rightarrow> bool" where
  "wal_clean w rs \<longleftrightarrow> wal_log w rs \<and> length (w_file w) = appended w"

lemma wal_clean_file: "wal_clean w rs \<Longrightarrow> w_file w = HEADER @ log_bytes rs"
  unfolding wal_clean_def wal_log_def by (metis take_all_iff order_refl)

lemma wal_append_clean:
  assumes "wal_clean w rs" and "wal_append k t [] w = (Inr l, w')"
  shows "wal_clean w' (rs @ [the_record w k t []])"
  using assms wal_append_empty_payload_log [of w rs] wal_append_Inr(4,5) [OF assms(2)]
  by (auto simp: wal_clean_def)

lemma wal_clean_upd [simp]:
  "wal_clean (w\<lparr>last_commit_lsn := a\<rparr>) rs = wal_clean w rs"
  "wal_clean (w\<lparr>deferred_since_fence := n\<rparr>) rs = wal_clean w rs"
  "wal_clean (w\<lparr>deferred_txids := ts\<rparr>) rs = wal_clean w rs"
  by (simp_all add: wal_clean_def)

lemma wal_fence_clean:
  assumes "wal_clean w rs" and "wal_fence w = (Inr l, w')"
  obtains ss where "wal_clean w' (rs @ ss)"
proof (cases "deferred_since_fence w = 0")
  case True
  then have "wal_clean w' (rs @ [])" using assms by (simp add: wal_fence_def)
  then show ?thesis by (rule that)
next
  case False
  then obtain w1 where a: "wal_append KIND_FENCE 0 [] w = (Inr l, w1)"
    and "w' = w1\<lparr>deferred_since_fence := 0, deferred_txids := [], last_commit_lsn := max (last_commit_lsn w1) l\<rparr>"
    using assms(2) by (auto simp: wal_fence_def split: if_splits prod.splits sum.splits)
  then have "wal_clean w' (rs @ [the_record w KIND_FENCE 0 []])" using wal_append_clean [OF assms(1) a] by simp
  then show ?thesis by (rule that)
qed

lemma wal_commit_clean:
  assumes c: "wal_clean w rs" and "wal_commit t w = (Inr l, w')"
  obtains ss r where "wal_clean w' (rs @ ss @ [r])" and "kind r = KIND_COMMIT" and "txid r = t" and "lsn r = l"
    and "w_synced w' = length (w_file w')"
proof -
  obtain fl w1 w2 where f: "wal_fence w = (Inr fl, w1)" and a: "wal_append KIND_COMMIT t [] w1 = (Inr l, w2)"
    and s: "wal_sync (w2\<lparr>last_commit_lsn := max (last_commit_lsn w2) l\<rparr>) = (Inr (), w')"
    using assms(2) by (auto simp: wal_commit_def split: prod.splits sum.splits)
  obtain ss where "wal_clean w1 (rs @ ss)" using wal_fence_clean [OF c f] .
  from wal_append_clean [OF this a] have "wal_clean w2 (rs @ ss @ [the_record w1 KIND_COMMIT t []])" by simp
  moreover have "w_file w' = w_file w2" "w_synced w' = length (w_file w')" "appended w' = appended w2" "next_lsn w' = next_lsn w2"
    using s by (auto simp: wal_sync_def split: prod.splits io.splits dest!: next_io_frame)
  ultimately show ?thesis
    using wal_append_Inr(2) [OF a] by (intro that [of ss]) (auto simp: wal_clean_def wal_log_def the_record_def)
qed

lemma log_ok_of_clean: "wal_clean w rs \<Longrightarrow> log_ok rs"
  by (simp add: wal_clean_def wal_log_def)

section \<open>A poisoned log\<close>

lemma poisoned_append: "poisoned w \<noteq> None \<Longrightarrow> wal_append k t pl w = (Inl WalIo, w)"
  by (simp add: wal_append_def)

lemma poisoned_step:
  assumes "wal_step w w'" and "poisoned w \<noteq> None"
  shows "poisoned w' \<noteq> None \<and> w_file w' = w_file w \<and> next_lsn w' = next_lsn w"
  using assms
proof (induction rule: wal_step.induct)
  case (step_abort_deferred w res' w')
  then show ?case
    by (cases "deferred_txids w") (auto simp: abort_deferred_def poisoned_append)
next
  case (step_sync w res' w')
  then show ?case by (auto simp: wal_sync_def split: prod.splits io.splits dest!: next_io_frame)
qed (auto simp: wal_begin_def log_write_def wal_commit_def commit_deferred_def wal_fence_def wal_abort_def
    poisoned_append split: if_splits)

lemma poisoned_steps:
  "wal_step\<^sup>*\<^sup>* w w' \<Longrightarrow> poisoned w \<noteq> None \<Longrightarrow> poisoned w' \<noteq> None \<and> w_file w' = w_file w \<and> next_lsn w' = next_lsn w"
  by (induction rule: rtranclp_induct) (auto dest: poisoned_step)

section \<open>Checkpoints\<close>

text \<open>Any operation of the log: those of \<open>wal_step\<close>, and the checkpoint that drops the log.\<close>

inductive log_step :: "wal \<Rightarrow> wal \<Rightarrow> bool" where
  step_wal: "wal_step w w' \<Longrightarrow> log_step w w'"
| step_checkpoint: "wal_checkpoint w = (res, w') \<Longrightarrow> log_step w w'"

text \<open>What a checkpoint leaves whose truncation succeeded and whose header rewrite failed: a part of
  the header, and a poisoned log.\<close>

definition wal_headless :: "wal \<Rightarrow> bool" where
  "wal_headless w \<longleftrightarrow> poisoned w \<noteq> None \<and> (\<exists>n. w_file w = take n HEADER)"

lemma next_io_epoch: "next_io w = (x, w') \<Longrightarrow> epoch w' = epoch w"
  by (auto simp: next_io_def split: list.splits)

lemma next_io_keeps:
  "next_io w = (x, w') \<Longrightarrow> w_file w' = w_file w \<and> appended w' = appended w \<and> next_lsn w' = next_lsn w \<and>
     poisoned w' = poisoned w \<and> epoch w' = epoch w"
  by (auto simp: next_io_def split: list.splits)

lemma wal_append_epoch: "wal_append k t pl w = (res, w') \<Longrightarrow> epoch w' = epoch w"
  by (auto simp: wal_append_def Let_def split: if_splits prod.splits io.splits dest!: next_io_epoch)

lemma wal_sync_epoch: "wal_sync w = (res, w') \<Longrightarrow> epoch w' = epoch w"
  by (auto simp: wal_sync_def split: prod.splits io.splits dest!: next_io_epoch)

lemma wal_fence_epoch: "wal_fence w = (res, w') \<Longrightarrow> epoch w' = epoch w"
  by (auto simp: wal_fence_def split: if_splits prod.splits sum.splits dest!: wal_append_epoch)

lemma abort_all_epoch: "abort_all ts w = (res, w') \<Longrightarrow> epoch w' = epoch w"
  by (induction ts arbitrary: w) (auto split: prod.splits sum.splits dest!: wal_append_epoch)

lemma wal_step_epoch: "wal_step w w' \<Longrightarrow> epoch w' = epoch w"
  by (induction rule: wal_step.induct)
    (auto simp: wal_begin_def log_write_def wal_commit_def commit_deferred_def wal_abort_def abort_deferred_def
      split: prod.splits sum.splits if_splits
      dest!: wal_append_epoch wal_sync_epoch wal_fence_epoch abort_all_epoch)

lemma wal_checkpoint_result:
  assumes "wal_checkpoint w = (res, w')"
  obtains "res = Inr ()" and "wal_log w' []" and "w_file w' = HEADER" and "poisoned w' = None" and "epoch w' = epoch w + 1"
  | "res = Inl WalIo" and "w_file w' = w_file w" and "appended w' = appended w" and "next_lsn w' = next_lsn w"
    and "poisoned w' = poisoned w" and "epoch w' = epoch w"
  | "res = Inl WalIo" and "wal_headless w'" and "epoch w' = epoch w"
proof -
  obtain x w1 where i: "next_io w = (x, w1)" by (cases "next_io w")
  obtain y w2 where j: "next_io (w1\<lparr>w_file := []\<rparr>) = (y, w2)" by (cases "next_io (w1\<lparr>w_file := []\<rparr>)")
  show ?thesis
  proof (cases x)
    case (IoFail n)
    then show ?thesis using assms i next_io_keeps [OF i] by (intro that(2)) (auto simp: wal_checkpoint_def)
  next
    case IoOk
    show ?thesis
    proof (cases y)
      case (IoFail n)
      then show ?thesis using assms i j IoOk next_io_keeps [OF i] next_io_keeps [OF j]
        by (intro that(3)) (auto simp: wal_checkpoint_def wal_headless_def)
    next
      case y: IoOk
      then show ?thesis using assms i j IoOk next_io_keeps [OF i] next_io_keeps [OF j]
        by (intro that(1)) (auto simp: wal_checkpoint_def wal_log_def log_ok_def)
    qed
  qed
qed

text \<open>The invariant of a log that held \<open>rs\<close> in epoch \<open>e\<close>.\<close>

definition log_since :: "nat \<Rightarrow> log_record list \<Rightarrow> wal \<Rightarrow> bool" where
  "log_since e rs w \<longleftrightarrow> e \<le> epoch w \<and>
     (wal_headless w \<or> (\<exists>ss. wal_log w (if epoch w = e then rs @ ss else ss)))"

lemma log_since_step:
  assumes "log_step w w'" and "log_since e rs w"
  shows "log_since e rs w'"
  using assms(1)
proof cases
  case step_wal
  have e: "epoch w' = epoch w" by (rule wal_step_epoch [OF step_wal])
  show ?thesis
  proof (cases "wal_headless w")
    case True
    then show ?thesis using poisoned_step [OF step_wal] assms(2) e by (auto simp: log_since_def wal_headless_def)
  next
    case False
    then obtain ss where "wal_log w (if epoch w = e then rs @ ss else ss)" using assms(2) by (auto simp: log_since_def)
    then obtain ts where "wal_log w' ((if epoch w = e then rs @ ss else ss) @ ts)"
      using wal_step_extends [OF step_wal] by (auto simp: wal_extends_def)
    then have "wal_log w' (if epoch w' = e then rs @ ss @ ts else ss @ ts)" using e by (simp split: if_splits)
    then show ?thesis using assms(2) e unfolding log_since_def by (metis (full_types))
  qed
next
  case (step_checkpoint res)
  from wal_checkpoint_result [OF this] show ?thesis
  proof cases
    case 1
    then show ?thesis using assms(2) by (auto simp: log_since_def intro: exI [of _ "[]"])
  next
    case 2
    then show ?thesis using assms(2) by (auto simp: log_since_def wal_headless_def wal_log_def split: if_splits)
  next
    case 3
    then show ?thesis using assms(2) by (simp add: log_since_def)
  qed
qed

lemma log_since_steps: "log_step\<^sup>*\<^sup>* w w' \<Longrightarrow> log_since e rs w \<Longrightarrow> log_since e rs w'"
  by (induction rule: rtranclp_induct) (auto dest: log_since_step)

section \<open>Properties\<close>

text \<open>The table-driven CRC32 of the log equals the bitwise loop it replaced, on every input.\<close>

theorem crc32_table_equals_bitwise: "crc32 data = crc32_bitwise data"
  by (rule crc32_eq_bitwise)

text \<open>After a crash that keeps any prefix of a well-formed log (at least its header), the log
  opens, and holds exactly the frames that were whole in that prefix: the torn frame is cut off and
  the next LSN continues after the last whole frame.\<close>

theorem wal_open_after_crash:
  assumes "log_ok rs" and "length HEADER \<le> k"
  shows "\<exists>n w. wal_open (Some (take k (HEADER @ log_bytes rs))) script = Inr w \<and> wal_log w (take n rs) \<and>
    w_file w = HEADER @ log_bytes (take n rs) \<and> n \<le> length rs \<and> length (w_file w) \<le> k \<and>
    (n < length rs \<longrightarrow> k < length HEADER + length (log_bytes (take (Suc n) rs)))"
proof -
  have "list_all frame_ok rs" using assms(1) by (simp add: log_ok_def)
  then obtain n t where n: "n \<le> length rs" and
    tk: "take (k - length HEADER) (log_bytes rs) = log_bytes (take n rs) @ t" "torn_tail t"
    "length (log_bytes (take n rs)) \<le> k - length HEADER"
    "n < length rs \<Longrightarrow> k - length HEADER < length (log_bytes (take (Suc n) rs))"
    using log_bytes_cut by blast
  have e: "take k (HEADER @ log_bytes rs) = HEADER @ log_bytes (take n rs) @ t" using assms(2) tk(1) by simp
  obtain w where "wal_open (Some (HEADER @ log_bytes (take n rs) @ t)) script = Inr w" "wal_log w (take n rs)"
    "w_file w = HEADER @ log_bytes (take n rs)"
    using wal_open_log [OF log_ok_take [OF assms(1)] tk(2)] by metis
  moreover have "length HEADER + length (log_bytes (take n rs)) \<le> k" using tk(3) assms(2) by linarith
  moreover have "n < length rs \<longrightarrow> k < length HEADER + length (log_bytes (take (Suc n) rs))"
    using tk(4) assms(2) by linarith
  ultimately show ?thesis using e n by (metis length_append)
qed

definition ex_log :: "log_record list" where
  "ex_log = [\<lparr>lsn = 1, kind = KIND_BEGIN, txid = 5, payload = []\<rparr>,
             \<lparr>lsn = 2, kind = KIND_COMMIT, txid = 5, payload = []\<rparr>]"

lemma ex_log_ok: "log_ok ex_log"
  by (simp add: ex_log_def log_ok_def frame_ok_def)

theorem wal_open_after_crash_witness:
  "\<exists>n w. wal_open (Some (take 40 (HEADER @ log_bytes ex_log))) [] = Inr w \<and> wal_log w (take n ex_log) \<and>
     n \<le> length ex_log \<and> length (w_file w) \<le> 40"
  using wal_open_after_crash [OF ex_log_ok, of 40 "[]"] by (fastforce simp: HEADER_def)

text \<open>\<open>C6\<close>: whatever sequence of log operations runs (begin, write records within the frame payload
  limit, commit, deferred commit, fence, sync, abort, and checkpoint), and whichever of their writes,
  truncations and syncs fail, the file up to the tracked end (\<open>appended\<close>) stays a header and whole frames
  with consecutive LSNs. Until a checkpoint succeeds (\<open>epoch\<close> counts those) it only grows, by whole
  frames, and nothing already logged changes. The one exception is a checkpoint that truncated the file
  and could not rewrite its header: the file is then a part of the header, and the log is poisoned and
  refuses every append until a checkpoint succeeds, which gives an empty log.\<close>

theorem wal_stays_well_formed:
  assumes "wal_log w rs" and "log_step\<^sup>*\<^sup>* w w'"
  shows "(\<exists>ss. wal_log w' ss \<and> (epoch w' = epoch w \<longrightarrow> take (length rs) ss = rs)) \<or>
    (\<exists>n. w_file w' = take n HEADER \<and> poisoned w' \<noteq> None \<and>
      (\<forall>k t pl. wal_append k t pl w' = (Inl WalIo, w')) \<and>
      (\<forall>w2. wal_checkpoint w' = (Inr (), w2) \<longrightarrow> wal_log w2 [] \<and> poisoned w2 = None))"
proof -
  have "log_since (epoch w) rs w" using assms(1) by (auto simp: log_since_def intro: exI [of _ "[]"])
  from log_since_steps [OF assms(2) this] have l: "log_since (epoch w) rs w'" .
  show ?thesis
  proof (cases "wal_headless w'")
    case True
    then show ?thesis using poisoned_append by (auto simp: wal_headless_def elim!: wal_checkpoint_result)
  next
    case False
    then obtain ss where "wal_log w' (if epoch w' = epoch w then rs @ ss else ss)" using l by (auto simp: log_since_def)
    then have "\<exists>ss. wal_log w' ss \<and> (epoch w' = epoch w \<longrightarrow> take (length rs) ss = rs)"
      by (cases "epoch w' = epoch w") auto
    then show ?thesis by blast
  qed
qed

lemma fresh_wal_log: "wal_log (fresh_wal HEADER 1 0 script) []"
  by (simp add: wal_log_def fresh_wal_def log_ok_def)

theorem wal_stays_well_formed_witness:
  "\<exists>ss. wal_log (snd (wal_begin 6 (snd (wal_checkpoint (snd (wal_begin 5 (fresh_wal HEADER 1 0 [IoFail 3, IoOk]))))))) ss"
proof -
  let ?w = "fresh_wal HEADER 1 0 [IoFail 3, IoOk]"
  let ?w1 = "snd (wal_begin 5 ?w)"
  let ?w2 = "snd (wal_checkpoint ?w1)"
  let ?w3 = "snd (wal_begin 6 ?w2)"
  have "log_step ?w ?w1" "log_step ?w2 ?w3" by (blast intro: step_wal wal_step.step_begin prod.collapse [symmetric])+
  moreover have "log_step ?w1 ?w2" by (blast intro: step_checkpoint prod.collapse [symmetric])
  ultimately have "log_step\<^sup>*\<^sup>* ?w ?w3" by (meson rtranclp.rtrancl_into_rtrancl rtranclp.rtrancl_refl)
  moreover have "poisoned ?w3 = None"
    by (simp add: wal_begin_def wal_append_def wal_checkpoint_def fresh_wal_def next_io_def Let_def kind_defs)
  ultimately show ?thesis using wal_stays_well_formed [OF fresh_wal_log, of "[IoFail 3, IoOk]" ?w3] by blast
qed

text \<open>\<open>C7\<close>: an acknowledged commit survives a crash. When \<open>Wal::commit\<close> returns on a log without stale
  bytes, its commit record is in the part of the file the sync made durable, and reopening any
  crash image that keeps the synced bytes yields every record up to and including it.\<close>

theorem acknowledged_commit_survives:
  assumes "wal_clean w rs" and "wal_commit t w = (Inr l, w')" and "w_synced w' \<le> k"
  shows "\<exists>ss r w2. wal_open (Some (take k (w_file w'))) script = Inr w2 \<and> wal_log w2 (rs @ ss @ [r]) \<and>
    kind r = KIND_COMMIT \<and> txid r = t \<and> lsn r = l"
proof -
  obtain ss r where c: "wal_clean w' (rs @ ss @ [r])" and r: "kind r = KIND_COMMIT" "txid r = t" "lsn r = l"
    and sy: "w_synced w' = length (w_file w')"
    using wal_commit_clean [OF assms(1,2)] .
  have "take k (w_file w') = HEADER @ log_bytes (rs @ ss @ [r]) @ []"
    using wal_clean_file [OF c] sy assms(3) by simp
  moreover obtain w2 where "wal_open (Some (HEADER @ log_bytes (rs @ ss @ [r]) @ [])) script = Inr w2"
    "wal_log w2 (rs @ ss @ [r])"
    using wal_open_log [OF log_ok_of_clean [OF c], of "[]" script] by (auto simp: torn_tail_def)
  ultimately show ?thesis using r by metis
qed

lemma fresh_wal_clean: "wal_clean (fresh_wal HEADER 1 0 script) []"
  using fresh_wal_log by (simp add: wal_clean_def fresh_wal_def)

lemma ex_commit:
  "wal_commit 5 (fresh_wal HEADER 1 0 []) = (Inr 1, snd (wal_commit 5 (fresh_wal HEADER 1 0 [])))"
  by (simp add: wal_commit_def wal_fence_def wal_append_def wal_sync_def fresh_wal_def Let_def kind_defs)

theorem acknowledged_commit_survives_witness:
  "\<exists>ss r w2. wal_open (Some (w_file (snd (wal_commit 5 (fresh_wal HEADER 1 0 []))))) [] = Inr w2 \<and>
     wal_log w2 (ss @ [r]) \<and> kind r = KIND_COMMIT \<and> txid r = 5 \<and> lsn r = 1"
  using acknowledged_commit_survives [OF fresh_wal_clean ex_commit,
      of "w_synced (snd (wal_commit 5 (fresh_wal HEADER 1 0 []))) + length (w_file (snd (wal_commit 5 (fresh_wal HEADER 1 0 []))))" "[]"]
  by simp

text \<open>A poisoned log is fail-stop: once a sync, an append after a fence, or an abort record
  failed, every later operation leaves the file and the LSN counter as they are, no append
  succeeds, and the log stays poisoned.\<close>

theorem poisoned_wal_is_fail_stop:
  assumes "poisoned w \<noteq> None" and "wal_step\<^sup>*\<^sup>* w w'"
  shows "poisoned w' \<noteq> None \<and> w_file w' = w_file w \<and> next_lsn w' = next_lsn w \<and>
    wal_append k t pl w' = (Inl WalIo, w')"
  using poisoned_steps [OF assms(2,1)] poisoned_append by blast

theorem poisoned_wal_is_fail_stop_witness:
  "wal_append KIND_COMMIT 5 [] (snd (wal_sync (fresh_wal HEADER 1 0 [IoFail 0]))) =
     (Inl WalIo, snd (wal_sync (fresh_wal HEADER 1 0 [IoFail 0])))"
  using poisoned_wal_is_fail_stop [of "snd (wal_sync (fresh_wal HEADER 1 0 [IoFail 0]))"
      "snd (wal_sync (fresh_wal HEADER 1 0 [IoFail 0]))" KIND_COMMIT 5 "[]"]
  by (simp add: wal_sync_def next_io_def fresh_wal_def)

section \<open>A failed append whose truncation fails too\<close>

lemma from_le_zeros: "from_le_bytes (replicate n 0) = 0"
  by (induction n) (simp_all add: from_le_bytes_def)

lemma read_frame_zeros:
  assumes "25 < m" and "e \<noteq> 0" and "file = pre @ replicate m 0" and "pos = length pre"
  shows "read_frame file (Some e) pos = Inl (Corrupt 0 ''corrupt frame mid-log'')"
proof -
  have "sub_bytes (replicate m 0) 0 8 = (replicate 8 0 :: bytes)" "sub_bytes (replicate m 0) 17 4 = (replicate 4 0 :: bytes)"
    "sub_bytes (take 25 (replicate m 0)) 0 8 = (replicate 8 0 :: bytes)"
    using assms(1) by (simp_all add: sub_bytes_def drop_take take_replicate min_def)
  then show ?thesis
    using assms by (simp add: read_frame_def parse_frame_def Let_def from_le_zeros take_replicate MAX_FRAME_PAYLOAD_def)
qed

definition stale_tail_start :: wal where
  "stale_tail_start = fresh_wal HEADER 1 0 [IoFail 150, IoFail 0]"

definition stale_begin :: log_record where
  "stale_begin = \<lparr>lsn = 1, kind = KIND_BEGIN, txid = 6, payload = []\<rparr>"

definition stale_commit :: log_record where
  "stale_commit = \<lparr>lsn = 2, kind = KIND_COMMIT, txid = 6, payload = []\<rparr>"

lemma stale_write: "snd (log_write 5 (replicate 200 0) stale_tail_start) =
  stale_tail_start\<lparr>disk := [], w_file := HEADER @
    take 150 (frame_bytes \<lparr>lsn = 1, kind = KIND_WRITE, txid = 5, payload = replicate 200 0\<rparr>)\<rparr>"
  by (simp add: log_write_def wal_append_def stale_tail_start_def fresh_wal_def next_io_def Let_def write_at_end)

lemma stale_zeros:
  "drop 50 (take 150 (frame_bytes \<lparr>lsn = 1, kind = k, txid = 5, payload = replicate 200 0\<rparr>)) = replicate 100 0"
  by (simp add: frame_bytes_def Let_def drop_take take_replicate)

lemma scan_stale:
  "wal_open (Some (HEADER @ frame_bytes stale_begin @ frame_bytes stale_commit @ replicate 100 0)) [] =
     Inl (Corrupt 0 ''corrupt frame mid-log'')"
proof -
  let ?f = "HEADER @ frame_bytes stale_begin @ frame_bytes stale_commit @ replicate 100 0"
  have l: "length (frame_bytes stale_begin) = 25" "length (frame_bytes stale_commit) = 25"
    by (simp_all add: length_frame_bytes stale_begin_def stale_commit_def)
  have n: "lsn stale_begin = 1" "lsn stale_commit = 2" by (simp_all add: stale_begin_def stale_commit_def)
  have ok: "frame_ok stale_begin" "frame_ok stale_commit"
    by (simp_all add: frame_ok_def stale_begin_def stale_commit_def)
  have "read_frame ?f None (length HEADER) = Inr (Some (stale_begin, 25))"
    using read_frame_bytes [OF ok(1), of None ?f HEADER] l by simp
  moreover have "read_frame ?f (Some 2) (length HEADER + 25) = Inr (Some (stale_commit, 25))"
    using read_frame_bytes [OF ok(2), of "Some 2" ?f "HEADER @ frame_bytes stale_begin"] l
    by (simp add: stale_commit_def)
  moreover have "read_frame ?f (Some 3) (length HEADER + 50) = Inl (Corrupt 0 ''corrupt frame mid-log'')"
    by (rule read_frame_zeros [of 100 3 _ "HEADER @ frame_bytes stale_begin @ frame_bytes stale_commit"])
      (simp_all add: l)
  ultimately have "snd (snd (frames ?f)) = Some (Corrupt 0 ''corrupt frame mid-log'')"
    using n by (simp add: frames_def scan_frames.simps [of ?f] add.commute [of 50])
  then show ?thesis by (cases "frames ?f") (simp add: wal_open_def HEADER_def)
qed

text \<open>The append path ignores a failed truncation. If a large append fails part-way and the
  \<open>set_len\<close> that should remove its bytes fails as well, the next transaction is logged over the front
  of the stale bytes, commits and is synced, and yet the log it leaves cannot be reopened: the
  reader takes the rest of the stale bytes for mid-log corruption.\<close>

theorem failed_truncation_loses_commit:
  "(let w1 = snd (log_write 5 (replicate 200 0) stale_tail_start);
        w2 = snd (wal_begin 6 w1)
    in case wal_commit 6 w2 of (res, w3) \<Rightarrow>
         res = Inr 2 \<and> w_synced w3 = length (w_file w3) \<and>
         wal_open (Some (w_file w3)) [] = Inl (Corrupt 0 ''corrupt frame mid-log''))"
proof -
  let ?w1 = "snd (log_write 5 (replicate 200 0) stale_tail_start)"
  let ?s = "take 150 (frame_bytes \<lparr>lsn = 1, kind = KIND_WRITE, txid = 5, payload = replicate 200 0\<rparr>)"
  have w1: "?w1 = \<lparr>w_file = HEADER @ ?s, w_synced = 8, next_lsn = 1, last_commit_lsn = 0, durable_lsn = 0,
      appended = 8, deferred_since_fence = 0, deferred_txids = [], epoch = 0, poisoned = None, disk = []\<rparr>"
    unfolding stale_write by (simp add: stale_tail_start_def fresh_wal_def HEADER_def)
  have w2: "snd (wal_begin 6 ?w1) = ?w1\<lparr>w_file := HEADER @ frame_bytes stale_begin @ drop 25 ?s,
      appended := 33, next_lsn := 2\<rparr>"
    unfolding w1 by (simp add: wal_begin_def wal_append_def Let_def write_at_def stale_begin_def HEADER_def
        length_frame_bytes kind_defs)
  have w3: "wal_commit 6 (snd (wal_begin 6 ?w1)) = (Inr 2, ?w1\<lparr>w_file := HEADER @ frame_bytes stale_begin @
      frame_bytes stale_commit @ replicate 100 0, appended := 58, next_lsn := 3, last_commit_lsn := 2,
      durable_lsn := 2, w_synced := 158\<rparr>)"
    unfolding w2 unfolding w1
    by (simp add: wal_commit_def wal_fence_def wal_append_def wal_sync_def Let_def write_at_def stale_begin_def
        stale_commit_def HEADER_def length_frame_bytes kind_defs flip: stale_zeros [of KIND_WRITE])
  show ?thesis
    unfolding Let_def w3 prod.case using scan_stale
    by (simp add: HEADER_def length_frame_bytes stale_begin_def stale_commit_def)
qed

end
