(* ===== verification/Pager.thy ===== *)
theory Pager
  imports Wal_Props "HOL-Library.AList"
begin

text \<open>
  The pager of \<open>pager.rs\<close>: the paged data file, the buffer pool, page transactions, the queue of
  committed images not yet in the data file, the pool of reusable pages, the undo journal of
  explicit transactions, read snapshots, the checkpoint coordinator and crash recovery.

  The model is sequential: an operation runs to completion before the next one starts, which is what
  the engine's write lock gives the writers. Mutexes and the retry loop of the version check in
  \<open>read_page_shared\<close> therefore disappear; the background checkpoint thread appears as the two steps
  \<open>ckpt_pick\<close> and \<open>ckpt_finish\<close>. Hash maps are association lists with distinct keys, hash sets that
  are iterated are lists. Writes of the data file can fail, as scripted by \<open>pg_disk\<close>; reads fail only
  past the end of the file. \<open>pg_synced\<close> is a ghost field: the content the last successful sync of
  the data file made durable.
\<close>

section \<open>Constants and errors\<close>

definition PAGE_SIZE :: nat where "PAGE_SIZE = 4096"
definition DEFAULT_POOL_PAGES :: nat where "DEFAULT_POOL_PAGES = 8 * 1024"
definition HEADER_LEN :: nat where "HEADER_LEN = 16"
definition SOFT_WAL_LIMIT :: nat where "SOFT_WAL_LIMIT = 8 * 1024 * 1024"
definition HARD_WAL_LIMIT :: nat where "HARD_WAL_LIMIT = 8 * SOFT_WAL_LIMIT"

text \<open>\<open>b"DOCSQLP1"\<close>.\<close>

definition MAGIC :: bytes where
  "MAGIC = [0x44, 0x4F, 0x43, 0x53, 0x51, 0x4C, 0x50, 0x31]"

datatype pager_error =
    PIo
  | PWal wal_error
  | OutOfRange page_id u32
  | BadHeader
  | PageIdExhausted u32
  | WalPageId page_id u32 nat
  | SnapshotTooOld

definition wal_lift :: "wal_error + 'a \<Rightarrow> pager_error + 'a" where
  "wal_lift = emap_err PWal"

section \<open>State\<close>

record snapshot =
  sn_id :: nat
  sn_epoch :: nat
  sn_lsn :: u64

record snap_entry =
  materialized :: bool
  se_cache :: "(page_id \<times> bytes) list"

record snap_state =
  sn_next_id :: nat
  sn_active :: "(nat \<times> (nat \<times> u64 \<times> snap_entry)) list"

record page =
  p_data :: bytes
  p_ticket :: nat

record pool_state =
  pool_map :: "(page_id \<times> page) list"
  pool_order :: "(page_id \<times> nat) list"
  pool_ticket :: nat

record reusable_pages =
  r_order :: "page_id list"
  r_set :: "page_id set"

datatype undo_op = USet page_id bytes | UAlloc page_id | URealloc page_id | UFree page_id

record undo_state =
  u_active :: bool
  u_replaying :: bool
  u_ops :: "undo_op list"
  u_recorded :: "page_id list"
  u_freed :: "page_id list"

record ckpt_state =
  requested :: bool
  pending_len :: nat
  started :: nat
  completed :: nat
  covered_len :: nat
  last_ok :: bool
  inflight :: "nat option"

text \<open>\<open>inflight\<close> is the local variable \<open>covered\<close> of the checkpoint thread between picking up a request
  and finishing the sync.\<close>

record pager =
  pg_file :: bytes
  pg_synced :: bytes
  pg_wal :: wal
  num_pages :: u32
  persisted_pages :: u32
  pg_epoch :: nat
  next_txid :: u64
  pool :: pool_state
  max_pool :: nat
  pending_writes :: "(page_id \<times> bytes) list"
  page_lsn :: "(page_id \<times> u64) list"
  reusable :: reusable_pages
  undo :: undo_state
  snaps :: snap_state
  ckpt :: ckpt_state
  ckpt_soft :: nat
  ckpt_hard :: nat
  pg_disk :: "io list"

record tx =
  tx_id :: u64
  staged :: "(page_id \<times> bytes) list"
  to_free :: "page_id list"
  reused :: "page_id list"

type_synonym 'a pager_op = "(pager, pager_error, 'a) op"
type_synonym 'a tx_op = "(pager \<times> tx, pager_error, 'a) op"

definition empty_undo :: undo_state where
  "empty_undo = \<lparr>u_active = False, u_replaying = False, u_ops = [], u_recorded = [], u_freed = []\<rparr>"

section \<open>Reusable pages\<close>

definition reusable_push :: "page_id \<Rightarrow> reusable_pages \<Rightarrow> reusable_pages" where
  "reusable_push i r =
     (if i \<in> r_set r then r else \<lparr>r_order = r_order r @ [i], r_set = insert i (r_set r)\<rparr>)"

text \<open>\<open>pop\<close> takes from the end and skips entries that left the set.\<close>

fun pop_loop :: "page_id list \<Rightarrow> page_id set \<Rightarrow> page_id option \<times> page_id list \<times> page_id set" where
  "pop_loop [] s = (None, [], s)"
| "pop_loop (i # rest) s = (if i \<in> s then (Some i, rest, s - {i}) else pop_loop rest s)"

definition reusable_pop :: "reusable_pages \<Rightarrow> page_id option \<times> reusable_pages" where
  "reusable_pop r =
     (case pop_loop (rev (r_order r)) (r_set r) of
        (i, rest, s) \<Rightarrow> (i, \<lparr>r_order = rev rest, r_set = s\<rparr>))"

definition push_all :: "page_id list \<Rightarrow> pager \<Rightarrow> pager" where
  "push_all ids pg = pg\<lparr>reusable := fold reusable_push ids (reusable pg)\<rparr>"

definition reserve_page :: "page_id \<Rightarrow> pager \<Rightarrow> pager" where
  "reserve_page i pg = pg\<lparr>reusable := (reusable pg)\<lparr>r_set := r_set (reusable pg) - {i}\<rparr>\<rparr>"

definition release_pages :: "page_id list \<Rightarrow> pager \<Rightarrow> pager" where
  "release_pages ids pg = push_all ids pg"

definition return_reused :: "page_id list \<Rightarrow> pager \<Rightarrow> pager" where
  "return_reused ids pg = push_all ids pg"

text \<open>\<open>Drop for Tx\<close>.\<close>

definition drop_tx :: "tx \<Rightarrow> pager \<Rightarrow> pager" where
  "drop_tx t pg = push_all (reused t) pg"

section \<open>Buffer pool\<close>

definition compact_if_needed :: "pool_state \<Rightarrow> pool_state" where
  "compact_if_needed st =
     (if length (pool_order st) < length (pool_map st) * 2 + 64 then st
      else st\<lparr>pool_order := filter (\<lambda>(i, t). case map_of (pool_map st) i of
                 Some p \<Rightarrow> p_ticket p = t | None \<Rightarrow> False) (pool_order st)\<rparr>)"

definition touch :: "page_id \<Rightarrow> pool_state \<Rightarrow> bytes option \<times> pool_state" where
  "touch i st =
     (case map_of (pool_map st) i of
        None \<Rightarrow> (None, st)
      | Some p \<Rightarrow>
          (let t = pool_ticket st + 1
           in (Some (p_data p), compact_if_needed
                (st\<lparr>pool_ticket := t, pool_map := AList.update i (p\<lparr>p_ticket := t\<rparr>) (pool_map st),
                    pool_order := pool_order st @ [(i, t)]\<rparr>))))"

fun evict_one :: "(page_id \<times> page) list \<Rightarrow> (page_id \<times> nat) list \<Rightarrow>
    bool \<times> (page_id \<times> page) list \<times> (page_id \<times> nat) list" where
  "evict_one m [] = (False, m, [])"
| "evict_one m ((i, t) # q) =
     (if (case map_of m i of Some p \<Rightarrow> p_ticket p = t | None \<Rightarrow> False)
      then (True, AList.delete i m, q)
      else evict_one m q)"

lemma evict_one_shrinks: "evict_one m q = (True, m', q') \<Longrightarrow> length q' < length q"
proof (induction q)
  case (Cons e q)
  then show ?case by (cases e) (auto split: if_splits)
qed simp

function evict_while :: "nat \<Rightarrow> (page_id \<times> page) list \<Rightarrow> (page_id \<times> nat) list \<Rightarrow>
    (page_id \<times> page) list \<times> (page_id \<times> nat) list" where
  "evict_while mx m q =
     (if mx \<le> length m
      then (case evict_one m q of
              (True, m', q') \<Rightarrow> evict_while mx m' q'
            | (False, m', q') \<Rightarrow> (m', q'))
      else (m, q))"
  by pat_completeness auto
termination
  by (relation "measure (\<lambda>(_, _, q). length q)") (auto dest: evict_one_shrinks [OF sym] evict_one_shrinks)

declare evict_while.simps [simp del]

definition pool_insert :: "nat \<Rightarrow> page_id \<Rightarrow> bytes \<Rightarrow> pool_state \<Rightarrow> pool_state" where
  "pool_insert mx i dat st =
     (case evict_while mx (pool_map st) (pool_order st) of
        (m, q) \<Rightarrow>
          (let t = pool_ticket st + 1
           in \<lparr>pool_map = AList.update i \<lparr>p_data = dat, p_ticket = t\<rparr> m,
               pool_order = q @ [(i, t)], pool_ticket = t\<rparr>))"

section \<open>The data file\<close>

definition page_off :: "page_id \<Rightarrow> nat" where
  "page_off i = unat i * PAGE_SIZE"

definition encode_header :: "u32 \<Rightarrow> bytes" where
  "encode_header n = MAGIC @ to_le_bytes (word_of_nat PAGE_SIZE :: u32) @ to_le_bytes n"

definition next_pg_io :: "pager \<Rightarrow> io \<times> pager" where
  "next_pg_io pg = (case pg_disk pg of [] \<Rightarrow> (IoOk, pg) | x # xs \<Rightarrow> (x, pg\<lparr>pg_disk := xs\<rparr>))"

definition file_write :: "nat \<Rightarrow> bytes \<Rightarrow> unit pager_op" where
  "file_write off dat pg =
     (case next_pg_io pg of
        (IoOk, pg) \<Rightarrow> (Inr (), pg\<lparr>pg_file := write_at (pg_file pg) off dat\<rparr>)
      | (IoFail n, pg) \<Rightarrow> (Inl PIo, pg\<lparr>pg_file := write_at (pg_file pg) off (take n dat)\<rparr>))"

definition file_sync :: "unit pager_op" where
  "file_sync pg =
     (case next_pg_io pg of
        (IoOk, pg) \<Rightarrow> (Inr (), pg\<lparr>pg_synced := pg_file pg\<rparr>)
      | (IoFail n, pg) \<Rightarrow> (Inl PIo, pg))"

definition read_exact_page :: "bytes \<Rightarrow> page_id \<Rightarrow> pager_error + bytes" where
  "read_exact_page f i =
     (case get_range f (page_off i) PAGE_SIZE of Some d \<Rightarrow> Inr d | None \<Rightarrow> Inl PIo)"

definition read_file_page :: "page_id \<Rightarrow> pager \<Rightarrow> pager_error + bytes" where
  "read_file_page i pg =
     (if num_pages pg \<le> i then Inl (OutOfRange i (num_pages pg)) else read_exact_page (pg_file pg) i)"

definition persist_header :: "unit pager_op" where
  "persist_header =
     obind (\<lambda>pg. file_write 0 (encode_header (num_pages pg)) pg)
       (\<lambda>_ pg. (Inr (), pg\<lparr>persisted_pages := num_pages pg\<rparr>))"

definition saturating_inc :: "u32 \<Rightarrow> u32" where
  "saturating_inc i = (if i = - 1 then i else i + 1)"

definition write_file_page :: "page_id \<Rightarrow> bytes \<Rightarrow> unit pager_op" where
  "write_file_page i dat pg =
     (let pg = (if num_pages pg \<le> i then pg\<lparr>num_pages := saturating_inc i\<rparr> else pg)
      in obind (\<lambda>pg. if persisted_pages pg \<le> i then persist_header pg else (Inr (), pg))
           (\<lambda>_. file_write (page_off i) dat) pg)"

section \<open>Reading pages\<close>

definition read_page_shared :: "page_id \<Rightarrow> bytes pager_op" where
  "read_page_shared i pg =
     (if i = 0 then (Inl (OutOfRange 0 (num_pages pg)), pg)
      else
        (case touch i (pool pg) of
           (Some dat, st) \<Rightarrow> (Inr dat, pg\<lparr>pool := st\<rparr>)
         | (None, _) \<Rightarrow>
             if num_pages pg \<le> i then (Inl (OutOfRange i (num_pages pg)), pg)
             else
               (case map_of (pending_writes pg) i of
                  Some p \<Rightarrow> (Inr p, pg)
                | None \<Rightarrow>
                    (case read_exact_page (pg_file pg) i of
                       Inl e \<Rightarrow> (Inl e, pg)
                     | Inr dat \<Rightarrow> (Inr dat, pg\<lparr>pool := pool_insert (max_pool pg) i dat (pool pg)\<rparr>)))))"

definition read_page :: "page_id \<Rightarrow> bytes pager_op" where
  "read_page i = read_page_shared i"

definition current_page_image :: "page_id \<Rightarrow> pager \<Rightarrow> pager_error + bytes" where
  "current_page_image i pg =
     (case map_of (pool_map (pool pg)) i of
        Some p \<Rightarrow> Inr (p_data p)
      | None \<Rightarrow>
          (case map_of (pending_writes pg) i of
             Some p \<Rightarrow> Inr p
           | None \<Rightarrow> read_file_page i pg))"

section \<open>Page transactions\<close>

definition begin_tx :: "pager \<Rightarrow> tx \<times> pager" where
  "begin_tx pg =
     (\<lparr>tx_id = next_txid pg + 1, staged = [], to_free = [], reused = []\<rparr>,
      pg\<lparr>next_txid := next_txid pg + 1\<rparr>)"

definition staged_page :: "tx \<Rightarrow> page_id \<Rightarrow> bytes option" where
  "staged_page t i = map_of (staged t) i"

text \<open>The journal entries \<open>allocate_page\<close> makes for the page \<open>i\<close> it hands out.\<close>

definition record_alloc :: "page_id \<Rightarrow> unit pager_op" where
  "record_alloc i pg =
     (let u = undo pg;
          was_freed = (u_active u \<and> \<not> u_replaying u \<and> i \<in> set (u_freed u));
          needs_realloc_image =
            (was_freed \<and> u_active u \<and> \<not> u_replaying u \<and> i \<notin> set (u_recorded u))
      in if needs_realloc_image then
           (case current_page_image i pg of
              Inl e \<Rightarrow> (Inl e, pg)
            | Inr img \<Rightarrow>
                (Inr (), pg\<lparr>undo := u\<lparr>u_recorded := u_recorded u @ [i],
                                    u_ops := u_ops u @ [USet i img, URealloc i]\<rparr>\<rparr>))
         else if u_active u \<and> \<not> u_replaying u \<and> \<not> was_freed then
           (Inr (), pg\<lparr>undo := u\<lparr>u_ops := u_ops u @ [UAlloc i]\<rparr>\<rparr>)
         else (Inr (), pg))"

definition zero_page :: bytes where
  "zero_page = replicate PAGE_SIZE 0"

definition allocate_page :: "page_id tx_op" where
  "allocate_page s =
     (case s of (pg, t) \<Rightarrow>
        (case reusable_pop (reusable pg) of
           (got, r) \<Rightarrow>
             (let pg = pg\<lparr>reusable := r\<rparr>;
                  i = (case got of Some i \<Rightarrow> i | None \<Rightarrow> num_pages pg)
              in if got = None \<and> (i = 0 \<or> i = - 1) then (Inl (PageIdExhausted i), (pg, t))
                 else
                   (let pg = (if got = None then pg\<lparr>num_pages := num_pages pg + 1\<rparr> else pg);
                        t = t\<lparr>reused := reused t @ [i]\<rparr>
                    in case record_alloc i pg of
                         (Inl e, pg) \<Rightarrow> (Inl e, (pg, t))
                       | (Inr _, pg) \<Rightarrow>
                           (Inr i, (pg, if map_of (staged t) i = None
                                        then t\<lparr>staged := AList.update i zero_page (staged t)\<rparr> else t))))))"

definition free_page :: "page_id \<Rightarrow> unit tx_op" where
  "free_page i s =
     (case s of (pg, t) \<Rightarrow>
        if i = 0 \<or> num_pages pg \<le> i then (Inl (OutOfRange i (num_pages pg)), (pg, t))
        else
          (let u = undo pg;
               pg = (if u_active u \<and> \<not> u_replaying u
                     then pg\<lparr>undo := u\<lparr>u_freed := List.insert i (u_freed u), u_ops := u_ops u @ [UFree i]\<rparr>\<rparr>
                     else pg)
           in (Inr (), (pg, t\<lparr>staged := AList.delete i (staged t), to_free := to_free t @ [i]\<rparr>))))"

definition record_set :: "page_id \<Rightarrow> bytes \<Rightarrow> pager \<Rightarrow> pager" where
  "record_set i base pg =
     (let u = undo pg
      in if u_active u \<and> \<not> u_replaying u \<and> i \<notin> set (u_recorded u)
         then pg\<lparr>undo := u\<lparr>u_recorded := u_recorded u @ [i], u_ops := u_ops u @ [USet i base]\<rparr>\<rparr>
         else pg)"

definition write_page :: "page_id \<Rightarrow> nat \<Rightarrow> bytes \<Rightarrow> unit tx_op" where
  "write_page i off dat s =
     (case s of (pg, t) \<Rightarrow>
        if PAGE_SIZE < off + length dat then (Inl (OutOfRange i (- 1)), (pg, t))
        else if i = 0 then (Inl (OutOfRange i (num_pages pg)), (pg, t))
        else if num_pages pg \<le> i \<and> map_of (staged t) i = None
          then (Inl (OutOfRange i (num_pages pg)), (pg, t))
        else
          (case map_of (staged t) i of
             Some base \<Rightarrow> (Inr (), (pg, t\<lparr>staged := AList.update i (splice base off dat) (staged t)\<rparr>))
           | None \<Rightarrow>
               (case current_page_image i pg of
                  Inl e \<Rightarrow> (Inl e, (pg, t))
                | Inr base \<Rightarrow>
                    (Inr (), (record_set i base pg,
                              t\<lparr>staged := AList.update i (splice base off dat) (staged t)\<rparr>)))))"

section \<open>The undo journal\<close>

definition begin_undo :: "pager \<Rightarrow> pager" where
  "begin_undo pg = pg\<lparr>undo := empty_undo\<lparr>u_active := True\<rparr>\<rparr>"

definition end_undo :: "pager \<Rightarrow> pager" where
  "end_undo pg = pg\<lparr>undo := empty_undo\<rparr>"

definition undo_mark :: "pager \<Rightarrow> nat" where
  "undo_mark pg = length (u_ops (undo pg))"

fun images_of :: "page_id list \<Rightarrow> pager \<Rightarrow> pager_error + (page_id \<times> bytes) list" where
  "images_of [] pg = Inr []"
| "images_of (i # is) pg =
     ebind (current_page_image i pg) (\<lambda>img. ebind (images_of is pg) (\<lambda>rest. Inr ((i, img) # rest)))"

definition undo_savepoint :: "unit pager_op" where
  "undo_savepoint pg =
     (if \<not> u_active (undo pg) then (Inr (), pg)
      else
        (case images_of (u_recorded (undo pg)) pg of
           Inl e \<Rightarrow> (Inl e, pg)
         | Inr images \<Rightarrow>
             (Inr (), pg\<lparr>undo := (undo pg)\<lparr>u_ops := u_ops (undo pg) @ map (\<lambda>(i, img). USet i img) images\<rparr>\<rparr>)))"

definition set_ids :: "undo_op list \<Rightarrow> page_id list" where
  "set_ids ops = remdups (List.map_filter (\<lambda>o'. case o' of USet i _ \<Rightarrow> Some i | _ \<Rightarrow> None) ops)"

definition free_ids :: "undo_op list \<Rightarrow> page_id list" where
  "free_ids ops = remdups (List.map_filter (\<lambda>o'. case o' of UFree i \<Rightarrow> Some i | _ \<Rightarrow> None) ops)"

text \<open>\<open>Vec::split_off\<close> panics past the end; marks come from \<open>undo_mark\<close> of the same journal.\<close>

definition take_undo_to :: "nat \<Rightarrow> pager \<Rightarrow> undo_op list \<times> pager" where
  "take_undo_to mark pg =
     (let ops = take mark (u_ops (undo pg))
      in (drop mark (u_ops (undo pg)),
          pg\<lparr>undo := (undo pg)\<lparr>u_ops := ops, u_recorded := set_ids ops, u_freed := free_ids ops\<rparr>\<rparr>))"

definition take_undo :: "pager \<Rightarrow> undo_op list \<times> pager" where
  "take_undo pg =
     (u_ops (undo pg),
      pg\<lparr>undo := (undo pg)\<lparr>u_ops := [], u_active := False, u_recorded := [], u_freed := []\<rparr>\<rparr>)"

definition restore_undo_journal :: "undo_op list \<Rightarrow> pager \<Rightarrow> pager" where
  "restore_undo_journal ops pg =
     pg\<lparr>undo := (undo pg)\<lparr>u_recorded := set_ids ops, u_freed := free_ids ops, u_ops := ops, u_active := True\<rparr>\<rparr>"

definition reattach_undo_tail :: "undo_op list \<Rightarrow> pager \<Rightarrow> pager" where
  "reattach_undo_tail tail pg =
     pg\<lparr>undo := (undo pg)\<lparr>u_recorded := u_recorded (undo pg) @ filter (\<lambda>i. i \<notin> set (u_recorded (undo pg))) (set_ids tail),
                        u_freed := u_freed (undo pg) @ filter (\<lambda>i. i \<notin> set (u_freed (undo pg))) (free_ids tail),
                        u_ops := u_ops (undo pg) @ tail, u_active := True\<rparr>\<rparr>"

definition pause_undo :: "pager \<Rightarrow> pager" where
  "pause_undo pg = pg\<lparr>undo := (undo pg)\<lparr>u_replaying := True\<rparr>\<rparr>"

definition resume_undo :: "pager \<Rightarrow> pager" where
  "resume_undo pg = pg\<lparr>undo := (undo pg)\<lparr>u_replaying := False\<rparr>\<rparr>"

text \<open>The replay loop of \<open>restore_transaction\<close>: the journal from its end to its start.\<close>

definition replay_op :: "undo_op \<Rightarrow> unit tx_op" where
  "replay_op o' =
     (case o' of
        USet i img \<Rightarrow> write_page i 0 img
      | UAlloc i \<Rightarrow> free_page i
      | UFree i \<Rightarrow> (\<lambda>(pg, t). (Inr (), (reserve_page i pg, t)))
      | URealloc _ \<Rightarrow> oret ())"

fun replay_ops :: "undo_op list \<Rightarrow> unit tx_op" where
  "replay_ops [] = oret ()"
| "replay_ops (o' # os) = obind (replay_op o') (\<lambda>_. replay_ops os)"

definition replay_undo :: "undo_op list \<Rightarrow> unit tx_op" where
  "replay_undo ops = replay_ops (rev ops)"

end
