(* ===== verification/Pager_Commit.thy ===== *)
theory Pager_Commit
  imports Pager
begin

text \<open>
  The durable half of \<open>pager.rs\<close>: commit and abort, the flush of committed images to the data file,
  checkpoints, read snapshots, crash recovery and open.
\<close>

section \<open>Flushing\<close>

text \<open>One page of the pass of \<open>flush_pending\<close>; the accumulator is \<open>last_err\<close>.\<close>

definition flush_page :: "page_id \<Rightarrow> pager_error option \<times> pager \<Rightarrow> pager_error option \<times> pager" where
  "flush_page i acc =
     (case acc of (err, pg) \<Rightarrow>
        (case map_of (pending_writes pg) i of
           None \<Rightarrow> (err, pg)
         | Some dat \<Rightarrow>
             (case write_file_page i dat pg of
                (Inr _, pg) \<Rightarrow>
                  (let pg = (if map_of (pending_writes pg) i = Some dat
                             then pg\<lparr>pending_writes := AList.delete i (pending_writes pg)\<rparr> else pg)
                   in (err, case map_of (pool_map (pool pg)) i of
                         Some p \<Rightarrow> pg\<lparr>pool := (pool pg)\<lparr>pool_map := AList.update i (p\<lparr>p_data := dat\<rparr>) (pool_map (pool pg))\<rparr>\<rparr>
                       | None \<Rightarrow> pg))
              | (Inl e, pg) \<Rightarrow> (Some e, pg))))"

definition flush_pending :: "unit pager_op" where
  "flush_pending pg =
     (case fold flush_page (sort (map fst (pending_writes pg))) (None, pg) of
        (Some e, pg) \<Rightarrow> if pending_writes pg \<noteq> [] then (Inl e, pg) else (Inr (), pg)
      | (None, pg) \<Rightarrow> (Inr (), pg))"

section \<open>Checkpoints\<close>

text \<open>The log operations of the pager run on its \<open>pg_wal\<close>.\<close>

definition with_wal :: "(wal, wal_error, 'a) op \<Rightarrow> 'a pager_op" where
  "with_wal f pg = (case f (pg_wal pg) of (r, w) \<Rightarrow> (wal_lift r, pg\<lparr>pg_wal := w\<rparr>))"

definition truncate_wal_locked :: "bool \<Rightarrow> bool pager_op" where
  "truncate_wal_locked respect_snaps pg =
     (if respect_snaps \<and> sn_active (snaps pg) \<noteq> [] then (Inr False, pg)
      else
        (case with_wal wal_checkpoint pg of
           (Inl e, pg) \<Rightarrow> (Inl e, pg)
         | (Inr _, pg) \<Rightarrow> (Inr True, pg\<lparr>pg_epoch := epoch (pg_wal pg), page_lsn := []\<rparr>)))"

definition free_truncate_if_covered :: "nat \<Rightarrow> bool pager_op" where
  "free_truncate_if_covered len pg =
     (let st = ckpt pg
      in if \<not> (last_ok st \<and> completed st = started st \<and> \<not> requested st \<and> len \<le> covered_len st)
         then (Inr False, pg)
         else
           (case truncate_wal_locked True pg of
              (Inr True, pg) \<Rightarrow> (Inr True, pg\<lparr>ckpt := (ckpt pg)\<lparr>covered_len := 0\<rparr>\<rparr>)
            | r \<Rightarrow> r))"

definition try_free_truncate :: "unit pager_op" where
  "try_free_truncate pg =
     (if pending_writes pg \<noteq> [] then (Inr (), pg)
      else
        (let len = appended (pg_wal pg)
         in if len < ckpt_soft pg then (Inr (), pg)
            else obind (free_truncate_if_covered len) (\<lambda>_. oret ()) pg))"

text \<open>The checkpoint thread: pick up a request, and finish the sync it started.\<close>

definition ckpt_pick :: "pager \<Rightarrow> pager" where
  "ckpt_pick pg =
     (let st = ckpt pg
      in if requested st \<and> inflight st = None
         then pg\<lparr>ckpt := st\<lparr>requested := False, started := started st + 1, inflight := Some (pending_len st)\<rparr>\<rparr>
         else pg)"

definition ckpt_finish :: "pager \<Rightarrow> pager" where
  "ckpt_finish pg =
     (case inflight (ckpt pg) of
        None \<Rightarrow> pg
      | Some covered \<Rightarrow>
          (case file_sync pg of
             (Inr _, pg) \<Rightarrow>
               pg\<lparr>ckpt := (ckpt pg)\<lparr>completed := completed (ckpt pg) + 1, last_ok := True,
                                  covered_len := covered, inflight := None\<rparr>\<rparr>
           | (Inl _, pg) \<Rightarrow>
               pg\<lparr>ckpt := (ckpt pg)\<lparr>completed := completed (ckpt pg) + 1, last_ok := False, inflight := None\<rparr>\<rparr>))"

text \<open>While the writer waits on the condition variable only the thread moves: it finishes the sync in
  flight, then the queued one.\<close>

definition ckpt_wait :: "pager \<Rightarrow> pager" where
  "ckpt_wait pg = ckpt_finish (ckpt_pick (ckpt_finish pg))"

definition ckpt_request :: "nat \<Rightarrow> pager \<Rightarrow> pager" where
  "ckpt_request len pg = pg\<lparr>ckpt := (ckpt pg)\<lparr>requested := True, pending_len := len\<rparr>\<rparr>"

definition covered_by_sync :: "nat \<Rightarrow> pager \<Rightarrow> bool" where
  "covered_by_sync len pg \<longleftrightarrow> last_ok (ckpt pg) \<and> len \<le> covered_len (ckpt pg)"

text \<open>The flow-control loop at the hard limit. After the queued or running sync the writer requests
  one more if the log is not covered yet; that one covers \<open>len\<close>, since nothing is appended meanwhile,
  so the loop takes at most one request. The error is the failed sync of that request.\<close>

definition hard_limit_wait :: "nat \<Rightarrow> unit pager_op" where
  "hard_limit_wait len pg =
     (let pg = (if requested (ckpt pg) \<or> completed (ckpt pg) \<noteq> started (ckpt pg) then ckpt_wait pg else pg)
      in if covered_by_sync len pg then (Inr (), pg)
         else
           (let pg = ckpt_wait (ckpt_request len pg)
            in if \<not> last_ok (ckpt pg) then (Inl PIo, pg) else (Inr (), pg)))"

definition hard_checkpoint :: "nat \<Rightarrow> unit pager_op" where
  "hard_checkpoint len =
     obind (hard_limit_wait len) (\<lambda>_.
       obind (truncate_wal_locked False) (\<lambda>_ pg. (Inr (), pg\<lparr>ckpt := (ckpt pg)\<lparr>covered_len := 0\<rparr>\<rparr>)))"

definition checkpoint_uncovered :: "nat \<Rightarrow> unit pager_op" where
  "checkpoint_uncovered len pg =
     (let pg = (if \<not> requested (ckpt pg) \<and> completed (ckpt pg) = started (ckpt pg)
                then ckpt_request len pg else pg)
      in if len < ckpt_hard pg then (Inr (), pg) else hard_checkpoint len pg)"

definition maybe_checkpoint :: "unit pager_op" where
  "maybe_checkpoint pg =
     (if pending_writes pg \<noteq> [] then (Inr (), pg)
      else
        (let len = appended (pg_wal pg)
         in if len < ckpt_soft pg then (Inr (), pg)
            else
              obind (free_truncate_if_covered len)
                (\<lambda>truncated. if truncated then oret () else checkpoint_uncovered len) pg))"

section \<open>Commit\<close>

definition page_payload :: "page_id \<times> bytes \<Rightarrow> bytes" where
  "page_payload e = to_le_bytes (fst e) @ snd e"

fun log_writes :: "u64 \<Rightarrow> (page_id \<times> bytes) list \<Rightarrow> (wal, wal_error, unit) op" where
  "log_writes t [] = oret ()"
| "log_writes t (e # es) = obind (log_write t (page_payload e)) (\<lambda>_. log_writes t es)"

definition log_tx :: "u64 \<Rightarrow> (page_id \<times> bytes) list \<Rightarrow> bool \<Rightarrow> (wal, wal_error, u64) op" where
  "log_tx t es fsync =
     obind (wal_begin t) (\<lambda>_.
       obind (log_writes t es) (\<lambda>_.
         if fsync then wal_commit t else commit_deferred t))"

text \<open>Images this commit overwrites that have no frame in the current epoch go into the caches of the
  snapshots of this epoch. Pages neither pooled nor queued come from the data file, and are skipped
  when that read fails.\<close>

definition stash_image :: "pager \<Rightarrow> page_id \<Rightarrow> (page_id \<times> bytes) option" where
  "stash_image pg i =
     (if map_of (page_lsn pg) i \<noteq> None then None
      else
        (case map_of (pool_map (pool pg)) i of
           Some p \<Rightarrow> Some (i, p_data p)
         | None \<Rightarrow>
             (case map_of (pending_writes pg) i of
                Some p \<Rightarrow> Some (i, p)
              | None \<Rightarrow> (case read_file_page i pg of Inr img \<Rightarrow> Some (i, img) | Inl _ \<Rightarrow> None))))"

definition stash_entry :: "(page_id \<times> bytes) list \<Rightarrow> snap_entry \<Rightarrow> snap_entry" where
  "stash_entry pres en = en\<lparr>se_cache := fold (\<lambda>(i, img). AList.update i img) pres (se_cache en)\<rparr>"

definition stash_snapshots :: "(page_id \<times> bytes) list \<Rightarrow> pager \<Rightarrow> pager" where
  "stash_snapshots es pg =
     (let now = epoch (pg_wal pg);
          pres = List.map_filter (stash_image pg) (map fst es)
      in pg\<lparr>snaps := (snaps pg)\<lparr>sn_active :=
           map (\<lambda>(k, (ep, l, en)). (k, (ep, l, if ep = now then stash_entry pres en else en)))
             (sn_active (snaps pg))\<rparr>\<rparr>)"

definition apply_image :: "u64 \<Rightarrow> page_id \<times> bytes \<Rightarrow> pager \<Rightarrow> pager" where
  "apply_image l e pg =
     (case e of (i, dat) \<Rightarrow>
        (let pg = (case map_of (pool_map (pool pg)) i of
                     Some p \<Rightarrow> pg\<lparr>pool := (pool pg)\<lparr>pool_map := AList.update i (p\<lparr>p_data := dat\<rparr>) (pool_map (pool pg))\<rparr>\<rparr>
                   | None \<Rightarrow> pg)
         in pg\<lparr>pending_writes := AList.update i dat (pending_writes pg),
               page_lsn := AList.update i l (page_lsn pg)\<rparr>))"

text \<open>A failure past the fsync is logged and ignored.\<close>

definition ignore_err :: "unit pager_op \<Rightarrow> pager \<Rightarrow> pager" where
  "ignore_err f pg = snd (f pg)"

definition commit_tx_inner :: "tx \<Rightarrow> bool \<Rightarrow> u64 pager_op" where
  "commit_tx_inner t fsync pg =
     (if staged t = [] then (Inr 0, release_pages (to_free t) pg)
      else
        (case try_free_truncate pg of
           (Inl e, pg) \<Rightarrow> (Inl e, drop_tx t pg)
         | (Inr _, pg) \<Rightarrow>
             (case with_wal (log_tx (tx_id t) (staged t) fsync) pg of
                (Inl e, pg) \<Rightarrow> (Inl e, drop_tx t pg)
              | (Inr l, pg) \<Rightarrow>
                  (let pg = stash_snapshots (staged t) pg;
                       pg = fold (apply_image l) (staged t) pg;
                       pg = release_pages (to_free t) pg;
                       pg = (if fsync then ignore_err maybe_checkpoint (ignore_err flush_pending pg) else pg)
                   in (Inr l, pg)))))"

definition commit_tx :: "tx \<Rightarrow> u64 pager_op" where
  "commit_tx t = commit_tx_inner t True"

definition commit_tx_deferred :: "tx \<Rightarrow> u64 pager_op" where
  "commit_tx_deferred t = commit_tx_inner t False"

definition sync_wal :: "unit pager_op" where
  "sync_wal pg =
     (case with_wal (obind wal_fence (\<lambda>_. wal_sync)) pg of
        (Inl e, pg) \<Rightarrow> (Inl e, pg)
      | (Inr _, pg) \<Rightarrow> (Inr (), ignore_err maybe_checkpoint (ignore_err flush_pending pg)))"

definition pager_abort_deferred :: "unit pager_op" where
  "pager_abort_deferred = with_wal abort_deferred"

definition abort_tx :: "tx \<Rightarrow> unit pager_op" where
  "abort_tx t pg =
     (if staged t = [] then (Inr (), return_reused (reused t) pg)
      else
        (case with_wal (wal_abort (tx_id t)) pg of
           (Inl e, pg) \<Rightarrow> (Inl e, drop_tx t pg)
         | (Inr _, pg) \<Rightarrow> (Inr (), return_reused (reused t) (ignore_err maybe_checkpoint pg))))"

definition pager_sync :: "unit pager_op" where
  "pager_sync = file_sync"

section \<open>Snapshots\<close>

definition begin_snapshot :: "pager \<Rightarrow> snapshot \<times> pager" where
  "begin_snapshot pg =
     (let ep = epoch (pg_wal pg);
          l = last_commit_lsn (pg_wal pg);
          k = sn_next_id (snaps pg) + 1
      in (\<lparr>sn_id = k, sn_epoch = ep, sn_lsn = l\<rparr>,
          pg\<lparr>snaps := \<lparr>sn_next_id = k,
             sn_active = AList.update k (ep, l, \<lparr>materialized = False, se_cache = []\<rparr>) (sn_active (snaps pg))\<rparr>\<rparr>))"

definition end_snapshot :: "snapshot \<Rightarrow> pager \<Rightarrow> pager" where
  "end_snapshot sn pg = pg\<lparr>snaps := (snaps pg)\<lparr>sn_active := AList.delete (sn_id sn) (sn_active (snaps pg))\<rparr>\<rparr>"

definition decode_page_image :: "bytes \<Rightarrow> (page_id \<times> bytes) option" where
  "decode_page_image pl =
     (if length pl \<noteq> 4 + PAGE_SIZE then None else Some (from_le_bytes (sub_bytes pl 0 4), drop 4 pl))"

text \<open>The two passes of \<open>materialize_snapshot\<close> over the records of the log.\<close>

definition snap_committed :: "u64 \<Rightarrow> log_record list \<Rightarrow> (u64 \<times> u64) list" where
  "snap_committed l recs =
     fold (\<lambda>r m. if kind r = KIND_COMMIT \<or> kind r = KIND_COMMIT_DEFERRED then AList.update (txid r) (lsn r) m else m)
       (takeWhile (\<lambda>r. lsn r \<le> l) recs) []"

definition snap_cache :: "u64 \<Rightarrow> log_record list \<Rightarrow> (page_id \<times> bytes) list" where
  "snap_cache l recs =
     (let com = snap_committed l recs
      in fold (\<lambda>r c.
           if kind r \<noteq> KIND_WRITE then c
           else
             (case map_of com (txid r) of
                None \<Rightarrow> c
              | Some cl \<Rightarrow>
                  if l < cl then c
                  else (case decode_page_image (payload r) of
                          None \<Rightarrow> c | Some (i, img) \<Rightarrow> AList.update i img c))) recs [])"

definition materialize_snapshot :: "snapshot \<Rightarrow> unit pager_op" where
  "materialize_snapshot sn pg =
     (if (case map_of (sn_active (snaps pg)) (sn_id sn) of
            Some (_, _, en) \<Rightarrow> materialized en | None \<Rightarrow> False)
      then (Inr (), pg)
      else
        (case frames (w_file (pg_wal pg)) of
           (_, _, Some e) \<Rightarrow> (Inl (if pg_epoch pg \<noteq> sn_epoch sn then SnapshotTooOld else PWal e), pg)
         | (recs, _, None) \<Rightarrow>
             if epoch (pg_wal pg) \<noteq> sn_epoch sn then (Inl SnapshotTooOld, pg)
             else
               (case map_of (sn_active (snaps pg)) (sn_id sn) of
                  None \<Rightarrow> (Inr (), pg)
                | Some (ep, l, en) \<Rightarrow>
                    (Inr (), pg\<lparr>snaps := (snaps pg)\<lparr>sn_active :=
                       AList.update (sn_id sn) (ep, l, (stash_entry (snap_cache (sn_lsn sn) recs) en)\<lparr>materialized := True\<rparr>)
                         (sn_active (snaps pg))\<rparr>\<rparr>))))"

definition read_page_as_of :: "snapshot \<Rightarrow> page_id \<Rightarrow> bytes pager_op" where
  "read_page_as_of sn i pg =
     (if i = 0 then (Inl (OutOfRange 0 (num_pages pg)), pg)
      else if pg_epoch pg \<noteq> sn_epoch sn then (Inl SnapshotTooOld, pg)
      else if (case map_of (page_lsn pg) i of None \<Rightarrow> True | Some l \<Rightarrow> l \<le> sn_lsn sn)
        then read_page_shared i pg
      else
        obind (materialize_snapshot sn) (\<lambda>_ pg.
          (case map_of (sn_active (snaps pg)) (sn_id sn) of
             None \<Rightarrow> (Inl SnapshotTooOld, pg)
           | Some (_, _, en) \<Rightarrow>
               (case map_of (se_cache en) i of
                  Some img \<Rightarrow> (Inr img, pg)
                | None \<Rightarrow> (Inl SnapshotTooOld, pg)))) pg)"

datatype page_reader = Current | SnapshotReader snapshot

definition reader_page :: "page_reader \<Rightarrow> tx option \<Rightarrow> page_id \<Rightarrow> bytes pager_op" where
  "reader_page rd t i pg =
     (case (case t of Some t \<Rightarrow> staged_page t i | None \<Rightarrow> None) of
        Some p \<Rightarrow> (Inr p, pg)
      | None \<Rightarrow>
          (case rd of
             Current \<Rightarrow> read_page_shared i pg
           | SnapshotReader sn \<Rightarrow> read_page_as_of sn i pg))"

section \<open>Recovery and open\<close>

type_synonym recover_state = "u64 set \<times> deferred_set \<times> u64 \<times> nat"

definition recover_scan :: "recover_state \<Rightarrow> log_record \<Rightarrow> recover_state" where
  "recover_scan st r =
     (case st of (com, ds, mx, n) \<Rightarrow>
        (let (com, ds) =
           (if kind r = KIND_COMMIT then (insert (txid r) com, ds)
            else if kind r = KIND_COMMIT_DEFERRED then (com, deferred_push (lsn r) (txid r) ds)
            else if kind r = KIND_FENCE then (com, deferred_fence (lsn r) ds)
            else if kind r = KIND_ABORT then (com, deferred_abort (txid r) (lsn r) ds)
            else (com, ds))
         in (com, ds, max mx (txid r), n + 1)))"

definition recover_pass1 :: "log_record list \<Rightarrow> u64 set \<times> u64 \<times> nat" where
  "recover_pass1 recs =
     (case foldl recover_scan ({}, [], 0, 0) recs of
        (com, ds, mx, n) \<Rightarrow> (com \<union> set (durable_txids ds), mx, n))"

fun recover_pass2 :: "u64 set \<Rightarrow> nat \<Rightarrow> nat \<Rightarrow> log_record list \<Rightarrow> bool \<Rightarrow> bool pager_op" where
  "recover_pass2 com ceiling n [] applied = oret applied"
| "recover_pass2 com ceiling n (r # rs) applied =
     (if kind r \<noteq> KIND_WRITE \<or> txid r \<notin> com then recover_pass2 com ceiling n rs applied
      else
        (case decode_page_image (payload r) of
           None \<Rightarrow> recover_pass2 com ceiling n rs applied
         | Some (i, img) \<Rightarrow>
             (\<lambda>pg. if i = 0 \<or> ceiling \<le> unat i then (Inl (WalPageId i (num_pages pg) n), pg)
                   else obind (write_file_page i img) (\<lambda>_. recover_pass2 com ceiling n rs True) pg)))"

definition recover :: "unit pager_op" where
  "recover pg =
     (case frames (w_file (pg_wal pg)) of
        (_, _, Some e) \<Rightarrow> (Inl (PWal e), pg)
      | (recs, _, None) \<Rightarrow>
          (case recover_pass1 recs of
             (com, mx, n) \<Rightarrow>
               (let pg = pg\<lparr>next_txid := max (next_txid pg) (mx + 1)\<rparr>;
                    ceiling = unat (num_pages pg) + n
                in obind (recover_pass2 com ceiling n recs False) (\<lambda>applied.
                     obind (if applied then obind persist_header (\<lambda>_. file_sync) else oret ()) (\<lambda>_.
                       obind (truncate_wal_locked False) (\<lambda>_. oret ()))) pg)))"

definition fresh_pager :: "bytes \<Rightarrow> wal \<Rightarrow> u32 \<Rightarrow> io list \<Rightarrow> pager" where
  "fresh_pager f w n script =
     \<lparr>pg_file = f, pg_synced = f, pg_wal = w, num_pages = n, persisted_pages = n, pg_epoch = 0, next_txid = 1,
      pool = \<lparr>pool_map = [], pool_order = [], pool_ticket = 0\<rparr>, max_pool = DEFAULT_POOL_PAGES,
      pending_writes = [], page_lsn = [], reusable = \<lparr>r_order = [], r_set = {}\<rparr>, undo = empty_undo,
      snaps = \<lparr>sn_next_id = 0, sn_active = []\<rparr>,
      ckpt = \<lparr>requested = False, pending_len = 0, started = 0, completed = 0, covered_len = 0,
              last_ok = False, inflight = None\<rparr>,
      ckpt_soft = SOFT_WAL_LIMIT, ckpt_hard = HARD_WAL_LIMIT, pg_disk = script\<rparr>"

text \<open>\<open>Pager::open\<close> on the contents of the data file (empty: a new database) and of the log, with the
  scripts of the I/O outcomes of the data file and of the log.\<close>

definition pager_open :: "bytes \<Rightarrow> bytes option \<Rightarrow> io list \<Rightarrow> io list \<Rightarrow> pager_error + pager" where
  "pager_open content wal_content script wal_script =
     ebind (wal_lift (wal_open wal_content wal_script)) (\<lambda>w.
       ebind
         (if content = [] then
            (case obind (file_write 0 (encode_header 1)) (\<lambda>_. file_sync) (fresh_pager [] w 1 script) of
               (Inl e, _) \<Rightarrow> Inl e | (Inr _, pg) \<Rightarrow> Inr pg)
          else if length content < HEADER_LEN then Inl PIo
          else if take 8 content \<noteq> MAGIC \<or> unat (from_le_bytes (sub_bytes content 8 4) :: u32) \<noteq> PAGE_SIZE
            then Inl BadHeader
          else Inr (fresh_pager content w (from_le_bytes (sub_bytes content 12 4)) script))
         (\<lambda>pg. case recover pg of (Inl e, _) \<Rightarrow> Inl e | (Inr _, pg) \<Rightarrow> Inr pg))"

end
