(* ===== verification/Pager_Props.thy ===== *)
theory Pager_Props
  imports Pager_Commit
begin

text \<open>
  Lemmas about the pager: the buffer pool is transparent (reads return the committed image whatever
  was evicted), commits publish exactly the staged images even when data-file writes fail, the
  pool of reusable pages hands a page out once per release, and recovery writes the last committed
  image of every logged page.
\<close>

section \<open>Committed images\<close>

text \<open>The committed image of a page: queued for the data file, or in it.\<close>

definition file_image :: "pager \<Rightarrow> page_id \<Rightarrow> bytes option" where
  "file_image pg i = get_range (pg_file pg) (page_off i) PAGE_SIZE"

definition base_image :: "pager \<Rightarrow> page_id \<Rightarrow> bytes option" where
  "base_image pg i = (case map_of (pending_writes pg) i of Some p \<Rightarrow> Some p | None \<Rightarrow> file_image pg i)"

text \<open>Every pooled copy is the committed image.\<close>

definition coherent :: "pager \<Rightarrow> bool" where
  "coherent pg \<longleftrightarrow>
     (\<forall>i p. map_of (pool_map (pool pg)) i = Some p \<longrightarrow> i \<noteq> 0 \<and> base_image pg i = Some (p_data p))"

lemma coherentD:
  "coherent pg \<Longrightarrow> map_of (pool_map (pool pg)) i = Some p \<Longrightarrow> i \<noteq> 0 \<and> base_image pg i = Some (p_data p)"
  by (simp add: coherent_def)

lemma base_image_upd [simp]:
  "base_image (pg\<lparr>pool := x\<rparr>) = base_image pg" "base_image (pg\<lparr>reusable := r\<rparr>) = base_image pg"
  "base_image (pg\<lparr>undo := u\<rparr>) = base_image pg" "base_image (pg\<lparr>pg_wal := w\<rparr>) = base_image pg"
  "base_image (pg\<lparr>num_pages := n\<rparr>) = base_image pg" "base_image (pg\<lparr>persisted_pages := n\<rparr>) = base_image pg"
  "base_image (pg\<lparr>next_txid := k\<rparr>) = base_image pg" "base_image (pg\<lparr>page_lsn := l\<rparr>) = base_image pg"
  "base_image (pg\<lparr>snaps := s\<rparr>) = base_image pg" "base_image (pg\<lparr>ckpt := c\<rparr>) = base_image pg"
  "base_image (pg\<lparr>pg_epoch := e\<rparr>) = base_image pg" "base_image (pg\<lparr>pg_synced := f\<rparr>) = base_image pg"
  "base_image (pg\<lparr>pg_disk := d\<rparr>) = base_image pg"
  by (simp_all add: fun_eq_iff base_image_def file_image_def cong: option.case_cong)

lemma coherent_upd [simp]:
  "coherent (pg\<lparr>reusable := r\<rparr>) = coherent pg"
  "coherent (pg\<lparr>undo := u\<rparr>) = coherent pg" "coherent (pg\<lparr>pg_wal := w\<rparr>) = coherent pg"
  "coherent (pg\<lparr>num_pages := n\<rparr>) = coherent pg" "coherent (pg\<lparr>persisted_pages := n\<rparr>) = coherent pg"
  "coherent (pg\<lparr>next_txid := k\<rparr>) = coherent pg" "coherent (pg\<lparr>page_lsn := l\<rparr>) = coherent pg"
  "coherent (pg\<lparr>snaps := s\<rparr>) = coherent pg" "coherent (pg\<lparr>ckpt := c\<rparr>) = coherent pg"
  "coherent (pg\<lparr>pg_epoch := e\<rparr>) = coherent pg" "coherent (pg\<lparr>pg_synced := f\<rparr>) = coherent pg"
  "coherent (pg\<lparr>pg_disk := d\<rparr>) = coherent pg"
  by (simp_all add: coherent_def)

section \<open>The buffer pool\<close>

text \<open>\<open>pool_sub m' m\<close>: every page of \<open>m'\<close> is in \<open>m\<close> with the same bytes.\<close>

definition pool_sub :: "(page_id \<times> page) list \<Rightarrow> (page_id \<times> page) list \<Rightarrow> bool" where
  "pool_sub m' m \<longleftrightarrow> (\<forall>i p'. map_of m' i = Some p' \<longrightarrow> (\<exists>p. map_of m i = Some p \<and> p_data p = p_data p'))"

lemma pool_sub_refl [simp]: "pool_sub m m"
  by (auto simp: pool_sub_def)

lemma pool_sub_trans: "pool_sub a b \<Longrightarrow> pool_sub b c \<Longrightarrow> pool_sub a c"
  unfolding pool_sub_def by metis

lemma pool_sub_delete: "pool_sub (AList.delete i m) m"
  by (auto simp: pool_sub_def delete_conv' split: if_splits)

lemma coherent_pool_sub:
  "coherent pg \<Longrightarrow> pool_sub (pool_map st) (pool_map (pool pg)) \<Longrightarrow> coherent (pg\<lparr>pool := st\<rparr>)"
  by (fastforce simp: coherent_def pool_sub_def)

lemma pool_map_compact [simp]: "pool_map (compact_if_needed st) = pool_map st"
  by (simp add: compact_if_needed_def)

lemma touch_Some:
  assumes "touch i st = (Some d, st')"
  shows "\<exists>p. map_of (pool_map st) i = Some p \<and> p_data p = d" and "pool_sub (pool_map st') (pool_map st)"
  using assms
  by (auto simp: touch_def Let_def pool_sub_def update_conv' split: option.splits if_splits)

lemma touch_None: "touch i st = (None, st') \<Longrightarrow> map_of (pool_map st) i = None"
  by (auto simp: touch_def Let_def split: option.splits)

lemma evict_one_sub: "evict_one m q = (b, m', q') \<Longrightarrow> pool_sub m' m"
proof (induction q)
  case (Cons e q)
  then show ?case by (cases e) (auto split: if_splits intro: pool_sub_delete)
qed simp

lemma evict_while_sub: "evict_while mx m q = (m', q') \<Longrightarrow> pool_sub m' m"
proof (induction mx m q arbitrary: m' q' rule: evict_while.induct)
  case (1 mx m q)
  show ?case
  proof (cases "mx \<le> length m")
    case True
    obtain b m1 q1 where e: "evict_one m q = (b, m1, q1)" by (metis prod_cases3)
    have s: "pool_sub m1 m" by (rule evict_one_sub [OF e])
    show ?thesis
    proof (cases b)
      case True
      then have "pool_sub m' m1" using 1 e \<open>mx \<le> length m\<close> by (simp add: evict_while.simps [of mx m q])
      then show ?thesis using s pool_sub_trans by blast
    next
      case False
      then show ?thesis using 1 e \<open>mx \<le> length m\<close> s by (simp add: evict_while.simps [of mx m q])
    qed
  next
    case False
    then show ?thesis using 1 by (simp add: evict_while.simps [of mx m q])
  qed
qed

lemma pool_insert_cases:
  "map_of (pool_map (pool_insert mx i d st)) j = Some p \<Longrightarrow>
     (j = i \<and> p_data p = d) \<or> (j \<noteq> i \<and> (\<exists>q. map_of (pool_map st) j = Some q \<and> p_data q = p_data p))"
  by (cases "evict_while mx (pool_map st) (pool_order st)")
    (auto simp: pool_insert_def Let_def update_conv' pool_sub_def dest!: evict_while_sub split: if_splits)

text \<open>Reading only ever changes the pool, and returns the committed image.\<close>

lemma read_exact_page_Inr: "read_exact_page (pg_file pg) i = Inr d \<longleftrightarrow> file_image pg i = Some d"
  by (auto simp: read_exact_page_def file_image_def split: option.splits)

lemma read_page_shared_cases:
  assumes "read_page_shared i pg = (res, pg')"
  obtains (error) e where "res = Inl e" and "pg' = pg"
    | (hit) d st where "i \<noteq> 0" and "touch i (pool pg) = (Some d, st)" and "res = Inr d" and "pg' = pg\<lparr>pool := st\<rparr>"
    | (queued) d where "i \<noteq> 0" and "map_of (pool_map (pool pg)) i = None" and "map_of (pending_writes pg) i = Some d"
        and "res = Inr d" and "pg' = pg"
    | (cold) d where "i \<noteq> 0" and "map_of (pool_map (pool pg)) i = None" and "map_of (pending_writes pg) i = None"
        and "file_image pg i = Some d" and "res = Inr d"
        and "pg' = pg\<lparr>pool := pool_insert (max_pool pg) i d (pool pg)\<rparr>"
proof (cases "touch i (pool pg)")
  case (Pair got st)
  show ?thesis
  proof (cases "got = None \<and> i \<noteq> 0 \<and> i < num_pages pg")
    case True
    then have m: "map_of (pool_map (pool pg)) i = None" using Pair touch_None by blast
    have rd: "read_page_shared i pg =
        (case map_of (pending_writes pg) i of
           Some p \<Rightarrow> (Inr p, pg)
         | None \<Rightarrow> (case read_exact_page (pg_file pg) i of
             Inl e \<Rightarrow> (Inl e, pg)
           | Inr dat \<Rightarrow> (Inr dat, pg\<lparr>pool := pool_insert (max_pool pg) i dat (pool pg)\<rparr>)))"
      using True Pair by (simp add: read_page_shared_def not_le [symmetric])
    show ?thesis
    proof (cases "map_of (pending_writes pg) i")
      case (Some d)
      then show ?thesis using that(3) [of d] rd m True assms by simp
    next
      case None
      then show ?thesis
        using that(1,4) rd m True assms read_exact_page_Inr [of pg i]
        by (cases "read_exact_page (pg_file pg) i") auto
    qed
  next
    case False
    then show ?thesis
      using assms Pair that(1) that(2) [of "the got" st]
      by (cases got) (auto simp: read_page_shared_def split: if_splits)
  qed
qed

lemma read_page_shared_keeps:
  assumes "coherent pg" and "read_page_shared i pg = (res, pg')"
  shows "coherent pg' \<and> pg' = pg\<lparr>pool := pool pg'\<rparr>"
  using assms(2)
proof (cases rule: read_page_shared_cases)
  case (hit d st)
  then show ?thesis using coherent_pool_sub [OF assms(1) touch_Some(2)] by simp
next
  case (cold d)
  then show ?thesis
    using assms(1) by (auto simp: coherent_def base_image_def dest!: pool_insert_cases)
qed (use assms(1) in simp_all)

lemma read_page_shared_Inr:
  assumes "coherent pg" and "read_page_shared i pg = (Inr d, pg')"
  shows "base_image pg i = Some d" and "i \<noteq> 0"
  using assms(2)
  by (cases rule: read_page_shared_cases; auto simp: base_image_def dest!: touch_Some(1) coherentD [OF assms(1)])+

lemma read_page_shared_image:
  assumes "coherent pg" and "i \<noteq> 0" and "i < num_pages pg" and "base_image pg i = Some d"
  obtains pg' where "read_page_shared i pg = (Inr d, pg')"
proof -
  obtain res pg' where r: "read_page_shared i pg = (res, pg')" by fastforce
  have "res \<noteq> Inl e" for e
    using r assms(2,3,4)
    by (auto simp: read_page_shared_def base_image_def read_exact_page_def file_image_def not_le
        split: if_splits option.splits prod.splits)
  then obtain d' where "res = Inr d'" by (cases res) auto
  then show ?thesis using r read_page_shared_Inr(1) [OF assms(1)] assms(4) that by auto
qed

lemma current_page_image_base:
  assumes "coherent pg" and "i < num_pages pg"
  shows "current_page_image i pg = (case base_image pg i of Some d \<Rightarrow> Inr d | None \<Rightarrow> Inl PIo)"
  using assms
  by (auto simp: current_page_image_def coherent_def base_image_def read_file_page_def read_exact_page_def
      file_image_def split: option.splits)

section \<open>Writing the data file\<close>

lemma page_off_apart: "i \<noteq> j \<Longrightarrow> page_off j + PAGE_SIZE \<le> page_off i \<or> page_off i + PAGE_SIZE \<le> page_off j"
proof -
  assume "i \<noteq> j"
  then have "unat i \<noteq> unat j" by (simp add: word_unat_eq_iff)
  then have "unat j + 1 \<le> unat i \<or> unat i + 1 \<le> unat j" by arith
  then show ?thesis
    unfolding page_off_def by (metis add_mult_distrib mult_1 mult_le_mono1)
qed

lemma page_off_pos: "i \<noteq> 0 \<Longrightarrow> PAGE_SIZE \<le> page_off i"
  by (simp add: page_off_def Suc_le_eq unat_gt_0)

lemma length_encode_header [simp]: "length (encode_header n) = 16"
  by (simp add: encode_header_def MAGIC_def)

lemma next_pg_io_frame: "next_pg_io pg = (r, pg') \<Longrightarrow> pg' = pg\<lparr>pg_disk := tl (pg_disk pg)\<rparr>"
  by (cases "pg_disk pg") (auto simp: next_pg_io_def)

text \<open>A data-file write changes nothing but the file and the script, and keeps every range apart from
  the one it writes, whether or not it succeeds.\<close>

definition file_only :: "pager \<Rightarrow> pager \<Rightarrow> bool" where
  "file_only pg pg' \<longleftrightarrow>
     pg' = pg\<lparr>pg_file := pg_file pg', pg_disk := pg_disk pg', num_pages := num_pages pg',
              persisted_pages := persisted_pages pg'\<rparr>"

lemma file_only_trans: "file_only a b \<Longrightarrow> file_only b c \<Longrightarrow> file_only a c"
  unfolding file_only_def by (cases a; cases b; cases c) simp

lemma file_write_only: "file_write off dat pg = (res, pg') \<Longrightarrow> file_only pg pg'"
  by (auto simp: file_write_def file_only_def split: prod.splits io.splits dest!: next_pg_io_frame)

lemma file_write_apart:
  assumes "file_write off dat pg = (res, pg')" and "file_image pg j = Some d"
    and "page_off j + PAGE_SIZE \<le> off \<or> off + length dat \<le> page_off j"
  shows "file_image pg' j = Some d"
proof -
  have "pg_file pg' = write_at (pg_file pg) off dat \<or> (\<exists>n. pg_file pg' = write_at (pg_file pg) off (take n dat))"
    using assms(1) by (auto simp: file_write_def split: prod.splits io.splits dest!: next_pg_io_frame)
  then obtain xs where "pg_file pg' = write_at (pg_file pg) off xs" and "length xs \<le> length dat"
    by (metis length_take min.cobounded1 order_refl)
  then show ?thesis
    using assms(2,3) get_range_write_at_apart [of "pg_file pg" "page_off j" PAGE_SIZE d off xs]
    by (auto simp: file_image_def)
qed

lemma file_write_ok: "file_write off dat pg = (Inr u, pg') \<Longrightarrow> pg_file pg' = write_at (pg_file pg) off dat"
  by (auto simp: file_write_def split: prod.splits io.splits dest!: next_pg_io_frame)

lemma persist_header_keeps:
  assumes "persist_header pg = (res, pg')"
  shows "file_only pg pg'" and "j \<noteq> 0 \<Longrightarrow> file_image pg j = Some d \<Longrightarrow> file_image pg' j = Some d"
proof -
  obtain r pg1 where w: "file_write 0 (encode_header (num_pages pg)) pg = (r, pg1)" by fastforce
  then have pg': "pg' = pg1 \<or> pg' = pg1\<lparr>persisted_pages := num_pages pg1\<rparr>"
    using assms by (cases r) (auto simp: persist_header_def obind_def)
  show "file_only pg pg'" using file_write_only [OF w] pg' by (cases pg; cases pg1) (auto simp: file_only_def)
  assume "j \<noteq> 0" "file_image pg j = Some d"
  then have "file_image pg1 j = Some d"
    using file_write_apart [OF w, of j d] page_off_pos [of j] by (simp add: PAGE_SIZE_def)
  then show "file_image pg' j = Some d" using pg' by (auto simp: file_image_def)
qed

lemma write_file_page_only:
  assumes "write_file_page i dat pg = (res, pg')"
  shows "file_only pg pg'"
proof -
  define pg0 where "pg0 = (if num_pages pg \<le> i then pg\<lparr>num_pages := saturating_inc i\<rparr> else pg)"
  have 0: "file_only pg pg0" by (simp add: pg0_def file_only_def)
  obtain r1 pg1 where h: "(if persisted_pages pg0 \<le> i then persist_header pg0 else (Inr (), pg0)) = (r1, pg1)"
    by fastforce
  then have 1: "file_only pg pg1"
    using 0 file_only_trans [OF 0] persist_header_keeps(1) [of pg0 r1 pg1] by (auto split: if_splits)
  have "(case r1 of Inl e \<Rightarrow> (Inl e, pg1) | Inr _ \<Rightarrow> file_write (page_off i) dat pg1) = (res, pg')"
    using assms h unfolding write_file_page_def Let_def pg0_def [symmetric] obind_def by (simp split: sum.splits)
  then show ?thesis
    using 1 file_only_trans [OF 1] file_write_only [of "page_off i" dat pg1] by (auto split: sum.splits)
qed

lemma write_file_page_keeps:
  assumes "write_file_page i dat pg = (res, pg')" and "length dat = PAGE_SIZE"
  shows "j \<noteq> 0 \<Longrightarrow> j \<noteq> i \<Longrightarrow> file_image pg j = Some d \<Longrightarrow> file_image pg' j = Some d"
    and "res = Inr () \<Longrightarrow> file_image pg' i = Some dat"
proof -
  define pg0 where "pg0 = (if num_pages pg \<le> i then pg\<lparr>num_pages := saturating_inc i\<rparr> else pg)"
  obtain r1 pg1 where h: "(if persisted_pages pg0 \<le> i then persist_header pg0 else (Inr (), pg0)) = (r1, pg1)"
    by fastforce
  have e: "(case r1 of Inl e \<Rightarrow> (Inl e, pg1) | Inr _ \<Rightarrow> file_write (page_off i) dat pg1) = (res, pg')"
    using assms(1) h unfolding write_file_page_def Let_def pg0_def [symmetric] obind_def by (simp split: sum.splits)
  have f0: "file_image pg0 = file_image pg"
    by (simp add: pg0_def file_image_def fun_eq_iff)
  have k1: "j \<noteq> 0 \<Longrightarrow> file_image pg0 j = Some d \<Longrightarrow> file_image pg1 j = Some d" for j d
    using h persist_header_keeps(2) [of pg0 r1 pg1] by (auto split: if_splits)
  show "file_image pg' j = Some d" if "j \<noteq> 0" "j \<noteq> i" "file_image pg j = Some d"
    using e k1 [of j d] that f0 file_write_apart [of "page_off i" dat pg1 res pg' j d] page_off_apart [of j i] assms(2)
    by (auto split: sum.splits)
  show "file_image pg' i = Some dat" if "res = Inr ()"
    using e that file_write_ok [of "page_off i" dat pg1 "()" pg'] get_range_write_at_same [of "pg_file pg1" "page_off i" dat] assms(2)
    by (auto simp: file_image_def split: sum.splits)
qed

section \<open>Flushing and checkpoints keep the committed images\<close>

definition keeps :: "pager \<Rightarrow> pager \<Rightarrow> bool" where
  "keeps pg pg' \<longleftrightarrow> (\<forall>j d. j \<noteq> 0 \<longrightarrow> base_image pg j = Some d \<longrightarrow> base_image pg' j = Some d)"

definition pending_ok :: "pager \<Rightarrow> bool" where
  "pending_ok pg \<longleftrightarrow> (\<forall>i d. map_of (pending_writes pg) i = Some d \<longrightarrow> i \<noteq> 0 \<and> length d = PAGE_SIZE)"

text \<open>What every operation between two commits keeps.\<close>

definition store_ok :: "pager \<Rightarrow> bool" where
  "store_ok pg \<longleftrightarrow> coherent pg \<and> pending_ok pg"

definition preserves :: "pager \<Rightarrow> pager \<Rightarrow> bool" where
  "preserves pg pg' \<longleftrightarrow> (store_ok pg \<longrightarrow> store_ok pg' \<and> keeps pg pg')"

lemma preserves_refl [simp]: "preserves pg pg"
  by (simp add: preserves_def keeps_def)

lemma preserves_trans: "preserves a b \<Longrightarrow> preserves b c \<Longrightarrow> preserves a c"
  unfolding preserves_def keeps_def by metis

lemma store_ok_upd [simp]:
  "store_ok (pg\<lparr>reusable := r\<rparr>) = store_ok pg" "store_ok (pg\<lparr>undo := u\<rparr>) = store_ok pg"
  "store_ok (pg\<lparr>pg_wal := w\<rparr>) = store_ok pg" "store_ok (pg\<lparr>ckpt := c\<rparr>) = store_ok pg"
  "store_ok (pg\<lparr>snaps := sn\<rparr>) = store_ok pg" "store_ok (pg\<lparr>pg_synced := f\<rparr>) = store_ok pg"
  "store_ok (pg\<lparr>page_lsn := l\<rparr>) = store_ok pg" "store_ok (pg\<lparr>pg_epoch := e\<rparr>) = store_ok pg"
  "store_ok (pg\<lparr>pg_disk := ds\<rparr>) = store_ok pg" "store_ok (pg\<lparr>next_txid := k\<rparr>) = store_ok pg"
  "store_ok (pg\<lparr>num_pages := n\<rparr>) = store_ok pg"
  by (simp_all add: store_ok_def pending_ok_def)

lemma preserves_upd [simp]:
  "preserves a (pg\<lparr>reusable := r\<rparr>) = preserves a pg" "preserves a (pg\<lparr>undo := u\<rparr>) = preserves a pg"
  "preserves a (pg\<lparr>pg_wal := w\<rparr>) = preserves a pg" "preserves a (pg\<lparr>ckpt := c\<rparr>) = preserves a pg"
  "preserves a (pg\<lparr>snaps := sn\<rparr>) = preserves a pg" "preserves a (pg\<lparr>pg_synced := f\<rparr>) = preserves a pg"
  "preserves a (pg\<lparr>page_lsn := l\<rparr>) = preserves a pg" "preserves a (pg\<lparr>pg_epoch := e\<rparr>) = preserves a pg"
  "preserves a (pg\<lparr>pg_disk := ds\<rparr>) = preserves a pg" "preserves (pg\<lparr>ckpt := c\<rparr>) b = preserves pg b"
  by (simp_all add: preserves_def keeps_def)

lemma keeps_coherent:
  assumes "coherent pg" and "keeps pg pg'" and "pool_sub (pool_map (pool pg')) (pool_map (pool pg))"
  shows "coherent pg'"
  using assms unfolding coherent_def keeps_def pool_sub_def by metis

lemma file_only_fields:
  assumes "file_only pg pg'"
  shows "pending_writes pg' = pending_writes pg" and "pool pg' = pool pg"
  using assms by (cases pg; cases pg'; simp add: file_only_def)+

lemma pool_sub_update_data:
  "map_of m i = Some p \<Longrightarrow> p_data q = p_data p \<Longrightarrow> pool_sub (AList.update i q m) m"
  by (auto simp: pool_sub_def update_conv' split: if_splits)

lemma flush_page_preserves:
  assumes "flush_page i (err, pg) = (err', pg')"
  shows "preserves pg pg'"
  unfolding preserves_def
proof
  assume ok: "store_ok pg"
  then have co: "coherent pg" and pe: "pending_ok pg" by (simp_all add: store_ok_def)
  show "store_ok pg' \<and> keeps pg pg'"
  proof (cases "map_of (pending_writes pg) i")
    case None
    then show ?thesis using assms ok by (simp add: flush_page_def keeps_def)
  next
    case (Some dat)
    then have i: "i \<noteq> 0" and len: "length dat = PAGE_SIZE" and bi: "base_image pg i = Some dat"
      using pe by (auto simp: pending_ok_def base_image_def)
    obtain res pg1 where w: "write_file_page i dat pg = (res, pg1)" by fastforce
    note k = write_file_page_keeps [OF w len] and fo = file_only_fields [OF write_file_page_only [OF w]]
    have k1: "keeps pg pg1"
      unfolding keeps_def
    proof (intro allI impI)
      fix j d assume "j \<noteq> 0" "base_image pg j = Some d"
      then show "base_image pg1 j = Some d"
        using k(1) Some by (cases "j = i") (simp_all add: base_image_def fo split: option.splits)
    qed
    show ?thesis
    proof (cases res)
      case (Inl e)
      then have "pg' = pg1" using assms Some w by (simp add: flush_page_def)
      then show ?thesis using k1 keeps_coherent [OF co k1] pe fo by (simp add: store_ok_def pending_ok_def)
    next
      case (Inr u)
      define pg2 where "pg2 = pg1\<lparr>pending_writes := AList.delete i (pending_writes pg1)\<rparr>"
      have pg': "pg' = (case map_of (pool_map (pool pg2)) i of
            Some p \<Rightarrow> pg2\<lparr>pool := (pool pg2)\<lparr>pool_map := AList.update i (p\<lparr>p_data := dat\<rparr>) (pool_map (pool pg2))\<rparr>\<rparr>
          | None \<Rightarrow> pg2)"
        using assms Some w Inr fo(1) unfolding flush_page_def Let_def pg2_def by (auto split: option.splits)
      have "file_image pg2 = file_image pg1" by (simp add: pg2_def file_image_def fun_eq_iff)
      then have "keeps pg1 pg2"
        using k(2) Inr Some by (auto simp: keeps_def base_image_def pg2_def delete_conv' fo split: option.splits)
      then have k2: "keeps pg pg2" using k1 by (auto simp: keeps_def)
      then have c2: "coherent pg2" using keeps_coherent [OF co k2] by (simp add: pg2_def fo)
      have p2: "pending_ok pg2" using pe by (auto simp: pending_ok_def pg2_def fo delete_conv' split: if_splits)
      have "base_image pg2 i = Some dat" using k2 bi i by (simp add: keeps_def)
      then have "\<exists>st. pg' = pg2\<lparr>pool := st\<rparr> \<and> pool_sub (pool_map st) (pool_map (pool pg2))"
      proof (cases "map_of (pool_map (pool pg2)) i")
        case None
        then show ?thesis using pg' by (intro exI [of _ "pool pg2"]) simp
      next
        case (Some p)
        then have "p_data p = dat" using coherentD [OF c2, of i p] \<open>base_image pg2 i = Some dat\<close> by simp
        then show ?thesis
          using pg' Some pool_sub_update_data [OF Some, of "p\<lparr>p_data := dat\<rparr>"]
          by (intro exI [of _ "pool pg'"]) simp
      qed
      then obtain st where st: "pg' = pg2\<lparr>pool := st\<rparr>" "pool_sub (pool_map st) (pool_map (pool pg2))" by blast
      then show ?thesis
        using k2 p2 coherent_pool_sub [OF c2 st(2)] by (simp add: store_ok_def keeps_def pending_ok_def)
    qed
  qed
qed

lemma file_only_wal:
  "file_only pg pg' \<Longrightarrow> pg_wal pg' = pg_wal pg \<and> ckpt_soft pg' = ckpt_soft pg \<and> pg_synced pg' = pg_synced pg"
  by (cases pg; cases pg') (simp add: file_only_def)

lemma flush_page_wal:
  "flush_page i (err, pg) = (err', pg') \<Longrightarrow> pg_wal pg' = pg_wal pg \<and> ckpt_soft pg' = ckpt_soft pg \<and> pg_synced pg' = pg_synced pg"
  by (auto simp: flush_page_def Let_def split: option.splits prod.splits sum.splits if_splits
      dest!: write_file_page_only file_only_wal)

lemma flush_fold_wal:
  "fold flush_page is (err, pg) = (err', pg') \<Longrightarrow> pg_wal pg' = pg_wal pg \<and> ckpt_soft pg' = ckpt_soft pg \<and> pg_synced pg' = pg_synced pg"
proof (induction "is" arbitrary: err pg)
  case (Cons i "is")
  obtain e1 pg1 where f: "flush_page i (err, pg) = (e1, pg1)" by fastforce
  then show ?case using Cons flush_page_wal [OF f] by simp
qed simp

lemma flush_pending_wal: "flush_pending pg = (res, pg') \<Longrightarrow> pg_wal pg' = pg_wal pg \<and> ckpt_soft pg' = ckpt_soft pg \<and> pg_synced pg' = pg_synced pg"
  by (auto simp: flush_pending_def split: prod.splits option.splits if_splits dest: flush_fold_wal)

lemma flush_fold_preserves: "fold flush_page is (err, pg) = (err', pg') \<Longrightarrow> preserves pg pg'"
proof (induction "is" arbitrary: err pg)
  case (Cons i "is")
  obtain e1 pg1 where f: "flush_page i (err, pg) = (e1, pg1)" by fastforce
  then have "preserves pg1 pg'" using Cons by simp
  then show ?case using flush_page_preserves [OF f] preserves_trans by blast
qed simp

lemma flush_pending_preserves: "flush_pending pg = (res, pg') \<Longrightarrow> preserves pg pg'"
  by (auto simp: flush_pending_def split: prod.splits option.splits if_splits dest: flush_fold_preserves)

lemma with_wal_preserves: "with_wal f pg = (res, pg') \<Longrightarrow> preserves pg pg'"
  by (auto simp: with_wal_def split: prod.splits)

lemma truncate_preserves: "truncate_wal_locked b pg = (res, pg') \<Longrightarrow> preserves pg pg'"
  by (auto simp: truncate_wal_locked_def split: if_splits prod.splits sum.splits dest!: with_wal_preserves)

lemma free_truncate_preserves: "free_truncate_if_covered len pg = (res, pg') \<Longrightarrow> preserves pg pg'"
  by (auto simp: free_truncate_if_covered_def Let_def split: if_splits prod.splits sum.splits bool.splits
      dest!: truncate_preserves)

lemma try_free_truncate_preserves: "try_free_truncate pg = (res, pg') \<Longrightarrow> preserves pg pg'"
  by (auto simp: try_free_truncate_def Let_def obind_def split: if_splits prod.splits sum.splits
      dest!: free_truncate_preserves)

lemma file_sync_preserves: "file_sync pg = (res, pg') \<Longrightarrow> preserves pg pg'"
  by (auto simp: file_sync_def split: prod.splits io.splits dest!: next_pg_io_frame)

lemma ckpt_finish_preserves: "preserves pg (ckpt_finish pg)"
  by (auto simp: ckpt_finish_def split: option.splits prod.splits sum.splits dest!: file_sync_preserves)

lemma ckpt_pick_preserves: "preserves pg (ckpt_pick pg)"
  by (simp add: ckpt_pick_def Let_def)

lemma ckpt_wait_preserves: "preserves pg (ckpt_wait pg)"
  unfolding ckpt_wait_def
  by (rule preserves_trans [OF ckpt_finish_preserves preserves_trans [OF ckpt_pick_preserves ckpt_finish_preserves]])

lemma hard_limit_wait_preserves: "hard_limit_wait len pg = (res, pg') \<Longrightarrow> preserves pg pg'"
proof -
  assume h: "hard_limit_wait len pg = (res, pg')"
  define pg1 where "pg1 = (if requested (ckpt pg) \<or> completed (ckpt pg) \<noteq> started (ckpt pg) then ckpt_wait pg else pg)"
  have "preserves pg pg1" by (simp add: pg1_def ckpt_wait_preserves)
  moreover have "pg' = pg1 \<or> pg' = ckpt_wait (ckpt_request len pg1)"
    using h by (auto simp: hard_limit_wait_def Let_def pg1_def split: if_splits)
  moreover have "preserves pg1 (ckpt_wait (ckpt_request len pg1))"
    by (rule preserves_trans [OF _ ckpt_wait_preserves]) (simp add: ckpt_request_def)
  ultimately show ?thesis using preserves_trans by blast
qed

lemma obind_preserves:
  assumes "obind m f pg = (res, pg')" and "\<And>r p. m pg = (r, p) \<Longrightarrow> preserves pg p"
    and "\<And>x p r p'. f x p = (r, p') \<Longrightarrow> preserves p p'"
  shows "preserves pg pg'"
  using assms by (auto simp: obind_def split: prod.splits sum.splits intro: preserves_trans)

lemma hard_checkpoint_preserves: "hard_checkpoint len p = (r, p') \<Longrightarrow> preserves p p'"
  unfolding hard_checkpoint_def
  by (erule obind_preserves, erule hard_limit_wait_preserves, erule obind_preserves, erule truncate_preserves) auto

lemma checkpoint_uncovered_preserves: "checkpoint_uncovered len p = (r, p') \<Longrightarrow> preserves p p'"
  by (auto simp: checkpoint_uncovered_def Let_def ckpt_request_def split: if_splits dest!: hard_checkpoint_preserves)

lemma maybe_checkpoint_preserves: "maybe_checkpoint pg = (res, pg') \<Longrightarrow> preserves pg pg'"
  unfolding maybe_checkpoint_def Let_def
  by (auto split: if_splits elim!: obind_preserves dest!: free_truncate_preserves checkpoint_uncovered_preserves)

section \<open>Commit\<close>

definition staged_ok :: "(page_id \<times> bytes) list \<Rightarrow> bool" where
  "staged_ok es \<longleftrightarrow> distinct (map fst es) \<and> (\<forall>(i, d) \<in> set es. i \<noteq> 0 \<and> length d = PAGE_SIZE)"

lemma staged_ok_Cons: "staged_ok ((i, d) # es) \<longleftrightarrow> i \<notin> fst ` set es \<and> i \<noteq> 0 \<and> length d = PAGE_SIZE \<and> staged_ok es"
  by (auto simp: staged_ok_def)

lemma staged_okD: "staged_ok es \<Longrightarrow> map_of es i = Some d \<Longrightarrow> i \<noteq> 0 \<and> length d = PAGE_SIZE"
  by (auto simp: staged_ok_def dest: map_of_SomeD)

lemma apply_image_base: "base_image (apply_image l (i, dat) pg) = (base_image pg)(i \<mapsto> dat)"
  by (auto simp: apply_image_def Let_def fun_eq_iff base_image_def file_image_def update_conv' split: option.splits)

lemma apply_image_pool:
  "map_of (pool_map (pool (apply_image l (i, dat) pg))) j = Some p \<Longrightarrow>
     \<exists>q. map_of (pool_map (pool pg)) j = Some q \<and> p_data p = (if j = i then dat else p_data q)"
  by (auto simp: apply_image_def Let_def update_conv' split: option.splits if_splits)

lemma apply_image_ok:
  assumes "store_ok pg" and "i \<noteq> 0" and "length dat = PAGE_SIZE"
  shows "store_ok (apply_image l (i, dat) pg)"
proof -
  have "coherent (apply_image l (i, dat) pg)"
    using assms(1,2) unfolding coherent_def apply_image_base store_ok_def
    by (auto dest!: apply_image_pool)
  moreover have "pending_writes (apply_image l (i, dat) pg) = AList.update i dat (pending_writes pg)"
    by (simp add: apply_image_def Let_def split: option.splits)
  ultimately show ?thesis using assms by (auto simp: store_ok_def pending_ok_def update_conv' split: if_splits)
qed

lemma fold_apply_image:
  "staged_ok es \<Longrightarrow> store_ok pg \<Longrightarrow>
     store_ok (fold (apply_image l) es pg) \<and> base_image (fold (apply_image l) es pg) = base_image pg ++ map_of es"
proof (induction es arbitrary: pg)
  case (Cons e es)
  obtain i d where e: "e = (i, d)" by fastforce
  then have so: "i \<notin> fst ` set es" "i \<noteq> 0" "length d = PAGE_SIZE" "staged_ok es"
    using Cons.prems(1) by (simp_all add: staged_ok_Cons)
  have "map_of es i = None" using so(1) by (simp add: map_of_eq_None_iff)
  then have "(base_image pg)(i \<mapsto> d) ++ map_of es = base_image pg ++ map_of (e # es)"
    by (auto simp: e fun_eq_iff map_add_def split: option.splits)
  then show ?case
    using Cons.IH [OF so(4) apply_image_ok [OF Cons.prems(2) so(2,3), of l], unfolded apply_image_base]
    unfolding e fold.simps comp_apply by metis
qed simp

lemma push_all_preserves [simp]: "preserves a (push_all is pg) = preserves a pg"
  by (simp add: push_all_def)

lemma stash_preserves [simp]: "preserves a (stash_snapshots es pg) = preserves a pg"
  by (simp add: stash_snapshots_def Let_def)

lemma ignore_err_preserves:
  "preserves pg (ignore_err maybe_checkpoint (ignore_err flush_pending pg))"
  unfolding ignore_err_def
  by (rule preserves_trans [OF flush_pending_preserves maybe_checkpoint_preserves]) (rule prod.collapse [symmetric])+

lemma store_ok_preserves: "preserves pg pg' \<Longrightarrow> store_ok pg \<Longrightarrow> store_ok pg' \<and> keeps pg pg'"
  by (simp add: preserves_def)

lemma commit_error_preserves: "commit_tx_inner t fs pg = (Inl e, pg') \<Longrightarrow> preserves pg pg'"
  by (auto simp: commit_tx_inner_def Let_def drop_tx_def split: if_splits prod.splits sum.splits
      dest!: try_free_truncate_preserves with_wal_preserves intro: preserves_trans)

lemma commit_publishes:
  assumes "store_ok pg" and "staged_ok (staged t)" and "staged t \<noteq> []" and "commit_tx_inner t fs pg = (Inr l, pg')"
  shows "store_ok pg' \<and> (\<forall>i d. map_of (staged t) i = Some d \<longrightarrow> base_image pg' i = Some d) \<and>
    (\<forall>i d. i \<noteq> 0 \<longrightarrow> map_of (staged t) i = None \<longrightarrow> base_image pg i = Some d \<longrightarrow> base_image pg' i = Some d)"
proof -
  obtain r1 pg1 where t: "try_free_truncate pg = (r1, pg1)" by fastforce
  obtain r2 pg2 where w: "with_wal (log_tx (tx_id t) (staged t) fs) pg1 = (r2, pg2)" by fastforce
  obtain u l' where r: "r1 = Inr u" "r2 = Inr l'"
    using assms(3,4) t w by (auto simp: commit_tx_inner_def split: sum.splits)
  define pg3 where "pg3 = fold (apply_image l) (staged t) (stash_snapshots (staged t) pg2)"
  have l: "l' = l" and pg': "pg' = (if fs then ignore_err maybe_checkpoint (ignore_err flush_pending (release_pages (to_free t) pg3))
      else release_pages (to_free t) pg3)"
    using assms(3,4) t w r by (auto simp: commit_tx_inner_def Let_def pg3_def)
  have "preserves pg (stash_snapshots (staged t) pg2)"
    using preserves_trans [OF try_free_truncate_preserves [OF t] with_wal_preserves [OF w]] by simp
  then have s: "store_ok (stash_snapshots (staged t) pg2)" "keeps pg (stash_snapshots (staged t) pg2)"
    using store_ok_preserves assms(1) by blast+
  have k3: "store_ok pg3" "base_image pg3 = base_image (stash_snapshots (staged t) pg2) ++ map_of (staged t)"
    using fold_apply_image [OF assms(2) s(1), of l] by (simp_all add: pg3_def)
  have "preserves pg3 pg'"
    using pg' preserves_trans [OF _ ignore_err_preserves [of "release_pages (to_free t) pg3"], of pg3]
    by (simp add: release_pages_def)
  then have k: "store_ok pg'" "keeps pg3 pg'" using store_ok_preserves k3(1) by blast+
  show ?thesis
    using k s(2) k3(2) staged_okD [OF assms(2)] by (auto simp: keeps_def map_add_Some_iff)
qed

section \<open>Allocation\<close>

lemma pop_loop_Some: "pop_loop xs s = (Some i, rest, s') \<Longrightarrow> i \<in> s \<and> s' = s - {i} \<and> s \<inter> set xs \<subseteq> insert i (set rest)"
  by (induction xs) (auto split: if_splits)

lemma pop_loop_None: "pop_loop xs s = (None, rest, s') \<Longrightarrow> s \<inter> set xs = {} \<and> rest = [] \<and> s' = s"
  by (induction xs) (auto split: if_splits)

definition reusable_ok :: "reusable_pages \<Rightarrow> bool" where
  "reusable_ok r \<longleftrightarrow> r_set r \<subseteq> set (r_order r)"

lemma reusable_pop_Some:
  assumes "reusable_pop r = (Some i, r')" and "reusable_ok r"
  shows "i \<in> r_set r" and "r_set r' = r_set r - {i}" and "reusable_ok r'"
  using assms pop_loop_Some [of "rev (r_order r)" "r_set r"]
  by (auto simp: reusable_pop_def reusable_ok_def split: prod.splits) blast

lemma reusable_pop_None:
  assumes "reusable_pop r = (None, r')" and "reusable_ok r"
  shows "r_set r = {}" and "r_set r' = {}" and "reusable_ok r'"
  using assms pop_loop_None [of "rev (r_order r)" "r_set r"]
  by (auto simp: reusable_pop_def reusable_ok_def split: prod.splits) blast+

lemma reusable_push_ok: "reusable_ok r \<Longrightarrow> reusable_ok (reusable_push i r) \<and> r_set (reusable_push i r) = insert i (r_set r)"
  by (auto simp: reusable_push_def reusable_ok_def)

lemma fold_push_ok:
  "reusable_ok r \<Longrightarrow> reusable_ok (fold reusable_push is r) \<and> r_set (fold reusable_push is r) = r_set r \<union> set is"
  by (induction "is" arbitrary: r) (auto simp: reusable_push_ok)

text \<open>The reusable pages are allocated ids other than the header, and the page counter is never 0.\<close>

definition alloc_ok :: "pager \<Rightarrow> bool" where
  "alloc_ok pg \<longleftrightarrow>
     reusable_ok (reusable pg) \<and> num_pages pg \<noteq> 0 \<and> (\<forall>i \<in> r_set (reusable pg). i \<noteq> 0 \<and> i < num_pages pg)"

lemma record_alloc_frame:
  "record_alloc i pg = (res, pg') \<Longrightarrow> pg' = pg\<lparr>undo := undo pg'\<rparr>"
  by (auto simp: record_alloc_def Let_def split: if_splits sum.splits)

lemma allocate_page_cases:
  assumes "allocate_page (pg, t) = (Inr i, (pg', t'))" and "alloc_ok pg"
  shows "alloc_ok pg' \<and> i \<noteq> 0 \<and> i < num_pages pg' \<and> i \<notin> r_set (reusable pg') \<and>
    (i \<in> r_set (reusable pg) \<or> r_set (reusable pg) = {} \<and> i = num_pages pg) \<and>
    i \<in> set (reused t') \<and> map_of (staged t') i = Some (case map_of (staged t) i of Some d \<Rightarrow> d | None \<Rightarrow> zero_page)"
proof -
  obtain got r where po: "reusable_pop (reusable pg) = (got, r)" by fastforce
  define pg1 where "pg1 = (if got = None then pg\<lparr>reusable := r, num_pages := num_pages pg + 1\<rparr> else pg\<lparr>reusable := r\<rparr>)"
  define j where "j = (case got of Some i \<Rightarrow> i | None \<Rightarrow> num_pages pg)"
  have j: "got = None \<Longrightarrow> j \<noteq> 0 \<and> j \<noteq> - 1" and ra: "record_alloc j pg1 = (Inr (), pg')" and i: "i = j"
    and t': "t' = (if map_of (staged t) j = None then t\<lparr>reused := reused t @ [j], staged := AList.update j zero_page (staged t)\<rparr>
      else t\<lparr>reused := reused t @ [j]\<rparr>)"
    using assms(1) po by (auto simp: allocate_page_def Let_def j_def pg1_def split: if_splits prod.splits sum.splits)
  have pg': "reusable pg' = reusable pg1" "num_pages pg' = num_pages pg1"
    using record_alloc_frame [OF ra] by (cases pg1; cases pg'; simp)+
  have st: "i \<in> set (reused t')" "map_of (staged t') i = Some (case map_of (staged t) i of Some d \<Rightarrow> d | None \<Rightarrow> zero_page)"
    using t' i by (auto simp: update_conv')
  show ?thesis
  proof (cases got)
    case None
    have lt: "num_pages pg < num_pages pg + 1"
      using j [OF None] None by (simp add: j_def word_less_inc)
    show ?thesis
      using reusable_pop_None [of "reusable pg" r] po None assms(2) i pg' st j [OF None] lt
      by (auto simp: alloc_ok_def pg1_def j_def)
  next
    case (Some k)
    then show ?thesis
      using reusable_pop_Some [of "reusable pg" k r] po assms(2) i pg' st
      by (auto simp: alloc_ok_def pg1_def j_def)
  qed
qed

end
