(* ===== verification/Recovery_Props.thy ===== *)
theory Recovery_Props
  imports Pager_Props
begin

text \<open>
  Crash recovery. The scan of the log decides which transactions are committed: a direct
  characterisation by the records present shows that deferred commits count exactly when a later
  fence covers them and no later abort voids them. The replay leaves the last committed image of
  every logged page in the data file and touches no other page.
\<close>

section \<open>Which transactions are committed\<close>

definition aborts :: "u64 \<Rightarrow> log_record list \<Rightarrow> bool" where
  "aborts t rs \<longleftrightarrow> (\<exists>a \<in> set rs. kind a = KIND_ABORT \<and> txid a = t)"

definition fences :: "log_record list \<Rightarrow> bool" where
  "fences rs \<longleftrightarrow> (\<exists>f \<in> set rs. kind f = KIND_FENCE)"

text \<open>\<open>t\<close> is committed by the log: it has a commit record, or a deferred commit with a fence and no
  abort after it.\<close>

fun deferred_durable :: "log_record list \<Rightarrow> u64 \<Rightarrow> bool" where
  "deferred_durable [] t = False"
| "deferred_durable (r # rs) t =
     (kind r = KIND_COMMIT_DEFERRED \<and> txid r = t \<and> fences rs \<and> \<not> aborts t rs \<or> deferred_durable rs t)"

definition committed :: "log_record list \<Rightarrow> u64 \<Rightarrow> bool" where
  "committed rs t \<longleftrightarrow> (\<exists>r \<in> set rs. kind r = KIND_COMMIT \<and> txid r = t) \<or> deferred_durable rs t"

lemma aborts_simps [simp]:
  "\<not> aborts t []" "aborts t (r # rs) \<longleftrightarrow> kind r = KIND_ABORT \<and> txid r = t \<or> aborts t rs"
  "aborts t (rs @ ss) \<longleftrightarrow> aborts t rs \<or> aborts t ss"
  by (auto simp: aborts_def)

lemma fences_simps [simp]:
  "\<not> fences []" "fences (r # rs) \<longleftrightarrow> kind r = KIND_FENCE \<or> fences rs"
  "fences (rs @ ss) \<longleftrightarrow> fences rs \<or> fences ss"
  by (auto simp: fences_def)

text \<open>What the records \<open>rs\<close> make of the status of an entry of transaction \<open>t\<close>.\<close>

definition advance :: "log_record list \<Rightarrow> u64 \<Rightarrow> nat \<Rightarrow> nat" where
  "advance rs t s = (if aborts t rs then 2 else if s = 0 \<and> fences rs then 1 else s)"

fun deferred_entries :: "log_record list \<Rightarrow> deferred_set" where
  "deferred_entries [] = []"
| "deferred_entries (r # rs) =
     (if kind r = KIND_COMMIT_DEFERRED then [(lsn r, txid r, advance rs (txid r) 0)] else []) @ deferred_entries rs"

definition increasing :: "log_record list \<Rightarrow> bool" where
  "increasing rs \<longleftrightarrow> sorted_wrt (\<lambda>a b. lsn a < lsn b) rs"

definition scan_deferred :: "log_record \<Rightarrow> deferred_set \<Rightarrow> deferred_set" where
  "scan_deferred r ds =
     (if kind r = KIND_COMMIT_DEFERRED then deferred_push (lsn r) (txid r) ds
      else if kind r = KIND_FENCE then deferred_fence (lsn r) ds
      else if kind r = KIND_ABORT then deferred_abort (txid r) (lsn r) ds
      else ds)"

lemma recover_scan_simp:
  "recover_scan (com, ds, mx, n) r =
     (if kind r = KIND_COMMIT then insert (txid r) com else com, scan_deferred r ds, max mx (txid r), n + 1)"
  by (auto simp: recover_scan_def scan_deferred_def Let_def kind_defs)

lemma scan_deferred_old:
  assumes "\<And>l t s. (l, t, s) \<in> set ds \<Longrightarrow> l < lsn r"
  shows "scan_deferred r ds = map (\<lambda>(l, t, s). (l, t, advance [r] t s)) ds @
    (if kind r = KIND_COMMIT_DEFERRED then [(lsn r, txid r, 0)] else [])"
  using assms
  by (auto simp: scan_deferred_def deferred_push_def deferred_fence_def deferred_abort_def advance_def kind_defs
      intro!: map_idI map_cong)

lemma advance_Cons: "advance rs t (advance [r] t s) = advance (r # rs) t s"
  by (auto simp: advance_def)

lemma scan_deferred_fold:
  assumes "increasing rs" and "\<And>l t s r. (l, t, s) \<in> set ds \<Longrightarrow> r \<in> set rs \<Longrightarrow> l < lsn r"
  shows "fold scan_deferred rs ds = map (\<lambda>(l, t, s). (l, t, advance rs t s)) ds @ deferred_entries rs"
  using assms
proof (induction rs arbitrary: ds)
  case Nil
  then show ?case by (auto simp: advance_def intro!: map_idI [symmetric])
next
  case (Cons r rs)
  let ?ds = "scan_deferred r ds"
  have "?ds = map (\<lambda>(l, t, s). (l, t, advance [r] t s)) ds @
      (if kind r = KIND_COMMIT_DEFERRED then [(lsn r, txid r, 0)] else [])"
    by (rule scan_deferred_old) (use Cons.prems(2) in auto)
  moreover have "fold scan_deferred rs ?ds = map (\<lambda>(l, t, s). (l, t, advance rs t s)) ?ds @ deferred_entries rs"
    by (rule Cons.IH) (use Cons.prems calculation in \<open>fastforce simp: increasing_def split: if_splits\<close>)+
  ultimately show ?case by (auto simp: advance_Cons)
qed

lemma recover_fold:
  "foldl recover_scan (com, ds, mx, n) rs =
     (com \<union> {t. \<exists>r \<in> set rs. kind r = KIND_COMMIT \<and> txid r = t}, fold scan_deferred rs ds,
      foldl (\<lambda>m r. max m (txid r)) mx rs, n + length rs)"
  by (induction rs arbitrary: com ds mx n) (auto simp: recover_scan_simp)

lemma durable_entries: "t \<in> set (durable_txids (deferred_entries rs)) \<longleftrightarrow> deferred_durable rs t"
  by (induction rs) (auto simp: durable_txids_def advance_def)

lemma recover_pass1_committed:
  assumes "increasing rs"
  shows "recover_pass1 rs = ({t. committed rs t}, foldl (\<lambda>m r. max m (txid r)) 0 rs, length rs)"
proof -
  have "fold scan_deferred rs [] = deferred_entries rs"
    using scan_deferred_fold [OF assms, of "[]"] by simp
  then show ?thesis
    using durable_entries by (auto simp: recover_pass1_def recover_fold committed_def)
qed

text \<open>Consecutive LSNs that do not run past \<open>u64::MAX\<close> are increasing.\<close>

definition no_wrap :: "log_record list \<Rightarrow> bool" where
  "no_wrap rs \<longleftrightarrow> rs = [] \<or> unat (lsn (hd rs)) + length rs \<le> 2 ^ 64"

lemma consecutive_lsn:
  "consecutive rs \<Longrightarrow> no_wrap rs \<Longrightarrow> k < length rs \<Longrightarrow> unat (lsn (rs ! k)) = unat (lsn (hd rs)) + k"
proof (induction rs arbitrary: k rule: consecutive.induct)
  case (3 r s rs)
  show ?case
  proof (cases k)
    case (Suc m)
    have "unat (lsn r) + 1 < 2 ^ 64" using 3 by (simp add: no_wrap_def)
    then have "unat (lsn s) = unat (lsn r) + 1" using 3 by (simp add: unat_word_ariths)
    then show ?thesis using 3 Suc by (simp add: no_wrap_def)
  qed simp
qed (auto simp: no_wrap_def)

lemma consecutive_increasing: "consecutive rs \<Longrightarrow> no_wrap rs \<Longrightarrow> increasing rs"
  unfolding increasing_def sorted_wrt_iff_nth_less
  by (simp add: consecutive_lsn word_less_nat_alt)

section \<open>The replay\<close>

definition replay_image :: "u64 set \<Rightarrow> log_record \<Rightarrow> (page_id \<times> bytes) option" where
  "replay_image com r = (if kind r = KIND_WRITE \<and> txid r \<in> com then decode_page_image (payload r) else None)"

text \<open>The last image each page has among the write records of committed transactions.\<close>

definition last_images :: "u64 set \<Rightarrow> log_record list \<Rightarrow> page_id \<Rightarrow> bytes option" where
  "last_images com rs = map_of (rev (List.map_filter (replay_image com) rs))"

lemma last_images_Nil [simp]: "last_images com [] = Map.empty"
  by (simp add: last_images_def)

lemma last_images_Cons:
  "last_images com (r # rs) =
     (case replay_image com r of Some (i, img) \<Rightarrow> [i \<mapsto> img] ++ last_images com rs | None \<Rightarrow> last_images com rs)"
  by (auto simp: last_images_def List.map_filter_simps split: option.splits)

lemma decode_page_image_length: "decode_page_image pl = Some (i, img) \<Longrightarrow> length img = PAGE_SIZE"
  by (auto simp: decode_page_image_def split: if_splits)

lemma decode_page_payload: "length d = PAGE_SIZE \<Longrightarrow> decode_page_image (page_payload (i, d)) = Some (i, d)"
  by (simp add: decode_page_image_def page_payload_def sub_bytes_def)

lemma recover_pass2_images:
  assumes "recover_pass2 com c n rs ap pg = (Inr b, pg')"
  shows "file_only pg pg' \<and> (\<forall>i img. last_images com rs i = Some img \<longrightarrow> file_image pg' i = Some img) \<and>
    (\<forall>i d. i \<noteq> 0 \<longrightarrow> last_images com rs i = None \<longrightarrow> file_image pg i = Some d \<longrightarrow> file_image pg' i = Some d)"
  using assms
proof (induction rs arbitrary: ap pg)
  case Nil
  then show ?case by (auto simp: file_only_def)
next
  case (Cons r rs)
  show ?case
  proof (cases "replay_image com r")
    case None
    then have "recover_pass2 com c n rs ap pg = (Inr b, pg')"
      using Cons.prems by (auto simp: replay_image_def split: if_splits)
    then show ?thesis using Cons.IH None by (simp add: last_images_Cons)
  next
    case (Some e)
    obtain i img where e: "e = (i, img)" by fastforce
    then have r: "kind r = KIND_WRITE" "txid r \<in> com" and d: "decode_page_image (payload r) = Some (i, img)"
      using Some by (auto simp: replay_image_def split: if_splits)
    obtain pg1 where w: "write_file_page i img pg = (Inr (), pg1)" and re: "recover_pass2 com c n rs True pg1 = (Inr b, pg')"
      and i: "i \<noteq> 0"
      using Cons.prems r d by (auto split: if_splits elim!: obind_InrE)
    note k = write_file_page_keeps [OF w decode_page_image_length [OF d]]
    note IH = Cons.IH [OF re]
    have "file_only pg pg'" using write_file_page_only [OF w] IH file_only_trans by blast
    moreover have "file_image pg' j = Some d'" if "last_images com (r # rs) j = Some d'" for j d'
      using that IH k(2) i Some e by (cases "last_images com rs j") (auto simp: last_images_Cons map_add_def split: if_splits)
    moreover have "file_image pg' j = Some d'"
      if "j \<noteq> 0" "last_images com (r # rs) j = None" "file_image pg j = Some d'" for j d'
      using that IH k(1) Some e by (auto simp: last_images_Cons map_add_def split: if_splits option.splits)
    ultimately show ?thesis by blast
  qed
qed

lemma persist_sync_keeps:
  assumes "(if b then obind persist_header (\<lambda>_. file_sync) else oret ()) pg = (Inr u, pg')"
  shows "pool pg' = pool pg \<and> pending_writes pg' = pending_writes pg \<and> pg_wal pg' = pg_wal pg \<and>
    (\<forall>j d. j \<noteq> 0 \<longrightarrow> file_image pg j = Some d \<longrightarrow> file_image pg' j = Some d)"
proof (cases b)
  case True
  then obtain pg1 where h: "persist_header pg = (Inr (), pg1)" and s: "file_sync pg1 = (Inr u, pg')"
    using assms by (auto elim!: obind_InrE)
  have "file_only pg pg1" by (rule persist_header_keeps(1) [OF h])
  then have "pool pg1 = pool pg" "pending_writes pg1 = pending_writes pg" "pg_wal pg1 = pg_wal pg"
    by (cases pg; cases pg1; simp add: file_only_def)+
  moreover have "pg' = pg1\<lparr>pg_disk := pg_disk pg', pg_synced := pg_synced pg'\<rparr>"
    using s by (auto simp: file_sync_def split: prod.splits io.splits dest!: next_pg_io_frame)
  ultimately show ?thesis
    using persist_header_keeps(2) [OF h] by (cases pg1; cases pg') (simp add: file_image_def)
next
  case False
  then show ?thesis using assms by simp
qed

lemma truncate_wal_keeps:
  "truncate_wal_locked b pg = (res, pg') \<Longrightarrow>
     pool pg' = pool pg \<and> pending_writes pg' = pending_writes pg \<and> pg_file pg' = pg_file pg"
  by (auto simp: truncate_wal_locked_def with_wal_def split: if_splits prod.splits sum.splits)

lemma recover_images:
  assumes "recover pg = (Inr u, pg')" and "frames (w_file (pg_wal pg)) = (recs, p, None)"
  shows "pool pg' = pool pg \<and> pending_writes pg' = pending_writes pg \<and>
    (\<forall>i img. i \<noteq> 0 \<longrightarrow> last_images (fst (recover_pass1 recs)) recs i = Some img \<longrightarrow> file_image pg' i = Some img) \<and>
    (\<forall>i d. i \<noteq> 0 \<longrightarrow> last_images (fst (recover_pass1 recs)) recs i = None \<longrightarrow> file_image pg i = Some d \<longrightarrow> file_image pg' i = Some d)"
proof -
  obtain com mx n where c: "recover_pass1 recs = (com, mx, n)" by (metis prod_cases3)
  define pg0 where "pg0 = pg\<lparr>next_txid := max (next_txid pg) (mx + 1)\<rparr>"
  have f0: "file_image pg0 = file_image pg" by (simp add: pg0_def fun_eq_iff file_image_def)
  obtain ap pg1 pg2 b where p2: "recover_pass2 com (unat (num_pages pg0) + n) n recs False pg0 = (Inr ap, pg1)"
    and ps: "(if ap then obind persist_header (\<lambda>_. file_sync) else oret ()) pg1 = (Inr (), pg2)"
    and tr: "truncate_wal_locked False pg2 = (Inr b, pg')"
    using assms c by (auto simp: recover_def Let_def pg0_def elim!: obind_InrE)
  note r = recover_pass2_images [OF p2] and s = persist_sync_keeps [OF ps] and t = truncate_wal_keeps [OF tr]
  have "pool pg1 = pool pg" "pending_writes pg1 = pending_writes pg"
    using file_only_fields [of pg0 pg1] r by (simp_all add: pg0_def)
  moreover have "file_image pg' = file_image pg2" using t by (simp add: fun_eq_iff file_image_def)
  ultimately show ?thesis using r s t f0 c by simp
qed

section \<open>Reopening the truncated log\<close>

lemma read_frame_take:
  assumes "read_frame file e pos = Inr (Some (r, adv))" and "pos + adv \<le> m"
  shows "read_frame (take m file) e pos = Inr (Some (r, adv))"
proof -
  let ?rest = "drop pos file"
  define len where "len = unat (from_le_bytes (sub_bytes ?rest 17 4) :: u32)"
  have l: "21 \<le> length ?rest" "len \<le> MAX_FRAME_PAYLOAD" "21 + len + 4 \<le> length ?rest"
    and pf: "parse_frame (take (21 + len + 4) ?rest) e = Inr (Some (r, adv))"
    using assms(1) unfolding read_frame_def Let_def len_def
    by (auto simp del: take_drop split: if_splits sum.splits option.splits)
  have adv: "adv = 21 + len + 4"
  proof -
    have "sub_bytes (take (21 + len + 4) ?rest) 17 4 = sub_bytes ?rest 17 4"
      by (simp add: sub_bytes_def drop_take min_def)
    then show ?thesis
      using pf unfolding parse_frame_def Let_def len_def by (auto split: if_splits option.splits)
  qed
  have rest: "drop pos (take m file) = take (m - pos) ?rest" by (simp add: drop_take)
  have s: "sub_bytes (take (m - pos) ?rest) 17 4 = sub_bytes ?rest 17 4"
    using adv assms(2) by (simp add: sub_bytes_def drop_take min_def)
  have t: "take (21 + len + 4) (take (m - pos) ?rest) = take (21 + len + 4) ?rest"
    using adv assms(2) by (simp add: min_def)
  show ?thesis
    unfolding read_frame_def Let_def rest s len_def [symmetric] t
    using l pf adv assms(2) by auto
qed

lemma scan_frames_end: "scan_frames file e pos = (rs, p, err) \<Longrightarrow> pos \<le> p"
proof (induction "file" e pos arbitrary: rs p rule: scan_frames.induct)
  case (1 f e pos)
  then show ?case
    by (fastforce simp: scan_frames.simps [of f e pos] split: sum.splits option.splits prod.splits)
qed

lemma scan_frames_take:
  "scan_frames file e pos = (rs, p, None) \<Longrightarrow> scan_frames (take p file) e pos = (rs, p, None)"
proof (induction "file" e pos arbitrary: rs p rule: scan_frames.induct)
  case (1 f e pos)
  show ?case
  proof (cases "read_frame f e pos")
    case (Inl err)
    then show ?thesis using 1(2) by (simp add: scan_frames.simps [of f e pos])
  next
    case (Inr x)
    show ?thesis
    proof (cases x)
      case None
      then have "rs = [] \<and> p = pos" using 1(2) Inr by (simp add: scan_frames.simps [of f e pos])
      then show ?thesis by (simp add: scan_frames.simps [of _ e pos] read_frame_def)
    next
      case (Some y)
      obtain r adv where y: "y = (r, adv)" by fastforce
      obtain rs' where rs: "rs = r # rs'" and sc: "scan_frames f (Some (lsn r + 1)) (pos + adv) = (rs', p, None)"
        using 1(2) Inr Some y by (auto simp: scan_frames.simps [of f e pos] split: prod.splits)
      have "scan_frames (take p f) (Some (lsn r + 1)) (pos + adv) = (rs', p, None)"
        using 1(1) Inr Some y sc by blast
      moreover have "pos + adv \<le> p" using scan_frames_end [OF sc] by simp
      ultimately show ?thesis
        using rs read_frame_take [of f e pos r adv p] Inr Some y by (simp add: scan_frames.simps [of "take p f" e pos])
    qed
  qed
qed

lemma scan_frames_bound: "scan_frames file e pos = (rs, p, err) \<Longrightarrow> pos \<le> length file \<Longrightarrow> p \<le> length file"
proof (induction "file" e pos arbitrary: rs p rule: scan_frames.induct)
  case (1 f e pos)
  show ?case
  proof (cases "read_frame f e pos")
    case (Inr x)
    show ?thesis
    proof (cases x)
      case (Some y)
      obtain r adv where y: "y = (r, adv)" by fastforce
      obtain rs' where sc: "scan_frames f (Some (lsn r + 1)) (pos + adv) = (rs', p, err)"
        using 1(2) Inr Some y by (auto simp: scan_frames.simps [of f e pos] split: prod.splits)
      then show ?thesis using 1(1) Inr Some y read_frame_Some(2) [of f e pos r adv] by blast
    qed (use 1 Inr in \<open>simp add: scan_frames.simps [of f e pos]\<close>)
  qed (use 1 in \<open>simp add: scan_frames.simps [of f e pos]\<close>)
qed

lemma wal_open_frames:
  assumes "wal_open (Some wc) script = Inr w" and "wc \<noteq> []" and "frames wc = (recs, p, e)"
  shows "frames (w_file w) = (recs, p, None)"
proof -
  have h: "length HEADER \<le> length wc" and e: "e = None" and w: "w_file w = set_len wc p"
    using assms by (auto simp: wal_open_def fresh_wal_def Let_def split: if_splits option.splits prod.splits)
  have "p \<le> length wc" using scan_frames_bound assms(3) h by (auto simp: frames_def)
  then have "w_file w = take p wc" using w by (simp add: set_len_le)
  then show ?thesis using scan_frames_take assms(3) e by (simp add: frames_def)
qed

lemma pager_open_images:
  assumes "pager_open content (Some wc) script ws = Inr pg" and "content \<noteq> []" and "wc \<noteq> []" and "frames wc = (recs, p, e)"
  shows "store_ok pg \<and>
    (\<forall>i img. i \<noteq> 0 \<longrightarrow> last_images (fst (recover_pass1 recs)) recs i = Some img \<longrightarrow> base_image pg i = Some img) \<and>
    (\<forall>i d. i \<noteq> 0 \<longrightarrow> last_images (fst (recover_pass1 recs)) recs i = None \<longrightarrow>
       get_range content (page_off i) PAGE_SIZE = Some d \<longrightarrow> base_image pg i = Some d)"
proof -
  obtain w where w: "wal_open (Some wc) ws = Inr w"
    and r: "recover (fresh_pager content w (from_le_bytes (sub_bytes content 12 4)) script) = (Inr (), pg)"
    using assms(1,2)
    by (auto simp: pager_open_def wal_lift_def result_simps split: if_splits prod.splits sum.splits)
  let ?pg0 = "fresh_pager content w (from_le_bytes (sub_bytes content 12 4)) script"
  have "frames (w_file (pg_wal ?pg0)) = (recs, p, None)"
    using wal_open_frames [OF w assms(3,4)] by (simp add: fresh_pager_def)
  from recover_images [OF r this]
  have i: "pool pg = pool ?pg0" "pending_writes pg = []"
    and f: "\<forall>i img. i \<noteq> 0 \<longrightarrow> last_images (fst (recover_pass1 recs)) recs i = Some img \<longrightarrow> file_image pg i = Some img"
      "\<forall>i d. i \<noteq> 0 \<longrightarrow> last_images (fst (recover_pass1 recs)) recs i = None \<longrightarrow> file_image ?pg0 i = Some d \<longrightarrow> file_image pg i = Some d"
    by (simp_all add: fresh_pager_def)
  have "base_image pg = file_image pg" using i(2) by (simp add: fun_eq_iff base_image_def)
  moreover have "store_ok pg" using i by (simp add: store_ok_def coherent_def pending_ok_def fresh_pager_def)
  moreover have "file_image ?pg0 i = get_range content (page_off i) PAGE_SIZE" for i
    by (simp add: file_image_def fresh_pager_def)
  ultimately show ?thesis using f by simp
qed

section \<open>Recovery succeeds\<close>

lemma next_pg_io_ok [simp]: "pg_disk pg = [] \<Longrightarrow> next_pg_io pg = (IoOk, pg)"
  by (simp add: next_pg_io_def)

lemma write_file_page_ok:
  assumes "pg_disk pg = []"
  obtains pg' where "write_file_page i d pg = (Inr (), pg')" and "pg_disk pg' = []" and "pg_wal pg' = pg_wal pg"
proof -
  have w: "file_write off x p = (Inr (), p\<lparr>pg_file := write_at (pg_file p) off x\<rparr>)" if "pg_disk p = []" for off x p
    using that by (simp add: file_write_def)
  define p where "p = (if num_pages pg \<le> i then pg\<lparr>num_pages := saturating_inc i\<rparr> else pg)"
  have p: "pg_disk p = []" "pg_wal p = pg_wal pg" using assms by (simp_all add: p_def)
  have "persist_header p = (Inr (), p\<lparr>pg_file := write_at (pg_file p) 0 (encode_header (num_pages p)), persisted_pages := num_pages p\<rparr>)"
    using w [OF p(1)] by (simp add: persist_header_def obind_def)
  then have "\<exists>pg'. write_file_page i d pg = (Inr (), pg') \<and> pg_disk pg' = [] \<and> pg_wal pg' = pg_wal pg"
    unfolding write_file_page_def Let_def p_def [symmetric] using p w by (simp add: obind_def)
  then show ?thesis using that by blast
qed

definition in_envelope :: "u64 set \<Rightarrow> nat \<Rightarrow> log_record list \<Rightarrow> bool" where
  "in_envelope com c rs \<longleftrightarrow>
     (\<forall>r \<in> set rs. case replay_image com r of Some (i, _) \<Rightarrow> i \<noteq> 0 \<and> unat i < c | None \<Rightarrow> True)"

lemma recover_pass2_ok:
  "pg_disk pg = [] \<Longrightarrow> in_envelope com c rs \<Longrightarrow>
     \<exists>b pg'. recover_pass2 com c n rs ap pg = (Inr b, pg') \<and> pg_disk pg' = [] \<and> pg_wal pg' = pg_wal pg"
proof (induction rs arbitrary: ap pg)
  case (Cons r rs)
  have env: "in_envelope com c rs" using Cons.prems(2) by (simp add: in_envelope_def)
  show ?case
  proof (cases "replay_image com r")
    case None
    then have "recover_pass2 com c n (r # rs) ap pg = recover_pass2 com c n rs ap pg"
      by (auto simp: replay_image_def split: if_splits)
    then show ?thesis using Cons.IH [OF Cons.prems(1) env] by simp
  next
    case (Some e)
    obtain i img where e: "e = (i, img)" by fastforce
    then have i: "i \<noteq> 0" "unat i < c" and d: "decode_page_image (payload r) = Some (i, img)" "kind r = KIND_WRITE" "txid r \<in> com"
      using Cons.prems(2) Some by (auto simp: in_envelope_def replay_image_def split: if_splits)
    obtain pg1 where w: "write_file_page i img pg = (Inr (), pg1)" "pg_disk pg1 = []" "pg_wal pg1 = pg_wal pg"
      using write_file_page_ok [OF Cons.prems(1)] .
    then show ?thesis using Cons.IH [OF w(2) env, of True] i d by (simp add: obind_def)
  qed
qed simp

text \<open>Outside the envelope recovery stops with an error, however far it got.\<close>

lemma recover_pass2_refuses:
  "pg_disk pg = [] \<Longrightarrow> \<not> in_envelope com c rs \<Longrightarrow> \<exists>e pg'. recover_pass2 com c n rs ap pg = (Inl e, pg')"
proof (induction rs arbitrary: ap pg)
  case Nil
  then show ?case by (simp add: in_envelope_def)
next
  case (Cons r rs)
  show ?case
  proof (cases "replay_image com r")
    case None
    then have "recover_pass2 com c n (r # rs) ap pg = recover_pass2 com c n rs ap pg" "\<not> in_envelope com c rs"
      using Cons.prems(2) by (auto simp: replay_image_def in_envelope_def split: if_splits)
    then show ?thesis using Cons.IH [OF Cons.prems(1)] by simp
  next
    case (Some e)
    obtain i img where e: "e = (i, img)" by fastforce
    then have d: "decode_page_image (payload r) = Some (i, img)" "kind r = KIND_WRITE" "txid r \<in> com"
      using Some by (auto simp: replay_image_def split: if_splits)
    show ?thesis
    proof (cases "i = 0 \<or> c \<le> unat i")
      case True
      then show ?thesis using d by simp
    next
      case False
      obtain pg1 where w: "write_file_page i img pg = (Inr (), pg1)" "pg_disk pg1 = []"
        using write_file_page_ok [OF Cons.prems(1)] by metis
      have "\<not> in_envelope com c rs" using Cons.prems(2) Some e False by (auto simp: in_envelope_def)
      then show ?thesis using Cons.IH [OF w(2), of True] w(1) False d by (simp add: obind_def)
    qed
  qed
qed

lemma recover_refuses:
  assumes "frames (w_file (pg_wal pg)) = (recs, p, None)" and "pg_disk pg = []"
    and "\<not> in_envelope (fst (recover_pass1 recs)) (unat (num_pages pg) + length recs) recs"
  shows "\<exists>e pg'. recover pg = (Inl e, pg')"
proof -
  obtain com mx n where c: "recover_pass1 recs = (com, mx, n)" by (metis prod_cases3)
  then have n: "n = length recs" by (auto simp: recover_pass1_def recover_fold)
  define pg0 where "pg0 = pg\<lparr>next_txid := max (next_txid pg) (mx + 1)\<rparr>"
  obtain e pg1 where "recover_pass2 com (unat (num_pages pg0) + n) n recs False pg0 = (Inl e, pg1)"
    using recover_pass2_refuses [of pg0 com "unat (num_pages pg0) + n" recs n False] assms(2,3) c n by (auto simp: pg0_def)
  then show ?thesis using assms(1) c by (simp add: recover_def Let_def pg0_def obind_def)
qed

lemma recover_ok:
  assumes "frames (w_file (pg_wal pg)) = (recs, p, None)" and "pg_disk pg = []" and "disk (pg_wal pg) = []"
    and "in_envelope (fst (recover_pass1 recs)) (unat (num_pages pg) + length recs) recs"
  obtains pg' where "recover pg = (Inr (), pg')"
proof -
  obtain com mx n where c: "recover_pass1 recs = (com, mx, n)" by (metis prod_cases3)
  then have n: "n = length recs" by (auto simp: recover_pass1_def recover_fold)
  define pg0 where "pg0 = pg\<lparr>next_txid := max (next_txid pg) (mx + 1)\<rparr>"
  obtain b pg1 where p2: "recover_pass2 com (unat (num_pages pg0) + n) n recs False pg0 = (Inr b, pg1)"
    and d: "pg_disk pg1 = []" "pg_wal pg1 = pg_wal pg"
    using recover_pass2_ok [of pg0 com "unat (num_pages pg0) + n" recs n False] assms(2,4) c n by (auto simp: pg0_def)
  obtain pg2 where ps: "(if b then obind persist_header (\<lambda>_. file_sync) else oret ()) pg1 = (Inr (), pg2)"
    and d2: "pg_wal pg2 = pg_wal pg"
    using d by (cases b) (auto simp: obind_def persist_header_def file_write_def file_sync_def)
  obtain b' pg3 where tr: "truncate_wal_locked False pg2 = (Inr b', pg3)"
    using assms(3) d2 by (auto simp: truncate_wal_locked_def with_wal_def wal_checkpoint_def wal_lift_def)
  have "recover pg = (Inr (), pg3)"
    using assms(1) c p2 ps tr by (simp add: recover_def Let_def pg0_def obind_def)
  then show ?thesis by (rule that)
qed

lemma pager_open_recover:
  assumes "log_ok rs" and "torn_tail t" and "take 8 content = MAGIC" and "HEADER_LEN \<le> length content"
    and "from_le_bytes (sub_bytes content 8 4) = (word_of_nat PAGE_SIZE :: u32)"
  obtains pg where "frames (w_file (pg_wal pg)) = (rs, length HEADER + length (log_bytes rs), None)"
    and "pg_disk pg = []" and "disk (pg_wal pg) = []" and "num_pages pg = from_le_bytes (sub_bytes content 12 4)"
    and "pager_open content (Some (HEADER @ log_bytes rs @ t)) [] [] = (case recover pg of (Inl e, _) \<Rightarrow> Inl e | (Inr _, pg) \<Rightarrow> Inr pg)"
proof -
  have f: "frames (HEADER @ log_bytes rs @ t) = (rs, length HEADER + length (log_bytes rs), None)"
    by (rule frames_log [OF assms(1,2)])
  obtain a ds dur nx where fo: "foldl open_step ({}, [], 0, 1) rs = (a, ds, dur, nx)" by (metis prod_cases4)
  define w where "w = fresh_wal (HEADER @ log_bytes rs) nx (foldl max dur (durable_lsns ds)) []"
  have w: "wal_open (Some (HEADER @ log_bytes rs @ t)) [] = Inr w"
    using f fo by (simp add: wal_open_def set_len_def HEADER_def w_def)
  let ?pg = "fresh_pager content w (from_le_bytes (sub_bytes content 12 4)) []"
  have "frames (w_file (pg_wal ?pg)) = (rs, length HEADER + length (log_bytes rs), None)"
    using frames_log [OF assms(1), of "[]"] by (simp add: torn_tail_def fresh_pager_def w_def fresh_wal_def)
  moreover have "content \<noteq> []" using assms(4) by (auto simp: HEADER_LEN_def)
  then have "pager_open content (Some (HEADER @ log_bytes rs @ t)) [] [] = (case recover ?pg of (Inl e, _) \<Rightarrow> Inl e | (Inr _, pg) \<Rightarrow> Inr pg)"
    using w assms(3,4,5) by (simp add: pager_open_def wal_lift_def PAGE_SIZE_def)
  ultimately show ?thesis by (intro that [of ?pg]) (simp_all add: fresh_pager_def w_def fresh_wal_def)
qed

lemma pager_open_ok:
  assumes "log_ok rs" and "torn_tail t" and "take 8 content = MAGIC" and "HEADER_LEN \<le> length content"
    and "from_le_bytes (sub_bytes content 8 4) = (word_of_nat PAGE_SIZE :: u32)"
    and "in_envelope (fst (recover_pass1 rs)) (unat (from_le_bytes (sub_bytes content 12 4) :: u32) + length rs) rs"
  obtains pg where "pager_open content (Some (HEADER @ log_bytes rs @ t)) [] [] = Inr pg"
proof -
  obtain pg0 where o: "frames (w_file (pg_wal pg0)) = (rs, length HEADER + length (log_bytes rs), None)"
    "pg_disk pg0 = []" "disk (pg_wal pg0) = []" "num_pages pg0 = from_le_bytes (sub_bytes content 12 4)"
    "pager_open content (Some (HEADER @ log_bytes rs @ t)) [] [] = (case recover pg0 of (Inl e, _) \<Rightarrow> Inl e | (Inr _, pg) \<Rightarrow> Inr pg)"
    by (rule pager_open_recover [OF assms(1-5)])
  obtain pg where "recover pg0 = (Inr (), pg)" by (rule recover_ok [OF o(1-3)]) (simp add: o(4) assms(6))
  then show ?thesis using that o(5) by simp
qed

lemma pager_open_refuses:
  assumes "log_ok rs" and "torn_tail t" and "take 8 content = MAGIC" and "HEADER_LEN \<le> length content"
    and "from_le_bytes (sub_bytes content 8 4) = (word_of_nat PAGE_SIZE :: u32)"
    and "\<not> in_envelope (fst (recover_pass1 rs)) (unat (from_le_bytes (sub_bytes content 12 4) :: u32) + length rs) rs"
  shows "\<exists>e. pager_open content (Some (HEADER @ log_bytes rs @ t)) [] [] = Inl e"
proof -
  obtain pg0 where o: "frames (w_file (pg_wal pg0)) = (rs, length HEADER + length (log_bytes rs), None)"
    "pg_disk pg0 = []" "disk (pg_wal pg0) = []" "num_pages pg0 = from_le_bytes (sub_bytes content 12 4)"
    "pager_open content (Some (HEADER @ log_bytes rs @ t)) [] [] = (case recover pg0 of (Inl e, _) \<Rightarrow> Inl e | (Inr _, pg) \<Rightarrow> Inr pg)"
    by (rule pager_open_recover [OF assms(1-5)])
  obtain e pg where "recover pg0 = (Inl e, pg)" using recover_refuses [OF o(1,2)] assms(6) o(4) by auto
  then show ?thesis using o(5) by simp
qed

end
