(* ===== verification/Atomicity_Props.thy ===== *)
theory Atomicity_Props
  imports Recovery_Props Log_Properties
begin

text \<open>
  Atomicity of explicit transactions across crashes: the statements of one transaction are logged as
  deferred commits and end in one fence (COMMIT) or one run of aborts (ROLLBACK). Whatever prefix of
  the log a crash leaves, recovery treats either all of the statements or none as committed.
\<close>

section \<open>Prefixes of a log\<close>

lemma deferred_durable_iff:
  "deferred_durable rs t \<longleftrightarrow>
     (\<exists>xs r ys. rs = xs @ r # ys \<and> kind r = KIND_COMMIT_DEFERRED \<and> txid r = t \<and> fences ys \<and> \<not> aborts t ys)"
proof (induction rs)
  case (Cons a rs)
  show ?case
  proof
    assume "deferred_durable (a # rs) t"
    then show "\<exists>xs r ys. a # rs = xs @ r # ys \<and> kind r = KIND_COMMIT_DEFERRED \<and> txid r = t \<and> fences ys \<and> \<not> aborts t ys"
      using Cons.IH by (metis append_Cons append_Nil deferred_durable.simps(2))
  next
    assume "\<exists>xs r ys. a # rs = xs @ r # ys \<and> kind r = KIND_COMMIT_DEFERRED \<and> txid r = t \<and> fences ys \<and> \<not> aborts t ys"
    then obtain xs r ys where *: "a # rs = xs @ r # ys" "kind r = KIND_COMMIT_DEFERRED" "txid r = t" "fences ys" "\<not> aborts t ys"
      by blast
    then show "deferred_durable (a # rs) t" using Cons.IH by (cases xs) auto
  qed
qed simp

lemma append_eq_mid:
  "xs @ ys = as @ r # bs \<Longrightarrow> (\<exists>us. xs = as @ r # us \<and> bs = us @ ys) \<or> (\<exists>us. ys = us @ r # bs \<and> as = xs @ us)"
proof (induction xs arbitrary: as)
  case (Cons x xs)
  then show ?case by (cases as) auto
qed simp

text \<open>The records of the statements \<open>T\<close> of one transaction, between its first statement and its end.\<close>

definition statement_records :: "u64 set \<Rightarrow> log_record list \<Rightarrow> bool" where
  "statement_records T seg \<longleftrightarrow>
     (\<forall>r \<in> set seg. txid r \<in> T \<and> kind r \<in> {KIND_BEGIN, KIND_WRITE, KIND_COMMIT_DEFERRED}) \<and>
     (\<forall>t \<in> T. \<exists>r \<in> set seg. kind r = KIND_COMMIT_DEFERRED \<and> txid r = t)"

lemma statement_records_kinds:
  assumes "statement_records T seg"
  shows "\<not> fences seg" and "\<not> aborts t seg" and "r \<in> set seg \<Longrightarrow> kind r \<noteq> KIND_COMMIT"
  using assms by (auto simp: statement_records_def fences_def aborts_def kind_defs)

lemma not_durable_before_fence:
  assumes "\<And>r. r \<in> set pre \<Longrightarrow> txid r \<noteq> t" and "\<not> fences xs"
  shows "\<not> deferred_durable (pre @ xs) t"
proof
  assume "deferred_durable (pre @ xs) t"
  then obtain ys r zs where e: "pre @ xs = ys @ r # zs" "txid r = t" "fences zs" by (auto simp: deferred_durable_iff)
  then have "r \<notin> set pre" using assms(1) by blast
  then obtain us where "xs = us @ r # zs" using append_eq_mid [OF e(1)] by auto
  then show False using assms(2) e(3) by simp
qed

lemma durable_after_statements:
  assumes pre: "\<And>r. r \<in> set pre \<Longrightarrow> txid r \<noteq> t" and seg: "statement_records T seg" and t: "t \<in> T"
    and post: "\<And>r. r \<in> set post \<Longrightarrow> kind r = KIND_COMMIT_DEFERRED \<Longrightarrow> txid r \<noteq> t"
  shows "deferred_durable (pre @ seg @ post) t \<longleftrightarrow> fences post \<and> \<not> aborts t post"
proof
  assume "deferred_durable (pre @ seg @ post) t"
  then obtain ys r zs where e: "pre @ seg @ post = ys @ r # zs" "kind r = KIND_COMMIT_DEFERRED" "txid r = t" "fences zs" "\<not> aborts t zs"
    by (auto simp: deferred_durable_iff)
  from append_eq_mid [OF e(1)] consider us where "pre = ys @ r # us" | us where "seg @ post = us @ r # zs"
    by blast
  then show "fences post \<and> \<not> aborts t post"
  proof cases
    case 1
    then show ?thesis using pre e(3) by auto
  next
    case (2 us)
    from append_eq_mid [OF this] consider vs where "seg = us @ r # vs" "zs = vs @ post" | vs where "post = vs @ r # zs"
      by blast
    then show ?thesis
      using statement_records_kinds(1) [OF seg] post e by cases auto
  qed
next
  assume a: "fences post \<and> \<not> aborts t post"
  obtain r where r: "r \<in> set seg" "kind r = KIND_COMMIT_DEFERRED" "txid r = t" using seg t by (auto simp: statement_records_def)
  then obtain us vs where "seg = us @ r # vs" by (meson split_list)
  then show "deferred_durable (pre @ seg @ post) t"
    using a r statement_records_kinds(2) [OF seg] unfolding deferred_durable_iff
    by (intro exI [of _ "pre @ us"] exI [of _ r] exI [of _ "vs @ post"]) auto
qed

text \<open>The end of a transaction: a fence with no abort before it, or an abort of every statement before
  any fence.\<close>

definition tx_end :: "u64 set \<Rightarrow> log_record list \<Rightarrow> bool" where
  "tx_end T post \<longleftrightarrow>
     (\<forall>r \<in> set post. txid r \<in> T \<longrightarrow> kind r = KIND_ABORT) \<and>
     ((\<forall>t \<in> T. \<not> aborts t post) \<or>
      (\<exists>mid rest. post = mid @ rest \<and> \<not> fences mid \<and> (\<forall>t \<in> T. aborts t mid)))"

lemma all_or_nothing:
  assumes pre: "\<And>r. r \<in> set pre \<Longrightarrow> txid r \<notin> T" and seg: "statement_records T seg" and e: "tx_end T post"
  shows "(\<forall>t \<in> T. committed (take k (pre @ seg @ post)) t) \<or> (\<forall>t \<in> T. \<not> committed (take k (pre @ seg @ post)) t)"
proof -
  let ?p = "take k (pre @ seg @ post)"
  have c: "committed ?p t \<longleftrightarrow> deferred_durable ?p t" if "t \<in> T" for t
    using that pre e statement_records_kinds(3) [OF seg]
    by (auto simp: committed_def tx_end_def kind_defs dest!: in_set_takeD)
  show ?thesis
  proof (cases "k \<le> length pre + length seg")
    case True
    then have p: "?p = take k pre @ take (k - length pre) seg" by simp
    have "\<not> fences (take (k - length pre) seg)"
      using statement_records_kinds(1) [OF seg] by (auto simp: fences_def dest: in_set_takeD)
    then have "\<not> deferred_durable ?p t" if "t \<in> T" for t
      unfolding p using not_durable_before_fence [of "take k pre" t] pre that by (metis in_set_takeD)
    then show ?thesis using c by blast
  next
    case False
    define q where "q = take (k - (length pre + length seg)) post"
    have p: "?p = pre @ seg @ q" using False by (simp add: q_def)
    have d: "deferred_durable ?p t \<longleftrightarrow> fences q \<and> \<not> aborts t q" if "t \<in> T" for t
      unfolding p by (rule durable_after_statements [OF _ seg that])
        (use pre e that in \<open>auto simp: tx_end_def q_def kind_defs dest!: in_set_takeD\<close>)
    show ?thesis
    proof (cases "\<forall>t \<in> T. \<not> aborts t post")
      case True
      then have "\<not> aborts t q" if "t \<in> T" for t using that by (auto simp: q_def aborts_def dest!: in_set_takeD)
      then show ?thesis using c d by auto
    next
      case False
      then obtain mid rest where m: "post = mid @ rest" "\<not> fences mid" "\<forall>t \<in> T. aborts t mid" using e by (auto simp: tx_end_def)
      have "aborts t q" if "t \<in> T" "fences q" for t
      proof -
        define n where "n = k - (length pre + length seg)"
        have "length mid \<le> n"
        proof (rule ccontr)
          assume "\<not> length mid \<le> n"
          then have "q = take n mid" by (simp add: q_def m(1) n_def)
          then show False using that(2) m(2) by (auto simp: fences_def dest!: in_set_takeD)
        qed
        then have "q = mid @ take (n - length mid) rest" by (simp add: q_def m(1) n_def)
        then show ?thesis using m(3) that(1) by simp
      qed
      then show ?thesis using c d by auto
    qed
  qed
qed

section \<open>Logging a transaction\<close>

lemma wal_append_clean_payload:
  assumes "wal_clean w rs" and "wal_append k t pl w = (Inr l, w')" and "length pl \<le> MAX_FRAME_PAYLOAD"
  shows "wal_clean w' (rs @ [the_record w k t pl])"
  using assms wal_append_log [of w rs] wal_append_Inr(4,5) [OF assms(2)] by (auto simp: wal_clean_def)

lemma the_record_simps [simp]: "kind (the_record w k t pl) = k" "txid (the_record w k t pl) = t"
  "payload (the_record w k t pl) = pl"
  by (simp_all add: the_record_def)

lemma page_payload_length: "length d = PAGE_SIZE \<Longrightarrow> length (page_payload (i, d)) \<le> MAX_FRAME_PAYLOAD"
  by (simp add: page_payload_def PAGE_SIZE_def MAX_FRAME_PAYLOAD_def)

text \<open>The records of the page writes of \<open>t\<close>.\<close>

definition write_records :: "u64 \<Rightarrow> (page_id \<times> bytes) list \<Rightarrow> log_record list \<Rightarrow> bool" where
  "write_records t es rs \<longleftrightarrow> map payload rs = map page_payload es \<and> (\<forall>r \<in> set rs. kind r = KIND_WRITE \<and> txid r = t)"

lemma log_writes_records:
  assumes "wal_clean w rs" and "log_writes t es w = (Inr u, w')" and "\<And>i d. (i, d) \<in> set es \<Longrightarrow> length d = PAGE_SIZE"
  obtains ws where "wal_clean w' (rs @ ws)" and "write_records t es ws" and "deferred_txids w' = deferred_txids w"
    and "deferred_since_fence w' = deferred_since_fence w"
proof -
  have "\<exists>ws. wal_clean w' (rs @ ws) \<and> write_records t es ws \<and> deferred_txids w' = deferred_txids w \<and>
      deferred_since_fence w' = deferred_since_fence w"
    using assms
  proof (induction es arbitrary: w rs)
    case Nil
    then show ?case by (auto simp: write_records_def intro!: exI [of _ "[]"])
  next
    case (Cons e es)
    obtain i d where e: "e = (i, d)" by fastforce
    obtain l w1 where a: "wal_append KIND_WRITE t (page_payload e) w = (Inr l, w1)" and r: "log_writes t es w1 = (Inr u, w')"
      using Cons.prems(2) by (auto simp: log_write_def elim!: obind_InrE)
    let ?r = "the_record w KIND_WRITE t (page_payload e)"
    have c: "wal_clean w1 (rs @ [?r])"
      by (rule wal_append_clean_payload [OF Cons.prems(1) a])
        (use Cons.prems(3) [of i d] in \<open>simp add: e page_payload_length\<close>)
    obtain ws where "wal_clean w' ((rs @ [?r]) @ ws)" "write_records t es ws" "deferred_txids w' = deferred_txids w1"
      "deferred_since_fence w' = deferred_since_fence w1"
      using Cons.IH [OF c r] Cons.prems(3) by auto
    then show ?case
      using wal_append_Inr(11,12) [OF a]
      by (intro exI [of _ "?r # ws"]) (auto simp: write_records_def kind_defs)
  qed
  then show ?thesis using that by blast
qed

lemma log_tx_deferred_records:
  assumes "wal_clean w rs" and "log_tx t es False w = (Inr l, w')" and "\<And>i d. (i, d) \<in> set es \<Longrightarrow> length d = PAGE_SIZE"
  obtains seg where "wal_clean w' (rs @ seg)" and "statement_records {t} seg" and "deferred_txids w' = deferred_txids w @ [t]"
    and "deferred_since_fence w' = deferred_since_fence w + 1"
proof -
  obtain l1 w1 u w2 w3 where b: "wal_append KIND_BEGIN t [] w = (Inr l1, w1)" and lw: "log_writes t es w1 = (Inr u, w2)"
    and c: "wal_append KIND_COMMIT_DEFERRED t [] w2 = (Inr l, w3)"
    and w': "w' = w3\<lparr>last_commit_lsn := max (last_commit_lsn w3) l\<rparr>"
    using assms(2)
    by (auto simp: log_tx_def wal_begin_def commit_deferred_def split: prod.splits sum.splits elim!: obind_InrE)
  have c1: "wal_clean w1 (rs @ [the_record w KIND_BEGIN t []])" by (rule wal_append_clean [OF assms(1) b])
  obtain ws where ws: "wal_clean w2 ((rs @ [the_record w KIND_BEGIN t []]) @ ws)" "write_records t es ws"
    "deferred_txids w2 = deferred_txids w1" "deferred_since_fence w2 = deferred_since_fence w1"
    using log_writes_records [OF c1 lw] assms(3) by metis
  have "wal_clean w3 (((rs @ [the_record w KIND_BEGIN t []]) @ ws) @ [the_record w2 KIND_COMMIT_DEFERRED t []])"
    by (rule wal_append_clean [OF ws(1) c])
  then show ?thesis
    using ws wal_append_Inr(11,12) [OF b] wal_append_Inr(11,12) [OF c] w'
    by (intro that [of "[the_record w KIND_BEGIN t []] @ ws @ [the_record w2 KIND_COMMIT_DEFERRED t []]"])
      (auto simp: statement_records_def write_records_def kind_defs)
qed

text \<open>The statements of a transaction, one deferred commit each.\<close>

fun run_statements :: "(u64 \<times> (page_id \<times> bytes) list) list \<Rightarrow> (wal, wal_error, unit) op" where
  "run_statements [] = oret ()"
| "run_statements ((t, es) # sts) = obind (log_tx t es False) (\<lambda>_. run_statements sts)"

lemma statement_records_append:
  "statement_records S xs \<Longrightarrow> statement_records T ys \<Longrightarrow> statement_records (S \<union> T) (xs @ ys)"
  by (auto simp: statement_records_def)

lemma run_statements_records:
  assumes "wal_clean w rs" and "run_statements sts w = (Inr u, w')"
    and "\<And>t es i d. (t, es) \<in> set sts \<Longrightarrow> (i, d) \<in> set es \<Longrightarrow> length d = PAGE_SIZE"
  obtains seg where "wal_clean w' (rs @ seg)" and "statement_records (fst ` set sts) seg"
    and "deferred_txids w' = deferred_txids w @ map fst sts"
    and "deferred_since_fence w' = deferred_since_fence w + length sts"
proof -
  have "\<exists>seg. wal_clean w' (rs @ seg) \<and> statement_records (fst ` set sts) seg \<and>
      deferred_txids w' = deferred_txids w @ map fst sts \<and> deferred_since_fence w' = deferred_since_fence w + length sts"
    using assms
  proof (induction sts arbitrary: w rs)
    case Nil
    then show ?case by (auto simp: statement_records_def intro!: exI [of _ "[]"])
  next
    case (Cons st sts)
    obtain t es where st: "st = (t, es)" by fastforce
    obtain l w1 where a: "log_tx t es False w = (Inr l, w1)" and r: "run_statements sts w1 = (Inr u, w')"
      using Cons.prems(2) st by (auto elim!: obind_InrE)
    obtain s1 where s1: "wal_clean w1 (rs @ s1)" "statement_records {t} s1" "deferred_txids w1 = deferred_txids w @ [t]"
      "deferred_since_fence w1 = deferred_since_fence w + 1"
      using log_tx_deferred_records [OF Cons.prems(1) a] Cons.prems(3) st by (metis list.set_intros(1))
    obtain s2 where s2: "wal_clean w' ((rs @ s1) @ s2)" "statement_records (fst ` set sts) s2"
      "deferred_txids w' = deferred_txids w1 @ map fst sts" "deferred_since_fence w' = deferred_since_fence w1 + length sts"
      using Cons.IH [OF s1(1) r] Cons.prems(3) by (metis list.set_intros(2))
    then show ?case
      using s1 st statement_records_append [OF s1(2) s2(2)] by (intro exI [of _ "s1 @ s2"]) simp
  qed
  then show ?thesis using that by blast
qed

lemma abort_all_records:
  assumes "wal_clean w rs" and "abort_all ts w = (Inr u, w')"
  obtains as where "wal_clean w' (rs @ as)" and "map txid as = ts" and "\<And>a. a \<in> set as \<Longrightarrow> kind a = KIND_ABORT"
proof -
  have "\<exists>as. wal_clean w' (rs @ as) \<and> map txid as = ts \<and> (\<forall>a \<in> set as. kind a = KIND_ABORT)"
    using assms
  proof (induction ts arbitrary: w rs)
    case Nil
    then show ?case by auto
  next
    case (Cons t ts)
    obtain l w1 where a: "wal_append KIND_ABORT t [] w = (Inr l, w1)" and r: "abort_all ts w1 = (Inr u, w')"
      using Cons.prems(2) by (auto split: prod.splits sum.splits)
    obtain as where "wal_clean w' ((rs @ [the_record w KIND_ABORT t []]) @ as)" "map txid as = ts" "\<forall>a \<in> set as. kind a = KIND_ABORT"
      using Cons.IH [OF wal_append_clean [OF Cons.prems(1) a] r] by blast
    then show ?case by (intro exI [of _ "the_record w KIND_ABORT t [] # as"]) simp
  qed
  then show ?thesis using that by blast
qed

lemma transaction_end_records:
  assumes c: "wal_clean w1 (rs @ seg)" and "deferred_since_fence w1 = length sts" and "deferred_txids w1 = map fst sts"
    and "0 \<notin> fst ` set sts" and "wal_fence w1 = (Inr l, w2) \<or> abort_deferred w1 = (Inr (), w2)"
  obtains post where "wal_clean w2 (rs @ seg @ post)" and "tx_end (fst ` set sts) post"
    and "abort_deferred w1 = (Inr (), w2) \<Longrightarrow> map txid post = map fst sts \<and> (\<forall>a \<in> set post. kind a = KIND_ABORT)"
proof (cases "abort_deferred w1 = (Inr (), w2)")
  case True
  then obtain w3 where a: "abort_all (map fst sts) w1 = (Inr (), w3)" and w2: "w2 = w3\<lparr>deferred_txids := [], deferred_since_fence := 0\<rparr>"
    using assms(3) by (auto simp: abort_deferred_def split: prod.splits sum.splits)
  obtain as where as: "wal_clean w3 ((rs @ seg) @ as)" "map txid as = map fst sts" "\<And>a. a \<in> set as \<Longrightarrow> kind a = KIND_ABORT"
    using abort_all_records [OF c a] by blast
  have t: "\<forall>t \<in> fst ` set sts. aborts t as"
    using as(2,3) by (metis (no_types, lifting) aborts_def imageE image_set)
  have "tx_end (fst ` set sts) as"
    unfolding tx_end_def using as(3) t
    by (intro conjI disjI2 exI [of _ as] exI [of _ "[]"]) (auto simp: fences_def kind_defs)
  then show ?thesis using as w2 by (intro that [of as]) auto
next
  case False
  show ?thesis
  proof (cases "sts = []")
    case True
    then have "w2 = w1" using assms(2,5) False by (simp add: wal_fence_def)
    then show ?thesis using c True False by (intro that [of "[]"]) (auto simp: tx_end_def)
  next
    case ne: False
    then obtain w3 where a: "wal_append KIND_FENCE 0 [] w1 = (Inr l, w3)"
      and w2: "w2 = w3\<lparr>deferred_since_fence := 0, deferred_txids := [], last_commit_lsn := max (last_commit_lsn w3) l\<rparr>"
      using assms(2,5) False by (auto simp: wal_fence_def split: if_splits prod.splits sum.splits)
    have "wal_clean w2 (rs @ seg @ [the_record w1 KIND_FENCE 0 []])"
      using wal_append_clean [OF c a] w2 by simp
    then show ?thesis
      by (rule that) (use assms(4) False in \<open>auto simp: tx_end_def kind_defs\<close>)
  qed
qed

lemma clean_cut_frames:
  assumes "wal_clean w rs" and "length HEADER \<le> k"
  obtains n p where "frames (take k (w_file w)) = (take n rs, p, None)"
proof -
  have ok: "log_ok rs" "list_all frame_ok rs" using log_ok_of_clean [OF assms(1)] by (auto simp: log_ok_def)
  obtain n t where "take (k - length HEADER) (log_bytes rs) = log_bytes (take n rs) @ t" "torn_tail t"
    using log_bytes_cut [OF ok(2)] by metis
  then have "take k (w_file w) = HEADER @ log_bytes (take n rs) @ t"
    using wal_clean_file [OF assms(1)] assms(2) by simp
  then show ?thesis using frames_log [OF log_ok_take [OF ok(1)] \<open>torn_tail t\<close>] that by metis
qed

lemma clean_frames: "wal_clean w rs \<Longrightarrow> fst (frames (w_file w)) = rs"
  using frames_log [OF log_ok_of_clean, of w rs "[]"] wal_clean_file [of w rs] by (simp add: torn_tail_def)

lemma increasing_take: "increasing rs \<Longrightarrow> increasing (take n rs)"
  by (simp add: increasing_def sorted_wrt_take)

lemma clean_increasing: "wal_clean w rs \<Longrightarrow> no_wrap rs \<Longrightarrow> increasing rs"
  using log_ok_of_clean [of w rs] consecutive_increasing by (simp add: log_ok_def)

end
