(* ===== verification/Storage_Properties.thy ===== *)
theory Storage_Properties
  imports Atomicity_Props
begin

text \<open>
  Properties of the pager and of crash recovery, with their witnesses.
\<close>

section \<open>Recovery\<close>

text \<open>Crash recovery replays exactly the right transactions: those with a commit record, and the
  deferred commits that a later fence covers and no later abort voids; it also finds the largest
  transaction id of the log.\<close>

theorem recovery_commits_exactly:
  assumes "consecutive rs" and "no_wrap rs"
  shows "recover_pass1 rs = ({t. committed rs t}, foldl (\<lambda>m r. max m (txid r)) 0 rs, length rs)"
  by (rule recover_pass1_committed [OF consecutive_increasing [OF assms]])

definition ex_deferred_log :: "log_record list" where
  "ex_deferred_log =
     [\<lparr>lsn = 1, kind = KIND_COMMIT_DEFERRED, txid = 5, payload = []\<rparr>,
      \<lparr>lsn = 2, kind = KIND_COMMIT_DEFERRED, txid = 6, payload = []\<rparr>,
      \<lparr>lsn = 3, kind = KIND_ABORT, txid = 5, payload = []\<rparr>,
      \<lparr>lsn = 4, kind = KIND_FENCE, txid = 0, payload = []\<rparr>]"

theorem recovery_commits_exactly_witness:
  "5 \<notin> fst (recover_pass1 ex_deferred_log) \<and> 6 \<in> fst (recover_pass1 ex_deferred_log)"
  using recovery_commits_exactly [of ex_deferred_log]
  by (simp add: ex_deferred_log_def no_wrap_def committed_def kind_defs)

text \<open>\<open>C8\<close>: an explicit transaction is atomic across crashes. Its statements are logged as deferred
  commits and it ends in a fence (COMMIT) or in one abort per statement (ROLLBACK); whatever prefix
  of the log file survives a crash, recovery counts either all of its statements as committed or
  none of them.\<close>

theorem explicit_transaction_atomic:
  assumes "wal_clean w rs" and "deferred_txids w = []" and "deferred_since_fence w = 0"
    and "\<forall>r \<in> set rs. txid r \<notin> fst ` set sts" and "0 \<notin> fst ` set sts"
    and "\<forall>(t, es) \<in> set sts. \<forall>(i, d) \<in> set es. length d = PAGE_SIZE"
    and "run_statements sts w = (Inr (), w1)"
    and "wal_fence w1 = (Inr l, w2) \<or> abort_deferred w1 = (Inr (), w2)"
    and "no_wrap (fst (frames (w_file w2)))" and "length HEADER \<le> k"
  shows "\<exists>recs p. frames (take k (w_file w2)) = (recs, p, None) \<and>
    (fst ` set sts \<subseteq> fst (recover_pass1 recs) \<or> fst ` set sts \<inter> fst (recover_pass1 recs) = {})"
proof -
  have "\<And>t es i d. (t, es) \<in> set sts \<Longrightarrow> (i, d) \<in> set es \<Longrightarrow> length d = PAGE_SIZE" using assms(6) by blast
  then obtain seg where "wal_clean w1 (rs @ seg)" "statement_records (fst ` set sts) seg"
    "deferred_txids w1 = deferred_txids w @ map fst sts" "deferred_since_fence w1 = deferred_since_fence w + length sts"
    using run_statements_records [OF assms(1,7)] by metis
  then have s: "wal_clean w1 (rs @ seg)" "statement_records (fst ` set sts) seg"
    "deferred_txids w1 = map fst sts" "deferred_since_fence w1 = length sts"
    using assms(2,3) by simp_all
  obtain post where p: "wal_clean w2 (rs @ seg @ post)" "tx_end (fst ` set sts) post"
    using transaction_end_records [OF s(1,4,3) assms(5,8)] by blast
  obtain n q where f: "frames (take k (w_file w2)) = (take n (rs @ seg @ post), q, None)"
    using clean_cut_frames [OF p(1) assms(10)] by metis
  have "increasing (take n (rs @ seg @ post))"
    using increasing_take [OF clean_increasing [OF p(1)]] assms(9) clean_frames [OF p(1)] by (simp del: take_append)
  then have "fst (recover_pass1 (take n (rs @ seg @ post))) = {t. committed (take n (rs @ seg @ post)) t}"
    by (simp add: recover_pass1_committed)
  then show ?thesis
    using f all_or_nothing [of rs "fst ` set sts" seg post n] assms(4) s(2) p(2)
    by (simp del: take_append) blast
qed

definition ex_tx_log :: "log_record list" where
  "ex_tx_log =
     [\<lparr>lsn = 1, kind = KIND_BEGIN, txid = 5, payload = []\<rparr>,
      \<lparr>lsn = 2, kind = KIND_COMMIT_DEFERRED, txid = 5, payload = []\<rparr>]"

definition ex_fence :: log_record where
  "ex_fence = \<lparr>lsn = 3, kind = KIND_FENCE, txid = 0, payload = []\<rparr>"

definition ex_wal :: "log_record list \<Rightarrow> u64 \<Rightarrow> u64 \<Rightarrow> u64 list \<Rightarrow> wal" where
  "ex_wal rs nx lc ts =
     (fresh_wal HEADER 1 0 [])\<lparr>w_file := HEADER @ log_bytes rs, appended := 8 + length (log_bytes rs), next_lsn := nx,
        last_commit_lsn := lc, deferred_txids := ts, deferred_since_fence := length ts\<rparr>"

lemma ex_wal_append:
  "wal_append k t pl (ex_wal rs nx lc ts) =
     (Inr nx, ex_wal (rs @ [\<lparr>lsn = nx, kind = k, txid = t, payload = pl\<rparr>]) (nx + 1) lc
        (ts @ (if k = KIND_COMMIT_DEFERRED then [t] else [])))"
  by (simp add: wal_append_def ex_wal_def fresh_wal_def Let_def write_at_def HEADER_def length_frame_bytes)

lemma ex_wal_upd [simp]:
  "ex_wal rs nx a ts\<lparr>last_commit_lsn := b\<rparr> = ex_wal rs nx b ts"
  "ex_wal rs nx a ts\<lparr>deferred_since_fence := 0, deferred_txids := []\<rparr> = ex_wal rs nx a []"
  "ex_wal rs nx a ts\<lparr>deferred_txids := [], deferred_since_fence := 0\<rparr> = ex_wal rs nx a []"
  "last_commit_lsn (ex_wal rs nx a ts) = a" "deferred_txids (ex_wal rs nx a ts) = ts"
  "deferred_since_fence (ex_wal rs nx a ts) = length ts" "w_file (ex_wal rs nx a ts) = HEADER @ log_bytes rs"
  by (simp_all add: ex_wal_def)

lemma ex_wal_fresh: "fresh_wal HEADER 1 0 [] = ex_wal [] 1 0 []"
  by (simp add: ex_wal_def fresh_wal_def HEADER_def)

lemma ex_statements: "run_statements [(5, [])] (ex_wal [] 1 0 []) = (Inr (), ex_wal ex_tx_log 3 2 [5])"
  by (simp add: log_tx_def wal_begin_def commit_deferred_def obind_def ex_wal_append ex_tx_log_def kind_defs)

lemma ex_end: "wal_fence (ex_wal ex_tx_log 3 2 [5]) = (Inr 3, ex_wal (ex_tx_log @ [ex_fence]) 4 3 [])"
  by (simp add: wal_fence_def ex_wal_append ex_fence_def kind_defs)

lemma ex_full_ok: "log_ok (ex_tx_log @ [ex_fence])"
  by (simp add: log_ok_def ex_tx_log_def ex_fence_def frame_ok_def)

lemma ex_full_frames: "frames (HEADER @ log_bytes (ex_tx_log @ [ex_fence])) =
    (ex_tx_log @ [ex_fence], length HEADER + length (log_bytes (ex_tx_log @ [ex_fence])), None)"
  using frames_log [OF ex_full_ok, of "[]"] by (simp add: torn_tail_def)

theorem explicit_transaction_atomic_witness:
  "\<exists>recs p. frames (take 50 (HEADER @ log_bytes (ex_tx_log @ [ex_fence]))) = (recs, p, None) \<and>
     ({5} \<subseteq> fst (recover_pass1 recs) \<or> {5} \<inter> fst (recover_pass1 recs) = {})"
  using explicit_transaction_atomic [OF fresh_wal_clean, of "[]" "[(5, [])]" "ex_wal ex_tx_log 3 2 [5]" 3
      "ex_wal (ex_tx_log @ [ex_fence]) 4 3 []" 50] ex_full_frames
  unfolding ex_wal_fresh ex_statements ex_end
  by (simp del: log_bytes_simps add: no_wrap_def ex_tx_log_def HEADER_def)

text \<open>\<open>C9\<close>: a rolled-back transaction never comes back. After \<open>abort_deferred\<close> has voided the deferred
  commits of its statements, recovery does not count them as committed, whatever other transactions,
  commits and fences are logged later.\<close>

theorem rollback_never_resurrected:
  assumes "wal_clean w rs" and "deferred_txids w = []" and "deferred_since_fence w = 0"
    and "\<forall>r \<in> set rs. txid r \<notin> fst ` set sts" and "0 \<notin> fst ` set sts"
    and "\<forall>(t, es) \<in> set sts. \<forall>(i, d) \<in> set es. length d = PAGE_SIZE"
    and "run_statements sts w = (Inr (), w1)" and "abort_deferred w1 = (Inr (), w2)"
    and "\<forall>r \<in> set later. txid r \<notin> fst ` set sts" and "increasing (fst (frames (w_file w2)) @ later)"
  shows "fst ` set sts \<inter> fst (recover_pass1 (fst (frames (w_file w2)) @ later)) = {}"
proof -
  have "\<And>t es i d. (t, es) \<in> set sts \<Longrightarrow> (i, d) \<in> set es \<Longrightarrow> length d = PAGE_SIZE" using assms(6) by blast
  then obtain seg where "wal_clean w1 (rs @ seg)" and seg: "statement_records (fst ` set sts) seg"
    and "deferred_txids w1 = deferred_txids w @ map fst sts" "deferred_since_fence w1 = deferred_since_fence w + length sts"
    using run_statements_records [OF assms(1,7)] by metis
  then obtain post where p: "wal_clean w2 (rs @ seg @ post)" "tx_end (fst ` set sts) post"
    "map txid post = map fst sts \<and> (\<forall>a \<in> set post. kind a = KIND_ABORT)"
    using transaction_end_records [of w1 rs seg sts 0 w2] assms(2,3,5,8) by auto
  let ?all = "rs @ seg @ post @ later"
  have full: "fst (frames (w_file w2)) @ later = ?all" using clean_frames [OF p(1)] by simp
  have "\<not> committed ?all t" if t: "t \<in> fst ` set sts" for t
  proof -
    have "aborts t post" using t p(3) by (metis aborts_def imageE image_set)
    moreover have "deferred_durable ?all t \<longleftrightarrow> fences (post @ later) \<and> \<not> aborts t (post @ later)"
      by (rule durable_after_statements [OF _ seg t]) (use assms(4,9) t p(3) in \<open>auto simp: kind_defs\<close>)
    ultimately show ?thesis
      using assms(4,9) t p(3) statement_records_kinds(3) [OF seg] by (auto simp: committed_def kind_defs)
  qed
  then show ?thesis using recover_pass1_committed [OF assms(10)] full by auto
qed

definition ex_abort :: log_record where
  "ex_abort = \<lparr>lsn = 3, kind = KIND_ABORT, txid = 5, payload = []\<rparr>"

lemma ex_abort_end: "abort_deferred (ex_wal ex_tx_log 3 2 [5]) = (Inr (), ex_wal (ex_tx_log @ [ex_abort]) 4 2 [])"
  by (simp add: abort_deferred_def ex_wal_append ex_abort_def kind_defs)

lemma ex_abort_frames: "fst (frames (w_file (ex_wal (ex_tx_log @ [ex_abort]) 4 2 []))) = ex_tx_log @ [ex_abort]"
proof -
  have "log_ok (ex_tx_log @ [ex_abort])" by (simp add: log_ok_def ex_tx_log_def ex_abort_def frame_ok_def)
  from frames_log [OF this, of "[]"] show ?thesis by (simp add: torn_tail_def)
qed

theorem rollback_never_resurrected_witness:
  "{5} \<inter> fst (recover_pass1 (ex_tx_log @ [ex_abort] @ [\<lparr>lsn = 4, kind = KIND_FENCE, txid = 0, payload = []\<rparr>])) = {}"
  using rollback_never_resurrected [OF fresh_wal_clean, of "[]" "[(5, [])]" "ex_wal ex_tx_log 3 2 [5]"
      "ex_wal (ex_tx_log @ [ex_abort]) 4 2 []" "[\<lparr>lsn = 4, kind = KIND_FENCE, txid = 0, payload = []\<rparr>]"]
  unfolding ex_wal_fresh ex_statements ex_abort_end ex_abort_frames
  by (simp add: increasing_def ex_tx_log_def ex_abort_def)

text \<open>\<open>C10\<close>: opening a database after a crash restores exactly the committed pages. If the log and the
  data file open, every page that a committed transaction logged reads as its last committed image,
  and every other page that the data file holds is left as it was.\<close>

theorem recovery_restores_committed_pages:
  assumes "pager_open content (Some wc) script ws = Inr pg" and "content \<noteq> []" and "wc \<noteq> []"
    and "frames wc = (recs, p, e)"
  shows "store_ok pg \<and>
    (\<forall>i img. i \<noteq> 0 \<longrightarrow> last_images (fst (recover_pass1 recs)) recs i = Some img \<longrightarrow> base_image pg i = Some img) \<and>
    (\<forall>i d. i \<noteq> 0 \<longrightarrow> last_images (fst (recover_pass1 recs)) recs i = None \<longrightarrow>
       get_range content (page_off i) PAGE_SIZE = Some d \<longrightarrow> base_image pg i = Some d)"
  by (rule pager_open_images [OF assms])

definition ex_page :: bytes where
  "ex_page = replicate PAGE_SIZE 7"

definition ex_page_log :: "log_record list" where
  "ex_page_log =
     [\<lparr>lsn = 1, kind = KIND_BEGIN, txid = 5, payload = []\<rparr>,
      \<lparr>lsn = 2, kind = KIND_WRITE, txid = 5, payload = page_payload (1, ex_page)\<rparr>,
      \<lparr>lsn = 3, kind = KIND_COMMIT, txid = 5, payload = []\<rparr>]"

lemma ex_page_log_ok: "log_ok ex_page_log"
  by (simp add: ex_page_log_def log_ok_def frame_ok_def page_payload_def ex_page_def PAGE_SIZE_def MAX_FRAME_PAYLOAD_def)

lemma ex_page_pass1: "recover_pass1 ex_page_log = ({5}, 5, 3)"
  by (simp add: recover_pass1_def recover_scan_simp ex_page_log_def scan_deferred_def durable_txids_def kind_defs)

lemma ex_page_decode: "decode_page_image (page_payload (1, ex_page)) = Some (1, ex_page)"
  by (rule decode_page_payload) (simp add: ex_page_def)

lemma ex_page_images: "last_images {5} ex_page_log = [1 \<mapsto> ex_page]"
  by (simp add: last_images_def ex_page_log_def List.map_filter_def replay_image_def ex_page_decode kind_defs)

lemma ex_header:
  "take 8 (encode_header n) = MAGIC" "from_le_bytes (sub_bytes (encode_header n) 12 4) = n"
  "from_le_bytes (sub_bytes (encode_header n) 8 4) = (word_of_nat PAGE_SIZE :: u32)"
  by (simp_all add: encode_header_def MAGIC_def sub_bytes_def)

lemma ex_page_envelope: "in_envelope (fst (recover_pass1 ex_page_log)) (unat (1 :: u32) + length ex_page_log) ex_page_log"
  unfolding ex_page_pass1
  by (simp add: in_envelope_def ex_page_log_def replay_image_def ex_page_decode kind_defs)

theorem recovery_restores_committed_pages_witness:
  "\<exists>pg. pager_open (encode_header 1) (Some (HEADER @ log_bytes ex_page_log)) [] [] = Inr pg \<and>
     base_image pg 1 = Some ex_page"
proof -
  have t: "torn_tail []" by (simp add: torn_tail_def)
  obtain pg where o: "pager_open (encode_header 1) (Some (HEADER @ log_bytes ex_page_log @ [])) [] [] = Inr pg"
    by (rule pager_open_ok [OF ex_page_log_ok t, of "encode_header 1"])
      (use ex_page_envelope in \<open>simp_all add: ex_header HEADER_LEN_def\<close>)
  have "base_image pg 1 = Some ex_page"
    using recovery_restores_committed_pages [OF o _ _ frames_log [OF ex_page_log_ok t]]
    by (simp add: ex_page_pass1 ex_page_images HEADER_def encode_header_def MAGIC_def)
  then show ?thesis using o by auto
qed

text \<open>\<open>C11\<close>: when a database opens. Given a data file with a valid header, a log that is a sequence of whole frames
  with at most one torn frame at the end, and no failing I/O call, opening succeeds exactly when every page image of a
  committed transaction in the log has a page id other than 0 and below the page count of the header plus the number of frames;
  otherwise it is refused with an error.\<close>

theorem recovery_succeeds:
  assumes "log_ok rs" and "torn_tail t" and "take 8 content = MAGIC" and "HEADER_LEN \<le> length content"
    and "from_le_bytes (sub_bytes content 8 4) = (word_of_nat PAGE_SIZE :: u32)"
  shows "(\<exists>pg. pager_open content (Some (HEADER @ log_bytes rs @ t)) [] [] = Inr pg) \<longleftrightarrow>
    in_envelope (fst (recover_pass1 rs)) (unat (from_le_bytes (sub_bytes content 12 4) :: u32) + length rs) rs"
  using pager_open_ok [OF assms] pager_open_refuses [OF assms] by (metis Inl_Inr_False)

theorem recovery_succeeds_witness:
  "\<exists>pg. pager_open (encode_header 1) (Some (HEADER @ log_bytes ex_page_log @ [])) [] [] = Inr pg"
  using recovery_succeeds [OF ex_page_log_ok, of "[]" "encode_header 1"] ex_page_envelope
  by (simp add: torn_tail_def ex_header HEADER_LEN_def)

section \<open>Pages\<close>

text \<open>\<open>C12\<close>: a read returns the committed image of the page, and neither the buffer pool's copies nor its
  evictions can ever show: reading changes no committed image and keeps the pool consistent.\<close>

theorem read_returns_committed_image:
  assumes "store_ok pg" and "i \<noteq> 0" and "i < num_pages pg" and "base_image pg i = Some d"
  shows "\<exists>pg'. read_page_shared i pg = (Inr d, pg') \<and> store_ok pg' \<and> base_image pg' = base_image pg"
proof -
  have c: "coherent pg" using assms(1) by (simp add: store_ok_def)
  obtain pg' where r: "read_page_shared i pg = (Inr d, pg')" using read_page_shared_image [OF c assms(2-4)] .
  obtain st where "coherent pg'" and st: "pg' = pg\<lparr>pool := st\<rparr>" using read_page_shared_keeps [OF c r] by blast
  then have "store_ok pg'" using assms(1) by (simp add: store_ok_def pending_ok_def)
  then show ?thesis using r st by auto
qed

definition ex_pager :: pager where
  "ex_pager = (fresh_pager (encode_header 2) (fresh_wal HEADER 1 0 []) 2 [])\<lparr>pending_writes := [(1, ex_page)]\<rparr>"

lemma ex_pager_ok: "store_ok ex_pager" "base_image ex_pager 1 = Some ex_page" "num_pages ex_pager = 2"
  by (auto simp: ex_pager_def fresh_pager_def store_ok_def coherent_def pending_ok_def base_image_def ex_page_def
      split: if_splits)

theorem read_returns_committed_image_witness:
  "\<exists>pg'. read_page_shared 1 ex_pager = (Inr ex_page, pg') \<and> store_ok pg' \<and> base_image pg' = base_image ex_pager"
  using read_returns_committed_image [OF ex_pager_ok(1), of 1 ex_page] ex_pager_ok by (simp add: word_less_nat_alt)

text \<open>\<open>C13\<close>: a commit that succeeds publishes exactly its staged pages. Afterwards every staged page reads
  as staged and every other page as before, even when writing the data file after the log's sync
  fails at any point: the images stay queued and win over torn data-file pages.\<close>

theorem commit_publishes_staged_pages:
  assumes "store_ok pg" and "staged_ok (staged t)" and "staged t \<noteq> []" and "commit_tx_inner t fsync pg = (Inr l, pg')"
  shows "store_ok pg' \<and> (\<forall>i d. map_of (staged t) i = Some d \<longrightarrow> base_image pg' i = Some d) \<and>
    (\<forall>i d. i \<noteq> 0 \<longrightarrow> map_of (staged t) i = None \<longrightarrow> base_image pg i = Some d \<longrightarrow> base_image pg' i = Some d)"
  by (rule commit_publishes [OF assms])

definition ex_tx :: tx where
  "ex_tx = \<lparr>tx_id = 3, staged = [(2, ex_page)], to_free = [], reused = []\<rparr>"

lemma ex_deferred_commit:
  "commit_tx_inner ex_tx False ex_pager = (Inr 3, snd (commit_tx_inner ex_tx False ex_pager))"
  by (simp add: commit_tx_inner_def ex_tx_def ex_pager_def try_free_truncate_def fresh_pager_def with_wal_def wal_lift_def
      log_tx_def obind_def wal_begin_def log_write_def commit_deferred_def ex_wal_fresh ex_wal_append Let_def)

theorem commit_publishes_staged_pages_witness:
  "base_image (snd (commit_tx_inner ex_tx False ex_pager)) 2 = Some ex_page \<and>
   base_image (snd (commit_tx_inner ex_tx False ex_pager)) 1 = Some ex_page"
  using commit_publishes_staged_pages [OF ex_pager_ok(1) _ _ ex_deferred_commit] ex_pager_ok(2)
  by (simp add: ex_tx_def staged_ok_def ex_page_def)

text \<open>A commit that fails publishes nothing: whichever step failed, every page reads as before and
  the ids the transaction took from the reuse pool, or grew the file by, go back to the pool.\<close>

theorem failed_commit_changes_nothing:
  assumes "store_ok pg" and "commit_tx_inner t fsync pg = (Inl e, pg')"
  shows "store_ok pg' \<and> (\<forall>i d. i \<noteq> 0 \<longrightarrow> base_image pg i = Some d \<longrightarrow> base_image pg' i = Some d)"
  using store_ok_preserves [OF commit_error_preserves [OF assms(2)] assms(1)] by (simp add: keeps_def)

definition ex_bad_pager :: pager where
  "ex_bad_pager = ex_pager\<lparr>pg_wal := (fresh_wal HEADER 1 0 [IoFail 4, IoOk])\<rparr>"

theorem failed_commit_changes_nothing_witness:
  "base_image (snd (commit_tx_inner ex_tx True ex_bad_pager)) 1 = Some ex_page"
proof -
  have "fst (commit_tx_inner ex_tx True ex_bad_pager) = Inl (PWal WalIo)"
    by (simp add: commit_tx_inner_def ex_tx_def ex_bad_pager_def ex_pager_def try_free_truncate_def fresh_pager_def
        with_wal_def wal_lift_def log_tx_def obind_def wal_begin_def wal_append_def fresh_wal_def next_io_def
        SOFT_WAL_LIMIT_def HEADER_def Let_def)
  then have "commit_tx_inner ex_tx True ex_bad_pager = (Inl (PWal WalIo), snd (commit_tx_inner ex_tx True ex_bad_pager))"
    by (metis prod.collapse)
  moreover have "store_ok ex_bad_pager" "base_image ex_bad_pager 1 = Some ex_page"
    using ex_pager_ok by (simp_all add: ex_bad_pager_def)
  ultimately show ?thesis using failed_commit_changes_nothing [of ex_bad_pager ex_tx True "PWal WalIo"] by simp
qed

text \<open>\<open>C14\<close>: allocation never hands out the file header or a page that is in use: a page comes from the
  reuse pool, which it leaves, or extends the file, and only when the pool is empty; page ids never
  wrap to 0.\<close>

theorem allocation_is_fresh:
  assumes "alloc_ok pg" and "allocate_page (pg, t) = (Inr i, (pg', t'))"
  shows "alloc_ok pg' \<and> i \<noteq> 0 \<and> i < num_pages pg' \<and> i \<notin> r_set (reusable pg') \<and>
    (i \<in> r_set (reusable pg) \<or> r_set (reusable pg) = {} \<and> i = num_pages pg) \<and>
    map_of (staged t') i = Some (case map_of (staged t) i of Some d \<Rightarrow> d | None \<Rightarrow> zero_page)"
  using allocate_page_cases [OF assms(2,1)] by blast

theorem allocation_is_fresh_witness:
  "(case allocate_page (ex_pager, ex_tx) of (res, pg', t') \<Rightarrow> res = Inr 2 \<and> (2 :: u32) \<notin> r_set (reusable pg') \<and> alloc_ok pg')"
proof -
  have ok: "alloc_ok ex_pager" by (simp add: alloc_ok_def reusable_ok_def ex_pager_def fresh_pager_def)
  have "fst (allocate_page (ex_pager, ex_tx)) = Inr 2"
    by (simp add: allocate_page_def ex_pager_def ex_tx_def fresh_pager_def reusable_pop_def record_alloc_def
        empty_undo_def Let_def)
  then obtain pg' t' where a: "allocate_page (ex_pager, ex_tx) = (Inr 2, (pg', t'))" by (metis prod.collapse)
  from allocation_is_fresh [OF ok a] a show ?thesis by simp
qed

end
