(* ===== verification/Pager_Scenarios.thy ===== *)
theory Pager_Scenarios
  imports Storage_Properties
begin

text \<open>
  Two concrete runs of the pager that go wrong: reallocating a page that was released before its
  first write, and recovery refusing a log that holds an acknowledged commit.
\<close>

section \<open>Releasing a page that was never written\<close>

definition alloc_free_alloc ::
  "wal \<Rightarrow> (pager_error + page_id) \<times> (pager_error + unit) \<times> (pager_error + u64) \<times> (pager_error + page_id)" where
  "alloc_free_alloc w =
     (let pg = begin_undo (fresh_pager (encode_header 1) w 1 []);
          (t, pg) = begin_tx pg;
          (r1, pg, t) = allocate_page (pg, t);
          (r2, pg, t) = free_page 1 (pg, t);
          (r3, pg) = commit_tx_deferred t pg;
          (t, pg) = begin_tx pg;
          (r4, pg, t) = allocate_page (pg, t)
      in (r1, r2, r3, r4))"

text \<open>Inside an explicit transaction, a page that one statement allocates at the end of the file
  and releases again poisons allocation: the next statement takes the page from the pool, the undo
  journal wants its old content because the transaction released it, and reading that content fails
  since the page was never written. No I/O error is involved.\<close>

theorem realloc_of_unwritten_page_fails: "alloc_free_alloc w = (Inr 1, Inr (), Inr 0, Inl PIo)"
  by (simp add: alloc_free_alloc_def begin_undo_def fresh_pager_def begin_tx_def allocate_page_def reusable_pop_def
    free_page_def commit_tx_deferred_def commit_tx_inner_def record_alloc_def empty_undo_def Let_def zero_page_def
    release_pages_def push_all_def reusable_push_def current_page_image_def read_file_page_def read_exact_page_def
    get_range_def page_off_def PAGE_SIZE_def word_le_nat_alt)

section \<open>The page ceiling of recovery\<close>

lemma commit_wal:
  assumes "staged t \<noteq> []" and "appended (pg_wal pg) < ckpt_soft pg"
    and "log_tx (tx_id t) (staged t) True (pg_wal pg) = (Inr l, w)" and "appended w < ckpt_soft pg"
  shows "\<exists>pg'. commit_tx t pg = (Inr l, pg') \<and> pg_wal pg' = w \<and> pg_synced pg' = pg_synced pg"
proof -
  have tr: "try_free_truncate pg = (Inr (), pg)" using assms(2) by (simp add: try_free_truncate_def Let_def)
  define pg3 where "pg3 = release_pages (to_free t) (fold (apply_image l) (staged t) (stash_snapshots (staged t) (pg\<lparr>pg_wal := w\<rparr>)))"
  have a: "pg_wal (fold (apply_image l) es p) = pg_wal p \<and> ckpt_soft (fold (apply_image l) es p) = ckpt_soft p \<and>
      pg_synced (fold (apply_image l) es p) = pg_synced p" for es p
  proof (induction es arbitrary: p)
    case (Cons e es)
    obtain i d where "e = (i, d)" by fastforce
    then have "pg_wal (apply_image l e p) = pg_wal p \<and> ckpt_soft (apply_image l e p) = ckpt_soft p \<and>
        pg_synced (apply_image l e p) = pg_synced p"
      by (simp add: apply_image_def Let_def split: option.splits)
    then show ?case using Cons by simp
  qed simp
  have p3: "pg_wal pg3 = w" "ckpt_soft pg3 = ckpt_soft pg" "pg_synced pg3 = pg_synced pg"
    by (simp_all add: pg3_def a release_pages_def push_all_def stash_snapshots_def Let_def)
  obtain r pg4 where f: "flush_pending pg3 = (r, pg4)" by fastforce
  then have p4: "pg_wal pg4 = w" "ckpt_soft pg4 = ckpt_soft pg" "pg_synced pg4 = pg_synced pg" using flush_pending_wal p3 by auto
  then have "maybe_checkpoint pg4 = (Inr (), pg4)" using assms(4) by (simp add: maybe_checkpoint_def Let_def)
  then have "commit_tx t pg = (Inr l, pg4)"
    using assms(1,3) tr f
    by (simp add: commit_tx_def commit_tx_inner_def with_wal_def wal_lift_def Let_def ignore_err_def pg3_def)
  then show ?thesis using p4 by blast
qed

definition alloc5 :: "unit tx_op" where
  "alloc5 = obind allocate_page (\<lambda>_. obind allocate_page (\<lambda>_. obind allocate_page (\<lambda>_.
     obind allocate_page (\<lambda>_. obind allocate_page (\<lambda>_. oret ())))))"

lemma allocate_fresh:
  assumes "reusable pg = \<lparr>r_order = [], r_set = {}\<rparr>" and "\<not> u_active (undo pg)"
    and "num_pages pg \<noteq> 0" and "num_pages pg \<noteq> - 1" and "map_of (staged t) (num_pages pg) = None"
  shows "allocate_page (pg, t) = (Inr (num_pages pg), (pg\<lparr>num_pages := num_pages pg + 1\<rparr>,
    t\<lparr>reused := reused t @ [num_pages pg], staged := AList.update (num_pages pg) zero_page (staged t)\<rparr>))"
  using assms by (simp add: allocate_page_def reusable_pop_def Let_def record_alloc_def)

definition ceiling_start :: pager where
  "ceiling_start = fresh_pager (encode_header 1) (fresh_wal HEADER 1 0 []) 1 []"

text \<open>A transaction that allocates five pages and aborts, then one that allocates a page and commits.\<close>

definition ceiling_aborted :: pager where
  "ceiling_aborted =
     (let (t, pg) = begin_tx ceiling_start; (_, pg, t) = alloc5 (pg, t) in snd (abort_tx t pg))"

definition ceiling_commit :: "(pager_error + u64) \<times> pager" where
  "ceiling_commit =
     (let (t, pg) = begin_tx ceiling_aborted; (_, pg, t) = allocate_page (pg, t) in commit_tx t pg)"

definition abort2 :: log_record where
  "abort2 = \<lparr>lsn = 1, kind = KIND_ABORT, txid = 2, payload = []\<rparr>"

definition ceiling_tx :: tx where
  "ceiling_tx = \<lparr>tx_id = 2, staged = [(1, zero_page), (2, zero_page), (3, zero_page), (4, zero_page), (5, zero_page)],
     to_free = [], reused = [1, 2, 3, 4, 5]\<rparr>"

lemma ceiling_alloc5:
  "alloc5 (snd (begin_tx ceiling_start), fst (begin_tx ceiling_start)) =
     (Inr (), ceiling_start\<lparr>next_txid := 2, num_pages := 6\<rparr>, ceiling_tx)"
  by (simp add: ceiling_start_def alloc5_def obind_def allocate_fresh fresh_pager_def begin_tx_def empty_undo_def
      ceiling_tx_def)

lemma ceiling_push:
  "fold reusable_push [1, 2, 3, 4, 5] \<lparr>r_order = [], r_set = {}\<rparr> = \<lparr>r_order = [1, 2, 3, 4, 5], r_set = {5, 4, 3, 2, 1}\<rparr>"
  by (simp add: reusable_push_def)

lemma ceiling_abort:
  "snd (abort_tx ceiling_tx (ceiling_start\<lparr>next_txid := 2, num_pages := 6\<rparr>)) =
     ceiling_start\<lparr>next_txid := 2, num_pages := 6, pg_wal := ex_wal [abort2] 2 0 [],
       reusable := \<lparr>r_order = [1, 2, 3, 4, 5], r_set = {5, 4, 3, 2, 1}\<rparr>\<rparr>"
proof -
  have w: "with_wal (wal_abort 2) (ceiling_start\<lparr>next_txid := 2, num_pages := 6\<rparr>) =
      (Inr 1, ceiling_start\<lparr>next_txid := 2, num_pages := 6, pg_wal := ex_wal [abort2] 2 0 []\<rparr>)"
    by (simp add: with_wal_def wal_abort_def wal_lift_def ceiling_start_def fresh_pager_def ex_wal_fresh ex_wal_append
        abort2_def kind_defs)
  have c: "maybe_checkpoint (ceiling_start\<lparr>next_txid := 2, num_pages := 6, pg_wal := ex_wal [abort2] 2 0 []\<rparr>) =
      (Inr (), ceiling_start\<lparr>next_txid := 2, num_pages := 6, pg_wal := ex_wal [abort2] 2 0 []\<rparr>)"
    by (simp add: maybe_checkpoint_def Let_def ceiling_start_def fresh_pager_def SOFT_WAL_LIMIT_def ex_wal_def
        length_frame_bytes abort2_def)
  show ?thesis
    using w c ceiling_push
    by (simp add: abort_tx_def ceiling_tx_def ignore_err_def return_reused_def push_all_def del: fold_simps)
      (simp add: ceiling_start_def fresh_pager_def)
qed

definition ceiling_log :: "log_record list" where
  "ceiling_log = [abort2,
     \<lparr>lsn = 2, kind = KIND_BEGIN, txid = 3, payload = []\<rparr>,
     \<lparr>lsn = 3, kind = KIND_WRITE, txid = 3, payload = page_payload (5, zero_page)\<rparr>,
     \<lparr>lsn = 4, kind = KIND_COMMIT, txid = 3, payload = []\<rparr>]"

lemma ceiling_log_len: "length (log_bytes ceiling_log) = 4200"
  by (simp add: ceiling_log_def length_frame_bytes page_payload_def zero_page_def PAGE_SIZE_def abort2_def)

lemma ceiling_log_tx:
  "log_tx 3 [(5, zero_page)] True (ex_wal [abort2] 2 0 []) =
     (Inr 4, (ex_wal ceiling_log 5 4 [])\<lparr>w_synced := 4208, durable_lsn := 4\<rparr>)"
  using ceiling_log_len
  by (simp add: log_tx_def obind_def wal_begin_def log_write_def wal_commit_def wal_fence_def ex_wal_append wal_sync_def
      ceiling_log_def kind_defs)
    (simp add: ex_wal_def fresh_wal_def HEADER_def)

lemma ceiling_commit:
  "\<exists>pg. ceiling_commit = (Inr 4, pg) \<and> pg_wal pg = (ex_wal ceiling_log 5 4 [])\<lparr>w_synced := 4208, durable_lsn := 4\<rparr> \<and>
     pg_synced pg = encode_header 1"
proof -
  have ab: "ceiling_aborted = ceiling_start\<lparr>next_txid := 2, num_pages := 6, pg_wal := ex_wal [abort2] 2 0 [],
       reusable := \<lparr>r_order = [1, 2, 3, 4, 5], r_set = {5, 4, 3, 2, 1}\<rparr>\<rparr>"
    using ceiling_alloc5 ceiling_abort by (simp add: ceiling_aborted_def case_prod_beta)
  define t where "t = \<lparr>tx_id = 3, staged = [(5, zero_page)], to_free = [], reused = [5]\<rparr>"
  obtain pg where al: "allocate_page (snd (begin_tx ceiling_aborted), fst (begin_tx ceiling_aborted)) = (Inr 5, pg, t)"
    and pg: "pg_wal pg = ex_wal [abort2] 2 0 []" "ckpt_soft pg = SOFT_WAL_LIMIT" "pg_synced pg = encode_header 1"
    unfolding ab t_def
    by (simp add: begin_tx_def ceiling_start_def fresh_pager_def allocate_page_def reusable_pop_def Let_def
        record_alloc_def empty_undo_def)
  have "\<exists>pg'. commit_tx t pg = (Inr 4, pg') \<and>
      pg_wal pg' = (ex_wal ceiling_log 5 4 [])\<lparr>w_synced := 4208, durable_lsn := 4\<rparr> \<and> pg_synced pg' = pg_synced pg"
    by (rule commit_wal) (use pg ceiling_log_tx ceiling_log_len in
        \<open>simp_all add: t_def SOFT_WAL_LIMIT_def ex_wal_def length_frame_bytes abort2_def\<close>)
  then show ?thesis using al pg(3) by (simp add: ceiling_commit_def case_prod_beta)
qed

lemma ceiling_log_ok: "log_ok ceiling_log"
  by (simp add: ceiling_log_def log_ok_def frame_ok_def abort2_def page_payload_def zero_page_def PAGE_SIZE_def
      MAX_FRAME_PAYLOAD_def)

lemma ceiling_pass1: "recover_pass1 ceiling_log = ({3}, 3, 4)"
  by (simp add: recover_pass1_def recover_scan_simp ceiling_log_def abort2_def scan_deferred_def deferred_abort_def
      durable_txids_def kind_defs)

lemma ceiling_recover:
  assumes "w_file (pg_wal pg) = HEADER @ log_bytes ceiling_log" and "num_pages pg = 1"
  shows "fst (recover pg) = Inl (WalPageId 5 1 4)"
proof -
  have "frames (w_file (pg_wal pg)) = (ceiling_log, length HEADER + length (log_bytes ceiling_log), None)"
    using frames_log [OF ceiling_log_ok, of "[]"] assms(1) by (simp add: torn_tail_def)
  moreover have "decode_page_image (page_payload (5, zero_page)) = Some (5, zero_page)"
    by (rule decode_page_payload) (simp add: zero_page_def)
  ultimately show ?thesis
    using assms(2) ceiling_pass1
    by (simp add: recover_def Let_def) (simp add: ceiling_log_def abort2_def obind_def kind_defs)
qed

text \<open>Recovery can refuse a log that holds an acknowledged commit. A transaction grows the file by
  five pages and aborts, which puts their ids into the reuse pool, last one on top; the next
  transaction takes page 5, commits and is synced. If the machine stops before the data file's
  header reaches the disk, the header still counts one page, and with four frames in the log
  recovery takes page 5 for corruption: it is not below \<open>pages + frames\<close>, the ceiling that the code
  assumes no allocation can exceed.\<close>

theorem recovery_refuses_acknowledged_commit:
  "\<exists>pg. ceiling_commit = (Inr 4, pg) \<and> w_synced (pg_wal pg) = length (w_file (pg_wal pg)) \<and>
     pager_open (pg_synced pg) (Some (w_file (pg_wal pg))) [] [] = Inl (WalPageId 5 1 4)"
proof -
  obtain pg where c: "ceiling_commit = (Inr 4, pg)"
    and pg: "pg_wal pg = (ex_wal ceiling_log 5 4 [])\<lparr>w_synced := 4208, durable_lsn := 4\<rparr>" "pg_synced pg = encode_header 1"
    using ceiling_commit by blast
  obtain w where w: "wal_open (Some (HEADER @ log_bytes ceiling_log @ [])) [] = Inr w" "w_file w = HEADER @ log_bytes ceiling_log"
    using wal_open_log [OF ceiling_log_ok, of "[]" "[]"] by (metis torn_tail_def)
  let ?p0 = "fresh_pager (encode_header 1) w 1 []"
  have "fst (recover ?p0) = Inl (WalPageId 5 1 4)"
    by (rule ceiling_recover) (simp_all add: fresh_pager_def w)
  moreover have "from_le_bytes (sub_bytes (encode_header 1) 12 4) = (1 :: u32)" "take 8 (encode_header 1) = MAGIC"
    "unat (from_le_bytes (sub_bytes (encode_header 1) 8 4) :: u32) = PAGE_SIZE" "encode_header 1 \<noteq> []"
    by (simp_all add: encode_header_def MAGIC_def sub_bytes_def PAGE_SIZE_def)
  ultimately have "pager_open (encode_header 1) (Some (HEADER @ log_bytes ceiling_log)) [] [] = Inl (WalPageId 5 1 4)"
    using w by (cases "recover ?p0") (simp add: pager_open_def wal_lift_def HEADER_LEN_def)
  then show ?thesis using c pg ceiling_log_len by (auto simp: HEADER_def)
qed

end
