(* ===== verification/Page_Store.thy ===== *)
theory Page_Store
  imports Pager_Props
begin

text \<open>
  What the index and the heap rely on when they use the pager inside a page transaction: reading
  returns the page the transaction sees, writing a whole page changes that page and no other,
  allocation hands out a page that was not in use. The interface is the locale \<open>page_store\<close>,
  and the pager with its transaction is an instance of it.
\<close>

section \<open>The interface\<close>

text \<open>Reading only: \<open>view\<close> is the content of the pages in use.\<close>

locale page_source =
  fixes ok :: "'s \<Rightarrow> bool"
    and view :: "'s \<Rightarrow> page_id \<Rightarrow> bytes option"
    and rd :: "page_id \<Rightarrow> ('s, 'e, bytes) op"
  assumes view_size: "ok s \<Longrightarrow> view s i = Some d \<Longrightarrow> length d = PAGE_SIZE"
    and rd_view: "ok s \<Longrightarrow> view s i = Some d \<Longrightarrow> \<exists>s'. rd i s = (Inr d, s') \<and> ok s' \<and> view s' = view s"

text \<open>\<open>room n\<close>: the next \<open>n\<close> allocations succeed.\<close>

locale page_store = page_source ok view rd
  for ok :: "'s \<Rightarrow> bool" and view :: "'s \<Rightarrow> page_id \<Rightarrow> bytes option" and rd :: "page_id \<Rightarrow> ('s, 'e, bytes) op" +
  fixes room :: "nat \<Rightarrow> 's \<Rightarrow> bool"
    and wr :: "page_id \<Rightarrow> bytes \<Rightarrow> ('s, 'e, unit) op"
    and al :: "('s, 'e, page_id) op"
  assumes rd_room: "ok s \<Longrightarrow> room n s \<Longrightarrow> rd i s = (res, s') \<Longrightarrow> room n s'"
    and wr_view: "ok s \<Longrightarrow> view s i = Some d \<Longrightarrow> length d' = PAGE_SIZE \<Longrightarrow>
      \<exists>s'. wr i d' s = (Inr (), s') \<and> ok s' \<and> view s' = (view s)(i \<mapsto> d')"
    and wr_room: "ok s \<Longrightarrow> room n s \<Longrightarrow> wr i d' s = (res', s') \<Longrightarrow> room n s'"
    and al_view: "ok s \<Longrightarrow> room (Suc n) s \<Longrightarrow>
      \<exists>i d s'. al s = (Inr i, s') \<and> ok s' \<and> view s i = None \<and> view s' = (view s)(i \<mapsto> d) \<and> room n s'"
    and room_less: "room (Suc n) s \<Longrightarrow> room n s"
begin

lemma room_le: "m \<le> n \<Longrightarrow> room n s \<Longrightarrow> room m s"
  by (induction n) (auto simp: le_Suc_eq dest: room_less)

lemma rd_step:
  assumes "ok s" and "view s i = Some d" and "room n s"
  obtains s' where "rd i s = (Inr d, s')" and "ok s'" and "view s' = view s" and "room n s'"
  using rd_view [OF assms(1,2)] rd_room [OF assms(1,3)] by blast

lemma wr_step:
  assumes "ok s" and "view s i = Some d" and "length d' = PAGE_SIZE" and "room n s"
  obtains s' where "wr i d' s = (Inr (), s')" and "ok s'" and "view s' = (view s)(i \<mapsto> d')" and "room n s'"
  using wr_view [OF assms(1-3)] wr_room [OF assms(1,4)] by blast

text \<open>A split: allocate a page, rewrite an old one, fill the new one.\<close>

lemma split_step:
  assumes s: "ok s" "view s i = Some d" "room (Suc n) s" and len: "\<And>j. length (a j) = PAGE_SIZE" "\<And>j. length (b j) = PAGE_SIZE"
  obtains j s1 s2 s3 where "al s = (Inr j, s1)" and "wr i (a j) s1 = (Inr (), s2)" and "wr j (b j) s2 = (Inr (), s3)"
    and "ok s3" and "view s j = None" and "view s3 = (view s)(i \<mapsto> a j, j \<mapsto> b j)" and "room n s3"
proof -
  obtain j e s1 where 1: "al s = (Inr j, s1)" "ok s1" "view s j = None" "view s1 = (view s)(j \<mapsto> e)" "room n s1"
    using al_view [OF s(1,3)] by blast
  then have "view s1 i = Some d" using s(2) by auto
  from wr_step [OF 1(2) this len(1) 1(5)]
  obtain s2 where 2: "wr i (a j) s1 = (Inr (), s2)" "ok s2" "view s2 = (view s1)(i \<mapsto> a j)" "room n s2" .
  have ij: "i \<noteq> j" using s(2) 1(3) by auto
  then have "view s2 j = Some e" using 1(4) 2(3) by simp
  from wr_step [OF 2(2) this len(2) 2(4)]
  obtain s3 where 3: "wr j (b j) s2 = (Inr (), s3)" "ok s3" "view s3 = (view s2)(j \<mapsto> b j)" "room n s3" .
  have "view s3 = (view s)(i \<mapsto> a j, j \<mapsto> b j)" using 1(4) 2(3) 3(3) ij by auto
  then show ?thesis using that 1 2 3 by blast
qed

text \<open>A fresh page with its first content.\<close>

lemma fresh_step:
  assumes "ok s" and "room (Suc n) s" and "length b = PAGE_SIZE"
  obtains j s1 s2 where "al s = (Inr j, s1)" and "wr j b s1 = (Inr (), s2)" and "ok s2" and "view s j = None"
    and "view s2 = (view s)(j \<mapsto> b)" and "room n s2"
proof -
  obtain j e s1 where 1: "al s = (Inr j, s1)" "ok s1" "view s j = None" "view s1 = (view s)(j \<mapsto> e)" "room n s1"
    using al_view [OF assms(1,2)] by blast
  then have "view s1 j = Some e" by simp
  from wr_step [OF 1(2) this assms(3) 1(5)] that 1 show ?thesis by (metis fun_upd_upd)
qed

end

text \<open>Changing the error type keeps the laws.\<close>

definition op_err :: "('e \<Rightarrow> 'f) \<Rightarrow> ('s, 'e, 'a) op \<Rightarrow> ('s, 'f, 'a) op" where
  "op_err g m s = (case m s of (r, s') \<Rightarrow> (emap_err g r, s'))"

lemma op_err_Inr [simp]: "op_err g m s = (Inr x, s') \<longleftrightarrow> m s = (Inr x, s')"
  by (auto simp: op_err_def result_simps split: prod.splits)

lemma op_err_snd: "op_err g m s = (r, s') \<Longrightarrow> \<exists>r'. m s = (r', s')"
  by (auto simp: op_err_def split: prod.splits)

lemma page_source_op_err: "page_source ok view rd \<Longrightarrow> page_source ok view (\<lambda>i. op_err g (rd i))"
  by (simp add: page_source_def)

lemma page_store_op_err:
  assumes "page_store ok view rd room wr al"
  shows "page_store ok view (\<lambda>i. op_err g (rd i)) room (\<lambda>i d. op_err g (wr i d)) (op_err g al)"
proof -
  have src: "page_source ok view rd" and ax: "page_store_axioms ok view rd room wr al"
    using assms by (simp_all add: page_store_def)
  show ?thesis
    unfolding page_store_def page_store_axioms_def op_err_Inr
    using page_source_op_err [OF src] ax [unfolded page_store_axioms_def]
    by (blast dest!: op_err_snd)
qed

section \<open>The pager inside a transaction\<close>

definition with_tx :: "(tx \<Rightarrow> (pager, 'e, 'a) op) \<Rightarrow> (pager \<times> tx, 'e, 'a) op" where
  "with_tx f s = (case s of (pg, t) \<Rightarrow> (case f t pg of (r, pg') \<Rightarrow> (r, (pg', t))))"

definition tx_ok :: "pager \<times> tx \<Rightarrow> bool" where
  "tx_ok s \<longleftrightarrow> store_ok (fst s) \<and> alloc_ok (fst s) \<and> distinct (map fst (staged (snd s))) \<and>
     (\<forall>i d. map_of (staged (snd s)) i = Some d \<longrightarrow> i \<noteq> 0 \<and> length d = PAGE_SIZE)"

text \<open>A page in use is within the file and not free for reuse; the transaction sees its own staged
  image first.\<close>

definition tx_view :: "pager \<times> tx \<Rightarrow> page_id \<Rightarrow> bytes option" where
  "tx_view s i =
     (if i = 0 \<or> num_pages (fst s) \<le> i \<or> i \<in> r_set (reusable (fst s)) then None
      else case map_of (staged (snd s)) i of Some d \<Rightarrow> Some d | None \<Rightarrow> base_image (fst s) i)"

text \<open>Page ids are left, and a page the running transaction freed can be read for the journal.\<close>

definition tx_room :: "nat \<Rightarrow> pager \<times> tx \<Rightarrow> bool" where
  "tx_room n s \<longleftrightarrow> unat (num_pages (fst s)) + n < 2 ^ 32 \<and>
     (\<forall>i \<in> set (u_freed (undo (fst s))). i < num_pages (fst s) \<and>
        (i \<in> r_set (reusable (fst s)) \<longrightarrow> base_image (fst s) i \<noteq> None))"

lemma tx_view_pair:
  "tx_view (pg, t) i =
     (if i = 0 \<or> num_pages pg \<le> i \<or> i \<in> r_set (reusable pg) then None
      else case map_of (staged t) i of Some d \<Rightarrow> Some d | None \<Rightarrow> base_image pg i)"
  by (simp add: tx_view_def cong: option.case_cong)

lemma base_image_size: "pending_ok pg \<Longrightarrow> base_image pg i = Some d \<Longrightarrow> length d = PAGE_SIZE"
  by (auto simp: base_image_def pending_ok_def file_image_def get_range_def split: option.splits if_splits)

lemma tx_view_size: "tx_ok s \<Longrightarrow> tx_view s i = Some d \<Longrightarrow> length d = PAGE_SIZE"
  by (cases s) (auto simp: tx_ok_def tx_view_pair store_ok_def base_image_size split: if_splits option.splits)

lemma tx_ok_pool:
  "pg' = pg\<lparr>pool := pool pg'\<rparr> \<Longrightarrow> coherent pg' \<Longrightarrow> tx_ok (pg, t) \<Longrightarrow>
     tx_ok (pg', t) \<and> tx_view (pg', t) = tx_view (pg, t) \<and> (\<forall>n. tx_room n (pg', t) = tx_room n (pg, t))"
proof -
  assume e: "pg' = pg\<lparr>pool := pool pg'\<rparr>" and c: "coherent pg'" and ok: "tx_ok (pg, t)"
  have b: "base_image pg' = base_image pg" "reusable pg' = reusable pg" "num_pages pg' = num_pages pg"
    "undo pg' = undo pg" "pending_writes pg' = pending_writes pg"
    using e by (metis base_image_upd(1)) (cases pg; cases pg'; use e in simp)+
  then show ?thesis
    using c ok by (auto simp: tx_ok_def store_ok_def pending_ok_def alloc_ok_def tx_view_pair tx_room_def fun_eq_iff
        cong: if_cong option.case_cong)
qed

lemma reader_page_current:
  assumes "tx_ok (pg, t)"
  shows "tx_view (pg, t) i = Some d \<Longrightarrow> \<exists>pg'. reader_page Current (Some t) i pg = (Inr d, pg')"
    and "reader_page Current (Some t) i pg = (res, pg') \<Longrightarrow>
      tx_ok (pg', t) \<and> tx_view (pg', t) = tx_view (pg, t) \<and> (\<forall>n. tx_room n (pg', t) = tx_room n (pg, t))"
proof -
  have co: "coherent pg" using assms by (simp add: tx_ok_def store_ok_def)
  show "\<exists>pg'. reader_page Current (Some t) i pg = (Inr d, pg')" if v: "tx_view (pg, t) i = Some d"
  proof (cases "map_of (staged t) i")
    case None
    then have "i \<noteq> 0" "i < num_pages pg" "base_image pg i = Some d"
      using v by (auto simp: tx_view_pair split: if_splits)
    from read_page_shared_image [OF co this] show ?thesis
      using None by (auto simp: reader_page_def staged_page_def)
  qed (use v in \<open>auto simp: tx_view_pair reader_page_def staged_page_def split: if_splits\<close>)
  show "tx_ok (pg', t) \<and> tx_view (pg', t) = tx_view (pg, t) \<and> (\<forall>n. tx_room n (pg', t) = tx_room n (pg, t))"
    if r: "reader_page Current (Some t) i pg = (res, pg')"
  proof (cases "map_of (staged t) i")
    case None
    then have "read_page_shared i pg = (res, pg')" using r by (simp add: reader_page_def staged_page_def)
    from read_page_shared_keeps [OF co this] tx_ok_pool [of pg' pg t] assms show ?thesis by blast
  qed (use r assms in \<open>simp add: reader_page_def staged_page_def\<close>)
qed

lemma record_set_frame: "record_set i base pg = pg\<lparr>undo := undo (record_set i base pg)\<rparr>"
  by (simp add: record_set_def Let_def)

lemma record_set_freed: "u_freed (undo (record_set i base pg)) = u_freed (undo pg)"
  by (simp add: record_set_def Let_def)

lemma splice_whole: "length base = length d \<Longrightarrow> splice base 0 d = d"
  by (simp add: splice_def)

text \<open>A successful or failed full-page write leaves the pager but for the journal.\<close>

lemma write_page_frame:
  assumes "write_page i off d (pg, t) = (res, (pg', t'))"
  shows "\<exists>u. pg' = pg\<lparr>undo := u\<rparr> \<and> u_freed u = u_freed (undo pg)"
proof -
  consider "pg' = pg" | base where "pg' = record_set i base pg"
    using assms by (auto simp: write_page_def split: if_splits option.splits sum.splits)
  then show ?thesis
  proof cases
    case 1
    then show ?thesis by (intro exI [of _ "undo pg"]) simp
  next
    case 2
    then show ?thesis using record_set_frame record_set_freed by metis
  qed
qed

lemma write_page_view:
  assumes ok: "tx_ok (pg, t)" and v: "tx_view (pg, t) i = Some d" and len: "length d' = PAGE_SIZE"
  shows "\<exists>s'. write_page i 0 d' (pg, t) = (Inr (), s') \<and> tx_ok s' \<and> tx_view s' = (tx_view (pg, t))(i \<mapsto> d')"
proof -
  have i: "i \<noteq> 0" "i < num_pages pg" "i \<notin> r_set (reusable pg)"
    using v by (auto simp: tx_view_pair split: if_splits)
  have "length d = length d'" using tx_view_size [OF ok v] len by simp
  define t' where "t' = t\<lparr>staged := AList.update i d' (staged t)\<rparr>"
  have keep: "tx_ok (pg\<lparr>undo := u\<rparr>, t') \<and> tx_view (pg\<lparr>undo := u\<rparr>, t') = (tx_view (pg, t))(i \<mapsto> d')" for u
    using ok i len
    by (auto simp: tx_ok_def t'_def update_conv' distinct_update alloc_ok_def tx_view_pair fun_eq_iff simp del: map_of_eq_Some_iff cong: option.case_cong)
  show ?thesis
  proof (cases "map_of (staged t) i")
    case (Some base)
    then have "base = d" using v i by (simp add: tx_view_pair split: if_splits)
    then have "write_page i 0 d' (pg, t) = (Inr (), (pg\<lparr>undo := undo pg\<rparr>, t'))"
      using Some i len \<open>length d = length d'\<close> by (simp add: write_page_def t'_def splice_whole)
    then show ?thesis using keep by blast
  next
    case None
    then have "base_image pg i = Some d" using v i by (simp add: tx_view_pair split: if_splits)
    then have "current_page_image i pg = Inr d"
      using current_page_image_base [of pg i] ok i by (simp add: tx_ok_def store_ok_def)
    then have "write_page i 0 d' (pg, t) = (Inr (), (record_set i d pg, t'))"
      using None i len \<open>length d = length d'\<close> by (simp add: write_page_def t'_def splice_whole not_le)
    then show ?thesis using keep record_set_frame [of i d pg] by metis
  qed
qed

lemma record_alloc_ok:
  assumes "i \<in> set (u_freed (undo pg)) \<Longrightarrow> \<exists>d. current_page_image i pg = Inr d"
  shows "\<exists>u. record_alloc i pg = (Inr (), pg\<lparr>undo := u\<rparr>) \<and> u_freed u = u_freed (undo pg)"
proof (cases "u_active (undo pg) \<and> \<not> u_replaying (undo pg)")
  case False
  then show ?thesis by (intro exI [of _ "undo pg"]) (auto simp: record_alloc_def Let_def)
next
  case act: True
  show ?thesis
  proof (cases "i \<in> set (u_freed (undo pg))")
    case True
    then obtain d where d: "current_page_image i pg = Inr d" using assms by blast
    show ?thesis
    proof (cases "i \<in> set (u_recorded (undo pg))")
      case False
      then show ?thesis
        using True act d
        by (intro exI [of _ "(undo pg)\<lparr>u_recorded := u_recorded (undo pg) @ [i], u_ops := u_ops (undo pg) @ [USet i d, URealloc i]\<rparr>"])
          (simp add: record_alloc_def Let_def)
    qed (use True act in \<open>intro exI [of _ "undo pg"], simp add: record_alloc_def Let_def\<close>)
  next
    case False
    then show ?thesis
      using act by (intro exI [of _ "(undo pg)\<lparr>u_ops := u_ops (undo pg) @ [UAlloc i]\<rparr>"]) (simp add: record_alloc_def Let_def)
  qed
qed

lemma allocate_page_eq:
  assumes "reusable_pop (reusable pg) = (got, r)" and "got = None \<Longrightarrow> num_pages pg \<noteq> 0 \<and> num_pages pg \<noteq> - 1"
    and "i = (case got of Some i \<Rightarrow> i | None \<Rightarrow> num_pages pg)"
    and "pg1 = (if got = None then pg\<lparr>reusable := r, num_pages := num_pages pg + 1\<rparr> else pg\<lparr>reusable := r\<rparr>)"
    and "record_alloc i pg1 = (Inr (), pg2)"
    and "t' = t\<lparr>reused := reused t @ [i], staged := (if map_of (staged t) i = None then AList.update i zero_page (staged t) else staged t)\<rparr>"
  shows "allocate_page (pg, t) = (Inr i, (pg2, t'))"
  using assms by (cases got) (auto simp: allocate_page_def Let_def)

text \<open>Taking page \<open>i\<close> into use.\<close>

lemma take_page_view:
  assumes ok: "tx_ok (pg, t)" and i: "i \<noteq> 0" "i < n'" "i \<in> r_set (reusable pg) \<or> num_pages pg \<le> i"
    and n': "n' \<noteq> 0" "\<And>j. j < n' \<longleftrightarrow> j < num_pages pg \<or> j = i" and r: "reusable_ok r" "r_set r = r_set (reusable pg) - {i}"
    and t': "t' = t\<lparr>reused := reused t @ [i], staged := (if map_of (staged t) i = None then AList.update i zero_page (staged t) else staged t)\<rparr>"
    and pg': "pg' = pg\<lparr>reusable := r, num_pages := n', undo := u\<rparr>"
  shows "tx_ok (pg', t') \<and> tx_view (pg, t) i = None \<and>
    tx_view (pg', t') = (tx_view (pg, t))(i \<mapsto> case map_of (staged t) i of Some d \<Rightarrow> d | None \<Rightarrow> zero_page)"
proof (intro conjI)
  show "tx_ok (pg', t')"
    using ok i(1) n' r by (auto simp: tx_ok_def pg' t' alloc_ok_def update_conv' distinct_update zero_page_def simp del: map_of_eq_Some_iff)
  show "tx_view (pg, t) i = None" using i by (auto simp: tx_view_pair)
  show "tx_view (pg', t') = (tx_view (pg, t))(i \<mapsto> case map_of (staged t) i of Some d \<Rightarrow> d | None \<Rightarrow> zero_page)"
  proof
    fix j
    have lt: "num_pages pg' \<le> j \<longleftrightarrow> \<not> (j < num_pages pg \<or> j = i)" using n'(2) [of j] by (auto simp: pg')
    show "tx_view (pg', t') j = ((tx_view (pg, t))(i \<mapsto> case map_of (staged t) i of Some d \<Rightarrow> d | None \<Rightarrow> zero_page)) j"
    proof (cases "j = i")
      case True
      then show ?thesis using i lt r by (auto simp: tx_view_pair pg' t' update_conv' split: option.splits)
    next
      case False
      have "num_pages pg' \<le> j \<longleftrightarrow> num_pages pg \<le> j" using lt False by (simp add: not_less)
      moreover have "j \<in> r_set (reusable pg') \<longleftrightarrow> j \<in> r_set (reusable pg)" using False r by (simp add: pg')
      moreover have "map_of (staged t') j = map_of (staged t) j" using False by (simp add: t' update_conv')
      moreover have "base_image pg' j = base_image pg j" by (simp add: pg')
      ultimately show ?thesis using False by (simp add: tx_view_pair cong: option.case_cong)
    qed
  qed
qed

lemma allocate_page_view:
  assumes ok: "tx_ok (pg, t)" and room: "tx_room (Suc n) (pg, t)"
  shows "\<exists>i d s'. allocate_page (pg, t) = (Inr i, s') \<and> tx_ok s' \<and> tx_view (pg, t) i = None \<and>
    tx_view s' = (tx_view (pg, t))(i \<mapsto> d) \<and> tx_room n s'"
proof -
  obtain got r where po: "reusable_pop (reusable pg) = (got, r)" by fastforce
  define i where "i = (case got of Some i \<Rightarrow> i | None \<Rightarrow> num_pages pg)"
  define n' where "n' = (if got = None then num_pages pg + 1 else num_pages pg)"
  have so: "coherent pg" "alloc_ok pg" using ok by (simp_all add: tx_ok_def store_ok_def)
  have np: "unat (num_pages pg) + Suc n < 2 ^ 32" using room by (simp add: tx_room_def)
  have suc: "unat (num_pages pg + 1) = Suc (unat (num_pages pg))"
    using np by (simp add: unat_word_ariths)
  then have np1: "num_pages pg \<noteq> - 1" by auto
  have np2: "j < num_pages pg + 1 \<longleftrightarrow> j < num_pages pg \<or> j = num_pages pg" for j
    using suc by (simp add: word_less_nat_alt word_unat_eq_iff less_Suc_eq)
  have pos: "num_pages pg \<noteq> 0" using so(2) by (simp add: alloc_ok_def)
  have taken: "i \<noteq> 0 \<and> i < n' \<and> (i \<in> r_set (reusable pg) \<or> num_pages pg \<le> i) \<and> n' \<noteq> 0 \<and>
    (\<forall>j. j < n' \<longleftrightarrow> j < num_pages pg \<or> j = i) \<and> reusable_ok r \<and> r_set r = r_set (reusable pg) - {i} \<and>
    unat n' \<le> Suc (unat (num_pages pg))"
  proof (cases got)
    case None
    have "num_pages pg + 1 \<noteq> 0" using suc by auto
    then show ?thesis
      using None reusable_pop_None [of "reusable pg" r] po so(2) pos np2 suc by (auto simp: i_def n'_def alloc_ok_def)
  next
    case (Some k)
    then show ?thesis
      using reusable_pop_Some [of "reusable pg" k r] po so(2) pos by (auto simp: i_def n'_def alloc_ok_def)
  qed
  define pg1 where "pg1 = pg\<lparr>reusable := r, num_pages := n'\<rparr>"
  have freed: "\<exists>d. current_page_image i pg1 = Inr d" if "i \<in> set (u_freed (undo pg1))"
  proof -
    have "base_image pg i \<noteq> None"
      using that room taken by (auto simp: tx_room_def pg1_def)
    then show ?thesis
      using current_page_image_base [of pg1 i] so taken by (auto simp: pg1_def)
  qed
  obtain u where u: "record_alloc i pg1 = (Inr (), pg1\<lparr>undo := u\<rparr>)" "u_freed u = u_freed (undo pg1)"
    using record_alloc_ok [OF freed] by blast
  define t' where "t' = t\<lparr>reused := reused t @ [i], staged := (if map_of (staged t) i = None then AList.update i zero_page (staged t) else staged t)\<rparr>"
  have "allocate_page (pg, t) = (Inr i, (pg1\<lparr>undo := u\<rparr>, t'))"
    by (rule allocate_page_eq [OF po _ i_def _ u(1) t'_def]) (use pos np1 in \<open>auto simp: pg1_def n'_def\<close>)
  moreover have "tx_ok (pg1\<lparr>undo := u\<rparr>, t') \<and> tx_view (pg, t) i = None \<and> tx_view (pg1\<lparr>undo := u\<rparr>, t') =
      (tx_view (pg, t))(i \<mapsto> case map_of (staged t) i of Some d \<Rightarrow> d | None \<Rightarrow> zero_page)"
    by (rule take_page_view [OF ok _ _ _ _ _ _ _ t'_def]) (use taken in \<open>auto simp: pg1_def\<close>)
  moreover have "tx_room n (pg1\<lparr>undo := u\<rparr>, t')"
    using room taken u(2) by (auto simp: tx_room_def pg1_def)
  ultimately show ?thesis by blast
qed

section \<open>The instance\<close>

definition tx_read :: "page_id \<Rightarrow> bytes tx_op" where
  "tx_read i = with_tx (\<lambda>t. reader_page Current (Some t) i)"

lemma tx_read_page:
  "tx_ok s \<Longrightarrow> tx_view s i = Some d \<Longrightarrow> \<exists>s'. tx_read i s = (Inr d, s') \<and> tx_ok s' \<and> tx_view s' = tx_view s"
  using reader_page_current [of "fst s" "snd s" i] by (cases s) (fastforce simp: tx_read_def with_tx_def split: prod.splits)

interpretation tx_store: page_store tx_ok tx_view tx_read tx_room "\<lambda>i. write_page i 0" allocate_page
proof
  fix s s' :: "pager \<times> tx" and i n d d' res res'
  obtain pg t pg' t' where s: "s = (pg, t)" "s' = (pg', t')" by (cases s, cases s') auto
  assume ok: "tx_ok s"
  show "tx_view s i = Some d \<Longrightarrow> length d = PAGE_SIZE" by (rule tx_view_size [OF ok])
  show "tx_view s i = Some d \<Longrightarrow> \<exists>s'. tx_read i s = (Inr d, s') \<and> tx_ok s' \<and> tx_view s' = tx_view s"
    by (rule tx_read_page [OF ok])
  show "tx_view s i = Some d \<Longrightarrow> length d' = PAGE_SIZE \<Longrightarrow>
      \<exists>s'. write_page i 0 d' s = (Inr (), s') \<and> tx_ok s' \<and> tx_view s' = (tx_view s)(i \<mapsto> d')"
    using write_page_view ok s by blast
  show "tx_room n s \<Longrightarrow> tx_read i s = (res, s') \<Longrightarrow> tx_room n s'"
    using reader_page_current(2) [of pg t i res pg'] ok s by (auto simp: tx_read_def with_tx_def split: prod.splits)
  show "tx_room n s \<Longrightarrow> write_page i 0 d' s = (res', s') \<Longrightarrow> tx_room n s'"
    using s write_page_frame [of i 0 d' pg t res' pg' t'] by (auto simp: tx_room_def)
  show "tx_room (Suc n) s \<Longrightarrow> \<exists>i d s'. allocate_page s = (Inr i, s') \<and> tx_ok s' \<and> tx_view s i = None \<and>
      tx_view s' = (tx_view s)(i \<mapsto> d) \<and> tx_room n s'"
    using allocate_page_view ok s by blast
qed (simp add: tx_room_def)

end
