(* ===== verification/Btree.thy ===== *)
theory Btree
  imports Page_Store Encode_Props
begin

text \<open>
  The page-backed B+ tree of \<open>btree.rs\<close>: node pages, lookup on serialized pages, insertion with
  splits, deletion and the ordered walks. Keys are values ordered by \<open>cmp_values\<close>, payloads are
  64-bit record locators.

  Every recursive function of the source carries a \<open>depth\<close> and fails when it exceeds
  \<open>MAX_TREE_DEPTH\<close>. The model counts the levels that are left, \<open>MAX_TREE_DEPTH + 1 - depth\<close>, so the
  guard is the case 0 and the recursion is structural. Pages handed out by the pager have
  \<open>PAGE_SIZE\<close> bytes, so the unchecked accesses to the first bytes of a page are in range. The
  \<open>scratch\<close> buffers are reuse of memory only and are left out.
\<close>

section \<open>Library functions\<close>

text \<open>\<open>slice::binary_search_by\<close>, \<open>Err\<close> as \<open>Inl\<close>, and \<open>slice::partition_point\<close>.\<close>

function bsearch_loop :: "('a \<Rightarrow> ordering) \<Rightarrow> 'a list \<Rightarrow> nat \<Rightarrow> nat \<Rightarrow> nat" where
  "bsearch_loop f xs base size' =
     (if 1 < size'
      then let half = size' div 2; mid = base + half
           in bsearch_loop f xs (if f (xs ! mid) = Greater then base else mid) (size' - half)
      else base)"
  by pat_completeness auto
termination
  by (relation "measure (\<lambda>(_, _, _, n). n)") auto

declare bsearch_loop.simps [simp del]

definition binary_search_by :: "('a \<Rightarrow> ordering) \<Rightarrow> 'a list \<Rightarrow> nat + nat" where
  "binary_search_by f xs =
     (if xs = [] then Inl 0
      else let base = bsearch_loop f xs 0 (length xs)
           in case f (xs ! base) of Equal \<Rightarrow> Inr base | Less \<Rightarrow> Inl (base + 1) | Greater \<Rightarrow> Inl base)"

definition partition_point :: "('a \<Rightarrow> bool) \<Rightarrow> 'a list \<Rightarrow> nat" where
  "partition_point P xs =
     (case binary_search_by (\<lambda>x. if P x then Less else Greater) xs of Inl i \<Rightarrow> i | Inr i \<Rightarrow> i)"

text \<open>\<open>Iterator::position\<close> and \<open>Vec::insert\<close>.\<close>

fun position :: "('a \<Rightarrow> bool) \<Rightarrow> 'a list \<Rightarrow> nat option" where
  "position P [] = None"
| "position P (x # xs) = (if P x then Some 0 else map_option Suc (position P xs))"

definition vec_insert :: "nat \<Rightarrow> 'a \<Rightarrow> 'a list \<Rightarrow> 'a list" where
  "vec_insert i x xs = take i xs @ x # drop i xs"

definition vec_remove :: "nat \<Rightarrow> 'a list \<Rightarrow> 'a list" where
  "vec_remove i xs = take i xs @ drop (Suc i) xs"

section \<open>Constants, errors, nodes\<close>

definition LEAF :: u8 where "LEAF = 1"
definition INTERNAL :: u8 where "INTERNAL = 2"
definition LEAF_CELL_CAP :: nat where "LEAF_CELL_CAP = (PAGE_SIZE - 3) div 2"
definition INTERNAL_CELL_CAP :: nat where "INTERNAL_CELL_CAP = (PAGE_SIZE - 7) div 2"
definition MAX_TREE_DEPTH :: nat where "MAX_TREE_DEPTH = 64"

datatype btree_error =
    BPager pager_error
  | BEncode encode_error
  | KeyTooLarge nat
  | Duplicate
  | BCorrupt string

datatype 'd node =
    Leaf "('d Value \<times> u64) list"
  | Internal page_id "('d Value \<times> page_id) list"

record btree =
  bt_root :: page_id

type_synonym 'a bt_read = "(pager, btree_error, 'a) op"
type_synonym 'a bt_write = "(pager \<times> tx, btree_error, 'a) op"

definition enc_lift :: "encode_error + 'a \<Rightarrow> btree_error + 'a" where
  "enc_lift = emap_err BEncode"

definition depth_error :: btree_error where
  "depth_error = BCorrupt ''tree depth exceeds limit (cycle?)''"

section \<open>Sizes and split points\<close>

fun node_bytes :: "'d decimal_ops \<Rightarrow> ('d Value \<times> 'v) list \<Rightarrow> nat \<Rightarrow> nat \<Rightarrow> btree_error + nat" where
  "node_bytes D [] n width = Inr n"
| "node_bytes D ((k, _) # cs) n width =
     ebind (enc_lift (encode_to_vec D k)) (\<lambda>kb. node_bytes D cs (n + (2 + length kb + width)) width)"

text \<open>The running sums of \<open>split_at_for_insert\<close>, without the first.\<close>

fun prefix_sums :: "'d decimal_ops \<Rightarrow> ('d Value \<times> 'v) list \<Rightarrow> nat \<Rightarrow> nat \<Rightarrow> btree_error + nat list" where
  "prefix_sums D [] n width = Inr []"
| "prefix_sums D ((k, _) # cs) n width =
     ebind (enc_lift (encode_to_vec D k)) (\<lambda>kb.
       let p = n + 2 + length kb + width
       in ebind (prefix_sums D cs p width) (\<lambda>ps. Inr (p # ps)))"

function split_walk :: "nat list \<Rightarrow> nat \<Rightarrow> nat \<Rightarrow> nat \<Rightarrow> nat \<Rightarrow> nat" where
  "split_walk psums header total_bytes boundary m =
     (if m < boundary \<and> PAGE_SIZE < header + (total_bytes - psums ! m)
      then split_walk psums header total_bytes boundary (m + 1) else m)"
  by pat_completeness auto
termination
  by (relation "measure (\<lambda>(_, _, _, b, m). b - m)") auto

declare split_walk.simps [simp del]

definition split_at_for_insert ::
    "'d decimal_ops \<Rightarrow> ('d Value \<times> 'v) list \<Rightarrow> nat \<Rightarrow> nat \<Rightarrow> nat \<Rightarrow> btree_error + nat" where
  "split_at_for_insert D cells pos header width =
     ebind (prefix_sums D cells header width) (\<lambda>ps.
       let psums = header # ps;
           total_bytes = List.last psums;
           boundary = (case position (\<lambda>p. PAGE_SIZE < p) psums of
                         Some i \<Rightarrow> max i 1 | None \<Rightarrow> length cells - 1);
           m = split_walk psums header total_bytes boundary (max (min boundary pos) 1)
       in Inr (min m (length cells - 1)))"

section \<open>Routing\<close>

definition descend :: "'d decimal_ops \<Rightarrow> ('d Value \<times> page_id) list \<Rightarrow> page_id \<Rightarrow> 'd Value \<Rightarrow> page_id" where
  "descend D cells leftmost key =
     (let idx = partition_point (\<lambda>(k, _). cmp_values D k key \<noteq> Greater) cells
      in if idx = 0 then leftmost else snd (cells ! (idx - 1)))"

fun bracketing :: "'d decimal_ops \<Rightarrow> 'd Value \<Rightarrow> page_id \<Rightarrow> ('d Value \<times> page_id) list \<Rightarrow> page_id list" where
  "bracketing D key primary [] = []"
| "bracketing D key primary ((k, child) # rest) =
     (let upper_ge = (case rest of (k', _) # _ \<Rightarrow> cmp_values D k' key \<noteq> Less | [] \<Rightarrow> True)
      in (if child \<noteq> primary \<and> cmp_values D k key \<noteq> Greater \<and> upper_ge then [child] else [])
         @ bracketing D key primary rest)"

definition candidate_children ::
    "'d decimal_ops \<Rightarrow> ('d Value \<times> page_id) list \<Rightarrow> page_id \<Rightarrow> 'd Value \<Rightarrow> page_id list" where
  "candidate_children D cells leftmost key =
     (let primary = descend D cells leftmost key;
          leftmost_upper_ge = (case cells of (k, _) # _ \<Rightarrow> cmp_values D k key \<noteq> Less | [] \<Rightarrow> True)
      in [primary] @ (if leftmost_upper_ge \<and> leftmost \<noteq> primary then [leftmost] else [])
         @ bracketing D key primary cells)"

section \<open>Serialized nodes\<close>

definition take_or :: "bytes \<Rightarrow> nat \<Rightarrow> nat \<Rightarrow> btree_error + bytes" where
  "take_or page' pos n =
     (case get_range page' pos n of Some r \<Rightarrow> Inr r | None \<Rightarrow> Inl (BCorrupt ''truncated node page''))"

definition u16_at :: "bytes \<Rightarrow> nat" where
  "u16_at bs = unat (from_le_bytes bs :: u16)"

fun starts_loop :: "bytes \<Rightarrow> nat \<Rightarrow> nat \<Rightarrow> nat \<Rightarrow> btree_error + nat list \<times> nat" where
  "starts_loop page' width 0 pos = Inr ([], pos)"
| "starts_loop page' width (Suc n) pos =
     ebind (take_or page' pos 2) (\<lambda>l.
       ebind (starts_loop page' width n (pos + (2 + u16_at l + width))) (\<lambda>(ss, e). Inr (pos # ss, e)))"

definition node_starts :: "bytes \<Rightarrow> btree_error + u8 \<times> page_id option \<times> nat list" where
  "node_starts page' =
     (case page' of
        [] \<Rightarrow> Inl (BCorrupt ''empty node page'')
      | kind' # _ \<Rightarrow>
          if kind' \<noteq> LEAF \<and> kind' \<noteq> INTERNAL then Inl (BCorrupt ''unknown node type'')
          else
            ebind (take_or page' 1 2) (\<lambda>c.
              ebind (if kind' = INTERNAL
                     then ebind (take_or page' 3 4) (\<lambda>b. Inr (Some (from_le_bytes b)))
                     else Inr None) (\<lambda>leftmost.
                ebind (starts_loop page' (if kind' = INTERNAL then 4 else 8) (u16_at c)
                         (if kind' = INTERNAL then 7 else 3)) (\<lambda>(starts, pos).
                  if length page' < pos then Inl (BCorrupt ''truncated node page'')
                  else Inr (kind', leftmost, starts)))))"

definition decode_key_at :: "'d decimal_ops \<Rightarrow> bytes \<Rightarrow> nat \<Rightarrow> btree_error + 'd Value" where
  "decode_key_at D page' pos =
     ebind (take_or page' pos 2) (\<lambda>l.
       ebind (take_or page' (pos + 2) (u16_at l)) (\<lambda>buf.
         ebind (enc_lift (decode_prefix D buf)) (\<lambda>(k, used).
           if used \<noteq> u16_at l then Inl (BCorrupt ''node cell key length mismatch'') else Inr k)))"

definition child_at :: "bytes \<Rightarrow> nat \<Rightarrow> nat \<Rightarrow> btree_error + page_id" where
  "child_at page' pos klen = ebind (take_or page' (pos + 2 + klen) 4) (\<lambda>b. Inr (from_le_bytes b))"

definition val_at :: "bytes \<Rightarrow> nat \<Rightarrow> nat \<Rightarrow> btree_error + u64" where
  "val_at page' pos klen = ebind (take_or page' (pos + 2 + klen) 8) (\<lambda>b. Inr (from_le_bytes b))"

function seek_loop ::
    "'d decimal_ops \<Rightarrow> bytes \<Rightarrow> nat list \<Rightarrow> 'd Value \<Rightarrow> bool \<Rightarrow> nat \<Rightarrow> nat \<Rightarrow> btree_error + nat" where
  "seek_loop D page' starts key want_gt lo hi =
     (if lo < hi
      then let mid = lo + (hi - lo) div 2
           in ebind (decode_key_at D page' (starts ! mid)) (\<lambda>k.
                let ord' = cmp_values D k key;
                    go_right = (if want_gt then ord' \<noteq> Greater else ord' = Less)
                in if go_right then seek_loop D page' starts key want_gt (mid + 1) hi
                   else seek_loop D page' starts key want_gt lo mid)
      else Inr lo)"
  by pat_completeness auto
termination
  by (relation "measure (\<lambda>(_, _, _, _, _, lo, hi). hi - lo)") auto

declare seek_loop.simps [simp del]

definition cells_seek :: "'d decimal_ops \<Rightarrow> bytes \<Rightarrow> nat list \<Rightarrow> 'd Value \<Rightarrow> bool \<Rightarrow> btree_error + nat" where
  "cells_seek D page' starts key want_gt = seek_loop D page' starts key want_gt 0 (length starts)"

section \<open>Reading and writing nodes\<close>

definition take_cell :: "bytes \<Rightarrow> nat \<Rightarrow> nat \<Rightarrow> btree_error + bytes" where
  "take_cell page' pos n =
     (case get_range page' pos n of Some r \<Rightarrow> Inr r | None \<Rightarrow> Inl (BCorrupt ''truncated node cell''))"

definition decode_cell_key :: "'d decimal_ops \<Rightarrow> bytes \<Rightarrow> nat \<Rightarrow> nat \<Rightarrow> btree_error + 'd Value \<times> nat" where
  "decode_cell_key D page' pos klen =
     ebind (take_cell page' pos klen) (\<lambda>buf.
       ebind (enc_lift (decode_prefix D buf)) (\<lambda>(k, used).
         if used \<noteq> klen then Inl (BCorrupt ''node cell key length mismatch'') else Inr (k, used)))"

text \<open>The cell loops of \<open>read_node\<close> and \<open>write_node\<close>; the payload is a \<open>u64\<close> in leaves and a \<open>u32\<close> in
  internal nodes, 8 and 4 bytes.\<close>

fun read_cells :: "'d decimal_ops \<Rightarrow> bytes \<Rightarrow> nat \<Rightarrow> nat \<Rightarrow> btree_error + ('d Value \<times> 'v::len word) list" where
  "read_cells D page' 0 pos = Inr []"
| "read_cells D page' (Suc n) pos =
     ebind (take_cell page' pos 2) (\<lambda>l.
       ebind (decode_cell_key D page' (pos + 2) (u16_at l)) (\<lambda>(k, used).
         ebind (take_cell page' (pos + 2 + used) (LENGTH('v) div 8)) (\<lambda>b.
           ebind (read_cells D page' n (pos + 2 + used + LENGTH('v) div 8)) (\<lambda>cells.
             Inr ((k, from_le_bytes b) # cells)))))"

definition parse_node :: "'d decimal_ops \<Rightarrow> bytes \<Rightarrow> btree_error + 'd node" where
  "parse_node D page' =
     (let count = u16_at [page' ! 1, page' ! 2]
      in if page' ! 0 = LEAF then ebind (read_cells D page' count 3) (\<lambda>cells. Inr (Leaf cells))
         else if page' ! 0 = INTERNAL then
           (let leftmost = from_le_bytes (sub_bytes page' 3 4)
            in ebind (read_cells D page' count 7) (\<lambda>cells. Inr (Internal leftmost cells)))
         else Inl (BCorrupt ''unknown node type''))"

definition read_node :: "'d decimal_ops \<Rightarrow> page_reader \<Rightarrow> tx \<Rightarrow> page_id \<Rightarrow> 'd node bt_read" where
  "read_node D reader t i =
     obind (op_err BPager (reader_page reader (Some t) i)) (\<lambda>page'. olift (parse_node D page'))"

fun write_cells :: "'d decimal_ops \<Rightarrow> ('d Value \<times> 'v::len word) list \<Rightarrow> bytes \<Rightarrow> nat \<Rightarrow> btree_error + bytes" where
  "write_cells D [] page' pos = Inr page'"
| "write_cells D ((k, v) # cells) page' pos =
     ebind (enc_lift (encode_to_vec D k)) (\<lambda>kb.
       if 2 ^ 16 \<le> length kb then Inl (KeyTooLarge (length kb))
       else if PAGE_SIZE < pos + 2 + length kb + LENGTH('v) div 8 then Inl (KeyTooLarge (length kb))
       else
         (let page1 = splice page' pos (to_le_bytes (word_of_nat (length kb) :: u16));
              page2 = splice page1 (pos + 2) kb;
              page3 = splice page2 (pos + 2 + length kb) (to_le_bytes v)
          in write_cells D cells page3 (pos + 2 + length kb + LENGTH('v) div 8)))"

definition format_node :: "'d decimal_ops \<Rightarrow> 'd node \<Rightarrow> btree_error + bytes" where
  "format_node D node =
     (case node of
        Leaf cells \<Rightarrow>
          (let page1 = zero_page[0 := LEAF];
               page2 = splice page1 1 (to_le_bytes (word_of_nat (length cells) :: u16))
           in write_cells D cells page2 3)
      | Internal leftmost cells \<Rightarrow>
          (let page1 = zero_page[0 := INTERNAL];
               page2 = splice page1 1 (to_le_bytes (word_of_nat (length cells) :: u16));
               page3 = splice page2 3 (to_le_bytes leftmost)
           in write_cells D cells page3 7))"

definition write_node :: "'d decimal_ops \<Rightarrow> page_id \<Rightarrow> 'd node \<Rightarrow> unit bt_write" where
  "write_node D i node =
     obind (olift (format_node D node)) (\<lambda>page'. op_err BPager (write_page i 0 page'))"

definition create :: "btree bt_write" where
  "create =
     obind (op_err BPager allocate_page) (\<lambda>i.
       obind (op_err BPager (write_page i 0 (zero_page[0 := LEAF]))) (\<lambda>_. oret \<lparr>bt_root = i\<rparr>))"

definition open_tree :: "page_id \<Rightarrow> btree" where
  "open_tree i = \<lparr>bt_root = i\<rparr>"

end
