(* ===== verification/Btree_Ops.thy ===== *)
theory Btree_Ops
  imports Btree
begin

text \<open>
  The operations of \<open>BTree\<close>: exact lookup, insertion with splits, page collection, deletion and the
  bounded walks in both directions. The vectors filled through \<open>&mut\<close> parameters are passed in and
  returned. \<open>insert\<close> returns the tree with its new root; on an error the root is unchanged.
\<close>

section \<open>Lookup\<close>

fun first_some :: "('a \<Rightarrow> ('s, 'e, 'b option) op) \<Rightarrow> 'a list \<Rightarrow> ('s, 'e, 'b option) op" where
  "first_some f [] = oret None"
| "first_some f (x # xs) =
     obind (f x) (\<lambda>r. case r of Some v \<Rightarrow> oret (Some v) | None \<Rightarrow> first_some f xs)"

text \<open>The child of the internal cell that starts at \<open>pos\<close>.\<close>

definition cell_child :: "bytes \<Rightarrow> nat \<Rightarrow> btree_error + page_id" where
  "cell_child page' pos = ebind (take_or page' pos 2) (\<lambda>l. child_at page' pos (u16_at l))"

definition leaf_get :: "'d decimal_ops \<Rightarrow> bytes \<Rightarrow> nat list \<Rightarrow> 'd Value \<Rightarrow> btree_error + u64 option" where
  "leaf_get D page' starts key =
     ebind (cells_seek D page' starts key False) (\<lambda>i.
       if i < length starts then
         (let pos = starts ! i
          in ebind (decode_key_at D page' pos) (\<lambda>k.
               if cmp_values D k key = Equal then
                 ebind (take_or page' pos 2) (\<lambda>l.
                   ebind (val_at page' pos (u16_at l)) (\<lambda>v. Inr (Some v)))
               else Inr None))
       else Inr None)"

primrec get_at :: "nat \<Rightarrow> 'd decimal_ops \<Rightarrow> page_reader \<Rightarrow> tx \<Rightarrow> 'd Value \<Rightarrow> page_id \<Rightarrow> u64 option bt_read" where
  "get_at 0 D reader t key i = ofail depth_error"
| "get_at (Suc n) D reader t key i =
     obind (op_err BPager (reader_page reader (Some t) i)) (\<lambda>page'.
       obind (olift (node_starts page')) (\<lambda>(kind', leftmost, starts).
         if kind' = LEAF then olift (leaf_get D page' starts key)
         else
           obind (olift (case leftmost of Some l \<Rightarrow> Inr l
                         | None \<Rightarrow> Inl (BCorrupt ''internal node missing leftmost''))) (\<lambda>leftmost.
             obind (olift (cells_seek D page' starts key False)) (\<lambda>s.
               obind (olift (cells_seek D page' starts key True)) (\<lambda>g.
                 obind (olift (if g = 0 then Inr leftmost else cell_child page' (starts ! (g - 1)))) (\<lambda>primary.
                   obind (get_at n D reader t key primary) (\<lambda>r.
                     case r of
                       Some v \<Rightarrow> oret (Some v)
                     | None \<Rightarrow>
                         obind (if s = 0 \<and> leftmost \<noteq> primary then get_at n D reader t key leftmost
                                else oret None) (\<lambda>r.
                           case r of
                             Some v \<Rightarrow> oret (Some v)
                           | None \<Rightarrow>
                               first_some (\<lambda>pos.
                                 obind (olift (cell_child page' pos)) (\<lambda>child.
                                   if child = primary then oret None
                                   else get_at n D reader t key child))
                                 (sub_bytes starts (s - 1) ((g - 1) - (s - 1)))))))))))"

definition get :: "'d decimal_ops \<Rightarrow> btree \<Rightarrow> page_reader \<Rightarrow> tx \<Rightarrow> 'd Value \<Rightarrow> u64 option bt_read" where
  "get D bt reader t key = get_at (MAX_TREE_DEPTH + 1) D reader t key (bt_root bt)"

section \<open>Insertion\<close>

definition read_node_tx :: "'d decimal_ops \<Rightarrow> page_id \<Rightarrow> 'd node bt_write" where
  "read_node_tx D i = with_tx (\<lambda>t. read_node D Current t i)"

definition leaf_insert ::
    "'d decimal_ops \<Rightarrow> page_id \<Rightarrow> ('d Value \<times> u64) list \<Rightarrow> 'd Value \<Rightarrow> u64 \<Rightarrow> bool \<Rightarrow> ('d Value \<times> page_id) option bt_write" where
  "leaf_insert D i cells key val unique =
     (let pos = partition_point (\<lambda>(k, _). cmp_values D k key \<noteq> Greater) cells
      in if unique \<and> 0 < pos \<and> cmp_values D (fst (cells ! (pos - 1))) key = Equal then ofail Duplicate
         else
           obind (olift (enc_lift (encode_to_vec D key))) (\<lambda>kb.
             if LEAF_CELL_CAP < 2 + length kb + 8 then ofail (KeyTooLarge (length kb))
             else
               (let cells = vec_insert pos (key, val) cells
                in obind (olift (node_bytes D cells 3 8)) (\<lambda>n.
                     if n \<le> PAGE_SIZE then obind (write_node D i (Leaf cells)) (\<lambda>_. oret None)
                     else
                       obind (olift (split_at_for_insert D cells pos 3 8)) (\<lambda>m.
                         obind (op_err BPager allocate_page) (\<lambda>right.
                           obind (write_node D i (Leaf (take m cells))) (\<lambda>_.
                             obind (write_node D right (Leaf (drop m cells))) (\<lambda>_.
                               oret (Some (fst (cells ! m), right))))))))))"

definition internal_insert ::
    "'d decimal_ops \<Rightarrow> page_id \<Rightarrow> page_id \<Rightarrow> ('d Value \<times> page_id) list \<Rightarrow> 'd Value \<Rightarrow> page_id \<Rightarrow>
       ('d Value \<times> page_id) option bt_write" where
  "internal_insert D i leftmost cells mid right =
     (let pos = partition_point (\<lambda>(k, _). cmp_values D k mid \<noteq> Greater) cells
      in obind (olift (enc_lift (encode_to_vec D mid))) (\<lambda>mb.
           if INTERNAL_CELL_CAP < 2 + length mb + 4 then ofail (KeyTooLarge (length mb))
           else
             (let cells = vec_insert pos (mid, right) cells
              in obind (olift (node_bytes D cells 7 4)) (\<lambda>n.
                   if n \<le> PAGE_SIZE then obind (write_node D i (Internal leftmost cells)) (\<lambda>_. oret None)
                   else
                     obind (olift (split_at_for_insert D cells pos 7 4)) (\<lambda>m.
                       let right_cells = drop m cells
                       in obind (op_err BPager allocate_page) (\<lambda>right.
                            obind (write_node D i (Internal leftmost (take m cells))) (\<lambda>_.
                              obind (write_node D right (Internal (snd (right_cells ! 0)) (drop 1 right_cells))) (\<lambda>_.
                                oret (Some (fst (cells ! m), right))))))))))"

primrec insert_rec ::
    "nat \<Rightarrow> 'd decimal_ops \<Rightarrow> 'd Value \<Rightarrow> u64 \<Rightarrow> bool \<Rightarrow> page_id \<Rightarrow> ('d Value \<times> page_id) option bt_write" where
  "insert_rec 0 D key val unique i = ofail depth_error"
| "insert_rec (Suc n) D key val unique i =
     obind (read_node_tx D i) (\<lambda>node.
       case node of
         Leaf cells \<Rightarrow> leaf_insert D i cells key val unique
       | Internal leftmost cells \<Rightarrow>
           obind (insert_rec n D key val unique (descend D cells leftmost key)) (\<lambda>split'.
             case split' of
               None \<Rightarrow> oret None
             | Some (mid, right) \<Rightarrow> internal_insert D i leftmost cells mid right))"

definition insert :: "'d decimal_ops \<Rightarrow> btree \<Rightarrow> 'd Value \<Rightarrow> u64 \<Rightarrow> bool \<Rightarrow> btree bt_write" where
  "insert D bt key val unique =
     obind (insert_rec (MAX_TREE_DEPTH + 1) D key val unique (bt_root bt)) (\<lambda>split'.
       case split' of
         None \<Rightarrow> oret bt
       | Some (mid, right) \<Rightarrow>
           obind (op_err BPager allocate_page) (\<lambda>new_root.
             obind (write_node D new_root (Internal (bt_root bt) [(mid, right)])) (\<lambda>_.
               oret \<lparr>bt_root = new_root\<rparr>)))"

section \<open>Page collection\<close>

primrec collect_rec ::
    "nat \<Rightarrow> 'd decimal_ops \<Rightarrow> page_reader \<Rightarrow> tx \<Rightarrow> page_id \<Rightarrow> page_id list \<times> page_id set \<Rightarrow>
       (page_id list \<times> page_id set) bt_read" where
  "collect_rec 0 D reader t i acc = ofail depth_error"
| "collect_rec (Suc n) D reader t i acc =
     (case acc of (out, seen) \<Rightarrow>
        if i \<in> seen then oret (out, seen)
        else
          obind (read_node D reader t i) (\<lambda>node.
            case node of
              Leaf _ \<Rightarrow> oret (out @ [i], Set.insert i seen)
            | Internal leftmost cells \<Rightarrow>
                obind (collect_rec n D reader t leftmost (out @ [i], Set.insert i seen))
                  (for_each (collect_rec n D reader t) (map snd cells))))"

definition collect_pages :: "'d decimal_ops \<Rightarrow> btree \<Rightarrow> page_reader \<Rightarrow> tx \<Rightarrow> page_id list bt_read" where
  "collect_pages D bt reader t =
     obind (collect_rec (MAX_TREE_DEPTH + 1) D reader t (bt_root bt) ([], {})) (\<lambda>(out, _). oret out)"

section \<open>Full scans\<close>

definition filled :: "nat option \<Rightarrow> 'a list \<Rightarrow> bool" where
  "filled max' out = (case max' of Some m \<Rightarrow> m \<le> length out | None \<Rightarrow> False)"

fun push_cells :: "nat option \<Rightarrow> 'a list \<Rightarrow> 'a list \<Rightarrow> 'a list" where
  "push_cells max' [] out = out"
| "push_cells max' (c # cs) out =
     (let out = out @ [c] in if filled max' out then out else push_cells max' cs out)"

fun scan_children :: "nat option \<Rightarrow> (page_id \<Rightarrow> 'a list \<Rightarrow> ('s, 'e, 'a list) op) \<Rightarrow> page_id list \<Rightarrow> 'a list \<Rightarrow> ('s, 'e, 'a list) op" where
  "scan_children max' f [] out = oret out"
| "scan_children max' f (c # cs) out =
     (if filled max' out then oret out else obind (f c out) (scan_children max' f cs))"

type_synonym 'd entries = "('d Value \<times> u64) list"

primrec scan_rec :: "nat \<Rightarrow> 'd decimal_ops \<Rightarrow> page_reader \<Rightarrow> tx \<Rightarrow> nat option \<Rightarrow> page_id \<Rightarrow> 'd entries \<Rightarrow> 'd entries bt_read" where
  "scan_rec 0 D reader t max' i out = ofail depth_error"
| "scan_rec (Suc n) D reader t max' i out =
     (if filled max' out then oret out
      else
        obind (read_node D reader t i) (\<lambda>node.
          case node of
            Leaf cells \<Rightarrow> oret (push_cells max' cells out)
          | Internal leftmost cells \<Rightarrow>
              obind (scan_rec n D reader t max' leftmost out)
                (scan_children max' (scan_rec n D reader t max') (map snd cells))))"

definition scan_limited :: "'d decimal_ops \<Rightarrow> btree \<Rightarrow> page_reader \<Rightarrow> tx \<Rightarrow> nat option \<Rightarrow> 'd entries bt_read" where
  "scan_limited D bt reader t max' = scan_rec (MAX_TREE_DEPTH + 1) D reader t max' (bt_root bt) []"

definition scan :: "'d decimal_ops \<Rightarrow> btree \<Rightarrow> page_reader \<Rightarrow> tx \<Rightarrow> 'd entries bt_read" where
  "scan D bt reader t = scan_limited D bt reader t None"

primrec scan_rev_rec :: "nat \<Rightarrow> 'd decimal_ops \<Rightarrow> page_reader \<Rightarrow> tx \<Rightarrow> nat option \<Rightarrow> page_id \<Rightarrow> 'd entries \<Rightarrow> 'd entries bt_read" where
  "scan_rev_rec 0 D reader t max' i out = ofail depth_error"
| "scan_rev_rec (Suc n) D reader t max' i out =
     (if filled max' out then oret out
      else
        obind (read_node D reader t i) (\<lambda>node.
          case node of
            Leaf cells \<Rightarrow> oret (push_cells max' (rev cells) out)
          | Internal leftmost cells \<Rightarrow>
              obind (scan_children max' (scan_rev_rec n D reader t max') (map snd (rev cells)) out)
                (scan_rev_rec n D reader t max' leftmost)))"

definition scan_limited_rev :: "'d decimal_ops \<Rightarrow> btree \<Rightarrow> page_reader \<Rightarrow> tx \<Rightarrow> nat option \<Rightarrow> 'd entries bt_read" where
  "scan_limited_rev D bt reader t max' = scan_rev_rec (MAX_TREE_DEPTH + 1) D reader t max' (bt_root bt) []"

section \<open>Deletion\<close>

fun first_true :: "('a \<Rightarrow> ('s, 'e, bool) op) \<Rightarrow> 'a list \<Rightarrow> ('s, 'e, bool) op" where
  "first_true f [] = oret False"
| "first_true f (x # xs) = obind (f x) (\<lambda>r. if r then oret True else first_true f xs)"

text \<open>\<open>leaf_match\<close> edits the cells in place and says whether it removed one.\<close>

primrec delete_rec ::
    "nat \<Rightarrow> 'd decimal_ops \<Rightarrow> 'd Value \<Rightarrow> ('d entries \<Rightarrow> bool \<times> 'd entries) \<Rightarrow> page_id \<Rightarrow> bool bt_write" where
  "delete_rec 0 D key leaf_match i = ofail depth_error"
| "delete_rec (Suc n) D key leaf_match i =
     obind (read_node_tx D i) (\<lambda>node.
       case node of
         Leaf cells \<Rightarrow>
           (case leaf_match cells of
              (True, cells) \<Rightarrow> obind (write_node D i (Leaf cells)) (\<lambda>_. oret True)
            | (False, _) \<Rightarrow> oret False)
       | Internal leftmost cells \<Rightarrow>
           first_true (delete_rec n D key leaf_match) (candidate_children D cells leftmost key))"

definition match_key :: "'d decimal_ops \<Rightarrow> 'd Value \<Rightarrow> 'd entries \<Rightarrow> bool \<times> 'd entries" where
  "match_key D key cells =
     (case binary_search_by (\<lambda>(k, _). cmp_values D k key) cells of
        Inr i \<Rightarrow> (True, vec_remove i cells)
      | Inl _ \<Rightarrow> (False, cells))"

definition delete :: "'d decimal_ops \<Rightarrow> btree \<Rightarrow> 'd Value \<Rightarrow> bool bt_write" where
  "delete D bt key = delete_rec (MAX_TREE_DEPTH + 1) D key (match_key D key) (bt_root bt)"

fun run_start :: "'d decimal_ops \<Rightarrow> 'd Value \<Rightarrow> 'd entries \<Rightarrow> nat \<Rightarrow> nat" where
  "run_start D key cells 0 = 0"
| "run_start D key cells (Suc i) =
     (if cmp_values D (fst (cells ! i)) key = Equal then run_start D key cells i else Suc i)"

text \<open>The forward loop over the run of equal keys, from index \<open>j\<close>: the index whose locator matches.\<close>

function run_find :: "'d decimal_ops \<Rightarrow> 'd Value \<Rightarrow> u64 \<Rightarrow> 'd entries \<Rightarrow> nat \<Rightarrow> nat option" where
  "run_find D key loc cells j =
     (if j < length cells \<and> cmp_values D (fst (cells ! j)) key = Equal
      then if snd (cells ! j) = loc then Some j else run_find D key loc cells (j + 1)
      else None)"
  by pat_completeness auto
termination
  by (relation "measure (\<lambda>(_, _, _, cells, j). length cells - j)") auto

declare run_find.simps [simp del]

definition match_entry :: "'d decimal_ops \<Rightarrow> 'd Value \<Rightarrow> u64 \<Rightarrow> 'd entries \<Rightarrow> bool \<times> 'd entries" where
  "match_entry D key loc cells =
     (case binary_search_by (\<lambda>(k, _). cmp_values D k key) cells of
        Inl _ \<Rightarrow> (False, cells)
      | Inr i \<Rightarrow>
          (case run_find D key loc cells (run_start D key cells i) of
             Some j \<Rightarrow> (True, vec_remove j cells)
           | None \<Rightarrow> (False, cells)))"

definition delete_entry :: "'d decimal_ops \<Rightarrow> btree \<Rightarrow> 'd Value \<Rightarrow> u64 \<Rightarrow> bool bt_write" where
  "delete_entry D bt key loc = delete_rec (MAX_TREE_DEPTH + 1) D key (match_entry D key loc) (bt_root bt)"

section \<open>Range walks\<close>

type_synonym 'd bound = "('d Value \<times> bool) option"

fun has_prefix :: "'d decimal_ops \<Rightarrow> 'd Value \<Rightarrow> 'd Value list \<Rightarrow> bool" where
  "has_prefix D (Array items) pfx =
     (length pfx \<le> length items \<and> list_all (\<lambda>(a, b). cmp_values D a b = Equal) (zip items pfx))"
| "has_prefix D _ pfx = False"

definition beyond_hi :: "'d decimal_ops \<Rightarrow> 'd Value \<Rightarrow> 'd bound \<Rightarrow> bool" where
  "beyond_hi D k hi =
     (case hi of
        None \<Rightarrow> False
      | Some (h, incl) \<Rightarrow> if incl then cmp_values D k h = Greater else cmp_values D k h \<noteq> Less)"

definition below_lo :: "'d decimal_ops \<Rightarrow> 'd Value \<Rightarrow> 'd bound \<Rightarrow> bool" where
  "below_lo D k lo =
     (case lo of
        None \<Rightarrow> False
      | Some (l, incl) \<Rightarrow> if incl then cmp_values D k l = Less else cmp_values D k l \<noteq> Greater)"

text \<open>The leaf loop of \<open>range_bounded_rec\<close>; the flag is its \<open>Ok(bool)\<close>, \<open>break\<close> falls through to
  \<open>Ok(true)\<close>.\<close>

fun range_leaf ::
    "'d decimal_ops \<Rightarrow> 'd Value \<Rightarrow> bool \<Rightarrow> 'd bound \<Rightarrow> 'd Value list option \<Rightarrow> nat option \<Rightarrow> 'd entries \<Rightarrow> 'd entries \<Rightarrow>
       'd entries \<times> bool" where
  "range_leaf D lo lo_incl hi stop max' [] out = (out, True)"
| "range_leaf D lo lo_incl hi stop max' ((k, v) # cells) out =
     (if beyond_hi D k hi then (out, True)
      else if cmp_values D k lo = Less \<or> cmp_values D k lo = Equal \<and> \<not> lo_incl
        then range_leaf D lo lo_incl hi stop max' cells out
      else if (case stop of Some pfx \<Rightarrow> \<not> has_prefix D k pfx | None \<Rightarrow> False) then (out, False)
      else
        (let out = out @ [(k, v)]
         in if filled max' out then (out, False) else range_leaf D lo lo_incl hi stop max' cells out))"

fun range_children ::
    "'d decimal_ops \<Rightarrow> 'd Value \<Rightarrow> 'd bound \<Rightarrow> nat option \<Rightarrow> (page_id \<Rightarrow> 'd entries \<Rightarrow> ('d entries \<times> bool) bt_read) \<Rightarrow>
       ('d Value \<times> page_id) list \<Rightarrow> 'd entries \<Rightarrow> ('d entries \<times> bool) bt_read" where
  "range_children D lo hi max' f [] out = oret (out, True)"
| "range_children D lo hi max' f ((sep, child) # cells) out =
     (if filled max' out then oret (out, False)
      else if beyond_hi D sep hi then range_children D lo hi max' f cells out
      else
        (let upper_ge = (case cells of (k, _) # _ \<Rightarrow> cmp_values D k lo \<noteq> Less | [] \<Rightarrow> True)
         in if upper_ge then
              obind (f child out) (\<lambda>(out, go_on).
                if go_on then range_children D lo hi max' f cells out else oret (out, False))
            else range_children D lo hi max' f cells out))"

primrec range_bounded_rec ::
    "nat \<Rightarrow> 'd decimal_ops \<Rightarrow> page_reader \<Rightarrow> tx \<Rightarrow> 'd Value \<Rightarrow> bool \<Rightarrow> 'd bound \<Rightarrow> 'd Value list option \<Rightarrow> nat option \<Rightarrow>
       page_id \<Rightarrow> 'd entries \<Rightarrow> ('d entries \<times> bool) bt_read" where
  "range_bounded_rec 0 D reader t lo lo_incl hi stop max' i out = ofail depth_error"
| "range_bounded_rec (Suc n) D reader t lo lo_incl hi stop max' i out =
     (if filled max' out then oret (out, False)
      else
        obind (read_node D reader t i) (\<lambda>node.
          case node of
            Leaf cells \<Rightarrow> oret (range_leaf D lo lo_incl hi stop max' cells out)
          | Internal leftmost cells \<Rightarrow>
              (let f = range_bounded_rec n D reader t lo lo_incl hi stop max';
                   leftmost_upper_ge = (case cells of (k, _) # _ \<Rightarrow> cmp_values D k lo \<noteq> Less | [] \<Rightarrow> True)
               in obind (if leftmost_upper_ge then f leftmost out else oret (out, True)) (\<lambda>(out, go_on).
                    if go_on then range_children D lo hi max' f cells out else oret (out, False)))))"

definition range_bounded_limited ::
    "'d decimal_ops \<Rightarrow> btree \<Rightarrow> page_reader \<Rightarrow> tx \<Rightarrow> 'd Value \<Rightarrow> 'd bound \<Rightarrow> nat option \<Rightarrow> 'd entries bt_read" where
  "range_bounded_limited D bt reader t lo hi max' =
     obind (range_bounded_rec (MAX_TREE_DEPTH + 1) D reader t lo True hi None max' (bt_root bt) []) (\<lambda>(out, _). oret out)"

definition range_bounded :: "'d decimal_ops \<Rightarrow> btree \<Rightarrow> page_reader \<Rightarrow> tx \<Rightarrow> 'd Value \<Rightarrow> 'd bound \<Rightarrow> 'd entries bt_read" where
  "range_bounded D bt reader t lo hi = range_bounded_limited D bt reader t lo hi None"

definition range_from :: "'d decimal_ops \<Rightarrow> btree \<Rightarrow> page_reader \<Rightarrow> tx \<Rightarrow> 'd Value \<Rightarrow> 'd entries bt_read" where
  "range_from D bt reader t key = range_bounded D bt reader t key None"

definition range_bounded_excl_limited ::
    "'d decimal_ops \<Rightarrow> btree \<Rightarrow> page_reader \<Rightarrow> tx \<Rightarrow> 'd Value \<Rightarrow> 'd bound \<Rightarrow> nat option \<Rightarrow> 'd entries bt_read" where
  "range_bounded_excl_limited D bt reader t lo hi max' =
     obind (range_bounded_rec (MAX_TREE_DEPTH + 1) D reader t lo False hi None max' (bt_root bt) []) (\<lambda>(out, _). oret out)"

definition range_prefix_limited ::
    "'d decimal_ops \<Rightarrow> btree \<Rightarrow> page_reader \<Rightarrow> tx \<Rightarrow> 'd Value list \<Rightarrow> nat option \<Rightarrow> 'd entries bt_read" where
  "range_prefix_limited D bt reader t pfx max' =
     obind (range_bounded_rec (MAX_TREE_DEPTH + 1) D reader t (Array pfx) True None (Some pfx) max' (bt_root bt) [])
       (\<lambda>(out, _). oret out)"

definition range_prefix_rev_limited ::
    "'d decimal_ops \<Rightarrow> btree \<Rightarrow> page_reader \<Rightarrow> tx \<Rightarrow> 'd Value list \<Rightarrow> nat option \<Rightarrow> 'd entries bt_read" where
  "range_prefix_rev_limited D bt reader t pfx max' =
     obind (range_prefix_limited D bt reader t pfx None) (\<lambda>out.
       oret (case max' of Some m \<Rightarrow> take m (rev out) | None \<Rightarrow> rev out))"

text \<open>The leaf loop of \<open>range_rev_rec\<close>, over the cells from the last to the first.\<close>

fun rev_leaf :: "'d decimal_ops \<Rightarrow> 'd bound \<Rightarrow> 'd bound \<Rightarrow> nat option \<Rightarrow> 'd entries \<Rightarrow> 'd entries \<Rightarrow> 'd entries" where
  "rev_leaf D lo hi max' [] out = out"
| "rev_leaf D lo hi max' ((k, v) # cells) out =
     (if beyond_hi D k hi then rev_leaf D lo hi max' cells out
      else if below_lo D k lo then out
      else
        (let out = out @ [(k, v)]
         in if filled max' out then out else rev_leaf D lo hi max' cells out))"

text \<open>\<open>Iterator::rposition\<close>.\<close>

definition rposition :: "('a \<Rightarrow> bool) \<Rightarrow> 'a list \<Rightarrow> nat option" where
  "rposition P xs = map_option (\<lambda>i. length xs - 1 - i) (position P (rev xs))"

text \<open>The loop over the children \<open>b, b - 1, \<dots>, 0\<close>; the flag is false when it returned early.\<close>

fun rev_children ::
    "'d decimal_ops \<Rightarrow> 'd bound \<Rightarrow> nat option \<Rightarrow> (page_id \<Rightarrow> 'd entries \<Rightarrow> 'd entries bt_read) \<Rightarrow>
       ('d Value \<times> page_id) list \<Rightarrow> nat list \<Rightarrow> 'd entries \<Rightarrow> ('d entries \<times> bool) bt_read" where
  "rev_children D lo max' f cells [] out = oret (out, True)"
| "rev_children D lo max' f cells (i # is) out =
     (if filled max' out then oret (out, False)
      else if i + 1 < length cells \<and> below_lo D (fst (cells ! (i + 1))) lo then oret (out, False)
      else obind (f (snd (cells ! i)) out) (rev_children D lo max' f cells is))"

primrec range_rev_rec ::
    "nat \<Rightarrow> 'd decimal_ops \<Rightarrow> page_reader \<Rightarrow> tx \<Rightarrow> 'd bound \<Rightarrow> 'd bound \<Rightarrow> nat option \<Rightarrow> page_id \<Rightarrow> 'd entries \<Rightarrow>
       'd entries bt_read" where
  "range_rev_rec 0 D reader t lo hi max' i out = ofail depth_error"
| "range_rev_rec (Suc n) D reader t lo hi max' i out =
     (if filled max' out then oret out
      else
        obind (read_node D reader t i) (\<lambda>node.
          case node of
            Leaf cells \<Rightarrow> oret (rev_leaf D lo hi max' (rev cells) out)
          | Internal leftmost cells \<Rightarrow>
              obind (case rposition (\<lambda>(sep, _). \<not> beyond_hi D sep hi) cells of
                       Some b \<Rightarrow> rev_children D lo max' (range_rev_rec n D reader t lo hi max') cells (rev [0..<b + 1]) out
                     | None \<Rightarrow> oret (out, True)) (\<lambda>(out, go_on).
                if \<not> go_on \<or> filled max' out \<or> (case cells of (k, _) # _ \<Rightarrow> below_lo D k lo | [] \<Rightarrow> False)
                then oret out
                else range_rev_rec n D reader t lo hi max' leftmost out)))"

definition range_bounded_rev_limited ::
    "'d decimal_ops \<Rightarrow> btree \<Rightarrow> page_reader \<Rightarrow> tx \<Rightarrow> 'd bound \<Rightarrow> 'd bound \<Rightarrow> nat option \<Rightarrow> 'd entries bt_read" where
  "range_bounded_rev_limited D bt reader t lo hi max' =
     range_rev_rec (MAX_TREE_DEPTH + 1) D reader t lo hi max' (bt_root bt) []"

end
