(* ===== verification/Btree_Nodes.thy ===== *)
theory Btree_Nodes
  imports Btree_Ops
begin

text \<open>
  Lemmas about single nodes: binary search finds the partition point, the page image of a node and
  that reading it back yields the node, the lookup on serialized cells agrees with the decoded cells,
  and a split point leaves two nodes that fit their pages.
\<close>

section \<open>Binary search\<close>

text \<open>The first \<open>p\<close> elements are the ones that are not greater.\<close>

lemma bsearch_loop_bound:
  assumes "\<And>i. base \<le> i \<Longrightarrow> i < base + n \<Longrightarrow> f (xs ! i) = Greater \<longleftrightarrow> p \<le> i"
    and "base = 0 \<or> base < p" and "p \<le> base + n" and "0 < n"
  shows "bsearch_loop f xs base n = (if p = 0 then 0 else p - 1)"
  using assms
proof (induction f xs base n rule: bsearch_loop.induct)
  case (1 f xs base n)
  show ?case
  proof (cases "1 < n")
    case True
    define half where "half = n div 2"
    have h: "0 < half" "half < n" "half \<le> n - half" using True by (auto simp: half_def)
    have g: "f (xs ! (base + half)) = Greater \<longleftrightarrow> p \<le> base + half" using 1(2) h by simp
    have "bsearch_loop f xs (if f (xs ! (base + half)) = Greater then base else base + half) (n - half) =
        (if p = 0 then 0 else p - 1)"
      by (rule 1(1) [OF True half_def refl]) (use 1(2-5) g h in \<open>auto split: if_splits\<close>)
    then show ?thesis using True unfolding half_def by (subst bsearch_loop.simps) (simp only: Let_def if_True)
  next
    case False
    then have "n = 1" using 1(5) by simp
    then show ?thesis using 1(3,4) by (subst bsearch_loop.simps) auto
  qed
qed

lemma binary_search_by_bound:
  assumes "\<And>i. i < length xs \<Longrightarrow> f (xs ! i) = Greater \<longleftrightarrow> p \<le> i" and "p \<le> length xs"
  shows "binary_search_by f xs =
    (if p = 0 then Inl 0 else if f (xs ! (p - 1)) = Equal then Inr (p - 1) else Inl p)"
proof (cases "xs = []")
  case False
  then have "bsearch_loop f xs 0 (length xs) = (if p = 0 then 0 else p - 1)"
    using assms by (intro bsearch_loop_bound) auto
  moreover have "p = 0 \<Longrightarrow> f (xs ! 0) = Greater" using assms(1) [of 0] False by simp
  moreover have "p \<noteq> 0 \<Longrightarrow> f (xs ! (p - 1)) \<noteq> Greater" using assms(1) [of "p - 1"] assms(2) False by auto
  ultimately show ?thesis
    using False by (auto simp: binary_search_by_def Let_def split: ordering.splits)
qed (use assms in \<open>simp add: binary_search_by_def\<close>)

text \<open>A predicate that holds on a prefix only.\<close>

lemma partition_point_bound:
  assumes "\<And>i. i < length xs \<Longrightarrow> P (xs ! i) \<longleftrightarrow> i < p" and "p \<le> length xs"
  shows "partition_point P xs = p"
proof -
  have "binary_search_by (\<lambda>x. if P x then Less else Greater) xs =
      (if p = 0 then Inl 0 else if (if P (xs ! (p - 1)) then Less else Greater) = Equal then Inr (p - 1) else Inl p)"
    by (rule binary_search_by_bound) (use assms in auto)
  then show ?thesis by (simp add: partition_point_def)
qed

lemma partition_point_takeWhile:
  assumes "\<And>x y. P y \<Longrightarrow> R x y \<Longrightarrow> P x" and "sorted_wrt R xs"
  shows "partition_point P xs = length (takeWhile P xs)"
proof (rule partition_point_bound)
  fix i assume i: "i < length xs"
  show "P (xs ! i) \<longleftrightarrow> i < length (takeWhile P xs)"
  proof
    assume p: "P (xs ! i)"
    have all: "\<forall>x \<in> set (take (Suc i) xs). P x"
    proof
      fix x assume "x \<in> set (take (Suc i) xs)"
      then obtain j where j: "j < Suc i" "x = xs ! j" using i by (auto simp: in_set_conv_nth)
      then show "P x"
        using p i assms(1) [OF p] sorted_wrt_nth_less [OF assms(2), of j i] by (cases "j = i") auto
    qed
    have "takeWhile P xs = take (Suc i) xs @ takeWhile P (drop (Suc i) xs)"
      using takeWhile_append2 [of "take (Suc i) xs" P "drop (Suc i) xs"] all by simp
    then have "length (takeWhile P xs) = Suc i + length (takeWhile P (drop (Suc i) xs))"
      using i by (metis Suc_leI length_append length_take min_absorb2)
    then show "i < length (takeWhile P xs)" by simp
  next
    assume "i < length (takeWhile P xs)"
    then show "P (xs ! i)" by (metis nth_mem set_takeWhileD takeWhile_nth)
  qed
qed (rule length_takeWhile_le)

section \<open>Cells and their sizes\<close>

definition key_bytes :: "'d decimal_ops \<Rightarrow> 'd Value \<Rightarrow> bytes" where
  "key_bytes D k = (case encode_to_vec D k of Inr b \<Rightarrow> b | Inl _ \<Rightarrow> [])"

text \<open>What the index accepts as a key.\<close>

definition key_ok :: "'d decimal_ops \<Rightarrow> 'd Value \<Rightarrow> bool" where
  "key_ok D k \<longleftrightarrow> wf_value D k \<and> (\<exists>b. encode_to_vec D k = Inr b \<and> 2 + length b + 8 \<le> LEAF_CELL_CAP)"

lemma key_okD:
  assumes "key_ok D k"
  shows "wf_value D k" and "encode_to_vec D k = Inr (key_bytes D k)" and "length (key_bytes D k) \<le> 2036"
  using assms by (auto simp: key_ok_def key_bytes_def LEAF_CELL_CAP_def PAGE_SIZE_def)

lemma enc_lift_key: "key_ok D k \<Longrightarrow> enc_lift (encode_to_vec D k) = Inr (key_bytes D k)"
  by (simp add: enc_lift_def key_okD(2))

definition cell_size :: "'d decimal_ops \<Rightarrow> nat \<Rightarrow> 'd Value \<times> 'v \<Rightarrow> nat" where
  "cell_size D w c = 2 + length (key_bytes D (fst c)) + w"

definition cells_size :: "'d decimal_ops \<Rightarrow> nat \<Rightarrow> ('d Value \<times> 'v) list \<Rightarrow> nat" where
  "cells_size D w cs = sum_list (map (cell_size D w) cs)"

definition keys_ok :: "'d decimal_ops \<Rightarrow> ('d Value \<times> 'v) list \<Rightarrow> bool" where
  "keys_ok D cs \<longleftrightarrow> (\<forall>c \<in> set cs. key_ok D (fst c))"

lemma cells_size_simps [simp]:
  "cells_size D w [] = 0" "cells_size D w (c # cs) = cell_size D w c + cells_size D w cs"
  "cells_size D w (xs @ ys) = cells_size D w xs + cells_size D w ys"
  by (simp_all add: cells_size_def)

lemma keys_ok_simps [simp]:
  "keys_ok D []" "keys_ok D (c # cs) \<longleftrightarrow> key_ok D (fst c) \<and> keys_ok D cs"
  "keys_ok D (xs @ ys) \<longleftrightarrow> keys_ok D xs \<and> keys_ok D ys"
  by (auto simp: keys_ok_def)

lemma keys_ok_take_drop: "keys_ok D cs \<Longrightarrow> keys_ok D (take m cs) \<and> keys_ok D (drop m cs)"
  by (auto simp: keys_ok_def dest: in_set_takeD in_set_dropD)

lemma cells_size_split: "cells_size D w cs = cells_size D w (take m cs) + cells_size D w (drop m cs)"
  by (metis append_take_drop_id cells_size_simps(3))

lemma cells_size_ge: "2 * length cs \<le> cells_size D w cs"
  by (induction cs) (auto simp: cell_size_def)

lemma node_bytes_size: "keys_ok D cs \<Longrightarrow> node_bytes D cs n w = Inr (n + cells_size D w cs)"
  by (induction D cs n w rule: node_bytes.induct) (auto simp: enc_lift_key cell_size_def)

lemma prefix_sums_size:
  "keys_ok D cs \<Longrightarrow> \<exists>ps. prefix_sums D cs n w = Inr ps \<and> length ps = length cs \<and>
     (\<forall>m \<le> length cs. (n # ps) ! m = n + cells_size D w (take m cs))"
proof (induction D cs n w rule: prefix_sums.induct)
  case (2 D k x cs n w)
  define p where "p = n + 2 + length (key_bytes D k) + w"
  obtain ps where ps: "prefix_sums D cs p w = Inr ps" "length ps = length cs"
      "\<forall>m \<le> length cs. (p # ps) ! m = p + cells_size D w (take m cs)"
    using "2.IH" [of "key_bytes D k" p] "2.prems" enc_lift_key [of D k] by (auto simp: p_def)
  have "prefix_sums D ((k, x) # cs) n w = Inr (p # ps)"
    using "2.prems" ps by (simp add: enc_lift_key p_def Let_def)
  moreover have "(n # p # ps) ! m = n + cells_size D w (take m ((k, x) # cs))" if "m \<le> length ((k, x) # cs)" for m
    using ps(3) that by (cases m) (auto simp: p_def cell_size_def)
  ultimately show ?case using ps(2) by auto
qed simp

section \<open>Split points\<close>

lemma position_Some:
  "position P xs = Some i \<longleftrightarrow> i < length xs \<and> P (xs ! i) \<and> (\<forall>j < i. \<not> P (xs ! j))"
proof (induction xs arbitrary: i)
  case (Cons x xs)
  then show ?case by (cases i) (auto simp: All_less_Suc2)
qed simp

lemma position_None: "position P xs = None \<longleftrightarrow> (\<forall>x \<in> set xs. \<not> P x)"
  by (induction xs) auto

lemma split_walk_bounds:
  assumes "m \<le> b"
  shows "m \<le> split_walk ps h tot b m \<and> split_walk ps h tot b m \<le> b \<and>
    (split_walk ps h tot b m < b \<longrightarrow> h + (tot - ps ! split_walk ps h tot b m) \<le> PAGE_SIZE) \<and>
    (\<forall>j. m \<le> j \<longrightarrow> j < split_walk ps h tot b m \<longrightarrow> PAGE_SIZE < h + (tot - ps ! j))"
  using assms
proof (induction ps h tot b m rule: split_walk.induct)
  case (1 ps h tot b m)
  show ?case
  proof (cases "m < b \<and> PAGE_SIZE < h + (tot - ps ! m)")
    case True
    then have e: "split_walk ps h tot b m = split_walk ps h tot b (m + 1)" by (simp add: split_walk.simps [of _ _ _ _ m])
    show ?thesis
      using "1.IH" [OF True] True unfolding e by (metis Suc_eq_plus1 Suc_leI le_eq_less_or_eq Suc_leD)
  next
    case False
    then show ?thesis using "1.prems" by (subst (1 2 3 4 5) split_walk.simps) auto
  qed
qed

text \<open>Cells of at most half a page, of which all but the one at \<open>pos\<close> fitted a page before: both halves
  of the split fit, and neither is empty.\<close>

lemma split_at_for_insert_fits:
  assumes ok: "keys_ok D cs" and cap: "\<And>c. c \<in> set cs \<Longrightarrow> cell_size D w c \<le> (PAGE_SIZE - h) div 2" and h: "h \<le> 7"
    and pos: "pos < length cs" and big: "PAGE_SIZE < h + cells_size D w cs"
    and before: "h + cells_size D w cs \<le> PAGE_SIZE + cell_size D w (cs ! pos)"
  shows "\<exists>m. split_at_for_insert D cs pos h w = Inr m \<and> 0 < m \<and> m < length cs \<and>
    h + cells_size D w (take m cs) \<le> PAGE_SIZE \<and> h + cells_size D w (drop m cs) \<le> PAGE_SIZE"
proof -
  obtain ps where ps: "prefix_sums D cs h w = Inr ps" "length ps = length cs"
      and nth: "\<And>m. m \<le> length cs \<Longrightarrow> (h # ps) ! m = h + cells_size D w (take m cs)"
    using prefix_sums_size [OF ok] by blast
  define S where "S m = cells_size D w (take m cs)" for m
  have Suc: "S (Suc m) = S m + cell_size D w (cs ! m)" if "m < length cs" for m
    using that by (simp add: S_def take_Suc_conv_app_nth)
  have mono: "S m \<le> S n" if "m \<le> n" for m n
    using that cells_size_split [of D w "take n cs" m] by (simp add: S_def min_absorb1)
  have drop: "cells_size D w (drop m cs) = S (length cs) - S m" for m
    using cells_size_split [of D w cs m] by (simp add: S_def)
  have tot: "List.last (h # ps) = h + S (length cs)"
    using nth [of "length cs"] ps(2) by (cases cs) (auto simp: S_def last_conv_nth)
  have "PAGE_SIZE < (h # ps) ! length cs" using nth [of "length cs"] big by simp
  then have "position (\<lambda>p. PAGE_SIZE < p) (h # ps) \<noteq> None"
    unfolding position_None using ps(2) by (metis length_Cons lessI nth_mem)
  then obtain b where b: "position (\<lambda>p. PAGE_SIZE < p) (h # ps) = Some b" by blast
  then have b1: "b \<le> length cs" "PAGE_SIZE < h + S b" and b2: "\<And>j. j < b \<Longrightarrow> h + S j \<le> PAGE_SIZE"
    using nth ps(2) by (auto simp: position_Some S_def not_less simp del: position.simps)
  have cap2: "2 * cell_size D w (cs ! i) \<le> PAGE_SIZE - h" if "i < length cs" for i
    using cap [OF nth_mem [OF that]] by simp
  have b0: "b \<noteq> 0" using b1(2) h by (intro notI) (simp add: S_def PAGE_SIZE_def)
  then obtain a where a: "b = Suc a" using not0_implies_Suc by blast
  have ne: "0 < length cs" using pos by linarith
  have a0: "0 < a"
    using b1(2) Suc [OF ne] cap2 [OF ne] h a by (cases a) (auto simp: S_def PAGE_SIZE_def)
  have posb: "pos < b"
  proof (rule ccontr)
    assume "\<not> pos < b"
    then have "S b \<le> S pos" using mono by simp
    moreover have "S (Suc pos) \<le> S (length cs)" using mono pos by simp
    ultimately have "h + S b \<le> PAGE_SIZE" using Suc [OF pos] before by (simp add: S_def)
    then show False using b1(2) by simp
  qed
  define m where "m = split_walk (h # ps) h (h + S (length cs)) b (max (min b pos) 1)"
  have at_a: "h + (h + S (length cs) - (h # ps) ! a) \<le> PAGE_SIZE"
  proof -
    have "a < length cs" using a b1(1) by simp
    then have "S b = S a + cell_size D w (cs ! a)" using Suc a by simp
    then have "PAGE_SIZE < h + S a + cell_size D w (cs ! a)" using b1(2) by simp
    moreover have "h + S (length cs) \<le> PAGE_SIZE + cell_size D w (cs ! pos)" using before by (simp add: S_def)
    ultimately have "h + (S (length cs) - S a) \<le> PAGE_SIZE"
      using cap2 [OF \<open>a < length cs\<close>] cap2 [OF pos] h by (simp add: PAGE_SIZE_def)
    then show ?thesis using nth [of a] \<open>a < length cs\<close> by (simp add: S_def)
  qed
  have le: "max (min b pos) 1 \<le> a" using posb a a0 by simp
  have w: "max (min b pos) 1 \<le> m" "m \<le> b" "m < b \<longrightarrow> h + (h + S (length cs) - (h # ps) ! m) \<le> PAGE_SIZE"
    "\<forall>j. max (min b pos) 1 \<le> j \<longrightarrow> j < m \<longrightarrow> PAGE_SIZE < h + (h + S (length cs) - (h # ps) ! j)"
    using split_walk_bounds [of "max (min b pos) 1" b "h # ps" h "h + S (length cs)"] le a by (auto simp: m_def)
  have "m < b" using w(2,4) at_a le a by (metis le_eq_less_or_eq lessI linorder_not_less)
  then have m: "m < length cs" "0 < m" "h + S m \<le> PAGE_SIZE" "h + (S (length cs) - S m) \<le> PAGE_SIZE"
    using w b1 b2 nth [of m] by (auto simp: S_def)
  have mb: "max b 1 = b" using b0 by simp
  have "split_at_for_insert D cs pos h w = Inr m"
    unfolding split_at_for_insert_def ps(1) ebind_Inr Let_def b tot option.case mb m_def [symmetric]
    using m(1) by simp
  then show ?thesis using m drop [of m] by (auto simp: S_def)
qed

section \<open>Page images\<close>

definition cell_bytes :: "'d decimal_ops \<Rightarrow> 'd Value \<times> 'v::len word \<Rightarrow> bytes" where
  "cell_bytes D c =
     to_le_bytes (word_of_nat (length (key_bytes D (fst c))) :: u16) @ key_bytes D (fst c) @ to_le_bytes (snd c)"

abbreviation cells_bytes :: "'d decimal_ops \<Rightarrow> ('d Value \<times> 'v::len word) list \<Rightarrow> bytes" where
  "cells_bytes D cs \<equiv> concat (map (cell_bytes D) cs)"

lemma length_cells_bytes: "length (cells_bytes D (cs :: ('d Value \<times> 'v::len word) list)) = cells_size D (LENGTH('v) div 8) cs"
  by (induction cs) (auto simp: cell_bytes_def cell_size_def length_to_le_bytes)

text \<open>The bytes of a page that holds a node, zeros after the last cell.\<close>

fun node_head :: "'d node \<Rightarrow> bytes" where
  "node_head (Leaf cs) = LEAF # to_le_bytes (word_of_nat (length cs) :: u16)"
| "node_head (Internal l cs) = INTERNAL # to_le_bytes (word_of_nat (length cs) :: u16) @ to_le_bytes l"

fun node_body :: "'d decimal_ops \<Rightarrow> 'd node \<Rightarrow> bytes" where
  "node_body D (Leaf cs) = cells_bytes D cs"
| "node_body D (Internal l cs) = cells_bytes D cs"

fun node_size :: "'d decimal_ops \<Rightarrow> 'd node \<Rightarrow> nat" where
  "node_size D (Leaf cs) = 3 + cells_size D 8 cs"
| "node_size D (Internal l cs) = 7 + cells_size D 4 cs"

fun node_keys_ok :: "'d decimal_ops \<Rightarrow> 'd node \<Rightarrow> bool" where
  "node_keys_ok D (Leaf cs) = keys_ok D cs"
| "node_keys_ok D (Internal l cs) = keys_ok D cs"

definition node_ok :: "'d decimal_ops \<Rightarrow> 'd node \<Rightarrow> bool" where
  "node_ok D nd \<longleftrightarrow> node_keys_ok D nd \<and> node_size D nd \<le> PAGE_SIZE"

definition node_image :: "'d decimal_ops \<Rightarrow> 'd node \<Rightarrow> bytes" where
  "node_image D nd = node_head nd @ node_body D nd @ replicate (PAGE_SIZE - node_size D nd) 0"

lemma length_node_image: "node_ok D nd \<Longrightarrow> length (node_image D nd) = PAGE_SIZE"
  by (cases nd) (auto simp: node_image_def node_ok_def length_cells_bytes)

subsection \<open>Writing\<close>

lemma splice_next: "length pre = pos \<Longrightarrow> splice (pre @ zs) pos xs = pre @ xs @ drop (length xs) zs"
  by (simp add: splice_def)

lemma write_cells_image:
  fixes cs :: "('d Value \<times> 'v::len word) list"
  assumes "keys_ok D cs" and "length pre + cells_size D (LENGTH('v) div 8) cs \<le> PAGE_SIZE"
    and "length pre + length zs = PAGE_SIZE"
  shows "write_cells D cs (pre @ zs) (length pre) =
    Inr (pre @ cells_bytes D cs @ drop (cells_size D (LENGTH('v) div 8) cs) zs)"
  using assms
proof (induction cs arbitrary: pre zs)
  case (Cons c cs)
  obtain k v where c: "c = (k, v)" by (cases c)
  define kb where "kb = key_bytes D k"
  have k: "enc_lift (encode_to_vec D k) = Inr kb" "length kb \<le> 2036"
    using Cons.prems(1) key_okD [of D k] enc_lift_key [of D k] by (auto simp: c kb_def)
  have sz: "cell_size D (LENGTH('v) div 8) c = 2 + length kb + LENGTH('v) div 8" by (simp add: cell_size_def c kb_def)
  define pre' where "pre' = pre @ cell_bytes D c"
  define zs' where "zs' = drop (cell_size D (LENGTH('v) div 8) c) zs"
  have len: "length (cell_bytes D c) = cell_size D (LENGTH('v) div 8) c"
    using length_cells_bytes [of D "[c]"] by simp
  define l16 where "l16 = to_le_bytes (word_of_nat (length kb) :: u16)"
  have l2: "length l16 = 2" by (simp add: l16_def)
  have 1: "splice (pre @ zs) (length pre) l16 = pre @ l16 @ drop 2 zs"
    by (subst splice_next) (simp_all add: l2)
  have 2: "splice (pre @ l16 @ drop 2 zs) (length pre + 2) kb = pre @ l16 @ kb @ drop (2 + length kb) zs"
    using splice_next [of "pre @ l16" "length pre + 2" "drop 2 zs" kb] by (simp add: l2 add.commute)
  have 3: "splice (pre @ l16 @ kb @ drop (2 + length kb) zs) (length pre + 2 + length kb) (to_le_bytes v) = pre' @ zs'"
    using splice_next [of "pre @ l16 @ kb" "length pre + 2 + length kb" "drop (2 + length kb) zs" "to_le_bytes v"]
    by (simp add: l2 pre'_def zs'_def sz [unfolded c] cell_bytes_def c kb_def l16_def length_to_le_bytes add.commute add.left_commute)
  have pos: "length pre + 2 + length kb + LENGTH('v) div 8 = length pre'" by (simp add: pre'_def len sz)
  have fits: "\<not> PAGE_SIZE < length pre'" using Cons.prems(2) pos sz by simp
  have "write_cells D (c # cs) (pre @ zs) (length pre) = write_cells D cs (pre' @ zs') (length pre')"
    using k fits unfolding c write_cells.simps
    by (simp add: Let_def l16_def [symmetric] 1 2 3 pos sz [unfolded c] del: add_2_eq_Suc add_2_eq_Suc')
  also have "\<dots> = Inr (pre' @ cells_bytes D cs @ drop (cells_size D (LENGTH('v) div 8) cs) zs')"
    by (rule Cons.IH) (use Cons.prems len in \<open>auto simp: pre'_def zs'_def\<close>)
  finally show ?case by (simp add: pre'_def zs'_def add.commute)
qed simp

lemma zero_page_split: "zero_page[0 := b] = b # replicate 4095 0"
proof -
  have "replicate PAGE_SIZE (0 :: u8) = 0 # replicate 4095 0"
    by (simp add: PAGE_SIZE_def replicate_Suc [symmetric] del: replicate_Suc)
  then show ?thesis by (simp add: zero_page_def)
qed

lemma format_node_image:
  assumes "node_ok D nd"
  shows "format_node D nd = Inr (node_image D nd)"
proof (cases nd)
  case (Leaf cs)
  define pre where "pre = node_head nd"
  have "splice (zero_page[0 := LEAF]) 1 (to_le_bytes (word_of_nat (length cs) :: u16)) = pre @ replicate 4093 0"
    using splice_next [of "[LEAF]" 1 "replicate 4095 0"] by (simp add: zero_page_split pre_def Leaf)
  then show ?thesis
    using assms write_cells_image [of D cs pre "replicate 4093 0"]
    by (simp add: format_node_def Leaf node_ok_def PAGE_SIZE_def pre_def node_image_def)
next
  case (Internal l cs)
  define c where "c = to_le_bytes (word_of_nat (length cs) :: u16)"
  have "splice (splice (zero_page[0 := INTERNAL]) 1 c) 3 (to_le_bytes l) = (INTERNAL # c @ to_le_bytes l) @ replicate 4089 0"
    using splice_next [of "[INTERNAL]" 1 "replicate 4095 0" c]
      splice_next [of "INTERNAL # c" 3 "replicate 4093 0" "to_le_bytes l"] by (simp add: zero_page_split c_def)
  then show ?thesis
    using assms write_cells_image [of D cs "INTERNAL # c @ to_le_bytes l" "replicate 4089 0"]
    by (simp add: format_node_def Internal node_ok_def PAGE_SIZE_def node_image_def c_def)
qed

subsection \<open>Reading\<close>

lemma get_range_append: "length pre = pos \<Longrightarrow> length x = n \<Longrightarrow> get_range (pre @ x @ post) pos n = Some x"
  by (auto simp: get_range_def sub_bytes_def)

lemma u16_at_len: "n < 2 ^ 16 \<Longrightarrow> u16_at (to_le_bytes (word_of_nat n :: u16)) = n"
  by (simp add: u16_at_def unat_of_nat take_bit_nat_eq_self)

lemma decode_key: "decimal_laws D \<Longrightarrow> key_ok D k \<Longrightarrow> decode_prefix D (key_bytes D k) = Inr (k, length (key_bytes D k))"
  using decode_encode(2) [of D k "key_bytes D k" "[]"] key_okD [of D k] by simp

lemma read_cells_image:
  fixes cs :: "('d Value \<times> 'v::len word) list"
  assumes "decimal_laws D" and "keys_ok D cs" and "8 dvd LENGTH('v)"
  shows "read_cells D (pre @ cells_bytes D cs @ post) (length cs) (length pre) = Inr cs"
  using assms(2)
proof (induction cs arbitrary: pre)
  case (Cons c cs)
  obtain k v where c: "c = (k, v)" by (cases c)
  define kb where "kb = key_bytes D k"
  have k: "decode_prefix D kb = Inr (k, length kb)" "length kb < 2 ^ 16"
    using Cons.prems decode_key [OF assms(1), of k] key_okD(3) [of D k] by (auto simp: c kb_def)
  define l16 where "l16 = to_le_bytes (word_of_nat (length kb) :: u16)"
  define vb where "vb = to_le_bytes v"
  define rest where "rest = cells_bytes D cs @ post"
  have l: "length l16 = 2" "length vb = LENGTH('v) div 8" "u16_at l16 = length kb" "from_le_bytes vb = v"
    using k(2) assms(3) by (simp_all add: l16_def vb_def length_to_le_bytes u16_at_len from_to_le_bytes)
  have pg: "pre @ cells_bytes D (c # cs) @ post = pre @ l16 @ kb @ vb @ rest"
    by (simp add: c cell_bytes_def kb_def l16_def vb_def rest_def)
  have g1: "get_range (pre @ l16 @ kb @ vb @ rest) (length pre) 2 = Some l16"
    using get_range_append [of pre _ l16 2] l by simp
  have g2: "get_range (pre @ l16 @ kb @ vb @ rest) (length pre + 2) (length kb) = Some kb"
    using get_range_append [of "pre @ l16" _ kb] l by simp
  have g3: "get_range (pre @ l16 @ kb @ vb @ rest) (length pre + 2 + length kb) (LENGTH('v) div 8) = Some vb"
    using get_range_append [of "pre @ l16 @ kb" _ vb] l by simp
  have "read_cells D (pre @ l16 @ kb @ vb @ rest) (length cs) (length pre + 2 + length kb + LENGTH('v) div 8) = Inr cs"
    using Cons.IH [of "pre @ l16 @ kb @ vb"] Cons.prems l by (simp add: rest_def add.assoc)
  then show ?case
    unfolding pg by (simp add: take_cell_def g1 g2 g3 decode_cell_key_def l k enc_lift_def c del: add_2_eq_Suc add_2_eq_Suc')
qed simp

lemma count_bound:
  assumes "node_ok D (Leaf cs)" shows "length cs < 2 ^ 16"
  using assms cells_size_ge [of cs D 8] by (simp add: node_ok_def PAGE_SIZE_def)

lemma count_bound_internal:
  assumes "node_ok D (Internal l cs)" shows "length cs < 2 ^ 16"
  using assms cells_size_ge [of cs D 4] by (simp add: node_ok_def PAGE_SIZE_def)

lemma nth_1_2: "length c = 2 \<Longrightarrow> [(b # c @ r) ! 1, (b # c @ r) ! 2] = c"
  by (cases c; cases "tl c") auto

lemma parse_node_image:
  assumes D: "decimal_laws D" and ok: "node_ok D nd"
  shows "parse_node D (node_image D nd) = Inr nd"
proof (cases nd)
  case (Leaf cs)
  define c where "c = to_le_bytes (word_of_nat (length cs) :: u16)"
  define z where "z = replicate (PAGE_SIZE - node_size D nd) (0 :: u8)"
  have c: "length c = 2" "u16_at c = length cs"
    using count_bound [of D cs] ok Leaf by (simp_all add: c_def u16_at_len)
  have im: "node_image D nd = LEAF # c @ cells_bytes D cs @ z"
    by (simp add: node_image_def Leaf c_def z_def)
  have "read_cells D ((LEAF # c) @ cells_bytes D cs @ z) (length cs) (length (LEAF # c)) = Inr cs"
    by (rule read_cells_image [OF D]) (use ok Leaf in \<open>auto simp: node_ok_def\<close>)
  then show ?thesis
    unfolding im parse_node_def Let_def nth_1_2 [OF c(1)] using c by (simp add: Leaf)
next
  case (Internal l cs)
  define c where "c = to_le_bytes (word_of_nat (length cs) :: u16)"
  define z where "z = replicate (PAGE_SIZE - node_size D nd) (0 :: u8)"
  have c: "length c = 2" "u16_at c = length cs"
    using count_bound_internal [of D l cs] ok Internal by (simp_all add: c_def u16_at_len)
  have im: "node_image D nd = INTERNAL # c @ to_le_bytes l @ cells_bytes D cs @ z"
    by (simp add: node_image_def Internal c_def z_def)
  have lm: "sub_bytes (INTERNAL # c @ to_le_bytes l @ cells_bytes D cs @ z) 3 4 = to_le_bytes l"
    using c(1) by (simp add: sub_bytes_def)
  have "read_cells D ((INTERNAL # c @ to_le_bytes l) @ cells_bytes D cs @ z) (length cs) (length (INTERNAL # c @ to_le_bytes l)) = Inr cs"
    by (rule read_cells_image [OF D]) (use ok Internal in \<open>auto simp: node_ok_def\<close>)
  then show ?thesis
    unfolding im parse_node_def Let_def nth_1_2 [OF c(1)] lm using c by (simp add: Internal LEAF_def INTERNAL_def)
qed

subsection \<open>Serialized cells\<close>

text \<open>The cell starts of a page whose cells begin at offset \<open>h\<close>.\<close>

definition offsets :: "'d decimal_ops \<Rightarrow> nat \<Rightarrow> nat \<Rightarrow> ('d Value \<times> 'v) list \<Rightarrow> nat list" where
  "offsets D w h cs = map (\<lambda>i. h + cells_size D w (take i cs)) [0..<length cs]"

lemma length_offsets [simp]: "length (offsets D w h cs) = length cs"
  by (simp add: offsets_def)

lemma nth_offsets: "i < length cs \<Longrightarrow> offsets D w h cs ! i = h + cells_size D w (take i cs)"
  by (simp add: offsets_def)

lemma offsets_Cons: "offsets D w h (c # cs) = h # offsets D w (h + cell_size D w c) cs"
  by (simp add: offsets_def map_upt_Suc add.assoc del: upt_Suc)

text \<open>\<open>pre @ cells_bytes D cs @ post\<close> seen from the start of cell \<open>i\<close>.\<close>

lemma cells_at:
  assumes "i < length cs"
  shows "pre @ cells_bytes D cs @ post =
    (pre @ cells_bytes D (take i cs)) @ cell_bytes D (cs ! i) @ cells_bytes D (drop (Suc i) cs) @ post"
proof -
  have "cells_bytes D cs = cells_bytes D (take i cs @ cs ! i # drop (Suc i) cs)"
    using id_take_nth_drop [OF assms] by simp
  then show ?thesis by simp
qed

lemma cell_reads:
  fixes c :: "'d Value \<times> 'v::len word"
  assumes D: "decimal_laws D" and ok: "key_ok D (fst c)" and v: "8 dvd LENGTH('v)"
  shows "\<exists>l. take_or (pre @ cell_bytes D c @ post) (length pre) 2 = Inr l \<and> u16_at l = length (key_bytes D (fst c))"
    and "decode_key_at D (pre @ cell_bytes D c @ post) (length pre) = Inr (fst c)"
    and "\<exists>b. take_or (pre @ cell_bytes D c @ post) (length pre + 2 + length (key_bytes D (fst c))) (LENGTH('v) div 8) = Inr b \<and>
      from_le_bytes b = snd c"
proof -
  define kb where "kb = key_bytes D (fst c)"
  define l16 where "l16 = to_le_bytes (word_of_nat (length kb) :: u16)"
  define vb where "vb = to_le_bytes (snd c)"
  have k: "decode_prefix D kb = Inr (fst c, length kb)" "length kb < 2 ^ 16"
    using decode_key [OF D ok] key_okD(3) [OF ok] by (auto simp: kb_def)
  have l: "length l16 = 2" "length vb = LENGTH('v) div 8" "u16_at l16 = length kb" "from_le_bytes vb = snd c"
    using k(2) v by (simp_all add: l16_def vb_def length_to_le_bytes u16_at_len from_to_le_bytes)
  have pg: "pre @ cell_bytes D c @ post = pre @ l16 @ kb @ vb @ post"
    by (simp add: cell_bytes_def kb_def l16_def vb_def)
  have g1: "get_range (pre @ l16 @ kb @ vb @ post) (length pre) 2 = Some l16"
    using get_range_append [of pre _ l16 2] l by simp
  have g2: "get_range (pre @ l16 @ kb @ vb @ post) (length pre + 2) (length kb) = Some kb"
    using get_range_append [of "pre @ l16" _ kb] l by simp
  have g3: "get_range (pre @ l16 @ kb @ vb @ post) (length pre + 2 + length kb) (LENGTH('v) div 8) = Some vb"
    using get_range_append [of "pre @ l16 @ kb" _ vb] l by simp
  show "\<exists>l. take_or (pre @ cell_bytes D c @ post) (length pre) 2 = Inr l \<and> u16_at l = length (key_bytes D (fst c))"
    unfolding pg using g1 l by (simp add: take_or_def kb_def)
  show "decode_key_at D (pre @ cell_bytes D c @ post) (length pre) = Inr (fst c)"
    unfolding pg by (simp add: decode_key_at_def take_or_def g1 g2 l k enc_lift_def del: add_2_eq_Suc add_2_eq_Suc')
  show "\<exists>b. take_or (pre @ cell_bytes D c @ post) (length pre + 2 + length (key_bytes D (fst c))) (LENGTH('v) div 8) = Inr b \<and>
      from_le_bytes b = snd c"
    unfolding pg kb_def [symmetric] using g3 l by (simp add: take_or_def)
qed

lemma starts_loop_image:
  fixes cs :: "('d Value \<times> 'v::len word) list"
  assumes D: "decimal_laws D" and v: "8 dvd LENGTH('v)"
  shows "keys_ok D cs \<Longrightarrow> starts_loop (pre @ cells_bytes D cs @ post) (LENGTH('v) div 8) (length cs) (length pre) =
    Inr (offsets D (LENGTH('v) div 8) (length pre) cs, length pre + cells_size D (LENGTH('v) div 8) cs)"
proof (induction cs arbitrary: pre)
  case (Cons c cs)
  define pg where "pg = pre @ cells_bytes D (c # cs) @ post"
  have pg1: "pg = pre @ cell_bytes D c @ cells_bytes D cs @ post" by (simp add: pg_def)
  obtain l where l: "take_or pg (length pre) 2 = Inr l" "u16_at l = length (key_bytes D (fst c))"
    using cell_reads(1) [OF D _ v, of c pre "cells_bytes D cs @ post"] Cons.prems unfolding pg1 by auto
  have len: "length (pre @ cell_bytes D c) = length pre + (2 + u16_at l + LENGTH('v) div 8)"
    using length_cells_bytes [of D "[c]"] l(2) by (simp add: cell_size_def)
  have "starts_loop pg (LENGTH('v) div 8) (length cs) (length pre + (2 + u16_at l + LENGTH('v) div 8)) =
      Inr (offsets D (LENGTH('v) div 8) (length pre + cell_size D (LENGTH('v) div 8) c) cs,
        length pre + cell_size D (LENGTH('v) div 8) c + cells_size D (LENGTH('v) div 8) cs)"
    using Cons.IH [of "pre @ cell_bytes D c"] Cons.prems unfolding len [symmetric]
    by (simp add: pg1 length_cells_bytes [of D "[c]", simplified])
  then show ?case using l by (simp add: pg1 [symmetric] offsets_Cons add.assoc)
qed (simp add: offsets_def)

text \<open>One description of both kinds of page: cells of width \<open>w\<close> from offset \<open>h\<close>.\<close>

definition cells_page :: "'d decimal_ops \<Rightarrow> nat \<Rightarrow> ('d Value \<times> 'v::len word) list \<Rightarrow> bytes \<Rightarrow> bool" where
  "cells_page D h cs pg \<longleftrightarrow> (\<exists>pre post. pg = pre @ cells_bytes D cs @ post \<and> length pre = h) \<and> keys_ok D cs"

lemma cells_page_reads:
  fixes cs :: "('d Value \<times> 'v::len word) list"
  assumes D: "decimal_laws D" and v: "8 dvd LENGTH('v)" and pg: "cells_page D h cs pg" and i: "i < length cs"
  shows "\<exists>l. take_or pg (offsets D (LENGTH('v) div 8) h cs ! i) 2 = Inr l \<and> u16_at l = length (key_bytes D (fst (cs ! i)))"
    and "decode_key_at D pg (offsets D (LENGTH('v) div 8) h cs ! i) = Inr (fst (cs ! i))"
    and "\<exists>b. take_or pg (offsets D (LENGTH('v) div 8) h cs ! i + 2 + length (key_bytes D (fst (cs ! i)))) (LENGTH('v) div 8) = Inr b \<and>
      from_le_bytes b = snd (cs ! i)"
proof -
  obtain pre post where p: "pg = pre @ cells_bytes D cs @ post" "length pre = h" "keys_ok D cs"
    using pg by (auto simp: cells_page_def)
  define pre' where "pre' = pre @ cells_bytes D (take i cs)"
  have pg': "pg = pre' @ cell_bytes D (cs ! i) @ cells_bytes D (drop (Suc i) cs) @ post"
    using cells_at [OF i] p(1) by (simp add: pre'_def)
  have off: "offsets D (LENGTH('v) div 8) h cs ! i = length pre'"
    using i p(2) by (simp add: nth_offsets pre'_def length_cells_bytes)
  have ok: "key_ok D (fst (cs ! i))" using p(3) i by (auto simp: keys_ok_def)
  note c = cell_reads [OF D ok v, of pre' "cells_bytes D (drop (Suc i) cs) @ post"]
  show "\<exists>l. take_or pg (offsets D (LENGTH('v) div 8) h cs ! i) 2 = Inr l \<and> u16_at l = length (key_bytes D (fst (cs ! i)))"
    using c(1) by (simp only: off pg')
  show "decode_key_at D pg (offsets D (LENGTH('v) div 8) h cs ! i) = Inr (fst (cs ! i))"
    using c(2) by (simp only: off pg')
  show "\<exists>b. take_or pg (offsets D (LENGTH('v) div 8) h cs ! i + 2 + length (key_bytes D (fst (cs ! i)))) (LENGTH('v) div 8) = Inr b \<and>
      from_le_bytes b = snd (cs ! i)"
    using c(3) by (simp only: off pg')
qed

lemma leaf_page: "node_ok D (Leaf cs) \<Longrightarrow> cells_page D 3 cs (node_image D (Leaf cs))"
  unfolding cells_page_def node_image_def
  by (intro conjI exI [of _ "node_head (Leaf cs)"] exI [of _ "replicate (PAGE_SIZE - node_size D (Leaf cs)) 0"])
    (auto simp: node_ok_def)

lemma internal_page: "node_ok D (Internal l cs) \<Longrightarrow> cells_page D 7 cs (node_image D (Internal l cs))"
  unfolding cells_page_def node_image_def
  by (intro conjI exI [of _ "node_head (Internal l cs)"] exI [of _ "replicate (PAGE_SIZE - node_size D (Internal l cs)) 0"])
    (auto simp: node_ok_def)

lemma node_starts_leaf:
  assumes D: "decimal_laws D" and ok: "node_ok D (Leaf cs)"
  shows "node_starts (node_image D (Leaf cs)) = Inr (LEAF, None, offsets D 8 3 cs)"
proof -
  define c where "c = to_le_bytes (word_of_nat (length cs) :: u16)"
  define pg where "pg = node_image D (Leaf cs)"
  define z where "z = replicate (PAGE_SIZE - node_size D (Leaf cs)) (0 :: u8)"
  have c: "length c = 2" "u16_at c = length cs" using count_bound [OF ok] by (simp_all add: c_def u16_at_len)
  have pg1: "pg = [LEAF] @ c @ cells_bytes D cs @ z" by (simp add: pg_def node_image_def c_def z_def)
  have "get_range pg 1 2 = Some c" unfolding pg1 by (rule get_range_append) (use c in auto)
  moreover have "starts_loop pg 8 (length cs) 3 = Inr (offsets D 8 3 cs, 3 + cells_size D 8 cs)"
    using starts_loop_image [OF D, of cs "LEAF # c" z] ok c by (simp add: pg1 node_ok_def)
  moreover have "\<not> length pg < 3 + cells_size D 8 cs" using ok length_node_image [OF ok] by (simp add: pg_def node_ok_def)
  ultimately have "node_starts pg = Inr (LEAF, None, offsets D 8 3 cs)"
    using c by (simp add: node_starts_def pg1 take_or_def LEAF_def INTERNAL_def)
  then show ?thesis by (simp add: pg_def)
qed

lemma node_starts_internal:
  assumes D: "decimal_laws D" and ok: "node_ok D (Internal l cs)"
  shows "node_starts (node_image D (Internal l cs)) = Inr (INTERNAL, Some l, offsets D 4 7 cs)"
proof -
  define c where "c = to_le_bytes (word_of_nat (length cs) :: u16)"
  define pg where "pg = node_image D (Internal l cs)"
  define z where "z = replicate (PAGE_SIZE - node_size D (Internal l cs)) (0 :: u8)"
  have c: "length c = 2" "u16_at c = length cs" using count_bound_internal [OF ok] by (simp_all add: c_def u16_at_len)
  have pg1: "pg = [INTERNAL] @ c @ to_le_bytes l @ cells_bytes D cs @ z"
    by (simp add: pg_def node_image_def c_def z_def)
  have "get_range pg 1 2 = Some c" unfolding pg1 by (rule get_range_append) (use c in auto)
  moreover have "get_range pg 3 4 = Some (to_le_bytes l)"
    using get_range_append [of "INTERNAL # c" 3 "to_le_bytes l" 4] c by (simp add: pg1)
  moreover have "starts_loop pg 4 (length cs) 7 = Inr (offsets D 4 7 cs, 7 + cells_size D 4 cs)"
    using starts_loop_image [OF D, of cs "INTERNAL # c @ to_le_bytes l" z] ok c by (simp add: pg1 node_ok_def)
  moreover have "\<not> length pg < 7 + cells_size D 4 cs" using ok length_node_image [OF ok] by (simp add: pg_def node_ok_def)
  ultimately have "node_starts pg = Inr (INTERNAL, Some l, offsets D 4 7 cs)"
    using c by (simp add: node_starts_def pg1 take_or_def LEAF_def INTERNAL_def)
  then show ?thesis by (simp add: pg_def)
qed

subsection \<open>Seeking\<close>

definition go_right :: "'d decimal_ops \<Rightarrow> 'd Value \<Rightarrow> bool \<Rightarrow> 'd Value \<Rightarrow> bool" where
  "go_right D key want_gt k \<longleftrightarrow> (if want_gt then cmp_values D k key \<noteq> Greater else cmp_values D k key = Less)"

lemma seek_step:
  assumes "lo < hi" and "mid = lo + (hi - lo) div 2" and "decode_key_at D pg (starts ! mid) = Inr k"
  shows "seek_loop D pg starts key gt lo hi =
    (if go_right D key gt k then seek_loop D pg starts key gt (mid + 1) hi else seek_loop D pg starts key gt lo mid)"
  using assms by (subst seek_loop.simps) (simp add: Let_def go_right_def)

lemma seek_Inr_step:
  assumes "seek_loop D pg starts key gt lo hi = Inr i" and "lo < hi"
  obtains k mid where "mid = lo + (hi - lo) div 2" and "lo \<le> mid" and "mid < hi" and "decode_key_at D pg (starts ! mid) = Inr k"
proof -
  have "\<exists>k. decode_key_at D pg (starts ! (lo + (hi - lo) div 2)) = Inr k"
    using assms by (subst (asm) seek_loop.simps) (auto simp: Let_def ebind_eq_Inr)
  then show ?thesis using that assms(2) by auto
qed

lemma seek_loop_bound:
  assumes "\<And>i. lo \<le> i \<Longrightarrow> i < hi \<Longrightarrow> \<exists>k. decode_key_at D pg (starts ! i) = Inr k \<and> (go_right D key gt k \<longleftrightarrow> i < p)"
    and "lo \<le> p" and "p \<le> hi"
  shows "seek_loop D pg starts key gt lo hi = Inr p"
  using assms
proof (induction "hi - lo" arbitrary: lo hi rule: less_induct)
  case less
  show ?case
  proof (cases "lo < hi")
    case True
    define mid where "mid = lo + (hi - lo) div 2"
    have m: "lo \<le> mid" "mid < hi" using True by (auto simp: mid_def)
    obtain k where k: "decode_key_at D pg (starts ! mid) = Inr k" "go_right D key gt k \<longleftrightarrow> mid < p"
      using less.prems(1) [OF m] by blast
    show ?thesis
    proof (cases "mid < p")
      case True
      then show ?thesis
        using less.hyps [of hi "mid + 1"] less.prems m k seek_step [OF \<open>lo < hi\<close> mid_def k(1)] by simp
    next
      case False
      then show ?thesis
        using less.hyps [of mid lo] less.prems m k seek_step [OF \<open>lo < hi\<close> mid_def k(1)] by simp
    qed
  next
    case False
    then show ?thesis using less.prems(2,3) by (subst seek_loop.simps) simp
  qed
qed

text \<open>On any page, however damaged, the first \<open>>=\<close> index is at most the first \<open>>\<close> index: the slice of
  starts in \<open>get_at\<close> is well-formed.\<close>

lemma seek_loop_range: "seek_loop D pg starts key gt lo hi = Inr i \<Longrightarrow> lo \<le> hi \<Longrightarrow> lo \<le> i \<and> i \<le> hi"
proof (induction "hi - lo" arbitrary: lo hi rule: less_induct)
  case less
  show ?case
  proof (cases "lo < hi")
    case True
    obtain k mid where m: "mid = lo + (hi - lo) div 2" "lo \<le> mid" "mid < hi" "decode_key_at D pg (starts ! mid) = Inr k"
      using seek_Inr_step [OF less.prems(1) True] .
    note step = seek_step [OF True m(1,4), of key gt]
    have sz: "hi - (mid + 1) < hi - lo" "mid - lo < hi - lo" using m(2,3) by auto
    show ?thesis
    proof (cases "go_right D key gt k")
      case True
      then show ?thesis using less.hyps [OF sz(1)] less.prems(1) m(2,3) step by simp
    next
      case False
      then show ?thesis using less.hyps [OF sz(2)] less.prems(1) m(2,3) step by force
    qed
  next
    case False
    then show ?thesis using less.prems by (subst (asm) seek_loop.simps) simp
  qed
qed

lemma seek_loop_le:
  "seek_loop D pg starts key False lo hi = Inr s \<Longrightarrow> seek_loop D pg starts key True lo hi = Inr g \<Longrightarrow> lo \<le> hi \<Longrightarrow> s \<le> g"
proof (induction "hi - lo" arbitrary: lo hi rule: less_induct)
  case less
  show ?case
  proof (cases "lo < hi")
    case True
    obtain k mid where m: "mid = lo + (hi - lo) div 2" "lo \<le> mid" "mid < hi" "decode_key_at D pg (starts ! mid) = Inr k"
      using seek_Inr_step [OF less.prems(1) True] .
    note step = seek_step [OF True m(1,4), of key]
    show ?thesis
    proof (cases "cmp_values D k key")
      case Less
      then show ?thesis using less.hyps [of hi "mid + 1"] less.prems m(2,3) by (simp add: step go_right_def)
    next
      case Greater
      then show ?thesis using less.hyps [of mid lo] less.prems m(2,3) by (simp add: step go_right_def)
    next
      case Equal
      then have "s \<le> mid" "mid + 1 \<le> g"
        using less.prems m(2,3) seek_loop_range [of D pg starts key False lo mid s]
          seek_loop_range [of D pg starts key True "mid + 1" hi g] by (simp_all add: step go_right_def)
      then show ?thesis by simp
    qed
  next
    case False
    then show ?thesis using less.prems by (subst (asm) (1 2) seek_loop.simps) simp
  qed
qed

end
