(* ===== verification/Btree_Tree.thy ===== *)
theory Btree_Tree
  imports Btree_Nodes
begin

text \<open>
  The tree a set of pages represents. A tree value carries the page ids of its nodes; \<open>stored\<close> says that
  the pages hold the images of its nodes. Its trace lists the keys and the separators in order; a
  sorted trace is the search-tree invariant. Keys equal to a separator may stand on both sides of it,
  as in the code, where a split inside a run of equal keys leaves some of them to the left.
\<close>

section \<open>Trees and traces\<close>

datatype 'd tree =
    TLeaf page_id "'d entries"
  | TNode page_id "'d tree" "('d Value \<times> 'd tree) list"

lemma tree_induct [case_names TLeaf TNode]:
  assumes "\<And>i cs. P (TLeaf i cs)" and "\<And>i l cs. P l \<Longrightarrow> (\<And>c. c \<in> set cs \<Longrightarrow> P (snd c)) \<Longrightarrow> P (TNode i l cs)"
  shows "P t"
proof (induction t)
  case (TNode i l cs)
  then show ?case by (intro assms(2)) (auto intro: snds.intros)
qed (rule assms(1))

datatype 'd item = Key "'d Value" u64 | Sep "'d Value"

fun ikey :: "'d item \<Rightarrow> 'd Value" where
  "ikey (Key k v) = k"
| "ikey (Sep k) = k"

fun root_of :: "'d tree \<Rightarrow> page_id" where
  "root_of (TLeaf i cs) = i"
| "root_of (TNode i l cs) = i"

fun trace :: "'d tree \<Rightarrow> 'd item list" where
  "trace (TLeaf i cs) = map (\<lambda>(k, v). Key k v) cs"
| "trace (TNode i l cs) = trace l @ concat (map (\<lambda>c. Sep (fst c) # trace (snd c)) cs)"

abbreviation kids :: "('d Value \<times> 'd tree) list \<Rightarrow> 'd item list" where
  "kids cs \<equiv> concat (map (\<lambda>c. Sep (fst c) # trace (snd c)) cs)"

fun pages :: "'d tree \<Rightarrow> page_id list" where
  "pages (TLeaf i cs) = [i]"
| "pages (TNode i l cs) = i # pages l @ concat (map (\<lambda>c. pages (snd c)) cs)"

fun height :: "'d tree \<Rightarrow> nat" where
  "height (TLeaf i cs) = 0"
| "height (TNode i l cs) = Suc (Max (set (height l # map (\<lambda>c. height (snd c)) cs)))"

fun node_of :: "'d tree \<Rightarrow> 'd node" where
  "node_of (TLeaf i cs) = Leaf cs"
| "node_of (TNode i l cs) = Internal (root_of l) (map (\<lambda>c. (fst c, root_of (snd c))) cs)"

fun stored :: "'d decimal_ops \<Rightarrow> (page_id \<Rightarrow> bytes option) \<Rightarrow> 'd tree \<Rightarrow> bool" where
  "stored D v (TLeaf i cs) \<longleftrightarrow> v i = Some (node_image D (Leaf cs)) \<and> node_ok D (Leaf cs)"
| "stored D v (TNode i l cs) \<longleftrightarrow>
     v i = Some (node_image D (node_of (TNode i l cs))) \<and> node_ok D (node_of (TNode i l cs)) \<and>
     stored D v l \<and> (\<forall>c \<in> set cs. stored D v (snd c))"

fun keys_of :: "'d item list \<Rightarrow> 'd entries" where
  "keys_of [] = []"
| "keys_of (Key k v # xs) = (k, v) # keys_of xs"
| "keys_of (Sep k # xs) = keys_of xs"

text \<open>The entries of a tree, in order.\<close>

definition entries :: "'d tree \<Rightarrow> 'd entries" where
  "entries t = keys_of (trace t)"

lemma keys_of_append [simp]: "keys_of (xs @ ys) = keys_of xs @ keys_of ys"
  by (induction xs rule: keys_of.induct) auto

lemma keys_of_map_Key [simp]: "keys_of (map (\<lambda>(k, v). Key k v) cs) = cs"
  by (induction cs) auto

lemma set_keys_of: "(k, v) \<in> set (keys_of xs) \<longleftrightarrow> Key k v \<in> set xs"
  by (induction xs rule: keys_of.induct) auto

lemma entries_simps [simp]:
  "entries (TLeaf i es) = es" "entries (TNode i l cs) = entries l @ concat (map (\<lambda>c. entries (snd c)) cs)"
proof -
  show "entries (TLeaf i es) = es" by (simp add: entries_def)
  have "keys_of (kids cs) = concat (map (\<lambda>c. entries (snd c)) cs)"
    by (induction cs) (auto simp: entries_def)
  then show "entries (TNode i l cs) = entries l @ concat (map (\<lambda>c. entries (snd c)) cs)"
    by (simp add: entries_def)
qed

lemma root_in_pages [simp]: "root_of t \<in> set (pages t)"
  by (cases t) auto

lemma height_child:
  "height l < height (TNode i l cs)" "c \<in> set cs \<Longrightarrow> height (snd c) < height (TNode i l cs)"
  by (auto simp: less_Suc_eq_le)

lemma height_le_iff: "height (TNode i l cs) \<le> Suc n \<longleftrightarrow> height l \<le> n \<and> (\<forall>c \<in> set cs. height (snd c) \<le> n)"
  by auto

lemma stored_page: "stored D v t \<Longrightarrow> v (root_of t) = Some (node_image D (node_of t)) \<and> node_ok D (node_of t)"
  by (cases t) auto

lemma stored_pages: "stored D v t \<Longrightarrow> i \<in> set (pages t) \<Longrightarrow> v i \<noteq> None"
  by (induction t rule: tree_induct) fastforce+

lemma stored_cong:
  "stored D v t \<Longrightarrow> (\<And>i. i \<in> set (pages t) \<Longrightarrow> v' i = v i) \<Longrightarrow> stored D v' t"
  by (induction t rule: tree_induct) auto

lemma stored_keys: "stored D v t \<Longrightarrow> x \<in> set (trace t) \<Longrightarrow> key_ok D (ikey x)"
proof (induction t rule: tree_induct)
  case (TNode i l cs)
  then have "keys_ok D (map (\<lambda>c. (fst c, root_of (snd c))) cs)" by (simp add: node_ok_def)
  then show ?case using TNode by (auto simp: keys_ok_def)
qed (auto simp: node_ok_def keys_ok_def)

section \<open>Order\<close>

definition le :: "'d decimal_ops \<Rightarrow> 'd Value \<Rightarrow> 'd Value \<Rightarrow> bool" where
  "le D a b \<longleftrightarrow> cmp_values D a b \<noteq> Greater"

definition lt :: "'d decimal_ops \<Rightarrow> 'd Value \<Rightarrow> 'd Value \<Rightarrow> bool" where
  "lt D a b \<longleftrightarrow> cmp_values D a b = Less"

definition item_le :: "'d decimal_ops \<Rightarrow> 'd item \<Rightarrow> 'd item \<Rightarrow> bool" where
  "item_le D x y \<longleftrightarrow> le D (ikey x) (ikey y)"

text \<open>Search-tree order: every key left of a separator is at most it, every key right of it at least.\<close>

definition in_order :: "'d decimal_ops \<Rightarrow> 'd tree \<Rightarrow> bool" where
  "in_order D t \<longleftrightarrow> sorted_wrt (item_le D) (trace t)"

text \<open>The stricter order of unique trees: separators and keys are distinct, keys left of a separator are
  below it. With \<open>u\<close> false equal keys are allowed, but no run of them spans a separator.\<close>

fun strict :: "'d decimal_ops \<Rightarrow> bool \<Rightarrow> 'd item \<Rightarrow> 'd item \<Rightarrow> bool" where
  "strict D u (Sep a) (Key b _) = le D a b"
| "strict D u (Key a _) (Key b _) = (if u then lt D a b else le D a b)"
| "strict D u (Key a _) (Sep b) = lt D a b"
| "strict D u (Sep a) (Sep b) = lt D a b"

lemma lt_le: "lt D a b \<Longrightarrow> le D a b"
  by (simp add: lt_def le_def)

lemma strict_le: "strict D u x y \<Longrightarrow> item_le D x y"
  by (cases x; cases y) (auto simp: item_le_def lt_le split: if_splits)

lemma strict_in_order: "sorted_wrt (strict D u) (trace t) \<Longrightarrow> in_order D t"
  unfolding in_order_def by (rule sorted_wrt_mono_rel [of _ "strict D u"]) (auto dest: strict_le)

text \<open>The order laws on keys the index accepts.\<close>

lemma key_ordered: "decimal_laws D \<Longrightarrow> key_ok D k \<Longrightarrow> ordered_value D k"
  using wf_decimals_ok key_okD(1) by (auto simp: ordered_value_def)

lemma le_trans:
  assumes "decimal_laws D" and "key_ok D a" "key_ok D b" "key_ok D c" and "le D a b" and "le D b c"
  shows "le D a c"
  using value_order.cmp_trans [OF assms(2-4) [THEN key_ordered [OF assms(1)]]] assms(5,6) by (simp add: le_def)

lemma lt_le_trans:
  assumes "decimal_laws D" and "key_ok D a" "key_ok D b" "key_ok D c" and "lt D a b" and "le D b c"
  shows "lt D a c"
  using value_order.cmp_less_le_trans [OF assms(2-4) [THEN key_ordered [OF assms(1)]]] assms(5,6)
  by (simp add: le_def lt_def)

lemma le_lt_trans:
  assumes "decimal_laws D" and "key_ok D a" "key_ok D b" "key_ok D c" and "le D a b" and "lt D b c"
  shows "lt D a c"
  using value_order.cmp_le_less_trans [OF assms(2-4) [THEN key_ordered [OF assms(1)]]] assms(5,6)
  by (simp add: le_def lt_def)

lemma not_le_lt:
  assumes "decimal_laws D" and "key_ok D a" "key_ok D b"
  shows "\<not> le D a b \<longleftrightarrow> lt D b a" and "cmp_values D a b = Greater \<longleftrightarrow> lt D b a"
  using value_order.cmp_Greater_iff [OF assms(2,3) [THEN key_ordered [OF assms(1)]]] by (simp_all add: le_def lt_def)

lemma le_refl: "decimal_laws D \<Longrightarrow> key_ok D a \<Longrightarrow> le D a a"
  using value_order.cmp_refl [OF key_ordered [of D a]] by (simp add: le_def)

end
