(* ===== verification/Btree_Insert.thy ===== *)
theory Btree_Insert
  imports Btree_Tree
begin

text \<open>
  Insertion: the pages after \<open>insert\<close> represent the tree whose entries are the old ones with the new
  entry placed after every entry with a key at most its own. For unique trees this holds always and
  keeps the strict order; for trees with equal keys it is proved when no run of equal keys spans a
  separator (\<open>Btree_Scenarios\<close> has the counterexample for the other case).
\<close>

section \<open>Insertion into traces\<close>

definition ins_at :: "'d decimal_ops \<Rightarrow> 'd Value \<Rightarrow> u64 \<Rightarrow> 'd entries \<Rightarrow> 'd entries" where
  "ins_at D key val es =
     takeWhile (\<lambda>e. le D (fst e) key) es @ (key, val) # dropWhile (\<lambda>e. le D (fst e) key) es"

text \<open>The order of the result.\<close>

definition res_rel :: "'d decimal_ops \<Rightarrow> bool \<Rightarrow> 'd item \<Rightarrow> 'd item \<Rightarrow> bool" where
  "res_rel D u x y \<longleftrightarrow> (if u then strict D True x y else item_le D x y)"

text \<open>\<open>R\<close> results from inserting into a part with trace \<open>old\<close>: a new separator is a key of the part and
  has a key to its left.\<close>

definition ins_result :: "'d decimal_ops \<Rightarrow> bool \<Rightarrow> 'd Value \<Rightarrow> u64 \<Rightarrow> 'd item list \<Rightarrow> 'd item list \<Rightarrow> bool" where
  "ins_result D u key val old R \<longleftrightarrow>
     keys_of R = ins_at D key val (keys_of old) \<and> sorted_wrt (res_rel D u) R \<and>
     (\<forall>m. Sep m \<in> set R \<longrightarrow> Sep m \<in> set old \<or>
        (\<exists>v. Key m v \<in> set R) \<and> (\<exists>k v. Key k v \<in> set R \<and> res_rel D u (Key k v) (Sep m)))"

lemma strict_out: "strict D u x y \<Longrightarrow> res_rel D u x y"
  by (cases u) (auto simp: res_rel_def dest: strict_le)

lemma sorted_out: "sorted_wrt (strict D u) xs \<Longrightarrow> sorted_wrt (res_rel D u) xs"
  by (erule sorted_wrt_mono_rel [rotated]) (rule strict_out)

lemma ins_at_set: "set (ins_at D key val es) = Set.insert (key, val) (set es)"
proof -
  have "set es = set (takeWhile (\<lambda>e. le D (fst e) key) es) \<union> set (dropWhile (\<lambda>e. le D (fst e) key) es)"
    by (metis set_append takeWhile_dropWhile_id)
  then show ?thesis by (auto simp: ins_at_def)
qed

lemma ins_at_context:
  assumes "\<And>e. e \<in> set P \<Longrightarrow> le D (fst e) key" and "\<And>e. e \<in> set Q \<Longrightarrow> \<not> le D (fst e) key"
  shows "ins_at D key val (P @ E @ Q) = P @ ins_at D key val E @ Q"
proof -
  have q: "takeWhile (\<lambda>e. le D (fst e) key) Q = []" "dropWhile (\<lambda>e. le D (fst e) key) Q = Q"
    using assms(2) by (cases Q; simp)+
  have "takeWhile (\<lambda>e. le D (fst e) key) (E @ Q) = takeWhile (\<lambda>e. le D (fst e) key) E \<and>
      dropWhile (\<lambda>e. le D (fst e) key) (E @ Q) = dropWhile (\<lambda>e. le D (fst e) key) E @ Q"
    using q by (induction E) auto
  then show ?thesis using assms(1) by (simp add: ins_at_def takeWhile_append2 dropWhile_append2)
qed

lemma ins_resultD:
  assumes "ins_result D u key val old R" and "x \<in> set R"
  shows "x \<in> set old \<or> x = Key key val \<or>
    (\<exists>m v k w. x = Sep m \<and> Key m v \<in> set R \<and> Key k w \<in> set R \<and> res_rel D u (Key k w) (Sep m))"
proof (cases x)
  case (Key k v)
  then have "(k, v) \<in> set (ins_at D key val (keys_of old))"
    using assms set_keys_of [of k v R] by (simp add: ins_result_def)
  then show ?thesis using Key by (auto simp: ins_at_set set_keys_of)
next
  case (Sep m)
  then show ?thesis using assms unfolding ins_result_def by blast
qed

lemma key_in_result:
  assumes "ins_result D u key val old R" and "Key k v \<in> set R"
  shows "Key k v \<in> set old \<or> k = key \<and> v = val"
  using ins_resultD [OF assms] by auto

text \<open>Inserting into a part of a bigger tree: everything before the part is at most the last separator
  \<open>k\<close> before it, which is at most the key, everything after it is above the key.\<close>

lemma ins_result_context:
  assumes D: "decimal_laws D" and key: "key_ok D key"
    and keys: "\<And>x. x \<in> set (pre @ old @ post) \<Longrightarrow> key_ok D (ikey x)"
    and sorted: "sorted_wrt (strict D u) (pre @ old @ post)"
    and pre: "pre = [] \<or> (\<exists>xs k. pre = xs @ [Sep k] \<and> le D k key)"
    and post: "post = [] \<or> (\<exists>xs k. post = Sep k # xs \<and> lt D key k)"
    and R: "ins_result D u key val old R"
  shows "ins_result D u key val (pre @ old @ post) (pre @ R @ post)"
proof -
  note order = lt_le_trans [OF D] le_lt_trans [OF D] le_trans [OF D] lt_le
  have parts: "\<And>x y. x \<in> set pre \<Longrightarrow> y \<in> set old \<Longrightarrow> strict D u x y" "\<And>x y. x \<in> set pre \<Longrightarrow> y \<in> set post \<Longrightarrow> strict D u x y"
      "\<And>x y. x \<in> set old \<Longrightarrow> y \<in> set post \<Longrightarrow> strict D u x y" "sorted_wrt (strict D u) pre" "sorted_wrt (strict D u) post"
    using sorted by (auto simp: sorted_wrt_append)
  have keysR: "key_ok D k" if "Key k v \<in> set R" for k v
    using key_in_result [OF R that] keys [of "Key k v"] key by auto
  have lo: "(case x of Key a _ \<Rightarrow> lt D a key | Sep a \<Rightarrow> le D a key)" if x: "x \<in> set pre" for x
  proof -
    obtain xs k where p: "pre = xs @ [Sep k]" "le D k key" using pre x by fastforce
    then have s: "x = Sep k \<or> strict D u x (Sep k)" using x parts(4) by (auto simp: sorted_wrt_append)
    have ok: "key_ok D (ikey x)" "key_ok D k" using keys [of x] keys [of "Sep k"] x p by auto
    have "lt D (ikey x) k \<Longrightarrow> lt D (ikey x) key" using order(1) [OF ok key] p(2) by blast
    then show ?thesis using s p(2) by (cases x) (auto intro: lt_le)
  qed
  have hi: "lt D key (ikey y)" if y: "y \<in> set post" for y
  proof -
    obtain xs k where p: "post = Sep k # xs" "lt D key k" using post y by fastforce
    then have s: "y = Sep k \<or> strict D u (Sep k) y" using y parts(5) by auto
    have ok: "key_ok D k" "key_ok D (ikey y)" using keys [of y] keys [of "Sep k"] y p by auto
    have "le D k (ikey y) \<Longrightarrow> lt D key (ikey y)" using order(1) [OF key ok] p(2) by blast
    then show ?thesis using s p(2) by (cases y) (auto intro: lt_le)
  qed
  have preR: "res_rel D u x y" if x: "x \<in> set pre" and y: "y \<in> set R" for x y
  proof -
    have toKey: "res_rel D u x (Key k v) \<and> (case x of Key a _ \<Rightarrow> (if u then lt D a k else le D a k) | Sep a \<Rightarrow> le D a k)"
      if "Key k v \<in> set R" for k v
      using key_in_result [OF R that] parts(1) [OF x, of "Key k v"] lo [OF x]
      by (cases x) (auto simp: res_rel_def item_le_def lt_le split: if_splits)
    consider "y \<in> set old" | "y = Key key val" | m v k w where "y = Sep m" "Key m v \<in> set R" "Key k w \<in> set R" "res_rel D u (Key k w) (Sep m)"
      using ins_resultD [OF R y] by blast
    then show ?thesis
    proof cases
      case 3
      have ok: "key_ok D (ikey x)" "key_ok D k" "key_ok D m" using keys x keysR 3 by auto
      have le: "le D (ikey x) k" using toKey [OF 3(3)] by (cases x) (auto intro: lt_le split: if_splits)
      show ?thesis
        using order(2) [OF ok le] order(3) [OF ok le] 3(1,4) by (cases x) (auto simp: res_rel_def item_le_def split: if_splits)
    next
      case 1
      then show ?thesis using parts(1) [OF x] strict_out by blast
    next
      case 2
      then show ?thesis using toKey y by blast
    qed
  qed
  have Rpost: "res_rel D u x y" if x: "x \<in> set R" and y: "y \<in> set post" for x y
  proof -
    have fromKey: "res_rel D u (Key k v) y \<and> (case y of Key b _ \<Rightarrow> le D k b | Sep b \<Rightarrow> lt D k b)" if "Key k v \<in> set R" for k v
      using key_in_result [OF R that] parts(3) [OF _ y, of "Key k v"] hi [OF y]
      by (cases y) (auto simp: res_rel_def item_le_def lt_le split: if_splits)
    consider "x \<in> set old" | "x = Key key val" | m v where "x = Sep m" "Key m v \<in> set R"
      using ins_resultD [OF R x] by blast
    then show ?thesis
    proof cases
      case 1
      then show ?thesis using parts(3) [OF _ y] strict_out by blast
    next
      case 2
      then show ?thesis using fromKey x by blast
    next
      case 3
      then show ?thesis using fromKey [OF 3(2)] by (cases y) (auto simp: res_rel_def item_le_def lt_le)
    qed
  qed
  have "sorted_wrt (res_rel D u) pre" "sorted_wrt (res_rel D u) post"
    using parts(4,5) by (simp_all add: sorted_out)
  moreover have "sorted_wrt (res_rel D u) R" using R by (simp add: ins_result_def)
  ultimately have "sorted_wrt (res_rel D u) (pre @ R @ post)"
    using preR Rpost strict_out [OF parts(2)] by (simp add: sorted_wrt_append ball_Un)
  moreover have "keys_of (pre @ R @ post) = ins_at D key val (keys_of (pre @ old @ post))"
  proof -
    have P: "le D (fst e) key" if "e \<in> set (keys_of pre)" for e
      using lo [of "Key (fst e) (snd e)"] that by (auto simp: set_keys_of [symmetric] lt_le)
    have Q: "\<not> le D (fst e) key" if "e \<in> set (keys_of post)" for e
    proof -
      have e: "Key (fst e) (snd e) \<in> set post" using that by (simp add: set_keys_of [symmetric])
      then show ?thesis using hi [OF e] not_le_lt(1) [OF D _ key, of "fst e"] keys [of "Key (fst e) (snd e)"] by simp
    qed
    show ?thesis using R ins_at_context [of "keys_of pre" D key "keys_of post" val "keys_of old", OF P Q] by (simp add: ins_result_def)
  qed
  ultimately show ?thesis using R unfolding ins_result_def by fastforce
qed

section \<open>Leaves\<close>

definition cell_rel :: "'d decimal_ops \<Rightarrow> bool \<Rightarrow> 'd Value \<times> 'v \<Rightarrow> 'd Value \<times> 'v \<Rightarrow> bool" where
  "cell_rel D u a b \<longleftrightarrow> (if u then lt D (fst a) (fst b) else le D (fst a) (fst b))"

lemma sorted_map_Key: "sorted_wrt (strict D u) (map (\<lambda>(k, v). Key k v) cs) \<longleftrightarrow> sorted_wrt (cell_rel D u) cs"
proof -
  have "strict D u (case a of (k, v) \<Rightarrow> Key k v) (case b of (k, v) \<Rightarrow> Key k v) = cell_rel D u a b" for a b :: "'a Value \<times> u64"
    by (cases a; cases b) (simp add: cell_rel_def)
  then show ?thesis by (simp add: sorted_wrt_map)
qed

lemma ins_at_sorted:
  assumes D: "decimal_laws D" and key: "key_ok D key" and keys: "keys_ok D cs" and sorted: "sorted_wrt (cell_rel D u) cs"
    and new: "u \<Longrightarrow> \<forall>e \<in> set cs. cmp_values D (fst e) key \<noteq> Equal"
  shows "sorted_wrt (cell_rel D u) (ins_at D key val cs)"
proof -
  define A where "A = takeWhile (\<lambda>e. le D (fst e) key) cs"
  define B where "B = dropWhile (\<lambda>e. le D (fst e) key) cs"
  have cs: "cs = A @ B" by (simp add: A_def B_def)
  then have ok: "key_ok D (fst e)" if "e \<in> set A \<union> set B" for e using keys that by (auto simp: keys_ok_def)
  have A: "le D (fst e) key" if "e \<in> set A" for e using that by (auto simp: A_def dest: set_takeWhileD)
  then have A': "u \<Longrightarrow> lt D (fst e) key" if "e \<in> set A" for e
    using that new cs by (cases "cmp_values D (fst e) key") (auto simp: le_def lt_def)
  have B: "lt D key (fst e)" if e: "e \<in> set B" for e
  proof -
    obtain b B' where b: "B = b # B'" using e by (cases B) auto
    then have nb: "lt D key (fst b)"
      using hd_dropWhile [of "\<lambda>e. le D (fst e) key" cs] not_le_lt(1) [OF D _ key, of "fst b"] ok [of b]
      by (auto simp: B_def [symmetric])
    have "e = b \<or> le D (fst b) (fst e)"
      using sorted e b by (auto simp: cs sorted_wrt_append cell_rel_def lt_le split: if_splits)
    then show ?thesis using nb lt_le_trans [OF D key] ok [of b] ok [of e] e b by auto
  qed
  have "cell_rel D u a (key, val)" if "a \<in> set A" for a using A A' that by (simp add: cell_rel_def)
  moreover have "cell_rel D u (key, val) b" if "b \<in> set B" for b using B [OF that] by (simp add: cell_rel_def lt_le)
  moreover have "ins_at D key val cs = A @ (key, val) # B" by (simp add: ins_at_def A_def B_def)
  ultimately show ?thesis using sorted unfolding cs by (auto simp: sorted_wrt_append)
qed

lemma leaf_ins_result:
  assumes D: "decimal_laws D" and key: "key_ok D key" and keys: "keys_ok D cs" and sorted: "sorted_wrt (cell_rel D u) cs"
    and new: "u \<Longrightarrow> \<forall>e \<in> set cs. cmp_values D (fst e) key \<noteq> Equal"
    and cs': "cs' = ins_at D key val cs"
  shows "ins_result D u key val (map (\<lambda>(k, v). Key k v) cs) (map (\<lambda>(k, v). Key k v) cs')"
    and "0 < m \<Longrightarrow> m < length cs' \<Longrightarrow> ins_result D u key val (map (\<lambda>(k, v). Key k v) cs)
      (map (\<lambda>(k, v). Key k v) (take m cs') @ Sep (fst (cs' ! m)) # map (\<lambda>(k, v). Key k v) (drop m cs'))"
proof -
  have s: "sorted_wrt (cell_rel D u) cs'" unfolding cs' by (rule ins_at_sorted [OF D key keys sorted new])
  have keys': "keys_ok D cs'" using keys key by (auto simp: keys_ok_def cs' ins_at_set)
  have so: "sorted_wrt (res_rel D u) (map (\<lambda>(k, v). Key k v) xs)" if "sorted_wrt (cell_rel D u) xs" for xs
    using that sorted_map_Key sorted_out by blast
  show "ins_result D u key val (map (\<lambda>(k, v). Key k v) cs) (map (\<lambda>(k, v). Key k v) cs')"
    using so [OF s] by (auto simp: ins_result_def cs')
  assume m: "0 < m" "m < length cs'"
  define A where "A = take m cs'"
  define B where "B = drop (Suc m) cs'"
  define b where "b = cs' ! m"
  have d: "drop m cs' = b # B" using m by (simp add: b_def B_def Cons_nth_drop_Suc)
  have AB: "cs' = A @ b # B" using m by (simp add: A_def B_def b_def id_take_nth_drop)
  have "A \<noteq> []" using m by (auto simp: A_def)
  then obtain a A' where a: "A = a # A'" by (cases A) auto
  have kb: "le D (fst b) (fst b)" using le_refl [OF D] keys' AB by simp
  have so1: "sorted_wrt (res_rel D u) (map (\<lambda>(k, v). Key k v) A @ Sep (fst b) # map (\<lambda>(k, v). Key k v) (b # B))"
  proof -
    have ab: "\<And>x y. x \<in> set A \<Longrightarrow> y \<in> set (b # B) \<Longrightarrow> cell_rel D u x y" and sA: "sorted_wrt (cell_rel D u) A"
      and sB: "sorted_wrt (cell_rel D u) (b # B)"
      using s by (auto simp: AB sorted_wrt_append)
    have 1: "res_rel D u (Key k v) (Key k' v')" if "(k, v) \<in> set A" "(k', v') \<in> set (b # B)" for k v k' v'
      using ab [OF that] by (simp add: res_rel_def cell_rel_def item_le_def split: if_splits)
    have 2: "res_rel D u (Key k v) (Sep (fst b))" if "(k, v) \<in> set A" for k v
      using ab [OF that, of b] by (simp add: res_rel_def cell_rel_def item_le_def split: if_splits)
    have 3: "res_rel D u (Sep (fst b)) (Key k v)" if "(k, v) \<in> set (b # B)" for k v
    proof -
      have "(k, v) = b \<or> cell_rel D u b (k, v)" using that sB by auto
      then have "le D (fst b) k" using kb by (auto simp: cell_rel_def lt_le split: if_splits)
      then show ?thesis by (simp add: res_rel_def item_le_def)
    qed
    have keyE: "\<exists>k v. x = Key k v \<and> (k, v) \<in> set xs" if "x \<in> set (map (\<lambda>(k, v). Key k v) xs)" for x and xs :: "'a entries"
      using that by auto
    have "res_rel D u (Sep (fst b)) x" if "x \<in> set (map (\<lambda>(k, v). Key k v) (b # B))" for x
      using keyE [OF that] 3 by blast
    moreover have "res_rel D u x y" if "x \<in> set (map (\<lambda>(k, v). Key k v) A)" "y \<in> set (map (\<lambda>(k, v). Key k v) (b # B))" for x y
      using that [THEN keyE] 1 by blast
    moreover have "res_rel D u x (Sep (fst b))" if "x \<in> set (map (\<lambda>(k, v). Key k v) A)" for x
      using keyE [OF that] 2 by blast
    ultimately show ?thesis using so [OF sA] so [OF sB] by (simp add: sorted_wrt_append del: list.map)
  qed
  have 2: "res_rel D u (Key (fst a) (snd a)) (Sep (fst b))"
    using s by (simp add: AB a cell_rel_def res_rel_def item_le_def split: if_splits)
  define R where "R = map (\<lambda>(k, v). Key k v) A @ Sep (fst b) # map (\<lambda>(k, v). Key k v) (b # B)"
  have 3: "Key (fst a) (snd a) \<in> set R" "Key (fst b) (snd b) \<in> set R"
    by (auto simp: R_def a split: prod.splits)
  have 4: "keys_of R = ins_at D key val (keys_of (map (\<lambda>(k, v). Key k v) cs))"
    unfolding R_def using AB cs' by (simp del: list.map)
  have "m' = fst b" if "Sep m' \<in> set R" for m'
    using that by (auto simp: R_def split: prod.splits)
  then have "ins_result D u key val (map (\<lambda>(k, v). Key k v) cs) R"
    using so1 2 3 4 unfolding ins_result_def R_def [symmetric] by blast
  then show "ins_result D u key val (map (\<lambda>(k, v). Key k v) cs)
      (map (\<lambda>(k, v). Key k v) (take m cs') @ Sep (fst (cs' ! m)) # map (\<lambda>(k, v). Key k v) (drop m cs'))"
    by (simp only: d A_def b_def R_def)
qed

section \<open>Node pages inside a transaction\<close>

interpretation bt_store: page_store tx_ok tx_view "\<lambda>i. op_err BPager (tx_read i)" tx_room
  "\<lambda>i d. op_err BPager (write_page i 0 d)" "op_err BPager allocate_page"
  by (rule page_store_op_err) (rule tx_store.page_store_axioms)

lemma read_node_tx_eq:
  "read_node_tx D i = obind (op_err BPager (tx_read i)) (\<lambda>p. olift (parse_node D p))"
  by (auto simp: fun_eq_iff read_node_tx_def read_node_def tx_read_def with_tx_def obind_def op_err_def emap_err_def
      split: prod.splits sum.splits)

lemma read_node_step:
  assumes "decimal_laws D" and "tx_ok s" and "tx_view s i = Some (node_image D nd)" and "node_ok D nd" and "tx_room n s"
  obtains s' where "read_node_tx D i s = (Inr nd, s')" and "tx_ok s'" and "tx_view s' = tx_view s" and "tx_room n s'"
proof -
  obtain s' where "op_err BPager (tx_read i) s = (Inr (node_image D nd), s')" "tx_ok s'" "tx_view s' = tx_view s" "tx_room n s'"
    using bt_store.rd_step [OF assms(2,3,5)] .
  then show ?thesis
    using that assms(1,4) unfolding read_node_tx_eq by (simp add: obind_step [of "op_err BPager (tx_read i)"] parse_node_image)
qed

lemma write_node_eq: "node_ok D nd \<Longrightarrow> write_node D i nd = op_err BPager (write_page i 0 (node_image D nd))"
  by (simp add: write_node_def format_node_image fun_eq_iff obind_def)

lemma write_node_step:
  assumes "tx_ok s" and "tx_view s i = Some d" and "node_ok D nd" and "tx_room n s"
  obtains s' where "write_node D i nd s = (Inr (), s')" and "tx_ok s'" and "tx_view s' = (tx_view s)(i \<mapsto> node_image D nd)"
    and "tx_room n s'"
  using bt_store.wr_step [OF assms(1,2) length_node_image [OF assms(3)] assms(4)] that
  unfolding write_node_eq [OF assms(3)] by blast

lemma split_node_step:
  assumes "tx_ok s" and "tx_view s i = Some d" and "node_ok D a" and "node_ok D b" and "tx_room (Suc n) s"
  obtains j s1 s2 s3 where "op_err BPager allocate_page s = (Inr j, s1)" and "write_node D i a s1 = (Inr (), s2)"
    and "write_node D j b s2 = (Inr (), s3)" and "tx_ok s3" and "tx_view s j = None"
    and "tx_view s3 = (tx_view s)(i \<mapsto> node_image D a, j \<mapsto> node_image D b)" and "tx_room n s3"
  using bt_store.split_step [OF assms(1,2,5), of "\<lambda>_. node_image D a" "\<lambda>_. node_image D b"] that
    length_node_image [OF assms(3)] length_node_image [OF assms(4)]
  unfolding write_node_eq [OF assms(3)] write_node_eq [OF assms(4)] by blast

section \<open>What an insertion leaves\<close>

fun joined :: "'d tree \<Rightarrow> ('d Value \<times> 'd tree) option \<Rightarrow> 'd item list" where
  "joined t1 None = trace t1"
| "joined t1 (Some (mid, t2)) = trace t1 @ Sep mid # trace t2"

definition both_pages :: "'d tree \<Rightarrow> ('d Value \<times> 'd tree) option \<Rightarrow> page_id list" where
  "both_pages t1 x = pages t1 @ (case x of None \<Rightarrow> [] | Some (mid, t2) \<Rightarrow> pages t2)"

text \<open>The node at page \<open>i\<close> became \<open>t1\<close>, and \<open>x\<close> is the separator and right sibling it split off, if it did.
  \<open>ps\<close> are the pages of the subtree before, \<open>R\<close> is the trace of the result.\<close>

definition became ::
    "'d decimal_ops \<Rightarrow> (page_id \<Rightarrow> bytes option) \<Rightarrow> (page_id \<Rightarrow> bytes option) \<Rightarrow> page_id \<Rightarrow> page_id set \<Rightarrow> nat \<Rightarrow> 'd item list \<Rightarrow>
       'd tree \<Rightarrow> ('d Value \<times> 'd tree) option \<Rightarrow> bool" where
  "became D v v' i ps h R t1 x \<longleftrightarrow>
     root_of t1 = i \<and> stored D v' t1 \<and> (\<forall>p. x = Some p \<longrightarrow> stored D v' (snd p) \<and> height (snd p) \<le> h) \<and> height t1 \<le> h \<and>
     joined t1 x = R \<and> distinct (both_pages t1 x) \<and> set (both_pages t1 x) \<subseteq> ps \<union> {j. v j = None} \<and>
     (\<forall>j. j \<notin> ps \<longrightarrow> v j \<noteq> None \<longrightarrow> v' j = v j)"

definition split_off :: "('d Value \<times> 'd tree) option \<Rightarrow> ('d Value \<times> page_id) option" where
  "split_off x = map_option (\<lambda>(mid, t2). (mid, root_of t2)) x"

lemma key_ok_bytes: "key_ok D k \<Longrightarrow> \<not> LEAF_CELL_CAP < 2 + length (key_bytes D k) + 8"
  using key_okD(3) [of D k] by (simp add: LEAF_CELL_CAP_def PAGE_SIZE_def)

lemma cell_cap:
  "keys_ok D cs \<Longrightarrow> c \<in> set cs \<Longrightarrow> cell_size D 8 c \<le> (PAGE_SIZE - 3) div 2"
  "keys_ok D cs \<Longrightarrow> c \<in> set cs \<Longrightarrow> cell_size D 4 c \<le> (PAGE_SIZE - 7) div 2"
  using key_okD(3) [of D "fst c"] by (auto simp: keys_ok_def cell_size_def PAGE_SIZE_def)

lemma cells_size_insert: "cells_size D w (vec_insert p c cs) = cells_size D w cs + cell_size D w c"
  using cells_size_split [of D w cs p] by (simp add: vec_insert_def)

lemma nth_vec_insert: "p \<le> length cs \<Longrightarrow> vec_insert p c cs ! p = c"
  by (simp add: vec_insert_def nth_append)

lemma length_vec_insert: "p \<le> length cs \<Longrightarrow> length (vec_insert p c cs) = Suc (length cs)"
  by (simp add: vec_insert_def)

lemma keys_ok_insert: "keys_ok D cs \<Longrightarrow> key_ok D (fst c) \<Longrightarrow> keys_ok D (vec_insert p c cs)"
  using keys_ok_take_drop [of D cs p] by (simp add: vec_insert_def)

text \<open>The split point of a node that overflows by the cell at \<open>p\<close>.\<close>

lemma split_point:
  assumes "keys_ok D cs" and "key_ok D (fst c)" and "p \<le> length cs" and "h + cells_size D w cs \<le> PAGE_SIZE"
    and "PAGE_SIZE < h + cells_size D w (vec_insert p c cs)" and "h = 3 \<and> w = 8 \<or> h = 7 \<and> w = 4"
  obtains m where "split_at_for_insert D (vec_insert p c cs) p h w = Inr m" and "0 < m" and "m < length (vec_insert p c cs)"
    and "h + cells_size D w (take m (vec_insert p c cs)) \<le> PAGE_SIZE"
    and "h + cells_size D w (drop m (vec_insert p c cs)) \<le> PAGE_SIZE"
proof -
  have k: "keys_ok D (vec_insert p c cs)" by (rule keys_ok_insert [OF assms(1,2)])
  have "\<exists>m. split_at_for_insert D (vec_insert p c cs) p h w = Inr m \<and> 0 < m \<and> m < length (vec_insert p c cs) \<and>
    h + cells_size D w (take m (vec_insert p c cs)) \<le> PAGE_SIZE \<and> h + cells_size D w (drop m (vec_insert p c cs)) \<le> PAGE_SIZE"
    by (rule split_at_for_insert_fits [OF k])
      (use assms cell_cap [OF k] in \<open>auto simp: length_vec_insert nth_vec_insert cells_size_insert\<close>)
  then show ?thesis using that by blast
qed

section \<open>Leaf insertion\<close>

lemma leaf_position:
  assumes "decimal_laws D" and "key_ok D key" and "keys_ok D cs" and "sorted_wrt (cell_rel D u) cs"
  shows "partition_point (\<lambda>(k, _). cmp_values D k key \<noteq> Greater) cs = length (takeWhile (\<lambda>e. le D (fst e) key) cs)"
proof -
  have P: "(\<lambda>(k, _). cmp_values D k key \<noteq> Greater) = (\<lambda>e. le D (fst e) key)" by (auto simp: le_def)
  define Q where "Q a b \<longleftrightarrow> cell_rel D u a b \<and> key_ok D (fst a) \<and> key_ok D (fst b)" for a b :: "'a Value \<times> 'b"
  have "sorted_wrt Q cs"
    by (rule sorted_wrt_mono_rel [OF _ assms(4)]) (use assms(3) in \<open>auto simp: Q_def keys_ok_def\<close>)
  moreover have "le D (fst x) key" if "le D (fst y) key" "Q x y" for x y
    using that le_trans [OF assms(1) _ _ assms(2), of "fst x" "fst y"]
    by (auto simp: Q_def cell_rel_def lt_le split: if_splits)
  ultimately show ?thesis unfolding P using partition_point_takeWhile [of "\<lambda>e. le D (fst e) key" Q cs] by blast
qed

lemma vec_insert_ins_at: "vec_insert (length (takeWhile (\<lambda>e. le D (fst e) key) cs)) (key, val) cs = ins_at D key val cs"
  by (simp add: vec_insert_def ins_at_def takeWhile_eq_take [symmetric] dropWhile_eq_drop [symmetric])

text \<open>In a unique leaf the entry just before the insert position decides whether the key is present.\<close>

lemma leaf_duplicate:
  assumes D: "decimal_laws D" and key: "key_ok D key" and keys: "keys_ok D cs" and sorted: "sorted_wrt (cell_rel D True) cs"
  shows "(let p = length (takeWhile (\<lambda>e. le D (fst e) key) cs) in 0 < p \<and> cmp_values D (fst (cs ! (p - 1))) key = Equal) \<longleftrightarrow>
    (\<exists>e \<in> set cs. cmp_values D (fst e) key = Equal)"
proof -
  define p where "p = length (takeWhile (\<lambda>e. le D (fst e) key) cs)"
  have pl: "p \<le> length cs" by (simp add: p_def length_takeWhile_le)
  have "0 < p \<and> i = p - 1" if i: "i < length cs" and e: "cmp_values D (fst (cs ! i)) key = Equal" for i
  proof -
    have oki: "key_ok D (fst (cs ! j))" if "j < length cs" for j using keys that by (auto simp: keys_ok_def)
    have "le D (fst (cs ! j)) key" if "j \<le> i" for j
    proof (cases "j = i")
      case False
      then have "lt D (fst (cs ! j)) (fst (cs ! i))"
        using sorted_wrt_nth_less [OF sorted, of j i] that i by (simp add: cell_rel_def)
      then show ?thesis using lt_le_trans [OF D oki oki key, of j i] e i that lt_le by (auto simp: le_def)
    qed (use e in \<open>simp add: le_def\<close>)
    then have "i < p"
      unfolding p_def using i by (metis (mono_tags, lifting) length_takeWhile_less_P_nth linorder_not_less nth_length_takeWhile le_less_trans length_takeWhile_le)
    moreover have "\<not> i < p - 1"
    proof
      assume a: "i < p - 1"
      then have "lt D (fst (cs ! i)) (fst (cs ! (p - 1)))"
        using sorted_wrt_nth_less [OF sorted, of i "p - 1"] pl by (simp add: cell_rel_def)
      moreover have "le D (fst (cs ! (p - 1))) key"
        using a set_takeWhileD [of "cs ! (p - 1)" "\<lambda>e. le D (fst e) key" cs] takeWhile_nth [of "p - 1" "\<lambda>e. le D (fst e) key" cs]
          nth_mem [of "p - 1" "takeWhile (\<lambda>e. le D (fst e) key) cs"] by (simp add: p_def)
      ultimately have "lt D (fst (cs ! i)) key" using lt_le_trans [OF D oki oki key, of i "p - 1"] i pl a by simp
      then show False using e by (simp add: lt_def)
    qed
    ultimately show ?thesis by simp
  qed
  moreover have "0 < p \<Longrightarrow> cs ! (p - 1) \<in> set cs" using pl by (intro nth_mem) simp
  ultimately show ?thesis unfolding p_def [symmetric] Let_def by (metis in_set_conv_nth)
qed

lemma leaf_insert_ok:
  assumes D: "decimal_laws D" and s: "tx_ok s" "tx_view s i = Some d" "tx_room (Suc n) s"
    and cs: "node_ok D (Leaf cs)" "sorted_wrt (cell_rel D u) cs" and key: "key_ok D key"
    and new: "u \<Longrightarrow> \<forall>e \<in> set cs. cmp_values D (fst e) key \<noteq> Equal"
  shows "\<exists>t1 x s' R. leaf_insert D i cs key val u s = (Inr (split_off x), s') \<and> tx_ok s' \<and> tx_room n s' \<and>
    ins_result D u key val (map (\<lambda>(k, v). Key k v) cs) R \<and> became D (tx_view s) (tx_view s') i {i} 0 R t1 x"
proof -
  have keys: "keys_ok D cs" and fit: "3 + cells_size D 8 cs \<le> PAGE_SIZE" using cs(1) by (simp_all add: node_ok_def)
  define p where "p = length (takeWhile (\<lambda>e. le D (fst e) key) cs)"
  define cs' where "cs' = ins_at D key val cs"
  have vi: "vec_insert p (key, val) cs = cs'" by (simp add: p_def cs'_def vec_insert_ins_at)
  have pp: "partition_point (\<lambda>(k, _). cmp_values D k key \<noteq> Greater) cs = p"
    unfolding p_def by (rule leaf_position [OF D key keys cs(2)])
  have nodup: "\<not> (u \<and> 0 < p \<and> cmp_values D (fst (cs ! (p - 1))) key = Equal)"
    using leaf_duplicate [OF D key keys] cs(2) new by (cases u) (auto simp: p_def Let_def)
  have keys': "keys_ok D cs'" using keys key by (auto simp: keys_ok_def cs'_def ins_at_set)
  have unfold: "leaf_insert D i cs key val u s =
      (if 3 + cells_size D 8 cs' \<le> PAGE_SIZE then obind (write_node D i (Leaf cs')) (\<lambda>_. oret None) s
       else obind (olift (split_at_for_insert D cs' p 3 8)) (\<lambda>m.
         obind (op_err BPager allocate_page) (\<lambda>right.
           obind (write_node D i (Leaf (take m cs'))) (\<lambda>_.
             obind (write_node D right (Leaf (drop m cs'))) (\<lambda>_. oret (Some (fst (cs' ! m), right)))))) s)"
    unfolding leaf_insert_def Let_def pp vi if_not_P [OF nodup] using key_ok_bytes [OF key]
    by (simp add: enc_lift_key [OF key] node_bytes_size [OF keys'] obind_def del: add_2_eq_Suc add_2_eq_Suc')
  note res = leaf_ins_result [OF D key keys cs(2) new cs'_def]
  show ?thesis
  proof (cases "3 + cells_size D 8 cs' \<le> PAGE_SIZE")
    case True
    have ok: "node_ok D (Leaf cs')" using True keys' by (simp add: node_ok_def)
    obtain s' where w: "write_node D i (Leaf cs') s = (Inr (), s')" "tx_ok s'" "tx_view s' = (tx_view s)(i \<mapsto> node_image D (Leaf cs'))"
        "tx_room (Suc n) s'"
      using write_node_step [OF s(1,2) ok s(3)] .
    have "became D (tx_view s) (tx_view s') i {i} 0 (map (\<lambda>(k, v). Key k v) cs') (TLeaf i cs') None"
      using ok w(3) by (simp add: became_def both_pages_def)
    moreover have "leaf_insert D i cs key val u s = (Inr (split_off None), s')"
      using True w(1) by (simp add: unfold obind_def split_off_def)
    ultimately show ?thesis using w(2) bt_store.room_less [OF w(4)] res(1) by blast
  next
    case False
    then obtain m where m: "split_at_for_insert D cs' p 3 8 = Inr m" "0 < m" "m < length cs'"
        "3 + cells_size D 8 (take m cs') \<le> PAGE_SIZE" "3 + cells_size D 8 (drop m cs') \<le> PAGE_SIZE"
      using split_point [OF keys, of "(key, val)" p 3 8] key fit vi by (auto simp: p_def length_takeWhile_le not_le)
    have ok: "node_ok D (Leaf (take m cs'))" "node_ok D (Leaf (drop m cs'))"
      using m(4,5) keys_ok_take_drop [OF keys', of m] by (simp_all add: node_ok_def)
    obtain j s1 s2 s3 where w: "op_err BPager allocate_page s = (Inr j, s1)" "write_node D i (Leaf (take m cs')) s1 = (Inr (), s2)"
        "write_node D j (Leaf (drop m cs')) s2 = (Inr (), s3)" "tx_ok s3" "tx_view s j = None"
        "tx_view s3 = (tx_view s)(i \<mapsto> node_image D (Leaf (take m cs')), j \<mapsto> node_image D (Leaf (drop m cs')))" "tx_room n s3"
      using split_node_step [OF s(1,2) ok s(3)] .
    have ij: "i \<noteq> j" using s(2) w(5) by auto
    define x where "x = Some (fst (cs' ! m), TLeaf j (drop m cs'))"
    have "became D (tx_view s) (tx_view s3) i {i} 0
        (map (\<lambda>(k, v). Key k v) (take m cs') @ Sep (fst (cs' ! m)) # map (\<lambda>(k, v). Key k v) (drop m cs')) (TLeaf i (take m cs')) x"
      using ok w(5,6) ij by (auto simp: became_def both_pages_def x_def)
    moreover have "leaf_insert D i cs key val u s = (Inr (split_off x), s3)"
      using False by (simp add: unfold obind_def m(1) w(1-3) split_off_def x_def)
    ultimately show ?thesis using w(4,7) res(2) [OF _ m(2,3)] by blast
  qed
qed

lemma leaf_insert_duplicate:
  assumes "decimal_laws D" and "node_ok D (Leaf cs)" and "sorted_wrt (cell_rel D True) cs" and "key_ok D key"
    and "e \<in> set cs" and "cmp_values D (fst e) key = Equal"
  shows "leaf_insert D i cs key val True s = (Inl Duplicate, s)"
proof -
  have keys: "keys_ok D cs" using assms(2) by (simp add: node_ok_def)
  show ?thesis
    using leaf_position [OF assms(1,4) keys assms(3)] leaf_duplicate [OF assms(1,4) keys assms(3)] assms(5,6)
    by (auto simp: leaf_insert_def Let_def)
qed

end
