(* ===== verification/Btree_Insert_Rec.thy ===== *)
theory Btree_Insert_Rec
  imports Btree_Insert
begin

text \<open>
  The recursive part of insertion: internal nodes take the separator and right sibling of a child that
  split, and split themselves when they overflow; the root grows a level.
\<close>

section \<open>The child an insertion goes to\<close>

abbreviation child_cells :: "('d Value \<times> 'd tree) list \<Rightarrow> ('d Value \<times> page_id) list" where
  "child_cells cs \<equiv> map (\<lambda>c. (fst c, root_of (snd c))) cs"

abbreviation kid_pages :: "('d Value \<times> 'd tree) list \<Rightarrow> page_id list" where
  "kid_pages cs \<equiv> concat (map (\<lambda>c. pages (snd c)) cs)"

lemma keys_ok_child: "keys_ok D (child_cells cs) \<longleftrightarrow> (\<forall>c \<in> set cs. key_ok D (fst c))"
  by (simp add: keys_ok_def)

text \<open>The child after the cells \<open>A\<close>, the trace before it, the other pages, and the node with that child replaced.\<close>

definition picked :: "'d tree \<Rightarrow> ('d Value \<times> 'd tree) list \<Rightarrow> 'd tree" where
  "picked l A = (if A = [] then l else snd (last A))"

definition before :: "'d tree \<Rightarrow> ('d Value \<times> 'd tree) list \<Rightarrow> 'd item list" where
  "before l A = (if A = [] then [] else trace l @ kids (butlast A) @ [Sep (fst (last A))])"

definition kept :: "'d tree \<Rightarrow> ('d Value \<times> 'd tree) list \<Rightarrow> 'd tree list" where
  "kept l A = (if A = [] then [] else l # map snd (butlast A))"

definition swap_l :: "'d tree \<Rightarrow> ('d Value \<times> 'd tree) list \<Rightarrow> 'd tree \<Rightarrow> 'd tree" where
  "swap_l l A t = (if A = [] then t else l)"

definition swap_cs :: "('d Value \<times> 'd tree) list \<Rightarrow> 'd tree \<Rightarrow> ('d Value \<times> 'd tree) list" where
  "swap_cs A t = (if A = [] then [] else butlast A @ [(fst (last A), t)])"

lemma swap_picked [simp]: "swap_l l A (picked l A) = l" "swap_cs A (picked l A) = A"
  by (cases A rule: rev_cases; simp add: swap_l_def swap_cs_def picked_def)+

lemma swap_trace: "trace (swap_l l A t) @ kids (swap_cs A t) = before l A @ trace t"
  by (cases A rule: rev_cases) (simp_all add: swap_l_def swap_cs_def before_def)

lemma swap_pages: "pages (swap_l l A t) @ kid_pages (swap_cs A t) = concat (map pages (kept l A)) @ pages t"
  by (cases A rule: rev_cases) (simp_all add: swap_l_def swap_cs_def kept_def comp_def)

lemma swap_trees: "Set.insert (swap_l l A t) (snd ` set (swap_cs A t)) = Set.insert t (set (kept l A))"
  by (cases A rule: rev_cases) (auto simp: swap_l_def swap_cs_def kept_def)

lemma swap_roots:
  assumes "root_of t = root_of (picked l A)"
  shows "root_of (swap_l l A t) = root_of l" and "child_cells (swap_cs A t) = child_cells A" and "length (swap_cs A t) = length A"
  using assms by (cases A rule: rev_cases; simp add: swap_l_def swap_cs_def picked_def)+

lemma swap_keys: "fst ` set (swap_cs A t) = fst ` set A"
  by (cases A rule: rev_cases) (auto simp: swap_cs_def)

text \<open>The node as seen from the picked child.\<close>

lemma node_trace: "trace (TNode i l (A @ B)) = before l A @ trace (picked l A) @ kids B"
  using swap_trace [of l A "picked l A"] by simp

lemma node_pages: "pages (TNode i l (A @ B)) = i # concat (map pages (kept l A)) @ pages (picked l A) @ kid_pages B"
  using swap_pages [of l A "picked l A"] by simp

lemma node_trees: "Set.insert l (snd ` set A) = Set.insert (picked l A) (set (kept l A))"
  using swap_trees [of l A "picked l A"] by simp

lemma seps_sorted:
  assumes "sorted_wrt (strict D u) (trace l @ kids cs)"
  shows "sorted_wrt (cell_rel D True) (child_cells cs)"
proof -
  have "sorted_wrt (strict D u) (kids cs)" using assms by (simp add: sorted_wrt_append)
  then show ?thesis
  proof (induction cs)
    case (Cons c cs)
    have "lt D (fst c) (fst d)" if "d \<in> set cs" for d
    proof -
      have "Sep (fst d) \<in> set (kids cs)" using that by auto
      then have "strict D u (Sep (fst c)) (Sep (fst d))" using Cons.prems
        by (simp add: sorted_wrt_append ball_Un del: set_concat strict.simps)
      then show ?thesis by simp
    qed
    then show ?case using Cons by (auto simp: sorted_wrt_append cell_rel_def)
  qed simp
qed

lemma takeWhile_child_cells:
  "takeWhile (\<lambda>e. P (fst e)) (child_cells cs) = child_cells (takeWhile (\<lambda>e. P (fst e)) cs)"
  by (simp add: takeWhile_map comp_def)

lemma descend_picked:
  assumes D: "decimal_laws D" and key: "key_ok D key" and keys: "keys_ok D (child_cells cs)"
    and sorted: "sorted_wrt (strict D u) (trace l @ kids cs)"
    and A: "A = takeWhile (\<lambda>e. le D (fst e) key) cs"
  shows "descend D (child_cells cs) (root_of l) key = root_of (picked l A)"
proof -
  define B where "B = dropWhile (\<lambda>e. le D (fst e) key) cs"
  have cs: "cs = A @ B" by (simp add: A B_def)
  have "partition_point (\<lambda>(k, _). cmp_values D k key \<noteq> Greater) (child_cells cs) = length A"
    using leaf_position [OF D key keys seps_sorted [OF sorted]] takeWhile_child_cells [of "\<lambda>k. le D k key" cs]
    by (simp add: A)
  then show ?thesis
    by (cases A rule: rev_cases) (simp_all add: descend_def Let_def picked_def cs nth_append)
qed

text \<open>What surrounds the picked child.\<close>

lemma around_picked:
  assumes D: "decimal_laws D" and key: "key_ok D key" and keys: "\<And>c. c \<in> set cs \<Longrightarrow> key_ok D (fst c)"
    and A: "A = takeWhile (\<lambda>e. le D (fst e) key) cs" and B: "B = dropWhile (\<lambda>e. le D (fst e) key) cs"
  shows "before l A = [] \<or> (\<exists>xs k. before l A = xs @ [Sep k] \<and> le D k key)"
    and "kids B = [] \<or> (\<exists>xs k. kids B = Sep k # xs \<and> lt D key k)"
proof -
  have "a \<in> set A \<Longrightarrow> le D (fst a) key" for a by (auto simp: A dest: set_takeWhileD)
  then show "before l A = [] \<or> (\<exists>xs k. before l A = xs @ [Sep k] \<and> le D k key)"
    by (cases A rule: rev_cases) (auto simp: before_def)
  show "kids B = [] \<or> (\<exists>xs k. kids B = Sep k # xs \<and> lt D key k)"
  proof (cases B)
    case (Cons b B')
    then have "b \<in> set cs" "\<not> le D (fst b) key"
      using hd_dropWhile [of "\<lambda>e. le D (fst e) key" cs] set_dropWhileD [of b "\<lambda>e. le D (fst e) key" cs] by (auto simp: B)
    then show ?thesis using Cons not_le_lt(1) [OF D keys key, of b] by auto
  qed simp
qed

section \<open>Internal nodes\<close>

lemma vec_insert_child:
  "vec_insert (length A) (mid, root_of t2) (child_cells (A @ B)) = child_cells (A @ (mid, t2) # B)"
  by (simp add: vec_insert_def)

lemma internal_insert_ok:
  assumes D: "decimal_laws D" and s: "tx_ok s" "tx_view s i = Some d" "tx_room (Suc n) s"
    and ok: "node_ok D (Internal (root_of l) (child_cells (A @ B)))" and mid: "key_ok D mid"
    and pp: "partition_point (\<lambda>(k, _). cmp_values D k mid \<noteq> Greater) (child_cells (A @ B)) = length A"
    and st: "stored D (tx_view s) l" "\<And>c. c \<in> set cs \<Longrightarrow> stored D (tx_view s) (snd c)"
    and dist: "distinct (i # pages l @ kid_pages cs)"
    and h: "height l \<le> h" "\<And>c. c \<in> set cs \<Longrightarrow> height (snd c) \<le> h"
    and cs: "cs = A @ (mid, t2) # B"
  shows "\<exists>t1 x s'. internal_insert D i (root_of l) (child_cells (A @ B)) mid (root_of t2) s = (Inr (split_off x), s') \<and>
    tx_ok s' \<and> tx_room n s' \<and>
    became D (tx_view s) (tx_view s') i (set (i # pages l @ kid_pages cs)) (Suc h) (trace l @ kids cs) t1 x"
proof -
  define old where "old = child_cells (A @ B)"
  define cells where "cells = child_cells cs"
  have keys: "keys_ok D old" and fit: "7 + cells_size D 4 old \<le> PAGE_SIZE"
    using ok unfolding old_def [symmetric] by (simp_all add: node_ok_def)
  have vi: "vec_insert (length A) (mid, root_of t2) old = cells"
    by (simp only: old_def vec_insert_child cells_def cs)
  have keys': "keys_ok D cells" using keys_ok_insert [OF keys, of "(mid, root_of t2)" "length A"] mid vi by simp
  have cap: "\<not> INTERNAL_CELL_CAP < 2 + length (key_bytes D mid) + 4"
    using key_okD(3) [OF mid] by (simp add: INTERNAL_CELL_CAP_def PAGE_SIZE_def)
  have unfold: "internal_insert D i (root_of l) old mid (root_of t2) s =
      (if 7 + cells_size D 4 cells \<le> PAGE_SIZE
       then obind (write_node D i (Internal (root_of l) cells)) (\<lambda>_. oret None) s
       else obind (olift (split_at_for_insert D cells (length A) 7 4)) (\<lambda>m.
         obind (op_err BPager allocate_page) (\<lambda>right.
           obind (write_node D i (Internal (root_of l) (take m cells))) (\<lambda>_.
             obind (write_node D right (Internal (snd (drop m cells ! 0)) (drop 1 (drop m cells)))) (\<lambda>_.
               oret (Some (fst (cells ! m), right)))))) s)"
    unfolding internal_insert_def Let_def pp [folded old_def] vi using cap
    by (simp add: enc_lift_key [OF mid] node_bytes_size [OF keys'] obind_def del: add_2_eq_Suc add_2_eq_Suc' drop_drop)
  have sub: "\<And>j. j \<in> set (pages l @ kid_pages cs) \<Longrightarrow> tx_view s j \<noteq> None"
    using st stored_pages by fastforce
  have ni: "i \<notin> set (pages l)" "\<And>c. c \<in> set cs \<Longrightarrow> i \<notin> set (pages (snd c))" using dist by auto
  show ?thesis
  proof (cases "7 + cells_size D 4 cells \<le> PAGE_SIZE")
    case True
    have nok: "node_ok D (Internal (root_of l) cells)" using True keys' by (simp add: node_ok_def)
    obtain s' where w: "write_node D i (Internal (root_of l) cells) s = (Inr (), s')" "tx_ok s'"
        "tx_view s' = (tx_view s)(i \<mapsto> node_image D (Internal (root_of l) cells))" "tx_room (Suc n) s'"
      using write_node_step [OF s(1,2) nok s(3)] .
    have same: "tx_view s' j = tx_view s j" if "j \<noteq> i" for j using that w(3) by simp
    have sl: "stored D (tx_view s') l" by (rule stored_cong [OF st(1)]) (use same ni(1) in metis)
    have sc: "stored D (tx_view s') (snd c)" if "c \<in> set cs" for c
      by (rule stored_cong [OF st(2) [OF that]]) (use same ni(2) [OF that] in metis)
    have "became D (tx_view s) (tx_view s') i (set (i # pages l @ kid_pages cs)) (Suc h) (trace l @ kids cs) (TNode i l cs) None"
      using w(3) nok sl sc dist h by (auto simp: became_def both_pages_def cells_def)
    moreover have "internal_insert D i (root_of l) old mid (root_of t2) s = (Inr (split_off None), s')"
      using True by (simp add: unfold obind_def w(1) split_off_def)
    ultimately show ?thesis using w(2) bt_store.room_less [OF w(4)] unfolding old_def by blast
  next
    case False
    obtain m where m: "split_at_for_insert D cells (length A) 7 4 = Inr m" "0 < m" "m < length cells"
        "7 + cells_size D 4 (take m cells) \<le> PAGE_SIZE" "7 + cells_size D 4 (drop m cells) \<le> PAGE_SIZE"
      using split_point [OF keys, of "(mid, root_of t2)" "length A" 7 4] mid fit vi False by (auto simp: old_def not_le)
    have ml: "m < length cs" using m(3) by (simp add: cells_def)
    define c where "c = cs ! m"
    have dm: "drop m cs = c # drop (Suc m) cs" using ml by (simp add: c_def Cons_nth_drop_Suc)
    have cm: "c \<in> set cs" using ml by (simp add: c_def)
    have cs3: "cs = take m cs @ c # drop (Suc m) cs" using ml by (simp add: c_def id_take_nth_drop [symmetric])
    have dcells: "drop m cells = (fst c, root_of (snd c)) # child_cells (drop (Suc m) cs)"
      by (simp add: cells_def drop_map dm)
    define a where "a = Internal (root_of l) (take m cells)"
    define b where "b = Internal (root_of (snd c)) (child_cells (drop (Suc m) cs))"
    have nok: "node_ok D a" "node_ok D b"
      using m(4,5) keys_ok_take_drop [OF keys', of m] dcells by (simp_all add: a_def b_def node_ok_def)
    obtain j s1 s2 s3 where w: "op_err BPager allocate_page s = (Inr j, s1)" "write_node D i a s1 = (Inr (), s2)"
        "write_node D j b s2 = (Inr (), s3)" "tx_ok s3" "tx_view s j = None"
        "tx_view s3 = (tx_view s)(i \<mapsto> node_image D a, j \<mapsto> node_image D b)" "tx_room n s3"
      using split_node_step [OF s(1,2) nok s(3)] .
    have ij: "i \<noteq> j" using s(2) w(5) by auto
    have jp: "j \<notin> set (pages l @ kid_pages cs)" using sub [of j] w(5) by auto
    have nj: "j \<notin> set (pages l)" "\<And>c. c \<in> set cs \<Longrightarrow> j \<notin> set (pages (snd c))" using jp by auto
    have same: "tx_view s3 k = tx_view s k" if "k \<noteq> i" "k \<noteq> j" for k using that w(6) by simp
    have sl: "stored D (tx_view s3) l" by (rule stored_cong [OF st(1)]) (use same ni(1) nj(1) in metis)
    have sc: "stored D (tx_view s3) (snd e)" if "e \<in> set cs" for e
      by (rule stored_cong [OF st(2) [OF that]]) (use same ni(2) [OF that] nj(2) [OF that] in metis)
    define t1 where "t1 = TNode i l (take m cs)"
    define x where "x = Some (fst c, TNode j (snd c) (drop (Suc m) cs))"
    have in_cs: "set (take m cs) \<subseteq> set cs" "set (drop (Suc m) cs) \<subseteq> set cs"
      by (auto dest: in_set_takeD in_set_dropD)
    have "trace l @ kids cs = joined t1 x"
      by (subst cs3) (simp add: t1_def x_def)
    moreover have "kid_pages cs = kid_pages (take m cs) @ pages (snd c) @ kid_pages (drop (Suc m) cs)"
      by (subst cs3) simp
    ultimately have "became D (tx_view s) (tx_view s3) i (set (i # pages l @ kid_pages cs)) (Suc h) (trace l @ kids cs) t1 x"
      using w(5,6) nok ij sl sc dist h jp cm in_cs
      by (auto simp: became_def both_pages_def t1_def x_def a_def b_def cells_def take_map)
    moreover have "internal_insert D i (root_of l) old mid (root_of t2) s = (Inr (split_off x), s3)"
    proof -
      have n: "Internal (snd (drop m cells ! 0)) (drop 1 (drop m cells)) = b" "fst (cells ! m) = fst c"
        using dcells ml by (simp_all add: b_def cells_def c_def)
      show ?thesis
        unfolding unfold if_not_P [OF False] m(1) obind_def olift_apply prod.case sum.case w(1) a_def [symmetric] n w(2) w(3)
        by (simp add: split_off_def x_def)
    qed
    ultimately show ?thesis using w(4,7) unfolding old_def by blast
  qed
qed

section \<open>The recursion\<close>

lemma distinct_replace:
  assumes "distinct (K @ P @ Q)" and "distinct P'" and "set P' \<subseteq> set P \<union> N" and "N \<inter> set (K @ Q) = {}"
  shows "distinct (K @ P' @ Q)"
  using assms by auto

text \<open>A new separator lies strictly between the separators around the child it comes from.\<close>

lemma mid_position:
  assumes D: "decimal_laws D" and key: "key_ok D key" and mid: "key_ok D mid"
    and keys: "keys_ok D (child_cells (A @ B))" and sorted: "sorted_wrt (strict D u) (before l A @ old @ kids B)"
    and R: "ins_result D u key val old R" "Sep mid \<in> set R" and ctx: "sorted_wrt (res_rel D u) (before l A @ R @ kids B)"
    and B: "\<And>b. b \<in> set B \<Longrightarrow> lt D key (fst b)" and A: "\<And>a. a \<in> set A \<Longrightarrow> Sep (fst a) \<in> set (before l A)"
  shows "partition_point (\<lambda>(k, _). cmp_values D k mid \<noteq> Greater) (child_cells (A @ B)) = length A"
proof -
  have a: "le D (fst a) mid" if "a \<in> set A" for a
  proof -
    have "res_rel D u (Sep (fst a)) (Sep mid)" using ctx A [OF that] R(2) by (auto simp: sorted_wrt_append)
    then show ?thesis by (auto simp: res_rel_def item_le_def lt_le split: if_splits)
  qed
  have b: "lt D mid (fst b)" if b: "b \<in> set B" for b
  proof -
    have "Sep (fst b) \<in> set (kids B)" using b by auto
    then have old: "strict D u x (Sep (fst b))" if "x \<in> set old" for x
      using sorted that by (auto simp: sorted_wrt_append simp del: set_concat)
    obtain v where "Sep mid \<in> set old \<or> Key mid v \<in> set R" using R unfolding ins_result_def by blast
    then show ?thesis using old [of "Sep mid"] old [of "Key mid v"] key_in_result [OF R(1)] B [OF b] by auto
  qed
  show ?thesis
  proof (rule partition_point_bound)
    fix i assume i: "i < length (child_cells (A @ B))"
    show "(case child_cells (A @ B) ! i of (k, _) \<Rightarrow> cmp_values D k mid \<noteq> Greater) \<longleftrightarrow> i < length A"
    proof (cases "i < length A")
      case True
      then show ?thesis using a [of "A ! i"] by (simp add: nth_append le_def)
    next
      case False
      define c where "c = B ! (i - length A)"
      have c: "c \<in> set B" using False i by (simp add: c_def)
      then have "key_ok D (fst c)" using keys by (simp add: keys_ok_child)
      then have "cmp_values D (fst c) mid = Greater" using b [OF c] not_le_lt(2) [OF D _ mid] by blast
      then show ?thesis using False i by (simp add: nth_append c_def)
    qed
  qed simp
qed

definition new_kids :: "('d Value \<times> 'd tree) list \<Rightarrow> 'd tree \<Rightarrow> ('d Value \<times> 'd tree) option \<Rightarrow> ('d Value \<times> 'd tree) list \<Rightarrow> ('d Value \<times> 'd tree) list" where
  "new_kids A t1 x B = swap_cs A t1 @ (case x of None \<Rightarrow> [] | Some p \<Rightarrow> [p]) @ B"

lemma new_kids_trace: "trace (swap_l l A t1) @ kids (new_kids A t1 x B) = before l A @ joined t1 x @ kids B"
proof -
  have "trace (swap_l l A t1) @ kids (swap_cs A t1) @ C = before l A @ trace t1 @ C" for C
    using swap_trace [of l A t1] by (metis append.assoc)
  then show ?thesis by (cases x) (auto simp: new_kids_def)
qed

lemma new_kids_pages:
  "pages (swap_l l A t1) @ kid_pages (new_kids A t1 x B) = concat (map pages (kept l A)) @ both_pages t1 x @ kid_pages B"
proof -
  have "pages (swap_l l A t1) @ kid_pages (swap_cs A t1) @ C = concat (map pages (kept l A)) @ pages t1 @ C" for C
    using swap_pages [of l A t1] by (metis append.assoc)
  then show ?thesis by (auto simp: new_kids_def both_pages_def split: option.splits)
qed

lemma new_kids_trees:
  "Set.insert (swap_l l A t1) (snd ` set (new_kids A t1 x B)) =
     Set.insert t1 (set (kept l A) \<union> snd ` set_option x \<union> snd ` set B)"
proof -
  have "Set.insert (swap_l l A t1) (snd ` set (swap_cs A t1) \<union> C) = Set.insert t1 (set (kept l A) \<union> C)" for C
    using swap_trees [of l A t1] by auto
  from this [of "snd ` set_option x \<union> snd ` set B"] show ?thesis
    by (cases x) (simp_all add: new_kids_def image_Un Un_assoc)
qed

text \<open>The node around a child that changed.\<close>

lemma child_became:
  assumes st: "stored D v (TNode i l (A @ B))" and dist: "distinct (pages (TNode i l (A @ B)))" and c: "c = picked l A"
    and b: "became D v v' (root_of c) (set (pages c)) (height c) R t1 x"
    and l': "l' = swap_l l A t1" and cs': "cs' = new_kids A t1 x B" and h: "height (TNode i l (A @ B)) = Suc h"
  shows "v' i = v i" and "\<And>k. k \<in> Set.insert l' (snd ` set cs') \<Longrightarrow> stored D v' k \<and> height k \<le> h"
    and "distinct (i # pages l' @ kid_pages cs')"
    and "set (pages l' @ kid_pages cs') \<subseteq> set (pages (TNode i l (A @ B))) \<union> {j. v j = None}"
    and "\<And>j. j \<notin> set (pages (TNode i l (A @ B))) \<Longrightarrow> v j \<noteq> None \<Longrightarrow> v' j = v j"
    and "trace l' @ kids cs' = before l A @ R @ kids B"
    and "root_of l' = root_of l" and "child_cells (swap_cs A t1) = child_cells A" and "length (swap_cs A t1) = length A"
proof -
  have trees: "Set.insert l (snd ` set A) = Set.insert c (set (kept l A))" by (simp only: node_trees c)
  have pgs: "pages (TNode i l (A @ B)) = i # concat (map pages (kept l A)) @ pages c @ kid_pages B" by (simp only: node_pages c)
  have in_t: "stored D v k \<and> height k \<le> h" if "k \<in> Set.insert c (set (kept l A) \<union> snd ` set B)" for k
  proof -
    have "k = l \<or> (\<exists>e \<in> set (A @ B). k = snd e)" using that trees by auto
    then show ?thesis using st h height_le_iff [of i l "A @ B" h] by auto
  qed
  have frame: "v' j = v j" if "j \<notin> set (pages c)" "v j \<noteq> None" for j using b that by (simp add: became_def)
  have other: "set (pages k) \<inter> set (pages c) = {}" if "k \<in> set (kept l A) \<union> snd ` set B" for k
    using dist that unfolding pgs by auto
  show i: "v' i = v i" using frame [of i] dist st unfolding pgs by simp
  show "stored D v' k \<and> height k \<le> h" if "k \<in> Set.insert l' (snd ` set cs')" for k
  proof -
    have "k = t1 \<or> (\<exists>p. x = Some p \<and> k = snd p) \<or> k \<in> set (kept l A) \<union> snd ` set B"
      using that unfolding l' cs' new_kids_trees by (auto simp: elem_set)
    moreover have "stored D v' k \<and> height k \<le> h" if k: "k \<in> set (kept l A) \<union> snd ` set B"
    proof -
      have "v' j = v j" if "j \<in> set (pages k)" for j
        using frame [of j] other [OF k] stored_pages [of D v k j] in_t [of k] k that by auto
      then show ?thesis using stored_cong [of D v k v'] in_t [of k] k by auto
    qed
    moreover have "height c \<le> h" using in_t [of c] by simp
    ultimately show ?thesis using b by (auto simp: became_def)
  qed
  have none: "v j \<noteq> None" if "j \<in> set (i # concat (map pages (kept l A)) @ kid_pages B)" for j
    using stored_pages [OF st, of j] that unfolding pgs by auto
  have "distinct ((i # concat (map pages (kept l A))) @ both_pages t1 x @ kid_pages B)"
  proof (rule distinct_replace [where P = "pages c" and N = "{j. v j = None}"])
    show "distinct ((i # concat (map pages (kept l A))) @ pages c @ kid_pages B)" using dist unfolding pgs by simp
    show "{j. v j = None} \<inter> set ((i # concat (map pages (kept l A))) @ kid_pages B) = {}"
      using none unfolding append_Cons by blast
  qed (use b in \<open>simp_all add: became_def\<close>)
  then show "distinct (i # pages l' @ kid_pages cs')" unfolding l' cs' new_kids_pages by simp
  show "set (pages l' @ kid_pages cs') \<subseteq> set (pages (TNode i l (A @ B))) \<union> {j. v j = None}"
    unfolding l' cs' new_kids_pages pgs using b by (auto simp: became_def)
  show "v' j = v j" if "j \<notin> set (pages (TNode i l (A @ B)))" "v j \<noteq> None" for j
    using frame [of j] that unfolding pgs by simp
  show "trace l' @ kids cs' = before l A @ R @ kids B" unfolding l' cs' new_kids_trace using b by (simp add: became_def)
  have "root_of t1 = root_of (picked l A)" using b c by (simp add: became_def)
  from swap_roots [OF this] show "root_of l' = root_of l" "child_cells (swap_cs A t1) = child_cells A" "length (swap_cs A t1) = length A"
    by (simp_all add: l')
qed

lemma became_widen:
  assumes "became D v2 v3 i P h R t1 x" and "P \<subseteq> Q \<union> {j. v j = None}" and "\<And>j. j \<notin> Q \<Longrightarrow> v j \<noteq> None \<Longrightarrow> v2 j = v j"
  shows "became D v v3 i Q h R t1 x"
proof -
  have "j \<in> Q \<union> {j. v j = None}" if "v2 j = None" for j using assms(3) [of j] that by (cases "v j") auto
  moreover have "v3 j = v j" if "j \<notin> Q" "v j \<noteq> None" for j
  proof -
    have "j \<notin> P" using assms(2) that by auto
    then have "v2 j \<noteq> None \<Longrightarrow> v3 j = v2 j" using assms(1) unfolding became_def by blast
    then show ?thesis using assms(3) [OF that] that(2) by metis
  qed
  ultimately show ?thesis using assms(1,2) unfolding became_def by blast
qed

lemma ins_sep_ok:
  assumes "ins_result D u key val old R" and "Sep m \<in> set R" and "key_ok D key" and "\<And>x. x \<in> set old \<Longrightarrow> key_ok D (ikey x)"
  shows "key_ok D m"
proof (cases "Sep m \<in> set old")
  case False
  then obtain v where "Key m v \<in> set R" using assms(1,2) unfolding ins_result_def by blast
  then show ?thesis using key_in_result [OF assms(1)] assms(3) assms(4) [of "Key m v"] by auto
qed (use assms(4) [of "Sep m"] in simp)

text \<open>Every separator after the picked child is above the key.\<close>

lemma above_key:
  assumes D: "decimal_laws D" and key: "key_ok D key" and keys: "\<And>c. c \<in> set cs \<Longrightarrow> key_ok D (fst c)"
    and sorted: "sorted_wrt (cell_rel D True) (child_cells cs)" and b: "b \<in> set (dropWhile (\<lambda>e. le D (fst e) key) cs)"
  shows "lt D key (fst b)"
proof -
  define A where "A = takeWhile (\<lambda>e. le D (fst e) key) cs"
  obtain a B where B: "dropWhile (\<lambda>e. le D (fst e) key) cs = a # B" using b by (cases "dropWhile (\<lambda>e. le D (fst e) key) cs") auto
  then have cs: "cs = A @ a # B" unfolding A_def by (metis takeWhile_dropWhile_id)
  have "\<not> le D (fst a) key" using hd_dropWhile [of "\<lambda>e. le D (fst e) key" cs] B by simp
  then have a: "lt D key (fst a)" using not_le_lt(1) [OF D _ key] keys cs by auto
  have "b = a \<or> lt D (fst a) (fst b)" using sorted b B by (auto simp: cs sorted_wrt_append cell_rel_def)
  then show ?thesis using a lt_le_trans [OF D key _ _ a, of "fst b"] keys [of a] keys [of b] cs b B lt_le by auto
qed

lemma before_seps: "a \<in> set A \<Longrightarrow> Sep (fst a) \<in> set (before l A)"
  by (cases A rule: rev_cases) (auto simp: before_def)

lemma insert_rec_ok:
  assumes D: "decimal_laws D" and key: "key_ok D key"
  shows "tx_ok s \<Longrightarrow> stored D (tx_view s) t \<Longrightarrow> distinct (pages t) \<Longrightarrow> sorted_wrt (strict D u) (trace t) \<Longrightarrow> height t < n \<Longrightarrow>
    tx_room (Suc (height t) + r) s \<Longrightarrow> (u \<Longrightarrow> \<forall>e \<in> set (entries t). cmp_values D (fst e) key \<noteq> Equal) \<Longrightarrow>
    \<exists>t1 x s' R. insert_rec n D key val u (root_of t) s = (Inr (split_off x), s') \<and> tx_ok s' \<and> tx_room r s' \<and>
      ins_result D u key val (trace t) R \<and> became D (tx_view s) (tx_view s') (root_of t) (set (pages t)) (height t) R t1 x"
proof (induction n arbitrary: t s r)
  case (Suc n)
  note st = Suc.prems(2)
  obtain s1 where s1: "read_node_tx D (root_of t) s = (Inr (node_of t), s1)" "tx_ok s1" "tx_view s1 = tx_view s"
      "tx_room (Suc (height t) + r) s1"
    using read_node_step [OF D Suc.prems(1) _ _ Suc.prems(6)] stored_page [OF st] by metis
  show ?case
  proof (cases t)
    case (TLeaf i cs)
    have "tx_view s1 i = Some (node_image D (Leaf cs))" "node_ok D (Leaf cs)" using st s1(3) TLeaf by simp_all
    moreover have "sorted_wrt (cell_rel D u) cs" using Suc.prems(4) by (simp add: TLeaf sorted_map_Key [symmetric])
    moreover have "tx_room (Suc r) s1" using s1(4) TLeaf by simp
    ultimately obtain t1 x s' R where "leaf_insert D i cs key val u s1 = (Inr (split_off x), s')" "tx_ok s'" "tx_room r s'"
        "ins_result D u key val (map (\<lambda>(k, v). Key k v) cs) R" "became D (tx_view s1) (tx_view s') i {i} 0 R t1 x"
      using leaf_insert_ok [OF D s1(2) _ _ _ _ key, of i _ r cs u val] Suc.prems(7) TLeaf by auto
    then show ?thesis using s1(1,3) TLeaf by (auto simp: obind_def)
  next
    case (TNode i l cs)
    define A where "A = takeWhile (\<lambda>e. le D (fst e) key) cs"
    define B where "B = dropWhile (\<lambda>e. le D (fst e) key) cs"
    define c where "c = picked l A"
    have cs: "cs = A @ B" by (simp add: A_def B_def)
    have nok: "node_ok D (Internal (root_of l) (child_cells cs))" using st TNode by simp
    then have keys: "keys_ok D (child_cells cs)" by (simp add: node_ok_def)
    have keysf: "key_ok D (fst e)" if "e \<in> set cs" for e using keys that by (auto simp: keys_ok_def)
    have tr: "trace t = before l A @ trace c @ kids B" by (simp only: TNode cs node_trace c_def)
    have pgs: "pages t = i # concat (map pages (kept l A)) @ pages c @ kid_pages B" by (simp only: TNode cs node_pages c_def)
    have trees: "Set.insert l (snd ` set A) = Set.insert c (set (kept l A))" by (simp only: node_trees c_def)
    have sts: "stored D (tx_view s) c" "\<And>k. k \<in> set (kept l A) \<Longrightarrow> stored D (tx_view s) k"
        "\<And>b. b \<in> set B \<Longrightarrow> stored D (tx_view s) (snd b)"
      using st trees by (auto simp: TNode cs)
    have hts: "height c < height t" "\<And>k. k \<in> set (kept l A) \<Longrightarrow> height k < height t" "\<And>b. b \<in> set B \<Longrightarrow> height (snd b) < height t"
      using trees height_child(1) [of l i cs] height_child(2) [of _ cs i l] unfolding TNode cs by fastforce+
    have desc: "descend D (child_cells cs) (root_of l) key = root_of c"
      unfolding c_def using descend_picked [OF D key keys _ A_def] Suc.prems(4) TNode by simp
    note sorted = Suc.prems(4) [unfolded tr]
    have "tx_room (Suc (height c) + Suc r) s1" using bt_store.room_le [OF _ s1(4)] hts(1) by simp
    moreover have "\<forall>e \<in> set (entries c). cmp_values D (fst e) key \<noteq> Equal" if u
      using Suc.prems(7) [OF that] tr by (auto simp: entries_def)
    ultimately obtain t1 x s2 R where ih: "insert_rec n D key val u (root_of c) s1 = (Inr (split_off x), s2)" "tx_ok s2" "tx_room (Suc r) s2"
        "ins_result D u key val (trace c) R" "became D (tx_view s) (tx_view s2) (root_of c) (set (pages c)) (height c) R t1 x"
      using Suc.IH [OF s1(2), of c "Suc r"] sts(1) s1(3) Suc.prems(3,5) sorted hts(1) pgs
      by (fastforce simp: sorted_wrt_append)
    define l' where "l' = swap_l l A t1"
    define cs' where "cs' = new_kids A t1 x B"
    obtain h where h: "height t = Suc h" using TNode by simp
    note cb = child_became [OF st [unfolded TNode cs] Suc.prems(3) [unfolded TNode cs] c_def ih(5) l'_def cs'_def h [unfolded TNode cs]]
    have keyst: "key_ok D (ikey y)" if "y \<in> set (before l A @ trace c @ kids B)" for y
      using stored_keys [OF st] that tr by simp
    have R: "ins_result D u key val (trace t) (before l A @ R @ kids B)"
      unfolding tr by (rule ins_result_context [OF D key keyst sorted around_picked [OF D key keysf A_def B_def] ih(4)])
    have fst3: "tx_view s2 i = Some (node_image D (node_of t))" using cb(1) st TNode by simp
    have step: "insert_rec (Suc n) D key val u (root_of t) s =
        (case split_off x of None \<Rightarrow> (Inr None, s2) | Some (mid, right) \<Rightarrow> internal_insert D i (root_of l) (child_cells cs) mid right s2)"
      using s1(1) ih(1) desc by (auto simp: TNode obind_def split: option.splits)
    show ?thesis
    proof (cases x)
      case None
      have cells: "child_cells cs' = child_cells cs" using cb(8) None by (simp add: cs'_def new_kids_def cs)
      have "became D (tx_view s) (tx_view s2) i (set (pages t)) (height t) (before l A @ R @ kids B) (TNode i l' cs') None"
        unfolding became_def both_pages_def joined.simps
        using cb fst3 nok cells h by (auto simp: TNode cs height_le_iff simp del: height.simps)
      then show ?thesis using R step ih(2) bt_store.room_less [OF ih(3)] None TNode by (auto simp: split_off_def)
    next
      case (Some p)
      obtain mid t2 where x: "x = Some (mid, t2)" using Some by (cases p) auto
      have cs'_eq: "cs' = swap_cs A t1 @ (mid, t2) # B" by (simp add: cs'_def new_kids_def x)
      have cells: "child_cells (swap_cs A t1 @ B) = child_cells cs" using cb(8) by (simp add: cs)
      have midR: "Sep mid \<in> set R" using ih(5) x by (auto simp: became_def)
      have mid: "key_ok D mid" by (rule ins_sep_ok [OF ih(4) midR key]) (use keyst in simp)
      have pp: "partition_point (\<lambda>(k, _). cmp_values D k mid \<noteq> Greater) (child_cells (swap_cs A t1 @ B)) = length (swap_cs A t1)"
        unfolding cells cb(9) cs using R
        by (intro mid_position [OF D key mid keys [unfolded cs] sorted ih(4) midR] before_seps)
          (auto simp: ins_result_def B_def intro: above_key [OF D key keysf seps_sorted] Suc.prems(4) [unfolded TNode trace.simps])
      have nok': "node_ok D (Internal (root_of l') (child_cells (swap_cs A t1 @ B)))" using nok cb(7) cells by simp
      have st2: "stored D (tx_view s2) l'" "\<And>e. e \<in> set cs' \<Longrightarrow> stored D (tx_view s2) (snd e)"
        and h2: "height l' \<le> h" "\<And>e. e \<in> set cs' \<Longrightarrow> height (snd e) \<le> h" using cb(2) by blast+
      obtain t1' x' s3 where ii: "internal_insert D i (root_of l') (child_cells (swap_cs A t1 @ B)) mid (root_of t2) s2 = (Inr (split_off x'), s3)"
          "tx_ok s3" "tx_room r s3"
          "became D (tx_view s2) (tx_view s3) i (set (i # pages l' @ kid_pages cs')) (Suc h) (trace l' @ kids cs') t1' x'"
        using internal_insert_ok [OF D ih(2) fst3 ih(3) nok' mid pp st2 cb(3) h2 cs'_eq] by blast
      have "became D (tx_view s) (tx_view s3) i (set (pages t)) (Suc h) (trace l' @ kids cs') t1' x'"
        by (rule became_widen [OF ii(4)]) (use cb(4,5) in \<open>auto simp: TNode cs\<close>)
      then show ?thesis
        using R step ii(1-3) x cells cb(6,7) h TNode by (auto simp: split_off_def)
    qed
  qed
qed simp

text \<open>A unique insert of a key that is present fails and changes nothing.\<close>

lemma insert_rec_duplicate:
  assumes D: "decimal_laws D" and key: "key_ok D key"
  shows "tx_ok s \<Longrightarrow> stored D (tx_view s) t \<Longrightarrow> sorted_wrt (strict D True) (trace t) \<Longrightarrow> height t < n \<Longrightarrow> tx_room 0 s \<Longrightarrow>
    e \<in> set (entries t) \<Longrightarrow> cmp_values D (fst e) key = Equal \<Longrightarrow>
    \<exists>s'. insert_rec n D key val True (root_of t) s = (Inl Duplicate, s') \<and> tx_ok s' \<and> tx_view s' = tx_view s"
proof (induction n arbitrary: t s)
  case (Suc n)
  note st = Suc.prems(2)
  obtain s1 where s1: "read_node_tx D (root_of t) s = (Inr (node_of t), s1)" "tx_ok s1" "tx_view s1 = tx_view s" "tx_room 0 s1"
    using read_node_step [OF D Suc.prems(1) _ _ Suc.prems(5)] stored_page [OF st] by metis
  show ?case
  proof (cases t)
    case (TLeaf i cs)
    then have "leaf_insert D i cs key val True s1 = (Inl Duplicate, s1)"
      using Suc.prems by (intro leaf_insert_duplicate [OF D _ _ key]) (auto simp: sorted_map_Key [symmetric])
    then show ?thesis using s1 TLeaf by (auto simp: obind_def)
  next
    case (TNode i l cs)
    define A where "A = takeWhile (\<lambda>e. le D (fst e) key) cs"
    define B where "B = dropWhile (\<lambda>e. le D (fst e) key) cs"
    define c where "c = picked l A"
    have cs: "cs = A @ B" by (simp add: A_def B_def)
    have keys: "keys_ok D (child_cells cs)" using st TNode by (simp add: node_ok_def)
    have tr: "trace t = before l A @ trace c @ kids B" by (simp only: TNode cs node_trace c_def)
    have "c = l \<or> (\<exists>a \<in> set cs. c = snd a)" using node_trees [of l A] by (auto simp: c_def cs)
    then have sub: "stored D (tx_view s1) c" "height c < n"
      using st s1(3) Suc.prems(4) height_child(1) [of l i cs] height_child(2) [of _ cs i l] unfolding TNode by fastforce+
    have desc: "descend D (child_cells cs) (root_of l) key = root_of c"
      unfolding c_def using descend_picked [OF D key keys _ A_def] Suc.prems(3) TNode by simp
    have keyst: "key_ok D (ikey y)" if "y \<in> set (trace t)" for y using stored_keys [OF st that] .
    have "Key (fst e) (snd e) \<in> set (trace t)" using Suc.prems(6) by (simp add: entries_def set_keys_of [symmetric])
    moreover have "Key (fst e) (snd e) \<notin> set (before l A)"
    proof
      assume a: "Key (fst e) (snd e) \<in> set (before l A)"
      obtain xs k where xs: "before l A = xs @ [Sep k]" "le D k key"
        using a around_picked(1) [OF D key _ A_def B_def, of l] keys by (auto simp: keys_ok_child)
      then have "lt D (fst e) k" using a Suc.prems(3) unfolding tr by (auto simp: sorted_wrt_append)
      then have "lt D (fst e) key"
        using lt_le_trans [OF D _ _ key _ xs(2)] keyst [of "Key (fst e) (snd e)"] keyst [of "Sep k"] a xs tr by auto
      then show False using Suc.prems(7) by (simp add: lt_def)
    qed
    moreover have "Key (fst e) (snd e) \<notin> set (kids B)"
    proof
      assume a: "Key (fst e) (snd e) \<in> set (kids B)"
      obtain xs k where xs: "kids B = Sep k # xs" "lt D key k"
        using a around_picked(2) [OF D key _ A_def B_def] keys by (fastforce simp: keys_ok_child)
      then have "le D k (fst e)" using a Suc.prems(3) unfolding tr by (auto simp: sorted_wrt_append)
      then have "lt D key (fst e)"
        using lt_le_trans [OF D key _ _ xs(2)] keyst [of "Key (fst e) (snd e)"] keyst [of "Sep k"] a xs tr by auto
      then show False using Suc.prems(7) not_le_lt(2) [OF D _ key, of "fst e"] keyst [of "Key (fst e) (snd e)"] a tr by simp
    qed
    ultimately have "e \<in> set (entries c)" unfolding tr by (simp add: entries_def set_keys_of [symmetric])
    moreover have "sorted_wrt (strict D True) (trace c)" using Suc.prems(3) unfolding tr by (simp add: sorted_wrt_append)
    ultimately obtain s2 where "insert_rec n D key val True (root_of c) s1 = (Inl Duplicate, s2)" "tx_ok s2" "tx_view s2 = tx_view s1"
      using Suc.IH [OF s1(2) sub(1) _ sub(2) s1(4)] Suc.prems(7) by blast
    then show ?thesis using s1 desc by (auto simp: TNode obind_def)
  qed
qed simp

section \<open>The tree operation\<close>

text \<open>The pages seen through \<open>v\<close> hold the index tree \<open>t\<close>, and a unique index tree.\<close>

definition index_tree :: "'d decimal_ops \<Rightarrow> (page_id \<Rightarrow> bytes option) \<Rightarrow> 'd tree \<Rightarrow> bool" where
  "index_tree D v t \<longleftrightarrow> stored D v t \<and> distinct (pages t) \<and> in_order D t"

definition unique_tree :: "'d decimal_ops \<Rightarrow> bool \<Rightarrow> (page_id \<Rightarrow> bytes option) \<Rightarrow> 'd tree \<Rightarrow> bool" where
  "unique_tree D u v t \<longleftrightarrow> stored D v t \<and> distinct (pages t) \<and> sorted_wrt (strict D u) (trace t)"

lemma unique_index: "unique_tree D u v t \<Longrightarrow> index_tree D v t"
  using strict_in_order [of D u t] by (simp add: unique_tree_def index_tree_def)

lemma became_trees:
  assumes "became D v v' i P h R t1 x" and "ins_result D u key val old R"
  shows "x = None \<Longrightarrow> stored D v' t1 \<and> distinct (pages t1) \<and> sorted_wrt (res_rel D u) (trace t1) \<and>
      keys_of (trace t1) = ins_at D key val (keys_of old)"
    and "x = Some (mid, t2) \<Longrightarrow> j \<notin> set (pages t1) \<union> set (pages t2) \<Longrightarrow>
      distinct (pages (TNode j t1 [(mid, t2)])) \<and> sorted_wrt (res_rel D u) (trace (TNode j t1 [(mid, t2)])) \<and>
      keys_of (trace (TNode j t1 [(mid, t2)])) = ins_at D key val (keys_of old)"
  using assms by (auto simp: became_def ins_result_def both_pages_def)

lemma out_sorted:
  assumes "sorted_wrt (res_rel D u) (trace t)"
  shows "in_order D t" and "u \<Longrightarrow> sorted_wrt (strict D True) (trace t)"
proof -
  show "u \<Longrightarrow> sorted_wrt (strict D True) (trace t)" using assms by (auto simp: res_rel_def intro: sorted_wrt_mono_rel [of _ "res_rel D u"])
  have "res_rel D u x y \<Longrightarrow> item_le D x y" for x y by (auto simp: res_rel_def strict_le split: if_splits)
  then show "in_order D t" unfolding in_order_def using assms sorted_wrt_mono_rel by metis
qed

lemma insert_ok:
  assumes D: "decimal_laws D" and key: "key_ok D key" and s: "tx_ok s" "tx_room (height t + 2) s"
    and t: "unique_tree D u (tx_view s) t" "height t \<le> MAX_TREE_DEPTH"
    and new: "u \<Longrightarrow> \<forall>e \<in> set (entries t). cmp_values D (fst e) key \<noteq> Equal"
  shows "\<exists>t' s'. insert D \<lparr>bt_root = root_of t\<rparr> key val u s = (Inr \<lparr>bt_root = root_of t'\<rparr>, s') \<and> tx_ok s' \<and>
    index_tree D (tx_view s') t' \<and> (u \<longrightarrow> unique_tree D u (tx_view s') t') \<and> entries t' = ins_at D key val (entries t) \<and>
    height t' \<le> Suc (height t) \<and> (\<forall>j. j \<notin> set (pages t) \<longrightarrow> tx_view s j \<noteq> None \<longrightarrow> tx_view s' j = tx_view s j)"
proof -
  obtain t1 x s1 R where ins: "insert_rec (MAX_TREE_DEPTH + 1) D key val u (root_of t) s = (Inr (split_off x), s1)" "tx_ok s1" "tx_room 1 s1"
      "ins_result D u key val (trace t) R" "became D (tx_view s) (tx_view s1) (root_of t) (set (pages t)) (height t) R t1 x"
    using insert_rec_ok [OF D key s(1), of t u "MAX_TREE_DEPTH + 1" 1 val] t s(2) new by (auto simp: unique_tree_def)
  note bt = became_trees [OF ins(5,4)]
  show ?thesis
  proof (cases x)
    case None
    have "insert D \<lparr>bt_root = root_of t\<rparr> key val u s = (Inr \<lparr>bt_root = root_of t1\<rparr>, s1)"
      using ins(1,5) None by (simp add: insert_def obind_def split_off_def became_def)
    then show ?thesis
      using bt(1) [OF None] out_sorted [of D u t1] ins(2,5)
      by (intro exI [of _ t1] exI [of _ s1]) (auto simp: index_tree_def unique_tree_def entries_def became_def)
  next
    case (Some p)
    obtain mid t2 where x: "x = Some (mid, t2)" using Some by (cases p) auto
    have st: "stored D (tx_view s1) t1" "stored D (tx_view s1) t2" "root_of t1 = root_of t" "height t1 \<le> height t" "height t2 \<le> height t"
      using ins(5) x by (auto simp: became_def)
    have "Sep mid \<in> set R" using ins(5) x by (auto simp: became_def)
    then have "key_ok D mid"
      using ins_sep_ok [OF ins(4) _ key] stored_keys [of D "tx_view s" t] t(1) by (simp add: unique_tree_def)
    then have nok: "node_ok D (Internal (root_of t1) [(mid, root_of t2)])"
      using key_okD(3) [of D mid] by (simp add: node_ok_def cell_size_def PAGE_SIZE_def)
    obtain j s2 s3 where w: "op_err BPager allocate_page s1 = (Inr j, s2)" "write_node D j (Internal (root_of t1) [(mid, root_of t2)]) s2 = (Inr (), s3)"
        "tx_ok s3" "tx_view s1 j = None" "tx_view s3 = (tx_view s1)(j \<mapsto> node_image D (Internal (root_of t1) [(mid, root_of t2)]))"
      using bt_store.fresh_step [OF ins(2) ins(3) [unfolded One_nat_def] length_node_image [OF nok]] unfolding write_node_eq [OF nok] by blast
    define t' where "t' = TNode j t1 [(mid, t2)]"
    have nj: "j \<notin> set (pages t1)" "j \<notin> set (pages t2)" using stored_pages st(1,2) w(4) by blast+
    have same: "tx_view s3 k = tx_view s1 k" if "k \<noteq> j" for k using w(5) that by simp
    have "stored D (tx_view s3) t1" "stored D (tx_view s3) t2"
      using stored_cong [OF st(1)] stored_cong [OF st(2)] same nj by metis+
    then have st3: "stored D (tx_view s3) t'" using w(5) nok by (simp add: t'_def)
    have t': "distinct (pages t')" "sorted_wrt (res_rel D u) (trace t')" "entries t' = ins_at D key val (entries t)"
      using bt(2) [OF x, of j] nj by (auto simp: t'_def entries_def)
    have "insert D \<lparr>bt_root = root_of t\<rparr> key val u s = (Inr \<lparr>bt_root = root_of t'\<rparr>, s3)"
      using w(2) unfolding insert_def st(3)
      by (simp add: obind_def ins(1) w(1) x split_off_def t'_def del: insert_rec.simps add_Suc_right Suc_eq_plus1 One_nat_def)
    moreover have "tx_view s3 k = tx_view s k" if "k \<notin> set (pages t)" "tx_view s k \<noteq> None" for k
      using ins(5) w(4,5) that by (auto simp: became_def)
    ultimately show ?thesis
      using w(3) st3 t' out_sorted [OF t'(2)] st(4,5)
      by (intro exI [of _ t'] exI [of _ s3]) (auto simp: index_tree_def unique_tree_def, auto simp: t'_def)
  qed
qed

end
