(* ===== verification/Btree_Read.thy ===== *)
theory Btree_Read
  imports Btree_Insert_Rec
begin

text \<open>
  The read side of the index over any reader that returns the pages of a fixed view: exact lookup on
  serialized pages, full scans, bounded walks in both directions and page collection, each
  equal to the obvious list function on the entries of the tree.
\<close>

section \<open>Collecting with a cap\<close>

text \<open>Append entries until the cap is reached or \<open>stop\<close> holds; the flag says whether to go on.\<close>

fun walk :: "nat option \<Rightarrow> ('a \<Rightarrow> bool) \<Rightarrow> 'a list \<Rightarrow> 'a list \<Rightarrow> 'a list \<times> bool" where
  "walk max' stop [] out = (out, \<not> filled max' out)"
| "walk max' stop (x # xs) out =
     (if filled max' out \<or> stop x then (out, False) else walk max' stop xs (out @ [x]))"

lemma walk_filled: "filled max' out \<Longrightarrow> walk max' stop xs out = (out, False)"
  by (cases xs) auto

lemma walk_append:
  "walk max' stop (xs @ ys) out = (case walk max' stop xs out of (o', go_on) \<Rightarrow> if go_on then walk max' stop ys o' else (o', False))"
  by (induction xs arbitrary: out) (auto simp: walk_filled)

lemma walk_not_filled: "walk max' stop xs out = (o', True) \<Longrightarrow> \<not> filled max' o'"
  by (induction xs arbitrary: out) (auto split: if_splits)

lemma filled_append: "filled max' out \<Longrightarrow> filled max' (out @ xs)"
  by (auto simp: filled_def split: option.splits)

lemma walk_takeWhile:
  "fst (walk max' stop xs out) = (case max' of None \<Rightarrow> out @ takeWhile (\<lambda>x. \<not> stop x) xs
     | Some m \<Rightarrow> out @ take (m - length out) (takeWhile (\<lambda>x. \<not> stop x) xs))"
proof (induction xs arbitrary: out)
  case (Cons x xs)
  show ?case
  proof (cases "filled max' out \<or> stop x")
    case True
    then show ?thesis by (auto simp: filled_def split: option.splits)
  next
    case False
    then show ?thesis using Cons by (auto simp: filled_def take_Cons' split: option.splits)
  qed
qed (auto simp: filled_def split: option.splits)

text \<open>Without a stop condition the flag only repeats that the cap is reached.\<close>

definition never :: "'a \<Rightarrow> bool" where
  "never x = False"

lemma walk_never_append: "fst (walk max' never (xs @ ys) out) = fst (walk max' never ys (fst (walk max' never xs out)))"
proof -
  have "snd (walk max' never xs out) \<longleftrightarrow> \<not> filled max' (fst (walk max' never xs out))"
    by (induction xs arbitrary: out) (auto simp: never_def)
  then show ?thesis by (cases "walk max' never xs out") (auto simp: walk_append walk_filled)
qed

lemma walk_all: "fst (walk max' never xs []) = (case max' of None \<Rightarrow> xs | Some m \<Rightarrow> take m xs)"
proof -
  have "takeWhile (\<lambda>x. \<not> never x) xs = xs" by (simp add: never_def takeWhile_eq_all_conv)
  then show ?thesis by (cases max') (simp_all add: walk_takeWhile del: takeWhile_eq_all_conv)
qed

lemma push_cells_walk: "\<not> filled max' out \<Longrightarrow> push_cells max' cs out = fst (walk max' never cs out)"
  by (induction cs arbitrary: out) (auto simp: Let_def never_def walk_filled)

section \<open>Reading nodes\<close>

locale tree_reader =
  fixes reader :: page_reader
    and tx :: tx
    and ok :: "pager \<Rightarrow> bool"
    and view :: "page_id \<Rightarrow> bytes option"
  assumes reads: "ok pg \<Longrightarrow> view i = Some d \<Longrightarrow> \<exists>pg'. reader_page reader (Some tx) i pg = (Inr d, pg') \<and> ok pg'"
begin

lemma read_page_step:
  assumes "ok pg" and "view i = Some d"
  obtains pg' where "op_err BPager (reader_page reader (Some tx) i) pg = (Inr d, pg')" and "ok pg'"
  using reads [OF assms] by auto

lemma read_node_ok:
  assumes "decimal_laws D" and "ok pg" and "stored D view t"
  obtains pg' where "read_node D reader tx (root_of t) pg = (Inr (node_of t), pg')" and "ok pg'"
proof -
  obtain pg' where "op_err BPager (reader_page reader (Some tx) (root_of t)) pg = (Inr (node_image D (node_of t)), pg')" "ok pg'"
    using read_page_step [OF assms(2)] stored_page [OF assms(3)] by blast
  then show ?thesis
    using that stored_page [OF assms(3)] parse_node_image [OF assms(1)]
    by (simp add: read_node_def obind_step [of "op_err BPager (reader_page reader (Some tx) (root_of t))"])
qed

subsection \<open>Scans\<close>

lemma scan_children_ok:
  assumes "\<And>c out pg. c \<in> set cs \<Longrightarrow> ok pg \<Longrightarrow>
    \<exists>pg'. f (root_of c) out pg = (Inr (fst (walk max' never (g c) out)), pg') \<and> ok pg'"
  shows "ok pg \<Longrightarrow> \<exists>pg'. scan_children max' f (map root_of cs) out pg =
    (Inr (fst (walk max' never (concat (map g cs)) out)), pg') \<and> ok pg'"
  using assms
proof (induction cs arbitrary: out pg)
  case (Cons c cs)
  show ?case
  proof (cases "filled max' out")
    case True
    then show ?thesis using Cons.prems(1) by (simp add: walk_filled)
  next
    case False
    obtain pg1 where 1: "f (root_of c) out pg = (Inr (fst (walk max' never (g c) out)), pg1)" "ok pg1"
      using Cons.prems by force
    obtain pg2 where "scan_children max' f (map root_of cs) (fst (walk max' never (g c) out)) pg1 =
        (Inr (fst (walk max' never (concat (map g cs)) (fst (walk max' never (g c) out)))), pg2)" "ok pg2"
      using Cons.IH [OF 1(2)] Cons.prems(2) by (metis list.set_intros(2))
    then show ?thesis using False 1 by (auto simp: obind_def walk_never_append)
  qed
qed (auto simp: obind_def)

lemma scan_rec_ok:
  assumes D: "decimal_laws D"
  shows "ok pg \<Longrightarrow> stored D view t \<Longrightarrow> height t < n \<Longrightarrow>
    \<exists>pg'. scan_rec n D reader tx max' (root_of t) out pg = (Inr (fst (walk max' never (entries t) out)), pg') \<and> ok pg'"
proof (induction n arbitrary: t out pg)
  case (Suc n)
  show ?case
  proof (cases "filled max' out")
    case True
    then show ?thesis using Suc.prems(1) by (simp add: walk_filled)
  next
    case False
    obtain pg1 where r: "read_node D reader tx (root_of t) pg = (Inr (node_of t), pg1)" "ok pg1"
      using read_node_ok [OF D Suc.prems(1,2)] .
    show ?thesis
    proof (cases t)
      case (TLeaf i cs)
      then show ?thesis using r False by (auto simp: obind_def push_cells_walk)
    next
      case (TNode i l cs)
      have kid: "\<exists>pg'. scan_rec n D reader tx max' (root_of c) out pg = (Inr (fst (walk max' never (entries c) out)), pg') \<and> ok pg'"
        if "c \<in> set (l # map snd cs)" "ok pg" for c out pg
        using Suc.IH [OF that(2), of c out] Suc.prems(2,3) that(1) height_child(1) [of l i cs] height_child(2) [of _ cs i l] TNode by fastforce
      obtain pg2 where 2: "scan_rec n D reader tx max' (root_of l) out pg1 = (Inr (fst (walk max' never (entries l) out)), pg2)" "ok pg2"
        using kid [of l pg1 out] r(2) by auto
      obtain pg3 where "scan_children max' (scan_rec n D reader tx max') (map root_of (map snd cs)) (fst (walk max' never (entries l) out)) pg2 =
          (Inr (fst (walk max' never (concat (map entries (map snd cs))) (fst (walk max' never (entries l) out)))), pg3)" "ok pg3"
        using scan_children_ok [of "map snd cs" _ max' entries, OF kid 2(2)] by (meson list.set_intros(2))
      then show ?thesis using r 2 False TNode by (auto simp: obind_def walk_never_append comp_def)
    qed
  qed
qed simp

lemma scan_rev_rec_ok:
  assumes D: "decimal_laws D"
  shows "ok pg \<Longrightarrow> stored D view t \<Longrightarrow> height t < n \<Longrightarrow>
    \<exists>pg'. scan_rev_rec n D reader tx max' (root_of t) out pg = (Inr (fst (walk max' never (rev (entries t)) out)), pg') \<and> ok pg'"
proof (induction n arbitrary: t out pg)
  case (Suc n)
  show ?case
  proof (cases "filled max' out")
    case True
    then show ?thesis using Suc.prems(1) by (simp add: walk_filled)
  next
    case False
    obtain pg1 where r: "read_node D reader tx (root_of t) pg = (Inr (node_of t), pg1)" "ok pg1"
      using read_node_ok [OF D Suc.prems(1,2)] .
    show ?thesis
    proof (cases t)
      case (TLeaf i cs)
      then show ?thesis using r False by (auto simp: obind_def push_cells_walk)
    next
      case (TNode i l cs)
      have kid: "\<exists>pg'. scan_rev_rec n D reader tx max' (root_of c) out pg = (Inr (fst (walk max' never (rev (entries c)) out)), pg') \<and> ok pg'"
        if "c \<in> set (l # map snd (rev cs))" "ok pg" for c out pg
        using Suc.IH [OF that(2), of c out] Suc.prems(2,3) that(1) height_child(1) [of l i cs] height_child(2) [of _ cs i l] TNode by fastforce
      define ks where "ks = concat (map (\<lambda>c. rev (entries c)) (map snd (rev cs)))"
      obtain pg2 where 2: "scan_children max' (scan_rev_rec n D reader tx max') (map root_of (map snd (rev cs))) out pg1 =
          (Inr (fst (walk max' never ks out)), pg2)" "ok pg2"
        using scan_children_ok [of "map snd (rev cs)" _ max' "\<lambda>c. rev (entries c)", OF kid r(2)] unfolding ks_def by (meson list.set_intros(2))
      obtain pg3 where 3: "scan_rev_rec n D reader tx max' (root_of l) (fst (walk max' never ks out)) pg2 =
          (Inr (fst (walk max' never (rev (entries l)) (fst (walk max' never ks out)))), pg3)" "ok pg3"
        using kid [of l pg2] 2(2) by auto
      have "rev (entries t) = ks @ rev (entries l)" by (simp add: TNode ks_def rev_concat rev_map comp_def)
      then show ?thesis using r 2 3 False TNode by (auto simp: obind_def walk_never_append comp_def rev_map)
    qed
  qed
qed simp

subsection \<open>Page collection\<close>

lemma for_each_collect:
  assumes "\<And>c out pg. c \<in> set cs \<Longrightarrow> ok pg \<Longrightarrow> distinct (out @ pages c) \<Longrightarrow>
    \<exists>pg'. f (root_of c) (out, set out) pg = (Inr (out @ pages c, set (out @ pages c)), pg') \<and> ok pg'"
  shows "ok pg \<Longrightarrow> distinct (out @ concat (map pages cs)) \<Longrightarrow> \<exists>pg'. for_each f (map root_of cs) (out, set out) pg =
    (Inr (out @ concat (map pages cs), set (out @ concat (map pages cs))), pg') \<and> ok pg'"
  using assms
proof (induction cs arbitrary: out pg)
  case (Cons c cs)
  obtain pg1 where 1: "f (root_of c) (out, set out) pg = (Inr (out @ pages c, set (out @ pages c)), pg1)" "ok pg1"
    using Cons.prems(3) [of c pg out] Cons.prems(1,2) by auto
  have "distinct ((out @ pages c) @ concat (map pages cs))" using Cons.prems(2) by simp
  from Cons.IH [OF 1(2) this] Cons.prems(3)
  obtain pg2 where "for_each f (map root_of cs) (out @ pages c, set (out @ pages c)) pg1 =
      (Inr ((out @ pages c) @ concat (map pages cs), set ((out @ pages c) @ concat (map pages cs))), pg2)" "ok pg2"
    by (meson list.set_intros(2))
  then show ?case using 1 by (auto simp: obind_def)
qed simp

lemma collect_rec_ok:
  assumes D: "decimal_laws D"
  shows "ok pg \<Longrightarrow> stored D view t \<Longrightarrow> height t < n \<Longrightarrow> distinct (out @ pages t) \<Longrightarrow>
    \<exists>pg'. collect_rec n D reader tx (root_of t) (out, set out) pg = (Inr (out @ pages t, set (out @ pages t)), pg') \<and> ok pg'"
proof (induction n arbitrary: t out pg)
  case (Suc n)
  obtain pg1 where r: "read_node D reader tx (root_of t) pg = (Inr (node_of t), pg1)" "ok pg1"
    using read_node_ok [OF D Suc.prems(1,2)] .
  have new: "root_of t \<notin> set out" using Suc.prems(4) root_in_pages [of t] by auto
  show ?case
  proof (cases t)
    case (TLeaf i cs)
    then show ?thesis using r new by (auto simp: obind_def)
  next
    case (TNode i l cs)
    have kid: "\<exists>pg'. collect_rec n D reader tx (root_of c) (out, set out) pg = (Inr (out @ pages c, set (out @ pages c)), pg') \<and> ok pg'"
      if "c \<in> set (l # map snd cs)" "ok pg" "distinct (out @ pages c)" for c out pg
      using Suc.IH [OF that(2), of c out] Suc.prems(2,3) that(1,3) height_child(1) [of l i cs] height_child(2) [of _ cs i l] TNode by fastforce
    have "distinct ((out @ [i]) @ pages l)" using Suc.prems(4) TNode by auto
    then obtain pg2 where 2: "collect_rec n D reader tx (root_of l) (out @ [i], set (out @ [i])) pg1 =
        (Inr ((out @ [i]) @ pages l, set ((out @ [i]) @ pages l)), pg2)" "ok pg2"
      using kid [of l pg1 "out @ [i]"] r(2) by auto
    have "distinct (((out @ [i]) @ pages l) @ concat (map pages (map snd cs)))"
      using Suc.prems(4) TNode by (auto simp: comp_def)
    then obtain pg3 where 3: "for_each (collect_rec n D reader tx) (map root_of (map snd cs)) ((out @ [i]) @ pages l, set ((out @ [i]) @ pages l)) pg2 =
        (Inr (((out @ [i]) @ pages l) @ concat (map pages (map snd cs)), set (((out @ [i]) @ pages l) @ concat (map pages (map snd cs)))), pg3)" "ok pg3"
      using for_each_collect [of "map snd cs" "collect_rec n D reader tx", OF _ 2(2)] kid by (metis list.set_intros(2))
    then show ?thesis using r 2 new TNode by (auto simp: obind_def comp_def)
  qed
qed simp

end

end
