(* ===== verification/Btree_Search.thy ===== *)
theory Btree_Search
  imports Btree_Read
begin

text \<open>
  Ordered reads: bounded walks and exact lookup skip subtrees by their separators. With the trace in order
  they return what filtering all entries would return.
\<close>

section \<open>Order facts\<close>

abbreviation ov :: "'d decimal_ops \<Rightarrow> 'd Value \<Rightarrow> bool" where
  "ov D v \<equiv> ordered_value D v"

lemmas ov_trans = value_order.cmp_trans
lemmas ov_less_le = value_order.cmp_less_le_trans
lemmas ov_le_less = value_order.cmp_le_less_trans

lemma bound_mono:
  assumes "ov D a" and "ov D b" and "cmp_values D a b \<noteq> Greater"
  shows "(case hi of Some (h, _) \<Rightarrow> ov D h | None \<Rightarrow> True) \<Longrightarrow> beyond_hi D a hi \<Longrightarrow> beyond_hi D b hi"
    and "(case lo of Some (l, _) \<Rightarrow> ov D l | None \<Rightarrow> True) \<Longrightarrow> below_lo D b lo \<Longrightarrow> below_lo D a lo"
proof -
  show "beyond_hi D b hi" if h: "case hi of Some (h, _) \<Rightarrow> ov D h | None \<Rightarrow> True" and b: "beyond_hi D a hi"
  proof (cases hi)
    case (Some p)
    obtain h i where p: "hi = Some (h, i)" using Some by (cases p) auto
    have o: "ov D h" using h p by simp
    have "cmp_values D b h = Less \<Longrightarrow> cmp_values D a h = Less" using ov_le_less [OF assms(1,2) o assms(3)] .
    moreover have "cmp_values D b h \<noteq> Greater \<Longrightarrow> cmp_values D a h \<noteq> Greater" using ov_trans [OF assms(1,2) o assms(3)] .
    ultimately show ?thesis using b p by (auto simp: beyond_hi_def split: if_splits)
  qed (use b in \<open>simp add: beyond_hi_def\<close>)
  show "below_lo D a lo" if l: "case lo of Some (l, _) \<Rightarrow> ov D l | None \<Rightarrow> True" and b: "below_lo D b lo"
  proof (cases lo)
    case (Some p)
    obtain h i where p: "lo = Some (h, i)" using Some by (cases p) auto
    have o: "ov D h" using l p by simp
    have "cmp_values D b h = Less \<Longrightarrow> cmp_values D a h = Less" using ov_le_less [OF assms(1,2) o assms(3)] .
    moreover have "cmp_values D b h \<noteq> Greater \<Longrightarrow> cmp_values D a h \<noteq> Greater" using ov_trans [OF assms(1,2) o assms(3)] .
    ultimately show ?thesis using b p by (auto simp: below_lo_def split: if_splits)
  qed (use b in \<open>simp add: below_lo_def\<close>)
qed

text \<open>Entries in key order.\<close>

definition ordered_entries :: "'d decimal_ops \<Rightarrow> 'd entries \<Rightarrow> bool" where
  "ordered_entries D es \<longleftrightarrow> sorted_wrt (\<lambda>a b. le D (fst a) (fst b)) es \<and> (\<forall>e \<in> set es. ov D (fst e))"

lemma ordered_entries_Cons:
  "ordered_entries D (e # es) \<longleftrightarrow> ov D (fst e) \<and> (\<forall>x \<in> set es. le D (fst e) (fst x)) \<and> ordered_entries D es"
  by (auto simp: ordered_entries_def)

text \<open>What a trace in order says of its entries, and of the separators of a node.\<close>

lemma keys_of_ordered:
  assumes "sorted_wrt (item_le D) xs" and "\<And>x. x \<in> set xs \<Longrightarrow> ov D (ikey x)"
  shows "ordered_entries D (keys_of xs)"
  using assms
proof (induction xs rule: keys_of.induct)
  case (2 k v xs)
  have "le D k (fst e)" if "e \<in> set (keys_of xs)" for e
    using 2(2) that set_keys_of [of "fst e" "snd e" xs] by (auto simp: item_le_def)
  then show ?case using 2 2(3) [of "Key k v"] by (auto simp: ordered_entries_Cons)
qed (auto simp: ordered_entries_def)

lemma tree_ov: "decimal_laws D \<Longrightarrow> stored D v t \<Longrightarrow> x \<in> set (trace t) \<Longrightarrow> ov D (ikey x)"
  using stored_keys key_ordered by blast

lemma entries_ordered: "decimal_laws D \<Longrightarrow> stored D v t \<Longrightarrow> in_order D t \<Longrightarrow> ordered_entries D (entries t)"
  unfolding entries_def in_order_def using keys_of_ordered tree_ov by blast

text \<open>One cell of a node against the rest.\<close>

lemma cell_order:
  assumes "sorted_wrt (item_le D) (kids ((k, c) # cs))"
  shows "in_order D c" and "\<And>e. e \<in> set (entries c) \<Longrightarrow> le D k (fst e)"
    and "\<And>k' c' e. (k', c') \<in> set cs \<Longrightarrow> e \<in> set (entries c) \<Longrightarrow> le D (fst e) k'"
    and "\<And>k' c'. (k', c') \<in> set cs \<Longrightarrow> le D k k'" and "sorted_wrt (item_le D) (kids cs)"
    and "\<And>k' c' e. (k', c') \<in> set cs \<Longrightarrow> e \<in> set (entries c') \<Longrightarrow> le D k (fst e)"
proof -
  have s: "sorted_wrt (item_le D) (trace c)" "sorted_wrt (item_le D) (kids cs)"
      "\<And>x. x \<in> set (trace c) \<union> set (kids cs) \<Longrightarrow> item_le D (Sep k) x"
      "\<And>x y. x \<in> set (trace c) \<Longrightarrow> y \<in> set (kids cs) \<Longrightarrow> item_le D x y"
    using assms by (auto simp: sorted_wrt_append)
  show "in_order D c" "sorted_wrt (item_le D) (kids cs)" using s by (simp_all add: in_order_def)
  have key: "Key (fst e) (snd e) \<in> set (trace c)" if "e \<in> set (entries c)" for e and c :: "'a tree"
    using that by (simp add: entries_def set_keys_of [symmetric])
  show "le D k (fst e)" if "e \<in> set (entries c)" for e
    using s(3) [of "Key (fst e) (snd e)"] key [OF that] by (simp add: item_le_def)
  show "le D (fst e) k'" if "(k', c') \<in> set cs" "e \<in> set (entries c)" for k' c' e
  proof -
    have "Sep k' \<in> set (kids cs)" using that(1) by force
    from s(4) [OF key [OF that(2)] this] show ?thesis by (simp add: item_le_def)
  qed
  show "le D k k'" if "(k', c') \<in> set cs" for k' c'
  proof -
    have "Sep k' \<in> set (kids cs)" using that(1) by force
    then show ?thesis using s(3) [of "Sep k'"] by (simp add: item_le_def)
  qed
  show "le D k (fst e)" if "(k', c') \<in> set cs" "e \<in> set (entries c')" for k' c' e
  proof -
    have "Key (fst e) (snd e) \<in> set (kids cs)" using that(1) key [OF that(2)] by force
    then show ?thesis using s(3) [of "Key (fst e) (snd e)"] by (simp add: item_le_def)
  qed
qed

lemma in_order_kid:
  assumes "sorted_wrt (item_le D) (trace l @ kids cs)" and "c \<in> set (l # map snd cs)"
  shows "in_order D c"
proof (cases "c = l")
  case False
  then obtain k where "(k, c) \<in> set cs" using assms(2) by auto
  then obtain A B where "cs = A @ (k, c) # B" by (meson split_list)
  then show ?thesis using assms(1) by (auto simp: in_order_def sorted_wrt_append)
qed (use assms(1) in \<open>simp add: in_order_def sorted_wrt_append\<close>)

lemma leftmost_order:
  assumes "sorted_wrt (item_le D) (trace l @ kids cs)" and "(k, c) \<in> set cs" and "e \<in> set (entries l)"
  shows "le D (fst e) k"
proof -
  have "Key (fst e) (snd e) \<in> set (trace l)" "Sep k \<in> set (kids cs)"
    using assms(2,3) by (force simp: entries_def set_keys_of [symmetric])+
  then have "item_le D (Key (fst e) (snd e)) (Sep k)" using assms(1) by (auto simp: sorted_wrt_append simp del: set_concat)
  then show ?thesis by (simp add: item_le_def)
qed

section \<open>Forward walks\<close>

definition below :: "'d decimal_ops \<Rightarrow> 'd Value \<Rightarrow> bool \<Rightarrow> 'd Value \<Rightarrow> bool" where
  "below D lo incl k \<longleftrightarrow> cmp_values D k lo = Less \<or> cmp_values D k lo = Equal \<and> \<not> incl"

definition in_range :: "'d decimal_ops \<Rightarrow> 'd Value \<Rightarrow> bool \<Rightarrow> 'd bound \<Rightarrow> 'd Value \<times> u64 \<Rightarrow> bool" where
  "in_range D lo incl hi e \<longleftrightarrow> \<not> beyond_hi D (fst e) hi \<and> \<not> below D lo incl (fst e)"

definition stops :: "'d decimal_ops \<Rightarrow> 'd Value list option \<Rightarrow> 'd Value \<times> u64 \<Rightarrow> bool" where
  "stops D stop e = (case stop of Some pfx \<Rightarrow> \<not> has_prefix D (fst e) pfx | None \<Rightarrow> False)"

abbreviation bound_ov :: "'d decimal_ops \<Rightarrow> 'd bound \<Rightarrow> bool" where
  "bound_ov D b \<equiv> (case b of Some (h, _) \<Rightarrow> ov D h | None \<Rightarrow> True)"

lemma range_leaf_walk:
  "ordered_entries D cs \<Longrightarrow> bound_ov D hi \<Longrightarrow> \<not> filled max' out \<Longrightarrow>
     range_leaf D lo incl hi stop max' cs out = walk max' (stops D stop) (filter (in_range D lo incl hi) cs) out"
proof (induction cs arbitrary: out)
  case (Cons e cs)
  obtain k v where e: "e = (k, v)" by (cases e)
  show ?case
  proof (cases "beyond_hi D k hi")
    case True
    have "beyond_hi D (fst x) hi" if "x \<in> set cs" for x
      using bound_mono(1) [of D k "fst x" hi] Cons.prems(1,2) that True
      by (auto simp: e ordered_entries_Cons le_def ordered_entries_def)
    then have "filter (in_range D lo incl hi) (e # cs) = []" using True by (auto simp: in_range_def e filter_empty_conv)
    then show ?thesis using True Cons.prems(3) by (simp only: e range_leaf.simps if_True) simp
  next
    case False
    then show ?thesis
      using Cons by (auto simp: e in_range_def below_def stops_def ordered_entries_Cons Let_def walk_filled split: option.splits)
  qed
qed simp

text \<open>A subtree that is skipped holds nothing in the range.\<close>

lemma skipped_beyond:
  assumes "beyond_hi D k hi" and "bound_ov D hi" and "ov D k" and "\<And>e. e \<in> set es \<Longrightarrow> le D k (fst e) \<and> ov D (fst e)"
  shows "filter (in_range D lo incl hi) es = []"
  using assms bound_mono(1) [of D k _ hi] by (fastforce simp: filter_empty_conv in_range_def le_def)

lemma skipped_below:
  assumes "cmp_values D k lo = Less" and "ov D lo" and "ov D k" and "\<And>e. e \<in> set es \<Longrightarrow> le D (fst e) k \<and> ov D (fst e)"
  shows "filter (in_range D lo incl hi) es = []"
  using assms ov_le_less [of D _ k lo] by (fastforce simp: filter_empty_conv in_range_def below_def le_def)

context tree_reader
begin

lemma range_children_ok:
  assumes f: "\<And>c out pg. c \<in> set cs \<Longrightarrow> ok pg \<Longrightarrow>
      \<exists>pg'. f (root_of (snd c)) out pg = (Inr (walk max' (stops D stop) (filter (in_range D lo incl hi) (entries (snd c))) out), pg') \<and> ok pg'"
    and s: "sorted_wrt (item_le D) (kids cs)" and o: "\<And>x. x \<in> set (kids cs) \<Longrightarrow> ov D (ikey x)" and b: "bound_ov D hi" "ov D lo"
  shows "ok pg \<Longrightarrow> \<not> filled max' out \<Longrightarrow> \<exists>pg'. range_children D lo hi max' f (child_cells cs) out pg =
    (Inr (walk max' (stops D stop) (filter (in_range D lo incl hi) (concat (map (\<lambda>c. entries (snd c)) cs))) out), pg') \<and> ok pg'"
  using f s o
proof (induction cs arbitrary: out pg)
  case (Cons e cs)
  obtain k c where e: "e = (k, c)" by (cases e)
  note co = cell_order [OF Cons.prems(4) [unfolded e]]
  have ovk: "ov D k" and ovc: "\<And>x. x \<in> set (entries c) \<Longrightarrow> ov D (fst x)"
    using Cons.prems(5) set_keys_of [of _ _ "trace c"] by (force simp: e entries_def)+
  have IH: "\<exists>pg2. range_children D lo hi max' f (child_cells cs) out1 pg1 = (Inr (walk max' (stops D stop)
      (filter (in_range D lo incl hi) (concat (map (\<lambda>c. entries (snd c)) cs))) out1), pg2) \<and> ok pg2" if "ok pg1" "\<not> filled max' out1" for out1 pg1
    using Cons.IH [OF that] Cons.prems(3,5) co(5) by auto
  define skip where "skip \<longleftrightarrow> beyond_hi D k hi \<or> \<not> (case child_cells cs of (k, _) # _ \<Rightarrow> cmp_values D k lo \<noteq> Less | [] \<Rightarrow> True)"
  show ?case
  proof (cases skip)
    case True
    have "filter (in_range D lo incl hi) (entries c) = []"
    proof (cases "beyond_hi D k hi")
      case True
      show ?thesis by (rule skipped_beyond [OF True b(1) ovk]) (use co(2) ovc in blast)
    next
      case False
      then obtain k' c' cs' where n: "cs = (k', c') # cs'" "cmp_values D k' lo = Less"
        using \<open>skip\<close> unfolding skip_def by (cases cs) auto
      have "ov D k'" using Cons.prems(5) [of "Sep k'"] n(1) by simp
      then show ?thesis using n(1) co(3) ovc by (intro skipped_below [OF n(2) b(2)]) auto
    qed
    then show ?thesis using True IH [OF Cons.prems(1,2)] Cons.prems(2) by (auto simp: e skip_def)
  next
    case False
    obtain o1 go pg1 where 1: "f (root_of c) out pg = (Inr (o1, go), pg1)" "ok pg1"
        "walk max' (stops D stop) (filter (in_range D lo incl hi) (entries c)) out = (o1, go)"
      using Cons.prems(3) [of e pg out] Cons.prems(1) by (metis e list.set_intros(1) prod.collapse snd_conv)
    show ?thesis
    proof (cases go)
      case True
      then show ?thesis
        using False IH [OF 1(2) walk_not_filled] 1 Cons.prems(2) by (auto simp: e skip_def obind_def walk_append)
    next
      case f: False
      then show ?thesis using False 1 Cons.prems(2) by (auto simp: e skip_def obind_def walk_append)
    qed
  qed
qed simp

lemma range_bounded_rec_ok:
  assumes D: "decimal_laws D" and b: "bound_ov D hi" "ov D lo"
  shows "ok pg \<Longrightarrow> stored D view t \<Longrightarrow> in_order D t \<Longrightarrow> height t < n \<Longrightarrow>
    \<exists>pg'. range_bounded_rec n D reader tx lo incl hi stop max' (root_of t) out pg =
      (Inr (walk max' (stops D stop) (filter (in_range D lo incl hi) (entries t)) out), pg') \<and> ok pg'"
proof (induction n arbitrary: t out pg)
  case (Suc n)
  show ?case
  proof (cases "filled max' out")
    case True
    then show ?thesis using Suc.prems(1) by (simp add: walk_filled)
  next
    case False
    obtain pg1 where r: "read_node D reader tx (root_of t) pg = (Inr (node_of t), pg1)" "ok pg1"
      using read_node_ok [OF D Suc.prems(1,2)] .
    show ?thesis
    proof (cases t)
      case (TLeaf i cs)
      have "ordered_entries D cs" using entries_ordered [OF D Suc.prems(2,3)] TLeaf by simp
      then show ?thesis using r False range_leaf_walk [OF _ b(1)] TLeaf by (auto simp: obind_def)
    next
      case (TNode i l cs)
      have sorted: "sorted_wrt (item_le D) (trace l @ kids cs)" using Suc.prems(3) TNode by (simp add: in_order_def)
      have io: "in_order D c" if "c \<in> set (l # map snd cs)" for c
        using that in_order_kid [OF sorted] by blast
      let ?f = "range_bounded_rec n D reader tx lo incl hi stop max'"
      have kid: "\<exists>pg'. ?f (root_of c) out pg = (Inr (walk max' (stops D stop) (filter (in_range D lo incl hi) (entries c)) out), pg') \<and> ok pg'"
        if "c \<in> set (l # map snd cs)" "ok pg" for c out pg
        using Suc.IH [OF that(2), of c out] io [OF that(1)] Suc.prems(2,4) that(1) height_child(1) [of l i cs] height_child(2) [of _ cs i l] TNode
        by fastforce
      have ovs: "ov D (ikey x)" if "x \<in> set (trace l @ kids cs)" for x using tree_ov [OF D Suc.prems(2)] that TNode by simp
      define first where "first \<longleftrightarrow> (case child_cells cs of (k, _) # _ \<Rightarrow> cmp_values D k lo \<noteq> Less | [] \<Rightarrow> True)"
      obtain o2 go pg2 where 2: "(if first then ?f (root_of l) out pg1 else (Inr (out, True), pg1)) = (Inr (o2, go), pg2)" "ok pg2"
          "walk max' (stops D stop) (filter (in_range D lo incl hi) (entries l)) out = (o2, go)"
      proof (cases first)
        case True
        then show ?thesis using that kid [of l pg1 out] r(2) by (metis list.set_intros(1) prod.collapse)
      next
        case f: False
        then obtain k c cs' where n: "cs = (k, c) # cs'" "cmp_values D k lo = Less" unfolding first_def by (cases cs) auto
        have "filter (in_range D lo incl hi) (entries l) = []"
        proof (rule skipped_below [OF n(2) b(2)])
          show "ov D k" using ovs [of "Sep k"] n(1) by simp
          show "le D (fst e) k \<and> ov D (fst e)" if "e \<in> set (entries l)" for e
            using leftmost_order [OF sorted _ that, of k c] n(1) ovs [of "Key (fst e) (snd e)"] that
            by (simp add: entries_def set_keys_of [symmetric])
        qed
        then show ?thesis using that f r(2) False by simp
      qed
      have step: "range_bounded_rec (Suc n) D reader tx lo incl hi stop max' (root_of t) out pg =
          (if go then range_children D lo hi max' ?f (child_cells cs) o2 pg2 else (Inr (o2, False), pg2))"
        using r 2 False by (auto simp: TNode obind_def first_def Let_def if_distrib [of "\<lambda>f. f pg1"] cong: if_cong)
      show ?thesis
      proof (cases go)
        case True
        then have "go = True" by simp
        note nf = walk_not_filled [OF 2(3) [unfolded this]]
        have "\<exists>pg'. range_children D lo hi max' ?f (child_cells cs) o2 pg2 = (Inr (walk max' (stops D stop)
            (filter (in_range D lo incl hi) (concat (map (\<lambda>c. entries (snd c)) cs))) o2), pg') \<and> ok pg'"
          by (rule range_children_ok) (use kid sorted ovs b 2(2) nf in \<open>auto simp: sorted_wrt_append\<close>)
        then show ?thesis using step True 2(3) TNode by (auto simp: walk_append)
      next
        case f: False
        then show ?thesis using step 2 TNode by (auto simp: walk_append)
      qed
    qed
  qed
qed simp

subsection \<open>Descending walks\<close>

end

definition in_bounds :: "'d decimal_ops \<Rightarrow> 'd bound \<Rightarrow> 'd bound \<Rightarrow> 'd Value \<times> u64 \<Rightarrow> bool" where
  "in_bounds D lo hi e \<longleftrightarrow> \<not> beyond_hi D (fst e) hi \<and> \<not> below_lo D (fst e) lo"

lemma rev_leaf_walk:
  "sorted_wrt (\<lambda>a b. le D (fst b) (fst a)) cs \<Longrightarrow> (\<And>e. e \<in> set cs \<Longrightarrow> ov D (fst e)) \<Longrightarrow> bound_ov D lo \<Longrightarrow> \<not> filled max' out \<Longrightarrow>
     rev_leaf D lo hi max' cs out = fst (walk max' never (filter (in_bounds D lo hi) cs) out)"
proof (induction cs arbitrary: out)
  case (Cons e cs)
  obtain k v where e: "e = (k, v)" by (cases e)
  show ?case
  proof (cases "\<not> beyond_hi D k hi \<and> below_lo D k lo")
    case True
    have "below_lo D (fst x) lo" if "x \<in> set cs" for x
      using bound_mono(2) [of D "fst x" k lo] Cons.prems(1,3) Cons.prems(2) [of x] Cons.prems(2) [of e] that True by (auto simp: e le_def)
    then have "filter (in_bounds D lo hi) (e # cs) = []" using True by (auto simp: in_bounds_def e filter_empty_conv)
    then show ?thesis using True by (simp only: e rev_leaf.simps) simp
  next
    case False
    then show ?thesis using Cons by (auto simp: e in_bounds_def never_def Let_def walk_filled)
  qed
qed simp

lemma skipped_above:
  assumes "beyond_hi D k hi" and "bound_ov D hi" and "ov D k" and "\<And>e. e \<in> set es \<Longrightarrow> le D k (fst e) \<and> ov D (fst e)"
  shows "filter (in_bounds D lo hi) es = []"
  using assms bound_mono(1) [of D k _ hi] by (fastforce simp: filter_empty_conv in_bounds_def le_def)

lemma skipped_under:
  assumes "below_lo D k lo" and "bound_ov D lo" and "ov D k" and "\<And>e. e \<in> set es \<Longrightarrow> le D (fst e) k \<and> ov D (fst e)"
  shows "filter (in_bounds D lo hi) es = []"
  using assms bound_mono(2) [of D _ k lo] by (fastforce simp: filter_empty_conv in_bounds_def le_def)

lemma rposition_spec:
  "case rposition P xs of Some b \<Rightarrow> b < length xs \<and> (\<forall>j < length xs. b < j \<longrightarrow> \<not> P (xs ! j)) | None \<Rightarrow> \<forall>j < length xs. \<not> P (xs ! j)"
proof (cases "position P (rev xs)")
  case None
  then have "\<forall>x \<in> set xs. \<not> P x" by (simp add: position_None)
  then show ?thesis using None by (simp add: rposition_def)
next
  case (Some i)
  then have i: "i < length xs" "\<forall>j < i. \<not> P (rev xs ! j)" by (auto simp: position_Some)
  have "\<not> P (xs ! j)" if "j < length xs" "length xs - 1 - i < j" for j
    using i that rev_nth [of "length xs - 1 - j" xs] by (auto dest!: spec [of _ "length xs - 1 - j"])
  then show ?thesis using Some i(1) by (simp add: rposition_def)
qed

text \<open>Everything before cell \<open>m\<close> is at most its separator, everything from it on at least.\<close>

lemma node_sep_order:
  assumes "sorted_wrt (item_le D) (trace l @ kids cs)" and "m < length cs"
  shows "\<And>e. e \<in> set (entries l @ concat (map (\<lambda>c. entries (snd c)) (take m cs))) \<Longrightarrow> le D (fst e) (fst (cs ! m))"
    and "\<And>e. e \<in> set (concat (map (\<lambda>c. entries (snd c)) (drop m cs))) \<Longrightarrow> le D (fst (cs ! m)) (fst e)"
proof -
  define A where "A = take m cs"
  define c where "c = snd (cs ! m)"
  define k where "k = fst (cs ! m)"
  define B where "B = drop (Suc m) cs"
  have cs: "cs = A @ (k, c) # B" using assms(2) by (simp add: A_def B_def c_def k_def id_take_nth_drop)
  have d: "drop m cs = (k, c) # B" using assms(2) by (simp add: B_def c_def k_def Cons_nth_drop_Suc)
  have key: "Key (fst e) (snd e) \<in> set (trace t)" if "e \<in> set (entries t)" for e and t :: "'a tree"
    using that by (simp add: entries_def set_keys_of [symmetric])
  have s: "item_le D x (Sep k)" if "x \<in> set (trace l @ kids A)" for x
    using assms(1) that unfolding cs by (auto simp: sorted_wrt_append)
  show "le D (fst e) (fst (cs ! m))" if e: "e \<in> set (entries l @ concat (map (\<lambda>c. entries (snd c)) (take m cs)))" for e
  proof -
    have "Key (fst e) (snd e) \<in> set (trace l @ kids A)" using e key by (fastforce simp: A_def)
    from s [OF this] show ?thesis by (simp add: item_le_def k_def)
  qed
  have "sorted_wrt (item_le D) (kids ((k, c) # B))" using assms(1) unfolding cs by (simp add: sorted_wrt_append)
  note co = cell_order [OF this]
  show "le D (fst (cs ! m)) (fst e)" if e: "e \<in> set (concat (map (\<lambda>c. entries (snd c)) (drop m cs)))" for e
  proof -
    have "e \<in> set (entries c) \<or> (\<exists>k' c'. (k', c') \<in> set B \<and> e \<in> set (entries c'))" using e unfolding d by auto
    then show ?thesis using co(2) co(6) unfolding k_def [symmetric] by blast
  qed
qed

context tree_reader
begin

lemma rev_children_ok:
  assumes f: "\<And>c out pg. c \<in> set cs \<Longrightarrow> ok pg \<Longrightarrow>
      \<exists>pg'. f (root_of (snd c)) out pg = (Inr (fst (walk max' never (rev (filter (in_bounds D lo hi) (entries (snd c)))) out)), pg') \<and> ok pg'"
    and sorted: "sorted_wrt (item_le D) (trace l @ kids cs)" and o: "\<And>x. x \<in> set (trace l @ kids cs) \<Longrightarrow> ov D (ikey x)" and b: "bound_ov D lo"
  shows "ok pg \<Longrightarrow> m \<le> length cs \<Longrightarrow> \<exists>o' go pg'. rev_children D lo max' f (child_cells cs) (rev [0..<m]) out pg = (Inr (o', go), pg') \<and> ok pg' \<and>
    (if go then o' = fst (walk max' never (rev (filter (in_bounds D lo hi) (concat (map (\<lambda>c. entries (snd c)) (take m cs))))) out)
     else o' = fst (walk max' never (rev (filter (in_bounds D lo hi) (entries l @ concat (map (\<lambda>c. entries (snd c)) (take m cs))))) out))"
proof (induction m arbitrary: out pg)
  case (Suc m)
  then have m: "m < length cs" by simp
  define c where "c = cs ! m"
  define P where "P = entries l @ concat (map (\<lambda>c. entries (snd c)) (take m cs))"
  have tk: "take (Suc m) cs = take m cs @ [c]" using m by (simp add: c_def take_Suc_conv_app_nth)
  have ovP: "ov D (fst e)" if "e \<in> set (P @ entries (snd c))" for e
  proof -
    have "Key (fst e) (snd e) \<in> set (trace l @ kids cs)"
      using that m by (auto simp: P_def c_def entries_def set_keys_of [symmetric] dest!: in_set_takeD)
    then show ?thesis using o by force
  qed
  show ?case
  proof (cases "filled max' out")
    case True
    then show ?thesis using Suc.prems(1) by (auto simp: walk_filled)
  next
    case nf: False
    show ?thesis
    proof (cases "m + 1 < length cs \<and> below_lo D (fst (cs ! (m + 1))) lo")
      case True
      have "cs ! (m + 1) \<in> set cs" using True by simp
      then have "Sep (fst (cs ! (m + 1))) \<in> set (trace l @ kids cs)" by fastforce
      from o [OF this] have "filter (in_bounds D lo hi) (P @ entries (snd c)) = []"
        by (intro skipped_under [OF conjunct2 [OF True] b])
          (use True node_sep_order(1) [OF sorted, of "m + 1"] ovP in \<open>auto simp: P_def tk\<close>)
      then show ?thesis using True nf Suc.prems(1) by (auto simp: tk P_def)
    next
      case False
      obtain pg1 where 1: "f (root_of (snd c)) out pg = (Inr (fst (walk max' never (rev (filter (in_bounds D lo hi) (entries (snd c)))) out)), pg1)" "ok pg1"
        using f [of c pg out] Suc.prems(1) m by (auto simp: c_def)
      define o1 where "o1 = fst (walk max' never (rev (filter (in_bounds D lo hi) (entries (snd c)))) out)"
      have step: "rev_children D lo max' f (child_cells cs) (rev [0..<Suc m]) out pg = rev_children D lo max' f (child_cells cs) (rev [0..<m]) o1 pg1"
        using False nf m 1 by (auto simp: obind_def c_def o1_def)
      obtain o2 go pg2 where 2: "rev_children D lo max' f (child_cells cs) (rev [0..<m]) o1 pg1 = (Inr (o2, go), pg2)" "ok pg2"
          "if go then o2 = fst (walk max' never (rev (filter (in_bounds D lo hi) (concat (map (\<lambda>c. entries (snd c)) (take m cs))))) o1)
           else o2 = fst (walk max' never (rev (filter (in_bounds D lo hi) P)) o1)"
        using Suc.IH [OF 1(2), of o1] m by (auto simp: P_def)
      have "fst (walk max' never (rev (filter (in_bounds D lo hi) (X @ entries (snd c)))) out) =
          fst (walk max' never (rev (filter (in_bounds D lo hi) X)) o1)" for X
        by (simp add: walk_never_append o1_def)
      from this [of P] this [of "concat (map (\<lambda>c. entries (snd c)) (take m cs))"] show ?thesis
        using 2 unfolding step by (intro exI [of _ o2] exI [of _ go] exI [of _ pg2]) (simp add: tk P_def split: if_splits)
    qed
  qed
qed auto

lemma range_rev_rec_ok:
  assumes D: "decimal_laws D" and b: "bound_ov D hi" "bound_ov D lo"
  shows "ok pg \<Longrightarrow> stored D view t \<Longrightarrow> in_order D t \<Longrightarrow> height t < n \<Longrightarrow>
    \<exists>pg'. range_rev_rec n D reader tx lo hi max' (root_of t) out pg =
      (Inr (fst (walk max' never (rev (filter (in_bounds D lo hi) (entries t))) out)), pg') \<and> ok pg'"
proof (induction n arbitrary: t out pg)
  case (Suc n)
  show ?case
  proof (cases "filled max' out")
    case True
    then show ?thesis using Suc.prems(1) by (simp add: walk_filled)
  next
    case nf: False
    obtain pg1 where r: "read_node D reader tx (root_of t) pg = (Inr (node_of t), pg1)" "ok pg1"
      using read_node_ok [OF D Suc.prems(1,2)] .
    have oe: "ordered_entries D (entries t)" by (rule entries_ordered [OF D Suc.prems(2,3)])
    show ?thesis
    proof (cases t)
      case (TLeaf i cs)
      have "sorted_wrt (\<lambda>a b. le D (fst b) (fst a)) (rev cs)" using oe TLeaf by (simp add: ordered_entries_def sorted_wrt_rev)
      then have "rev_leaf D lo hi max' (rev cs) out = fst (walk max' never (rev (filter (in_bounds D lo hi) cs)) out)"
        using rev_leaf_walk [of D "rev cs" lo max' out hi] b(2) nf oe TLeaf by (simp add: ordered_entries_def rev_filter)
      then show ?thesis using r nf TLeaf by (auto simp: obind_def)
    next
      case (TNode i l cs)
      have sorted: "sorted_wrt (item_le D) (trace l @ kids cs)" using Suc.prems(3) TNode by (simp add: in_order_def)
      let ?f = "range_rev_rec n D reader tx lo hi max'"
      have kid: "\<exists>pg'. ?f (root_of c) out pg = (Inr (fst (walk max' never (rev (filter (in_bounds D lo hi) (entries c))) out)), pg') \<and> ok pg'"
        if "c \<in> set (l # map snd cs)" "ok pg" for c out pg
        using Suc.IH [OF that(2), of c out] in_order_kid [OF sorted that(1)] Suc.prems(2,4) that(1) height_child(1) [of l i cs] height_child(2) [of _ cs i l] TNode
        by fastforce
      have ovs: "ov D (ikey x)" if "x \<in> set (trace l @ kids cs)" for x using tree_ov [OF D Suc.prems(2)] that TNode by simp
      define rp where "rp = rposition (\<lambda>(sep, _). \<not> beyond_hi D sep hi) (child_cells cs)"
      define m where "m = (case rp of Some b \<Rightarrow> b + 1 | None \<Rightarrow> 0)"
      have m: "m \<le> length cs" "m < length cs \<Longrightarrow> beyond_hi D (fst (cs ! m)) hi"
        using rposition_spec [of "child_cells cs" "\<lambda>(sep, _). \<not> beyond_hi D sep hi"] by (auto simp: rp_def m_def split: option.splits)
      have keep: "filter (in_bounds D lo hi) (entries t) = filter (in_bounds D lo hi) (entries l @ concat (map (\<lambda>c. entries (snd c)) (take m cs)))"
      proof -
        have "filter (in_bounds D lo hi) (concat (map (\<lambda>c. entries (snd c)) (drop m cs))) = []"
        proof (cases "m < length cs")
          case True
          have "ov D (fst e)" if "e \<in> set (concat (map (\<lambda>c. entries (snd c)) (drop m cs)))" for e
            using oe that TNode by (auto simp: ordered_entries_def dest!: in_set_dropD)
          then show ?thesis
            using skipped_above [OF m(2) [OF True] b(1)] ovs [of "Sep (fst (cs ! m))"] node_sep_order(2) [OF sorted True] True by fastforce
        qed simp
        moreover have "concat (map (\<lambda>c. entries (snd c)) cs) =
            concat (map (\<lambda>c. entries (snd c)) (take m cs)) @ concat (map (\<lambda>c. entries (snd c)) (drop m cs))"
          by (metis append_take_drop_id concat_append map_append)
        ultimately show ?thesis by (simp add: TNode)
      qed
      obtain o2 go pg2 where 2: "rev_children D lo max' ?f (child_cells cs) (rev [0..<m]) out pg1 = (Inr (o2, go), pg2)" "ok pg2"
          "if go then o2 = fst (walk max' never (rev (filter (in_bounds D lo hi) (concat (map (\<lambda>c. entries (snd c)) (take m cs))))) out)
           else o2 = fst (walk max' never (rev (filter (in_bounds D lo hi) (entries t))) out)"
        using rev_children_ok [of cs ?f max' D lo hi l pg1 m out] kid sorted ovs b(2) r(2) m(1) unfolding keep by auto
      define stop where "stop \<longleftrightarrow> (case child_cells cs of (k, _) # _ \<Rightarrow> below_lo D k lo | [] \<Rightarrow> False)"
      have step: "range_rev_rec (Suc n) D reader tx lo hi max' (root_of t) out pg =
          (if \<not> go \<or> filled max' o2 \<or> stop then (Inr o2, pg2) else ?f (root_of l) o2 pg2)"
      proof -
        have "(case rp of Some b \<Rightarrow> rev_children D lo max' ?f (child_cells cs) (rev [0..<b + 1]) out | None \<Rightarrow> oret (out, True)) pg1 = (Inr (o2, go), pg2)"
          using 2(1) by (cases rp) (simp_all add: m_def del: upt_Suc rev_children.simps(2))
        then show ?thesis using r nf unfolding rp_def by (simp add: TNode obind_def stop_def del: upt_Suc rev_children.simps(2))
      qed
      have stop0: "filter (in_bounds D lo hi) (entries l) = []" if st: stop
      proof -
        obtain k c cs' where n: "cs = (k, c) # cs'" "below_lo D k lo" using st unfolding stop_def by (cases cs) auto
        show ?thesis
          by (rule skipped_under [OF n(2) b(2)])
            (use ovs [of "Sep k"] n(1) leftmost_order [OF sorted, of k c] oe TNode in \<open>auto simp: ordered_entries_def\<close>)
      qed
      show ?thesis
      proof (cases "\<not> go \<or> filled max' o2 \<or> stop")
        case True
        then show ?thesis
          using step 2(2,3) stop0 unfolding keep by (auto simp: walk_never_append walk_filled split: if_splits)
      next
        case False
        then show ?thesis
          using step 2(3) kid [of l pg2 o2] 2(2) unfolding keep by (auto simp: walk_never_append)
      qed
    qed
  qed
qed simp

end

section \<open>Exact lookup\<close>

text \<open>What a lookup may return.\<close>

definition found :: "'d decimal_ops \<Rightarrow> 'd Value \<Rightarrow> 'd entries \<Rightarrow> u64 option \<Rightarrow> bool" where
  "found D key es r \<longleftrightarrow>
     (case r of
        None \<Rightarrow> \<forall>e \<in> set es. cmp_values D (fst e) key \<noteq> Equal
      | Some v \<Rightarrow> \<exists>k. (k, v) \<in> set es \<and> cmp_values D k key = Equal)"

lemma found_append_None: "found D key (xs @ ys) None \<longleftrightarrow> found D key xs None \<and> found D key ys None"
  by (auto simp: found_def)

lemma found_Some_mono: "found D key xs (Some v) \<Longrightarrow> set xs \<subseteq> set ys \<Longrightarrow> found D key ys (Some v)"
  by (auto simp: found_def)

text \<open>The number of cells below the key, and not above it.\<close>

definition seek_to :: "'d decimal_ops \<Rightarrow> 'd Value \<Rightarrow> bool \<Rightarrow> ('d Value \<times> 'v) list \<Rightarrow> nat" where
  "seek_to D key gt cs = length (takeWhile (\<lambda>c. go_right D key gt (fst c)) cs)"

lemma go_right_mono:
  assumes "ov D a" "ov D b" "ov D key" and "le D a b" and "go_right D key gt b"
  shows "go_right D key gt a"
  using assms ov_trans [of D a b key] ov_le_less [of D a b key] by (auto simp: go_right_def le_def split: if_splits)

lemma seek_to_nth:
  assumes "sorted_wrt (\<lambda>a b. le D (fst a) (fst b)) cs" and "\<And>c. c \<in> set cs \<Longrightarrow> ov D (fst c)" and "ov D key" and "i < length cs"
  shows "go_right D key gt (fst (cs ! i)) \<longleftrightarrow> i < seek_to D key gt cs"
proof
  assume g: "go_right D key gt (fst (cs ! i))"
  have "go_right D key gt (fst (cs ! j))" if "j \<le> i" for j
  proof (cases "j = i")
    case False
    then have "le D (fst (cs ! j)) (fst (cs ! i))" using sorted_wrt_nth_less [OF assms(1), of j i] that assms(4) by simp
    then show ?thesis using go_right_mono [OF _ _ assms(3) _ g] assms(2,4) that by simp
  qed (use g in simp)
  then show "i < seek_to D key gt cs"
    unfolding seek_to_def using assms(4) nth_length_takeWhile [of "\<lambda>c. go_right D key gt (fst c)" cs] by (meson linorder_not_less le_less_trans)
next
  assume "i < seek_to D key gt cs"
  then show "go_right D key gt (fst (cs ! i))"
    unfolding seek_to_def by (metis nth_mem set_takeWhileD takeWhile_nth)
qed

lemma cells_seek_ok:
  fixes cs :: "('d Value \<times> 'v::len word) list"
  assumes D: "decimal_laws D" and v: "8 dvd LENGTH('v)" and pg: "cells_page D h cs pg"
    and s: "sorted_wrt (\<lambda>a b. le D (fst a) (fst b)) cs" and key: "ov D key"
  shows "cells_seek D pg (offsets D (LENGTH('v) div 8) h cs) key gt = Inr (seek_to D key gt cs)"
proof -
  have ovc: "ov D (fst c)" if "c \<in> set cs" for c using pg that key_ordered [OF D] by (auto simp: cells_page_def keys_ok_def)
  show ?thesis
    unfolding cells_seek_def
  proof (rule seek_loop_bound)
    fix i assume "i < length (offsets D (LENGTH('v) div 8) h cs)"
    then have i: "i < length cs" by simp
    show "\<exists>k. decode_key_at D pg (offsets D (LENGTH('v) div 8) h cs ! i) = Inr k \<and> (go_right D key gt k \<longleftrightarrow> i < seek_to D key gt cs)"
      using cells_page_reads(2) [OF D v pg i] seek_to_nth [OF s ovc key i] by simp
  qed (auto simp: seek_to_def length_takeWhile_le)
qed

lemma leaf_get_ok:
  assumes D: "decimal_laws D" and ok: "node_ok D (Leaf cs)" and oe: "ordered_entries D cs" and key: "ov D key"
  shows "\<exists>r. leaf_get D (node_image D (Leaf cs)) (offsets D 8 3 cs) key = Inr r \<and> found D key cs r"
proof -
  let ?pg = "node_image D (Leaf cs)"
  have pg: "cells_page D 3 cs ?pg" by (rule leaf_page [OF ok])
  have s: "sorted_wrt (\<lambda>a b. le D (fst a) (fst b)) cs" and ovc: "\<And>c. c \<in> set cs \<Longrightarrow> ov D (fst c)" using oe by (auto simp: ordered_entries_def)
  define p where "p = seek_to D key False cs"
  have seek: "cells_seek D ?pg (offsets D 8 3 cs) key False = Inr p"
    using cells_seek_ok [OF D _ pg s key, of False] by (simp add: p_def)
  have nth: "cmp_values D (fst (cs ! i)) key = Less \<longleftrightarrow> i < p" if "i < length cs" for i
    using seek_to_nth [OF s ovc key that, of False] by (simp add: go_right_def p_def)
  have none: "found D key cs None" if "p < length cs \<Longrightarrow> cmp_values D (fst (cs ! p)) key \<noteq> Equal"
    unfolding found_def option.case
  proof
    fix e assume "e \<in> set cs"
    then obtain i where i: "i < length cs" "e = cs ! i" by (auto simp: in_set_conv_nth)
    show "cmp_values D (fst e) key \<noteq> Equal"
    proof
      assume eq: "cmp_values D (fst e) key = Equal"
      then have "p \<le> i" using nth [OF i(1)] i(2) by simp
      then have le: "i = p \<or> le D (fst (cs ! p)) (fst e)" using sorted_wrt_nth_less [OF s, of p i] i by (cases "i = p") auto
      have pl: "p < length cs" using \<open>p \<le> i\<close> i by simp
      then have "cmp_values D (fst (cs ! p)) key \<noteq> Greater"
        using le eq ov_trans [of D "fst (cs ! p)" "fst e" key] ovc [of e] ovc [of "cs ! p"] key i by (auto simp: le_def)
      then show False using nth [OF pl] that [OF pl] by (cases "cmp_values D (fst (cs ! p)) key") auto
    qed
  qed
  show ?thesis
  proof (cases "p < length cs \<and> cmp_values D (fst (cs ! p)) key = Equal")
    case True
    note rd = cells_page_reads [OF D _ pg, of p]
    obtain l b where l: "take_or ?pg (offsets D 8 3 cs ! p) 2 = Inr l" "u16_at l = length (key_bytes D (fst (cs ! p)))"
        "take_or ?pg (offsets D 8 3 cs ! p + 2 + length (key_bytes D (fst (cs ! p)))) 8 = Inr b" "(from_le_bytes b :: u64) = snd (cs ! p)"
      using rd(1,3) True by auto
    have "found D key cs (Some (snd (cs ! p)))"
      using True by (auto simp: found_def intro!: exI [of _ "fst (cs ! p)"])
    then show ?thesis using seek True rd(2) l by (simp add: leaf_get_def Let_def val_at_def del: add_2_eq_Suc add_2_eq_Suc')
  next
    case False
    then show ?thesis
      using none seek cells_page_reads(2) [OF D _ pg, of p] by (auto simp: leaf_get_def Let_def)
  qed
qed

text \<open>The children of a node; child \<open>j\<close> lies between the separators \<open>j - 1\<close> and \<open>j\<close>.\<close>

abbreviation children :: "'d tree \<Rightarrow> ('d Value \<times> 'd tree) list \<Rightarrow> 'd tree list" where
  "children l cs \<equiv> l # map snd cs"

lemma distinct_roots: "distinct (concat (map pages ts)) \<Longrightarrow> distinct (map root_of ts)"
proof (induction ts)
  case (Cons t ts)
  have "root_of t \<notin> root_of ` set ts"
  proof
    assume "root_of t \<in> root_of ` set ts"
    then obtain u where "u \<in> set ts" "root_of t \<in> set (pages u)" using root_in_pages by (metis imageE)
    moreover have "set (pages t) \<inter> (\<Union>a \<in> set ts. set (pages a)) = {}" using Cons.prems by simp
    ultimately show False using root_in_pages [of t] by blast
  qed
  then show ?case using Cons by simp
qed simp

lemma children_roots:
  assumes "distinct (pages (TNode i l cs))" and "a \<le> length cs" and "b \<le> length cs" and "a \<noteq> b"
  shows "root_of (children l cs ! a) \<noteq> root_of (children l cs ! b)"
proof -
  have "distinct (map root_of (children l cs))"
    by (rule distinct_roots) (use assms(1) in \<open>simp add: comp_def\<close>)
  from distinct_conv_nth [THEN iffD1, OF this] assms(2-4) show ?thesis by (metis le_imp_less_Suc length_Cons length_map nth_map)
qed

lemma seps_le_sorted:
  assumes "sorted_wrt (item_le D) (trace l @ kids cs)"
  shows "sorted_wrt (\<lambda>a b. le D (fst a) (fst b)) (child_cells cs)"
proof -
  have "sorted_wrt (item_le D) (kids cs)" using assms by (simp add: sorted_wrt_append)
  then show ?thesis
  proof (induction cs)
    case (Cons c cs)
    note co = cell_order [of D "fst c" "snd c" cs]
    show ?case using Cons.IH co(4,5) Cons.prems by fastforce
  qed simp
qed

lemma child_entries_order:
  assumes "sorted_wrt (item_le D) (trace l @ kids cs)" and "e \<in> set (entries (children l cs ! j))" and "j \<le> length cs"
  shows "\<And>i. j \<le> i \<Longrightarrow> i < length cs \<Longrightarrow> le D (fst e) (fst (cs ! i))" and "\<And>i. i < j \<Longrightarrow> le D (fst (cs ! i)) (fst e)"
proof -
  show "le D (fst e) (fst (cs ! i))" if "j \<le> i" "i < length cs" for i
  proof (rule node_sep_order(1) [OF assms(1) that(2)])
    show "e \<in> set (entries l @ concat (map (\<lambda>c. entries (snd c)) (take i cs)))"
    proof (cases j)
      case (Suc m)
      then have "cs ! m \<in> set (take i cs)" using that by (auto simp: in_set_conv_nth intro!: exI [of _ m])
      then show ?thesis using assms(2,3) Suc that by auto
    qed (use assms(2) in simp)
  qed
  show "le D (fst (cs ! i)) (fst e)" if "i < j" for i
  proof (rule node_sep_order(2) [OF assms(1)])
    show "i < length cs" using that assms(3) by simp
    have "cs ! (j - 1) \<in> set (drop i cs)"
      using that assms(3) by (auto simp: in_set_conv_nth intro!: exI [of _ "j - 1 - i"])
    then show "e \<in> set (concat (map (\<lambda>c. entries (snd c)) (drop i cs)))"
      using assms(2,3) that by (cases j) auto
  qed
qed

text \<open>Children that the separators exclude hold no equal key.\<close>

lemma excluded_child:
  assumes sorted: "sorted_wrt (item_le D) (trace l @ kids cs)" and ovs: "\<And>x. x \<in> set (trace l @ kids cs) \<Longrightarrow> ov D (ikey x)"
    and key: "ov D key" and j: "j \<le> length cs" "j < seek_to D key False (child_cells cs) \<or> seek_to D key True (child_cells cs) < j"
  shows "found D key (entries (children l cs ! j)) None"
  unfolding found_def option.case
proof
  fix e assume e: "e \<in> set (entries (children l cs ! j))"
  have ovc: "ov D (fst c)" if c: "c \<in> set (child_cells cs)" for c
  proof -
    obtain d where "d \<in> set cs" "fst c = fst d" using c by auto
    then show ?thesis using ovs [of "Sep (fst d)"] by auto
  qed
  have "children l cs ! j \<in> set (children l cs)" using j(1) by (intro nth_mem) simp
  then have "Key (fst e) (snd e) \<in> set (trace l @ kids cs)" using e by (force simp: entries_def set_keys_of [symmetric])
  then have ove: "ov D (fst e)" using ovs by force
  note nth = seek_to_nth [OF seps_le_sorted [OF sorted] ovc key]
  have sep: "ov D (fst (cs ! i))" if "i < length cs" for i using ovc [of "child_cells cs ! i"] that by simp
  show "cmp_values D (fst e) key \<noteq> Equal"
  proof (cases "j < seek_to D key False (child_cells cs)")
    case True
    then have jl: "j < length cs" using length_takeWhile_le order.strict_trans2 by (fastforce simp: seek_to_def)
    then have "cmp_values D (fst (cs ! j)) key = Less" using nth [of j False] True by (simp add: go_right_def)
    then show ?thesis
      using ov_le_less [OF ove sep [OF jl] key] child_entries_order(1) [OF sorted e j(1) order.refl jl] by (simp add: le_def)
  next
    case False
    then have g: "seek_to D key True (child_cells cs) < j" using j(2) by simp
    define i where "i = j - 1"
    have i: "i < length cs" "i < j" "seek_to D key True (child_cells cs) \<le> i" using g j(1) by (auto simp: i_def)
    then have "cmp_values D (fst (cs ! i)) key = Greater" using nth [of i True] by (simp add: go_right_def)
    then have "cmp_values D key (fst (cs ! i)) = Less" using value_order.cmp_Greater_iff [OF sep [OF i(1)] key] by simp
    then have "cmp_values D key (fst e) = Less"
      using ov_less_le [OF key sep [OF i(1)] ove] child_entries_order(2) [OF sorted e j(1) i(2)] by (simp add: le_def)
    then show ?thesis using value_order.cmp_swap [OF key ove] by simp
  qed
qed

lemma seek_le: "seek_to D key False cs \<le> seek_to D key True cs"
  unfolding seek_to_def by (induction cs) (auto simp: go_right_def)

lemma node_entries_children: "entries (TNode i l cs) = concat (map entries (children l cs))"
  by (simp add: comp_def)

context tree_reader
begin

lemma first_some_ok:
  assumes "\<And>x pg. x \<in> set xs \<Longrightarrow> ok pg \<Longrightarrow> \<exists>r pg'. f (h x) pg = (Inr r, pg') \<and> ok pg' \<and> Q x r"
  shows "ok pg \<Longrightarrow> \<exists>r pg'. first_some f (map h xs) pg = (Inr r, pg') \<and> ok pg' \<and>
    (case r of None \<Rightarrow> \<forall>x \<in> set xs. Q x None | Some v \<Rightarrow> \<exists>x \<in> set xs. Q x (Some v))"
  using assms
proof (induction xs arbitrary: pg)
  case (Cons x xs)
  obtain r pg1 where 1: "f (h x) pg = (Inr r, pg1)" "ok pg1" "Q x r" using Cons.prems by force
  show ?case
  proof (cases r)
    case (Some v)
    then show ?thesis using 1 by (auto simp: obind_def)
  next
    case None
    obtain r' pg2 where 2: "first_some f (map h xs) pg1 = (Inr r', pg2)" "ok pg2"
        "case r' of None \<Rightarrow> \<forall>x \<in> set xs. Q x None | Some v \<Rightarrow> \<exists>x \<in> set xs. Q x (Some v)"
      using Cons.IH [OF 1(2)] Cons.prems(2) by (meson list.set_intros(2))
    then show ?thesis using 1 None by (auto simp: obind_def split: option.splits)
  qed
qed simp

end

lemma cell_child_ok:
  assumes "decimal_laws D" and "node_ok D (Internal l cs)" and "i < length cs"
  shows "cell_child (node_image D (Internal l cs)) (offsets D 4 7 cs ! i) = Inr (snd (cs ! i))"
proof -
  note rd = cells_page_reads [OF assms(1) _ internal_page [OF assms(2)] assms(3)]
  obtain l' b where l: "take_or (node_image D (Internal l cs)) (offsets D 4 7 cs ! i) 2 = Inr l'" "u16_at l' = length (key_bytes D (fst (cs ! i)))"
      "take_or (node_image D (Internal l cs)) (offsets D 4 7 cs ! i + 2 + length (key_bytes D (fst (cs ! i)))) 4 = Inr b" "from_le_bytes b = snd (cs ! i)"
    using rd(1,3) by auto
  then show ?thesis by (simp add: cell_child_def child_at_def del: add_2_eq_Suc add_2_eq_Suc')
qed

lemma sub_bytes_map: "b \<le> length xs \<Longrightarrow> sub_bytes xs a (b - a) = map ((!) xs) [a..<b]"
  by (rule nth_equalityI) (auto simp: sub_bytes_def)

context tree_reader
begin

lemma get_at_ok:
  assumes D: "decimal_laws D" and key: "ov D key"
  shows "ok pg \<Longrightarrow> stored D view t \<Longrightarrow> in_order D t \<Longrightarrow> distinct (pages t) \<Longrightarrow> height t < n \<Longrightarrow>
    \<exists>r pg'. get_at n D reader tx key (root_of t) pg = (Inr r, pg') \<and> ok pg' \<and> found D key (entries t) r"
proof (induction n arbitrary: t pg)
  case (Suc n)
  obtain pg1 where r: "op_err BPager (reader_page reader (Some tx) (root_of t)) pg = (Inr (node_image D (node_of t)), pg1)" "ok pg1"
    using read_page_step [OF Suc.prems(1)] stored_page [OF Suc.prems(2)] by blast
  show ?case
  proof (cases t)
    case (TLeaf i cs)
    have nok: "node_ok D (Leaf cs)" using Suc.prems(2) TLeaf by simp
    have "ordered_entries D cs" using entries_ordered [OF D Suc.prems(2,3)] TLeaf by simp
    then obtain v where "leaf_get D (node_image D (Leaf cs)) (offsets D 8 3 cs) key = Inr v" "found D key cs v"
      using leaf_get_ok [OF D nok _ key] by blast
    then show ?thesis using r TLeaf node_starts_leaf [OF D nok] by (simp add: obind_def del: op_err_Inr)
  next
    case (TNode i l cs)
    define cells where "cells = child_cells cs"
    have nok: "node_ok D (Internal (root_of l) cells)" using Suc.prems(2) TNode by (simp add: cells_def)
    have sorted: "sorted_wrt (item_le D) (trace l @ kids cs)" using Suc.prems(3) TNode by (simp add: in_order_def)
    have ovs: "ov D (ikey x)" if "x \<in> set (trace l @ kids cs)" for x using tree_ov [OF D Suc.prems(2)] that TNode by simp
    define s where "s = seek_to D key False cells"
    define g where "g = seek_to D key True cells"
    have sg: "s \<le> g" "g \<le> length cs"
      using seek_le [of D key cells] length_takeWhile_le [of _ cells] by (auto simp: s_def g_def seek_to_def cells_def)
    define child where "child j = children l cs ! j" for j
    have kid: "\<exists>r pg'. get_at n D reader tx key (root_of (child j)) pg = (Inr r, pg') \<and> ok pg' \<and> found D key (entries (child j)) r"
      if "j \<le> length cs" "ok pg" for j pg
    proof -
      have c: "child j \<in> set (children l cs)" unfolding child_def using that(1) by (intro nth_mem) simp
      then have "distinct (pages (child j))" "stored D view (child j)" "height (child j) < n"
        using Suc.prems(2,4,5) height_child(1) [of l i cs] height_child(2) [of _ cs i l] unfolding TNode by (fastforce simp: distinct_concat_iff)+
      then show ?thesis using Suc.IH [OF that(2)] in_order_kid [OF sorted c] by blast
    qed
    have roots: "root_of (child a) \<noteq> root_of (child b)" if "a \<le> length cs" "b \<le> length cs" "a \<noteq> b" for a b
      unfolding child_def by (rule children_roots [OF Suc.prems(4) [unfolded TNode] that])
    let ?pg = "node_image D (Internal (root_of l) cells)"
    let ?off = "offsets D 4 7 cells"
    have seek: "cells_seek D ?pg ?off key gt = Inr (seek_to D key gt cells)" for gt
      using cells_seek_ok [OF D _ internal_page [OF nok], of key gt] seps_le_sorted [OF sorted] key by (simp add: cells_def)
    have cc: "cell_child ?pg (?off ! j) = Inr (root_of (child (Suc j)))" if "j < length cs" for j
      using cell_child_ok [OF D nok, of j] that by (simp add: child_def cells_def)
    have prim: "(if g = 0 then Inr (root_of l) else cell_child ?pg (?off ! (g - 1))) = Inr (root_of (child g))"
      using cc [of "g - 1"] sg(2) by (auto simp: child_def)
    define rest where "rest = (\<lambda>pos. obind (olift (cell_child ?pg pos)) (\<lambda>c. if c = root_of (child g) then oret None else get_at n D reader tx key c))"
    have unfold: "get_at (Suc n) D reader tx key (root_of t) pg =
        obind (get_at n D reader tx key (root_of (child g))) (\<lambda>r. case r of Some v \<Rightarrow> oret (Some v) | None \<Rightarrow>
          obind (if s = 0 \<and> g \<noteq> 0 then get_at n D reader tx key (root_of (child 0)) else oret None) (\<lambda>r. case r of Some v \<Rightarrow> oret (Some v)
            | None \<Rightarrow> first_some rest (map ((!) ?off) [s - 1..<g - 1]))) pg1"
    proof -
      have "root_of l \<noteq> root_of (child g) \<longleftrightarrow> g \<noteq> 0" using roots [of 0 g] sg(2) by (cases "g = 0") (auto simp: child_def)
      moreover have "sub_bytes ?off (s - 1) (g - 1 - (s - 1)) = map ((!) ?off) [s - 1..<g - 1]"
        by (rule sub_bytes_map) (use sg(2) in \<open>simp add: cells_def\<close>)
      ultimately show ?thesis
        using r node_starts_internal [OF D nok]
        by (simp add: TNode cells_def [symmetric] obind_def [of "op_err BPager _"] obind_def [of "olift _"] seek s_def [symmetric] g_def [symmetric]
            prim rest_def LEAF_def INTERNAL_def child_def [of 0] del: op_err_Inr)
    qed
    have none: "found D key (entries t) None" if "\<And>j. s \<le> j \<Longrightarrow> j \<le> g \<Longrightarrow> found D key (entries (child j)) None"
    proof -
      have all: "found D key (entries (child j)) None" if j: "j \<le> length cs" for j
        using excluded_child [OF sorted ovs key j] \<open>\<And>j. s \<le> j \<Longrightarrow> j \<le> g \<Longrightarrow> found D key (entries (child j)) None\<close>
        unfolding s_def g_def cells_def child_def by (meson linorder_not_less)
      have "found D key (entries c) None" if "c \<in> set (children l cs)" for c
        using that all unfolding child_def by (auto simp: in_set_conv_nth less_Suc_eq_le simp del: set_simps)
      then show ?thesis unfolding TNode node_entries_children by (auto simp: found_def)
    qed
    have some: "found D key (entries t) (Some v)" if "found D key (entries (child j)) (Some v)" "j \<le> length cs" for j v
    proof (rule found_Some_mono [OF that(1)])
      have "child j \<in> set (children l cs)" unfolding child_def using that(2) by (intro nth_mem) simp
      then show "set (entries (child j)) \<subseteq> set (entries t)" unfolding TNode node_entries_children by auto
    qed
    obtain r1 pg2 where 1: "get_at n D reader tx key (root_of (child g)) pg1 = (Inr r1, pg2)" "ok pg2" "found D key (entries (child g)) r1"
      using kid [OF sg(2) r(2)] by blast
    define left where "left = (if s = 0 \<and> g \<noteq> 0 then get_at n D reader tx key (root_of (child 0)) else oret None)"
    obtain r2 pg3 where 2: "left pg2 = (Inr r2, pg3)" "ok pg3" "s = 0 \<and> g \<noteq> 0 \<and> found D key (entries (child 0)) r2 \<or> \<not> (s = 0 \<and> g \<noteq> 0) \<and> r2 = None"
      using kid [of 0 pg2] 1(2) unfolding left_def by (cases "s = 0 \<and> g \<noteq> 0") auto
    have "\<exists>r pg'. rest (?off ! j) pg = (Inr r, pg') \<and> ok pg' \<and> found D key (entries (child (Suc j))) r"
      if j: "j \<in> set [s - 1..<g - 1]" and "ok pg" for j pg
    proof -
      have jl: "j < length cs" "Suc j \<le> length cs" "Suc j \<noteq> g" using j sg(2) by auto
      then have "rest (?off ! j) = get_at n D reader tx key (root_of (child (Suc j)))"
        using roots [OF jl(2) sg(2) jl(3)] by (simp add: rest_def cc fun_eq_iff obind_def)
      then show ?thesis using kid [OF jl(2) \<open>ok pg\<close>] by simp
    qed
    from first_some_ok [of "[s - 1..<g - 1]" rest "(!) ?off" "\<lambda>j r. found D key (entries (child (Suc j))) r", OF this 2(2)]
    obtain r3 pg4 where 3: "first_some rest (map ((!) ?off) [s - 1..<g - 1]) pg3 = (Inr r3, pg4)" "ok pg4"
        "case r3 of None \<Rightarrow> \<forall>j \<in> set [s - 1..<g - 1]. found D key (entries (child (Suc j))) None
         | Some v \<Rightarrow> \<exists>j \<in> set [s - 1..<g - 1]. found D key (entries (child (Suc j))) (Some v)" by blast
    have step: "get_at (Suc n) D reader tx key (root_of t) pg =
        (case r1 of Some v \<Rightarrow> (Inr (Some v), pg2) | None \<Rightarrow> (case r2 of Some v \<Rightarrow> (Inr (Some v), pg3) | None \<Rightarrow> (Inr r3, pg4)))"
      unfolding unfold left_def [symmetric] by (simp add: obind_def 1(1) 2(1) 3(1) del: One_nat_def split: option.split)
    have "found D key (entries t) None" if n: "r1 = None" "r2 = None" "r3 = None"
    proof (rule none)
      fix j assume j: "s \<le> j" "j \<le> g"
      consider "j = g" | "j = 0" "g \<noteq> 0" | i where "j = Suc i" "i \<in> set [s - 1..<g - 1]" using j by (cases j) force+
      then show "found D key (entries (child j)) None" by cases (use 1(3) 2(3) 3(3) n j in auto)
    qed
    then show ?thesis
      unfolding step using 1 2 3 some [of g] some [of 0] some [of "Suc _"] sg(2)
      by (auto split: option.splits)
  qed
qed simp

end

section \<open>The current state of a transaction as a reader\<close>

interpretation current: tree_reader Current t "\<lambda>pg. tx_ok (pg, t) \<and> tx_view (pg, t) = v" v for t v
  by unfold_locales (metis reader_page_current)

end
