(* ===== verification/Btree_Delete.thy ===== *)
theory Btree_Delete
  imports Btree_Search
begin

text \<open>
  Deletion. Both delete operations share one recursion and differ in the function that looks for the entry
  in a leaf; the locale \<open>leaf_matcher\<close> states what the recursion needs of it, and both matchers of the
  source are instances.
\<close>

section \<open>Leaf matchers\<close>

locale leaf_matcher =
  fixes D :: "'d decimal_ops"
    and key :: "'d Value"
    and leaf_match :: "'d entries \<Rightarrow> bool \<times> 'd entries"
    and wanted :: "'d Value \<times> u64 \<Rightarrow> bool"
  assumes wanted_equal: "wanted e \<Longrightarrow> cmp_values D (fst e) key = Equal"
    and hit: "ov D key \<Longrightarrow> ordered_entries D cs \<Longrightarrow> e \<in> set cs \<Longrightarrow> wanted e \<Longrightarrow>
      \<exists>a e b. cs = a @ e # b \<and> wanted e \<and> leaf_match cs = (True, a @ b)"
    and miss: "ov D key \<Longrightarrow> ordered_entries D cs \<Longrightarrow> \<forall>e \<in> set cs. \<not> wanted e \<Longrightarrow> leaf_match cs = (False, cs)"

lemma vec_remove_split: "i < length cs \<Longrightarrow> \<exists>a e b. cs = a @ e # b \<and> e = cs ! i \<and> vec_remove i cs = a @ b"
  by (metis id_take_nth_drop vec_remove_def)

text \<open>The equal keys of a leaf are the interval from \<open>seek_to False\<close> to \<open>seek_to True\<close>.\<close>

lemma equal_interval:
  assumes "ordered_entries D cs" and "ov D key" and "i < length cs"
  shows "cmp_values D (fst (cs ! i)) key = Greater \<longleftrightarrow> seek_to D key True cs \<le> i"
    and "cmp_values D (fst (cs ! i)) key = Equal \<longleftrightarrow> seek_to D key False cs \<le> i \<and> i < seek_to D key True cs"
proof -
  have s: "sorted_wrt (\<lambda>a b. le D (fst a) (fst b)) cs" and o: "\<And>c. c \<in> set cs \<Longrightarrow> ov D (fst c)"
    using assms(1) by (auto simp: ordered_entries_def)
  note nth = seek_to_nth [OF s o assms(2,3)]
  show "cmp_values D (fst (cs ! i)) key = Greater \<longleftrightarrow> seek_to D key True cs \<le> i"
    using nth [of True] by (auto simp: go_right_def not_less)
  show "cmp_values D (fst (cs ! i)) key = Equal \<longleftrightarrow> seek_to D key False cs \<le> i \<and> i < seek_to D key True cs"
    using nth [of True] nth [of False] by (cases "cmp_values D (fst (cs ! i)) key") (auto simp: go_right_def)
qed

lemma seek_to_le_length: "seek_to D key gt cs \<le> length cs"
  by (simp add: seek_to_def length_takeWhile_le)

lemma leaf_search:
  assumes "ordered_entries D cs" and "ov D key"
  shows "binary_search_by (\<lambda>(k, _). cmp_values D k key) cs =
    (let p = seek_to D key True cs
     in if p = 0 then Inl 0 else if cmp_values D (fst (cs ! (p - 1))) key = Equal then Inr (p - 1) else Inl p)"
  unfolding Let_def
  using binary_search_by_bound [of cs "\<lambda>(k, _). cmp_values D k key" "seek_to D key True cs"] equal_interval(1) [OF assms]
  by (simp add: seek_to_le_length case_prod_beta)

lemma leaf_search_hit:
  assumes "ordered_entries D cs" and "ov D key" and "e \<in> set cs" and "cmp_values D (fst e) key = Equal"
  shows "binary_search_by (\<lambda>(k, _). cmp_values D k key) cs = Inr (seek_to D key True cs - 1)"
    and "seek_to D key False cs < seek_to D key True cs"
proof -
  obtain i where i: "i < length cs" "e = cs ! i" using assms(3) by (auto simp: in_set_conv_nth)
  then have "seek_to D key False cs \<le> i" "i < seek_to D key True cs" using equal_interval(2) [OF assms(1,2) i(1)] assms(4) by auto
  then show lt: "seek_to D key False cs < seek_to D key True cs" by simp
  have "cmp_values D (fst (cs ! (seek_to D key True cs - 1))) key = Equal"
    using equal_interval(2) [OF assms(1,2), of "seek_to D key True cs - 1"] lt seek_to_le_length [of D key True cs] by simp
  then show "binary_search_by (\<lambda>(k, _). cmp_values D k key) cs = Inr (seek_to D key True cs - 1)"
    using leaf_search [OF assms(1,2)] lt by (simp add: Let_def)
qed

lemma leaf_search_miss:
  assumes "ordered_entries D cs" and "ov D key" and "\<forall>e \<in> set cs. cmp_values D (fst e) key \<noteq> Equal"
  shows "\<exists>p. binary_search_by (\<lambda>(k, _). cmp_values D k key) cs = Inl p"
proof -
  have "cmp_values D (fst (cs ! (seek_to D key True cs - 1))) key \<noteq> Equal" if "seek_to D key True cs \<noteq> 0"
    using assms(3) nth_mem [of "seek_to D key True cs - 1" cs] that seek_to_le_length [of D key True cs] by simp
  then show ?thesis using leaf_search [OF assms(1,2)] by (auto simp: Let_def)
qed

interpretation key_matcher: leaf_matcher D key "match_key D key" "\<lambda>e. cmp_values D (fst e) key = Equal" for D key
proof
  fix cs :: "'a entries" and e
  assume o: "ov D key" "ordered_entries D cs"
  show "match_key D key cs = (False, cs)" if "\<forall>e \<in> set cs. cmp_values D (fst e) key \<noteq> Equal"
    using leaf_search_miss [OF o(2,1) that] by (auto simp: match_key_def)
  assume e: "e \<in> set cs" "cmp_values D (fst e) key = Equal"
  define i where "i = seek_to D key True cs - 1"
  have i: "i < length cs" "cmp_values D (fst (cs ! i)) key = Equal"
    using leaf_search_hit(2) [OF o(2,1) e] seek_to_le_length [of D key True cs] equal_interval(2) [OF o(2,1), of i] by (auto simp: i_def)
  obtain a x b where "cs = a @ x # b" "x = cs ! i" "vec_remove i cs = a @ b" using vec_remove_split [OF i(1)] by blast
  then show "\<exists>a e b. cs = a @ e # b \<and> cmp_values D (fst e) key = Equal \<and> match_key D key cs = (True, a @ b)"
    using leaf_search_hit(1) [OF o(2,1) e] i(2) by (intro exI [of _ a] exI [of _ x] exI [of _ b]) (simp add: match_key_def i_def)
qed

lemma run_start_eq:
  assumes "ordered_entries D cs" and "ov D key"
  shows "seek_to D key False cs \<le> i \<Longrightarrow> i < seek_to D key True cs \<Longrightarrow> run_start D key cs i = seek_to D key False cs"
proof (induction i)
  case (Suc i)
  have "i < length cs" using Suc.prems(2) seek_to_le_length [of D key True cs] by simp
  then show ?case using Suc equal_interval(2) [OF assms, of i] by (auto simp: le_Suc_eq)
qed simp

lemma run_find_spec:
  assumes "ordered_entries D cs" and "ov D key"
  shows "seek_to D key False cs \<le> j \<Longrightarrow> (case run_find D key loc cs j of
      Some m \<Rightarrow> j \<le> m \<and> m < seek_to D key True cs \<and> snd (cs ! m) = loc
    | None \<Rightarrow> \<forall>m. j \<le> m \<longrightarrow> m < seek_to D key True cs \<longrightarrow> snd (cs ! m) \<noteq> loc)"
proof (induction "length cs - j" arbitrary: j rule: less_induct)
  case less
  have run: "j < length cs \<and> cmp_values D (fst (cs ! j)) key = Equal \<longleftrightarrow> j < seek_to D key True cs"
    using equal_interval(2) [OF assms, of j] less.prems seek_to_le_length [of D key True cs] by auto
  show ?case
  proof (cases "j < seek_to D key True cs \<and> snd (cs ! j) \<noteq> loc")
    case True
    then have e: "run_find D key loc cs j = run_find D key loc cs (j + 1)" using run by (subst run_find.simps) simp
    have "length cs - (j + 1) < length cs - j" using True seek_to_le_length [of D key True cs] by linarith
    note ih = less.hyps [OF this]
    show ?thesis
    proof (cases "run_find D key loc cs (j + 1)")
      case None
      have "snd (cs ! m) \<noteq> loc" if "j \<le> m" "m < seek_to D key True cs" for m
        using ih less.prems None True that by (cases "m = j") auto
      then show ?thesis using None e by simp
    qed (use ih less.prems e in auto)
  next
    case False
    then show ?thesis using run by (subst run_find.simps) (auto split: option.splits)
  qed
qed

interpretation entry_matcher: leaf_matcher D key "match_entry D key loc" "\<lambda>e. cmp_values D (fst e) key = Equal \<and> snd e = loc" for D key loc
proof
  fix cs :: "'a entries" and e
  assume o: "ov D key" "ordered_entries D cs"
  define lo where "lo = seek_to D key False cs"
  define hi where "hi = seek_to D key True cs"
  have hl: "hi \<le> length cs" by (simp add: hi_def seek_to_le_length)
  have me: "match_entry D key loc cs = (case run_find D key loc cs lo of Some j \<Rightarrow> (True, vec_remove j cs) | None \<Rightarrow> (False, cs))"
    if "x \<in> set cs" "cmp_values D (fst x) key = Equal" for x
    using leaf_search_hit [OF o(2,1) that] run_start_eq [OF o(2,1), of "hi - 1"] by (simp add: match_entry_def lo_def hi_def)
  note rf = run_find_spec [OF o(2,1), of lo loc, folded hi_def] and eq = equal_interval(2) [OF o(2,1), folded lo_def hi_def]
  show "match_entry D key loc cs = (False, cs)" if none: "\<forall>e \<in> set cs. \<not> (cmp_values D (fst e) key = Equal \<and> snd e = loc)"
  proof (cases "\<exists>x \<in> set cs. cmp_values D (fst x) key = Equal")
    case True
    have "run_find D key loc cs lo = None"
    proof (cases "run_find D key loc cs lo")
      case (Some m)
      then have "m < length cs" "lo \<le> m" "m < hi" "snd (cs ! m) = loc" using rf hl by (auto simp: lo_def)
      then show ?thesis using none eq [of m] nth_mem [of m cs] by auto
    qed
    then show ?thesis using True me by auto
  next
    case False
    then show ?thesis using leaf_search_miss [OF o(2,1)] by (auto simp: match_entry_def)
  qed
  assume e: "e \<in> set cs" "cmp_values D (fst e) key = Equal \<and> snd e = loc"
  obtain i where i: "i < length cs" "e = cs ! i" using e(1) by (auto simp: in_set_conv_nth)
  then have "lo \<le> i" "i < hi" using eq [OF i(1)] e(2) by auto
  then obtain m where m: "run_find D key loc cs lo = Some m" "lo \<le> m" "m < hi" "snd (cs ! m) = loc"
    using rf e(2) i(2) by (auto simp: lo_def split: option.splits)
  then have ml: "m < length cs" "cmp_values D (fst (cs ! m)) key = Equal" using hl eq [of m] by auto
  obtain a x b where "cs = a @ x # b" "x = cs ! m" "vec_remove m cs = a @ b" using vec_remove_split [OF ml(1)] by blast
  then show "\<exists>a e b. cs = a @ e # b \<and> (cmp_values D (fst e) key = Equal \<and> snd e = loc) \<and> match_entry D key loc cs = (True, a @ b)"
    using me [of e] e m(1,4) ml(2) by (intro exI [of _ a] exI [of _ x] exI [of _ b]) simp
qed simp

section \<open>Candidate children\<close>

lemma trees_of_roots:
  "\<forall>x \<in> set xs. \<exists>t \<in> T. x = root_of t \<Longrightarrow> \<exists>ts. xs = map root_of ts \<and> set ts \<subseteq> T"
proof (induction xs)
  case (Cons x xs)
  then obtain ts t where "xs = map root_of ts" "set ts \<subseteq> T" "t \<in> T" "x = root_of t" by auto
  then show ?case by (intro exI [of _ "t # ts"]) simp
qed simp

lemma bracketing_mem:
  assumes "i < length cs" and "snd (cs ! i) \<noteq> primary" and "cmp_values D (fst (cs ! i)) key \<noteq> Greater"
    and "i + 1 < length cs \<Longrightarrow> cmp_values D (fst (cs ! (i + 1))) key \<noteq> Less"
  shows "snd (cs ! i) \<in> set (bracketing D key primary cs)"
  using assms
proof (induction cs arbitrary: i)
  case (Cons c cs)
  obtain k child where c: "c = (k, child)" by (cases c)
  show ?case
  proof (cases i)
    case 0
    then show ?thesis using Cons.prems by (cases cs) (auto simp: c)
  next
    case (Suc j)
    then show ?thesis using Cons.IH [of j] Cons.prems by (auto simp: c)
  qed
qed simp

lemma bracketing_sub: "set (bracketing D key primary cs) \<subseteq> snd ` set cs"
  by (induction D key primary cs rule: bracketing.induct) (auto simp: Let_def)

text \<open>The candidates are children of the node, and among them every child the separators do not exclude.\<close>

lemma candidate_children_trees:
  assumes D: "decimal_laws D" and sorted: "sorted_wrt (item_le D) (trace l @ kids cs)" and ovs: "\<And>x. x \<in> set (trace l @ kids cs) \<Longrightarrow> ov D (ikey x)"
    and key: "ov D key" and dist: "distinct (pages (TNode i l cs))"
  obtains ts where "candidate_children D (child_cells cs) (root_of l) key = map root_of ts" and "set ts \<subseteq> set (children l cs)"
    and "\<And>c. c \<in> set (children l cs) \<Longrightarrow> c \<notin> set ts \<Longrightarrow> found D key (entries c) None"
proof -
  define cells where "cells = child_cells cs"
  define s where "s = seek_to D key False cells"
  define g where "g = seek_to D key True cells"
  have len: "length cells = length cs" by (simp add: cells_def)
  have ovc: "ov D (fst c)" if c: "c \<in> set cells" for c
  proof -
    obtain d where "d \<in> set cs" "fst c = fst d" using c by (auto simp: cells_def)
    then show ?thesis using ovs [of "Sep (fst d)"] by auto
  qed
  have so: "sorted_wrt (\<lambda>a b. le D (fst a) (fst b)) cells" using seps_le_sorted [OF sorted] by (simp add: cells_def)
  note nth = seek_to_nth [OF so ovc key]
  have gl: "g \<le> length cs" using seek_to_le_length [of D key True cells] by (simp add: g_def len)
  have lt: "cmp_values D (fst (cells ! j)) key = Less \<longleftrightarrow> j < s" if "j < length cs" for j
    using nth [of j False] that by (simp add: len s_def go_right_def)
  have gt: "cmp_values D (fst (cells ! j)) key = Greater \<longleftrightarrow> g \<le> j" if "j < length cs" for j
    using nth [of j True] that by (auto simp: len g_def go_right_def)
  have pp: "partition_point (\<lambda>(k, _). cmp_values D k key \<noteq> Greater) cells = g"
    by (rule partition_point_bound) (use gt gl in \<open>auto simp: len case_prod_beta not_le [symmetric]\<close>)
  have prim: "descend D cells (root_of l) key = root_of (children l cs ! g)"
    unfolding descend_def pp Let_def using gl by (cases g) (auto simp: cells_def)
  define cand where "cand = candidate_children D cells (root_of l) key"
  have mem: "root_of (children l cs ! j) \<in> set cand" if j: "s \<le> j" "j \<le> g" for j
  proof (cases "j = g")
    case True
    then show ?thesis by (simp add: cand_def candidate_children_def prim Let_def)
  next
    case ne: False
    have neq: "root_of (children l cs ! j) \<noteq> root_of (children l cs ! g)"
      using children_roots [OF dist _ gl, of j] j gl ne by simp
    show ?thesis
    proof (cases j)
      case 0
      then have "case cells of (k, _) # _ \<Rightarrow> cmp_values D k key \<noteq> Less | [] \<Rightarrow> True"
        using lt [of 0] j by (cases cells) (auto simp: cells_def)
      then show ?thesis using 0 neq by (simp add: cand_def candidate_children_def prim Let_def)
    next
      case (Suc m)
      have m: "m < length cells" "snd (cells ! m) = root_of (children l cs ! j)" using Suc j gl by (auto simp: cells_def)
      have "snd (cells ! m) \<in> set (bracketing D key (root_of (children l cs ! g)) cells)"
        by (rule bracketing_mem [OF m(1)]) (use m(2) neq gt [of m] lt [of "m + 1"] j Suc gl in \<open>auto simp: len\<close>)
      then show ?thesis unfolding m(2) by (simp add: cand_def candidate_children_def prim Let_def)
    qed
  qed
  have "\<exists>t \<in> set (children l cs). x = root_of t" if "x \<in> set cand" for x
  proof -
    have c: "children l cs ! g \<in> set (children l cs)" using gl by (intro nth_mem) simp
    have "set cand \<subseteq> {root_of (children l cs ! g), root_of l} \<union> snd ` set cells"
      using bracketing_sub [of D key "root_of (children l cs ! g)" cells]
      unfolding cand_def candidate_children_def Let_def prim by auto
    moreover have "snd ` set cells = root_of ` snd ` set cs" by (auto simp: cells_def image_image)
    ultimately have "x \<in> {root_of (children l cs ! g), root_of l} \<union> root_of ` snd ` set cs" using that by (simp only: subsetD)
    then have "x \<in> root_of ` set (children l cs)" using c by auto
    then show ?thesis by blast
  qed
  then obtain ts where ts: "cand = map root_of ts" "set ts \<subseteq> set (children l cs)" using trees_of_roots by metis
  moreover have "found D key (entries c) None" if c: "c \<in> set (children l cs)" "c \<notin> set ts" for c
  proof -
    obtain j where j: "j \<le> length cs" "c = children l cs ! j" using c(1) by (auto simp: in_set_conv_nth less_Suc_eq_le simp del: set_simps)
    have "\<not> (s \<le> j \<and> j \<le> g)"
    proof
      assume "s \<le> j \<and> j \<le> g"
      then obtain t where t: "t \<in> set ts" "root_of t = root_of c" using mem [of j] j(2) ts(1) by auto
      have "t \<in> set (children l cs)" using t(1) ts(2) by blast
      then obtain k where k: "k \<le> length cs" "t = children l cs ! k" by (auto simp: in_set_conv_nth less_Suc_eq_le simp del: set_simps)
      then have "k = j" using children_roots [OF dist k(1) j(1)] t(2) j(2) by auto
      then show False using t(1) k(2) j(2) c(2) by simp
    qed
    then show ?thesis using excluded_child [OF sorted ovs key j(1)] j(2) unfolding s_def g_def cells_def by auto
  qed
  ultimately show ?thesis using that unfolding cand_def cells_def by blast
qed

section \<open>The recursion\<close>

text \<open>The children up to cell \<open>j\<close> as seen by \<open>picked\<close>.\<close>

lemma picked_child: "j \<le> length cs \<Longrightarrow> picked l (take j cs) = children l cs ! j"
  by (cases j) (auto simp: picked_def take_Suc_conv_app_nth)

text \<open>\<open>t'\<close> is \<open>t\<close> with one wanted entry removed, on the same pages.\<close>

definition removed ::
    "'d decimal_ops \<Rightarrow> ('d Value \<times> u64 \<Rightarrow> bool) \<Rightarrow> (page_id \<Rightarrow> bytes option) \<Rightarrow> (page_id \<Rightarrow> bytes option) \<Rightarrow> 'd tree \<Rightarrow> 'd tree \<Rightarrow> bool" where
  "removed D wanted v v' t t' \<longleftrightarrow>
     root_of t' = root_of t \<and> pages t' = pages t \<and> height t' = height t \<and> stored D v' t' \<and>
     (\<exists>a k w b. trace t = a @ Key k w # b \<and> wanted (k, w) \<and> trace t' = a @ b) \<and> (\<forall>j. j \<notin> set (pages t) \<longrightarrow> v' j = v j)"

context leaf_matcher
begin

lemma leaf_removed:
  assumes st: "stored D v (TLeaf i (a @ e # b))" and w: "wanted e" and v': "v' = v(i \<mapsto> node_image D (Leaf (a @ b)))"
  shows "node_ok D (Leaf (a @ b))" and "removed D wanted v v' (TLeaf i (a @ e # b)) (TLeaf i (a @ b))"
proof -
  show ok: "node_ok D (Leaf (a @ b))" using st by (auto simp: node_ok_def)
  have "trace (TLeaf i (a @ e # b)) = map (\<lambda>(k, v). Key k v) a @ Key (fst e) (snd e) # map (\<lambda>(k, v). Key k v) b"
    by (simp add: case_prod_beta)
  then show "removed D wanted v v' (TLeaf i (a @ e # b)) (TLeaf i (a @ b))"
    using ok w unfolding removed_def v'
    by (intro conjI exI [of _ "map (\<lambda>(k, v). Key k v) a"] exI [of _ "fst e"] exI [of _ "snd e"] exI [of _ "map (\<lambda>(k, v). Key k v) b"]) auto
qed

lemma node_removed:
  assumes st: "stored D v (TNode i l cs)" and dist: "distinct (pages (TNode i l cs))"
    and c: "c \<in> set (children l cs)" and r: "removed D wanted v v' c c'"
  obtains t' where "removed D wanted v v' (TNode i l cs) t'"
proof -
  obtain j where j: "j \<le> length cs" "c = children l cs ! j" using c by (auto simp: in_set_conv_nth less_Suc_eq_le simp del: set_simps)
  define A where "A = take j cs"
  define B where "B = drop j cs"
  have cs: "cs = A @ B" by (simp add: A_def B_def)
  have pc: "picked l A = c" using picked_child [OF j(1)] j(2) by (simp add: A_def)
  obtain a k w b where abc: "trace c = a @ Key k w # b" "wanted (k, w)" "trace c' = a @ b" using r by (auto simp: removed_def)
  define l' where "l' = swap_l l A c'"
  define cs' where "cs' = swap_cs A c' @ B"
  have roots: "root_of l' = root_of l" "child_cells cs' = child_cells cs"
    using swap_roots [of c' l A] r pc by (simp_all add: removed_def l'_def cs'_def cs)
  have tr: "trace (TNode i l' cs') = before l A @ trace c' @ kids B" using swap_trace [of l A c'] by (simp add: l'_def cs'_def)
  have tr0: "trace (TNode i l cs) = before l A @ trace c @ kids B" by (simp only: cs node_trace pc)
  have pg0: "pages (TNode i l cs) = i # concat (map pages (kept l A)) @ pages c @ kid_pages B" by (simp only: cs node_pages pc)
  have pg: "pages (TNode i l' cs') = i # concat (map pages (kept l A)) @ pages c' @ kid_pages B" using swap_pages [of l A c'] by (simp add: l'_def cs'_def)
  have trees': "Set.insert l' (snd ` set cs') = Set.insert c' (set (kept l A) \<union> snd ` set B)"
    using swap_trees [of l A c'] by (auto simp: l'_def cs'_def)
  have trees: "Set.insert l (snd ` set cs) = Set.insert c (set (kept l A) \<union> snd ` set B)"
    using node_trees [of l A] pc by (auto simp: cs)
  have heights: "height ` Set.insert l' (snd ` set cs') = height ` Set.insert l (snd ` set cs)"
    unfolding trees trees' using r by (simp add: removed_def)
  have frame: "v' j = v j" if "j \<notin> set (pages c)" for j using r that by (simp add: removed_def)
  have "stored D v' t" if t: "t \<in> set (kept l A) \<union> snd ` set B" for t
  proof (rule stored_cong)
    have "t \<in> Set.insert l (snd ` set cs)" unfolding trees using t by (rule insertI2)
    then show "stored D v t" using st by auto
    show "v' j = v j" if "j \<in> set (pages t)" for j
    proof (rule frame)
      have "j \<in> set (concat (map pages (kept l A))) \<or> j \<in> set (kid_pages B)" using t that by auto
      then show "j \<notin> set (pages c)" using dist unfolding pg0 by auto
    qed
  qed
  moreover have "stored D v' c'" using r by (simp add: removed_def)
  ultimately have sts: "stored D v' t" if "t \<in> Set.insert l' (snd ` set cs')" for t
    using that unfolding trees' by blast
  have "v' i = v i" using frame dist unfolding pg0 by auto
  then have "stored D v' (TNode i l' cs')" using st roots sts by auto
  moreover have "height (TNode i l' cs') = height (TNode i l cs)"
    using heights by (simp add: image_image)
  moreover have "removed D wanted v v' (TNode i l cs) (TNode i l' cs')" if "stored D v' (TNode i l' cs')" "height (TNode i l' cs') = height (TNode i l cs)"
    unfolding removed_def tr tr0 pg pg0 using that frame r abc
    by (intro conjI exI [of _ "before l A @ a"] exI [of _ k] exI [of _ w] exI [of _ "b @ kids B"]) (auto simp: removed_def)
  ultimately show ?thesis using that by blast
qed

lemma first_true_ok:
  assumes "\<And>c s. c \<in> set ts \<Longrightarrow> tx_ok s \<Longrightarrow> tx_view s = v \<Longrightarrow> tx_room 0 s \<Longrightarrow>
    \<exists>r s'. f (root_of c) s = (Inr r, s') \<and> tx_ok s' \<and> tx_room 0 s' \<and> (if r then \<exists>c'. removed D wanted v (tx_view s') c c' else tx_view s' = v \<and> (\<forall>e \<in> set (entries c). \<not> wanted e))"
  shows "tx_ok s \<Longrightarrow> tx_view s = v \<Longrightarrow> tx_room 0 s \<Longrightarrow> \<exists>r s'. first_true f (map root_of ts) s = (Inr r, s') \<and> tx_ok s' \<and> tx_room 0 s' \<and>
    (if r then \<exists>c \<in> set ts. \<exists>c'. removed D wanted v (tx_view s') c c' else tx_view s' = v \<and> (\<forall>c \<in> set ts. \<forall>e \<in> set (entries c). \<not> wanted e))"
  using assms
proof (induction ts arbitrary: s)
  case (Cons c ts)
  obtain r s1 where 1: "f (root_of c) s = (Inr r, s1)" "tx_ok s1" "tx_room 0 s1"
      "if r then \<exists>c'. removed D wanted v (tx_view s1) c c' else tx_view s1 = v \<and> (\<forall>e \<in> set (entries c). \<not> wanted e)"
    using Cons.prems(4) [of c s] Cons.prems(1-3) by auto
  show ?case
  proof (cases r)
    case True
    then show ?thesis using 1 by (auto simp: obind_def)
  next
    case False
    obtain r' s2 where 2: "first_true f (map root_of ts) s1 = (Inr r', s2)" "tx_ok s2" "tx_room 0 s2"
        "if r' then \<exists>c \<in> set ts. \<exists>c'. removed D wanted v (tx_view s2) c c' else tx_view s2 = v \<and> (\<forall>c \<in> set ts. \<forall>e \<in> set (entries c). \<not> wanted e)"
    proof (atomize_elim, rule Cons.IH)
      show "tx_ok s1" "tx_room 0 s1" "tx_view s1 = v" using 1 False by simp_all
    qed (rule Cons.prems(4), simp_all)
    then show ?thesis using 1 False by (cases r') (auto simp: obind_def)
  qed
qed auto

text \<open>One call on a stored tree: the answer says whether a wanted entry was there, and if so one of them is gone.\<close>

definition outcome :: "(page_id \<Rightarrow> bytes option) \<Rightarrow> 'd tree \<Rightarrow> bool \<Rightarrow> pager \<times> tx \<Rightarrow> bool" where
  "outcome v t r s' \<longleftrightarrow> tx_ok s' \<and> tx_room 0 s' \<and>
     (if r then \<exists>t'. removed D wanted v (tx_view s') t t' else tx_view s' = v \<and> (\<forall>e \<in> set (entries t). \<not> wanted e))"

lemma delete_rec_ok:
  assumes D: "decimal_laws D" and key: "ov D key"
  shows "tx_ok s \<Longrightarrow> tx_view s = v \<Longrightarrow> tx_room 0 s \<Longrightarrow> index_tree D v t \<Longrightarrow> height t < n \<Longrightarrow>
    \<exists>r s'. delete_rec n D key leaf_match (root_of t) s = (Inr r, s') \<and> outcome v t r s'"
proof (induction n arbitrary: t s)
  case (Suc n)
  have t: "stored D v t" "distinct (pages t)" "in_order D t" using Suc.prems(4) by (simp_all add: index_tree_def)
  have root: "tx_view s (root_of t) = Some (node_image D (node_of t))" "node_ok D (node_of t)"
    using stored_page [OF t(1)] Suc.prems(2) by simp_all
  obtain s1 where r: "read_node_tx D (root_of t) s = (Inr (node_of t), s1)" "tx_ok s1" "tx_view s1 = v" "tx_room 0 s1"
    using read_node_step [OF D Suc.prems(1) root Suc.prems(3)] Suc.prems(2) by metis
  show ?case
  proof (cases t)
    case (TLeaf i cs)
    have oe: "ordered_entries D cs" using entries_ordered [OF D t(1,3)] TLeaf by simp
    show ?thesis
    proof (cases "\<exists>e \<in> set cs. wanted e")
      case True
      then obtain a e b where m: "cs = a @ e # b" "wanted e" "leaf_match cs = (True, a @ b)" using hit [OF key oe] by blast
      have st: "stored D v (TLeaf i (a @ e # b))" using t(1) TLeaf m(1) by simp
      note lr = leaf_removed [OF st m(2) refl]
      have "tx_view s1 i = Some (node_image D (Leaf cs))" using root(1) r(3) Suc.prems(2) TLeaf by simp
      then obtain s2 where w: "write_node D i (Leaf (a @ b)) s1 = (Inr (), s2)" "tx_ok s2" "tx_view s2 = v(i \<mapsto> node_image D (Leaf (a @ b)))" "tx_room 0 s2"
        using write_node_step [OF r(2) _ lr(1) r(4)] r(3) by metis
      have "delete_rec (Suc n) D key leaf_match (root_of t) s = (Inr True, s2)"
        using r(1) m(3) w(1) TLeaf by (simp add: obind_def)
      then show ?thesis using w lr(2) TLeaf m(1) by (auto simp: outcome_def)
    next
      case False
      then have "delete_rec (Suc n) D key leaf_match (root_of t) s = (Inr False, s1)"
        using r(1) miss [OF key oe] TLeaf by (simp add: obind_def)
      then show ?thesis using r False TLeaf by (auto simp: outcome_def)
    qed
  next
    case (TNode i l cs)
    have sorted: "sorted_wrt (item_le D) (trace l @ kids cs)" using t(3) TNode by (simp add: in_order_def)
    have ovs: "ov D (ikey x)" if "x \<in> set (trace l @ kids cs)" for x using tree_ov [OF D t(1)] that TNode by simp
    have dist: "distinct (pages (TNode i l cs))" using t(2) TNode by simp
    obtain ts where ts: "candidate_children D (child_cells cs) (root_of l) key = map root_of ts" "set ts \<subseteq> set (children l cs)"
        "\<And>c. c \<in> set (children l cs) \<Longrightarrow> c \<notin> set ts \<Longrightarrow> found D key (entries c) None"
      using candidate_children_trees [OF D sorted ovs key dist] by blast
    have kid: "\<exists>r s'. delete_rec n D key leaf_match (root_of c) s = (Inr r, s') \<and> outcome v c r s'"
      if "c \<in> set ts" "tx_ok s" "tx_view s = v" "tx_room 0 s" for c s
    proof -
      have c: "c \<in> set (children l cs)" using that(1) ts(2) by blast
      then have "distinct (pages c)" "stored D v c" "height c < n"
        using t(1,2) Suc.prems(5) height_child(1) [of l i cs] height_child(2) [of _ cs i l] unfolding TNode by (fastforce simp: distinct_concat_iff)+
      then show ?thesis using Suc.IH [OF that(2-4)] in_order_kid [OF sorted c] by (simp add: index_tree_def)
    qed
    obtain r' s2 where 2: "first_true (delete_rec n D key leaf_match) (map root_of ts) s1 = (Inr r', s2)" "tx_ok s2" "tx_room 0 s2"
        "if r' then \<exists>c \<in> set ts. \<exists>c'. removed D wanted v (tx_view s2) c c' else tx_view s2 = v \<and> (\<forall>c \<in> set ts. \<forall>e \<in> set (entries c). \<not> wanted e)"
      using first_true_ok [of ts v "delete_rec n D key leaf_match", OF kid [unfolded outcome_def] r(2-4)] by blast
    have "delete_rec (Suc n) D key leaf_match (root_of t) s = (Inr r', s2)"
      using r(1) 2(1) ts(1) TNode by (simp add: obind_def)
    moreover have "outcome v t r' s2"
    proof (cases r')
      case True
      then obtain c c' where c: "c \<in> set ts" "removed D wanted v (tx_view s2) c c'" using 2(4) by auto
      obtain t' where "removed D wanted v (tx_view s2) (TNode i l cs) t'"
        using node_removed [OF t(1) [unfolded TNode] dist _ c(2)] c(1) ts(2) by blast
      then show ?thesis using True 2 TNode by (auto simp: outcome_def)
    next
      case False
      have "\<not> wanted e" if "c \<in> set (children l cs)" "e \<in> set (entries c)" for c e
        using 2(4) False ts(3) [OF that(1)] wanted_equal [of e] that(2) by (cases "c \<in> set ts") (auto simp: found_def)
      then show ?thesis using 2 False TNode by (auto simp: outcome_def)
    qed
    ultimately show ?thesis by blast
  qed
qed simp

lemma delete_ok:
  assumes D: "decimal_laws D" and key: "ov D key" and s: "tx_ok s" "tx_room 0 s"
    and t: "index_tree D (tx_view s) t" "height t \<le> MAX_TREE_DEPTH"
  obtains s' where "\<forall>e \<in> set (entries t). \<not> wanted e" and "delete_rec (MAX_TREE_DEPTH + 1) D key leaf_match (root_of t) s = (Inr False, s')"
    and "tx_ok s'" and "tx_view s' = tx_view s"
  | s' t' a e b where "delete_rec (MAX_TREE_DEPTH + 1) D key leaf_match (root_of t) s = (Inr True, s')" and "tx_ok s'"
    and "index_tree D (tx_view s') t'" and "root_of t' = root_of t"
    and "entries t = a @ e # b" and "wanted e" and "entries t' = a @ b"
    and "\<And>j. j \<notin> set (pages t) \<Longrightarrow> tx_view s' j = tx_view s j"
proof -
  obtain r s' where r: "delete_rec (MAX_TREE_DEPTH + 1) D key leaf_match (root_of t) s = (Inr r, s')" "outcome (tx_view s) t r s'"
    using delete_rec_ok [OF D key s(1) refl s(2) t(1), of "MAX_TREE_DEPTH + 1"] t(2) by auto
  show ?thesis
  proof (cases r)
    case False
    then show ?thesis using that(1) r by (simp add: outcome_def)
  next
    case True
    then obtain t' where t': "removed D wanted (tx_view s) (tx_view s') t t'" using r(2) by (auto simp: outcome_def)
    obtain a k w b where abc: "trace t = a @ Key k w # b" "wanted (k, w)" "trace t' = a @ b" using t' by (auto simp: removed_def)
    have "in_order D t'" using t(1) abc by (auto simp: index_tree_def in_order_def sorted_wrt_append)
    then have "index_tree D (tx_view s') t'" using t' t(1) by (simp add: index_tree_def removed_def)
    moreover have "entries t = keys_of a @ (k, w) # keys_of b" "entries t' = keys_of a @ keys_of b" by (simp_all add: entries_def abc)
    ultimately show ?thesis using that(2) r t' abc(2) True by (simp add: outcome_def removed_def)
  qed
qed

end

end
