(* ===== verification/Btree_Prefix.thy ===== *)
theory Btree_Prefix
  imports Btree_Delete
begin

text \<open>
  Prefix scans. The keys that start with a given prefix are contiguous in the order of the index and
  begin at the prefix itself, so the early stop of the walk loses nothing.
\<close>

lemma prefix_not_less: "has_prefix D (Array items) pfx \<Longrightarrow> cmp_items D items pfx \<noteq> Less"
  by (induction items arbitrary: pfx) (case_tac pfx; auto simp: Let_def)+

text \<open>Between the prefix and a list that starts with it, every list starts with it.\<close>

lemma prefix_between:
  assumes "list_all (ov D) pfx" and "list_all (ov D) xs" and "list_all (ov D) ys"
    and "cmp_items D xs pfx \<noteq> Less" and "cmp_items D xs ys \<noteq> Greater" and "has_prefix D (Array ys) pfx"
  shows "has_prefix D (Array xs) pfx"
  using assms
proof (induction xs arbitrary: ys pfx)
  case Nil
  then show ?case by (cases pfx) auto
next
  case (Cons x xs)
  show ?case
  proof (cases pfx)
    case (Cons p ps)
    then obtain y ys' where ys: "ys = y # ys'" using Cons.prems(6) by (cases ys) auto
    have o: "ov D x" "ov D y" "ov D p" using Cons.prems(1-3) Cons ys by auto
    have yp: "cmp_values D y p = Equal" using Cons.prems(6) Cons ys by simp
    have "cmp_values D x y \<noteq> Greater" using Cons.prems(5) ys by (auto simp: Let_def split: if_splits)
    then have "cmp_values D x p \<noteq> Greater" using ov_trans [OF o] yp by simp
    moreover have "cmp_values D x p \<noteq> Less" using Cons.prems(4) Cons by (auto simp: Let_def split: if_splits)
    ultimately have xp: "cmp_values D x p = Equal" by (cases "cmp_values D x p") auto
    then have xy: "cmp_values D x y = Equal"
      using ov_trans [OF o(2,3,1)] value_order.cmp_swap [OF o(1,3)] value_order.cmp_swap [OF o(2,1)] yp \<open>cmp_values D x y \<noteq> Greater\<close>
      by (cases "cmp_values D x y"; cases "cmp_values D y x") auto
    have "has_prefix D (Array xs) ps"
      by (rule Cons.IH [of ps ys']) (use Cons.prems Cons ys xp xy in \<open>auto simp: Let_def\<close>)
    then show ?thesis using xp Cons by simp
  qed simp
qed

lemma rank_of_prefix: "has_prefix D k pfx \<Longrightarrow> \<exists>items. k = Array items"
  by (cases k) auto

lemma ov_Array: "ov D (Array xs) \<longleftrightarrow> decimal_laws D \<and> list_all (ov D) xs"
  by (auto simp: ordered_value_def list_all_iff)

lemma cmp_to_rank: "cmp_values D a b \<noteq> Greater \<Longrightarrow> rank a \<le> rank b"
  by (cases "rank a = rank b") (auto simp: cmp_values_rank cmp_of_def split: if_splits)

lemma has_prefix_between:
  assumes "ov D a" and "ov D b" and "ov D (Array pfx)"
    and "cmp_values D a (Array pfx) \<noteq> Less" and "le D a b" and "has_prefix D b pfx"
  shows "has_prefix D a pfx"
proof -
  obtain ys where b: "b = Array ys" using rank_of_prefix [OF assms(6)] by blast
  have "cmp_values D (Array pfx) a \<noteq> Greater" using value_order.cmp_swap [OF assms(3,1)] assms(4) by (cases "cmp_values D a (Array pfx)") auto
  then have "rank a = 6" using cmp_to_rank [of D a b] cmp_to_rank [of D "Array pfx" a] assms(5) b by (simp add: le_def)
  then obtain xs where a: "a = Array xs" by (cases a) auto
  show ?thesis
    using prefix_between [of D pfx xs ys] assms a b by (auto simp: le_def ov_Array cmp_values_same_band)
qed

text \<open>What the walk returns before any limit.\<close>

lemma prefix_walk:
  assumes "ordered_entries D es" and "ov D (Array pfx)"
  shows "takeWhile (\<lambda>e. has_prefix D (fst e) pfx) (filter (in_range D (Array pfx) True None) es) =
    filter (\<lambda>e. has_prefix D (fst e) pfx) es"
  using assms(1)
proof (induction es)
  case (Cons e es)
  have e: "ov D (fst e)" "ordered_entries D es" using Cons.prems by (auto simp: ordered_entries_Cons)
  have ir: "in_range D (Array pfx) True None e \<longleftrightarrow> cmp_values D (fst e) (Array pfx) \<noteq> Less"
    by (simp add: in_range_def beyond_hi_def below_def)
  have pre: "cmp_values D (fst e) (Array pfx) \<noteq> Less" if p: "has_prefix D (fst e) pfx"
  proof -
    obtain items where "fst e = Array items" using rank_of_prefix [OF p] by blast
    then show ?thesis using prefix_not_less [of D items pfx] p by (simp add: cmp_values_same_band)
  qed
  have none: "filter (\<lambda>e. has_prefix D (fst e) pfx) es = []" if "cmp_values D (fst e) (Array pfx) \<noteq> Less" "\<not> has_prefix D (fst e) pfx"
    using has_prefix_between [OF e(1) _ assms(2) that(1)] that(2) Cons.prems
    by (auto simp: filter_empty_conv ordered_entries_def)
  then show ?case using Cons.IH [OF e(2)] pre ir by (cases "has_prefix D (fst e) pfx") auto
qed simp

end
