(* ===== verification/Index_Properties.thy ===== *)
theory Index_Properties
  imports Btree_Prefix Decimal_Model
begin

text \<open>
  The properties of the B-tree index. The pages of a transaction hold a tree when \<open>index_tree\<close> is true of
  its view: every node is serialized on its page, no page is used twice, and keys and separators are
  in order. \<open>unique_tree\<close> adds that no run of equal keys spans a separator (always so in a unique
  index). The abstract index is the list \<open>entries t\<close> of key and locator pairs in key order.
\<close>

section \<open>A concrete index\<close>

definition ex_tree :: "ex_decimal tree" where
  "ex_tree = TNode 3 (TLeaf 1 [(Int64 2, 20), (Int64 4, 40)]) [(Int64 6, TLeaf 2 [(Int64 6, 60), (Int64 8, 80), (Array [Int64 1, Int64 2], 12)])]"

definition ex_index :: "pager \<times> tx" where
  "ex_index =
     (fresh_pager (encode_header 4) (fresh_wal HEADER 1 0 []) 4 [],
      \<lparr>tx_id = 1,
       staged = [(1, node_image ex_dec (Leaf [(Int64 2, 20), (Int64 4, 40)])),
                 (2, node_image ex_dec (Leaf [(Int64 6, 60), (Int64 8, 80), (Array [Int64 1, Int64 2], 12)])),
                 (3, node_image ex_dec (Internal 1 [(Int64 6, 2)]))],
       to_free = [], reused = []\<rparr>)"

lemma ex_key: "key_ok ex_dec (Int64 i)" "length (key_bytes ex_dec (Int64 i)) = 9"
  by (simp_all add: key_ok_def key_bytes_def encode_to_vec_def encode_at.simps LEAF_CELL_CAP_def PAGE_SIZE_def length_to_le_bytes)

lemma ex_key_pair: "key_ok ex_dec (Array [Int64 i, Int64 j])" "length (key_bytes ex_dec (Array [Int64 i, Int64 j])) = 23"
  by (simp_all add: key_ok_def key_bytes_def encode_to_vec_def encode_at.simps LEAF_CELL_CAP_def PAGE_SIZE_def length_to_le_bytes MAX_DEPTH_def put_u32_def)

lemma ex_ov: "ov ex_dec (Int64 i)"
  by (simp add: ordered_value_def ex_dec_laws)

lemma ex_cmp: "cmp_values ex_dec (Int64 i) (Int64 j) = cmp_of (sint i) (sint j)"
  "cmp_values ex_dec (Int64 i) (Array xs) = Less" "cmp_values ex_dec (Array xs) (Int64 i) = Greater"
  by (simp_all add: cmp_values.simps cmp_of_def)

lemma ex_nodes: "node_ok ex_dec (Leaf [(Int64 2, 20), (Int64 4, 40)])" "node_ok ex_dec (Leaf [(Int64 6, 60), (Int64 8, 80), (Array [Int64 1, Int64 2], 12)])"
  "node_ok ex_dec (Internal 1 [(Int64 6, 2)])"
  by (simp_all add: node_ok_def ex_key ex_key_pair cell_size_def PAGE_SIZE_def)

lemma ex_index_ok: "tx_ok ex_index" "tx_room 9 ex_index"
  by (auto simp: tx_ok_def tx_room_def ex_index_def fresh_pager_def store_ok_def coherent_def pending_ok_def alloc_ok_def reusable_ok_def
      empty_undo_def length_node_image [OF ex_nodes(1)] length_node_image [OF ex_nodes(2)] length_node_image [OF ex_nodes(3)]
      split: if_splits)

lemma ex_room: "m \<le> 9 \<Longrightarrow> tx_room m ex_index"
  using bt_store.room_le ex_index_ok(2) by blast

lemma ex_index_view:
  "tx_view ex_index 1 = Some (node_image ex_dec (Leaf [(Int64 2, 20), (Int64 4, 40)]))"
  "tx_view ex_index 2 = Some (node_image ex_dec (Leaf [(Int64 6, 60), (Int64 8, 80), (Array [Int64 1, Int64 2], 12)]))"
  "tx_view ex_index 3 = Some (node_image ex_dec (Internal 1 [(Int64 6, 2)]))"
  by (simp_all add: ex_index_def tx_view_pair fresh_pager_def word_le_nat_alt)

lemma ex_unique: "unique_tree ex_dec True (tx_view ex_index) ex_tree"
  using ex_index_view ex_nodes by (simp add: unique_tree_def ex_tree_def lt_def le_def ex_cmp cmp_of_def)

lemma ex_tree_entries: "entries ex_tree = [(Int64 2, 20), (Int64 4, 40), (Int64 6, 60), (Int64 8, 80), (Array [Int64 1, Int64 2], 12)]" "root_of ex_tree = 3" "height ex_tree = 1"
  by (simp_all add: ex_tree_def entries_def)

lemma ex_index_tree: "index_tree ex_dec (tx_view (fst ex_index, snd ex_index)) ex_tree" "height ex_tree \<le> MAX_TREE_DEPTH"
  using unique_index [OF ex_unique] by (simp_all add: ex_tree_entries MAX_TREE_DEPTH_def)

lemma ex_pair: "(fst ex_index, snd ex_index) = ex_index"
  by simp

lemmas ex_index_facts = ex_dec_laws ex_index_ok ex_unique ex_index_tree ex_tree_entries

section \<open>Nodes\<close>

text \<open>The page format of index nodes round-trips. Writing a node whose keys the index accepts and
  whose cells fit a page succeeds and produces exactly one page, and reading that page back yields the
  same node: kind, leftmost child, keys, locators and children.\<close>

theorem node_roundtrip:
  assumes "decimal_laws D" and "node_ok D nd"
  shows "\<exists>page. format_node D nd = Inr page \<and> length page = PAGE_SIZE \<and> parse_node D page = Inr nd"
  using format_node_image [OF assms(2)] length_node_image [OF assms(2)] parse_node_image [OF assms] by blast

theorem node_roundtrip_witness:
  "\<exists>page. format_node ex_dec (Internal 1 [(Int64 6, 2)]) = Inr page \<and> parse_node ex_dec page = Inr (Internal 1 [(Int64 6, 2)])"
  using node_roundtrip [OF ex_dec_laws ex_nodes(3)] by blast

text \<open>\<open>C20\<close>: a node split always fits. When one insertion makes a node overflow its page, the split point
  chosen leaves both halves non-empty and each within one page, for every mix of key sizes up to the
  cell cap, in leaves (\<open>h = 3\<close>, 8 value bytes) and internal nodes (\<open>h = 7\<close>, 4 child bytes).\<close>

theorem split_halves_fit:
  assumes "keys_ok D cs" and "\<forall>c \<in> set cs. cell_size D w c \<le> (PAGE_SIZE - h) div 2" and "h \<le> 7" and "pos < length cs"
    and "PAGE_SIZE < h + cells_size D w cs" and "h + cells_size D w cs \<le> PAGE_SIZE + cell_size D w (cs ! pos)"
  shows "\<exists>m. split_at_for_insert D cs pos h w = Inr m \<and> 0 < m \<and> m < length cs \<and>
    h + cells_size D w (take m cs) \<le> PAGE_SIZE \<and> h + cells_size D w (drop m cs) \<le> PAGE_SIZE"
  using split_at_for_insert_fits [OF assms(1) _ assms(3-6)] assms(2) by blast

definition ex_full :: "(ex_decimal Value \<times> u64) list" where
  "ex_full = map (\<lambda>n. (Int64 (word_of_nat n), word_of_nat n)) [0..<216]"

theorem split_halves_fit_witness:
  "\<exists>m. split_at_for_insert ex_dec ex_full 100 3 8 = Inr m \<and> 0 < m \<and> m < 216 \<and>
    3 + cells_size ex_dec 8 (take m ex_full) \<le> PAGE_SIZE \<and> 3 + cells_size ex_dec 8 (drop m ex_full) \<le> PAGE_SIZE"
proof -
  have c: "cell_size ex_dec 8 c = 19" if "c \<in> set ex_full" for c
    using that by (auto simp: ex_full_def cell_size_def ex_key)
  then have "map (cell_size ex_dec 8) ex_full = replicate 216 19"
    by (intro replicate_eqI) (auto simp: ex_full_def)
  then have "cells_size ex_dec 8 ex_full = 4104" by (simp add: cells_size_def sum_list_replicate)
  moreover have "keys_ok ex_dec ex_full" by (auto simp: keys_ok_def ex_full_def ex_key)
  moreover have l: "length ex_full = 216" by (simp add: ex_full_def)
  moreover have "cell_size ex_dec 8 (ex_full ! 100) = 19" by (rule c) (simp add: l)
  ultimately show ?thesis using split_halves_fit [of ex_dec ex_full 8 3 100] c by (simp add: PAGE_SIZE_def)
qed

section \<open>Changes\<close>

text \<open>\<open>C15\<close>: insertion refines insertion into a sorted list. On a stored tree of at most the maximal depth in
  which no run of equal keys spans a separator (always so in a unique index), with room for the pages a chain of
  splits can take, and in a unique index with no equal key present, \<open>insert\<close> succeeds; afterwards the pages hold a
  search tree, rooted where the returned handle says, whose entries are the old ones with the new entry
  after all keys not above it, no other page in use has changed, and a unique index is still one.\<close>

theorem insert_refines_sorted_list:
  assumes "decimal_laws D" and "key_ok D key" and "tx_ok s" and "tx_room (height t + 2) s"
    and "unique_tree D u (tx_view s) t" and "height t \<le> MAX_TREE_DEPTH"
    and "u \<longrightarrow> (\<forall>e \<in> set (entries t). cmp_values D (fst e) key \<noteq> Equal)"
  shows "\<exists>t' s'. insert D \<lparr>bt_root = root_of t\<rparr> key val u s = (Inr \<lparr>bt_root = root_of t'\<rparr>, s') \<and> tx_ok s' \<and>
    index_tree D (tx_view s') t' \<and> (u \<longrightarrow> unique_tree D u (tx_view s') t') \<and>
    entries t' = takeWhile (\<lambda>e. cmp_values D (fst e) key \<noteq> Greater) (entries t) @ (key, val) #
      dropWhile (\<lambda>e. cmp_values D (fst e) key \<noteq> Greater) (entries t) \<and>
    (\<forall>j. j \<notin> set (pages t) \<longrightarrow> tx_view s j \<noteq> None \<longrightarrow> tx_view s' j = tx_view s j)"
  using insert_ok [OF assms(1-6), of val] assms(7) unfolding ins_at_def le_def by blast

theorem insert_refines_sorted_list_witness:
  "\<exists>(t' :: ex_decimal tree) s'. insert ex_dec \<lparr>bt_root = 3\<rparr> (Int64 5) 50 True ex_index = (Inr \<lparr>bt_root = root_of t'\<rparr>, s') \<and>
    entries t' = [(Int64 2, 20), (Int64 4, 40), (Int64 5, 50), (Int64 6, 60), (Int64 8, 80), (Array [Int64 1, Int64 2], 12)]"
proof -
  have r: "tx_room (height ex_tree + 2) ex_index" by (rule ex_room) (simp add: ex_tree_entries)
  obtain t' s' where "insert ex_dec \<lparr>bt_root = root_of ex_tree\<rparr> (Int64 5) 50 True ex_index = (Inr \<lparr>bt_root = root_of t'\<rparr>, s')"
      "entries t' = takeWhile (\<lambda>e. cmp_values ex_dec (fst e) (Int64 5) \<noteq> Greater) (entries ex_tree) @ (Int64 5, 50) #
        dropWhile (\<lambda>e. cmp_values ex_dec (fst e) (Int64 5) \<noteq> Greater) (entries ex_tree)"
    using insert_refines_sorted_list [OF ex_dec_laws ex_key(1) ex_index_ok(1) r ex_unique ex_index_tree(2), of 5 50]
    by (auto simp: ex_tree_entries ex_cmp cmp_of_def)
  then have "insert ex_dec \<lparr>bt_root = 3\<rparr> (Int64 5) 50 True ex_index = (Inr \<lparr>bt_root = root_of t'\<rparr>, s')"
    "entries t' = [(Int64 2, 20), (Int64 4, 40), (Int64 5, 50), (Int64 6, 60), (Int64 8, 80), (Array [Int64 1, Int64 2], 12)]"
    by (simp_all add: ex_tree_entries ex_cmp cmp_of_def)
  then show ?thesis by blast
qed

text \<open>A unique index refuses a key it has. The call fails with \<open>Duplicate\<close> and the transaction's
  pages are as before, so the statement can be retried or rolled back.\<close>

theorem insert_refuses_duplicate:
  assumes "decimal_laws D" and "key_ok D key" and "tx_ok s" and "tx_room 0 s" and "unique_tree D True (tx_view s) t"
    and "height t \<le> MAX_TREE_DEPTH" and "e \<in> set (entries t)" and "cmp_values D (fst e) key = Equal"
  shows "\<exists>s'. insert D \<lparr>bt_root = root_of t\<rparr> key val True s = (Inl Duplicate, s') \<and> tx_ok s' \<and> tx_view s' = tx_view s"
  using insert_rec_duplicate [OF assms(1,2,3), of t "MAX_TREE_DEPTH + 1" e val] assms(4-8)
  by (auto simp: unique_tree_def insert_def obind_def less_Suc_eq_le)

theorem insert_refuses_duplicate_witness:
  "\<exists>s'. insert ex_dec \<lparr>bt_root = 3\<rparr> (Int64 6) 61 True ex_index = (Inl Duplicate, s') \<and> tx_view s' = tx_view ex_index"
proof -
  have r: "tx_room 0 ex_index" using ex_room [of 0] by simp
  show ?thesis
    using insert_refuses_duplicate [OF ex_dec_laws ex_key(1) ex_index_ok(1) r ex_unique ex_index_tree(2), of "(Int64 6, 60)" 6 61]
    by (auto simp: ex_tree_entries ex_cmp cmp_of_def)
qed

text \<open>\<open>C17\<close>: \<open>delete_entry\<close> removes exactly one entry with the given key and locator, even when equal keys
  span several nodes, keeps the order of the rest and touches no page outside the tree; it answers false
  only when the index has no such entry, and then nothing has changed.\<close>

theorem delete_entry_removes_one:
  assumes "decimal_laws D" and "ov D key" and "tx_ok s" and "tx_room 0 s"
    and "index_tree D (tx_view s) t" and "height t \<le> MAX_TREE_DEPTH"
  shows "\<exists>r s'. delete_entry D \<lparr>bt_root = root_of t\<rparr> key loc s = (Inr r, s') \<and> tx_ok s' \<and>
    (if r then \<exists>t' a k b. index_tree D (tx_view s') t' \<and> root_of t' = root_of t \<and> cmp_values D k key = Equal \<and>
        entries t = a @ (k, loc) # b \<and> entries t' = a @ b \<and> (\<forall>j. j \<notin> set (pages t) \<longrightarrow> tx_view s' j = tx_view s j)
     else tx_view s' = tx_view s \<and> (\<forall>k. (k, loc) \<in> set (entries t) \<longrightarrow> cmp_values D k key \<noteq> Equal))"
proof (rule entry_matcher.delete_ok [OF assms, of loc], goal_cases)
  case (1 s')
  have "delete_entry D \<lparr>bt_root = root_of t\<rparr> key loc s = (Inr False, s')" using 1(2) by (simp only: delete_entry_def btree.simps)
  then show ?case using 1(1,3,4) by (intro exI [of _ False] exI [of _ s']) auto
next
  case (2 s' t' a e b)
  have "delete_entry D \<lparr>bt_root = root_of t\<rparr> key loc s = (Inr True, s')" using 2(1) by (simp only: delete_entry_def btree.simps)
  moreover have "\<exists>t' a k b. index_tree D (tx_view s') t' \<and> root_of t' = root_of t \<and> cmp_values D k key = Equal \<and>
      entries t = a @ (k, loc) # b \<and> entries t' = a @ b \<and> (\<forall>j. j \<notin> set (pages t) \<longrightarrow> tx_view s' j = tx_view s j)"
    by (intro exI [of _ t'] exI [of _ a] exI [of _ "fst e"] exI [of _ b] conjI) (use 2 in \<open>simp_all add: prod_eq_iff\<close>)
  ultimately show ?case using 2(2) by (intro exI [of _ True] exI [of _ s']) simp
qed

theorem delete_entry_removes_one_witness:
  "\<exists>r s'. delete_entry ex_dec \<lparr>bt_root = 3\<rparr> (Int64 4) 40 ex_index = (Inr r, s') \<and> r"
proof -
  have r: "tx_room 0 ex_index" using ex_room [of 0] by simp
  show ?thesis
    using delete_entry_removes_one [OF ex_dec_laws ex_ov ex_index_ok(1) r ex_index_tree [unfolded ex_pair], of 4 40]
    by (auto simp: ex_tree_entries ex_cmp cmp_of_def split: if_splits)
qed

section \<open>Reads\<close>

definition limited :: "nat option \<Rightarrow> 'a list \<Rightarrow> 'a list" where
  "limited max' es = (case max' of Some m \<Rightarrow> take m es | None \<Rightarrow> es)"

text \<open>\<open>C16\<close>: a lookup finds the key exactly when the index has it, and then returns the locator of one of its
  entries; in a unique index, of the only one. It always returns, also where equal keys spread over several
  children, and leaves the transaction's pages as they were.\<close>

theorem lookup_correct:
  assumes "decimal_laws D" and "ov D key" and "tx_ok (pg, tx)" and "index_tree D (tx_view (pg, tx)) t" and "height t \<le> MAX_TREE_DEPTH"
  shows "\<exists>r pg'. get D \<lparr>bt_root = root_of t\<rparr> Current tx key pg = (Inr r, pg') \<and> tx_ok (pg', tx) \<and> tx_view (pg', tx) = tx_view (pg, tx) \<and>
    (case r of
       Some v \<Rightarrow> \<exists>k. (k, v) \<in> set (entries t) \<and> cmp_values D k key = Equal
     | None \<Rightarrow> \<forall>k v. (k, v) \<in> set (entries t) \<longrightarrow> cmp_values D k key \<noteq> Equal)"
proof -
  obtain r pg' where "get_at (MAX_TREE_DEPTH + 1) D Current tx key (root_of t) pg = (Inr r, pg')"
      "tx_ok (pg', tx) \<and> tx_view (pg', tx) = tx_view (pg, tx)" "found D key (entries t) r"
    using current.get_at_ok [where n = "MAX_TREE_DEPTH + 1", OF assms(1,2)] assms(3-5) unfolding index_tree_def
    by (metis less_Suc_eq_le Suc_eq_plus1)
  then show ?thesis
    by (intro exI [of _ r] exI [of _ pg']) (simp add: get_def found_def Ball_def del: get_at.simps split: option.splits)
qed

theorem lookup_correct_witness:
  "\<exists>pg'. get ex_dec \<lparr>bt_root = 3\<rparr> Current (snd ex_index) (Int64 6) (fst ex_index) = (Inr (Some 60), pg')"
  using lookup_correct [OF ex_dec_laws ex_ov _ ex_index_tree, of 6] ex_index_ok(1)
  by (auto simp: ex_tree_entries ex_cmp cmp_of_def split: option.splits if_splits)

text \<open>\<open>C18\<close>: the bounded walks return what filtering the whole index would. Forward from \<open>lo\<close> (inclusive or
  exclusive) up to an optional bound, and backward between two optional bounds, with an optional limit:
  the result is the first \<open>max\<close> entries in range, in key order or its reverse, with none lost
  to the pruning of subtrees and early exits.\<close>

theorem range_walks_filter:
  assumes "decimal_laws D" and "tx_ok (pg, tx)" and "index_tree D (tx_view (pg, tx)) t" and "height t \<le> MAX_TREE_DEPTH"
    and "ov D lo" and "case hi of Some (h, _) \<Rightarrow> ov D h | None \<Rightarrow> True"
  shows "\<exists>pg1 pg2 pg3.
    range_bounded_limited D \<lparr>bt_root = root_of t\<rparr> Current tx lo hi max' pg =
      (Inr (limited max' (filter (\<lambda>(k, _). \<not> beyond_hi D k hi \<and> cmp_values D k lo \<noteq> Less) (entries t))), pg1) \<and>
    range_bounded_excl_limited D \<lparr>bt_root = root_of t\<rparr> Current tx lo hi max' pg =
      (Inr (limited max' (filter (\<lambda>(k, _). \<not> beyond_hi D k hi \<and> cmp_values D k lo = Greater) (entries t))), pg2) \<and>
    range_bounded_rev_limited D \<lparr>bt_root = root_of t\<rparr> Current tx (Some (lo, i)) hi max' pg =
      (Inr (limited max' (rev (filter (\<lambda>(k, _). \<not> beyond_hi D k hi \<and> \<not> below_lo D k (Some (lo, i))) (entries t)))), pg3)"
proof -
  have t: "stored D (tx_view (pg, tx)) t" "in_order D t" "height t < MAX_TREE_DEPTH + 1" using assms(3,4) by (auto simp: index_tree_def)
  have fwd: "\<exists>pg'. range_bounded_rec (MAX_TREE_DEPTH + 1) D Current tx lo incl hi None max' (root_of t) [] pg =
      (Inr (walk max' (stops D None) (filter (in_range D lo incl hi) (entries t)) []), pg')" for incl
    using current.range_bounded_rec_ok [OF assms(1,6,5), of pg tx _ t _ incl None max' "[]"] assms(2) t by blast
  have never: "stops D None = never" by (simp add: fun_eq_iff stops_def never_def)
  have lim: "fst (walk max' never es []) = limited max' es" for es :: "'a entries"
    by (simp add: walk_all limited_def split: option.splits)
  have r1: "in_range D lo True hi = (\<lambda>(k, _). \<not> beyond_hi D k hi \<and> cmp_values D k lo \<noteq> Less)"
    and r2: "in_range D lo False hi = (\<lambda>(k, _). \<not> beyond_hi D k hi \<and> cmp_values D k lo = Greater)"
    and r3: "in_bounds D (Some (lo, i)) hi = (\<lambda>(k, _). \<not> beyond_hi D k hi \<and> \<not> below_lo D k (Some (lo, i)))"
    by (auto simp: fun_eq_iff in_range_def in_bounds_def below_def) (metis ordering.exhaust)
  obtain pg1 where 1: "range_bounded_limited D \<lparr>bt_root = root_of t\<rparr> Current tx lo hi max' pg = (Inr (limited max' (filter (in_range D lo True hi) (entries t))), pg1)"
    using fwd [of True] by (auto simp: range_bounded_limited_def obind_def never lim [symmetric] case_prod_beta simp del: range_bounded_rec.simps)
  obtain pg2 where 2: "range_bounded_excl_limited D \<lparr>bt_root = root_of t\<rparr> Current tx lo hi max' pg = (Inr (limited max' (filter (in_range D lo False hi) (entries t))), pg2)"
    using fwd [of False] by (auto simp: range_bounded_excl_limited_def obind_def never lim [symmetric] case_prod_beta simp del: range_bounded_rec.simps)
  obtain pg3 where 3: "range_bounded_rev_limited D \<lparr>bt_root = root_of t\<rparr> Current tx (Some (lo, i)) hi max' pg =
      (Inr (limited max' (rev (filter (in_bounds D (Some (lo, i)) hi) (entries t)))), pg3)"
    using current.range_rev_rec_ok [OF assms(1,6), of "Some (lo, i)" pg tx _ t _ max' "[]"] assms(2,5) t
    by (auto simp: range_bounded_rev_limited_def lim simp del: range_rev_rec.simps)
  show ?thesis using 1 2 3 unfolding r1 r2 r3 by blast
qed

theorem range_walks_filter_witness:
  "\<exists>pg1 pg2 pg3.
    range_bounded_limited ex_dec \<lparr>bt_root = 3\<rparr> Current (snd ex_index) (Int64 4) (Some (Int64 8, False)) None (fst ex_index) =
      (Inr [(Int64 4, 40), (Int64 6, 60)], pg1) \<and>
    range_bounded_excl_limited ex_dec \<lparr>bt_root = 3\<rparr> Current (snd ex_index) (Int64 4) (Some (Int64 8, False)) None (fst ex_index) =
      (Inr [(Int64 6, 60)], pg2) \<and>
    range_bounded_rev_limited ex_dec \<lparr>bt_root = 3\<rparr> Current (snd ex_index) (Some (Int64 4, True)) (Some (Int64 8, False)) None (fst ex_index) =
      (Inr [(Int64 6, 60), (Int64 4, 40)], pg3)"
  using range_walks_filter [OF ex_dec_laws _ ex_index_tree, of "Int64 4" "Some (Int64 8, False)" None True] ex_index_ok(1) ex_ov
  by (simp add: ex_tree_entries ex_cmp cmp_of_def beyond_hi_def below_lo_def limited_def)

text \<open>\<open>C19\<close>: a prefix scan of a composite index returns every entry whose key starts with the given
  column values and no other, in key order (or reversed), up to the limit, although it stops at the first key
  without the prefix.\<close>

theorem prefix_scan_complete:
  assumes "decimal_laws D" and "tx_ok (pg, tx)" and "index_tree D (tx_view (pg, tx)) t" and "height t \<le> MAX_TREE_DEPTH"
    and "ov D (Array pfx)"
  shows "\<exists>pg1 pg2. range_prefix_limited D \<lparr>bt_root = root_of t\<rparr> Current tx pfx max' pg = (Inr (limited max' (filter (\<lambda>(k, _). has_prefix D k pfx) (entries t))), pg1) \<and>
    range_prefix_rev_limited D \<lparr>bt_root = root_of t\<rparr> Current tx pfx max' pg = (Inr (limited max' (rev (filter (\<lambda>(k, _). has_prefix D k pfx) (entries t)))), pg2)"
proof -
  have t: "stored D (tx_view (pg, tx)) t" "in_order D t" "height t < MAX_TREE_DEPTH + 1" using assms(3,4) by (auto simp: index_tree_def)
  define matching where "matching = filter (\<lambda>(k, _). has_prefix D k pfx) (entries t)"
  have m: "matching = takeWhile (\<lambda>e. \<not> stops D (Some pfx) e) (filter (in_range D (Array pfx) True None) (entries t))"
    using prefix_walk [OF entries_ordered [OF assms(1) t(1,2)] assms(5)] by (simp add: matching_def stops_def case_prod_beta')
  have walks: "\<exists>pg'. range_prefix_limited D \<lparr>bt_root = root_of t\<rparr> Current tx pfx lim pg =
      (Inr (case lim of Some n \<Rightarrow> take n matching | None \<Rightarrow> matching), pg')" for lim
  proof -
    obtain pg' where "range_bounded_rec (MAX_TREE_DEPTH + 1) D Current tx (Array pfx) True None (Some pfx) lim (root_of t) [] pg =
        (Inr (walk lim (stops D (Some pfx)) (filter (in_range D (Array pfx) True None) (entries t)) []), pg')"
      using current.range_bounded_rec_ok [OF assms(1) _ assms(5), of None pg tx "tx_view (pg, tx)" t "MAX_TREE_DEPTH + 1" True "Some pfx" lim "[]"] assms(2) t
      by (auto simp del: range_bounded_rec.simps)
    then have "range_prefix_limited D \<lparr>bt_root = root_of t\<rparr> Current tx pfx lim pg =
        (Inr (fst (walk lim (stops D (Some pfx)) (filter (in_range D (Array pfx) True None) (entries t)) [])), pg')"
      by (simp add: range_prefix_limited_def obind_def case_prod_beta del: range_bounded_rec.simps)
    then show ?thesis unfolding m by (simp add: walk_takeWhile split: option.splits)
  qed
  show ?thesis
    using walks [of max'] walks [of None] unfolding matching_def by (auto simp: limited_def range_prefix_rev_limited_def obind_def)
qed

theorem prefix_scan_complete_witness:
  "\<exists>pg1. range_prefix_limited ex_dec \<lparr>bt_root = 3\<rparr> Current (snd ex_index) [Int64 1] (Some 3) (fst ex_index) = (Inr [(Array [Int64 1, Int64 2], 12)], pg1)"
  using prefix_scan_complete [OF ex_dec_laws _ ex_index_tree, of "[Int64 1]" "Some 3"] ex_index_ok(1) ex_ov ex_dec_laws
  by (auto simp: ex_tree_entries ov_Array ex_cmp cmp_of_def limited_def)

end
