(* ===== verification/Btree_Scenarios.thy ===== *)
theory Btree_Scenarios
  imports Index_Properties
begin

text \<open>
  What insertion does to a run of equal keys that spans a separator. The new right sibling of a split
  child is placed after every equal separator, not next to the child that was split, so its keys can end
  up to the right of greater ones.
\<close>

section \<open>The state\<close>

abbreviation key_J :: "ex_decimal Value" where "key_J \<equiv> Str (replicate 100 64)"
abbreviation key_K :: "ex_decimal Value" where "key_K \<equiv> Str (replicate 2000 65)"
abbreviation key_L :: "ex_decimal Value" where "key_L \<equiv> Str [66]"

definition run_left :: "ex_decimal entries" where "run_left = [(key_K, 1), (key_K, 2)]"
definition run_right :: "ex_decimal entries" where "run_right = [(key_K, 3), (key_L, 4)]"

definition run_tree :: "ex_decimal tree" where
  "run_tree = TNode 3 (TLeaf 1 run_left) [(key_K, TLeaf 2 run_right)]"

definition run_index :: "pager \<times> tx" where
  "run_index =
     (fresh_pager (encode_header 4) (fresh_wal HEADER 1 0 []) 4 [],
      \<lparr>tx_id = 1,
       staged = [(1, node_image ex_dec (Leaf run_left)), (2, node_image ex_dec (Leaf run_right)),
                 (3, node_image ex_dec (Internal 1 [(key_K, 2)]))],
       to_free = [], reused = []\<rparr>)"

lemma ascii_valid: "a \<le> 0x7F \<Longrightarrow> utf8_valid (replicate n a)"
  by (induction n) auto

lemma str_key:
  assumes "utf8_valid s" and "length s \<le> 2000"
  shows "key_ok ex_dec (Str s)" and "length (key_bytes ex_dec (Str s)) = 5 + length s"
  using assms
  by (simp_all add: key_ok_def key_bytes_def encode_to_vec_def encode_at.simps LEAF_CELL_CAP_def PAGE_SIZE_def
      put_u32_def length_to_le_bytes)

lemma run_keys: "key_ok ex_dec key_J" "key_ok ex_dec key_K" "key_ok ex_dec key_L"
  "length (key_bytes ex_dec key_J) = 105" "length (key_bytes ex_dec key_K) = 2005" "length (key_bytes ex_dec key_L) = 6"
  using str_key [of "replicate 100 64"] str_key [of "replicate 2000 65"] str_key [of "[66]"] by (simp_all add: ascii_valid)

lemma str_cmp:
  "a < b \<Longrightarrow> cmp_values ex_dec (Str (a # x)) (Str (b # y)) = Less" "b < a \<Longrightarrow> cmp_values ex_dec (Str (a # x)) (Str (b # y)) = Greater"
  by (auto simp: cmp_values_same_band cmp_bytes_def cmp_of_def)

lemma run_strings: "replicate 100 64 = (64 :: u8) # replicate 99 64" "replicate 2000 65 = (65 :: u8) # replicate 1999 65"
  by (simp_all add: replicate_Suc [symmetric] del: replicate_Suc)

lemma run_cmp: "cmp_values ex_dec key_J key_K = Less" "cmp_values ex_dec key_K key_J = Greater" "cmp_values ex_dec key_K key_L = Less"
  "cmp_values ex_dec key_L key_K = Greater" "cmp_values ex_dec key_J key_L = Less" "cmp_values ex_dec (Str s) (Str s) = Equal"
  unfolding run_strings by (simp_all add: str_cmp cmp_values_same_band word_less_nat_alt)

lemma run_nodes: "node_ok ex_dec (Leaf run_left)" "node_ok ex_dec (Leaf run_right)" "node_ok ex_dec (Internal 1 [(key_K, 2)])"
  "node_ok ex_dec (Internal 1 [(key_K, 2), (key_K, j)])"
  by (simp_all add: node_ok_def run_left_def run_right_def run_keys cell_size_def PAGE_SIZE_def)

lemma run_index_ok: "tx_ok run_index" "tx_room 9 run_index"
  by (auto simp: tx_ok_def tx_room_def run_index_def fresh_pager_def store_ok_def coherent_def pending_ok_def alloc_ok_def reusable_ok_def
      empty_undo_def length_node_image [OF run_nodes(1)] length_node_image [OF run_nodes(2)] length_node_image [OF run_nodes(3)]
      split: if_splits)

lemma run_view: "tx_view run_index 1 = Some (node_image ex_dec (Leaf run_left))" "tx_view run_index 2 = Some (node_image ex_dec (Leaf run_right))"
  "tx_view run_index 3 = Some (node_image ex_dec (Internal 1 [(key_K, 2)]))"
  by (simp_all add: run_index_def tx_view_pair fresh_pager_def word_le_nat_alt)

lemma run_index_tree: "index_tree ex_dec (tx_view run_index) run_tree"
  using run_view run_nodes
  by (simp add: index_tree_def run_tree_def in_order_def item_le_def le_def run_cmp) (simp add: run_left_def run_right_def item_le_def le_def run_cmp)

section \<open>The insertion\<close>

text \<open>The left leaf overflows; whatever the split point, the right half starts with the repeated key.\<close>

definition run_split :: "ex_decimal entries" where
  "run_split = (key_J, 5) # run_left"

lemma run_leaf_insert:
  assumes "tx_ok s" and "tx_view s = tx_view run_index" and "tx_room 1 s"
  obtains m j s' where "leaf_insert ex_dec 1 run_left key_J 5 False s = (Inr (Some (key_K, j)), s')" and "tx_ok s'" and "tx_room 0 s'"
    and "tx_view run_index j = None" and "0 < m" and "m < 3"
    and "node_ok ex_dec (Leaf (take m run_split))" and "node_ok ex_dec (Leaf (drop m run_split))"
    and "tx_view s' = (tx_view run_index)(1 \<mapsto> node_image ex_dec (Leaf (take m run_split)), j \<mapsto> node_image ex_dec (Leaf (drop m run_split)))"
proof -
  have keys: "keys_ok ex_dec run_left" "keys_ok ex_dec run_split" by (simp_all add: run_left_def run_split_def run_keys)
  have size: "cells_size ex_dec 8 run_left = 4030" "cells_size ex_dec 8 run_split = 4145"
    by (simp_all add: run_left_def run_split_def cell_size_def run_keys)
  have pos: "partition_point (\<lambda>(k, _). cmp_values ex_dec k key_J \<noteq> Greater) run_left = 0"
    by (rule partition_point_bound) (auto simp: run_left_def run_cmp nth_Cons')
  have ins: "vec_insert 0 (key_J, 5) run_left = run_split" by (simp add: vec_insert_def run_split_def)
  obtain m where m: "split_at_for_insert ex_dec run_split 0 3 8 = Inr m" "0 < m" "m < length run_split"
      "3 + cells_size ex_dec 8 (take m run_split) \<le> PAGE_SIZE" "3 + cells_size ex_dec 8 (drop m run_split) \<le> PAGE_SIZE"
    using split_point [OF keys(1), of "(key_J, 5)" 0 3 8] run_keys(1) size by (auto simp: ins PAGE_SIZE_def)
  have ok: "node_ok ex_dec (Leaf (take m run_split))" "node_ok ex_dec (Leaf (drop m run_split))"
    using m(4,5) keys_ok_take_drop [OF keys(2), of m] by (simp_all add: node_ok_def)
  have mid: "fst (run_split ! m) = key_K" using m(2,3) by (auto simp: run_split_def run_left_def nth_Cons' less_Suc_eq)
  have v1: "tx_view s 1 = Some (node_image ex_dec (Leaf run_left))" using assms(2) run_view by simp
  obtain j s1 s2 s3 where w: "op_err BPager allocate_page s = (Inr j, s1)" "write_node ex_dec 1 (Leaf (take m run_split)) s1 = (Inr (), s2)"
      "write_node ex_dec j (Leaf (drop m run_split)) s2 = (Inr (), s3)" "tx_ok s3" "tx_view s j = None"
      "tx_view s3 = (tx_view s)(1 \<mapsto> node_image ex_dec (Leaf (take m run_split)), j \<mapsto> node_image ex_dec (Leaf (drop m run_split)))" "tx_room 0 s3"
    using split_node_step [OF assms(1) v1 ok assms(3) [unfolded One_nat_def]] by blast
  have "leaf_insert ex_dec 1 run_left key_J 5 False s = (Inr (Some (key_K, j)), s3)"
    using w(2,3) unfolding leaf_insert_def pos Let_def ins
    by (simp add: obind_def enc_lift_key run_keys node_bytes_size [OF keys(2)] size m(1) w(1) mid LEAF_CELL_CAP_def PAGE_SIZE_def del: op_err_Inr)
  then show ?thesis using that w m(2,3) ok assms(2) by (simp add: run_split_def run_left_def)
qed

lemma run_internal_insert:
  assumes "tx_ok s" and "tx_view s 3 = Some d" and "tx_room 0 s"
  obtains s' where "internal_insert ex_dec 3 1 [(key_K, 2)] key_K j s = (Inr None, s')" and "tx_ok s'"
    and "tx_view s' = (tx_view s)(3 \<mapsto> node_image ex_dec (Internal 1 [(key_K, 2), (key_K, j)]))"
proof -
  have pos: "partition_point (\<lambda>(k, _). cmp_values ex_dec k key_K \<noteq> Greater) [(key_K, 2 :: u32)] = 1"
    by (rule partition_point_bound) (auto simp: run_cmp)
  have ins: "vec_insert 1 (key_K, j) [(key_K, 2)] = [(key_K, 2), (key_K, j)]" by (simp add: vec_insert_def)
  have keys: "keys_ok ex_dec [(key_K, 2 :: u32), (key_K, j)]" by (simp add: run_keys)
  obtain s' where w: "write_node ex_dec 3 (Internal 1 [(key_K, 2), (key_K, j)]) s = (Inr (), s')" "tx_ok s'"
      "tx_view s' = (tx_view s)(3 \<mapsto> node_image ex_dec (Internal 1 [(key_K, 2), (key_K, j)]))"
    using write_node_step [OF assms(1,2) run_nodes(4) assms(3)] by blast
  have "internal_insert ex_dec 3 1 [(key_K, 2)] key_K j s = (Inr None, s')"
    using w(1) unfolding internal_insert_def pos Let_def ins
    by (simp add: obind_def enc_lift_key run_keys node_bytes_size [OF keys] cell_size_def INTERNAL_CELL_CAP_def PAGE_SIZE_def)
  then show ?thesis using that w by blast
qed

definition run_after :: "nat \<Rightarrow> page_id \<Rightarrow> ex_decimal tree" where
  "run_after m j = TNode 3 (TLeaf 1 (take m run_split)) [(key_K, TLeaf 2 run_right), (key_K, TLeaf j (drop m run_split))]"

lemma run_insert:
  obtains m j s' where "insert ex_dec \<lparr>bt_root = 3\<rparr> key_J 5 False run_index = (Inr \<lparr>bt_root = 3\<rparr>, s')" and "tx_ok s'"
    and "0 < m" and "m < 3" and "stored ex_dec (tx_view s') (run_after m j)"
proof -
  have r0: "tx_room 1 run_index" using bt_store.room_le [OF _ run_index_ok(2)] by simp
  obtain s1 where s1: "read_node_tx ex_dec 3 run_index = (Inr (Internal 1 [(key_K, 2)]), s1)" "tx_ok s1" "tx_view s1 = tx_view run_index" "tx_room 1 s1"
    using read_node_step [OF ex_dec_laws run_index_ok(1) run_view(3) run_nodes(3) r0] by blast
  have v1: "tx_view s1 1 = Some (node_image ex_dec (Leaf run_left))" using s1(3) run_view by simp
  obtain s2 where s2: "read_node_tx ex_dec 1 s1 = (Inr (Leaf run_left), s2)" "tx_ok s2" "tx_view s2 = tx_view run_index" "tx_room 1 s2"
    using read_node_step [OF ex_dec_laws s1(2) v1 run_nodes(1) s1(4)] s1(3) by metis
  obtain m j s3 where s3: "leaf_insert ex_dec 1 run_left key_J 5 False s2 = (Inr (Some (key_K, j)), s3)" "tx_ok s3" "tx_room 0 s3"
      "tx_view run_index j = None" "0 < m" "m < 3" "node_ok ex_dec (Leaf (take m run_split))" "node_ok ex_dec (Leaf (drop m run_split))"
      "tx_view s3 = (tx_view run_index)(1 \<mapsto> node_image ex_dec (Leaf (take m run_split)), j \<mapsto> node_image ex_dec (Leaf (drop m run_split)))"
    using run_leaf_insert [OF s2(2-4)] by blast
  have j: "j \<noteq> 1" "j \<noteq> 2" "j \<noteq> 3" using s3(4) run_view by auto
  have "tx_view s3 3 = Some (node_image ex_dec (Internal 1 [(key_K, 2)]))" using s3(9) run_view j by simp
  then obtain s4 where s4: "internal_insert ex_dec 3 1 [(key_K, 2)] key_K j s3 = (Inr None, s4)" "tx_ok s4"
      "tx_view s4 = (tx_view s3)(3 \<mapsto> node_image ex_dec (Internal 1 [(key_K, 2), (key_K, j)]))"
    using run_internal_insert [OF s3(2) _ s3(3)] by metis
  have "partition_point (\<lambda>(k, _). cmp_values ex_dec k key_J \<noteq> Greater) [(key_K, 2 :: u32)] = 0"
    by (rule partition_point_bound) (auto simp: run_cmp)
  then have d: "descend ex_dec [(key_K, 2)] 1 key_J = 1" by (simp add: descend_def)
  have rec: "insert_rec (Suc (Suc n)) ex_dec key_J 5 False 3 run_index = (Inr None, s4)" for n
    using s1(1) s2(1) s3(1) s4(1) d by (simp add: obind_def)
  have "insert_rec (MAX_TREE_DEPTH + 1) ex_dec key_J 5 False 3 run_index = (Inr None, s4)"
    using rec [of 63] by (simp add: MAX_TREE_DEPTH_def del: insert_rec.simps)
  then have "insert ex_dec \<lparr>bt_root = 3\<rparr> key_J 5 False run_index = (Inr \<lparr>bt_root = 3\<rparr>, s4)"
    by (simp add: insert_def obind_def del: insert_rec.simps Suc_eq_plus1 add_Suc_right One_nat_def)
  moreover have "stored ex_dec (tx_view s4) (run_after m j)"
    using s4(3) s3(7-9) run_view run_nodes j by (auto simp: run_after_def)
  ultimately show ?thesis using that s4(2) s3(5,6) by blast
qed

section \<open>The lookup\<close>

text \<open>Both separators are below the key, so the lookup goes to the last child, which does not have it, and
  to no other.\<close>

lemma run_get:
  assumes ok: "tx_ok (pg, tx)" and st: "stored ex_dec (tx_view (pg, tx)) (run_after m j)" and m: "0 < m" "m < 3"
  obtains pg' where "get ex_dec \<lparr>bt_root = 3\<rparr> Current tx key_L pg = (Inr None, pg')"
proof -
  define v where "v = tx_view (pg, tx)"
  let ?cells = "[(key_K, 2 :: u32), (key_K, j)]"
  have nok: "node_ok ex_dec (Internal 1 ?cells)" by (rule run_nodes(4))
  have ov: "ov ex_dec key_L" using key_ordered [OF ex_dec_laws run_keys(3)] .
  obtain pg1 where r: "op_err BPager (reader_page Current (Some tx) 3) pg = (Inr (node_image ex_dec (Internal 1 ?cells)), pg1)"
      "tx_ok (pg1, tx)" "tx_view (pg1, tx) = v"
    using current.read_page_step [of pg tx v 3] ok st by (auto simp: run_after_def v_def)
  have seek: "cells_seek ex_dec (node_image ex_dec (Internal 1 ?cells)) (offsets ex_dec 4 7 ?cells) key_L gt = Inr 2" for gt
    using cells_seek_ok [OF ex_dec_laws _ internal_page [OF nok], of key_L gt] ov
    by (simp add: le_def run_cmp seek_to_def go_right_def)
  have cc: "cell_child (node_image ex_dec (Internal 1 ?cells)) (offsets ex_dec 4 7 ?cells ! Suc 0) = Inr j"
    using cell_child_ok [OF ex_dec_laws nok, of "Suc 0"] by simp
  define t where "t = TLeaf j (drop m run_split)"
  have "m = 1 \<or> m = 2" using m by linarith
  then have half: "drop m run_split = run_left \<or> drop m run_split = [(key_K, 2)]" by (auto simp: run_split_def run_left_def)
  have t: "stored ex_dec v t" "distinct (pages t)" "root_of t = j" "height t = 0" "entries t = drop m run_split"
    using st by (simp_all add: t_def run_after_def v_def entries_def)
  have "in_order ex_dec t" using half by (auto simp: t_def in_order_def run_left_def item_le_def le_def run_cmp)
  note io = this
  have "fst e = key_K" if "e \<in> set (entries t)" for e using half that by (auto simp: t(5) run_left_def)
  then have none: "found ex_dec key_L (entries t) r \<Longrightarrow> r = None" for r
    using run_cmp(3) by (fastforce simp: found_def split: option.splits)
  obtain pg2 where g: "get_at (Suc 63) ex_dec Current tx key_L j pg1 = (Inr None, pg2)"
    using current.get_at_ok [OF ex_dec_laws ov, of pg1 tx v t "Suc 63"] r(2,3) t(1-4) io none by (metis zero_less_Suc)
  have "get_at (Suc (Suc 63)) ex_dec Current tx key_L 3 pg = (Inr None, pg2)"
    using r(1) g by (subst get_at.simps(2)) (simp add: obind_def cc node_starts_internal [OF ex_dec_laws nok] seek cc LEAF_def INTERNAL_def sub_bytes_def oret_def
        del: op_err_Inr get_at.simps)
  then show ?thesis using that by (simp add: get_def MAX_TREE_DEPTH_def del: get_at.simps)
qed

text \<open>Inserting a key can hide another one. In a non-unique index, in which equal keys may span a
  separator, an insertion that splits the left end of such a run puts the new sibling after the child that holds
  the rest of the run and the greater keys behind it. The order of the tree is lost: a greater key,
  found by a full scan, is no longer found by a lookup.\<close>

theorem insert_hides_key:
  "\<exists>(t :: ex_decimal tree) s v.
     tx_ok s \<and> index_tree ex_dec (tx_view s) t \<and> (key_L, v) \<in> set (entries t) \<and>
     (\<exists>pg tx. insert ex_dec \<lparr>bt_root = root_of t\<rparr> key_J 5 False s = (Inr \<lparr>bt_root = root_of t\<rparr>, (pg, tx)) \<and>
        (\<exists>es pg'. scan ex_dec \<lparr>bt_root = root_of t\<rparr> Current tx pg = (Inr es, pg') \<and> (key_L, v) \<in> set es) \<and>
        (\<exists>pg'. get ex_dec \<lparr>bt_root = root_of t\<rparr> Current tx key_L pg = (Inr None, pg')))"
proof -
  obtain m j s' where i: "insert ex_dec \<lparr>bt_root = 3\<rparr> key_J 5 False run_index = (Inr \<lparr>bt_root = 3\<rparr>, s')" "tx_ok s'"
      "0 < m" "m < 3" "stored ex_dec (tx_view s') (run_after m j)"
    using run_insert .
  obtain pg tx where s': "s' = (pg, tx)" by (cases s')
  note ok = i(2,5) [unfolded s']
  have "root_of (run_after m j) = 3" "height (run_after m j) < MAX_TREE_DEPTH + 1" "(key_L, 4) \<in> set (entries (run_after m j))"
    by (simp_all add: run_after_def MAX_TREE_DEPTH_def entries_def run_right_def)
  then obtain es pg' where "scan ex_dec \<lparr>bt_root = 3\<rparr> Current tx pg = (Inr es, pg')" "(key_L, 4) \<in> set es"
    using current.scan_rec_ok [OF ex_dec_laws, of pg tx _ "run_after m j" "MAX_TREE_DEPTH + 1" None "[]"] ok
    by (auto simp: scan_def scan_limited_def walk_all simp del: scan_rec.simps)
  moreover obtain pg'' where "get ex_dec \<lparr>bt_root = 3\<rparr> Current tx key_L pg = (Inr None, pg'')"
    using run_get [OF ok i(3,4)] .
  moreover have "root_of run_tree = 3" "(key_L, 4) \<in> set (entries run_tree)" by (simp_all add: run_tree_def entries_def run_right_def)
  ultimately show ?thesis
    using i(1) s' run_index_ok(1) run_index_tree by metis
qed

end
