(* ===== verification/Heap.thy ===== *)
theory Heap
  imports Page_Store Encode_Props
begin

text \<open>
  The document heap of \<open>heap.rs\<close>: slotted pages, documents larger than a page on chains of overflow
  pages, and the operations of a table's heap. The state of a writing operation is the heap together
  with the pager and its transaction; on an error every change made before it persists, as in the source.
  Indices and lengths are \<open>usize\<close>; a slice that the source takes is \<open>sub_bytes\<close>.
\<close>

section \<open>Constants, errors, heap\<close>

definition SLOT_SIZE :: nat where "SLOT_SIZE = 4"
definition HEADER_FIXED :: nat where "HEADER_FIXED = 2"
definition OVERFLOW_MARK :: u8 where "OVERFLOW_MARK = 0xFF"
definition CHAIN_MARK :: u8 where "CHAIN_MARK = 0xFE"
definition OVERFLOW_SLOT_HEADER :: nat where "OVERFLOW_SLOT_HEADER = 9"
definition CHAIN_HEADER :: nat where "CHAIN_HEADER = 7"
definition MAX_DOC_SIZE :: nat where "MAX_DOC_SIZE = 16 * 1024 * 1024"

datatype heap_error =
    HPage page_id string
  | HEncode encode_error
  | HPager pager_error
  | DocTooLarge nat nat

record heap =
  heap_pages :: "page_id list"
  overflow_free :: "page_id list"
  dropped :: "page_id list"

record replace_outcome =
  placed :: u64
  moved :: "(u64 \<times> u64) list"

type_synonym 'a heap_read = "(pager, heap_error, 'a) op"
type_synonym 'a store_op = "(pager \<times> tx, heap_error, 'a) op"
type_synonym 'a heap_op = "(heap \<times> (pager \<times> tx), heap_error, 'a) op"

section \<open>Slotted pages\<close>

definition u16_le :: "bytes \<Rightarrow> nat" where
  "u16_le bs = unat (from_le_bytes bs :: u16)"

definition count_of :: "bytes \<Rightarrow> nat" where
  "count_of page' = u16_le (sub_bytes page' 0 2)"

definition slot :: "bytes \<Rightarrow> nat \<Rightarrow> nat \<times> nat" where
  "slot page' i =
     (let b = sub_bytes page' (HEADER_FIXED + i * SLOT_SIZE) 4
      in (u16_le (sub_bytes b 0 2), u16_le (sub_bytes b 2 2)))"

definition set_count :: "bytes \<Rightarrow> nat \<Rightarrow> bytes" where
  "set_count page' n = splice page' 0 (to_le_bytes (word_of_nat n :: u16))"

fun validate_slots :: "bytes \<Rightarrow> page_id \<Rightarrow> nat \<Rightarrow> nat list \<Rightarrow> nat \<Rightarrow> heap_error + nat" where
  "validate_slots page' pid dir_end [] live_bytes = Inr live_bytes"
| "validate_slots page' pid dir_end (i # is) live_bytes =
     (case slot page' i of (off, len) \<Rightarrow>
        if len = 0 then validate_slots page' pid dir_end is live_bytes
        else if off < dir_end \<or> length page' < off + len
          then Inl (HPage pid ''document region out of bounds'')
        else validate_slots page' pid dir_end is (live_bytes + len))"

definition validate_page :: "bytes \<Rightarrow> page_id \<Rightarrow> heap_error + unit" where
  "validate_page page' pid =
     (let n = count_of page'; dir_end = HEADER_FIXED + n * SLOT_SIZE
      in if length page' < dir_end then Inl (HPage pid ''slot directory overflows page'')
         else
           ebind (validate_slots page' pid dir_end [0..<n] 0) (\<lambda>live_bytes.
             if length page' < dir_end + live_bytes
             then Inl (HPage pid ''document regions do not fit beside the slot directory'')
             else Inr ()))"

definition push_slot :: "bytes \<Rightarrow> nat \<Rightarrow> nat \<Rightarrow> bytes" where
  "push_slot page' off len =
     (let i = count_of page'; pos = HEADER_FIXED + i * SLOT_SIZE;
          page1 = splice page' pos (to_le_bytes (word_of_nat off :: u16));
          page2 = splice page1 (pos + 2) (to_le_bytes (word_of_nat len :: u16))
      in set_count page2 (i + 1))"

definition content_start :: "bytes \<Rightarrow> nat" where
  "content_start page' =
     fold (\<lambda>i m. case slot page' i of (off, len) \<Rightarrow> if 0 < len then min m off else m) [0..<count_of page'] PAGE_SIZE"

definition free_space :: "bytes \<Rightarrow> nat" where
  "free_space page' = content_start page' - (HEADER_FIXED + count_of page' * SLOT_SIZE)"

definition pack_loc :: "page_id \<Rightarrow> nat \<Rightarrow> u64" where
  "pack_loc page' s = push_bit 16 (ucast page' :: u64) OR ((word_of_nat s :: u64) AND 0xFFFF)"

definition unpack_loc :: "u64 \<Rightarrow> page_id \<times> nat" where
  "unpack_loc loc = (ucast (drop_bit 16 loc) :: u32, unat (loc AND 0xFFFF))"

text \<open>The documents of the live slots, with their indices.\<close>

definition live_slots :: "bytes \<Rightarrow> (nat \<times> bytes) list" where
  "live_slots page' =
     concat (map (\<lambda>i. case slot page' i of (off, len) \<Rightarrow> if 0 < len then [(i, sub_bytes page' off len)] else [])
       [0..<count_of page'])"

text \<open>The loop that packs documents from the page end; the state is the page and \<open>end\<close>.\<close>

definition pack_doc :: "bytes \<Rightarrow> bytes \<times> nat \<Rightarrow> bytes \<times> nat" where
  "pack_doc b s =
     (case s of (page', end') \<Rightarrow>
        (let end'' = end' - length b in (push_slot (splice page' end'' b) end'' (length b), end'')))"

definition pack_docs :: "bytes list \<Rightarrow> bytes" where
  "pack_docs bs = fst (fold pack_doc bs (replicate PAGE_SIZE 0, PAGE_SIZE))"

definition repack :: "bytes \<Rightarrow> (nat \<times> nat) list \<times> bytes" where
  "repack page' =
     (let live = live_slots page'
      in (map (\<lambda>(new, old, _). (old, new)) (enumerate 0 live), pack_docs (map snd live)))"

definition tombstone :: "bytes \<Rightarrow> nat \<Rightarrow> bytes" where
  "tombstone page' i =
     (let pos = HEADER_FIXED + i * SLOT_SIZE;
          page1 = splice page' pos (to_le_bytes (word_of_nat PAGE_SIZE :: u16))
      in splice page1 (pos + 2) (to_le_bytes (0 :: u16)))"

definition relocate :: "page_id \<Rightarrow> (nat \<times> nat) list \<Rightarrow> (u64 \<times> u64) list" where
  "relocate pid = map (\<lambda>(old, new). (pack_loc pid old, pack_loc pid new))"

end
