(* ===== verification/Heap_Ops.thy ===== *)
theory Heap_Ops
  imports Heap
begin

text \<open>
  The operations of \<open>heap.rs\<close> on pages and on a table's heap. The chain walks of the source count their
  hops and fail when there are more than \<open>total / min_chunk + 2\<close>; the model counts the hops that are left,
  so the walk is structural recursion and the count reaching zero is that failure.
\<close>

section \<open>Reading\<close>

definition load_page_owned :: "page_reader \<Rightarrow> tx option \<Rightarrow> page_id \<Rightarrow> bytes heap_read" where
  "load_page_owned reader t i = op_err HPager (reader_page reader t i)"

definition overflow_slot_header :: "bytes \<Rightarrow> page_id \<Rightarrow> heap_error + nat \<times> page_id" where
  "overflow_slot_header content pid =
     (if length content < OVERFLOW_SLOT_HEADER then Inl (HPage pid ''overflow slot truncated'')
      else Inr (unat (from_le_bytes (sub_bytes content 1 4) :: u32), from_le_bytes (sub_bytes content 5 4) :: u32))"

definition chain_header :: "bytes \<Rightarrow> page_id \<Rightarrow> heap_error + page_id \<times> nat" where
  "chain_header page' pid =
     (if page' = [] \<or> hd page' \<noteq> CHAIN_MARK then Inl (HPage pid ''overflow chain corrupt (bad marker)'')
      else Inr (from_le_bytes (sub_bytes page' 1 4) :: u32, u16_le (sub_bytes page' 5 2)))"

definition min_chunk :: nat where
  "min_chunk = PAGE_SIZE - CHAIN_HEADER"

text \<open>The hops the guard allows.\<close>

definition hop_limit :: "nat \<Rightarrow> nat" where
  "hop_limit total_len = total_len div min_chunk + 3"

primrec assemble_chain ::
    "nat \<Rightarrow> page_reader \<Rightarrow> tx option \<Rightarrow> page_id \<Rightarrow> nat \<Rightarrow> page_id \<Rightarrow> page_id set \<Rightarrow> bytes \<Rightarrow> bytes heap_read" where
  "assemble_chain 0 reader t pid total_len nxt seen out =
     (if nxt = 0 then oret out else ofail (HPage pid ''overflow chain corrupt''))"
| "assemble_chain (Suc hops) reader t pid total_len nxt seen out =
     (if nxt = 0 then oret out
      else if nxt \<in> seen then ofail (HPage pid ''overflow chain corrupt'')
      else
        obind (load_page_owned reader t nxt) (\<lambda>chain_page.
          obind (olift (chain_header chain_page nxt)) (\<lambda>(nxt', l).
            if length chain_page < CHAIN_HEADER + l \<or> total_len < length out + l
            then ofail (HPage nxt ''overflow chain corrupt (bad length)'')
            else assemble_chain hops reader t pid total_len nxt' (Set.insert nxt seen)
                   (out @ sub_bytes chain_page CHAIN_HEADER l))))"

definition slot_document_bytes ::
    "page_reader \<Rightarrow> tx option \<Rightarrow> page_id \<Rightarrow> bytes \<Rightarrow> nat \<Rightarrow> nat \<Rightarrow> bytes heap_read" where
  "slot_document_bytes reader t pid page' off len =
     (let content = sub_bytes page' off len
      in if content = [] \<or> hd content \<noteq> OVERFLOW_MARK then oret content
         else
           obind (olift (overflow_slot_header content pid)) (\<lambda>(total_len, nxt).
             if MAX_DOC_SIZE < total_len
             then ofail (HPage pid ''overflow chain corrupt (total exceeds max document size)'')
             else
               obind (assemble_chain (hop_limit total_len) reader t pid total_len nxt {} (drop OVERFLOW_SLOT_HEADER content)) (\<lambda>out.
                 if length out \<noteq> total_len then ofail (HPage pid ''overflow chain corrupt (short read)'')
                 else oret out)))"

text \<open>Decoding one document: an object, and nothing behind it.\<close>

definition decode_document :: "'d decimal_ops \<Rightarrow> page_id \<Rightarrow> bytes \<Rightarrow> heap_error + 'd object" where
  "decode_document D pid bs =
     ebind (emap_err HEncode (decode_prefix D bs)) (\<lambda>(v, used).
       if used \<noteq> length bs then Inl (HPage pid ''document slot has trailing bytes'')
       else (case v of Object doc \<Rightarrow> Inr doc | _ \<Rightarrow> Inl (HPage pid ''non-object document root'')))"

text \<open>The loop over the live slots of one page.\<close>

definition over_slots ::
    "page_reader \<Rightarrow> tx option \<Rightarrow> page_id \<Rightarrow> (nat \<Rightarrow> bytes \<Rightarrow> 'b \<Rightarrow> 'b heap_read) \<Rightarrow> 'b \<Rightarrow> 'b heap_read" where
  "over_slots reader t pid f acc =
     obind (load_page_owned reader t pid) (\<lambda>page'.
       obind (olift (validate_page page' pid)) (\<lambda>_.
         for_each (\<lambda>i acc.
           case slot page' i of (off, len) \<Rightarrow>
             if len = 0 then oret acc
             else obind (slot_document_bytes reader t pid page' off len) (\<lambda>bs. f i bs acc)) [0..<count_of page'] acc))"

definition heap_scan :: "'d decimal_ops \<Rightarrow> heap \<Rightarrow> page_reader \<Rightarrow> 'd object list heap_read" where
  "heap_scan D h reader =
     for_each (\<lambda>pid. over_slots reader None pid (\<lambda>i bs out. olift (ebind (decode_document D pid bs) (\<lambda>doc. Inr (out @ [doc])))))
       (heap_pages h) []"

definition live_count :: "heap \<Rightarrow> page_reader \<Rightarrow> u64 heap_read" where
  "live_count h reader =
     for_each (\<lambda>pid n.
       obind (load_page_owned reader None pid) (\<lambda>page'.
         obind (olift (validate_page page' pid)) (\<lambda>_.
           oret (fold (\<lambda>i n. if snd (slot page' i) \<noteq> 0 then n + 1 else n) [0..<count_of page'] n))))
       (heap_pages h) 0"

text \<open>\<open>for_each_doc\<close>: the visitor has a state of its own and its own errors, \<open>from_heap\<close> is \<open>E::from\<close>.\<close>

definition on_pager :: "(pager, 'e, 'a) op \<Rightarrow> (pager \<times> 'v, 'e, 'a) op" where
  "on_pager m s = (case s of (pg, v) \<Rightarrow> (case m pg of (r, pg') \<Rightarrow> (r, (pg', v))))"

definition on_visitor :: "('v, 'e, 'a) op \<Rightarrow> (pager \<times> 'v, 'e, 'a) op" where
  "on_visitor m s = (case s of (pg, v) \<Rightarrow> (case m v of (r, v') \<Rightarrow> (r, (pg, v'))))"

definition for_each_doc ::
    "heap \<Rightarrow> page_reader \<Rightarrow> (heap_error \<Rightarrow> 'e) \<Rightarrow> (u64 \<Rightarrow> bytes \<Rightarrow> ('v, 'e, unit) op) \<Rightarrow> (pager \<times> 'v, 'e, unit) op" where
  "for_each_doc h reader from_heap visit =
     for_each (\<lambda>pid _.
       obind (on_pager (op_err from_heap (load_page_owned reader None pid))) (\<lambda>page'.
         obind (olift (emap_err from_heap (validate_page page' pid))) (\<lambda>_.
           for_each (\<lambda>i _.
             case slot page' i of (off, len) \<Rightarrow>
               if len = 0 then oret ()
               else
                 obind (on_pager (op_err from_heap (slot_document_bytes reader None pid page' off len))) (\<lambda>bs.
                   on_visitor (visit (pack_loc pid i) bs))) [0..<count_of page'] ())))
       (heap_pages h) ()"

definition check_page_owned :: "heap \<Rightarrow> page_id \<Rightarrow> heap_error + unit" where
  "check_page_owned h pid =
     (if pid \<in> set (heap_pages h) then Inr () else Inl (HPage pid ''page not owned by this heap''))"

definition page_docs :: "'d decimal_ops \<Rightarrow> heap \<Rightarrow> page_reader \<Rightarrow> tx \<Rightarrow> page_id \<Rightarrow> (u64 \<times> 'd object) list heap_read" where
  "page_docs D h reader t pid =
     obind (olift (check_page_owned h pid)) (\<lambda>_.
       over_slots reader (Some t) pid
         (\<lambda>i bs out. olift (ebind (decode_document D pid bs) (\<lambda>doc. Inr (out @ [(pack_loc pid i, doc)])))) [])"

definition doc_at :: "'d decimal_ops \<Rightarrow> heap \<Rightarrow> page_reader \<Rightarrow> u64 \<Rightarrow> 'd object option heap_read" where
  "doc_at D h reader loc =
     (case unpack_loc loc of (pid, slot_i) \<Rightarrow>
        obind (olift (check_page_owned h pid)) (\<lambda>_.
          obind (load_page_owned reader None pid) (\<lambda>page'.
            obind (olift (validate_page page' pid)) (\<lambda>_.
              if count_of page' \<le> slot_i then ofail (HPage pid ''slot out of range'')
              else
                (case slot page' slot_i of (off, len) \<Rightarrow>
                   if len = 0 then oret None
                   else
                     obind (slot_document_bytes reader None pid page' off len) (\<lambda>bs.
                       olift (ebind (decode_document D pid bs) (\<lambda>doc. Inr (Some doc)))))))))"

section \<open>Overflow chains in a transaction\<close>

definition tx_load :: "page_id \<Rightarrow> bytes store_op" where
  "tx_load i = with_tx (\<lambda>t. load_page_owned Current (Some t) i)"

definition tx_put :: "page_id \<Rightarrow> bytes \<Rightarrow> unit store_op" where
  "tx_put i d = op_err HPager (write_page i 0 d)"

text \<open>The validation walk shared by \<open>recycle_chain\<close> and \<open>free_overflow_chains\<close>: the pages and the length.\<close>

primrec walk_chain :: "nat \<Rightarrow> nat \<Rightarrow> page_id set \<Rightarrow> page_id \<Rightarrow> page_id list \<Rightarrow> nat \<Rightarrow> (page_id list \<times> nat) store_op" where
  "walk_chain 0 total_len own nxt chain assembled =
     (if nxt = 0 then oret (chain, assembled) else ofail (HPage nxt ''overflow chain corrupt (cycle)''))"
| "walk_chain (Suc hops) total_len own nxt chain assembled =
     (if nxt = 0 then oret (chain, assembled)
      else if nxt \<in> set chain then ofail (HPage nxt ''overflow chain corrupt (cycle)'')
      else if nxt \<in> own then ofail (HPage nxt ''overflow chain corrupt (chain into heap page)'')
      else
        obind (tx_load nxt) (\<lambda>page'.
          obind (olift (chain_header page' nxt)) (\<lambda>(nxt', l).
            if length page' < CHAIN_HEADER + l \<or> total_len < assembled + l
            then ofail (HPage nxt ''overflow chain corrupt (bad length)'')
            else walk_chain hops total_len own nxt' (chain @ [nxt]) (assembled + l))))"

definition on_store :: "'a store_op \<Rightarrow> 'a heap_op" where
  "on_store m s = (case s of (h, st) \<Rightarrow> (case m st of (r, st') \<Rightarrow> (r, (h, st'))))"

definition on_heap :: "(heap \<Rightarrow> heap) \<Rightarrow> unit heap_op" where
  "on_heap f s = (case s of (h, st) \<Rightarrow> (Inr (), (f h, st)))"

definition get_heap :: "heap heap_op" where
  "get_heap s = (Inr (fst s), s)"

definition recycle_chain :: "page_id \<Rightarrow> nat \<Rightarrow> nat \<Rightarrow> unit heap_op" where
  "recycle_chain head total_len inline_len =
     (if MAX_DOC_SIZE < total_len
      then ofail (HPage head ''overflow chain corrupt (total exceeds max document size)'')
      else
        obind get_heap (\<lambda>h.
          obind (on_store (walk_chain (hop_limit total_len) total_len (set (heap_pages h)) head [] 0)) (\<lambda>(chain, assembled).
            if inline_len + assembled \<noteq> total_len then ofail (HPage head ''overflow chain corrupt (short chain)'')
            else
              for_each (\<lambda>i _.
                obind (on_store (tx_put i (replicate PAGE_SIZE 0))) (\<lambda>_.
                  on_heap (\<lambda>h. h\<lparr>overflow_free := overflow_free h @ [i]\<rparr>))) chain ())))"

definition free_overflow_chains :: "page_id list \<Rightarrow> unit store_op" where
  "free_overflow_chains ids =
     for_each (\<lambda>pid _.
       obind (tx_load pid) (\<lambda>page'.
         obind (olift (validate_page page' pid)) (\<lambda>_.
           for_each (\<lambda>i _.
             case slot page' i of (off, len) \<Rightarrow>
               (let content = sub_bytes page' off len
                in if len = 0 then oret ()
                   else if content = [] \<or> hd content \<noteq> OVERFLOW_MARK then oret ()
                   else
                     obind (olift (overflow_slot_header content pid)) (\<lambda>(total_len, head).
                       if MAX_DOC_SIZE < total_len
                       then ofail (HPage pid ''overflow chain corrupt (total exceeds max document size)'')
                       else
                         obind (walk_chain (hop_limit total_len) total_len (set ids) head [] 0) (\<lambda>(chain, assembled).
                           if length content - OVERFLOW_SLOT_HEADER + assembled \<noteq> total_len
                           then ofail (HPage pid ''overflow chain corrupt (short chain)'')
                           else for_each (\<lambda>i _. op_err HPager (free_page i)) chain ())))) [0..<count_of page'] ())))
       ids ()"

section \<open>Insertion\<close>

text \<open>A document put into the gap of a page, and its slot.\<close>

definition put_doc :: "bytes \<Rightarrow> bytes \<Rightarrow> bytes" where
  "put_doc page' content =
     (let off = content_start page' - length content
      in push_slot (splice page' off content) off (length content))"

text \<open>The chunks of a chain, \<open>slice::chunks\<close>.\<close>

function chunks :: "nat \<Rightarrow> 'a list \<Rightarrow> 'a list list" where
  "chunks n xs = (if n = 0 \<or> xs = [] then [] else take n xs # chunks n (drop n xs))"
  by pat_completeness auto
termination
  by (relation "measure (\<lambda>(_, xs). length xs)") auto

declare chunks.simps [simp del]

text \<open>The pages of a new chain: the free list first, fresh pages for the remainder.\<close>

primrec take_chain_pages :: "page_id set \<Rightarrow> nat \<Rightarrow> page_id list \<Rightarrow> page_id list heap_op" where
  "take_chain_pages own 0 chain = oret chain"
| "take_chain_pages own (Suc n) chain =
     obind get_heap (\<lambda>h.
       if overflow_free h = [] then
         obind (on_store (op_err HPager allocate_page)) (\<lambda>pid. take_chain_pages own n (chain @ [pid]))
       else
         (let pid = List.last (overflow_free h)
          in obind (on_heap (\<lambda>h. h\<lparr>overflow_free := butlast (overflow_free h)\<rparr>)) (\<lambda>_.
               if pid \<in> own then ofail (HPage pid ''overflow free list names a live page of this heap'')
               else take_chain_pages own n (chain @ [pid]))))"

definition chain_page :: "page_id \<Rightarrow> bytes \<Rightarrow> bytes" where
  "chain_page nxt chunk =
     (let page0 = replicate PAGE_SIZE 0; page1 = page0[0 := CHAIN_MARK];
          page2 = splice page1 1 (to_le_bytes nxt);
          page3 = splice page2 5 (to_le_bytes (word_of_nat (length chunk) :: u16))
      in splice page3 7 chunk)"

fun write_chain :: "page_id list \<Rightarrow> bytes list \<Rightarrow> unit store_op" where
  "write_chain (pid # ids) (chunk # cs) =
     obind (tx_put pid (chain_page (case ids of nxt # _ \<Rightarrow> nxt | [] \<Rightarrow> 0) chunk)) (\<lambda>_. write_chain ids cs)"
| "write_chain _ _ = oret ()"

definition append_page :: "bytes \<Rightarrow> u64 heap_op" where
  "append_page content =
     obind (on_store (op_err HPager allocate_page)) (\<lambda>pid.
       (let off = PAGE_SIZE - length content;
            page' = push_slot (splice (replicate PAGE_SIZE 0) off content) off (length content)
        in obind (on_store (tx_put pid page')) (\<lambda>_.
             obind (on_heap (\<lambda>h. h\<lparr>heap_pages := heap_pages h @ [pid]\<rparr>)) (\<lambda>_. oret (pack_loc pid 0)))))"

definition overflow_content :: "nat \<Rightarrow> page_id \<Rightarrow> bytes \<Rightarrow> bytes" where
  "overflow_content total_len head inline =
     OVERFLOW_MARK # to_le_bytes (word_of_nat total_len :: u32) @ to_le_bytes head @ inline"

text \<open>\<open>last_free\<close> is the free space of the last page of the heap, if there is one.\<close>

definition use_last :: "nat option \<Rightarrow> bool" where
  "use_last last_free = (case last_free of Some fs \<Rightarrow> SLOT_SIZE + OVERFLOW_SLOT_HEADER \<le> fs | None \<Rightarrow> False)"

definition max_inline :: "nat option \<Rightarrow> nat" where
  "max_inline last_free =
     (if use_last last_free then the last_free - (SLOT_SIZE + OVERFLOW_SLOT_HEADER)
      else PAGE_SIZE - HEADER_FIXED - SLOT_SIZE - OVERFLOW_SLOT_HEADER)"

text \<open>The second half of \<open>insert_overflow\<close>: the slot on the main page, after the chain has been written.\<close>

definition place_overflow :: "bool \<Rightarrow> page_id \<Rightarrow> bytes \<Rightarrow> u64 heap_op" where
  "place_overflow on_last lst content =
     (if \<not> on_last then append_page content
      else
        obind (on_store (tx_load lst)) (\<lambda>page'.
          obind (olift (validate_page page' lst)) (\<lambda>_.
            (let page'' = put_doc page' content
             in obind (on_store (tx_put lst page'')) (\<lambda>_. oret (pack_loc lst (count_of page'' - 1)))))))"

definition insert_overflow :: "bytes \<Rightarrow> u64 heap_op" where
  "insert_overflow bs =
     obind get_heap (\<lambda>h.
       let lst = List.last (heap_pages h)
       in obind (if heap_pages h = [] then oret None
                 else
                   obind (on_store (tx_load lst)) (\<lambda>page'.
                     obind (olift (validate_page page' lst)) (\<lambda>_. oret (Some (free_space page'))))) (\<lambda>last_free.
            let inline_len = min (max_inline last_free) (length bs);
                cs = chunks min_chunk (drop inline_len bs)
            in obind (take_chain_pages (set (heap_pages h)) (length cs) []) (\<lambda>chain.
                 obind (on_store (write_chain chain cs)) (\<lambda>_.
                   place_overflow (use_last last_free) lst
                     (overflow_content (length bs) (case chain of c # _ \<Rightarrow> c | [] \<Rightarrow> 0) (take inline_len bs))))))"

definition heap_insert :: "'d decimal_ops \<Rightarrow> 'd object \<Rightarrow> u64 heap_op" where
  "heap_insert D doc =
     obind (olift (emap_err HEncode (encode_object D doc))) (\<lambda>bs.
       if MAX_DOC_SIZE < length bs then ofail (DocTooLarge (length bs) MAX_DOC_SIZE)
       else if PAGE_SIZE - HEADER_FIXED < length bs + SLOT_SIZE then insert_overflow bs
       else
         obind get_heap (\<lambda>h.
           obind (if heap_pages h = [] then oret None
                  else
                    (let lst = List.last (heap_pages h)
                     in obind (on_store (tx_load lst)) (\<lambda>page'.
                          obind (olift (validate_page page' lst)) (\<lambda>_.
                            if length bs + SLOT_SIZE \<le> free_space page' then
                              (let page'' = put_doc page' bs
                               in obind (on_store (tx_put lst page'')) (\<lambda>_. oret (Some (pack_loc lst (count_of page'' - 1)))))
                            else oret None)))) (\<lambda>p.
             case p of Some loc \<Rightarrow> oret loc | None \<Rightarrow> append_page bs)))"

section \<open>Replacement and removal\<close>

definition retire_if_empty :: "page_id \<Rightarrow> bytes \<Rightarrow> heap \<Rightarrow> heap" where
  "retire_if_empty pid page' h =
     (if count_of page' = 0
      then h\<lparr>heap_pages := filter (\<lambda>p. p \<noteq> pid) (heap_pages h), dropped := dropped h @ [pid]\<rparr> else h)"

text \<open>Releasing the chain of a slot that is about to die.\<close>

definition recycle_slot :: "page_id \<Rightarrow> bytes \<Rightarrow> unit heap_op" where
  "recycle_slot pid content =
     (if hd content = OVERFLOW_MARK then
        obind (olift (overflow_slot_header content pid)) (\<lambda>(total_len, head).
          recycle_chain head total_len (length content - OVERFLOW_SLOT_HEADER))
      else oret ())"

definition heap_replace :: "'d decimal_ops \<Rightarrow> u64 \<Rightarrow> 'd object \<Rightarrow> replace_outcome heap_op" where
  "heap_replace D loc doc =
     obind (olift (emap_err HEncode (encode_object D doc))) (\<lambda>bs.
       if MAX_DOC_SIZE < length bs then ofail (DocTooLarge (length bs) MAX_DOC_SIZE)
       else
         (case unpack_loc loc of (pid, slot_i) \<Rightarrow>
            obind get_heap (\<lambda>h.
            obind (olift (check_page_owned h pid)) (\<lambda>_.
            obind (on_store (tx_load pid)) (\<lambda>page'.
            obind (olift (validate_page page' pid)) (\<lambda>_.
              if count_of page' \<le> slot_i then ofail (HPage pid ''slot out of range'')
              else
                (case slot page' slot_i of (off, len) \<Rightarrow>
                   if len = 0 then ofail (HPage pid ''replace of a dead slot'')
                   else
                     obind (recycle_slot pid (sub_bytes page' off len)) (\<lambda>_.
                       let entries = map (\<lambda>(i, b). if i = slot_i then (None, bs) else (Some i, b)) (live_slots page');
                           total_len = sum_list (map (\<lambda>(_, b). length b) entries)
                       in if PAGE_SIZE < HEADER_FIXED + length entries * SLOT_SIZE + total_len then
                            (case repack (tombstone page' slot_i) of (moves, page'') \<Rightarrow>
                               obind (on_heap (retire_if_empty pid page'')) (\<lambda>_.
                               obind (on_store (tx_put pid page'')) (\<lambda>_.
                               obind (heap_insert D doc) (\<lambda>new_loc.
                                 oret \<lparr>placed = new_loc, moved = relocate pid moves\<rparr>))))
                          else
                            (let placed_slot = fold (\<lambda>(new, old, _) p. if old = None then new else p) (enumerate 0 entries) 0;
                                 moves = List.map_filter (\<lambda>(new, old, _). case old of Some o' \<Rightarrow> if o' \<noteq> new then Some (o', new) else None
                                                                                    | None \<Rightarrow> None) (enumerate 0 entries)
                             in obind (on_store (tx_put pid (pack_docs (map snd entries)))) (\<lambda>_.
                                  oret \<lparr>placed = pack_loc pid placed_slot, moved = relocate pid moves\<rparr>)))))))))) "

text \<open>\<open>BTreeMap\<close> order of the pages, slots sorted and without repetition.\<close>

definition slots_of_page :: "u64 list \<Rightarrow> page_id \<Rightarrow> nat list" where
  "slots_of_page locs pid = sorted_list_of_set (snd ` {x \<in> set (map unpack_loc locs). fst x = pid})"

definition affected_pages :: "u64 list \<Rightarrow> page_id list" where
  "affected_pages locs = sorted_list_of_set (set (map (fst \<circ> unpack_loc) locs))"

definition kill_slot :: "page_id \<Rightarrow> nat \<Rightarrow> nat \<Rightarrow> bytes \<Rightarrow> bytes heap_op" where
  "kill_slot pid n s page' =
     (if n \<le> s then ofail (HPage pid ''slot out of range'')
      else
        (case slot page' s of (off, len) \<Rightarrow>
           if len = 0 then oret page'
           else obind (recycle_slot pid (sub_bytes page' off len)) (\<lambda>_. oret (tombstone page' s))))"

definition remove_from_page :: "page_id \<Rightarrow> nat list \<Rightarrow> (u64 \<times> u64) list heap_op" where
  "remove_from_page pid slots =
     obind (on_store (tx_load pid)) (\<lambda>page'.
       obind (olift (validate_page page' pid)) (\<lambda>_.
         obind (for_each (kill_slot pid (count_of page')) slots page') (\<lambda>page'.
           case repack page' of (moves, page'') \<Rightarrow>
             obind (on_store (tx_put pid page'')) (\<lambda>_.
               obind (on_heap (retire_if_empty pid page'')) (\<lambda>_. oret (relocate pid moves))))))"

definition remove_many :: "u64 list \<Rightarrow> (u64 \<times> u64) list heap_op" where
  "remove_many locs =
     obind get_heap (\<lambda>h.
       obind (for_each (\<lambda>pid _. olift (check_page_owned h pid)) (affected_pages locs) ()) (\<lambda>_.
         for_each (\<lambda>pid all_moves.
           obind (remove_from_page pid (slots_of_page locs pid)) (\<lambda>moves. oret (all_moves @ moves)))
           (affected_pages locs) []))"

end
