(* ===== verification/Heap_Pages.thy ===== *)
theory Heap_Pages
  imports Heap_Ops
begin

text \<open>
  Slotted pages as lists of documents. \<open>page_docs_of\<close> reads a page as the list of its slots, \<open>None\<close> for a
  tombstone; the page operations are shown to be the list operations they mean, with every slice inside the page.
\<close>

lemmas heap_consts = SLOT_SIZE_def HEADER_FIXED_def OVERFLOW_SLOT_HEADER_def CHAIN_HEADER_def PAGE_SIZE_def

declare add_2_eq_Suc [simp del] add_2_eq_Suc' [simp del]

section \<open>The slot directory\<close>

lemma sub_sub_bytes: "off' + m \<le> n \<Longrightarrow> sub_bytes (sub_bytes bs off n) off' m = sub_bytes bs (off + off') m"
  by (simp add: sub_bytes_def drop_take min_absorb1 add.commute)

lemma slot_eq: "slot p i = (u16_le (sub_bytes p (2 + 4 * i) 2), u16_le (sub_bytes p (4 + 4 * i) 2))"
  by (simp add: slot_def Let_def heap_consts sub_sub_bytes mult.commute add.commute)

lemma u16_le_word: "n < 65536 \<Longrightarrow> u16_le (to_le_bytes (word_of_nat n :: u16)) = n"
  by (simp add: u16_le_def unat_of_nat)

text \<open>What \<open>push_slot\<close> does.\<close>

lemma push_slot_eq:
  "push_slot p off len = splice (splice (splice p (2 + 4 * count_of p) (to_le_bytes (word_of_nat off :: u16)))
     (4 + 4 * count_of p) (to_le_bytes (word_of_nat len :: u16))) 0 (to_le_bytes (word_of_nat (count_of p + 1) :: u16))"
  by (simp add: push_slot_def set_count_def Let_def heap_consts mult.commute add.commute)

lemma push_slot_length: "length p = PAGE_SIZE \<Longrightarrow> 6 + 4 * count_of p \<le> PAGE_SIZE \<Longrightarrow> length (push_slot p off len) = PAGE_SIZE"
  by (simp add: push_slot_eq PAGE_SIZE_def)

lemma push_slot_count:
  assumes "length p = PAGE_SIZE" and "6 + 4 * count_of p \<le> PAGE_SIZE"
  shows "count_of (push_slot p off len) = count_of p + 1"
proof -
  have "sub_bytes (push_slot p off len) 0 2 = to_le_bytes (word_of_nat (count_of p + 1) :: u16)"
    unfolding push_slot_eq by (rule sub_bytes_splice_same) (use assms in \<open>simp_all add: PAGE_SIZE_def\<close>)
  then show ?thesis
    using assms(2) u16_le_word [of "count_of p + 1"] by (subst count_of_def) (simp add: PAGE_SIZE_def)
qed

lemma push_slot_sub:
  assumes "length p = PAGE_SIZE" and "6 + 4 * count_of p \<le> PAGE_SIZE" and "6 + 4 * count_of p \<le> i"
  shows "sub_bytes (push_slot p off len) i n = sub_bytes p i n"
  using assms by (simp add: push_slot_eq PAGE_SIZE_def sub_bytes_splice_after)

lemma push_slot_old:
  assumes "length p = PAGE_SIZE" and "6 + 4 * count_of p \<le> PAGE_SIZE" and "i < count_of p"
  shows "slot (push_slot p off len) i = slot p i"
  using assms by (simp add: slot_eq push_slot_eq PAGE_SIZE_def sub_bytes_splice_after sub_bytes_splice_before)

lemma push_slot_new:
  assumes "length p = PAGE_SIZE" and "6 + 4 * count_of p \<le> PAGE_SIZE" and "off < 65536" and "len < 65536"
  shows "slot (push_slot p off len) (count_of p) = (off, len)"
  using assms by (simp add: slot_eq push_slot_eq PAGE_SIZE_def sub_bytes_splice_after sub_bytes_splice_before
      sub_bytes_splice_same u16_le_word)

section \<open>Validated pages\<close>

definition live_len :: "bytes \<Rightarrow> nat" where
  "live_len p = sum_list (map (\<lambda>i. snd (slot p i)) [0..<count_of p])"

definition slot_in :: "bytes \<Rightarrow> nat \<Rightarrow> bool" where
  "slot_in p i \<longleftrightarrow> (case slot p i of (off, len) \<Rightarrow> 0 < len \<longrightarrow> 2 + 4 * count_of p \<le> off \<and> off + len \<le> PAGE_SIZE)"

definition valid_page :: "bytes \<Rightarrow> bool" where
  "valid_page p \<longleftrightarrow> length p = PAGE_SIZE \<and> 2 + 4 * count_of p + live_len p \<le> PAGE_SIZE \<and> (\<forall>i < count_of p. slot_in p i)"

lemma validate_slots_eq:
  assumes "length p = PAGE_SIZE"
  shows "validate_slots p pid (2 + 4 * count_of p) is n =
    (if \<forall>i \<in> set is. slot_in p i then Inr (n + sum_list (map (\<lambda>i. snd (slot p i)) is)) else Inl (HPage pid ''document region out of bounds''))"
  using assms by (induction "is" arbitrary: n) (auto simp: slot_in_def case_prod_beta)

lemma validate_page_iff: "length p = PAGE_SIZE \<Longrightarrow> validate_page p pid = Inr () \<longleftrightarrow> valid_page p"
  using validate_slots_eq [of p pid "[0..<count_of p]" 0]
  by (auto simp: validate_page_def Let_def valid_page_def live_len_def heap_consts mult.commute)

lemma valid_page_validate: "valid_page p \<Longrightarrow> validate_page p pid = Inr ()"
  using validate_page_iff [of p pid] by (simp add: valid_page_def)

section \<open>Pages as lists\<close>

definition slot_doc :: "bytes \<Rightarrow> nat \<Rightarrow> bytes option" where
  "slot_doc p i = (case slot p i of (off, len) \<Rightarrow> if len = 0 then None else Some (sub_bytes p off len))"

definition page_docs_of :: "bytes \<Rightarrow> bytes option list" where
  "page_docs_of p = map (slot_doc p) [0..<count_of p]"

definition somes :: "'a option list \<Rightarrow> 'a list" where
  "somes xs = List.map_filter id xs"

lemma somes_simps [simp]: "somes [] = []" "somes (None # xs) = somes xs" "somes (Some x # xs) = x # somes xs" "somes (xs @ ys) = somes xs @ somes ys"
  "somes (map Some zs) = zs"
  by (simp_all add: somes_def List.map_filter_def comp_def)

lemma length_page_docs_of [simp]: "length (page_docs_of p) = count_of p"
  by (simp add: page_docs_of_def)

lemma page_docs_of_nth: "i < count_of p \<Longrightarrow> page_docs_of p ! i = slot_doc p i"
  by (simp add: page_docs_of_def)

lemma slot_doc_length:
  assumes "valid_page p" and "i < count_of p"
  shows "snd (slot p i) = (case slot_doc p i of Some b \<Rightarrow> length b | None \<Rightarrow> 0)"
  using assms by (auto simp: slot_doc_def valid_page_def slot_in_def split: prod.splits)

lemma slot_doc_nonempty: "valid_page p \<Longrightarrow> i < count_of p \<Longrightarrow> slot_doc p i = Some b \<Longrightarrow> b \<noteq> []"
  using slot_doc_length [of p i] by (auto simp: slot_doc_def split: prod.splits if_splits)

lemma live_len_docs: "valid_page p \<Longrightarrow> live_len p = sum_list (map length (somes (page_docs_of p)))"
proof -
  assume v: "valid_page p"
  have "sum_list (map (\<lambda>i. snd (slot p i)) is) = sum_list (map length (somes (map (slot_doc p) is)))" if "set is \<subseteq> {..<count_of p}" for "is"
    using that by (induction "is") (auto simp: slot_doc_length [OF v] split: option.splits)
  from this [of "[0..<count_of p]"] show ?thesis by (simp add: live_len_def page_docs_of_def atLeast0LessThan)
qed

lemma live_slots_docs: "map snd (live_slots p) = somes (page_docs_of p)"
proof -
  have "map snd (concat (map (\<lambda>i. case slot p i of (off, len) \<Rightarrow> if 0 < len then [(i, sub_bytes p off len)] else []) is)) =
      somes (map (slot_doc p) is)" for "is"
    by (induction "is") (auto simp: slot_doc_def split: prod.splits)
  then show ?thesis by (simp add: live_slots_def page_docs_of_def)
qed

section \<open>Adding a document\<close>

lemma content_start_fold:
  "fold (\<lambda>i m. case slot p i of (off, len) \<Rightarrow> if 0 < len then min m off else m) is m0 \<le> m0 \<and>
   (\<forall>i \<in> set is. 0 < snd (slot p i) \<longrightarrow>
     fold (\<lambda>i m. case slot p i of (off, len) \<Rightarrow> if 0 < len then min m off else m) is m0 \<le> fst (slot p i))"
proof (induction "is" arbitrary: m0)
  case (Cons j js)
  define m1 where "m1 = (case slot p j of (off, len) \<Rightarrow> if 0 < len then min m0 off else m0)"
  have "m1 \<le> m0" "0 < snd (slot p j) \<Longrightarrow> m1 \<le> fst (slot p j)" by (auto simp: m1_def case_prod_beta)
  then show ?case using Cons.IH [of m1] by (auto simp: m1_def [symmetric])
qed simp

lemma content_start_le: "content_start p \<le> PAGE_SIZE" "i < count_of p \<Longrightarrow> 0 < snd (slot p i) \<Longrightarrow> content_start p \<le> fst (slot p i)"
  using content_start_fold [of p "[0..<count_of p]" PAGE_SIZE] by (auto simp: content_start_def)

text \<open>A page as the heap keeps it: validated, and its documents do not overlap.\<close>

definition page_ok :: "bytes \<Rightarrow> bool" where
  "page_ok p \<longleftrightarrow> valid_page p \<and> content_start p + live_len p \<le> PAGE_SIZE"

lemma put_doc_ok:
  assumes ok: "page_ok p" and room: "length c + 4 \<le> free_space p" and c: "c \<noteq> []"
  shows "page_ok (put_doc p c)" and "page_docs_of (put_doc p c) = page_docs_of p @ [Some c]"
    and "content_start (put_doc p c) = content_start p - length c"
proof -
  define n where "n = count_of p"
  define off where "off = content_start p - length c"
  define q where "q = splice p off c"
  have v: "length p = PAGE_SIZE" "\<And>i. i < n \<Longrightarrow> slot_in p i" using ok by (auto simp: page_ok_def valid_page_def n_def)
  have fs: "2 + 4 * n + 4 \<le> off" "off + length c = content_start p" "content_start p \<le> PAGE_SIZE"
    using room c content_start_le(1) [of p] by (simp_all add: free_space_def off_def heap_consts n_def)
  have q: "length q = PAGE_SIZE" using v fs by (simp add: q_def)
  have keep: "sub_bytes q i k = sub_bytes p i k" if "i + k \<le> off \<or> content_start p \<le> i" for i k
    using that v fs by (auto simp: q_def sub_bytes_splice_before sub_bytes_splice_after)
  have qn: "count_of q = n" using keep [of 0 2] fs by (simp add: count_of_def n_def)
  have qs: "slot q i = slot p i" if "i < n" for i
    using keep [of "2 + 4 * i" 2] keep [of "4 + 4 * i" 2] fs(1) that by (simp add: slot_eq)
  have dir: "6 + 4 * count_of q \<le> PAGE_SIZE" using fs qn by simp
  have eq: "put_doc p c = push_slot q off (length c)" by (simp add: put_doc_def Let_def q_def off_def)
  have cnt: "count_of (put_doc p c) = n + 1" using push_slot_count [OF q dir] eq qn by simp
  have old: "slot (put_doc p c) i = slot p i" if "i < n" for i using push_slot_old [OF q dir] qs that eq qn by simp
  have new: "slot (put_doc p c) n = (off, length c)"
    using push_slot_new [OF q dir, of off "length c"] fs eq qn by (simp add: PAGE_SIZE_def)
  have len: "length (put_doc p c) = PAGE_SIZE" using push_slot_length [OF q dir] eq by simp
  have sub: "sub_bytes (put_doc p c) i k = sub_bytes q i k" if "6 + 4 * n \<le> i" for i k
    using push_slot_sub [OF q dir] that eq qn by simp
  have upt: "[0..<n + 1] = [0..<n] @ [n]" by simp
  have ll: "live_len (put_doc p c) = live_len p + length c"
  proof -
    have "sum_list (map (\<lambda>i. snd (slot (put_doc p c) i)) [0..<n]) = sum_list (map (\<lambda>i. snd (slot p i)) [0..<n])"
      by (rule arg_cong [of _ _ sum_list]) (use old in simp)
    then show ?thesis unfolding live_len_def cnt upt n_def [symmetric] map_append sum_list_append using new by (simp add: n_def)
  qed
  have sin: "slot_in (put_doc p c) i" if "i < n + 1" for i
  proof (cases "i = n")
    case False
    then have i: "i < n" using that by simp
    then show ?thesis using v(2) [OF i] content_start_le(2) [of i p] fs old [OF i] by (auto simp: slot_in_def cnt n_def split: prod.splits)
  qed (use new fs in \<open>auto simp: slot_in_def cnt\<close>)
  have cs: "content_start (put_doc p c) = off"
  proof -
    have "fold (\<lambda>i m. case slot (put_doc p c) i of (off, len) \<Rightarrow> if 0 < len then min m off else m) [0..<n] PAGE_SIZE = content_start p"
      unfolding content_start_def n_def [symmetric] by (rule fold_cong) (use old in auto)
    then have "content_start (put_doc p c) = min (content_start p) off"
      unfolding content_start_def [of "put_doc p c"] cnt upt fold_append comp_def using new c by simp
    then show ?thesis using fs by simp
  qed
  show "page_ok (put_doc p c)" using ok len ll sin fs cs by (auto simp: page_ok_def valid_page_def cnt)
  show "content_start (put_doc p c) = content_start p - length c" using cs by (simp add: off_def)
  have doc: "slot_doc (put_doc p c) i = slot_doc p i" if i: "i < n" for i
  proof (cases "snd (slot p i) = 0")
    case False
    then have b: "content_start p \<le> fst (slot p i)" "6 + 4 * n \<le> fst (slot p i)" using content_start_le(2) [of i p] i fs by (auto simp: n_def)
    then show ?thesis using old [OF i] sub keep by (simp add: slot_doc_def case_prod_beta)
  qed (use old [OF i] in \<open>simp add: slot_doc_def case_prod_beta\<close>)
  have "slot_doc (put_doc p c) n = Some (sub_bytes q off (length c))" using new c sub [of off] fs by (simp add: slot_doc_def)
  moreover have "sub_bytes q off (length c) = c" unfolding q_def by (rule sub_bytes_splice_same) (use v fs in simp_all)
  ultimately show "page_docs_of (put_doc p c) = page_docs_of p @ [Some c]"
    using doc by (simp add: page_docs_of_def cnt n_def)
qed

section \<open>Packing\<close>

lemma count_zero: "count_of (replicate PAGE_SIZE 0) = 0"
  by (simp add: count_of_def PAGE_SIZE_def u16_le_def sub_bytes_def from_le_bytes_def numeral_2_eq_2)

lemma empty_page: "page_ok (replicate PAGE_SIZE 0)" "page_docs_of (replicate PAGE_SIZE 0) = []" "content_start (replicate PAGE_SIZE 0) = PAGE_SIZE"
  by (simp_all add: page_ok_def valid_page_def page_docs_of_def content_start_def count_zero live_len_def PAGE_SIZE_def [symmetric])
    (simp add: PAGE_SIZE_def)

lemma pack_fold:
  assumes "page_ok p" and "2 + 4 * (count_of p + length bs) + sum_list (map length bs) + (PAGE_SIZE - content_start p) \<le> PAGE_SIZE"
    and "[] \<notin> set bs"
  shows "\<exists>q. fold pack_doc bs (p, content_start p) = (q, content_start q) \<and> page_ok q \<and> page_docs_of q = page_docs_of p @ map Some bs \<and>
    content_start q + sum_list (map length bs) = content_start p"
  using assms
proof (induction bs arbitrary: p)
  case (Cons b bs)
  have cs: "content_start p \<le> PAGE_SIZE" by (rule content_start_le)
  have fs: "length b + 4 \<le> free_space p" using Cons.prems(2) cs by (simp add: free_space_def heap_consts)
  have b: "b \<noteq> []" using Cons.prems(3) by auto
  note po = put_doc_ok [OF Cons.prems(1) fs b]
  have cnt: "count_of (put_doc p b) = count_of p + 1" using arg_cong [OF po(2), of length] by simp
  have le: "length b \<le> content_start p" using fs by (simp add: free_space_def)
  have step: "pack_doc b (p, content_start p) = (put_doc p b, content_start (put_doc p b))"
    using po(3) by (simp add: pack_doc_def put_doc_def Let_def)
  have "2 + 4 * (count_of (put_doc p b) + length bs) + sum_list (map length bs) + (PAGE_SIZE - content_start (put_doc p b)) \<le> PAGE_SIZE"
    using Cons.prems(2) le cs unfolding cnt po(3) by (simp add: diff_diff_eq2)
  then obtain q where "fold pack_doc bs (put_doc p b, content_start (put_doc p b)) = (q, content_start q)" "page_ok q"
      "page_docs_of q = page_docs_of (put_doc p b) @ map Some bs" "content_start q + sum_list (map length bs) = content_start (put_doc p b)"
    using Cons.IH [OF po(1)] Cons.prems(3) by auto
  then show ?case using po(2,3) step le by (intro exI [of _ q]) simp
qed simp

lemma pack_docs_ok:
  assumes "2 + 4 * length bs + sum_list (map length bs) \<le> PAGE_SIZE" and "[] \<notin> set bs"
  shows "page_ok (pack_docs bs)" and "page_docs_of (pack_docs bs) = map Some bs"
  using pack_fold [OF empty_page(1), of bs] assms count_zero
  by (auto simp: pack_docs_def empty_page)

text \<open>Re-packing works on every page the validation accepts, also one whose regions overlap.\<close>

lemma repack_ok:
  assumes "valid_page p"
  shows "page_ok (snd (repack p))" and "page_docs_of (snd (repack p)) = map Some (somes (page_docs_of p))"
proof -
  define bs where "bs = somes (page_docs_of p)"
  have "set bs \<subseteq> {b. b \<noteq> []}"
    using slot_doc_nonempty [OF assms] by (auto simp: bs_def somes_def List.map_filter_def page_docs_of_def)
  then have ne: "[] \<notin> set bs" by auto
  have "length (somes xs) \<le> length xs" for xs :: "bytes option list" by (simp add: somes_def List.map_filter_def)
  then have "length bs \<le> count_of p" using length_page_docs_of [of p] by (metis bs_def)
  then have fit: "2 + 4 * length bs + sum_list (map length bs) \<le> PAGE_SIZE"
    using assms live_len_docs [OF assms] by (simp add: valid_page_def bs_def)
  have "snd (repack p) = pack_docs bs" by (simp add: repack_def Let_def live_slots_docs bs_def)
  then show "page_ok (snd (repack p))" "page_docs_of (snd (repack p)) = map Some (somes (page_docs_of p))"
    using pack_docs_ok [OF fit ne] by (simp_all add: bs_def)
qed

text \<open>The moves name each live slot once, with its new index, in order.\<close>

lemma live_slots_nth:
  assumes "k < length (live_slots p)" and "live_slots p ! k = (i, b)"
  shows "i < count_of p" and "page_docs_of p ! i = Some b"
proof -
  have "(i, b) \<in> set (live_slots p)" using assms nth_mem by force
  then show "i < count_of p" "page_docs_of p ! i = Some b"
    by (auto simp: live_slots_def page_docs_of_def slot_doc_def split: prod.splits if_splits)
qed

lemma live_slots_index: "map fst (live_slots p) = filter (\<lambda>i. page_docs_of p ! i \<noteq> None) [0..<count_of p]"
proof -
  have "map fst (concat (map (\<lambda>i. case slot p i of (off, len) \<Rightarrow> if 0 < len then [(i, sub_bytes p off len)] else []) is)) =
      filter (\<lambda>i. page_docs_of p ! i \<noteq> None) is" if "set is \<subseteq> {..<count_of p}" for "is"
    using that by (induction "is") (auto simp: page_docs_of_nth slot_doc_def split: prod.splits)
  from this [of "[0..<count_of p]"] show ?thesis by (simp add: live_slots_def atLeast0LessThan)
qed

lemma repack_moves:
  assumes "valid_page p"
  shows "map fst (fst (repack p)) = filter (\<lambda>i. page_docs_of p ! i \<noteq> None) [0..<count_of p]"
    and "\<And>old new. (old, new) \<in> set (fst (repack p)) \<Longrightarrow> page_docs_of (snd (repack p)) ! new = page_docs_of p ! old \<and> new < count_of (snd (repack p))"
proof -
  have eq: "fst (repack p) = map (\<lambda>(new, old, _). (old, new)) (enumerate 0 (live_slots p))" by (simp add: repack_def Let_def)
  have "map fst (fst (repack p)) = map fst (map snd (enumerate 0 (live_slots p)))" unfolding eq map_map by (rule map_cong) auto
  then show "map fst (fst (repack p)) = filter (\<lambda>i. page_docs_of p ! i \<noteq> None) [0..<count_of p]"
    by (simp only: map_snd_enumerate live_slots_index)
  fix old new
  assume "(old, new) \<in> set (fst (repack p))"
  then obtain b where "(new, old, b) \<in> set (enumerate 0 (live_slots p))" unfolding eq by auto
  then have n: "new < length (live_slots p)" "live_slots p ! new = (old, b)" by (auto simp: in_set_enumerate_eq)
  have "page_docs_of (snd (repack p)) = map (Some \<circ> snd) (live_slots p)"
    using repack_ok(2) [OF assms] live_slots_docs [of p] by (metis map_map)
  then show "page_docs_of (snd (repack p)) ! new = page_docs_of p ! old \<and> new < count_of (snd (repack p))"
    using n live_slots_nth [OF n] length_page_docs_of [of "snd (repack p)"] by simp
qed

section \<open>Tombstones\<close>

lemma tombstone_ok:
  assumes v: "valid_page p" and i: "i < count_of p"
  shows "valid_page (tombstone p i)" and "page_docs_of (tombstone p i) = (page_docs_of p)[i := None]"
proof -
  define n where "n = count_of p"
  define q where "q = tombstone p i"
  have q: "q = splice (splice p (2 + 4 * i) (to_le_bytes (word_of_nat PAGE_SIZE :: u16))) (4 + 4 * i) (to_le_bytes (0 :: u16))"
    by (simp add: q_def tombstone_def Let_def heap_consts mult.commute add.commute)
  have dir: "length p = PAGE_SIZE" "2 + 4 * n \<le> PAGE_SIZE" "i < n" using v i by (auto simp: valid_page_def n_def)
  have keep: "sub_bytes q k m = sub_bytes p k m" if "k + m \<le> 2 + 4 * i \<or> 6 + 4 * i \<le> k" for k m
    using that dir by (auto simp: q sub_bytes_splice_before sub_bytes_splice_after)
  have len: "length q = PAGE_SIZE" using dir by (simp add: q)
  have cnt: "count_of q = n" using keep [of 0 2] by (simp add: count_of_def n_def)
  have old: "slot q j = slot p j" if "j \<noteq> i" for j
    using keep [of "2 + 4 * j" 2] keep [of "4 + 4 * j" 2] that by (cases "j < i") (auto simp: slot_eq)
  have new: "snd (slot q i) = 0"
    using dir u16_le_word [of 0] by (simp add: q slot_eq sub_bytes_splice_same)
  have sl: "snd (slot q j) \<le> snd (slot p j)" for j using old [of j] new by (cases "j = i") auto
  have "live_len q \<le> live_len p" unfolding live_len_def cnt n_def by (rule sum_list_mono) (rule sl)
  moreover have "slot_in q j" if "j < n" for j
    using v that old [of j] new cnt by (cases "j = i") (auto simp: slot_in_def valid_page_def n_def case_prod_beta)
  ultimately show "valid_page (tombstone p i)" using v len cnt by (simp add: valid_page_def q_def n_def)
  have "slot_doc q j = (if j = i then None else slot_doc p j)" if j: "j < n" for j
  proof (cases "j = i \<or> snd (slot p j) = 0")
    case False
    then have "2 + 4 * n \<le> fst (slot p j)" using v j by (auto simp: valid_page_def slot_in_def n_def case_prod_beta)
    then show ?thesis using False old [of j] keep [of "fst (slot p j)"] dir by (simp add: slot_doc_def case_prod_beta)
  qed (use new old [of j] in \<open>auto simp: slot_doc_def case_prod_beta\<close>)
  then show "page_docs_of (tombstone p i) = (page_docs_of p)[i := None]"
    by (intro nth_equalityI) (auto simp: cnt n_def q_def [symmetric] page_docs_of_nth nth_list_update)
qed

section \<open>Locators\<close>

lemma unpack_pack_loc: "s < 65536 \<Longrightarrow> unpack_loc (pack_loc pid s) = (pid, s)"
proof -
  assume s: "s < 65536"
  define w where "w = (word_of_nat s :: u64)"
  have ws: "unat w = s" using s by (simp add: w_def unat_of_nat)
  have bw: "\<not> bit w n" if "16 \<le> n" for n
  proof -
    have "s < 2 ^ n" using s power_increasing [OF that, of "2 :: nat"] by simp
    then have "\<not> bit (unat w) n" using ws by (simp add: bit_nat_def)
    then show ?thesis by (simp add: bit_unsigned_iff)
  qed
  have "ucast (drop_bit 16 (pack_loc pid s)) = pid"
    by (rule bit_word_eqI) (auto simp: pack_loc_def bit_simps w_def [symmetric] bw)
  moreover have "pack_loc pid s AND 0xFFFF = w"
  proof -
    have mk: "(0xFFFF :: u64) = mask 16" by (simp add: mask_eq_exp_minus_1)
    have "bit w n \<Longrightarrow> n < 16" for n using bw [of n] by (cases "n < 16") auto
    then show ?thesis
      unfolding pack_loc_def mk w_def [symmetric] by (intro bit_word_eqI) (auto simp: bit_simps)
  qed
  ultimately show ?thesis using ws by (simp add: unpack_loc_def)
qed

end
