(* ===== verification/Heap_Props.thy ===== *)
theory Heap_Props
  imports Heap_Pages
begin

text \<open>
  A table's heap as a list of documents. \<open>heap_holds v h L\<close> says that the pages of \<open>v\<close> store the layout \<open>L\<close>:
  for each heap page its documents, each with the pages of its overflow chain. No page has two uses,
  also not in the list of recycled chain pages.
\<close>

section \<open>Chains\<close>

fun chain_in :: "(page_id \<Rightarrow> bytes option) \<Rightarrow> page_id \<Rightarrow> page_id list \<Rightarrow> bytes \<Rightarrow> bool" where
  "chain_in v nxt [] bs \<longleftrightarrow> nxt = 0 \<and> bs = []"
| "chain_in v nxt (i # ids) bs \<longleftrightarrow> nxt = i \<and> i \<noteq> 0 \<and>
     (\<exists>chunk nxt' rest. v i = Some (chain_page nxt' chunk) \<and> length chunk \<le> min_chunk \<and> bs = chunk @ rest \<and> chain_in v nxt' ids rest)"

lemma chain_in_cong: "chain_in v nxt ids bs \<Longrightarrow> (\<And>i. i \<in> set ids \<Longrightarrow> v' i = v i) \<Longrightarrow> chain_in v' nxt ids bs"
  by (induction v nxt ids bs rule: chain_in.induct) fastforce+

lemma chain_page_layout:
  assumes "length c \<le> min_chunk"
  shows "length (chain_page nxt c) = PAGE_SIZE" and "chain_header (chain_page nxt c) pid = Inr (nxt, length c)"
    and "sub_bytes (chain_page nxt c) CHAIN_HEADER (length c) = c"
proof -
  define p1 where "p1 = (replicate PAGE_SIZE 0)[0 := CHAIN_MARK]"
  define p3 where "p3 = splice (splice p1 1 (to_le_bytes nxt)) 5 (to_le_bytes (word_of_nat (length c) :: u16))"
  have c: "length c \<le> 4089" using assms by (simp add: min_chunk_def heap_consts)
  have p1: "length p1 = PAGE_SIZE" by (simp add: p1_def)
  have p3: "length p3 = PAGE_SIZE" using p1 by (simp add: p3_def PAGE_SIZE_def)
  have eq: "chain_page nxt c = splice p3 7 c" by (simp add: chain_page_def Let_def p3_def p1_def)
  show "length (chain_page nxt c) = PAGE_SIZE" using p3 c by (simp add: eq PAGE_SIZE_def)
  have "sub_bytes (chain_page nxt c) 0 1 = [CHAIN_MARK]"
    using p1 p3 c by (simp add: eq p3_def PAGE_SIZE_def sub_bytes_splice_before) (simp add: p1_def sub_bytes_def PAGE_SIZE_def numeral_eq_Suc)
  then have "chain_page nxt c \<noteq> [] \<and> hd (chain_page nxt c) = CHAIN_MARK"
    by (cases "chain_page nxt c") (auto simp: sub_bytes_def)
  moreover have "sub_bytes (chain_page nxt c) 1 4 = to_le_bytes nxt"
    using p1 p3 c by (simp add: eq p3_def PAGE_SIZE_def sub_bytes_splice_before sub_bytes_splice_same)
  moreover have "sub_bytes (chain_page nxt c) 5 2 = to_le_bytes (word_of_nat (length c) :: u16)"
    using p1 p3 c by (simp add: eq p3_def PAGE_SIZE_def sub_bytes_splice_before sub_bytes_splice_same)
  ultimately show "chain_header (chain_page nxt c) pid = Inr (nxt, length c)"
    using u16_le_word [of "length c"] c by (simp add: chain_header_def)
  show "sub_bytes (chain_page nxt c) CHAIN_HEADER (length c) = c"
    unfolding eq CHAIN_HEADER_def by (rule sub_bytes_splice_same) (use p3 c in \<open>simp_all add: PAGE_SIZE_def\<close>)
qed

section \<open>Slots\<close>

definition slot_holds :: "(page_id \<Rightarrow> bytes option) \<Rightarrow> bytes \<Rightarrow> bytes \<times> page_id list \<Rightarrow> bool" where
  "slot_holds v content d \<longleftrightarrow>
     (case d of (bs, ids) \<Rightarrow>
        length bs \<le> MAX_DOC_SIZE \<and>
        (ids = [] \<and> content = bs \<and> bs \<noteq> [] \<and> hd bs \<noteq> OVERFLOW_MARK \<or>
         (\<exists>head inline rest. content = overflow_content (length bs) head inline \<and> bs = inline @ rest \<and>
            chain_in v head ids rest \<and> distinct ids \<and> length ids \<le> hop_limit (length bs))))"

lemma slot_holds_cong: "slot_holds v c d \<Longrightarrow> (\<And>i. i \<in> set (snd d) \<Longrightarrow> v' i = v i) \<Longrightarrow> slot_holds v' c d"
  unfolding slot_holds_def case_prod_beta using chain_in_cong [of v _ "snd d" _ v'] by blast

lemma overflow_content_header:
  assumes "n \<le> MAX_DOC_SIZE"
  shows "overflow_slot_header (overflow_content n head inline) pid = Inr (n, head)"
    and "drop OVERFLOW_SLOT_HEADER (overflow_content n head inline) = inline"
    and "length (overflow_content n head inline) = 9 + length inline"
    and "overflow_content n head inline \<noteq> []" and "hd (overflow_content n head inline) = OVERFLOW_MARK"
proof -
  have n: "unat (word_of_nat n :: u32) = n" using assms by (simp add: unat_of_nat MAX_DOC_SIZE_def)
  have "sub_bytes (overflow_content n head inline) 1 4 = to_le_bytes (word_of_nat n :: u32)"
    "sub_bytes (overflow_content n head inline) 5 4 = to_le_bytes head"
    by (simp_all add: overflow_content_def sub_bytes_def)
  then show "overflow_slot_header (overflow_content n head inline) pid = Inr (n, head)"
    using n by (simp add: overflow_slot_header_def) (simp add: overflow_content_def OVERFLOW_SLOT_HEADER_def)
qed (simp_all add: overflow_content_def OVERFLOW_SLOT_HEADER_def)

text \<open>Reading through any page source.\<close>

locale heap_reader = page_source ok view "reader_page reader t"
  for ok :: "pager \<Rightarrow> bool" and view :: "pager \<Rightarrow> page_id \<Rightarrow> bytes option" and reader :: page_reader and t :: "tx option"
begin

lemma load_step:
  assumes "ok pg" and "view pg i = Some d"
  obtains pg' where "load_page_owned reader t i pg = (Inr d, pg')" and "ok pg'" and "view pg' = view pg"
  using rd_view [OF assms] unfolding load_page_owned_def by auto

lemma assemble_ok:
  "ok pg \<Longrightarrow> view pg = v \<Longrightarrow> chain_in v nxt ids rest \<Longrightarrow> distinct ids \<Longrightarrow> set ids \<inter> seen = {} \<Longrightarrow> length ids \<le> hops \<Longrightarrow>
     length out + length rest \<le> total_len \<Longrightarrow>
     \<exists>pg'. assemble_chain hops reader t pid total_len nxt seen out pg = (Inr (out @ rest), pg') \<and> ok pg' \<and> view pg' = v"
proof (induction hops arbitrary: pg nxt ids rest seen out)
  case 0
  then show ?case by simp
next
  case (Suc hops)
  show ?case
  proof (cases ids)
    case Nil
    then show ?thesis using Suc.prems by simp
  next
    case (Cons i ids')
    then obtain chunk nxt' rest' where c: "nxt = i" "i \<noteq> 0" "v i = Some (chain_page nxt' chunk)" "length chunk \<le> min_chunk"
        "rest = chunk @ rest'" "chain_in v nxt' ids' rest'"
      using Suc.prems(3) by auto
    have "view pg i = Some (chain_page nxt' chunk)" using c(3) Suc.prems(2) by simp
    then obtain pg1 where r: "load_page_owned reader t i pg = (Inr (chain_page nxt' chunk), pg1)" "ok pg1" "view pg1 = view pg"
      using load_step [OF Suc.prems(1)] by blast
    have "i \<notin> set ids'" "set ids' \<inter> Set.insert i seen = {}" "distinct ids'" using Suc.prems(4,5) Cons by auto
    then obtain pg2 where "assemble_chain hops reader t pid total_len nxt' (Set.insert i seen) (out @ chunk) pg1 = (Inr ((out @ chunk) @ rest'), pg2)"
        "ok pg2" "view pg2 = v"
      using Suc.IH [OF r(2) _ c(6), of "Set.insert i seen" "out @ chunk"] r(3) Suc.prems(2,6,7) Cons c(5) by auto
    moreover have "i \<notin> seen" using Suc.prems(5) Cons by auto
    ultimately show ?thesis
      using c r(1) chain_page_layout [OF c(4)] Suc.prems(7) by (simp add: obind_def min_chunk_def heap_consts)
  qed
qed

lemma slot_document_ok:
  assumes "ok pg" and "slot_holds (view pg) (sub_bytes p off len) (bs, ids)"
  obtains pg' where "slot_document_bytes reader t pid p off len pg = (Inr bs, pg')" and "ok pg'" and "view pg' = view pg"
proof -
  define c where "c = sub_bytes p off len"
  have size: "length bs \<le> MAX_DOC_SIZE" using assms(2) by (simp add: slot_holds_def)
  consider "c = bs" "bs \<noteq> []" "hd bs \<noteq> OVERFLOW_MARK"
    | head inline rest where "c = overflow_content (length bs) head inline" "bs = inline @ rest" "chain_in (view pg) head ids rest" "distinct ids"
        "length ids \<le> hop_limit (length bs)"
    using assms(2) by (auto simp: slot_holds_def c_def)
  then show ?thesis
  proof cases
    case 1
    then show ?thesis using that [of pg] assms(1) by (simp add: slot_document_bytes_def Let_def c_def [symmetric])
  next
    case 2
    note oc = overflow_content_header [OF size, of head inline]
    obtain pg' where "assemble_chain (hop_limit (length bs)) reader t pid (length bs) head {} inline pg = (Inr (inline @ rest), pg')"
        "ok pg'" "view pg' = view pg"
      using assemble_ok [OF assms(1) refl 2(3,4), of "{}" "hop_limit (length bs)" inline "length bs" pid] 2(2,5) by auto
    then show ?thesis
      using that [of pg'] oc size 2(1,2) by (simp add: slot_document_bytes_def Let_def c_def [symmetric] obind_def)
  qed
qed

end

end
