(* ===== verification/Heap_Insert.thy ===== *)
theory Heap_Insert
  imports Heap_Props
begin

text \<open>
  Insertion into the heap: the layout grows by one document at the end, whatever its size, and no page
  outside the heap changes.
\<close>

section \<open>The layout of a heap\<close>

type_synonym doc_layout = "bytes \<times> page_id list"
type_synonym heap_layout = "(page_id \<times> doc_layout list) list"

definition page_holds :: "(page_id \<Rightarrow> bytes option) \<Rightarrow> page_id \<Rightarrow> doc_layout list \<Rightarrow> bool" where
  "page_holds v pid ds \<longleftrightarrow>
     (\<exists>p cs. v pid = Some p \<and> page_ok p \<and> page_docs_of p = map Some cs \<and> list_all2 (slot_holds v) cs ds)"

definition layout_ids :: "heap_layout \<Rightarrow> page_id list" where
  "layout_ids L = concat (map (\<lambda>(pid, ds). pid # concat (map snd ds)) L)"

definition heap_holds :: "(page_id \<Rightarrow> bytes option) \<Rightarrow> heap \<Rightarrow> heap_layout \<Rightarrow> bool" where
  "heap_holds v h L \<longleftrightarrow>
     map fst L = heap_pages h \<and> (\<forall>(pid, ds) \<in> set L. page_holds v pid ds) \<and>
     distinct (layout_ids L @ overflow_free h) \<and> (\<forall>i \<in> set (overflow_free h). v i \<noteq> None)"

definition rows :: "heap_layout \<Rightarrow> (u64 \<times> bytes) list" where
  "rows L = concat (map (\<lambda>(pid, ds). map (\<lambda>(i, bs, _). (pack_loc pid i, bs)) (enumerate 0 ds)) L)"

lemma layout_ids_simps [simp]: "layout_ids [] = []" "layout_ids ((pid, ds) # L) = pid # concat (map snd ds) @ layout_ids L"
  "layout_ids (L @ L') = layout_ids L @ layout_ids L'"
  by (simp_all add: layout_ids_def)

lemma rows_simps [simp]: "rows [] = []" "rows (L @ L') = rows L @ rows L'"
  "rows [(pid, ds @ [d])] = rows [(pid, ds)] @ [(pack_loc pid (length ds), fst d)]"
  by (simp_all add: rows_def enumerate_append_eq case_prod_beta)

lemma slot_holds_ids: "slot_holds v c d \<Longrightarrow> i \<in> set (snd d) \<Longrightarrow> v i \<noteq> None"
proof -
  have "chain_in v nxt ids rest \<Longrightarrow> i \<in> set ids \<Longrightarrow> v i \<noteq> None" for nxt ids rest
    by (induction v nxt ids rest rule: chain_in.induct) auto
  then show "slot_holds v c d \<Longrightarrow> i \<in> set (snd d) \<Longrightarrow> v i \<noteq> None" by (auto simp: slot_holds_def case_prod_beta)
qed

lemma slot_nonempty: "slot_holds v c d \<Longrightarrow> c \<noteq> []"
  by (cases d) (auto simp: slot_holds_def overflow_content_def)

lemma slots_ids: "list_all2 (slot_holds v) cs ds \<Longrightarrow> i \<in> set (concat (map snd ds)) \<Longrightarrow> v i \<noteq> None"
  by (induction rule: list_all2_induct) (auto dest: slot_holds_ids)

lemma slots_cong:
  "list_all2 (slot_holds v) cs ds \<Longrightarrow> (\<And>i. i \<in> set (concat (map snd ds)) \<Longrightarrow> v' i = v i) \<Longrightarrow> list_all2 (slot_holds v') cs ds"
proof (induction rule: list_all2_induct)
  case (Cons c cs d ds)
  have "slot_holds v' c d" by (rule slot_holds_cong [OF Cons.hyps(1)]) (use Cons.prems in simp)
  then show ?case using Cons.IH Cons.prems by simp
qed simp

lemma page_holds_ids: "page_holds v pid ds \<Longrightarrow> i \<in> set (pid # concat (map snd ds)) \<Longrightarrow> v i \<noteq> None"
  using slots_ids [of v _ ds i] by (auto simp: page_holds_def)

lemma heap_holds_ids:
  assumes "heap_holds v h L" and "i \<in> set (layout_ids L @ overflow_free h)"
  shows "v i \<noteq> None"
proof (cases "i \<in> set (overflow_free h)")
  case False
  then obtain pid ds where "(pid, ds) \<in> set L" "i \<in> set (pid # concat (map snd ds))" using assms(2) by (auto simp: layout_ids_def)
  then show ?thesis using assms(1) page_holds_ids by (fastforce simp: heap_holds_def)
qed (use assms(1) in \<open>simp add: heap_holds_def\<close>)

lemma page_holds_cong:
  assumes "page_holds v pid ds" and "\<And>i. i \<in> set (pid # concat (map snd ds)) \<Longrightarrow> v' i = v i"
  shows "page_holds v' pid ds"
proof -
  obtain p cs where p: "v pid = Some p" "page_ok p" "page_docs_of p = map Some cs" "list_all2 (slot_holds v) cs ds"
    using assms(1) by (auto simp: page_holds_def)
  have "list_all2 (slot_holds v') cs ds" by (rule slots_cong [OF p(4)]) (use assms(2) in simp)
  then show ?thesis using p assms(2) [of pid] by (auto simp: page_holds_def)
qed

lemma pages_hold_cong:
  assumes "(pid, ds) \<in> set L" and "page_holds v pid ds" and "\<And>i. i \<in> set (layout_ids L) \<Longrightarrow> v' i = v i"
  shows "page_holds v' pid ds"
proof (rule page_holds_cong [OF assms(2)])
  fix i assume "i \<in> set (pid # concat (map snd ds))"
  moreover obtain A B where "L = A @ (pid, ds) # B" using split_list [OF assms(1)] by blast
  ultimately have "i \<in> set (layout_ids L)" by auto
  then show "v' i = v i" by (rule assms(3))
qed

text \<open>A page with one more document.\<close>

lemma page_holds_put:
  assumes "page_holds v pid ds" and "v pid = Some p" and "length c + 4 \<le> free_space p"
    and "slot_holds v' c d" and "pid \<notin> set (concat (map snd ds))" and "pid \<notin> set (snd d)"
    and "\<And>i. i \<in> set (concat (map snd ds)) \<Longrightarrow> v' i = v i"
  shows "page_holds (v'(pid \<mapsto> put_doc p c)) pid (ds @ [d])"
    and "count_of (put_doc p c) = length ds + 1"
proof -
  obtain cs where p: "page_ok p" "page_docs_of p = map Some cs" "list_all2 (slot_holds v) cs ds"
    using assms(1,2) by (auto simp: page_holds_def)
  have c: "c \<noteq> []" by (rule slot_nonempty [OF assms(4)])
  note po = put_doc_ok [OF p(1) assms(3) c]
  have "list_all2 (slot_holds (v'(pid \<mapsto> put_doc p c))) cs ds"
    by (rule slots_cong [OF p(3)]) (use assms(5,7) in auto)
  moreover have "slot_holds (v'(pid \<mapsto> put_doc p c)) c d"
    using assms(4) by (rule slot_holds_cong) (use assms(6) in auto)
  ultimately show "page_holds (v'(pid \<mapsto> put_doc p c)) pid (ds @ [d])"
    using po(1,2) p(2) unfolding page_holds_def
    by (intro exI [of _ "put_doc p c"] exI [of _ "cs @ [c]"]) (auto intro: list_all2_appendI)
  have "length cs = length ds" using p(3) by (rule list_all2_lengthD)
  then show "count_of (put_doc p c) = length ds + 1"
    using po(2) p(2) length_page_docs_of [of "put_doc p c"] by simp
qed

text \<open>The two ways an insertion changes the layout.\<close>

lemma heap_holds_put_last:
  assumes hh: "heap_holds v h (L @ [(pid, ds)])" and p: "v pid = Some p" and room: "length c + 4 \<le> free_space p"
    and sh: "slot_holds v' c d" and d: "distinct (snd d)" "set (snd d) \<inter> set (layout_ids (L @ [(pid, ds)]) @ F) = {}"
    and F: "set F \<subseteq> set (overflow_free h)" "distinct F"
    and same: "\<And>i. i \<in> set (layout_ids (L @ [(pid, ds)]) @ F) \<Longrightarrow> v' i = v i"
  shows "heap_holds (v'(pid \<mapsto> put_doc p c)) (h\<lparr>overflow_free := F\<rparr>) (L @ [(pid, ds @ [d])])"
proof -
  have ids: "distinct (layout_ids (L @ [(pid, ds)]) @ overflow_free h)" and ph: "\<And>i ds'. (i, ds') \<in> set L \<Longrightarrow> page_holds v i ds'" "page_holds v pid ds"
    using hh by (auto simp: heap_holds_def)
  have "page_holds (v'(pid \<mapsto> put_doc p c)) pid (ds @ [d])"
    by (rule page_holds_put [OF ph(2) p room sh]) (use ids d same in auto)
  moreover have "page_holds (v'(pid \<mapsto> put_doc p c)) i ds'" if "(i, ds') \<in> set L" for i ds'
    by (rule pages_hold_cong [OF that ph(1) [OF that]]) (use ids same in auto)
  moreover have "distinct (layout_ids (L @ [(pid, ds @ [d])]) @ F)" using ids d F by auto
  moreover have "(v'(pid \<mapsto> put_doc p c)) i \<noteq> None" if "i \<in> set F" for i
    using that same [of i] F(1) hh by (auto simp: heap_holds_def)
  ultimately show ?thesis using hh by (auto simp: heap_holds_def)
qed

lemma heap_holds_new_page:
  assumes hh: "heap_holds v h L" and fresh: "pid \<notin> set (layout_ids L @ F)" and room: "length c + 4 \<le> PAGE_SIZE - 2"
    and sh: "slot_holds v' c d" and d: "distinct (snd d)" "set (snd d) \<inter> set (pid # layout_ids L @ F) = {}"
    and F: "set F \<subseteq> set (overflow_free h)" "distinct F"
    and same: "\<And>i. i \<in> set (layout_ids L @ F) \<Longrightarrow> v' i = v i"
  shows "heap_holds (v'(pid \<mapsto> put_doc (replicate PAGE_SIZE 0) c)) (h\<lparr>overflow_free := F, heap_pages := heap_pages h @ [pid]\<rparr>) (L @ [(pid, [d])])"
proof -
  let ?z = "replicate PAGE_SIZE (0 :: u8)"
  have ph: "\<And>i ds'. (i, ds') \<in> set L \<Longrightarrow> page_holds v i ds'" and ids: "distinct (layout_ids L @ overflow_free h)"
    using hh by (auto simp: heap_holds_def)
  have e: "page_holds (v(pid \<mapsto> ?z)) pid []" using empty_page by (simp add: page_holds_def)
  have fs: "length c + 4 \<le> free_space ?z" using room by (simp add: free_space_def empty_page count_zero HEADER_FIXED_def)
  have "page_holds (v'(pid \<mapsto> put_doc ?z c)) pid ([] @ [d])"
    by (rule page_holds_put [OF e _ fs sh]) (use d in auto)
  moreover have "page_holds (v'(pid \<mapsto> put_doc ?z c)) i ds'" if "(i, ds') \<in> set L" for i ds'
    by (rule pages_hold_cong [OF that ph [OF that]]) (use fresh same in auto)
  moreover have "distinct (layout_ids (L @ [(pid, [d])]) @ F)" using ids d F fresh by auto
  moreover have "(v'(pid \<mapsto> put_doc ?z c)) i \<noteq> None" if "i \<in> set F" for i
    using that same [of i] F(1) hh fresh by (auto simp: heap_holds_def)
  ultimately show ?thesis using hh by (auto simp: heap_holds_def)
qed

section \<open>Steps\<close>

lemma heap_store_laws: "page_store tx_ok tx_view (\<lambda>i. op_err HPager (tx_read i)) tx_room (\<lambda>i d. op_err HPager (write_page i 0 d)) (op_err HPager allocate_page)"
  by (rule page_store_op_err) (rule tx_store.page_store_axioms)

interpretation heap_store: page_store tx_ok tx_view "\<lambda>i. op_err HPager (tx_read i)" tx_room "\<lambda>i d. op_err HPager (write_page i 0 d)" "op_err HPager allocate_page"
  by (rule heap_store_laws)

lemma tx_load_eq: "tx_load i = op_err HPager (tx_read i)"
  by (auto simp: tx_load_def tx_read_def with_tx_def load_page_owned_def op_err_def fun_eq_iff split: prod.splits)

lemma tx_load_step:
  assumes "tx_ok s" and "tx_view s i = Some d" and "tx_room n s"
  obtains s' where "tx_load i s = (Inr d, s')" and "tx_ok s'" and "tx_view s' = tx_view s" and "tx_room n s'"
  using heap_store.rd_step [OF assms] unfolding tx_load_eq .

lemma tx_put_step:
  assumes "tx_ok s" and "tx_view s i = Some d" and "length d' = PAGE_SIZE" and "tx_room n s"
  obtains s' where "tx_put i d' s = (Inr (), s')" and "tx_ok s'" and "tx_view s' = (tx_view s)(i \<mapsto> d')" and "tx_room n s'"
  using heap_store.wr_step [OF assms] unfolding tx_put_def .

lemma on_store_Inr [simp]: "on_store m (h, s) = (Inr x, hs') \<longleftrightarrow> (\<exists>s'. m s = (Inr x, s') \<and> hs' = (h, s'))"
  by (auto simp: on_store_def split: prod.splits)

lemma on_store_step: "m s = (Inr x, s') \<Longrightarrow> obind (on_store m) f (h, s) = f x (h, s')"
  by (simp add: obind_def on_store_def)

lemma heap_steps [simp]: "obind get_heap f (h, s) = f h (h, s)" "obind (on_heap g) f' (h, s) = f' () (g h, s)"
  "obind (oret x) k st = k x st" "obind (olift (Inr x)) k st = k x st"
  by (simp_all add: obind_def get_heap_def on_heap_def)

lemma tx_view_nonzero: "tx_view s i \<noteq> None \<Longrightarrow> i \<noteq> 0"
  by (cases s) (auto simp: tx_view_pair)

text \<open>Getting the pages of a chain.\<close>

lemma take_chain_pages_ok:
  assumes "tx_ok s" and "tx_room (n + k) s" and "distinct (overflow_free h)" and "\<And>i. i \<in> set (overflow_free h) \<Longrightarrow> tx_view s i \<noteq> None"
    and "own \<inter> set (overflow_free h) = {}"
  shows "\<exists>ids F s'. take_chain_pages own n acc (h, s) = (Inr (acc @ ids), (h\<lparr>overflow_free := F\<rparr>, s')) \<and> length ids = n \<and> tx_ok s' \<and>
    tx_room k s' \<and> distinct (ids @ F) \<and> set F \<subseteq> set (overflow_free h) \<and>
    (\<forall>i \<in> set ids. tx_view s' i \<noteq> None \<and> (i \<in> set (overflow_free h) \<or> tx_view s i = None)) \<and>
    (\<forall>i. tx_view s i \<noteq> None \<longrightarrow> tx_view s' i = tx_view s i)"
  using assms
proof (induction n arbitrary: s h acc)
  case 0
  then show ?case by (intro exI [of _ "[]"] exI [of _ "overflow_free h"]) auto
next
  case (Suc n)
  show ?case
  proof (cases "overflow_free h = []")
    case True
    have room: "tx_room (Suc (n + k)) s" using Suc.prems(2) by simp
    obtain j d s1 where a: "op_err HPager allocate_page s = (Inr j, s1)" "tx_ok s1" "tx_view s j = None" "tx_view s1 = (tx_view s)(j \<mapsto> d)" "tx_room (n + k) s1"
      using heap_store.al_view [OF Suc.prems(1) room] by blast
    obtain ids F s' where r: "take_chain_pages own n (acc @ [j]) (h, s1) = (Inr ((acc @ [j]) @ ids), (h\<lparr>overflow_free := F\<rparr>, s'))"
        "length ids = n" "tx_ok s'" "tx_room k s'" "distinct (ids @ F)" "set F \<subseteq> set (overflow_free h)"
        "\<forall>i \<in> set ids. tx_view s' i \<noteq> None \<and> (i \<in> set (overflow_free h) \<or> tx_view s1 i = None)"
        "\<forall>i. tx_view s1 i \<noteq> None \<longrightarrow> tx_view s' i = tx_view s1 i"
      using Suc.IH [OF a(2,5), of h "acc @ [j]"] True by auto
    have "j \<notin> set ids" using r(7) a(4) True by auto
    moreover have "take_chain_pages own (Suc n) acc (h, s) = (Inr (acc @ j # ids), (h\<lparr>overflow_free := F\<rparr>, s'))"
      using True a(1) r(1) by (simp add: on_store_step del: op_err_Inr)
    ultimately show ?thesis
      using r a(3,4) True by (intro exI [of _ "j # ids"] exI [of _ F] exI [of _ s']) (auto split: if_splits)
  next
    case False
    define j where "j = List.last (overflow_free h)"
    define h1 where "h1 = h\<lparr>overflow_free := butlast (overflow_free h)\<rparr>"
    have free: "overflow_free h = overflow_free h1 @ [j]" using False by (simp add: h1_def j_def)
    have j: "j \<notin> own" "j \<notin> set (overflow_free h1)" using Suc.prems(3,5) free by auto
    obtain ids F s' where r: "take_chain_pages own n (acc @ [j]) (h1, s) = (Inr ((acc @ [j]) @ ids), (h1\<lparr>overflow_free := F\<rparr>, s'))"
        "length ids = n" "tx_ok s'" "tx_room k s'" "distinct (ids @ F)" "set F \<subseteq> set (overflow_free h1)"
        "\<forall>i \<in> set ids. tx_view s' i \<noteq> None \<and> (i \<in> set (overflow_free h1) \<or> tx_view s i = None)"
        "\<forall>i. tx_view s i \<noteq> None \<longrightarrow> tx_view s' i = tx_view s i"
      using Suc.IH [OF Suc.prems(1), of h1 "acc @ [j]"] Suc.prems(2-5) free heap_store.room_less [of "n + k" s] by auto
    have "tx_view s j \<noteq> None" using Suc.prems(4) free by simp
    moreover have "j \<notin> set ids" using r(7) j calculation by auto
    moreover have "take_chain_pages own (Suc n) acc (h, s) = (Inr (acc @ j # ids), (h\<lparr>overflow_free := F\<rparr>, s'))"
      using False j(1) r(1) by (simp add: Let_def j_def [symmetric] h1_def)
    moreover have "j \<notin> set F" using r(6) j by auto
    ultimately show ?thesis
      using r free by (intro exI [of _ "j # ids"] exI [of _ F] exI [of _ s']) auto
  qed
qed

text \<open>Writing a chain.\<close>

lemma write_chain_ok:
  assumes "tx_ok s" and "tx_room k s" and "length ids = length cs" and "distinct ids" and "\<And>i. i \<in> set ids \<Longrightarrow> tx_view s i \<noteq> None"
    and "\<And>c. c \<in> set cs \<Longrightarrow> length c \<le> min_chunk"
  shows "\<exists>s'. write_chain ids cs s = (Inr (), s') \<and> tx_ok s' \<and> tx_room k s' \<and>
    chain_in (tx_view s') (case ids of i # _ \<Rightarrow> i | [] \<Rightarrow> 0) ids (concat cs) \<and> (\<forall>i. i \<notin> set ids \<longrightarrow> tx_view s' i = tx_view s i)"
  using assms
proof (induction ids cs arbitrary: s rule: write_chain.induct)
  case (1 pid ids chunk cs)
  define nxt where "nxt = (case ids of i # _ \<Rightarrow> i | [] \<Rightarrow> 0)"
  have c: "length chunk \<le> min_chunk" using "1.prems"(6) by simp
  obtain d where d: "tx_view s pid = Some d" using "1.prems"(5) by force
  obtain s1 where w: "tx_put pid (chain_page nxt chunk) s = (Inr (), s1)" "tx_ok s1" "tx_view s1 = (tx_view s)(pid \<mapsto> chain_page nxt chunk)" "tx_room k s1"
    using tx_put_step [OF "1.prems"(1) d chain_page_layout(1) [OF c] "1.prems"(2)] .
  obtain s' where r: "write_chain ids cs s1 = (Inr (), s')" "tx_ok s'" "tx_room k s'" "chain_in (tx_view s') nxt ids (concat cs)"
      "\<forall>i. i \<notin> set ids \<longrightarrow> tx_view s' i = tx_view s1 i"
    using "1.IH" [OF w(2,4)] "1.prems"(3-6) w(3) unfolding nxt_def by force
  have "tx_view s' pid = Some (chain_page nxt chunk)" using r(5) w(3) "1.prems"(4) by simp
  then have "chain_in (tx_view s') pid (pid # ids) (concat (chunk # cs))"
    using r(4) c tx_view_nonzero [of s pid] d by auto
  moreover have "write_chain (pid # ids) (chunk # cs) s = (Inr (), s')" using w(1) r(1) by (simp add: obind_def nxt_def)
  ultimately show ?case using r(2,3,5) w(3) by (intro exI [of _ s']) auto
qed auto

lemma chunks_spec: "0 < n \<Longrightarrow> concat (chunks n xs) = xs \<and> (\<forall>c \<in> set (chunks n xs). length c \<le> n) \<and> length (chunks n xs) \<le> length xs div n + 1"
proof (induction n xs rule: chunks.induct)
  case (1 n xs)
  show ?case
  proof (cases "xs = []")
    case False
    have eq: "chunks n xs = take n xs # chunks n (drop n xs)" using False "1.prems" by (subst chunks.simps) simp
    have ih: "concat (chunks n (drop n xs)) = drop n xs" "\<forall>c \<in> set (chunks n (drop n xs)). length c \<le> n"
        "length (chunks n (drop n xs)) \<le> (length xs - n) div n + 1"
      using "1.IH" "1.prems" False by auto
    have "length (chunks n (drop n xs)) \<le> length xs div n"
    proof (cases "n < length xs")
      case True
      then have "length xs div n = Suc ((length xs - n) div n)" using "1.prems" by (simp add: le_div_geq)
      then show ?thesis using ih(3) by simp
    qed (simp add: chunks.simps [of n "[]"])
    then show ?thesis using ih(1,2) by (simp add: eq)
  qed (simp add: chunks.simps)
qed

section \<open>Insertion\<close>

definition grown :: "(page_id \<Rightarrow> bytes option) \<Rightarrow> heap \<Rightarrow> heap_layout \<Rightarrow> bytes \<Rightarrow> (heap_error + u64) \<times> heap \<times> pager \<times> tx \<Rightarrow> bool" where
  "grown v h L bs r \<longleftrightarrow>
     (\<exists>loc h' s' L'. r = (Inr loc, (h', s')) \<and> tx_ok s' \<and> heap_holds (tx_view s') h' L' \<and> rows L' = rows L @ [(loc, bs)] \<and>
        dropped h' = dropped h \<and> (\<forall>i. i \<notin> set (layout_ids L @ overflow_free h) \<longrightarrow> v i \<noteq> None \<longrightarrow> tx_view s' i = v i))"

text \<open>\<open>s\<close> is the state after the chain, if any, has been written.\<close>

definition chain_written ::
    "(page_id \<Rightarrow> bytes option) \<Rightarrow> heap \<Rightarrow> heap_layout \<Rightarrow> page_id list \<Rightarrow> bytes \<Rightarrow> doc_layout \<Rightarrow> pager \<times> tx \<Rightarrow> bool" where
  "chain_written v h L F c d s \<longleftrightarrow>
     heap_holds v h L \<and> tx_ok s \<and> tx_room 1 s \<and> slot_holds (tx_view s) c d \<and>
     distinct (snd d) \<and> set (snd d) \<inter> set (layout_ids L @ F) = {} \<and> set F \<subseteq> set (overflow_free h) \<and> distinct F \<and>
     (\<forall>i. i \<in> set (layout_ids L @ F) \<longrightarrow> tx_view s i = v i) \<and>
     (\<forall>i. i \<notin> set (layout_ids L @ overflow_free h) \<longrightarrow> v i \<noteq> None \<longrightarrow> tx_view s i = v i)"

lemma chain_writtenD:
  assumes "chain_written v h L F c d s"
  shows "heap_holds v h L" and "tx_ok s" and "tx_room 1 s" and "slot_holds (tx_view s) c d"
    and "distinct (snd d)" and "set (snd d) \<inter> set (layout_ids L @ F) = {}" and "set F \<subseteq> set (overflow_free h)" and "distinct F"
    and "i \<in> set (layout_ids L @ F) \<Longrightarrow> tx_view s i = v i"
    and "i \<notin> set (layout_ids L @ overflow_free h) \<Longrightarrow> v i \<noteq> None \<Longrightarrow> tx_view s i = v i"
  using assms unfolding chain_written_def by blast+

lemma append_page_ok:
  assumes cw: "chain_written v h L F c d s" and small: "length c + 4 \<le> PAGE_SIZE - 2"
  shows "grown v h L (fst d) (append_page c (h\<lparr>overflow_free := F\<rparr>, s))"
proof -
  note hh = chain_writtenD(1) [OF cw] and ok = chain_writtenD(2) [OF cw] and room = chain_writtenD(3) [OF cw] and sh = chain_writtenD(4) [OF cw]
    and ids = chain_writtenD(5,6) [OF cw] and free = chain_writtenD(7,8) [OF cw] and same = chain_writtenD(9) [OF cw] and frame = chain_writtenD(10) [OF cw]
  let ?page = "put_doc (replicate PAGE_SIZE 0) c"
  have page: "length ?page = PAGE_SIZE"
  proof -
    have "length c + 4 \<le> free_space (replicate PAGE_SIZE 0)" using small by (simp add: free_space_def empty_page count_zero HEADER_FIXED_def)
    from put_doc_ok(1) [OF empty_page(1) this slot_nonempty [OF sh]] show ?thesis by (simp add: page_ok_def valid_page_def)
  qed
  obtain pid s1 s2 where w: "op_err HPager allocate_page s = (Inr pid, s1)" "op_err HPager (write_page pid 0 ?page) s1 = (Inr (), s2)" "tx_ok s2"
      "tx_view s pid = None" "tx_view s2 = (tx_view s)(pid \<mapsto> ?page)"
    using heap_store.fresh_step [OF ok room [unfolded One_nat_def] page] by blast
  have nid: "pid \<notin> set (layout_ids L @ F)" using heap_holds_ids [OF hh] same free w(4) by fastforce
  moreover have "pid \<notin> set (snd d)" using slot_holds_ids [OF sh] w(4) by blast
  ultimately have hh': "heap_holds (tx_view s2) (h\<lparr>overflow_free := F, heap_pages := heap_pages h @ [pid]\<rparr>) (L @ [(pid, [d])])"
    unfolding w(5) by (intro heap_holds_new_page [OF hh nid small sh]) (use ids free same in auto)
  have pd: "push_slot (splice (replicate PAGE_SIZE 0) (PAGE_SIZE - length c) c) (PAGE_SIZE - length c) (length c) = ?page"
    by (simp add: put_doc_def empty_page Let_def)
  have "append_page c (h\<lparr>overflow_free := F\<rparr>, s) = (Inr (pack_loc pid 0), (h\<lparr>overflow_free := F, heap_pages := heap_pages h @ [pid]\<rparr>, s2))"
    using w(2) unfolding append_page_def by (simp add: on_store_step w(1) Let_def pd tx_put_def del: op_err_Inr)
  moreover have "tx_view s2 i = v i" if "i \<notin> set (layout_ids L @ overflow_free h)" "v i \<noteq> None" for i
    using frame [OF that] that(2) w(4,5) by auto
  moreover have "rows (L @ [(pid, [d])]) = rows L @ [(pack_loc pid 0, fst d)]" by (simp add: rows_def case_prod_beta)
  ultimately show ?thesis using w(3) hh' unfolding grown_def by fastforce
qed

lemma put_last_ok:
  assumes cw: "chain_written v h L F c d s" and L: "L = L0 @ [(pid, ds)]" and p: "v pid = Some p" and c: "length c + 4 \<le> free_space p"
  shows "\<exists>s'. tx_load pid s = (Inr p, s') \<and> validate_page p pid = Inr () \<and>
    (\<exists>s2. tx_put pid (put_doc p c) s' = (Inr (), s2) \<and>
       grown v h L (fst d) (Inr (pack_loc pid (count_of (put_doc p c) - 1)), (h\<lparr>overflow_free := F\<rparr>, s2)))"
proof -
  note hh = chain_writtenD(1) [OF cw] and ok = chain_writtenD(2) [OF cw] and room = chain_writtenD(3) [OF cw] and sh = chain_writtenD(4) [OF cw]
    and ids = chain_writtenD(5,6) [OF cw] and free = chain_writtenD(7,8) [OF cw] and same = chain_writtenD(9) [OF cw] and frame = chain_writtenD(10) [OF cw]
  have ph: "page_holds v pid ds" using hh L by (simp add: heap_holds_def)
  then have pok: "page_ok p" using p by (auto simp: page_holds_def)
  have pv: "tx_view s pid = Some p" using same [of pid] p L by simp
  obtain s1 where r: "tx_load pid s = (Inr p, s1)" "tx_ok s1" "tx_view s1 = tx_view s" "tx_room 1 s1" using tx_load_step [OF ok pv room] .
  have len: "length (put_doc p c) = PAGE_SIZE"
    using put_doc_ok(1) [OF pok c slot_nonempty [OF sh]] by (simp add: page_ok_def valid_page_def)
  have pv1: "tx_view s1 pid = Some p" using r(3) pv by simp
  obtain s2 where w: "tx_put pid (put_doc p c) s1 = (Inr (), s2)" "tx_ok s2" "tx_view s2 = (tx_view s)(pid \<mapsto> put_doc p c)"
    using tx_put_step [OF r(2) pv1 len r(4)] r(3) by metis
  have hh': "heap_holds (tx_view s2) (h\<lparr>overflow_free := F\<rparr>) (L0 @ [(pid, ds @ [d])])"
    unfolding w(3) by (rule heap_holds_put_last [OF hh [unfolded L] p c sh]) (use ids free same L in auto)
  have "distinct (layout_ids L)" using hh by (simp add: heap_holds_def)
  then have "pid \<notin> set (concat (map snd ds))" "pid \<notin> set (snd d)" using ids(2) L by auto
  then have "count_of (put_doc p c) = length ds + 1"
    by (intro page_holds_put(2) [OF ph p c sh]) (use same L in auto)
  then have "rows (L0 @ [(pid, ds @ [d])]) = rows L @ [(pack_loc pid (count_of (put_doc p c) - 1), fst d)]" using L by simp
  moreover have "tx_view s2 i = v i" if "i \<notin> set (layout_ids L @ overflow_free h)" "v i \<noteq> None" for i
    using frame [OF that] that w(3) L by auto
  moreover have "validate_page p pid = Inr ()" using pok by (simp add: page_ok_def valid_page_validate)
  ultimately show ?thesis using r(1) w(1,2) hh' unfolding grown_def by fastforce
qed

lemma chain_written_plain:
  assumes "heap_holds (tx_view s) h L" and "tx_ok s" and "tx_room 1 s" and "bs \<noteq> []" and "hd bs \<noteq> OVERFLOW_MARK" and "length bs \<le> MAX_DOC_SIZE"
  shows "chain_written (tx_view s) h L (overflow_free h) bs (bs, []) s"
  using assms by (auto simp: chain_written_def slot_holds_def heap_holds_def)

lemma chain_written_view:
  assumes "chain_written v h L F c d s" and "tx_ok s'" and "tx_view s' = tx_view s" and "tx_room 1 s'"
  shows "chain_written v h L F c d s'"
  using assms by (simp add: chain_written_def)

lemma heap_pages_ids: "heap_holds v h L \<Longrightarrow> set (heap_pages h) \<subseteq> set (layout_ids L)"
proof -
  have "set (map fst L) \<subseteq> set (layout_ids L)" by (induction L) auto
  then show "heap_holds v h L \<Longrightarrow> set (heap_pages h) \<subseteq> set (layout_ids L)" by (simp add: heap_holds_def)
qed

text \<open>Building the chain of an overflow document.\<close>

lemma build_chain:
  assumes hh: "heap_holds v h L" and s: "tx_ok s" "tx_view s = v" "tx_room (length bs div min_chunk + 2) s" and size: "length bs \<le> MAX_DOC_SIZE"
    and cs_def: "cs = chunks min_chunk (drop inline_len bs)"
  obtains ids F s1 s2 where "take_chain_pages (set (heap_pages h)) (length cs) [] (h, s) = (Inr ids, (h\<lparr>overflow_free := F\<rparr>, s1))"
    and "write_chain ids cs s1 = (Inr (), s2)"
    and "chain_written v h L F (overflow_content (length bs) (case ids of c # _ \<Rightarrow> c | [] \<Rightarrow> 0) (take inline_len bs)) (bs, ids) s2"
proof -
  have mc: "0 < min_chunk" by (simp add: min_chunk_def heap_consts)
  note ch = chunks_spec [OF mc, of "drop inline_len bs", folded cs_def]
  have n: "length cs \<le> length bs div min_chunk + 1" using ch div_le_mono [of "length bs - inline_len" "length bs" min_chunk] by simp
  have r: "tx_room (length cs + 1) s" by (rule heap_store.room_le [OF _ s(3)]) (use n in simp)
  have dist: "distinct (overflow_free h)" "set (heap_pages h) \<inter> set (overflow_free h) = {}"
    using hh heap_pages_ids [OF hh] by (auto simp: heap_holds_def)
  have used: "tx_view s i \<noteq> None" if "i \<in> set (overflow_free h)" for i using heap_holds_ids [OF hh, of i] that s(2) by simp
  obtain ids F s1 where t: "take_chain_pages (set (heap_pages h)) (length cs) [] (h, s) = (Inr ([] @ ids), (h\<lparr>overflow_free := F\<rparr>, s1))"
      "length ids = length cs" "tx_ok s1" "tx_room 1 s1" "distinct (ids @ F)" "set F \<subseteq> set (overflow_free h)"
      "\<forall>i \<in> set ids. tx_view s1 i \<noteq> None \<and> (i \<in> set (overflow_free h) \<or> tx_view s i = None)"
      "\<forall>i. tx_view s i \<noteq> None \<longrightarrow> tx_view s1 i = tx_view s i"
    using take_chain_pages_ok [OF s(1) r dist(1) used dist(2)] by blast
  obtain s2 where w: "write_chain ids cs s1 = (Inr (), s2)" "tx_ok s2" "tx_room 1 s2"
      "chain_in (tx_view s2) (case ids of i # _ \<Rightarrow> i | [] \<Rightarrow> 0) ids (concat cs)" "\<forall>i. i \<notin> set ids \<longrightarrow> tx_view s2 i = tx_view s1 i"
    using write_chain_ok [OF t(3,4,2)] t(5,7) ch by auto
  have hop: "length ids \<le> hop_limit (length bs)" using n t(2) by (simp add: hop_limit_def)
  have sh: "slot_holds (tx_view s2) (overflow_content (length bs) (case ids of c # _ \<Rightarrow> c | [] \<Rightarrow> 0) (take inline_len bs)) (bs, ids)"
    unfolding slot_holds_def case_prod_conv
    by (intro conjI disjI2 exI [of _ "case ids of c # _ \<Rightarrow> c | [] \<Rightarrow> 0"] exI [of _ "take inline_len bs"] exI [of _ "drop inline_len bs"])
      (use size w(4) ch t(5) hop in auto)
  have apart: "set ids \<inter> set (layout_ids L @ F) = {}"
  proof -
    have "i \<notin> set (layout_ids L)" if "i \<in> set ids" for i
      using t(7) that heap_holds_ids [OF hh, of i] s(2) hh by (auto simp: heap_holds_def)
    then show ?thesis using t(5) by auto
  qed
  have "tx_view s2 i = v i" if "i \<in> set (layout_ids L @ F)" for i
  proof -
    have "i \<notin> set ids" using apart that by blast
    moreover have "v i \<noteq> None" by (rule heap_holds_ids [OF hh]) (use that t(6) in auto)
    ultimately show ?thesis using w(5) t(8) s(2) by simp
  qed
  moreover have "tx_view s2 i = v i" if "i \<notin> set (layout_ids L @ overflow_free h)" "v i \<noteq> None" for i
    using w(5) t(7,8) s(2) that by auto
  ultimately have "chain_written v h L F (overflow_content (length bs) (case ids of c # _ \<Rightarrow> c | [] \<Rightarrow> 0) (take inline_len bs)) (bs, ids) s2"
    unfolding chain_written_def using hh w(2,3) sh t(5,6) apart by auto
  then show ?thesis using that t(1) w(1) by simp
qed

text \<open>From the free space of the last page on.\<close>

lemma overflow_rest_ok:
  assumes hh: "heap_holds v h L" and s: "tx_ok s" "tx_view s = v" "tx_room (length bs div min_chunk + 2) s" and size: "length bs \<le> MAX_DOC_SIZE"
    and lf: "case lf of None \<Rightarrow> True | Some fs \<Rightarrow> \<exists>L0 ds p. L = L0 @ [(lst, ds)] \<and> v lst = Some p \<and> fs = free_space p"
    and il: "inline_len = min (max_inline lf) (length bs)" "cs = chunks min_chunk (drop inline_len bs)"
  shows "grown v h L bs (obind (take_chain_pages (set (heap_pages h)) (length cs) []) (\<lambda>chain.
    obind (on_store (write_chain chain cs)) (\<lambda>_.
      place_overflow (use_last lf) lst (overflow_content (length bs) (case chain of c # _ \<Rightarrow> c | [] \<Rightarrow> 0) (take inline_len bs)))) (h, s))"
proof -
  obtain ids F s1 s2 where b: "take_chain_pages (set (heap_pages h)) (length cs) [] (h, s) = (Inr ids, (h\<lparr>overflow_free := F\<rparr>, s1))"
      "write_chain ids cs s1 = (Inr (), s2)"
      "chain_written v h L F (overflow_content (length bs) (case ids of c # _ \<Rightarrow> c | [] \<Rightarrow> 0) (take inline_len bs)) (bs, ids) s2"
    using build_chain [OF hh s size il(2)] .
  define c where "c = overflow_content (length bs) (case ids of c # _ \<Rightarrow> c | [] \<Rightarrow> 0) (take inline_len bs)"
  have cl: "length c = 9 + inline_len" "inline_len \<le> max_inline lf"
    using overflow_content_header(3) [OF size] by (simp_all add: c_def il(1))
  have "grown v h L bs (place_overflow (use_last lf) lst c (h\<lparr>overflow_free := F\<rparr>, s2))"
  proof (cases "use_last lf")
    case False
    then have "length c + 4 \<le> PAGE_SIZE - 2" using cl by (simp add: max_inline_def heap_consts)
    from append_page_ok [OF b(3) [folded c_def] this] False show ?thesis by (simp add: place_overflow_def)
  next
    case True
    then obtain L0 ds p where l: "L = L0 @ [(lst, ds)]" "v lst = Some p" "lf = Some (free_space p)"
      using lf by (auto simp: use_last_def split: option.splits)
    then have "length c + 4 \<le> free_space p" using cl True by (simp add: max_inline_def use_last_def heap_consts)
    from put_last_ok [OF b(3) [folded c_def] l(1,2) this] True show ?thesis
      by (auto simp: place_overflow_def on_store_step Let_def)
  qed
  then show ?thesis using b(1,2) by (simp add: obind_step [of "take_chain_pages _ _ _"] on_store_step c_def)
qed

text \<open>The last page of a non-empty heap.\<close>

lemma last_heap_page:
  assumes hh: "heap_holds v h L" and L: "heap_pages h \<noteq> []" and s: "tx_ok s" "tx_view s = v" "tx_room n s"
  obtains L0 ds p s' where "L = L0 @ [(List.last (heap_pages h), ds)]" and "v (List.last (heap_pages h)) = Some p" and "page_ok p"
    and "tx_load (List.last (heap_pages h)) s = (Inr p, s')" and "validate_page p (List.last (heap_pages h)) = Inr ()"
    and "tx_ok s'" and "tx_view s' = v" and "tx_room n s'"
proof -
  have "L \<noteq> []" using hh L by (auto simp: heap_holds_def)
  then obtain L0 lst ds where l: "L = L0 @ [(lst, ds)]" by (metis append_butlast_last_id surj_pair)
  have "heap_pages h = map fst L0 @ [lst]" using hh l by (simp add: heap_holds_def)
  then have lst: "List.last (heap_pages h) = lst" by simp
  obtain p where p: "v lst = Some p" "page_ok p" using hh l by (auto simp: heap_holds_def page_holds_def)
  have "tx_view s lst = Some p" using p s(2) by simp
  then obtain s' where "tx_load lst s = (Inr p, s')" "tx_ok s'" "tx_view s' = tx_view s" "tx_room n s'"
    using tx_load_step [OF s(1) _ s(3)] by blast
  then show ?thesis using that l lst p s(2) by (simp add: page_ok_def valid_page_validate)
qed

lemma insert_overflow_ok:
  assumes hh: "heap_holds v h L" and s: "tx_ok s" "tx_view s = v" "tx_room (length bs div min_chunk + 2) s" and size: "length bs \<le> MAX_DOC_SIZE"
  shows "grown v h L bs (insert_overflow bs (h, s))"
proof (cases "heap_pages h = []")
  case True
  then show ?thesis
    using overflow_rest_ok [where lf = None, OF hh s size _ refl refl] by (simp add: insert_overflow_def Let_def)
next
  case False
  obtain L0 ds p s' where l: "L = L0 @ [(List.last (heap_pages h), ds)]" "v (List.last (heap_pages h)) = Some p"
      "tx_load (List.last (heap_pages h)) s = (Inr p, s')" "validate_page p (List.last (heap_pages h)) = Inr ()"
      "tx_ok s'" "tx_view s' = v" "tx_room (length bs div min_chunk + 2) s'"
    using last_heap_page [OF hh False s] by metis
  have "obind (on_store (tx_load (List.last (heap_pages h)))) (\<lambda>page'.
      obind (olift (validate_page page' (List.last (heap_pages h)))) (\<lambda>_. oret (Some (free_space page')))) (h, s) = (Inr (Some (free_space p)), (h, s'))"
    using l(3,4) by (simp add: on_store_step)
  then show ?thesis
    using overflow_rest_ok [where lf = "Some (free_space p)" and lst = "List.last (heap_pages h)", OF hh l(5-7) size _ refl refl] l(1,2) False
    by (simp add: insert_overflow_def Let_def obind_def [of "obind _ _"])
qed

lemma encode_object_head: "encode_object D doc = Inr bs \<Longrightarrow> bs \<noteq> [] \<and> hd bs \<noteq> OVERFLOW_MARK"
  by (auto simp: encode_object_def OVERFLOW_MARK_def result_simps Let_def split: if_splits)

text \<open>Inserting a document.\<close>

lemma heap_insert_ok:
  assumes hh: "heap_holds v h L" and s: "tx_ok s" "tx_view s = v" "tx_room (length bs div min_chunk + 2) s"
    and enc: "encode_object D doc = Inr bs" "length bs \<le> MAX_DOC_SIZE"
  shows "grown v h L bs (heap_insert D doc (h, s))"
proof (cases "PAGE_SIZE - HEADER_FIXED < length bs + SLOT_SIZE")
  case True
  then show ?thesis using insert_overflow_ok [OF hh s enc(2)] enc by (simp add: heap_insert_def)
next
  case fits: False
  have room: "tx_room 1 s" by (rule heap_store.room_le [OF _ s(3)]) simp
  note bs = encode_object_head [OF enc(1)]
  have small: "length bs + 4 \<le> PAGE_SIZE - 2" using fits by (simp add: heap_consts)
  have cw: "chain_written v h L (overflow_free h) bs (bs, []) s'" if "tx_ok s'" "tx_view s' = v" "tx_room 1 s'" for s'
    using chain_written_plain [of s' h L bs] hh that bs enc(2) by simp
  have app: "grown v h L bs (append_page bs (h, s'))" if "tx_ok s'" "tx_view s' = v" "tx_room 1 s'" for s'
    using append_page_ok [OF cw [OF that] small] by simp
  show ?thesis
  proof (cases "heap_pages h = []")
    case True
    then show ?thesis using app [OF s(1,2) room] fits enc by (simp add: heap_insert_def)
  next
    case False
    define lst where "lst = List.last (heap_pages h)"
    obtain L0 ds p s' where l: "L = L0 @ [(lst, ds)]" "v lst = Some p" "tx_load lst s = (Inr p, s')" "validate_page p lst = Inr ()"
        "tx_ok s'" "tx_view s' = v" "tx_room 1 s'"
      using last_heap_page [OF hh False s(1,2) room] unfolding lst_def by metis
    show ?thesis
    proof (cases "length bs + SLOT_SIZE \<le> free_space p")
      case True
      then have "length bs + 4 \<le> free_space p" by (simp add: SLOT_SIZE_def)
      from put_last_ok [OF cw [OF s(1,2) room] l(1,2) this] obtain s2 where
          "tx_put lst (put_doc p bs) s' = (Inr (), s2)" "grown v h L bs (Inr (pack_loc lst (count_of (put_doc p bs) - 1)), (h, s2))"
        using l(3) by auto
      then show ?thesis
        using fits enc False l(3,4) True by (simp add: heap_insert_def lst_def [symmetric] Let_def obind_def on_store_def get_heap_def)
    next
      case no: False
      then show ?thesis
        using app [OF l(5-7)] fits enc False l(3,4) by (simp add: heap_insert_def lst_def [symmetric] Let_def obind_def on_store_def get_heap_def)
    qed
  qed
qed

end
