(* ===== verification/Heap_Read.thy ===== *)
theory Heap_Read
  imports Heap_Insert
begin

text \<open>
  Reading the heap: scans, page reads and lookups by locator return the documents of the layout, decoded.
\<close>

section \<open>Documents\<close>

text \<open>The bytes of a well-formed document that fits the size limit.\<close>

definition doc_bytes :: "'d decimal_ops \<Rightarrow> 'd object \<Rightarrow> bytes \<Rightarrow> bool" where
  "doc_bytes D doc bs \<longleftrightarrow> encode_object D doc = Inr bs \<and> wf_value D (Object doc)"

lemma decode_document_ok: "decimal_laws D \<Longrightarrow> doc_bytes D doc bs \<Longrightarrow> decode_document D pid bs = Inr doc"
  using decode_encode(2) [of D "Object doc" bs "[]"]
  by (simp add: doc_bytes_def encode_object_eq decode_document_def)

section \<open>Reading pages\<close>

lemma page_slot:
  assumes "page_docs_of p = map Some cs" and "i < length cs"
  shows "snd (slot p i) \<noteq> 0" and "sub_bytes p (fst (slot p i)) (snd (slot p i)) = cs ! i" and "i < count_of p"
proof -
  show n: "i < count_of p" using arg_cong [OF assms(1), of length] assms(2) by simp
  have "slot_doc p i = Some (cs ! i)" using page_docs_of_nth [OF n] assms by simp
  then show "snd (slot p i) \<noteq> 0" "sub_bytes p (fst (slot p i)) (snd (slot p i)) = cs ! i"
    by (auto simp: slot_doc_def split: prod.splits if_splits)
qed

context heap_reader
begin

lemma slots_loop:
  assumes docs: "page_docs_of p = map Some cs" and sh: "list_all2 (slot_holds v) cs ds"
    and f: "\<And>i acc pg. i < length ds \<Longrightarrow> ok pg \<Longrightarrow> view pg = v \<Longrightarrow>
      \<exists>pg'. f i (fst (ds ! i)) acc pg = (Inr (acc @ [g i]), pg') \<and> ok pg' \<and> view pg' = v"
  shows "ok pg \<Longrightarrow> view pg = v \<Longrightarrow> set is \<subseteq> {..<length ds} \<Longrightarrow>
    \<exists>pg'. for_each (\<lambda>i acc. case slot p i of (off, len) \<Rightarrow>
      if len = 0 then oret acc else obind (slot_document_bytes reader t pid p off len) (\<lambda>bs. f i bs acc)) is acc pg =
      (Inr (acc @ map g is), pg') \<and> ok pg' \<and> view pg' = v"
proof (induction "is" arbitrary: acc pg)
  case (Cons i js)
  have len: "length cs = length ds" using sh by (rule list_all2_lengthD)
  have i: "i < length cs" using Cons.prems(3) len by simp
  note ps = page_slot [OF docs i]
  have "slot_holds v (cs ! i) (ds ! i)" using sh i by (simp add: list_all2_conv_all_nth)
  then have "slot_holds (view pg) (sub_bytes p (fst (slot p i)) (snd (slot p i))) (fst (ds ! i), snd (ds ! i))"
    using ps(2) Cons.prems(2) by simp
  then obtain pg1 where 1: "slot_document_bytes reader t pid p (fst (slot p i)) (snd (slot p i)) pg = (Inr (fst (ds ! i)), pg1)" "ok pg1" "view pg1 = v"
    using slot_document_ok [OF Cons.prems(1)] Cons.prems(2) by metis
  obtain pg2 where 2: "f i (fst (ds ! i)) acc pg1 = (Inr (acc @ [g i]), pg2)" "ok pg2" "view pg2 = v"
    using f [OF _ 1(2,3)] i len by metis
  obtain pg3 where "for_each (\<lambda>i acc. case slot p i of (off, len) \<Rightarrow>
      if len = 0 then oret acc else obind (slot_document_bytes reader t pid p off len) (\<lambda>bs. f i bs acc)) js (acc @ [g i]) pg2 =
      (Inr ((acc @ [g i]) @ map g js), pg3)" "ok pg3" "view pg3 = v"
    using Cons.IH [OF 2(2,3), of "acc @ [g i]"] Cons.prems(3) by auto
  then show ?case using ps(1) 1(1) 2(1) by (simp add: obind_def case_prod_beta)
qed simp

lemma over_slots_ok:
  assumes "ok pg" and "view pg = v" and "page_holds v pid ds"
    and "\<And>i acc pg. i < length ds \<Longrightarrow> ok pg \<Longrightarrow> view pg = v \<Longrightarrow>
      \<exists>pg'. f i (fst (ds ! i)) acc pg = (Inr (acc @ [g i]), pg') \<and> ok pg' \<and> view pg' = v"
  obtains pg' where "over_slots reader t pid f acc pg = (Inr (acc @ map g [0..<length ds]), pg')" and "ok pg'" and "view pg' = v"
proof -
  obtain p cs where p: "v pid = Some p" "page_ok p" "page_docs_of p = map Some cs" "list_all2 (slot_holds v) cs ds"
    using assms(3) by (auto simp: page_holds_def)
  have "view pg pid = Some p" using p(1) assms(2) by simp
  then obtain pg1 where 1: "load_page_owned reader t pid pg = (Inr p, pg1)" "ok pg1" "view pg1 = v"
    using load_step [OF assms(1)] assms(2) by metis
  have cnt: "count_of p = length ds"
    using arg_cong [OF p(3), of length] list_all2_lengthD [OF p(4)] by simp
  have val: "validate_page p pid = Inr ()" using p(2) by (simp add: page_ok_def valid_page_validate)
  have sub: "set [0..<length ds] \<subseteq> {..<length ds}" by auto
  obtain pg2 where "for_each (\<lambda>i acc. case slot p i of (off, len) \<Rightarrow>
      if len = 0 then oret acc else obind (slot_document_bytes reader t pid p off len) (\<lambda>bs. f i bs acc)) [0..<length ds] acc pg1 =
      (Inr (acc @ map g [0..<length ds]), pg2)" "ok pg2" "view pg2 = v"
    using slots_loop [where f = f and g = g and pid = pid and acc = acc, OF p(3,4) assms(4) 1(2,3) sub] by blast
  then show ?thesis using that 1(1) cnt val by (simp add: over_slots_def obind_step [of "load_page_owned _ _ _"])
qed

text \<open>A full scan, page by page.\<close>

lemma heap_scan_pages:
  assumes D: "decimal_laws D" and t: "t = None"
  shows "ok pg \<Longrightarrow> view pg = v \<Longrightarrow> (\<And>pid ds. (pid, ds) \<in> set L \<Longrightarrow> page_holds v pid ds) \<Longrightarrow>
    list_all2 (\<lambda>(_, ds) xs. list_all2 (\<lambda>d doc. doc_bytes D doc (fst d)) ds xs) L docs \<Longrightarrow>
    \<exists>pg'. for_each (\<lambda>pid. over_slots reader None pid (\<lambda>i bs out. olift (ebind (decode_document D pid bs) (\<lambda>doc. Inr (out @ [doc])))))
      (map fst L) acc pg = (Inr (acc @ concat docs), pg') \<and> ok pg' \<and> view pg' = v"
proof (induction L arbitrary: docs acc pg)
  case (Cons x L)
  obtain pid ds where x: "x = (pid, ds)" by (cases x)
  obtain xs docs' where docs: "docs = xs # docs'" "list_all2 (\<lambda>d doc. doc_bytes D doc (fst d)) ds xs"
      "list_all2 (\<lambda>(_, ds) xs. list_all2 (\<lambda>d doc. doc_bytes D doc (fst d)) ds xs) L docs'"
    using Cons.prems(4) x by (cases docs) auto
  have dec: "decode_document D pid (fst (ds ! i)) = Inr (xs ! i)" if "i < length ds" for i
    using docs(2) that decode_document_ok [OF D] by (simp add: list_all2_conv_all_nth)
  have ph: "page_holds v pid ds" using Cons.prems(3) x by simp
  obtain pg1 where 1: "over_slots reader t pid (\<lambda>i bs out. olift (ebind (decode_document D pid bs) (\<lambda>doc. Inr (out @ [doc])))) acc pg =
      (Inr (acc @ map ((!) xs) [0..<length ds]), pg1)" "ok pg1" "view pg1 = v"
    by (rule over_slots_ok [OF Cons.prems(1,2) ph, of "\<lambda>i bs out. olift (ebind (decode_document D pid bs) (\<lambda>doc. Inr (out @ [doc])))" "(!) xs" acc])
      (use dec in auto)
  have "map ((!) xs) [0..<length ds] = xs" using list_all2_lengthD [OF docs(2)] by (simp add: map_nth)
  moreover have "page_holds v pid ds" if "(pid, ds) \<in> set L" for pid ds using Cons.prems(3) that by simp
  from Cons.IH [OF 1(2,3) this docs(3), of "acc @ xs"] obtain pg2 where
      "for_each (\<lambda>pid. over_slots reader None pid (\<lambda>i bs out. olift (ebind (decode_document D pid bs) (\<lambda>doc. Inr (out @ [doc])))))
        (map fst L) (acc @ xs) pg1 = (Inr ((acc @ xs) @ concat docs'), pg2)" "ok pg2" "view pg2 = v" by blast
  ultimately show ?case using 1(1) x docs(1) t by (intro exI [of _ pg2]) (simp add: obind_def del: olift_apply)
qed simp

lemma doc_at_ok:
  assumes D: "decimal_laws D" and t: "t = None" and s: "ok pg" "view pg = v" and hh: "heap_holds v h L"
    and mem: "(pid, ds) \<in> set L" and i: "i < length ds" and doc: "doc_bytes D doc (fst (ds ! i))"
  shows "\<exists>pg'. doc_at D h reader (pack_loc pid i) pg = (Inr (Some doc), pg') \<and> ok pg' \<and> view pg' = v"
proof -
  obtain p cs where p: "v pid = Some p" "page_ok p" "page_docs_of p = map Some cs" "list_all2 (slot_holds v) cs ds"
    using hh mem by (auto simp: heap_holds_def page_holds_def)
  have len: "length cs = length ds" using p(4) by (rule list_all2_lengthD)
  note ps = page_slot [OF p(3), of i]
  have "count_of p \<le> 1024" using p(2) by (simp add: page_ok_def valid_page_def PAGE_SIZE_def)
  then have u: "unpack_loc (pack_loc pid i) = (pid, i)" using ps(3) i len by (intro unpack_pack_loc) simp
  have "map fst L = heap_pages h" using hh by (simp add: heap_holds_def)
  then have "pid \<in> set (heap_pages h)" using mem by (metis fst_conv image_eqI set_map)
  then have own: "check_page_owned h pid = Inr ()" by (simp add: check_page_owned_def)
  have val: "validate_page p pid = Inr ()" using p(2) by (simp add: page_ok_def valid_page_validate)
  have "view pg pid = Some p" using p(1) s(2) by simp
  then obtain pg1 where 1: "load_page_owned reader t pid pg = (Inr p, pg1)" "ok pg1" "view pg1 = v"
    using load_step [OF s(1)] s(2) by metis
  have "slot_holds v (cs ! i) (ds ! i)" using p(4) i by (simp add: list_all2_conv_all_nth)
  then have "slot_holds (view pg1) (sub_bytes p (fst (slot p i)) (snd (slot p i))) (fst (ds ! i), snd (ds ! i))"
    using ps(2) i len 1(3) by simp
  then obtain pg2 where 2: "slot_document_bytes reader t pid p (fst (slot p i)) (snd (slot p i)) pg1 = (Inr (fst (ds ! i)), pg2)" "ok pg2" "view pg2 = v"
    using slot_document_ok [OF 1(2)] 1(3) by metis
  have "doc_at D h reader (pack_loc pid i) pg = (Inr (Some doc), pg2)"
    using u own val 1(1) 2(1) ps(1,3) i len decode_document_ok [OF D doc] t
    by (simp add: doc_at_def obind_def case_prod_beta not_le)
  then show ?thesis using 2 by blast
qed

end

section \<open>The readers\<close>

text \<open>Inside a transaction, and on the committed pages.\<close>

definition committed_view :: "pager \<Rightarrow> page_id \<Rightarrow> bytes option" where
  "committed_view pg i = (if i = 0 \<or> num_pages pg \<le> i then None else base_image pg i)"

interpretation tx_reader: heap_reader "\<lambda>pg. tx_ok (pg, tx)" "\<lambda>pg. tx_view (pg, tx)" Current "Some tx" for tx
proof
  fix pg i d
  assume "tx_ok (pg, tx)" "tx_view (pg, tx) i = Some d"
  then show "length d = PAGE_SIZE" "\<exists>pg'. reader_page Current (Some tx) i pg = (Inr d, pg') \<and> tx_ok (pg', tx) \<and> tx_view (pg', tx) = tx_view (pg, tx)"
    using tx_view_size reader_page_current by (blast, metis)
qed

interpretation committed_reader: heap_reader store_ok committed_view Current None
proof
  fix pg i d
  assume ok: "store_ok pg" and d: "committed_view pg i = Some d"
  then show "length d = PAGE_SIZE" using base_image_size by (auto simp: committed_view_def store_ok_def split: if_splits)
  have c: "coherent pg" using ok by (simp add: store_ok_def)
  have i: "i \<noteq> 0" "i < num_pages pg" "base_image pg i = Some d" using d by (auto simp: committed_view_def split: if_splits)
  obtain pg' where r: "read_page_shared i pg = (Inr d, pg')" using read_page_shared_image [OF c i] .
  obtain st where "coherent pg'" and st: "pg' = pg\<lparr>pool := st\<rparr>" using read_page_shared_keeps [OF c r] by blast
  then have "store_ok pg'" "committed_view pg' = committed_view pg" using ok by (auto simp: store_ok_def pending_ok_def committed_view_def fun_eq_iff)
  then show "\<exists>pg'. reader_page Current None i pg = (Inr d, pg') \<and> store_ok pg' \<and> committed_view pg' = committed_view pg"
    using r by (auto simp: reader_page_def)
qed

end
