(* ===== verification/Heap_Remove.thy ===== *)
theory Heap_Remove
  imports Heap_Read
begin

text \<open>
  Removal from the heap: the chains of the removed documents are recycled, the survivors of each page keep
  their order, and the reported moves name their new locators.
\<close>

section \<open>Recycling a chain\<close>

lemma walk_chain_ok:
  "tx_ok s \<Longrightarrow> tx_view s = v \<Longrightarrow> tx_room n s \<Longrightarrow> chain_in v nxt ids rest \<Longrightarrow> distinct (chain @ ids) \<Longrightarrow> set ids \<inter> own = {} \<Longrightarrow>
     length ids \<le> hops \<Longrightarrow> assembled + length rest \<le> total_len \<Longrightarrow>
     \<exists>s'. walk_chain hops total_len own nxt chain assembled s = (Inr (chain @ ids, assembled + length rest), s') \<and>
       tx_ok s' \<and> tx_view s' = v \<and> tx_room n s'"
proof (induction hops arbitrary: s nxt ids rest chain assembled)
  case (Suc hops)
  show ?case
  proof (cases ids)
    case (Cons i ids')
    then obtain chunk nxt' rest' where c: "nxt = i" "i \<noteq> 0" "v i = Some (chain_page nxt' chunk)" "length chunk \<le> min_chunk"
        "rest = chunk @ rest'" "chain_in v nxt' ids' rest'"
      using Suc.prems(4) by auto
    have "tx_view s i = Some (chain_page nxt' chunk)" using c(3) Suc.prems(2) by simp
    then obtain s1 where r: "tx_load i s = (Inr (chain_page nxt' chunk), s1)" "tx_ok s1" "tx_view s1 = v" "tx_room n s1"
      using tx_load_step [OF Suc.prems(1) _ Suc.prems(3)] Suc.prems(2) by metis
    have "distinct ((chain @ [i]) @ ids')" "set ids' \<inter> own = {}" "length ids' \<le> hops" "(assembled + length chunk) + length rest' \<le> total_len"
      using Suc.prems(5-8) Cons c(5) by auto
    from Suc.IH [OF r(2-4) c(6) this]
    obtain s2 where "walk_chain hops total_len own nxt' (chain @ [i]) (assembled + length chunk) s1 =
        (Inr ((chain @ [i]) @ ids', (assembled + length chunk) + length rest'), s2)" "tx_ok s2" "tx_view s2 = v" "tx_room n s2" by blast
    moreover have "i \<notin> own" "i \<notin> set chain" using Suc.prems(5,6) Cons by auto
    ultimately show ?thesis
      using c r(1) chain_page_layout [OF c(4)] Suc.prems(8) Cons by (simp add: obind_def min_chunk_def heap_consts)
  qed (use Suc.prems in auto)
qed auto

lemma zero_chain_ok:
  "tx_ok s \<Longrightarrow> tx_room n s \<Longrightarrow> (\<And>i. i \<in> set ids \<Longrightarrow> tx_view s i \<noteq> None) \<Longrightarrow>
     \<exists>s'. for_each (\<lambda>i _. obind (on_store (tx_put i (replicate PAGE_SIZE 0))) (\<lambda>_. on_heap (\<lambda>h. h\<lparr>overflow_free := overflow_free h @ [i]\<rparr>))) ids () (h, s) =
       (Inr (), (h\<lparr>overflow_free := overflow_free h @ ids\<rparr>, s')) \<and> tx_ok s' \<and> tx_room n s' \<and>
       (\<forall>i. i \<notin> set ids \<longrightarrow> tx_view s' i = tx_view s i) \<and> (\<forall>i. tx_view s i \<noteq> None \<longrightarrow> tx_view s' i \<noteq> None)"
proof (induction ids arbitrary: h s)
  case (Cons i ids)
  obtain d where d: "tx_view s i = Some d" using Cons.prems(3) by force
  obtain s1 where w: "tx_put i (replicate PAGE_SIZE 0) s = (Inr (), s1)" "tx_ok s1" "tx_view s1 = (tx_view s)(i \<mapsto> replicate PAGE_SIZE 0)" "tx_room n s1"
    using tx_put_step [OF Cons.prems(1) d length_replicate Cons.prems(2)] .
  define h1 where "h1 = h\<lparr>overflow_free := overflow_free h @ [i]\<rparr>"
  have "tx_view s1 j \<noteq> None" if "j \<in> set ids" for j using Cons.prems(3) [of j] that w(3) by simp
  from Cons.IH [where h = h1, OF w(2,4) this] obtain s2 where
      "for_each (\<lambda>i _. obind (on_store (tx_put i (replicate PAGE_SIZE 0))) (\<lambda>_. on_heap (\<lambda>h. h\<lparr>overflow_free := overflow_free h @ [i]\<rparr>))) ids () (h1, s1) =
        (Inr (), (h1\<lparr>overflow_free := overflow_free h1 @ ids\<rparr>, s2))" "tx_ok s2" "tx_room n s2"
      "\<forall>j. j \<notin> set ids \<longrightarrow> tx_view s2 j = tx_view s1 j" "\<forall>j. tx_view s1 j \<noteq> None \<longrightarrow> tx_view s2 j \<noteq> None" by blast
  moreover have "obind (on_store (tx_put i (replicate PAGE_SIZE 0))) (\<lambda>_. on_heap (\<lambda>h. h\<lparr>overflow_free := overflow_free h @ [i]\<rparr>)) (h, s) = (Inr (), (h1, s1))"
    using w(1) by (simp add: on_store_step on_heap_def h1_def)
  ultimately show ?case
    using w(3) by (intro exI [of _ s2]) (auto simp: obind_step h1_def)
qed auto

lemma recycle_slot_ok:
  assumes s: "tx_ok s" "tx_view s = v" "tx_room n s" and sh: "slot_holds v c d" and own: "set (snd d) \<inter> set (heap_pages h) = {}"
  obtains s' where "recycle_slot pid c (h, s) = (Inr (), (h\<lparr>overflow_free := overflow_free h @ snd d\<rparr>, s'))" and "tx_ok s'" and "tx_room n s'"
    and "\<And>i. i \<notin> set (snd d) \<Longrightarrow> tx_view s' i = v i" and "\<And>i. v i \<noteq> None \<Longrightarrow> tx_view s' i \<noteq> None"
proof -
  obtain bs ids where d: "d = (bs, ids)" by (cases d)
  have size: "length bs \<le> MAX_DOC_SIZE" using sh d by (simp add: slot_holds_def)
  consider "ids = []" "c = bs" "hd bs \<noteq> OVERFLOW_MARK"
    | head inline rest where "c = overflow_content (length bs) head inline" "bs = inline @ rest" "chain_in v head ids rest" "distinct ids" "length ids \<le> hop_limit (length bs)"
    using sh d by (auto simp: slot_holds_def)
  then show ?thesis
  proof cases
    case 1
    then show ?thesis using that [of s] s d by (simp add: recycle_slot_def)
  next
    case 2
    note oc = overflow_content_header [OF size, of head inline]
    have len: "length rest \<le> length bs" using 2(2) by simp
    obtain s1 where w: "walk_chain (hop_limit (length bs)) (length bs) (set (heap_pages h)) head [] 0 s = (Inr (ids, length rest), s1)"
        "tx_ok s1" "tx_view s1 = v" "tx_room n s1"
      using walk_chain_ok [OF s 2(3), of "[]" "set (heap_pages h)" "hop_limit (length bs)" 0 "length bs"] 2(4,5) own d len by auto
    have "tx_view s1 i \<noteq> None" if "i \<in> set ids" for i using slot_holds_ids [OF sh, of i] that d w(3) by simp
    from zero_chain_ok [where h = h, OF w(2,4) this] obtain s2 where z:
        "for_each (\<lambda>i _. obind (on_store (tx_put i (replicate PAGE_SIZE 0))) (\<lambda>_. on_heap (\<lambda>h. h\<lparr>overflow_free := overflow_free h @ [i]\<rparr>))) ids () (h, s1) =
          (Inr (), (h\<lparr>overflow_free := overflow_free h @ ids\<rparr>, s2))" "tx_ok s2" "tx_room n s2"
        "\<forall>i. i \<notin> set ids \<longrightarrow> tx_view s2 i = tx_view s1 i" "\<forall>i. tx_view s1 i \<noteq> None \<longrightarrow> tx_view s2 i \<noteq> None" by blast
    have "recycle_slot pid c (h, s) = (Inr (), (h\<lparr>overflow_free := overflow_free h @ ids\<rparr>, s2))"
      using oc size w(1) z(1) 2(1,2) by (simp add: recycle_slot_def recycle_chain_def on_store_step OVERFLOW_SLOT_HEADER_def)
    then show ?thesis using that [of s2] z w(3) d by simp
  qed
qed

section \<open>Killing slots\<close>

text \<open>What is known of a page while its slots are killed: the documents left, and the chains still to recycle.\<close>

lemma kill_slots_ok:
  assumes "tx_ok s" and "tx_view s = v" and "tx_room n s" and "valid_page p" and "distinct slots"
    and "\<And>i. i \<in> set slots \<Longrightarrow> i < count_of p \<and> (\<exists>c. page_docs_of p ! i = Some c \<and> slot_holds v c (ds ! i))"
    and "distinct (concat (map (\<lambda>i. snd (ds ! i)) slots))" and "set (concat (map (\<lambda>i. snd (ds ! i)) slots)) \<inter> set (heap_pages h) = {}"
  shows "\<exists>q s'. for_each (kill_slot pid (count_of p)) slots p (h, s) =
      (Inr q, (h\<lparr>overflow_free := overflow_free h @ concat (map (\<lambda>i. snd (ds ! i)) slots)\<rparr>, s')) \<and> tx_ok s' \<and> tx_room n s' \<and>
      valid_page q \<and> page_docs_of q = map (\<lambda>i. if i \<in> set slots then None else page_docs_of p ! i) [0..<count_of p] \<and>
      (\<forall>i. i \<notin> set (concat (map (\<lambda>i. snd (ds ! i)) slots)) \<longrightarrow> tx_view s' i = v i) \<and> (\<forall>i. v i \<noteq> None \<longrightarrow> tx_view s' i \<noteq> None)"
  using assms
proof (induction slots arbitrary: s v p h)
  case Nil
  have "page_docs_of p = map ((!) (page_docs_of p)) [0..<count_of p]" by (metis length_page_docs_of map_nth)
  then show ?case using Nil by (intro exI [of _ p] exI [of _ s]) auto
next
  case (Cons i slots)
  obtain c where c: "i < count_of p" "page_docs_of p ! i = Some c" "slot_holds v c (ds ! i)" using Cons.prems(6) by force
  obtain off len where sl: "slot p i = (off, len)" by (cases "slot p i")
  have sd: "len \<noteq> 0" "sub_bytes p off len = c" using c(2) sl page_docs_of_nth [OF c(1)] by (auto simp: slot_doc_def split: if_splits)
  have own: "set (snd (ds ! i)) \<inter> set (heap_pages h) = {}" using Cons.prems(8) by auto
  obtain s1 where r: "recycle_slot pid c (h, s) = (Inr (), (h\<lparr>overflow_free := overflow_free h @ snd (ds ! i)\<rparr>, s1))" "tx_ok s1" "tx_room n s1"
      "\<And>j. j \<notin> set (snd (ds ! i)) \<Longrightarrow> tx_view s1 j = v j" "\<And>j. v j \<noteq> None \<Longrightarrow> tx_view s1 j \<noteq> None"
    using recycle_slot_ok [OF Cons.prems(1-3) c(3) own] by blast
  define h1 where "h1 = h\<lparr>overflow_free := overflow_free h @ snd (ds ! i)\<rparr>"
  define p1 where "p1 = tombstone p i"
  note tb = tombstone_ok [OF Cons.prems(4) c(1), folded p1_def]
  have cnt: "count_of p1 = count_of p" using arg_cong [OF tb(2), of length] by simp
  have ih: "j < count_of p1 \<and> (\<exists>c. page_docs_of p1 ! j = Some c \<and> slot_holds (tx_view s1) c (ds ! j))" if j: "j \<in> set slots" for j
  proof -
    obtain c' where c': "j < count_of p" "page_docs_of p ! j = Some c'" "slot_holds v c' (ds ! j)" using Cons.prems(6) [of j] j by auto
    have "j \<noteq> i" using Cons.prems(5) j by auto
    moreover have "slot_holds (tx_view s1) c' (ds ! j)"
      by (rule slot_holds_cong [OF c'(3)], rule r(4)) (use Cons.prems(7) j in auto)
    ultimately show ?thesis using c' tb(2) cnt by auto
  qed
  obtain q s2 where 2: "for_each (kill_slot pid (count_of p1)) slots p1 (h1, s1) =
      (Inr q, (h1\<lparr>overflow_free := overflow_free h1 @ concat (map (\<lambda>i. snd (ds ! i)) slots)\<rparr>, s2))" "tx_ok s2" "tx_room n s2" "valid_page q"
      "page_docs_of q = map (\<lambda>j. if j \<in> set slots then None else page_docs_of p1 ! j) [0..<count_of p1]"
      "\<forall>j. j \<notin> set (concat (map (\<lambda>i. snd (ds ! i)) slots)) \<longrightarrow> tx_view s2 j = tx_view s1 j" "\<forall>j. tx_view s1 j \<noteq> None \<longrightarrow> tx_view s2 j \<noteq> None"
  proof -
    have "distinct slots" "distinct (concat (map (\<lambda>i. snd (ds ! i)) slots))" "set (concat (map (\<lambda>i. snd (ds ! i)) slots)) \<inter> set (heap_pages h1) = {}"
      using Cons.prems(5,7,8) by (auto simp: h1_def)
    from Cons.IH [OF r(2) refl r(3) tb(1) this(1) ih this(2,3)] show ?thesis using that by blast
  qed
  have "kill_slot pid (count_of p) i p (h, s) = (Inr p1, (h1, s1))"
    using c(1) sl sd r(1) by (simp add: kill_slot_def obind_def p1_def h1_def)
  then have "for_each (kill_slot pid (count_of p)) (i # slots) p (h, s) =
      (Inr q, (h\<lparr>overflow_free := overflow_free h @ concat (map (\<lambda>i. snd (ds ! i)) (i # slots))\<rparr>, s2))"
    using 2(1) by (simp add: obind_def cnt h1_def)
  moreover have "page_docs_of q = map (\<lambda>j. if j \<in> set (i # slots) then None else page_docs_of p ! j) [0..<count_of p]"
    using 2(5) tb(2) by (auto simp: cnt)
  ultimately show ?case using 2(2-4,6,7) r(4,5) by (intro exI [of _ q] exI [of _ s2]) auto
qed

section \<open>One page\<close>

definition kept :: "nat list \<Rightarrow> nat \<Rightarrow> nat list" where
  "kept slots n = filter (\<lambda>i. i \<notin> set slots) [0..<n]"

definition page_moves :: "page_id \<Rightarrow> nat list \<Rightarrow> nat \<Rightarrow> (u64 \<times> u64) list" where
  "page_moves pid slots n = map (\<lambda>(new, old). (pack_loc pid old, pack_loc pid new)) (enumerate 0 (kept slots n))"

definition page_rest :: "page_id \<Rightarrow> doc_layout list \<Rightarrow> heap_layout" where
  "page_rest pid ds = (if ds = [] then [] else [(pid, ds)])"

lemma somes_kept: "somes (map (\<lambda>i. if i \<in> set slots then None else Some (f i)) [0..<n]) = map f (kept slots n)"
proof -
  have "somes (map (\<lambda>i. if i \<in> set slots then None else Some (f i)) is) = map f (filter (\<lambda>i. i \<notin> set slots) is)" for "is"
    by (induction "is") auto
  then show ?thesis by (simp add: kept_def)
qed

lemma repack_kept:
  assumes "valid_page q" and "page_docs_of q = map (\<lambda>i. if i \<in> set slots then None else Some (f i)) [0..<n]"
  shows "page_docs_of (snd (repack q)) = map Some (map f (kept slots n))"
    and "relocate pid (fst (repack q)) = page_moves pid slots n"
proof -
  show "page_docs_of (snd (repack q)) = map Some (map f (kept slots n))"
    using repack_ok(2) [OF assms(1)] by (simp only: assms(2) somes_kept)
  have n: "count_of q = n" using arg_cong [OF assms(2), of length] by simp
  have "map fst (live_slots q) = kept slots n"
    unfolding live_slots_index kept_def n by (rule filter_cong) (auto simp: assms(2))
  moreover have "enumerate m (map fst xs) = map (\<lambda>(i, x). (i, fst x)) (enumerate m xs)" for m and xs :: "(nat \<times> bytes) list"
    by (induction xs arbitrary: m) auto
  ultimately have "enumerate 0 (kept slots n) = map (\<lambda>(i, x). (i, fst x)) (enumerate 0 (live_slots q))" by metis
  then show "relocate pid (fst (repack q)) = page_moves pid slots n"
    by (simp add: repack_def Let_def relocate_def page_moves_def case_prod_beta comp_def)
qed

lemma distinct_concat_nth:
  assumes "distinct (concat xss)" and "i < j" and "j < length xss"
  shows "set (xss ! i) \<inter> set (xss ! j) = {}"
proof -
  have "xss = take i xss @ xss ! i # drop (Suc i) xss" using assms(2,3) by (simp add: id_take_nth_drop)
  then have "distinct (concat (take i xss) @ xss ! i @ concat (drop (Suc i) xss))" using assms(1) by (metis concat.simps(2) concat_append)
  then have "set (xss ! i) \<inter> set (concat (drop (Suc i) xss)) = {}" by simp
  moreover have "xss ! j \<in> set (drop (Suc i) xss)"
    using assms(2,3) by (auto simp: in_set_conv_nth intro!: exI [of _ "j - Suc i"])
  ultimately show ?thesis by auto
qed

lemma distinct_part:
  assumes "distinct (concat (map snd (ds :: doc_layout list)))" and "distinct js" and "set js \<subseteq> {..<length ds}"
  shows "distinct (concat (map (\<lambda>i. snd (ds ! i)) js))"
  using assms(2,3)
proof (induction js)
  case (Cons i js)
  have "set (snd (ds ! i)) \<inter> set (snd (ds ! j)) = {}" if "j \<in> set js" for j
  proof -
    have "i \<noteq> j" "i < length ds" "j < length ds" using Cons.prems that by auto
    then show ?thesis
      using distinct_concat_nth [OF assms(1), of i j] distinct_concat_nth [OF assms(1), of j i] by (cases "i < j") auto
  qed
  moreover have "distinct (snd (ds ! i))" using assms(1) Cons.prems(2) by (simp add: distinct_concat_iff)
  ultimately show ?case using Cons by auto
qed simp

text \<open>Removing the given slots of one page of the heap.\<close>

lemma remove_from_page_ok:
  assumes hh: "heap_holds v h (A @ (pid, ds) # B)" and s: "tx_ok s" "tx_view s = v" "tx_room n s"
    and slots: "distinct slots" "set slots \<subseteq> {..<length ds}"
  shows "\<exists>h' s'. remove_from_page pid slots (h, s) = (Inr (page_moves pid slots (length ds)), (h', s')) \<and> tx_ok s' \<and> tx_room n s' \<and>
    heap_holds (tx_view s') h' (A @ page_rest pid (map ((!) ds) (kept slots (length ds))) @ B) \<and>
    (\<forall>i. i \<notin> set (layout_ids (A @ (pid, ds) # B)) \<longrightarrow> tx_view s' i = v i)"
proof -
  have ids: "distinct (layout_ids (A @ (pid, ds) # B) @ overflow_free h)" and ph: "\<And>i ds'. (i, ds') \<in> set (A @ B) \<Longrightarrow> page_holds v i ds'"
    and hp: "heap_pages h = map fst A @ pid # map fst B" and "page_holds v pid ds"
    using hh by (auto simp: heap_holds_def)
  then obtain p cs where p: "v pid = Some p" "page_ok p" "page_docs_of p = map Some cs" "list_all2 (slot_holds v) cs ds"
    by (auto simp: page_holds_def)
  have len: "length cs = length ds" "count_of p = length ds"
    using list_all2_lengthD [OF p(4)] arg_cong [OF p(3), of length] by simp_all
  define gone where "gone = concat (map (\<lambda>i. snd (ds ! i)) slots)"
  have gone_sub: "set gone \<subseteq> set (concat (map snd ds))" using slots(2) by (force simp: gone_def)
  have dist: "distinct gone"
    unfolding gone_def by (rule distinct_part [OF _ slots]) (use ids in simp)
  have own: "set gone \<inter> set (heap_pages h) = {}" using gone_sub heap_pages_ids [OF hh] ids hp by (auto simp: layout_ids_def) fastforce+
  obtain s1 where l: "tx_load pid s = (Inr p, s1)" "tx_ok s1" "tx_view s1 = v" "tx_room n s1"
    using tx_load_step [OF s(1) _ s(3), of pid p] p(1) s(2) by metis
  have val: "validate_page p pid = Inr ()" "valid_page p" using p(2) by (simp_all add: page_ok_def valid_page_validate)
  have sl: "i < count_of p \<and> (\<exists>c. page_docs_of p ! i = Some c \<and> slot_holds v c (ds ! i))" if "i \<in> set slots" for i
    using that slots(2) len p(3,4) by (auto simp: list_all2_conv_all_nth)
  obtain q s2 where k: "for_each (kill_slot pid (count_of p)) slots p (h, s1) = (Inr q, (h\<lparr>overflow_free := overflow_free h @ gone\<rparr>, s2))"
      "tx_ok s2" "tx_room n s2" "valid_page q" "page_docs_of q = map (\<lambda>i. if i \<in> set slots then None else page_docs_of p ! i) [0..<count_of p]"
      "\<forall>i. i \<notin> set gone \<longrightarrow> tx_view s2 i = v i" "\<forall>i. v i \<noteq> None \<longrightarrow> tx_view s2 i \<noteq> None"
    using kill_slots_ok [OF l(2-4) val(2) slots(1) sl dist [unfolded gone_def] own [unfolded gone_def]] unfolding gone_def by blast
  have qd: "page_docs_of q = map (\<lambda>i. if i \<in> set slots then None else Some (cs ! i)) [0..<length ds]"
    using k(5) p(3) len by (auto simp: len)
  note rp = repack_kept [OF k(4) qd] and ro = repack_ok(1) [OF k(4)]
  define q' where "q' = snd (repack q)"
  define ds' where "ds' = map ((!) ds) (kept slots (length ds))"
  have npid: "pid \<notin> set (concat (map snd ds))" using ids by auto
  then have "pid \<notin> set gone" using gone_sub by blast
  then have pq: "tx_view s2 pid = Some p" using k(6) p(1) by simp
  have lq: "length q' = PAGE_SIZE" using ro by (simp add: q'_def page_ok_def valid_page_def)
  obtain s3 where w: "tx_put pid q' s2 = (Inr (), s3)" "tx_ok s3" "tx_view s3 = (tx_view s2)(pid \<mapsto> q')" "tx_room n s3"
    using tx_put_step [OF k(2) pq lq k(3)] .
  define h' where "h' = retire_if_empty pid q' (h\<lparr>overflow_free := overflow_free h @ gone\<rparr>)"
  have cq: "count_of q' = 0 \<longleftrightarrow> ds' = []" using arg_cong [OF rp(1), of length] by (auto simp: q'_def ds'_def)
  have op: "remove_from_page pid slots (h, s) = (Inr (page_moves pid slots (length ds)), (h', s3))"
    using l(1) val(1) k(1) w(1) rp(2) by (simp add: remove_from_page_def on_store_step obind_step [of "for_each _ _ _"] case_prod_beta q'_def h'_def)
  have parts: "distinct (concat (map snd ds') @ gone)" "set (concat (map snd ds')) \<subseteq> set (concat (map snd ds))"
  proof -
    have "distinct (concat (map (\<lambda>i. snd (ds ! i)) (kept slots (length ds) @ slots)))"
      by (rule distinct_part) (use ids slots in \<open>auto simp: kept_def\<close>)
    then show "distinct (concat (map snd ds') @ gone)" by (simp add: ds'_def gone_def comp_def)
    show "set (concat (map snd ds')) \<subseteq> set (concat (map snd ds))" by (force simp: ds'_def kept_def)
  qed
  have v3: "tx_view s3 i = v i" if "i \<notin> set gone" "i \<noteq> pid" for i using that k(6) w(3) by simp
  have here: "page_holds (tx_view s3) pid ds'"
  proof -
    have "list_all2 (slot_holds v) (map ((!) cs) (kept slots (length ds))) ds'"
      using p(4) len by (auto simp: list_all2_conv_all_nth ds'_def kept_def dest!: nth_mem)
    then have "list_all2 (slot_holds (tx_view s3)) (map ((!) cs) (kept slots (length ds))) ds'"
    proof (rule slots_cong)
      fix i assume "i \<in> set (concat (map snd ds'))"
      then have "i \<notin> set gone" "i \<noteq> pid" using parts npid by auto
      then show "tx_view s3 i = v i" by (rule v3)
    qed
    then show ?thesis
      using w(3) ro rp(1) unfolding page_holds_def q'_def
      by (intro exI [of _ "snd (repack q)"] exI [of _ "map ((!) cs) (kept slots (length ds))"]) simp
  qed
  have other: "page_holds (tx_view s3) i ds1" if m: "(i, ds1) \<in> set (A @ B)" for i ds1
  proof (rule page_holds_cong [OF ph [OF m]])
    fix j assume j: "j \<in> set (i # concat (map snd ds1))"
    obtain X Y where "A @ B = X @ (i, ds1) # Y" using split_list [OF m] by blast
    then have "j \<in> set (layout_ids (A @ B))" using j by auto
    then have "j \<notin> set gone" "j \<noteq> pid" using ids gone_sub by auto
    then show "tx_view s3 j = v j" by (rule v3)
  qed
  have "distinct (layout_ids (A @ page_rest pid ds' @ B) @ overflow_free h @ gone)"
  proof -
    define k g d0 where "k = concat (map snd ds')" and "g = set gone" and "d0 = set (concat (map snd ds))"
    have "distinct k" "set k \<inter> g = {}" "set k \<subseteq> d0" "g \<subseteq> d0" "pid \<notin> d0" "distinct gone" "g = set gone"
      using parts gone_sub npid by (auto simp: k_def g_def d0_def)
    moreover have "distinct (layout_ids A)" "distinct (layout_ids B)" "distinct (overflow_free h)" "pid \<notin> set (layout_ids A)" "pid \<notin> set (layout_ids B)"
        "pid \<notin> set (overflow_free h)" "set (layout_ids A) \<inter> d0 = {}" "set (layout_ids B) \<inter> d0 = {}" "set (overflow_free h) \<inter> d0 = {}"
        "set (layout_ids A) \<inter> set (layout_ids B) = {}" "set (layout_ids A) \<inter> set (overflow_free h) = {}" "set (layout_ids B) \<inter> set (overflow_free h) = {}"
      using ids by (auto simp: d0_def)
    ultimately have "distinct (layout_ids A @ (if ds' = [] then [] else pid # k) @ layout_ids B @ overflow_free h @ gone)" by auto
    then show ?thesis by (simp add: page_rest_def k_def split: if_splits)
  qed
  moreover have "heap_pages h' = map fst (A @ page_rest pid ds' @ B)" "overflow_free h' = overflow_free h @ gone"
  proof -
    have "pid \<notin> set (map fst A)" "pid \<notin> set (map fst B)"
      using hh heap_pages_ids [OF hh] ids by (force simp: layout_ids_def)+
    then have "filter (\<lambda>p. p \<noteq> pid) (map fst A) = map fst A" "filter (\<lambda>p. p \<noteq> pid) (map fst B) = map fst B"
      by (auto simp: filter_id_conv)
    then have "filter (\<lambda>p. p \<noteq> pid) (heap_pages h) = map fst A @ map fst B" using hp by simp
    then show "heap_pages h' = map fst (A @ page_rest pid ds' @ B)" "overflow_free h' = overflow_free h @ gone"
      using cq hp by (auto simp: h'_def retire_if_empty_def page_rest_def)
  qed
  moreover have "tx_view s3 i \<noteq> None" if "i \<in> set (overflow_free h @ gone)" for i
  proof -
    have "i \<in> set (layout_ids (A @ (pid, ds) # B) @ overflow_free h)" using that gone_sub by auto
    from heap_holds_ids [OF hh this] show ?thesis using k(7) w(3) by auto
  qed
  ultimately have "heap_holds (tx_view s3) h' (A @ page_rest pid ds' @ B)"
    using here other by (auto simp: heap_holds_def page_rest_def)
  moreover have "tx_view s3 i = v i" if "i \<notin> set (layout_ids (A @ (pid, ds) # B))" for i
    by (rule v3) (use that gone_sub in auto)
  ultimately show ?thesis using op w(2,4) unfolding ds'_def by blast
qed

section \<open>Many pages\<close>

definition after_removal :: "(page_id \<Rightarrow> nat list) \<Rightarrow> page_id set \<Rightarrow> heap_layout \<Rightarrow> heap_layout" where
  "after_removal S P L =
     concat (map (\<lambda>(pid, ds). if pid \<in> P then page_rest pid (map ((!) ds) (kept (S pid) (length ds))) else [(pid, ds)]) L)"

definition page_len :: "heap_layout \<Rightarrow> page_id \<Rightarrow> nat" where
  "page_len L pid = (case map_of L pid of Some ds \<Rightarrow> length ds | None \<Rightarrow> 0)"

lemma after_removal_simps: "after_removal S P [] = []" "after_removal S P (L @ L') = after_removal S P L @ after_removal S P L'"
  "after_removal S {} L = L"
proof -
  have "concat (map (\<lambda>(pid, ds). [(pid, ds)]) L) = L" by (induction L) auto
  then show "after_removal S {} L = L" by (simp add: after_removal_def)
qed (simp_all add: after_removal_def)

lemma after_removal_other: "P \<inter> set (map fst L) = {} \<Longrightarrow> after_removal S P L = L"
  by (induction L) (auto simp: after_removal_def)

lemma layout_pages_distinct: "heap_holds v h L \<Longrightarrow> distinct (map fst L)"
proof -
  have "distinct (layout_ids L) \<Longrightarrow> distinct (map fst L) \<and> set (map fst L) \<subseteq> set (layout_ids L)"
  proof (induction L)
    case (Cons x L)
    then show ?case by (cases x) auto
  qed simp
  then show "heap_holds v h L \<Longrightarrow> distinct (map fst L)" by (simp add: heap_holds_def)
qed

lemma remove_pages_ok:
  assumes "heap_holds v h L" and "tx_ok s" and "tx_view s = v" and "tx_room n s" and "distinct pids" and "set pids \<subseteq> set (map fst L)"
    and "\<And>pid. pid \<in> set pids \<Longrightarrow> distinct (S pid) \<and> set (S pid) \<subseteq> {..<page_len L pid}"
  shows "\<exists>h' s'. for_each (\<lambda>pid all_moves. obind (remove_from_page pid (S pid)) (\<lambda>moves. oret (all_moves @ moves))) pids acc (h, s) =
      (Inr (acc @ concat (map (\<lambda>pid. page_moves pid (S pid) (page_len L pid)) pids)), (h', s')) \<and> tx_ok s' \<and>
      heap_holds (tx_view s') h' (after_removal S (set pids) L) \<and> (\<forall>i. i \<notin> set (layout_ids L) \<longrightarrow> tx_view s' i = v i)"
  using assms
proof (induction pids arbitrary: v h L s acc)
  case Nil
  then show ?case by (auto simp: after_removal_simps)
next
  case (Cons pid pids)
  have "pid \<in> set (map fst L)" using Cons.prems(6) by simp
  then obtain ds A B where L: "L = A @ (pid, ds) # B" by (metis (no_types, lifting) in_set_conv_decomp list.set_map imageE prod.collapse)
  have dp: "distinct (map fst L)" by (rule layout_pages_distinct [OF Cons.prems(1)])
  then have nA: "pid \<notin> set (map fst A)" "pid \<notin> set (map fst B)" "set (map fst A) \<inter> set (map fst B) = {}" using L by auto
  have "map_of A pid = None" using nA(1) by (simp add: map_of_eq_None_iff)
  then have pl: "page_len L pid = length ds" using L by (simp add: page_len_def map_add_def)
  define rest where "rest = page_rest pid (map ((!) ds) (kept (S pid) (length ds)))"
  have restp: "set (map fst rest) \<subseteq> {pid}" by (auto simp: rest_def page_rest_def)
  obtain h1 s1 where r: "remove_from_page pid (S pid) (h, s) = (Inr (page_moves pid (S pid) (length ds)), (h1, s1))" "tx_ok s1" "tx_room n s1"
      "heap_holds (tx_view s1) h1 (A @ rest @ B)" "\<forall>i. i \<notin> set (layout_ids L) \<longrightarrow> tx_view s1 i = v i"
    using remove_from_page_ok [OF Cons.prems(1) [unfolded L] Cons.prems(2-4), of "S pid"] Cons.prems(7) [of pid] pl unfolding rest_def L by auto
  have len: "page_len (A @ rest @ B) j = page_len L j" if "j \<noteq> pid" for j
  proof -
    have "map_of rest j = None" using restp that by (auto simp: map_of_eq_None_iff)
    then show ?thesis using that L by (auto simp: page_len_def map_of_append map_add_def split: option.splits)
  qed
  have sub: "set pids \<subseteq> set (map fst (A @ rest @ B))" using Cons.prems(5,6) L by auto
  have S': "distinct (S j) \<and> set (S j) \<subseteq> {..<page_len (A @ rest @ B) j}" if "j \<in> set pids" for j
  proof -
    have "j \<noteq> pid" using Cons.prems(5) that by auto
    then show ?thesis using Cons.prems(7) [of j] len [of j] that by simp
  qed
  have dpids: "distinct pids" using Cons.prems(5) by simp
  obtain h2 s2 where 2: "for_each (\<lambda>pid all_moves. obind (remove_from_page pid (S pid)) (\<lambda>moves. oret (all_moves @ moves))) pids
        (acc @ page_moves pid (S pid) (length ds)) (h1, s1) =
      (Inr ((acc @ page_moves pid (S pid) (length ds)) @ concat (map (\<lambda>j. page_moves j (S j) (page_len (A @ rest @ B) j)) pids)), (h2, s2))" "tx_ok s2"
      "heap_holds (tx_view s2) h2 (after_removal S (set pids) (A @ rest @ B))" "\<forall>i. i \<notin> set (layout_ids (A @ rest @ B)) \<longrightarrow> tx_view s2 i = tx_view s1 i"
    using Cons.IH [OF r(4,2) refl r(3) dpids sub S', of "acc @ page_moves pid (S pid) (length ds)"] by blast
  have moves: "concat (map (\<lambda>j. page_moves j (S j) (page_len (A @ rest @ B) j)) pids) = concat (map (\<lambda>j. page_moves j (S j) (page_len L j)) pids)"
    using len Cons.prems(5) by (metis (no_types, lifting) distinct.simps(2) map_cong)
  have step: "obind (remove_from_page pid (S pid)) (\<lambda>moves. oret (acc @ moves)) (h, s) = (Inr (acc @ page_moves pid (S pid) (length ds)), (h1, s1))"
    using r(1) by (simp add: obind_def)
  have npids: "set pids \<inter> set (map fst rest) = {}" using restp Cons.prems(5) by auto
  have "after_removal S (set (pid # pids)) L = after_removal S (set pids) (A @ rest @ B)"
  proof -
    have "after_removal S (set (pid # pids)) X = after_removal S (set pids) X" if "pid \<notin> set (map fst X)" for X
      using that by (induction X) (auto simp: after_removal_def)
    moreover have "after_removal S (set (pid # pids)) [(pid, ds)] = rest" by (simp add: after_removal_def rest_def)
    ultimately show ?thesis
      using nA after_removal_other [OF npids, of S] after_removal_simps(2) [of S _ "[(pid, ds)]" B] L by (simp add: after_removal_simps(2))
  qed
  moreover have "tx_view s2 i = v i" if "i \<notin> set (layout_ids L)" for i
  proof -
    have "i \<notin> set (layout_ids (A @ rest @ B))" using that L by (auto simp: rest_def page_rest_def kept_def)
    then show ?thesis using 2(4) r(5) that by simp
  qed
  moreover have "for_each (\<lambda>pid all_moves. obind (remove_from_page pid (S pid)) (\<lambda>moves. oret (all_moves @ moves))) (pid # pids) acc (h, s) =
      (Inr (acc @ concat (map (\<lambda>pid. page_moves pid (S pid) (page_len L pid)) (pid # pids))), (h2, s2))"
    unfolding for_each.simps obind_step [of "obind (remove_from_page pid (S pid)) (\<lambda>moves. oret (acc @ moves))", OF step] 2(1) moves using pl by (simp only: list.map concat.simps append_assoc)
  ultimately show ?case using 2(2,3) by metis
qed

end
