(* ===== verification/Heap_Rows.thy ===== *)
theory Heap_Rows
  imports Heap_Remove Heap_Read
begin

text \<open>
  The rows of a heap as its clients see them, locator and document bytes: what \<open>remove_many\<close> leaves of them
  when it is called with locators of stored documents.
\<close>

section \<open>Locators\<close>

text \<open>Where a document is after the removal: the returned moves tell.\<close>

definition moved_to :: "(u64 \<times> u64) list \<Rightarrow> u64 \<Rightarrow> u64" where
  "moved_to moves loc = (case map_of moves loc of Some l \<Rightarrow> l | None \<Rightarrow> loc)"

lemma rows_page: "rows [(pid, ds)] = map (\<lambda>i. (pack_loc pid i, fst (ds ! i))) [0..<length ds]"
  by (rule nth_equalityI) (auto simp: rows_def nth_enumerate_eq split: prod.splits)

lemma rows_concat: "rows L = concat (map (\<lambda>x. rows [x]) L)"
  by (induction L) (simp_all add: rows_def)

lemma heap_slot_bound:
  assumes "heap_holds v h L" and "(pid, ds) \<in> set L"
  shows "length ds < 65536"
proof -
  obtain p cs where p: "page_ok p" "page_docs_of p = map Some cs" "list_all2 (slot_holds v) cs ds"
    using assms by (auto simp: heap_holds_def page_holds_def)
  have "length cs = count_of p" using arg_cong [OF p(2), of length] by simp
  then show ?thesis using p(1) list_all2_lengthD [OF p(3)] by (simp add: page_ok_def valid_page_def PAGE_SIZE_def)
qed

lemma heap_unpack:
  "heap_holds v h L \<Longrightarrow> (pid, ds) \<in> set L \<Longrightarrow> i < length ds \<Longrightarrow> unpack_loc (pack_loc pid i) = (pid, i)"
  using heap_slot_bound by (intro unpack_pack_loc) fastforce

lemma page_moves_nth: "page_moves pid slots n = map (\<lambda>j. (pack_loc pid (kept slots n ! j), pack_loc pid j)) [0..<length (kept slots n)]"
  by (rule nth_equalityI) (auto simp: page_moves_def nth_enumerate_eq)

lemma page_moves_fst: "map fst (page_moves pid slots n) = map (pack_loc pid) (kept slots n)"
  by (rule nth_equalityI) (auto simp: page_moves_nth)

lemma kept_less: "i \<in> set (kept slots n) \<longleftrightarrow> i < n \<and> i \<notin> set slots"
  by (auto simp: kept_def)

lemma kept_distinct: "distinct (kept slots n)"
  by (simp add: kept_def)

text \<open>The slots of a page that a list of locators names.\<close>

lemma slots_of_page_set: "set (slots_of_page locs pid) = {i. \<exists>loc \<in> set locs. unpack_loc loc = (pid, i)}"
  by (force simp: slots_of_page_def)

lemma affected_pages_set: "set (affected_pages locs) = {pid. \<exists>loc \<in> set locs. fst (unpack_loc loc) = pid}"
  by (auto simp: affected_pages_def)

lemma page_len_mem: "distinct (map fst L) \<Longrightarrow> (pid, ds) \<in> set L \<Longrightarrow> page_len L pid = length ds"
  by (simp add: page_len_def)

section \<open>Survivors\<close>

definition survivors :: "u64 list \<Rightarrow> (u64 \<times> u64) list \<Rightarrow> (u64 \<times> bytes) list \<Rightarrow> (u64 \<times> bytes) list" where
  "survivors locs moves rs = map (\<lambda>(loc, bs). (moved_to moves loc, bs)) (filter (\<lambda>(loc, _). loc \<notin> set locs) rs)"

definition removal_moves :: "u64 list \<Rightarrow> heap_layout \<Rightarrow> (u64 \<times> u64) list" where
  "removal_moves locs L = concat (map (\<lambda>pid. page_moves pid (slots_of_page locs pid) (page_len L pid)) (affected_pages locs))"

lemma loc_in_rows:
  assumes "heap_holds v h L" and "loc \<in> fst ` set (rows L)"
  obtains pid ds i where "(pid, ds) \<in> set L" and "i < length ds" and "loc = pack_loc pid i" and "unpack_loc loc = (pid, i)"
proof -
  from assms(2) obtain pid ds where "(pid, ds) \<in> set L" "loc \<in> fst ` set (rows [(pid, ds)])"
    by (subst (asm) rows_concat) auto
  then show thesis using that heap_unpack [OF assms(1)] by (auto simp: rows_page)
qed

lemma named_slot:
  assumes hh: "heap_holds v h L" and "set locs \<subseteq> fst ` set (rows L)" and "loc \<in> set locs" and u: "unpack_loc loc = (pid, i)"
  obtains ds where "(pid, ds) \<in> set L" and "i < length ds" and "loc = pack_loc pid i"
proof -
  have "loc \<in> fst ` set (rows L)" using assms(2,3) by (rule subsetD)
  then show thesis using u that by (elim loc_in_rows [OF hh]) simp
qed

lemma distinct_concat_pairs: "distinct ps \<Longrightarrow> (\<And>p. distinct (f p)) \<Longrightarrow> distinct (concat (map (\<lambda>p. map (Pair p) (f p)) ps))"
  by (induction ps) (auto simp: distinct_map inj_on_def)

lemma affected_mem:
  assumes "heap_holds v h L" and "set locs \<subseteq> fst ` set (rows L)" and "pid \<in> set (affected_pages locs)"
  obtains ds where "(pid, ds) \<in> set L" and "page_len L pid = length ds"
proof -
  obtain loc i where "loc \<in> set locs" "unpack_loc loc = (pid, i)" using assms(3) by (auto simp: affected_pages_set prod_eq_iff)
  then obtain ds where "(pid, ds) \<in> set L" by (rule named_slot [OF assms(1,2)])
  then show thesis using page_len_mem [OF layout_pages_distinct [OF assms(1)]] that by blast
qed

lemma removal_moves_keys:
  assumes hh: "heap_holds v h L" and locs: "set locs \<subseteq> fst ` set (rows L)"
  shows "map (unpack_loc \<circ> fst) (removal_moves locs L) =
      concat (map (\<lambda>pid. map (Pair pid) (kept (slots_of_page locs pid) (page_len L pid))) (affected_pages locs))"
    and "distinct (map fst (removal_moves locs L))"
proof -
  have "map (unpack_loc \<circ> fst) (page_moves pid (slots_of_page locs pid) (page_len L pid)) = map (Pair pid) (kept (slots_of_page locs pid) (page_len L pid))"
    if pid: "pid \<in> set (affected_pages locs)" for pid
  proof -
    obtain ds where ds: "(pid, ds) \<in> set L" "page_len L pid = length ds" using affected_mem [OF hh locs pid] .
    have "map (unpack_loc \<circ> fst) (page_moves pid (slots_of_page locs pid) (length ds)) =
        map unpack_loc (map (pack_loc pid) (kept (slots_of_page locs pid) (length ds)))"
      by (simp only: map_map [symmetric] page_moves_fst)
    then show ?thesis using heap_unpack [OF hh ds(1)] ds(2) by (auto simp: kept_less)
  qed
  then show keys: "map (unpack_loc \<circ> fst) (removal_moves locs L) =
      concat (map (\<lambda>pid. map (Pair pid) (kept (slots_of_page locs pid) (page_len L pid))) (affected_pages locs))"
    unfolding removal_moves_def map_concat map_map by (intro arg_cong [of _ _ concat] map_cong) auto
  have "distinct (map unpack_loc (map fst (removal_moves locs L)))"
    unfolding map_map keys by (rule distinct_concat_pairs) (simp_all add: affected_pages_def kept_distinct)
  then show "distinct (map fst (removal_moves locs L))" by (simp only: distinct_map)
qed

lemma removal_moves_at:
  assumes hh: "heap_holds v h L" and locs: "set locs \<subseteq> fst ` set (rows L)"
    and pid: "pid \<in> set (affected_pages locs)" and j: "j < length (kept (slots_of_page locs pid) (page_len L pid))"
  shows "moved_to (removal_moves locs L) (pack_loc pid (kept (slots_of_page locs pid) (page_len L pid) ! j)) = pack_loc pid j"
proof -
  have "(pack_loc pid (kept (slots_of_page locs pid) (page_len L pid) ! j), pack_loc pid j) \<in> set (removal_moves locs L)"
    using pid j by (force simp: removal_moves_def page_moves_nth)
  then show ?thesis using removal_moves_keys(2) [OF hh locs] by (simp add: moved_to_def)
qed

lemma removal_moves_other:
  assumes hh: "heap_holds v h L" and locs: "set locs \<subseteq> fst ` set (rows L)"
    and mem: "(pid, ds) \<in> set L" and i: "i < length ds" and pid: "pid \<notin> set (affected_pages locs)"
  shows "moved_to (removal_moves locs L) (pack_loc pid i) = pack_loc pid i"
proof -
  have "pack_loc pid i \<notin> fst ` set (removal_moves locs L)"
  proof
    assume "pack_loc pid i \<in> fst ` set (removal_moves locs L)"
    then have "unpack_loc (pack_loc pid i) \<in> set (map (unpack_loc \<circ> fst) (removal_moves locs L))" by force
    then show False using heap_unpack [OF hh mem i] pid by (simp add: removal_moves_keys(1) [OF hh locs] image_iff)
  qed
  then have "map_of (removal_moves locs L) (pack_loc pid i) = None" by (simp add: map_of_eq_None_iff)
  then show ?thesis by (simp add: moved_to_def)
qed

lemma survivors_append: "survivors locs moves (xs @ ys) = survivors locs moves xs @ survivors locs moves ys"
  by (simp add: survivors_def)

lemma page_survivors:
  assumes hh: "heap_holds v h L" and locs: "set locs \<subseteq> fst ` set (rows L)" and mem: "(pid, ds) \<in> set L"
  shows "rows (after_removal (slots_of_page locs) (set (affected_pages locs)) [(pid, ds)]) =
    survivors locs (removal_moves locs L) (rows [(pid, ds)])"
proof (cases "pid \<in> set (affected_pages locs)")
  case True
  define k where "k = kept (slots_of_page locs pid) (length ds)"
  have pl: "page_len L pid = length ds" by (rule page_len_mem [OF layout_pages_distinct [OF hh] mem])
  have gone: "pack_loc pid i \<in> set locs \<longleftrightarrow> i \<in> set (slots_of_page locs pid)" if "i < length ds" for i
  proof
    show "pack_loc pid i \<in> set locs \<Longrightarrow> i \<in> set (slots_of_page locs pid)"
      using heap_unpack [OF hh mem that] by (auto simp: slots_of_page_set)
    assume "i \<in> set (slots_of_page locs pid)"
    then obtain loc where l: "loc \<in> set locs" "unpack_loc loc = (pid, i)" by (auto simp: slots_of_page_set)
    then show "pack_loc pid i \<in> set locs" by (metis named_slot [OF hh locs])
  qed
  have "filter (\<lambda>(loc, _). loc \<notin> set locs) (rows [(pid, ds)]) = map (\<lambda>i. (pack_loc pid i, fst (ds ! i))) k"
    using gone by (auto simp: rows_page filter_map comp_def k_def kept_def intro!: arg_cong [where f = "map _"] filter_cong)
  then have "survivors locs (removal_moves locs L) (rows [(pid, ds)]) =
      map (\<lambda>i. (moved_to (removal_moves locs L) (pack_loc pid i), fst (ds ! i))) k"
    by (simp add: survivors_def)
  also have "\<dots> = map (\<lambda>j. (pack_loc pid j, fst (ds ! (k ! j)))) [0..<length k]"
    using removal_moves_at [OF hh locs True] pl by (intro nth_equalityI) (simp_all add: k_def)
  also have "\<dots> = rows (page_rest pid (map ((!) ds) k))"
    by (cases "k = []") (simp_all add: page_rest_def rows_page)
  finally show ?thesis using True by (simp add: after_removal_def k_def)
next
  case False
  have "pack_loc pid i \<notin> set locs" if "i < length ds" for i
    using False heap_unpack [OF hh mem that] by (auto simp: affected_pages_set)
  then have "filter (\<lambda>(loc, _). loc \<notin> set locs) (rows [(pid, ds)]) = rows [(pid, ds)]"
    by (auto simp: rows_page filter_id_conv)
  then have "survivors locs (removal_moves locs L) (rows [(pid, ds)]) = rows [(pid, ds)]"
    using removal_moves_other [OF hh locs mem _ False] by (simp add: survivors_def rows_page)
  then show ?thesis using False by (simp add: after_removal_def)
qed

lemma rows_after_removal:
  assumes hh: "heap_holds v h L" and locs: "set locs \<subseteq> fst ` set (rows L)"
  shows "rows (after_removal (slots_of_page locs) (set (affected_pages locs)) L) = survivors locs (removal_moves locs L) (rows L)"
proof -
  have "rows (after_removal (slots_of_page locs) (set (affected_pages locs)) M) = survivors locs (removal_moves locs L) (rows M)"
    if "set M \<subseteq> set L" for M
    using that
  proof (induction M)
    case (Cons x M)
    obtain pid ds where x: "x = (pid, ds)" by (cases x)
    have "rows (after_removal (slots_of_page locs) (set (affected_pages locs)) [x]) = survivors locs (removal_moves locs L) (rows [x])"
      unfolding x using Cons.prems x by (intro page_survivors [OF hh locs]) simp
    then show ?case
      using Cons rows_simps(2) [of "[x]" M] after_removal_simps(2) [of _ _ "[x]" M] by (simp add: survivors_append)
  qed (simp add: after_removal_simps survivors_def)
  then show ?thesis by simp
qed

section \<open>Removing many documents\<close>

lemma owned_pages: "set pids \<subseteq> set (heap_pages h) \<Longrightarrow> for_each (\<lambda>pid _. olift (check_page_owned h pid)) pids () s = (Inr (), s)"
  by (induction pids) (simp_all add: check_page_owned_def obind_def)

lemma remove_many_ok:
  assumes hh: "heap_holds v h L" and s: "tx_ok s" "tx_view s = v" and room: "tx_room 0 s" and locs: "set locs \<subseteq> fst ` set (rows L)"
  shows "\<exists>moves h' s' L'. remove_many locs (h, s) = (Inr moves, (h', s')) \<and> tx_ok s' \<and> heap_holds (tx_view s') h' L' \<and>
    rows L' = survivors locs moves (rows L) \<and> (\<forall>i. i \<notin> set (layout_ids L) \<longrightarrow> tx_view s' i = v i)"
proof -
  have pages: "set (affected_pages locs) \<subseteq> set (map fst L)"
  proof
    fix pid
    assume "pid \<in> set (affected_pages locs)"
    then obtain ds where "(pid, ds) \<in> set L" by (rule affected_mem [OF hh locs])
    then show "pid \<in> set (map fst L)" by force
  qed
  have mem: "distinct (slots_of_page locs pid) \<and> set (slots_of_page locs pid) \<subseteq> {..<page_len L pid}"
    if pid: "pid \<in> set (affected_pages locs)" for pid
  proof -
    have "i < page_len L pid" if i: "i \<in> set (slots_of_page locs pid)" for i
    proof -
      obtain loc where l: "loc \<in> set locs" "unpack_loc loc = (pid, i)" using i by (auto simp: slots_of_page_set)
      then obtain ds where "(pid, ds) \<in> set L" "i < length ds" by (rule named_slot [OF hh locs])
      then show ?thesis using page_len_mem [OF layout_pages_distinct [OF hh]] by simp
    qed
    then show ?thesis by (auto simp: slots_of_page_def)
  qed
  have "distinct (affected_pages locs)" by (simp add: affected_pages_def)
  from remove_pages_ok [OF hh s room this pages mem, of "[]"] obtain h' s' where
    r: "for_each (\<lambda>pid all_moves. obind (remove_from_page pid (slots_of_page locs pid)) (\<lambda>moves. oret (all_moves @ moves))) (affected_pages locs) [] (h, s) =
        (Inr (removal_moves locs L), (h', s'))" "tx_ok s'"
      "heap_holds (tx_view s') h' (after_removal (slots_of_page locs) (set (affected_pages locs)) L)" "\<forall>i. i \<notin> set (layout_ids L) \<longrightarrow> tx_view s' i = v i"
    unfolding removal_moves_def append_Nil by blast
  have own: "for_each (\<lambda>pid _. olift (check_page_owned h pid)) (affected_pages locs) () (h, s) = (Inr (), (h, s))"
    by (rule owned_pages) (use hh pages in \<open>simp add: heap_holds_def\<close>)
  have "remove_many locs (h, s) = (Inr (removal_moves locs L), (h', s'))"
    unfolding remove_many_def using r(1) own by (simp add: get_heap_def obind_def del: olift_apply)
  then show ?thesis using r(2-4) rows_after_removal [OF hh locs] by metis
qed

end
