(* ===== verification/Pager_Growth.thy ===== *)
theory Pager_Growth
  imports Pager_Props
begin

text \<open>
  The page counter never shrinks in a commit, so a page inside the file before it is inside the file
  after it.
\<close>

definition grows :: "pager \<Rightarrow> pager \<Rightarrow> bool" where
  "grows pg pg' \<longleftrightarrow> num_pages pg \<le> num_pages pg'"

lemma grows_refl [simp]: "grows pg pg"
  by (simp add: grows_def)

lemma grows_trans: "grows a b \<Longrightarrow> grows b c \<Longrightarrow> grows a c"
  by (simp add: grows_def)

lemma grows_upd [simp]:
  "grows a (pg\<lparr>reusable := r\<rparr>) = grows a pg" "grows a (pg\<lparr>undo := u\<rparr>) = grows a pg"
  "grows a (pg\<lparr>pg_wal := w\<rparr>) = grows a pg" "grows a (pg\<lparr>ckpt := c\<rparr>) = grows a pg"
  "grows a (pg\<lparr>snaps := sn\<rparr>) = grows a pg" "grows a (pg\<lparr>pg_synced := f\<rparr>) = grows a pg"
  "grows a (pg\<lparr>page_lsn := l\<rparr>) = grows a pg" "grows a (pg\<lparr>pg_epoch := e\<rparr>) = grows a pg"
  "grows a (pg\<lparr>pg_disk := ds\<rparr>) = grows a pg" "grows a (pg\<lparr>pg_file := f\<rparr>) = grows a pg"
  "grows a (pg\<lparr>persisted_pages := k\<rparr>) = grows a pg" "grows a (pg\<lparr>pending_writes := es\<rparr>) = grows a pg"
  "grows a (pg\<lparr>pool := st\<rparr>) = grows a pg" "grows (pg\<lparr>ckpt := c\<rparr>) b = grows pg b"
  by (simp_all add: grows_def)

lemma obind_grows:
  assumes "obind m f pg = (res, pg')" and "\<And>r p. m pg = (r, p) \<Longrightarrow> grows pg p"
    and "\<And>x p r p'. f x p = (r, p') \<Longrightarrow> grows p p'"
  shows "grows pg pg'"
  using assms by (auto simp: obind_def split: prod.splits sum.splits intro: grows_trans)

lemma next_pg_io_grows: "next_pg_io pg = (r, pg') \<Longrightarrow> grows pg pg'"
  by (auto dest!: next_pg_io_frame)

lemma file_write_grows: "file_write off dat pg = (res, pg') \<Longrightarrow> grows pg pg'"
  by (auto simp: file_write_def split: prod.splits io.splits dest!: next_pg_io_grows)

lemma file_sync_grows: "file_sync pg = (res, pg') \<Longrightarrow> grows pg pg'"
  by (auto simp: file_sync_def split: prod.splits io.splits dest!: next_pg_io_grows)

lemma persist_header_grows: "persist_header pg = (res, pg') \<Longrightarrow> grows pg pg'"
  unfolding persist_header_def by (erule obind_grows) (auto dest: file_write_grows)

lemma saturating_inc_grows: "n \<le> i \<Longrightarrow> n \<le> saturating_inc i"
proof -
  assume n: "n \<le> i"
  show ?thesis
  proof (cases "i = - 1")
    case False
    then have "1 + i \<noteq> 0" by (metis add.commute add_eq_0_iff)
    from unatSuc [OF this] show ?thesis using n False by (simp add: saturating_inc_def word_le_nat_alt add.commute)
  qed (use n in \<open>simp add: saturating_inc_def\<close>)
qed

lemma write_file_page_grows:
  assumes "write_file_page i dat pg = (res, pg')"
  shows "grows pg pg'"
proof -
  define pg1 where "pg1 = (if num_pages pg \<le> i then pg\<lparr>num_pages := saturating_inc i\<rparr> else pg)"
  have "grows pg pg1" by (simp add: pg1_def grows_def saturating_inc_grows)
  moreover have "grows pg1 pg'"
    using assms unfolding write_file_page_def Let_def pg1_def [symmetric]
    by (elim obind_grows) (auto split: if_splits dest: persist_header_grows file_write_grows)
  ultimately show ?thesis by (rule grows_trans)
qed

lemma flush_page_grows: "flush_page i (err, pg) = (err', pg') \<Longrightarrow> grows pg pg'"
  by (auto simp: flush_page_def Let_def split: option.splits prod.splits sum.splits if_splits dest!: write_file_page_grows)

lemma flush_fold_grows: "fold flush_page is (err, pg) = (err', pg') \<Longrightarrow> grows pg pg'"
proof (induction "is" arbitrary: err pg)
  case (Cons i "is")
  obtain e1 pg1 where f: "flush_page i (err, pg) = (e1, pg1)" by fastforce
  then have "grows pg1 pg'" using Cons by simp
  then show ?case using flush_page_grows [OF f] grows_trans by blast
qed simp

lemma flush_pending_grows: "flush_pending pg = (res, pg') \<Longrightarrow> grows pg pg'"
  by (auto simp: flush_pending_def split: prod.splits option.splits if_splits dest: flush_fold_grows)

lemma with_wal_grows: "with_wal f pg = (res, pg') \<Longrightarrow> grows pg pg'"
  by (auto simp: with_wal_def split: prod.splits)

lemma truncate_grows: "truncate_wal_locked b pg = (res, pg') \<Longrightarrow> grows pg pg'"
  by (auto simp: truncate_wal_locked_def split: if_splits prod.splits sum.splits dest!: with_wal_grows)

lemma free_truncate_grows: "free_truncate_if_covered len pg = (res, pg') \<Longrightarrow> grows pg pg'"
  by (auto simp: free_truncate_if_covered_def Let_def split: if_splits prod.splits sum.splits bool.splits
      dest!: truncate_grows)

lemma try_free_truncate_grows: "try_free_truncate pg = (res, pg') \<Longrightarrow> grows pg pg'"
  by (auto simp: try_free_truncate_def Let_def obind_def split: if_splits prod.splits sum.splits
      dest!: free_truncate_grows)

lemma ckpt_finish_grows: "grows pg (ckpt_finish pg)"
  by (auto simp: ckpt_finish_def split: option.splits prod.splits sum.splits dest!: file_sync_grows)

lemma ckpt_wait_grows: "grows pg (ckpt_wait pg)"
proof -
  have "grows p (ckpt_pick p)" for p by (simp add: ckpt_pick_def Let_def)
  then show ?thesis unfolding ckpt_wait_def using grows_trans ckpt_finish_grows by metis
qed

lemma hard_limit_wait_grows: "hard_limit_wait len pg = (res, pg') \<Longrightarrow> grows pg pg'"
proof -
  assume h: "hard_limit_wait len pg = (res, pg')"
  define pg1 where "pg1 = (if requested (ckpt pg) \<or> completed (ckpt pg) \<noteq> started (ckpt pg) then ckpt_wait pg else pg)"
  have "grows pg pg1" by (simp add: pg1_def ckpt_wait_grows)
  moreover have "pg' = pg1 \<or> pg' = ckpt_wait (ckpt_request len pg1)"
    using h by (auto simp: hard_limit_wait_def Let_def pg1_def split: if_splits)
  moreover have "grows pg1 (ckpt_wait (ckpt_request len pg1))"
    by (rule grows_trans [OF _ ckpt_wait_grows]) (simp add: ckpt_request_def)
  ultimately show ?thesis using grows_trans by blast
qed

lemma hard_checkpoint_grows: "hard_checkpoint len p = (r, p') \<Longrightarrow> grows p p'"
  unfolding hard_checkpoint_def
  by (erule obind_grows, erule hard_limit_wait_grows, erule obind_grows, erule truncate_grows) auto

lemma checkpoint_uncovered_grows: "checkpoint_uncovered len p = (r, p') \<Longrightarrow> grows p p'"
  by (auto simp: checkpoint_uncovered_def Let_def ckpt_request_def split: if_splits dest!: hard_checkpoint_grows)

lemma maybe_checkpoint_grows: "maybe_checkpoint pg = (res, pg') \<Longrightarrow> grows pg pg'"
  unfolding maybe_checkpoint_def Let_def
  by (auto split: if_splits elim!: obind_grows dest!: free_truncate_grows checkpoint_uncovered_grows)

lemma fold_apply_image_grows: "grows pg (fold (apply_image l) es pg)"
proof (induction es arbitrary: pg)
  case (Cons e es)
  have "grows pg (apply_image l e pg)" by (auto simp: apply_image_def Let_def split: prod.splits option.splits)
  then show ?case using Cons [of "apply_image l e pg"] by (auto intro: grows_trans)
qed simp

lemma commit_grows:
  assumes "commit_tx_inner t fs pg = (Inr l, pg')"
  shows "grows pg pg'"
proof (cases "staged t = []")
  case True
  then show ?thesis using assms by (auto simp: commit_tx_inner_def release_pages_def push_all_def)
next
  case False
  obtain r1 pg1 where t: "try_free_truncate pg = (r1, pg1)" by fastforce
  obtain r2 pg2 where w: "with_wal (log_tx (tx_id t) (staged t) fs) pg1 = (r2, pg2)" by fastforce
  define pg3 where "pg3 = release_pages (to_free t) (fold (apply_image l) (staged t) (stash_snapshots (staged t) pg2))"
  have pg': "pg' = (if fs then ignore_err maybe_checkpoint (ignore_err flush_pending pg3) else pg3)"
    using assms False t w by (auto simp: commit_tx_inner_def Let_def pg3_def split: sum.splits)
  have "grows pg pg2" by (rule grows_trans [OF try_free_truncate_grows [OF t] with_wal_grows [OF w]])
  moreover have "grows pg2 pg3"
    using grows_trans [OF _ fold_apply_image_grows, of pg2 "stash_snapshots (staged t) pg2" l "staged t"]
    by (simp add: pg3_def release_pages_def push_all_def stash_snapshots_def Let_def)
  moreover have "grows pg3 (ignore_err maybe_checkpoint (ignore_err flush_pending pg3))"
    unfolding ignore_err_def by (rule grows_trans [OF flush_pending_grows maybe_checkpoint_grows]) (rule prod.collapse [symmetric])+
  ultimately show ?thesis using pg' by (auto intro: grows_trans)
qed

end
