(* ===== verification/Heap_Commit.thy ===== *)
theory Heap_Commit
  imports Heap_Rows Pager_Growth
begin

text \<open>
  The heap across a commit: what the transaction's own view held is what readers of the committed state
  find, document by document and in scans.
\<close>

section \<open>A larger view holds the same heap\<close>

lemma chain_in_mono: "chain_in v nxt ids bs \<Longrightarrow> v \<subseteq>\<^sub>m v' \<Longrightarrow> chain_in v' nxt ids bs"
proof (induction v nxt ids bs rule: chain_in.induct)
  case (2 v nxt i ids bs)
  then obtain chunk nxt' rest where c: "nxt = i" "i \<noteq> 0" "v i = Some (chain_page nxt' chunk)" "length chunk \<le> min_chunk" "bs = chunk @ rest" "chain_in v nxt' ids rest"
    by auto
  moreover have "v' i = v i" using c(3) 2(3) by (simp add: map_le_def dom_def)
  moreover have "chain_in v' nxt' ids rest" using 2(1) 2(3) c by blast
  ultimately show ?case by auto
qed simp

lemma slot_holds_mono: "slot_holds v c d \<Longrightarrow> v \<subseteq>\<^sub>m v' \<Longrightarrow> slot_holds v' c d"
  unfolding slot_holds_def case_prod_beta using chain_in_mono by blast

lemma heap_holds_mono:
  assumes "heap_holds v h L" and "v \<subseteq>\<^sub>m v'"
  shows "heap_holds v' h L"
proof -
  have "page_holds v' pid ds" if "page_holds v pid ds" for pid ds
    using that assms(2) slot_holds_mono [OF _ assms(2)]
    by (fastforce simp: page_holds_def map_le_def dom_def elim!: list_all2_mono)
  moreover have "v' i \<noteq> None" if "v i \<noteq> None" for i using that assms(2) by (auto simp: map_le_def dom_def)
  ultimately show ?thesis using assms(1) by (fastforce simp: heap_holds_def)
qed

lemma commit_view:
  assumes ok: "tx_ok (pg, t)" and c: "commit_tx_inner t fs pg = (Inr l, pg')"
  shows "store_ok pg'" and "tx_view (pg, t) \<subseteq>\<^sub>m committed_view pg'"
proof -
  have so: "store_ok pg" and st: "staged_ok (staged t)"
    using ok by (auto simp: tx_ok_def staged_ok_def dest: map_of_is_SomeI)
  have "store_ok pg' \<and> (\<forall>i d. map_of (staged t) i = Some d \<longrightarrow> base_image pg' i = Some d) \<and>
      (\<forall>i d. i \<noteq> 0 \<longrightarrow> map_of (staged t) i = None \<longrightarrow> base_image pg i = Some d \<longrightarrow> base_image pg' i = Some d)"
  proof (cases "staged t = []")
    case True
    then have "pg' = release_pages (to_free t) pg" using c by (simp add: commit_tx_inner_def)
    then show ?thesis using so True by (simp add: release_pages_def push_all_def)
  qed (rule commit_publishes [OF so st _ c])
  moreover have "num_pages pg \<le> num_pages pg'" using commit_grows [OF c] by (simp add: grows_def)
  ultimately show "store_ok pg'" "tx_view (pg, t) \<subseteq>\<^sub>m committed_view pg'"
    by (auto simp: map_le_def dom_def tx_view_pair committed_view_def split: if_splits option.splits)
qed

section \<open>Documents of the rows\<close>

definition rows_hold :: "'d decimal_ops \<Rightarrow> (u64 \<times> bytes) list \<Rightarrow> (u64 \<times> 'd object) list \<Rightarrow> bool" where
  "rows_hold D rs docs \<longleftrightarrow> list_all2 (\<lambda>(loc, bs) (loc', doc). loc' = loc \<and> doc_bytes D doc bs) rs docs"

lemma list_all2_concat: "list_all2 P (concat xss) ys \<Longrightarrow> \<exists>yss. ys = concat yss \<and> list_all2 (list_all2 P) xss yss"
proof (induction xss arbitrary: ys)
  case (Cons xs xss)
  then obtain y1 y2 where y: "ys = y1 @ y2" "list_all2 P xs y1" "list_all2 P (concat xss) y2" by (auto simp: list_all2_append1)
  from Cons.IH [OF y(3)] obtain yss where "y2 = concat yss" "list_all2 (list_all2 P) xss yss" by blast
  then show ?case using y by (intro exI [of _ "y1 # yss"]) simp
qed simp

lemma rows_bytes: "map snd (rows L) = concat (map (\<lambda>x. map fst (snd x)) L)"
proof -
  have "map snd (rows [x]) = map fst (snd x)" for x
    by (cases x) (simp add: rows_page map_nth comp_def flip: map_map, rule nth_equalityI, simp_all)
  then show ?thesis by (subst rows_concat) (simp add: map_concat comp_def)
qed

context heap_reader
begin

lemma heap_scan_rows:
  assumes D: "decimal_laws D" and t: "t = None" and s: "ok pg" "view pg = v" and hh: "heap_holds v h L" and docs: "rows_hold D (rows L) docs"
  shows "\<exists>pg'. heap_scan D h reader pg = (Inr (map snd docs), pg') \<and> ok pg' \<and> view pg' = v"
proof -
  have "list_all2 (\<lambda>bs doc. doc_bytes D doc bs) (map snd (rows L)) (map snd docs)"
    using docs by (auto simp: rows_hold_def list_all2_map1 list_all2_map2 elim!: list_all2_mono)
  then obtain dss where d: "map snd docs = concat dss" "list_all2 (list_all2 (\<lambda>bs doc. doc_bytes D doc bs)) (map (\<lambda>x. map fst (snd x)) L) dss"
    unfolding rows_bytes using list_all2_concat by blast
  then have l: "list_all2 (\<lambda>(_, ds) xs. list_all2 (\<lambda>d doc. doc_bytes D doc (fst d)) ds xs) L dss"
    by (auto simp: list_all2_map1 elim!: list_all2_mono)
  have p: "page_holds v pid ds" if "(pid, ds) \<in> set L" for pid ds using hh that by (auto simp: heap_holds_def)
  have "map fst L = heap_pages h" using hh by (simp add: heap_holds_def)
  then show ?thesis using heap_scan_pages [OF D t s p l, of "[]"] d(1) unfolding heap_scan_def by simp
qed

lemma doc_at_rows:
  assumes D: "decimal_laws D" and t: "t = None" and s: "ok pg" "view pg = v" and hh: "heap_holds v h L" and docs: "rows_hold D (rows L) docs"
    and m: "(loc, doc) \<in> set docs"
  shows "\<exists>pg'. doc_at D h reader loc pg = (Inr (Some doc), pg') \<and> ok pg' \<and> view pg' = v"
proof -
  from m obtain k where "k < length docs" "docs ! k = (loc, doc)" by (auto simp: in_set_conv_nth)
  then obtain bs where "k < length (rows L)" "rows L ! k = (loc, bs)" and db: "doc_bytes D doc bs"
    using docs by (cases "rows L ! k") (auto simp: rows_hold_def list_all2_conv_all_nth)
  then have bs: "(loc, bs) \<in> set (rows L)" "doc_bytes D doc bs" by (metis nth_mem)+
  from bs(1) obtain pid ds where "(pid, ds) \<in> set L" "(loc, bs) \<in> set (rows [(pid, ds)])" by (subst (asm) rows_concat) auto
  then obtain i where "(pid, ds) \<in> set L" "i < length ds" "loc = pack_loc pid i" "bs = fst (ds ! i)" by (auto simp: rows_page)
  then show ?thesis using doc_at_ok [OF D t s hh] bs(2) by blast
qed

end

end
