(* ===== verification/Heap_Properties.thy ===== *)
theory Heap_Properties
  imports Heap_Commit Data_Properties Storage_Properties
begin

text \<open>
  The properties of the document heap. A table's pages hold a heap when \<open>heap_holds\<close> is true of the view a
  transaction has of them: every page passes the slot checks, every slot is a document or the header
  of an overflow chain that is stored in full, and no page is used twice. The abstract heap is the list
  \<open>rows L\<close> of locators and document bytes in page and slot order.
\<close>

section \<open>The chain walk as the source writes it\<close>

text \<open>The loop of \<open>slot_document_bytes\<close> with its counter going up; not returning is \<open>None\<close>.\<close>

partial_function (option) assemble_loop ::
    "page_reader \<Rightarrow> tx option \<Rightarrow> page_id \<Rightarrow> nat \<Rightarrow> page_id \<Rightarrow> page_id set \<Rightarrow> nat \<Rightarrow> bytes \<Rightarrow> pager \<Rightarrow> ((heap_error + bytes) \<times> pager) option" where
  "assemble_loop reader t pid total_len nxt seen hops out pg =
     (if nxt = 0 then Some (Inr out, pg)
      else if nxt \<in> seen \<or> total_len div min_chunk + 2 < hops then Some (Inl (HPage pid ''overflow chain corrupt''), pg)
      else
        (case load_page_owned reader t nxt pg of
           (Inl e, pg) \<Rightarrow> Some (Inl e, pg)
         | (Inr page', pg) \<Rightarrow>
             (case chain_header page' nxt of
                Inl e \<Rightarrow> Some (Inl e, pg)
              | Inr (nxt', l) \<Rightarrow>
                  if length page' < CHAIN_HEADER + l \<or> total_len < length out + l
                  then Some (Inl (HPage nxt ''overflow chain corrupt (bad length)''), pg)
                  else assemble_loop reader t pid total_len nxt' (Set.insert nxt seen) (Suc hops)
                         (out @ sub_bytes page' CHAIN_HEADER l) pg)))"

lemma assemble_loop_returns:
  "n + hops = hop_limit total_len \<Longrightarrow>
   assemble_loop reader t pid total_len nxt seen hops out pg = Some (assemble_chain n reader t pid total_len nxt seen out pg)"
proof (induction n arbitrary: nxt seen hops out pg)
  case 0
  then show ?case by (subst assemble_loop.simps) (simp add: hop_limit_def ofail_def)
next
  case (Suc n)
  have "\<not> total_len div min_chunk + 2 < hops" using Suc.prems by (simp add: hop_limit_def)
  moreover have "n + Suc hops = hop_limit total_len" using Suc.prems by simp
  ultimately show ?case
    by (subst assemble_loop.simps) (auto simp: Suc.IH obind_def olift_def ofail_def split: prod.splits sum.splits)
qed

text \<open>\<open>C24\<close>: reading an overflow document always ends. The loop that follows the chain's page pointers, run on
  arbitrary page contents and whatever the reads return, comes to an end after at most
  \<open>total / min_chunk + 3\<close> pages, also when the pointers form a cycle, and its result is the one the
  bounded walk computes.\<close>

theorem chain_walk_terminates:
  "assemble_loop reader t pid total_len nxt {} 0 out pg = Some (assemble_chain (hop_limit total_len) reader t pid total_len nxt {} out pg)"
  by (rule assemble_loop_returns) simp

section \<open>A concrete heap\<close>

text \<open>One page with two documents.\<close>

definition ex_small :: bytes where
  "ex_small = [7, 0, 0, 0, 0]"

definition ex_heap_page :: bytes where
  "ex_heap_page = put_doc (put_doc (replicate PAGE_SIZE 0) ex_doc_bytes) ex_small"

definition ex_layout :: heap_layout where
  "ex_layout = [(1, [(ex_doc_bytes, []), (ex_small, [])])]"

definition ex_heap :: heap where
  "ex_heap = \<lparr>heap_pages = [1], overflow_free = [], dropped = []\<rparr>"

definition ex_store :: "pager \<times> tx" where
  "ex_store =
     (fresh_pager (encode_header 2) (fresh_wal HEADER 1 0 []) 2 [],
      \<lparr>tx_id = 1, staged = [(1, ex_heap_page)], to_free = [], reused = []\<rparr>)"

lemma ex_bytes: "length ex_doc_bytes = 49" "ex_doc_bytes \<noteq> []" "hd ex_doc_bytes = 7" "length ex_small = 5" "ex_small \<noteq> []" "hd ex_small = 7"
  by (simp_all add: ex_doc_bytes_def ex_small_def)

lemma ex_heap_page_ok: "page_ok ex_heap_page" "page_docs_of ex_heap_page = map Some [ex_doc_bytes, ex_small]"
proof -
  have f0: "free_space (replicate PAGE_SIZE 0) = PAGE_SIZE - 2"
    using empty_page by (simp add: free_space_def HEADER_FIXED_def count_zero)
  then have r1: "length ex_doc_bytes + 4 \<le> free_space (replicate PAGE_SIZE 0)" by (simp add: ex_bytes PAGE_SIZE_def)
  note p1 = put_doc_ok [OF empty_page(1) r1 ex_bytes(2)]
  have "count_of (put_doc (replicate PAGE_SIZE 0) ex_doc_bytes) = 1"
    using arg_cong [OF p1(2), of length] empty_page(2) by simp
  then have "free_space (put_doc (replicate PAGE_SIZE 0) ex_doc_bytes) = PAGE_SIZE - 55"
    using p1(3) empty_page(3) by (simp add: free_space_def HEADER_FIXED_def SLOT_SIZE_def ex_bytes)
  then have r2: "length ex_small + 4 \<le> free_space (put_doc (replicate PAGE_SIZE 0) ex_doc_bytes)" by (simp add: ex_bytes PAGE_SIZE_def)
  note p2 = put_doc_ok [OF p1(1) r2 ex_bytes(5)]
  show "page_ok ex_heap_page" "page_docs_of ex_heap_page = map Some [ex_doc_bytes, ex_small]"
    using p1 p2 empty_page by (simp_all add: ex_heap_page_def)
qed

lemma ex_store_ok: "tx_ok ex_store" "tx_room 9 ex_store" "tx_view ex_store = [1 \<mapsto> ex_heap_page]"
proof -
  have "length ex_heap_page = PAGE_SIZE" using ex_heap_page_ok(1) by (simp add: page_ok_def valid_page_def)
  then show "tx_ok ex_store" "tx_room 9 ex_store"
    by (auto simp: tx_ok_def tx_room_def ex_store_def fresh_pager_def store_ok_def coherent_def pending_ok_def alloc_ok_def reusable_ok_def
        empty_undo_def split: if_splits)
  have "i = 0 \<or> i = 1 \<or> 2 \<le> i" for i :: page_id
  proof -
    consider "unat i = unat (0 :: page_id)" | "unat i = unat (1 :: page_id)" | "unat (2 :: page_id) \<le> unat i" by fastforce
    then show ?thesis unfolding word_unat_eq_iff word_le_nat_alt by cases auto
  qed
  then show "tx_view ex_store = [1 \<mapsto> ex_heap_page]"
    by (auto simp: fun_eq_iff ex_store_def tx_view_pair fresh_pager_def word_le_nat_alt)
qed

lemma ex_heap_holds: "heap_holds (tx_view ex_store) ex_heap ex_layout" "rows ex_layout = [(pack_loc 1 0, ex_doc_bytes), (pack_loc 1 1, ex_small)]"
  using ex_heap_page_ok ex_bytes
  by (simp_all add: heap_holds_def page_holds_def ex_layout_def ex_heap_def ex_store_ok(3) rows_page slot_holds_def upt_rec
      OVERFLOW_MARK_def MAX_DOC_SIZE_def exI [of _ "[ex_doc_bytes, ex_small]"])

section \<open>Pages\<close>

text \<open>Compacting a page loses nothing. On every page of the page size that the slot check accepts,
  \<open>repack\<close> leaves the documents of the live slots, byte for byte and in order, without dead slots; the
  result passes the check again, and the reported moves list the live slots, each with the position its document moved to.\<close>

theorem repack_keeps_documents:
  assumes "length p = PAGE_SIZE" and "validate_page p pid = Inr ()"
  shows "validate_page (snd (repack p)) pid = Inr () \<and>
    page_docs_of (snd (repack p)) = map Some (somes (page_docs_of p)) \<and>
    map fst (fst (repack p)) = filter (\<lambda>i. page_docs_of p ! i \<noteq> None) [0..<count_of p] \<and>
    (\<forall>(old, new) \<in> set (fst (repack p)). page_docs_of (snd (repack p)) ! new = page_docs_of p ! old)"
proof -
  have v: "valid_page p" using assms validate_page_iff by blast
  then show ?thesis using repack_ok [OF v] repack_moves [OF v] valid_page_validate [of "snd (repack p)" pid] unfolding page_ok_def by blast
qed

theorem repack_keeps_documents_witness:
  "validate_page (snd (repack (tombstone ex_heap_page 0))) 1 = Inr () \<and>
    page_docs_of (snd (repack (tombstone ex_heap_page 0))) = [Some ex_small]"
proof -
  have "length (page_docs_of ex_heap_page) = 2" using ex_heap_page_ok(2) by simp
  then have "valid_page ex_heap_page" "0 < count_of ex_heap_page"
    using ex_heap_page_ok(1) by (simp_all add: page_ok_def page_docs_of_def)
  from tombstone_ok [OF this] have t: "valid_page (tombstone ex_heap_page 0)" "page_docs_of (tombstone ex_heap_page 0) = [None, Some ex_small]"
    using ex_heap_page_ok(2) by simp_all
  moreover from t(1) have "length (tombstone ex_heap_page 0) = PAGE_SIZE" by (simp add: valid_page_def)
  ultimately show ?thesis
    using repack_keeps_documents [of "tombstone ex_heap_page 0" 1] valid_page_validate by (auto simp: somes_def List.map_filter_def)
qed

section \<open>Changes\<close>

text \<open>\<open>C21\<close>: inserting stores the document. On a stored heap with page ids left for the overflow chain, a
  document of at most the maximal size is inserted, inline or with an overflow chain, and the heap then
  holds the old documents at their old locators and, last, the new one at the returned locator; no
  page in use outside the heap has changed.\<close>

theorem heap_insert_appends_row:
  assumes "heap_holds (tx_view s) h L" and "tx_ok s" and "tx_room (length bs div min_chunk + 2) s"
    and "encode_object D doc = Inr bs" and "length bs \<le> MAX_DOC_SIZE"
  shows "\<exists>loc h' s' L'. heap_insert D doc (h, s) = (Inr loc, (h', s')) \<and> tx_ok s' \<and> heap_holds (tx_view s') h' L' \<and>
    rows L' = rows L @ [(loc, bs)] \<and>
    (\<forall>i. i \<notin> set (layout_ids L @ overflow_free h) \<longrightarrow> tx_view s i \<noteq> None \<longrightarrow> tx_view s' i = tx_view s i)"
  using heap_insert_ok [OF assms(1,2) refl assms(3-5)] unfolding grown_def by blast

theorem heap_insert_appends_row_witness:
  "\<exists>loc h' s' L'. heap_insert ex_dec ex_doc (ex_heap, ex_store) = (Inr loc, (h', s')) \<and> heap_holds (tx_view s') h' L' \<and>
    rows L' = [(pack_loc 1 0, ex_doc_bytes), (pack_loc 1 1, ex_small), (loc, ex_doc_bytes)]"
proof -
  have "encode_object ex_dec ex_doc = Inr ex_doc_bytes" using ex_doc_ok(2) by (simp add: encode_object_eq)
  moreover have "tx_room (length ex_doc_bytes div min_chunk + 2) ex_store"
    by (rule heap_store.room_le [OF _ ex_store_ok(2)]) (simp add: ex_bytes min_chunk_def CHAIN_HEADER_def PAGE_SIZE_def)
  ultimately show ?thesis
    using heap_insert_appends_row [OF ex_heap_holds(1) ex_store_ok(1), of ex_doc_bytes ex_dec ex_doc] ex_heap_holds(2)
    by (auto simp: ex_bytes MAX_DOC_SIZE_def)
qed

text \<open>\<open>C22\<close>: removing documents removes exactly those. Given locators of stored documents, in any order and with
  repetitions, \<open>remove_many\<close> succeeds and the heap then holds the other documents in their old order,
  byte for byte, each at the locator that the returned moves give for its old one (the old locator when
  they do not mention it); no page outside the heap's own has changed.\<close>

theorem remove_many_keeps_survivors:
  assumes "heap_holds (tx_view s) h L" and "tx_ok s" and "tx_room 0 s" and "set locs \<subseteq> fst ` set (rows L)"
  shows "\<exists>moves h' s' L'. remove_many locs (h, s) = (Inr moves, (h', s')) \<and> tx_ok s' \<and> heap_holds (tx_view s') h' L' \<and>
    rows L' = map (\<lambda>(loc, bs). (moved_to moves loc, bs)) (filter (\<lambda>(loc, _). loc \<notin> set locs) (rows L)) \<and>
    (\<forall>i. i \<notin> set (layout_ids L) \<longrightarrow> tx_view s' i = tx_view s i)"
  using remove_many_ok [OF assms(1,2) refl assms(3,4)] unfolding survivors_def .

theorem remove_many_keeps_survivors_witness:
  "\<exists>moves h' s' L'. remove_many [pack_loc 1 0] (ex_heap, ex_store) = (Inr moves, (h', s')) \<and> heap_holds (tx_view s') h' L' \<and>
    rows L' = [(moved_to moves (pack_loc 1 1), ex_small)]"
proof -
  have "pack_loc 1 1 \<noteq> pack_loc 1 0" by (simp add: pack_loc_def)
  moreover have "tx_room 0 ex_store" by (rule heap_store.room_le [OF _ ex_store_ok(2)]) simp
  ultimately show ?thesis
    using remove_many_keeps_survivors [OF ex_heap_holds(1) ex_store_ok(1), of "[pack_loc 1 0]"] by (auto simp: ex_heap_holds(2))
qed

section \<open>Across a commit\<close>

text \<open>\<open>C23\<close>: a document that was inserted and committed is read back. When a heap operation has left the
  transaction's pages holding documents and the commit of the transaction succeeds, with or without its
  own sync, then a reader of the committed state gets exactly these documents from a full scan, in row
  order, and each of them from a lookup of its locator, overflow chains included.\<close>

theorem committed_documents_are_read:
  assumes "decimal_laws D" and "heap_holds (tx_view (pg, t)) h L" and "tx_ok (pg, t)" and "rows_hold D (rows L) docs"
    and "commit_tx_inner t fsync pg = (Inr l, pg')"
  shows "(\<exists>pg1. heap_scan D h Current pg' = (Inr (map snd docs), pg1)) \<and>
    (\<forall>(loc, doc) \<in> set docs. \<exists>pg1. doc_at D h Current loc pg' = (Inr (Some doc), pg1))"
proof -
  note c = commit_view [OF assms(3,5)]
  have hh: "heap_holds (committed_view pg') h L" by (rule heap_holds_mono [OF assms(2) c(2)])
  show ?thesis
    using committed_reader.heap_scan_rows [OF assms(1) refl c(1) refl hh assms(4)]
      committed_reader.doc_at_rows [OF assms(1) refl c(1) refl hh assms(4)] by blast
qed

lemma ex_wal_short: "appended (ex_wal [] 1 0 []) < SOFT_WAL_LIMIT"
  unfolding ex_wal_fresh [symmetric] by (simp add: fresh_wal_def HEADER_def SOFT_WAL_LIMIT_def)

lemma ex_heap_commit: "fst (commit_tx_inner (snd ex_store) False (fst ex_store)) = Inr 3"
  by (simp add: ex_wal_short commit_tx_inner_def ex_store_def try_free_truncate_def fresh_pager_def with_wal_def wal_lift_def
      log_tx_def obind_def wal_begin_def log_write_def commit_deferred_def ex_wal_fresh ex_wal_append Let_def)

lemma ex_small_doc: "doc_bytes ex_dec [] ex_small" "doc_bytes ex_dec ex_doc ex_doc_bytes"
  using ex_doc_ok
  by (simp_all add: doc_bytes_def encode_object_eq ex_small_def encode_to_vec_def encode_at.simps put_u32_def to_le_bytes_def le_bytes_numeral MAX_DEPTH_def)

theorem committed_documents_are_read_witness:
  "\<exists>l pg' pg1 pg2. commit_tx_inner (snd ex_store) False (fst ex_store) = (Inr l, pg') \<and>
    heap_scan ex_dec ex_heap Current pg' = (Inr [ex_doc, []], pg1) \<and>
    doc_at ex_dec ex_heap Current (pack_loc 1 0) pg' = (Inr (Some ex_doc), pg2)"
proof -
  obtain l pg' where c: "commit_tx_inner (snd ex_store) False (fst ex_store) = (Inr l, pg')" by (metis ex_heap_commit prod.collapse)
  have "rows_hold ex_dec (rows ex_layout) [(pack_loc 1 0, ex_doc), (pack_loc 1 1, [])]"
    using ex_small_doc by (simp add: rows_hold_def ex_heap_holds(2))
  from committed_documents_are_read [OF ex_dec_laws _ _ this c] ex_heap_holds(1) ex_store_ok(1) c show ?thesis by auto
qed

end
