(* ===== verification/Proto.thy ===== *)
theory Proto
  imports Encode_Props
begin

text \<open>
  The wire protocol: the frame codec of \<open>proto.rs\<close> and the server's frame reader (\<open>Conn::read_frame\<close> of
  \<open>docsql-server/src/lib.rs\<close>), which assembles frames from whatever pieces the socket delivers.
\<close>

section \<open>Frames\<close>

definition FRAME_MAGIC :: u32 where "FRAME_MAGIC = 0x31515344"
definition FRAME_HEADER_LEN :: nat where "FRAME_HEADER_LEN = 4 + 2 + 2 + 8 + 4"
definition MAX_FRAME_BYTES :: nat where "MAX_FRAME_BYTES = 64 * 1024 * 1024"

definition REQ_AUTH :: u16 where "REQ_AUTH = 0x0002"
definition REQ_PING :: u16 where "REQ_PING = 0x0006"
definition RESP_AFFECTED :: u16 where "RESP_AFFECTED = 0x0102"
definition RESP_ERROR :: u16 where "RESP_ERROR = 0x0103"
definition RESP_STATUS :: u16 where "RESP_STATUS = 0x0106"

record frame =
  frame_type :: u16
  frame_flags :: u16
  topology_version :: u64
  frame_payload :: bytes

datatype proto_error =
    PEncode encode_error
  | BadMagic u32
  | Truncated nat nat
  | FrameTooLarge nat

definition new_frame :: "u16 \<Rightarrow> bytes \<Rightarrow> frame" where
  "new_frame ty pl = \<lparr>frame_type = ty, frame_flags = 0, topology_version = 0, frame_payload = pl\<rparr>"

definition frame_encode :: "frame \<Rightarrow> proto_error + bytes" where
  "frame_encode f =
     (if MAX_FRAME_BYTES < length (frame_payload f) then Inl (FrameTooLarge (length (frame_payload f)))
      else Inr (to_le_bytes FRAME_MAGIC @ to_le_bytes (frame_flags f) @ to_le_bytes (frame_type f) @
             to_le_bytes (topology_version f) @ to_le_bytes (word_of_nat (length (frame_payload f)) :: u32) @ frame_payload f))"

definition frame_decode :: "bytes \<Rightarrow> proto_error + frame \<times> nat" where
  "frame_decode buf =
     (if length buf < FRAME_HEADER_LEN then Inl (Truncated FRAME_HEADER_LEN (length buf))
      else
        (let magic = from_le_bytes (sub_bytes buf 0 4)
         in if magic \<noteq> FRAME_MAGIC then Inl (BadMagic magic)
            else
              (let flags' = from_le_bytes (sub_bytes buf 4 2);
                   ty = from_le_bytes (sub_bytes buf 6 2);
                   topo = from_le_bytes (sub_bytes buf 8 8);
                   len = unat (from_le_bytes (sub_bytes buf 16 4) :: u32)
               in if MAX_FRAME_BYTES < len then Inl (FrameTooLarge len)
                  else
                    (let end' = FRAME_HEADER_LEN + len
                     in if length buf < end' then Inl (Truncated end' (length buf))
                        else Inr (\<lparr>frame_type = ty, frame_flags = flags', topology_version = topo,
                                   frame_payload = sub_bytes buf FRAME_HEADER_LEN len\<rparr>, end')))))"

definition encode_sql :: "'d decimal_ops \<Rightarrow> bytes \<Rightarrow> proto_error + bytes" where
  "encode_sql D sql = emap_err PEncode (encode_to_vec D (Str sql))"

definition decode_affected :: "bytes \<Rightarrow> u64" where
  "decode_affected pl = (case get_range pl 0 8 of Some s \<Rightarrow> from_le_bytes s | None \<Rightarrow> 0)"

definition decode_sql :: "'d decimal_ops \<Rightarrow> bytes \<Rightarrow> proto_error + bytes" where
  "decode_sql D pl =
     ebind (emap_err PEncode (decode_prefix D pl)) (\<lambda>(v, _).
       case v of Str s \<Rightarrow> Inr s | _ \<Rightarrow> Inl (PEncode (UnknownTag 0)))"

section \<open>The frame reader\<close>

text \<open>What successive reads of the socket give: some bytes, none at the end of the stream, or an error.
  A socket with nothing left to give is at its end.\<close>

datatype socket_read = Got bytes | Broken

record conn =
  c_stream :: "socket_read list"
  c_buf :: bytes
  bytes_in_total :: u64

datatype conn_error = Protocol proto_error | OversizedBuffer | SocketError

fun read_loop :: "socket_read list \<Rightarrow> bytes \<Rightarrow> u64 \<Rightarrow> (conn_error + frame option) \<times> conn" where
  "read_loop s buf n =
     (case frame_decode buf of
        Inr (f, k) \<Rightarrow> (Inr (Some f), \<lparr>c_stream = s, c_buf = drop k buf, bytes_in_total = n\<rparr>)
      | Inl (Truncated _ _) \<Rightarrow>
          if FRAME_HEADER_LEN + MAX_FRAME_BYTES < length buf
          then (Inl OversizedBuffer, \<lparr>c_stream = s, c_buf = buf, bytes_in_total = n\<rparr>)
          else
            (case s of
               [] \<Rightarrow> (Inr None, \<lparr>c_stream = [], c_buf = buf, bytes_in_total = n\<rparr>)
             | Broken # s' \<Rightarrow> (Inl SocketError, \<lparr>c_stream = s', c_buf = buf, bytes_in_total = n\<rparr>)
             | Got c # s' \<Rightarrow>
                 if c = [] then (Inr None, \<lparr>c_stream = s', c_buf = buf, bytes_in_total = n\<rparr>)
                 else read_loop s' (buf @ c) (n + word_of_nat (length c)))
      | Inl e \<Rightarrow> (Inl (Protocol e), \<lparr>c_stream = s, c_buf = buf, bytes_in_total = n\<rparr>))"

declare read_loop.simps [simp del]

definition conn_read_frame :: "(conn, conn_error, frame option) op" where
  "conn_read_frame c = read_loop (c_stream c) (c_buf c) (bytes_in_total c)"

text \<open>The connection task calls \<open>conn_read_frame\<close> until it gives no frame; at most \<open>n\<close> frames.\<close>

primrec read_frames :: "nat \<Rightarrow> (conn, conn_error, frame list) op" where
  "read_frames 0 = oret []"
| "read_frames (Suc n) =
     obind conn_read_frame (\<lambda>r. case r of None \<Rightarrow> oret [] | Some f \<Rightarrow> obind (read_frames n) (\<lambda>fs. oret (f # fs)))"

section \<open>The codec\<close>

text \<open>The interface of a frame codec: what follows a whole frame does not matter, and a strict prefix of
  a frame only asks for more.\<close>

locale frame_codec =
  fixes enc :: "'f \<Rightarrow> bytes"
    and dec :: "bytes \<Rightarrow> 'e + 'f \<times> nat"
    and more :: "'e \<Rightarrow> bool"
    and good :: "'f \<Rightarrow> bool"
  assumes dec_enc: "good f \<Longrightarrow> dec (enc f @ r) = Inr (f, length (enc f))"
    and dec_prefix: "good f \<Longrightarrow> k < length (enc f) \<Longrightarrow> \<exists>e. dec (take k (enc f)) = Inl e \<and> more e"
    and enc_nonempty: "good f \<Longrightarrow> enc f \<noteq> []"
begin

definition torn :: "bytes \<Rightarrow> bool" where
  "torn t \<longleftrightarrow> t = [] \<or> (\<exists>f. good f \<and> (\<exists>k < length (enc f). t = take k (enc f)))"

lemma torn_more: "torn t \<Longrightarrow> t \<noteq> [] \<Longrightarrow> \<exists>e. dec t = Inl e \<and> more e"
  unfolding torn_def using dec_prefix by blast

text \<open>A prefix of a frame followed by anything starts no frame of its own.\<close>

lemma short_of_frame:
  assumes "good f" and "xs @ ys = enc f @ r" and "length xs < length (enc f)"
  shows "\<exists>e. dec xs = Inl e \<and> more e"
proof -
  have "xs = take (length xs) (enc f @ r)" using assms(2) by (metis append_eq_conv_conj)
  then have "xs = take (length xs) (enc f)" using assms(3) by simp
  then show ?thesis using dec_prefix [OF assms(1,3)] by simp
qed

end

definition needs_more :: "proto_error \<Rightarrow> bool" where
  "needs_more e = (case e of Truncated _ _ \<Rightarrow> True | _ \<Rightarrow> False)"

definition good_frame :: "frame \<Rightarrow> bool" where
  "good_frame f \<longleftrightarrow> length (frame_payload f) \<le> MAX_FRAME_BYTES"

definition frame_wire :: "frame \<Rightarrow> bytes" where
  "frame_wire f =
     to_le_bytes FRAME_MAGIC @ to_le_bytes (frame_flags f) @ to_le_bytes (frame_type f) @
     to_le_bytes (topology_version f) @ to_le_bytes (word_of_nat (length (frame_payload f)) :: u32) @ frame_payload f"

lemma frame_encode_wire: "good_frame f \<Longrightarrow> frame_encode f = Inr (frame_wire f)"
  by (simp add: frame_encode_def good_frame_def frame_wire_def)

lemma length_frame_wire: "length (frame_wire f) = FRAME_HEADER_LEN + length (frame_payload f)"
  by (simp add: frame_wire_def FRAME_HEADER_LEN_def)

lemma header_fields:
  "sub_bytes (frame_wire f @ r) 0 4 = to_le_bytes FRAME_MAGIC"
  "sub_bytes (frame_wire f @ r) 4 2 = to_le_bytes (frame_flags f)"
  "sub_bytes (frame_wire f @ r) 6 2 = to_le_bytes (frame_type f)"
  "sub_bytes (frame_wire f @ r) 8 8 = to_le_bytes (topology_version f)"
  "sub_bytes (frame_wire f @ r) 16 4 = to_le_bytes (word_of_nat (length (frame_payload f)) :: u32)"
  by (simp_all add: frame_wire_def sub_bytes_def)

lemma frame_decode_wire:
  assumes "good_frame f"
  shows "frame_decode (frame_wire f @ r) = Inr (f, length (frame_wire f))"
proof -
  have "unat (word_of_nat (length (frame_payload f)) :: u32) = length (frame_payload f)"
    using assms by (simp add: good_frame_def MAX_FRAME_BYTES_def unat_of_nat)
  moreover have "sub_bytes (frame_wire f @ r) FRAME_HEADER_LEN (length (frame_payload f)) = frame_payload f"
    by (simp add: frame_wire_def sub_bytes_def FRAME_HEADER_LEN_def)
  ultimately show ?thesis
    using assms unfolding frame_decode_def header_fields Let_def from_to_le_bytes_sized length_append length_frame_wire
    by (simp add: good_frame_def)
qed

lemma frame_decode_prefix:
  assumes "good_frame f" and "k < length (frame_wire f)"
  shows "\<exists>n. frame_decode (take k (frame_wire f)) = Inl (Truncated n k)"
proof (cases "k < FRAME_HEADER_LEN")
  case True
  then show ?thesis using assms(2) by (simp add: frame_decode_def)
next
  case False
  then have "20 \<le> k" by (simp add: FRAME_HEADER_LEN_def)
  then have same: "sub_bytes (take k (frame_wire f)) i n = sub_bytes (frame_wire f @ []) i n" if "i + n \<le> 20" for i n
    using that by (simp add: sub_bytes_def drop_take)
  have "unat (word_of_nat (length (frame_payload f)) :: u32) = length (frame_payload f)"
    using assms by (simp add: good_frame_def MAX_FRAME_BYTES_def unat_of_nat)
  then show ?thesis
    using assms False length_frame_wire [of f]
    by (simp add: frame_decode_def Let_def same header_fields good_frame_def del: append_Nil2)
qed

interpretation wire: frame_codec frame_wire frame_decode needs_more good_frame
proof
  show "\<And>f k. good_frame f \<Longrightarrow> k < length (frame_wire f) \<Longrightarrow> \<exists>e. frame_decode (take k (frame_wire f)) = Inl e \<and> needs_more e"
    by (drule (1) frame_decode_prefix) (auto simp: needs_more_def)
  show "\<And>f. good_frame f \<Longrightarrow> frame_wire f \<noteq> []"
    using length_frame_wire by (metis FRAME_HEADER_LEN_def add_is_0 list.size(3) zero_neq_numeral)
qed (rule frame_decode_wire)

end
