(* ===== verification/Frame_Reader.thy ===== *)
theory Frame_Reader
  imports Proto
begin

text \<open>
  The frame reader on a socket: however the bytes of a stream of frames are cut into reads, it returns
  the frames.
\<close>

lemma needs_moreE: "needs_more e \<Longrightarrow> (\<And>a b. e = Truncated a b \<Longrightarrow> P) \<Longrightarrow> P"
  by (auto simp: needs_more_def split: proto_error.splits)

lemma read_loop_decoded:
  "frame_decode buf = Inr (f, k) \<Longrightarrow> read_loop s buf n = (Inr (Some f), \<lparr>c_stream = s, c_buf = drop k buf, bytes_in_total = n\<rparr>)"
  by (simp add: read_loop.simps)

lemma read_loop_short:
  assumes "frame_decode buf = Inl e" and "needs_more e" and "length buf \<le> FRAME_HEADER_LEN + MAX_FRAME_BYTES"
  shows "c \<noteq> [] \<Longrightarrow> read_loop (Got c # s) buf n = read_loop s (buf @ c) (n + word_of_nat (length c))"
    and "read_loop [] buf n = (Inr None, \<lparr>c_stream = [], c_buf = buf, bytes_in_total = n\<rparr>)"
  using assms by (auto simp: read_loop.simps elim: needs_moreE)

lemma good_frame_length: "good_frame f \<Longrightarrow> length (frame_wire f) \<le> FRAME_HEADER_LEN + MAX_FRAME_BYTES"
  by (simp add: length_frame_wire good_frame_def)

lemma read_loop_frame:
  assumes "good_frame f" and "buf @ concat cs = frame_wire f @ r" and "[] \<notin> set cs"
  shows "\<exists>cs' buf' n'. read_loop (map Got cs) buf n = (Inr (Some f), \<lparr>c_stream = map Got cs', c_buf = buf', bytes_in_total = n'\<rparr>) \<and>
    buf' @ concat cs' = r \<and> [] \<notin> set cs'"
  using assms(2,3)
proof (induction cs arbitrary: buf n)
  case Nil
  then show ?case using frame_decode_wire [OF assms(1), of r] by (auto simp: read_loop_decoded intro!: exI [of _ "[]"])
next
  case (Cons c cs)
  show ?case
  proof (cases "length buf < length (frame_wire f)")
    case True
    from wire.short_of_frame [OF assms(1) Cons.prems(1) this] obtain e where e: "frame_decode buf = Inl e" "needs_more e" by blast
    have "read_loop (map Got (c # cs)) buf n = read_loop (map Got cs) (buf @ c) (n + word_of_nat (length c))"
      using read_loop_short(1) [OF e] True good_frame_length [OF assms(1)] Cons.prems(2) by auto
    then show ?thesis using Cons.IH [of "buf @ c"] Cons.prems by simp
  next
    case False
    define b where "b = drop (length (frame_wire f)) buf"
    have "take (length (frame_wire f)) buf = frame_wire f"
      using arg_cong [OF Cons.prems(1), of "take (length (frame_wire f))"] False by simp
    then have b: "buf = frame_wire f @ b" by (metis append_take_drop_id b_def)
    moreover have "r = b @ concat (c # cs)" using Cons.prems(1) b by simp
    ultimately show ?thesis
      using read_loop_decoded [OF frame_decode_wire [OF assms(1), of b]] Cons.prems(2)
      by (intro exI [of _ "c # cs"] exI [of _ b]) auto
  qed
qed

lemma torn_take: "wire.torn t \<Longrightarrow> wire.torn (take j t)"
proof -
  assume "wire.torn t"
  then consider "t = []" | f k where "good_frame f" "k < length (frame_wire f)" "t = take k (frame_wire f)" by (auto simp: wire.torn_def)
  then show ?thesis
  proof cases
    case 2
    then have "take j t = take (min j k) (frame_wire f)" "min j k < length (frame_wire f)" by auto
    then show ?thesis using 2(1) unfolding wire.torn_def by blast
  qed (simp add: wire.torn_def)
qed

lemma torn_decode:
  assumes "wire.torn t"
  obtains e where "frame_decode t = Inl e" and "needs_more e" and "length t \<le> FRAME_HEADER_LEN + MAX_FRAME_BYTES"
proof -
  have "length t \<le> FRAME_HEADER_LEN + MAX_FRAME_BYTES" using assms good_frame_length by (fastforce simp: wire.torn_def)
  moreover have "\<exists>e. frame_decode t = Inl e \<and> needs_more e"
  proof (cases "t = []")
    case True
    then show ?thesis by (simp add: frame_decode_def FRAME_HEADER_LEN_def needs_more_def)
  qed (rule wire.torn_more [OF assms])
  ultimately show thesis using that by blast
qed

lemma read_loop_end:
  assumes "wire.torn (buf @ concat cs)" and "[] \<notin> set cs"
  shows "\<exists>n'. read_loop (map Got cs) buf n = (Inr None, \<lparr>c_stream = [], c_buf = buf @ concat cs, bytes_in_total = n'\<rparr>)"
  using assms
proof (induction cs arbitrary: buf n)
  case Nil
  then obtain e where "frame_decode buf = Inl e" "needs_more e" "length buf \<le> FRAME_HEADER_LEN + MAX_FRAME_BYTES"
    using torn_decode [of buf] by auto
  then show ?case using read_loop_short(2) by simp
next
  case (Cons c cs)
  have "wire.torn buf" using torn_take [OF Cons.prems(1), of "length buf"] by simp
  then obtain e where "frame_decode buf = Inl e" "needs_more e" "length buf \<le> FRAME_HEADER_LEN + MAX_FRAME_BYTES" by (rule torn_decode)
  then have "read_loop (map Got (c # cs)) buf n = read_loop (map Got cs) (buf @ c) (n + word_of_nat (length c))"
    using read_loop_short(1) Cons.prems(2) by auto
  then show ?case using Cons.IH [of "buf @ c"] Cons.prems by simp
qed

lemma read_frames_ok:
  assumes "\<And>f. f \<in> set fs \<Longrightarrow> good_frame f" and "wire.torn t" and "[] \<notin> set cs"
    and "c_buf c @ concat cs = concat (map frame_wire fs) @ t" and "c_stream c = map Got cs"
  shows "\<exists>c'. read_frames (length fs + 1) c = (Inr fs, c') \<and> c_stream c' = [] \<and> c_buf c' = t"
  using assms
proof (induction fs arbitrary: c cs)
  case Nil
  then obtain n' where "read_loop (map Got cs) (c_buf c) (bytes_in_total c) = (Inr None, \<lparr>c_stream = [], c_buf = t, bytes_in_total = n'\<rparr>)"
    using read_loop_end [of "c_buf c" cs] by auto
  then show ?case using Nil.prems by (simp add: conn_read_frame_def obind_def)
next
  case (Cons f fs)
  have g: "good_frame f" using Cons.prems(1) by simp
  have eq: "c_buf c @ concat cs = frame_wire f @ (concat (map frame_wire fs) @ t)" using Cons.prems(4) by simp
  obtain cs' buf' n' where r: "conn_read_frame c = (Inr (Some f), \<lparr>c_stream = map Got cs', c_buf = buf', bytes_in_total = n'\<rparr>)"
      "buf' @ concat cs' = concat (map frame_wire fs) @ t" "[] \<notin> set cs'"
    using read_loop_frame [OF g eq Cons.prems(3), of "bytes_in_total c"] Cons.prems(5) by (auto simp: conn_read_frame_def)
  define c1 where "c1 = \<lparr>c_stream = map Got cs', c_buf = buf', bytes_in_total = n'\<rparr>"
  obtain c' where "read_frames (length fs + 1) c1 = (Inr fs, c')" "c_stream c' = []" "c_buf c' = t"
    using Cons.IH [of cs' c1] Cons.prems(1,2) r by (auto simp: c1_def)
  then show ?case using r(1) by (auto simp: obind_def c1_def)
qed

text \<open>\<open>C25\<close>: the frame reader does not depend on how the network cuts the stream. Whatever non-empty pieces the
  bytes of a sequence of frames arrive in, also when the connection ends in the middle of a further
  frame, reading until the end returns exactly the whole frames, in order, with every field, and reports
  the end without an error, leaving only the bytes of the unfinished frame.\<close>

theorem frame_stream_roundtrip:
  assumes "list_all2 (\<lambda>f bs. frame_encode f = Inr bs) fs encs" and "frame_encode g = Inr next_enc" and "k < length next_enc"
    and "concat cs = concat encs @ take k next_enc" and "[] \<notin> set cs"
  shows "\<exists>c'. read_frames (length fs + 1) \<lparr>c_stream = map Got cs, c_buf = [], bytes_in_total = n\<rparr> = (Inr fs, c') \<and>
    c_stream c' = [] \<and> c_buf c' = take k next_enc"
proof -
  have enc: "good_frame f \<and> bs = frame_wire f" if "frame_encode f = Inr bs" for f bs
    using that by (auto simp: frame_encode_def good_frame_def frame_wire_def split: if_splits)
  have "encs = map frame_wire fs" "\<And>f. f \<in> set fs \<Longrightarrow> good_frame f"
    using assms(1) enc by (induction fs encs rule: list_all2_induct) auto
  moreover have "wire.torn (take k next_enc)" using enc [OF assms(2)] assms(3) by (auto simp: wire.torn_def)
  ultimately show ?thesis using read_frames_ok [of fs "take k next_enc" cs] assms(4,5) by simp
qed

definition ex_frame :: frame where
  "ex_frame = \<lparr>frame_type = REQ_PING, frame_flags = 2, topology_version = 7, frame_payload = [9, 8]\<rparr>"

theorem frame_stream_roundtrip_witness:
  "\<exists>c'. read_frames 2 \<lparr>c_stream = [Got (take 5 (frame_wire ex_frame)), Got (drop 5 (frame_wire ex_frame) @ take 3 (frame_wire ex_frame))],
      c_buf = [], bytes_in_total = 0\<rparr> = (Inr [ex_frame], c') \<and> c_stream c' = [] \<and> c_buf c' = take 3 (frame_wire ex_frame)"
proof -
  have l: "length (frame_wire ex_frame) = 22" by (simp add: length_frame_wire FRAME_HEADER_LEN_def ex_frame_def)
  have e: "frame_encode ex_frame = Inr (frame_wire ex_frame)"
    by (rule frame_encode_wire) (simp add: good_frame_def ex_frame_def MAX_FRAME_BYTES_def)
  have "take 5 (frame_wire ex_frame) \<noteq> []" "drop 5 (frame_wire ex_frame) \<noteq> []" using l by (auto simp flip: length_greater_0_conv)
  moreover have "take 5 (frame_wire ex_frame) @ drop 5 (frame_wire ex_frame) @ xs = frame_wire ex_frame @ xs" for xs
    by (metis append.assoc append_take_drop_id)
  ultimately show ?thesis
    using frame_stream_roundtrip [of "[ex_frame]" "[frame_wire ex_frame]" ex_frame "frame_wire ex_frame" 3
        "[take 5 (frame_wire ex_frame), drop 5 (frame_wire ex_frame) @ take 3 (frame_wire ex_frame)]" 0] e l by (simp add: numeral_2_eq_2)
qed

end
