(* ===== verification/Crypto.thy ===== *)
theory Crypto
  imports Proto
begin

text \<open>
  Transport encryption of \<open>docsql-server/src/crypto.rs\<close>: structured nonces, the associated data that binds a
  frame to its header and its connection, sealing, opening and the replay guard, and the receiving side
  of a keyed connection (\<open>conn.rs\<close>). AES-256-GCM itself is the \<open>aes_gcm\<close> crate: the parameter \<open>A\<close>, with
  what the code relies on in \<open>aead_laws\<close>.
\<close>

section \<open>Sealing and opening\<close>

record aead =
  gcm_encrypt :: "bytes \<Rightarrow> bytes \<Rightarrow> bytes \<Rightarrow> bytes \<Rightarrow> bytes"
  gcm_decrypt :: "bytes \<Rightarrow> bytes \<Rightarrow> bytes \<Rightarrow> bytes \<Rightarrow> bytes option"

text \<open>Arguments: key, nonce, associated data, message. The tag adds 16 bytes, and decryption undoes encryption.\<close>

definition aead_laws :: "aead \<Rightarrow> bool" where
  "aead_laws A \<longleftrightarrow>
     (\<forall>k n a m. length (gcm_encrypt A k n a m) = length m + 16 \<and> gcm_decrypt A k n a (gcm_encrypt A k n a m) = Some m)"

definition FLAG_ENCRYPTED :: u16 where "FLAG_ENCRYPTED = 0x0004"
definition NONCE_COUNTER_CAP :: u64 where "NONCE_COUNTER_CAP = 0xFFFFFFFF"

text \<open>The process-wide nonce material: the prefix is drawn once.\<close>

record sealer =
  nonce_prefix :: "bytes option"
  nonce_counter :: u64

definition aad :: "u16 \<Rightarrow> u16 \<Rightarrow> bytes \<Rightarrow> bytes" where
  "aad ty flags' challenge = to_le_bytes ty @ to_le_bytes flags' @ challenge"

text \<open>\<open>rnd\<close> is the random draw that a first use of the prefix takes.\<close>

definition next_nonce :: "bytes \<Rightarrow> (sealer, string, bytes) op" where
  "next_nonce rnd st =
     (let counter = nonce_counter st;
          st = st\<lparr>nonce_counter := counter + 1\<rparr>
      in if NONCE_COUNTER_CAP < counter
         then (Inl ''transport nonce budget exhausted (>2^32 sealed frames from this process); restart the node'', st)
         else
           (let p = (case nonce_prefix st of Some p \<Rightarrow> p | None \<Rightarrow> rnd);
                st = st\<lparr>nonce_prefix := Some p\<rparr>
            in (Inr (p @ to_le_bytes (ucast counter :: u32)), st)))"

definition seal :: "aead \<Rightarrow> bytes \<Rightarrow> bytes \<Rightarrow> u16 \<Rightarrow> u16 \<Rightarrow> bytes \<Rightarrow> bytes \<Rightarrow> (sealer, string, bytes) op" where
  "seal A rnd key ty flags' plain challenge =
     obind (next_nonce rnd) (\<lambda>nonce. oret (nonce @ gcm_encrypt A key nonce (aad ty flags' challenge) plain))"

definition open_sealed :: "aead \<Rightarrow> bytes \<Rightarrow> u16 \<Rightarrow> u16 \<Rightarrow> bytes \<Rightarrow> bytes \<Rightarrow> string + bytes" where
  "open_sealed A key ty flags' sealed challenge =
     (if length sealed < 12 + 16 then Inl ''sealed payload too short''
      else
        (case gcm_decrypt A key (take 12 sealed) (aad ty flags' challenge) (drop 12 sealed) of
           Some plain \<Rightarrow> Inr plain
         | None \<Rightarrow> Inl ''decrypt failed (wrong key or tampered frame)''))"

section \<open>The replay guard\<close>

record replay_guard =
  guard_prefix :: "bytes option"
  guard_last :: u64

definition fresh_guard :: replay_guard where
  "fresh_guard = \<lparr>guard_prefix = None, guard_last = 0\<rparr>"

definition sealed_counter :: "bytes \<Rightarrow> u64" where
  "sealed_counter sealed = ucast (from_le_bytes (sub_bytes sealed 8 4) :: u32)"

definition guard_check :: "bytes \<Rightarrow> (replay_guard, string, unit) op" where
  "guard_check sealed g =
     (if length sealed < 12 then (Inl ''sealed payload too short'', g)
      else
        (let pre = take 8 sealed; counter = sealed_counter sealed
         in (case guard_prefix g of
               None \<Rightarrow> (Inr (), g\<lparr>guard_prefix := Some pre, guard_last := counter\<rparr>)
             | Some p \<Rightarrow>
                 if p = pre then
                   (if guard_last g < counter then (Inr (), g\<lparr>guard_last := counter\<rparr>)
                    else (Inl ''replayed or reordered encrypted frame rejected'', g))
                 else (Inl ''encrypted frame nonce prefix changed mid-connection'', g))))"

text \<open>A frame on a keyed connection, as the connection loop of the server takes it in.\<close>

definition receive_sealed :: "aead \<Rightarrow> bytes \<Rightarrow> bytes \<Rightarrow> frame \<Rightarrow> (replay_guard, string, frame) op" where
  "receive_sealed A key challenge f =
     (if frame_flags f AND FLAG_ENCRYPTED = 0
      then ofail ''transport encrypted; client must send encrypted frames''
      else
        obind (guard_check (frame_payload f)) (\<lambda>_.
          obind (olift (open_sealed A key (frame_type f) (frame_flags f) (frame_payload f) challenge)) (\<lambda>plain.
            oret (f\<lparr>frame_payload := plain\<rparr>))))"

primrec receive_all :: "aead \<Rightarrow> bytes \<Rightarrow> bytes \<Rightarrow> frame list \<Rightarrow> (replay_guard, string, frame list) op" where
  "receive_all A key challenge [] = oret []"
| "receive_all A key challenge (f # fs) =
     obind (receive_sealed A key challenge f) (\<lambda>p. obind (receive_all A key challenge fs) (\<lambda>ps. oret (p # ps)))"

text \<open>A process sends frames on several connections; it seals them in the order it sends them.\<close>

definition send_sealed :: "aead \<Rightarrow> bytes \<Rightarrow> bytes \<Rightarrow> bytes \<times> frame \<Rightarrow> (sealer, string, bytes \<times> frame) op" where
  "send_sealed A rnd key x =
     (case x of (challenge, f) \<Rightarrow>
        (let flags' = frame_flags f OR FLAG_ENCRYPTED
         in obind (seal A rnd key (frame_type f) flags' (frame_payload f) challenge) (\<lambda>sealed.
              oret (challenge, f\<lparr>frame_flags := flags', frame_payload := sealed\<rparr>))))"

primrec send_all :: "aead \<Rightarrow> bytes \<Rightarrow> bytes \<Rightarrow> (bytes \<times> frame) list \<Rightarrow> (sealer, string, (bytes \<times> frame) list) op" where
  "send_all A rnd key [] = oret []"
| "send_all A rnd key (x # xs) =
     obind (send_sealed A rnd key x) (\<lambda>y. obind (send_all A rnd key xs) (\<lambda>ys. oret (y # ys)))"

end
