(* ===== verification/Channel.thy ===== *)
theory Channel
  imports Crypto "HOL-Library.Sublist"
begin

text \<open>
  The keyed channel: frames sealed by one process arrive on every connection in order and open to what was
  sent, no accepted frame is accepted again on that connection, and whatever an attacker without the key
  delivers, a connection accepts only frames that one process sealed for it, in order.
\<close>

section \<open>The guard\<close>

definition guarded :: "replay_guard \<Rightarrow> frame \<Rightarrow> bool" where
  "guarded g f \<longleftrightarrow> guard_prefix g = Some (take 8 (frame_payload f)) \<and> sealed_counter (frame_payload f) \<le> guard_last g"

lemma receive_sealed_guard:
  assumes "receive_sealed A key ch f g = (Inr p, g')"
  shows "guarded g' f" and "\<And>x. guarded g x \<Longrightarrow> guarded g' x"
  using assms
  by (auto simp: receive_sealed_def obind_def guard_check_def Let_def guarded_def split: if_splits prod.splits sum.splits option.splits)

lemma receive_all_guard:
  "receive_all A key ch fs g = (Inr ps, g') \<Longrightarrow> (\<forall>f \<in> set fs. guarded g' f) \<and> (\<forall>x. guarded g x \<longrightarrow> guarded g' x)"
proof (induction fs arbitrary: g ps)
  case (Cons f fs)
  then obtain p g1 qs where "receive_sealed A key ch f g = (Inr p, g1)" "receive_all A key ch fs g1 = (Inr qs, g')"
    by (auto simp: result_simps)
  then show ?case using receive_sealed_guard [of A key ch f g p g1] Cons.IH by auto
qed simp

text \<open>Whatever has been accepted, a payload with the nonce of an accepted one is refused, and refusing it
  does not move the guard.\<close>

lemma replay_refused:
  assumes "guarded g f" and "take 12 (frame_payload f') = take 12 (frame_payload f)"
  shows "\<exists>e. receive_sealed A key ch f' g = (Inl e, g)"
proof -
  have "take 8 (frame_payload f') = take 8 (frame_payload f)" using arg_cong [OF assms(2), of "take 8"] by simp
  moreover have "sub_bytes (frame_payload f') 8 4 = sub_bytes (frame_payload f) 8 4"
    using arg_cong [OF assms(2), of "drop 8"] by (simp add: sub_bytes_def drop_take)
  ultimately show ?thesis
    using assms(1) by (auto simp: receive_sealed_def obind_def guard_check_def Let_def guarded_def sealed_counter_def)
qed

section \<open>Sealing\<close>

definition prefix_of :: "bytes \<Rightarrow> sealer \<Rightarrow> bytes" where
  "prefix_of rnd st = (case nonce_prefix st of Some p \<Rightarrow> p | None \<Rightarrow> rnd)"

definition sealed_frame :: "aead \<Rightarrow> bytes \<Rightarrow> bytes \<Rightarrow> u64 \<Rightarrow> bytes \<Rightarrow> frame \<Rightarrow> frame" where
  "sealed_frame A key p c ch f =
     (let flags' = frame_flags f OR FLAG_ENCRYPTED; nonce = p @ to_le_bytes (ucast c :: u32)
      in f\<lparr>frame_flags := flags', frame_payload := nonce @ gcm_encrypt A key nonce (aad (frame_type f) flags' ch) (frame_payload f)\<rparr>)"

lemma send_sealed_eq:
  assumes "nonce_counter st \<le> NONCE_COUNTER_CAP"
  shows "send_sealed A rnd key (ch, f) st =
    (Inr (ch, sealed_frame A key (prefix_of rnd st) (nonce_counter st) ch f),
     \<lparr>nonce_prefix = Some (prefix_of rnd st), nonce_counter = nonce_counter st + 1\<rparr>)"
  using assms by (auto simp: send_sealed_def seal_def next_nonce_def obind_def Let_def sealed_frame_def prefix_of_def split: option.splits)

lemma flag_set: "(w OR FLAG_ENCRYPTED) AND FLAG_ENCRYPTED \<noteq> 0"
proof -
  have "bit ((w OR FLAG_ENCRYPTED) AND FLAG_ENCRYPTED) 2" by (simp add: FLAG_ENCRYPTED_def bit_simps)
  then show ?thesis by (metis bit_0_eq bot_apply bot_bool_def)
qed

lemma counter_roundtrip:
  assumes "length p = 8" and "c \<le> NONCE_COUNTER_CAP"
  shows "sealed_counter (p @ to_le_bytes (ucast c :: u32) @ r) = c"
proof -
  have "unat c < 2 ^ 32" using assms(2) by (simp add: word_le_nat_alt NONCE_COUNTER_CAP_def)
  then have "unat (ucast (ucast c :: u32) :: u64) = unat c" by (simp add: unsigned_ucast_eq unsigned_take_bit_eq take_bit_nat_eq_self_iff)
  then show ?thesis using assms(1) by (simp add: sealed_counter_def sub_bytes_def word_unat_eq_iff)
qed

lemma receive_own:
  assumes A: "aead_laws A" and p: "length p = 8" and c: "c \<le> NONCE_COUNTER_CAP"
    and g: "guard_prefix g = None \<or> guard_prefix g = Some p \<and> guard_last g < c"
  shows "receive_sealed A key ch (sealed_frame A key p c ch f) g =
    (Inr (f\<lparr>frame_flags := frame_flags f OR FLAG_ENCRYPTED\<rparr>), \<lparr>guard_prefix = Some p, guard_last = c\<rparr>)"
  using g p A counter_roundtrip [OF p c] flag_set
  by (auto simp: receive_sealed_def obind_def guard_check_def Let_def sealed_frame_def open_sealed_def aead_laws_def)

lemma channel_in_order:
  assumes A: "aead_laws A" and "length (prefix_of rnd st) = 8" and "unat (nonce_counter st) + length xs \<le> 2 ^ 32"
    and "guard_prefix g = None \<or> guard_prefix g = Some (prefix_of rnd st) \<and> guard_last g < nonce_counter st"
  shows "\<exists>ys st' g'. send_all A rnd key xs st = (Inr ys, st') \<and>
    receive_all A key ch (map snd (filter (\<lambda>(c, _). c = ch) ys)) g =
      (Inr (map (\<lambda>(_, f). f\<lparr>frame_flags := frame_flags f OR FLAG_ENCRYPTED\<rparr>) (filter (\<lambda>(c, _). c = ch) xs)), g')"
  using assms(2-4)
proof (induction xs arbitrary: st g)
  case (Cons x xs)
  obtain c f where x: "x = (c, f)" by (cases x)
  define p where "p = prefix_of rnd st"
  have lt: "unat (nonce_counter st) < 2 ^ 32" using Cons.prems(2) by simp
  then have cap: "nonce_counter st \<le> NONCE_COUNTER_CAP" by (simp add: word_le_nat_alt NONCE_COUNTER_CAP_def)
  have inc: "unat (nonce_counter st + 1) = unat (nonce_counter st) + 1" using lt by (intro unat_add_lem [THEN iffD1, THEN trans]) simp_all
  define st1 where "st1 = \<lparr>nonce_prefix = Some p, nonce_counter = nonce_counter st + 1\<rparr>"
  define y where "y = sealed_frame A key p (nonce_counter st) c f"
  have s: "send_sealed A rnd key x st = (Inr (c, y), st1)" unfolding x p_def st1_def y_def by (rule send_sealed_eq [OF cap])
  have p1: "prefix_of rnd st1 = p" by (simp add: prefix_of_def st1_def)
  define g1 where "g1 = (if c = ch then \<lparr>guard_prefix = Some p, guard_last = nonce_counter st\<rparr> else g)"
  have g1: "guard_prefix g1 = None \<or> guard_prefix g1 = Some (prefix_of rnd st1) \<and> guard_last g1 < nonce_counter st1"
    using Cons.prems(3) inc unfolding p1 by (auto simp: g1_def st1_def p_def word_less_nat_alt)
  obtain ys st' g' where r: "send_all A rnd key xs st1 = (Inr ys, st')"
      "receive_all A key ch (map snd (filter (\<lambda>(c, _). c = ch) ys)) g1 =
        (Inr (map (\<lambda>(_, f). f\<lparr>frame_flags := frame_flags f OR FLAG_ENCRYPTED\<rparr>) (filter (\<lambda>(c, _). c = ch) xs)), g')"
    using Cons.IH [OF _ _ g1] Cons.prems(1,2) p1 inc unfolding p_def by (auto simp: st1_def)
  have own: "receive_sealed A key ch y g = (Inr (f\<lparr>frame_flags := frame_flags f OR FLAG_ENCRYPTED\<rparr>), g1)" if "c = ch"
    using receive_own [OF A _ cap, of p g key ch f] Cons.prems(1,3) that by (simp add: y_def g1_def p_def)
  show ?case
  proof (cases "c = ch")
    case True
    then show ?thesis using s r own x by (simp add: obind_def)
  next
    case False
    then show ?thesis using s r x by (simp add: obind_def g1_def)
  qed
qed simp

lemma own_frames:
  assumes "aead_laws A" and "length rnd = 8" and "nonce_prefix st = None" and "unat (nonce_counter st) + length xs \<le> 2 ^ 32"
    and "send_all A rnd key xs st = (Inr ys, st')"
  shows "\<exists>g. receive_all A key ch (map snd (filter (\<lambda>(c, _). c = ch) ys)) fresh_guard =
      (Inr (map (\<lambda>(_, f). f\<lparr>frame_flags := frame_flags f OR FLAG_ENCRYPTED\<rparr>) (filter (\<lambda>(c, _). c = ch) xs)), g) \<and>
    (\<forall>y \<in> set ys. \<forall>f. fst y = ch \<longrightarrow> take 12 (frame_payload f) = take 12 (frame_payload (snd y)) \<longrightarrow>
      (\<exists>e. receive_sealed A key ch f g = (Inl e, g)))"
proof -
  have "length (prefix_of rnd st) = 8" using assms(2,3) by (simp add: prefix_of_def)
  moreover have "guard_prefix fresh_guard = None \<or> guard_prefix fresh_guard = Some (prefix_of rnd st) \<and> guard_last fresh_guard < nonce_counter st"
    by (simp add: fresh_guard_def)
  ultimately obtain g where
    r: "receive_all A key ch (map snd (filter (\<lambda>(c, _). c = ch) ys)) fresh_guard =
      (Inr (map (\<lambda>(_, f). f\<lparr>frame_flags := frame_flags f OR FLAG_ENCRYPTED\<rparr>) (filter (\<lambda>(c, _). c = ch) xs)), g)"
    using channel_in_order [OF assms(1) _ assms(4), of rnd fresh_guard key ch] assms(5) by auto
  have "guarded g (snd y)" if "y \<in> set ys" "fst y = ch" for y
    using receive_all_guard [OF r] that by (cases y) auto
  then have "\<exists>e. receive_sealed A key ch f g = (Inl e, g)"
    if "y \<in> set ys" "fst y = ch" "take 12 (frame_payload f) = take 12 (frame_payload (snd y))" for y f
    using that by (intro replay_refused [of g "snd y"]) auto
  then show ?thesis using r by blast
qed

section \<open>What a process has sealed\<close>

primrec sealed_list :: "aead \<Rightarrow> bytes \<Rightarrow> bytes \<Rightarrow> u64 \<Rightarrow> (bytes \<times> frame) list \<Rightarrow> (bytes \<times> frame) list" where
  "sealed_list A key p c [] = []"
| "sealed_list A key p c (x # xs) = (fst x, sealed_frame A key p c (fst x) (snd x)) # sealed_list A key p (c + 1) xs"

lemma length_sealed_list [simp]: "length (sealed_list A key p c xs) = length xs"
  by (induction xs arbitrary: c) simp_all

lemma sealed_list_nth:
  "j < length xs \<Longrightarrow> sealed_list A key p c xs ! j =
     (fst (xs ! j), sealed_frame A key p (c + word_of_nat j) (fst (xs ! j)) (snd (xs ! j)))"
  by (induction xs arbitrary: c j) (auto simp: less_Suc_eq_0_disj ac_simps)

lemma send_all_sealed:
  assumes "unat (nonce_counter st) + length xs \<le> 2 ^ 32"
  shows "\<exists>st'. send_all A rnd key xs st = (Inr (sealed_list A key (prefix_of rnd st) (nonce_counter st) xs), st')"
  using assms
proof (induction xs arbitrary: st)
  case (Cons x xs)
  have lt: "unat (nonce_counter st) < 2 ^ 32" using Cons.prems by simp
  then have cap: "nonce_counter st \<le> NONCE_COUNTER_CAP" by (simp add: word_le_nat_alt NONCE_COUNTER_CAP_def)
  have inc: "unat (nonce_counter st + 1) = unat (nonce_counter st) + 1" using lt by (intro unat_add_lem [THEN iffD1, THEN trans]) simp_all
  define st1 where "st1 = \<lparr>nonce_prefix = Some (prefix_of rnd st), nonce_counter = nonce_counter st + 1\<rparr>"
  have p1: "prefix_of rnd st1 = prefix_of rnd st" by (simp add: prefix_of_def st1_def)
  obtain st' where "send_all A rnd key xs st1 = (Inr (sealed_list A key (prefix_of rnd st) (nonce_counter st + 1) xs), st')"
    using Cons.IH [of st1] Cons.prems inc unfolding p1 by (auto simp: st1_def)
  then show ?case using send_sealed_eq [OF cap, of A rnd key "fst x" "snd x"] by (simp add: obind_def st1_def)
qed simp

lemma counter_advance:
  assumes "unat (c :: u64) + j < 2 ^ 32"
  shows "unat (c + word_of_nat j) = unat c + j" and "c + word_of_nat j \<le> NONCE_COUNTER_CAP"
proof -
  have "unat (word_of_nat j :: u64) = j" using assms by (simp add: unat_of_nat take_bit_nat_eq_self)
  then show e: "unat (c + word_of_nat j) = unat c + j" using assms by (intro unat_add_lem [THEN iffD1, THEN trans]) simp_all
  show "c + word_of_nat j \<le> NONCE_COUNTER_CAP" using assms e by (simp add: word_le_nat_alt NONCE_COUNTER_CAP_def)
qed

section \<open>Frames an attacker delivers\<close>

text \<open>The connection loop takes frames in until the first one it refuses, which ends the connection.
  A frame that the authentication lockout skips never reaches the guard; it counts as not delivered.\<close>

primrec accepted :: "aead \<Rightarrow> bytes \<Rightarrow> bytes \<Rightarrow> frame list \<Rightarrow> replay_guard \<Rightarrow> frame list" where
  "accepted A key ch [] g = []"
| "accepted A key ch (f # fs) g =
     (case receive_sealed A key ch f g of (Inl _, _) \<Rightarrow> [] | (Inr p, g') \<Rightarrow> p # accepted A key ch fs g')"

text \<open>What the cipher is asked to authenticate when \<open>f\<close> is opened on the connection with challenge \<open>ch\<close>: nonce,
  associated data and ciphertext.\<close>

definition cipher_input :: "bytes \<Rightarrow> frame \<Rightarrow> bytes \<times> bytes \<times> bytes" where
  "cipher_input ch f = (take 12 (frame_payload f), aad (frame_type f) (frame_flags f) ch, drop 12 (frame_payload f))"

text \<open>The integrity of the ciphertexts of AES-GCM against somebody without the key, for the frames \<open>fs\<close> delivered on the
  connection: what decrypts was produced, with that nonce and that associated data, by one of the
  encryptions made under the key, those of \<open>S\<close>.\<close>

definition unforged :: "aead \<Rightarrow> bytes \<Rightarrow> (bytes \<times> frame) set \<Rightarrow> bytes \<Rightarrow> frame list \<Rightarrow> bool" where
  "unforged A key S ch fs \<longleftrightarrow>
     (\<forall>f \<in> set fs. case cipher_input ch f of (n, a, c) \<Rightarrow>
        gcm_decrypt A key n a c \<noteq> None \<longrightarrow> (n, a, c) \<in> (\<lambda>(ch', y). cipher_input ch' y) ` S)"

text \<open>The fields of a frame the seal protects; the topology version is not among them.\<close>

definition protected :: "frame \<Rightarrow> u16 \<times> u16 \<times> bytes" where
  "protected f = (frame_type f, frame_flags f, frame_payload f)"

definition sent_on :: "bytes \<Rightarrow> (bytes \<times> frame) list \<Rightarrow> (u16 \<times> u16 \<times> bytes) list" where
  "sent_on ch xs = map (\<lambda>(_, f). protected (f\<lparr>frame_flags := frame_flags f OR FLAG_ENCRYPTED\<rparr>)) (filter (\<lambda>(c, _). c = ch) xs)"

lemma to_le_u16_inj: "to_le_bytes (a :: u16) = to_le_bytes b \<Longrightarrow> a = b"
  by (metis from_to_le_bytes_sized(1))

lemma aad_inj: "aad ty fl ch = aad ty' fl' ch' \<longleftrightarrow> ty = ty' \<and> fl = fl' \<and> ch = ch'"
  by (auto simp: aad_def dest: to_le_u16_inj)

lemma cipher_input_sealed:
  assumes "length p = 8"
  shows "cipher_input c (sealed_frame A key p n c f) =
    (p @ to_le_bytes (ucast n :: u32), aad (frame_type f) (frame_flags f OR FLAG_ENCRYPTED) c,
     gcm_encrypt A key (p @ to_le_bytes (ucast n :: u32)) (aad (frame_type f) (frame_flags f OR FLAG_ENCRYPTED) c) (frame_payload f))"
  using assms by (simp add: cipher_input_def sealed_frame_def Let_def)

text \<open>A family of processes with the key, each with its own random nonce prefix; \<open>S\<close> holds what they have sealed.\<close>

lemma accepted_origin:
  fixes n :: nat
  assumes A: "aead_laws A" and len: "\<And>i. i \<le> n \<Longrightarrow> length (pre i) = 8"
    and cap: "\<And>i. i \<le> n \<Longrightarrow> unat (ctr i) + length (xs i) \<le> 2 ^ 32"
    and unf: "gcm_decrypt A key (take 12 (frame_payload f)) (aad (frame_type f) (frame_flags f) ch) (drop 12 (frame_payload f)) \<noteq> None \<Longrightarrow>
      cipher_input ch f \<in> (\<lambda>(ch', y). cipher_input ch' y) ` (\<Union>i \<le> n. set (sealed_list A key (pre i) (ctr i) (xs i)))"
    and acc: "receive_sealed A key ch f g = (Inr p, g')"
  obtains i j where "i \<le> n" and "j < length (xs i)" and "fst (xs i ! j) = ch"
    and "protected p = protected ((snd (xs i ! j))\<lparr>frame_flags := frame_flags (snd (xs i ! j)) OR FLAG_ENCRYPTED\<rparr>)"
    and "guard_prefix g' = Some (pre i)" and "unat (guard_last g') = unat (ctr i) + j"
    and "guard_prefix g = None \<or> guard_prefix g = Some (pre i) \<and> unat (guard_last g) < unat (ctr i) + j"
proof -
  obtain m where m: "gcm_decrypt A key (take 12 (frame_payload f)) (aad (frame_type f) (frame_flags f) ch) (drop 12 (frame_payload f)) = Some m"
      "p = f\<lparr>frame_payload := m\<rparr>" "guard_check (frame_payload f) g = (Inr (), g')"
    using acc by (auto simp: receive_sealed_def obind_def open_sealed_def result_simps split: if_splits prod.splits sum.splits option.splits)
  then obtain i c y where y: "i \<le> n" "(c, y) \<in> set (sealed_list A key (pre i) (ctr i) (xs i))" "cipher_input ch f = cipher_input c y"
    using unf by auto
  then obtain j where j: "j < length (xs i)" "c = fst (xs i ! j)" "y = sealed_frame A key (pre i) (ctr i + word_of_nat j) c (snd (xs i ! j))"
    using sealed_list_nth [of _ "xs i"] by (fastforce simp: in_set_conv_nth)
  define z where "z = snd (xs i ! j)"
  define nc where "nc = pre i @ to_le_bytes (ucast (ctr i + word_of_nat j) :: u32)"
  have eq: "take 12 (frame_payload f) = nc" "frame_type f = frame_type z" "frame_flags f = frame_flags z OR FLAG_ENCRYPTED" "ch = c"
      "drop 12 (frame_payload f) = gcm_encrypt A key nc (aad (frame_type z) (frame_flags z OR FLAG_ENCRYPTED) c) (frame_payload z)"
    using y(3) cipher_input_sealed [OF len [OF y(1)]] by (simp_all add: cipher_input_def [of ch f] j(3) aad_inj nc_def z_def)
  have "m = frame_payload z" using m(1) A eq by (simp add: aead_laws_def)
  then have pr: "protected p = protected (z\<lparr>frame_flags := frame_flags z OR FLAG_ENCRYPTED\<rparr>)"
    using m(2) eq by (simp add: protected_def)
  have jc: "unat (ctr i) + j < 2 ^ 32" using cap [OF y(1)] j(1) by simp
  have pl: "frame_payload f = pre i @ to_le_bytes (ucast (ctr i + word_of_nat j) :: u32) @ drop 12 (frame_payload f)"
    using eq(1) append_take_drop_id [of 12 "frame_payload f"] by (simp add: nc_def)
  have k: "sealed_counter (frame_payload f) = ctr i + word_of_nat j" "take 8 (frame_payload f) = pre i"
    using counter_roundtrip [OF len [OF y(1)] counter_advance(2) [OF jc]] len [OF y(1)] by (subst pl, simp)+
  have "guard_prefix g' = Some (pre i)" "guard_last g' = ctr i + word_of_nat j"
      "guard_prefix g = None \<or> guard_prefix g = Some (pre i) \<and> guard_last g < ctr i + word_of_nat j"
    using m(3) k by (auto simp: guard_check_def Let_def split: if_splits option.splits)
  then show thesis
    using that [OF y(1) j(1)] pr eq(4) j(2) counter_advance(1) [OF jc] by (simp add: z_def word_less_nat_alt)
qed

lemma sent_on_append: "sent_on ch (xs @ ys) = sent_on ch xs @ sent_on ch ys"
  by (simp add: sent_on_def)

lemma sent_on_Cons:
  "fst x = ch \<Longrightarrow> sent_on ch (x # xs) = protected ((snd x)\<lparr>frame_flags := frame_flags (snd x) OR FLAG_ENCRYPTED\<rparr>) # sent_on ch xs"
  by (auto simp: sent_on_def)

lemma subseq_later:
  assumes "j < length xs" and "k \<le> j" and "fst (xs ! j) = ch"
    and "subseq ps (sent_on ch (drop (Suc j) xs))"
  shows "subseq (protected ((snd (xs ! j))\<lparr>frame_flags := frame_flags (snd (xs ! j)) OR FLAG_ENCRYPTED\<rparr>) # ps) (sent_on ch (drop k xs))"
proof -
  have "drop k xs = take (j - k) (drop k xs) @ xs ! j # drop (Suc j) xs"
    using id_take_nth_drop [of "j - k" "drop k xs"] assms(1,2) by simp
  from arg_cong [OF this, of "sent_on ch"] have "sent_on ch (drop k xs) = sent_on ch (take (j - k) (drop k xs)) @
      protected ((snd (xs ! j))\<lparr>frame_flags := frame_flags (snd (xs ! j)) OR FLAG_ENCRYPTED\<rparr>) # sent_on ch (drop (Suc j) xs)"
    by (simp only: sent_on_append sent_on_Cons [OF assms(3)])
  then show ?thesis using assms(4) by (simp add: list_emb_append2 subseq_Cons2)
qed

text \<open>Once the guard holds a prefix, everything accepted was sealed by the process with that prefix, in order.\<close>

lemma accepted_subseq:
  fixes n :: nat
  assumes A: "aead_laws A" and len: "\<And>i. i \<le> n \<Longrightarrow> length (pre i) = 8" and inj: "inj_on pre {..n}"
    and cap: "\<And>i. i \<le> n \<Longrightarrow> unat (ctr i) + length (xs i) \<le> 2 ^ 32"
    and "unforged A key (\<Union>i \<le> n. set (sealed_list A key (pre i) (ctr i) (xs i))) ch fs"
    and "i \<le> n" and "guard_prefix g = Some (pre i)" and "unat (ctr i) + k \<le> Suc (unat (guard_last g))"
  shows "subseq (map protected (accepted A key ch fs g)) (sent_on ch (drop k (xs i)))"
  using assms(5,7,8)
proof (induction fs arbitrary: g k)
  case (Cons f fs)
  obtain r g' where r: "receive_sealed A key ch f g = (r, g')" by (cases "receive_sealed A key ch f g")
  show ?case
  proof (cases r)
    case (Inr p)
    have u: "cipher_input ch f \<in> (\<lambda>(ch', y). cipher_input ch' y) ` (\<Union>i \<le> n. set (sealed_list A key (pre i) (ctr i) (xs i)))"
      if "gcm_decrypt A key (take 12 (frame_payload f)) (aad (frame_type f) (frame_flags f) ch) (drop 12 (frame_payload f)) \<noteq> None"
      using Cons.prems(1) that by (simp add: unforged_def cipher_input_def)
    obtain i' j where o: "i' \<le> n" "j < length (xs i')" "fst (xs i' ! j) = ch"
        "protected p = protected ((snd (xs i' ! j))\<lparr>frame_flags := frame_flags (snd (xs i' ! j)) OR FLAG_ENCRYPTED\<rparr>)"
        "guard_prefix g' = Some (pre i')" "unat (guard_last g') = unat (ctr i') + j"
        "guard_prefix g = None \<or> guard_prefix g = Some (pre i') \<and> unat (guard_last g) < unat (ctr i') + j"
      using accepted_origin [OF A len cap u r [unfolded Inr]] by blast
    have i: "i' = i" using o(1,7) Cons.prems(2) assms(6) inj by (auto dest: inj_onD)
    have "subseq (map protected (accepted A key ch fs g')) (sent_on ch (drop (Suc j) (xs i)))"
      using Cons.IH [of g' "Suc j"] Cons.prems(1) o(5,6) i by (simp add: unforged_def)
    then show ?thesis using subseq_later [of j "xs i" k ch] o(2-4,7) Cons.prems(2,3) r Inr i by simp
  qed (simp add: r)
qed simp

lemma accepted_from_one:
  fixes n :: nat
  assumes A: "aead_laws A" and len: "\<And>i. i \<le> n \<Longrightarrow> length (pre i) = 8" and inj: "inj_on pre {..n}"
    and cap: "\<And>i. i \<le> n \<Longrightarrow> unat (ctr i) + length (xs i) \<le> 2 ^ 32"
    and unf: "unforged A key (\<Union>i \<le> n. set (sealed_list A key (pre i) (ctr i) (xs i))) ch fs"
  shows "\<exists>i \<le> n. subseq (map protected (accepted A key ch fs fresh_guard)) (sent_on ch (xs i))"
proof (cases "accepted A key ch fs fresh_guard")
  case Nil
  then show ?thesis by (intro exI [of _ n]) simp
next
  case (Cons p ps)
  then obtain f fs' g' where fs: "fs = f # fs'" and r: "receive_sealed A key ch f fresh_guard = (Inr p, g')" and ps: "ps = accepted A key ch fs' g'"
    by (cases fs) (auto split: prod.splits sum.splits)
  have u: "cipher_input ch f \<in> (\<lambda>(ch', y). cipher_input ch' y) ` (\<Union>i \<le> n. set (sealed_list A key (pre i) (ctr i) (xs i)))"
    if "gcm_decrypt A key (take 12 (frame_payload f)) (aad (frame_type f) (frame_flags f) ch) (drop 12 (frame_payload f)) \<noteq> None"
    using unf that by (simp add: unforged_def cipher_input_def fs)
  obtain i j where o: "i \<le> n" "j < length (xs i)" "fst (xs i ! j) = ch"
      "protected p = protected ((snd (xs i ! j))\<lparr>frame_flags := frame_flags (snd (xs i ! j)) OR FLAG_ENCRYPTED\<rparr>)"
      "guard_prefix g' = Some (pre i)" "unat (guard_last g') = unat (ctr i) + j"
    using accepted_origin [OF A len cap u r] by blast
  have "subseq (map protected ps) (sent_on ch (drop (Suc j) (xs i)))"
    using accepted_subseq [of A n pre ctr xs key ch fs' i g' "Suc j"] A len inj cap unf o(1,5,6) by (simp add: unforged_def fs ps)
  then show ?thesis using subseq_later [of j "xs i" 0 ch] o Cons by auto
qed

section \<open>The channel\<close>

text \<open>\<open>C26\<close>: a keyed connection takes in what one process sealed for it, in order, each frame at most once.
  Any number of processes with the key, each with its own random nonce prefix, seal frames for any number
  of connections, up to their nonce budgets: all get sealed. Let \<open>ch\<close> be the challenge of a connection.
  Whatever frames an attacker without the key delivers on it (frames of other connections, replays,
  reordered, cut out or altered ones), the frames accepted until the first refusal, which ends the
  connection, all come from one process and are, in type, flags and opened payload, a subsequence of what that
  process sealed for this connection. The frames of a process delivered as sent are all accepted, in order,
  and open to what was sent, and afterwards a frame with the nonce of one of them is refused, whatever its
  ciphertext is changed to.\<close>

theorem sealed_channel_exactly_once:
  fixes n :: nat
  assumes "aead_laws A" and "inj_on rnd {..n}"
    and "\<forall>i \<le> n. length (rnd i) = 8 \<and> nonce_prefix (st i) = None \<and> unat (nonce_counter (st i)) + length (xs i) \<le> 2 ^ 32"
  shows "\<exists>ys st'. (\<forall>i \<le> n. send_all A (rnd i) key (xs i) (st i) = (Inr (ys i), st' i)) \<and>
    (\<forall>fs. unforged A key (\<Union>i \<le> n. set (ys i)) ch fs \<longrightarrow>
      (\<exists>i \<le> n. subseq (map protected (accepted A key ch fs fresh_guard)) (sent_on ch (xs i)))) \<and>
    (\<forall>i \<le> n. \<exists>g. receive_all A key ch (map snd (filter (\<lambda>(c, _). c = ch) (ys i))) fresh_guard =
        (Inr (map (\<lambda>(_, f). f\<lparr>frame_flags := frame_flags f OR FLAG_ENCRYPTED\<rparr>) (filter (\<lambda>(c, _). c = ch) (xs i))), g) \<and>
      (\<forall>y \<in> set (ys i). \<forall>f. fst y = ch \<longrightarrow> take 12 (frame_payload f) = take 12 (frame_payload (snd y)) \<longrightarrow>
        (\<exists>e. receive_sealed A key ch f g = (Inl e, g))))"
proof -
  define ys where "ys = (\<lambda>i. sealed_list A key (rnd i) (nonce_counter (st i)) (xs i))"
  define st' where "st' = (\<lambda>i. snd (send_all A (rnd i) key (xs i) (st i)))"
  have s: "send_all A (rnd i) key (xs i) (st i) = (Inr (ys i), st' i)" if "i \<le> n" for i
    using send_all_sealed [of "st i" "xs i" A "rnd i" key] assms(3) that by (auto simp: ys_def st'_def prefix_of_def)
  moreover have "\<exists>i \<le> n. subseq (map protected (accepted A key ch fs fresh_guard)) (sent_on ch (xs i))"
    if "unforged A key (\<Union>i \<le> n. set (ys i)) ch fs" for fs
    using accepted_from_one [of A n rnd "\<lambda>i. nonce_counter (st i)" xs key ch fs] assms that by (simp add: ys_def)
  moreover have "\<exists>g. receive_all A key ch (map snd (filter (\<lambda>(c, _). c = ch) (ys i))) fresh_guard =
        (Inr (map (\<lambda>(_, f). f\<lparr>frame_flags := frame_flags f OR FLAG_ENCRYPTED\<rparr>) (filter (\<lambda>(c, _). c = ch) (xs i))), g) \<and>
      (\<forall>y \<in> set (ys i). \<forall>f. fst y = ch \<longrightarrow> take 12 (frame_payload f) = take 12 (frame_payload (snd y)) \<longrightarrow>
        (\<exists>e. receive_sealed A key ch f g = (Inl e, g)))" if "i \<le> n" for i
    using assms(3) that by (intro own_frames [OF assms(1) _ _ _ s [OF that]]) auto
  ultimately show ?thesis by (intro exI [of _ ys] exI [of _ st'] conjI allI impI)
qed

text \<open>A cipher whose tag shows the associated data and the nonce; two processes, two connections.\<close>

definition ex_tag :: "bytes \<Rightarrow> bytes \<Rightarrow> bytes" where
  "ex_tag nc a = take 16 (a @ nc @ replicate 16 0)"

definition ex_aead :: aead where
  "ex_aead = \<lparr>gcm_encrypt = (\<lambda>k nc a m. m @ ex_tag nc a),
     gcm_decrypt = (\<lambda>k nc a c. if drop (length c - 16) c = ex_tag nc a then Some (take (length c - 16) c) else None)\<rparr>"

lemma length_ex_tag [simp]: "length (ex_tag nc a) = 16"
  by (simp add: ex_tag_def)

lemma ex_aead_laws: "aead_laws ex_aead"
  by (simp add: aead_laws_def ex_aead_def)

definition ex_rnd :: "nat \<Rightarrow> bytes" where
  "ex_rnd i = replicate 8 (word_of_nat i)"

definition ex_sent :: "nat \<Rightarrow> (bytes \<times> frame) list" where
  "ex_sent i = (if i = 0 then [([1], new_frame REQ_PING [7]), ([2], new_frame REQ_AUTH []), ([1], new_frame REQ_PING [])]
     else [([1], new_frame REQ_AUTH [5])])"

definition ex_sealer :: sealer where
  "ex_sealer = \<lparr>nonce_prefix = None, nonce_counter = 1\<rparr>"

text \<open>A delivery on connection 1: its second ping, then the frame of connection 2.\<close>

definition ex_delivered :: "frame list" where
  "ex_delivered = map (\<lambda>j. snd (sealed_list ex_aead [9] (ex_rnd 0) 1 (ex_sent 0) ! j)) [2, 1]"

lemma ex_ys: "send_all ex_aead (ex_rnd i) [9] (ex_sent i) ex_sealer = (Inr ys, st') \<Longrightarrow> ys = sealed_list ex_aead [9] (ex_rnd i) 1 (ex_sent i)"
  using send_all_sealed [of ex_sealer "ex_sent i" ex_aead "ex_rnd i" "[9]"] by (auto simp: ex_sealer_def ex_sent_def prefix_of_def)

lemma ex_unforged:
  assumes "set (sealed_list ex_aead [9] (ex_rnd 0) 1 (ex_sent 0)) \<subseteq> S"
  shows "unforged ex_aead [9] S [1] ex_delivered"
proof -
  let ?y = "\<lambda>j. snd (sealed_list ex_aead [9] (ex_rnd 0) 1 (ex_sent 0) ! j)"
  have "([1], ?y 2) \<in> set (sealed_list ex_aead [9] (ex_rnd 0) 1 (ex_sent 0))"
    by (simp add: ex_sent_def numeral_2_eq_2)
  moreover have "gcm_decrypt ex_aead [9] (take 12 (frame_payload (?y 1))) (aad (frame_type (?y 1)) (frame_flags (?y 1)) [1]) (drop 12 (frame_payload (?y 1))) = None"
    by (simp add: ex_sent_def sealed_frame_def Let_def ex_aead_def ex_rnd_def ex_tag_def aad_def new_frame_def)
  ultimately show ?thesis using assms by (force simp: unforged_def ex_delivered_def cipher_input_def)
qed

lemma ex_accepted: "accepted ex_aead [9] [1] ex_delivered fresh_guard = [(new_frame REQ_PING [])\<lparr>frame_flags := FLAG_ENCRYPTED\<rparr>]"
proof -
  have "receive_sealed ex_aead [9] [1] (sealed_frame ex_aead [9] (ex_rnd 0) 3 [1] (new_frame REQ_PING [])) fresh_guard =
      (Inr ((new_frame REQ_PING [])\<lparr>frame_flags := FLAG_ENCRYPTED\<rparr>), \<lparr>guard_prefix = Some (ex_rnd 0), guard_last = 3\<rparr>)"
    using receive_own [OF ex_aead_laws, of "ex_rnd 0" 3 fresh_guard "[9]" "[1]" "new_frame REQ_PING []"]
    by (simp add: ex_rnd_def fresh_guard_def NONCE_COUNTER_CAP_def new_frame_def)
  moreover have "\<exists>e. receive_sealed ex_aead [9] [1] (sealed_frame ex_aead [9] (ex_rnd 0) 2 [2] (new_frame REQ_AUTH []))
      \<lparr>guard_prefix = Some (ex_rnd 0), guard_last = 3\<rparr> = (Inl e, \<lparr>guard_prefix = Some (ex_rnd 0), guard_last = 3\<rparr>)"
    using counter_roundtrip [of "ex_rnd 0" 2] flag_set
    by (simp add: receive_sealed_def obind_def guard_check_def Let_def sealed_frame_def ex_rnd_def NONCE_COUNTER_CAP_def)
  ultimately show ?thesis by (auto simp: ex_delivered_def sealed_list_nth ex_sent_def)
qed

theorem sealed_channel_exactly_once_witness:
  "accepted ex_aead [9] [1] ex_delivered fresh_guard \<noteq> [] \<and>
   (\<exists>i \<le> 1. subseq (map protected (accepted ex_aead [9] [1] ex_delivered fresh_guard)) (sent_on [1] (ex_sent i)))"
proof -
  have i: "inj_on ex_rnd {..1}" by (auto simp: inj_on_def ex_rnd_def le_Suc_eq)
  have l: "\<forall>i \<le> 1. length (ex_rnd i) = 8 \<and> nonce_prefix ex_sealer = None \<and> unat (nonce_counter ex_sealer) + length (ex_sent i) \<le> 2 ^ 32"
    by (simp add: ex_rnd_def ex_sealer_def ex_sent_def)
  from sealed_channel_exactly_once [of ex_aead ex_rnd 1 "\<lambda>_. ex_sealer" ex_sent "[9]" "[1]", OF ex_aead_laws i l] show ?thesis
  proof (elim exE conjE)
    fix ys st'
    assume y: "\<forall>i \<le> 1. send_all ex_aead (ex_rnd i) [9] (ex_sent i) ex_sealer = (Inr (ys i), st' i)"
      and u: "\<forall>fs. unforged ex_aead [9] (\<Union>i \<le> 1. set (ys i)) [1] fs \<longrightarrow>
        (\<exists>i \<le> 1. subseq (map protected (accepted ex_aead [9] [1] fs fresh_guard)) (sent_on [1] (ex_sent i)))"
    have "ys 0 = sealed_list ex_aead [9] (ex_rnd 0) 1 (ex_sent 0)" using ex_ys [of 0 "ys 0" "st' 0"] y by simp
    then have "unforged ex_aead [9] (\<Union>i \<le> 1. set (ys i)) [1] ex_delivered" by (intro ex_unforged) auto
    moreover have "accepted ex_aead [9] [1] ex_delivered fresh_guard \<noteq> []" by (simp add: ex_accepted)
    ultimately show ?thesis using u by blast
  qed
qed

end
