(* ===== verification/Quorum.thy ===== *)
theory Quorum
  imports Proto "HOL-Library.AList"
begin

text \<open>
  The majority-visibility write fence and role supervision of \<open>docsql-server/src/quorum.rs\<close>, with the
  write gate of \<open>lib.rs\<close> and the PROMOTE request of \<open>conn.rs\<close>. One cycle of the probe loop is a function
  of the outcomes of its probes; the node's state is the part of \<open>ServerState\<close> these functions read and
  write. Hash maps are association lists whose order stands for the unspecified iteration order. Three
  things outside the sources are parameters: the JSON of a status payload as \<open>serde_json\<close> reads it, and the
  position the engine reports for an origin. Log lines on stderr are left out.
\<close>

type_synonym addr = string

section \<open>Members and their views\<close>

record member_view =
  mv_epoch :: u64
  mv_read_only :: bool
  mv_forwarding :: bool
  journal_head :: "u64 option"
  node_id :: "string option"

definition is_active_primary :: "member_view \<Rightarrow> bool" where
  "is_active_primary v \<longleftrightarrow> \<not> mv_read_only v \<and> \<not> mv_forwarding v"

record quorum =
  members :: "addr list"
  q_k :: nat
  misses :: "(addr \<times> nat) list"
  views :: "(addr \<times> member_view) list"
  fenced :: bool
  probe_failure_cycles :: u64

definition new_quorum :: "addr list \<Rightarrow> nat \<Rightarrow> quorum" where
  "new_quorum ms k =
     \<lparr>members = ms, q_k = max k 1, misses = [], views = [], fenced = False, probe_failure_cycles = 0\<rparr>"

definition misses_of :: "quorum \<Rightarrow> addr \<Rightarrow> nat" where
  "misses_of q m = (case map_of (misses q) m of Some n \<Rightarrow> n | None \<Rightarrow> 0)"

definition is_lost :: "quorum \<Rightarrow> addr \<Rightarrow> bool" where
  "is_lost q m \<longleftrightarrow> q_k q \<le> misses_of q m"

definition view_of :: "quorum \<Rightarrow> addr \<Rightarrow> member_view option" where
  "view_of q m = map_of (views q) m"

definition last_seen_head :: "quorum \<Rightarrow> addr \<Rightarrow> u64 option" where
  "last_seen_head q m = (case view_of q m of Some v \<Rightarrow> journal_head v | None \<Rightarrow> None)"

definition record_view :: "addr \<Rightarrow> member_view \<Rightarrow> quorum \<Rightarrow> quorum" where
  "record_view m v q = q\<lparr>views := AList.update m v (views q)\<rparr>"

definition member_views :: "quorum \<Rightarrow> (addr \<times> member_view) list" where
  "member_views q = views q"

definition member_count :: "quorum \<Rightarrow> nat" where
  "member_count q = length (members q) + 1"

definition visible :: "quorum \<Rightarrow> nat" where
  "visible q = 1 + length (filter (\<lambda>m. misses_of q m < q_k q) (members q))"

definition has_majority :: "quorum \<Rightarrow> bool" where
  "has_majority q \<longleftrightarrow> member_count q < visible q * 2"

definition set_fenced :: "bool \<Rightarrow> quorum \<Rightarrow> bool \<times> quorum" where
  "set_fenced b q = (fenced q, q\<lparr>fenced := b\<rparr>)"

definition record_probe :: "addr \<Rightarrow> bool \<Rightarrow> quorum \<Rightarrow> quorum" where
  "record_probe m ok q =
     (if ok then q\<lparr>misses := AList.delete m (misses q)\<rparr>
      else q\<lparr>misses := AList.update m (misses_of q m + 1) (misses q)\<rparr>)"

definition lost_members :: "quorum \<Rightarrow> addr list" where
  "lost_members q = filter (\<lambda>m. q_k q \<le> misses_of q m) (members q)"

section \<open>The node\<close>

text \<open>An entry of the sync log (\<open>SyncLog\<close>, a ring of bounded capacity): event, target, \<open>ok\<close>. The time stamp and the
  detail text of an entry are written for operators and never read by the code, so they are left out.\<close>

type_synonym sync_event = "string \<times> addr \<times> bool"

record server_node =
  arbiter :: bool
  auto_promote :: bool
  primary_addr :: "addr option"
  catchup_window :: u64
  read_only :: bool
  replicate_to :: "addr option"
  primary_epoch :: u64
  auto_promote_frozen :: bool
  promote_lag_warned :: bool
  node_quorum :: "quorum option"
  quorum_probe_failures_total :: u64
  quorum_visible :: u64
  writes_fenced_total :: u64
  sync_log :: "sync_event list"
  sync_capacity :: nat

definition push_event :: "sync_event \<Rightarrow> server_node \<Rightarrow> server_node" where
  "push_event e n = n\<lparr>sync_log := (if length (sync_log n) = sync_capacity n then tl (sync_log n) else sync_log n) @ [e]\<rparr>"

section \<open>Probing\<close>

text \<open>The fields of a status payload that are read, as \<open>serde_json\<close> gives them.\<close>

record status_json =
  js_epoch :: "u64 option"
  js_read_only :: "bool option"
  js_replicate_to_is_string :: bool
  js_journal_head :: "u64 option"
  js_cluster_id :: "string option"

definition parse_member_view :: "(bytes \<Rightarrow> status_json option) \<Rightarrow> frame \<Rightarrow> member_view option" where
  "parse_member_view parse f =
     (if frame_type f \<noteq> RESP_STATUS then None
      else
        (case parse (frame_payload f) of
           None \<Rightarrow> None
         | Some v \<Rightarrow>
             Some \<lparr>mv_epoch = (case js_epoch v of Some e \<Rightarrow> e | None \<Rightarrow> 0), mv_read_only = (js_read_only v = Some True),
                   mv_forwarding = js_replicate_to_is_string v, journal_head = js_journal_head v, node_id = js_cluster_id v\<rparr>))"

text \<open>A probe is answered with a frame, fails (timeout or I/O error), or its task dies.\<close>

datatype probe_outcome = Answered frame | Failed | TaskDied

definition probed :: "(bytes \<Rightarrow> status_json option) \<Rightarrow> addr \<times> probe_outcome \<Rightarrow> bool \<times> quorum \<Rightarrow> bool \<times> quorum" where
  "probed parse x s =
     (case x of (m, out) \<Rightarrow> (case s of (any_failed, q) \<Rightarrow>
        (case out of
           Answered f \<Rightarrow>
             (let q = record_probe m True q
              in (any_failed, case parse_member_view parse f of Some v \<Rightarrow> record_view m v q | None \<Rightarrow> q))
         | Failed \<Rightarrow> (True, record_probe m False q)
         | TaskDied \<Rightarrow> (True, record_probe m False q))))"

text \<open>The part of a cycle before supervision: \<open>outs\<close> has one outcome per member.\<close>

definition probe_cycle :: "(bytes \<Rightarrow> status_json option) \<Rightarrow> (addr \<Rightarrow> probe_outcome) \<Rightarrow> quorum \<Rightarrow> server_node \<Rightarrow> server_node" where
  "probe_cycle parse outs q n =
     (case fold (probed parse) (map (\<lambda>m. (m, outs m)) (members q)) (False, q) of
        (any_failed, q) \<Rightarrow>
          (let q = (if any_failed then q\<lparr>probe_failure_cycles := probe_failure_cycles q + 1\<rparr> else q);
               n = (if any_failed then n\<lparr>quorum_probe_failures_total := quorum_probe_failures_total n + 1\<rparr> else n);
               n = n\<lparr>quorum_visible := word_of_nat (visible q)\<rparr>;
               majority = has_majority q
           in (case set_fenced (\<not> majority) q of (prev, q) \<Rightarrow>
                 (let n = n\<lparr>node_quorum := Some q\<rparr>
                  in if prev \<noteq> (\<not> majority) then push_event (''quorum'', [], majority) n else n))))"

section \<open>Supervision\<close>

definition saturating_sub :: "u64 \<Rightarrow> u64 \<Rightarrow> u64" where
  "saturating_sub a b = (if a \<le> b then 0 else a - b)"

text \<open>\<open>applied\<close> is the position the engine has applied for an origin.\<close>

definition lag_ok :: "(string \<Rightarrow> u64 option) \<Rightarrow> u64 \<Rightarrow> member_view option \<Rightarrow> bool" where
  "lag_ok applied window v =
     (case (case v of Some v \<Rightarrow> journal_head v | None \<Rightarrow> None) of
        None \<Rightarrow> False
      | Some ph \<Rightarrow>
          (case (case v of Some v \<Rightarrow> node_id v | None \<Rightarrow> None) of
             None \<Rightarrow> False
           | Some origin \<Rightarrow>
               window = 0 \<or>
               saturating_sub ph (case applied origin of Some a \<Rightarrow> a | None \<Rightarrow> 0) \<le> window))"

definition promote :: "addr \<Rightarrow> server_node \<Rightarrow> server_node" where
  "promote primary n =
     push_event (''promote'', primary, True)
       (n\<lparr>read_only := False, replicate_to := None, primary_epoch := primary_epoch n + 1\<rparr>)"

definition supervise_promote :: "(string \<Rightarrow> u64 option) \<Rightarrow> quorum \<Rightarrow> server_node \<Rightarrow> server_node" where
  "supervise_promote applied q n =
     (case primary_addr n of
        None \<Rightarrow> n
      | Some primary \<Rightarrow>
          if is_lost q primary \<and> has_majority q then
            (if lag_ok applied (catchup_window n) (view_of q primary) then promote primary n
             else if promote_lag_warned n then n
             else push_event (''promote'', primary, False) (n\<lparr>promote_lag_warned := True\<rparr>))
          else if last_seen_head q primary \<noteq> None then n\<lparr>promote_lag_warned := False\<rparr>
          else n)"

text \<open>The loop over the views: the first with the highest epoch above ours.\<close>

definition better :: "u64 \<Rightarrow> addr \<times> member_view \<Rightarrow> (addr \<times> u64) option \<Rightarrow> (addr \<times> u64) option" where
  "better self_epoch x best =
     (case x of (a, v) \<Rightarrow>
        if is_active_primary v \<and> self_epoch < mv_epoch v \<and> (case best of None \<Rightarrow> True | Some (_, e) \<Rightarrow> e < mv_epoch v)
        then Some (a, mv_epoch v) else best)"

definition best_primary :: "u64 \<Rightarrow> (addr \<times> member_view) list \<Rightarrow> (addr \<times> u64) option" where
  "best_primary self_epoch vs = fold (better self_epoch) vs None"

definition demote :: "addr \<Rightarrow> server_node \<Rightarrow> server_node" where
  "demote winner n =
     push_event (''demote'', winner, True)
       (n\<lparr>read_only := True, replicate_to := Some winner, auto_promote_frozen := True\<rparr>)"

definition supervise :: "(string \<Rightarrow> u64 option) \<Rightarrow> quorum \<Rightarrow> server_node \<Rightarrow> server_node" where
  "supervise applied q n =
     (if arbiter n then n
      else if auto_promote n \<and> read_only n \<and> \<not> auto_promote_frozen n then supervise_promote applied q n
      else if \<not> read_only n \<and> replicate_to n = None then
        (case best_primary (primary_epoch n) (member_views q) of
           Some (winner, _) \<Rightarrow> demote winner n
         | None \<Rightarrow> n)
      else n)"

text \<open>One turn of the loop of \<open>quorum_task\<close>.\<close>

definition quorum_cycle ::
    "(bytes \<Rightarrow> status_json option) \<Rightarrow> (string \<Rightarrow> u64 option) \<Rightarrow> (addr \<Rightarrow> probe_outcome) \<Rightarrow> server_node \<Rightarrow> server_node" where
  "quorum_cycle parse applied outs n =
     (case node_quorum n of
        None \<Rightarrow> n
      | Some q \<Rightarrow>
          (let n = probe_cycle parse outs q n
           in (case node_quorum n of Some q \<Rightarrow> supervise applied q n | None \<Rightarrow> n)))"

section \<open>The write gate and PROMOTE\<close>

text \<open>A refusal carries the numbers of its message.\<close>

definition quorum_write_denial :: "server_node \<Rightarrow> (nat \<times> nat) option \<times> server_node" where
  "quorum_write_denial n =
     (case node_quorum n of
        None \<Rightarrow> (None, n)
      | Some q \<Rightarrow>
          if \<not> fenced q then (None, n)
          else (Some (visible q, member_count q), n\<lparr>writes_fenced_total := writes_fenced_total n + 1\<rparr>))"

datatype promote_reply = Promoted | NeedsAdmin | QuorumLost nat nat

text \<open>\<open>plain_user\<close>: the session belongs to a user without the admin role.\<close>

definition handle_promote :: "bool \<Rightarrow> server_node \<Rightarrow> promote_reply \<times> server_node" where
  "handle_promote plain_user n =
     (if plain_user then (NeedsAdmin, n)
      else
        (case quorum_write_denial n of
           (Some (v, c), n) \<Rightarrow> (QuorumLost v c, n)
         | (None, n) \<Rightarrow>
             (Promoted,
              push_event (''promote'', [], True)
                (n\<lparr>read_only := False, replicate_to := None, primary_epoch := primary_epoch n + 1, auto_promote_frozen := False\<rparr>))))"

end
