(* ===== verification/Quorum_Props.thy ===== *)
theory Quorum_Props
  imports Quorum
begin

text \<open>
  What the probe loop computes: after any history of cycles a member counts as lost exactly when its last
  \<open>k\<close> probes failed, and the fence is up exactly when the members that are not lost, with the node itself,
  are no majority.
\<close>

section \<open>One cycle\<close>

definition answered :: "(addr \<Rightarrow> probe_outcome) \<Rightarrow> addr \<Rightarrow> bool" where
  "answered outs m \<longleftrightarrow> (\<exists>f. outs m = Answered f)"

lemma misses_of_probe: "misses_of (record_probe m ok q) m' = (if m' = m then if ok then 0 else misses_of q m + 1 else misses_of q m')"
  by (auto simp: record_probe_def misses_of_def update_conv' delete_conv')

lemma misses_of_view [simp]: "misses_of (record_view m v q) = misses_of q"
  by (simp add: fun_eq_iff record_view_def misses_of_def)

lemma probed_fields:
  "members (snd (probed parse x s)) = members (snd s)" "q_k (snd (probed parse x s)) = q_k (snd s)"
  "fenced (snd (probed parse x s)) = fenced (snd s)"
  by (auto simp: probed_def Let_def record_probe_def record_view_def split: prod.splits probe_outcome.splits option.splits)

lemma probed_misses:
  "misses_of (snd (probed parse (m, outs m) s)) m' = (if m' = m then if answered outs m then 0 else misses_of (snd s) m + 1 else misses_of (snd s) m')"
  by (auto simp: probed_def Let_def answered_def misses_of_probe split: prod.splits probe_outcome.splits option.splits)

lemma fold_probed:
  assumes "distinct ms"
  shows "members (snd (fold (probed parse) (map (\<lambda>m. (m, outs m)) ms) s)) = members (snd s)"
    and "q_k (snd (fold (probed parse) (map (\<lambda>m. (m, outs m)) ms) s)) = q_k (snd s)"
    and "misses_of (snd (fold (probed parse) (map (\<lambda>m. (m, outs m)) ms) s)) m =
      (if m \<in> set ms then if answered outs m then 0 else misses_of (snd s) m + 1 else misses_of (snd s) m)"
  using assms by (induction ms arbitrary: s) (auto simp: probed_fields probed_misses)

lemma supervise_quorum: "node_quorum (supervise applied q n) = node_quorum n"
  by (auto simp: supervise_def supervise_promote_def promote_def demote_def push_event_def split: option.splits)

lemma has_majority_upd [simp]:
  "has_majority (q\<lparr>fenced := b\<rparr>) = has_majority q" "has_majority (q\<lparr>probe_failure_cycles := c\<rparr>) = has_majority q"
  by (simp_all add: has_majority_def visible_def member_count_def misses_of_def)

definition same_members :: "quorum \<Rightarrow> quorum \<Rightarrow> bool" where
  "same_members q q' \<longleftrightarrow> members q' = members q \<and> q_k q' = q_k q"

lemma cycle_quorum:
  assumes q: "node_quorum n = Some q" and d: "distinct (members q)"
  obtains q' where "node_quorum (quorum_cycle parse applied outs n) = Some q'" and "same_members q q'"
    and "\<And>m. m \<in> set (members q) \<Longrightarrow> misses_of q' m = (if answered outs m then 0 else misses_of q m + 1)"
    and "fenced q' \<longleftrightarrow> \<not> has_majority q'"
proof -
  define q1 where "q1 = snd (fold (probed parse) (map (\<lambda>m. (m, outs m)) (members q)) (False, q))"
  define q' where "q' = (if fst (fold (probed parse) (map (\<lambda>m. (m, outs m)) (members q)) (False, q))
      then q1\<lparr>probe_failure_cycles := probe_failure_cycles q1 + 1\<rparr> else q1)\<lparr>fenced := \<not> has_majority q1\<rparr>"
  have f: "members q1 = members q" "q_k q1 = q_k q" "\<And>m. misses_of q1 m = (if m \<in> set (members q) then if answered outs m then 0 else misses_of q m + 1 else misses_of q m)"
    using fold_probed [OF d, of parse outs "(False, q)"] by (simp_all add: q1_def)
  have "node_quorum (probe_cycle parse outs q n) = Some q'"
    by (auto simp: probe_cycle_def q'_def q1_def set_fenced_def Let_def push_event_def split: prod.splits)
  then have "node_quorum (quorum_cycle parse applied outs n) = Some q'"
    using q by (simp add: quorum_cycle_def Let_def supervise_quorum)
  moreover have "same_members q q'" using f by (simp add: same_members_def q'_def)
  moreover have "misses_of q' m = misses_of q1 m" for m by (simp add: q'_def misses_of_def)
  moreover have "fenced q' \<longleftrightarrow> \<not> has_majority q'" by (simp add: q'_def)
  ultimately show thesis using that f(3) by simp
qed

section \<open>Histories\<close>

text \<open>What happens at one node: probe cycles, PROMOTE requests, writes asking the gate.\<close>

datatype node_event =
    Cycle "string \<Rightarrow> u64 option" "addr \<Rightarrow> probe_outcome"
  | PromoteRequest bool
  | WriteAttempt

fun node_step :: "(bytes \<Rightarrow> status_json option) \<Rightarrow> node_event \<Rightarrow> server_node \<Rightarrow> server_node" where
  "node_step parse (Cycle applied outs) n = quorum_cycle parse applied outs n"
| "node_step parse (PromoteRequest u) n = snd (handle_promote u n)"
| "node_step parse WriteAttempt n = snd (quorum_write_denial n)"

definition run :: "(bytes \<Rightarrow> status_json option) \<Rightarrow> node_event list \<Rightarrow> server_node \<Rightarrow> server_node" where
  "run parse es n = fold (node_step parse) es n"

fun cycle_outs :: "node_event list \<Rightarrow> (addr \<Rightarrow> probe_outcome) list" where
  "cycle_outs [] = []"
| "cycle_outs (Cycle _ outs # es) = outs # cycle_outs es"
| "cycle_outs (_ # es) = cycle_outs es"

text \<open>The number of probes of a member that have failed since the last one that was answered.\<close>

definition streak :: "(addr \<Rightarrow> probe_outcome) list \<Rightarrow> addr \<Rightarrow> nat" where
  "streak cs m = length (takeWhile (\<lambda>outs. \<not> answered outs m) (rev cs))"

lemma streak_simps [simp]: "streak [] m = 0" "streak (cs @ [outs]) m = (if answered outs m then 0 else streak cs m + 1)"
  by (simp_all add: streak_def)

lemma cycle_outs_append [simp]: "cycle_outs (es @ es') = cycle_outs es @ cycle_outs es'"
  by (induction es rule: cycle_outs.induct) auto

lemma denial_quorum: "node_quorum (snd (quorum_write_denial n)) = node_quorum n"
  by (auto simp: quorum_write_denial_def split: option.splits)

lemma promote_quorum: "node_quorum (snd (handle_promote u n)) = node_quorum n"
  using denial_quorum [of n] by (auto simp: handle_promote_def push_event_def split: prod.splits option.splits)

lemma run_quorum:
  assumes "node_quorum n = Some (new_quorum ms k)" and "distinct ms"
  shows "\<exists>q. node_quorum (run parse es n) = Some q \<and> members q = ms \<and> q_k q = max k 1 \<and>
    (\<forall>m \<in> set ms. misses_of q m = streak (cycle_outs es) m) \<and> (cycle_outs es \<noteq> [] \<longrightarrow> fenced q = (\<not> has_majority q))"
proof (induction es rule: rev_induct)
  case Nil
  then show ?case using assms by (simp add: run_def new_quorum_def misses_of_def)
next
  case (snoc e es)
  then obtain q where q: "node_quorum (run parse es n) = Some q" "members q = ms" "q_k q = max k 1"
      "\<And>m. m \<in> set ms \<Longrightarrow> misses_of q m = streak (cycle_outs es) m" "cycle_outs es \<noteq> [] \<Longrightarrow> fenced q = (\<not> has_majority q)"
    by blast
  have step: "run parse (es @ [e]) n = node_step parse e (run parse es n)" by (simp add: run_def)
  show ?case
  proof (cases e)
    case (Cycle applied outs)
    obtain q' where q': "node_quorum (quorum_cycle parse applied outs (run parse es n)) = Some q'" "same_members q q'"
        "\<And>m. m \<in> set (members q) \<Longrightarrow> misses_of q' m = (if answered outs m then 0 else misses_of q m + 1)" "fenced q' \<longleftrightarrow> \<not> has_majority q'"
      using cycle_quorum [OF q(1), of parse applied outs] q(2) assms(2) by blast
    then show ?thesis using Cycle step q by (auto simp: same_members_def)
  qed (use step q in \<open>auto simp: denial_quorum promote_quorum\<close>)
qed

end
