(* ===== verification/Quorum_Properties.thy ===== *)
theory Quorum_Properties
  imports Quorum_Props
begin

text \<open>
  The properties of the write fence and of automatic failover, over arbitrary histories of probe cycles,
  PROMOTE requests and write attempts at a node.
\<close>

section \<open>The fence\<close>

lemma visible_streak:
  assumes "node_quorum n = Some (new_quorum ms k)" and "distinct ms" and "cycle_outs es \<noteq> []"
  obtains q where "node_quorum (run parse es n) = Some q" and "member_count q = length ms + 1"
    and "visible q = 1 + length (filter (\<lambda>m. streak (cycle_outs es) m < max k 1) ms)" and "fenced q = (\<not> has_majority q)"
proof -
  obtain q where q: "node_quorum (run parse es n) = Some q" "members q = ms" "q_k q = max k 1"
      "\<forall>m \<in> set ms. misses_of q m = streak (cycle_outs es) m" "fenced q = (\<not> has_majority q)"
    using run_quorum [OF assms(1,2), of parse es] assms(3) by blast
  moreover have "visible q = 1 + length (filter (\<lambda>m. streak (cycle_outs es) m < max k 1) ms)"
    using q by (simp add: visible_def cong: filter_cong)
  ultimately show thesis using that by (simp add: member_count_def)
qed

lemma gate_streak:
  assumes "node_quorum n = Some (new_quorum ms k)" and "distinct ms" and "cycle_outs es \<noteq> []"
  shows "fst (quorum_write_denial (run parse es n)) \<noteq> None \<longleftrightarrow>
    2 * (1 + length (filter (\<lambda>m. streak (cycle_outs es) m < max k 1) ms)) \<le> length ms + 1"
proof -
  obtain q where q: "node_quorum (run parse es n) = Some q" "member_count q = length ms + 1"
      "visible q = 1 + length (filter (\<lambda>m. streak (cycle_outs es) m < max k 1) ms)" "fenced q = (\<not> has_majority q)"
    by (rule visible_streak [OF assms])
  then show ?thesis by (simp add: quorum_write_denial_def has_majority_def not_less)
qed

text \<open>\<open>C27\<close>: the write fence follows the visible majority. After any history at a node with at least one probe
  cycle, writes and promotions are refused exactly when the node together with the members that have
  not missed their last \<open>k\<close> probes (one probed fewer than \<open>k\<close> times counts as visible) is no strict majority of the cluster: a member is lost only after
  \<open>k\<close> missed cycles in a row, a single answer heals it, and the first cycle with a majority lifts the fence.\<close>

theorem fence_follows_visible_majority:
  assumes "node_quorum n = Some (new_quorum ms k)" and "distinct ms" and "cycle_outs es \<noteq> []"
  shows "fst (quorum_write_denial (run parse es n)) \<noteq> None \<longleftrightarrow>
    2 * (1 + length (filter (\<lambda>m. streak (cycle_outs es) m < max k 1) ms)) \<le> length ms + 1"
  by (rule gate_streak [OF assms])

text \<open>A cluster of five: two members have missed three cycles, one just two of them.\<close>

definition ex_outs :: "addr list \<Rightarrow> addr \<Rightarrow> probe_outcome" where
  "ex_outs up m = (if m \<in> set up then Answered (new_frame RESP_STATUS []) else Failed)"

definition ex_node :: "addr list \<Rightarrow> nat \<Rightarrow> server_node" where
  "ex_node ms k =
     \<lparr>arbiter = False, auto_promote = False, primary_addr = None, catchup_window = 0, read_only = False, replicate_to = None,
      primary_epoch = 0, auto_promote_frozen = False, promote_lag_warned = False, node_quorum = Some (new_quorum ms k),
      quorum_probe_failures_total = 0, quorum_visible = 0, writes_fenced_total = 0, sync_log = [], sync_capacity = 1000\<rparr>"

definition ex_history :: "node_event list" where
  "ex_history =
     [Cycle (\<lambda>_. None) (ex_outs [''b'']), Cycle (\<lambda>_. None) (ex_outs []), WriteAttempt, Cycle (\<lambda>_. None) (ex_outs [''e''])]"

theorem fence_follows_visible_majority_witness:
  "fst (quorum_write_denial (run (\<lambda>_. None) ex_history (ex_node [''b'', ''c'', ''d'', ''e''] 3))) = None \<and>
   fst (quorum_write_denial (run (\<lambda>_. None) ex_history (ex_node [''b'', ''c'', ''d'', ''e''] 1))) \<noteq> None"
  using fence_follows_visible_majority [of "ex_node [''b'', ''c'', ''d'', ''e''] 3" "[''b'', ''c'', ''d'', ''e'']" 3 ex_history "\<lambda>_. None"]
    fence_follows_visible_majority [of "ex_node [''b'', ''c'', ''d'', ''e''] 1" "[''b'', ''c'', ''d'', ''e'']" 1 ex_history "\<lambda>_. None"]
  by (simp add: ex_node_def ex_history_def streak_def answered_def ex_outs_def del: not_None_eq)

section \<open>Partitions\<close>

lemma majority_side:
  assumes "node_quorum n = Some (new_quorum (filter (\<lambda>m. m \<noteq> a) U) k)" and "distinct U" and "a \<in> S" and "S \<subseteq> set U"
    and "cycle_outs es \<noteq> []" and "\<And>m. m \<in> set U - S \<Longrightarrow> max k 1 \<le> streak (cycle_outs es) m"
    and "fst (quorum_write_denial (run parse es n)) = None"
  shows "length U < 2 * card S"
proof -
  define ms where "ms = filter (\<lambda>m. m \<noteq> a) U"
  define vs where "vs = filter (\<lambda>m. streak (cycle_outs es) m < max k 1) ms"
  have "length ms + 1 < 2 * (1 + length vs)"
    using gate_streak [OF assms(1) _ assms(5), of parse] assms(2,7) by (simp add: ms_def vs_def)
  moreover have "length ms + 1 = length U"
    using assms(2,3,4) sum_length_filter_compl [of "\<lambda>m. m \<noteq> a" U] by (auto simp: ms_def distinct_length_filter card_1_singleton_iff)
  moreover have "1 + length vs \<le> card S"
  proof -
    have "distinct (a # vs)" "set (a # vs) \<subseteq> S" using assms(2,3,6) by (fastforce simp: vs_def ms_def)+
    moreover have "finite S" using assms(4) finite_subset by blast
    ultimately show ?thesis using card_mono [of S "set (a # vs)"] distinct_card [of "a # vs"] by simp
  qed
  ultimately show ?thesis by simp
qed

text \<open>\<open>C28\<close>: a partition leaves at most one side writable. Take two nodes of one cluster, each probing all the
  others, on two sides of a partition: neither has reached a member outside its own side in its last
  \<open>k\<close> cycles. Then, whatever else has happened at them, at most one of the two accepts writes.\<close>

theorem partition_fences_one_side:
  assumes "distinct U" and "S \<subseteq> set U" and "T \<subseteq> set U" and "S \<inter> T = {}" and "a \<in> S" and "b \<in> T"
    and "node_quorum n = Some (new_quorum (filter (\<lambda>m. m \<noteq> a) U) k)" and "node_quorum n' = Some (new_quorum (filter (\<lambda>m. m \<noteq> b) U) k')"
    and "cycle_outs es \<noteq> []" and "cycle_outs es' \<noteq> []"
    and "\<forall>m \<in> set U - S. max k 1 \<le> streak (cycle_outs es) m" and "\<forall>m \<in> set U - T. max k' 1 \<le> streak (cycle_outs es') m"
  shows "fst (quorum_write_denial (run parse es n)) \<noteq> None \<or> fst (quorum_write_denial (run parse' es' n')) \<noteq> None"
proof (rule ccontr)
  assume "\<not> ?thesis"
  then have "length U < 2 * card S" "length U < 2 * card T"
    using majority_side [OF assms(7,1,5,2,9), of parse] majority_side [OF assms(8,1,6,3,10), of parse'] assms(11,12) by blast+
  moreover have "card S + card T \<le> length U"
  proof -
    have "card S + card T = card (S \<union> T)" using assms(2-4) by (intro card_Un_disjoint [symmetric]) (auto intro: finite_subset)
    also have "\<dots> \<le> card (set U)" using assms(2,3) by (intro card_mono) auto
    finally show ?thesis using distinct_card [OF assms(1)] by simp
  qed
  ultimately show False by simp
qed

theorem partition_fences_one_side_witness:
  "(fst (quorum_write_denial (run (\<lambda>_. None) [Cycle (\<lambda>_. None) (ex_outs [''b''])] (ex_node [''b'', ''c''] 1))),
    fst (quorum_write_denial (run (\<lambda>_. None) [Cycle (\<lambda>_. None) (ex_outs [])] (ex_node [''a'', ''b''] 1)))) \<noteq> (None, None)"
  using partition_fences_one_side [of "[''a'', ''b'', ''c'']" "{''a'', ''b''}" "{''c''}" "''a''" "''c''" "ex_node [''b'', ''c''] 1" 1
      "ex_node [''a'', ''b''] 1" 1 "[Cycle (\<lambda>_. None) (ex_outs [''b''])]" "[Cycle (\<lambda>_. None) (ex_outs [])]" "\<lambda>_. None" "\<lambda>_. None"]
  by (simp add: ex_node_def streak_def answered_def ex_outs_def del: not_None_eq)

section \<open>Failover\<close>

lemma probe_cycle_role:
  "read_only (probe_cycle parse outs q n) = read_only n" "replicate_to (probe_cycle parse outs q n) = replicate_to n"
  "auto_promote_frozen (probe_cycle parse outs q n) = auto_promote_frozen n" "arbiter (probe_cycle parse outs q n) = arbiter n"
  "primary_epoch (probe_cycle parse outs q n) = primary_epoch n"
  by (auto simp: probe_cycle_def Let_def set_fenced_def push_event_def split: prod.splits)

text \<open>A demoted node stays a replica until somebody sends it PROMOTE.\<close>

lemma demoted_stays:
  assumes "read_only n" and "auto_promote_frozen n" and "\<And>u. PromoteRequest u \<notin> set es"
  shows "read_only (run parse es n) \<and> auto_promote_frozen (run parse es n) \<and> replicate_to (run parse es n) = replicate_to n"
  using assms(3)
proof (induction es rule: rev_induct)
  case Nil
  then show ?case using assms(1,2) by (simp add: run_def)
next
  case (snoc e es)
  then have IH: "read_only (run parse es n)" "auto_promote_frozen (run parse es n)" "replicate_to (run parse es n) = replicate_to n" by auto
  show ?case
  proof (cases e)
    case (Cycle applied outs)
    then show ?thesis using IH by (auto simp: run_def quorum_cycle_def Let_def probe_cycle_role supervise_def split: option.splits)
  next
    case (PromoteRequest u)
    then show ?thesis using snoc.prems by auto
  next
    case WriteAttempt
    then show ?thesis using IH by (auto simp: run_def quorum_write_denial_def split: option.splits)
  qed
qed

text \<open>The view of a member that does not answer is kept.\<close>

lemma probed_view:
  assumes "\<And>f. (p, Answered f) \<notin> set xs"
  shows "view_of (snd (fold (probed parse) xs s)) p = view_of (snd s) p"
  using assms
proof (induction xs arbitrary: s)
  case (Cons x xs)
  have "view_of (snd (probed parse x s)) p = view_of (snd s) p"
    using Cons.prems by (cases x; cases s; cases "snd x")
      (auto simp: probed_def Let_def view_of_def record_probe_def record_view_def update_conv split: option.splits)
  then show ?case using Cons by simp
qed simp

lemma probe_cycle_view:
  assumes "\<forall>f. outs p \<noteq> Answered f"
  obtains q' where "node_quorum (probe_cycle parse outs q n) = Some q'" and "view_of q' p = view_of q p"
proof -
  have "view_of (snd (fold (probed parse) (map (\<lambda>m. (m, outs m)) (members q)) (False, q))) p = view_of q p"
    using probed_view [of p "map (\<lambda>m. (m, outs m)) (members q)" parse "(False, q)"] assms by (auto simp: eq_commute)
  then have "\<exists>q'. node_quorum (probe_cycle parse outs q n) = Some q' \<and> view_of q' p = view_of q p"
    by (auto simp: probe_cycle_def Let_def set_fenced_def push_event_def view_of_def split: prod.splits)
  then show thesis using that by blast
qed

text \<open>A replica that leaves its role within one cycle has promoted itself.\<close>

lemma cycle_promotes:
  assumes "node_quorum n = Some q" and "read_only n" and "\<not> read_only (quorum_cycle parse applied outs n)"
    and "\<forall>f. outs p \<noteq> Answered f"
  obtains q1 where "node_quorum (quorum_cycle parse applied outs n) = Some q1" and "view_of q1 p = view_of q p"
    and "primary_epoch (quorum_cycle parse applied outs n) = primary_epoch n + 1"
    and "replicate_to (quorum_cycle parse applied outs n) = None" and "\<not> arbiter (quorum_cycle parse applied outs n)"
proof -
  obtain q1 where q1: "node_quorum (probe_cycle parse outs q n) = Some q1" "view_of q1 p = view_of q p"
    using probe_cycle_view [of outs p parse q n] assms(4) by blast
  define m where "m = probe_cycle parse outs q n"
  have c: "quorum_cycle parse applied outs n = supervise applied q1 m"
    using assms(1) q1(1) by (simp add: quorum_cycle_def m_def Let_def)
  have "read_only m" "\<not> read_only (supervise applied q1 m)" using assms(2,3) c by (simp_all add: m_def probe_cycle_role)
  then obtain a where "supervise applied q1 m = promote a m" "\<not> arbiter m"
    by (auto simp: supervise_def supervise_promote_def push_event_def split: if_splits option.splits)
  then show thesis
    using q1 c by (intro that [of q1]) (simp_all add: promote_def push_event_def m_def probe_cycle_role)
qed

lemma best_primary_view:
  "best_primary s vs \<noteq> None \<Longrightarrow> \<exists>w u. (w, u) \<in> set vs \<and> is_active_primary u \<and> best_primary s vs = Some (w, mv_epoch u)"
proof (induction vs rule: rev_induct)
  case (snoc x vs)
  have st: "best_primary s (vs @ [x]) = better s x (best_primary s vs)" by (simp add: best_primary_def)
  show ?case
  proof (cases "best_primary s vs")
    case None
    then show ?thesis using snoc.prems unfolding st by (cases x) (auto simp: better_def split: if_splits)
  next
    case (Some y)
    then show ?thesis using snoc.IH unfolding st by (cases x) (fastforce simp: better_def)
  qed
qed (simp add: best_primary_def)

lemma best_primary_found:
  assumes "(p, v) \<in> set vs" and "is_active_primary v" and "s < mv_epoch v"
  obtains w u where "best_primary s vs = Some (w, mv_epoch u)" and "(w, u) \<in> set vs" and "is_active_primary u" and "mv_epoch v \<le> mv_epoch u"
proof -
  have "\<exists>w u. best_primary s vs = Some (w, mv_epoch u) \<and> (w, u) \<in> set vs \<and> is_active_primary u \<and> mv_epoch v \<le> mv_epoch u"
    using assms(1)
  proof (induction vs rule: rev_induct)
    case (snoc x vs)
    have st: "best_primary s (vs @ [x]) = better s x (best_primary s vs)" by (simp add: best_primary_def)
    have b: "\<exists>w u. (w, u) \<in> set vs \<and> is_active_primary u \<and> best_primary s vs = Some (w, mv_epoch u)" if "best_primary s vs \<noteq> None"
      using best_primary_view [OF that] .
    show ?case
    proof (cases "(p, v) \<in> set vs")
      case True
      with snoc.IH show ?thesis unfolding st by (cases x) (fastforce simp: better_def)
    next
      case False
      then have x: "x = (p, v)" using snoc.prems by simp
      show ?thesis
      proof (cases "best_primary s vs")
        case None
        then show ?thesis unfolding x st [unfolded x] using assms(2,3) by (auto simp: better_def)
      next
        case (Some y)
        then obtain w u where "(w, u) \<in> set vs" "is_active_primary u" "best_primary s vs = Some (w, mv_epoch u)" using b by auto
        then show ?thesis unfolding x st [unfolded x] using assms(2,3) by (cases "mv_epoch u < mv_epoch v") (auto simp: better_def)
      qed
    qed
  qed simp
  then show thesis using that by blast
qed

text \<open>\<open>C29\<close>: a failover can undo itself for good. Take a replica that has last seen a member \<open>p\<close> (its primary, say)
  as an active primary at an epoch more than one above its own, and that promotes itself in a cycle in which
  \<open>p\<close> does not answer: it is then writable, one epoch further. If \<open>p\<close> does not answer the next cycle either,
  the node demotes itself in that cycle, because the last view of \<open>p\<close> is never dropped: it becomes a read-only
  replica that forwards to \<open>p\<close>, or to another member whose last view is an active primary of an epoch at
  least as high. As automatic promotion is then frozen, it stays one however long \<open>p\<close> is gone and whatever
  else is probed, until somebody sends PROMOTE.\<close>

theorem failover_undone_by_stale_view:
  assumes "node_quorum n = Some q" and "view_of q p = Some v" and "is_active_primary v"
    and "unat (primary_epoch n) + 1 < unat (mv_epoch v)"
    and "\<forall>f. outs p \<noteq> Answered f" and "\<forall>f. outs' p \<noteq> Answered f"
    and "n1 = run parse [Cycle applied outs] n" and "read_only n" and "\<not> read_only n1"
  shows "replicate_to n1 = None \<and> primary_epoch n1 = primary_epoch n + 1 \<and>
    (\<exists>w u q2. node_quorum (run parse [Cycle applied' outs'] n1) = Some q2 \<and>
      (w, u) \<in> set (member_views q2) \<and> is_active_primary u \<and> mv_epoch v \<le> mv_epoch u \<and>
      (\<forall>es. (\<forall>x. PromoteRequest x \<notin> set es) \<longrightarrow>
        read_only (run parse (Cycle applied' outs' # es) n1) \<and>
        replicate_to (run parse (Cycle applied' outs' # es) n1) = Some w))"
proof -
  have n1: "n1 = quorum_cycle parse applied outs n" using assms(7) by (simp add: run_def)
  obtain q1 where q1: "node_quorum n1 = Some q1" "view_of q1 p = Some v" "primary_epoch n1 = primary_epoch n + 1"
      "replicate_to n1 = None" "\<not> arbiter n1"
    using cycle_promotes [OF assms(1,8), of parse applied outs p] assms(2,5,9) unfolding n1 by metis
  obtain q2 where q2: "node_quorum (probe_cycle parse outs' q1 n1) = Some q2" "view_of q2 p = Some v"
    using probe_cycle_view [of outs' p parse q1 n1] assms(6) q1(2) by metis
  have "unat (primary_epoch n + 1) = unat (primary_epoch n) + 1"
    using assms(4) unsigned_less [of "mv_epoch v", where ?'a = nat] by (intro unat_add_lem [THEN iffD1, THEN trans]) simp_all
  then have "primary_epoch n1 < mv_epoch v" using assms(4) q1(3) by (simp add: word_less_nat_alt)
  then obtain w u where w: "best_primary (primary_epoch n1) (member_views q2) = Some (w, mv_epoch u)"
      "(w, u) \<in> set (member_views q2)" "is_active_primary u" "mv_epoch v \<le> mv_epoch u"
    using best_primary_found [of p v "member_views q2"] q2(2) assms(3) by (metis map_of_SomeD member_views_def view_of_def)
  define n2 where "n2 = run parse [Cycle applied' outs'] n1"
  have "n2 = demote w (probe_cycle parse outs' q1 n1)"
    using q1 q2 w(1) assms(9) by (simp add: n2_def run_def quorum_cycle_def supervise_def probe_cycle_role)
  then have d: "read_only n2" "auto_promote_frozen n2" "replicate_to n2 = Some w" "node_quorum n2 = Some q2"
    using q2(1) by (simp_all add: demote_def push_event_def)
  have "run parse (Cycle applied' outs' # es) n1 = run parse es n2" for es by (simp add: n2_def run_def)
  then have "read_only (run parse (Cycle applied' outs' # es) n1) \<and> replicate_to (run parse (Cycle applied' outs' # es) n1) = Some w"
    if "\<forall>x. PromoteRequest x \<notin> set es" for es
    using demoted_stays [OF d(1,2), of es parse] that d(3) by simp
  then show ?thesis using q1(3,4) w(2-4) d(4) unfolding n2_def by blast
qed

text \<open>A replica \<open>r\<close> with automatic promotion, its primary \<open>p\<close> (promoted twice in its life) and an arbiter \<open>c\<close>. The
  status payload of the primary is one byte here; the arbiter's payload has none of the fields.\<close>

definition ex_parse :: "bytes \<Rightarrow> status_json option" where
  "ex_parse bs =
     (if bs = [1] then Some \<lparr>js_epoch = Some 2, js_read_only = Some False, js_replicate_to_is_string = False,
                             js_journal_head = Some 5, js_cluster_id = Some ''p''\<rparr>
      else None)"

definition ex_replica :: server_node where
  "ex_replica = (ex_node [''c'', ''p''] 1)\<lparr>auto_promote := True, primary_addr := Some ''p'', read_only := True, replicate_to := Some ''p''\<rparr>"

definition ex_up :: "addr \<Rightarrow> probe_outcome" where
  "ex_up m = Answered (new_frame RESP_STATUS (if m = ''p'' then [1] else []))"

definition ex_down :: node_event where
  "ex_down = Cycle (\<lambda>_. Some 5) (ex_up(''p'' := Failed))"

lemmas ex_cycle_defs = run_def ex_down_def quorum_cycle_def probe_cycle_def probed_def ex_up_def ex_replica_def ex_node_def
  new_quorum_def record_probe_def record_view_def misses_of_def parse_member_view_def ex_parse_def new_frame_def RESP_STATUS_def
  set_fenced_def has_majority_def visible_def member_count_def push_event_def supervise_def supervise_promote_def
  is_lost_def view_of_def last_seen_head_def lag_ok_def promote_def best_primary_def better_def member_views_def
  is_active_primary_def demote_def

definition ex_seen :: server_node where
  "ex_seen = run ex_parse [Cycle (\<lambda>_. Some 5) ex_up] ex_replica"

lemma ex_seen_state:
  "ex_seen = ex_replica\<lparr>quorum_visible := 3,
     node_quorum := Some \<lparr>members = [''c'', ''p''], q_k = 1, misses = [],
       views = [(''p'', \<lparr>mv_epoch = 2, mv_read_only = False, mv_forwarding = False, journal_head = Some 5, node_id = Some ''p''\<rparr>)],
       fenced = False, probe_failure_cycles = 0\<rparr>\<rparr>"
  by (simp add: ex_seen_def ex_cycle_defs Let_def)

lemma ex_promoted: "\<not> read_only (run ex_parse [ex_down] ex_seen)"
  unfolding ex_seen_state by (simp add: ex_cycle_defs Let_def)

theorem failover_undone_by_stale_view_witness:
  "\<not> read_only (run ex_parse [ex_down] ex_seen) \<and>
   read_only (run ex_parse [ex_down, ex_down, WriteAttempt, ex_down] (run ex_parse [ex_down] ex_seen))"
proof -
  have "PromoteRequest x \<notin> set [ex_down, WriteAttempt, ex_down]" for x by (simp add: ex_down_def)
  then show ?thesis
    using failover_undone_by_stale_view [of ex_seen
        "the (node_quorum ex_seen)" "''p''" "the (view_of (the (node_quorum ex_seen)) ''p'')" "ex_up(''p'' := Failed)" "ex_up(''p'' := Failed)"
        "run ex_parse [ex_down] ex_seen" ex_parse "\<lambda>_. Some 5" "\<lambda>_. Some 5"] ex_promoted
    by (fastforce simp: ex_seen_state view_of_def is_active_primary_def ex_replica_def ex_node_def ex_down_def)
qed

end
