(* ===== verification/Json.thy ===== *)
theory Json
  imports Encode_Props
begin

text \<open>
  The JSON form of document values of \<open>json.rs\<close>: the writer and the parser, on the UTF-8 bytes of the text.
  The state of the parser is its position and the bytes from there on. Text of floats and of decimals
  (\<open>f64\<close> \<open>Debug\<close> and \<open>parse\<close>, \<open>rust_decimal\<close> \<open>Display\<close> and \<open>parse\<close>) is the parameter \<open>T\<close>, with the documented
  round trips in \<open>text_laws\<close>. The loops over the items of an array or object carry a count that their start
  sets above the number of bytes left; every turn consumes a byte, so the count is never used up.
\<close>

section \<open>Text\<close>

definition ascii :: "string \<Rightarrow> bytes" where
  "ascii s = map of_char s"

record 'd text_ops =
  fmt_f64 :: "f64 \<Rightarrow> bytes"
  parse_f64 :: "bytes \<Rightarrow> f64 option"
  fmt_dec :: "'d \<Rightarrow> bytes"
  parse_dec :: "bytes \<Rightarrow> 'd option"

definition is_digit :: "u8 \<Rightarrow> bool" where
  "is_digit b \<longleftrightarrow> 0x30 \<le> b \<and> b \<le> 0x39"

text \<open>The bytes a number can consist of besides digits: \<open>.\<close>, \<open>e\<close>, \<open>E\<close>, \<open>+\<close>, \<open>-\<close>.\<close>

definition is_float_mark :: "u8 \<Rightarrow> bool" where
  "is_float_mark b \<longleftrightarrow> b \<in> {0x2E, 0x65, 0x45, 0x2B, 0x2D}"

definition f64_nan :: f64 where "f64_nan = 0x7ff8000000000000"
definition f64_inf :: f64 where "f64_inf = 0x7ff0000000000000"
definition f64_neg_inf :: f64 where "f64_neg_inf = 0xfff0000000000000"

definition f64_finite :: "f64 \<Rightarrow> bool" where
  "f64_finite f \<longleftrightarrow> \<not> is_nan f \<and> \<not> is_infinite f"

text \<open>Decimal digits of a natural number, as \<open>write!\<close> prints integers.\<close>

fun nat_digits :: "nat \<Rightarrow> bytes" where
  "nat_digits n = (if n < 10 then [word_of_nat (0x30 + n)] else nat_digits (n div 10) @ [word_of_nat (0x30 + n mod 10)])"

declare nat_digits.simps [simp del]

definition int_digits :: "int \<Rightarrow> bytes" where
  "int_digits i = (if i < 0 then 0x2D # nat_digits (nat (- i)) else nat_digits (nat i))"

definition digits_val :: "bytes \<Rightarrow> nat" where
  "digits_val bs = foldl (\<lambda>n b. n * 10 + (unat b - 0x30)) 0 bs"

text \<open>\<open>str::parse::<i64>\<close> on an optional minus sign and digits.\<close>

definition parse_i64 :: "bytes \<Rightarrow> i64 option" where
  "parse_i64 s =
     (let neg = s \<noteq> [] \<and> hd s = 0x2D; ds = (if neg then tl s else s);
          v = (if neg then - int (digits_val ds) else int (digits_val ds))
      in if ds = [] \<or> \<not> list_all is_digit ds \<or> v < - (2 ^ 63) \<or> 2 ^ 63 \<le> v then None else Some (word_of_int v))"

definition TIMESTAMP_MIN_MS :: int where "TIMESTAMP_MIN_MS = -62135596800000"
definition TIMESTAMP_MAX_MS :: int where "TIMESTAMP_MAX_MS = 253402300799999"

definition is_valid_timestamp_ms :: "i64 \<Rightarrow> bool" where
  "is_valid_timestamp_ms ms \<longleftrightarrow> TIMESTAMP_MIN_MS \<le> sint ms \<and> sint ms \<le> TIMESTAMP_MAX_MS"

section \<open>The writer\<close>

definition hex_char :: "nat \<Rightarrow> u8" where
  "hex_char n = (if n < 10 then word_of_nat (0x30 + n) else word_of_nat (0x57 + n))"

definition needs_escape :: "u8 \<Rightarrow> bool" where
  "needs_escape c \<longleftrightarrow> c = 0x22 \<or> c = 0x5C \<or> c = 0x0A \<or> c = 0x0D \<or> c = 0x09 \<or> c < 0x20"

definition escape_char :: "u8 \<Rightarrow> bytes" where
  "escape_char c =
     (if c = 0x22 then [0x5C, 0x22]
      else if c = 0x5C then [0x5C, 0x5C]
      else if c = 0x0A then [0x5C, 0x6E]
      else if c = 0x0D then [0x5C, 0x72]
      else if c = 0x09 then [0x5C, 0x74]
      else if c < 0x20 then [0x5C, 0x75, 0x30, 0x30, hex_char (unat c div 16), hex_char (unat c mod 16)]
      else [c])"

text \<open>The characters that are escaped are ASCII, so looking at bytes is looking at characters.\<close>

definition push_escaped :: "bytes \<Rightarrow> bytes" where
  "push_escaped s = takeWhile (\<lambda>c. \<not> needs_escape c) s @ concat (map escape_char (dropWhile (\<lambda>c. \<not> needs_escape c) s))"

definition write_json_string :: "bytes \<Rightarrow> bytes" where
  "write_json_string s = 0x22 # push_escaped s @ [0x22]"

definition float_marker_text :: "f64 \<Rightarrow> bytes" where
  "float_marker_text f = (if is_nan f then ascii ''NaN'' else if \<not> f64_neg f then ascii ''inf'' else ascii ''-inf'')"

definition parse_float_marker :: "bytes \<Rightarrow> f64 option" where
  "parse_float_marker s =
     (if s = ascii ''NaN'' then Some f64_nan
      else if s = ascii ''inf'' \<or> s = ascii ''+inf'' \<or> s = ascii ''Infinity'' then Some f64_inf
      else if s = ascii ''-inf'' \<or> s = ascii ''-Infinity'' then Some f64_neg_inf
      else None)"

text \<open>\<open>sep\<close>: an item has been written before this one.\<close>

fun write_bytes_items :: "bool \<Rightarrow> bytes \<Rightarrow> bytes" where
  "write_bytes_items sep [] = []"
| "write_bytes_items sep (x # xs) = (if sep then [0x2C] else []) @ nat_digits (unat x) @ write_bytes_items True xs"

definition marker :: "string \<Rightarrow> bytes" where
  "marker name = 0x7B # 0x22 # ascii name @ [0x22, 0x3A]"

fun write_value :: "'d text_ops \<Rightarrow> 'd Value \<Rightarrow> bytes"
  and write_items :: "'d text_ops \<Rightarrow> bool \<Rightarrow> 'd Value list \<Rightarrow> bytes"
  and write_entries :: "'d text_ops \<Rightarrow> bool \<Rightarrow> 'd object \<Rightarrow> bytes" where
  "write_value T Null = ascii ''null''"
| "write_value T (Bool b) = (if b then ascii ''true'' else ascii ''false'')"
| "write_value T (Int64 i) = int_digits (sint i)"
| "write_value T (Float f) =
     (if f64_finite f then fmt_f64 T f
      else marker ''$float'' @ 0x22 # float_marker_text f @ [0x22, 0x7D])"
| "write_value T (Decimal d) = marker ''$dec'' @ 0x22 # fmt_dec T d @ [0x22, 0x7D]"
| "write_value T (Timestamp ms) = marker ''$ts'' @ int_digits (sint ms) @ [0x7D]"
| "write_value T (Str s) = write_json_string s"
| "write_value T (Bytes b) = marker ''$bytes'' @ 0x5B # write_bytes_items False b @ [0x5D, 0x7D]"
| "write_value T (Array xs) = 0x5B # write_items T False xs @ [0x5D]"
| "write_value T (Object es) = 0x7B # write_entries T False es @ [0x7D]"
| "write_items T sep [] = []"
| "write_items T sep (x # xs) = (if sep then [0x2C] else []) @ write_value T x @ write_items T True xs"
| "write_entries T sep [] = []"
| "write_entries T sep ((k, v) # es) =
     (if sep then [0x2C] else []) @ write_json_string k @ 0x3A # write_value T v @ write_entries T True es"

definition to_json :: "'d text_ops \<Rightarrow> 'd Value \<Rightarrow> bytes" where
  "to_json T v = write_value T v"

section \<open>The parser\<close>

datatype json_error =
    JEof
  | Unexpected u8 nat
  | BadNumber nat
  | BadEscape nat
  | Trailing nat
  | JDepth nat

type_synonym parser = "nat \<times> bytes"
type_synonym 'a parse_op = "(parser, json_error, 'a) op"

definition JSON_MAX_DEPTH :: nat where "JSON_MAX_DEPTH = 128"

definition peek :: "parser \<Rightarrow> u8 option" where
  "peek s = (case snd s of [] \<Rightarrow> None | b # _ \<Rightarrow> Some b)"

definition bump :: "u8 option parse_op" where
  "bump s = (case snd s of [] \<Rightarrow> (Inr None, s) | b # r \<Rightarrow> (Inr (Some b), (fst s + 1, r)))"

definition is_ws :: "u8 \<Rightarrow> bool" where
  "is_ws b \<longleftrightarrow> b \<in> {0x20, 0x09, 0x0A, 0x0D}"

definition skip_ws :: "unit parse_op" where
  "skip_ws s = (Inr (), (fst s + length (takeWhile is_ws (snd s)), dropWhile is_ws (snd s)))"

definition expect :: "u8 \<Rightarrow> unit parse_op" where
  "expect b = obind bump (\<lambda>x s. if x = Some b then (Inr (), s) else (Inl (Unexpected b (fst s)), s))"

definition char_or :: "u8 option \<Rightarrow> u8" where
  "char_or x = (case x of Some b \<Rightarrow> b | None \<Rightarrow> 0x3F)"

definition lit :: "bytes \<Rightarrow> 'd Value \<Rightarrow> 'd Value parse_op" where
  "lit word v s =
     (if take (length word) (snd s) = word then (Inr v, (fst s + length word, drop (length word) (snd s)))
      else (Inl (Unexpected (char_or (peek s)) (fst s)), s))"

definition number :: "'d text_ops \<Rightarrow> 'd Value parse_op" where
  "number T s =
     (let start = fst s;
          sign = (if peek s = Some 0x2D then [0x2D] else []);
          body = takeWhile (\<lambda>b. is_digit b \<or> is_float_mark b) (drop (length sign) (snd s));
          text = sign @ body;
          is_float = list_ex is_float_mark body;
          s' = (start + length text, drop (length text) (snd s))
      in if text = [] \<or> text = [0x2D] then (Inl (BadNumber start), s')
         else
           (case (if is_float then None else parse_i64 text) of
              Some i \<Rightarrow> (Inr (Int64 i), s')
            | None \<Rightarrow>
                (case parse_f64 T text of
                   Some f \<Rightarrow> (Inr (Float f), s')
                 | None \<Rightarrow> (Inl (BadNumber start), s'))))"

definition hex_val :: "u8 \<Rightarrow> nat option" where
  "hex_val b =
     (if 0x30 \<le> b \<and> b \<le> 0x39 then Some (unat b - 0x30)
      else if 0x61 \<le> b \<and> b \<le> 0x66 then Some (unat b - 0x57)
      else if 0x41 \<le> b \<and> b \<le> 0x46 then Some (unat b - 0x37)
      else None)"

fun hex_digits :: "nat \<Rightarrow> nat \<Rightarrow> nat parse_op" where
  "hex_digits 0 v s = (Inr v, s)"
| "hex_digits (Suc n) v s =
     (case snd s of
        [] \<Rightarrow> (Inl JEof, s)
      | b # r \<Rightarrow>
          (case hex_val b of
             None \<Rightarrow> (Inl (BadEscape (fst s + 1)), (fst s + 1, r))
           | Some d \<Rightarrow> hex_digits n (v * 16 + d) (fst s + 1, r)))"

definition hex4 :: "nat parse_op" where
  "hex4 = hex_digits 4 0"

text \<open>\<open>char::from_u32\<close> and the UTF-8 bytes a character is pushed as; U+FFFD for what is no character.\<close>

definition utf8_of :: "nat \<Rightarrow> bytes" where
  "utf8_of c =
     (if c < 0x80 then [word_of_nat c]
      else if c < 0x800 then [word_of_nat (0xC0 + c div 64), word_of_nat (0x80 + c mod 64)]
      else if c < 0x10000 then [word_of_nat (0xE0 + c div 4096), word_of_nat (0x80 + c div 64 mod 64), word_of_nat (0x80 + c mod 64)]
      else [word_of_nat (0xF0 + c div 262144), word_of_nat (0x80 + c div 4096 mod 64), word_of_nat (0x80 + c div 64 mod 64),
            word_of_nat (0x80 + c mod 64)])"

definition push_char :: "nat \<Rightarrow> bytes" where
  "push_char c = (if c < 0xD800 \<or> (0xE000 \<le> c \<and> c < 0x110000) then utf8_of c else utf8_of 0xFFFD)"

text \<open>What one \<open>\u\<close> escape stands for. A high surrogate looks for a second escape; any other escape after it
  is left for the loop.\<close>

definition unicode_escape :: "bytes parse_op" where
  "unicode_escape =
     obind hex4 (\<lambda>cp s.
       if 0xD800 \<le> cp \<and> cp < 0xDC00 then
         (case snd s of
            b # c # r \<Rightarrow>
              if b = 0x5C \<and> c = 0x75 then
                obind hex4 (\<lambda>lo.
                  if 0xDC00 \<le> lo \<and> lo < 0xE000
                  then oret (push_char (0x10000 + (cp - 0xD800) * 1024 + (lo - 0xDC00)))
                  else oret (utf8_of 0xFFFD @ push_char lo)) (fst s + 2, r)
              else (Inr (utf8_of 0xFFFD), s)
          | _ \<Rightarrow> (Inr (utf8_of 0xFFFD), s))
       else (Inr (push_char cp), s))"

definition simple_escape :: "u8 \<Rightarrow> u8 option" where
  "simple_escape e =
     (if e = 0x22 \<or> e = 0x5C \<or> e = 0x2F then Some e
      else if e = 0x6E then Some 0x0A
      else if e = 0x72 then Some 0x0D
      else if e = 0x74 then Some 0x09
      else if e = 0x62 then Some 0x08
      else if e = 0x66 then Some 0x0C
      else None)"

definition char_len :: "u8 \<Rightarrow> nat" where
  "char_len b = (if 0xF0 \<le> b then 4 else if 0xE0 \<le> b then 3 else 2)"

lemma hex_digits_shrinks: "hex_digits n v s = (res, s') \<Longrightarrow> length (snd s') \<le> length (snd s)"
  by (induction n v s rule: hex_digits.induct) (auto split: list.splits option.splits intro!: le_SucI)

lemma unicode_escape_shrinks: "unicode_escape s = (res, s') \<Longrightarrow> length (snd s') \<le> length (snd s)"
  by (fastforce simp: unicode_escape_def hex4_def obind_def split: prod.splits sum.splits list.splits if_splits dest: hex_digits_shrinks)

function string_loop :: "nat \<Rightarrow> bytes \<Rightarrow> bytes \<Rightarrow> (json_error + bytes) \<times> parser" where
  "string_loop pos [] out = (Inl JEof, (pos, []))"
| "string_loop pos (b # r) out =
     (if b = 0x22 then (Inr out, (pos + 1, r))
      else if b = 0x5C then
        (case r of
           [] \<Rightarrow> (Inl (BadEscape (pos + 1)), (pos + 1, []))
         | e # r' \<Rightarrow>
             (case simple_escape e of
                Some c \<Rightarrow> string_loop (pos + 2) r' (out @ [c])
              | None \<Rightarrow>
                  if e = 0x75 then
                    (case unicode_escape (pos + 2, r') of
                       (Inl err, s) \<Rightarrow> (Inl err, s)
                     | (Inr cs, (pos', r'')) \<Rightarrow> string_loop pos' r'' (out @ cs))
                  else (Inl (BadEscape (pos + 2)), (pos + 2, r'))))
      else if b < 0x80 then string_loop (pos + 1) r (out @ [b])
      else
        (let chunk = take (char_len b) (b # r); pos' = pos + length chunk; r' = drop (char_len b - 1) r
         in if utf8_valid chunk then string_loop pos' r' (out @ chunk)
            else (Inl (Unexpected 0x3F pos'), (pos', r'))))"
  by pat_completeness auto
termination
  by (relation "measure (\<lambda>(_, r, _). length r)") (auto dest!: unicode_escape_shrinks [OF sym])

definition json_string :: "bytes parse_op" where
  "json_string = obind (expect 0x22) (\<lambda>_ s. string_loop (fst s) (snd s) [])"

fun bytes_of_items :: "'d Value list \<Rightarrow> bytes option" where
  "bytes_of_items [] = Some []"
| "bytes_of_items (Int64 i # xs) =
     (if 0 \<le> sint i \<and> sint i \<le> 255 then (case bytes_of_items xs of Some bs \<Rightarrow> Some (ucast i # bs) | None \<Rightarrow> None) else None)"
| "bytes_of_items (_ # xs) = None"

definition decode_marker :: "'d text_ops \<Rightarrow> 'd object \<Rightarrow> 'd Value" where
  "decode_marker T obj =
     (case obj of
        [(k, v)] \<Rightarrow>
          (if k = ascii ''$dec'' then
             (case v of Str s \<Rightarrow> (case parse_dec T s of Some d \<Rightarrow> Decimal d | None \<Rightarrow> Object obj) | _ \<Rightarrow> Object obj)
           else if k = ascii ''$float'' then
             (case v of Str s \<Rightarrow> (case parse_float_marker s of Some f \<Rightarrow> Float f | None \<Rightarrow> Object obj) | _ \<Rightarrow> Object obj)
           else if k = ascii ''$ts'' then
             (case v of Int64 ms \<Rightarrow> if is_valid_timestamp_ms ms then Timestamp ms else Object obj | _ \<Rightarrow> Object obj)
           else if k = ascii ''$bytes'' then
             (case v of Array items \<Rightarrow> (case bytes_of_items items of Some bs \<Rightarrow> Bytes bs | None \<Rightarrow> Object obj) | _ \<Rightarrow> Object obj)
           else Object obj)
      | _ \<Rightarrow> Object obj)"

function json_value :: "'d text_ops \<Rightarrow> nat \<Rightarrow> 'd Value parse_op"
  and array_loop :: "'d text_ops \<Rightarrow> nat \<Rightarrow> nat \<Rightarrow> 'd Value list \<Rightarrow> 'd Value parse_op"
  and object_loop :: "'d text_ops \<Rightarrow> nat \<Rightarrow> nat \<Rightarrow> 'd object \<Rightarrow> 'd Value parse_op" where
  "json_value T depth =
     (if JSON_MAX_DEPTH < depth then ofail (JDepth JSON_MAX_DEPTH)
      else
        obind skip_ws (\<lambda>_ s.
          (case peek s of
             None \<Rightarrow> (Inl (Unexpected 0x3F (fst s)), s)
           | Some b \<Rightarrow>
               if b = 0x6E then lit (ascii ''null'') Null s
               else if b = 0x74 then lit (ascii ''true'') (Bool True) s
               else if b = 0x66 then lit (ascii ''false'') (Bool False) s
               else if b = 0x22 then obind json_string (\<lambda>str. oret (Str str)) s
               else if b = 0x5B then
                 obind bump (\<lambda>_. obind skip_ws (\<lambda>_ s.
                   if peek s = Some 0x5D then obind bump (\<lambda>_. oret (Array [])) s
                   else array_loop T (Suc (length (snd s))) (depth + 1) [] s)) s
               else if b = 0x7B then
                 obind bump (\<lambda>_. obind skip_ws (\<lambda>_ s.
                   if peek s = Some 0x7D then obind bump (\<lambda>_. oret (Object [])) s
                   else object_loop T (Suc (length (snd s))) (depth + 1) [] s)) s
               else if b = 0x2D \<or> is_digit b then number T s
               else (Inl (Unexpected b (fst s)), s))))"
| "array_loop T 0 depth items = ofail JEof"
| "array_loop T (Suc n) depth items =
     obind (json_value T depth) (\<lambda>v.
       obind skip_ws (\<lambda>_.
         obind bump (\<lambda>b s.
           if b = Some 0x2C then array_loop T n depth (items @ [v]) s
           else if b = Some 0x5D then (Inr (Array (items @ [v])), s)
           else (Inl (Unexpected 0x2C (fst s)), s))))"
| "object_loop T 0 depth obj = ofail JEof"
| "object_loop T (Suc n) depth obj =
     obind skip_ws (\<lambda>_.
       obind json_string (\<lambda>k.
         obind skip_ws (\<lambda>_.
           obind (expect 0x3A) (\<lambda>_.
             obind (json_value T depth) (\<lambda>v.
               obind skip_ws (\<lambda>_.
                 obind bump (\<lambda>b s.
                   if b = Some 0x2C then object_loop T n depth (fst (btree_insert k v obj)) s
                   else if b = Some 0x7D then (Inr (decode_marker T (fst (btree_insert k v obj))), s)
                   else (Inl (Unexpected 0x7D (fst s)), s))))))))"
  by pat_completeness auto
termination
  by (relation "measures
    [\<lambda>x. case x of Inl (_, depth) \<Rightarrow> JSON_MAX_DEPTH + 1 - depth
       | Inr (Inl (_, _, depth, _)) \<Rightarrow> JSON_MAX_DEPTH + 1 - depth
       | Inr (Inr (_, _, depth, _)) \<Rightarrow> JSON_MAX_DEPTH + 1 - depth,
     \<lambda>x. case x of Inl _ \<Rightarrow> 0 | Inr (Inl (_, n, _, _)) \<Rightarrow> Suc n | Inr (Inr (_, n, _, _)) \<Rightarrow> Suc n]") auto

declare json_value.simps [simp del] string_loop.simps [simp del]

definition from_json :: "'d text_ops \<Rightarrow> bytes \<Rightarrow> json_error + 'd Value" where
  "from_json T text =
     fst (obind skip_ws (\<lambda>_. obind (json_value T 0) (\<lambda>v. obind skip_ws (\<lambda>_ s.
       if snd s \<noteq> [] then (Inl (Trailing (fst s)), s) else (Inr v, s)))) (0, text))"

end
