(* ===== verification/Json_Props.thy ===== *)
theory Json_Props
  imports Json
begin

text \<open>
  Parsing undoes writing: the pieces (integers, strings, markers, arrays, objects) and the values on which
  the two forms correspond.
\<close>

section \<open>Assumptions on number text\<close>

definition num_byte :: "u8 \<Rightarrow> bool" where
  "num_byte b \<longleftrightarrow> is_digit b \<or> is_float_mark b"

definition text_laws :: "'d decimal_ops \<Rightarrow> 'd text_ops \<Rightarrow> bool" where
  "text_laws D T \<longleftrightarrow>
     (\<forall>f. f64_finite f \<longrightarrow> parse_f64 T (fmt_f64 T f) = Some f \<and>
        (\<exists>sign body. fmt_f64 T f = sign @ body \<and> (sign = [] \<or> sign = [0x2D]) \<and> body \<noteq> [] \<and> is_digit (hd body) \<and>
           list_all num_byte body \<and> list_ex is_float_mark body)) \<and>
     (\<forall>d. dec_valid D d \<longrightarrow> \<not> (dec_is_zero D d \<and> dec_is_sign_negative D d) \<longrightarrow> parse_dec T (fmt_dec T d) = Some d) \<and>
     (\<forall>d. list_all (\<lambda>b. is_digit b \<or> b = 0x2E \<or> b = 0x2D) (fmt_dec T d))"

definition ends_number :: "bytes \<Rightarrow> bool" where
  "ends_number r \<longleftrightarrow> r = [] \<or> \<not> num_byte (hd r)"

section \<open>Integers\<close>

lemma digit_byte: "k < 10 \<Longrightarrow> is_digit (word_of_nat (0x30 + k)) \<and> unat (word_of_nat (0x30 + k) :: u8) = 0x30 + k"
  using unat_word_of_nat_u8 [of "0x30 + k"] by (simp add: is_digit_def word_le_nat_alt del: of_nat_add)

lemma nat_digits_ok: "list_all is_digit (nat_digits n) \<and> nat_digits n \<noteq> [] \<and> digits_val (nat_digits n) = n"
proof (induction n rule: nat_digits.induct)
  case (1 n)
  have d: "digits_val (xs @ [b]) = digits_val xs * 10 + (unat b - 0x30)" for xs b by (simp add: digits_val_def)
  show ?case
  proof (cases "n < 10")
    case True
    then show ?thesis using digit_byte [of n] by (simp add: nat_digits.simps [of n] digits_val_def)
  next
    case False
    then show ?thesis using 1 digit_byte [of "n mod 10"] by (simp add: nat_digits.simps [of n] d)
  qed
qed

lemma digit_no_mark: "is_digit b \<Longrightarrow> \<not> is_float_mark b \<and> num_byte b \<and> b \<noteq> 0x2D"
  by (auto simp: is_digit_def is_float_mark_def num_byte_def word_le_nat_alt)

lemma takeWhile_num: "list_all num_byte xs \<Longrightarrow> ends_number r \<Longrightarrow> takeWhile (\<lambda>b. is_digit b \<or> is_float_mark b) (xs @ r) = xs"
  by (induction xs) (cases r; auto simp: ends_number_def num_byte_def)+

lemma number_text:
  assumes "sign = [] \<or> sign = [0x2D]" and "body \<noteq> []" and "is_digit (hd body)" and "list_all num_byte body" and "ends_number r"
  shows "number T (p, sign @ body @ r) =
    (case (if list_ex is_float_mark body then None else parse_i64 (sign @ body)) of
       Some i \<Rightarrow> (Inr (Int64 i), (p + length (sign @ body), r))
     | None \<Rightarrow> (case parse_f64 T (sign @ body) of
         Some f \<Rightarrow> (Inr (Float f), (p + length (sign @ body), r))
       | None \<Rightarrow> (Inl (BadNumber p), (p + length (sign @ body), r))))"
proof -
  have "hd body \<noteq> 0x2D" using digit_no_mark [OF assms(3)] by simp
  then have "(if peek (p, sign @ body @ r) = Some 0x2D then [0x2D] else []) = sign"
    using assms(1,2) by (cases body) (auto simp: peek_def)
  moreover have "takeWhile (\<lambda>b. is_digit b \<or> is_float_mark b) (drop (length sign) (sign @ body @ r)) = body"
    using takeWhile_num [OF assms(4,5)] by simp
  moreover have "\<not> (sign @ body = [] \<or> sign @ body = [0x2D])" using assms(1,2) \<open>hd body \<noteq> 0x2D\<close> by auto
  moreover have "drop (length (sign @ body)) (sign @ body @ r) = r" by simp
  ultimately show ?thesis unfolding number_def Let_def fst_conv snd_conv by (simp only: if_False)
qed

lemma parse_int_digits: "parse_i64 (int_digits (sint i)) = Some (i :: i64)"
proof -
  have b: "- (2 ^ 63) \<le> sint i" "sint i < 2 ^ 63" using sint_range_size [of i] by (simp_all add: word_size)
  have ok: "list_all is_digit (nat_digits n)" "nat_digits n \<noteq> []" "digits_val (nat_digits n) = n" for n
    using nat_digits_ok [of n] by simp_all
  have hd: "hd (nat_digits n) \<noteq> 0x2D" for n
  proof -
    have "is_digit (hd (nat_digits n))" using ok(1,2) [of n] by (cases "nat_digits n") auto
    then show ?thesis by (simp add: digit_no_mark)
  qed
  show ?thesis
  proof (cases "sint i < 0")
    case True
    then show ?thesis using b ok by (simp add: parse_i64_def int_digits_def Let_def)
  next
    case False
    then show ?thesis using b ok hd by (simp add: parse_i64_def int_digits_def Let_def)
  qed
qed

lemma int_digits_split:
  obtains sign body where "int_digits i = sign @ body" and "sign = [] \<or> sign = [0x2D]" and "body \<noteq> []" and "list_all is_digit body"
proof (cases "i < 0")
  case True
  then show thesis using that [of "[0x2D]" "nat_digits (nat (- i))"] nat_digits_ok by (simp add: int_digits_def)
next
  case False
  then show thesis using that [of "[]" "nat_digits (nat i)"] nat_digits_ok by (simp add: int_digits_def)
qed

lemma number_int:
  assumes "ends_number r"
  shows "number T (p, int_digits (sint i) @ r) = (Inr (Int64 i), (p + length (int_digits (sint i)), r))"
proof -
  obtain sign body where b: "int_digits (sint i) = sign @ body" "sign = [] \<or> sign = [0x2D]" "body \<noteq> []" "list_all is_digit body"
    by (rule int_digits_split)
  have "is_digit (hd body)" "list_all num_byte body" "\<not> list_ex is_float_mark body"
    using b(3,4) digit_no_mark by (auto simp: list_all_iff list_ex_iff)
  then show ?thesis using number_text [OF b(2,3) _ _ assms, of T p] parse_int_digits [of i] b(1) by simp
qed

lemma number_float:
  assumes "text_laws D T" and "f64_finite f" and "ends_number r"
  shows "number T (p, fmt_f64 T f @ r) = (Inr (Float f), (p + length (fmt_f64 T f), r))"
proof -
  obtain sign body where "fmt_f64 T f = sign @ body" "sign = [] \<or> sign = [0x2D]" "body \<noteq> []" "is_digit (hd body)"
      "list_all num_byte body" "list_ex is_float_mark body" "parse_f64 T (fmt_f64 T f) = Some f"
    using assms(1,2) unfolding text_laws_def by blast
  then show ?thesis using number_text [of sign body r T p] assms(3) by simp
qed

section \<open>Strings\<close>

lemma hex_roundtrip: "n < 16 \<Longrightarrow> hex_val (hex_char n) = Some n"
proof -
  assume n: "n < 16"
  have u: "unat (word_of_nat (0x30 + n) :: u8) = 0x30 + n" "unat (word_of_nat (0x57 + n) :: u8) = 0x57 + n"
    using n unat_word_of_nat_u8 [of "0x30 + n"] unat_word_of_nat_u8 [of "0x57 + n"] by simp_all
  show ?thesis using n u by (simp add: hex_val_def hex_char_def word_le_nat_alt del: of_nat_add)
qed

lemma push_escaped_eq: "push_escaped s = concat (map escape_char s)"
proof -
  have "\<not> needs_escape c \<Longrightarrow> escape_char c = [c]" for c by (auto simp: needs_escape_def escape_char_def)
  then have "concat (map escape_char (takeWhile (\<lambda>c. \<not> needs_escape c) s)) = takeWhile (\<lambda>c. \<not> needs_escape c) s"
    by (induction s) auto
  then show ?thesis
    unfolding push_escaped_def by (metis concat_append map_append takeWhile_dropWhile_id)
qed

lemma hex4_step:
  assumes "hex_val a = Some i" and "hex_val b = Some j" and "hex_val c = Some k" and "hex_val d = Some l"
  shows "hex4 (p, a # b # c # d # r) = (Inr (((i * 16 + j) * 16 + k) * 16 + l), (p + 4, r))"
proof -
  have "hex_digits (Suc (Suc (Suc (Suc 0)))) 0 (p, a # b # c # d # r) = (Inr (((i * 16 + j) * 16 + k) * 16 + l), (p + 4, r))"
    using assms by simp
  moreover have "Suc (Suc (Suc (Suc 0))) = 4" by simp
  ultimately show ?thesis by (simp only: hex4_def)
qed

text \<open>One ASCII character.\<close>

lemma string_loop_char:
  assumes "c < 0x80"
  shows "string_loop p (escape_char c @ r) out = string_loop (p + length (escape_char c)) r (out @ [c])"
proof -
  consider "c = 0x22" | "c = 0x5C" | "c = 0x0A" | "c = 0x0D" | "c = 0x09"
    | "c \<notin> {0x22, 0x5C, 0x0A, 0x0D, 0x09}" "c < 0x20" | "c \<notin> {0x22, 0x5C}" "0x20 \<le> c"
    by (cases "c \<in> {0x22, 0x5C, 0x0A, 0x0D, 0x09}"; cases "c < 0x20") auto
  then show ?thesis
  proof cases
    case 6
    have u: "unat c < 32" using 6(2) by (simp add: word_less_nat_alt)
    have h: "hex_val (hex_char (unat c div 16)) = Some (unat c div 16)" "hex_val (hex_char (unat c mod 16)) = Some (unat c mod 16)" "hex_val 0x30 = Some 0"
      using u hex_roundtrip hex_roundtrip [of 0] by (simp_all add: hex_char_def)
    have "unicode_escape (p + 2, 0x30 # 0x30 # hex_char (unat c div 16) # hex_char (unat c mod 16) # r) = (Inr [c], (p + 6, r))"
      using u hex4_step [OF h(3,3) h(1,2), of "p + 2" r] by (simp add: unicode_escape_def obind_def push_char_def utf8_of_def)
    moreover have six: "Suc (Suc (Suc (Suc (Suc (Suc p))))) = p + 6" by simp
    ultimately show ?thesis using 6 by (simp add: escape_char_def string_loop.simps simple_escape_def, simp only: six)
  next
    case 7
    then show ?thesis using assms by (auto simp: escape_char_def string_loop.simps word_less_nat_alt word_le_nat_alt)
  qed (simp_all add: escape_char_def string_loop.simps simple_escape_def)
qed

text \<open>A character of several bytes.\<close>

lemma escape_high: "0x80 \<le> c \<Longrightarrow> escape_char c = [c]"
  by (auto simp: escape_char_def word_le_nat_alt word_less_nat_alt)

lemma escape_chunk: "list_all (\<lambda>c. 0x80 \<le> c) cs \<Longrightarrow> concat (map escape_char cs) = cs"
  by (induction cs) (auto simp: escape_high)

lemma string_loop_chunk:
  assumes "0x80 \<le> b" and "utf8_valid (b # cs)" and "char_len b = length (b # cs)"
  shows "string_loop p (b # cs @ r) out = string_loop (p + length (b # cs)) r (out @ b # cs)"
proof -
  have "b \<noteq> 0x22" "b \<noteq> 0x5C" using assms(1) by (auto simp: word_le_nat_alt)
  moreover have "\<not> b < 0x80" using assms(1) by simp
  moreover have "take (char_len b) (b # cs @ r) = b # cs" "drop (char_len b - 1) (cs @ r) = r" using assms(3) by simp_all
  ultimately show ?thesis using assms(2) by (simp add: string_loop.simps(2) Let_def del: utf8_valid.simps)
qed

lemma utf8_multi:
  assumes v: "utf8_valid (a # t)" and h: "\<not> a \<le> 0x7F"
  obtains (two) b t' where "0xC2 \<le> a" "a \<le> 0xDF" "t = b # t'" "cont b" "utf8_valid t'"
    | (three) b c t' where "\<not> (0xC2 \<le> a \<and> a \<le> 0xDF)" "0xE0 \<le> a" "a \<le> 0xEF" "t = b # c # t'" "cont b" "a = 0xE0 \<longrightarrow> 0xA0 \<le> b" "a = 0xED \<longrightarrow> b \<le> 0x9F" "cont c" "utf8_valid t'"
    | (four) b c d t' where "\<not> (0xC2 \<le> a \<and> a \<le> 0xDF)" "\<not> (0xE0 \<le> a \<and> a \<le> 0xEF)" "0xF0 \<le> a" "a \<le> 0xF4" "t = b # c # d # t'" "cont b"
        "a = 0xF0 \<longrightarrow> 0x90 \<le> b" "a = 0xF4 \<longrightarrow> b \<le> 0x8F" "cont c" "cont d" "utf8_valid t'"
proof (cases "0xC2 \<le> a \<and> a \<le> 0xDF")
  case True
  then show thesis using v h two by (cases t) simp_all
next
  case n2: False
  show thesis
  proof (cases "0xE0 \<le> a \<and> a \<le> 0xEF")
    case True
    then have "case t of b # c # t' \<Rightarrow> cont b \<and> (a = 0xE0 \<longrightarrow> 0xA0 \<le> b) \<and> (a = 0xED \<longrightarrow> b \<le> 0x9F) \<and> cont c \<and> utf8_valid t' | _ \<Rightarrow> False"
      using v h n2 by (simp only: utf8_valid.simps if_False if_True simp_thms)
    then obtain b c t' where "t = b # c # t'" "cont b" "a = 0xE0 \<longrightarrow> 0xA0 \<le> b" "a = 0xED \<longrightarrow> b \<le> 0x9F" "cont c" "utf8_valid t'"
      by (auto split: list.splits)
    then show thesis using three n2 True by blast
  next
    case n3: False
    then have r: "0xF0 \<le> a" "a \<le> 0xF4" using v h n2 by (simp_all only: utf8_valid.simps if_False split: if_splits)
    then have "case t of b # c # d # t' \<Rightarrow> cont b \<and> (a = 0xF0 \<longrightarrow> 0x90 \<le> b) \<and> (a = 0xF4 \<longrightarrow> b \<le> 0x8F) \<and> cont c \<and> cont d \<and> utf8_valid t' | _ \<Rightarrow> False"
      using v h n2 n3 by (simp only: utf8_valid.simps if_False if_True simp_thms)
    then obtain b c d t' where "t = b # c # d # t'" "cont b" "a = 0xF0 \<longrightarrow> 0x90 \<le> b" "a = 0xF4 \<longrightarrow> b \<le> 0x8F" "cont c" "cont d" "utf8_valid t'"
      by (auto split: list.splits)
    then show thesis using four n2 n3 r by blast
  qed
qed

lemma string_loop_escaped:
  "utf8_valid s \<Longrightarrow> string_loop p (concat (map escape_char s) @ 0x22 # r) out = (Inr (out @ s), (p + length (concat (map escape_char s)) + 1, r))"
proof (induction s arbitrary: p out rule: utf8_valid.induct)
  case 1
  then show ?case by (simp add: string_loop.simps)
next
  case (2 a t)
  show ?case
  proof (cases "a \<le> 0x7F")
    case True
    then have "a < 0x80" by (simp add: word_le_nat_alt word_less_nat_alt)
    then show ?thesis using 2(1) [OF True] 2(5) True string_loop_char [of a p "concat (map escape_char t) @ 0x22 # r" out] by (simp add: add.assoc)
  next
    case high: False
    then have a: "0x80 \<le> a" by (simp add: word_le_nat_alt word_less_nat_alt not_le)
    note valid = 2(5) and IH = 2(2-4)
    have rest: "\<exists>cs t'. t = cs @ t' \<and> utf8_valid (a # cs) \<and> utf8_valid t' \<and> char_len a = length (a # cs) \<and> list_all (\<lambda>c. 0x80 \<le> c) cs \<and>
        (\<forall>p out. string_loop p (concat (map escape_char t') @ 0x22 # r) out = (Inr (out @ t'), (p + length (concat (map escape_char t')) + 1, r)))"
    proof -
      consider (two) b t' where "0xC2 \<le> a" "a \<le> 0xDF" "t = b # t'" "cont b" "utf8_valid t'"
        | (three) b c t' where "\<not> (0xC2 \<le> a \<and> a \<le> 0xDF)" "0xE0 \<le> a" "a \<le> 0xEF" "t = b # c # t'" "cont b" "a = 0xE0 \<longrightarrow> 0xA0 \<le> b" "a = 0xED \<longrightarrow> b \<le> 0x9F" "cont c" "utf8_valid t'"
        | (four) b c d t' where "\<not> (0xC2 \<le> a \<and> a \<le> 0xDF)" "\<not> (0xE0 \<le> a \<and> a \<le> 0xEF)" "0xF0 \<le> a" "a \<le> 0xF4" "t = b # c # d # t'" "cont b"
            "a = 0xF0 \<longrightarrow> 0x90 \<le> b" "a = 0xF4 \<longrightarrow> b \<le> 0x8F" "cont c" "cont d" "utf8_valid t'"
        by (rule utf8_multi [OF valid high])
      then show ?thesis
      proof cases
        case two
        have l: "char_len a = 2" using two(2) by (auto simp: char_len_def word_le_nat_alt)
        have v: "utf8_valid [a, b]" "0x80 \<le> b" using two(1,2,4) high by (subst utf8_valid.simps(2), simp, simp add: cont_def)
        have "string_loop p (concat (map escape_char t') @ 0x22 # r) out = (Inr (out @ t'), (p + length (concat (map escape_char t')) + 1, r))" for p out
          using IH(1) [OF high _ two(3,5)] two(1,2) by blast
        then show ?thesis using two(3,5) l v by (intro exI [of _ "[b]"] exI [of _ t'] conjI allI) (simp_all del: utf8_valid.simps)
      next
        case three
        have l: "char_len a = 3" using three(2,3) by (auto simp: char_len_def word_le_nat_alt)
        have "utf8_valid [a, b, c]"
          using three(1-3,5-8) high by (simp only: utf8_valid.simps(2) [of a "[b, c]"] utf8_valid.simps(1) if_False if_True list.case simp_thms)
        then have v: "utf8_valid [a, b, c]" "0x80 \<le> b" "0x80 \<le> c" using three(5,8) by (simp_all add: cont_def del: utf8_valid.simps)
        have "string_loop p (concat (map escape_char t') @ 0x22 # r) out = (Inr (out @ t'), (p + length (concat (map escape_char t')) + 1, r))" for p out
          using IH(2) [OF high three(1) _ three(4) refl three(9)] three(2,3) by blast
        then show ?thesis using three(4,9) l v by (intro exI [of _ "[b, c]"] exI [of _ t'] conjI allI) (simp_all del: utf8_valid.simps)
      next
        case four
        have l: "char_len a = 4" using four(3) by (simp add: char_len_def)
        have "utf8_valid [a, b, c, d]"
          using four(1-4,6-10) high by (simp only: utf8_valid.simps(2) [of a "[b, c, d]"] utf8_valid.simps(1) if_False if_True list.case simp_thms)
        then have v: "utf8_valid [a, b, c, d]" "0x80 \<le> b" "0x80 \<le> c" "0x80 \<le> d" using four(6,9,10) by (simp_all add: cont_def del: utf8_valid.simps)
        have "string_loop p (concat (map escape_char t') @ 0x22 # r) out = (Inr (out @ t'), (p + length (concat (map escape_char t')) + 1, r))" for p out
          using IH(3) [OF high four(1,2) _ four(5) refl refl four(11)] four(3,4) by blast
        then show ?thesis using four(5,11) l v by (intro exI [of _ "[b, c, d]"] exI [of _ t'] conjI allI) (simp_all del: utf8_valid.simps)
      qed
    qed
    then obtain cs t' where t: "t = cs @ t'" "utf8_valid (a # cs)" "char_len a = length (a # cs)" "list_all (\<lambda>c. 0x80 \<le> c) cs"
        "\<And>p out. string_loop p (concat (map escape_char t') @ 0x22 # r) out = (Inr (out @ t'), (p + length (concat (map escape_char t')) + 1, r))"
      by blast
    have eq: "concat (map escape_char (a # t)) = a # cs @ concat (map escape_char t')"
      using t(1) escape_high [OF a] escape_chunk [OF t(4)] by simp
    have "string_loop p ((a # cs @ concat (map escape_char t')) @ 0x22 # r) out = (Inr (out @ a # t), (p + length (a # cs @ concat (map escape_char t')) + 1, r))"
      using string_loop_chunk [OF a t(2,3), of p "concat (map escape_char t') @ 0x22 # r" out] t(5) t(1) by (simp add: add.assoc)
    then show ?thesis by (simp only: eq)
  qed
qed

lemma json_string_written:
  "utf8_valid s \<Longrightarrow> json_string (p, write_json_string s @ r) = (Inr s, (p + length (write_json_string s), r))"
  by (simp add: json_string_def expect_def bump_def obind_def write_json_string_def push_escaped_eq string_loop_escaped)

lemma write_json_string_hd: "write_json_string s = 0x22 # tl (write_json_string s)"
  by (simp add: write_json_string_def)

section \<open>Blanks\<close>

definition inked :: "bytes \<Rightarrow> bool" where
  "inked r \<longleftrightarrow> (case r of [] \<Rightarrow> False | b # _ \<Rightarrow> \<not> is_ws b)"

lemma skip_ws_inked [simp]: "inked r \<Longrightarrow> skip_ws (p, r) = (Inr (), (p, r))"
  by (cases r) (auto simp: inked_def skip_ws_def)

lemma skip_ws_nil [simp]: "skip_ws (p, []) = (Inr (), (p, []))"
  by (simp add: skip_ws_def)

lemma inked_Cons [simp]: "inked (b # r) \<longleftrightarrow> \<not> is_ws b"
  by (simp add: inked_def)

end
