(* ===== verification/Json_Roundtrip.thy ===== *)
theory Json_Roundtrip
  imports Json_Props
begin

text \<open>
  Reading back what the writer produced, for every value it can represent: the dispatch of the parser on the
  first byte, the loops over items and entries, the marker objects, and the induction over values.
\<close>

section \<open>The values with a faithful JSON form\<close>

text \<open>
  A NaN other than the canonical one and a negative decimal zero lose their exact pattern, a timestamp outside
  the range of the calendar comes back as an object, and so does an object shaped like a marker come back
  as the scalar it looks like.
\<close>

fun json_ok :: "'d decimal_ops \<Rightarrow> 'd text_ops \<Rightarrow> 'd Value \<Rightarrow> bool" where
  "json_ok D T (Float f) \<longleftrightarrow> f64_finite f \<or> f = f64_nan \<or> f = f64_inf \<or> f = f64_neg_inf"
| "json_ok D T (Decimal d) \<longleftrightarrow> dec_valid D d \<and> \<not> (dec_is_zero D d \<and> dec_is_sign_negative D d)"
| "json_ok D T (Timestamp ms) \<longleftrightarrow> is_valid_timestamp_ms ms"
| "json_ok D T (Str s) \<longleftrightarrow> utf8_valid s"
| "json_ok D T (Array xs) \<longleftrightarrow> (\<forall>x \<in> set xs. json_ok D T x)"
| "json_ok D T (Object es) \<longleftrightarrow>
     strictly_sorted (map fst es) \<and> (\<forall>(k, v) \<in> set es. utf8_valid k \<and> json_ok D T v) \<and> decode_marker T es = Object es"
| "json_ok D T _ \<longleftrightarrow> True"

text \<open>The nesting the parser meets, with the marker objects counted.\<close>

fun json_fits :: "nat \<Rightarrow> 'd Value \<Rightarrow> bool" where
  "json_fits depth (Float f) \<longleftrightarrow> depth + (if f64_finite f then 0 else 1) \<le> JSON_MAX_DEPTH"
| "json_fits depth (Decimal d) \<longleftrightarrow> depth + 1 \<le> JSON_MAX_DEPTH"
| "json_fits depth (Timestamp ms) \<longleftrightarrow> depth + 1 \<le> JSON_MAX_DEPTH"
| "json_fits depth (Bytes b) \<longleftrightarrow> depth + (if b = [] then 1 else 2) \<le> JSON_MAX_DEPTH"
| "json_fits depth (Array xs) \<longleftrightarrow> depth \<le> JSON_MAX_DEPTH \<and> (\<forall>x \<in> set xs. json_fits (depth + 1) x)"
| "json_fits depth (Object es) \<longleftrightarrow> depth \<le> JSON_MAX_DEPTH \<and> (\<forall>e \<in> set es. json_fits (depth + 1) (snd e))"
| "json_fits depth _ \<longleftrightarrow> depth \<le> JSON_MAX_DEPTH"

section \<open>Dispatch on the first byte\<close>

lemma digit_bytes: "is_digit b \<Longrightarrow> b \<notin> {0x6E, 0x74, 0x66, 0x22, 0x5B, 0x7B, 0x5D} \<and> \<not> is_ws b"
  by (auto simp: is_digit_def is_ws_def word_le_nat_alt)

lemma json_value_number:
  assumes "d \<le> JSON_MAX_DEPTH" and "b = 0x2D \<or> is_digit b"
  shows "json_value T d (p, b # r) = number T (p, b # r)"
  using assms digit_bytes [of b] by (auto simp: json_value.simps(1) [of T d] obind_def peek_def is_ws_def)

lemma json_value_string:
  assumes "d \<le> JSON_MAX_DEPTH" and "utf8_valid s"
  shows "json_value T d (p, write_json_string s @ r) = (Inr (Str s), (p + length (write_json_string s), r))"
proof -
  have "peek (p, write_json_string s @ r) = Some 0x22" "inked (write_json_string s @ r)"
    by (subst write_json_string_hd, simp add: peek_def is_ws_def)+
  then show ?thesis using assms json_string_written [OF assms(2), of p r] by (simp add: json_value.simps(1) [of T d] obind_def)
qed

lemma json_value_array:
  assumes "d \<le> JSON_MAX_DEPTH" and "\<not> is_ws c" and "c \<noteq> 0x5D"
  shows "json_value T d (p, 0x5B # c # r) = array_loop T (Suc (Suc (length r))) (d + 1) [] (p + 1, c # r)"
  using assms by (simp add: json_value.simps(1) [of T d] obind_def peek_def bump_def is_ws_def)

lemma json_value_object:
  assumes "d \<le> JSON_MAX_DEPTH" and "\<not> is_ws c" and "c \<noteq> 0x7D"
  shows "json_value T d (p, 0x7B # c # r) = object_loop T (Suc (Suc (length r))) (d + 1) [] (p + 1, c # r)"
  using assms by (simp add: json_value.simps(1) [of T d] obind_def peek_def bump_def is_ws_def)

lemma json_value_empty:
  assumes "d \<le> JSON_MAX_DEPTH"
  shows "json_value T d (p, 0x5B # 0x5D # r) = (Inr (Array []), (p + 2, r))"
    and "json_value T d (p, 0x7B # 0x7D # r) = (Inr (Object []), (p + 2, r))"
  using assms by (simp_all add: json_value.simps(1) [of T d] obind_def peek_def bump_def is_ws_def)

lemma json_value_literal:
  assumes "d \<le> JSON_MAX_DEPTH"
  shows "json_value T d (p, ascii ''null'' @ r) = (Inr Null, (p + length (ascii ''null''), r))"
    and "json_value T d (p, ascii ''true'' @ r) = (Inr (Bool True), (p + length (ascii ''true''), r))"
    and "json_value T d (p, ascii ''false'' @ r) = (Inr (Bool False), (p + length (ascii ''false''), r))"
  using assms by (simp_all add: json_value.simps(1) [of T d] obind_def peek_def is_ws_def lit_def ascii_def)

section \<open>The loops\<close>

lemma array_loop_step:
  assumes "json_value T d (p, w @ c # r) = (Inr v, (p', c # r))" and "c = 0x2C \<or> c = 0x5D"
  shows "array_loop T (Suc n) d items (p, w @ c # r) =
    (if c = 0x2C then array_loop T n d (items @ [v]) (p' + 1, r) else (Inr (Array (items @ [v])), (p' + 1, r)))"
  using assms by (auto simp: obind_def bump_def is_ws_def)

lemma object_loop_step:
  assumes "utf8_valid k" and "json_value T d (p + length (write_json_string k) + 1, w @ c # r) = (Inr v, (p', c # r))"
    and "c = 0x2C \<or> c = 0x7D"
  shows "object_loop T (Suc n) d obj (p, write_json_string k @ 0x3A # w @ c # r) =
    (if c = 0x2C then object_loop T n d (fst (btree_insert k v obj)) (p' + 1, r)
     else (Inr (decode_marker T (fst (btree_insert k v obj))), (p' + 1, r)))"
proof -
  have i: "inked (write_json_string k @ 0x3A # w @ c # r)" by (subst write_json_string_hd) (simp add: is_ws_def)
  show ?thesis
    using assms(2,3) i json_string_written [OF assms(1), of p "0x3A # w @ c # r"]
    by (auto simp: obind_def bump_def is_ws_def expect_def)
qed

definition reads_back :: "'d text_ops \<Rightarrow> nat \<Rightarrow> 'd Value \<Rightarrow> bool" where
  "reads_back T d v \<longleftrightarrow>
     (\<forall>p r. ends_number r \<longrightarrow> json_value T d (p, write_value T v @ r) = (Inr v, (p + length (write_value T v), r)))"

lemma ends_number_mark: "b \<in> {0x2C, 0x5D, 0x7D} \<Longrightarrow> ends_number (b # r)"
  by (auto simp: ends_number_def num_byte_def is_digit_def is_float_mark_def word_le_nat_alt)

lemma write_items_sep: "xs \<noteq> [] \<Longrightarrow> write_items T True xs = 0x2C # write_items T False xs"
  by (cases xs) auto

lemma write_entries_sep: "es \<noteq> [] \<Longrightarrow> write_entries T True es = 0x2C # write_entries T False es"
  by (cases es) auto

lemma array_loop_items:
  "xs \<noteq> [] \<Longrightarrow> \<forall>x \<in> set xs. reads_back T d x \<Longrightarrow> length xs \<le> n \<Longrightarrow>
   array_loop T n d items (p, write_items T False xs @ 0x5D # r) =
     (Inr (Array (items @ xs)), (p + length (write_items T False xs) + 1, r))"
proof (induction xs arbitrary: n items p)
  case (Cons x xs)
  obtain m where n: "n = Suc m" using Cons.prems(3) by (cases n) auto
  show ?case
  proof (cases "xs = []")
    case True
    then show ?thesis
      using array_loop_step [of T d p "write_value T x" "0x5D" r x] Cons.prems(2) n ends_number_mark [of "0x5D" r] by (simp add: reads_back_def)
  next
    case False
    have "json_value T d (p, write_value T x @ 0x2C # (write_items T False xs @ 0x5D # r)) =
        (Inr x, (p + length (write_value T x), 0x2C # (write_items T False xs @ 0x5D # r)))"
      using Cons.prems(2) ends_number_mark [of "0x2C"] by (simp add: reads_back_def)
    from array_loop_step [OF this] show ?thesis
      using Cons.IH [OF False, of m "items @ [x]" "p + length (write_value T x) + 1"] Cons.prems(2,3) n write_items_sep [OF False, of T]
      by (simp add: add.assoc add.left_commute)
  qed
qed simp

lemma object_loop_entries:
  "es \<noteq> [] \<Longrightarrow> \<forall>(k, v) \<in> set es. utf8_valid k \<and> reads_back T d v \<Longrightarrow> length es \<le> n \<Longrightarrow>
   strictly_sorted (map fst (obj @ es)) \<Longrightarrow>
   object_loop T n d obj (p, write_entries T False es @ 0x7D # r) =
     (Inr (decode_marker T (obj @ es)), (p + length (write_entries T False es) + 1, r))"
proof (induction es arbitrary: n obj p)
  case (Cons e es)
  obtain k v where e: "e = (k, v)" by (cases e)
  obtain m where n: "n = Suc m" using Cons.prems(3) by (cases n) auto
  have k: "utf8_valid k" "reads_back T d v" using Cons.prems(2) e by auto
  have ins: "fst (btree_insert k v obj) = obj @ [(k, v)]"
    using btree_insert_last [of obj k v] strictly_sorted_appendD [of "map fst obj" k "map fst es"] Cons.prems(4) e by simp
  let ?q = "p + length (write_json_string k) + 1"
  show ?case
  proof (cases "es = []")
    case True
    have "json_value T d (?q, write_value T v @ 0x7D # r) = (Inr v, (?q + length (write_value T v), 0x7D # r))"
      using k(2) ends_number_mark [of "0x7D" r] by (simp add: reads_back_def)
    from object_loop_step [OF k(1) this] show ?thesis using True e n ins by (simp add: add.assoc)
  next
    case False
    have "json_value T d (?q, write_value T v @ 0x2C # (write_entries T False es @ 0x7D # r)) =
        (Inr v, (?q + length (write_value T v), 0x2C # (write_entries T False es @ 0x7D # r)))"
      using k(2) ends_number_mark [of "0x2C"] by (simp add: reads_back_def)
    from object_loop_step [OF k(1) this] show ?thesis
      using Cons.IH [OF False, of m "obj @ [(k, v)]" "?q + length (write_value T v) + 1"] Cons.prems(2-4) n e ins write_entries_sep [OF False, of T]
      by (simp add: add.assoc add.left_commute)
  qed
qed simp

section \<open>Markers\<close>

lemma marker_text:
  assumes "name \<in> {''$float'', ''$dec'', ''$ts'', ''$bytes''}"
  shows "marker name = 0x7B # write_json_string (ascii name) @ [0x3A]" and "utf8_valid (ascii name)"
  using assms by (auto simp: marker_def write_json_string_def push_escaped_def needs_escape_def ascii_def)

lemma json_value_marker:
  assumes name: "name \<in> {''$float'', ''$dec'', ''$ts'', ''$bytes''}" and d: "d \<le> JSON_MAX_DEPTH"
    and v: "json_value T (d + 1) (p + length (marker name), w @ 0x7D # r) = (Inr v, (p + length (marker name) + length w, 0x7D # r))"
  shows "json_value T d (p, marker name @ w @ 0x7D # r) = (Inr (decode_marker T [(ascii name, v)]), (p + length (marker name) + length w + 1, r))"
proof -
  note m = marker_text [OF name]
  obtain t where t: "write_json_string (ascii name) @ 0x3A # w @ 0x7D # r = 0x22 # t" using write_json_string_hd by (metis append_Cons)
  have "json_value T d (p, marker name @ w @ 0x7D # r) = object_loop T (Suc (Suc (length t))) (d + 1) [] (p + 1, 0x22 # t)"
    using json_value_object [OF d, of "0x22" T p t] m(1) t by (simp add: is_ws_def)
  also have "\<dots> = (Inr (decode_marker T [(ascii name, v)]), (p + length (marker name) + length w + 1, r))"
    using object_loop_step [OF m(2), of T "d + 1" "p + 1" w "0x7D" r v] v m(1) unfolding t [symmetric] by (simp add: add.assoc)
  finally show ?thesis .
qed

lemma sint_ucast_byte: "sint (ucast (x :: u8) :: i64) = int (unat x)"
proof -
  have "uint (ucast x :: i64) = uint x" using uint_lt2p [of x] by (simp add: unsigned_ucast_eq take_bit_int_eq_self)
  moreover have "- (2 ^ 63) \<le> uint x" "uint x < 2 ^ 63" using uint_lt2p [of x] by (simp_all add: order_trans [OF _ uint_ge_0])
  ultimately show ?thesis by (simp add: sint_uint signed_take_bit_int_eq_self)
qed

lemma bytes_items: "write_bytes_items sep b = write_items T sep (map (\<lambda>x. Int64 (ucast x)) b)"
  by (induction b arbitrary: sep) (auto simp: int_digits_def sint_ucast_byte)

lemma bytes_of_items_bytes: "bytes_of_items (map (\<lambda>x. Int64 (ucast x)) b) = Some b"
proof -
  have "int (unat x) \<le> 255 \<and> ucast (ucast x :: i64) = x" for x :: u8
  proof -
    have "unsigned (ucast (ucast x :: i64) :: u8) = (unsigned x :: int)"
      using uint_lt2p [of x] by (simp add: unsigned_ucast_eq unsigned_take_bit_eq take_bit_int_eq_self)
    then have "ucast (ucast x :: i64) = x" by (rule word_uint_eqI)
    then show ?thesis using uint_lt2p [of x] by simp
  qed
  then show ?thesis by (induction b) (auto simp: sint_ucast_byte)
qed

section \<open>All values\<close>

lemma int_digits_hd:
  obtains b t where "int_digits i = b # t" and "b = 0x2D \<or> is_digit b"
proof -
  obtain sign body where "int_digits i = sign @ body" "sign = [] \<or> sign = [0x2D]" "body \<noteq> []" "list_all is_digit body"
    by (rule int_digits_split)
  then show thesis using that by (cases body) auto
qed

lemma float_text_hd:
  assumes "text_laws D T" and "f64_finite f"
  obtains b t where "fmt_f64 T f = b # t" and "b = 0x2D \<or> is_digit b"
proof -
  obtain sign body where "fmt_f64 T f = sign @ body" "sign = [] \<or> sign = [0x2D]" "body \<noteq> []" "is_digit (hd body)"
    using assms unfolding text_laws_def by blast
  then show thesis using that by (cases body) auto
qed

lemma number_start: "b = 0x2D \<or> is_digit b \<Longrightarrow> \<not> is_ws b \<and> b \<noteq> 0x5D"
  using digit_bytes [of b] by (auto simp: is_ws_def)

lemma write_value_hd:
  assumes "text_laws D T"
  obtains b t where "write_value T v = b # t" and "\<not> is_ws b" and "b \<noteq> 0x5D"
proof (cases v)
  case (Int64 i)
  then show thesis using int_digits_hd [of "sint i"] number_start that by (metis write_value.simps(3))
next
  case (Float f)
  show thesis
  proof (cases "f64_finite f")
    case True
    then show thesis using Float float_text_hd [OF assms True] number_start that by (metis write_value.simps(4))
  qed (use Float that in \<open>auto simp: marker_def is_ws_def\<close>)
next
  case (Bool b)
  then show thesis using that by (cases b) (auto simp: ascii_def is_ws_def)
next
  case (Str s)
  then show thesis using that write_json_string_hd [of s] by (auto simp: is_ws_def)
qed (use that in \<open>auto simp: marker_def is_ws_def ascii_def\<close>)

lemma write_items_length:
  assumes "text_laws D T"
  shows "length xs \<le> length (write_items T sep xs)"
proof (induction xs arbitrary: sep)
  case (Cons x xs)
  obtain b t where "write_value T x = b # t" by (rule write_value_hd [OF assms])
  then show ?case using Cons [of True] by simp
qed simp

lemma write_entries_length: "length es \<le> length (write_entries T sep es)"
  by (induction es arbitrary: sep) (auto simp: trans_le_add2 le_SucI)

lemma reads_int: "d \<le> JSON_MAX_DEPTH \<Longrightarrow> ends_number r \<Longrightarrow>
    json_value T d (p, int_digits (sint i) @ r) = (Inr (Int64 i), (p + length (int_digits (sint i)), r))"
  using int_digits_hd [of "sint i"] json_value_number [of d _ T p] number_int [of r T p i] by (metis append_Cons)

lemma reads_float: "text_laws D T \<Longrightarrow> f64_finite f \<Longrightarrow> d \<le> JSON_MAX_DEPTH \<Longrightarrow> ends_number r \<Longrightarrow>
    json_value T d (p, fmt_f64 T f @ r) = (Inr (Float f), (p + length (fmt_f64 T f), r))"
  using float_text_hd [of D T f] json_value_number [of d _ T p] number_float [of D T f r p] by (metis append_Cons)

lemma reads_array:
  assumes "text_laws D T" and "d \<le> JSON_MAX_DEPTH" and "\<forall>x \<in> set xs. reads_back T (d + 1) x"
  shows "json_value T d (p, 0x5B # write_items T False xs @ 0x5D # r) = (Inr (Array xs), (p + length (write_items T False xs) + 2, r))"
proof (cases xs)
  case Nil
  then show ?thesis using json_value_empty(1) [OF assms(2)] by simp
next
  case (Cons x ys)
  obtain b t where b: "write_value T x = b # t" "\<not> is_ws b" "b \<noteq> 0x5D" by (rule write_value_hd [OF assms(1)])
  obtain u where u: "write_items T False xs @ 0x5D # r = b # u" using Cons b(1) by simp
  have "length xs \<le> length (write_items T False xs)" by (rule write_items_length [OF assms(1)])
  then have "length xs \<le> Suc (Suc (length u))" using arg_cong [OF u, of length] by simp
  then show ?thesis
    using json_value_array [OF assms(2) b(2,3), of T p u] array_loop_items [OF _ assms(3), of "Suc (Suc (length u))" "[]" "p + 1" r] Cons u
    by (simp add: add.assoc)
qed

lemma reads_object:
  assumes "d \<le> JSON_MAX_DEPTH" and "\<forall>(k, v) \<in> set es. utf8_valid k \<and> reads_back T (d + 1) v" and "strictly_sorted (map fst es)"
    and "decode_marker T es = Object es"
  shows "json_value T d (p, 0x7B # write_entries T False es @ 0x7D # r) = (Inr (Object es), (p + length (write_entries T False es) + 2, r))"
proof (cases es)
  case Nil
  then show ?thesis using json_value_empty(2) [OF assms(1)] by simp
next
  case (Cons e es')
  obtain u where u: "write_entries T False es @ 0x7D # r = 0x22 # u"
    using Cons that by (cases e) (simp add: write_json_string_def)
  have "length es \<le> Suc (Suc (length u))" using write_entries_length [of es T False] arg_cong [OF u, of length] by simp
  then show ?thesis
    using json_value_object [OF assms(1), of "0x22" T p u] object_loop_entries [OF _ assms(2), of "Suc (Suc (length u))" "[]" "p + 1" r] Cons u assms(3,4)
    by (simp add: add.assoc is_ws_def)
qed

lemma special_floats:
  "\<not> f64_finite f64_nan" "\<not> f64_finite f64_inf" "\<not> f64_finite f64_neg_inf"
  "parse_float_marker (float_marker_text f64_nan) = Some f64_nan"
  "parse_float_marker (float_marker_text f64_inf) = Some f64_inf"
  "parse_float_marker (float_marker_text f64_neg_inf) = Some f64_neg_inf"
  by (simp_all add: f64_finite_def is_nan_def is_infinite_def f64_exp_bits_def f64_frac_def f64_nan_def f64_inf_def f64_neg_inf_def
      f64_neg_def parse_float_marker_def float_marker_text_def ascii_def)

lemma quoted_plain:
  assumes "list_all (\<lambda>b. 0x20 \<le> b \<and> b < 0x80 \<and> b \<noteq> 0x22 \<and> b \<noteq> 0x5C) s"
  shows "write_json_string s = 0x22 # s @ [0x22]" and "utf8_valid s"
proof -
  have "concat (map escape_char s) = s" using assms by (induction s) (auto simp: escape_char_def word_le_nat_alt word_less_nat_alt)
  then show "write_json_string s = 0x22 # s @ [0x22]" by (simp add: write_json_string_def push_escaped_eq)
  show "utf8_valid s" using assms by (induction s) (auto simp: word_le_nat_alt word_less_nat_alt)
qed

text \<open>A string behind a marker.\<close>

lemma json_value_string_marker:
  assumes "name \<in> {''$float'', ''$dec'', ''$ts'', ''$bytes''}" and "d + 1 \<le> JSON_MAX_DEPTH"
    and "list_all (\<lambda>b. 0x20 \<le> b \<and> b < 0x80 \<and> b \<noteq> 0x22 \<and> b \<noteq> 0x5C) s"
  shows "json_value T d (p, marker name @ 0x22 # s @ [0x22, 0x7D] @ r) =
    (Inr (decode_marker T [(ascii name, Str s)]), (p + length (marker name) + length s + 3, r))"
  using json_value_marker [OF assms(1), of d T p "write_json_string s" r "Str s"]
    json_value_string [OF assms(2) quoted_plain(2) [OF assms(3)], of T "p + length (marker name)" "0x7D # r"] assms(2)
  by (simp add: quoted_plain(1) [OF assms(3)] numeral_3_eq_3)

lemma all_read_back:
  assumes "text_laws D T"
  shows "json_ok D T v \<Longrightarrow> json_fits d v \<Longrightarrow> reads_back T d v"
proof (induction v arbitrary: d)
  case Null
  then show ?case by (simp add: reads_back_def json_value_literal)
next
  case (Bool b)
  then show ?case by (cases b) (simp_all add: reads_back_def json_value_literal)
next
  case (Int64 i)
  then show ?case by (simp add: reads_back_def reads_int)
next
  case (Float f)
  show ?case
  proof (cases "f64_finite f")
    case True
    then show ?thesis using Float by (simp add: reads_back_def reads_float [OF assms])
  next
    case False
    then have f: "f = f64_nan \<or> f = f64_inf \<or> f = f64_neg_inf" using Float by simp
    have "list_all (\<lambda>b. 0x20 \<le> b \<and> b < 0x80 \<and> b \<noteq> 0x22 \<and> b \<noteq> 0x5C) (float_marker_text f)"
      by (simp add: float_marker_text_def ascii_def)
    moreover have "decode_marker T [(ascii ''$float'', Str (float_marker_text f))] = Float f"
      using f special_floats(4-6) by (auto simp: decode_marker_def ascii_def)
    ultimately show ?thesis using False Float json_value_string_marker [of "''$float''" d "float_marker_text f" T] by (simp add: reads_back_def)
  qed
next
  case (Decimal x)
  have "list_all (\<lambda>b. is_digit b \<or> b = 0x2E \<or> b = 0x2D) (fmt_dec T x)" using assms by (simp add: text_laws_def)
  then have "list_all (\<lambda>b. 0x20 \<le> b \<and> b < 0x80 \<and> b \<noteq> 0x22 \<and> b \<noteq> 0x5C) (fmt_dec T x)"
    by (rule list.pred_mono_strong) (auto simp: is_digit_def word_le_nat_alt word_less_nat_alt)
  moreover have "decode_marker T [(ascii ''$dec'', Str (fmt_dec T x))] = Decimal x"
    using Decimal assms by (simp add: decode_marker_def text_laws_def)
  ultimately show ?case using Decimal json_value_string_marker [of "''$dec''" d "fmt_dec T x" T] by (simp add: reads_back_def)
next
  case (Timestamp ms)
  have "decode_marker T [(ascii ''$ts'', Int64 ms)] = Timestamp ms"
    using Timestamp by (simp add: decode_marker_def ascii_def)
  then show ?case
    using Timestamp json_value_marker [of "''$ts''" d T] reads_int [of "d + 1" "0x7D # _" T] ends_number_mark [of "0x7D"]
    by (simp add: reads_back_def add.assoc)
next
  case (Str s)
  then show ?case by (simp add: reads_back_def json_value_string)
next
  case (Bytes b)
  let ?xs = "map (\<lambda>x. Int64 (ucast x)) b"
  have "\<forall>x \<in> set ?xs. reads_back T (d + 1 + 1) x" using Bytes by (cases b) (auto simp: reads_back_def reads_int)
  from reads_array [OF assms _ this] have *: "json_value T (d + 1) (p, 0x5B # write_bytes_items False b @ 0x5D # r) =
      (Inr (Array ?xs), (p + length (write_bytes_items False b) + 2, r))" for p r
    using Bytes bytes_items [of False b T] by (simp split: if_splits)
  have "decode_marker T [(ascii ''$bytes'', Array ?xs)] = Bytes b"
    by (simp add: decode_marker_def ascii_def bytes_of_items_bytes)
  then show ?case
    using json_value_marker [of "''$bytes''" d T _ "0x5B # write_bytes_items False b @ [0x5D]"] * Bytes
    by (simp add: reads_back_def add.assoc split: if_splits)
next
  case (Array xs)
  then have "\<forall>x \<in> set xs. reads_back T (d + 1) x" by simp
  from reads_array [OF assms _ this] show ?case using Array.prems by (simp add: reads_back_def)
next
  case (Object es)
  then have "\<forall>(k, v) \<in> set es. utf8_valid k \<and> reads_back T (d + 1) v" by (fastforce simp: snds.simps)
  from reads_object [OF _ this] show ?case using Object.prems by (simp add: reads_back_def)
qed

lemma from_json_to_json:
  assumes "text_laws D T" and "json_ok D T v" and "json_fits 0 v"
  shows "from_json T (to_json T v) = Inr v"
proof -
  obtain b t where b: "write_value T v = b # t" "\<not> is_ws b" by (rule write_value_hd [OF assms(1)])
  have "json_value T 0 (0, write_value T v @ []) = (Inr v, (length (write_value T v), []))"
    using all_read_back [OF assms] by (simp add: reads_back_def ends_number_def)
  then show ?thesis using b by (simp add: from_json_def to_json_def obind_def)
qed

end
