(* ===== verification/Json_Properties.thy ===== *)
theory Json_Properties
  imports Json_Roundtrip Decimal_Model
begin

text \<open>
  The round trip of the JSON form, and an instance of the text parameter on which it is exercised: numbers
  printed as the digits of their pattern.
\<close>

definition ex_text :: "ex_decimal text_ops" where
  "ex_text =
     \<lparr>fmt_f64 = (\<lambda>f. nat_digits (unat f) @ [0x2E]),
      parse_f64 = (\<lambda>s. Some (word_of_nat (digits_val (butlast s)))),
      fmt_dec = (\<lambda>d. nat_digits (unat (fst d) * 2 ^ 96 + unat (snd d))),
      parse_dec = (\<lambda>s. Some (word_of_nat (digits_val s div 2 ^ 96), word_of_nat (digits_val s mod 2 ^ 96)))\<rparr>"

lemma ex_text_laws: "text_laws D ex_text"
proof -
  note ok = nat_digits_ok [THEN conjunct1] nat_digits_ok [THEN conjunct2, THEN conjunct1] nat_digits_ok [THEN conjunct2, THEN conjunct2]
  have f: "parse_f64 ex_text (fmt_f64 ex_text f) = Some f" for f by (simp add: ex_text_def ok)
  have shape: "\<exists>sign body. fmt_f64 ex_text f = sign @ body \<and> (sign = [] \<or> sign = [0x2D]) \<and> body \<noteq> [] \<and> is_digit (hd body) \<and>
      list_all num_byte body \<and> list_ex is_float_mark body" for f
  proof (intro exI conjI)
    show "fmt_f64 ex_text f = [] @ (nat_digits (unat f) @ [0x2E])" by (simp add: ex_text_def)
    show "is_digit (hd (nat_digits (unat f) @ [0x2E]))" using ok(1,2) [of "unat f"] by (cases "nat_digits (unat f)") auto
    show "list_all num_byte (nat_digits (unat f) @ [0x2E])"
      using ok(1) [of "unat f"] digit_no_mark by (auto simp: list_all_iff num_byte_def is_float_mark_def)
  qed (auto simp: is_float_mark_def)
  have "parse_dec ex_text (fmt_dec ex_text d) = Some d" for d
    using unat_bound [of "snd d"] by (simp add: ex_text_def ok)
  moreover have "list_all (\<lambda>b. is_digit b \<or> b = 0x2E \<or> b = 0x2D) (fmt_dec ex_text d)" for d
    using ok(1) by (simp add: ex_text_def list_all_iff)
  ultimately show ?thesis using f shape unfolding text_laws_def by blast
qed

text \<open>\<open>C30\<close>: the JSON form of a value reads back as that value: every integer, finite float, infinity, the
  canonical NaN, decimal, timestamp, string with any UTF-8 content, byte string, array and object (of at most
  128 levels, marker objects counted) survives \<open>to_string\<close> followed by \<open>from_str\<close>, unless an object in it has
  the exact shape of a marker.\<close>

theorem json_roundtrip:
  assumes "text_laws D T" and "json_ok D T v" and "json_fits 0 v"
  shows "from_json T (to_json T v) = Inr v"
  by (rule from_json_to_json [OF assms])

definition ex_json_value :: "ex_decimal Value" where
  "ex_json_value =
     Object [(ascii ''a'', Array [Int64 (- 5), Null, Timestamp 0, Bytes [1, 255], Float f64_neg_inf, Float 0, Decimal (0, 7), Object []]),
             (ascii ''b'', Str [0x0A, 0x22, 0xC3, 0xA9, 0x01])]"

theorem json_roundtrip_witness:
  "text_laws ex_dec ex_text \<and> json_ok ex_dec ex_text ex_json_value \<and> json_fits 0 ex_json_value \<and>
   from_json ex_text (to_json ex_text ex_json_value) = Inr ex_json_value"
proof -
  have ok: "json_ok ex_dec ex_text ex_json_value"
    by (simp add: ex_json_value_def ascii_def decode_marker_def is_valid_timestamp_ms_def TIMESTAMP_MIN_MS_def TIMESTAMP_MAX_MS_def
        cmp_bytes_def cmp_of_def cont_def dec_valid_def ex_scale_def f64_finite_def is_nan_def is_infinite_def f64_exp_bits_def)
  have fits: "json_fits 0 ex_json_value" by (simp add: ex_json_value_def JSON_MAX_DEPTH_def)
  show ?thesis using ex_text_laws ok fits json_roundtrip [OF ex_text_laws ok fits] by blast
qed

end
