(* ===== verification/Timestamps.thy ===== *)
theory Timestamps
  imports Json
begin

text \<open>
  The calendar of \<open>value.rs\<close>: days from a civil date, the fixed-width RFC 3339 text of a timestamp, and its
  parser. Intermediate integers are unbounded: every field is bounded by the checks around it, far inside
  \<open>i64\<close>. A string is its UTF-8 bytes.
\<close>

section \<open>Standard library\<close>

text \<open>Signed division of Rust rounds toward zero.\<close>

definition trunc_div :: "int \<Rightarrow> int \<Rightarrow> int" where
  "trunc_div a b = (if 0 \<le> a then a div b else - ((- a) div b))"

definition zeros :: "nat \<Rightarrow> bytes" where
  "zeros n = replicate n 0x30"

text \<open>\<open>{i:0w}\<close>: the sign counts toward the width.\<close>

definition pad_int :: "nat \<Rightarrow> int \<Rightarrow> bytes" where
  "pad_int w i =
     (let ds = nat_digits (nat \<bar>i\<bar>)
      in if i < 0 then 0x2D # zeros (w - 1 - length ds) @ ds else zeros (w - length ds) @ ds)"

text \<open>\<open>str::trim\<close>: the characters with the Unicode property White_Space.\<close>

definition whitespace :: "bytes list" where
  "whitespace = map utf8_of ([9, 10, 11, 12, 13, 0x20, 0x85, 0xA0, 0x1680] @ [0x2000..<0x200B] @ [0x2028, 0x2029, 0x202F, 0x205F, 0x3000])"

definition ws_prefix :: "bytes \<Rightarrow> bytes option" where
  "ws_prefix s = find (\<lambda>w. take (length w) s = w) whitespace"

lemma whitespace_nonempty: "w \<in> set whitespace \<Longrightarrow> w \<noteq> []"
  by (auto simp: whitespace_def utf8_of_def)

function trim_start :: "bytes \<Rightarrow> bytes" where
  "trim_start s = (case ws_prefix s of None \<Rightarrow> s | Some w \<Rightarrow> trim_start (drop (length w) s))"
  by auto
termination
proof (relation "measure length", goal_cases)
  case (2 s w)
  then have w: "w \<in> set whitespace" "take (length w) s = w" by (auto simp: ws_prefix_def find_Some_iff)
  then show ?case using whitespace_nonempty [OF w(1)] by (cases w; cases s) auto
qed simp

declare trim_start.simps [simp del]

definition ws_suffix :: "bytes \<Rightarrow> bytes option" where
  "ws_suffix s = find (\<lambda>w. length w \<le> length s \<and> drop (length s - length w) s = w) whitespace"

function trim_end :: "bytes \<Rightarrow> bytes" where
  "trim_end s = (case ws_suffix s of None \<Rightarrow> s | Some w \<Rightarrow> trim_end (take (length s - length w) s))"
  by auto
termination
proof (relation "measure length", goal_cases)
  case (2 s w)
  then have w: "w \<in> set whitespace" "length w \<le> length s" by (auto simp: ws_suffix_def find_Some_iff)
  then show ?case using whitespace_nonempty [OF w(1)] by (cases w; cases s) auto
qed simp

declare trim_end.simps [simp del]

definition trim :: "bytes \<Rightarrow> bytes" where
  "trim s = trim_end (trim_start s)"

definition is_char_boundary :: "bytes \<Rightarrow> nat \<Rightarrow> bool" where
  "is_char_boundary s i \<longleftrightarrow> i = 0 \<or> i = length s \<or> (i < length s \<and> \<not> cont (s ! i))"

definition str_get :: "bytes \<Rightarrow> nat \<Rightarrow> nat \<Rightarrow> bytes option" where
  "str_get s a b =
     (if a \<le> b \<and> is_char_boundary s a \<and> is_char_boundary s b then Some (sub_bytes s a (b - a)) else None)"

section \<open>The calendar\<close>

definition days_from_civil :: "int \<Rightarrow> int \<Rightarrow> int \<Rightarrow> int" where
  "days_from_civil y m d =
     (let y = (if m \<le> 2 then y - 1 else y);
          era = trunc_div (if y \<ge> 0 then y else y - 399) 400;
          yoe = y - era * 400;
          mp = (if m > 2 then m - 3 else m + 9);
          doy = (153 * mp + 2) div 5 + d - 1;
          doe = yoe * 365 + yoe div 4 - yoe div 100 + doy
      in era * 146097 + doe - 719468)"

text \<open>The same steps are written out in \<open>format_timestamp_ms\<close>.\<close>

definition civil_from_days :: "int \<Rightarrow> int \<times> int \<times> int" where
  "civil_from_days days =
     (let z = days + 719468;
          era = trunc_div (if z \<ge> 0 then z else z - 146096) 146097;
          doe = z - era * 146097;
          yoe = (doe - doe div 1460 + doe div 36524 - doe div 146096) div 365;
          y = yoe + era * 400;
          doy = doe - (365 * yoe + yoe div 4 - yoe div 100);
          mp = (5 * doy + 2) div 153;
          d = doy - (153 * mp + 2) div 5 + 1;
          m = (if mp < 10 then mp + 3 else mp - 9);
          y = (if m \<le> 2 then y + 1 else y)
      in (y, m, d))"

definition format_timestamp_ms :: "i64 \<Rightarrow> bytes" where
  "format_timestamp_ms ms =
     (let secs = sint ms div 1000;
          millis = sint ms mod 1000;
          days = secs div 86400;
          rm = secs mod 86400;
          (y, m, d) = civil_from_days days;
          h = rm div 3600;
          mi = (rm mod 3600) div 60;
          se = rm mod 60
      in pad_int 4 y @ 0x2D # pad_int 2 m @ 0x2D # pad_int 2 d @ 0x54 # pad_int 2 h @ 0x3A # pad_int 2 mi @ 0x3A # pad_int 2 se @
         0x2E # pad_int 3 millis @ [0x5A])"

section \<open>The parser\<close>

definition num_at :: "bytes \<Rightarrow> nat \<Rightarrow> nat \<Rightarrow> int option" where
  "num_at s a b =
     Option.bind (str_get s a b) (\<lambda>sub.
       if sub = [] \<or> \<not> list_all is_digit sub then None else map_option sint (parse_i64 sub))"

definition is_leap :: "int \<Rightarrow> bool" where
  "is_leap y \<longleftrightarrow> (y mod 4 = 0 \<and> y mod 100 \<noteq> 0) \<or> y mod 400 = 0"

definition days_in_month :: "int \<Rightarrow> int \<Rightarrow> int" where
  "days_in_month y mo = [31, if is_leap y then 29 else 28, 31, 30, 31, 30, 31, 31, 30, 31, 30, 31] ! nat (mo - 1)"

definition is_sign :: "u8 \<Rightarrow> bool" where
  "is_sign b \<longleftrightarrow> b = 0x2B \<or> b = 0x2D"

definition rfind_sign :: "bytes \<Rightarrow> nat option" where
  "rfind_sign s = (if list_ex is_sign s then Some (length s - 1 - length (takeWhile (\<lambda>b. \<not> is_sign b) (rev s))) else None)"

text \<open>The time part without its offset, and the offset in minutes.\<close>

definition split_offset :: "bytes \<Rightarrow> (bytes \<times> int) option" where
  "split_offset time =
     (if time = [] then Some (time, 0)
      else if last time = 0x5A \<or> last time = 0x7A then Some (butlast time, 0)
      else
        (case rfind_sign time of
           Some pos \<Rightarrow>
             if pos > 0 then
               (let off = drop pos time; digits = filter (\<lambda>c. c \<noteq> 0x3A) (tl off)
                in if length digits \<noteq> 4 \<or> \<not> list_all is_digit digits then None
                   else
                     (let oh = int (digits_val (take 2 digits)); om = int (digits_val (drop 2 digits))
                      in if oh > 23 \<or> om > 59 then None
                         else (let mag = oh * 60 + om in Some (take pos time, if hd off = 0x2D then - mag else mag))))
             else Some (time, 0)
         | None \<Rightarrow> Some (time, 0)))"

definition split_time :: "bytes \<Rightarrow> (bytes \<times> int) option" where
  "split_time s =
     (case str_get s 10 (length s) of
        None \<Rightarrow> None
      | Some rest \<Rightarrow>
          if rest \<noteq> [] \<and> (hd rest = 0x54 \<or> hd rest = 0x74 \<or> hd rest = 0x20) then split_offset (tl rest)
          else if trim rest = [] then Some ([], 0)
          else None)"

text \<open>Hours, minutes, seconds and milliseconds; \<open>tb\<close> is the time part of \<open>s\<close>.\<close>

definition time_fields :: "bytes \<Rightarrow> bytes \<Rightarrow> (int \<times> int \<times> int \<times> int) option" where
  "time_fields s tb =
     (if length tb = 0 then Some (0, 0, 0, 0)
      else if length tb = 5 then
        (if tb ! 2 \<noteq> 0x3A then None
         else Option.bind (num_at s 11 13) (\<lambda>hh. Option.bind (num_at s 14 16) (\<lambda>mm. Some (hh, mm, 0, 0))))
      else if length tb = 8 then
        (if tb ! 2 \<noteq> 0x3A \<or> tb ! 5 \<noteq> 0x3A then None
         else Option.bind (num_at s 11 13) (\<lambda>hh. Option.bind (num_at s 14 16) (\<lambda>mm. Option.bind (num_at s 17 19) (\<lambda>ss.
           Some (hh, mm, ss, 0)))))
      else if length tb > 9 then
        (if tb ! 2 \<noteq> 0x3A \<or> tb ! 5 \<noteq> 0x3A \<or> tb ! 8 \<noteq> 0x2E then None
         else Option.bind (num_at s 11 13) (\<lambda>hh. Option.bind (num_at s 14 16) (\<lambda>mm. Option.bind (num_at s 17 19) (\<lambda>ss.
           (let frac = drop 9 tb
            in if frac = [] \<or> \<not> list_all is_digit frac then None
               else (let scaled = frac @ zeros (3 - length frac) in Some (hh, mm, ss, int (digits_val (take 3 scaled)))))))))
      else None)"

definition parse_timestamp_ms :: "bytes \<Rightarrow> i64 option" where
  "parse_timestamp_ms text =
     (let s = trim text
      in if length s < 10 \<or> s ! 4 \<noteq> 0x2D \<or> s ! 7 \<noteq> 0x2D then None
         else
           Option.bind (num_at s 0 4) (\<lambda>y. Option.bind (num_at s 5 7) (\<lambda>mo. Option.bind (num_at s 8 10) (\<lambda>d.
             if \<not> (1 \<le> y \<and> y \<le> 9999) \<or> \<not> (1 \<le> mo \<and> mo \<le> 12) then None
             else if d < 1 \<or> d > days_in_month y mo then None
             else
               Option.bind (split_time s) (\<lambda>(rest, offset_min).
                 Option.bind (time_fields s rest) (\<lambda>(hh, mm, ss, ms).
                   if hh > 23 \<or> mm > 59 \<or> ss > 59 then None
                   else
                     (let days = days_from_civil y mo d;
                          secs = days * 86400 + hh * 3600 + mm * 60 + ss;
                          ms_total = word_of_int (secs * 1000 + ms - offset_min * 60000) :: i64
                      in if \<not> is_valid_timestamp_ms ms_total then None else Some ms_total)))))))"

end
