(* ===== verification/Timestamp_Props.thy ===== *)
theory Timestamp_Props
  imports Timestamps Json_Props
begin

text \<open>
  The calendar functions are inverse to each other and monotone, and the fields of a timestamp's text have
  fixed width.
\<close>

section \<open>The calendar\<close>

text \<open>Days before March of year \<open>y\<close>, counted from year 0.\<close>

definition year_start :: "int \<Rightarrow> int" where
  "year_start y = 365 * y + y div 4 - y div 100 + y div 400"

definition month_start :: "int \<Rightarrow> int" where
  "month_start mp = (153 * mp + 2) div 5"

lemma trunc_div_floor: "0 < b \<Longrightarrow> c = b - 1 \<Longrightarrow> trunc_div (if a \<ge> 0 then a else a - c) b = a div b"
proof -
  assume b: "0 < b" and c: "c = b - 1"
  show ?thesis
  proof (cases "0 \<le> a")
    case False
    have "(- a + (b - 1)) div b = - (a div b)"
    proof (rule int_div_pos_eq)
      show "- a + (b - 1) = b * - (a div b) + (b - 1 - a mod b)" using minus_mod_eq_mult_div [of a b] by (simp add: algebra_simps)
      show "0 \<le> b - 1 - a mod b" "b - 1 - a mod b < b" using pos_mod_bound [OF b, of a] pos_mod_sign [OF b, of a] by auto
    qed
    then show ?thesis using False b c by (simp add: trunc_div_def)
  qed (simp add: trunc_div_def)
qed

lemma days_from_civil_eq:
  "days_from_civil y m d =
     year_start (if m \<le> 2 then y - 1 else y) + month_start (if m > 2 then m - 3 else m + 9) + d - 1 - 719468"
proof -
  have era: "trunc_div (if w \<ge> 0 then w else w - 399) 400 = w div 400" for w by (rule trunc_div_floor) simp_all
  have "w div 400 * 146097 + ((w - w div 400 * 400) * 365 + (w - w div 400 * 400) div 4 - (w - w div 400 * 400) div 100) = year_start w" for w
  proof -
    define q r where "q = w div 400" and "r = w mod 400"
    then have w: "w = 400 * q + r" by simp
    have "w div 4 = 100 * q + r div 4" "w div 100 = 4 * q + r div 100"
      using w div_mult_self4 [of 4 "100 * q" r] div_mult_self4 [of 100 "4 * q" r] by simp_all
    moreover have r: "w - q * 400 = r" using w by linarith
    ultimately show ?thesis unfolding year_start_def q_def [symmetric] r using w by linarith
  qed
  from this [of "if m \<le> 2 then y - 1 else y"] show ?thesis
    unfolding days_from_civil_def Let_def era month_start_def by simp
qed

text \<open>One cycle of 400 years, checked year by year and day by day.\<close>

definition year_len :: "int \<Rightarrow> int" where
  "year_len y = (if is_leap (y + 1) then 366 else 365)"

lemma year_start_step: "year_start (y + 1) = year_start y + year_len y"
proof -
  have s: "(y + 1) div k = y div k + (if (y + 1) mod k = 0 then 1 else 0)" if k: "0 < k" for k :: int
  proof (cases "y mod k = k - 1")
    case True
    then have "y + 1 = k * (y div k + 1)" using mult_div_mod_eq [of k y] by (simp add: ring_distribs)
    then show ?thesis using k by simp
  next
    case False
    then have r: "0 \<le> y mod k + 1" "y mod k + 1 < k" using pos_mod_bound [OF k, of y] pos_mod_sign [OF k, of y] by auto
    have e: "y + 1 = k * (y div k) + (y mod k + 1)" by simp
    show ?thesis using int_div_pos_eq [OF e r] int_mod_pos_eq [OF e r] pos_mod_sign [OF k, of y] by simp
  qed
  define A B C where "A \<longleftrightarrow> (y + 1) mod 4 = 0" and "B \<longleftrightarrow> (y + 1) mod 100 = 0" and "C \<longleftrightarrow> (y + 1) mod 400 = 0"
  then have imps: "C \<longrightarrow> B" "B \<longrightarrow> A"
    by (simp_all add: mod_eq_0_iff_dvd dvd_trans [of 100 400] dvd_trans [of 4 100])
  have divs: "(y + 1) div 4 = y div 4 + (if A then 1 else 0)" "(y + 1) div 100 = y div 100 + (if B then 1 else 0)"
      "(y + 1) div 400 = y div 400 + (if C then 1 else 0)"
    unfolding A_def B_def C_def by (rule s, simp)+
  have leap: "is_leap (y + 1) \<longleftrightarrow> A \<and> \<not> B \<or> C" by (simp add: is_leap_def A_def B_def C_def)
  show ?thesis
    unfolding year_start_def year_len_def divs leap using imps by auto
qed

lemma year_start_mono: "y \<le> z \<Longrightarrow> year_start y \<le> year_start z"
proof (induction z rule: int_ge_induct)
  case (step z)
  then show ?case using year_start_step [of z] by (simp add: year_len_def split: if_splits)
qed simp

definition year_days :: "int \<Rightarrow> int" where
  "year_days doe = doe - doe div 1460 + doe div 36524 - doe div 146096"

lemma year_days_step:
  assumes "0 \<le> x" and "x < 146096"
  shows "year_days x \<le> year_days (x + 1)"
proof (cases "x = 146095")
  case True
  then show ?thesis by (simp add: year_days_def)
next
  case False
  have "(x + 1) div 1460 \<le> (x + 1460) div 1460" "x div 36524 \<le> (x + 1) div 36524" by (rule zdiv_mono1; simp)+
  moreover have "(x + 1460) div 1460 = x div 1460 + 1" by simp
  moreover have "x div 146096 = 0" "(x + 1) div 146096 = 0" using assms False by (simp_all add: div_pos_pos_trivial)
  ultimately show ?thesis unfolding year_days_def by linarith
qed

lemma year_days_mono:
  assumes "0 \<le> a" and "a \<le> b" and "b \<le> 146096"
  shows "year_days a \<le> year_days b"
  using assms(2,3)
proof (induction b rule: int_ge_induct)
  case (step x)
  then show ?case using year_days_step [of x] assms(1) by simp
qed simp

lemma cycle_checked:
  "list_all (\<lambda>y. let lo = year_start y in year_days lo div 365 = y \<and> year_days (lo + year_len y - 1) div 365 = y) [0..399]"
  by code_simp

lemma in_some_year: "0 \<le> doe \<Longrightarrow> doe < year_start (int n) \<Longrightarrow> \<exists>y. 0 \<le> y \<and> y < int n \<and> year_start y \<le> doe \<and> doe < year_start y + year_len y"
proof (induction n)
  case (Suc n)
  show ?case
  proof (cases "doe < year_start (int n)")
    case True
    then show ?thesis using Suc by force
  next
    case False
    then show ?thesis using Suc.prems year_start_step [of "int n"] by (intro exI [of _ "int n"]) (simp add: add.commute)
  qed
qed (simp add: year_start_def)

lemma year_of_day:
  assumes "0 \<le> doe" and "doe < 146097"
  defines "y \<equiv> year_days doe div 365"
  shows "0 \<le> y" and "y < 400" and "year_start y \<le> doe" and "doe < year_start y + year_len y"
proof -
  have "year_start (int 400) = 146097" by (simp add: year_start_def)
  then obtain w where w: "0 \<le> w" "w < 400" "year_start w \<le> doe" "doe < year_start w + year_len w"
    using in_some_year [OF assms(1), of 400] assms(2) by auto
  have c: "year_days (year_start w) div 365 = w" "year_days (year_start w + year_len w - 1) div 365 = w"
    using cycle_checked w(1,2) by (auto simp: list_all_iff Let_def)
  have "0 \<le> year_start w" using w(1) by (simp add: year_start_def zdiv_mono2)
  moreover have "year_start w + year_len w - 1 \<le> 146096"
  proof -
    have "year_start (w + 1) \<le> year_start 400" using w(2) by (intro year_start_mono) simp
    moreover have "year_start 400 = 146097" by (simp add: year_start_def)
    ultimately show ?thesis unfolding year_start_step by linarith
  qed
  ultimately have "year_days (year_start w) div 365 \<le> y" "y \<le> year_days (year_start w + year_len w - 1) div 365"
    unfolding y_def using w(3,4) assms(1,2) by (intro zdiv_mono1 year_days_mono; simp)+
  then have "y = w" using c by simp
  then show "0 \<le> y" "y < 400" "year_start y \<le> doe" "doe < year_start y + year_len y" using w by simp_all
qed

definition valid_date :: "int \<Rightarrow> int \<Rightarrow> int \<Rightarrow> bool" where
  "valid_date y m d \<longleftrightarrow> 1 \<le> m \<and> m \<le> 12 \<and> 1 \<le> d \<and> d \<le> days_in_month y m"

lemma months_checked:
  "list_all (\<lambda>doy. let mp = (5 * doy + 2) div 153; m = (if mp < 10 then mp + 3 else mp - 9); d = doy - month_start mp + 1
     in 0 \<le> mp \<and> mp \<le> 11 \<and> 1 \<le> d \<and> d \<le> days_in_month 4 m \<and> \<not> (m = 2 \<and> d = 29 \<and> doy \<noteq> 365)) [0..365]"
  by code_simp

lemma year_start_cycle: "year_start (r + 400 * q) = year_start r + 146097 * q"
proof -
  have divs: "(r + 400 * q) div 4 = r div 4 + 100 * q" "(r + 400 * q) div 100 = r div 100 + 4 * q" "(r + 400 * q) div 400 = r div 400 + q"
    using div_mult_self2 [of 4 r "100 * q"] div_mult_self2 [of 100 r "4 * q"] div_mult_self2 [of 400 r q] by simp_all
  show ?thesis unfolding year_start_def divs by simp
qed

lemma is_leap_cycle: "is_leap (r + 400 * q) = is_leap r"
proof -
  have "(r + 400 * q) mod 4 = r mod 4" "(r + 400 * q) mod 100 = r mod 100" "(r + 400 * q) mod 400 = r mod 400"
    using mod_mult_self2 [of r 4 "100 * q"] mod_mult_self2 [of r 100 "4 * q"] mod_mult_self2 [of r 400 q] by simp_all
  then show ?thesis by (simp add: is_leap_def)
qed

lemma months: "1 \<le> m \<Longrightarrow> m \<le> 12 \<Longrightarrow> m \<in> {1, 2, 3, 4, 5, 6, 7, 8, 9, 10, 11, 12 :: int}"
  by (simp only: insert_iff empty_iff, presburger)

lemma days_in_month_leap:
  assumes "1 \<le> m" and "m \<le> 12"
  shows "days_in_month y m = (if m = 2 \<and> \<not> is_leap y then 28 else days_in_month 4 m)"
  using months [OF assms] by (auto simp: days_in_month_def is_leap_def)

lemma civil_from_days_ok:
  assumes "civil_from_days days = (y, m, d)"
  shows "valid_date y m d" and "days_from_civil y m d = days"
proof -
  define era doe yoe doy mp where "era = (days + 719468) div 146097" and "doe = (days + 719468) mod 146097" and "yoe = year_days doe div 365"
    and "doy = doe - year_start yoe" and "mp = (5 * doy + 2) div 153"
  have tE: "trunc_div (if days + 719468 \<ge> 0 then days + 719468 else days + 719468 - 146096) 146097 = era"
    unfolding era_def by (rule trunc_div_floor) simp_all
  have doe: "days + 719468 - era * 146097 = doe" by (simp add: era_def doe_def minus_div_mult_eq_mod)
  have b: "0 \<le> doe" "doe < 146097" by (simp_all add: doe_def)
  note yr = year_of_day [OF b, folded yoe_def]
  have "yoe div 400 = 0" using yr(1,2) by simp
  then have sE: "365 * yoe + yoe div 4 - yoe div 100 = year_start yoe" by (simp add: year_start_def)
  have "civil_from_days days =
      (let m = (if mp < 10 then mp + 3 else mp - 9) in (if m \<le> 2 then yoe + era * 400 + 1 else yoe + era * 400, m, doy - month_start mp + 1))"
    unfolding civil_from_days_def Let_def tE doe year_days_def [symmetric] yoe_def [symmetric] sE doy_def [symmetric] mp_def [symmetric]
      month_start_def by (rule refl)
  then have e: "y = (if m \<le> 2 then yoe + era * 400 + 1 else yoe + era * 400)" "m = (if mp < 10 then mp + 3 else mp - 9)"
      "d = doy - month_start mp + 1"
    unfolding assms Let_def by blast+
  have doy: "0 \<le> doy" "doy < year_len yoe" using yr(3,4) by (simp_all add: doy_def)
  then have "doy \<in> set [0..365]" by (simp add: year_len_def split: if_splits)
  then have c: "0 \<le> mp" "mp \<le> 11" "1 \<le> d" "d \<le> days_in_month 4 m" "\<not> (m = 2 \<and> d = 29 \<and> doy \<noteq> 365)"
    using months_checked unfolding list_all_iff Let_def e(2,3) mp_def by blast+
  then have m: "1 \<le> m" "m \<le> 12" using e(2) by auto
  have "d \<le> days_in_month y m"
  proof (cases "m = 2 \<and> \<not> is_leap y")
    case True
    then have "y = yoe + 1 + 400 * era" using e(1) by simp
    then have "\<not> is_leap (yoe + 1)" using True is_leap_cycle [of "yoe + 1" era] by simp
    then have "d \<noteq> 29" using doy(2) c(5) True by (simp add: year_len_def)
    moreover have "d \<le> 29" using c(4) True by (simp add: days_in_month_def is_leap_def)
    ultimately show ?thesis using True days_in_month_leap [OF m, of y] by simp
  next
    case False
    then show ?thesis using c(4) by (simp only: days_in_month_leap [OF m, of y] if_False)
  qed
  then show "valid_date y m d" using m c(3) by (simp add: valid_date_def)
  have "(if m \<le> 2 then y - 1 else y) = yoe + 400 * era" "(if m > 2 then m - 3 else m + 9) = mp" using e(1,2) c(1,2) by (auto split: if_splits)
  then show "days_from_civil y m d = days"
    unfolding days_from_civil_eq using year_start_cycle [of yoe era] e(3) doe by (simp add: doy_def)
qed

lemma month_end:
  assumes "valid_date y m d"
  defines "mp \<equiv> (if m > 2 then m - 3 else m + 9)" and "y' \<equiv> (if m \<le> 2 then y - 1 else y)"
  shows "month_start mp + d - 1 < year_len y'" and "mp < 11 \<Longrightarrow> month_start mp + d \<le> month_start (mp + 1)" and "0 \<le> month_start mp"
proof -
  have m: "1 \<le> m" "m \<le> 12" and d: "d \<le> days_in_month y m" using assms(1) by (simp_all add: valid_date_def)
  show "month_start mp + d - 1 < year_len y'" "mp < 11 \<Longrightarrow> month_start mp + d \<le> month_start (mp + 1)" "0 \<le> month_start mp"
    using months [OF m] d by (auto simp: mp_def y'_def month_start_def days_in_month_def year_len_def split: if_splits)
qed

lemma month_start_mono: "a \<le> b \<Longrightarrow> month_start a \<le> month_start b"
  unfolding month_start_def by (rule zdiv_mono1) simp_all

lemma days_from_civil_less:
  assumes v: "valid_date y m d" "valid_date y2 m2 d2" and less: "y < y2 \<or> y = y2 \<and> (m < m2 \<or> m = m2 \<and> d < d2)"
  shows "days_from_civil y m d < days_from_civil y2 m2 d2"
proof -
  define mp w where "mp = (if m > 2 then m - 3 else m + 9)" and "w = (if m \<le> 2 then y - 1 else y)"
  define mp2 w2 where "mp2 = (if m2 > 2 then m2 - 3 else m2 + 9)" and "w2 = (if m2 \<le> 2 then y2 - 1 else y2)"
  note a = month_end [OF v(1), folded mp_def w_def] and b = month_end [OF v(2), folded mp2_def w2_def]
  have "1 \<le> m" "m \<le> 12" "1 \<le> m2" "m2 \<le> 12" "1 \<le> d2" using v by (simp_all add: valid_date_def)
  then have "w < w2 \<or> w = w2 \<and> mp < mp2 \<and> mp < 11 \<or> w = w2 \<and> mp = mp2 \<and> d < d2"
    using less unfolding mp_def w_def mp2_def w2_def by (cases "m \<le> 2"; cases "m2 \<le> 2") auto
  then consider "w < w2" | "w = w2" "mp < mp2" "mp < 11" | "w = w2" "mp = mp2" "d < d2"
    by blast
  then show ?thesis
  proof cases
    case 1
    then have "year_start w + year_len w \<le> year_start w2" using year_start_mono [of "w + 1" w2] year_start_step [of w] by simp
    then show ?thesis unfolding days_from_civil_eq mp_def [symmetric] w_def [symmetric] mp2_def [symmetric] w2_def [symmetric]
      using a(1) b(3) \<open>1 \<le> d2\<close> by linarith
  next
    case 2
    then have "month_start (mp + 1) \<le> month_start mp2" by (intro month_start_mono) simp
    then show ?thesis unfolding days_from_civil_eq mp_def [symmetric] w_def [symmetric] mp2_def [symmetric] w2_def [symmetric]
      2(1) using a(2) [OF 2(3)] \<open>1 \<le> d2\<close> by linarith
  next
    case 3
    then show ?thesis unfolding days_from_civil_eq mp_def [symmetric] w_def [symmetric] mp2_def [symmetric] w2_def [symmetric] 3(1,2) using 3(3) by linarith
  qed
qed

section \<open>Fixed-width text\<close>

definition digit :: "nat \<Rightarrow> u8" where
  "digit n = word_of_nat (0x30 + n)"

lemma digit_ok: "n < 10 \<Longrightarrow> is_digit (digit n) \<and> unat (digit n) = 0x30 + n"
  using unat_word_of_nat_u8 [of "0x30 + n"] by (simp add: digit_def is_digit_def word_le_nat_alt del: of_nat_add)

lemma nat_digits_small: "n < 10 \<Longrightarrow> nat_digits n = [digit n]"
  by (simp add: nat_digits.simps [of n] digit_def)

lemma nat_digits_step: "10 \<le> n \<Longrightarrow> nat_digits n = nat_digits (n div 10) @ [digit (n mod 10)]"
  by (subst nat_digits.simps) (simp add: digit_def)

lemma zero_digit: "(0x30 :: u8) = digit 0"
  by (simp add: digit_def)

lemma pad2: "n < 100 \<Longrightarrow> pad_int 2 (int n) = [digit (n div 10), digit (n mod 10)]"
  by (cases "n < 10") (auto simp: pad_int_def zeros_def nat_digits_small nat_digits_step zero_digit)

lemma pad3: "n < 1000 \<Longrightarrow> pad_int 3 (int n) = [digit (n div 100), digit (n div 10 mod 10), digit (n mod 10)]"
proof -
  assume n: "n < 1000"
  consider "n < 10" | "10 \<le> n" "n < 100" | "100 \<le> n" by linarith
  then show ?thesis
  proof cases
    case 3
    then have "10 \<le> n div 10" "n div 10 div 10 = n div 100" by auto
    then show ?thesis using 3 n by (simp add: pad_int_def zeros_def nat_digits_small nat_digits_step)
  qed (auto simp: pad_int_def zeros_def nat_digits_small nat_digits_step zero_digit numeral_2_eq_2)
qed

lemma pad4: "n < 10000 \<Longrightarrow> pad_int 4 (int n) = [digit (n div 1000), digit (n div 100 mod 10), digit (n div 10 mod 10), digit (n mod 10)]"
proof -
  assume n: "n < 10000"
  consider "n < 10" | "10 \<le> n" "n < 100" | "100 \<le> n" "n < 1000" | "1000 \<le> n" by linarith
  then show ?thesis
  proof cases
    case 3
    then have "10 \<le> n div 10" "n div 10 div 10 = n div 100" by auto
    then show ?thesis using 3 n by (simp add: pad_int_def zeros_def nat_digits_small nat_digits_step zero_digit)
  next
    case 4
    then have "10 \<le> n div 10" "n div 10 div 10 = n div 100" "10 \<le> n div 100" "n div 100 div 10 = n div 1000" by auto
    then show ?thesis using 4 n by (simp add: pad_int_def zeros_def nat_digits_small nat_digits_step)
  qed (auto simp: pad_int_def zeros_def nat_digits_small nat_digits_step zero_digit numeral_2_eq_2 numeral_3_eq_3)
qed

end
