(* ===== verification/Timestamp_Text.thy ===== *)
theory Timestamp_Text
  imports Timestamp_Props
begin

text \<open>
  Parsing the text of a timestamp gives the timestamp back, and the text sorts like the timestamp.
\<close>

section \<open>Parsing the text\<close>

lemma whitespace_ends: "list_all (\<lambda>w. w \<noteq> [] \<and> \<not> is_digit (hd w) \<and> last w \<noteq> 0x5A) whitespace"
  by (simp add: whitespace_def upt_rec_numeral utf8_of_def is_digit_def)

lemma sint_of_int: "- (2 ^ 63) \<le> i \<Longrightarrow> i < 2 ^ 63 \<Longrightarrow> sint (word_of_int i :: i64) = i"
  by (simp add: int_word_sint)

lemma trim_plain:
  assumes "is_digit b"
  shows "trim (b # r @ [0x5A]) = b # r @ [0x5A]"
proof -
  let ?s = "b # r @ [0x5A]"
  have "ws_prefix ?s = None"
    unfolding ws_prefix_def find_None_iff
  proof (intro notI, elim exE conjE)
    fix w assume w: "w \<in> set whitespace" "take (length w) ?s = w"
    then have "hd w = b" using whitespace_nonempty [OF w(1)] by (metis hd_take length_greater_0_conv list.sel(1))
    then show False using whitespace_ends assms w(1) by (auto simp: list_all_iff)
  qed
  moreover have "ws_suffix ?s = None"
    unfolding ws_suffix_def find_None_iff
  proof (intro notI, elim exE conjE)
    fix w assume w: "w \<in> set whitespace" "length w \<le> length ?s" "drop (length ?s - length w) ?s = w"
    then have "last w = last ?s" using whitespace_nonempty [OF w(1)] by (metis last_drop length_greater_0_conv drop_eq_Nil not_le)
    then show False using whitespace_ends w(1) by (auto simp: list_all_iff)
  qed
  ultimately show ?thesis by (simp add: trim_def trim_start.simps [of ?s] trim_end.simps [of ?s])
qed

lemma parse_digits:
  assumes "list_all is_digit s" and "s \<noteq> []" and "digits_val s < 2 ^ 63"
  shows "map_option sint (parse_i64 s) = Some (int (digits_val s))"
proof -
  have "hd s \<noteq> 0x2D" using assms(1,2) digit_no_mark by (cases s) auto
  then have "parse_i64 s = Some (word_of_int (int (digits_val s)))"
    using assms by (simp add: parse_i64_def Let_def)
  moreover have "sint (word_of_int (int (digits_val s)) :: i64) = int (digits_val s)"
    using assms(3) by (intro sint_of_int) simp_all
  ultimately show ?thesis by simp
qed

text \<open>The text with its fields spelled out.\<close>

definition stamp :: "nat \<Rightarrow> nat \<Rightarrow> nat \<Rightarrow> nat \<Rightarrow> nat \<Rightarrow> nat \<Rightarrow> nat \<Rightarrow> bytes" where
  "stamp y m d h mi se ms =
     [digit (y div 1000), digit (y div 100 mod 10), digit (y div 10 mod 10), digit (y mod 10), 0x2D, digit (m div 10), digit (m mod 10), 0x2D,
      digit (d div 10), digit (d mod 10), 0x54, digit (h div 10), digit (h mod 10), 0x3A, digit (mi div 10), digit (mi mod 10), 0x3A,
      digit (se div 10), digit (se mod 10), 0x2E, digit (ms div 100), digit (ms div 10 mod 10), digit (ms mod 10), 0x5A]"

lemma places3: "100 * (n div 100) + n div 10 mod 10 * 10 + n mod 10 = (n :: nat)"
proof -
  have "n div 100 = n div 10 div 10" by (simp add: div_mult2_eq [symmetric])
  then show ?thesis using mult_div_mod_eq [of 10 n] mult_div_mod_eq [of 10 "n div 10"] by linarith
qed

lemma places4: "1000 * (n div 1000) + 100 * (n div 100 mod 10) + n div 10 mod 10 * 10 + n mod 10 = (n :: nat)"
proof -
  have "n div 1000 = n div 100 div 10" by (simp add: div_mult2_eq [symmetric])
  then show ?thesis using places3 [of n] mult_div_mod_eq [of 10 "n div 100"] by linarith
qed

lemma digits_val2: "n < 100 \<Longrightarrow> digits_val [digit (n div 10), digit (n mod 10)] = n"
  using digit_ok [of "n div 10"] digit_ok [of "n mod 10"] by (simp add: digits_val_def)

lemma digits_val3: "n < 1000 \<Longrightarrow> digits_val [digit (n div 100), digit (n div 10 mod 10), digit (n mod 10)] = n"
  using digit_ok [of "n div 100"] digit_ok [of "n div 10 mod 10"] digit_ok [of "n mod 10"] by (simp add: digits_val_def places3)

lemma digits_val4: "n < 10000 \<Longrightarrow> digits_val [digit (n div 1000), digit (n div 100 mod 10), digit (n div 10 mod 10), digit (n mod 10)] = n"
  using digit_ok [of "n div 1000"] digit_ok [of "n div 100 mod 10"] digit_ok [of "n div 10 mod 10"] digit_ok [of "n mod 10"]
  by (simp add: digits_val_def places4)

lemma num_at_digits:
  assumes "str_get s a b = Some ds" and "list_all is_digit ds" and "ds \<noteq> []" and "digits_val ds = n" and "n < 10000"
  shows "num_at s a b = Some (int n)"
  using assms parse_digits [OF assms(2,3)] by (simp add: num_at_def)

lemma parse_stamp:
  assumes f: "1 \<le> y" "y < 10000" "1 \<le> m" "m \<le> 12" "1 \<le> d" "int d \<le> days_in_month (int y) (int m)" "h < 24" "mi < 60" "se < 60" "ms < 1000"
    and total: "sint t = (days_from_civil (int y) (int m) (int d) * 86400 + int h * 3600 + int mi * 60 + int se) * 1000 + int ms"
    and valid: "is_valid_timestamp_ms t"
  shows "parse_timestamp_ms (stamp y m d h mi se ms) = Some t"
proof -
  let ?s = "stamp y m d h mi se ms"
  have d: "d \<le> 31" using f(3,4,6) months [of "int m"] by (auto simp: days_in_month_def split: if_splits)
  have dg: "is_digit (digit (y div 1000))" "is_digit (digit (y div 100 mod 10))" "is_digit (digit (y div 10 mod 10))" "is_digit (digit (m div 10))"
      "is_digit (digit (d div 10))" "is_digit (digit (h div 10))" "is_digit (digit (mi div 10))" "is_digit (digit (se div 10))"
      "is_digit (digit (ms div 100))" "is_digit (digit (ms div 10 mod 10))" "is_digit (digit (n mod 10))" for n
    using f d by (simp_all add: digit_ok)
  have nc: "\<not> cont b" if "is_digit b \<or> b = 0x2D \<or> b = 0x3A \<or> b = 0x54 \<or> b = 0x2E \<or> b = 0x5A" for b
    using that by (auto simp: cont_def is_digit_def word_le_nat_alt)
  have trim: "trim ?s = ?s"
    using trim_plain [OF dg(1), of "butlast (tl ?s)"] by (simp add: stamp_def)
  have nums: "num_at ?s 0 4 = Some (int y)" "num_at ?s 5 7 = Some (int m)" "num_at ?s 8 10 = Some (int d)" "num_at ?s 11 13 = Some (int h)"
      "num_at ?s 14 16 = Some (int mi)" "num_at ?s 17 19 = Some (int se)"
  proof -
    show "num_at ?s 0 4 = Some (int y)"
      by (rule num_at_digits [OF _ _ _ digits_val4]) (use f dg nc in \<open>simp_all add: str_get_def is_char_boundary_def stamp_def sub_bytes_def\<close>)
    show "num_at ?s 5 7 = Some (int m)"
      by (rule num_at_digits [OF _ _ _ digits_val2]) (use f dg nc in \<open>simp_all add: str_get_def is_char_boundary_def stamp_def sub_bytes_def\<close>)
    show "num_at ?s 8 10 = Some (int d)"
      by (rule num_at_digits [OF _ _ _ digits_val2]) (use f d dg nc in \<open>simp_all add: str_get_def is_char_boundary_def stamp_def sub_bytes_def\<close>)
    show "num_at ?s 11 13 = Some (int h)"
      by (rule num_at_digits [OF _ _ _ digits_val2]) (use f dg nc in \<open>simp_all add: str_get_def is_char_boundary_def stamp_def sub_bytes_def\<close>)
    show "num_at ?s 14 16 = Some (int mi)"
      by (rule num_at_digits [OF _ _ _ digits_val2]) (use f dg nc in \<open>simp_all add: str_get_def is_char_boundary_def stamp_def sub_bytes_def\<close>)
    show "num_at ?s 17 19 = Some (int se)"
      by (rule num_at_digits [OF _ _ _ digits_val2]) (use f dg nc in \<open>simp_all add: str_get_def is_char_boundary_def stamp_def sub_bytes_def\<close>)
  qed
  have split: "split_time ?s = Some (butlast (drop 11 ?s), 0)"
    using nc by (simp add: split_time_def str_get_def is_char_boundary_def stamp_def sub_bytes_def split_offset_def)
  have fields: "time_fields ?s (butlast (drop 11 ?s)) = Some (int h, int mi, int se, int ms)"
    using dg(9-11) f(10) by (simp add: time_fields_def nums) (simp add: stamp_def zeros_def digits_val3)
  have "word_of_int ((days_from_civil (int y) (int m) (int d) * 86400 + int h * 3600 + int mi * 60 + int se) * 1000 + int ms - 0 * 60000) = t"
    unfolding total [symmetric] by simp
  moreover have "length ?s = 24" "?s ! 4 = 0x2D" "?s ! 7 = 0x2D" by (simp_all add: stamp_def)
  ultimately show ?thesis
    unfolding parse_timestamp_ms_def Let_def trim using f valid by (simp add: nums split fields)
qed

section \<open>The text of a valid timestamp\<close>

lemma valid_year:
  assumes "is_valid_timestamp_ms t" and "civil_from_days (sint t div 1000 div 86400) = (y, m, d)"
  shows "1 \<le> y" and "y \<le> 9999"
proof -
  let ?days = "sint t div 1000 div 86400"
  note c = civil_from_days_ok [OF assms(2)]
  have "TIMESTAMP_MIN_MS div 1000 div 86400 \<le> ?days" "?days \<le> TIMESTAMP_MAX_MS div 1000 div 86400"
    using assms(1) unfolding is_valid_timestamp_ms_def by (intro zdiv_mono1; simp)+
  then have b: "-719162 \<le> ?days" "?days \<le> 2932896" by (simp_all add: TIMESTAMP_MIN_MS_def TIMESTAMP_MAX_MS_def)
  have e: "days_from_civil 1 1 1 = -719162" "days_from_civil 9999 12 31 = 2932896" "valid_date 1 1 1" "valid_date 9999 12 31" by code_simp+
  show "1 \<le> y"
    using days_from_civil_less [OF c(1) e(3)] e(1) b(1) c(2) by (cases "y < 1") auto
  show "y \<le> 9999"
    using days_from_civil_less [OF e(4) c(1)] e(2) b(2) c(2) by (cases "9999 < y") auto
qed

definition fields_ok :: "i64 \<Rightarrow> nat \<Rightarrow> nat \<Rightarrow> nat \<Rightarrow> nat \<Rightarrow> nat \<Rightarrow> nat \<Rightarrow> nat \<Rightarrow> bool" where
  "fields_ok t y m d h mi se ms \<longleftrightarrow>
     1 \<le> y \<and> y < 10000 \<and> valid_date (int y) (int m) (int d) \<and> h < 24 \<and> mi < 60 \<and> se < 60 \<and> ms < 1000 \<and>
     sint t = (days_from_civil (int y) (int m) (int d) * 86400 + int h * 3600 + int mi * 60 + int se) * 1000 + int ms"

lemma format_stamp:
  assumes "is_valid_timestamp_ms t"
  obtains y m d h mi se ms where "fields_ok t y m d h mi se ms" and "format_timestamp_ms t = stamp y m d h mi se ms"
proof -
  define secs days rm where "secs = sint t div 1000" and "days = secs div 86400" and "rm = secs mod 86400"
  obtain y m d where c: "civil_from_days days = (y, m, d)" by (metis prod_cases3)
  have y: "1 \<le> y" "y \<le> 9999" using valid_year [OF assms] c unfolding days_def secs_def by blast+
  note v = civil_from_days_ok [OF c]
  have m: "1 \<le> m" "m \<le> 12" "1 \<le> d" "d \<le> 31"
    using v(1) months [of m] by (auto simp: valid_date_def days_in_month_def split: if_splits)
  have rm: "0 \<le> rm" "rm < 86400" by (simp_all add: rm_def)
  define h mi se ms where "h = rm div 3600" and "mi = rm mod 3600 div 60" and "se = rm mod 60" and "ms = sint t mod 1000"
  have b: "0 \<le> h" "h < 24" "0 \<le> mi" "mi < 60" "0 \<le> se" "se < 60" "0 \<le> ms" "ms < 1000"
    using rm by (auto simp: h_def mi_def se_def ms_def)
  have "rm = h * 3600 + mi * 60 + se"
  proof -
    have "rm mod 3600 mod 60 = rm mod 60" by (rule mod_mod_cancel) simp
    then show ?thesis using div_mult_mod_eq [of rm 3600] div_mult_mod_eq [of "rm mod 3600" 60] unfolding h_def mi_def se_def by linarith
  qed
  moreover have secs: "secs = days * 86400 + rm" "sint t = secs * 1000 + ms" by (simp_all add: days_def rm_def ms_def secs_def)
  ultimately have total: "sint t = (days * 86400 + h * 3600 + mi * 60 + se) * 1000 + ms"
    by (simp add: algebra_simps)
  have n: "int (nat y) = y" "int (nat m) = m" "int (nat d) = d" "int (nat h) = h" "int (nat mi) = mi" "int (nat se) = se" "int (nat ms) = ms"
    using y m b by simp_all
  have "format_timestamp_ms t = pad_int 4 y @ 0x2D # pad_int 2 m @ 0x2D # pad_int 2 d @ 0x54 # pad_int 2 h @ 0x3A # pad_int 2 mi @ 0x3A #
      pad_int 2 se @ 0x2E # pad_int 3 ms @ [0x5A]"
    unfolding format_timestamp_ms_def Let_def secs_def [symmetric] days_def [symmetric] rm_def [symmetric] c h_def mi_def se_def ms_def by simp
  also have "\<dots> = stamp (nat y) (nat m) (nat d) (nat h) (nat mi) (nat se) (nat ms)"
    using pad4 [of "nat y"] pad2 [of "nat m"] pad2 [of "nat d"] pad2 [of "nat h"] pad2 [of "nat mi"] pad2 [of "nat se"] pad3 [of "nat ms"] y m b
    by (simp add: n stamp_def)
  finally have f: "format_timestamp_ms t = stamp (nat y) (nat m) (nat d) (nat h) (nat mi) (nat se) (nat ms)" .
  have "fields_ok t (nat y) (nat m) (nat d) (nat h) (nat mi) (nat se) (nat ms)"
    unfolding fields_ok_def n v(2) using y b v(1) total by auto
  then show thesis using f that by blast
qed

lemma parse_format: "is_valid_timestamp_ms t \<Longrightarrow> parse_timestamp_ms (format_timestamp_ms t) = Some t"
proof -
  assume v: "is_valid_timestamp_ms t"
  obtain y m d h mi se ms where f: "fields_ok t y m d h mi se ms" "format_timestamp_ms t = stamp y m d h mi se ms"
    by (rule format_stamp [OF v])
  then show ?thesis using parse_stamp [of y m d h mi se ms t] v by (auto simp: fields_ok_def valid_date_def)
qed

section \<open>The text sorts like the timestamp\<close>

lemma lex_cmp_append:
  "length xs = length ys \<Longrightarrow>
     lex_cmp c (xs @ us) (ys @ vs) = (case lex_cmp c xs ys of Equal \<Rightarrow> lex_cmp c us vs | r \<Rightarrow> r)"
  by (induction c xs ys rule: lex_cmp.induct) (auto split: ordering.splits)

lemma cmp_digit: "a < 10 \<Longrightarrow> b < 10 \<Longrightarrow> cmp_of (digit a) (digit b) = cmp_of a b"
  using digit_ok [of a] digit_ok [of b] by (auto simp: cmp_of_def word_less_nat_alt word_unat_eq_iff)

lemma cmp_places: "cmp_of (a * k + b) (c * k + e) = (case cmp_of a c of Equal \<Rightarrow> cmp_of b e | r \<Rightarrow> r)"
  if "b < k" and "e < k" for a b c e k :: nat
proof -
  have lt: "x * k + b < z * k + e" if "x < z" "b < k" for x z b e
  proof -
    have "x * k + b < (x + 1) * k" using that(2) by simp
    also have "\<dots> \<le> z * k" using that(1) by (intro mult_right_mono) auto
    finally show ?thesis by simp
  qed
  show ?thesis using that lt [of a c b e] lt [of c a e b] by (cases a c rule: linorder_cases) (auto simp: cmp_of_def)
qed

lemma lex_cmp_single: "lex_cmp c [x] [y] = c x y"
  by (cases "c x y") simp_all

lemma cmp_snoc:
  assumes "lex_cmp cmp_of xs ys = cmp_of (n div 10) (n' div 10)" and "length xs = length ys"
  shows "lex_cmp cmp_of (xs @ [digit (n mod 10)]) (ys @ [digit (n' mod 10)]) = cmp_of n n'"
proof -
  have "cmp_of n n' = (case cmp_of (n div 10) (n' div 10) of Equal \<Rightarrow> cmp_of (n mod 10) (n' mod 10) | r \<Rightarrow> r)"
    using cmp_places [of "n mod 10" 10 "n' mod 10" "n div 10" "n' div 10"] by simp
  moreover have d: "cmp_of (digit (n mod 10)) (digit (n' mod 10)) = cmp_of (n mod 10) (n' mod 10)" by (rule cmp_digit) simp_all
  ultimately show ?thesis unfolding lex_cmp_append [OF assms(2)] assms(1) lex_cmp_single d by simp
qed

lemma cmp_pad2: "n < 100 \<Longrightarrow> n' < 100 \<Longrightarrow>
    lex_cmp cmp_of [digit (n div 10), digit (n mod 10)] [digit (n' div 10), digit (n' mod 10)] = cmp_of n n'"
  using cmp_snoc [of "[digit (n div 10)]" "[digit (n' div 10)]" n n'] by (simp add: lex_cmp_single cmp_digit del: lex_cmp.simps)

lemma cmp_pad3: "n < 1000 \<Longrightarrow> n' < 1000 \<Longrightarrow>
    lex_cmp cmp_of [digit (n div 100), digit (n div 10 mod 10), digit (n mod 10)] [digit (n' div 100), digit (n' div 10 mod 10), digit (n' mod 10)] = cmp_of n n'"
  using cmp_snoc [of "[digit (n div 100), digit (n div 10 mod 10)]" "[digit (n' div 100), digit (n' div 10 mod 10)]" n n']
    cmp_pad2 [of "n div 10" "n' div 10"] by (simp add: div_mult2_eq [symmetric] del: lex_cmp.simps)

lemma cmp_pad4: "n < 10000 \<Longrightarrow> n' < 10000 \<Longrightarrow>
    lex_cmp cmp_of [digit (n div 1000), digit (n div 100 mod 10), digit (n div 10 mod 10), digit (n mod 10)]
      [digit (n' div 1000), digit (n' div 100 mod 10), digit (n' div 10 mod 10), digit (n' mod 10)] = cmp_of n n'"
  using cmp_snoc [of "[digit (n div 1000), digit (n div 100 mod 10), digit (n div 10 mod 10)]"
      "[digit (n' div 1000), digit (n' div 100 mod 10), digit (n' div 10 mod 10)]" n n']
    cmp_pad3 [of "n div 10" "n' div 10"] by (simp add: div_mult2_eq [symmetric] del: lex_cmp.simps)

definition then_cmp :: "ordering \<Rightarrow> ordering \<Rightarrow> ordering" where
  "then_cmp a b = (case a of Equal \<Rightarrow> b | r \<Rightarrow> r)"

lemma cmp_stamp:
  assumes "fields_ok t y m d h mi se ms" and "fields_ok t' y' m' d' h' mi' se' ms'"
  shows "cmp_bytes (stamp y m d h mi se ms) (stamp y' m' d' h' mi' se' ms') =
    then_cmp (cmp_of y y') (then_cmp (cmp_of m m') (then_cmp (cmp_of d d') (then_cmp (cmp_of h h') (then_cmp (cmp_of mi mi')
      (then_cmp (cmp_of se se') (cmp_of ms ms'))))))"
proof -
  have small: "m < 100 \<and> d < 100" if "fields_ok t y m d h mi se ms" for t y m d h mi se ms
    using that months [of "int m"] by (auto simp: fields_ok_def valid_date_def days_in_month_def split: if_splits)
  have sep: "lex_cmp cmp_of (b # us) (b # vs) = lex_cmp cmp_of us vs" for b :: u8 and us vs by (simp add: cmp_of_def)
  have app: "lex_cmp cmp_of (xs @ us) (ys @ vs) = then_cmp (lex_cmp cmp_of xs ys) (lex_cmp cmp_of us vs)"
    if "length xs = length ys" for xs us ys vs :: bytes
    unfolding then_cmp_def by (rule lex_cmp_append [OF that])
  have split: "stamp y m d h mi se ms =
      [digit (y div 1000), digit (y div 100 mod 10), digit (y div 10 mod 10), digit (y mod 10)] @ 0x2D # [digit (m div 10), digit (m mod 10)] @ 0x2D #
      [digit (d div 10), digit (d mod 10)] @ 0x54 # [digit (h div 10), digit (h mod 10)] @ 0x3A # [digit (mi div 10), digit (mi mod 10)] @ 0x3A #
      [digit (se div 10), digit (se mod 10)] @ 0x2E # [digit (ms div 100), digit (ms div 10 mod 10), digit (ms mod 10)] @ [0x5A]" for y m d h mi se ms
    by (simp add: stamp_def)
  have "then_cmp a Equal = a" for a by (cases a) (simp_all add: then_cmp_def)
  moreover have "lex_cmp cmp_of [b] [b] = Equal" for b :: u8 by (simp add: cmp_of_def)
  ultimately show ?thesis
    using assms small [OF assms(1)] small [OF assms(2)] unfolding split cmp_bytes_def
    by (simp only: app sep list.size cmp_pad2 cmp_pad3 cmp_pad4 fields_ok_def less_trans [of _ 24 100] less_trans [of _ 60 100])
qed

lemma then_cmp_Less: "then_cmp (cmp_of a b) r = Less \<longleftrightarrow> a < b \<or> a = b \<and> r = Less"
  by (auto simp: then_cmp_def cmp_of_def)

lemma earlier_stamp:
  assumes "fields_ok t y m d h mi se ms" and "fields_ok t' y' m' d' h' mi' se' ms'" and "sint t < sint t'"
  shows "cmp_bytes (stamp y m d h mi se ms) (stamp y' m' d' h' mi' se' ms') = Less"
proof -
  define D D' where "D = days_from_civil (int y) (int m) (int d)" and "D' = days_from_civil (int y') (int m') (int d')"
  have v: "valid_date (int y) (int m) (int d)" "valid_date (int y') (int m') (int d')" using assms(1,2) by (simp_all add: fields_ok_def)
  have b: "h < 24" "mi < 60" "se < 60" "ms < 1000" "h' < 24" "mi' < 60" "se' < 60" "ms' < 1000" using assms(1,2) by (simp_all add: fields_ok_def)
  have t: "D * 86400000 + int h * 3600000 + int mi * 60000 + int se * 1000 + int ms <
      D' * 86400000 + int h' * 3600000 + int mi' * 60000 + int se' * 1000 + int ms'"
    using assms by (simp add: fields_ok_def D_def D'_def algebra_simps)
  then have "D \<le> D'" using b by linarith
  then have "\<not> (y' < y \<or> y' = y \<and> (m' < m \<or> m' = m \<and> d' < d))"
    using days_from_civil_less [OF v(2,1)] by (auto simp: D_def D'_def)
  moreover have "h < h' \<or> h = h' \<and> (mi < mi' \<or> mi = mi' \<and> (se < se' \<or> se = se' \<and> ms < ms'))" if "D = D'"
    using t b that by linarith
  ultimately have "y < y' \<or> y = y' \<and> (m < m' \<or> m = m' \<and> (d < d' \<or> d = d' \<and> (h < h' \<or> h = h' \<and> (mi < mi' \<or> mi = mi' \<and>
      (se < se' \<or> se = se' \<and> ms < ms')))))"
    unfolding D_def D'_def by (cases y y' rule: linorder_cases; cases m m' rule: linorder_cases; cases d d' rule: linorder_cases) auto
  then show ?thesis unfolding cmp_stamp [OF assms(1,2)] then_cmp_Less cmp_of_iff .
qed

lemma sint_inj: "sint t = sint (t' :: i64) \<Longrightarrow> t = t'"
  by (metis of_int_sint scast_id)

lemma format_order:
  assumes "is_valid_timestamp_ms t" and "is_valid_timestamp_ms t'"
  shows "cmp_bytes (format_timestamp_ms t) (format_timestamp_ms t') = cmp_of (sint t) (sint t')"
proof -
  have less: "cmp_bytes (format_timestamp_ms t) (format_timestamp_ms t') = Less"
    if "is_valid_timestamp_ms t" "is_valid_timestamp_ms t'" "sint t < sint t'" for t t'
    using format_stamp [OF that(1)] format_stamp [OF that(2)] earlier_stamp that(3) by metis
  show ?thesis
  proof (cases "sint t" "sint t'" rule: linorder_cases)
    case equal
    then have "t = t'" by (rule sint_inj)
    moreover have "lex_cmp cmp_of s s = Equal" for s :: bytes by (induction s) (simp_all add: cmp_of_def)
    ultimately show ?thesis by (simp add: cmp_bytes_def cmp_of_def)
  next
    case greater
    then show ?thesis using less [OF assms(2,1)] cmp_bytes_swap [of "format_timestamp_ms t" "format_timestamp_ms t'"] by (simp add: cmp_of_def)
  qed (use less [OF assms] in \<open>simp add: cmp_of_def\<close>)
qed

lemma format_length: "is_valid_timestamp_ms t \<Longrightarrow> length (format_timestamp_ms t) = 24"
  by (erule format_stamp) (simp add: stamp_def)

section \<open>Property\<close>

text \<open>\<open>C31\<close>: the text of a timestamp is lossless and sorts. For every instant of the years 1 to 9999, the text that
  \<open>format_timestamp_ms\<close> gives has 24 bytes, parsing it returns the instant, and comparing the texts of two instants byte
  by byte compares the instants.\<close>

theorem timestamp_text_faithful:
  assumes "is_valid_timestamp_ms t" and "is_valid_timestamp_ms t'"
  shows "length (format_timestamp_ms t) = 24 \<and> parse_timestamp_ms (format_timestamp_ms t) = Some t \<and>
    cmp_bytes (format_timestamp_ms t) (format_timestamp_ms t') = cmp_of (sint t) (sint t')"
  using format_length [OF assms(1)] parse_format [OF assms(1)] format_order [OF assms] by simp

theorem timestamp_text_faithful_witness:
  "is_valid_timestamp_ms (- 1) \<and> is_valid_timestamp_ms 1709210096789 \<and> parse_timestamp_ms (format_timestamp_ms (- 1)) = Some (- 1) \<and>
   cmp_bytes (format_timestamp_ms (- 1)) (format_timestamp_ms 1709210096789) = Less"
proof -
  have v: "is_valid_timestamp_ms (- 1)" "is_valid_timestamp_ms 1709210096789"
    by (simp_all add: is_valid_timestamp_ms_def TIMESTAMP_MIN_MS_def TIMESTAMP_MAX_MS_def)
  show ?thesis using v timestamp_text_faithful [OF v] by (simp add: cmp_of_def)
qed

end
