(* ===== verification/Sql_Text.thy ===== *)
theory Sql_Text
  imports Json_Props
begin

text \<open>
  The quote- and comment-aware scanning of SQL text that \<open>stmt.rs\<close> and \<open>bind.rs\<close> share, and the tokens such a
  scan sees. Every scanner of the two files walks the text with the same cases: a string literal, a quoted
  identifier, a bracket identifier (each with the closing byte doubled as its escape), a line comment, a block
  comment, and otherwise one character.
\<close>

section \<open>Escaping\<close>

definition double :: "u8 \<Rightarrow> bytes \<Rightarrow> bytes" where
  "double q s = concat (map (\<lambda>c. if c = q then [q, q] else [c]) s)"

definition sql_string_literal :: "bytes \<Rightarrow> bytes" where
  "sql_string_literal s = 0x27 # double 0x27 s @ [0x27]"

definition sql_quote_ident :: "bytes \<Rightarrow> bytes" where
  "sql_quote_ident s = 0x22 # double 0x22 s @ [0x22]"

section \<open>Runs\<close>

text \<open>What is left of a run after its opening byte: the run up to and with its closing byte \<open>q\<close>, the rest, and
  whether the closing byte was found.\<close>

fun quoted_run :: "u8 \<Rightarrow> bytes \<Rightarrow> bytes \<times> bytes \<times> bool" where
  "quoted_run q [] = ([], [], False)"
| "quoted_run q (b # r) =
     (if b = q then
        (case r of
           c # r' \<Rightarrow>
             if c = q then (case quoted_run q r' of (x, rest, shut) \<Rightarrow> (q # q # x, rest, shut)) else ([q], r, True)
         | [] \<Rightarrow> ([q], r, True))
      else (case quoted_run q r of (x, rest, shut) \<Rightarrow> (b # x, rest, shut)))"

text \<open>\<open>opening\<close> is the offset of the opening quote.\<close>

definition sql_literal_end :: "bytes \<Rightarrow> nat \<Rightarrow> nat \<times> bool" where
  "sql_literal_end sql opening =
     (case quoted_run 0x27 (drop (opening + 1) sql) of (x, _, shut) \<Rightarrow> (opening + 1 + length x, shut))"

definition line_run :: "bytes \<Rightarrow> bytes \<times> bytes" where
  "line_run s = (takeWhile (\<lambda>b. b \<noteq> 0x0A) s, dropWhile (\<lambda>b. b \<noteq> 0x0A) s)"

text \<open>A block comment after its opening two bytes.\<close>

fun block_run :: "bytes \<Rightarrow> bytes \<times> bytes \<times> bool" where
  "block_run [] = ([], [], False)"
| "block_run (b # r) =
     (if b = 0x2A \<and> r \<noteq> [] \<and> hd r = 0x2F then ([0x2A, 0x2F], tl r, True)
      else (case block_run r of (x, rest, shut) \<Rightarrow> (b # x, rest, shut)))"

text \<open>\<open>utf8_len\<close> of \<open>stmt.rs\<close>; on the first byte of a character it is the character's length.\<close>

definition utf8_len :: "u8 \<Rightarrow> nat" where
  "utf8_len b = (if b \<le> 0x7F then 1 else if 0xC0 \<le> b \<and> b \<le> 0xDF then 2 else if 0xE0 \<le> b \<and> b \<le> 0xEF then 3 else 4)"

section \<open>Tokens\<close>

datatype token =
    Literal bytes bool
  | Quoted u8 bytes bool
  | LineComment bytes
  | BlockComment bytes bool
  | Mark
  | Ch bytes

definition closer :: "u8 \<Rightarrow> u8" where
  "closer b = (if b = 0x5B then 0x5D else b)"

definition is_quote :: "u8 \<Rightarrow> bool" where
  "is_quote b \<longleftrightarrow> b = 0x22 \<or> b = 0x60 \<or> b = 0x5B"

fun next_token :: "u8 \<Rightarrow> bytes \<Rightarrow> token \<times> bytes" where
  "next_token b r =
     (if b = 0x27 then (case quoted_run 0x27 r of (x, rest, shut) \<Rightarrow> (Literal x shut, rest))
      else if is_quote b then (case quoted_run (closer b) r of (x, rest, shut) \<Rightarrow> (Quoted b x shut, rest))
      else if b = 0x2D \<and> r \<noteq> [] \<and> hd r = 0x2D then (case line_run r of (x, rest) \<Rightarrow> (LineComment x, rest))
      else if b = 0x2F \<and> r \<noteq> [] \<and> hd r = 0x2A then (case block_run (tl r) of (x, rest, shut) \<Rightarrow> (BlockComment x shut, rest))
      else if b = 0x3F then (Mark, r)
      else (Ch (b # take (utf8_len b - 1) r), drop (utf8_len b - 1) r))"

declare next_token.simps [simp del]

fun token_text :: "token \<Rightarrow> bytes" where
  "token_text (Literal x _) = 0x27 # x"
| "token_text (Quoted q x _) = q # x"
| "token_text (LineComment x) = 0x2D # x"
| "token_text (BlockComment x _) = 0x2F # 0x2A # x"
| "token_text Mark = [0x3F]"
| "token_text (Ch x) = x"

lemma quoted_run_simps [simp]:
  "b \<noteq> q \<Longrightarrow> quoted_run q (b # r) = (case quoted_run q r of (x, rest, shut) \<Rightarrow> (b # x, rest, shut))"
  "quoted_run q (q # q # r) = (case quoted_run q r of (x, rest, shut) \<Rightarrow> (q # q # x, rest, shut))"
  "r = [] \<or> hd r \<noteq> q \<Longrightarrow> quoted_run q (q # r) = ([q], r, True)"
  by (auto split: list.splits)

declare quoted_run.simps(2) [simp del]

lemma quoted_run_induct [case_names Nil other escape fin]:
  assumes "P []" and "\<And>b r. b \<noteq> q \<Longrightarrow> P r \<Longrightarrow> P (b # r)" and "\<And>r. P r \<Longrightarrow> P (q # q # r)" and "\<And>r. r = [] \<or> hd r \<noteq> q \<Longrightarrow> P (q # r)"
  shows "P r"
proof (induction r rule: length_induct)
  case (1 r)
  show ?case
  proof (cases r)
    case (Cons b t)
    show ?thesis
    proof (cases "b = q \<and> t \<noteq> [] \<and> hd t = q")
      case True
      then obtain u where "t = q # u" by (cases t) auto
      then show ?thesis using Cons True 1 assms(3) [of u] by simp
    next
      case False
      then show ?thesis using Cons 1 assms(2) [of b t] assms(4) [of t] by (cases "b = q") auto
    qed
  qed (simp add: assms(1))
qed

lemma quoted_run_split: "quoted_run q r = (x, rest, shut) \<Longrightarrow> r = x @ rest"
  by (induction r arbitrary: x rest shut rule: quoted_run_induct [where q = q]) (auto split: prod.splits)

lemma block_run_split: "block_run r = (x, rest, shut) \<Longrightarrow> r = x @ rest"
  by (induction r arbitrary: x rest shut rule: block_run.induct) (auto split: if_splits prod.splits, metis list.collapse)

lemma next_token_split: "next_token b r = (t, rest) \<Longrightarrow> b # r = token_text t @ rest"
  by (auto simp: next_token.simps line_run_def split: if_splits prod.splits dest!: quoted_run_split block_run_split) (metis list.collapse)

lemma next_token_shrinks: "next_token b r = (t, rest) \<Longrightarrow> length rest \<le> length r"
proof -
  assume "next_token b r = (t, rest)"
  moreover from this have "token_text t \<noteq> []" by (auto simp: next_token.simps split: if_splits prod.splits)
  ultimately show ?thesis using arg_cong [OF next_token_split, of b r t rest length] by (cases "token_text t") auto
qed

function tokens :: "bytes \<Rightarrow> token list" where
  "tokens [] = []"
| "tokens (b # r) = (case next_token b r of (t, rest) \<Rightarrow> t # tokens rest)"
  by pat_completeness auto
termination
  by (relation "measure length") (auto dest!: next_token_shrinks [OF sym])

declare tokens.simps(2) [simp del]

lemma tokens_text: "concat (map token_text (tokens s)) = s"
proof (induction s rule: tokens.induct)
  case (2 b r)
  obtain t rest where n: "next_token b r = (t, rest)" by fastforce
  have "tokens (b # r) = t # tokens rest" by (simp add: tokens.simps(2) n)
  then show ?case using 2 [OF n [symmetric]] next_token_split [OF n] by simp
qed simp

section \<open>Rescanning\<close>

text \<open>What may follow a token so that a scan of its text finds it again.\<close>

fun may_follow :: "token \<Rightarrow> bytes \<Rightarrow> bool" where
  "may_follow (Literal x shut) s \<longleftrightarrow> quoted_run 0x27 x = (x, [], shut) \<and> (s = [] \<or> shut \<and> hd s \<noteq> 0x27)"
| "may_follow (Quoted q x shut) s \<longleftrightarrow> is_quote q \<and> quoted_run (closer q) x = (x, [], shut) \<and> (s = [] \<or> shut \<and> hd s \<noteq> closer q)"
| "may_follow (LineComment x) s \<longleftrightarrow> x \<noteq> [] \<and> hd x = 0x2D \<and> list_all (\<lambda>b. b \<noteq> 0x0A) x \<and> (s = [] \<or> hd s = 0x0A)"
| "may_follow (BlockComment x shut) s \<longleftrightarrow> block_run x = (x, [], shut) \<and> (s = [] \<or> shut)"
| "may_follow Mark s \<longleftrightarrow> True"
| "may_follow (Ch x) s \<longleftrightarrow>
     x \<noteq> [] \<and> hd x \<noteq> 0x27 \<and> \<not> is_quote (hd x) \<and> hd x \<noteq> 0x3F \<and>
     (length x = utf8_len (hd x) \<or> s = [] \<and> length x < utf8_len (hd x)) \<and>
     (hd x = 0x2D \<longrightarrow> s = [] \<or> hd s \<noteq> 0x2D) \<and> (hd x = 0x2F \<longrightarrow> s = [] \<or> hd s \<noteq> 0x2A)"

lemma quoted_run_append:
  "quoted_run q r = (x, [], True) \<Longrightarrow> s = [] \<or> hd s \<noteq> q \<Longrightarrow> quoted_run q (r @ s) = (x, s, True)"
proof (induction r arbitrary: x rule: quoted_run_induct [where q = q])
  case (fin r)
  then have "r = []" "x = [q]" by simp_all
  then show ?case using fin(3) by simp
qed (auto split: prod.splits)

lemma quoted_run_idem: "quoted_run q r = (x, rest, shut) \<Longrightarrow> quoted_run q x = (x, [], shut) \<and> (rest = [] \<or> shut \<and> hd rest \<noteq> q)"
  by (induction r arbitrary: x rest shut rule: quoted_run_induct [where q = q]) (auto split: prod.splits)

lemma block_run_append: "block_run r = (x, [], True) \<Longrightarrow> block_run (r @ s) = (x, s, True)"
proof (induction r arbitrary: x)
  case (Cons b r)
  show ?case
  proof (cases "b = 0x2A \<and> r \<noteq> [] \<and> hd r = 0x2F")
    case True
    then obtain u where "r = 0x2F # u" by (cases r) auto
    then show ?thesis using Cons.prems True by auto
  next
    case False
    then obtain y where y: "block_run r = (y, [], True)" "x = b # y" using Cons.prems by (auto split: prod.splits)
    then have "r \<noteq> []" by auto
    then show ?thesis using False Cons.IH [OF y(1)] y(2) by auto
  qed
qed simp

lemma block_run_idem: "block_run r = (x, rest, shut) \<Longrightarrow> block_run x = (x, [], shut) \<and> (rest = [] \<or> shut)"
proof (induction r arbitrary: x rest shut rule: block_run.induct)
  case (2 b r)
  show ?case
  proof (cases "b = 0x2A \<and> r \<noteq> [] \<and> hd r = 0x2F")
    case True
    then show ?thesis using "2.prems" by auto
  next
    case False
    obtain y z c where y: "block_run r = (y, z, c)" by (metis prod_cases3)
    have "r = y @ z" by (rule block_run_split [OF y])
    then have "\<not> (b = 0x2A \<and> y \<noteq> [] \<and> hd y = 0x2F)" using False by auto
    then show ?thesis using 2 False y by auto
  qed
qed simp

lemma next_token_again: "may_follow t s \<Longrightarrow> \<exists>b r. token_text t @ s = b # r \<and> next_token b r = (t, s)"
proof (induction t s rule: may_follow.induct)
  case (1 x shut s)
  then show ?case using quoted_run_append [of "0x27" x x s] by (cases shut) (auto simp: next_token.simps)
next
  case (2 q x shut s)
  then have "q \<noteq> 0x27" by (auto simp: is_quote_def)
  then show ?case using 2 quoted_run_append [of "closer q" x x s] by (cases shut) (auto simp: next_token.simps)
next
  case (3 x s)
  have "takeWhile (\<lambda>b. b \<noteq> 0x0A) (y @ s) = y \<and> dropWhile (\<lambda>b. b \<noteq> 0x0A) (y @ s) = s"
    if "list_all (\<lambda>b. b \<noteq> 0x0A) y" "s = [] \<or> hd s = 0x0A" for y s :: bytes
    using that by (induction y) (cases s; auto)+
  then show ?case using 3 by (auto simp: next_token.simps line_run_def is_quote_def)
next
  case (4 x shut s)
  then show ?case using block_run_append [of x x s] by (cases shut) (auto simp: next_token.simps is_quote_def)
next
  case (6 x s)
  then obtain b y where x: "x = b # y" by (cases x) auto
  show ?case
  proof (cases "length x = utf8_len b")
    case True
    then have "length y = utf8_len b - 1" using x by simp
    moreover have "b = 0x2D \<or> b = 0x2F \<Longrightarrow> y = []" using True x by (auto simp: utf8_len_def)
    ultimately show ?thesis using 6 x by (auto simp: next_token.simps)
  next
    case False
    then have "s = []" "length y < utf8_len b - 1" using 6 x by auto
    moreover have "b = 0x2D \<or> b = 0x2F \<Longrightarrow> y = []" using \<open>length y < _\<close> by (auto simp: utf8_len_def)
    ultimately show ?thesis using 6 x by (auto simp: next_token.simps)
  qed
qed (simp add: next_token.simps is_quote_def)

fun well_spaced :: "token list \<Rightarrow> bytes \<Rightarrow> bool" where
  "well_spaced [] s \<longleftrightarrow> True"
| "well_spaced (t # ts) s \<longleftrightarrow> may_follow t (concat (map token_text ts) @ s) \<and> well_spaced ts s"

lemma tokens_of_text: "well_spaced ts [] \<Longrightarrow> tokens (concat (map token_text ts)) = ts"
proof (induction ts)
  case (Cons t ts)
  then show ?case using next_token_again [of t "concat (map token_text ts)"] by (auto simp: tokens.simps(2))
qed simp

lemma char_follow:
  assumes "b \<noteq> 0x27" and "\<not> is_quote b" and "b \<noteq> 0x3F" and "\<not> (b = 0x2D \<and> r \<noteq> [] \<and> hd r = 0x2D)" and "\<not> (b = 0x2F \<and> r \<noteq> [] \<and> hd r = 0x2A)"
  shows "may_follow (Ch (b # take (utf8_len b - 1) r)) (drop (utf8_len b - 1) r)"
proof -
  define n where "n = utf8_len b"
  have u: "n \<noteq> 0" "b = 0x2D \<or> b = 0x2F \<Longrightarrow> n = 1" by (auto simp: n_def utf8_len_def)
  have len: "length (b # take (n - 1) r) = n \<or> drop (n - 1) r = [] \<and> length (b # take (n - 1) r) < n" using u(1) by (cases "length r < n - 1") auto
  have "b = 0x2D \<longrightarrow> drop (n - 1) r = [] \<or> hd (drop (n - 1) r) \<noteq> 0x2D" "b = 0x2F \<longrightarrow> drop (n - 1) r = [] \<or> hd (drop (n - 1) r) \<noteq> 0x2A"
    using u(2) assms(4,5) by simp_all
  then show ?thesis using assms(1-3) len by (simp only: may_follow.simps n_def [symmetric] list.sel list.distinct simp_thms)
qed

lemma next_token_follow: "next_token b r = (t, rest) \<Longrightarrow> may_follow t rest"
proof -
  assume n: "next_token b r = (t, rest)"
  have l: "dropWhile (\<lambda>b. b \<noteq> 0x0A) r = [] \<or> hd (dropWhile (\<lambda>b. b \<noteq> 0x0A) r) = (0x0A :: u8)"
    using hd_dropWhile [of "\<lambda>b. b \<noteq> 0x0A" r] by blast
  consider "b = 0x27" | "b \<noteq> 0x27" "is_quote b" | "b = 0x2D" "r \<noteq> []" "hd r = 0x2D" | "b = 0x2F" "r \<noteq> []" "hd r = 0x2A" | "b = 0x3F"
    | "b \<noteq> 0x27" "\<not> is_quote b" "b \<noteq> 0x3F" "\<not> (b = 0x2D \<and> r \<noteq> [] \<and> hd r = 0x2D)" "\<not> (b = 0x2F \<and> r \<noteq> [] \<and> hd r = 0x2A)" by blast
  then show ?thesis
  proof cases
    case 1
    obtain x y c where q: "quoted_run 0x27 r = (x, y, c)" by (metis prod_cases3)
    then show ?thesis using n 1 quoted_run_idem [OF q] by (auto simp: next_token.simps)
  next
    case 2
    obtain x y c where q: "quoted_run (closer b) r = (x, y, c)" by (metis prod_cases3)
    then show ?thesis using n 2 quoted_run_idem [OF q] by (auto simp: next_token.simps)
  next
    case 3
    then obtain r' where "r = 0x2D # r'" by (cases r) auto
    then show ?thesis using n l 3 by (auto simp: next_token.simps line_run_def is_quote_def list_all_iff dest: set_takeWhileD)
  next
    case 4
    obtain x y c where q: "block_run (tl r) = (x, y, c)" by (metis prod_cases3)
    then show ?thesis using n 4 block_run_idem [OF q] by (auto simp: next_token.simps is_quote_def)
  next
    case 5
    then show ?thesis using n by (auto simp: next_token.simps is_quote_def)
  next
    case 6
    then have "t = Ch (b # take (utf8_len b - 1) r)" "rest = drop (utf8_len b - 1) r"
      using n unfolding next_token.simps by (simp_all only: if_False prod.inject)
    then show ?thesis using char_follow [OF 6] by simp
  qed
qed

lemma tokens_well_spaced: "well_spaced (tokens s) []"
proof (induction s rule: tokens.induct)
  case (2 b r)
  obtain t rest where n: "next_token b r = (t, rest)" by fastforce
  then show ?case using 2 [OF n [symmetric]] next_token_follow [OF n] tokens_text [of rest] by (simp add: tokens.simps(2))
qed simp

end
