(* ===== verification/Bind_Props.thy ===== *)
theory Bind_Props
  imports Bind Timestamp_Props
begin

text \<open>
  Bound parameters stay data: the tokens of the literals, and the tokens of a statement with its parameters
  bound.
\<close>

section \<open>Literals\<close>

lemma quoted_double: "s = [] \<or> hd s \<noteq> q \<Longrightarrow> quoted_run q (double q x @ q # s) = (double q x @ [q], s, True)"
  by (induction x) (auto simp: double_def split: prod.splits)

text \<open>The data of a literal token.\<close>

fun undouble :: "bytes \<Rightarrow> bytes" where
  "undouble (a # b # r) = (if a = 0x27 \<and> b = 0x27 then 0x27 # undouble r else a # undouble (b # r))"
| "undouble r = butlast r"

fun literal_data :: "token \<Rightarrow> bytes option" where
  "literal_data (Literal x True) = Some (undouble x)"
| "literal_data _ = None"

lemma undouble_double: "undouble (double 0x27 s @ [0x27]) = s"
proof (induction s)
  case (Cons c s)
  have "double 0x27 s @ [0x27] \<noteq> []" by simp
  then obtain a u where "double 0x27 s @ [0x27] = a # u" by (cases "double 0x27 s @ [0x27]") auto
  then show ?case using Cons by (auto simp: double_def)
qed (simp add: double_def)

definition literal_of :: "bytes \<Rightarrow> token" where
  "literal_of s = Literal (double 0x27 s @ [0x27]) True"

lemma literal_of_text: "token_text (literal_of s) = sql_string_literal s"
  by (simp add: literal_of_def sql_string_literal_def)

lemma literal_of_follow: "s = [] \<or> hd s \<noteq> 0x27 \<Longrightarrow> may_follow (literal_of x) s"
  using quoted_double [of "[]" "0x27" x] by (auto simp: literal_of_def)

section \<open>Plain text\<close>

definition chs :: "bytes \<Rightarrow> token list" where
  "chs s = map (\<lambda>b. Ch [b]) s"

definition plain_byte :: "u8 \<Rightarrow> bool" where
  "plain_byte b \<longleftrightarrow> b < 0x80 \<and> b \<noteq> 0x27 \<and> \<not> is_quote b \<and> b \<noteq> 0x3F \<and> b \<noteq> 0x2F"

fun no_dashes :: "bytes \<Rightarrow> bool" where
  "no_dashes (a # b # r) \<longleftrightarrow> \<not> (a = 0x2D \<and> b = 0x2D) \<and> no_dashes (b # r)"
| "no_dashes _ \<longleftrightarrow> True"

lemma chs_text [simp]: "concat (map token_text (chs s)) = s"
  by (induction s) (auto simp: chs_def)

lemma plain_follow: "plain_byte b \<Longrightarrow> b \<noteq> 0x2D \<or> s = [] \<or> hd s \<noteq> 0x2D \<Longrightarrow> may_follow (Ch [b]) s"
  by (auto simp: plain_byte_def utf8_len_def word_le_nat_alt word_less_nat_alt)

lemma well_spaced_append: "well_spaced (xs @ ys) s \<longleftrightarrow> well_spaced xs (concat (map token_text ys) @ s) \<and> well_spaced ys s"
  by (induction xs) auto

lemma chs_spaced: "list_all plain_byte x \<Longrightarrow> no_dashes x \<Longrightarrow> x = [] \<or> last x \<noteq> 0x2D \<Longrightarrow> well_spaced (chs x) s"
proof (induction x)
  case (Cons b x)
  have "no_dashes x" using Cons.prems(2) by (cases x) auto
  moreover have "b \<noteq> 0x2D \<or> x @ s = [] \<or> hd (x @ s) \<noteq> 0x2D" using Cons.prems(2,3) by (cases x) auto
  moreover have "chs (b # x) = Ch [b] # chs x" by (simp add: chs_def)
  moreover have "x = [] \<or> last x \<noteq> 0x2D" using Cons.prems(3) by (cases x) auto
  ultimately show ?case using Cons plain_follow [of b "x @ s"] by (simp del: may_follow.simps)
qed (simp add: chs_def)

section \<open>The tokens of a parameter\<close>

text \<open>\<open>f64\<close> \<open>Debug\<close> text: an optional minus, then digits with at most one sign in the exponent, and a digit at
  either end.\<close>

definition float_text_plain :: "'d text_ops \<Rightarrow> bool" where
  "float_text_plain T \<longleftrightarrow>
     (\<forall>f. f64_finite f \<longrightarrow>
        (\<exists>sign body. fmt_f64 T f = sign @ body \<and> (sign = [] \<or> sign = [0x2D]) \<and> body \<noteq> [] \<and> is_digit (hd body) \<and> is_digit (last body) \<and>
           list_all num_byte body \<and> no_dashes body))"

definition cast_tokens :: "bytes \<Rightarrow> string \<Rightarrow> token list" where
  "cast_tokens s ty = chs (ascii ''CAST('') @ literal_of s # chs (ascii '' AS '' @ ascii ty @ ascii '')'')"

fun render_tokens :: "'d text_ops \<Rightarrow> 'd Value \<Rightarrow> token list" where
  "render_tokens T (Float f) = (if \<not> f64_finite f then cast_tokens (float_marker_text f) ''REAL'' else chs (fmt_f64 T f))"
| "render_tokens T (Decimal d) = cast_tokens (fmt_dec T d) ''DECIMAL''"
| "render_tokens T (Timestamp ms) = cast_tokens (format_timestamp_ms ms) ''TIMESTAMP''"
| "render_tokens T (Str s) = [literal_of s]"
| "render_tokens T (Bytes b) = [Ch [0x78], Literal (concat (map hex2 b) @ [0x27]) True]"
| "render_tokens T (Array xs) = [literal_of (to_json T (Array xs))]"
| "render_tokens T (Object es) = [literal_of (to_json T (Object es))]"
| "render_tokens T v = chs (render_param T v)"

text \<open>Nothing but characters and closed literals.\<close>

fun inert :: "token \<Rightarrow> bool" where
  "inert (Ch x) \<longleftrightarrow> True"
| "inert (Literal x c) \<longleftrightarrow> c"
| "inert _ \<longleftrightarrow> False"

lemma render_tokens_text: "concat (map token_text (render_tokens T v)) = render_param T v"
  by (cases v) (auto simp: cast_tokens_def as_cast_def literal_of_text)

lemma render_tokens_inert: "list_all inert (render_tokens T v)"
  by (cases v) (auto simp: cast_tokens_def chs_def literal_of_def list_all_iff)

lemma digit_plain: "is_digit b \<Longrightarrow> plain_byte b \<and> b \<noteq> 0x2D"
  by (auto simp: is_digit_def plain_byte_def is_quote_def word_le_nat_alt word_less_nat_alt)

lemma num_plain: "num_byte b \<Longrightarrow> plain_byte b"
  using digit_plain [of b] by (auto simp: num_byte_def is_float_mark_def plain_byte_def is_quote_def)

lemma no_dashes_none: "list_all (\<lambda>b. b \<noteq> 0x2D) x \<Longrightarrow> no_dashes x"
  by (induction x rule: no_dashes.induct) auto

lemma no_dashes_hd: "a \<noteq> 0x2D \<or> s = [] \<or> hd s \<noteq> 0x2D \<Longrightarrow> no_dashes s \<Longrightarrow> no_dashes (a # s)"
  by (cases s) auto

text \<open>A text of digits with an optional sign.\<close>

lemma number_spaced:
  assumes "t = sign @ body" and "sign = [] \<or> sign = [0x2D]" and "body \<noteq> []" and "is_digit (hd body)" and "is_digit (last body)"
    and "list_all num_byte body" and "no_dashes body"
  shows "list_all plain_byte t" and "no_dashes t" and "t \<noteq> []" and "last t \<noteq> 0x2D"
  using assms digit_plain num_plain by (auto simp: list_all_iff intro!: no_dashes_hd, auto simp: plain_byte_def is_quote_def)

lemma int_text:
  obtains sign body where "int_digits i = sign @ body" and "sign = [] \<or> sign = [0x2D]" and "body \<noteq> []" and "is_digit (hd body)" and "is_digit (last body)"
    and "list_all num_byte body" and "no_dashes body"
proof -
  obtain sign body where b: "int_digits i = sign @ body" "sign = [] \<or> sign = [0x2D]" "body \<noteq> []" "list_all is_digit body"
    by (rule int_digits_split)
  moreover have "is_digit (hd body)" "is_digit (last body)" "list_all num_byte body" "no_dashes body"
    using b(3,4) digit_no_mark digit_plain by (auto simp: list_all_iff intro!: no_dashes_none)
  ultimately show thesis using that by blast
qed

definition starts_literal :: "u8 \<Rightarrow> bool" where
  "starts_literal c \<longleftrightarrow> c \<noteq> 0x2A \<and> c \<noteq> 0x22 \<and> c \<noteq> 0x60 \<and> c \<noteq> 0x5D"

lemma number_start_literal: "t = sign @ body \<Longrightarrow> sign = [] \<or> sign = [0x2D] \<Longrightarrow> body \<noteq> [] \<Longrightarrow> is_digit (hd body) \<Longrightarrow> t \<noteq> [] \<and> starts_literal (hd t)"
  by (auto simp: starts_literal_def is_digit_def word_le_nat_alt)

lemma render_start:
  assumes "float_text_plain T"
  shows "render_param T v \<noteq> [] \<and> starts_literal (hd (render_param T v))"
proof (cases v)
  case (Int64 i)
  then show ?thesis using int_text [of "sint i"] number_start_literal by (metis render_param.simps(3))
next
  case (Float f)
  show ?thesis
  proof (cases "f64_finite f")
    case True
    then show ?thesis using Float assms number_start_literal unfolding float_text_plain_def by (metis render_param.simps(4))
  qed (simp add: Float as_cast_def ascii_def starts_literal_def)
qed (auto simp: as_cast_def ascii_def starts_literal_def sql_string_literal_def)

lemma cast_spaced:
  assumes "ty \<in> {''REAL'', ''DECIMAL'', ''TIMESTAMP''}"
  shows "well_spaced (cast_tokens x ty) s"
proof -
  have p: "list_all plain_byte (ascii ''CAST('')" "list_all plain_byte (ascii '' AS '' @ ascii ty @ ascii '')'')"
    "no_dashes (ascii ''CAST('')" "no_dashes (ascii '' AS '' @ ascii ty @ ascii '')'')"
    using assms by (auto simp: plain_byte_def is_quote_def ascii_def)
  have l: "last (ascii ''CAST('') \<noteq> 0x2D" "last (ascii '' AS '' @ ascii ty @ ascii '')'') \<noteq> 0x2D" by (simp_all add: ascii_def)
  have f: "may_follow (literal_of x) ((ascii '' AS '' @ ascii ty @ ascii '')'') @ s)" by (rule literal_of_follow) (simp add: ascii_def)
  show ?thesis
    unfolding cast_tokens_def well_spaced_append well_spaced.simps chs_text
    using chs_spaced [OF p(1,3)] chs_spaced [OF p(2,4)] l f by blast
qed

lemma hex_plain: "n < 16 \<Longrightarrow> hex_char n \<noteq> 0x27"
proof -
  assume n: "n < 16"
  then show ?thesis using hex_roundtrip [OF n] by (auto simp: hex_val_def word_le_nat_alt)
qed

lemma render_spaced:
  assumes "float_text_plain T" and "s = [] \<or> hd s \<noteq> 0x27"
  shows "well_spaced (render_tokens T v) s"
proof (cases v)
  case (Int64 i)
  obtain sign body where b: "int_digits (sint i) = sign @ body" "sign = [] \<or> sign = [0x2D]" "body \<noteq> []" "is_digit (hd body)" "is_digit (last body)"
    "list_all num_byte body" "no_dashes body" by (rule int_text)
  then show ?thesis using Int64 chs_spaced number_spaced [OF b] by simp
next
  case (Float f)
  show ?thesis
  proof (cases "f64_finite f")
    case True
    then obtain sign body where b: "fmt_f64 T f = sign @ body" "sign = [] \<or> sign = [0x2D]" "body \<noteq> []" "is_digit (hd body)" "is_digit (last body)"
      "list_all num_byte body" "no_dashes body" using assms(1) unfolding float_text_plain_def by blast
    then show ?thesis using Float True chs_spaced number_spaced [OF b] by simp
  qed (simp add: Float cast_spaced)
next
  case (Bytes b)
  have "quoted_run 0x27 (x @ [0x27]) = (x @ [0x27], [], True)" if "list_all (\<lambda>c. c \<noteq> 0x27) x" for x
    using that by (induction x) auto
  moreover have "list_all (\<lambda>c. c \<noteq> 0x27) (concat (map hex2 b))"
  proof -
    have "unat x div 16 < 16" for x :: u8 using unat_bound [of x] by simp
    then show ?thesis by (auto simp: list_all_iff hex2_def hex_plain)
  qed
  ultimately have "may_follow (Literal (concat (map hex2 b) @ [0x27]) True) s" using assms(2) by simp
  moreover have "may_follow (Ch [0x78]) (0x27 # concat (map hex2 b) @ 0x27 # s)"
    by (rule plain_follow) (simp_all add: plain_byte_def is_quote_def)
  ultimately show ?thesis using Bytes by (simp del: may_follow.simps)
next
  case (Bool b)
  then show ?thesis by (cases b) (auto simp: ascii_def plain_byte_def is_quote_def intro!: chs_spaced)
next
  case Null
  then show ?thesis by (auto simp: ascii_def plain_byte_def is_quote_def intro!: chs_spaced)
qed (use literal_of_follow assms(2) in \<open>auto simp: cast_spaced simp del: may_follow.simps\<close>)

section \<open>The tokens of a bound statement\<close>

fun fill :: "token list \<Rightarrow> token list list \<Rightarrow> token list" where
  "fill [] rs = []"
| "fill (Mark # ts) (r # rs) = r @ fill ts rs"
| "fill (t # ts) rs = t # fill ts rs"

definition is_literal :: "token \<Rightarrow> bool" where
  "is_literal t \<longleftrightarrow> (case t of Literal _ _ \<Rightarrow> True | _ \<Rightarrow> False)"

text \<open>Two neighbours whose texts could run together once the placeholder is replaced.\<close>

definition clash :: "token \<Rightarrow> token \<Rightarrow> bool" where
  "clash a b \<longleftrightarrow> b = Mark \<and> (a = Mark \<or> is_literal a \<or> a = Ch [0x2D]) \<or> a = Mark \<and> is_literal b"

fun apart :: "token list \<Rightarrow> bool" where
  "apart (a # b # ts) \<longleftrightarrow> \<not> clash a b \<and> apart (b # ts)"
| "apart _ \<longleftrightarrow> True"

lemma follow_literal_start:
  assumes "may_follow t (0x3F # s)" and "t \<noteq> Mark" and "\<not> clash t Mark" and "starts_literal c"
  shows "may_follow t (c # s')"
proof (cases t)
  case (Ch x)
  then have "x \<noteq> []" "length x = utf8_len (hd x)" using assms(1) by auto
  then have "hd x = 0x2D \<Longrightarrow> x = [0x2D]" by (cases x) (auto simp: utf8_len_def)
  then show ?thesis using Ch assms by (auto simp: clash_def starts_literal_def)
next
  case (Quoted q x c)
  then show ?thesis using assms by (auto simp: starts_literal_def closer_def is_quote_def)
qed (use assms in \<open>auto simp: clash_def is_literal_def\<close>)

lemma may_follow_hd: "may_follow t (c # s) \<Longrightarrow> may_follow t (c # s')"
  by (cases t) auto

lemma token_hd_literal: "may_follow t s \<Longrightarrow> \<not> is_literal t \<Longrightarrow> token_text t \<noteq> [] \<and> hd (token_text t) \<noteq> 0x27"
  by (cases t) (auto simp: is_literal_def is_quote_def)

definition fill_text :: "token list \<Rightarrow> token list list \<Rightarrow> bytes" where
  "fill_text ts rs = concat (map token_text (fill ts rs))"

text \<open>The text of the rest starts as before, or with a literal where it started with a placeholder.\<close>

lemma fill_follow:
  assumes "may_follow t (concat (map token_text ts))" and "t \<noteq> Mark" and "ts \<noteq> [] \<Longrightarrow> \<not> clash t (hd ts)" and "well_spaced ts []"
    and rs: "\<forall>r \<in> set rs. concat (map token_text r) \<noteq> [] \<and> starts_literal (hd (concat (map token_text r)))"
    and n: "length (filter (\<lambda>t. t = Mark) ts) = length rs"
  shows "may_follow t (fill_text ts rs)"
proof (cases ts)
  case Nil
  then show ?thesis using assms(1) by (simp add: fill_text_def)
next
  case (Cons u us)
  show ?thesis
  proof (cases "u = Mark")
    case True
    then obtain r rs' where r: "rs = r # rs'" using n Cons by (cases rs) auto
    then obtain c s where "concat (map token_text r) = c # s" "starts_literal c" using rs by (cases "concat (map token_text r)") auto
    then show ?thesis
      using follow_literal_start [of t "concat (map token_text us)" c] assms(1-3) Cons True r by (simp add: fill_text_def del: may_follow.simps)
  next
    case False
    have "may_follow u (concat (map token_text us))" using assms(4) Cons by simp
    then have "token_text u \<noteq> []" by (cases u) auto
    then obtain c s where c: "token_text u = c # s" by (cases "token_text u") auto
    have "fill ts rs = u # fill us rs" using Cons False by (cases u) auto
    then show ?thesis using assms(1) c Cons may_follow_hd [of t c] by (simp add: fill_text_def del: may_follow.simps)
  qed
qed

lemma fill_spaced:
  assumes "float_text_plain T"
  shows "well_spaced ts [] \<Longrightarrow> apart ts \<Longrightarrow> length (filter (\<lambda>t. t = Mark) ts) = length ps \<Longrightarrow> well_spaced (fill ts (map (render_tokens T) ps)) []"
proof (induction ts arbitrary: ps)
  case (Cons t ts)
  have ap: "apart ts" "ts \<noteq> [] \<Longrightarrow> \<not> clash t (hd ts)" using Cons.prems(2) by (cases ts; auto)+
  have sp: "may_follow t (concat (map token_text ts))" "well_spaced ts []" using Cons.prems(1) by auto
  have rs: "\<forall>r \<in> set (map (render_tokens T) qs). concat (map token_text r) \<noteq> [] \<and> starts_literal (hd (concat (map token_text r)))" for qs
    unfolding list.set_map by (rule ballI, elim imageE) (simp only: render_tokens_text render_start [OF assms] simp_thms)
  show ?case
  proof (cases "t = Mark")
    case True
    then obtain p qs where p: "ps = p # qs" using Cons.prems(3) by (cases ps) auto
    have IH: "well_spaced (fill ts (map (render_tokens T) qs)) []" using Cons.IH ap(1) sp(2) Cons.prems(3) True p by simp
    have "fill_text ts (map (render_tokens T) qs) = [] \<or> hd (fill_text ts (map (render_tokens T) qs)) \<noteq> 0x27"
    proof (cases ts)
      case (Cons u us)
      then have u: "u \<noteq> Mark" "\<not> is_literal u" using ap(2) True by (auto simp: clash_def)
      then have "fill ts (map (render_tokens T) qs) = u # fill us (map (render_tokens T) qs)" using Cons by (cases u) auto
      then show ?thesis using token_hd_literal [of u] sp(2) Cons u by (auto simp: fill_text_def simp del: may_follow.simps)
    qed (simp add: fill_text_def)
    then show ?thesis using render_spaced [OF assms, of "fill_text ts (map (render_tokens T) qs)" p] IH True p
      by (simp add: well_spaced_append fill_text_def)
  next
    case False
    then have "fill (t # ts) (map (render_tokens T) ps) = t # fill ts (map (render_tokens T) ps)" by (cases t) auto
    moreover have "length (filter (\<lambda>t. t = Mark) ts) = length ps" using Cons.prems(3) False by simp
    ultimately show ?thesis
      using Cons.IH [OF sp(2) ap(1)] fill_follow [OF sp(1) False ap(2) sp(2) rs, of ps] by (simp add: fill_text_def del: may_follow.simps)
  qed
qed simp

lemma bind_tokens_ok:
  "length (filter (\<lambda>t. t = Mark) ts) \<le> length ps - n \<Longrightarrow> n \<le> length ps \<Longrightarrow>
   bind_tokens T ps n out ts = Inr (n + length (filter (\<lambda>t. t = Mark) ts), out @ fill_text ts (map (render_tokens T) (drop n ps)))"
proof (induction ts arbitrary: n out)
  case (Cons t ts)
  show ?case
  proof (cases "t = Mark")
    case True
    then have "drop n ps = ps ! n # drop (Suc n) ps" using Cons.prems by (intro Cons_nth_drop_Suc [symmetric]) auto
    then show ?thesis using Cons True by (simp add: fill_text_def render_tokens_text)
  next
    case False
    then have "fill (t # ts) rs = t # fill ts rs" "bind_tokens T ps n out (t # ts) = bind_tokens T ps n (out @ token_text t) ts" for rs
      by (cases t; simp)+
    then show ?thesis using Cons False by (simp add: fill_text_def)
  qed
qed (simp add: fill_text_def)

lemma bind_tokens_few:
  "length ps < n + length (filter (\<lambda>t. t = Mark) ts) \<Longrightarrow> n \<le> length ps \<Longrightarrow> bind_tokens T ps n out ts = Inl (TooFewParams (length ps))"
proof (induction ts arbitrary: n out)
  case (Cons t ts)
  then show ?case by (cases t) auto
qed simp

section \<open>Properties\<close>

text \<open>\<open>C32\<close>: bound values stay data. Binding succeeds exactly when there are as many values as placeholders outside
  quotes and comments. The text it gives then scans to the tokens of the statement, with each placeholder
  replaced by the tokens of its value's literal, which are characters and closed literals only (a string is
  one literal that carries exactly that string). This holds for every statement in which no placeholder touches a
  literal, another placeholder or a minus sign before it.\<close>

theorem bound_values_stay_data:
  assumes "float_text_plain T" and "apart (tokens sql)"
  shows "(if length (filter (\<lambda>t. t = Mark) (tokens sql)) = length params
      then \<exists>out. bind_params T sql params = Inr out \<and> tokens out = fill (tokens sql) (map (render_tokens T) params)
      else \<exists>e. bind_params T sql params = Inl e) \<and>
    (\<forall>v. list_all inert (render_tokens T v)) \<and> (\<forall>s. map literal_data (render_tokens T (Str s)) = [Some s])"
proof (intro conjI allI)
  let ?m = "length (filter (\<lambda>t. t = Mark) (tokens sql))"
  consider "?m = length params" | "?m < length params" | "length params < ?m" by linarith
  then show "if ?m = length params
      then \<exists>out. bind_params T sql params = Inr out \<and> tokens out = fill (tokens sql) (map (render_tokens T) params)
      else \<exists>e. bind_params T sql params = Inl e"
  proof cases
    case 1
    have "well_spaced (fill (tokens sql) (map (render_tokens T) params)) []"
      by (rule fill_spaced [OF assms(1) tokens_well_spaced assms(2) 1])
    then show ?thesis
      using 1 bind_tokens_ok [of "tokens sql" params 0 T "[]"] tokens_of_text by (simp add: bind_params_def bind_loop_tokens fill_text_def)
  next
    case 2
    then show ?thesis using bind_tokens_ok [of "tokens sql" params 0 T "[]"] by (simp add: bind_params_def bind_loop_tokens)
  next
    case 3
    then show ?thesis using bind_tokens_few [of params 0 "tokens sql" T "[]"] by (simp add: bind_params_def bind_loop_tokens)
  qed
  show "list_all inert (render_tokens T v)" for v by (rule render_tokens_inert)
  show "map literal_data (render_tokens T (Str s)) = [Some s]" for s by (simp add: literal_of_def undouble_double)
qed

definition ex_bind_text :: "nat text_ops" where
  "ex_bind_text =
     \<lparr>fmt_f64 = (\<lambda>f. nat_digits (unat f) @ [0x2E, 0x30]), parse_f64 = (\<lambda>s. None), fmt_dec = nat_digits, parse_dec = (\<lambda>s. Some (digits_val s))\<rparr>"

lemma ex_bind_plain: "float_text_plain ex_bind_text"
  unfolding float_text_plain_def
proof (intro allI impI exI conjI)
  fix f :: f64
  let ?b = "nat_digits (unat f) @ [0x2E, 0x30]"
  have d: "list_all is_digit (nat_digits (unat f))" "nat_digits (unat f) \<noteq> []" using nat_digits_ok by auto
  show "fmt_f64 ex_bind_text f = [] @ ?b" by (simp add: ex_bind_text_def)
  show "is_digit (hd ?b)" using d by (cases "nat_digits (unat f)") auto
  show "is_digit (last ?b)" by (simp add: is_digit_def)
  show "list_all num_byte ?b" using d(1) digit_no_mark by (auto simp: list_all_iff num_byte_def is_float_mark_def is_digit_def)
  show "no_dashes ?b" using d(1) digit_plain by (intro no_dashes_none) (auto simp: list_all_iff)
qed simp_all

theorem bound_values_stay_data_witness:
  "\<exists>out. bind_params ex_bind_text (ascii ''a=? AND b'') [Str (ascii ''x'' @ [0x27] @ ascii ''--'')] = Inr out \<and>
     tokens out = chs (ascii ''a='') @ literal_of (ascii ''x'' @ [0x27] @ ascii ''--'') # chs (ascii '' AND b'')"
proof -
  have t: "tokens (ascii ''a=? AND b'') = chs (ascii ''a='') @ Mark # chs (ascii '' AND b'')"
    by (simp add: ascii_def tokens.simps(2) next_token.simps is_quote_def utf8_len_def chs_def)
  have "apart (tokens (ascii ''a=? AND b''))" unfolding t by (simp add: chs_def ascii_def clash_def is_literal_def)
  from bound_values_stay_data [OF ex_bind_plain this, of "[Str (ascii ''x'' @ [0x27] @ ascii ''--'')]"]
  show ?thesis unfolding t by (simp add: chs_def ascii_def)
qed

text \<open>The minus sign matters. Where a statement subtracts a placeholder without a blank, every negative number
  turns the rest of the line into a comment: conditions, further columns and the rest of the statement are
  dropped without an error, and one placeholder's value decides it.\<close>

theorem negative_parameter_comments_out:
  assumes "sint i < 0" and "list_all (\<lambda>b. plain_byte b \<and> b \<noteq> 0x0A) rest" and "no_dashes rest"
  shows "bind_params T (ascii ''x-?'' @ rest) [Int64 i] = Inr (ascii ''x-'' @ int_digits (sint i) @ rest) \<and>
    tokens (ascii ''x-'' @ int_digits (sint i) @ rest) = [Ch [0x78], LineComment (int_digits (sint i) @ rest)]"
proof -
  define ds where "ds = nat_digits (nat (- sint i))"
  have ds: "int_digits (sint i) = 0x2D # ds" "list_all is_digit ds" using assms(1) nat_digits_ok by (auto simp: int_digits_def ds_def)
  have "list_all plain_byte rest" using assms(2) by (simp add: list_all_iff)
  have "well_spaced (chs rest) []"
  proof -
    have "list_all plain_byte x \<Longrightarrow> no_dashes x \<Longrightarrow> well_spaced (chs x) []" for x
    proof (induction x)
      case (Cons b x)
      have "no_dashes x" "b \<noteq> 0x2D \<or> x = [] \<or> hd x \<noteq> 0x2D" using Cons.prems(2) by (cases x; auto)+
      moreover have "chs (b # x) = Ch [b] # chs x" by (simp add: chs_def)
      ultimately show ?case using Cons plain_follow [of b x] by (simp del: may_follow.simps)
    qed (simp add: chs_def)
    then show ?thesis using \<open>list_all plain_byte rest\<close> assms(3) by blast
  qed
  then have r: "tokens rest = chs rest" using tokens_of_text [of "chs rest"] by simp
  have "tokens (ascii ''x-?'' @ rest) = Ch [0x78] # Ch [0x2D] # Mark # chs rest"
    by (simp add: ascii_def tokens.simps(2) next_token.simps is_quote_def utf8_len_def r)
  moreover have "filter (\<lambda>t. t = Mark) (chs rest) = []" by (simp add: chs_def filter_empty_conv)
  moreover have "fill (chs rest) [] = chs rest" unfolding chs_def by (induction rest) auto
  ultimately have "bind_params T (ascii ''x-?'' @ rest) [Int64 i] = Inr (ascii ''x-'' @ int_digits (sint i) @ rest)"
    using bind_tokens_ok [of "tokens (ascii ''x-?'' @ rest)" "[Int64 i]" 0 T "[]"]
    by (simp add: bind_params_def bind_loop_tokens fill_text_def ascii_def chs_text)
  moreover have "list_all (\<lambda>b. b \<noteq> 0x0A) (0x2D # ds @ rest)"
    using assms(2) ds(2) by (auto simp: list_all_iff is_digit_def word_le_nat_alt)
  then have "tokens (concat (map token_text [Ch [0x78], LineComment (0x2D # ds @ rest)])) = [Ch [0x78], LineComment (0x2D # ds @ rest)]"
    by (intro tokens_of_text) (simp add: is_quote_def utf8_len_def)
  ultimately show ?thesis using ds(1) by (simp add: ascii_def)
qed

theorem negative_parameter_comments_out_witness:
  "tokens (ascii ''x-'' @ int_digits (sint (- 1 :: i64)) @ ascii '' AND tenant = 5'') =
     [Ch [0x78], LineComment (int_digits (sint (- 1 :: i64)) @ ascii '' AND tenant = 5'')]"
proof -
  have "list_all (\<lambda>b. plain_byte b \<and> b \<noteq> 0x0A) (ascii '' AND tenant = 5'')" "no_dashes (ascii '' AND tenant = 5'')"
    by (simp_all add: ascii_def plain_byte_def is_quote_def)
  then show ?thesis using negative_parameter_comments_out [of "- 1" "ascii '' AND tenant = 5''" ex_bind_text] by simp
qed

end
