(* ===== verification/Kdf.thy ===== *)
theory Kdf
  imports Json "HOL-Library.While_Combinator"
begin

text \<open>
  Password hashing (\<open>kdf.rs\<close>): SHA-256 with its streaming interface, HMAC with precomputed key pads, PBKDF2, the
  stored form of a credential and its verification. The environment variable that \<open>effective_iterations\<close> reads
  once is an argument, \<open>None\<close> when it is not set or not Unicode.
\<close>

section \<open>SHA-256\<close>

text \<open>The table \<open>K\<close>, one list for each row of the source.\<close>

definition SHA_K :: "u32 list" where
  "SHA_K = concat
    [[0x428a2f98, 0x71374491, 0xb5c0fbcf, 0xe9b5dba5, 0x3956c25b, 0x59f111f1, 0x923f82a4, 0xab1c5ed5],
     [0xd807aa98, 0x12835b01, 0x243185be, 0x550c7dc3, 0x72be5d74, 0x80deb1fe, 0x9bdc06a7, 0xc19bf174],
     [0xe49b69c1, 0xefbe4786, 0x0fc19dc6, 0x240ca1cc, 0x2de92c6f, 0x4a7484aa, 0x5cb0a9dc, 0x76f988da],
     [0x983e5152, 0xa831c66d, 0xb00327c8, 0xbf597fc7, 0xc6e00bf3, 0xd5a79147, 0x06ca6351, 0x14292967],
     [0x27b70a85, 0x2e1b2138, 0x4d2c6dfc, 0x53380d13, 0x650a7354, 0x766a0abb, 0x81c2c92e, 0x92722c85],
     [0xa2bfe8a1, 0xa81a664b, 0xc24b8b70, 0xc76c51a3, 0xd192e819, 0xd6990624, 0xf40e3585, 0x106aa070],
     [0x19a4c116, 0x1e376c08, 0x2748774c, 0x34b0bcb5, 0x391c0cb3, 0x4ed8aa4a, 0x5b9cca4f, 0x682e6ff3],
     [0x748f82ee, 0x78a5636f, 0x84c87814, 0x8cc70208, 0x90befffa, 0xa4506ceb, 0xbef9a3f7, 0xc67178f2]]"

record sha256_state =
  sha_state :: "u32 list"
  sha_buf :: bytes
  sha_len :: nat
  sha_total :: u64

definition sha_new :: sha256_state where
  "sha_new =
     \<lparr>sha_state = [0x6a09e667, 0xbb67ae85, 0x3c6ef372, 0xa54ff53a, 0x510e527f, 0x9b05688c, 0x1f83d9ab, 0x5be0cd19],
      sha_buf = replicate 64 0, sha_len = 0, sha_total = 0\<rparr>"

definition from_be_bytes :: "bytes \<Rightarrow> 'a::len word" where
  "from_be_bytes bs = from_le_bytes (rev bs)"

definition to_be_bytes :: "'a::len word \<Rightarrow> bytes" where
  "to_be_bytes w = rev (to_le_bytes w)"

text \<open>The first 16 words of the message schedule are the block, the others are added one at a time.\<close>

definition schedule_word :: "nat \<Rightarrow> u32 list \<Rightarrow> u32" where
  "schedule_word i w =
     (let s0 = word_rotr 7 (w ! (i - 15)) XOR word_rotr 18 (w ! (i - 15)) XOR drop_bit 3 (w ! (i - 15));
          s1 = word_rotr 17 (w ! (i - 2)) XOR word_rotr 19 (w ! (i - 2)) XOR drop_bit 10 (w ! (i - 2))
      in w ! (i - 16) + s0 + w ! (i - 7) + s1)"

definition schedule :: "bytes \<Rightarrow> u32 list" where
  "schedule block =
     fold (\<lambda>i w. w @ [schedule_word i w]) [16..<64] (map (\<lambda>i. from_be_bytes (sub_bytes block (4 * i) 4)) [0..<16])"

type_synonym sha_regs = "u32 \<times> u32 \<times> u32 \<times> u32 \<times> u32 \<times> u32 \<times> u32 \<times> u32"

definition sha_round :: "u32 list \<Rightarrow> nat \<Rightarrow> sha_regs \<Rightarrow> sha_regs" where
  "sha_round w i = (\<lambda>(a, b, c, d, e, f, g, h).
     (let s1 = word_rotr 6 e XOR word_rotr 11 e XOR word_rotr 25 e;
          ch = (e AND f) XOR (NOT e AND g);
          t1 = h + s1 + ch + SHA_K ! i + w ! i;
          s0 = word_rotr 2 a XOR word_rotr 13 a XOR word_rotr 22 a;
          maj = (a AND b) XOR (a AND c) XOR (b AND c);
          t2 = s0 + maj
      in (t1 + t2, a, b, c, d + t1, e, f, g)))"

definition compress :: "u32 list \<Rightarrow> bytes \<Rightarrow> u32 list" where
  "compress st block =
     (let w = schedule block;
          (a, b, c, d, e, f, g, h) =
            fold (sha_round w) [0..<64] (st ! 0, st ! 1, st ! 2, st ! 3, st ! 4, st ! 5, st ! 6, st ! 7)
      in [st ! 0 + a, st ! 1 + b, st ! 2 + c, st ! 3 + d, st ! 4 + e, st ! 5 + f, st ! 6 + g, st ! 7 + h])"

text \<open>The loop of \<open>update\<close>. The state of a hash has room in its buffer (\<open>sha_len\<close> below 64); without it the loop
  would not move, so the definition stops there.\<close>

function update_loop :: "bytes \<Rightarrow> sha256_state \<Rightarrow> sha256_state" where
  "update_loop data h =
     (if data = [] \<or> 64 \<le> sha_len h then h
      else
        (let n = min (64 - sha_len h) (length data);
             buf = splice (sha_buf h) (sha_len h) (take n data);
             len = sha_len h + n;
             h = h\<lparr>sha_buf := buf, sha_len := len\<rparr>
         in update_loop (drop n data) (if len = 64 then h\<lparr>sha_state := compress (sha_state h) buf, sha_len := 0\<rparr> else h)))"
  by auto
termination by (relation "measure (\<lambda>(data, _). length data)") auto

declare update_loop.simps [simp del]

definition sha_update :: "bytes \<Rightarrow> sha256_state \<Rightarrow> sha256_state" where
  "sha_update data h = update_loop data (h\<lparr>sha_total := sha_total h + word_of_nat (length data)\<rparr>)"

definition sha_finish :: "sha256_state \<Rightarrow> bytes" where
  "sha_finish h =
     (let bit_len = sha_total h * 8;
          h = sha_update [0x80] h;
          h = while (\<lambda>h. sha_len h \<noteq> 56) (sha_update [0]) h;
          h = sha_update (to_be_bytes bit_len) h
      in concat (map to_be_bytes (sha_state h)))"

definition sha256 :: "bytes \<Rightarrow> bytes" where
  "sha256 data = sha_finish (sha_update data sha_new)"

definition sha256_parts :: "bytes list \<Rightarrow> bytes" where
  "sha256_parts parts = sha_finish (fold sha_update parts sha_new)"

section \<open>HMAC and PBKDF2\<close>

definition xor_bytes :: "bytes \<Rightarrow> bytes \<Rightarrow> bytes" where
  "xor_bytes xs ys = map2 (XOR) xs ys"

definition hmac_key_pads :: "bytes \<Rightarrow> bytes \<times> bytes" where
  "hmac_key_pads key =
     (let k = (if length key > 64 then splice (replicate 64 0) 0 (sha256 key) else splice (replicate 64 0) 0 key)
      in (xor_bytes (replicate 64 0x36) k, xor_bytes (replicate 64 0x5c) k))"

definition hmac_with_pads :: "bytes \<Rightarrow> bytes \<Rightarrow> bytes \<Rightarrow> bytes" where
  "hmac_with_pads ipad opad data =
     (let ih = sha_finish (sha_update data (sha_update ipad sha_new))
      in sha_finish (sha_update ih (sha_update opad sha_new)))"

definition hmac_sha256 :: "bytes \<Rightarrow> bytes \<Rightarrow> bytes" where
  "hmac_sha256 key data = (case hmac_key_pads key of (ipad, opad) \<Rightarrow> hmac_with_pads ipad opad data)"

text \<open>The iterations after the first: \<open>u\<close> and the sum \<open>t\<close>.\<close>

definition pbkdf2_step :: "bytes \<Rightarrow> bytes \<Rightarrow> bytes \<times> bytes \<Rightarrow> bytes \<times> bytes" where
  "pbkdf2_step ipad opad = (\<lambda>(u, t). let u = hmac_with_pads ipad opad u in (u, xor_bytes t u))"

definition pbkdf2_block :: "bytes \<Rightarrow> bytes \<Rightarrow> bytes \<Rightarrow> u32 \<Rightarrow> u32 \<Rightarrow> bytes" where
  "pbkdf2_block ipad opad salt iterations block_index =
     (let u = hmac_with_pads ipad opad (salt @ to_be_bytes block_index)
      in snd ((pbkdf2_step ipad opad ^^ (unat iterations - 1)) (u, u)))"

text \<open>\<open>out\<close> holds the \<open>filled\<close> bytes so far of the \<open>n\<close> wanted; \<open>None\<close> is the panic of the block counter.\<close>

function pbkdf2_loop :: "bytes \<Rightarrow> bytes \<Rightarrow> bytes \<Rightarrow> u32 \<Rightarrow> nat \<Rightarrow> nat \<Rightarrow> u32 \<Rightarrow> bytes \<Rightarrow> bytes option" where
  "pbkdf2_loop ipad opad salt iterations n filled block_index out =
     (if filled < n then
        (let t = pbkdf2_block ipad opad salt iterations block_index;
             k = min (n - filled) 32
         in if block_index = 0xFFFFFFFF then None
            else pbkdf2_loop ipad opad salt iterations n (filled + k) (block_index + 1) (out @ take k t))
      else Some out)"
  by auto
termination by (relation "measure (\<lambda>(_, _, _, _, n, filled, _). n - filled)") auto

declare pbkdf2_loop.simps [simp del]

definition pbkdf2_hmac_sha256 :: "bytes \<Rightarrow> bytes \<Rightarrow> u32 \<Rightarrow> nat \<Rightarrow> bytes option" where
  "pbkdf2_hmac_sha256 password salt iterations n =
     (if iterations < 1 then None
      else (case hmac_key_pads password of (ipad, opad) \<Rightarrow> pbkdf2_loop ipad opad salt iterations n 0 1 []))"

section \<open>Stored credentials\<close>

definition PBKDF2_ITERATIONS :: u32 where "PBKDF2_ITERATIONS = 210000"
definition MAX_PBKDF2_ITERATIONS :: u32 where "MAX_PBKDF2_ITERATIONS = 2000000"
definition MAX_SALT_LEN :: nat where "MAX_SALT_LEN = 64"
definition HASH_PREFIX :: bytes where "HASH_PREFIX = ascii ''$pbkdf2-sha256''"

definition hex :: "bytes \<Rightarrow> bytes" where
  "hex bs = concat (map (\<lambda>b. [hex_char (unat b div 16), hex_char (unat b mod 16)]) bs)"

fun unhex_pairs :: "bytes \<Rightarrow> bytes option" where
  "unhex_pairs (a # b # r) =
     (case (hex_val a, hex_val b, unhex_pairs r) of
        (Some hi, Some lo, Some bs) \<Rightarrow> Some (word_of_nat (hi * 16 + lo) # bs)
      | _ \<Rightarrow> None)"
| "unhex_pairs _ = Some []"

definition unhex :: "bytes \<Rightarrow> bytes option" where
  "unhex s = (if length s mod 2 \<noteq> 0 then None else unhex_pairs s)"

definition constant_time_eq :: "bytes \<Rightarrow> bytes \<Rightarrow> bool" where
  "constant_time_eq a b \<longleftrightarrow> length a = length b \<and> fold (\<lambda>(x, y) diff. diff OR (x XOR y)) (zip a b) 0 = 0"

record stored_pw =
  pw_iterations :: u32
  pw_salt :: bytes
  pw_hash :: bytes

definition strip_prefix :: "bytes \<Rightarrow> bytes \<Rightarrow> bytes option" where
  "strip_prefix pre s = (if take (length pre) s = pre then Some (drop (length pre) s) else None)"

text \<open>\<open>str::split\<close> on one ASCII byte.\<close>

fun split_on :: "u8 \<Rightarrow> bytes \<Rightarrow> bytes list" where
  "split_on c [] = [[]]"
| "split_on c (b # r) = (if b = c then [] # split_on c r else (case split_on c r of x # xs \<Rightarrow> (b # x) # xs | [] \<Rightarrow> []))"

text \<open>\<open>str::parse::<u32>\<close>: digits with an optional plus sign.\<close>

definition parse_u32 :: "bytes \<Rightarrow> u32 option" where
  "parse_u32 s =
     (let ds = (if s \<noteq> [] \<and> hd s = 0x2B then tl s else s)
      in if ds = [] \<or> \<not> list_all is_digit ds \<or> 2 ^ 32 \<le> digits_val ds then None else Some (word_of_nat (digits_val ds)))"

definition iterations_ok :: "u32 \<Rightarrow> bool" where
  "iterations_ok n \<longleftrightarrow> 1 \<le> n \<and> n \<le> MAX_PBKDF2_ITERATIONS"

definition effective_iterations :: "bytes option \<Rightarrow> u32" where
  "effective_iterations env =
     (case Option.bind env parse_u32 of
        Some n \<Rightarrow> if iterations_ok n then n else PBKDF2_ITERATIONS
      | None \<Rightarrow> PBKDF2_ITERATIONS)"

definition hash_password :: "bytes option \<Rightarrow> bytes \<Rightarrow> bytes \<Rightarrow> bytes option" where
  "hash_password env password salt =
     (let iterations = effective_iterations env
      in map_option (\<lambda>hash. HASH_PREFIX @ 0x24 # nat_digits (unat iterations) @ 0x24 # hex salt @ 0x24 # hex hash)
           (pbkdf2_hmac_sha256 password salt iterations 32))"

definition parse_stored :: "bytes \<Rightarrow> stored_pw option" where
  "parse_stored s =
     Option.bind (strip_prefix HASH_PREFIX s) (\<lambda>r. Option.bind (strip_prefix [0x24] r) (\<lambda>rest.
       (case split_on 0x24 rest of
          its # parts \<Rightarrow>
            Option.bind (parse_u32 its) (\<lambda>iterations.
              if \<not> iterations_ok iterations then None
              else
                (case parts of
                   [] \<Rightarrow> None
                 | salts # parts \<Rightarrow>
                     Option.bind (unhex salts) (\<lambda>salt.
                       if length salt > MAX_SALT_LEN \<or> salt = [] then None
                       else
                         (case parts of
                            [] \<Rightarrow> None
                          | hashs # parts \<Rightarrow>
                              Option.bind (unhex hashs) (\<lambda>hash.
                                if length hash \<noteq> 32 \<or> parts \<noteq> [] then None
                                else Some \<lparr>pw_iterations = iterations, pw_salt = salt, pw_hash = hash\<rparr>)))))
        | [] \<Rightarrow> None)))"

definition pw_verify :: "stored_pw \<Rightarrow> bytes \<Rightarrow> bool option" where
  "pw_verify p password =
     (if \<not> iterations_ok (pw_iterations p) \<or> length (pw_salt p) > MAX_SALT_LEN \<or> pw_salt p = [] then Some False
      else map_option (\<lambda>got. constant_time_eq got (pw_hash p)) (pbkdf2_hmac_sha256 password (pw_salt p) (pw_iterations p) 32))"

definition is_stored_form :: "bytes \<Rightarrow> bool" where
  "is_stored_form s \<longleftrightarrow> take (length HASH_PREFIX) s = HASH_PREFIX \<and> parse_stored s \<noteq> None"

end
