(* ===== verification/Kdf_Standards.thy ===== *)
theory Kdf_Standards
  imports Kdf Complex_Main
begin

text \<open>
  The hash of FIPS 180-4 written from the standard: its constants from square and cube roots of primes, the
  message schedule and the working variables as recurrences, padding and chaining. The constants and the
  compression function of \<open>kdf.rs\<close> are shown to be these.
\<close>

section \<open>Constants\<close>

text \<open>The first 64 primes.\<close>

definition first_primes :: "int list" where
  "first_primes =
  [2, 3, 5, 7, 11, 13, 17, 19, 23, 29, 31, 37, 41, 43, 47, 53, 59, 61, 67, 71, 73, 79, 83, 89, 97, 101, 103, 107, 109, 113,
   127, 131, 137, 139, 149, 151, 157, 163, 167, 173, 179, 181, 191, 193, 197, 199, 211, 223, 227, 229, 233, 239, 241, 251,
   257, 263, 269, 271, 277, 281, 283, 293, 307, 311]"

text \<open>The first 32 bits of the fractional part of a root; the word drops the integral part.\<close>

definition root_bits :: "nat \<Rightarrow> int \<Rightarrow> u32" where
  "root_bits r p = word_of_int \<lfloor>root r (of_int p) * 2 ^ 32\<rfloor>"

definition fips_h0 :: "u32 list" where
  "fips_h0 = map (root_bits 2) (take 8 first_primes)"

definition fips_k :: "u32 list" where
  "fips_k = map (root_bits 3) first_primes"

text \<open>A root of \<open>p\<close> to 32 bits, from integer bounds.\<close>

definition root_between :: "nat \<Rightarrow> int \<Rightarrow> int \<Rightarrow> bool" where
  "root_between r p n \<longleftrightarrow> 0 \<le> n \<and> n ^ r \<le> p * 2 ^ (32 * r) \<and> p * 2 ^ (32 * r) < (n + 1) ^ r"

lemma root_bits_between:
  assumes "0 < r" and "0 \<le> p" and "root_between r p n"
  shows "root_bits r p = word_of_int n"
proof -
  let ?x = "root r (of_int p) * 2 ^ 32 :: real"
  have x: "0 \<le> ?x" using assms(2) by (simp add: real_root_ge_zero)
  have "?x ^ r = of_int p * (2 ^ 32) ^ r" using assms(1,2) by (simp only: power_mult_distrib real_root_pow_pos2 of_int_0_le_iff)
  then have xr: "?x ^ r = of_int (p * 2 ^ (32 * r))" by (simp add: power_mult)
  have "of_int n ^ r \<le> ?x ^ r" unfolding xr using assms(3) by (simp only: root_between_def of_int_power [symmetric] of_int_le_iff)
  then have "of_int n \<le> ?x" using x assms(1) by (meson power_strict_mono linorder_not_le)
  moreover have "?x ^ r < of_int (n + 1) ^ r" unfolding xr using assms(3) by (simp only: root_between_def of_int_power [symmetric] of_int_less_iff)
  then have "?x < of_int (n + 1)" using assms(3) by (intro power_less_imp_less_base [of ?x r]) (auto simp: root_between_def)
  ultimately have "\<lfloor>?x\<rfloor> = n" by (intro floor_unique) simp_all
  then show ?thesis by (simp only: root_bits_def)
qed

text \<open>The integral part of a root below 7.\<close>

definition int_root :: "nat \<Rightarrow> int \<Rightarrow> int" where
  "int_root r p = int (length (filter (\<lambda>a. a ^ r \<le> p) [1, 2, 3, 4, 5, 6]))"

definition bits_ok :: "nat \<Rightarrow> int list \<Rightarrow> u32 list \<Rightarrow> bool" where
  "bits_ok r ps ks \<longleftrightarrow> length ps = length ks \<and> list_all (\<lambda>(p, k). 0 \<le> p \<and> root_between r p (int_root r p * 2 ^ 32 + uint k)) (zip ps ks)"

lemma bits_ok_eq:
  assumes "0 < r" and "bits_ok r ps ks"
  shows "map (root_bits r) ps = ks"
proof (rule nth_equalityI)
  show "length (map (root_bits r) ps) = length ks" using assms(2) by (simp add: bits_ok_def)
next
  fix i assume i: "i < length (map (root_bits r) ps)"
  then have "(ps ! i, ks ! i) \<in> set (zip ps ks)" using assms(2) by (auto simp: bits_ok_def set_zip)
  then have "0 \<le> ps ! i" "root_between r (ps ! i) (int_root r (ps ! i) * 2 ^ 32 + uint (ks ! i))"
    using assms(2) by (auto simp: bits_ok_def list_all_iff)
  from root_bits_between [OF assms(1) this] have "root_bits r (ps ! i) = word_of_int (int_root r (ps ! i)) * 2 ^ 32 + ks ! i"
    by (simp only: wi_hom_add [symmetric] wi_hom_mult [symmetric] word_of_int_uint) (simp only: word_of_int_power_hom [symmetric] wi_hom_syms, simp)
  moreover have "x * 2 ^ 32 = 0" for x :: u32
  proof -
    have "(2 ^ 32 :: u32) = 0" by (simp add: exp_eq_zero_iff)
    then show ?thesis by (simp only: mult_zero_right)
  qed
  ultimately show "map (root_bits r) ps ! i = ks ! i" using i by (simp only: add_0 nth_map length_map)
qed

lemma fips_h0_eq: "fips_h0 = sha_state sha_new"
  unfolding fips_h0_def
  by (rule bits_ok_eq) (simp_all add: bits_ok_def first_primes_def sha_new_def root_between_def int_root_def)

lemma fips_k_eq: "fips_k = SHA_K"
  unfolding fips_k_def
  by (rule bits_ok_eq) (simp_all add: bits_ok_def first_primes_def SHA_K_def root_between_def int_root_def)

section \<open>Compression\<close>

definition big_sigma0 :: "u32 \<Rightarrow> u32" where "big_sigma0 x = word_rotr 2 x XOR word_rotr 13 x XOR word_rotr 22 x"
definition big_sigma1 :: "u32 \<Rightarrow> u32" where "big_sigma1 x = word_rotr 6 x XOR word_rotr 11 x XOR word_rotr 25 x"
definition small_sigma0 :: "u32 \<Rightarrow> u32" where "small_sigma0 x = word_rotr 7 x XOR word_rotr 18 x XOR drop_bit 3 x"
definition small_sigma1 :: "u32 \<Rightarrow> u32" where "small_sigma1 x = word_rotr 17 x XOR word_rotr 19 x XOR drop_bit 10 x"

fun fips_w :: "bytes \<Rightarrow> nat \<Rightarrow> u32" where
  "fips_w M t =
     (if t < 16 then from_be_bytes (take 4 (drop (4 * t) M))
      else small_sigma1 (fips_w M (t - 2)) + fips_w M (t - 7) + small_sigma0 (fips_w M (t - 15)) + fips_w M (t - 16))"

declare fips_w.simps [simp del]

text \<open>Working variable \<open>v\<close> (0 for \<open>a\<close> to 7 for \<open>h\<close>) before step \<open>t\<close>.\<close>

primrec fips_vars :: "u32 list \<Rightarrow> bytes \<Rightarrow> nat \<Rightarrow> nat \<Rightarrow> u32" where
  "fips_vars H M 0 = (\<lambda>v. H ! v)"
| "fips_vars H M (Suc t) =
     (let V = fips_vars H M t;
          choice = (V 4 AND V 5) XOR (NOT (V 4) AND V 6);
          majority = (V 0 AND V 1) XOR (V 0 AND V 2) XOR (V 1 AND V 2);
          T1 = V 7 + big_sigma1 (V 4) + choice + fips_k ! t + fips_w M t;
          T2 = big_sigma0 (V 0) + majority
      in (\<lambda>v. if v = 0 then T1 + T2 else if v = 4 then V 3 + T1 else V (v - 1)))"

definition fips_compress :: "u32 list \<Rightarrow> bytes \<Rightarrow> u32 list" where
  "fips_compress H M = map (\<lambda>v. fips_vars H M 64 v + H ! v) [0..<8]"

lemma schedule_w: "n \<le> 48 \<Longrightarrow>
  fold (\<lambda>i w. w @ [schedule_word i w]) [16..<16 + n] (map (\<lambda>i. from_be_bytes (sub_bytes M (4 * i) 4)) [0..<16]) = map (fips_w M) [0..<16 + n]"
proof (induction n)
  case 0
  show ?case by (simp add: sub_bytes_def fips_w.simps)
next
  case (Suc n)
  have "schedule_word (16 + n) (map (fips_w M) [0..<16 + n]) = fips_w M (16 + n)"
    by (simp add: schedule_word_def Let_def small_sigma0_def small_sigma1_def fips_w.simps [of M "16 + n"] del: upt_Suc)
  moreover have "[16..<16 + Suc n] = [16..<16 + n] @ [16 + n]" "[0..<16 + Suc n] = [0..<16 + n] @ [16 + n]" using upt_Suc_append [of 16 "16 + n"] upt_Suc_append [of 0 "16 + n"] by (simp_all only: add_Suc_right le_add1 le0 simp_thms)
  ultimately show ?case using Suc by (simp only: fold_append fold_simps o_apply map_append list.map)
qed

lemma schedule_eq: "schedule M = map (fips_w M) [0..<64]"
proof -
  have "16 + 48 = (64 :: nat)" by simp
  then show ?thesis using schedule_w [of 48 M] unfolding schedule_def by (simp only: order_refl simp_thms)
qed

lemma rounds_vars:
  "n \<le> 64 \<Longrightarrow> fold (sha_round (schedule M)) [0..<n] (H ! 0, H ! 1, H ! 2, H ! 3, H ! 4, H ! 5, H ! 6, H ! 7) =
    (let V = fips_vars H M n in (V 0, V 1, V 2, V 3, V 4, V 5, V 6, V 7))"
proof (induction n)
  case (Suc n)
  have "schedule M ! n = fips_w M n" using Suc.prems by (simp add: schedule_eq)
  then show ?case using Suc by (simp add: sha_round_def Let_def fips_k_eq big_sigma0_def big_sigma1_def)
qed (simp add: Let_def)

lemma compress_eq: "fips_compress H M = compress H M"
proof -
  have u: "[0..<8] = [0, 1, 2, 3, 4, 5, 6, 7 :: nat]" by (simp add: upt_rec)
  note r = rounds_vars [of 64 M H, OF order_refl]
  show ?thesis unfolding fips_compress_def compress_def u Let_def r by (simp add: add.commute)
qed

section \<open>Padding and chaining\<close>

definition fips_pad :: "bytes \<Rightarrow> bytes" where
  "fips_pad m = m @ 0x80 # replicate ((119 - length m mod 64) mod 64) 0 @ to_be_bytes (word_of_nat (8 * length m) :: u64)"

text \<open>The blocks of a padded message.\<close>

function blocks :: "bytes \<Rightarrow> bytes list" where
  "blocks m = (if length m < 64 then [] else take 64 m # blocks (drop 64 m))"
  by auto
termination by (relation "measure length") auto

declare blocks.simps [simp del]

definition fips_sha256 :: "bytes \<Rightarrow> bytes" where
  "fips_sha256 m = concat (map to_be_bytes (foldl fips_compress fips_h0 (blocks (fips_pad m))))"

end
