(* ===== verification/Kdf_Props.thy ===== *)
theory Kdf_Props
  imports Kdf_Standards Json_Props
begin

text \<open>
  RFC 2104 and RFC 8018 as direct definitions over the hash of the standard, and the equality of the streaming
  and precomputing implementations with them.
\<close>

section \<open>The standards\<close>

text \<open>Chaining over the whole blocks of a message; \<open>remainder\<close> is what they leave.\<close>

function absorb :: "u32 list \<Rightarrow> bytes \<Rightarrow> u32 list" where
  "absorb st m = (if length m < 64 then st else absorb (compress st (take 64 m)) (drop 64 m))"
  by auto
termination by (relation "measure (\<lambda>(_, m). length m)") auto

declare absorb.simps [simp del]

definition remainder :: "bytes \<Rightarrow> bytes" where
  "remainder m = drop (64 * (length m div 64)) m"

lemma fips_sha256_absorb: "fips_sha256 m = concat (map to_be_bytes (absorb (sha_state sha_new) (fips_pad m)))"
proof -
  have e: "fips_compress = compress" by (intro ext) (rule compress_eq)
  have "foldl fips_compress st (blocks x) = absorb st x" for st x unfolding e
  proof (induction st x rule: absorb.induct)
    case (1 st m)
    then show ?case by (subst absorb.simps, subst blocks.simps) simp
  qed
  then show ?thesis by (simp only: fips_sha256_def fips_h0_eq)
qed

definition rfc_key :: "bytes \<Rightarrow> bytes" where
  "rfc_key k = (let k = (if length k > 64 then fips_sha256 k else k) in k @ replicate (64 - length k) 0)"

definition rfc_hmac :: "bytes \<Rightarrow> bytes \<Rightarrow> bytes" where
  "rfc_hmac k m =
     fips_sha256 (xor_bytes (replicate 64 0x5c) (rfc_key k) @ fips_sha256 (xor_bytes (replicate 64 0x36) (rfc_key k) @ m))"

primrec rfc_u :: "bytes \<Rightarrow> bytes \<Rightarrow> u32 \<Rightarrow> nat \<Rightarrow> bytes" where
  "rfc_u password salt i 0 = rfc_hmac password (salt @ to_be_bytes i)"
| "rfc_u password salt i (Suc j) = rfc_hmac password (rfc_u password salt i j)"

definition rfc_f :: "bytes \<Rightarrow> bytes \<Rightarrow> nat \<Rightarrow> u32 \<Rightarrow> bytes" where
  "rfc_f password salt c i = foldl xor_bytes (rfc_u password salt i 0) (map (rfc_u password salt i) [1..<c])"

definition rfc_pbkdf2 :: "bytes \<Rightarrow> bytes \<Rightarrow> nat \<Rightarrow> nat \<Rightarrow> bytes" where
  "rfc_pbkdf2 password salt c n =
     take n (concat (map (\<lambda>i. rfc_f password salt c (word_of_nat i)) [1..<1 + (n + 31) div 32]))"

section \<open>Streaming\<close>

lemma absorb_short: "length m < 64 \<Longrightarrow> absorb st m = st"
  by (subst absorb.simps) simp

lemma absorb_block: "length b = 64 \<Longrightarrow> absorb st (b @ m) = absorb (compress st b) m"
  by (subst absorb.simps) simp

lemma remainder_short: "length m < 64 \<Longrightarrow> remainder m = m"
  by (simp add: remainder_def)

lemma remainder_block: "length b = 64 \<Longrightarrow> remainder (b @ m) = remainder m"
  by (simp add: remainder_def div_add_self1)

lemma remainder_length: "length (remainder m) = length m mod 64"
  by (simp add: remainder_def minus_mult_div_eq_mod)

lemma absorb_append: "absorb (absorb st x) (remainder x @ y) = absorb st (x @ y) \<and> remainder (remainder x @ y) = remainder (x @ y)"
proof (induction "length x" arbitrary: x st rule: less_induct)
  case less
  show ?case
  proof (cases "length x < 64")
    case True
    then show ?thesis by (simp add: absorb_short remainder_short)
  next
    case False
    define b m where "b = take 64 x" and "m = drop 64 x"
    have x: "x = b @ m" "length b = 64" "length m < length x" using False by (auto simp: b_def m_def)
    show ?thesis using less [OF x(3), of "compress st b"] absorb_block [OF x(2)] remainder_block [OF x(2)] unfolding x(1) by simp
  qed
qed

definition holds :: "sha256_state \<Rightarrow> u32 list \<Rightarrow> bytes \<Rightarrow> bool" where
  "holds h st r \<longleftrightarrow> sha_state h = st \<and> length (sha_buf h) = 64 \<and> sha_len h = length r \<and> length r < 64 \<and> take (length r) (sha_buf h) = r"

lemma take_splice: "n + length d \<le> length b \<Longrightarrow> take (n + length d) (splice b n d) = take n b @ d"
  by (simp add: splice_def)

lemma update_loop_holds:
  "holds h st r \<Longrightarrow> holds (update_loop d h) (absorb st (r @ d)) (remainder (r @ d)) \<and> sha_total (update_loop d h) = sha_total h"
proof (induction "length d" arbitrary: d h st r rule: less_induct)
  case less
  note h = less.prems [unfolded holds_def]
  show ?case
  proof (cases "d = []")
    case True
    then show ?thesis using less.prems h by (simp add: update_loop.simps [of "[]"] absorb_short remainder_short)
  next
    case False
    define n where "n = min (64 - sha_len h) (length d)"
    define buf where "buf = splice (sha_buf h) (sha_len h) (take n d)"
    define h1 where "h1 = h\<lparr>sha_buf := buf, sha_len := sha_len h + n\<rparr>"
    define h2 where "h2 = (if sha_len h + n = 64 then h1\<lparr>sha_state := compress (sha_state h1) buf, sha_len := 0\<rparr> else h1)"
    have n: "0 < n" "n \<le> length d" "sha_len h + n \<le> 64" using False h by (auto simp: n_def)
    have step: "update_loop d h = update_loop (drop n d) h2"
    proof -
      have c: "\<not> (d = [] \<or> 64 \<le> sha_len h)" using False h by simp
      show ?thesis
        by (subst update_loop.simps)
          (simp only: c if_False Let_def n_def [symmetric] buf_def [symmetric] h1_def [symmetric] h2_def [symmetric])
    qed
    have buf: "take (sha_len h + n) buf = r @ take n d" "length buf = 64"
      using take_splice [of "sha_len h" "take n d" "sha_buf h"] n h by (simp_all add: buf_def)
    have "holds h2 (absorb st (r @ take n d)) (remainder (r @ take n d)) \<and> sha_total h2 = sha_total h"
    proof (cases "sha_len h + n = 64")
      case True
      then have "buf = r @ take n d" using buf by simp
      then show ?thesis
        using True h n buf absorb_block [of "r @ take n d" st "[]"] remainder_block [of "r @ take n d" "[]"]
        by (simp add: holds_def h2_def h1_def absorb_short remainder_short)
    next
      case False
      then show ?thesis using h n buf by (simp add: holds_def h2_def h1_def absorb_short remainder_short)
    qed
    moreover have "length (drop n d) < length d" using n by simp
    ultimately show ?thesis
      using less.hyps [of "drop n d" h2] step absorb_append [of st "r @ take n d" "drop n d"] by (metis append.assoc append_take_drop_id)
  qed
qed

text \<open>\<open>h\<close> has been fed the message \<open>m\<close>.\<close>

definition fed :: "sha256_state \<Rightarrow> bytes \<Rightarrow> bool" where
  "fed h m \<longleftrightarrow> holds h (absorb (sha_state sha_new) m) (remainder m) \<and> sha_total h = word_of_nat (length m)"

lemma fed_new: "fed sha_new []"
  by (simp add: fed_def holds_def absorb_short remainder_short) (simp add: sha_new_def)

lemma fed_update: "fed h m \<Longrightarrow> fed (sha_update d h) (m @ d)"
proof -
  assume f: "fed h m"
  let ?h = "h\<lparr>sha_total := sha_total h + word_of_nat (length d)\<rparr>"
  have "holds ?h (absorb (sha_state sha_new) m) (remainder m)" using f by (auto simp: fed_def holds_def)
  from update_loop_holds [OF this, of d] show ?thesis
    using f absorb_append [of "sha_state sha_new" m d] by (simp add: fed_def sha_update_def)
qed

lemma fed_parts: "fed h m \<Longrightarrow> fed (fold sha_update parts h) (m @ concat parts)"
proof (induction parts arbitrary: h m)
  case (Cons p parts)
  then show ?case using Cons.IH [OF fed_update [OF Cons.prems, of p]] by simp
qed simp

lemma fed_len: "fed h m \<Longrightarrow> sha_len h = length m mod 64"
  by (simp add: fed_def holds_def remainder_length)

lemma pad_loop:
  "fed h m \<Longrightarrow> (length m + k) mod 64 = 56 \<Longrightarrow> \<forall>j<k. (length m + j) mod 64 \<noteq> 56 \<Longrightarrow>
     fed (while (\<lambda>h. sha_len h \<noteq> 56) (sha_update [0]) h) (m @ replicate k 0)"
proof (induction k arbitrary: h m)
  case 0
  then show ?case using fed_len [OF 0(1)] by (subst while_unfold) simp
next
  case (Suc k)
  have "sha_len h \<noteq> 56" using fed_len [OF Suc.prems(1)] Suc.prems(3) by force
  moreover have "fed (while (\<lambda>h. sha_len h \<noteq> 56) (sha_update [0]) (sha_update [0] h)) ((m @ [0]) @ replicate k 0)"
    using Suc.prems by (intro Suc.IH fed_update) (auto simp: Suc_less_eq)
  ultimately show ?case by (subst while_unfold) simp
qed

lemma pad_count: "((n + 1) + (119 - n mod 64) mod 64) mod 64 = 56 \<and> (\<forall>j < (119 - n mod 64) mod 64. ((n + 1) + j) mod 64 \<noteq> 56)" for n :: nat
proof -
  have "list_all (\<lambda>r. ((r + 1) + (119 - r) mod 64) mod 64 = 56 \<and> list_all (\<lambda>j. ((r + 1) + j) mod 64 \<noteq> 56) [0..<(119 - r) mod 64]) [0..<64]"
    by code_simp
  moreover define r where "r = n mod 64"
  ultimately have c: "((r + 1) + (119 - r) mod 64) mod 64 = 56" "\<forall>j < (119 - r) mod 64. ((r + 1) + j) mod 64 \<noteq> 56" by (auto simp: list_all_iff)
  have m: "((n + 1) + j) mod 64 = ((r + 1) + j) mod 64" for j unfolding r_def using mod_add_left_eq [of n 64 "1 + j"] by simp
  show ?thesis using c unfolding m r_def [symmetric] by blast
qed

lemma sha_finish_fed: "fed h m \<Longrightarrow> sha_finish h = fips_sha256 m"
proof -
  assume f: "fed h m"
  define k where "k = (119 - length m mod 64) mod 64"
  define h1 where "h1 = while (\<lambda>h. sha_len h \<noteq> 56) (sha_update [0]) (sha_update [0x80] h)"
  have "fed h1 ((m @ [0x80]) @ replicate k 0)"
    unfolding h1_def using pad_count [of "length m"] by (intro pad_loop fed_update f) (simp_all add: k_def)
  from fed_update [OF this, of "to_be_bytes (sha_total h * 8)"]
  have "sha_state (sha_update (to_be_bytes (sha_total h * 8)) h1) = absorb (sha_state sha_new) (m @ 0x80 # replicate k 0 @ to_be_bytes (sha_total h * 8))"
    by (simp add: fed_def holds_def)
  moreover have "sha_total h * 8 = (word_of_nat (8 * length m) :: u64)" using f by (simp add: fed_def mult.commute)
  ultimately show ?thesis by (simp add: sha_finish_def Let_def h1_def fips_sha256_absorb fips_pad_def k_def)
qed

lemma sha256_eq: "sha256 m = fips_sha256 m"
  using sha_finish_fed [OF fed_update [OF fed_new, of m]] by (simp add: sha256_def)

lemma sha256_parts_eq: "sha256_parts parts = fips_sha256 (concat parts)"
  using sha_finish_fed [OF fed_parts [OF fed_new, of parts]] by (simp add: sha256_parts_def)

section \<open>HMAC and PBKDF2\<close>

lemma absorb_length: "length st = 8 \<Longrightarrow> length (absorb st m) = 8"
proof (induction st m rule: absorb.induct)
  case (1 st m)
  then show ?case by (subst absorb.simps) (simp add: compress_def Let_def split: prod.splits)
qed

lemma fips_length: "length (fips_sha256 m) = 32"
proof -
  have "length (sha_state sha_new) = 8" by (simp add: sha_new_def)
  then have l: "length (absorb (sha_state sha_new) (fips_pad m)) = 8" by (rule absorb_length)
  have "length (concat (map to_be_bytes (ws :: u32 list))) = 4 * length ws" for ws by (induction ws) (simp_all add: to_be_bytes_def)
  then show ?thesis using l by (simp add: fips_sha256_absorb)
qed

lemma key_pads:
  "hmac_key_pads k = (xor_bytes (replicate 64 0x36) (rfc_key k), xor_bytes (replicate 64 0x5c) (rfc_key k))"
proof -
  have "splice (replicate 64 0) 0 x = x @ replicate (64 - length x) 0" for x :: bytes by (simp add: splice_def)
  then show ?thesis by (auto simp: hmac_key_pads_def rfc_key_def Let_def sha256_eq)
qed

lemma hmac_with_pads_eq: "hmac_with_pads i opad m = fips_sha256 (opad @ fips_sha256 (i @ m))"
  using sha_finish_fed [OF fed_update [OF fed_update [OF fed_new, of i], of m]]
    sha_finish_fed [OF fed_update [OF fed_update [OF fed_new, of opad], of "fips_sha256 (i @ m)"]] by (simp add: hmac_with_pads_def Let_def)

lemma hmac_eq: "hmac_sha256 k m = rfc_hmac k m"
  by (simp add: hmac_sha256_def key_pads hmac_with_pads_eq rfc_hmac_def)

lemma pbkdf2_steps:
  assumes "hmac_key_pads password = (ipad, opad)"
  shows "(pbkdf2_step ipad opad ^^ m) (rfc_u password salt i 0, rfc_u password salt i 0) =
    (rfc_u password salt i m, foldl xor_bytes (rfc_u password salt i 0) (map (rfc_u password salt i) [1..<Suc m]))"
proof (induction m)
  case (Suc m)
  have "hmac_with_pads ipad opad x = rfc_hmac password x" for x using hmac_eq [of password x] assms by (simp add: hmac_sha256_def)
  then show ?case using Suc by (simp add: pbkdf2_step_def Let_def)
qed simp

lemma pbkdf2_block_eq:
  assumes "hmac_key_pads password = (ipad, opad)" and "1 \<le> iterations"
  shows "pbkdf2_block ipad opad salt iterations i = rfc_f password salt (unat iterations) i"
proof -
  have "hmac_with_pads ipad opad (salt @ to_be_bytes i) = rfc_u password salt i 0"
    using hmac_eq [of password "salt @ to_be_bytes i"] assms(1) by (simp add: hmac_sha256_def)
  moreover have "Suc (unat iterations - 1) = unat iterations" using assms(2) by (simp add: word_le_nat_alt)
  ultimately show ?thesis
    using pbkdf2_steps [OF assms(1), of "unat iterations - 1" salt i] by (simp add: pbkdf2_block_def Let_def rfc_f_def del: upt_Suc)
qed

lemma xor_length [simp]: "length (xor_bytes x y) = min (length x) (length y)"
  by (simp add: xor_bytes_def)

lemma rfc_f_length: "length (rfc_f password salt c i) = 32"
proof -
  have u: "length (rfc_u password salt i j) = 32" for j by (cases j) (simp_all add: rfc_hmac_def fips_length)
  have "length (foldl xor_bytes t (map (rfc_u password salt i) js)) = 32" if "length t = 32" for t js
    using that by (induction js arbitrary: t) (simp_all add: u)
  then show ?thesis unfolding rfc_f_def using u by blast
qed

lemma pbkdf2_loop_eq:
  assumes pads: "hmac_key_pads password = (ipad, opad)" and it: "1 \<le> iterations"
  shows "unat i + (n - filled + 31) div 32 < 2 ^ 32 \<Longrightarrow> filled \<le> n \<Longrightarrow>
    pbkdf2_loop ipad opad salt iterations n filled i out =
      Some (out @ take (n - filled) (concat (map (\<lambda>j. rfc_f password salt (unat iterations) (word_of_nat j)) [unat i..<unat i + (n - filled + 31) div 32])))"
proof (induction "n - filled" arbitrary: filled i out rule: less_induct)
  case less
  show ?case
  proof (cases "filled < n")
    case False
    then show ?thesis by (subst pbkdf2_loop.simps) simp
  next
    case True
    define k where "k = min (n - filled) 32"
    have k: "0 < k" "k \<le> n - filled" "k \<le> 32" using True by (auto simp: k_def)
    have blocks: "(n - filled + 31) div 32 = Suc ((n - (filled + k) + 31) div 32)" 
    proof (cases "n - filled \<le> 32")
      case True
      then have "(n - filled + 31) div 32 = 1" "n - (filled + k) = 0" using \<open>filled < n\<close> by (auto simp: k_def intro: div_nat_eqI)
      then show ?thesis by simp
    next
      case False
      then have "n - filled + 31 = (n - (filled + k) + 31) + 32" by (simp add: k_def)
      then show ?thesis by (simp only: div_add_self2)
    qed
    have i: "unat i + 1 < 2 ^ 32" using less.prems(1) unfolding blocks by simp
    have s: "unat (i + 1) = unat i + 1" using i by (simp add: unat_word_ariths)
    have s2: "i \<noteq> 0xFFFFFFFF" using i by auto
    let ?f = "\<lambda>j. rfc_f password salt (unat iterations) (word_of_nat j)"
    let ?r = "concat (map ?f [unat i + 1..<unat i + 1 + (n - (filled + k) + 31) div 32])"
    have IH: "pbkdf2_loop ipad opad salt iterations n (filled + k) (i + 1) (out @ take k (?f (unat i))) =
        Some ((out @ take k (?f (unat i))) @ take (n - (filled + k)) ?r)"
    proof -
      have "n - (filled + k) < n - filled" "filled + k \<le> n" using k True by simp_all
      moreover have "unat (i + 1) + (n - (filled + k) + 31) div 32 < 2 ^ 32"
        using less.prems(1) unfolding blocks s by simp
      ultimately show ?thesis using less.hyps [of "filled + k" "i + 1"] unfolding s by blast
    qed
    have l: "length (?f (unat i)) = 32" by (rule rfc_f_length)
    have "take (n - filled) (?f (unat i) @ ?r) = take k (?f (unat i)) @ take (n - (filled + k)) ?r"
    proof (cases "n - filled \<le> 32")
      case True
      then have "k = n - filled" "n - (filled + k) = 0" by (simp_all add: k_def)
      then show ?thesis using True by (simp only: take_append l) simp
    next
      case False
      then have "k = 32" "n - filled - 32 = n - (filled + k)" "take (n - filled) (?f (unat i)) = ?f (unat i)" "take 32 (?f (unat i)) = ?f (unat i)"
        using l by (simp_all add: k_def)
      then show ?thesis by (simp only: take_append l)
    qed
    moreover have "[unat i..<unat i + (n - filled + 31) div 32] = unat i # [unat i + 1..<unat i + 1 + (n - (filled + k) + 31) div 32]"
      unfolding blocks by (simp add: upt_conv_Cons)
    ultimately show ?thesis
      using True IH s2 pbkdf2_block_eq [OF pads it, of salt i]
      by (subst pbkdf2_loop.simps) (simp add: Let_def k_def [symmetric])
  qed
qed

lemma pbkdf2_eq:
  assumes "1 \<le> iterations" and "(n + 31) div 32 < 2 ^ 32 - 1"
  shows "pbkdf2_hmac_sha256 password salt iterations n = Some (rfc_pbkdf2 password salt (unat iterations) n)"
proof -
  obtain ipad opad where p: "hmac_key_pads password = (ipad, opad)" by fastforce
  have "\<not> iterations < 1" using assms(1) by (simp only: not_less)
  then show ?thesis
    using pbkdf2_loop_eq [OF p assms(1), of 1 n 0 salt "[]"] assms(2) p by (simp add: pbkdf2_hmac_sha256_def rfc_pbkdf2_def)
qed

end
