(* ===== verification/Kdf_Properties.thy ===== *)
theory Kdf_Properties
  imports Kdf_Props
begin

text \<open>
  The stored form of a credential: hex text, parsing of what \<open>hash_password\<close> writes, and verification.
\<close>

section \<open>Text of a credential\<close>

lemma unhex_hex: "unhex (hex bs) = Some bs"
proof -
  have "length (hex bs) = 2 * length bs" by (induction bs) (simp_all add: hex_def)
  moreover have "unhex_pairs (hex bs) = Some bs"
  proof (induction bs)
    case (Cons b bs)
    have u: "unat b div 16 < 16" "unat b mod 16 < 16" using unat_bound [of b] by simp_all
    have "word_of_nat (unat b div 16 * 16 + unat b mod 16) = b" by (simp only: div_mult_mod_eq) simp
    then show ?case using Cons hex_roundtrip [OF u(1)] hex_roundtrip [OF u(2)] by (simp add: hex_def)
  qed (simp add: hex_def)
  ultimately show ?thesis by (simp add: unhex_def)
qed

lemma hex_no_dollar: "list_all (\<lambda>b. b \<noteq> 0x24) (hex bs)"
proof -
  have "hex_char n \<noteq> 0x24" if "n < 16" for n using hex_roundtrip [OF that] by (auto simp: hex_val_def word_le_nat_alt)
  moreover have "unat b div 16 < 16" "unat b mod 16 < 16" for b :: u8 using unat_bound [of b] by simp_all
  ultimately show ?thesis by (auto simp: list_all_iff hex_def)
qed

lemma split_on_none: "list_all (\<lambda>b. b \<noteq> c) x \<Longrightarrow> split_on c x = [x]"
  by (induction x) auto

lemma split_on_append: "list_all (\<lambda>b. b \<noteq> c) x \<Longrightarrow> split_on c (x @ c # r) = x # split_on c r"
  by (induction x) auto

lemma parse_u32_digits: "parse_u32 (nat_digits (unat n)) = Some n"
proof -
  have d: "list_all is_digit (nat_digits (unat n))" "nat_digits (unat n) \<noteq> []" "digits_val (nat_digits (unat n)) = unat n"
    using nat_digits_ok [of "unat n"] by auto
  have "hd (nat_digits (unat n)) \<noteq> 0x2B" using d(1,2) by (cases "nat_digits (unat n)") (auto simp: is_digit_def word_le_nat_alt)
  then show ?thesis using d unat_bound [of n] by (simp add: parse_u32_def Let_def)
qed

lemma digits_no_dollar: "list_all (\<lambda>b. b \<noteq> 0x24) (nat_digits n)"
proof -
  have "list_all is_digit (nat_digits n)" using nat_digits_ok by blast
  then show ?thesis by (rule list.pred_mono_strong) (auto simp: is_digit_def word_le_nat_alt)
qed

lemma parse_stored_text:
  assumes "iterations_ok n" and "salt \<noteq> []" and "length salt \<le> MAX_SALT_LEN" and "length hash = 32"
  shows "parse_stored (HASH_PREFIX @ 0x24 # nat_digits (unat n) @ 0x24 # hex salt @ 0x24 # hex hash) =
    Some \<lparr>pw_iterations = n, pw_salt = salt, pw_hash = hash\<rparr>"
proof -
  have "split_on 0x24 (nat_digits (unat n) @ 0x24 # hex salt @ 0x24 # hex hash) = [nat_digits (unat n), hex salt, hex hash]"
    by (simp add: split_on_append digits_no_dollar hex_no_dollar split_on_none)
  then show ?thesis using assms by (simp add: parse_stored_def strip_prefix_def parse_u32_digits unhex_hex)
qed

lemma constant_time_eq_iff: "constant_time_eq a b \<longleftrightarrow> a = b"
proof -
  have f: "fold (\<lambda>(x, y) diff. diff OR (x XOR y)) ps d = 0 \<longleftrightarrow> d = 0 \<and> (\<forall>(x, y) \<in> set ps. x = (y :: u8))" for ps d
  proof (induction ps arbitrary: d)
    case (Cons p ps)
    have "d OR (x XOR y) = 0 \<longleftrightarrow> d = 0 \<and> x = y" for x y :: u8
    proof -
      have "x XOR y = 0 \<longleftrightarrow> x = y" by (simp add: bit_eq_iff bit_xor_iff) 
      then show ?thesis by (simp add: or_eq_0_iff)
    qed
    then show ?case using Cons by (cases p) auto
  qed simp
  have "(\<forall>(x, y) \<in> set (zip a b). x = y) \<longleftrightarrow> a = b" if "length a = length b"
    using that by (induction a b rule: list_induct2) auto
  then show ?thesis unfolding constant_time_eq_def f by auto
qed

section \<open>Properties\<close>

text \<open>\<open>C33\<close>: the hand-written hash code computes the standards. Hashing in parts gives SHA-256 of the
  concatenation, as FIPS 180-4 defines it (constants from the roots of primes, schedule and working variables as
  recurrences, padding); HMAC is RFC 2104; PBKDF2, with its key pads computed once, gives the key of RFC 8018, for any
  password, salt, number of iterations and key length within the block counter.\<close>

theorem hashes_follow_standards:
  assumes "1 \<le> iterations" and "(n + 31) div 32 < 2 ^ 32 - 1"
  shows "sha256_parts parts = fips_sha256 (concat parts) \<and> hmac_sha256 key m = rfc_hmac key m \<and>
    pbkdf2_hmac_sha256 password salt iterations n = Some (rfc_pbkdf2 password salt (unat iterations) n)"
  using sha256_parts_eq hmac_eq pbkdf2_eq [OF assms] by blast

theorem hashes_follow_standards_witness:
  "sha256_parts [[1], [], [2, 3]] = fips_sha256 [1, 2, 3] \<and> hmac_sha256 [7] [8] = rfc_hmac [7] [8] \<and>
   pbkdf2_hmac_sha256 [9] [10] 3 40 = Some (rfc_pbkdf2 [9] [10] 3 40)"
  using hashes_follow_standards [of 3 40 "[[1], [], [2, 3]]" "[7]" "[8]" "[9]" "[10]"] by (simp add: word_le_nat_alt)

lemma effective_in_bounds: "iterations_ok (effective_iterations env)"
proof -
  have "iterations_ok PBKDF2_ITERATIONS" by (simp add: iterations_ok_def PBKDF2_ITERATIONS_def MAX_PBKDF2_ITERATIONS_def word_le_nat_alt)
  then show ?thesis by (simp add: effective_iterations_def split: option.split)
qed

text \<open>\<open>C34\<close>: a stored credential accepts its password. Whatever the environment holds, with a salt within the
  limit \<open>hash_password\<close> returns a text that parses and counts as stored form, and the parsed credential accepts
  exactly the passwords whose derived key is that of the original one.\<close>

theorem stored_credential_accepts:
  assumes "salt \<noteq> []" and "length salt \<le> MAX_SALT_LEN"
  shows "\<exists>s p. hash_password env password salt = Some s \<and> is_stored_form s \<and> parse_stored s = Some p \<and>
    (\<forall>attempt. pw_verify p attempt =
       Some (rfc_pbkdf2 attempt salt (unat (effective_iterations env)) 32 = rfc_pbkdf2 password salt (unat (effective_iterations env)) 32))"
proof -
  define n where "n = effective_iterations env"
  have b: "iterations_ok n" unfolding n_def by (rule effective_in_bounds)
  then have it: "1 \<le> n" by (simp add: iterations_ok_def)
  note d = pbkdf2_eq [OF it, of 32, simplified]
  let ?hash = "rfc_pbkdf2 password salt (unat n) 32"
  have "length ?hash = 32" by (simp add: rfc_pbkdf2_def rfc_f_length)
  note p = parse_stored_text [OF b assms this]
  define s where "s = HASH_PREFIX @ 0x24 # nat_digits (unat n) @ 0x24 # hex salt @ 0x24 # hex ?hash"
  have "hash_password env password salt = Some s" by (simp add: hash_password_def d s_def n_def [symmetric])
  moreover have "is_stored_form s" using p by (simp add: is_stored_form_def s_def)
  ultimately show ?thesis using p b assms unfolding n_def [symmetric] by (auto simp: s_def pw_verify_def d constant_time_eq_iff)
qed

theorem stored_credential_accepts_witness:
  "\<exists>s p. hash_password (Some (ascii ''2'')) [1] [2] = Some s \<and> parse_stored s = Some p \<and> pw_verify p [1] = Some True"
  using stored_credential_accepts [of "[2]" "Some (ascii ''2'')" "[1]"] by (auto simp: MAX_SALT_LEN_def)

end
