(* ===== verification/Arithmetic.thy ===== *)
theory Arithmetic
  imports Timestamps Encode
begin

text \<open>
  Arithmetic on values (\<open>engine/expr.rs\<close>, \<open>engine/agg.rs\<close>, \<open>engine/window.rs\<close>): checked 64-bit integers, IEEE 754
  doubles, the arithmetic, bitwise, comparison and logic operators, and the addition and subtraction of the
  aggregates. The operations of the decimal crate are a record of arguments beside \<open>decimal_ops\<close>.
\<close>

section \<open>Integers and doubles of the language\<close>

definition checked :: "int \<Rightarrow> i64 option" where
  "checked x = (if - (2 ^ 63) \<le> x \<and> x < 2 ^ 63 then Some (word_of_int x) else None)"

text \<open>Division rounds toward zero; the remainder has the sign of the dividend.\<close>

definition quot :: "int \<Rightarrow> int \<Rightarrow> int" where
  "quot a b = sgn a * sgn b * (\<bar>a\<bar> div \<bar>b\<bar>)"

definition checked_div :: "i64 \<Rightarrow> i64 \<Rightarrow> i64 option" where
  "checked_div a b = (if b = 0 then None else checked (quot (sint a) (sint b)))"

definition checked_rem :: "i64 \<Rightarrow> i64 \<Rightarrow> i64 option" where
  "checked_rem a b =
     (if b = 0 \<or> checked (quot (sint a) (sint b)) = None then None
      else checked (sint a - sint b * quot (sint a) (sint b)))"

text \<open>Rounding to the nearest double, ties to even: the exponent \<open>e\<close> of the leading bit is at least that of the
  normal range, the significand counts units of \<open>2 powi (e - 52)\<close>, and a carry moves into the exponent bits.\<close>

definition floor_log2 :: "rat \<Rightarrow> int" where
  "floor_log2 q =
     (let (n, d) = quotient_of q; k = int (bit_len (nat n)) - int (bit_len (nat d))
      in if pow2 k \<le> q then k else k - 1)"

definition round_even :: "rat \<Rightarrow> int" where
  "round_even q =
     (let f = \<lfloor>q\<rfloor>; r = q - of_int f
      in if r < 1 / 2 then f else if 1 / 2 < r then f + 1 else if even f then f else f + 1)"

definition f64_sign :: "bool \<Rightarrow> f64" where
  "f64_sign neg = (if neg then 0x8000000000000000 else 0)"

definition f64_round :: "bool \<Rightarrow> rat \<Rightarrow> f64" where
  "f64_round neg q =
     (if q = 0 then f64_sign neg
      else
        (let e = max (- 1022) (floor_log2 q);
             m = round_even (q / pow2 (e - 52));
             b = (e + 1022) * 2 ^ 52 + m
         in f64_sign neg OR (if 0x7ff * 2 ^ 52 \<le> b then f64_inf else word_of_int b)))"

definition f64_of_i64 :: "i64 \<Rightarrow> f64" where
  "f64_of_i64 i = f64_round (sint i < 0) (of_int \<bar>sint i\<bar>)"

text \<open>The sign of an exact zero is \<open>neg0\<close>.\<close>

definition f64_of_rat :: "bool \<Rightarrow> rat \<Rightarrow> f64" where
  "f64_of_rat neg0 q = (if q = 0 then f64_sign neg0 else f64_round (q < 0) \<bar>q\<bar>)"

definition f64_minus :: "f64 \<Rightarrow> f64" where
  "f64_minus a = a XOR 0x8000000000000000"

definition f64_add :: "f64 \<Rightarrow> f64 \<Rightarrow> f64" where
  "f64_add a b =
     (if is_nan a \<or> is_nan b then f64_nan
      else if is_infinite a then (if is_infinite b \<and> f64_neg a \<noteq> f64_neg b then f64_nan else a)
      else if is_infinite b then b
      else f64_of_rat (f64_neg a \<and> f64_neg b) (f64_rat a + f64_rat b))"

definition f64_sub :: "f64 \<Rightarrow> f64 \<Rightarrow> f64" where
  "f64_sub a b = f64_add a (if is_nan b then b else f64_minus b)"

definition f64_is_zero :: "f64 \<Rightarrow> bool" where
  "f64_is_zero f \<longleftrightarrow> f64_val f = Fin 0"

definition f64_mul :: "f64 \<Rightarrow> f64 \<Rightarrow> f64" where
  "f64_mul a b =
     (let neg = f64_neg a \<noteq> f64_neg b
      in if is_nan a \<or> is_nan b then f64_nan
         else if is_infinite a \<or> is_infinite b then
           (if f64_is_zero a \<or> f64_is_zero b then f64_nan else f64_sign neg OR f64_inf)
         else f64_of_rat neg (f64_rat a * f64_rat b))"

definition f64_div :: "f64 \<Rightarrow> f64 \<Rightarrow> f64" where
  "f64_div a b =
     (let neg = f64_neg a \<noteq> f64_neg b
      in if is_nan a \<or> is_nan b then f64_nan
         else if is_infinite a then (if is_infinite b then f64_nan else f64_sign neg OR f64_inf)
         else if is_infinite b then f64_sign neg
         else if f64_is_zero b then (if f64_is_zero a then f64_nan else f64_sign neg OR f64_inf)
         else f64_of_rat neg (f64_rat a / f64_rat b))"

definition f64_rem :: "f64 \<Rightarrow> f64 \<Rightarrow> f64" where
  "f64_rem a b =
     (if is_nan a \<or> is_nan b \<or> is_infinite a \<or> f64_is_zero b then f64_nan
      else if is_infinite b then a
      else
        (let q = f64_mag a / f64_mag b
         in f64_of_rat (f64_neg a) (f64_rat a - (if f64_neg a then - 1 else 1) * f64_mag b * of_int \<lfloor>q\<rfloor>)))"

section \<open>Arithmetic of the decimal crate\<close>

record 'd decimal_arith =
  dec_zero :: 'd
  dec_retain :: "f64 \<Rightarrow> 'd option"
  dec_f64 :: "'d \<Rightarrow> f64 option"
  dec_add :: "'d \<Rightarrow> 'd \<Rightarrow> 'd option"
  dec_sub :: "'d \<Rightarrow> 'd \<Rightarrow> 'd option"
  dec_mul :: "'d \<Rightarrow> 'd \<Rightarrow> 'd option"
  dec_div :: "'d \<Rightarrow> 'd \<Rightarrow> 'd option"
  dec_rem :: "'d \<Rightarrow> 'd \<Rightarrow> 'd option"

datatype sql_error =
    EncodeFailed encode_error
  | NonNumericOperand string
  | NonFiniteFloat f64
  | NonNumericOperands string string
  | NotArithmetic
  | TimestampArithmetic
  | NotANumber bytes
  | BitwiseNonInteger
  | AndNonBool
  | OrNonBool
  | UnsupportedOperator
  | SumNonNumeric
  | AvgNonNumeric
  | AvgOverflow
  | RangeOffsetNonNumeric
  | RangeIntervalKey
  | RangeKey

definition to_f64 :: "'d decimal_arith \<Rightarrow> 'd Value \<Rightarrow> sql_error + f64" where
  "to_f64 A v =
     (case v of
        Int64 i \<Rightarrow> Inr (f64_of_i64 i)
      | Float f \<Rightarrow> Inr f
      | Decimal d \<Rightarrow> Inr (case dec_f64 A d of Some f \<Rightarrow> f | None \<Rightarrow> f64_nan)
      | other \<Rightarrow> Inl (NonNumericOperand (type_name other)))"

definition to_decimal :: "'d decimal_ops \<Rightarrow> 'd decimal_arith \<Rightarrow> 'd Value \<Rightarrow> sql_error + 'd" where
  "to_decimal D A v =
     (case v of
        Decimal d \<Rightarrow> Inr d
      | Int64 i \<Rightarrow> Inr (dec_from D i)
      | Float f \<Rightarrow> (case dec_retain A f of Some d \<Rightarrow> Inr d | None \<Rightarrow> Inl (NonFiniteFloat f))
      | other \<Rightarrow> Inl (NonNumericOperand (type_name other)))"

fun is_dec :: "'d Value \<Rightarrow> bool" where
  "is_dec (Decimal _) = True" | "is_dec _ = False"

fun is_float :: "'d Value \<Rightarrow> bool" where
  "is_float (Float _) = True" | "is_float _ = False"

fun is_stamp :: "'d Value \<Rightarrow> bool" where
  "is_stamp (Timestamp _) = True" | "is_stamp _ = False"

fun is_text :: "'d Value \<Rightarrow> bool" where
  "is_text (Str _) = True" | "is_text _ = False"

fun is_null :: "'d Value \<Rightarrow> bool" where
  "is_null Null = True" | "is_null _ = False"

definition or_null :: "('a \<Rightarrow> 'd Value) \<Rightarrow> 'a option \<Rightarrow> 'd Value" where
  "or_null f x = (case x of Some v \<Rightarrow> f v | None \<Rightarrow> Null)"

section \<open>Operators\<close>

datatype binary_operator =
    OpPlus | OpMinus | OpMultiply | OpDivide | OpModulo
  | OpBitOr | OpBitAnd | OpBitXor | OpConcat
  | OpEq | OpNotEq | OpLt | OpLtEq | OpGt | OpGtEq
  | OpAnd | OpOr | OpOther

definition stamp_or_null :: "i64 \<Rightarrow> 'd Value" where
  "stamp_or_null ms = (if is_valid_timestamp_ms ms then Timestamp ms else Null)"

definition stamp_arith :: "'d Value \<Rightarrow> binary_operator \<Rightarrow> 'd Value \<Rightarrow> sql_error + 'd Value" where
  "stamp_arith l op r =
     (case (op, l, r) of
        (OpPlus, Timestamp t, Int64 n) \<Rightarrow> Inr (or_null stamp_or_null (checked (sint t + sint n)))
      | (OpPlus, Int64 n, Timestamp t) \<Rightarrow> Inr (or_null stamp_or_null (checked (sint t + sint n)))
      | (OpMinus, Timestamp t, Int64 n) \<Rightarrow> Inr (or_null stamp_or_null (checked (sint t - sint n)))
      | (OpMinus, Timestamp a, Timestamp b) \<Rightarrow> Inr (or_null Int64 (checked (sint a - sint b)))
      | _ \<Rightarrow> Inl TimestampArithmetic)"

definition decimal_arith_op :: "'d decimal_arith \<Rightarrow> 'd \<Rightarrow> binary_operator \<Rightarrow> 'd \<Rightarrow> sql_error + 'd option" where
  "decimal_arith_op A a op b =
     (case op of
        OpPlus \<Rightarrow> Inr (dec_add A a b)
      | OpMinus \<Rightarrow> Inr (dec_sub A a b)
      | OpMultiply \<Rightarrow> Inr (dec_mul A a b)
      | OpDivide \<Rightarrow> Inr (dec_div A a b)
      | OpModulo \<Rightarrow> Inr (dec_rem A a b)
      | _ \<Rightarrow> Inl NotArithmetic)"

definition float_arith :: "f64 \<Rightarrow> binary_operator \<Rightarrow> f64 \<Rightarrow> sql_error + 'd Value" where
  "float_arith a op b =
     (case op of
        OpPlus \<Rightarrow> Inr (Float (f64_add a b))
      | OpMinus \<Rightarrow> Inr (Float (f64_sub a b))
      | OpMultiply \<Rightarrow> Inr (Float (f64_mul a b))
      | OpDivide \<Rightarrow> Inr (if f64_is_zero b then Null else Float (f64_div a b))
      | OpModulo \<Rightarrow> Inr (if f64_is_zero b then Null else Float (f64_rem a b))
      | _ \<Rightarrow> Inl NotArithmetic)"

definition int_arith :: "i64 \<Rightarrow> binary_operator \<Rightarrow> i64 \<Rightarrow> sql_error + 'd Value" where
  "int_arith a op b =
     (case op of
        OpPlus \<Rightarrow> Inr (or_null Int64 (checked (sint a + sint b)))
      | OpMinus \<Rightarrow> Inr (or_null Int64 (checked (sint a - sint b)))
      | OpMultiply \<Rightarrow> Inr (or_null Int64 (checked (sint a * sint b)))
      | OpDivide \<Rightarrow> Inr (if b = 0 then Null else or_null Int64 (checked_div a b))
      | OpModulo \<Rightarrow> Inr (if b = 0 then Null else or_null Int64 (checked_rem a b))
      | _ \<Rightarrow> Inl NotArithmetic)"

definition arith :: "'d decimal_ops \<Rightarrow> 'd decimal_arith \<Rightarrow> 'd Value \<Rightarrow> binary_operator \<Rightarrow> 'd Value \<Rightarrow> sql_error + 'd Value" where
  "arith D A l op r =
     (if is_null l \<or> is_null r then Inr Null
      else if is_stamp l \<or> is_stamp r then stamp_arith l op r
      else if is_dec l \<or> is_dec r then
        ebind (to_decimal D A l) (\<lambda>a. ebind (to_decimal D A r) (\<lambda>b.
          ebind (decimal_arith_op A a op b) (\<lambda>out. Inr (or_null Decimal out))))
      else if is_float l \<or> is_float r then
        ebind (to_f64 A l) (\<lambda>a. ebind (to_f64 A r) (\<lambda>b. float_arith a op b))
      else
        (case (l, r) of
           (Int64 a, Int64 b) \<Rightarrow> int_arith a op b
         | _ \<Rightarrow> Inl (NonNumericOperands (type_name l) (type_name r))))"

definition bit_int :: "'d Value \<Rightarrow> i64 option" where
  "bit_int v = (case v of Int64 i \<Rightarrow> Some i | Bool b \<Rightarrow> Some (of_bool b) | _ \<Rightarrow> None)"

definition bitwise :: "'d Value \<Rightarrow> 'd Value \<Rightarrow> (i64 \<Rightarrow> i64 \<Rightarrow> i64) \<Rightarrow> sql_error + 'd Value" where
  "bitwise l r f =
     (if is_null l \<or> is_null r then Inr Null
      else
        (case (bit_int l, bit_int r) of
           (Some a, Some b) \<Rightarrow> Inr (Int64 (f a b))
         | _ \<Rightarrow> Inl BitwiseNonInteger))"

definition coerce_timestamp_operands :: "'d Value \<Rightarrow> 'd Value \<Rightarrow> ('d Value \<times> 'd Value) option" where
  "coerce_timestamp_operands l r =
     (case (l, r) of
        (Timestamp t, Str s) \<Rightarrow> map_option (\<lambda>p. (Timestamp t, Timestamp p)) (parse_timestamp_ms s)
      | (Str s, Timestamp t) \<Rightarrow> map_option (\<lambda>p. (Timestamp p, Timestamp t)) (parse_timestamp_ms s)
      | (Timestamp _, Int64 _) \<Rightarrow> None
      | (Int64 _, Timestamp _) \<Rightarrow> None
      | (Timestamp _, Decimal _) \<Rightarrow> None
      | (Decimal _, Timestamp _) \<Rightarrow> None
      | (Timestamp _, Float _) \<Rightarrow> None
      | (Float _, Timestamp _) \<Rightarrow> None
      | _ \<Rightarrow> Some (l, r))"

definition cmp_coerced :: "'d decimal_ops \<Rightarrow> 'd Value \<Rightarrow> 'd Value \<Rightarrow> ordering option" where
  "cmp_coerced D a b = map_option (\<lambda>(a, b). cmp_values D a b) (coerce_timestamp_operands a b)"

definition values_equal_null_safe :: "'d decimal_ops \<Rightarrow> 'd Value \<Rightarrow> 'd Value \<Rightarrow> bool" where
  "values_equal_null_safe D a b \<longleftrightarrow> cmp_coerced D a b = Some Equal"

text \<open>The text of a value. The text of floats and decimals and the debug text of arrays and objects are arguments.\<close>

record 'd value_text =
  text_float :: "f64 \<Rightarrow> bytes"
  text_float1 :: "f64 \<Rightarrow> bytes"
  text_dec :: "'d \<Rightarrow> bytes"
  text_parse_dec :: "bytes \<Rightarrow> 'd option"
  text_debug :: "'d Value \<Rightarrow> bytes"

definition hex_bytes :: "bytes \<Rightarrow> bytes" where
  "hex_bytes bs = concat (map (\<lambda>b. [hex_char (unat b div 16), hex_char (unat b mod 16)]) bs)"

definition value_to_text :: "'d value_text \<Rightarrow> 'd Value \<Rightarrow> bytes" where
  "value_to_text X v =
     (case v of
        Str s \<Rightarrow> s
      | Int64 i \<Rightarrow> int_digits (sint i)
      | Float f \<Rightarrow>
          (let s = text_float X f
           in if list_ex (\<lambda>c. c = 0x2E \<or> c = 0x65 \<or> c = 0x45) s then s else text_float1 X f)
      | Decimal d \<Rightarrow> text_dec X d
      | Bool b \<Rightarrow> (if b then ascii ''true'' else ascii ''false'')
      | Null \<Rightarrow> []
      | Timestamp ms \<Rightarrow> format_timestamp_ms ms
      | Bytes b \<Rightarrow> 0x78 # 0x27 # hex_bytes b @ [0x27]
      | other \<Rightarrow> text_debug X other)"

definition signed_i64 :: "bytes \<Rightarrow> i64 option" where
  "signed_i64 s = (if s \<noteq> [] \<and> hd s = 0x2B then (if tl s \<noteq> [] \<and> hd (tl s) = 0x2D then None else parse_i64 (tl s)) else parse_i64 s)"

definition plus_operand :: "'d value_text \<Rightarrow> 'd Value \<Rightarrow> sql_error + 'd Value" where
  "plus_operand X v =
     (case v of
        Str s \<Rightarrow>
          (case signed_i64 (trim s) of
             Some i \<Rightarrow> Inr (Int64 i)
           | None \<Rightarrow>
               (case text_parse_dec X (trim s) of Some d \<Rightarrow> Inr (Decimal d) | None \<Rightarrow> Inl (NotANumber s)))
      | other \<Rightarrow> Inr other)"

definition compare_op :: "binary_operator \<Rightarrow> ordering \<Rightarrow> bool" where
  "compare_op op ord =
     (case op of
        OpEq \<Rightarrow> ord = Equal
      | OpNotEq \<Rightarrow> ord \<noteq> Equal
      | OpLt \<Rightarrow> ord = Less
      | OpLtEq \<Rightarrow> ord \<noteq> Greater
      | OpGt \<Rightarrow> ord = Greater
      | _ \<Rightarrow> ord \<noteq> Less)"

definition and3 :: "'d Value \<Rightarrow> 'd Value \<Rightarrow> sql_error + 'd Value" where
  "and3 l r =
     (case (l, r) of
        (Bool a, Bool b) \<Rightarrow> Inr (Bool (a \<and> b))
      | (Bool a, Null) \<Rightarrow> Inr (if a then Null else Bool False)
      | (Null, Bool b) \<Rightarrow> Inr (if b then Null else Bool False)
      | (Null, Null) \<Rightarrow> Inr Null
      | _ \<Rightarrow> Inl AndNonBool)"

definition or3 :: "'d Value \<Rightarrow> 'd Value \<Rightarrow> sql_error + 'd Value" where
  "or3 l r =
     (case (l, r) of
        (Bool a, Bool b) \<Rightarrow> Inr (Bool (a \<or> b))
      | (Bool a, Null) \<Rightarrow> Inr (if a then Bool True else Null)
      | (Null, Bool b) \<Rightarrow> Inr (if b then Bool True else Null)
      | (Null, Null) \<Rightarrow> Inr Null
      | _ \<Rightarrow> Inl OrNonBool)"

definition binop :: "'d decimal_ops \<Rightarrow> 'd decimal_arith \<Rightarrow> 'd value_text \<Rightarrow> 'd Value \<Rightarrow> binary_operator \<Rightarrow> 'd Value \<Rightarrow> sql_error + 'd Value" where
  "binop D A X l op r =
     (if op = OpPlus \<and> is_text l \<and> is_text r then Inr (Str (value_to_text X l @ value_to_text X r))
      else if op = OpPlus \<and> (is_text l \<or> is_text r) then
        (if is_null l \<or> is_null r then Inr Null
         else ebind (plus_operand X l) (\<lambda>l. ebind (plus_operand X r) (\<lambda>r. arith D A l op r)))
      else if op \<in> {OpPlus, OpMinus, OpMultiply, OpDivide, OpModulo} then arith D A l op r
      else if op = OpBitOr then bitwise l r (OR)
      else if op = OpBitAnd then bitwise l r (AND)
      else if op = OpBitXor then bitwise l r (XOR)
      else if op = OpConcat then
        (if is_null l \<or> is_null r then Inr Null else Inr (Str (value_to_text X l @ value_to_text X r)))
      else if op \<in> {OpEq, OpNotEq, OpLt, OpLtEq, OpGt, OpGtEq} then
        (case coerce_timestamp_operands l r of
           None \<Rightarrow> Inr Null
         | Some (l, r) \<Rightarrow> Inr (Bool (compare_op op (cmp_values D l r))))
      else if op = OpAnd then and3 l r
      else if op = OpOr then or3 l r
      else Inl UnsupportedOperator)"

section \<open>Addition and subtraction of the aggregates\<close>

definition add_values :: "'d decimal_ops \<Rightarrow> 'd decimal_arith \<Rightarrow> 'd Value \<Rightarrow> 'd Value \<Rightarrow> sql_error + 'd Value" where
  "add_values D A a b =
     (if is_null a \<or> is_null b then Inr Null
      else if is_dec a \<or> is_dec b then
        ebind (to_decimal D A a) (\<lambda>x. ebind (to_decimal D A b) (\<lambda>y. Inr (or_null Decimal (dec_add A x y))))
      else
        (case (a, b) of
           (Int64 x, Int64 y) \<Rightarrow> Inr (or_null Int64 (checked (sint x + sint y)))
         | (Int64 x, Float y) \<Rightarrow> Inr (Float (f64_add (f64_of_i64 x) y))
         | (Float x, Int64 y) \<Rightarrow> Inr (Float (f64_add x (f64_of_i64 y)))
         | (Float x, Float y) \<Rightarrow> Inr (Float (f64_add x y))
         | _ \<Rightarrow> Inl SumNonNumeric))"

definition sub_values :: "'d decimal_ops \<Rightarrow> 'd decimal_arith \<Rightarrow> 'd Value \<Rightarrow> 'd Value \<Rightarrow> sql_error + 'd Value" where
  "sub_values D A a b =
     (if is_null a \<or> is_null b then Inr Null
      else if is_dec a \<or> is_dec b then
        ebind (to_decimal D A a) (\<lambda>x. ebind (to_decimal D A b) (\<lambda>y. Inr (or_null Decimal (dec_sub A x y))))
      else
        (case (a, b) of
           (Int64 x, Int64 y) \<Rightarrow> Inr (or_null Int64 (checked (sint x - sint y)))
         | (Int64 x, Float y) \<Rightarrow> Inr (Float (f64_sub (f64_of_i64 x) y))
         | (Float x, Int64 y) \<Rightarrow> Inr (Float (f64_sub x (f64_of_i64 y)))
         | (Float x, Float y) \<Rightarrow> Inr (Float (f64_sub x y))
         | _ \<Rightarrow> Inl SumNonNumeric))"

end
