(* ===== verification/Window.thy ===== *)
theory Window
  imports Arithmetic
begin

text \<open>
  Window aggregates (\<open>engine/window.rs\<close>, the aggregate arm of \<open>eval_agg\<close> in \<open>engine/agg.rs\<close> and the frame loop
  of \<open>engine/select.rs\<close>). A row of a partition is what the loops read of it: whether it passed the filter and, if
  so, the value of the argument. Values are listed in the sorted order of the partition; the statement's
  deadline checks are left out. Row counters are unbounded integers.
\<close>

section \<open>Batch aggregates\<close>

datatype agg_op = AggCount | AggSum | AggAvg | AggMin | AggMax | AggConcat

type_synonym 'd row = "bool \<times> 'd Value option"

text \<open>A loop over a list that stops at the first error.\<close>

primrec efold :: "('s \<Rightarrow> 'a \<Rightarrow> 'e + 's) \<Rightarrow> 's \<Rightarrow> 'a list \<Rightarrow> 'e + 's" where
  "efold f s [] = Inr s"
| "efold f s (x # xs) = ebind (f s x) (\<lambda>s. efold f s xs)"

text \<open>The keys of \<open>BTreeSet<Vec<u8>>\<close>; \<open>retain\<close> with \<open>insert\<close> keeps the first value of each key.\<close>

definition value_key :: "'d decimal_ops \<Rightarrow> 'd Value \<Rightarrow> bytes" where
  "value_key D v = (case encode_to_vec D v of Inr b \<Rightarrow> b | Inl _ \<Rightarrow> [])"

fun retain_new :: "('a \<Rightarrow> bytes) \<Rightarrow> bytes set \<Rightarrow> 'a list \<Rightarrow> 'a list" where
  "retain_new key seen [] = []"
| "retain_new key seen (x # xs) =
     (if key x \<in> seen then retain_new key seen xs else x # retain_new key (insert (key x) seen) xs)"

definition kept_rows :: "'d row list \<Rightarrow> 'd row list" where
  "kept_rows rows = filter fst rows"

definition row_values :: "'d row list \<Rightarrow> 'd Value list" where
  "row_values rows = concat (map (\<lambda>(_, a). case a of Some v \<Rightarrow> if is_null v then [] else [v] | None \<Rightarrow> []) rows)"

definition dec_total :: "'d decimal_ops \<Rightarrow> 'd decimal_arith \<Rightarrow> 'd \<Rightarrow> 'd Value \<Rightarrow> sql_error + 'd" where
  "dec_total D A acc v =
     ebind (to_decimal D A v) (\<lambda>d. case dec_add A acc d of Some s \<Rightarrow> Inr s | None \<Rightarrow> Inl AvgOverflow)"

definition float_total :: "f64 \<Rightarrow> 'd Value \<Rightarrow> sql_error + f64" where
  "float_total acc v =
     (case v of
        Int64 i \<Rightarrow> Inr (f64_add acc (f64_of_i64 i))
      | Float f \<Rightarrow> Inr (f64_add acc f)
      | _ \<Rightarrow> Inl AvgNonNumeric)"

definition keep_min :: "'d decimal_ops \<Rightarrow> 'd Value \<Rightarrow> 'd Value \<Rightarrow> 'd Value" where
  "keep_min D a b = (if cmp_values D a b \<noteq> Greater then a else b)"

definition keep_max :: "'d decimal_ops \<Rightarrow> 'd Value \<Rightarrow> 'd Value \<Rightarrow> 'd Value" where
  "keep_max D a b = (if cmp_values D a b \<noteq> Less then a else b)"

fun reduce :: "('a \<Rightarrow> 'a \<Rightarrow> 'a) \<Rightarrow> 'a list \<Rightarrow> 'a option" where
  "reduce f [] = None"
| "reduce f (x # xs) = Some (foldl f x xs)"

fun join :: "bytes \<Rightarrow> bytes list \<Rightarrow> bytes" where
  "join sep [] = []"
| "join sep [x] = x"
| "join sep (x # y # xs) = x @ sep @ join sep (y # xs)"

definition separator :: "bytes option \<Rightarrow> bytes" where
  "separator sep = (case sep of Some s \<Rightarrow> s | None \<Rightarrow> [0x2C])"

definition eval_agg :: "'d decimal_ops \<Rightarrow> 'd decimal_arith \<Rightarrow> 'd value_text \<Rightarrow> agg_op \<Rightarrow> bytes option \<Rightarrow> bool \<Rightarrow> bool \<Rightarrow> 'd row list \<Rightarrow> sql_error + 'd Value" where
  "eval_agg D A X op sep dst count_star rows =
     (let vals = row_values (kept_rows rows);
          vals = (if dst then retain_new (value_key D) {} vals else vals)
      in case op of
           AggCount \<Rightarrow> Inr (Int64 (word_of_nat (length (if count_star then kept_rows rows else map (\<lambda>v. (True, Some v)) vals))))
         | AggSum \<Rightarrow> if vals = [] then Inr Null else efold (add_values D A) (Int64 0) vals
         | AggAvg \<Rightarrow>
             if vals = [] then Inr Null
             else if list_ex is_dec vals then
               ebind (efold (dec_total D A) (dec_zero A) vals) (\<lambda>acc.
                 Inr (or_null Decimal (dec_div A acc (dec_from D (word_of_nat (length vals))))))
             else
               ebind (efold float_total 0 vals) (\<lambda>acc. Inr (Float (f64_div acc (f64_of_i64 (word_of_nat (length vals))))))
         | AggMin \<Rightarrow> Inr (or_null id (reduce (keep_min D) vals))
         | AggMax \<Rightarrow> Inr (or_null id (reduce (keep_max D) vals))
         | AggConcat \<Rightarrow> Inr (if vals = [] then Null else Str (join (separator sep) (map (value_to_text X) vals))))"

section \<open>The running aggregate\<close>

record 'd running_agg =
  ra_op :: agg_op
  ra_sep :: "bytes option"
  ra_distinct :: bool
  ra_seen :: "bytes set"
  ra_count_star :: bool
  ra_kept :: nat
  ra_nonnull :: nat
  ra_sum :: "'d Value option"
  ra_dec_mode :: bool
  ra_vals :: "'d Value list"
  ra_dec :: 'd
  ra_f64 :: f64
  ra_min :: "'d Value option"
  ra_max :: "'d Value option"
  ra_concat :: bytes
  ra_concat_any :: bool

definition running_new :: "'d decimal_arith \<Rightarrow> agg_op \<Rightarrow> bytes option \<Rightarrow> bool \<Rightarrow> bool \<Rightarrow> 'd running_agg" where
  "running_new A op sep dst count_star =
     \<lparr>ra_op = op, ra_sep = sep, ra_distinct = dst, ra_seen = {}, ra_count_star = count_star, ra_kept = 0, ra_nonnull = 0,
      ra_sum = None, ra_dec_mode = False, ra_vals = [], ra_dec = dec_zero A, ra_f64 = 0, ra_min = None, ra_max = None,
      ra_concat = [], ra_concat_any = False\<rparr>"

text \<open>The \<open>Avg\<close> arm: the first decimal converts what was summed before it.\<close>

definition push_avg :: "'d decimal_ops \<Rightarrow> 'd decimal_arith \<Rightarrow> 'd running_agg \<Rightarrow> 'd Value \<Rightarrow> sql_error + 'd running_agg" where
  "push_avg D A R v =
     (if is_dec v then
        ebind (if ra_dec_mode R then Inr (ra_dec R) else efold (dec_total D A) (dec_zero A) (ra_vals R)) (\<lambda>acc.
          ebind (dec_total D A acc v) (\<lambda>acc.
            Inr (R\<lparr>ra_dec_mode := True, ra_vals := (if ra_dec_mode R then ra_vals R else []), ra_dec := acc\<rparr>)))
      else if ra_dec_mode R then ebind (dec_total D A (ra_dec R) v) (\<lambda>acc. Inr (R\<lparr>ra_dec := acc\<rparr>))
      else ebind (float_total (ra_f64 R) v) (\<lambda>acc. Inr (R\<lparr>ra_vals := ra_vals R @ [v], ra_f64 := acc\<rparr>)))"

definition push_val :: "'d decimal_ops \<Rightarrow> 'd decimal_arith \<Rightarrow> 'd value_text \<Rightarrow> 'd running_agg \<Rightarrow> 'd Value \<Rightarrow> sql_error + 'd running_agg" where
  "push_val D A X R v =
     (case ra_op R of
        AggCount \<Rightarrow> Inr R
      | AggSum \<Rightarrow>
          ebind (add_values D A (case ra_sum R of None \<Rightarrow> Int64 0 | Some s \<Rightarrow> s) v) (\<lambda>s. Inr (R\<lparr>ra_sum := Some s\<rparr>))
      | AggAvg \<Rightarrow> push_avg D A R v
      | AggMin \<Rightarrow>
          Inr (case ra_min R of
                 Some m \<Rightarrow> if cmp_values D m v \<noteq> Greater then R else R\<lparr>ra_min := Some v\<rparr>
               | None \<Rightarrow> R\<lparr>ra_min := Some v\<rparr>)
      | AggMax \<Rightarrow>
          Inr (case ra_max R of
                 Some m \<Rightarrow> if cmp_values D m v \<noteq> Less then R else R\<lparr>ra_max := Some v\<rparr>
               | None \<Rightarrow> R\<lparr>ra_max := Some v\<rparr>)
      | AggConcat \<Rightarrow>
          Inr (R\<lparr>ra_concat := (if ra_concat_any R then ra_concat R @ separator (ra_sep R) else ra_concat R) @ value_to_text X v,
                 ra_concat_any := True\<rparr>))"

definition push_row :: "'d decimal_ops \<Rightarrow> 'd decimal_arith \<Rightarrow> 'd value_text \<Rightarrow> 'd running_agg \<Rightarrow> 'd row \<Rightarrow> sql_error + 'd running_agg" where
  "push_row D A X R = (\<lambda>(kept, argval).
     (let R = (if kept then R\<lparr>ra_kept := ra_kept R + 1\<rparr> else R)
      in case argval of
           None \<Rightarrow> Inr R
         | Some v \<Rightarrow>
             if is_null v then Inr R
             else if ra_distinct R then
               ebind (emap_err EncodeFailed (encode_to_vec D v)) (\<lambda>b.
                 if b \<in> ra_seen R then Inr R
                 else push_val D A X (R\<lparr>ra_seen := insert b (ra_seen R), ra_nonnull := ra_nonnull R + 1\<rparr>) v)
             else push_val D A X (R\<lparr>ra_nonnull := ra_nonnull R + 1\<rparr>) v))"

definition agg_snapshot :: "'d decimal_ops \<Rightarrow> 'd decimal_arith \<Rightarrow> 'd running_agg \<Rightarrow> 'd Value" where
  "agg_snapshot D A R =
     (case ra_op R of
        AggCount \<Rightarrow> Int64 (word_of_nat (if ra_count_star R then ra_kept R else ra_nonnull R))
      | AggSum \<Rightarrow> or_null id (ra_sum R)
      | AggAvg \<Rightarrow>
          if ra_nonnull R = 0 then Null
          else if ra_dec_mode R then or_null Decimal (dec_div A (ra_dec R) (dec_from D (word_of_nat (ra_nonnull R))))
          else Float (f64_div (ra_f64 R) (f64_of_i64 (word_of_nat (ra_nonnull R))))
      | AggMin \<Rightarrow> or_null id (ra_min R)
      | AggMax \<Rightarrow> or_null id (ra_max R)
      | AggConcat \<Rightarrow> if ra_concat_any R then Str (ra_concat R) else Null)"

text \<open>A fresh fold of a slice of the partition, as the frame loop does it.\<close>

definition fold_slice :: "'d decimal_ops \<Rightarrow> 'd decimal_arith \<Rightarrow> 'd value_text \<Rightarrow> agg_op \<Rightarrow> bytes option \<Rightarrow> bool \<Rightarrow> bool \<Rightarrow> 'd row list \<Rightarrow> sql_error + 'd Value" where
  "fold_slice D A X op sep dst count_star rows =
     ebind (efold (push_row D A X) (running_new A op sep dst count_star) rows) (\<lambda>R. Inr (agg_snapshot D A R))"

end
