(* ===== verification/Window_Frame.thy ===== *)
theory Window_Frame
  imports Window
begin

text \<open>
  Custom window frames: the sliding aggregate (\<open>SlidingFrameAgg\<close>), the bounds of ROWS, GROUPS and RANGE frames, the
  peer runs of an ordered partition, and the loop that evaluates an aggregate over the frames of a partition.
\<close>

section \<open>The sliding aggregate\<close>

record 'd sliding_agg =
  sw_op :: agg_op
  sw_count_star :: bool
  sw_kept :: int
  sw_nonnull :: int
  sw_sum :: "'d Value option"
  sw_dec_mode :: bool
  sw_vals :: "'d Value list"
  sw_dec :: 'd
  sw_f64 :: f64
  sw_extreme :: "(nat \<times> 'd Value) list"
  sw_window :: "(nat \<times> 'd row) list"
  sw_degraded :: bool

definition sliding_new :: "'d decimal_arith \<Rightarrow> agg_op \<Rightarrow> bool \<Rightarrow> 'd sliding_agg" where
  "sliding_new A op count_star =
     \<lparr>sw_op = op, sw_count_star = count_star, sw_kept = 0, sw_nonnull = 0, sw_sum = None, sw_dec_mode = False, sw_vals = [],
      sw_dec = dec_zero A, sw_f64 = 0, sw_extreme = [], sw_window = [], sw_degraded = False\<rparr>"

text \<open>Pop from the back while the test holds.\<close>

definition drop_back :: "('a \<Rightarrow> bool) \<Rightarrow> 'a list \<Rightarrow> 'a list" where
  "drop_back P xs = rev (dropWhile P (rev xs))"

definition worse :: "'d decimal_ops \<Rightarrow> agg_op \<Rightarrow> 'd Value \<Rightarrow> 'd Value \<Rightarrow> bool" where
  "worse D op b v \<longleftrightarrow> cmp_values D b v = (if op = AggMin then Greater else Less)"

definition slide_avg :: "'d decimal_ops \<Rightarrow> 'd decimal_arith \<Rightarrow> 'd sliding_agg \<Rightarrow> 'd Value \<Rightarrow> sql_error + 'd sliding_agg" where
  "slide_avg D A W v =
     (if is_dec v then
        ebind (if sw_dec_mode W then Inr (sw_dec W) else efold (dec_total D A) (dec_zero A) (sw_vals W)) (\<lambda>acc.
          ebind (dec_total D A acc v) (\<lambda>acc.
            Inr (W\<lparr>sw_dec_mode := True, sw_vals := (if sw_dec_mode W then sw_vals W else []), sw_dec := acc\<rparr>)))
      else if sw_dec_mode W then ebind (dec_total D A (sw_dec W) v) (\<lambda>acc. Inr (W\<lparr>sw_dec := acc\<rparr>))
      else ebind (float_total (sw_f64 W) v) (\<lambda>acc. Inr (W\<lparr>sw_vals := sw_vals W @ [v], sw_f64 := acc\<rparr>)))"

definition slide_push :: "'d decimal_ops \<Rightarrow> 'd decimal_arith \<Rightarrow> 'd sliding_agg \<Rightarrow> nat \<times> 'd row \<Rightarrow> sql_error + 'd sliding_agg" where
  "slide_push D A W = (\<lambda>(pos, kept, argval).
     (let W = W\<lparr>sw_window := sw_window W @ [(pos, kept, argval)]\<rparr>;
          W = (if kept then W\<lparr>sw_kept := sw_kept W + 1\<rparr> else W)
      in case argval of
           None \<Rightarrow> Inr W
         | Some v \<Rightarrow>
             if is_null v then Inr W
             else if sw_op W = AggMin \<or> sw_op W = AggMax then
               Inr (W\<lparr>sw_extreme := drop_back (\<lambda>(_, b). worse D (sw_op W) b v) (sw_extreme W) @ [(pos, v)]\<rparr>)
             else
               (let W = W\<lparr>sw_nonnull := sw_nonnull W + 1\<rparr>
                in case sw_op W of
                     AggSum \<Rightarrow>
                       ebind (add_values D A (case sw_sum W of None \<Rightarrow> Int64 0 | Some s \<Rightarrow> s) v) (\<lambda>s. Inr (W\<lparr>sw_sum := Some s\<rparr>))
                   | AggAvg \<Rightarrow> slide_avg D A W v
                   | _ \<Rightarrow> Inr W)))"

definition pop_sum :: "'d decimal_ops \<Rightarrow> 'd decimal_arith \<Rightarrow> 'd sliding_agg \<Rightarrow> 'd Value \<Rightarrow> 'd sliding_agg" where
  "pop_sum D A W v =
     (case sw_sum W of
        None \<Rightarrow> W\<lparr>sw_degraded := True, sw_sum := Some Null\<rparr>
      | Some s \<Rightarrow>
          if is_null s then W\<lparr>sw_degraded := True, sw_sum := Some Null\<rparr>
          else
            (case sub_values D A s v of
               Inr x \<Rightarrow> if is_null x then W\<lparr>sw_degraded := True, sw_sum := Some x\<rparr> else W\<lparr>sw_sum := Some x\<rparr>
             | Inl _ \<Rightarrow> W\<lparr>sw_degraded := True, sw_sum := None\<rparr>))"

definition pop_avg :: "'d decimal_ops \<Rightarrow> 'd decimal_arith \<Rightarrow> 'd sliding_agg \<Rightarrow> 'd Value \<Rightarrow> 'd sliding_agg" where
  "pop_avg D A W v =
     (if is_dec v \<and> \<not> sw_dec_mode W then W\<lparr>sw_degraded := True\<rparr>
      else if sw_dec_mode W then
        (case ebind (to_decimal D A v) (\<lambda>d. case dec_sub A (sw_dec W) d of Some s \<Rightarrow> Inr s | None \<Rightarrow> Inl AvgOverflow) of
           Inr s \<Rightarrow> W\<lparr>sw_dec := s\<rparr>
         | Inl _ \<Rightarrow> W\<lparr>sw_degraded := True\<rparr>)
      else
        (case sw_vals W of
           [] \<Rightarrow> W\<lparr>sw_degraded := True\<rparr>
         | front # rest \<Rightarrow>
             (let W = W\<lparr>sw_vals := rest\<rparr>
              in case front of
                   Int64 i \<Rightarrow> W\<lparr>sw_f64 := f64_sub (sw_f64 W) (f64_of_i64 i)\<rparr>
                 | Float f \<Rightarrow> W\<lparr>sw_f64 := f64_sub (sw_f64 W) f\<rparr>
                 | _ \<Rightarrow> W\<lparr>sw_degraded := True, sw_f64 := f64_sub (sw_f64 W) 0\<rparr>)))"

definition pop_one :: "'d decimal_ops \<Rightarrow> 'd decimal_arith \<Rightarrow> 'd sliding_agg \<Rightarrow> nat \<times> 'd row \<Rightarrow> 'd sliding_agg" where
  "pop_one D A W = (\<lambda>(pos, kept, arg).
     (if sw_op W = AggMin \<or> sw_op W = AggMax then
        (case sw_extreme W of
           (p, _) # rest \<Rightarrow> if p = pos then W\<lparr>sw_extreme := rest\<rparr> else W
         | [] \<Rightarrow> W)
      else
        (let W = (if kept then W\<lparr>sw_kept := sw_kept W - 1\<rparr> else W)
         in case arg of
              None \<Rightarrow> W
            | Some v \<Rightarrow>
                if is_null v then W
                else
                  (let W = W\<lparr>sw_nonnull := sw_nonnull W - 1\<rparr>
                   in case sw_op W of
                        AggSum \<Rightarrow> pop_sum D A W v
                      | AggAvg \<Rightarrow> pop_avg D A W v
                      | _ \<Rightarrow> W))))"

text \<open>The loop pops the front of the window while it lies before \<open>lo\<close>.\<close>

definition pop_to :: "'d decimal_ops \<Rightarrow> 'd decimal_arith \<Rightarrow> nat \<Rightarrow> 'd sliding_agg \<Rightarrow> 'd sliding_agg" where
  "pop_to D A lo W =
     foldl (pop_one D A) (W\<lparr>sw_window := dropWhile (\<lambda>(pos, _). pos < lo) (sw_window W)\<rparr>)
       (takeWhile (\<lambda>(pos, _). pos < lo) (sw_window W))"

definition slide_value :: "'d decimal_ops \<Rightarrow> 'd decimal_arith \<Rightarrow> 'd sliding_agg \<Rightarrow> 'd Value" where
  "slide_value D A W =
     (case sw_op W of
        AggCount \<Rightarrow> Int64 (word_of_int (if sw_count_star W then sw_kept W else sw_nonnull W))
      | AggSum \<Rightarrow> or_null id (sw_sum W)
      | AggAvg \<Rightarrow>
          if sw_nonnull W = 0 then Null
          else if sw_dec_mode W then or_null Decimal (dec_div A (sw_dec W) (dec_from D (word_of_int (sw_nonnull W))))
          else Float (f64_div (sw_f64 W) (f64_of_i64 (word_of_int (sw_nonnull W))))
      | AggConcat \<Rightarrow> Null
      | _ \<Rightarrow> (case sw_extreme W of (_, v) # _ \<Rightarrow> v | [] \<Rightarrow> Null))"

section \<open>Frame bounds\<close>

datatype frame_row_bound = RowUnbounded | RowPreceding nat | RowCurrent | RowFollowing nat | RowUnboundedFollowing

record 'd range_offset =
  ro_off :: "'d Value"
  ro_interval :: bool

datatype 'd frame_value_bound =
    ValUnbounded | ValPreceding "'d range_offset" | ValCurrent | ValFollowing "'d range_offset" | ValUnboundedFollowing

datatype 'd frame_plan =
    FrameRows frame_row_bound frame_row_bound
  | FrameGroups frame_row_bound frame_row_bound
  | FrameRange "'d frame_value_bound" "'d frame_value_bound"

fun frame_row_rank :: "frame_row_bound \<Rightarrow> nat" where
  "frame_row_rank RowUnbounded = 0"
| "frame_row_rank (RowPreceding _) = 1"
| "frame_row_rank RowCurrent = 2"
| "frame_row_rank (RowFollowing _) = 3"
| "frame_row_rank RowUnboundedFollowing = 4"

fun frame_value_rank :: "'d frame_value_bound \<Rightarrow> nat" where
  "frame_value_rank ValUnbounded = 0"
| "frame_value_rank (ValPreceding _) = 1"
| "frame_value_rank ValCurrent = 2"
| "frame_value_rank (ValFollowing _) = 3"
| "frame_value_rank ValUnboundedFollowing = 4"

text \<open>The checks of \<open>parse_window_frame\<close> on the bounds it has read: whether the frame is refused.\<close>

definition rows_misplaced :: "frame_row_bound \<Rightarrow> frame_row_bound \<Rightarrow> bool" where
  "rows_misplaced s e \<longleftrightarrow>
     frame_row_rank s > frame_row_rank e \<or>
     (case (s, e) of
        (RowPreceding a, RowPreceding b) \<Rightarrow> a < b
      | (RowFollowing a, RowFollowing b) \<Rightarrow> a > b
      | _ \<Rightarrow> False)"

definition range_misplaced :: "'d decimal_ops \<Rightarrow> 'd frame_value_bound \<Rightarrow> 'd frame_value_bound \<Rightarrow> bool" where
  "range_misplaced D s e \<longleftrightarrow>
     frame_value_rank s > frame_value_rank e \<or>
     (case (s, e) of
        (ValPreceding a, ValPreceding b) \<Rightarrow> cmp_values D (ro_off a) (ro_off b) = Less
      | (ValFollowing a, ValFollowing b) \<Rightarrow> cmp_values D (ro_off a) (ro_off b) = Greater
      | _ \<Rightarrow> False)"

definition cmp_maybe_null :: "'d decimal_ops \<Rightarrow> 'd Value \<Rightarrow> 'd Value \<Rightarrow> bool option \<Rightarrow> ordering" where
  "cmp_maybe_null D a b nulls_first =
     (let nf = (case nulls_first of Some x \<Rightarrow> x | None \<Rightarrow> True)
      in if is_null a \<and> is_null b then Equal
         else if is_null a then (if nf then Less else Greater)
         else if is_null b then (if nf then Greater else Less)
         else cmp_values D a b)"

definition frame_offset_f64 :: "'d decimal_arith \<Rightarrow> 'd Value \<Rightarrow> sql_error + f64" where
  "frame_offset_f64 A off =
     (case off of
        Int64 k \<Rightarrow> Inr (f64_of_i64 k)
      | Float f \<Rightarrow> Inr f
      | Decimal d \<Rightarrow> Inr (case dec_f64 A d of Some f \<Rightarrow> f | None \<Rightarrow> f64_nan)
      | _ \<Rightarrow> Inl RangeOffsetNonNumeric)"

definition shift_range_key_value :: "'d decimal_ops \<Rightarrow> 'd decimal_arith \<Rightarrow> 'd Value \<Rightarrow> 'd Value \<Rightarrow> bool \<Rightarrow> sql_error + 'd Value option" where
  "shift_range_key_value D A key off up =
     (let by_float = (\<lambda>k. ebind (frame_offset_f64 A off) (\<lambda>f. Inr (Some (Float (if up then f64_add k f else f64_sub k f)))));
          by_decimal =
            ebind (to_decimal D A key) (\<lambda>a. ebind (to_decimal D A off) (\<lambda>b.
              Inr (map_option Decimal (if up then dec_add A a b else dec_sub A a b))))
      in case key of
           Null \<Rightarrow> Inr None
         | Float k \<Rightarrow> by_float k
         | Decimal _ \<Rightarrow> by_decimal
         | Int64 k \<Rightarrow>
             (case off of
                Int64 d \<Rightarrow> Inr (map_option Int64 (checked (if up then sint k + sint d else sint k - sint d)))
              | Float _ \<Rightarrow> by_float (f64_of_i64 k)
              | Decimal _ \<Rightarrow> by_decimal
              | _ \<Rightarrow> Inl RangeKey)
         | Timestamp t \<Rightarrow>
             (case off of
                Int64 d \<Rightarrow>
                  Inr (case checked (if up then sint t + sint d else sint t - sint d) of
                         Some ms \<Rightarrow> if is_valid_timestamp_ms ms then Some (Timestamp ms) else None
                       | None \<Rightarrow> None)
              | _ \<Rightarrow> Inl RangeKey)
         | _ \<Rightarrow> Inl RangeKey)"

definition shift_range_key :: "'d decimal_ops \<Rightarrow> 'd decimal_arith \<Rightarrow> 'd Value \<Rightarrow> 'd range_offset \<Rightarrow> bool \<Rightarrow> sql_error + 'd Value option" where
  "shift_range_key D A key off up =
     (if ro_interval off \<and> \<not> (is_stamp key \<or> is_null key) then Inl RangeIntervalKey
      else shift_range_key_value D A key (ro_off off) up)"

function key_search :: "(nat \<Rightarrow> bool) \<Rightarrow> nat \<Rightarrow> nat \<Rightarrow> nat" where
  "key_search P lo hi =
     (if lo < hi then
        (let mid = lo + (hi - lo) div 2 in if P mid then key_search P lo mid else key_search P (mid + 1) hi)
      else lo)"
  by auto
termination by (relation "measure (\<lambda>(_, lo, hi). hi - lo)") auto

declare key_search.simps [simp del]

text \<open>\<open>keys\<close> are the order keys of the sorted partition.\<close>

definition window_key_search :: "'d decimal_ops \<Rightarrow> 'd Value list list \<Rightarrow> 'd Value \<Rightarrow> bool option \<Rightarrow> bool \<Rightarrow> bool \<Rightarrow> nat" where
  "window_key_search D keys target nulls_first asc upper =
     key_search (\<lambda>i.
       (let ord = cmp_maybe_null D (keys ! i ! 0) target nulls_first
        in if upper then (if asc then ord = Greater else ord = Less)
           else if asc then ord \<noteq> Less else ord \<noteq> Greater)) 0 (length keys)"

definition rows_lo :: "frame_row_bound \<Rightarrow> nat \<Rightarrow> nat \<Rightarrow> nat" where
  "rows_lo s n p =
     (case s of
        RowUnbounded \<Rightarrow> 0
      | RowPreceding k \<Rightarrow> p - min k n
      | RowCurrent \<Rightarrow> p
      | RowFollowing k \<Rightarrow> p + min k n
      | RowUnboundedFollowing \<Rightarrow> n)"

definition rows_hi :: "frame_row_bound \<Rightarrow> nat \<Rightarrow> nat \<Rightarrow> nat" where
  "rows_hi e n p =
     (case e of
        RowUnbounded \<Rightarrow> 0
      | RowPreceding k \<Rightarrow> p - min k n
      | RowCurrent \<Rightarrow> p
      | RowFollowing k \<Rightarrow> min (p + min k n) (n - 1)
      | RowUnboundedFollowing \<Rightarrow> n - 1)"

definition groups_edge :: "frame_row_bound \<Rightarrow> nat \<Rightarrow> nat \<Rightarrow> nat" where
  "groups_edge b groups g =
     (case b of
        RowUnbounded \<Rightarrow> 0
      | RowPreceding k \<Rightarrow> g - k
      | RowCurrent \<Rightarrow> g
      | RowFollowing k \<Rightarrow> min (g + k) (groups - 1)
      | RowUnboundedFollowing \<Rightarrow> groups - 1)"

text \<open>One row of a RANGE frame; \<open>None\<close> for a bound value is an unbounded side.\<close>

definition bound_value :: "'d decimal_ops \<Rightarrow> 'd decimal_arith \<Rightarrow> bool \<Rightarrow> 'd Value \<Rightarrow> 'd frame_value_bound \<Rightarrow> sql_error + 'd Value option" where
  "bound_value D A asc key b =
     (case b of
        ValUnbounded \<Rightarrow> Inr None
      | ValUnboundedFollowing \<Rightarrow> Inr None
      | ValCurrent \<Rightarrow> Inr (Some key)
      | ValPreceding v \<Rightarrow> shift_range_key D A key v (\<not> asc)
      | ValFollowing v \<Rightarrow> shift_range_key D A key v asc)"

definition range_row :: "'d decimal_ops \<Rightarrow> 'd decimal_arith \<Rightarrow> 'd frame_value_bound \<Rightarrow> 'd frame_value_bound \<Rightarrow> 'd Value list list \<Rightarrow> bool option \<Rightarrow> bool \<Rightarrow> nat \<Rightarrow> sql_error + nat \<times> nat" where
  "range_row D A s e keys nf asc p =
     (let key = keys ! p ! 0; n = length keys
      in if is_null key then
           Inr (window_key_search D keys key nf asc False, window_key_search D keys key nf asc True - 1)
         else
           ebind (if asc then bound_value D A asc key s else bound_value D A asc key e) (\<lambda>lo_v.
             ebind (if asc then bound_value D A asc key e else bound_value D A asc key s) (\<lambda>hi_v.
               (let near = (if asc then lo_v else hi_v);
                    far = (if asc then hi_v else lo_v);
                    lo = (case near of None \<Rightarrow> 0 | Some t \<Rightarrow> window_key_search D keys t nf asc False);
                    hi = (case far of None \<Rightarrow> n - 1 | Some t \<Rightarrow> window_key_search D keys t nf asc True)
                in Inr (if hi = 0 then (max lo 1, 0) else (lo, hi - 1))))))"

fun emap :: "('a \<Rightarrow> 'e + 'b) \<Rightarrow> 'a list \<Rightarrow> 'e + 'b list" where
  "emap f [] = Inr []"
| "emap f (x # xs) = ebind (f x) (\<lambda>y. ebind (emap f xs) (\<lambda>ys. Inr (y # ys)))"

text \<open>\<open>order\<close> holds the NULLS FIRST and ASC options of the ORDER BY keys, \<open>spans\<close> and \<open>group_of\<close> the peer groups.\<close>

definition frame_bounds :: "'d decimal_ops \<Rightarrow> 'd decimal_arith \<Rightarrow> 'd frame_plan \<Rightarrow> 'd Value list list \<Rightarrow> (bool option \<times> bool option) list \<Rightarrow> (nat \<times> nat) list \<Rightarrow> nat list \<Rightarrow> nat \<Rightarrow> sql_error + (nat \<times> nat) list" where
  "frame_bounds D A plan keys order spans group_of n =
     (case plan of
        FrameRows s e \<Rightarrow> Inr (map (\<lambda>p. (rows_lo s n p, rows_hi e n p)) [0..<n])
      | FrameGroups s e \<Rightarrow>
          Inr (map (\<lambda>p.
            (let g = group_of ! p; groups = length spans;
                 g_lo = groups_edge s groups g; g_hi = groups_edge e groups g
             in (fst (spans ! g_lo), snd (spans ! g_hi)))) [0..<n])
      | FrameRange s e \<Rightarrow>
          (case order of
             [] \<Rightarrow> Inr (replicate n (0, n - 1))
           | (nf, asc) # _ \<Rightarrow> emap (range_row D A s e keys nf (case asc of Some a \<Rightarrow> a | None \<Rightarrow> True)) [0..<n]))"

section \<open>Peer runs\<close>

definition peers :: "'d decimal_ops \<Rightarrow> (bool option \<times> bool option) list \<Rightarrow> 'd Value list \<Rightarrow> 'd Value list \<Rightarrow> bool" where
  "peers D order ka kb \<longleftrightarrow> list_all (\<lambda>((o1, a), b). cmp_maybe_null D a b (fst o1) = Equal) (zip (zip order ka) kb)"

text \<open>The last position of the run that starts at \<open>p\<close>: how many of the keys after it are its peers.\<close>

definition run_last :: "'d decimal_ops \<Rightarrow> (bool option \<times> bool option) list \<Rightarrow> 'd Value list list \<Rightarrow> nat \<Rightarrow> nat" where
  "run_last D order keys p = p + length (takeWhile (peers D order (keys ! p)) (drop (p + 1) keys))"

function spans_from :: "'d decimal_ops \<Rightarrow> (bool option \<times> bool option) list \<Rightarrow> 'd Value list list \<Rightarrow> nat \<Rightarrow> (nat \<times> nat) list" where
  "spans_from D order keys p =
     (if p < length keys then (p, run_last D order keys p) # spans_from D order keys (run_last D order keys p + 1) else [])"
  by auto
termination by (relation "measure (\<lambda>(_, _, keys, p). length keys - p)") (auto simp: run_last_def)

declare spans_from.simps [simp del]

definition group_spans :: "'d decimal_ops \<Rightarrow> (bool option \<times> bool option) list \<Rightarrow> 'd Value list list \<Rightarrow> (nat \<times> nat) list" where
  "group_spans D order keys = (if order = [] then map (\<lambda>i. (i, i)) [0..<length keys] else spans_from D order keys 0)"

definition group_index :: "(nat \<times> nat) list \<Rightarrow> nat list" where
  "group_index spans = concat (map (\<lambda>(g, p, q). replicate (q + 1 - p) g) (zip [0..<length spans] spans))"

definition run_ends :: "'d decimal_ops \<Rightarrow> (bool option \<times> bool option) list \<Rightarrow> 'd Value list list \<Rightarrow> nat list" where
  "run_ends D order keys =
     (if order = [] then replicate (length keys) (length keys - 1)
      else concat (map (\<lambda>(p, q). replicate (q + 1 - p) q) (spans_from D order keys 0)))"

section \<open>The frame loop\<close>

definition frame_slice :: "'a list \<Rightarrow> nat \<Rightarrow> nat \<Rightarrow> 'a list" where
  "frame_slice xs lo hi = take (hi + 1 - lo) (drop lo xs)"

fun slide_rows :: "'d decimal_ops \<Rightarrow> 'd decimal_arith \<Rightarrow> 'd value_text \<Rightarrow> agg_op \<Rightarrow> bytes option \<Rightarrow> bool \<Rightarrow> 'd row list \<Rightarrow> (nat \<times> nat) list \<Rightarrow> 'd sliding_agg \<Rightarrow> nat \<Rightarrow> sql_error + 'd Value list" where
  "slide_rows D A X op sep cs rows [] W nxt = Inr []"
| "slide_rows D A X op sep cs rows ((lo, hi) # bs) W nxt =
     (if hi < lo \<or> sw_degraded W then
        ebind (fold_slice D A X op sep False cs (frame_slice rows lo hi)) (\<lambda>v.
          ebind (slide_rows D A X op sep cs rows bs W nxt) (\<lambda>vs. Inr (v # vs)))
      else
        ebind (efold (slide_push D A) W (map (\<lambda>p. (p, rows ! p)) [nxt..<hi + 1])) (\<lambda>W.
          (let W = pop_to D A lo W
           in ebind (if sw_degraded W then fold_slice D A X op sep False cs (frame_slice rows lo hi) else Inr (slide_value D A W)) (\<lambda>v.
                ebind (slide_rows D A X op sep cs rows bs W (max nxt (hi + 1))) (\<lambda>vs. Inr (v # vs))))))"

text \<open>The default frame: the running aggregate at the end of each peer run.\<close>

fun run_rows :: "'d decimal_ops \<Rightarrow> 'd decimal_arith \<Rightarrow> 'd value_text \<Rightarrow> 'd row list \<Rightarrow> (nat \<times> nat) list \<Rightarrow> 'd running_agg \<Rightarrow> sql_error + 'd Value list" where
  "run_rows D A X rows [] R = Inr []"
| "run_rows D A X rows ((p, q) # spans) R =
     ebind (efold (push_row D A X) R (frame_slice rows p q)) (\<lambda>R.
       ebind (run_rows D A X rows spans R) (\<lambda>vs. Inr (replicate (q + 1 - p) (agg_snapshot D A R) @ vs)))"

text \<open>An aggregate over the frames of one partition; the values in sorted order.\<close>

definition window_agg :: "'d decimal_ops \<Rightarrow> 'd decimal_arith \<Rightarrow> 'd value_text \<Rightarrow> agg_op \<Rightarrow> bytes option \<Rightarrow> bool \<Rightarrow> bool \<Rightarrow> 'd frame_plan option \<Rightarrow> 'd Value list list \<Rightarrow> (bool option \<times> bool option) list \<Rightarrow> 'd row list \<Rightarrow> sql_error + 'd Value list" where
  "window_agg D A X op sep dst cs plan keys order rows =
     (let n = length rows; spans = group_spans D order keys
      in case plan of
           None \<Rightarrow>
             run_rows D A X rows (if order = [] then [(0, n - 1)] else spans) (running_new A op sep dst cs)
         | Some plan \<Rightarrow>
             ebind (frame_bounds D A plan keys order spans (group_index spans) n) (\<lambda>bounds.
               if op \<noteq> AggConcat \<and> \<not> dst then slide_rows D A X op sep cs rows bounds (sliding_new A op cs) 0
               else emap (\<lambda>(lo, hi). fold_slice D A X op sep dst cs (frame_slice rows lo hi)) bounds))"

end
