(* ===== verification/Window_Props.thy ===== *)
theory Window_Props
  imports Window
begin

text \<open>
  The running aggregate against the batch aggregate: folding the rows of a frame and taking the snapshot gives
  what \<open>eval_agg\<close> computes over the same rows, and fails exactly when it fails. The argument is the contract of a
  loop with an early exit, stated once as a locale.
\<close>

section \<open>Loops with an early exit\<close>

locale early_exit =
  fixes body :: "'s \<Rightarrow> 'a \<Rightarrow> 'e + 's" and tracks :: "'s \<Rightarrow> 'a list \<Rightarrow> bool" and bad :: "'a list \<Rightarrow> bool" and ok :: "'a \<Rightarrow> bool"
  assumes body_ok: "tracks s xs \<Longrightarrow> ok x \<Longrightarrow> body s x = Inr s' \<Longrightarrow> tracks s' (xs @ [x])"
    and body_bad: "tracks s xs \<Longrightarrow> ok x \<Longrightarrow> body s x = Inl e \<Longrightarrow> bad (xs @ [x])"
    and bad_stays: "bad xs \<Longrightarrow> bad (xs @ [x])"
begin

lemma bad_append: "bad xs \<Longrightarrow> bad (xs @ ys)"
proof (induction ys rule: rev_induct)
  case (snoc y ys)
  then show ?case using bad_stays [of "xs @ ys" y] by simp
qed simp

lemma loop: "tracks s xs \<Longrightarrow> list_all ok ys \<Longrightarrow>
  (case efold body s ys of Inr s' \<Rightarrow> tracks s' (xs @ ys) | Inl _ \<Rightarrow> bad (xs @ ys))"
proof (induction ys arbitrary: s xs)
  case (Cons y ys)
  show ?case
  proof (cases "body s y")
    case (Inl e)
    then have "bad (xs @ [y])" using body_bad Cons.prems by auto
    then show ?thesis using bad_append [of "xs @ [y]" ys] Inl by simp
  next
    case (Inr s')
    then have "tracks s' (xs @ [y])" using body_ok Cons.prems by auto
    from Cons.IH [OF this] show ?thesis using Inr Cons.prems by (simp split: sum.splits)
  qed
qed simp

end

lemma efold_append: "efold f s (xs @ ys) = ebind (efold f s xs) (\<lambda>s. efold f s ys)"
  by (induction xs arbitrary: s) (simp_all add: ebind_assoc)

lemma efold_fails: "x \<in> set xs \<Longrightarrow> (\<And>s. \<exists>e. f s x = Inl e) \<Longrightarrow> \<exists>e. efold f s xs = Inl e"
proof (induction xs arbitrary: s)
  case (Cons y xs)
  then show ?case
  proof (cases "f s y")
    case (Inr s')
    then have "x \<noteq> y" using Cons.prems(2) [of s] by auto
    then show ?thesis using Cons Inr by auto
  qed simp
qed simp

section \<open>What the running state stands for\<close>

definition agg_vals :: "'d decimal_ops \<Rightarrow> bool \<Rightarrow> 'd row list \<Rightarrow> 'd Value list" where
  "agg_vals D dst rows =
     (let vals = row_values (kept_rows rows) in if dst then retain_new (value_key D) {} vals else vals)"

definition avg_core :: "'d decimal_ops \<Rightarrow> 'd decimal_arith \<Rightarrow> 'd Value list \<Rightarrow> sql_error + unit" where
  "avg_core D A vals =
     (if list_ex is_dec vals then ebind (efold (dec_total D A) (dec_zero A) vals) (\<lambda>_. Inr ())
      else ebind (efold float_total 0 vals) (\<lambda>_. Inr ()))"

fun vals_bad :: "'d decimal_ops \<Rightarrow> 'd decimal_arith \<Rightarrow> agg_op \<Rightarrow> 'd Value list \<Rightarrow> bool" where
  "vals_bad D A AggSum vals \<longleftrightarrow> (\<exists>e. efold (add_values D A) (Int64 0) vals = Inl e)"
| "vals_bad D A AggAvg vals \<longleftrightarrow> (\<exists>e. avg_core D A vals = Inl e)"
| "vals_bad D A _ vals \<longleftrightarrow> False"

definition avg_tracks :: "'d decimal_ops \<Rightarrow> 'd decimal_arith \<Rightarrow> 'd running_agg \<Rightarrow> 'd Value list \<Rightarrow> bool" where
  "avg_tracks D A R vals \<longleftrightarrow>
     (if list_ex is_dec vals then ra_dec_mode R \<and> efold (dec_total D A) (dec_zero A) vals = Inr (ra_dec R)
      else \<not> ra_dec_mode R \<and> ra_vals R = vals \<and> efold float_total 0 vals = Inr (ra_f64 R))"

fun vals_tracked :: "'d decimal_ops \<Rightarrow> 'd decimal_arith \<Rightarrow> 'd value_text \<Rightarrow> agg_op \<Rightarrow> 'd running_agg \<Rightarrow> 'd Value list \<Rightarrow> bool" where
  "vals_tracked D A X AggCount R vals \<longleftrightarrow> True"
| "vals_tracked D A X AggSum R vals \<longleftrightarrow>
     (if vals = [] then ra_sum R = None else \<exists>s. ra_sum R = Some s \<and> efold (add_values D A) (Int64 0) vals = Inr s)"
| "vals_tracked D A X AggAvg R vals \<longleftrightarrow> avg_tracks D A R vals"
| "vals_tracked D A X AggMin R vals \<longleftrightarrow> ra_min R = reduce (keep_min D) vals"
| "vals_tracked D A X AggMax R vals \<longleftrightarrow> ra_max R = reduce (keep_max D) vals"
| "vals_tracked D A X AggConcat R vals \<longleftrightarrow>
     ra_concat_any R = (vals \<noteq> []) \<and> ra_concat R = join (separator (ra_sep R)) (map (value_to_text X) vals)"

lemma reduce_snoc: "reduce f (xs @ [x]) = Some (case reduce f xs of None \<Rightarrow> x | Some m \<Rightarrow> f m x)"
  by (cases xs) simp_all

lemma join_snoc: "join sep (xs @ [x]) = (if xs = [] then x else join sep xs @ sep @ x)"
  by (induction sep xs rule: join.induct) simp_all

lemma float_total_fails: "efold float_total s vals = Inl e \<Longrightarrow> \<exists>v \<in> set vals. \<forall>s. \<exists>e. dec_total D A s v = Inl e \<or> is_dec v"
proof (induction vals arbitrary: s)
  case (Cons v vals)
  then show ?case by (cases v) (auto simp: float_total_def dec_total_def to_decimal_def)
qed simp

lemma avg_bad_stays: "\<exists>e. avg_core D A vals = Inl e \<Longrightarrow> \<exists>e. avg_core D A (vals @ [v]) = Inl e"
proof -
  assume bad: "\<exists>e. avg_core D A vals = Inl e"
  show ?thesis
  proof (cases "list_ex is_dec vals")
    case True
    then show ?thesis using bad by (auto simp: avg_core_def efold_append ebind_eq_Inl)
  next
    case False
    then obtain e where e: "efold float_total 0 vals = Inl e" using bad by (auto simp: avg_core_def ebind_eq_Inl)
    show ?thesis
    proof (cases "is_dec v")
      case True
      obtain w where w: "w \<in> set vals" "\<forall>s. \<exists>e. dec_total D A s w = Inl e \<or> is_dec w" using float_total_fails [OF e] by blast
      then have "\<not> is_dec w" using False by (auto simp: list_ex_iff)
      then have "\<exists>e. efold (dec_total D A) (dec_zero A) vals = Inl e" using w efold_fails [OF w(1), of "dec_total D A"] by blast
      then show ?thesis using True by (auto simp: avg_core_def efold_append)
    next
      case no: False
      then show ?thesis using False e by (auto simp: avg_core_def efold_append)
    qed
  qed
qed

lemma push_avg_tracks:
  assumes t: "avg_tracks D A R vals"
  shows "case push_avg D A R v of Inr R' \<Rightarrow> avg_tracks D A R' (vals @ [v]) | Inl _ \<Rightarrow> \<exists>e. avg_core D A (vals @ [v]) = Inl e"
proof (cases "list_ex is_dec vals")
  case True
  then have m: "ra_dec_mode R" "efold (dec_total D A) (dec_zero A) vals = Inr (ra_dec R)" using t by (auto simp: avg_tracks_def)
  then show ?thesis
    using True by (cases "dec_total D A (ra_dec R) v") (auto simp: push_avg_def avg_tracks_def avg_core_def efold_append)
next
  case False
  then have m: "\<not> ra_dec_mode R" "ra_vals R = vals" "efold float_total 0 vals = Inr (ra_f64 R)" using t by (auto simp: avg_tracks_def)
  show ?thesis
  proof (cases "is_dec v")
    case True
    then show ?thesis
      using m by (cases "efold (dec_total D A) (dec_zero A) vals") (auto simp: push_avg_def avg_tracks_def avg_core_def efold_append ebind_def split: sum.splits)
  next
    case no: False
    then show ?thesis
      using m False by (cases "float_total (ra_f64 R) v") (auto simp: push_avg_def avg_tracks_def avg_core_def efold_append)
  qed
qed

text \<open>What pushing a value leaves alone.\<close>

definition same_frame :: "'d running_agg \<Rightarrow> 'd running_agg \<Rightarrow> bool" where
  "same_frame R R' \<longleftrightarrow>
     ra_op R' = ra_op R \<and> ra_sep R' = ra_sep R \<and> ra_distinct R' = ra_distinct R \<and> ra_seen R' = ra_seen R \<and>
     ra_count_star R' = ra_count_star R \<and> ra_kept R' = ra_kept R \<and> ra_nonnull R' = ra_nonnull R"

lemma push_val_frame: "push_val D A X R v = Inr R' \<Longrightarrow> same_frame R R'"
  by (cases "ra_op R")
    (auto simp: push_val_def push_avg_def same_frame_def result_simps split: if_splits option.splits)

lemma push_val_tracks:
  assumes t: "vals_tracked D A X op R vals" and op: "ra_op R = op"
  shows "case push_val D A X R v of Inr R' \<Rightarrow> vals_tracked D A X op R' (vals @ [v]) | Inl _ \<Rightarrow> vals_bad D A op (vals @ [v])"
proof (cases op)
  case AggSum
  define s where "s = (case ra_sum R of None \<Rightarrow> Int64 0 | Some s \<Rightarrow> s)"
  have "efold (add_values D A) (Int64 0) vals = Inr s" using t AggSum by (auto simp: s_def split: if_splits)
  then show ?thesis
    using AggSum op by (cases "add_values D A s v") (auto simp: push_val_def s_def [symmetric] efold_append)
next
  case AggAvg
  then show ?thesis using push_avg_tracks [of D A R vals v] t op by (simp add: push_val_def split: sum.splits)
next
  case AggMin
  then show ?thesis using t op by (auto simp: push_val_def reduce_snoc keep_min_def split: option.splits)
next
  case AggMax
  then show ?thesis using t op by (auto simp: push_val_def reduce_snoc keep_max_def split: option.splits)
next
  case AggConcat
  then show ?thesis using t op by (auto simp: push_val_def join_snoc)
qed (simp_all add: push_val_def op)

section \<open>Rows\<close>

definition running_tracks :: "'d decimal_ops \<Rightarrow> 'd decimal_arith \<Rightarrow> 'd value_text \<Rightarrow> agg_op \<Rightarrow> bytes option \<Rightarrow> bool \<Rightarrow> bool \<Rightarrow> 'd running_agg \<Rightarrow> 'd row list \<Rightarrow> bool" where
  "running_tracks D A X op sep dst cs R rows \<longleftrightarrow>
     ra_op R = op \<and> ra_sep R = sep \<and> ra_distinct R = dst \<and> ra_count_star R = cs \<and>
     ra_kept R = length (kept_rows rows) \<and> ra_nonnull R = length (agg_vals D dst rows) \<and>
     (dst \<longrightarrow> ra_seen R = value_key D ` set (row_values (kept_rows rows))) \<and> vals_tracked D A X op R (agg_vals D dst rows)"

text \<open>A row as the frame loop builds it: the argument is evaluated on kept rows only, and its values encode.\<close>

definition row_ok :: "'d decimal_ops \<Rightarrow> 'd row \<Rightarrow> bool" where
  "row_ok D = (\<lambda>(kept, a). (case a of None \<Rightarrow> True | Some v \<Rightarrow> kept \<and> (\<exists>b. encode_to_vec D v = Inr b)))"

lemma retain_new_snoc:
  "retain_new key S (xs @ [x]) = retain_new key S xs @ (if key x \<in> S \<union> key ` set xs then [] else [x])"
  by (induction xs arbitrary: S) auto

lemma agg_vals_snoc:
  "agg_vals D dst (rows @ [(kept, a)]) = agg_vals D dst rows @
    (case a of Some v \<Rightarrow> if kept \<and> \<not> is_null v \<and> \<not> (dst \<and> value_key D v \<in> value_key D ` set (row_values (kept_rows rows))) then [v] else []
     | None \<Rightarrow> [])"
  by (cases a) (auto simp: agg_vals_def row_values_def kept_rows_def Let_def retain_new_snoc)

lemma row_values_snoc:
  "row_values (kept_rows (rows @ [(kept, a)])) = row_values (kept_rows rows) @ (case a of Some v \<Rightarrow> if kept \<and> \<not> is_null v then [v] else [] | None \<Rightarrow> [])"
  by (cases a) (auto simp: row_values_def kept_rows_def)

lemma kept_rows_snoc: "length (kept_rows (rows @ [(kept, a)])) = length (kept_rows rows) + of_bool kept"
  by (simp add: kept_rows_def)

lemma value_key_ok: "encode_to_vec D v = Inr b \<Longrightarrow> value_key D v = b"
  by (simp add: value_key_def)

lemma vals_tracked_frame: "vals_tracked D A X op (R\<lparr>ra_kept := k, ra_seen := s, ra_nonnull := m\<rparr>) vals = vals_tracked D A X op R vals"
  by (cases op) (simp_all add: avg_tracks_def)

lemma push_row_skip: "push_row D A X R (kept, a) = Inr (if kept then R\<lparr>ra_kept := ra_kept R + 1\<rparr> else R)"
  if "case a of None \<Rightarrow> True | Some v \<Rightarrow> is_null v \<or> ra_distinct R \<and> (\<exists>b \<in> ra_seen R. encode_to_vec D v = Inr b)"
  using that by (auto simp: push_row_def Let_def split: option.splits)

lemma push_row_take:
  assumes "encode_to_vec D v = Inr b" and "\<not> is_null v" and "ra_distinct R \<longrightarrow> b \<notin> ra_seen R"
  shows "push_row D A X R (True, Some v) =
    push_val D A X (R\<lparr>ra_kept := ra_kept R + 1, ra_seen := (if ra_distinct R then insert b (ra_seen R) else ra_seen R), ra_nonnull := ra_nonnull R + 1\<rparr>) v"
  using assms by (auto simp: push_row_def Let_def)

lemma push_row_tracks:
  assumes t: "running_tracks D A X op sep dst cs R rows" and ok: "row_ok D row"
  shows "case push_row D A X R row of Inr R' \<Rightarrow> running_tracks D A X op sep dst cs R' (rows @ [row]) | Inl _ \<Rightarrow> vals_bad D A op (agg_vals D dst (rows @ [row]))"
proof -
  obtain kept a where row: "row = (kept, a)" by fastforce
  show ?thesis
  proof (cases "case a of None \<Rightarrow> True | Some v \<Rightarrow> is_null v \<or> ra_distinct R \<and> (\<exists>b \<in> ra_seen R. encode_to_vec D v = Inr b)")
    case True
    have v: "vals_tracked D A X op (R\<lparr>ra_kept := ra_kept R + 1\<rparr>) vals = vals_tracked D A X op R vals" for vals
      by (cases op) (simp_all add: avg_tracks_def)
    have "agg_vals D dst (rows @ [row]) = agg_vals D dst rows"
      using True t ok by (auto simp: row agg_vals_snoc running_tracks_def dest: value_key_ok split: option.splits)
    moreover have "dst \<Longrightarrow> value_key D ` set (row_values (kept_rows (rows @ [row]))) = value_key D ` set (row_values (kept_rows rows))"
      using True t ok by (auto simp: row row_values_snoc running_tracks_def dest: value_key_ok split: option.splits)
    ultimately show ?thesis
      using t v by (auto simp: row push_row_skip [OF True] running_tracks_def kept_rows_snoc)
  next
    case False
    then obtain v where v: "a = Some v" "\<not> is_null v" by (auto split: option.splits)
    then obtain b where b: "kept" "encode_to_vec D v = Inr b" using ok by (auto simp: row row_ok_def)
    have new: "ra_distinct R \<longrightarrow> b \<notin> ra_seen R" using False v b by auto
    define R1 where "R1 = R\<lparr>ra_kept := ra_kept R + 1, ra_seen := (if ra_distinct R then insert b (ra_seen R) else ra_seen R), ra_nonnull := ra_nonnull R + 1\<rparr>"
    have k: "value_key D v = b" using b by (simp add: value_key_def)
    have vals: "agg_vals D dst (rows @ [row]) = agg_vals D dst rows @ [v]"
      using t new v b k by (auto simp: row agg_vals_snoc running_tracks_def)
    have p: "push_row D A X R row = push_val D A X R1 v" using push_row_take [OF b(2) v(2) new] by (simp add: row v b R1_def)
    have "vals_tracked D A X op R1 (agg_vals D dst rows)" "ra_op R1 = op"
      using t by (simp_all add: R1_def vals_tracked_frame running_tracks_def)
    note s = push_val_tracks [OF this, of v]
    show ?thesis
    proof (cases "push_val D A X R1 v")
      case (Inl e)
      then show ?thesis using s by (simp add: p vals)
    next
      case (Inr R')
      then have f: "same_frame R1 R'" by (rule push_val_frame)
      have "vals_tracked D A X op R' (agg_vals D dst (rows @ [row]))" using s Inr by (simp add: vals)
      moreover have "row_values (kept_rows (rows @ [row])) = row_values (kept_rows rows) @ [v]" "length (kept_rows (rows @ [row])) = length (kept_rows rows) + 1"
        using v b by (simp_all add: row row_values_snoc kept_rows_snoc)
      ultimately have "running_tracks D A X op sep dst cs R' (rows @ [row])"
        using f t k by (simp add: running_tracks_def same_frame_def R1_def vals)
      then show ?thesis by (simp add: p Inr)
    qed
  qed
qed

interpretation running: early_exit "push_row D A X" "running_tracks D A X op sep dst cs" "\<lambda>rows. vals_bad D A op (agg_vals D dst rows)" "row_ok D"
proof
  fix R rows row R' e
  assume "running_tracks D A X op sep dst cs R rows" "row_ok D row"
  note t = push_row_tracks [OF this]
  show "push_row D A X R row = Inr R' \<Longrightarrow> running_tracks D A X op sep dst cs R' (rows @ [row])" using t by simp
  show "push_row D A X R row = Inl e \<Longrightarrow> vals_bad D A op (agg_vals D dst (rows @ [row]))" using t by simp
next
  fix rows and row :: "bool \<times> 'a Value option"
  assume "vals_bad D A op (agg_vals D dst rows)"
  moreover have "vals_bad D A op vals \<Longrightarrow> vals_bad D A op (vals @ [v])" for vals v
    by (cases op) (auto simp: efold_append avg_bad_stays)
  ultimately show "vals_bad D A op (agg_vals D dst (rows @ [row]))"
    by (cases row) (auto simp: agg_vals_snoc split: option.splits)
qed

lemma running_tracks_new: "running_tracks D A X op sep dst cs (running_new A op sep dst cs) []"
  by (cases op) (simp_all add: running_tracks_def running_new_def agg_vals_def row_values_def kept_rows_def avg_tracks_def)

section \<open>Against the batch\<close>

definition ok_value :: "'e + 'a \<Rightarrow> 'a option" where
  "ok_value r = (case r of Inr x \<Rightarrow> Some x | Inl _ \<Rightarrow> None)"

lemma eval_agg_vals:
  "eval_agg D A X op sep dst cs rows =
    (let vals = agg_vals D dst rows
     in case op of
          AggCount \<Rightarrow> Inr (Int64 (word_of_nat (if cs then length (kept_rows rows) else length vals)))
        | AggSum \<Rightarrow> if vals = [] then Inr Null else efold (add_values D A) (Int64 0) vals
        | AggAvg \<Rightarrow>
            if vals = [] then Inr Null
            else if list_ex is_dec vals then
              ebind (efold (dec_total D A) (dec_zero A) vals) (\<lambda>acc.
                Inr (or_null Decimal (dec_div A acc (dec_from D (word_of_nat (length vals))))))
            else
              ebind (efold float_total 0 vals) (\<lambda>acc. Inr (Float (f64_div acc (f64_of_i64 (word_of_nat (length vals))))))
        | AggMin \<Rightarrow> Inr (or_null id (reduce (keep_min D) vals))
        | AggMax \<Rightarrow> Inr (or_null id (reduce (keep_max D) vals))
        | AggConcat \<Rightarrow> Inr (if vals = [] then Null else Str (join (separator sep) (map (value_to_text X) vals))))"
  unfolding eval_agg_def agg_vals_def Let_def by (rule agg_op.case_cong) simp_all

lemma eval_agg_bad: "vals_bad D A op (agg_vals D dst rows) \<Longrightarrow> \<exists>e. eval_agg D A X op sep dst cs rows = Inl e"
  unfolding eval_agg_vals Let_def
  by (cases op) (auto simp: avg_core_def ebind_eq_Inl split: if_splits)

lemma eval_agg_tracks:
  assumes "running_tracks D A X op sep dst cs R rows"
  shows "eval_agg D A X op sep dst cs rows = Inr (agg_snapshot D A R)"
proof -
  define vals where "vals = agg_vals D dst rows"
  have t: "vals_tracked D A X op R vals" "ra_op R = op" "ra_sep R = sep" "ra_count_star R = cs" "ra_nonnull R = length vals"
    "ra_kept R = length (kept_rows rows)" using assms by (simp_all add: running_tracks_def vals_def)
  show ?thesis unfolding eval_agg_vals vals_def [symmetric] agg_snapshot_def Let_def t(2-6)
    using t(1,3) by (cases op) (auto simp: avg_tracks_def or_null_def split: if_splits)
qed

lemma fold_slice_batch:
  assumes "list_all (row_ok D) rows"
  shows "ok_value (fold_slice D A X op sep dst cs rows) = ok_value (eval_agg D A X op sep dst cs rows)"
proof (cases "efold (push_row D A X) (running_new A op sep dst cs) rows")
  case (Inl e)
  then have "vals_bad D A op (agg_vals D dst rows)" using running.loop [OF running_tracks_new [of D A X op sep dst cs] assms] by simp
  from eval_agg_bad [OF this, of X sep cs] show ?thesis using Inl by (auto simp: fold_slice_def ok_value_def)
next
  case (Inr R)
  then have "running_tracks D A X op sep dst cs R rows" using running.loop [OF running_tracks_new [of D A X op sep dst cs] assms] by simp
  from eval_agg_tracks [OF this] show ?thesis using Inr by (simp add: fold_slice_def ok_value_def)
qed

end
