(* ===== verification/Window_Slide.thy ===== *)
theory Window_Slide
  imports Window_Frame Window_Props
begin

text \<open>
  The sliding aggregate for COUNT, MIN and MAX: after any pushes and retractions along frames that only move
  forward, its value is the batch aggregate of the frame. The candidate deque of MIN and MAX is treated once for
  any order, as a locale over the test that discards candidates.
\<close>

section \<open>The candidate deque\<close>

locale candidate_order =
  fixes beats :: "'v \<Rightarrow> 'v \<Rightarrow> bool" and V :: "'v set"
  assumes not_beats_trans: "\<lbrakk>a \<in> V; b \<in> V; c \<in> V; \<not> beats b a; \<not> beats c b\<rbrakk> \<Longrightarrow> \<not> beats c a"
begin

text \<open>\<open>beats w v\<close>: the later value \<open>w\<close> discards the candidate \<open>v\<close>. What is left is beaten by nothing after it.\<close>

fun candidates :: "('p \<times> 'v) list \<Rightarrow> ('p \<times> 'v) list" where
  "candidates [] = []"
| "candidates ((p, v) # xs) = (if list_ex (\<lambda>(_, w). beats w v) xs then candidates xs else (p, v) # candidates xs)"

lemma candidates_subset: "set (candidates xs) \<subseteq> set xs"
  by (induction xs rule: candidates.induct) auto

lemma candidates_snoc: "candidates (xs @ [(p, w)]) = filter (\<lambda>(_, v). \<not> beats w v) (candidates xs) @ [(p, w)]"
  by (induction xs rule: candidates.induct) auto

lemma candidates_sorted: "sorted_wrt (\<lambda>(_, v) (_, w). \<not> beats w v) (candidates xs)"
proof (induction xs rule: candidates.induct)
  case (2 p v xs)
  then show ?case using candidates_subset [of xs] by (auto simp: list_ex_iff)
qed simp

lemma filter_sorted:
  assumes "sorted_wrt (\<lambda>(_, v) (_, w). \<not> beats w v) cs" and "snd ` set cs \<subseteq> V" and "w \<in> V"
  shows "filter (\<lambda>(_, v). \<not> beats w v) cs = drop_back (\<lambda>(_, v). beats w v) cs"
  using assms
proof (induction cs rule: rev_induct)
  case Nil
  then show ?case by (simp add: drop_back_def)
next
  case (snoc x cs)
  obtain p b where x: "x = (p, b)" by fastforce
  show ?case
  proof (cases "beats w b")
    case True
    then show ?thesis using snoc by (simp add: drop_back_def x sorted_wrt_append)
  next
    case False
    have "\<not> beats w v" if "(q, v) \<in> set cs" for q v
      using not_beats_trans [of v b w] snoc.prems that False x by (force simp: sorted_wrt_append)
    then have "filter (\<lambda>(_, v). \<not> beats w v) cs = cs" by (auto simp: filter_id_conv)
    then show ?thesis using False by (simp add: drop_back_def x)
  qed
qed

lemma candidates_push:
  assumes "snd ` set xs \<subseteq> V" and "w \<in> V"
  shows "candidates (xs @ [(p, w)]) = drop_back (\<lambda>(_, v). beats w v) (candidates xs) @ [(p, w)]"
proof -
  have "snd ` set (candidates xs) \<subseteq> V" using candidates_subset [of xs] assms(1) by auto
  then show ?thesis using filter_sorted [OF candidates_sorted _ assms(2)] by (simp add: candidates_snoc)
qed

lemma candidates_pop:
  assumes "p \<notin> fst ` set xs"
  shows "candidates xs =
    (case candidates ((p, v) # xs) of (q, _) # rest \<Rightarrow> if q = p then rest else candidates ((p, v) # xs) | [] \<Rightarrow> [])"
proof (cases "list_ex (\<lambda>(_, w). beats w v) xs")
  case True
  moreover have "fst (hd (candidates xs)) \<noteq> p" if "candidates xs \<noteq> []"
    using that assms candidates_subset [of xs] hd_in_set [OF that] by force
  ultimately show ?thesis by (cases "candidates xs") auto
qed simp

text \<open>The first candidate is what a left-to-right reduction keeps.\<close>

lemma candidates_front:
  assumes "snd ` set xs \<subseteq> V" and "\<And>a b. keep a b = (if beats b a then b else a)"
  shows "reduce keep (map snd xs) = (case candidates xs of (_, v) # _ \<Rightarrow> Some v | [] \<Rightarrow> None)"
  using assms(1)
proof (induction xs rule: rev_induct)
  case (snoc x xs)
  obtain p w where x: "x = (p, w)" by fastforce
  show ?case
  proof (cases "candidates xs")
    case Nil
    then have "xs = []" using candidates_snoc [of "butlast xs" "fst (last xs)" "snd (last xs)"] by (cases xs rule: rev_cases) auto
    then show ?thesis using x by simp
  next
    case (Cons c cs)
    obtain q v where c: "c = (q, v)" by fastforce
    have IH: "reduce keep (map snd xs) = Some v" using snoc Cons c by simp
    show ?thesis
    proof (cases "beats w v")
      case False
      then have "keep v w = v" by (simp add: assms(2))
      then show ?thesis using IH Cons c x False by (simp add: reduce_snoc candidates_snoc)
    next
      case True
      have inV: "v \<in> V" "w \<in> V" and csV: "snd ` set cs \<subseteq> V"
        using snoc.prems x c Cons candidates_subset [of xs] by auto
      have "beats w u" if "(r, u) \<in> set cs" for r u
      proof (rule ccontr)
        assume "\<not> beats w u"
        moreover have "\<not> beats u v" using candidates_sorted [of xs] Cons c that by auto
        ultimately show False using not_beats_trans [of v u w] inV csV that True by force
      qed
      then have "filter (\<lambda>(_, v). \<not> beats w v) cs = []" by (auto simp: filter_empty_conv)
      moreover have "keep v w = w" using True by (simp add: assms(2))
      ultimately show ?thesis using IH Cons c x True by (simp add: reduce_snoc candidates_snoc)
    qed
  qed
qed simp

end

text \<open>The order of values, MIN and MAX; a value of the order has valid decimals.\<close>

definition ordered_values :: "'d decimal_ops \<Rightarrow> 'd Value set" where
  "ordered_values D = {v. decimal_laws D \<and> decimals_ok D v}"

lemma worse_trans:
  assumes "a \<in> ordered_values D" and "b \<in> ordered_values D" and "c \<in> ordered_values D" and "\<not> worse D op a b" and "\<not> worse D op b c"
  shows "\<not> worse D op a c"
  using cmp_values_cmp3 [of D a b c] assms
  by (cases "cmp_values D a b"; cases "cmp_values D b c"; cases "cmp_values D a c") (auto simp: ordered_values_def worse_def cmp3_def split: if_splits)

interpretation extreme: candidate_order "\<lambda>w v. worse D op v w" "ordered_values D"
  by unfold_locales (rule worse_trans)

section \<open>The sliding invariant\<close>

definition arg_values :: "'d row \<Rightarrow> 'd Value list" where
  "arg_values = (\<lambda>(_, a). case a of Some v \<Rightarrow> if is_null v then [] else [v] | None \<Rightarrow> [])"

definition placed :: "'d row list \<Rightarrow> nat \<Rightarrow> nat \<Rightarrow> (nat \<times> 'd Value) list" where
  "placed rows lo nxt = concat (map (\<lambda>p. map (Pair p) (arg_values (rows ! p))) [lo..<nxt])"

definition slides :: "'d decimal_ops \<Rightarrow> agg_op \<Rightarrow> bool \<Rightarrow> 'd row list \<Rightarrow> nat \<Rightarrow> nat \<Rightarrow> 'd sliding_agg \<Rightarrow> bool" where
  "slides D op cs rows lo nxt W \<longleftrightarrow>
     sw_op W = op \<and> sw_count_star W = cs \<and> \<not> sw_degraded W \<and>
     (op = AggCount \<longrightarrow>
        sw_kept W = int (length (filter (\<lambda>p. fst (rows ! p)) [lo..<nxt])) \<and> sw_nonnull W = int (length (placed rows lo nxt))) \<and>
     (op \<noteq> AggCount \<longrightarrow> sw_extreme W = extreme.candidates D op (placed rows lo nxt))"

definition slidable :: "agg_op \<Rightarrow> bool" where
  "slidable op \<longleftrightarrow> op = AggCount \<or> op = AggMin \<or> op = AggMax"

definition rows_ordered :: "'d decimal_ops \<Rightarrow> 'd row list \<Rightarrow> bool" where
  "rows_ordered D rows \<longleftrightarrow> list_all (\<lambda>r. fst r \<or> snd r = None) rows \<and> (\<forall>r \<in> set rows. set (arg_values r) \<subseteq> ordered_values D)"

lemma placed_push: "lo \<le> nxt \<Longrightarrow> placed rows lo (Suc nxt) = placed rows lo nxt @ map (Pair nxt) (arg_values (rows ! nxt))"
  by (simp add: placed_def)

lemma placed_pop: "lo < nxt \<Longrightarrow> placed rows lo nxt = map (Pair lo) (arg_values (rows ! lo)) @ placed rows (lo + 1) nxt"
  by (simp add: placed_def upt_conv_Cons)

lemma placed_after: "x \<in> set (placed rows lo nxt) \<Longrightarrow> lo \<le> fst x \<and> fst x < nxt"
  by (auto simp: placed_def)

lemma placed_ordered: "rows_ordered D rows \<Longrightarrow> nxt \<le> length rows \<Longrightarrow> snd ` set (placed rows lo nxt) \<subseteq> ordered_values D"
  by (fastforce simp: placed_def rows_ordered_def)

lemma arg_values_cases: "arg_values (k, a) = [] \<and> (a = None \<or> (\<exists>v. a = Some v \<and> is_null v)) \<or> (\<exists>v. a = Some v \<and> \<not> is_null v \<and> arg_values (k, a) = [v])"
  by (cases a) (auto simp: arg_values_def)

lemma slide_push_slidable:
  assumes "sw_op W = op" and "slidable op"
  shows "slide_push D A W (pos, k, a) = Inr
    (let W1 = W\<lparr>sw_window := sw_window W @ [(pos, k, a)], sw_kept := sw_kept W + of_bool k\<rparr>
     in case arg_values (k, a) of
          [] \<Rightarrow> W1
        | v # _ \<Rightarrow>
            if op = AggCount then W1\<lparr>sw_nonnull := sw_nonnull W + 1\<rparr>
            else W1\<lparr>sw_extreme := drop_back (\<lambda>(_, b). worse D op b v) (sw_extreme W) @ [(pos, v)]\<rparr>)"
  using assms by (cases a; cases k) (auto simp: slide_push_def slidable_def arg_values_def Let_def)

lemma push_slides:
  assumes s: "slides D op cs rows lo nxt W" and op: "slidable op" and lo: "lo \<le> nxt" and n: "nxt < length rows" and ord: "rows_ordered D rows"
  shows "\<exists>W'. slide_push D A W (nxt, rows ! nxt) = Inr W' \<and> slides D op cs rows lo (nxt + 1) W' \<and> sw_window W' = sw_window W @ [(nxt, rows ! nxt)]"
proof -
  obtain k a where r: "rows ! nxt = (k, a)" by fastforce
  have pl: "snd ` set (placed rows lo nxt) \<subseteq> ordered_values D" using placed_ordered [OF ord] n by simp
  have av: "set (arg_values (k, a)) \<subseteq> ordered_values D" using ord n r unfolding rows_ordered_def by (metis nth_mem)
  have push: "extreme.candidates D op (placed rows lo nxt @ [(nxt, v)]) =
      drop_back (\<lambda>(_, b). worse D op b v) (extreme.candidates D op (placed rows lo nxt)) @ [(nxt, v)]" if "v \<in> set (arg_values (k, a))" for v
    using extreme.candidates_push [OF pl] av that by blast
  have f: "filter (\<lambda>p. fst (rows ! p)) [lo..<nxt + 1] = filter (\<lambda>p. fst (rows ! p)) [lo..<nxt] @ (if k then [nxt] else [])"
    using lo r by simp
  have o: "sw_op W = op" using s by (simp add: slides_def)
  show ?thesis
  proof (cases "arg_values (k, a)")
    case Nil
    then show ?thesis using s lo f by (simp add: r slide_push_slidable [OF o op] placed_push slides_def)
  next
    case (Cons v vs)
    then have a: "vs = []" "a = Some v" "\<not> is_null v" using arg_values_cases [of k a] by auto
    show ?thesis
    proof (cases "op = AggCount")
      case True
      then show ?thesis using s lo f Cons a by (simp add: r slide_push_slidable [OF o op] placed_push slides_def)
    next
      case False
      then show ?thesis using s lo f Cons a push [of v] by (simp add: r slide_push_slidable [OF o op] placed_push slides_def)
    qed
  qed
qed

lemma pop_slides:
  assumes s: "slides D op cs rows lo nxt W" and op: "slidable op" and lo: "lo < nxt"
  shows "slides D op cs rows (lo + 1) nxt (pop_one D A W (lo, rows ! lo)) \<and> sw_window (pop_one D A W (lo, rows ! lo)) = sw_window W"
proof -
  obtain k a where r: "rows ! lo = (k, a)" by fastforce
  have notin: "lo \<notin> fst ` set (placed rows (lo + 1) nxt)" using placed_after [of _ rows "lo + 1" nxt] by force
  have f: "filter (\<lambda>p. fst (rows ! p)) [lo..<nxt] = (if k then [lo] else []) @ filter (\<lambda>p. fst (rows ! p)) [lo + 1..<nxt]"
    using lo r by (simp add: upt_conv_Cons)
  show ?thesis
  proof (cases "op = AggCount")
    case True
    then show ?thesis using s arg_values_cases [of k a] f placed_pop [OF lo, of rows] r
      by (auto simp: slides_def pop_one_def Let_def split: option.splits)
  next
    case False
    then have mm: "op = AggMin \<or> op = AggMax" using op by (auto simp: slidable_def)
    have e: "sw_extreme W = extreme.candidates D op (placed rows lo nxt)" "sw_op W = op" using s False by (auto simp: slides_def)
    define E where "E = extreme.candidates D op (placed rows lo nxt)"
    have "extreme.candidates D op (placed rows (lo + 1) nxt) = (case E of (q, _) # rest \<Rightarrow> if q = lo then rest else E | [] \<Rightarrow> [])"
    proof (cases "arg_values (k, a)")
      case Nil
      then have EC: "E = extreme.candidates D op (placed rows (lo + 1) nxt)" using placed_pop [OF lo, of rows] r by (simp add: E_def)
      have "fst (hd E) \<noteq> lo" if "E \<noteq> []"
      proof -
        have "hd E \<in> set (placed rows (lo + 1) nxt)"
          using hd_in_set [OF that] extreme.candidates_subset [of D op "placed rows (lo + 1) nxt"] EC by auto
        then show ?thesis using notin by auto
      qed
      then show ?thesis unfolding EC [symmetric] by (cases E) auto
    next
      case (Cons v vs)
      then have "vs = []" using arg_values_cases [of k a] by auto
      then have "E = extreme.candidates D op ((lo, v) # placed rows (lo + 1) nxt)"
        using placed_pop [OF lo, of rows] r Cons unfolding E_def by simp
      then show ?thesis using extreme.candidates_pop [OF notin, of D op v] by (simp only:)
    qed
    then show ?thesis using s mm e False
      by (auto simp: slides_def pop_one_def E_def [symmetric] split: list.splits)
  qed
qed

lemma pop_fold_slides:
  "slides D op cs rows l nxt W \<Longrightarrow> slidable op \<Longrightarrow> l \<le> lo \<Longrightarrow> lo \<le> nxt \<Longrightarrow>
    slides D op cs rows lo nxt (foldl (pop_one D A) W (map (\<lambda>p. (p, rows ! p)) [l..<lo])) \<and>
    sw_window (foldl (pop_one D A) W (map (\<lambda>p. (p, rows ! p)) [l..<lo])) = sw_window W"
proof (induction "lo - l" arbitrary: l W)
  case (Suc m)
  then have "l < lo" by simp
  then show ?case using Suc pop_slides [of D op cs rows l nxt W A] by (simp add: upt_conv_Cons)
qed simp

lemma slides_window: "slides D op cs rows lo nxt (W\<lparr>sw_window := w\<rparr>) = slides D op cs rows lo nxt W"
  by (simp add: slides_def)

lemma pop_to_slides:
  assumes "slides D op cs rows l nxt W" and "slidable op" and "l \<le> lo" and "lo \<le> nxt" and w: "sw_window W = map (\<lambda>p. (p, rows ! p)) [l..<nxt]"
  shows "slides D op cs rows lo nxt (pop_to D A lo W) \<and> sw_window (pop_to D A lo W) = map (\<lambda>p. (p, rows ! p)) [lo..<nxt]"
proof -
  have "[l..<nxt] = [l..<lo] @ [lo..<nxt]" using assms(3,4) upt_add_eq_append [of l lo "nxt - lo"] by simp
  then have "takeWhile (\<lambda>(pos, _). pos < lo) (sw_window W) = map (\<lambda>p. (p, rows ! p)) [l..<lo]"
    and "dropWhile (\<lambda>(pos, _). pos < lo) (sw_window W) = map (\<lambda>p. (p, rows ! p)) [lo..<nxt]"
    unfolding w by (auto simp: takeWhile_append dropWhile_append dropWhile_eq_self_iff takeWhile_eq_Nil_iff hd_map)
  then show ?thesis
    using pop_fold_slides [of D op cs rows l nxt "W\<lparr>sw_window := map (\<lambda>p. (p, rows ! p)) [lo..<nxt]\<rparr>" lo A] assms(1-4)
    by (simp add: pop_to_def slides_window)
qed

lemma push_all_slides:
  assumes op: "slidable op" and ord: "rows_ordered D rows"
  shows "slides D op cs rows l nxt W \<Longrightarrow> sw_window W = map (\<lambda>p. (p, rows ! p)) [l..<nxt] \<Longrightarrow> l \<le> nxt \<Longrightarrow> nxt + m \<le> length rows \<Longrightarrow>
    \<exists>W'. efold (slide_push D A) W (map (\<lambda>p. (p, rows ! p)) [nxt..<nxt + m]) = Inr W' \<and> slides D op cs rows l (nxt + m) W' \<and>
      sw_window W' = map (\<lambda>p. (p, rows ! p)) [l..<nxt + m]"
proof (induction m arbitrary: nxt W)
  case (Suc m)
  obtain W1 where W1: "slide_push D A W (nxt, rows ! nxt) = Inr W1" "slides D op cs rows l (nxt + 1) W1" "sw_window W1 = sw_window W @ [(nxt, rows ! nxt)]"
    using push_slides [OF Suc.prems(1) op Suc.prems(3) _ ord, of A] Suc.prems(4) by auto
  moreover have "[nxt..<nxt + Suc m] = nxt # [nxt + 1..<nxt + 1 + m]" by (simp add: upt_conv_Cons)
  ultimately show ?case using Suc.IH [of "nxt + 1" W1] Suc.prems by simp
qed (simp add: exI)

end
