(* ===== verification/Arithmetic_Properties.thy ===== *)
theory Arithmetic_Properties
  imports Arithmetic Decimal_Model
begin

text \<open>
  Integer and timestamp arithmetic of the operators: exact or NULL, never wrapped.
\<close>

definition fits_i64 :: "int \<Rightarrow> bool" where
  "fits_i64 x \<longleftrightarrow> - (2 ^ 63) \<le> x \<and> x < 2 ^ 63"

text \<open>Quotient and remainder of a division that rounds toward zero.\<close>

definition truncated :: "int \<Rightarrow> int \<Rightarrow> int \<Rightarrow> int \<Rightarrow> bool" where
  "truncated x y q r \<longleftrightarrow> x = q * y + r \<and> \<bar>r\<bar> < \<bar>y\<bar> \<and> (r = 0 \<or> sgn r = sgn x)"

definition exact :: "binary_operator \<Rightarrow> int \<Rightarrow> int \<Rightarrow> int \<Rightarrow> bool" where
  "exact op x y c =
     (case op of
        OpPlus \<Rightarrow> c = x + y
      | OpMinus \<Rightarrow> c = x - y
      | OpMultiply \<Rightarrow> c = x * y
      | OpDivide \<Rightarrow> (\<exists>r. truncated x y c r)
      | OpModulo \<Rightarrow> (\<exists>q. fits_i64 q \<and> truncated x y q c)
      | _ \<Rightarrow> False)"

lemma truncated_quot: "y \<noteq> 0 \<Longrightarrow> truncated x y (quot x y) (x - y * quot x y)"
proof -
  assume y: "y \<noteq> 0"
  define q where "q = \<bar>x\<bar> div \<bar>y\<bar>"
  define r where "r = \<bar>x\<bar> mod \<bar>y\<bar>"
  have d: "\<bar>x\<bar> = q * \<bar>y\<bar> + r" "0 \<le> r" "r < \<bar>y\<bar>" using y by (simp_all add: q_def r_def)
  have xs: "x = sgn x * \<bar>x\<bar>" "\<bar>y\<bar> = sgn y * y" by (simp_all add: sgn_mult_abs abs_sgn)
  have "sgn x * \<bar>x\<bar> = sgn x * q * (sgn y * y) + sgn x * r" using d(1) xs(2) by (simp add: algebra_simps)
  then have rem: "x - y * quot x y = sgn x * r" using xs(1) by (simp add: quot_def q_def [symmetric] algebra_simps)
  have "x = quot x y * y + sgn x * r" using rem by (simp add: algebra_simps)
  moreover have "\<bar>sgn x * r\<bar> < \<bar>y\<bar>" using d y by (simp add: abs_mult sgn_if)
  moreover have "sgn x * r = 0 \<or> sgn (sgn x * r) = sgn x" using d(2) by (cases "r = 0") (auto simp: sgn_mult)
  ultimately show ?thesis by (simp add: truncated_def rem)
qed

lemma truncated_unique: "truncated x y q r \<Longrightarrow> truncated x y q' r' \<Longrightarrow> q = q' \<and> r = r'"
proof -
  assume a: "truncated x y q r" "truncated x y q' r'"
  have same: "0 \<le> r * r'"
    using a by (cases "r = 0"; cases "r' = 0") (auto simp: truncated_def sgn_if zero_le_mult_iff split: if_splits)
  have e: "(q - q') * y = r' - r" using a by (simp add: truncated_def algebra_simps)
  have "\<bar>r' - r\<bar> < \<bar>y\<bar>"
    using a same by (auto simp: truncated_def abs_if zero_le_mult_iff split: if_splits)
  then have "\<bar>q - q'\<bar> * \<bar>y\<bar> < 1 * \<bar>y\<bar>" using e by (simp add: abs_mult [symmetric])
  then have "\<bar>q - q'\<bar> < 1" by (rule mult_right_less_imp_less) simp
  then show ?thesis using e by auto
qed

lemma checked_fits: "checked x = (if fits_i64 x then Some (word_of_int x) else None)"
  by (simp add: checked_def fits_i64_def)

lemma sint_fits: "fits_i64 x \<Longrightarrow> sint (word_of_int x :: i64) = x"
  by (simp add: fits_i64_def sint_word_of_int_i64)

definition exact_or_null :: "binary_operator \<Rightarrow> int \<Rightarrow> int \<Rightarrow> 'd Value \<Rightarrow> bool" where
  "exact_or_null op x y v \<longleftrightarrow>
     (\<exists>c. v = Int64 c \<and> exact op x y (sint c)) \<or> (v = Null \<and> (\<forall>c. fits_i64 c \<longrightarrow> \<not> exact op x y c))"

lemma or_null_exact:
  assumes "\<And>c. exact op x y c \<Longrightarrow> c = z" and "fits_i64 z \<Longrightarrow> exact op x y z"
  shows "exact_or_null op x y (or_null Int64 (checked z))"
  using assms by (auto simp: exact_or_null_def or_null_def checked_fits sint_fits)

lemma int_arith_exact:
  assumes "op \<in> {OpPlus, OpMinus, OpMultiply, OpDivide, OpModulo}"
  shows "\<exists>v. int_arith a op b = Inr v \<and> exact_or_null op (sint a) (sint b) v"
proof -
  define x where "x = sint a"
  define y where "y = sint b"
  have b0: "b = 0 \<longleftrightarrow> y = 0" by (simp add: y_def signed_eq_0_iff)
  have zero: "exact_or_null op x 0 Null" if "op = OpDivide \<or> op = OpModulo"
    using that by (auto simp: exact_or_null_def exact_def truncated_def)
  have div: "exact_or_null OpDivide x y (or_null Int64 (checked_div a b))" if "y \<noteq> 0"
  proof -
    have "exact OpDivide x y c \<Longrightarrow> c = quot x y" for c
      using truncated_unique [OF truncated_quot [OF that, of x]] by (auto simp: exact_def)
    moreover have "exact OpDivide x y (quot x y)" using truncated_quot [OF that, of x] by (auto simp: exact_def)
    ultimately have "exact_or_null OpDivide x y (or_null Int64 (checked (quot x y)))" by (rule or_null_exact)
    moreover have "checked_div a b = checked (quot x y)" using that by (simp add: checked_div_def b0 x_def [symmetric] y_def [symmetric])
    ultimately show ?thesis by simp
  qed
  have fits_rem: "fits_i64 (x - y * quot x y)" if "y \<noteq> 0"
  proof -
    have "\<bar>x - y * quot x y\<bar> < \<bar>y\<bar>" using truncated_quot [OF that, of x] by (simp add: truncated_def)
    moreover have "\<bar>y\<bar> \<le> 2 ^ 63" using sint_i64_bounds [of b] by (auto simp: y_def abs_le_iff)
    ultimately show ?thesis by (auto simp: fits_i64_def)
  qed
  have rem: "exact_or_null OpModulo x y (or_null Int64 (checked_rem a b))" if "y \<noteq> 0"
  proof (cases "fits_i64 (quot x y)")
    case True
    then have e: "checked_rem a b = checked (x - y * quot x y)"
      using that by (simp add: checked_rem_def b0 checked_fits x_def [symmetric] y_def [symmetric])
    have "exact OpModulo x y c \<Longrightarrow> c = x - y * quot x y" for c
      using truncated_unique [OF truncated_quot [OF that, of x]] by (auto simp: exact_def)
    moreover have "exact OpModulo x y (x - y * quot x y)" using truncated_quot [OF that, of x] True by (auto simp: exact_def)
    ultimately show ?thesis unfolding e by (rule or_null_exact)
  next
    case False
    then have "checked_rem a b = None" using that by (simp add: checked_rem_def b0 checked_fits x_def [symmetric] y_def [symmetric])
    moreover have "\<not> exact OpModulo x y c" for c
      using False truncated_unique [OF truncated_quot [OF that, of x]] by (auto simp: exact_def)
    ultimately show ?thesis by (simp add: exact_or_null_def or_null_def)
  qed
  have lin: "exact_or_null op x y (or_null Int64 (checked z))" if "\<And>c. exact op x y c \<longleftrightarrow> c = z" for z
    using or_null_exact [of op x y z] that by blast
  show ?thesis
    using assms lin [of "x + y"] lin [of "x - y"] lin [of "x * y"] div rem zero
    by (auto simp: int_arith_def exact_def b0 x_def [symmetric] y_def [symmetric])
qed

lemma float_arith_no_stamp: "float_arith a op b \<noteq> Inr (Timestamp ms)"
  by (cases op) (simp_all add: float_arith_def)

lemma int_arith_no_stamp: "int_arith a op b \<noteq> Inr (Timestamp ms)"
  by (cases op) (simp_all add: int_arith_def or_null_def split: option.split)

text \<open>\<open>C37\<close>: integer and timestamp arithmetic never wraps. For the five arithmetic operators, two integers give the
  exact result (division rounds toward zero), and NULL exactly when no 64-bit result exists; a remainder also
  needs its quotient to fit. A timestamp that an operator returns lies in the years 1 to 9999.\<close>

theorem arithmetic_exact_or_null:
  assumes "op \<in> {OpPlus, OpMinus, OpMultiply, OpDivide, OpModulo}"
  shows "(\<exists>v. binop D A X (Int64 a) op (Int64 b) = Inr v \<and> exact_or_null op (sint a) (sint b) v) \<and>
    (\<forall>l r ms. arith D A l op r = Inr (Timestamp ms) \<longrightarrow> is_valid_timestamp_ms ms)"
proof (intro conjI allI impI)
  have "binop D A X (Int64 a) op (Int64 b) = int_arith a op b" using assms by (auto simp: binop_def arith_def)
  then show "\<exists>v. binop D A X (Int64 a) op (Int64 b) = Inr v \<and> exact_or_null op (sint a) (sint b) v"
    using int_arith_exact [OF assms] by simp
next
  fix l r ms assume r: "arith D A l op r = Inr (Timestamp ms)"
  have o: "or_null f x = Timestamp ms \<Longrightarrow> (\<And>y. f y = Timestamp ms \<Longrightarrow> is_valid_timestamp_ms ms) \<Longrightarrow> is_valid_timestamp_ms ms" for f :: "'b \<Rightarrow> 'a Value" and x
    by (cases x) (simp_all add: or_null_def)
  have s: "stamp_or_null y = Timestamp ms \<Longrightarrow> is_valid_timestamp_ms ms" for y
    by (auto simp: stamp_or_null_def split: if_splits)
  consider "is_stamp l \<or> is_stamp r" | "\<not> is_stamp l" "\<not> is_stamp r" by blast
  then show "is_valid_timestamp_ms ms"
  proof cases
    case 1
    then have "stamp_arith l op r = Inr (Timestamp ms)" using r by (auto simp: arith_def split: if_splits)
    then show ?thesis by (auto simp: stamp_arith_def or_null_def split: binary_operator.splits Value.splits option.splits dest!: s)
  next
    case 2
    then show ?thesis using r
      by (auto simp: arith_def or_null_def float_arith_no_stamp int_arith_no_stamp result_simps split: if_splits Value.splits option.splits)
  qed
qed

text \<open>Operations for the decimal type of the witnesses; none of the witnesses computes with decimals.\<close>

definition ex_arith :: "ex_decimal decimal_arith" where
  "ex_arith =
     \<lparr>dec_zero = (0, 0), dec_retain = (\<lambda>_. None), dec_f64 = (\<lambda>_. None), dec_add = (\<lambda>_ _. None), dec_sub = (\<lambda>_ _. None),
      dec_mul = (\<lambda>_ _. None), dec_div = (\<lambda>_ _. None), dec_rem = (\<lambda>_ _. None)\<rparr>"

definition ex_render :: "ex_decimal value_text" where
  "ex_render =
     \<lparr>text_float = (\<lambda>_. []), text_float1 = (\<lambda>_. []), text_dec = (\<lambda>_. []), text_parse_dec = (\<lambda>_. None), text_debug = (\<lambda>_. [])\<rparr>"

theorem arithmetic_exact_or_null_witness:
  "\<exists>v. binop ex_dec ex_arith ex_render (Int64 (- 7)) OpDivide (Int64 2) = Inr v \<and> exact_or_null OpDivide (sint (- 7 :: i64)) (sint (2 :: i64)) v"
  using arithmetic_exact_or_null [of OpDivide ex_dec ex_arith ex_render "- 7" 2] by simp

end
