(* ===== verification/Window_Properties.thy ===== *)
theory Window_Properties
  imports Window_Slide Arithmetic_Properties
begin

text \<open>
  The frame loop: what it computes over the default frame and over ROWS frames, and where the bounds and the
  sliding sum deviate from the standard.
\<close>

section \<open>Slices\<close>

lemma frame_slice_map: "hi < length rows \<Longrightarrow> frame_slice rows lo hi = map ((!) rows) [lo..<hi + 1]"
proof (rule nth_equalityI)
  assume "hi < length rows"
  then show "length (frame_slice rows lo hi) = length (map ((!) rows) [lo..<hi + 1])" by (simp add: frame_slice_def del: upt_Suc)
next
  fix i assume "hi < length rows" "i < length (frame_slice rows lo hi)"
  then show "frame_slice rows lo hi ! i = map ((!) rows) [lo..<hi + 1] ! i" by (auto simp: frame_slice_def simp del: upt_Suc)
qed

lemma slice_values:
  assumes "rows_ordered D rows" and "nxt \<le> length rows"
  shows "agg_vals D False (map ((!) rows) [lo..<nxt]) = map snd (placed rows lo nxt)"
    and "length (kept_rows (map ((!) rows) [lo..<nxt])) = length (filter (\<lambda>p. fst (rows ! p)) [lo..<nxt])"
proof -
  have k: "fst (rows ! p) \<or> snd (rows ! p) = None" if "p < nxt" for p
    using assms that by (auto simp: rows_ordered_def list_all_length)
  have "row_values (kept_rows (map ((!) rows) ps)) = map snd (concat (map (\<lambda>p. map (Pair p) (arg_values (rows ! p))) ps))" if "set ps \<subseteq> {..<nxt}" for ps
    using that
  proof (induction ps)
    case (Cons p ps)
    obtain b a where r: "rows ! p = (b, a)" by fastforce
    then show ?case using Cons k [of p] by (cases b) (auto simp: row_values_def kept_rows_def arg_values_def comp_def split: option.splits)
  qed (simp add: row_values_def kept_rows_def)
  moreover have "set [lo..<nxt] \<subseteq> {..<nxt}" by auto
  ultimately show "agg_vals D False (map ((!) rows) [lo..<nxt]) = map snd (placed rows lo nxt)"
    by (simp add: agg_vals_def placed_def)
  show "length (kept_rows (map ((!) rows) [lo..<nxt])) = length (filter (\<lambda>p. fst (rows ! p)) [lo..<nxt])"
    by (simp add: kept_rows_def filter_map comp_def)
qed

lemma slide_value_batch:
  assumes s: "slides D op cs rows lo (hi + 1) W" and op: "slidable op" and ord: "rows_ordered D rows" and n: "hi < length rows"
  shows "eval_agg D A X op sep False cs (frame_slice rows lo hi) = Inr (slide_value D A W)"
proof -
  have n': "hi + 1 \<le> length rows" using n by simp
  note v = slice_values [OF ord n', of lo]
  have m: "reduce keep (map snd (placed rows lo (hi + 1))) =
      (case extreme.candidates D op (placed rows lo (hi + 1)) of (_, v) # _ \<Rightarrow> Some v | [] \<Rightarrow> None)"
    if "\<And>a b. keep a b = (if worse D op a b then b else a)" for keep
    by (rule extreme.candidates_front [OF placed_ordered [OF ord n'] that])
  consider "op = AggCount" | "op = AggMin" | "op = AggMax" using op by (auto simp: slidable_def)
  then show ?thesis
  proof cases
    case 1
    then show ?thesis using s v by (simp add: eval_agg_vals frame_slice_map [OF n] slides_def slide_value_def del: upt_Suc)
  next
    case 2
    then have "keep_min D a b = (if worse D op a b then b else a)" for a b by (simp add: keep_min_def worse_def)
    note m = m [OF this]
    show ?thesis using s v(1) m 2
      by (auto simp: eval_agg_vals frame_slice_map [OF n] slides_def slide_value_def or_null_def simp del: upt_Suc split: list.splits)
  next
    case 3
    then have "keep_max D a b = (if worse D op a b then b else a)" for a b by (simp add: keep_max_def worse_def)
    note m = m [OF this]
    show ?thesis using s v(1) m 3
      by (auto simp: eval_agg_vals frame_slice_map [OF n] slides_def slide_value_def or_null_def simp del: upt_Suc split: list.splits)
  qed
qed

section \<open>The sliding loop\<close>

definition frames_forward :: "nat \<Rightarrow> (nat \<times> nat) list \<Rightarrow> bool" where
  "frames_forward n bs \<longleftrightarrow> sorted (map fst bs) \<and> sorted (map snd bs) \<and> (\<forall>(lo, hi) \<in> set bs. hi < n)"

lemma fold_slice_empty: "fold_slice D A X op sep False cs [] = eval_agg D A X op sep False cs []"
  by (cases op) (simp_all add: fold_slice_def eval_agg_def running_new_def agg_snapshot_def row_values_def kept_rows_def or_null_def)

lemma eval_agg_slidable: "slidable op \<Longrightarrow> \<exists>v. eval_agg D A X op sep dst cs rows = Inr v"
  by (auto simp: slidable_def eval_agg_def Let_def)

lemma slide_rows_batch:
  assumes op: "slidable op" and ord: "rows_ordered D rows"
  shows "slides D op cs rows l nxt W \<Longrightarrow> sw_window W = map (\<lambda>p. (p, rows ! p)) [l..<nxt] \<Longrightarrow> l \<le> nxt \<Longrightarrow>
    frames_forward (length rows) bs \<Longrightarrow> (\<forall>(lo, hi) \<in> set bs. l \<le> lo \<and> nxt \<le> hi + 1) \<Longrightarrow>
    slide_rows D A X op sep cs rows bs W nxt = emap (\<lambda>(lo, hi). eval_agg D A X op sep False cs (frame_slice rows lo hi)) bs"
proof (induction bs arbitrary: l nxt W)
  case (Cons b bs)
  obtain lo hi where b: "b = (lo, hi)" by fastforce
  have fw: "frames_forward (length rows) bs" using Cons.prems(4) by (auto simp: frames_forward_def)
  have later: "lo \<le> lo'" "hi \<le> hi'" if "(lo', hi') \<in> set bs" for lo' hi'
    using Cons.prems(4) that by (force simp: frames_forward_def b)+
  have nd: "\<not> sw_degraded W" using Cons.prems(1) by (simp add: slides_def)
  obtain v where v: "eval_agg D A X op sep False cs (frame_slice rows lo hi) = Inr v" using eval_agg_slidable [OF op] by blast
  show ?case
  proof (cases "hi < lo")
    case True
    then have e: "frame_slice rows lo hi = []" by (simp add: frame_slice_def)
    have "slide_rows D A X op sep cs rows bs W nxt = emap (\<lambda>(lo, hi). eval_agg D A X op sep False cs (frame_slice rows lo hi)) bs"
      using Cons.IH [OF Cons.prems(1-3) fw] Cons.prems(5) by auto
    then show ?thesis using True v by (simp add: b e fold_slice_empty)
  next
    case False
    have hi: "hi < length rows" "nxt \<le> hi + 1" "l \<le> lo" using Cons.prems(4,5) by (auto simp: b frames_forward_def)
    obtain W1 where W1: "efold (slide_push D A) W (map (\<lambda>p. (p, rows ! p)) [nxt..<hi + 1]) = Inr W1"
      "slides D op cs rows l (hi + 1) W1" "sw_window W1 = map (\<lambda>p. (p, rows ! p)) [l..<hi + 1]"
      using push_all_slides [OF op ord Cons.prems(1-3), of "hi + 1 - nxt" A] hi by auto
    have lo: "lo \<le> hi + 1" using False by simp
    note P = pop_to_slides [OF W1(2) op hi(3) lo W1(3), of A]
    have "slide_rows D A X op sep cs rows bs (pop_to D A lo W1) (hi + 1) = emap (\<lambda>(lo, hi). eval_agg D A X op sep False cs (frame_slice rows lo hi)) bs"
      using P Cons.IH [of lo "hi + 1" "pop_to D A lo W1", OF _ _ lo fw] later by fastforce
    moreover have "\<not> sw_degraded (pop_to D A lo W1)" using P by (simp add: slides_def)
    moreover have "eval_agg D A X op sep False cs (frame_slice rows lo hi) = Inr (slide_value D A (pop_to D A lo W1))"
      using slide_value_batch [OF _ op ord hi(1)] P by blast
    moreover have "max nxt (hi + 1) = hi + 1" using hi(2) by simp
    ultimately show ?thesis using False nd W1(1) by (simp add: b Let_def del: upt_Suc)
  qed
qed simp

lemma slides_new: "slides D op cs rows 0 0 (sliding_new A op cs)"
  by (simp add: slides_def sliding_new_def placed_def)

section \<open>ROWS frames\<close>

text \<open>The rows of a ROWS frame in the standard: row \<open>r\<close> of \<open>n\<close> is in the frame of row \<open>p\<close>.\<close>

definition frame_from :: "frame_row_bound \<Rightarrow> nat \<Rightarrow> nat \<Rightarrow> int" where
  "frame_from s n p =
     (case s of
        RowUnbounded \<Rightarrow> 0
      | RowPreceding k \<Rightarrow> int p - int k
      | RowCurrent \<Rightarrow> int p
      | RowFollowing k \<Rightarrow> int p + int k
      | RowUnboundedFollowing \<Rightarrow> int n)"

definition frame_upto :: "frame_row_bound \<Rightarrow> nat \<Rightarrow> nat \<Rightarrow> int" where
  "frame_upto e n p =
     (case e of
        RowUnbounded \<Rightarrow> - 1
      | RowPreceding k \<Rightarrow> int p - int k
      | RowCurrent \<Rightarrow> int p
      | RowFollowing k \<Rightarrow> int p + int k
      | RowUnboundedFollowing \<Rightarrow> int n)"

definition rows_frame :: "frame_row_bound \<Rightarrow> frame_row_bound \<Rightarrow> nat \<Rightarrow> nat \<Rightarrow> nat list" where
  "rows_frame s e n p = filter (\<lambda>r. frame_from s n p \<le> int r \<and> int r \<le> frame_upto e n p) [0..<n]"

definition ends_at_row :: "frame_row_bound \<Rightarrow> bool" where
  "ends_at_row e \<longleftrightarrow> (case e of RowUnbounded \<Rightarrow> False | RowPreceding k \<Rightarrow> k = 0 | _ \<Rightarrow> True)"

lemma filter_between: "hi < n \<Longrightarrow> filter (\<lambda>r. lo \<le> r \<and> r \<le> hi) [0..<n] = [lo..<hi + 1]"
proof (induction n)
  case (Suc n)
  show ?case
  proof (cases "hi < n")
    case True
    then show ?thesis using Suc by (auto simp del: upt_Suc simp: upt_Suc_append)
  next
    case False
    then have "hi = n" using Suc.prems by simp
    moreover have "filter (\<lambda>r. lo \<le> r \<and> r \<le> m) [0..<m] = [lo..<m]" for m
    proof (induction m)
      case (Suc m)
      have "filter (\<lambda>r. lo \<le> r \<and> r \<le> Suc m) [0..<m] = filter (\<lambda>r. lo \<le> r \<and> r \<le> m) [0..<m]" by (rule filter_cong) auto
      then show ?case using Suc by auto
    qed simp
    ultimately show ?thesis by auto
  qed
qed simp

lemma rows_bounds_frame:
  assumes "p < n" and "ends_at_row e"
  shows "rows_hi e n p < n" and "rows_frame s e n p = [rows_lo s n p..<rows_hi e n p + 1]"
proof -
  show h: "rows_hi e n p < n" using assms by (cases e) (auto simp: rows_hi_def ends_at_row_def)
  have "frame_from s n p \<le> int r \<longleftrightarrow> rows_lo s n p \<le> r" if "r < n" for r
    using assms(1) that by (cases s) (auto simp: frame_from_def rows_lo_def min_def)
  moreover have "int r \<le> frame_upto e n p \<longleftrightarrow> r \<le> rows_hi e n p" if "r < n" for r
    using assms that by (cases e) (auto simp: frame_upto_def rows_hi_def ends_at_row_def min_def)
  ultimately have "rows_frame s e n p = filter (\<lambda>r. rows_lo s n p \<le> r \<and> r \<le> rows_hi e n p) [0..<n]"
    unfolding rows_frame_def by (intro filter_cong) auto
  then show "rows_frame s e n p = [rows_lo s n p..<rows_hi e n p + 1]" using filter_between [OF h] by simp
qed

lemma rows_bounds_forward:
  assumes "ends_at_row e"
  shows "frames_forward n (map (\<lambda>p. (rows_lo s n p, rows_hi e n p)) [0..<n])"
proof -
  have "mono (rows_lo s n)" by (cases s) (auto simp: mono_def rows_lo_def)
  moreover have "mono (rows_hi e n)" using assms by (cases e) (auto simp: mono_def rows_hi_def min_def ends_at_row_def)
  ultimately show ?thesis using rows_bounds_frame(1) [OF _ assms]
    by (auto simp: frames_forward_def comp_def sorted_map_mono monoD intro!: sorted_map_mono mono_imp_mono_on)
qed

lemma emap_map: "emap f (map g xs) = emap (\<lambda>x. f (g x)) xs"
  by (induction xs) simp_all

lemma emap_cong: "(\<And>x. x \<in> set xs \<Longrightarrow> f x = g x) \<Longrightarrow> emap f xs = emap g xs"
  by (induction xs) simp_all

lemma emap_total: "(\<And>x. x \<in> set xs \<Longrightarrow> f x = Inr (h x)) \<Longrightarrow> emap f xs = Inr (map h xs)"
  by (induction xs) simp_all

text \<open>\<open>C36\<close>: COUNT, MIN and MAX over a ROWS frame. Over any partition, the incremental evaluation gives every row
  the batch aggregate of the rows that the standard puts in its frame, for every start bound and every end bound
  other than an end before the current row. It always returns.\<close>

theorem rows_frames_match_batch:
  assumes "slidable op" and "rows_ordered D rows" and "ends_at_row e"
  shows "\<exists>vs. window_agg D A X op sep False cs (Some (FrameRows s e)) keys order rows = Inr vs \<and> length vs = length rows \<and>
    (\<forall>p < length rows. eval_agg D A X op sep False cs (map ((!) rows) (rows_frame s e (length rows) p)) = Inr (vs ! p))"
proof -
  define n where "n = length rows"
  define bs where "bs = map (\<lambda>p. (rows_lo s n p, rows_hi e n p)) [0..<n]"
  have nc: "op \<noteq> AggConcat" using assms(1) by (auto simp: slidable_def)
  have "slide_rows D A X op sep cs rows bs (sliding_new A op cs) 0 = emap (\<lambda>(lo, hi). eval_agg D A X op sep False cs (frame_slice rows lo hi)) bs"
    using slide_rows_batch [OF assms(1,2) slides_new [of D op cs rows A], where bs = bs and A = A and X = X and sep = sep] rows_bounds_forward [OF assms(3), of n s]
    by (auto simp: sliding_new_def bs_def n_def)
  also have "\<dots> = emap (\<lambda>p. eval_agg D A X op sep False cs (map ((!) rows) (rows_frame s e n p))) [0..<n]"
    unfolding bs_def emap_map using rows_bounds_frame(1) [OF _ assms(3), of _ n] rows_bounds_frame(2) [OF _ assms(3), of _ n s] by (intro emap_cong) (simp add: frame_slice_map n_def del: upt_Suc)
  finally have w: "window_agg D A X op sep False cs (Some (FrameRows s e)) keys order rows =
      emap (\<lambda>p. eval_agg D A X op sep False cs (map ((!) rows) (rows_frame s e n p))) [0..<n]"
    using nc by (simp add: window_agg_def frame_bounds_def Let_def n_def bs_def)
  have "\<forall>p. \<exists>v. eval_agg D A X op sep False cs (map ((!) rows) (rows_frame s e n p)) = Inr v"
    by (intro allI eval_agg_slidable assms(1))
  then obtain h where h: "\<forall>p. eval_agg D A X op sep False cs (map ((!) rows) (rows_frame s e n p)) = Inr (h p)"
    by (auto dest!: choice)
  have "emap (\<lambda>p. eval_agg D A X op sep False cs (map ((!) rows) (rows_frame s e n p))) [0..<n] = Inr (map h [0..<n])"
    by (rule emap_total) (simp add: h)
  then show ?thesis unfolding w using h by (auto simp: n_def)
qed

section \<open>A concrete partition\<close>

definition ex_rows :: "ex_decimal row list" where
  "ex_rows = [(True, Some (Int64 5)), (True, Some Null), (False, None), (True, Some (Int64 3))]"

lemma ex_rows_ordered: "rows_ordered ex_dec ex_rows"
  by (auto simp: rows_ordered_def ex_rows_def ordered_values_def arg_values_def ex_dec_laws)

theorem rows_frames_match_batch_witness:
  "\<exists>vs. window_agg ex_dec ex_arith ex_render AggMin None False False (Some (FrameRows (RowPreceding 2) RowCurrent)) [] [] ex_rows = Inr vs \<and>
    length vs = 4 \<and> vs ! 0 = Int64 5 \<and> vs ! 1 = Int64 5 \<and> vs ! 2 = Int64 5 \<and> vs ! 3 = Int64 3"
proof -
  have e: "eval_agg ex_dec ex_arith ex_render AggMin None False False (map ((!) ex_rows) (rows_frame (RowPreceding 2) RowCurrent 4 p)) =
      Inr (if p = 3 then Int64 3 else Int64 5)" if "p < 4" for p
  proof -
    have p: "p = 0 \<or> p = Suc 0 \<or> p = 2 \<or> p = 3" using that by linarith
    have u: "[0..<4] = [0, 1, 2, 3]" by (simp add: upt_rec)
    show ?thesis
      using p by (elim disjE) (simp_all add: rows_frame_def frame_from_def frame_upto_def u eval_agg_def ex_rows_def row_values_def kept_rows_def or_null_def)
  qed
  have n: "length ex_rows = 4" by (simp add: ex_rows_def)
  have "slidable AggMin" "ends_at_row RowCurrent" by (simp_all add: slidable_def ends_at_row_def)
  then obtain vs where vs: "window_agg ex_dec ex_arith ex_render AggMin None False False (Some (FrameRows (RowPreceding 2) RowCurrent)) [] [] ex_rows = Inr vs"
    "length vs = 4" "\<forall>p < 4. eval_agg ex_dec ex_arith ex_render AggMin None False False (map ((!) ex_rows) (rows_frame (RowPreceding 2) RowCurrent 4 p)) = Inr (vs ! p)"
    using rows_frames_match_batch [of AggMin ex_dec ex_rows RowCurrent ex_arith ex_render None False "RowPreceding 2" "[]" "[]"] ex_rows_ordered unfolding n by blast
  have "vs ! p = (if p = 3 then Int64 3 else Int64 5)" if "p < 4" for p using vs(3) e [OF that] that by simp
  then show ?thesis using vs(1,2) by auto
qed

section \<open>The default frame\<close>

text \<open>Spans that cover the positions from \<open>a\<close> to \<open>n\<close> one after the other.\<close>

fun contiguous :: "nat \<Rightarrow> (nat \<times> nat) list \<Rightarrow> nat \<Rightarrow> bool" where
  "contiguous a [] n \<longleftrightarrow> a = n"
| "contiguous a ((p, q) # spans) n \<longleftrightarrow> p = a \<and> p \<le> q \<and> q < n \<and> contiguous (q + 1) spans n"

lemma run_last_bound: "p < length keys \<Longrightarrow> p \<le> run_last D order keys p \<and> run_last D order keys p < length keys"
  using length_takeWhile_le [of "peers D order (keys ! p)" "drop (p + 1) keys"] by (auto simp: run_last_def)

lemma spans_contiguous: "p \<le> length keys \<Longrightarrow> contiguous p (spans_from D order keys p) (length keys)"
proof (induction D order keys p rule: spans_from.induct)
  case (1 D order keys p)
  then show ?case using run_last_bound [of p keys D order] by (subst spans_from.simps) auto
qed

lemma emap_append: "emap f (xs @ ys) = ebind (emap f xs) (\<lambda>a. ebind (emap f ys) (\<lambda>b. Inr (a @ b)))"
  by (induction xs) (auto simp: ebind_assoc, cases "emap f ys", auto)

lemma ok_value_ebind: "ok_value (ebind m f) = (case m of Inl _ \<Rightarrow> None | Inr x \<Rightarrow> ok_value (f x))"
  by (cases m) (simp_all add: ok_value_def)

lemma run_rows_batch:
  assumes ok: "list_all (row_ok D) rows"
  shows "running_tracks D A X op sep dst cs R (take a rows) \<Longrightarrow> contiguous a spans (length rows) \<Longrightarrow>
    ok_value (run_rows D A X rows spans R) =
    ok_value (emap (\<lambda>q. eval_agg D A X op sep dst cs (take (q + 1) rows)) (concat (map (\<lambda>(p, q). replicate (q + 1 - p) q) spans)))"
proof (induction spans arbitrary: a R)
  case (Cons span spans)
  obtain p q where s: "span = (p, q)" by fastforce
  have pq: "p = a" "p \<le> q" "q < length rows" "contiguous (q + 1) spans (length rows)" using Cons.prems(2) by (simp_all add: s)
  let ?f = "\<lambda>q. eval_agg D A X op sep dst cs (take (q + 1) rows)"
  let ?rest = "concat (map (\<lambda>(p, q). replicate (q + 1 - p) q) spans)"
  have t: "take (q + 1) rows = take a rows @ frame_slice rows p q"
    using pq take_add [of a "q + 1 - a" rows] by (simp add: frame_slice_def)
  have "list_all (row_ok D) (frame_slice rows p q)"
    using ok unfolding frame_slice_def by (metis append_take_drop_id list_all_append)
  note L = running.loop [OF Cons.prems(1) this]
  obtain m where m: "Suc q - p = Suc m" using pq by (simp add: Suc_diff_le)
  show ?case
  proof (cases "efold (push_row D A X) R (frame_slice rows p q)")
    case (Inl e)
    then have "vals_bad D A op (agg_vals D dst (take (q + 1) rows))" using L unfolding t by simp
    from eval_agg_bad [OF this, of X sep cs] obtain e' where "?f q = Inl e'" by blast
    then show ?thesis using Inl by (simp add: s m ok_value_def)
  next
    case (Inr R')
    then have R': "running_tracks D A X op sep dst cs R' (take (q + 1) rows)" using L unfolding t by simp
    have v: "?f q = Inr (agg_snapshot D A R')" by (rule eval_agg_tracks [OF R'])
    have rep: "emap ?f (replicate k q) = Inr (replicate k (agg_snapshot D A R'))" for k
      using v by (induction k) simp_all
    have IH: "ok_value (run_rows D A X rows spans R') = ok_value (emap ?f ?rest)" by (rule Cons.IH [OF R' pq(4)])
    have "concat (map (\<lambda>(p, q). replicate (q + 1 - p) q) (span # spans)) = replicate (q + 1 - p) q @ ?rest" by (simp add: s)
    then have e: "emap ?f (concat (map (\<lambda>(p, q). replicate (q + 1 - p) q) (span # spans))) =
        ebind (emap ?f ?rest) (\<lambda>b. Inr (replicate (q + 1 - p) (agg_snapshot D A R') @ b))"
      by (simp only: emap_append rep ebind_Inr)
    show ?thesis unfolding e using Inr IH
      by (simp add: s, cases "run_rows D A X rows spans R'"; cases "emap ?f ?rest") (auto simp: ok_value_def)
  qed
qed (simp add: ok_value_def)

text \<open>\<open>C35\<close>: aggregates over the default frame. For every aggregate, with or without DISTINCT, the one pass of the
  running aggregate gives each row the batch aggregate of the partition up to the last peer of the row, and fails
  exactly when one of these batch aggregates fails.\<close>

theorem default_frame_matches_batch:
  assumes "length keys = length rows" and "rows \<noteq> []" and "list_all (row_ok D) rows"
  shows "ok_value (window_agg D A X op sep dst cs None keys order rows) =
    ok_value (emap (\<lambda>q. eval_agg D A X op sep dst cs (take (q + 1) rows)) (run_ends D order keys))"
proof -
  define spans where "spans = (if order = [] then [(0, length rows - 1)] else group_spans D order keys)"
  have "contiguous 0 spans (length rows)"
    using assms(1,2) spans_contiguous [of 0 keys D order] by (cases rows) (auto simp: spans_def group_spans_def)
  moreover have "running_tracks D A X op sep dst cs (running_new A op sep dst cs) (take 0 rows)" using running_tracks_new by simp
  ultimately have "ok_value (run_rows D A X rows spans (running_new A op sep dst cs)) =
      ok_value (emap (\<lambda>q. eval_agg D A X op sep dst cs (take (q + 1) rows)) (concat (map (\<lambda>(p, q). replicate (q + 1 - p) q) spans)))"
    using run_rows_batch [OF assms(3)] by blast
  moreover have "concat (map (\<lambda>(p, q). replicate (q + 1 - p) q) spans) = run_ends D order keys"
    using assms(1,2) by (cases rows) (simp_all add: spans_def run_ends_def group_spans_def)
  moreover have "window_agg D A X op sep dst cs None keys order rows = run_rows D A X rows spans (running_new A op sep dst cs)"
    by (simp add: window_agg_def spans_def Let_def)
  ultimately show ?thesis by (simp only:)
qed

theorem default_frame_matches_batch_witness:
  "ok_value (window_agg ex_dec ex_arith ex_render AggSum None True False None [[Int64 1], [Int64 1], [Int64 2], [Int64 2]] [(None, None)] ex_rows) =
    Some [Int64 5, Int64 5, Int64 8, Int64 8]"
proof -
  let ?keys = "[[Int64 1], [Int64 1], [Int64 2], [Int64 2]] :: ex_decimal Value list list"
  have enc: "encode_to_vec ex_dec (Int64 i) = Inr (2 # to_le_bytes i)" "encode_to_vec ex_dec Null = Inr [0]" for i
    by (simp_all add: encode_to_vec_def encode_at.simps MAX_DEPTH_def)
  have ne: "to_le_bytes (5 :: i64) \<noteq> to_le_bytes (3 :: i64)" 
  proof
    assume "to_le_bytes (5 :: i64) = to_le_bytes (3 :: i64)"
    then have "from_le_bytes (to_le_bytes (5 :: i64)) = (from_le_bytes (to_le_bytes (3 :: i64)) :: i64)" by simp
    then show False by (simp only: from_to_le_bytes_sized) simp
  qed
  have ok: "list_all (row_ok ex_dec) ex_rows" by (simp add: ex_rows_def row_ok_def enc)
  have ends: "run_ends ex_dec [(None, None)] ?keys = [1, 1, 3, 3]"
    by (simp add: run_ends_def spans_from.simps run_last_def peers_def cmp_maybe_null_def cmp_values.simps cmp_of_def numeral_nat)
  have sum: "eval_agg ex_dec ex_arith ex_render AggSum None True False (take 2 ex_rows) = Inr (Int64 5)"
    "eval_agg ex_dec ex_arith ex_render AggSum None True False (take 4 ex_rows) = Inr (Int64 8)"
    by (simp_all add: eval_agg_def ex_rows_def row_values_def kept_rows_def value_key_def enc ne ne [symmetric] add_values_def checked_def or_null_def)
  have "length ?keys = length ex_rows" "ex_rows \<noteq> []" by (simp_all add: ex_rows_def)
  from default_frame_matches_batch [OF this ok, of ex_arith ex_render AggSum None True False "[(None, None)]"]
  show ?thesis unfolding ends using sum by (simp add: ok_value_def numeral_eq_Suc)
qed

section \<open>Deviations\<close>

text \<open>Frame bounds that miss the standard's frame. A ROWS frame that ends \<open>k PRECEDING\<close> should be empty for the
  first \<open>k\<close> rows; the saturating subtraction makes it the first row of the partition. A RANGE frame that ends
  UNBOUNDED FOLLOWING never contains the last row of the partition, for any start bound, direction and key.\<close>

theorem frame_bounds_miss_rows:
  assumes "p < k" and "p < n" and "\<not> rows_misplaced s (RowPreceding k)"
    and "q < length keys" and "\<not> is_null (keys ! q ! 0)" and "range_row D A v ValUnboundedFollowing keys nf asc q = Inr (lo, hi)"
  shows "rows_frame s (RowPreceding k) n p = [] \<and> [rows_lo s n p..<rows_hi (RowPreceding k) n p + 1] = [0] \<and>
    length keys - 1 \<notin> {lo..hi}"
proof (intro conjI)
  show "rows_frame s (RowPreceding k) n p = []" using assms(1) by (auto simp: rows_frame_def frame_upto_def filter_empty_conv)
  have "rows_lo s n p = 0" "rows_hi (RowPreceding k) n p = 0"
    using assms(1-3) by (cases s; auto simp: rows_lo_def rows_hi_def rows_misplaced_def)+
  then show "[rows_lo s n p..<rows_hi (RowPreceding k) n p + 1] = [0]" by simp
  have "hi = (if length keys - 1 = 0 then 0 else length keys - 1 - 1)" and "length keys - 1 = 0 \<Longrightarrow> 1 \<le> lo"
    using assms(5,6) by (auto simp: range_row_def bound_value_def Let_def result_simps split: if_splits)
  then show "length keys - 1 \<notin> {lo..hi}" by auto
qed

theorem frame_bounds_miss_rows_witness:
  "rows_frame RowUnbounded (RowPreceding 1) 2 0 = [] \<and> [rows_lo RowUnbounded 2 0..<rows_hi (RowPreceding 1) 2 0 + 1] = [0] \<and>
   range_row ex_dec ex_arith ValUnbounded ValUnboundedFollowing [[Int64 1], [Int64 2]] None True 0 = Inr (0, 0) \<and> (1 :: nat) \<notin> {0..0}"
proof -
  have r: "range_row ex_dec ex_arith ValUnbounded ValUnboundedFollowing [[Int64 1], [Int64 2]] None True 0 = Inr (0, 0)"
    by (simp add: range_row_def bound_value_def Let_def)
  then show ?thesis
    using frame_bounds_miss_rows [of 0 1 2 RowUnbounded 0 "[[Int64 1], [Int64 2]]" ex_dec ex_arith ValUnbounded None True 0 0]
    by (simp add: rows_misplaced_def)
qed

text \<open>The sliding SUM of a frame without values is 0 once a value has left it. On a value followed by a NULL,
  each row its own frame, the second row gets 0 where the batch aggregate of the same frame is NULL.\<close>

theorem sliding_sum_of_nulls_is_zero:
  "window_agg D A X AggSum sep False cs (Some (FrameRows RowCurrent RowCurrent)) keys order [(True, Some (Int64 i)), (True, Some Null)] =
     Inr [Int64 i, Int64 0] \<and>
   eval_agg D A X AggSum sep False cs (map ((!) [(True, Some (Int64 i)), (True, Some Null)]) (rows_frame RowCurrent RowCurrent 2 1)) = Inr Null"
proof -
  have i: "- (2 ^ 63) \<le> sint i" "sint i < 2 ^ 63" using sint_i64_bounds [of i] by simp_all
  have f: "rows_frame RowCurrent RowCurrent 2 1 = [1]" by (simp add: rows_frame_def frame_from_def frame_upto_def upt_rec)
  have c: "checked (sint i) = Some i" "checked 0 = Some 0" using i by (simp_all add: checked_def)
  have "window_agg D A X AggSum sep False cs (Some (FrameRows RowCurrent RowCurrent)) keys order [(True, Some (Int64 i)), (True, Some Null)] =
      Inr [Int64 i, Int64 0]"
    by (simp add: window_agg_def frame_bounds_def rows_lo_def rows_hi_def Let_def sliding_new_def slide_push_def add_values_def c or_null_def
        pop_to_def pop_one_def pop_sum_def sub_values_def slide_value_def upt_rec)
  moreover have "eval_agg D A X AggSum sep False cs (map ((!) [(True, Some (Int64 i)), (True, Some Null)]) (rows_frame RowCurrent RowCurrent 2 1)) = Inr Null"
    unfolding f by (simp add: eval_agg_def row_values_def kept_rows_def)
  ultimately show ?thesis by blast
qed

end
