(* ===== verification/Glob.thy ===== *)
theory Glob
  imports Prelude
begin

text \<open>
  The glob matcher of PUBLISH and SUBSCRIBE (\<open>pattern_matches\<close> and \<open>match_class\<close> of \<open>pubsub.rs\<close>). A string is its
  list of code points; a position in the pattern or the text is the suffix that starts there. The matching loop is
  a partial function, since its pattern and text move back and forth: that it returns, with what the pattern means, is
  the theorem.
\<close>

section \<open>The matcher\<close>

type_synonym chars = "nat list"

text \<open>The characters with a meaning in patterns.\<close>

abbreviation c_star :: nat where "c_star \<equiv> 42"
abbreviation c_any :: nat where "c_any \<equiv> 63"
abbreviation c_open :: nat where "c_open \<equiv> 91"
abbreviation c_close :: nat where "c_close \<equiv> 93"
abbreviation c_escape :: nat where "c_escape \<equiv> 92"
abbreviation c_caret :: nat where "c_caret \<equiv> 94"
abbreviation c_dash :: nat where "c_dash \<equiv> 45"

text \<open>The loop of \<open>match_class\<close> over the pattern after the opening bracket and the caret.\<close>

function class_loop :: "bool \<Rightarrow> nat \<Rightarrow> bool \<Rightarrow> bool \<Rightarrow> chars \<Rightarrow> (bool \<times> chars) option" where
  "class_loop negate ch hit fst_pos [] = None"
| "class_loop negate ch hit fst_pos (c # r) =
     (if c = c_close \<and> \<not> fst_pos then Some (hit \<noteq> negate, r)
      else if 2 \<le> length r \<and> r ! 0 = c_dash \<and> r ! 1 \<noteq> c_close then
        class_loop negate ch (hit \<or> c \<le> ch \<and> ch \<le> r ! 1) False (drop 2 r)
      else class_loop negate ch (hit \<or> c = ch) False r)"
  by pat_completeness auto
termination by (relation "measure (\<lambda>(_, _, _, _, p). length p)") auto

text \<open>The argument is the pattern after the opening bracket.\<close>

definition match_class :: "chars \<Rightarrow> nat \<Rightarrow> (bool \<times> chars) option" where
  "match_class p ch =
     (let negate = p \<noteq> [] \<and> hd p = c_caret
      in class_loop negate ch False True (if negate then tl p else p))"

text \<open>
  The state of the loop: the pattern from \<open>pi\<close>, the text from \<open>si\<close> and \<open>star\<close>, which holds the pattern after the
  last star seen and the text from \<open>mark\<close>. \<open>glob_matched\<close> is the value of \<open>matched\<close> with the assignments of its
  branch: \<open>None\<close> when the branch is false.
\<close>

type_synonym glob_state = "chars \<times> chars \<times> (chars \<times> chars) option"

fun glob_matched :: "glob_state \<Rightarrow> glob_state option" where
  "glob_matched ([], s, star) = None"
| "glob_matched (c # q, s, star) =
     (if c = c_star then Some (q, s, Some (q, s))
      else if c = c_any then Some (q, tl s, star)
      else if c = c_open then
        (case match_class q (hd s) of
           Some (hit, r) \<Rightarrow> if hit then Some (r, tl s, star) else None
         | None \<Rightarrow> None)
      else if c = c_escape \<and> q \<noteq> [] then
        (if hd q = hd s then Some (tl q, tl s, star) else None)
      else if c = hd s then Some (q, tl s, star)
      else None)"

partial_function (option) glob_loop :: "chars \<Rightarrow> chars \<Rightarrow> (chars \<times> chars) option \<Rightarrow> bool option" where
  "glob_loop p s star =
     (if s = [] then Some (dropWhile ((=) c_star) p = [])
      else
        (case glob_matched (p, s, star) of
           Some (p', s', star') \<Rightarrow> glob_loop p' s' star'
         | None \<Rightarrow>
             (case star of
                None \<Rightarrow> Some False
              | Some (q, m) \<Rightarrow> glob_loop q (tl m) (Some (q, tl m)))))"

declare glob_loop.simps [code]

definition pattern_matches :: "chars \<Rightarrow> chars \<Rightarrow> bool option" where
  "pattern_matches pattern s = glob_loop pattern s None"

section \<open>What a pattern means\<close>

text \<open>A star, or an item for one character.\<close>

datatype glob_item = Star | One "nat \<Rightarrow> bool"

fun items_match :: "glob_item list \<Rightarrow> chars \<Rightarrow> bool" where
  "items_match [] s \<longleftrightarrow> s = []"
| "items_match (Star # gs) s \<longleftrightarrow> (\<exists>k \<le> length s. items_match gs (drop k s))"
| "items_match (One f # gs) s \<longleftrightarrow> s \<noteq> [] \<and> f (hd s) \<and> items_match gs (tl s)"

text \<open>The members of a bracket class, up to the closing bracket that is not its first character.\<close>

fun class_members :: "bool \<Rightarrow> chars \<Rightarrow> (nat set \<times> chars) option" where
  "class_members fst_pos p =
     (case p of
        [] \<Rightarrow> None
      | c # r \<Rightarrow>
          if c = c_close \<and> \<not> fst_pos then Some ({}, r)
          else
            (case r of
               d # e # r' \<Rightarrow>
                 if d = c_dash \<and> e \<noteq> c_close then map_option (\<lambda>(M, t). ({c..e} \<union> M, t)) (class_members False r')
                 else map_option (\<lambda>(M, t). (insert c M, t)) (class_members False r)
             | _ \<Rightarrow> map_option (\<lambda>(M, t). (insert c M, t)) (class_members False r)))"

declare class_members.simps [simp del]

definition class_item :: "chars \<Rightarrow> ((nat \<Rightarrow> bool) \<times> chars) option" where
  "class_item p =
     (let negate = p \<noteq> [] \<and> hd p = c_caret
      in map_option (\<lambda>(M, r). ((\<lambda>ch. (ch \<in> M) \<noteq> negate), r)) (class_members True (if negate then tl p else p)))"


lemma class_members_shorter: "class_members b p = Some (M, r) \<Longrightarrow> length r < length p"
proof (induction "length p" arbitrary: b p M r rule: less_induct)
  case less
  have "\<exists>q M'. class_members False q = Some (M', r) \<and> length q < length p" if "p \<noteq> []" "tl p \<noteq> r"
    using less(2) that by (subst (asm) class_members.simps) (auto split: list.splits if_splits)
  then show ?case using less(1) less(2)
    by (cases p) (force simp: class_members.simps [of _ "[]"])+
qed

lemma class_item_shorter: "class_item p = Some (f, r) \<Longrightarrow> length r < length p"
  by (cases p) (auto simp: class_item_def Let_def dest!: class_members_shorter split: if_splits)

text \<open>
  The items of a pattern. An escape takes the next character literally, a final one itself; a class that never closes
  matches no character.
\<close>

function glob_items :: "chars \<Rightarrow> glob_item list" where
  "glob_items [] = []"
| "glob_items (c # q) =
     (if c = c_star then Star # glob_items q
      else if c = c_any then One (\<lambda>_. True) # glob_items q
      else if c = c_open then
        (case class_item q of Some (f, r) \<Rightarrow> One f # glob_items r | None \<Rightarrow> [One (\<lambda>_. False)])
      else if c = c_escape \<and> q \<noteq> [] then One ((=) (hd q)) # glob_items (tl q)
      else One ((=) c) # glob_items q)"
  by pat_completeness auto
termination by (relation "measure length") (auto dest!: class_item_shorter)

section \<open>The matcher decides the meaning\<close>

lemma class_loop_members:
  "class_loop negate ch hit b p = map_option (\<lambda>(M, r). ((hit \<or> ch \<in> M) \<noteq> negate, r)) (class_members b p)"
proof (induction negate ch hit b p rule: class_loop.induct)
  case (1 negate ch hit b)
  show ?case by (simp add: class_members.simps)
next
  case (2 negate ch hit b c r)
  show ?case
  proof (cases "c = c_close \<and> \<not> b")
    case True
    then show ?thesis by (simp add: class_members.simps)
  next
    case out: False
    show ?thesis
    proof (cases "2 \<le> length r \<and> r ! 0 = c_dash \<and> r ! 1 \<noteq> c_close")
      case True
      then obtain e r' where r: "r = c_dash # e # r'" "e \<noteq> c_close"
        by (cases r; cases "tl r") auto
      from 2(1) [OF out True] r out show ?thesis
        by (subst class_members.simps) (auto simp: option.map_comp comp_def split_def intro!: option.map_cong0)
    next
      case False
      have m: "class_members b (c # r) = map_option (\<lambda>(M, t). (insert c M, t)) (class_members False r)"
        using out False by (subst class_members.simps) (auto split: list.splits)
      show ?thesis using 2(2) [OF out False] out False
        by (auto simp: m option.map_comp comp_def split_def intro!: option.map_cong0)
    qed
  qed
qed

lemma match_class_item: "match_class p ch = map_option (\<lambda>(f, r). (f ch, r)) (class_item p)"
  by (simp add: match_class_def class_item_def class_loop_members Let_def option.map_comp comp_def split_def)

text \<open>One step of the loop at a pattern that does not start with a star.\<close>

definition glob_retry :: "(chars \<times> chars) option \<Rightarrow> bool option" where
  "glob_retry star = (case star of None \<Rightarrow> Some False | Some (q, m) \<Rightarrow> glob_loop q (tl m) (Some (q, tl m)))"

lemma glob_one:
  assumes "p \<noteq> []" "hd p \<noteq> c_star" "s \<noteq> []"
  obtains f r where "glob_items p = One f # glob_items r" "length r < length p"
    "\<And>star. glob_loop p s star = (if f (hd s) then glob_loop r (tl s) star else glob_retry star)"
proof -
  obtain c q where p: "p = c # q" using assms(1) by (cases p) auto
  consider "c = c_any" | "c = c_open" "class_item q = None" | f r where "c = c_open" "class_item q = Some (f, r)"
    | "c = c_escape" "q \<noteq> []" | "c \<noteq> c_any" "c \<noteq> c_open" "\<not> (c = c_escape \<and> q \<noteq> [])"
    by (cases "class_item q"; cases "c = c_any"; cases "c = c_open"; cases "c = c_escape \<and> q \<noteq> []") auto
  then show thesis
  proof cases
    case 1
    then show thesis using assms p
      by (intro that [of "\<lambda>_. True" q]) (simp_all add: glob_loop.simps [of "_ # _"] glob_retry_def)
  next
    case 2
    then show thesis using assms p
      by (intro that [of "\<lambda>_. False" "[]"]) (simp_all add: glob_loop.simps [of "_ # _"] glob_retry_def match_class_item)
  next
    case (3 f r)
    then show thesis using assms p class_item_shorter [OF 3(2)]
      by (intro that [of f r]) (simp_all add: glob_loop.simps [of "_ # _"] glob_retry_def match_class_item)
  next
    case 4
    then show thesis using assms p
      by (intro that [of "(=) (hd q)" "tl q"]) (simp_all add: glob_loop.simps [of "_ # _"] glob_retry_def)
  next
    case 5
    then have "(c = c_escape \<and> q \<noteq> []) = False" by blast
    with 5(1,2) show thesis using assms p
      by (intro that [of "(=) c" q]) (simp_all only: glob_items.simps, auto simp: glob_loop.simps [of "_ # _"] glob_retry_def)
  qed
qed

lemma glob_star: "s \<noteq> [] \<Longrightarrow> glob_loop (c_star # q) s star = glob_loop q s (Some (q, s))"
  by (subst glob_loop.simps) (simp add: Let_def)

lemma glob_end: "glob_loop p [] star = Some (\<forall>i \<in> set (glob_items p). i = Star)"
proof -
  have "dropWhile ((=) c_star) p = [] \<longleftrightarrow> (\<forall>i \<in> set (glob_items p). i = Star)"
    by (induction p rule: glob_items.induct) (auto split: option.splits)
  then show ?thesis by (subst glob_loop.simps) simp
qed

lemma glob_nothing: "s \<noteq> [] \<Longrightarrow> glob_loop [] s star = glob_retry star"
  by (subst glob_loop.simps) (simp add: glob_retry_def)

fun ones :: "glob_item list \<Rightarrow> nat" where
  "ones [] = 0"
| "ones (Star # gs) = ones gs"
| "ones (One f # gs) = Suc (ones gs)"

lemma ones_append [simp]: "ones (gs @ hs) = ones gs + ones hs"
  by (induction gs rule: ones.induct) auto

lemma items_match_length: "items_match gs s \<Longrightarrow> ones gs \<le> length s"
proof (induction gs s rule: items_match.induct)
  case (2 gs s)
  then show ?case by fastforce
next
  case (3 f gs s)
  then show ?case by (cases s) auto
qed auto

lemma stars_match: "(\<forall>i \<in> set gs. i = Star) \<longleftrightarrow> ones gs = 0"
  by (induction gs rule: ones.induct) auto

lemma items_match_Nil: "items_match gs [] \<longleftrightarrow> ones gs = 0"
  by (induction gs rule: ones.induct) auto

text \<open>Single-character items consume their characters.\<close>

lemma items_match_ones:
  "length fs \<le> length s \<Longrightarrow> items_match (map One fs @ gs) s \<longleftrightarrow>
     list_all2 (\<lambda>f x. f x) fs (take (length fs) s) \<and> items_match gs (drop (length fs) s)"
proof (induction fs arbitrary: s)
  case (Cons f fs)
  then show ?case by (cases s) auto
qed simp

lemma ones_map_One [simp]: "ones (map One fs) = length fs"
  by (induction fs) auto

lemma glob_loop_star:
  assumes "glob_items q = map One fs @ glob_items p" "length p \<le> length q" "length fs \<le> length m"
    "list_all2 (\<lambda>f x. f x) fs (take (length fs) m)"
  shows "glob_loop p (drop (length fs) m) (Some (q, m)) = Some (\<exists>k \<le> length m. items_match (glob_items q) (drop k m))"
  using assms
proof (induction "(length q, length m, length p)" arbitrary: q m p fs
    rule: wf_induct_rule [OF wf_lex_prod [OF wf_less_than wf_lex_prod [OF wf_less_than wf_less_than]]])
  case (1 q m p fs)
  let ?s = "drop (length fs) m"
  have IH: "glob_loop p' (drop (length fs') m') (Some (q', m')) = Some (\<exists>k \<le> length m'. items_match (glob_items q') (drop k m'))"
    if "length q' < length q \<or> length q' = length q \<and> (length m' < length m \<or> length m' = length m \<and> length p' < length p)"
      "glob_items q' = map One fs' @ glob_items p'" "length p' \<le> length q'" "length fs' \<le> length m'"
      "list_all2 (\<lambda>f x. f x) fs' (take (length fs') m')" for p' fs' m' q'
    using 1(1) [of q' m' p' fs'] that by auto
  have at0: "items_match (glob_items q) m \<longleftrightarrow> items_match (glob_items p) ?s"
    using 1 by (simp add: items_match_ones)
  have retry: "glob_retry (Some (q, m)) = Some (\<exists>k \<le> length m. items_match (glob_items q) (drop k m))"
    if rest: "?s \<noteq> []" and miss: "\<not> items_match (glob_items p) ?s"
  proof -
    obtain x m' where m: "m = x # m'" using rest by (cases m) auto
    have "glob_retry (Some (q, m)) = Some (\<exists>k \<le> length m'. items_match (glob_items q) (drop k m'))"
      using IH [of q m' q "[]"] m by (simp add: glob_retry_def)
    also have "(\<exists>k \<le> length m'. items_match (glob_items q) (drop k m'))
      \<longleftrightarrow> (\<exists>k \<le> length m. items_match (glob_items q) (drop k m))"
      using miss at0 m by (metis Suc_le_mono drop_0 drop_Suc_Cons length_Cons not0_implies_Suc)
    finally show ?thesis .
  qed
  consider "?s = []" | "?s \<noteq> []" "p = []" | p' where "?s \<noteq> []" "p = c_star # p'"
    | "p \<noteq> []" "hd p \<noteq> c_star" "?s \<noteq> []"
    by (cases p) auto
  then show ?case
  proof cases
    case 1
    have "items_match (glob_items q) (drop k m) \<longrightarrow> ones (glob_items p) = 0" if "k \<le> length m" for k
      using items_match_length [of "glob_items q" "drop k m"] "1.prems" 1 by auto
    moreover have "items_match (glob_items q) (drop 0 m)" if "ones (glob_items p) = 0"
      using at0 1 that by (simp add: items_match_Nil)
    ultimately show ?thesis using 1 by (auto simp: glob_end stars_match)
  next
    case 2
    then show ?thesis using retry by (simp add: glob_nothing)
  next
    case (3 p')
    have "glob_loop p ?s (Some (q, m)) = Some (\<exists>k \<le> length ?s. items_match (glob_items p') (drop k ?s))"
      using IH [of p' ?s p' "[]"] 3 "1.prems" by (simp add: glob_star)
    also have "(\<exists>k \<le> length ?s. items_match (glob_items p') (drop k ?s))
      \<longleftrightarrow> (\<exists>k \<le> length m. items_match (glob_items q) (drop k m))" (is "?l \<longleftrightarrow> ?r")
    proof
      assume ?l
      then have "items_match (glob_items q) m" using at0 3 by auto
      then show ?r by (metis drop_0 le0)
    next
      assume ?r
      then obtain k where k: "k \<le> length m" "items_match (glob_items q) (drop k m)" by blast
      have fits: "length fs \<le> length (drop k m)"
        using items_match_length [OF k(2)] "1.prems"(1) by simp
      with k obtain j where "j \<le> length (drop (length fs) (drop k m))" "items_match (glob_items p') (drop j (drop (length fs) (drop k m)))"
        using k(2) "1.prems"(1) 3 by (auto simp: items_match_ones)
      then show ?l using k(1) fits by (intro exI [of _ "k + j"]) (auto simp: add_ac)
    qed
    finally show ?thesis .
  next
    case 4
    then obtain f r where fr: "glob_items p = One f # glob_items r" "length r < length p"
      "\<And>star. glob_loop p ?s star = (if f (hd ?s) then glob_loop r (tl ?s) star else glob_retry star)"
      by (rule glob_one) blast
    have len: "length fs < length m" using 4 by simp
    show ?thesis
    proof (cases "f (hd ?s)")
      case True
      have "list_all2 (\<lambda>f x. f x) (fs @ [f]) (take (length (fs @ [f])) m)"
        using "1.prems"(4) True len by (auto simp: take_Suc_conv_app_nth hd_drop_conv_nth intro: list_all2_appendI)
      then have "glob_loop r (drop (length (fs @ [f])) m) (Some (q, m))
          = Some (\<exists>k \<le> length m. items_match (glob_items q) (drop k m))"
        using IH [of q m r "fs @ [f]"] fr "1.prems" len by simp
      then show ?thesis using fr(3) True by (simp add: drop_Suc tl_drop)
    next
      case False
      then show ?thesis using fr retry 4 by simp
    qed
  qed
qed

lemma glob_loop_meaning: "glob_loop p s None = Some (items_match (glob_items p) s)"
proof (induction "length p" arbitrary: p s rule: less_induct)
  case less
  consider "s = []" | "s \<noteq> []" "p = []" | p' where "s \<noteq> []" "p = c_star # p'" | "p \<noteq> []" "hd p \<noteq> c_star" "s \<noteq> []"
    by (cases p) auto
  then show ?case
  proof cases
    case 1
    then show ?thesis by (simp add: glob_end stars_match items_match_Nil)
  next
    case 2
    then show ?thesis by (simp add: glob_nothing glob_retry_def)
  next
    case (3 p')
    then show ?thesis using glob_loop_star [of p' "[]" p' s] by (simp add: glob_star)
  next
    case 4
    then obtain f r where fr: "glob_items p = One f # glob_items r" "length r < length p"
      "\<And>star. glob_loop p s star = (if f (hd s) then glob_loop r (tl s) star else glob_retry star)"
      by (rule glob_one) blast
    then show ?thesis using less [OF fr(2)] 4 by (simp add: glob_retry_def)
  qed
qed

text \<open>\<open>C40\<close>: the glob matcher returns on every pattern and every text, and its answer is the meaning of the pattern: the
  pattern read as a sequence of stars and single-character items, where a star stands for any run of characters.
  Keeping only the last star to come back to loses no match.
\<close>

theorem pattern_matches_meaning: "pattern_matches pattern s = Some (items_match (glob_items pattern) s)"
  by (simp add: pattern_matches_def glob_loop_meaning)

end
