(* ===== verification/Pubsub.thy ===== *)
theory Pubsub
  imports Glob "HOL-Library.AList" "HOL-Library.List_Lexorder" "HOL-Library.Product_Lexorder"
begin

text \<open>
  The publish/subscribe module of the server (\<open>pubsub.rs\<close>): the message store with its retention, the chunked replay
  with its adaptive window, and the registry of live subscribers with its limits and counters. The store is the list of
  rows of \<open>_pubsub_messages\<close> in id order, the statements of the module as their effect on those rows; whether the engine
  executes a statement is an argument. The hash maps of the registry that the code iterates over are association lists,
  in whatever order the iteration has; sends to a connection's bounded channel have the outcome an argument gives.
\<close>

section \<open>Strings\<close>

text \<open>The bytes of a character in UTF-8, and of a string (\<open>str::len\<close>).\<close>

definition char_bytes :: "nat \<Rightarrow> nat" where
  "char_bytes c = (if c < 0x80 then 1 else if c < 0x800 then 2 else if c < 0x10000 then 3 else 4)"

definition str_len :: "chars \<Rightarrow> nat" where
  "str_len s = sum_list (map char_bytes s)"

section \<open>The message store\<close>

record message =
  msg_id :: int
  msg_channel :: chars
  msg_ts :: int
  msg_payload :: chars

datatype store_error = InsertFailed | RetentionFailed

definition MAX_STORE_ROWS :: int where "MAX_STORE_ROWS = 200000"

definition MAX_STORE_BYTES :: int where "MAX_STORE_BYTES = 512 * 1024 * 1024"

definition keep_rows_for :: "nat \<Rightarrow> int" where
  "keep_rows_for payload_len =
     (let by_bytes = MAX_STORE_BYTES div int (max payload_len 1)
      in min MAX_STORE_ROWS (max by_bytes 1))"

text \<open>The largest id of the table, 0 when it is empty (\<open>max_autoinc\<close>, the counter of \<open>autoinc_next_for\<close> less one).\<close>

definition query_max_id :: "message list \<Rightarrow> int" where
  "query_max_id rows = foldl (\<lambda>a m. max a (msg_id m)) 0 rows"

text \<open>The flags say whether the engine executes the INSERT and the DELETE.\<close>

definition store_insert_keeping ::
  "bool \<Rightarrow> bool \<Rightarrow> chars \<Rightarrow> int \<Rightarrow> chars \<Rightarrow> int \<Rightarrow> message list \<Rightarrow> (store_error + int) \<times> message list" where
  "store_insert_keeping insert_ok delete_ok channel ts body keep rows =
     (if \<not> insert_ok then (Inl InsertFailed, rows)
      else
        (let ident = query_max_id rows + 1;
             rows1 = rows @ [\<lparr>msg_id = ident, msg_channel = channel, msg_ts = ts, msg_payload = body\<rparr>];
             threshold = ident - max keep 1
         in if 0 < threshold then
              (if delete_ok then (Inr ident, filter (\<lambda>m. \<not> msg_id m \<le> threshold) rows1)
               else (Inl RetentionFailed, rows1))
            else (Inr ident, rows1)))"

definition store_insert ::
  "bool \<Rightarrow> bool \<Rightarrow> chars \<Rightarrow> int \<Rightarrow> chars \<Rightarrow> message list \<Rightarrow> (store_error + int) \<times> message list" where
  "store_insert insert_ok delete_ok channel ts body rows =
     store_insert_keeping insert_ok delete_ok channel ts body (keep_rows_for (str_len body)) rows"

definition query_history :: "int \<Rightarrow> int \<Rightarrow> message list \<Rightarrow> message list" where
  "query_history after_id upto_id rows =
     (if upto_id \<le> after_id then [] else filter (\<lambda>m. after_id < msg_id m \<and> msg_id m \<le> upto_id) rows)"

definition query_history_chunk :: "int \<Rightarrow> int \<Rightarrow> int \<Rightarrow> message list \<Rightarrow> message list" where
  "query_history_chunk after_id upto_id limit rows =
     (if upto_id \<le> after_id \<or> limit \<le> 0 then []
      else take (nat limit) (filter (\<lambda>m. after_id < msg_id m \<and> msg_id m \<le> upto_id) rows))"

definition store_trim :: "chars \<Rightarrow> int \<Rightarrow> message list \<Rightarrow> nat \<times> message list" where
  "store_trim channel keep rows =
     (let keep_ids = take (nat keep) (map msg_id (rev (filter (\<lambda>m. msg_channel m = channel) rows)))
      in if keep_ids = [] then (0, rows)
         else
           (let threshold = List.last keep_ids;
                gone = (\<lambda>m. msg_channel m = channel \<and> msg_id m < threshold)
            in (length (filter gone rows), filter (\<lambda>m. \<not> gone m) rows)))"

section \<open>The replay window\<close>

definition REPLAY_CHUNK_ROWS :: int where "REPLAY_CHUNK_ROWS = 512"

definition REPLAY_CHUNK_BYTES :: nat where "REPLAY_CHUNK_BYTES = 1024 * 1024"

record replay_window =
  win_rows :: int
  win_max_row :: nat

definition window_new :: replay_window where
  "window_new = \<lparr>win_rows = 1, win_max_row = 0\<rparr>"

definition window_advance :: "nat \<Rightarrow> nat \<Rightarrow> nat \<Rightarrow> replay_window \<Rightarrow> replay_window" where
  "window_advance chunk_rows chunk_bytes chunk_max_row w =
     (if chunk_rows = 0 then w
      else
        (let max_row = max (win_max_row w) chunk_max_row;
             avg = chunk_bytes div chunk_rows;
             denom = int (max (max max_row avg) 1)
         in \<lparr>win_rows = min (max (int REPLAY_CHUNK_BYTES div denom) 1) REPLAY_CHUNK_ROWS, win_max_row = max_row\<rparr>))"

section \<open>The registry\<close>

type_synonym conn_id = u64

datatype sub_kind = KChannel | KPattern

definition i64_max :: int where "i64_max = 2 ^ 63 - 1"

record 'tx sub =
  sub_tx :: 'tx
  skip_through :: int

type_synonym 'tx sub_map = "(chars \<times> (conn_id \<times> 'tx sub) list) list"

record 'tx registry =
  reg_channels :: "'tx sub_map"
  reg_patterns :: "'tx sub_map"
  reg_counts :: "conn_id \<Rightarrow> (nat \<times> nat) option"
  reg_total :: nat

definition MAX_SUBS_PER_CONN :: nat where "MAX_SUBS_PER_CONN = 4096"

definition MAX_SUBS_TOTAL :: nat where "MAX_SUBS_TOTAL = 200000"

definition registry_new :: "'tx registry" where
  "registry_new = \<lparr>reg_channels = [], reg_patterns = [], reg_counts = (\<lambda>_. None), reg_total = 0\<rparr>"

text \<open>The counter of \<open>next_conn_id\<close>: the id handed out and the next one.\<close>

definition next_conn_id :: "u64 \<Rightarrow> conn_id \<times> u64" where
  "next_conn_id n = (n, n + 1)"

definition kind_map :: "sub_kind \<Rightarrow> 'tx registry \<Rightarrow> 'tx sub_map" where
  "kind_map kind r = (case kind of KChannel \<Rightarrow> reg_channels r | KPattern \<Rightarrow> reg_patterns r)"

definition set_kind_map :: "sub_kind \<Rightarrow> 'tx sub_map \<Rightarrow> 'tx registry \<Rightarrow> 'tx registry" where
  "set_kind_map kind m r =
     (case kind of KChannel \<Rightarrow> r\<lparr>reg_channels := m\<rparr> | KPattern \<Rightarrow> r\<lparr>reg_patterns := m\<rparr>)"

definition find_sub :: "chars \<Rightarrow> conn_id \<Rightarrow> 'tx sub_map \<Rightarrow> 'tx sub option" where
  "find_sub name conn m = (case map_of m name of None \<Rightarrow> None | Some subs \<Rightarrow> map_of subs conn)"

definition held_counts :: "conn_id \<Rightarrow> 'tx registry \<Rightarrow> nat \<times> nat" where
  "held_counts conn r = (case reg_counts r conn of None \<Rightarrow> (0, 0) | Some cp \<Rightarrow> cp)"

definition conn_count :: "'tx registry \<Rightarrow> conn_id \<Rightarrow> nat" where
  "conn_count r conn = (let (c, p) = held_counts conn r in c + p)"

datatype register_error = LimitPerConnection | LimitNodeWide

definition register ::
  "conn_id \<Rightarrow> sub_kind \<Rightarrow> chars \<Rightarrow> 'tx \<Rightarrow> 'tx registry \<Rightarrow> (register_error + nat) \<times> 'tx registry" where
  "register conn kind name t r =
     (let already = find_sub name conn (kind_map kind r) \<noteq> None;
          (held_c, held_p) = held_counts conn r
      in if \<not> already \<and> MAX_SUBS_PER_CONN \<le> held_c + held_p then (Inl LimitPerConnection, r)
         else if \<not> already \<and> MAX_SUBS_TOTAL \<le> reg_total r then (Inl LimitNodeWide, r)
         else
           (let r1 = (if already then r
                      else r\<lparr>reg_total := reg_total r + 1,
                             reg_counts := (reg_counts r)(conn \<mapsto>
                               (case kind of KChannel \<Rightarrow> (held_c + 1, held_p) | KPattern \<Rightarrow> (held_c, held_p + 1)))\<rparr>);
                m = kind_map kind r1;
                subs = (case map_of m name of None \<Rightarrow> [] | Some subs \<Rightarrow> subs);
                entry = \<lparr>sub_tx = t, skip_through = i64_max\<rparr>;
                r2 = set_kind_map kind (AList.update name (AList.update conn entry subs) m) r1
            in (Inr (conn_count r2 conn), r2)))"

definition dec :: "sub_kind \<Rightarrow> conn_id \<Rightarrow> 'tx registry \<Rightarrow> 'tx registry" where
  "dec kind conn r =
     (let r1 = r\<lparr>reg_total := reg_total r - 1\<rparr>
      in case reg_counts r conn of
           None \<Rightarrow> r1
         | Some (c, p) \<Rightarrow>
             (let entry = (case kind of KChannel \<Rightarrow> (c - 1, p) | KPattern \<Rightarrow> (c, p - 1))
              in r1\<lparr>reg_counts := (reg_counts r)(conn := if entry = (0, 0) then None else Some entry)\<rparr>))"

definition arm_filter :: "conn_id \<Rightarrow> sub_kind \<Rightarrow> chars \<Rightarrow> int \<Rightarrow> 'tx registry \<Rightarrow> 'tx registry" where
  "arm_filter conn kind name watermark r =
     set_kind_map kind
       (AList.map_entry name (AList.map_entry conn (\<lambda>s. s\<lparr>skip_through := watermark\<rparr>)) (kind_map kind r)) r"

text \<open>
  The removals of a loop over names and connections: the connections whose entry was there, one for each removal that
  took something out, and the map afterwards.
\<close>

fun remove_subs :: "(chars \<times> conn_id) list \<Rightarrow> 'tx sub_map \<Rightarrow> conn_id list \<times> 'tx sub_map" where
  "remove_subs [] m = ([], m)"
| "remove_subs ((name, conn) # ds) m =
     (if find_sub name conn m = None then remove_subs ds m
      else
        (let (gone, m') = remove_subs ds (AList.map_entry name (AList.delete conn) m)
         in (conn # gone, m')))"

definition retain_nonempty :: "'tx sub_map \<Rightarrow> 'tx sub_map" where
  "retain_nonempty m = filter (\<lambda>(_, subs). subs \<noteq> []) m"

definition unregister :: "conn_id \<Rightarrow> sub_kind \<Rightarrow> chars list \<Rightarrow> 'tx registry \<Rightarrow> nat \<times> 'tx registry" where
  "unregister conn kind names r =
     (let m = kind_map kind r;
          targets = map (\<lambda>n. (n, conn)) (if names = [] then map fst m else names);
          (removed, m1) = remove_subs targets m;
          r1 = set_kind_map kind (retain_nonempty m1) r;
          r2 = (dec kind conn ^^ length removed) r1
      in (conn_count r2 conn, r2))"

definition remove_conn :: "conn_id \<Rightarrow> 'tx registry \<Rightarrow> 'tx registry" where
  "remove_conn conn r =
     (let (ch, channels1) = remove_subs (map (\<lambda>(n, _). (n, conn)) (reg_channels r)) (reg_channels r);
          (pat, patterns1) = remove_subs (map (\<lambda>(n, _). (n, conn)) (reg_patterns r)) (reg_patterns r)
      in \<lparr>reg_channels = retain_nonempty channels1, reg_patterns = retain_nonempty patterns1,
          reg_counts = (reg_counts r)(conn := None), reg_total = reg_total r - (length ch + length pat)\<rparr>)"

section \<open>Delivery\<close>

datatype push = Push (push_pattern: "chars option") (push_channel: chars) (push_id: int) (push_ts: int) (push_payload: chars)

definition push_frame :: "chars option \<Rightarrow> chars \<Rightarrow> int \<Rightarrow> int \<Rightarrow> chars \<Rightarrow> push" where
  "push_frame pattern channel ident ts body = Push pattern channel ident ts body"

datatype send_result = Sent | Full | Closed

definition glob_hit :: "chars \<Rightarrow> chars \<Rightarrow> bool" where
  "glob_hit pattern s \<longleftrightarrow> pattern_matches pattern s = Some True"

text \<open>The loop over the subscribers of one name: who got the frame, and whose channel is closed.\<close>

definition push_subs ::
  "('tx \<Rightarrow> push \<Rightarrow> send_result) \<Rightarrow> push \<Rightarrow> (conn_id \<times> 'tx sub) list \<Rightarrow> conn_id list \<times> conn_id list" where
  "push_subs outcome frame subs =
     (let live = filter (\<lambda>(_, s). \<not> push_id frame \<le> skip_through s) subs
      in (map fst (filter (\<lambda>(_, s). outcome (sub_tx s) frame = Sent) live),
          map fst (filter (\<lambda>(_, s). outcome (sub_tx s) frame = Closed) live)))"

text \<open>
  The result is the number of connections reached, the frames sent, each with its connection, and the registry after
  the closed connections are pruned.
\<close>

definition notify ::
  "('tx \<Rightarrow> push \<Rightarrow> send_result) \<Rightarrow> chars \<Rightarrow> int \<Rightarrow> int \<Rightarrow> chars \<Rightarrow> 'tx registry
    \<Rightarrow> nat \<times> (conn_id \<times> push) list \<times> 'tx registry" where
  "notify outcome channel ident ts body r =
     (let exact = (case map_of (reg_channels r) channel of None \<Rightarrow> [] | Some subs \<Rightarrow> subs);
          frame = push_frame None channel ident ts body;
          (reached_exact, dead_exact) = push_subs outcome frame exact;
          pats = map (\<lambda>(p, subs). (p, push_subs outcome (push_frame (Some p) channel ident ts body) subs))
                   (filter (\<lambda>(p, _). glob_hit p channel) (reg_patterns r));
          sent = map (\<lambda>c. (c, frame)) reached_exact
            @ concat (map (\<lambda>(p, reached, _). map (\<lambda>c. (c, push_frame (Some p) channel ident ts body)) reached) pats);
          (gone_exact, channels1) = remove_subs (map (\<lambda>c. (channel, c)) dead_exact) (reg_channels r);
          r1 = fold (dec KChannel) gone_exact (r\<lparr>reg_channels := retain_nonempty channels1\<rparr>);
          dead_pattern = concat (map (\<lambda>(p, _, dead). map (\<lambda>c. (p, c)) dead) pats);
          (gone_pattern, patterns1) = remove_subs dead_pattern (reg_patterns r1);
          r2 = fold (dec KPattern) gone_pattern (r1\<lparr>reg_patterns := retain_nonempty patterns1\<rparr>)
      in (length (remdups (map fst sent)), sent, r2))"

definition count_receivers :: "chars \<Rightarrow> 'tx registry \<Rightarrow> nat" where
  "count_receivers channel r =
     length (remdups
       ((case map_of (reg_channels r) channel of None \<Rightarrow> [] | Some subs \<Rightarrow> map fst subs)
        @ concat (map (\<lambda>(_, subs). map fst subs) (filter (\<lambda>(p, _). glob_hit p channel) (reg_patterns r)))))"

text \<open>Strings compare by their bytes, which for UTF-8 is the order of their characters.\<close>

definition registry_channels :: "chars option \<Rightarrow> 'tx registry \<Rightarrow> chars list" where
  "registry_channels flt r =
     sort (filter (\<lambda>c. case flt of None \<Rightarrow> True | Some p \<Rightarrow> glob_hit p c) (map fst (reg_channels r)))"

definition numsub :: "chars list \<Rightarrow> 'tx registry \<Rightarrow> (chars \<times> nat) list" where
  "numsub names r =
     sort (map (\<lambda>n. (n, case map_of (reg_channels r) n of None \<Rightarrow> 0 | Some m \<Rightarrow> length m))
       (if names = [] then map fst (reg_channels r) else names))"

definition numpat :: "'tx registry \<Rightarrow> nat" where
  "numpat r = sum_list (map (\<lambda>(_, subs). length subs) (reg_patterns r))"

end
