(* ===== verification/Pubsub_Props.thy ===== *)
theory Pubsub_Props
  imports Pubsub
begin

text \<open>
  The registry of subscribers: what the maps hold is what the counters say, whatever sequence of operations runs, and the
  limits hold; and what one operation does to one subscription, on which the subscribe handler rests.
\<close>

section \<open>The counters of the registry\<close>

text \<open>What the maps hold: the entries of a connection, and all entries.\<close>

definition held_in :: "conn_id \<Rightarrow> 'tx sub_map \<Rightarrow> nat" where
  "held_in conn m = length (filter (\<lambda>(_, subs). conn \<in> fst ` set subs) m)"

definition entries_in :: "'tx sub_map \<Rightarrow> nat" where
  "entries_in m = sum_list (map (\<lambda>(_, subs). length subs) m)"

definition map_ok :: "'tx sub_map \<Rightarrow> bool" where
  "map_ok m \<longleftrightarrow> distinct (map fst m) \<and> (\<forall>(_, subs) \<in> set m. distinct (map fst subs))"

definition pair_count :: "nat \<times> nat \<Rightarrow> (nat \<times> nat) option" where
  "pair_count cp = (if cp = (0, 0) then None else Some cp)"

definition counted :: "'tx registry \<Rightarrow> bool" where
  "counted r \<longleftrightarrow> map_ok (reg_channels r) \<and> map_ok (reg_patterns r)
     \<and> (\<forall>c. reg_counts r c = pair_count (held_in c (reg_channels r), held_in c (reg_patterns r)))
     \<and> reg_total r = entries_in (reg_channels r) + entries_in (reg_patterns r)"

definition within_limits :: "'tx registry \<Rightarrow> bool" where
  "within_limits r \<longleftrightarrow> reg_total r \<le> MAX_SUBS_TOTAL \<and> (\<forall>c. conn_count r c \<le> MAX_SUBS_PER_CONN)"

lemma find_sub_mem: "find_sub n c m = None \<longleftrightarrow> (\<forall>subs. map_of m n = Some subs \<longrightarrow> c \<notin> fst ` set subs)"
  by (cases "map_of m n") (simp add: find_sub_def, simp add: find_sub_def map_of_eq_None_iff)

text \<open>An entry changed in place: how the entries of one name change is how the counts change.\<close>

lemma map_of_split:
  assumes "map_of m n = Some subs"
  obtains ms ms' where "m = ms @ (n, subs) # ms'" "n \<notin> fst ` set ms"
  using assms
proof (induction m arbitrary: thesis)
  case (Cons x m)
  show ?case
  proof (cases "fst x = n")
    case True
    then show ?thesis using Cons.prems(1) [of "[]" m] Cons.prems(2) by (cases x) auto
  next
    case False
    with Cons.prems(2) have "map_of m n = Some subs" by (cases x) auto
    then obtain ms ms' where "m = ms @ (n, subs) # ms'" "n \<notin> fst ` set ms" using Cons.IH by blast
    then show ?thesis using Cons.prems(1) [of "x # ms" ms'] False by simp
  qed
qed simp

lemma map_entry_id: "n \<notin> fst ` set m \<Longrightarrow> AList.map_entry n f m = m"
  by (induction m) (auto simp: image_iff)

lemma map_entry_split:
  assumes "n \<notin> fst ` set ms" "distinct (map fst (ms @ (n, subs) # ms'))"
  shows "AList.map_entry n f (ms @ (n, subs) # ms') = ms @ (n, f subs) # ms'"
  using assms by (induction ms) (auto simp: map_entry_id)

lemma update_split:
  assumes "n \<notin> fst ` set ms"
  shows "AList.update n v (ms @ (n, subs) # ms') = ms @ (n, v) # ms'"
  using assms by (induction ms) auto

lemma update_new: "n \<notin> fst ` set m \<Longrightarrow> AList.update n v m = m @ [(n, v)]"
  by (induction m) auto

lemma entries_in_split [simp]: "entries_in (ms @ (n, subs) # ms') = entries_in ms + length subs + entries_in ms'"
  and held_in_split [simp]: "held_in c (ms @ (n, subs) # ms') = held_in c ms + (if c \<in> fst ` set subs then 1 else 0) + held_in c ms'"
  by (auto simp: entries_in_def held_in_def)

lemma entries_in_Nil [simp]: "entries_in [] = 0" and held_in_Nil [simp]: "held_in c [] = 0"
  by (simp_all add: entries_in_def held_in_def)

lemma entries_in_snoc [simp]: "entries_in (ms @ [(n, subs)]) = entries_in ms + length subs"
  and held_in_snoc [simp]: "held_in c (ms @ [(n, subs)]) = held_in c ms + (if c \<in> fst ` set subs then 1 else 0)"
  by (auto simp: entries_in_def held_in_def)

lemma length_delete: "distinct (map fst al) \<Longrightarrow> k \<in> fst ` set al \<Longrightarrow> Suc (length (AList.delete k al)) = length al"
proof (induction al)
  case (Cons x al)
  then show ?case by (cases x) (auto simp: AList.delete_simps AList.delete_idem)
qed simp

lemma length_update:
  "length (AList.update k v al) = (if k \<in> fst ` set al then length al else Suc (length al))"
  by (induction al) auto

text \<open>One removal.\<close>

lemma remove_one:
  assumes "map_ok m" "find_sub n c m \<noteq> None"
  defines "m' \<equiv> AList.map_entry n (AList.delete c) m"
  shows "map_ok m'" "Suc (entries_in m') = entries_in m"
    "held_in d m = held_in d m' + (if d = c then 1 else 0)"
proof -
  obtain subs where s: "map_of m n = Some subs" "c \<in> fst ` set subs"
    using assms(2) by (auto simp: find_sub_mem)
  from s(1) obtain ms ms' where m: "m = ms @ (n, subs) # ms'" "n \<notin> fst ` set ms" by (rule map_of_split)
  have d: "distinct (map fst m)" "distinct (map fst subs)" using assms(1) m by (auto simp: map_ok_def)
  have m': "m' = ms @ (n, AList.delete c subs) # ms'"
    using map_entry_split [of n ms subs ms'] m d by (simp add: m'_def)
  show "map_ok m'" using assms(1) m by (auto simp: m' map_ok_def AList.distinct_delete)
  show "Suc (entries_in m') = entries_in m" using length_delete [OF d(2) s(2)] m(1) by (simp add: m')
  show "held_in d m = held_in d m' + (if d = c then 1 else 0)"
    using s(2) m(1) by (auto simp: m' AList.delete_eq)
qed

lemma remove_subs_counts:
  assumes "map_ok m" "remove_subs ds m = (gone, m')"
  shows "map_ok m' \<and> entries_in m = entries_in m' + length gone
     \<and> (\<forall>d. held_in d m = held_in d m' + count_list gone d)"
  using assms
proof (induction ds m arbitrary: gone m' rule: remove_subs.induct)
  case (2 n c ds m)
  show ?case
  proof (cases "find_sub n c m = None")
    case True
    then show ?thesis using 2 by simp
  next
    case False
    let ?m1 = "AList.map_entry n (AList.delete c) m"
    obtain g where g: "remove_subs ds ?m1 = (g, m')" "gone = c # g"
      using 2(4) False by (auto split: prod.splits)
    note one = remove_one [OF 2(3) False]
    from 2(2) [OF False one(1) g(1)] show ?thesis using one(2,3) g(2) by auto
  qed
qed auto

lemma retain_counts:
  "map_ok m \<Longrightarrow> map_ok (retain_nonempty m)" "entries_in (retain_nonempty m) = entries_in m"
  "held_in c (retain_nonempty m) = held_in c m"
  by (induction m) (auto simp: map_ok_def retain_nonempty_def entries_in_def held_in_def distinct_map)


lemma dec_counts:
  "reg_channels (dec k c r) = reg_channels r" "reg_patterns (dec k c r) = reg_patterns r"
  "reg_total (dec k c r) = reg_total r - 1"
  by (auto simp: dec_def Let_def split: option.splits)

lemma reg_counts_dec:
  assumes "reg_counts r c = pair_count (a, b)"
  shows "reg_counts (dec KChannel c r) = (reg_counts r)(c := pair_count (a - 1, b))"
    "reg_counts (dec KPattern c r) = (reg_counts r)(c := pair_count (a, b - 1))"
  using assms by (auto simp: dec_def pair_count_def Let_def split: if_splits)

text \<open>The counters after a loop that calls \<open>dec\<close> for every removed entry.\<close>

lemma fold_dec:
  assumes "\<And>c. reg_counts r c = pair_count (f c + (if k = KChannel then count_list gone c else 0),
                                            g c + (if k = KPattern then count_list gone c else 0))"
    "reg_total r = n + length gone"
  shows "reg_counts (fold (dec k) gone r) c = pair_count (f c, g c) \<and> reg_total (fold (dec k) gone r) = n
    \<and> reg_channels (fold (dec k) gone r) = reg_channels r \<and> reg_patterns (fold (dec k) gone r) = reg_patterns r"
  using assms
proof (induction gone arbitrary: r)
  case (Cons d gone)
  let ?r = "dec k d r"
  have "reg_counts ?r c = pair_count (f c + (if k = KChannel then count_list gone c else 0),
                                      g c + (if k = KPattern then count_list gone c else 0))" for c
    using Cons.prems(1) [of c] Cons.prems(1) [of d]
    by (cases k) (auto simp: reg_counts_dec [OF Cons.prems(1) [of d]])
  then show ?case using Cons.IH [of ?r] Cons.prems(2) by (simp add: dec_counts)
qed auto


text \<open>What the removals leave.\<close>

lemma map_entry_at: "map_of (AList.map_entry n f m) n' = (if n' = n then map_option f (map_of m n) else map_of m n')"
  by (induction m) auto

lemma find_sub_map_entry:
  "find_sub n' c' (AList.map_entry n f m) =
     (if n' = n then (case map_of m n of None \<Rightarrow> None | Some subs \<Rightarrow> map_of (f subs) c') else find_sub n' c' m)"
  by (cases "map_of m n") (simp_all add: find_sub_def map_entry_at)

lemma names_map_entry [simp]: "map fst (AList.map_entry n f m) = map fst m"
  by (induction m) auto

lemma remove_subs_find:
  "remove_subs ds m = (gone, m') \<Longrightarrow>
     map fst m' = map fst m \<and> set gone \<subseteq> snd ` set ds
     \<and> (\<forall>n c. find_sub n c m' = (if (n, c) \<in> set ds then None else find_sub n c m))"
proof (induction ds m arbitrary: gone m' rule: remove_subs.induct)
  case (2 n c ds m)
  show ?case
  proof (cases "find_sub n c m = None")
    case True
    with 2(3) have "remove_subs ds m = (gone, m')" by simp
    from 2(1) [OF True this] True show ?thesis by auto
  next
    case False
    let ?m1 = "AList.map_entry n (AList.delete c) m"
    obtain g where g: "remove_subs ds ?m1 = (g, m')" "gone = c # g"
      using 2(3) False by (auto split: prod.splits)
    have "find_sub n' c' ?m1 = (if (n', c') = (n, c) then None else find_sub n' c' m)" for n' c'
      unfolding find_sub_map_entry by (cases "map_of m n") (auto simp: AList.delete_conv' find_sub_def)
    with 2(2) [OF False g(1)] g(2) show ?thesis by auto
  qed
qed auto

lemma held_in_0: "map_ok m \<Longrightarrow> held_in c m = 0 \<longleftrightarrow> (\<forall>n. find_sub n c m = None)"
  by (force simp: held_in_def map_ok_def find_sub_mem filter_empty_conv dest: map_of_SomeD map_of_is_SomeI)

lemma retain_find: "map_ok m \<Longrightarrow> find_sub n c (retain_nonempty m) = find_sub n c m"
proof (induction m)
  case (Cons x m)
  have "map_of (retain_nonempty m) n = None" if "n = fst x"
    using Cons.prems that by (auto simp: map_ok_def retain_nonempty_def map_of_eq_None_iff)
  with Cons show ?case
    by (cases x) (auto simp: find_sub_def retain_nonempty_def map_ok_def split: option.splits)
qed (simp add: find_sub_def retain_nonempty_def)

lemma remove_conn_map:
  assumes "map_ok m" "remove_subs (map (\<lambda>(n, _). (n, c)) m) m = (gone, m')"
  shows "held_in c m' = 0" "\<And>d. held_in d m = held_in d m' + (if d = c then length gone else 0)"
    "entries_in m = entries_in m' + length gone" "map_ok m'"
proof -
  note k = remove_subs_counts [OF assms] and f = remove_subs_find [OF assms(2)]
  have c: "set gone \<subseteq> {c}" using f by auto
  have "find_sub n c m = None" if "n \<notin> fst ` set m" for n
    using that by (simp add: find_sub_def map_of_eq_None_iff [THEN iffD2] del: map_of_eq_None_iff)
  then have "find_sub n c m' = None" for n using f by (force simp: image_iff)
  then show "held_in c m' = 0" using k by (simp add: held_in_0)
  have "count_list gone d = (if d = c then length gone else 0)" for d
    using c by (induction gone) auto
  then show "\<And>d. held_in d m = held_in d m' + (if d = c then length gone else 0)" using k by auto
qed (use remove_subs_counts [OF assms] in auto)

text \<open>The operations keep the counters exact.\<close>

lemma counted_remove_conn: "counted r \<Longrightarrow> counted (remove_conn c r)"
proof -
  assume ok: "counted r"
  obtain ch m1 where 1: "remove_subs (map (\<lambda>(n, _). (n, c)) (reg_channels r)) (reg_channels r) = (ch, m1)" by fastforce
  obtain pat m2 where 2: "remove_subs (map (\<lambda>(n, _). (n, c)) (reg_patterns r)) (reg_patterns r) = (pat, m2)" by fastforce
  note a = remove_conn_map [OF _ 1] and b = remove_conn_map [OF _ 2]
  show "counted (remove_conn c r)" using ok a b
    by (auto simp: counted_def remove_conn_def 1 2 retain_counts pair_count_def)
qed

text \<open>Removing entries of one kind and calling \<open>dec\<close> for each.\<close>

lemma counted_removals:
  assumes "counted r" "remove_subs ds (kind_map k r) = (gone, m)"
  shows "counted (fold (dec k) gone (set_kind_map k (retain_nonempty m) r))"
proof (cases k)
  case KChannel
  have m: "map_ok m" "entries_in (reg_channels r) = entries_in m + length gone"
    "\<And>d. held_in d (reg_channels r) = held_in d m + count_list gone d"
    using remove_subs_counts [OF _ assms(2)] assms(1) KChannel by (auto simp: counted_def kind_map_def)
  show ?thesis
    using fold_dec [of "r\<lparr>reg_channels := retain_nonempty m\<rparr>" "\<lambda>d. held_in d m" KChannel gone "\<lambda>d. held_in d (reg_patterns r)"
        "entries_in m + entries_in (reg_patterns r)"] assms(1) m KChannel
    by (auto simp: counted_def set_kind_map_def retain_counts)
next
  case KPattern
  have m: "map_ok m" "entries_in (reg_patterns r) = entries_in m + length gone"
    "\<And>d. held_in d (reg_patterns r) = held_in d m + count_list gone d"
    using remove_subs_counts [OF _ assms(2)] assms(1) KPattern by (auto simp: counted_def kind_map_def)
  show ?thesis
    using fold_dec [of "r\<lparr>reg_patterns := retain_nonempty m\<rparr>" "\<lambda>d. held_in d (reg_channels r)" KPattern gone "\<lambda>d. held_in d m"
        "entries_in m + entries_in (reg_channels r)"] assms(1) m KPattern
    by (auto simp: counted_def set_kind_map_def retain_counts)
qed

lemma fold_dec_same: "set gone \<subseteq> {c} \<Longrightarrow> fold (dec k) gone r = (dec k c ^^ length gone) r"
  by (induction gone arbitrary: r) (auto simp: funpow_swap1)

lemma counted_unregister: "counted r \<Longrightarrow> counted (snd (unregister c k names r))"
proof -
  assume ok: "counted r"
  let ?ds = "map (\<lambda>n. (n, c)) (if names = [] then map fst (kind_map k r) else names)"
  obtain gone m where rm: "remove_subs ?ds (kind_map k r) = (gone, m)" by fastforce
  have "set gone \<subseteq> {c}" using remove_subs_find [OF rm] by (auto split: if_splits)
  with counted_removals [OF ok rm] show ?thesis by (simp add: unregister_def rm Let_def fold_dec_same)
qed

lemma counted_notify: "counted r \<Longrightarrow> counted (snd (snd (notify outcome ch i ts body r)))"
proof -
  assume ok: "counted r"
  obtain rn fin r' where n: "notify outcome ch i ts body r = (rn, fin, r')" by (cases "notify outcome ch i ts body r")
  obtain ds g1 m1 ds' g2 m2 where
    1: "remove_subs ds (kind_map KChannel r) = (g1, m1)" and
    2: "remove_subs ds' (kind_map KPattern (fold (dec KChannel) g1 (set_kind_map KChannel (retain_nonempty m1) r))) = (g2, m2)" and
    r': "r' = fold (dec KPattern) g2 (set_kind_map KPattern (retain_nonempty m2)
        (fold (dec KChannel) g1 (set_kind_map KChannel (retain_nonempty m1) r)))"
    using n by (auto simp: notify_def Let_def kind_map_def set_kind_map_def split: prod.splits)
  show ?thesis using counted_removals [OF counted_removals [OF ok 1] 2] by (simp add: n r')
qed


lemma kind_map_simps [simp]:
  "kind_map k (set_kind_map k m r) = m"
  "k \<noteq> k' \<Longrightarrow> kind_map k (set_kind_map k' m r) = kind_map k r"
  "reg_counts (set_kind_map k m r) = reg_counts r" "reg_total (set_kind_map k m r) = reg_total r"
  by (auto simp: kind_map_def set_kind_map_def split: sub_kind.splits)

lemma entry_kept:
  assumes "map_ok m" "\<And>subs. map fst (f subs) = map fst subs"
  shows "map_ok (AList.map_entry n f m)" "entries_in (AList.map_entry n f m) = entries_in m"
    "held_in c (AList.map_entry n f m) = held_in c m"
proof -
  have l: "length (f subs) = length subs" for subs using assms(2) [of subs] by (metis length_map)
  have s: "fst ` set (f subs) = fst ` set subs" for subs using assms(2) [of subs] by (metis set_map)
  show "map_ok (AList.map_entry n f m)" "entries_in (AList.map_entry n f m) = entries_in m"
    "held_in c (AList.map_entry n f m) = held_in c m"
    using assms l s by (induction m) (auto simp: map_ok_def entries_in_def held_in_def AList.dom_map_entry)
qed

lemma counted_arm_filter: "counted r \<Longrightarrow> counted (arm_filter c k n w r)"
  by (cases k) (auto simp: counted_def arm_filter_def kind_map_def set_kind_map_def entry_kept)

text \<open>A new entry, or one that replaces the connection's entry for the name.\<close>

lemma put_entry:
  fixes n c v
  assumes "map_ok m"
  defines "m' \<equiv> AList.update n (AList.update c v (case map_of m n of None \<Rightarrow> [] | Some subs \<Rightarrow> subs)) m"
  shows "map_ok m'" "entries_in m' = entries_in m + (if find_sub n c m = None then 1 else 0)"
    "held_in d m' = held_in d m + (if d = c \<and> find_sub n c m = None then 1 else 0)"
proof -
  have "map_ok m' \<and> entries_in m' = entries_in m + (if find_sub n c m = None then 1 else 0)
    \<and> held_in d m' = held_in d m + (if d = c \<and> find_sub n c m = None then 1 else 0)"
  proof (cases "map_of m n")
    case None
    then have "n \<notin> fst ` set m" by (simp add: map_of_eq_None_iff)
    then have "m' = m @ [(n, [(c, v)])]" using None by (simp add: m'_def update_new)
    moreover have "find_sub n c m = None" using None by (simp add: find_sub_def)
    ultimately show ?thesis using \<open>n \<notin> fst ` set m\<close> assms(1) by (auto simp: map_ok_def)
  next
    case (Some subs)
    from Some obtain ms ms' where m: "m = ms @ (n, subs) # ms'" "n \<notin> fst ` set ms" by (rule map_of_split)
    have m': "m' = ms @ (n, AList.update c v subs) # ms'"
      using Some m by (simp add: m'_def update_split)
    show ?thesis using Some assms(1) m(1)
      by (auto simp: m' map_ok_def find_sub_def map_of_eq_None_iff length_update AList.distinct_update AList.dom_update)
  qed
  then show "map_ok m'" "entries_in m' = entries_in m + (if find_sub n c m = None then 1 else 0)"
    "held_in d m' = held_in d m + (if d = c \<and> find_sub n c m = None then 1 else 0)" by auto
qed

lemma counted_conn_count: "counted r \<Longrightarrow> held_counts c r = (held_in c (reg_channels r), held_in c (reg_patterns r))"
  by (auto simp: counted_def held_counts_def pair_count_def)

lemma register_cases:
  obtains e where "register c k n t r = (Inl e, r)"
  | r' where "register c k n t r = (Inr (conn_count r' c), r')"
      "r' = set_kind_map k (AList.update n (AList.update c \<lparr>sub_tx = t, skip_through = i64_max\<rparr>
              (case map_of (kind_map k r) n of None \<Rightarrow> [] | Some subs \<Rightarrow> subs)) (kind_map k r))
            (if find_sub n c (kind_map k r) \<noteq> None then r
             else r\<lparr>reg_total := reg_total r + 1,
                    reg_counts := (reg_counts r)(c \<mapsto> (case k of KChannel \<Rightarrow> (fst (held_counts c r) + 1, snd (held_counts c r))
                       | KPattern \<Rightarrow> (fst (held_counts c r), snd (held_counts c r) + 1)))\<rparr>)"
      "find_sub n c (kind_map k r) = None \<Longrightarrow>
         fst (held_counts c r) + snd (held_counts c r) < MAX_SUBS_PER_CONN \<and> reg_total r < MAX_SUBS_TOTAL"
proof -
  have k: "kind_map k (r\<lparr>reg_total := a, reg_counts := b\<rparr>) = kind_map k r" for a b
    by (simp add: kind_map_def split: sub_kind.splits)
  let ?new = "find_sub n c (kind_map k r) = None"
  consider "?new" "MAX_SUBS_PER_CONN \<le> fst (held_counts c r) + snd (held_counts c r) \<or> MAX_SUBS_TOTAL \<le> reg_total r"
    | "?new \<Longrightarrow> fst (held_counts c r) + snd (held_counts c r) < MAX_SUBS_PER_CONN \<and> reg_total r < MAX_SUBS_TOTAL"
    by fastforce
  then show thesis
  proof cases
    case 1
    then have "register c k n t r = (Inl (if MAX_SUBS_PER_CONN \<le> fst (held_counts c r) + snd (held_counts c r)
        then LimitPerConnection else LimitNodeWide), r)"
      by (cases "held_counts c r") (auto simp: register_def Let_def)
    then show thesis by (rule that(1))
  next
    case 2
    obtain a b where h: "held_counts c r = (a, b)" by fastforce
    have "(\<not> find_sub n c (kind_map k r) \<noteq> None \<and> MAX_SUBS_PER_CONN \<le> a + b) = False"
      "(\<not> find_sub n c (kind_map k r) \<noteq> None \<and> MAX_SUBS_TOTAL \<le> reg_total r) = False"
      using 2 h by auto
    then show thesis
      by (intro that(2) [OF _ refl 2]) (simp_all only: register_def Let_def h prod.case if_False k if_distrib [of "kind_map k"]
          if_cancel fst_conv snd_conv)
  qed
qed

lemma counted_register: "counted r \<Longrightarrow> counted (snd (register c k n t r))"
proof -
  assume ok: "counted r"
  show ?thesis
  proof (cases rule: register_cases [of c k n t r])
    case (1 e)
    then show ?thesis using ok by simp
  next
    case (2 r')
    have m: "map_ok (kind_map k r)" using ok by (simp add: counted_def kind_map_def split: sub_kind.splits)
    note p = put_entry [OF m, where n = n and c = c and v = "\<lparr>sub_tx = t, skip_through = i64_max\<rparr>"]
    have "counted r'" using ok p counted_conn_count [OF ok, of c] unfolding 2(2)
      by (cases k; cases "find_sub n c (kind_map k r)")
        (auto simp: counted_def set_kind_map_def kind_map_def pair_count_def)
    with 2(1) show ?thesis by simp
  qed
qed


text \<open>Only \<open>register\<close> raises a counter, and only below the limits.\<close>

definition lowered :: "'tx registry \<Rightarrow> 'tx registry \<Rightarrow> bool" where
  "lowered r r' \<longleftrightarrow> reg_total r' \<le> reg_total r \<and> (\<forall>c. conn_count r' c \<le> conn_count r c)"

lemma lowered_refl [simp]: "lowered r r"
  by (simp add: lowered_def)

lemma lowered_trans: "lowered r s \<Longrightarrow> lowered s t \<Longrightarrow> lowered r t"
  by (auto simp: lowered_def intro: le_trans)

lemma lowered_limits: "lowered r r' \<Longrightarrow> within_limits r \<Longrightarrow> within_limits r'"
  by (auto simp: lowered_def within_limits_def intro: le_trans)

lemma lowered_set_kind_map [simp]: "lowered r (set_kind_map k m r)"
  by (simp add: lowered_def conn_count_def held_counts_def)

lemma lowered_dec: "lowered r (dec k c r)"
proof -
  have "conn_count (dec k c r) d \<le> conn_count r d" for d
    by (cases k) (auto simp: dec_def conn_count_def held_counts_def Let_def split: option.splits)
  then show ?thesis by (simp add: lowered_def dec_counts)
qed

lemma lowered_fold_dec: "lowered r (fold (dec k) cs r)"
  by (induction cs arbitrary: r) (auto intro: lowered_trans [OF lowered_dec])

lemma lowered_funpow_dec: "lowered r ((dec k c ^^ n) r)"
  by (induction n) (auto intro: lowered_trans [OF _ lowered_dec])

lemmas lowered_steps = lowered_trans [OF lowered_set_kind_map lowered_fold_dec]
  lowered_trans [OF lowered_set_kind_map lowered_funpow_dec]

lemma lowered_unregister: "lowered r (snd (unregister c k names r))"
  by (auto simp: unregister_def Let_def lowered_steps split: prod.splits)

lemma lowered_remove_conn: "lowered r (remove_conn c r)"
  by (auto simp: remove_conn_def lowered_def conn_count_def held_counts_def split: prod.splits)

lemma lowered_arm_filter: "lowered r (arm_filter c k n w r)"
  by (simp add: arm_filter_def)

lemma lowered_notify: "lowered r (snd (snd (notify outcome ch i ts body r)))"
proof -
  have "lowered r (fold (dec KPattern) g2 (set_kind_map KPattern m2 (fold (dec KChannel) g1 (set_kind_map KChannel m1 r))))"
    for g1 g2 m1 m2
    by (rule lowered_trans [OF lowered_steps(1) lowered_steps(1)])
  then show ?thesis by (auto simp: notify_def Let_def set_kind_map_def split: prod.splits)
qed

lemma register_limits:
  assumes "within_limits r"
  shows "within_limits (snd (register c k n t r))"
proof (cases rule: register_cases [of c k n t r])
  case (1 e)
  then show ?thesis using assms by simp
next
  case (2 r')
  have "within_limits r'"
  proof (cases "find_sub n c (kind_map k r) = None")
    case True
    have "conn_count r' d = conn_count r d + (if d = c then 1 else 0)" for d
      using True by (cases k) (auto simp: 2(2) conn_count_def held_counts_def split: prod.splits option.splits)
    moreover have "conn_count r c < MAX_SUBS_PER_CONN" "reg_total r < MAX_SUBS_TOTAL"
      using 2(3) [OF True] by (auto simp: conn_count_def split: prod.splits)
    ultimately show ?thesis using assms True by (auto simp: within_limits_def 2(2))
  next
    case False
    then show ?thesis using assms by (simp add: 2(2) lowered_limits [OF lowered_set_kind_map])
  qed
  then show ?thesis by (simp add: 2(1))
qed

section \<open>Any sequence of operations\<close>

datatype 'tx registry_op =
    Register conn_id sub_kind chars 'tx
  | Unregister conn_id sub_kind "chars list"
  | RemoveConn conn_id
  | ArmFilter conn_id sub_kind chars int
  | Notify "'tx \<Rightarrow> push \<Rightarrow> send_result" chars int int chars

fun apply_op :: "'tx registry_op \<Rightarrow> 'tx registry \<Rightarrow> 'tx registry" where
  "apply_op (Register c k n t) r = snd (register c k n t r)"
| "apply_op (Unregister c k names) r = snd (unregister c k names r)"
| "apply_op (RemoveConn c) r = remove_conn c r"
| "apply_op (ArmFilter c k n w) r = arm_filter c k n w r"
| "apply_op (Notify outcome ch i ts body) r = snd (snd (notify outcome ch i ts body r))"

lemmas counted_steps = counted_register counted_unregister counted_remove_conn counted_arm_filter counted_notify

lemmas limit_steps = register_limits lowered_limits [OF lowered_unregister] lowered_limits [OF lowered_remove_conn]
  lowered_limits [OF lowered_arm_filter] lowered_limits [OF lowered_notify]

lemma registry_run: "counted r \<Longrightarrow> within_limits r \<Longrightarrow> counted (fold apply_op ops r) \<and> within_limits (fold apply_op ops r)"
proof (induction ops arbitrary: r)
  case (Cons x ops)
  then show ?case by (cases x) (simp_all add: counted_steps limit_steps)
qed simp

lemma registry_new_ok: "counted registry_new" "within_limits registry_new"
  by (simp_all add: counted_def registry_new_def map_ok_def pair_count_def within_limits_def conn_count_def held_counts_def)

section \<open>One subscription\<close>

definition reg_find :: "sub_kind \<Rightarrow> chars \<Rightarrow> conn_id \<Rightarrow> 'tx registry \<Rightarrow> 'tx sub option" where
  "reg_find k n c r = find_sub n c (kind_map k r)"

definition name_hit :: "sub_kind \<Rightarrow> chars \<Rightarrow> chars \<Rightarrow> bool" where
  "name_hit k n channel \<longleftrightarrow> (case k of KChannel \<Rightarrow> channel = n | KPattern \<Rightarrow> glob_hit n channel)"

definition kind_pattern :: "sub_kind \<Rightarrow> chars \<Rightarrow> chars option" where
  "kind_pattern k n = (case k of KChannel \<Rightarrow> None | KPattern \<Rightarrow> Some n)"

definition sub_frame :: "sub_kind \<Rightarrow> chars \<Rightarrow> message \<Rightarrow> push" where
  "sub_frame k n m = push_frame (kind_pattern k n) (msg_channel m) (msg_id m) (msg_ts m) (msg_payload m)"

text \<open>The frames of a delivery that belong to a subscription.\<close>

definition frame_of_sub :: "sub_kind \<Rightarrow> chars \<Rightarrow> push \<Rightarrow> bool" where
  "frame_of_sub k n f \<longleftrightarrow> (case k of KChannel \<Rightarrow> push_pattern f = None \<and> push_channel f = n | KPattern \<Rightarrow> push_pattern f = Some n)"

lemma filter_key: "distinct (map fst subs) \<Longrightarrow>
  filter (\<lambda>d. d = c) (map fst (filter P subs)) = (case map_of subs c of None \<Rightarrow> [] | Some s \<Rightarrow> if P (c, s) then [c] else [])"
proof (induction subs)
  case (Cons x subs)
  have "fst x = c \<Longrightarrow> map_of subs c = None" using Cons.prems by (auto simp: map_of_eq_None_iff)
  with Cons show ?case by (cases x) (auto split: option.splits)
qed simp

lemma push_subs_reached:
  assumes "distinct (map fst subs)"
  shows "filter (\<lambda>d. d = c) (fst (push_subs outcome f subs)) =
    (case map_of subs c of None \<Rightarrow> [] | Some s \<Rightarrow> if skip_through s < push_id f \<and> outcome (sub_tx s) f = Sent then [c] else [])"
  and "c \<in> set (snd (push_subs outcome f subs)) \<longleftrightarrow>
    (\<exists>s. map_of subs c = Some s \<and> skip_through s < push_id f \<and> outcome (sub_tx s) f = Closed)"
proof -
  show "filter (\<lambda>d. d = c) (fst (push_subs outcome f subs)) =
    (case map_of subs c of None \<Rightarrow> [] | Some s \<Rightarrow> if skip_through s < push_id f \<and> outcome (sub_tx s) f = Sent then [c] else [])"
    using filter_key [OF assms, of c "\<lambda>(c, s). skip_through s < push_id f \<and> outcome (sub_tx s) f = Sent"]
    by (cases "map_of subs c") (simp_all add: push_subs_def not_le split_def conj_commute)
  show "c \<in> set (snd (push_subs outcome f subs)) \<longleftrightarrow>
    (\<exists>s. map_of subs c = Some s \<and> skip_through s < push_id f \<and> outcome (sub_tx s) f = Closed)"
    using assms by (force simp: push_subs_def not_le image_iff map_of_eq_Some_iff)
qed

lemma push_subs_Nil [simp]: "push_subs outcome f [] = ([], [])"
  by (simp add: push_subs_def)

lemma map_ok_subs: "map_ok m \<Longrightarrow> map_of m n = Some subs \<Longrightarrow> distinct (map fst subs)"
  by (auto simp: map_ok_def dest: map_of_SomeD)

text \<open>The entries of one name in a loop over the patterns.\<close>

lemma concat_key:
  assumes "distinct (map fst m)" "\<And>p subs. p \<noteq> n \<Longrightarrow> F p subs = []"
  shows "concat (map (\<lambda>(p, subs). F p subs) m) = (case map_of m n of None \<Rightarrow> [] | Some subs \<Rightarrow> F n subs)"
  using assms(1)
proof (induction m)
  case (Cons x m)
  have "fst x = n \<Longrightarrow> map_of m n = None" using Cons.prems by (auto simp: map_of_eq_None_iff)
  with Cons assms(2) show ?case by (cases x) auto
qed simp

lemma map_of_filter_key: "map_of (filter (\<lambda>(p, _). P p) m) n = (if P n then map_of m n else None)"
  by (induction m) auto

lemma filter_pairs: "filter (\<lambda>(d, f). d = c \<and> Q f) (map (\<lambda>d. (d, g)) xs)
    = (if Q g then map (\<lambda>d. (d, g)) (filter (\<lambda>d. d = c) xs) else [])"
  by (induction xs) auto

text \<open>A delivery pushes a frame to a subscription at most once, and prunes it only when its channel is closed.\<close>

lemma notify_sent:
  assumes "counted r"
  shows "filter (\<lambda>(d, f). d = c \<and> frame_of_sub k n f) (fst (snd (notify outcome (msg_channel m) (msg_id m) (msg_ts m) (msg_payload m) r))) =
    (case reg_find k n c r of None \<Rightarrow> []
     | Some s \<Rightarrow> if name_hit k n (msg_channel m) \<and> skip_through s < msg_id m \<and> outcome (sub_tx s) (sub_frame k n m) = Sent then [(c, sub_frame k n m)] else [])"
proof -
  let ?own = "\<lambda>(d, f). d = c \<and> frame_of_sub k n f"
  let ?F = "\<lambda>p subs. filter ?own (map (\<lambda>d. (d, sub_frame KPattern p m)) (fst (push_subs outcome (sub_frame KPattern p m) subs)))"
  let ?exact = "case map_of (reg_channels r) (msg_channel m) of None \<Rightarrow> [] | Some subs \<Rightarrow> subs"
  have ok: "map_ok (reg_channels r)" "map_ok (reg_patterns r)" using assms(1) by (auto simp: counted_def)
  have sent: "filter ?own (fst (snd (notify outcome (msg_channel m) (msg_id m) (msg_ts m) (msg_payload m) r)))
      = filter ?own (map (\<lambda>d. (d, sub_frame KChannel (msg_channel m) m)) (fst (push_subs outcome (sub_frame KChannel (msg_channel m) m) ?exact)))
        @ concat (map (\<lambda>(p, subs). ?F p subs) (filter (\<lambda>(p, _). glob_hit p (msg_channel m)) (reg_patterns r)))"
    by (simp add: notify_def Let_def split_def sub_frame_def kind_pattern_def filter_concat comp_def)
  show ?thesis
  proof (cases k)
    case KChannel
    have "?F p subs = []" for p subs
      by (simp add: KChannel filter_pairs frame_of_sub_def sub_frame_def push_frame_def kind_pattern_def)
    then have "concat (map (\<lambda>(p, subs). ?F p subs) (filter (\<lambda>(p, _). glob_hit p (msg_channel m)) (reg_patterns r))) = []"
      by (auto simp: concat_eq_Nil_conv)
    then show ?thesis unfolding sent using push_subs_reached(1) [OF map_ok_subs [OF ok(1)], of "msg_channel m"]
      by (cases "map_of (reg_channels r) (msg_channel m)")
        (auto simp: KChannel filter_pairs frame_of_sub_def sub_frame_def push_frame_def kind_pattern_def name_hit_def
          reg_find_def find_sub_def kind_map_def split: option.splits)
  next
    case KPattern
    have "?F p subs = []" if "p \<noteq> n" for p subs
      using that by (simp add: KPattern filter_pairs frame_of_sub_def sub_frame_def push_frame_def kind_pattern_def)
    moreover have "distinct (map fst (filter (\<lambda>(p, _). glob_hit p (msg_channel m)) (reg_patterns r)))"
      using ok(2) by (simp add: map_ok_def distinct_map_filter)
    ultimately have "concat (map (\<lambda>(p, subs). ?F p subs) (filter (\<lambda>(p, _). glob_hit p (msg_channel m)) (reg_patterns r)))
      = (case map_of (filter (\<lambda>(p, _). glob_hit p (msg_channel m)) (reg_patterns r)) n of None \<Rightarrow> [] | Some subs \<Rightarrow> ?F n subs)"
      by (intro concat_key) auto
    then show ?thesis unfolding sent using push_subs_reached(1) [OF map_ok_subs [OF ok(2)], of n]
      by (cases "map_of (reg_patterns r) n")
        (auto simp: KPattern map_of_filter_key filter_pairs frame_of_sub_def sub_frame_def push_frame_def kind_pattern_def
          name_hit_def reg_find_def find_sub_def kind_map_def split: option.splits)
  qed
qed

lemma fold_dec_maps [simp]:
  "reg_channels (fold (dec k) cs r) = reg_channels r" "reg_patterns (fold (dec k) cs r) = reg_patterns r"
  by (induction cs arbitrary: r) (simp_all add: dec_counts)

lemma kind_map_fold_dec [simp]: "kind_map k' (fold (dec k) cs r) = kind_map k' r"
  by (simp add: kind_map_def split: sub_kind.splits)

lemma kind_map_funpow_dec [simp]: "kind_map k' ((dec k c ^^ n) r) = kind_map k' r"
  by (induction n) (simp_all add: kind_map_def dec_counts split: sub_kind.splits)

lemma counted_map_ok: "counted r \<Longrightarrow> map_ok (kind_map k r)"
  by (auto simp: counted_def kind_map_def split: sub_kind.splits)

lemma removals_find:
  assumes "map_ok m" "remove_subs ds m = (gone, m')"
  shows "find_sub n c (retain_nonempty m') = (if (n, c) \<in> set ds then None else find_sub n c m)"
  using remove_subs_find [OF assms(2)] remove_subs_counts [OF assms] by (simp add: retain_find)

lemma notify_find:
  assumes "counted r"
  shows "reg_find k n c (snd (snd (notify outcome (msg_channel m) (msg_id m) (msg_ts m) (msg_payload m) r))) =
    (case reg_find k n c r of None \<Rightarrow> None
     | Some s \<Rightarrow> if name_hit k n (msg_channel m) \<and> skip_through s < msg_id m \<and> outcome (sub_tx s) (sub_frame k n m) = Closed
         then None else Some s)"
proof -
  let ?ch = "msg_channel m" and ?dead = "\<lambda>k n subs. snd (push_subs outcome (sub_frame k n m) subs)"
  let ?d1 = "map (\<lambda>c. (?ch, c)) (?dead KChannel ?ch (case map_of (reg_channels r) ?ch of None \<Rightarrow> [] | Some subs \<Rightarrow> subs))"
  let ?d2 = "concat (map (\<lambda>(p, subs). map (\<lambda>c. (p, c)) (?dead KPattern p subs)) (filter (\<lambda>(p, _). glob_hit p ?ch) (reg_patterns r)))"
  obtain g1 m1 where 1: "remove_subs ?d1 (reg_channels r) = (g1, m1)" by fastforce
  obtain g2 m2 where 2: "remove_subs ?d2 (reg_patterns r) = (g2, m2)" by fastforce
  have ok: "map_ok (reg_channels r)" "map_ok (reg_patterns r)" using assms by (auto simp: counted_def)
  have maps: "reg_channels (snd (snd (notify outcome ?ch (msg_id m) (msg_ts m) (msg_payload m) r))) = retain_nonempty m1"
    "reg_patterns (snd (snd (notify outcome ?ch (msg_id m) (msg_ts m) (msg_payload m) r))) = retain_nonempty m2"
    using 1 2 by (simp_all add: notify_def Let_def split_def sub_frame_def kind_pattern_def comp_def)
  show ?thesis
  proof (cases k)
    case KChannel
    have "(n, c) \<in> set ?d1 \<longleftrightarrow> n = ?ch \<and> (\<exists>s. find_sub n c (reg_channels r) = Some s \<and> skip_through s < msg_id m
        \<and> outcome (sub_tx s) (sub_frame k n m) = Closed)"
      using push_subs_reached(2) [OF map_ok_subs [OF ok(1)], of ?ch]
      by (cases "map_of (reg_channels r) ?ch") (auto simp: KChannel find_sub_def sub_frame_def push_frame_def)
    then show ?thesis using removals_find [OF ok(1) 1, of n c]
      by (auto simp: KChannel reg_find_def kind_map_def maps name_hit_def split: option.splits)
  next
    case KPattern
    have "(n, c) \<in> set ?d2 \<longleftrightarrow> (\<exists>subs. map_of (reg_patterns r) n = Some subs \<and> glob_hit n ?ch \<and> c \<in> set (?dead KPattern n subs))"
      using ok(2) by (auto simp: map_ok_def map_of_eq_Some_iff)
    also have "\<dots> \<longleftrightarrow> glob_hit n ?ch \<and> (\<exists>s. find_sub n c (reg_patterns r) = Some s \<and> skip_through s < msg_id m
        \<and> outcome (sub_tx s) (sub_frame k n m) = Closed)"
      using push_subs_reached(2) [OF map_ok_subs [OF ok(2)], of n]
      by (cases "map_of (reg_patterns r) n") (auto simp: KPattern find_sub_def sub_frame_def push_frame_def)
    finally show ?thesis using removals_find [OF ok(2) 2, of n c]
      by (auto simp: KPattern reg_find_def kind_map_def maps name_hit_def split: option.splits)
  qed
qed

text \<open>What the other operations do to a subscription.\<close>

lemma register_find:
  assumes "register c k n t r = (Inr j, r')"
  shows "reg_find k' n' c' r' =
    (if (k', n', c') = (k, n, c) then Some \<lparr>sub_tx = t, skip_through = i64_max\<rparr> else reg_find k' n' c' r)"
proof (cases rule: register_cases [of c k n t r])
  case (1 e)
  then show ?thesis using assms by simp
next
  case (2 r2)
  have r': "r' = r2" using 2(1) assms by simp
  have kept: "kind_map k' (if b then r else r\<lparr>reg_total := x, reg_counts := y\<rparr>) = kind_map k' r" for b x y
    by (simp add: kind_map_def split: sub_kind.splits)
  show ?thesis
  proof (cases "k' = k")
    case True
    show ?thesis unfolding r' 2(2) reg_find_def
      by (cases "map_of (kind_map k r) n") (auto simp: True find_sub_def AList.update_conv')
  next
    case False
    then show ?thesis unfolding r' 2(2) reg_find_def by (simp add: kept)
  qed
qed

lemma arm_filter_find:
  "reg_find k' n' c' (arm_filter c k n w r) =
    (if (k', n', c') = (k, n, c) then map_option (\<lambda>s. s\<lparr>skip_through := w\<rparr>) (reg_find k n c r) else reg_find k' n' c' r)"
proof (cases "k' = k")
  case True
  then show ?thesis
    by (cases "map_of (kind_map k r) n") (auto simp: reg_find_def arm_filter_def find_sub_def map_entry_at)
qed (simp add: reg_find_def arm_filter_def)

lemma unregister_find:
  assumes "counted r" "c' \<noteq> c \<or> k' \<noteq> k"
  shows "reg_find k' n' c' (snd (unregister c k names r)) = reg_find k' n' c' r"
proof -
  obtain g m where rm: "remove_subs (map (\<lambda>n. (n, c)) (if names = [] then map fst (kind_map k r) else names)) (kind_map k r) = (g, m)"
    by fastforce
  show ?thesis using assms(2) removals_find [OF counted_map_ok [OF assms(1)] rm, of n' c']
    by (cases "k' = k") (auto simp: reg_find_def unregister_def Let_def rm)
qed

lemma remove_conn_find:
  assumes "counted r" "c' \<noteq> c"
  shows "reg_find k' n' c' (remove_conn c r) = reg_find k' n' c' r"
proof -
  obtain g1 m1 where 1: "remove_subs (map (\<lambda>(n, _). (n, c)) (reg_channels r)) (reg_channels r) = (g1, m1)" by fastforce
  obtain g2 m2 where 2: "remove_subs (map (\<lambda>(n, _). (n, c)) (reg_patterns r)) (reg_patterns r) = (g2, m2)" by fastforce
  show ?thesis using assms removals_find [OF _ 1, of n' c'] removals_find [OF _ 2, of n' c']
    by (cases k') (auto simp: reg_find_def kind_map_def remove_conn_def 1 2 counted_def)
qed

text \<open>\<open>C39\<close>: after any sequence of registrations, unregistrations, disconnects, filter updates and deliveries with any
  outcome of their sends, the counters of the registry are the subscriptions its maps hold, of every connection and
  node-wide; a connection has a counter exactly while it holds a subscription; a connection holds at most 4096 and the
  node at most 200000.
\<close>

theorem registry_counters_exact:
  "let r = fold apply_op (ops :: 'tx registry_op list) registry_new
   in conn_count r c = held_in c (reg_channels r) + held_in c (reg_patterns r)
    \<and> (reg_counts r c = None \<longleftrightarrow> held_in c (reg_channels r) + held_in c (reg_patterns r) = 0)
    \<and> reg_total r = entries_in (reg_channels r) + numpat r
    \<and> conn_count r c \<le> MAX_SUBS_PER_CONN \<and> reg_total r \<le> MAX_SUBS_TOTAL"
proof -
  define r where "r = fold apply_op ops registry_new"
  have "counted r" "within_limits r" unfolding r_def using registry_run registry_new_ok by blast+
  then show ?thesis unfolding r_def [symmetric] Let_def
    by (auto simp: counted_conn_count conn_count_def within_limits_def counted_def pair_count_def numpat_def entries_in_def)
qed


end
