(* ===== verification/Subscribe.thy ===== *)
theory Subscribe
  imports Pubsub_Props
begin

text \<open>
  Publishing and subscribing on a server (\<open>handle_publish\<close>, \<open>handle_subscribe\<close> and the trim command of
  \<open>handle_pubsub_cmd\<close> in the server's \<open>lib.rs\<close>), as the interleaving of their atomic sections: a publish stores its
  message under the engine lock and notifies under the registry lock, both under the write order, which keeps publishes and
  trims apart; the subscribe handler registers, replays the stored messages in chunks without a lock while other sections
  run in between, and opens the live stream under the registry lock. A state follows one subscription among the others.
\<close>

section \<open>The subscribe handler\<close>

record 'tx sub_request =
  req_conn :: conn_id
  req_kind :: sub_kind
  req_name :: chars
  req_after :: "int option"
  req_tx :: 'tx

text \<open>The local variables of the handler.\<close>

record replay_vars =
  rv_watermark :: int
  rv_progress :: int
  rv_cursor :: int
  rv_window :: replay_window

text \<open>
  Where the handler is: before it registers, refused at a limit, at the head of the inner loop, sending the rows of a
  chunk (those left, and all of them), about to sample the next bound, caught up with that sample and about to take the
  registry lock, leaving early, or done, with the stream opened after a complete replay or not.
\<close>

datatype sub_pc =
    AtStart
  | AtRefused
  | AtReplay replay_vars
  | AtSend replay_vars "message list" "message list"
  | AtSample replay_vars
  | AtClose replay_vars
  | AtLeave replay_vars
  | AtDone bool

text \<open>
  \<open>hub_delivered\<close> holds the frames sent on the subscription, in order. The last four fields only observe: the messages
  ever stored, the ids whose delivery has run, where the subscription starts, with the newest id at that time, and
  whether a live push to it was refused.
\<close>

record 'tx hub =
  hub_rows :: "message list"
  hub_reg :: "'tx registry"
  hub_pending :: "message option"
  hub_pc :: sub_pc
  hub_delivered :: "push list"
  hub_stored :: "message list"
  hub_notified :: "int list"
  hub_from :: "int \<times> int"
  hub_lost :: bool

definition msg_hit :: "'tx sub_request \<Rightarrow> message \<Rightarrow> bool" where
  "msg_hit q m = name_hit (req_kind q) (req_name q) (msg_channel m)"

definition msg_frame :: "'tx sub_request \<Rightarrow> message \<Rightarrow> push" where
  "msg_frame q m = sub_frame (req_kind q) (req_name q) m"

text \<open>Registration and the first sample, under the registry lock.\<close>

definition subscribe_begin :: "'tx sub_request \<Rightarrow> 'tx hub \<Rightarrow> 'tx hub" where
  "subscribe_begin q h =
     (case register (req_conn q) (req_kind q) (req_name q) (req_tx q) (hub_reg h) of
        (Inl _, r) \<Rightarrow> h\<lparr>hub_reg := r, hub_pc := AtRefused\<rparr>
      | (Inr _, r) \<Rightarrow>
          (let watermark = query_max_id (hub_rows h);
               progress = (case req_after q of None \<Rightarrow> watermark | Some a \<Rightarrow> a)
           in h\<lparr>hub_reg := r, hub_from := (progress, watermark),
                hub_pc := AtReplay \<lparr>rv_watermark = watermark, rv_progress = progress, rv_cursor = progress,
                                    rv_window = window_new\<rparr>\<rparr>))"

text \<open>The head of the inner loop: the next chunk, whose read may fail.\<close>

definition subscribe_read :: "bool \<Rightarrow> replay_vars \<Rightarrow> 'tx hub \<Rightarrow> 'tx hub" where
  "subscribe_read ok v h =
     (if rv_cursor v < rv_watermark v then
        (if \<not> ok then h\<lparr>hub_pc := AtLeave v\<rparr>
         else
           (let chunk = query_history_chunk (rv_cursor v) (rv_watermark v) (win_rows (rv_window v)) (hub_rows h)
            in if chunk = [] then h\<lparr>hub_pc := AtLeave v\<rparr>
               else h\<lparr>hub_pc := AtSend (v\<lparr>rv_cursor := msg_id (List.last chunk)\<rparr>) chunk chunk\<rparr>))
      else h\<lparr>hub_pc := AtSample v\<rparr>)"

definition row_bytes :: "message \<Rightarrow> nat" where
  "row_bytes m = str_len (msg_channel m) + str_len (msg_payload m)"

definition chunk_advance :: "message list \<Rightarrow> replay_vars \<Rightarrow> replay_vars" where
  "chunk_advance chunk v =
     v\<lparr>rv_window := window_advance (length chunk) (sum_list (map row_bytes chunk)) (foldl max 0 (map row_bytes chunk))
                     (rv_window v)\<rparr>"

text \<open>One row of the chunk, whose bounded send may fail; after the last row the window adapts.\<close>

fun subscribe_send :: "bool \<Rightarrow> 'tx sub_request \<Rightarrow> replay_vars \<Rightarrow> message list \<Rightarrow> message list \<Rightarrow> 'tx hub \<Rightarrow> 'tx hub" where
  "subscribe_send ok q v [] chunk h =
     (let v' = chunk_advance chunk v
      in h\<lparr>hub_pc := if rv_watermark v \<le> rv_cursor v then AtSample v' else AtReplay v'\<rparr>)"
| "subscribe_send ok q v (m # ms) chunk h =
     (if \<not> msg_hit q m then h\<lparr>hub_pc := AtSend v ms chunk\<rparr>
      else if \<not> ok then h\<lparr>hub_pc := AtLeave (chunk_advance chunk v)\<rparr>
      else h\<lparr>hub_delivered := hub_delivered h @ [msg_frame q m],
             hub_pc := AtSend (v\<lparr>rv_progress := msg_id m\<rparr>) ms chunk\<rparr>)"

definition subscribe_sample :: "replay_vars \<Rightarrow> 'tx hub \<Rightarrow> 'tx hub" where
  "subscribe_sample v h =
     (let v' = v\<lparr>rv_watermark := query_max_id (hub_rows h)\<rparr>
      in h\<lparr>hub_pc := if rv_watermark v' \<le> rv_cursor v' then AtClose v' else AtReplay v'\<rparr>)"

text \<open>The exit under the registry lock, with a sample of its own.\<close>

definition subscribe_close :: "'tx sub_request \<Rightarrow> replay_vars \<Rightarrow> 'tx hub \<Rightarrow> 'tx hub" where
  "subscribe_close q v h =
     (let sampled = query_max_id (hub_rows h)
      in if sampled \<le> rv_cursor v then
           h\<lparr>hub_reg := arm_filter (req_conn q) (req_kind q) (req_name q) sampled (hub_reg h), hub_pc := AtDone True\<rparr>
         else h\<lparr>hub_pc := AtReplay (v\<lparr>rv_watermark := sampled\<rparr>)\<rparr>)"

definition subscribe_leave :: "'tx sub_request \<Rightarrow> replay_vars \<Rightarrow> 'tx hub \<Rightarrow> 'tx hub" where
  "subscribe_leave q v h =
     h\<lparr>hub_reg := arm_filter (req_conn q) (req_kind q) (req_name q) (rv_progress v) (hub_reg h), hub_pc := AtDone False\<rparr>"

definition subscribe_step :: "bool \<Rightarrow> 'tx sub_request \<Rightarrow> 'tx hub \<Rightarrow> 'tx hub" where
  "subscribe_step ok q h =
     (case hub_pc h of
        AtStart \<Rightarrow> subscribe_begin q h
      | AtRefused \<Rightarrow> h
      | AtReplay v \<Rightarrow> subscribe_read ok v h
      | AtSend v ms chunk \<Rightarrow> subscribe_send ok q v ms chunk h
      | AtSample v \<Rightarrow> subscribe_sample v h
      | AtClose v \<Rightarrow> subscribe_close q v h
      | AtLeave v \<Rightarrow> subscribe_leave q v h
      | AtDone _ \<Rightarrow> h)"

section \<open>Publishing and trimming\<close>

text \<open>The engine section of a publish; the message is then pending until its delivery runs.\<close>

definition publish_store :: "bool \<Rightarrow> bool \<Rightarrow> chars \<Rightarrow> int \<Rightarrow> chars \<Rightarrow> 'tx hub \<Rightarrow> 'tx hub" where
  "publish_store insert_ok delete_ok channel ts body h =
     (let (res, rows) = store_insert insert_ok delete_ok channel ts body (hub_rows h);
          m = \<lparr>msg_id = query_max_id (hub_rows h) + 1, msg_channel = channel, msg_ts = ts, msg_payload = body\<rparr>
      in h\<lparr>hub_rows := rows,
           hub_stored := (if insert_ok then hub_stored h @ [m] else hub_stored h),
           hub_pending := (case res of Inl _ \<Rightarrow> None | Inr _ \<Rightarrow> Some m)\<rparr>)"

text \<open>A live push to the subscription that its channel does not take.\<close>

definition push_lost :: "('tx \<Rightarrow> push \<Rightarrow> send_result) \<Rightarrow> 'tx sub_request \<Rightarrow> message \<Rightarrow> 'tx registry \<Rightarrow> bool" where
  "push_lost outcome q m r \<longleftrightarrow>
     (case reg_find (req_kind q) (req_name q) (req_conn q) r of
        None \<Rightarrow> False
      | Some s \<Rightarrow> msg_hit q m \<and> skip_through s < msg_id m \<and> outcome (sub_tx s) (msg_frame q m) \<noteq> Sent)"

definition publish_notify :: "('tx \<Rightarrow> push \<Rightarrow> send_result) \<Rightarrow> 'tx sub_request \<Rightarrow> message \<Rightarrow> 'tx hub \<Rightarrow> 'tx hub" where
  "publish_notify outcome q m h =
     (let (_, sent, r) = notify outcome (msg_channel m) (msg_id m) (msg_ts m) (msg_payload m) (hub_reg h)
      in h\<lparr>hub_reg := r, hub_pending := None, hub_notified := hub_notified h @ [msg_id m],
           hub_lost := hub_lost h \<or> push_lost outcome q m (hub_reg h),
           hub_delivered := hub_delivered h
             @ map snd (filter (\<lambda>(d, f). d = req_conn q \<and> frame_of_sub (req_kind q) (req_name q) f) sent)\<rparr>)"

section \<open>Runs\<close>

datatype 'tx hub_event =
    EStore bool bool chars int chars
  | ENotify "'tx \<Rightarrow> push \<Rightarrow> send_result"
  | ESyncFailed
  | ETrim chars int
  | EOther "'tx registry_op"
  | ESubscribe bool

text \<open>The operations of the registry that do not touch the subscription.\<close>

fun other_op :: "'tx sub_request \<Rightarrow> 'tx registry_op \<Rightarrow> bool" where
  "other_op q (Register c k n _) \<longleftrightarrow> (c, k, n) \<noteq> (req_conn q, req_kind q, req_name q)"
| "other_op q (Unregister c k _) \<longleftrightarrow> c \<noteq> req_conn q \<or> k \<noteq> req_kind q"
| "other_op q (RemoveConn c) \<longleftrightarrow> c \<noteq> req_conn q"
| "other_op q (ArmFilter c k n _) \<longleftrightarrow> (c, k, n) \<noteq> (req_conn q, req_kind q, req_name q)"
| "other_op q (Notify _ _ _ _ _) \<longleftrightarrow> False"

text \<open>
  One atomic section; \<open>None\<close> when it cannot run: the write order is taken by a publish, or the id counter is at the end
  of its range. The trim command takes at least one row to keep.
\<close>

fun hub_exec :: "'tx sub_request \<Rightarrow> 'tx hub_event \<Rightarrow> 'tx hub \<Rightarrow> 'tx hub option" where
  "hub_exec q (EStore iok dok channel ts body) h =
     (if hub_pending h = None \<and> query_max_id (hub_rows h) < i64_max then Some (publish_store iok dok channel ts body h)
      else None)"
| "hub_exec q (ENotify outcome) h =
     (case hub_pending h of None \<Rightarrow> None | Some m \<Rightarrow> Some (publish_notify outcome q m h))"
| "hub_exec q ESyncFailed h =
     (case hub_pending h of None \<Rightarrow> None | Some m \<Rightarrow> Some (h\<lparr>hub_pending := None\<rparr>))"
| "hub_exec q (ETrim channel keep) h =
     (if hub_pending h = None \<and> 1 \<le> keep then Some (h\<lparr>hub_rows := snd (store_trim channel keep (hub_rows h))\<rparr>)
      else None)"
| "hub_exec q (EOther x) h =
     (if other_op q x then Some (h\<lparr>hub_reg := apply_op x (hub_reg h)\<rparr>) else None)"
| "hub_exec q (ESubscribe ok) h = Some (subscribe_step ok q h)"

fun hub_run :: "'tx sub_request \<Rightarrow> 'tx hub_event list \<Rightarrow> 'tx hub \<Rightarrow> 'tx hub option" where
  "hub_run q [] h = Some h"
| "hub_run q (e # es) h = (case hub_exec q e h of None \<Rightarrow> None | Some h' \<Rightarrow> hub_run q es h')"

text \<open>A server that starts empty; the messages and subscribers of others come with the run.\<close>

definition hub_new :: "'tx hub" where
  "hub_new =
     \<lparr>hub_rows = [], hub_reg = registry_new, hub_pending = None, hub_pc = AtStart, hub_delivered = [], hub_stored = [],
      hub_notified = [], hub_from = (0, 0), hub_lost = False\<rparr>"

end
