(* ===== verification/Subscribe_Props.thy ===== *)
theory Subscribe_Props
  imports Subscribe
begin

text \<open>
  The delivery of messages to a subscription across the replay and the live stream: in every interleaving of the
  subscribe handler with publishes, trims and the operations of other connections, in order and at most once, and without a
  gap when the replay ran to its end and no live push was refused. A replay that meets a trimmed range ends early and can
  leave a gap: the last theorem.
\<close>

section \<open>The store\<close>

text \<open>Rows in id order, with ids of the id column.\<close>

definition ids_ok :: "message list \<Rightarrow> bool" where
  "ids_ok rows \<longleftrightarrow> sorted_wrt (<) (map msg_id rows) \<and> (\<forall>m \<in> set rows. 0 < msg_id m \<and> msg_id m \<le> i64_max)"

lemma query_max_id_Max: "query_max_id rows = Max (insert 0 (msg_id ` set rows))"
proof -
  have "foldl (\<lambda>a m. max a (msg_id m)) i rows = Max (insert i (msg_id ` set rows))" for i
  proof (induction rows arbitrary: i)
    case (Cons m rows)
    then show ?case by (simp add: insert_commute [of "max i (msg_id m)"]) (cases rows; simp add: max.assoc)
  qed simp
  then show ?thesis by (simp add: query_max_id_def)
qed

lemma query_max_id_ge: "m \<in> set rows \<Longrightarrow> msg_id m \<le> query_max_id rows"
  and query_max_id_nonneg: "0 \<le> query_max_id rows"
  by (simp_all add: query_max_id_Max)

lemma query_max_id_is: "query_max_id rows = 0 \<or> (\<exists>m \<in> set rows. msg_id m = query_max_id rows)"
  using Max_in [of "insert 0 (msg_id ` set rows)"] by (auto simp: query_max_id_Max)

lemma query_max_id_snoc: "query_max_id (rows @ [m]) = max (query_max_id rows) (msg_id m)"
  by (simp add: query_max_id_def)

lemma query_max_id_eqI:
  assumes "\<And>m. m \<in> set rows \<Longrightarrow> msg_id m \<le> i" "i = 0 \<or> (\<exists>m \<in> set rows. msg_id m = i)" "0 \<le> i"
  shows "query_max_id rows = i"
  using assms by (auto simp: query_max_id_Max intro!: Max_eqI)

lemma query_max_id_le: "ids_ok rows \<Longrightarrow> query_max_id rows \<le> i64_max"
  using query_max_id_is [of rows] by (auto simp: ids_ok_def i64_max_def)

lemma ids_ok_filter: "ids_ok rows \<Longrightarrow> ids_ok (filter P rows)"
  by (auto simp: ids_ok_def sorted_wrt_map intro: sorted_wrt_filter)

lemma ids_ok_unique: "ids_ok rows \<Longrightarrow> a \<in> set rows \<Longrightarrow> b \<in> set rows \<Longrightarrow> msg_id a = msg_id b \<Longrightarrow> a = b"
  by (auto simp: ids_ok_def strict_sorted_iff distinct_map dest: inj_onD)

lemma ids_ok_snoc: "ids_ok rows \<Longrightarrow> query_max_id rows < msg_id m \<Longrightarrow> msg_id m \<le> i64_max \<Longrightarrow> ids_ok (rows @ [m])"
  using query_max_id_nonneg [of rows] by (force simp: ids_ok_def sorted_wrt_append dest: query_max_id_ge)

lemma store_insert_ok:
  assumes "ids_ok rows" "query_max_id rows < i64_max" "store_insert iok dok ch ts body rows = (res, rows')"
  defines "m \<equiv> \<lparr>msg_id = query_max_id rows + 1, msg_channel = ch, msg_ts = ts, msg_payload = body\<rparr>"
  shows "ids_ok rows'" "set rows' \<subseteq> insert m (set rows)" "\<not> iok \<Longrightarrow> rows' = rows \<and> isl res"
    "iok \<Longrightarrow> m \<in> set rows' \<and> query_max_id rows' = msg_id m"
proof -
  let ?keep = "keep_rows_for (str_len body)"
  have new: "ids_ok (rows @ [m])" using ids_ok_snoc [OF assms(1), of m] assms(2) by (simp add: m_def)
  have r: "rows' = (if iok then (if 0 < msg_id m - max ?keep 1 \<and> dok
      then filter (\<lambda>x. \<not> msg_id x \<le> msg_id m - max ?keep 1) (rows @ [m]) else rows @ [m]) else rows)"
    using assms(3) by (auto simp: store_insert_def store_insert_keeping_def Let_def m_def split: if_splits)
  show "ids_ok rows'" using new assms(1) ids_ok_filter [OF new] by (simp only: r split: if_split) blast
  show sub: "set rows' \<subseteq> insert m (set rows)" by (auto simp: r)
  show "\<not> iok \<Longrightarrow> rows' = rows \<and> isl res"
    using assms(3) by (auto simp: store_insert_def store_insert_keeping_def)
  assume iok
  then have mem: "m \<in> set rows'" by (auto simp: r)
  moreover have "query_max_id rows' = msg_id m"
  proof (rule query_max_id_eqI)
    show "msg_id x \<le> msg_id m" if "x \<in> set rows'" for x
      using that sub query_max_id_ge [of x rows] by (auto simp: m_def)
    show "msg_id m = 0 \<or> (\<exists>x \<in> set rows'. msg_id x = msg_id m)" using mem by blast
    show "0 \<le> msg_id m" using query_max_id_nonneg [of rows] by (simp add: m_def)
  qed
  ultimately show "m \<in> set rows' \<and> query_max_id rows' = msg_id m" by simp
qed

lemma store_trim_ok:
  fixes ch
  assumes "ids_ok rows" "1 \<le> keep"
  defines "rows' \<equiv> snd (store_trim ch keep rows)"
  shows "ids_ok rows'" "set rows' \<subseteq> set rows" "query_max_id rows' = query_max_id rows"
proof -
  let ?ids = "map msg_id (rev (filter (\<lambda>m. msg_channel m = ch) rows))"
  have rows': "rows' = (if take (nat keep) ?ids = [] then rows
      else filter (\<lambda>m. \<not> (msg_channel m = ch \<and> msg_id m < List.last (take (nat keep) ?ids))) rows)"
    by (simp add: rows'_def store_trim_def Let_def)
  then show sub: "ids_ok rows'" "set rows' \<subseteq> set rows" using assms(1) ids_ok_filter by auto
  show "query_max_id rows' = query_max_id rows"
  proof (rule query_max_id_eqI)
    show "msg_id m \<le> query_max_id rows" if "m \<in> set rows'" for m
      using that sub by (auto intro: query_max_id_ge)
    have "m \<in> set rows'" if "m \<in> set rows" "msg_id m = query_max_id rows" for m
    proof -
      have "List.last (take (nat keep) ?ids) \<le> query_max_id rows" if "take (nat keep) ?ids \<noteq> []"
        using in_set_takeD [OF last_in_set [OF that]] query_max_id_ge [of _ rows] by fastforce
      then show ?thesis using that by (auto simp: rows')
    qed
    then show "query_max_id rows = 0 \<or> (\<exists>m \<in> set rows'. msg_id m = query_max_id rows)"
      using query_max_id_is [of rows] by auto
  qed (rule query_max_id_nonneg)
qed

lemma sorted_take_all:
  assumes "sorted_wrt (<) (map msg_id xs)" "take n xs \<noteq> []" "m \<in> set xs" "msg_id m \<le> msg_id (List.last (take n xs))"
  shows "m \<in> set (take n xs)"
proof (rule ccontr)
  assume "m \<notin> set (take n xs)"
  then have "m \<in> set (drop n xs)" using assms(3) by (metis Un_iff append_take_drop_id set_append)
  moreover have "sorted_wrt (<) (map msg_id (take n xs) @ map msg_id (drop n xs))"
    using assms(1) by (simp flip: map_append)
  ultimately have "msg_id (List.last (take n xs)) < msg_id m"
    using last_in_set [OF assms(2)] by (auto simp: sorted_wrt_append)
  with assms(4) show False by simp
qed

lemma sorted_last: "sorted_wrt (<) (map msg_id xs) \<Longrightarrow> m \<in> set xs \<Longrightarrow> msg_id m \<le> msg_id (List.last xs)"
  by (induction xs) (auto simp: less_imp_le)

text \<open>A chunk holds the stored rows after the cursor up to its last id, in order.\<close>

lemma chunk_ok:
  assumes "ids_ok rows" "chunk = query_history_chunk c w l rows" "chunk \<noteq> []"
  shows "sorted_wrt (<) (map msg_id chunk)" "set chunk \<subseteq> set rows"
    "m \<in> set chunk \<Longrightarrow> c < msg_id m \<and> msg_id m \<le> msg_id (List.last chunk)"
    "m \<in> set rows \<Longrightarrow> c < msg_id m \<Longrightarrow> msg_id m \<le> msg_id (List.last chunk) \<Longrightarrow> m \<in> set chunk"
proof -
  let ?f = "filter (\<lambda>m. c < msg_id m \<and> msg_id m \<le> w) rows"
  have chunk: "chunk = take (nat l) ?f" using assms(2,3) by (auto simp: query_history_chunk_def split: if_splits)
  have s: "sorted_wrt (<) (map msg_id ?f)" using ids_ok_filter [OF assms(1)] by (auto simp: ids_ok_def)
  show sorted: "sorted_wrt (<) (map msg_id chunk)" using s by (simp add: chunk sorted_wrt_take flip: take_map)
  show "set chunk \<subseteq> set rows" by (auto simp: chunk dest: in_set_takeD)
  show "m \<in> set chunk \<Longrightarrow> c < msg_id m \<and> msg_id m \<le> msg_id (List.last chunk)"
    using sorted_last [OF sorted] by (auto simp: chunk dest: in_set_takeD)
  assume m: "m \<in> set rows" "c < msg_id m" "msg_id m \<le> msg_id (List.last chunk)"
  have "List.last chunk \<in> set ?f" using last_in_set [OF assms(3)] by (auto simp: chunk dest: in_set_takeD)
  then have "m \<in> set ?f" using m by auto
  then show "m \<in> set chunk" using sorted_take_all [OF s _ _ m(3) [unfolded chunk]] assms(3) by (simp add: chunk)
qed


section \<open>The invariant\<close>

abbreviation own_sub :: "'tx sub_request \<Rightarrow> 'tx hub \<Rightarrow> 'tx sub option" where
  "own_sub q h \<equiv> reg_find (req_kind q) (req_name q) (req_conn q) (hub_reg h)"

abbreviation delivered_ids :: "'tx hub \<Rightarrow> int set" where
  "delivered_ids h \<equiv> push_id ` set (hub_delivered h)"

text \<open>
  During the replay: the live stream is shut, the delivered ids are at most the progress, and every matching stored
  message between the start and the cursor is delivered or among the rows still to send.
\<close>

definition replay_ok :: "'tx sub_request \<Rightarrow> 'tx hub \<Rightarrow> replay_vars \<Rightarrow> message list \<Rightarrow> bool" where
  "replay_ok q h v ms \<longleftrightarrow>
     (\<exists>s. own_sub q h = Some s \<and> skip_through s = i64_max)
     \<and> (\<forall>i \<in> delivered_ids h. i \<le> rv_progress v) \<and> fst (hub_from h) \<le> rv_progress v \<and> rv_progress v \<le> rv_cursor v
     \<and> rv_cursor v \<le> max (fst (hub_from h)) (query_max_id (hub_rows h))
     \<and> sorted_wrt (<) (map msg_id ms)
     \<and> (\<forall>m \<in> set ms. m \<in> set (hub_stored h) \<and> rv_progress v < msg_id m \<and> msg_id m \<le> rv_cursor v)
     \<and> (\<forall>m \<in> set (hub_rows h). msg_hit q m \<and> fst (hub_from h) < msg_id m \<and> msg_id m \<le> rv_cursor v
          \<longrightarrow> msg_id m \<in> delivered_ids h \<or> m \<in> set ms)"

definition live_ok :: "'tx sub_request \<Rightarrow> 'tx hub \<Rightarrow> bool \<Rightarrow> bool" where
  "live_ok q h full \<longleftrightarrow>
     (case own_sub q h of
        None \<Rightarrow> hub_lost h
      | Some s \<Rightarrow>
          (\<forall>i \<in> delivered_ids h. i \<le> skip_through s \<or> i \<in> set (hub_notified h))
          \<and> (fst (hub_from h) \<le> snd (hub_from h) \<longrightarrow> fst (hub_from h) \<le> skip_through s)
          \<and> (full \<longrightarrow> skip_through s \<le> query_max_id (hub_rows h))
          \<and> (full \<and> \<not> hub_lost h \<longrightarrow>
               (\<forall>m \<in> set (hub_rows h). msg_hit q m \<and> fst (hub_from h) < msg_id m
                  \<and> (msg_id m \<le> skip_through s \<or> msg_id m \<in> set (hub_notified h)) \<longrightarrow> msg_id m \<in> delivered_ids h)))"

definition pc_ok :: "'tx sub_request \<Rightarrow> 'tx hub \<Rightarrow> bool" where
  "pc_ok q h \<longleftrightarrow>
     (case hub_pc h of
        AtStart \<Rightarrow> own_sub q h = None \<and> hub_delivered h = []
      | AtRefused \<Rightarrow> own_sub q h = None \<and> hub_delivered h = []
      | AtReplay v \<Rightarrow> replay_ok q h v []
      | AtSend v ms _ \<Rightarrow> replay_ok q h v ms
      | AtSample v \<Rightarrow> replay_ok q h v []
      | AtClose v \<Rightarrow> replay_ok q h v []
      | AtLeave v \<Rightarrow> (\<exists>s. own_sub q h = Some s \<and> skip_through s = i64_max)
          \<and> (\<forall>i \<in> delivered_ids h. i \<le> rv_progress v) \<and> fst (hub_from h) \<le> rv_progress v
      | AtDone full \<Rightarrow> live_ok q h full)"

definition base_ok :: "'tx sub_request \<Rightarrow> 'tx hub \<Rightarrow> bool" where
  "base_ok q h \<longleftrightarrow> ids_ok (hub_rows h) \<and> set (hub_rows h) \<subseteq> set (hub_stored h) \<and> counted (hub_reg h)
     \<and> ids_ok (hub_stored h) \<and> query_max_id (hub_stored h) = query_max_id (hub_rows h)
     \<and> (\<forall>i \<in> set (hub_notified h). i \<le> query_max_id (hub_rows h))
     \<and> (\<forall>m. hub_pending h = Some m \<longrightarrow> m \<in> set (hub_rows h) \<and> msg_id m = query_max_id (hub_rows h)
          \<and> (\<forall>i \<in> set (hub_notified h). i < msg_id m))
     \<and> snd (hub_from h) \<le> query_max_id (hub_rows h)"

definition sent_ok :: "'tx sub_request \<Rightarrow> 'tx hub \<Rightarrow> bool" where
  "sent_ok q h \<longleftrightarrow> sorted_wrt (<) (map push_id (hub_delivered h))
     \<and> (\<forall>f \<in> set (hub_delivered h). push_id f \<le> query_max_id (hub_rows h)
          \<and> (\<exists>m \<in> set (hub_stored h). msg_hit q m \<and> f = msg_frame q m)
          \<and> (fst (hub_from h) \<le> snd (hub_from h) \<longrightarrow> fst (hub_from h) < push_id f))"

definition hub_ok :: "'tx sub_request \<Rightarrow> 'tx hub \<Rightarrow> bool" where
  "hub_ok q h \<longleftrightarrow> base_ok q h \<and> sent_ok q h \<and> pc_ok q h"

text \<open>A change of the store that keeps the newest id, adds only messages with a larger one, or removes messages.\<close>

lemma store_changed:
  assumes "hub_ok q h" "ids_ok rows" "set rows \<subseteq> set stored" "set (hub_stored h) \<subseteq> set stored"
    "ids_ok stored" "query_max_id stored = query_max_id rows" "query_max_id (hub_rows h) \<le> query_max_id rows"
    "\<And>m. m \<in> set rows \<Longrightarrow> m \<notin> set (hub_rows h) \<Longrightarrow> query_max_id (hub_rows h) < msg_id m"
    "\<And>m. pend = Some m \<Longrightarrow> m \<in> set rows \<and> msg_id m = query_max_id rows \<and> query_max_id (hub_rows h) < msg_id m"
  defines "h' \<equiv> h\<lparr>hub_rows := rows, hub_stored := stored, hub_pending := pend\<rparr>"
  shows "hub_ok q h'"
proof -
  have base: "base_ok q h" and sent: "sent_ok q h" and pc: "pc_ok q h" using assms(1) by (auto simp: hub_ok_def)
  have "base_ok q h'" using base assms(2-9) unfolding base_ok_def h'_def by fastforce
  moreover have "sent_ok q h'" using sent assms(4,7) unfolding sent_ok_def h'_def by fastforce
  moreover have "pc_ok q h'"
  proof -
    have replay: "replay_ok q h v ms \<Longrightarrow> replay_ok q h' v ms" for v ms
      using assms(4,7,8) unfolding replay_ok_def h'_def by (auto 0 3 simp: subset_iff dest: assms(8))
    have live: "live_ok q h full \<Longrightarrow> live_ok q h' full" for full
      using assms(7,8) base unfolding live_ok_def h'_def base_ok_def by (fastforce split: option.splits)
    show ?thesis using pc replay live unfolding pc_ok_def h'_def by (auto split: sub_pc.splits)
  qed
  ultimately show ?thesis by (simp add: hub_ok_def)
qed


lemma hub_ok_store:
  assumes "hub_ok q h" "hub_pending h = None" "query_max_id (hub_rows h) < i64_max"
  shows "hub_ok q (publish_store iok dok ch ts body h)"
proof -
  define m where "m = \<lparr>msg_id = query_max_id (hub_rows h) + 1, msg_channel = ch, msg_ts = ts, msg_payload = body\<rparr>"
  obtain res rows where ins: "store_insert iok dok ch ts body (hub_rows h) = (res, rows)" by fastforce
  have base: "base_ok q h" using assms(1) by (simp add: hub_ok_def)
  note s = store_insert_ok [OF _ assms(3) ins, folded m_def]
  have new: "publish_store iok dok ch ts body h = h\<lparr>hub_rows := rows,
      hub_stored := (if iok then hub_stored h @ [m] else hub_stored h), hub_pending := (case res of Inl _ \<Rightarrow> None | Inr _ \<Rightarrow> Some m)\<rparr>"
    by (cases res) (simp_all add: publish_store_def ins m_def Let_def)
  show ?thesis unfolding new
  proof (rule store_changed [OF assms(1)])
    show "ids_ok rows" using s(1) base by (simp add: base_ok_def)
    show "set rows \<subseteq> set (if iok then hub_stored h @ [m] else hub_stored h)"
      using s(2,3) base by (cases iok) (auto simp: base_ok_def)
    have top: "query_max_id rows = (if iok then msg_id m else query_max_id (hub_rows h))"
      using s(3,4) base by (auto simp: base_ok_def)
    have st: "ids_ok (hub_stored h)" "query_max_id (hub_stored h) = query_max_id (hub_rows h)" using base by (auto simp: base_ok_def)
    show "ids_ok (if iok then hub_stored h @ [m] else hub_stored h)"
      using st ids_ok_snoc [OF st(1), of m] assms(3) by (simp add: m_def)
    show "query_max_id (if iok then hub_stored h @ [m] else hub_stored h) = query_max_id rows"
      using st by (simp add: top query_max_id_snoc) (simp add: m_def)
    show "query_max_id (hub_rows h) \<le> query_max_id rows"
      using s(3,4) base by (cases iok) (auto simp: base_ok_def m_def)
    show "query_max_id (hub_rows h) < msg_id x" if "x \<in> set rows" "x \<notin> set (hub_rows h)" for x
      using that s(2) base by (auto simp: base_ok_def m_def)
    show "x \<in> set rows \<and> msg_id x = query_max_id rows
        \<and> query_max_id (hub_rows h) < msg_id x" if "(case res of Inl _ \<Rightarrow> None | Inr _ \<Rightarrow> Some m) = Some x" for x
      using that s(3,4) base by (cases iok) (auto simp: base_ok_def m_def split: sum.splits)
  qed auto
qed

lemma hub_ok_trim:
  assumes "hub_ok q h" "hub_pending h = None" "1 \<le> keep"
  shows "hub_ok q (h\<lparr>hub_rows := snd (store_trim ch keep (hub_rows h))\<rparr>)"
proof -
  let ?rows = "snd (store_trim ch keep (hub_rows h))"
  have base: "base_ok q h" using assms(1) by (simp add: hub_ok_def)
  note s = store_trim_ok [OF _ assms(3), of "hub_rows h" ch]
  have "hub_ok q (h\<lparr>hub_rows := ?rows, hub_stored := hub_stored h, hub_pending := None\<rparr>)"
    by (rule store_changed [OF assms(1)]) (use s base in \<open>auto simp: base_ok_def\<close>)
  moreover have "h\<lparr>hub_rows := ?rows, hub_stored := hub_stored h, hub_pending := None\<rparr> = h\<lparr>hub_rows := ?rows\<rparr>"
    using assms(2) by (cases h) simp
  ultimately show ?thesis by metis
qed

lemma hub_ok_sync_failed: "hub_ok q h \<Longrightarrow> hub_ok q (h\<lparr>hub_pending := None\<rparr>)"
  by (auto simp: hub_ok_def base_ok_def sent_ok_def pc_ok_def replay_ok_def live_ok_def split: sub_pc.splits option.splits)

text \<open>A change of the registry that keeps the subscription.\<close>

lemma hub_ok_registry:
  assumes "hub_ok q h" "counted r" "reg_find (req_kind q) (req_name q) (req_conn q) r = own_sub q h"
  shows "hub_ok q (h\<lparr>hub_reg := r\<rparr>)"
  using assms by (auto simp: hub_ok_def base_ok_def sent_ok_def pc_ok_def replay_ok_def live_ok_def split: sub_pc.splits option.splits)

lemma other_op_find:
  assumes "counted r" "other_op q x"
  shows "reg_find (req_kind q) (req_name q) (req_conn q) (apply_op x r) = reg_find (req_kind q) (req_name q) (req_conn q) r"
proof (cases x)
  case (Register c k n t)
  show ?thesis
  proof (cases rule: register_cases [of c k n t r])
    case (2 r')
    then show ?thesis using register_find [OF 2(1)] assms(2) Register by auto
  qed (simp add: Register)
qed (use assms in \<open>auto simp: unregister_find remove_conn_find arm_filter_find\<close>)

lemma hub_ok_other: "hub_ok q h \<Longrightarrow> other_op q x \<Longrightarrow> hub_ok q (h\<lparr>hub_reg := apply_op x (hub_reg h)\<rparr>)"
proof (rule hub_ok_registry)
  assume "hub_ok q h" "other_op q x"
  then have c: "counted (hub_reg h)" by (simp add: hub_ok_def base_ok_def)
  then show "counted (apply_op x (hub_reg h))" by (cases x) (simp_all add: counted_steps)
  show "reg_find (req_kind q) (req_name q) (req_conn q) (apply_op x (hub_reg h)) = own_sub q h"
    using other_op_find [OF c \<open>other_op q x\<close>] .
qed

text \<open>The delivery of the pending message.\<close>

lemma publish_notify_eq:
  assumes "counted (hub_reg h)"
  shows "publish_notify outcome q m h =
    h\<lparr>hub_reg := snd (snd (notify outcome (msg_channel m) (msg_id m) (msg_ts m) (msg_payload m) (hub_reg h))),
      hub_pending := None, hub_notified := hub_notified h @ [msg_id m],
      hub_lost := hub_lost h \<or> push_lost outcome q m (hub_reg h),
      hub_delivered := hub_delivered h @ (case own_sub q h of None \<Rightarrow> []
        | Some s \<Rightarrow> if msg_hit q m \<and> skip_through s < msg_id m \<and> outcome (sub_tx s) (msg_frame q m) = Sent then [msg_frame q m] else [])\<rparr>"
  using notify_sent [OF assms, of "req_conn q" "req_kind q" "req_name q" outcome m]
  by (auto simp: publish_notify_def msg_hit_def msg_frame_def Let_def split_def split: option.splits)

lemma push_id_frame [simp]: "push_id (msg_frame q m) = msg_id m"
  by (simp add: msg_frame_def sub_frame_def push_frame_def)

lemma hub_ok_notify:
  assumes "hub_ok q h" "hub_pending h = Some m"
  shows "hub_ok q (publish_notify outcome q m h)"
proof -
  have base: "base_ok q h" and sent: "sent_ok q h" and pc: "pc_ok q h" using assms(1) by (auto simp: hub_ok_def)
  have c: "counted (hub_reg h)" and rows: "m \<in> set (hub_rows h)" "ids_ok (hub_rows h)"
    and m: "m \<in> set (hub_stored h)" "msg_id m = query_max_id (hub_rows h)"
      "\<And>i. i \<in> set (hub_notified h) \<Longrightarrow> i < msg_id m" "msg_id m \<le> i64_max"
    using base assms(2) query_max_id_le [of "hub_rows h"] by (auto simp: base_ok_def)
  let ?h = "publish_notify outcome q m h"
  have find: "own_sub q ?h = (case own_sub q h of None \<Rightarrow> None
     | Some s \<Rightarrow> if msg_hit q m \<and> skip_through s < msg_id m \<and> outcome (sub_tx s) (msg_frame q m) = Closed then None else Some s)"
    using notify_find [OF c, of "req_kind q" "req_name q" "req_conn q" outcome m]
    by (cases "own_sub q h") (simp_all add: publish_notify_eq [OF c] msg_hit_def msg_frame_def)
  have b: "base_ok q ?h" using base m
    by (auto simp: base_ok_def publish_notify_eq [OF c] counted_notify)
  consider "own_sub q h = None" | s where "own_sub q h = Some s" "\<not> skip_through s < msg_id m"
    | s full where "own_sub q h = Some s" "skip_through s < msg_id m" "hub_pc h = AtDone full"
    using pc m(4) by (cases "own_sub q h"; cases "hub_pc h") (force simp: pc_ok_def replay_ok_def)+
  then show ?thesis
  proof cases
    case 1
    then have "sent_ok q ?h" "pc_ok q ?h"
      using sent pc find by (auto simp: publish_notify_eq [OF c] sent_ok_def pc_ok_def replay_ok_def live_ok_def push_lost_def split: sub_pc.splits option.splits)
    with b show ?thesis by (simp add: hub_ok_def)
  next
    case (2 s)
    then have "sent_ok q ?h" "pc_ok q ?h"
      using sent pc find by (auto simp: publish_notify_eq [OF c] sent_ok_def pc_ok_def replay_ok_def live_ok_def push_lost_def split: sub_pc.splits option.splits)
    with b show ?thesis by (simp add: hub_ok_def)
  next
    case (3 s full)
    have live: "live_ok q h full" using pc 3(3) by (simp add: pc_ok_def)
    have above: "i < msg_id m" if "i \<in> delivered_ids h" for i
      using live that 3 m(3) by (force simp: live_ok_def)
    have "sent_ok q ?h" using sent above live 3 m
      by (auto simp: publish_notify_eq [OF c] sent_ok_def sorted_wrt_append live_ok_def)
    moreover have "live_ok q ?h full"
    proof (cases "msg_hit q m")
      case False
      then have "msg_id x \<noteq> msg_id m" if "x \<in> set (hub_rows h)" "msg_hit q x" for x
        using ids_ok_unique [OF rows(2) that(1) rows(1)] that(2) by blast
      then show ?thesis using live find 3 False unfolding live_ok_def
        by (auto simp: publish_notify_eq [OF c] push_lost_def)
    next
      case hit: True
      show ?thesis
      proof (cases "outcome (sub_tx s) (msg_frame q m)")
        case Sent
        then show ?thesis using live find 3 hit unfolding live_ok_def
          by (auto simp: publish_notify_eq [OF c] push_lost_def)
      next
        case Full
        then show ?thesis using live find 3 hit unfolding live_ok_def
          by (auto simp: publish_notify_eq [OF c] push_lost_def)
      next
        case Closed
        then show ?thesis using find 3 hit unfolding live_ok_def
          by (simp add: publish_notify_eq [OF c] push_lost_def)
      qed
    qed
    ultimately show ?thesis using b 3(3) by (simp add: hub_ok_def pc_ok_def publish_notify_eq [OF c])
  qed
qed


text \<open>The steps of the handler.\<close>

lemma hub_ok_pc:
  assumes "hub_ok q h" "pc_ok q (h\<lparr>hub_pc := p\<rparr>)"
  shows "hub_ok q (h\<lparr>hub_pc := p\<rparr>)"
  using assms by (auto simp: hub_ok_def base_ok_def sent_ok_def)

lemma replay_ok_pc [simp]: "replay_ok q (h\<lparr>hub_pc := p\<rparr>) v ms = replay_ok q h v ms"
  by (simp add: replay_ok_def)

lemma replay_ok_vars:
  "replay_ok q h (v\<lparr>rv_watermark := w\<rparr>) ms = replay_ok q h v ms" "replay_ok q h (chunk_advance chunk v) ms = replay_ok q h v ms"
  by (simp_all add: replay_ok_def chunk_advance_def)

lemma hub_ok_begin:
  assumes "hub_ok q h" "hub_pc h = AtStart"
  shows "hub_ok q (subscribe_begin q h)"
proof -
  have base: "base_ok q h" and none: "own_sub q h = None" "hub_delivered h = []"
    using assms by (auto simp: hub_ok_def pc_ok_def)
  show ?thesis
  proof (cases rule: register_cases [of "req_conn q" "req_kind q" "req_name q" "req_tx q" "hub_reg h"])
    case (1 e)
    then have "subscribe_begin q h = h\<lparr>hub_pc := AtRefused\<rparr>" by (simp add: subscribe_begin_def)
    then show ?thesis using hub_ok_pc [OF assms(1), of AtRefused] none by (simp add: pc_ok_def)
  next
    case (2 r)
    have c: "counted r" using counted_register [of "hub_reg h" "req_conn q" "req_kind q" "req_name q" "req_tx q"] base
      by (simp add: base_ok_def 2(1))
    show ?thesis using base none c
      by (auto simp: subscribe_begin_def 2(1) Let_def hub_ok_def base_ok_def sent_ok_def pc_ok_def replay_ok_def
          register_find [OF 2(1)])
  qed
qed

lemma hub_ok_read:
  assumes "hub_ok q h" "hub_pc h = AtReplay v"
  shows "hub_ok q (subscribe_read ok v h)"
proof -
  have base: "base_ok q h" and r: "replay_ok q h v []" using assms by (auto simp: hub_ok_def pc_ok_def)
  let ?chunk = "query_history_chunk (rv_cursor v) (rv_watermark v) (win_rows (rv_window v)) (hub_rows h)"
  have leave: "hub_ok q (h\<lparr>hub_pc := AtLeave v\<rparr>)" and sample: "hub_ok q (h\<lparr>hub_pc := AtSample v\<rparr>)"
    using r by (auto intro!: hub_ok_pc [OF assms(1)] simp: pc_ok_def) (auto simp: replay_ok_def)
  have send: "hub_ok q (h\<lparr>hub_pc := AtSend (v\<lparr>rv_cursor := msg_id (List.last ?chunk)\<rparr>) ?chunk ?chunk\<rparr>)" if ne: "?chunk \<noteq> []"
  proof (rule hub_ok_pc [OF assms(1)])
    have s: "ids_ok (hub_rows h)" "set (hub_rows h) \<subseteq> set (hub_stored h)" using base by (auto simp: base_ok_def)
    note ck = chunk_ok [OF s(1) refl ne]
    have "replay_ok q h (v\<lparr>rv_cursor := msg_id (List.last ?chunk)\<rparr>) ?chunk"
      unfolding replay_ok_def
    proof (intro conjI ballI impI)
      show "rv_progress (v\<lparr>rv_cursor := msg_id (List.last ?chunk)\<rparr>) \<le> rv_cursor (v\<lparr>rv_cursor := msg_id (List.last ?chunk)\<rparr>)"
        using r ck(3) [OF last_in_set [OF ne]] by (simp add: replay_ok_def)
      show "rv_cursor (v\<lparr>rv_cursor := msg_id (List.last ?chunk)\<rparr>) \<le> max (fst (hub_from h)) (query_max_id (hub_rows h))"
        using last_in_set [OF ne] ck(2) query_max_id_ge [of "List.last ?chunk" "hub_rows h"] by auto
      show "sorted_wrt (<) (map msg_id ?chunk)" by (rule ck(1))
      fix m assume m: "m \<in> set ?chunk"
      show "m \<in> set (hub_stored h)" using m ck(2) s(2) by blast
      show "rv_progress (v\<lparr>rv_cursor := msg_id (List.last ?chunk)\<rparr>) < msg_id m"
        "msg_id m \<le> rv_cursor (v\<lparr>rv_cursor := msg_id (List.last ?chunk)\<rparr>)"
        using ck(3) [OF m] r by (simp_all add: replay_ok_def)
    next
      fix m assume "m \<in> set (hub_rows h)"
        "msg_hit q m \<and> fst (hub_from h) < msg_id m \<and> msg_id m \<le> rv_cursor (v\<lparr>rv_cursor := msg_id (List.last ?chunk)\<rparr>)"
      then show "msg_id m \<in> delivered_ids h \<or> m \<in> set ?chunk"
        using r ck(4) [of m] by (cases "msg_id m \<le> rv_cursor v") (auto simp: replay_ok_def)
    qed (use r in \<open>auto simp: replay_ok_def\<close>)
    then show "pc_ok q (h\<lparr>hub_pc := AtSend (v\<lparr>rv_cursor := msg_id (List.last ?chunk)\<rparr>) ?chunk ?chunk\<rparr>)" by (simp add: pc_ok_def)
  qed
  show ?thesis using leave sample send by (simp add: subscribe_read_def Let_def)
qed

lemma hub_ok_send:
  assumes "hub_ok q h" "hub_pc h = AtSend v ms chunk"
  shows "hub_ok q (subscribe_send ok q v ms chunk h)"
proof -
  have base: "base_ok q h" and sent: "sent_ok q h" and r: "replay_ok q h v ms" using assms by (auto simp: hub_ok_def pc_ok_def)
  show ?thesis
  proof (cases ms)
    case Nil
    then show ?thesis using r by (auto simp: Let_def pc_ok_def replay_ok_vars intro!: hub_ok_pc [OF assms(1)])
  next
    case (Cons m ms')
    have skip: "hub_ok q (h\<lparr>hub_pc := AtSend v ms' chunk\<rparr>)" if "\<not> msg_hit q m"
      using r that by (intro hub_ok_pc [OF assms(1)]) (auto simp: pc_ok_def replay_ok_def Cons)
    have leave: "hub_ok q (h\<lparr>hub_pc := AtLeave (chunk_advance chunk v)\<rparr>)"
      using r by (intro hub_ok_pc [OF assms(1)]) (auto simp: pc_ok_def replay_ok_def chunk_advance_def)
    have go: "hub_ok q (h\<lparr>hub_delivered := hub_delivered h @ [msg_frame q m],
        hub_pc := AtSend (v\<lparr>rv_progress := msg_id m\<rparr>) ms' chunk\<rparr>)" (is "hub_ok q ?h") if "msg_hit q m"
    proof -
      have m: "m \<in> set (hub_stored h)" "rv_progress v < msg_id m" "msg_id m \<le> rv_cursor v" "fst (hub_from h) < msg_id m"
        "msg_id m \<le> query_max_id (hub_rows h)" "\<And>i. i \<in> delivered_ids h \<Longrightarrow> i < msg_id m"
        using r Cons by (auto simp: replay_ok_def)
      have "base_ok q ?h" using base by (auto simp: base_ok_def)
      moreover have "sent_ok q ?h" using sent m that by (auto simp: sent_ok_def sorted_wrt_append)
      moreover have "pc_ok q ?h" using r m by (auto simp: pc_ok_def replay_ok_def Cons)
      ultimately show ?thesis by (simp add: hub_ok_def)
    qed
    show ?thesis using skip leave go by (simp add: Cons)
  qed
qed

lemma hub_ok_close:
  assumes "hub_ok q h" "hub_pc h = AtClose v"
  shows "hub_ok q (subscribe_close q v h)"
proof -
  have base: "base_ok q h" and sent: "sent_ok q h" and r: "replay_ok q h v []" using assms by (auto simp: hub_ok_def pc_ok_def)
  let ?w = "query_max_id (hub_rows h)"
  let ?h = "h\<lparr>hub_reg := arm_filter (req_conn q) (req_kind q) (req_name q) ?w (hub_reg h), hub_pc := AtDone True\<rparr>"
  have "hub_ok q ?h" if caught: "?w \<le> rv_cursor v"
  proof -
    obtain s where s: "own_sub q h = Some s" using r by (auto simp: replay_ok_def)
    have own: "own_sub q ?h = Some (s\<lparr>skip_through := ?w\<rparr>)" using s by (simp add: arm_filter_find)
    have le: "msg_id m \<le> rv_cursor v" if "m \<in> set (hub_rows h)" for m using query_max_id_ge [OF that] caught by simp
    have "base_ok q ?h" using base by (auto simp: base_ok_def counted_arm_filter)
    moreover have "sent_ok q ?h" using sent by (auto simp: sent_ok_def)
    moreover have "live_ok q ?h True"
      using own sent base r le by (auto simp: live_ok_def sent_ok_def base_ok_def replay_ok_def)
    ultimately show ?thesis by (simp add: hub_ok_def pc_ok_def)
  qed
  moreover have "hub_ok q (h\<lparr>hub_pc := AtReplay (v\<lparr>rv_watermark := ?w\<rparr>)\<rparr>)"
    using r by (intro hub_ok_pc [OF assms(1)]) (simp add: pc_ok_def replay_ok_vars)
  ultimately show ?thesis by (simp add: subscribe_close_def Let_def)
qed

lemma hub_ok_leave:
  assumes "hub_ok q h" "hub_pc h = AtLeave v"
  shows "hub_ok q (subscribe_leave q v h)"
proof -
  have base: "base_ok q h" and sent: "sent_ok q h" and p: "pc_ok q h" using assms by (auto simp: hub_ok_def)
  obtain s where s: "own_sub q h = Some s" using p assms(2) by (auto simp: pc_ok_def)
  show ?thesis using base sent p s assms(2)
    by (auto simp: subscribe_leave_def hub_ok_def base_ok_def sent_ok_def pc_ok_def live_ok_def counted_arm_filter arm_filter_find)
qed

lemma hub_ok_subscribe: "hub_ok q h \<Longrightarrow> hub_ok q (subscribe_step ok q h)"
proof (cases "hub_pc h")
  case (AtSample v)
  assume "hub_ok q h"
  then have "replay_ok q h v []" using AtSample by (simp add: hub_ok_def pc_ok_def)
  then have "hub_ok q (subscribe_sample v h)"
    by (auto simp: subscribe_sample_def Let_def pc_ok_def replay_ok_vars intro!: hub_ok_pc [OF \<open>hub_ok q h\<close>])
  then show ?thesis by (simp add: subscribe_step_def AtSample)
qed (simp_all add: subscribe_step_def hub_ok_begin hub_ok_read hub_ok_send hub_ok_close hub_ok_leave)

lemma hub_ok_exec: "hub_ok q h \<Longrightarrow> hub_exec q e h = Some h' \<Longrightarrow> hub_ok q h'"
  by (cases e) (auto simp: hub_ok_store hub_ok_notify hub_ok_sync_failed hub_ok_trim hub_ok_other hub_ok_subscribe
      split: if_splits option.splits)

lemma hub_ok_run: "hub_ok q h \<Longrightarrow> hub_run q es h = Some h' \<Longrightarrow> hub_ok q h'"
  by (induction es arbitrary: h) (auto split: option.splits dest: hub_ok_exec)

lemma hub_ok_new: "hub_ok q hub_new"
proof -
  have "reg_find k n c registry_new = None" for k n c
    by (simp add: reg_find_def find_sub_def kind_map_def registry_new_def split: sub_kind.splits)
  then show ?thesis
    by (simp add: hub_ok_def hub_new_def base_ok_def sent_ok_def pc_ok_def ids_ok_def registry_new_ok query_max_id_def)
qed

section \<open>Delivery\<close>

text \<open>\<open>C38\<close>: whatever runs in between, a subscription gets its messages in the order of their ids and none twice, only
  messages that were stored and that its name matches, and none up to the id it resumes from (when that id exists). When its
  replay ran to the end and no live push was refused, it has got every matching message after that id that the store still
  holds and whose delivery has run: the replay and the live stream meet without a gap.
\<close>

theorem subscription_exactly_once:
  assumes "hub_run q es hub_new = Some h"
  shows "sorted_wrt (<) (map push_id (hub_delivered h))
    \<and> (\<forall>f \<in> set (hub_delivered h). \<exists>m \<in> set (hub_stored h). msg_hit q m \<and> f = msg_frame q m)
    \<and> (fst (hub_from h) \<le> snd (hub_from h) \<longrightarrow> (\<forall>f \<in> set (hub_delivered h). fst (hub_from h) < push_id f))
    \<and> (hub_pc h = AtDone True \<and> \<not> hub_lost h \<longrightarrow>
         (\<forall>m \<in> set (hub_rows h). msg_hit q m \<and> fst (hub_from h) < msg_id m \<and> msg_id m \<in> set (hub_notified h)
            \<longrightarrow> msg_frame q m \<in> set (hub_delivered h)))"
proof -
  have base: "base_ok q h" and sent: "sent_ok q h" and pc: "pc_ok q h"
    using hub_ok_run [OF hub_ok_new assms] by (auto simp: hub_ok_def)
  have "msg_frame q m \<in> set (hub_delivered h)"
    if m: "m \<in> set (hub_rows h)" "msg_id m \<in> delivered_ids h" for m
  proof -
    obtain m' where m': "m' \<in> set (hub_stored h)" "msg_frame q m' \<in> set (hub_delivered h)" "msg_id m' = msg_id m"
      using sent m(2) by (fastforce simp: sent_ok_def)
    then have "m' = m" using ids_ok_unique [of "hub_stored h" m' m] base m(1) by (auto simp: base_ok_def)
    then show ?thesis using m'(2) by simp
  qed
  moreover have "msg_id m \<in> delivered_ids h" if "hub_pc h = AtDone True" "\<not> hub_lost h" "m \<in> set (hub_rows h)" "msg_hit q m"
      "fst (hub_from h) < msg_id m" "msg_id m \<in> set (hub_notified h)" for m
    using pc that by (auto simp: pc_ok_def live_ok_def split: option.splits)
  ultimately show ?thesis using sent by (auto simp: sent_ok_def)
qed

definition ex_request :: "unit sub_request" where
  "ex_request = \<lparr>req_conn = 7, req_kind = KChannel, req_name = [97], req_after = Some 0, req_tx = ()\<rparr>"

lemmas hub_eval = hub_new_def ex_request_def publish_store_def publish_notify_def push_lost_def store_insert_def
  store_insert_keeping_def query_max_id_def keep_rows_for_def str_len_def char_bytes_def MAX_STORE_ROWS_def MAX_STORE_BYTES_def
  i64_max_def subscribe_step_def subscribe_begin_def subscribe_read_def subscribe_sample_def subscribe_close_def
  subscribe_leave_def register_def find_sub_def kind_map_def set_kind_map_def held_counts_def conn_count_def
  MAX_SUBS_PER_CONN_def MAX_SUBS_TOTAL_def registry_new_def query_history_chunk_def window_new_def window_advance_def
  chunk_advance_def row_bytes_def REPLAY_CHUNK_BYTES_def REPLAY_CHUNK_ROWS_def msg_hit_def name_hit_def msg_frame_def
  sub_frame_def kind_pattern_def push_frame_def frame_of_sub_def notify_def push_subs_def arm_filter_def reg_find_def
  retain_nonempty_def store_trim_def

text \<open>Two messages stored before, a third in the middle of the replay, a fourth after it.\<close>

definition ex_run :: "unit hub_event list" where
  "ex_run =
     [EStore True True [97] 0 [1], ENotify (\<lambda>_ _. Sent), EStore True True [98] 0 [2], ENotify (\<lambda>_ _. Sent)]
     @ [ESubscribe True, ESubscribe True, ESubscribe True]
     @ [EStore True True [97] 0 [3], ENotify (\<lambda>_ _. Sent)]
     @ [ESubscribe True, ESubscribe True, ESubscribe True, ESubscribe True, ESubscribe True] @ [ESubscribe True, ESubscribe True, ESubscribe True, ESubscribe True, ESubscribe True]
     @ [EStore True True [97] 0 [4], ENotify (\<lambda>_ _. Sent)]"

lemma ex_run_result:
  "map_option (\<lambda>h. (hub_pc h, hub_lost h, map push_id (hub_delivered h))) (hub_run ex_request ex_run hub_new)
     = Some (AtDone True, False, [1, 3, 4])"
  by (simp add: ex_run_def Let_def hub_eval)

theorem subscription_exactly_once_witness:
  "\<exists>h. hub_run ex_request ex_run hub_new = Some h \<and> hub_pc h = AtDone True \<and> \<not> hub_lost h
    \<and> map push_id (hub_delivered h) = [1, 3, 4] \<and> sorted_wrt (<) (map push_id (hub_delivered h))"
  using ex_run_result subscription_exactly_once [of ex_request ex_run] by auto

text \<open>
  When the range a replay still has to read is trimmed away, the handler opens the stream where the replay stopped
  without a look at the messages stored in the meantime: one that was delivered while the stream was shut, matches and
  is still stored never reaches the subscriber, though nothing failed.
\<close>

fun smooth_event :: "'tx hub_event \<Rightarrow> bool" where
  "smooth_event (EStore iok dok _ _ _) \<longleftrightarrow> iok \<and> dok"
| "smooth_event (ENotify outcome) \<longleftrightarrow> (\<forall>t f. outcome t f = Sent)"
| "smooth_event ESyncFailed \<longleftrightarrow> False"
| "smooth_event (ETrim _ _) \<longleftrightarrow> True"
| "smooth_event (EOther _) \<longleftrightarrow> True"
| "smooth_event (ESubscribe ok) \<longleftrightarrow> ok"

definition gap_run :: "unit hub_event list" where
  "gap_run =
     [EStore True True [97] 0 [1], ENotify (\<lambda>_ _. Sent), ESubscribe True,
      EStore True True [97] 0 [2], ENotify (\<lambda>_ _. Sent), ETrim [97] 1] @ [ESubscribe True, ESubscribe True]"

lemma gap_run_result:
  "map_option (\<lambda>h. (hub_pc h, hub_lost h, hub_delivered h, hub_rows h, hub_notified h, hub_from h))
       (hub_run ex_request gap_run hub_new)
     = Some (AtDone False, False, [], [\<lparr>msg_id = 2, msg_channel = [97], msg_ts = 0, msg_payload = [2]\<rparr>], [1, 2], (0, 1))"
  by (simp add: gap_run_def Let_def hub_eval)

theorem trimmed_replay_leaves_gap:
  "\<exists>(q :: unit sub_request) es h m. hub_run q es hub_new = Some h \<and> list_all smooth_event es
     \<and> hub_pc h = AtDone False \<and> m \<in> set (hub_rows h) \<and> msg_hit q m \<and> fst (hub_from h) < msg_id m
     \<and> msg_id m \<in> set (hub_notified h) \<and> msg_frame q m \<notin> set (hub_delivered h)"
proof -
  obtain h where h: "hub_run ex_request gap_run hub_new = Some h" "hub_pc h = AtDone False" "hub_delivered h = []"
    "hub_rows h = [\<lparr>msg_id = 2, msg_channel = [97], msg_ts = 0, msg_payload = [2]\<rparr>]" "hub_notified h = [1, 2]" "hub_from h = (0, 1)"
    using gap_run_result by auto
  moreover have "list_all smooth_event gap_run" by (simp add: gap_run_def)
  ultimately show ?thesis
    by (intro exI [of _ ex_request] exI [of _ gap_run] exI [of _ h]
        exI [of _ "\<lparr>msg_id = 2, msg_channel = [97], msg_ts = 0, msg_payload = [2]\<rparr>"])
      (simp add: msg_hit_def name_hit_def ex_request_def)
qed

end
