(* ===== verification/Spec2Isabelle.thy ===== *)
theory Spec2Isabelle
  imports Data_Properties Log_Properties Pager_Scenarios Btree_Scenarios Heap_Properties Frame_Reader Channel Quorum_Properties
    Json_Properties Timestamp_Text Bind_Props Kdf_Properties Window_Properties Subscribe_Props
begin

text \<open>
  A verification of docsql, a document database in Rust: a paged storage engine with a write-ahead log, SQL on top of
  it, and a server with replication, failover and publish/subscribe. The crates are \<open>docsql-core\<close> (storage and
  engine), \<open>docsql-server\<close>, \<open>docsql-web\<close>, \<open>docsql-cli\<close> and \<open>docsql-ffi\<close>; paths below are relative to
  \<open>src/crates\<close>.

  \<^bold>\<open>How the parts interact.\<close> A document is a \<open>Value\<close>. The encoder turns it into bytes, the heap stores the bytes in
  slotted pages and overflow chains, and the index maps keys, ordered by \<open>cmp_values\<close>, to the locators of documents.
  Heap and index reach pages only through a page transaction of the pager: staged pages are logged in the
  write-ahead log, a commit makes them visible in the buffer pool, a background checkpoint brings them to the data
  file, and recovery replays the log. Statements reach the engine over the wire protocol, sealed on keyed connections,
  with parameters bound into the text; the server fences writes by quorum and pushes published messages to
  subscribers.

  \<^bold>\<open>Conventions.\<close> A Rust function is a HOL function of the same name. Fallible code returns a sum, \<open>Inl\<close> the error;
  code that also changes state is a function of type \<open>('s, 'e, 'a) op\<close> that returns the result and the state it
  leaves, also on an error. Machine integers are words where their width matters and \<open>int\<close> or \<open>nat\<close> with the
  bounds written out elsewhere. Hash maps are association lists or functions; strings are their UTF-8 bytes, in the
  publish/subscribe theories their code points. I/O calls have scripted outcomes, so every failure branch of the source is a
  branch of the model. \<open>Prelude\<close> holds the results, byte buffers and the locale of a total comparator.

  \<^bold>\<open>Values and documents\<close> (\<open>docsql-core/src/value.rs\<close>, \<open>encode.rs\<close>, \<open>json.rs\<close>).
  \<open>Values\<close> has the type and the comparison, \<open>Value_Order\<close> shows that it is a total order that compares numbers of
  different types by their exact mathematical values, and interprets the comparator locale on it. \<open>Encode\<close> and
  \<open>Encode_Props\<close> have the codec: round trip, rejection of strict prefixes, field extraction over raw bytes. \<open>Json\<close>,
  \<open>Json_Props\<close> and \<open>Json_Roundtrip\<close> do the same for the JSON text. \<open>Timestamps\<close>, \<open>Timestamp_Props\<close> and
  \<open>Timestamp_Text\<close> have the calendar and the text of timestamps. \<open>Data_Properties\<close> and \<open>Json_Properties\<close> state the
  results, with witnesses over the decimals of \<open>Decimal_Model\<close>.

  \<^bold>\<open>Log and pager\<close> (\<open>wal.rs\<close>, \<open>pager.rs\<close>). \<open>Wal\<close> and \<open>Wal_Props\<close>: frames, checksum, the append path under I/O
  failures, the torn-tail rule. \<open>Pager\<close> and \<open>Pager_Commit\<close>: buffer pool, page transactions, commit, flush,
  checkpoint, undo journal, recovery. \<open>Recovery_Props\<close>, \<open>Atomicity_Props\<close>, \<open>Pager_Props\<close> and \<open>Pager_Growth\<close> show what recovery
  keeps, \<open>Page_Store\<close> the locale that heap and index use, interpreted on the pager. \<open>Log_Properties\<close>,
  \<open>Storage_Properties\<close> and \<open>Pager_Scenarios\<close> state the results: the log stays well formed under every operation and I/O
  failure, acknowledged commits survive on a log without stale bytes, a database opens exactly when its committed images are in range,
  transactions are atomic across crashes, the pool is transparent.

  \<^bold>\<open>Index\<close> (\<open>btree.rs\<close>). \<open>Btree\<close> and \<open>Btree_Ops\<close> are the code; \<open>Btree_Nodes\<close>, \<open>Btree_Tree\<close>, \<open>Btree_Read\<close>,
  \<open>Btree_Search\<close>, \<open>Btree_Insert\<close>, \<open>Btree_Insert_Rec\<close>, \<open>Btree_Delete\<close> and \<open>Btree_Prefix\<close> relate pages to trees and trees to
  sorted lists; \<open>Index_Properties\<close> and \<open>Btree_Scenarios\<close> state the results.

  \<^bold>\<open>Heap\<close> (\<open>heap.rs\<close>). \<open>Heap\<close> and \<open>Heap_Ops\<close> are the code; \<open>Heap_Pages\<close>, \<open>Heap_Props\<close>, \<open>Heap_Read\<close>, \<open>Heap_Insert\<close>,
  \<open>Heap_Remove\<close>, \<open>Heap_Rows\<close> and \<open>Heap_Commit\<close> relate pages to lists of documents; \<open>Heap_Properties\<close> states the results.

  \<^bold>\<open>Statements\<close> (\<open>stmt.rs\<close>, \<open>bind.rs\<close>, \<open>engine/expr.rs\<close>, \<open>engine/agg.rs\<close>, \<open>engine/window.rs\<close>). \<open>Sql_Text\<close>, \<open>Bind\<close>
  and \<open>Bind_Props\<close>: the scan of SQL text, and that bound values stay data. \<open>Arithmetic\<close> and \<open>Arithmetic_Properties\<close>: the
  operators, exact or NULL. \<open>Window\<close>, \<open>Window_Props\<close>, \<open>Window_Frame\<close>, \<open>Window_Slide\<close> and \<open>Window_Properties\<close>: running
  and sliding aggregates against the batch aggregate, with the locales of a loop with an early exit and of a candidate
  deque.

  \<^bold>\<open>Server\<close> (\<open>proto.rs\<close>, \<open>kdf.rs\<close>, and of \<open>docsql-server/src\<close> \<open>crypto.rs\<close>, \<open>conn.rs\<close>, \<open>quorum.rs\<close>, \<open>pubsub.rs\<close>,
  \<open>lib.rs\<close>). \<open>Proto\<close> and \<open>Frame_Reader\<close>: the frame codec and the reader over a stream cut anywhere. \<open>Crypto\<close> and
  \<open>Channel\<close>: sealed frames are accepted in order and once, and nothing else is. \<open>Kdf\<close>, \<open>Kdf_Standards\<close>, \<open>Kdf_Props\<close> and \<open>Kdf_Properties\<close>:
  the hashes equal the standards. \<open>Quorum\<close>, \<open>Quorum_Props\<close> and \<open>Quorum_Properties\<close>: the write fence and failover.
  \<open>Glob\<close>, \<open>Pubsub\<close>, \<open>Pubsub_Props\<close>, \<open>Subscribe\<close> and \<open>Subscribe_Props\<close>: the glob matcher, the registry, and that replay
  and live stream meet in order, without duplicates and without a gap.

  \<^bold>\<open>Bounds.\<close> The recursions of the index count the levels left of the \<open>MAX_TREE_DEPTH + 1\<close> the code allows; the code
  fails at the same point. The chain walks of the heap count the hops left of the limit the code computes. The loops of
  the JSON parser carry a count above the number of bytes left, and every turn consumes one. The glob matcher is a
  partial function that is shown to return always. All other loops are structural or have a termination proof.

  \<^bold>\<open>Parameters.\<close> The \<open>rust_decimal\<close> crate (its values are a type variable, its operations a record with named
  laws), the AES-256-GCM cipher of the \<open>aes_gcm\<close> crate, the text of floats and decimals, and the outcome of I/O and of
  sends to \<open>tokio\<close> channels. Each law is used only as a hypothesis and has a concrete instance in a witness.

  \<^bold>\<open>Not modelled.\<close> The SQL planner and executor (\<open>engine/select.rs\<close> beyond the frame loop, \<open>insert\<close>, \<open>dml\<close>, \<open>ddl\<close>,
  \<open>join\<close>, \<open>subquery\<close>, \<open>trigger\<close>, \<open>merge\<close>, \<open>plan\<close>, \<open>probe\<close> and their neighbours), the T-SQL translation (\<open>tsql.rs\<close>,
  \<open>tsql_batch.rs\<close>) and user administration work on the syntax tree of the \<open>sqlparser\<close> crate, whose definition is not
  part of the repository. The statements of the message store are modelled by their effect on its rows. Replication,
  catch-up, backup and the object store client are network and file I/O around the modelled log and store; the web console,
  the command line and the foreign function interface are clients. Locks inside one storage operation, the query deadline
  and memory exhaustion are left out.
\<close>

end
